(* ===== verification/Prelude.thy ===== *)
theory Prelude
  imports Main "HOL-Library.Multiset" "HOL-Library.Product_Lexorder"
begin

text \<open>
  Shared vocabulary of the development. It fixes how the Rust sources are read:

  \<^item> a \<open>Result<T, E>\<close> is the sum \<open>'e + 'a\<close>; the \<open>?\<close> operator is \<open>and_then\<close>, a guarded early
    return is \<open>ensure\<close>, \<open>Option::ok_or\<close> is \<open>ok_or\<close>;
  \<^item> unsigned integers are \<open>nat\<close> and signed integers are \<open>int\<close>, each with a predicate saying
    that a value is representable at its width; every \<open>checked_*\<close> operation of the sources is
    \<open>checked\<close> applied to the exact result, and arithmetic that the sources leave unchecked is
    written with its wrap-around (\<open>u128_add\<close>, \<open>u128_sub\<close>);
  \<^item> \<open>windows_any\<close> and \<open>windows_find\<close> are \<open>slice::windows(2)\<close> followed by \<open>any\<close> and \<open>find\<close>.
\<close>

named_theorems result_simps \<open>reading successful and failed results\<close>
named_theorems width_defs \<open>definitions of the width predicates\<close>

section \<open>Results\<close>

fun and_then :: "'e + 'a \<Rightarrow> ('a \<Rightarrow> 'e + 'b) \<Rightarrow> 'e + 'b" where
  "and_then (Inl e) f = Inl e"
| "and_then (Inr x) f = f x"

definition ensure :: "bool \<Rightarrow> 'e \<Rightarrow> 'e + unit" where
  "ensure c e = (if c then Inr () else Inl e)"

definition ok_or :: "'a option \<Rightarrow> 'e \<Rightarrow> 'e + 'a" where
  "ok_or x e = (case x of None \<Rightarrow> Inl e | Some v \<Rightarrow> Inr v)"

definition is_ok :: "'e + 'a \<Rightarrow> bool" where
  "is_ok r \<longleftrightarrow> (\<exists>x. r = Inr x)"

lemma and_then_eq_Inr [result_simps]:
  "and_then m f = Inr y \<longleftrightarrow> (\<exists>x. m = Inr x \<and> f x = Inr y)"
  by (cases m) auto

lemma and_then_eq_Inl [result_simps]:
  "and_then m f = Inl e \<longleftrightarrow> m = Inl e \<or> (\<exists>x. m = Inr x \<and> f x = Inl e)"
  by (cases m) auto

lemma ensure_eq_Inr [result_simps]: "ensure c e = Inr u \<longleftrightarrow> c"
  by (simp add: ensure_def)

lemma ensure_eq_Inl [result_simps]: "ensure c e = Inl e' \<longleftrightarrow> \<not> c \<and> e' = e"
  by (auto simp: ensure_def)

lemma ensure_True [simp]: "ensure True e = Inr ()"
  by (simp add: ensure_def)

lemma ensure_False [simp]: "ensure False e = Inl e"
  by (simp add: ensure_def)

lemma ok_or_eq_Inr [result_simps]: "ok_or x e = Inr v \<longleftrightarrow> x = Some v"
  by (auto simp: ok_or_def split: option.splits)

lemma ok_or_eq_Inl [result_simps]: "ok_or x e = Inl e' \<longleftrightarrow> x = None \<and> e' = e"
  by (auto simp: ok_or_def split: option.splits)

lemma ok_or_Some [simp]: "ok_or (Some v) e = Inr v"
  by (simp add: ok_or_def)

lemma ok_or_None [simp]: "ok_or None e = Inl e"
  by (simp add: ok_or_def)

lemma is_ok_simps [simp]: "is_ok (Inr x)" "\<not> is_ok (Inl e)"
  by (auto simp: is_ok_def)

section \<open>Machine widths\<close>

definition fits_u16 :: "nat \<Rightarrow> bool" where
  "fits_u16 n \<longleftrightarrow> n < 2 ^ 16"

definition fits_u32 :: "nat \<Rightarrow> bool" where
  "fits_u32 n \<longleftrightarrow> n < 2 ^ 32"

definition fits_u64 :: "nat \<Rightarrow> bool" where
  "fits_u64 n \<longleftrightarrow> n < 2 ^ 64"

definition fits_u128 :: "nat \<Rightarrow> bool" where
  "fits_u128 n \<longleftrightarrow> n < 2 ^ 128"

definition fits_i32 :: "int \<Rightarrow> bool" where
  "fits_i32 k \<longleftrightarrow> - (2 ^ 31) \<le> k \<and> k < 2 ^ 31"

definition fits_i64 :: "int \<Rightarrow> bool" where
  "fits_i64 k \<longleftrightarrow> - (2 ^ 63) \<le> k \<and> k < 2 ^ 63"

definition fits_i128 :: "int \<Rightarrow> bool" where
  "fits_i128 k \<longleftrightarrow> - (2 ^ 127) \<le> k \<and> k < 2 ^ 127"

declare fits_u16_def [width_defs] fits_u32_def [width_defs] fits_u64_def [width_defs]
  fits_u128_def [width_defs] fits_i32_def [width_defs] fits_i64_def [width_defs]
  fits_i128_def [width_defs]

text \<open>On the 64-bit targets the sources support, \<open>usize\<close> has the width of \<open>u64\<close>.\<close>

abbreviation fits_usize :: "nat \<Rightarrow> bool" where
  "fits_usize \<equiv> fits_u64"

definition i64_min :: int where
  "i64_min = - (2 ^ 63)"

definition i64_max :: int where
  "i64_max = 2 ^ 63 - 1"

text \<open>A checked operation: the exact result where it is representable, \<open>None\<close> otherwise.\<close>

definition checked :: "('a \<Rightarrow> bool) \<Rightarrow> 'a \<Rightarrow> 'a option" where
  "checked fits x = (if fits x then Some x else None)"

definition checked_sub :: "nat \<Rightarrow> nat \<Rightarrow> nat option" where
  "checked_sub a b = (if b \<le> a then Some (a - b) else None)"

lemma checked_eq_Some [simp]: "checked fits x = Some y \<longleftrightarrow> fits x \<and> y = x"
  by (auto simp: checked_def)

lemma checked_eq_None [simp]: "checked fits x = None \<longleftrightarrow> \<not> fits x"
  by (simp add: checked_def)

lemma checked_fits [simp]: "fits x \<Longrightarrow> checked fits x = Some x"
  by simp

lemma checked_sub_eq_Some [simp]: "checked_sub a b = Some c \<longleftrightarrow> b \<le> a \<and> c = a - b"
  by (auto simp: checked_sub_def)

lemma checked_sub_eq_None [simp]: "checked_sub a b = None \<longleftrightarrow> a < b"
  by (auto simp: checked_sub_def)

text \<open>Unchecked \<open>u128\<close> arithmetic, with its wrap-around.\<close>

definition u128_add :: "nat \<Rightarrow> nat \<Rightarrow> nat" where
  "u128_add a b = (a + b) mod 2 ^ 128"

definition u128_sub :: "nat \<Rightarrow> nat \<Rightarrow> nat" where
  "u128_sub a b = (a + (2 ^ 128 - b mod 2 ^ 128)) mod 2 ^ 128"

lemma u128_add_exact: "fits_u128 (a + b) \<Longrightarrow> u128_add a b = a + b"
  by (simp add: u128_add_def fits_u128_def)

lemma u128_sub_exact:
  assumes "b \<le> a" "fits_u128 a"
  shows "u128_sub a b = a - b"
proof -
  have b: "b < 2 ^ 128" and a: "a - b < 2 ^ 128"
    using assms by (simp_all add: fits_u128_def)
  have "a + (2 ^ 128 - b) = (a - b) + 2 ^ 128"
    using assms b by (simp add: fits_u128_def)
  then have "u128_sub a b = ((a - b) + 2 ^ 128) mod 2 ^ 128"
    using b by (simp only: u128_sub_def mod_less)
  then show ?thesis
    using a by (simp only: mod_add_self2 mod_less)
qed

lemma fits_u64_imp_u128: "fits_u64 n \<Longrightarrow> fits_u128 n"
  by (simp add: fits_u64_def fits_u128_def)

lemma fits_u64_mono: "fits_u64 n \<Longrightarrow> m \<le> n \<Longrightarrow> fits_u64 m"
  by (simp add: fits_u64_def)

lemma fits_u128_mono: "fits_u128 n \<Longrightarrow> m \<le> n \<Longrightarrow> fits_u128 m"
  by (simp add: fits_u128_def)

section \<open>Slices\<close>

fun windows_any :: "('a \<Rightarrow> 'a \<Rightarrow> bool) \<Rightarrow> 'a list \<Rightarrow> bool" where
  "windows_any P (x # y # ys) \<longleftrightarrow> P x y \<or> windows_any P (y # ys)"
| "windows_any P _ \<longleftrightarrow> False"

fun windows_find :: "('a \<Rightarrow> 'a \<Rightarrow> bool) \<Rightarrow> 'a list \<Rightarrow> ('a \<times> 'a) option" where
  "windows_find P (x # y # ys) = (if P x y then Some (x, y) else windows_find P (y # ys))"
| "windows_find P _ = None"

lemma windows_find_None: "windows_find P xs = None \<longleftrightarrow> \<not> windows_any P xs"
  by (induction P xs rule: windows_find.induct) auto

text \<open>
  Where the negated relation is transitive, the absence of an offending neighbouring pair is the
  absence of any offending pair.
\<close>

lemma windows_any_sorted_wrt:
  assumes "transp R"
  shows "\<not> windows_any (\<lambda>x y. \<not> R x y) xs \<longleftrightarrow> sorted_wrt R xs"
  using assms
  by (induction "\<lambda>x y. \<not> R x y" xs rule: windows_any.induct)
    (auto dest: transpD)

text \<open>A filter whose accepted elements are exactly a prefix is that prefix.\<close>

lemma filter_eq_take:
  assumes "n \<le> length xs" "\<And>i. i < n \<Longrightarrow> P (xs ! i)"
    and "\<And>i. n \<le> i \<Longrightarrow> i < length xs \<Longrightarrow> \<not> P (xs ! i)"
  shows "filter P xs = take n xs"
proof -
  have "filter P (take n xs) = take n xs"
    using assms(1,2) by (auto simp: filter_id_conv in_set_conv_nth)
  moreover have "filter P (drop n xs) = []"
    using assms(1,3) by (force simp: filter_empty_conv in_set_conv_nth)
  ultimately show ?thesis
    by (metis append_Nil2 append_take_drop_id filter_append)
qed

lemma sum_list_take_le:
  "sum_list (map f (take n xs)) \<le> sum_list (map (f :: 'a \<Rightarrow> nat) xs)"
  by (metis append_take_drop_id le_add1 map_append sum_list_append)

lemma sum_list_take_Suc:
  "n < length xs \<Longrightarrow> sum_list (map f (take (Suc n) xs)) = sum_list (map f (take n xs)) + f (xs ! n)"
  by (simp add: take_Suc_conv_app_nth)

section \<open>Comparisons\<close>

text \<open>\<open>std::cmp::Ordering\<close> and \<open>Ord::cmp\<close>; tuples compare lexicographically (Product_Lexorder).\<close>

datatype Ordering = Less | Equal | Greater

definition cmp :: "'a :: linorder \<Rightarrow> 'a \<Rightarrow> Ordering" where
  "cmp a b = (if a < b then Less else if a = b then Equal else Greater)"

lemma cmp_simps [simp]:
  "cmp a b = Less \<longleftrightarrow> a < b" "cmp a b = Equal \<longleftrightarrow> a = b" "cmp a b = Greater \<longleftrightarrow> b < a"
  by (auto simp: cmp_def)

section \<open>Indexing\<close>

text \<open>Checked indexing: out of range is a panic.\<close>

definition list_at :: "'a list \<Rightarrow> nat \<Rightarrow> 'a option" where
  "list_at xs i = (if i < length xs then Some (xs ! i) else None)"

definition list_put :: "'a list \<Rightarrow> nat \<Rightarrow> 'a \<Rightarrow> 'a list option" where
  "list_put xs i x = (if i < length xs then Some (xs[i := x]) else None)"

section \<open>Checks that may panic\<close>

text \<open>A check gives an error or a result; it is \<^const>\<open>None\<close> where the code panics.\<close>

definition and_check :: "('e + 'a) option \<Rightarrow> ('a \<Rightarrow> ('e + 'b) option) \<Rightarrow> ('e + 'b) option" where
  "and_check m f =
     (case m of None \<Rightarrow> None | Some (Inl e) \<Rightarrow> Some (Inl e) | Some (Inr a) \<Rightarrow> f a)"

lemma and_check_Inr: "and_check m f = Some (Inr y) \<longleftrightarrow> (\<exists>x. m = Some (Inr x) \<and> f x = Some (Inr y))"
  by (auto simp: and_check_def split: option.splits sum.splits)

lemma map_sum_eq_Inr: "map_sum f g x = Inr y \<longleftrightarrow> (\<exists>z. x = Inr z \<and> g z = y)"
  by (cases x) auto

end
