(* ===== verification/BoundedHash.thy ===== *)
theory BoundedHash
  imports Prelude "HOL-Library.Monad_Syntax"
begin

unbundle bit_operations_syntax

text \<open>
  The fixed-capacity hash index of \<open>src/src/bounded_hash.rs\<close>: dense entries, an open-addressed bucket
  array with linear probing, backward-shift deletion and dense swap removal. A call that would
  panic (an index out of range, a failed assertion) or not return has the value \<open>None\<close>; the lemmas
  show that this never happens on a table built by the operations. The hash function of the
  process is the field \<open>hash_builder\<close>.
\<close>

section \<open>Representation\<close>

datatype BoundedHashError = CapacityLayout | Allocation | Full nat

datatype Bucket = Empty | Occupied nat nat

record ('k, 'v) DenseEntry =
  entry_key :: 'k
  entry_value :: 'v
  bucket_index :: nat

datatype Search = Found nat nat | Vacant nat

record ('k, 'v) BoundedHashMap =
  entries :: "('k, 'v) DenseEntry list"
  buckets :: "Bucket list"
  maximum :: nat
  hash_builder :: "'k \<Rightarrow> nat"

definition hash_index :: "nat \<Rightarrow> nat" where
  "hash_index hash = hash"

definition probe_distance :: "nat \<Rightarrow> nat \<Rightarrow> nat \<Rightarrow> nat" where
  "probe_distance home index wrap = ((index + 2 ^ 64 - home) mod 2 ^ 64) AND wrap"

text \<open>\<open>usize::next_power_of_two\<close>, by doubling.\<close>

function double_until :: "nat \<Rightarrow> nat \<Rightarrow> nat" where
  "double_until p n = (if p = 0 \<or> n \<le> p then p else double_until (2 * p) n)"
  by pat_completeness auto
termination
  by (relation "measure (\<lambda>(p, n). n - p)") auto

declare double_until.simps [simp del]

definition bucket_count :: "nat \<Rightarrow> BoundedHashError + nat" where
  "bucket_count max_entries =
     and_then (ok_or (checked fits_usize (max_entries * 2)) CapacityLayout) (\<lambda>doubled.
       ok_or (checked fits_usize (double_until 1 (max doubled 1))) CapacityLayout)"

definition try_with_hasher ::
    "(nat \<Rightarrow> bool) \<Rightarrow> nat \<Rightarrow> ('k \<Rightarrow> nat) \<Rightarrow> BoundedHashError + ('k, 'v) BoundedHashMap"
where
  "try_with_hasher reserve max_entries hasher =
     and_then (bucket_count max_entries) (\<lambda>n.
     and_then (ensure (reserve max_entries) Allocation) (\<lambda>_.
     and_then (ensure (reserve n) Allocation) (\<lambda>_.
       Inr \<lparr>entries = [], buckets = replicate n Empty, maximum = max_entries, hash_builder = hasher\<rparr>)))"

section \<open>Operations\<close>

text \<open>The probe of \<open>search\<close>: from a bucket on, until the key or an empty bucket.\<close>

partial_function (option) search_from :: "('k, 'v) BoundedHashMap \<Rightarrow> 'k \<Rightarrow> nat \<Rightarrow> nat \<Rightarrow> Search option" where
  "search_from m k hash i = do {
     bucket \<leftarrow> list_at (buckets m) i;
     case bucket of
       Empty \<Rightarrow> Some (Vacant i)
     | Occupied candidate index \<Rightarrow> do {
         found \<leftarrow> if candidate = hash then do { entry \<leftarrow> list_at (entries m) index; Some (entry_key entry = k) } else Some False;
         if found then Some (Found i index)
         else search_from m k hash ((i + 1) AND (length (buckets m) - 1))
       }
   }"

definition search :: "('k, 'v) BoundedHashMap \<Rightarrow> 'k \<Rightarrow> nat \<Rightarrow> Search option" where
  "search m k hash = search_from m k hash (hash_index hash AND (length (buckets m) - 1))"

definition entry_index :: "('k, 'v) BoundedHashMap \<Rightarrow> 'k \<Rightarrow> nat option option" where
  "entry_index m k = do {
     r \<leftarrow> search m k (hash_builder m k);
     Some (case r of Found _ index \<Rightarrow> Some index | Vacant _ \<Rightarrow> None)
   }"

definition contains_key :: "('k, 'v) BoundedHashMap \<Rightarrow> 'k \<Rightarrow> bool option" where
  "contains_key m k = do { r \<leftarrow> entry_index m k; Some (r \<noteq> None) }"

definition get :: "('k, 'v) BoundedHashMap \<Rightarrow> 'k \<Rightarrow> 'v option option" where
  "get m k = do {
     r \<leftarrow> entry_index m k;
     case r of None \<Rightarrow> Some None
     | Some index \<Rightarrow> do { entry \<leftarrow> list_at (entries m) index; Some (Some (entry_value entry)) }
   }"

text \<open>\<open>get_mut\<close>, with the assignment through the borrowed value.\<close>

definition update_value :: "('k, 'v) BoundedHashMap \<Rightarrow> 'k \<Rightarrow> ('v \<Rightarrow> 'v) \<Rightarrow> ('k, 'v) BoundedHashMap option" where
  "update_value m k f = do {
     r \<leftarrow> entry_index m k;
     case r of None \<Rightarrow> Some m
     | Some index \<Rightarrow> do {
         entry \<leftarrow> list_at (entries m) index;
         Some (m\<lparr>entries := (entries m)[index := entry\<lparr>entry_value := f (entry_value entry)\<rparr>]\<rparr>)
       }
   }"

definition try_insert ::
    "('k, 'v) BoundedHashMap \<Rightarrow> 'k \<Rightarrow> 'v \<Rightarrow> ((BoundedHashError + 'v option) \<times> ('k, 'v) BoundedHashMap) option"
where
  "try_insert m k v = do {
     let hash = hash_builder m k;
     r \<leftarrow> search m k hash;
     case r of
       Found _ index \<Rightarrow> do {
         entry \<leftarrow> list_at (entries m) index;
         Some (Inr (Some (entry_value entry)), m\<lparr>entries := (entries m)[index := entry\<lparr>entry_value := v\<rparr>]\<rparr>)
       }
     | Vacant bucket \<Rightarrow>
         if maximum m \<le> length (entries m) then Some (Inl (Full (maximum m)), m)
         else do {
           let index = length (entries m);
           next_buckets \<leftarrow> list_put (buckets m) bucket (Occupied hash index);
           Some (Inr None, m\<lparr>entries := entries m @ [\<lparr>entry_key = k, entry_value = v, bucket_index = bucket\<rparr>],
             buckets := next_buckets\<rparr>)
         }
   }"

text \<open>\<open>insert\<close> panics on an error.\<close>

definition insert_unwrap :: "('k, 'v) BoundedHashMap \<Rightarrow> 'k \<Rightarrow> 'v \<Rightarrow> ('v option \<times> ('k, 'v) BoundedHashMap) option" where
  "insert_unwrap m k v = do {
     (r, m') \<leftarrow> try_insert m k v;
     case r of Inl _ \<Rightarrow> None | Inr old \<Rightarrow> Some (old, m')
   }"

partial_function (option) shift_from :: "('k, 'v) BoundedHashMap \<Rightarrow> nat \<Rightarrow> nat \<Rightarrow> ('k, 'v) BoundedHashMap option" where
  "shift_from m hole scan = do {
     let wrap = length (buckets m) - 1;
     bucket \<leftarrow> list_at (buckets m) scan;
     case bucket of
       Empty \<Rightarrow> Some m
     | Occupied hash index \<Rightarrow> do {
         let ideal = hash_index hash AND wrap;
         if probe_distance ideal hole wrap < probe_distance ideal scan wrap then do {
           next_buckets \<leftarrow> list_put (buckets m) hole bucket;
           next_buckets \<leftarrow> list_put next_buckets scan Empty;
           entry \<leftarrow> list_at (entries m) index;
           shift_from (m\<lparr>buckets := next_buckets, entries := (entries m)[index := entry\<lparr>bucket_index := hole\<rparr>]\<rparr>)
             scan ((scan + 1) AND wrap)
         } else shift_from m hole ((scan + 1) AND wrap)
       }
   }"

definition erase_bucket :: "('k, 'v) BoundedHashMap \<Rightarrow> nat \<Rightarrow> ('k, 'v) BoundedHashMap option" where
  "erase_bucket m hole = do {
     next_buckets \<leftarrow> list_put (buckets m) hole Empty;
     shift_from (m\<lparr>buckets := next_buckets\<rparr>) hole ((hole + 1) AND (length (buckets m) - 1))
   }"

text \<open>\<open>Vec::swap_remove\<close>.\<close>

definition swap_remove :: "'a list \<Rightarrow> nat \<Rightarrow> 'a list" where
  "swap_remove xs i = butlast (xs[i := last xs])"

definition remove :: "('k, 'v) BoundedHashMap \<Rightarrow> 'k \<Rightarrow> ('v option \<times> ('k, 'v) BoundedHashMap) option" where
  "remove m k = do {
     r \<leftarrow> search m k (hash_builder m k);
     case r of
       Vacant _ \<Rightarrow> Some (None, m)
     | Found bucket index \<Rightarrow> do {
         erased \<leftarrow> erase_bucket m bucket;
         removed \<leftarrow> list_at (entries erased) index;
         let rest = swap_remove (entries erased) index;
         if index < length rest then do {
           let moved_bucket = bucket_index (rest ! index);
           moved \<leftarrow> list_at (buckets erased) moved_bucket;
           case moved of
             Empty \<Rightarrow> None
           | Occupied hash _ \<Rightarrow>
               Some (Some (entry_value removed), erased\<lparr>entries := rest, buckets := (buckets erased)[moved_bucket := Occupied hash index]\<rparr>)
         } else Some (Some (entry_value removed), erased\<lparr>entries := rest\<rparr>)
       }
   }"

text \<open>The set is a map to units.\<close>

definition set_insert :: "('k, unit) BoundedHashMap \<Rightarrow> 'k \<Rightarrow> (bool \<times> ('k, unit) BoundedHashMap) option" where
  "set_insert m k = do { (old, m') \<leftarrow> insert_unwrap m k (); Some (old = None, m') }"

definition set_contains :: "('k, unit) BoundedHashMap \<Rightarrow> 'k \<Rightarrow> bool option" where
  "set_contains m k = contains_key m k"

fun clear_buckets :: "('k, 'v) DenseEntry list \<Rightarrow> Bucket list \<Rightarrow> Bucket list option" where
  "clear_buckets [] bs = Some bs"
| "clear_buckets (entry # rest) bs = do { cleared \<leftarrow> list_put bs (bucket_index entry) Empty; clear_buckets rest cleared }"

definition clear :: "('k, 'v) BoundedHashMap \<Rightarrow> ('k, 'v) BoundedHashMap option" where
  "clear m = do { bs \<leftarrow> clear_buckets (entries m) (buckets m); Some (m\<lparr>entries := [], buckets := bs\<rparr>) }"

definition iter :: "('k, 'v) BoundedHashMap \<Rightarrow> ('k \<times> 'v) list" where
  "iter m = map (\<lambda>entry. (entry_key entry, entry_value entry)) (entries m)"

text \<open>The loop over \<open>values_mut\<close> that assigns to every value.\<close>

definition map_values :: "('v \<Rightarrow> 'v) \<Rightarrow> ('k, 'v) BoundedHashMap \<Rightarrow> ('k, 'v) BoundedHashMap" where
  "map_values f m = m\<lparr>entries := map (\<lambda>entry. entry\<lparr>entry_value := f (entry_value entry)\<rparr>) (entries m)\<rparr>"

text \<open>The structural equality of two tables with their own hash functions.\<close>

fun all_mapped :: "('k \<times> 'v) list \<Rightarrow> ('k, 'v) BoundedHashMap \<Rightarrow> bool option" where
  "all_mapped [] other = Some True"
| "all_mapped ((k, v) # rest) other = do {
     r \<leftarrow> get other k;
     if r = Some v then all_mapped rest other else Some False
   }"

definition eq :: "('k, 'v) BoundedHashMap \<Rightarrow> ('k, 'v) BoundedHashMap \<Rightarrow> bool option" where
  "eq m other = (if length (entries m) = length (entries other) then all_mapped (iter m) other else Some False)"

datatype LayoutViolation =
    NoBucketLayout
  | BucketLayout
  | DenseCapacity
  | EmptyReference
  | ForeignReference
  | Unreachable

text \<open>The capacity of the entry vector is at least the maximum for which it was reserved.\<close>

fun validate_entries :: "('k, 'v) BoundedHashMap \<Rightarrow> nat \<Rightarrow> ('k, 'v) DenseEntry list \<Rightarrow> (LayoutViolation + unit) option" where
  "validate_entries m index [] = Some (Inr ())"
| "validate_entries m index (entry # rest) = do {
     bucket \<leftarrow> list_at (buckets m) (bucket_index entry);
     case bucket of
       Empty \<Rightarrow> Some (Inl EmptyReference)
     | Occupied hash indexed \<Rightarrow>
         if indexed \<noteq> index then Some (Inl ForeignReference)
         else do {
           r \<leftarrow> search m (entry_key entry) hash;
           if r \<noteq> Found (bucket_index entry) index then Some (Inl Unreachable)
           else validate_entries m (index + 1) rest
         }
   }"

definition validate_layout :: "('k, 'v) BoundedHashMap \<Rightarrow> (LayoutViolation + unit) option" where
  "validate_layout m =
     (case bucket_count (maximum m) of
        Inl _ \<Rightarrow> Some (Inl NoBucketLayout)
      | Inr expected \<Rightarrow>
          if length (buckets m) \<noteq> expected \<or> \<not> (\<exists>k \<in> {..<64}. length (buckets m) = 2 ^ k) then Some (Inl BucketLayout)
          else if maximum m < length (entries m) then Some (Inl DenseCapacity)
          else validate_entries m 0 (entries m))"

section \<open>Cyclic distances\<close>

text \<open>The number of steps from \<open>a\<close> forward to \<open>b\<close> on a cycle of \<open>n\<close> buckets.\<close>

definition gap :: "nat \<Rightarrow> nat \<Rightarrow> nat \<Rightarrow> nat" where
  "gap n a b = (if a \<le> b then b - a else n + b - a)"

definition succ_mod :: "nat \<Rightarrow> nat \<Rightarrow> nat" where
  "succ_mod n i = (if i + 1 = n then 0 else i + 1)"

lemma and_wrap: "n = 2 ^ k \<Longrightarrow> x AND (n - 1) = x mod (n :: nat)"
proof -
  assume n: "n = 2 ^ k"
  then have "n - 1 = mask k" by (simp add: mask_eq_exp_minus_1)
  then show ?thesis by (simp only: take_bit_eq_mask [symmetric] take_bit_eq_mod n)
qed

lemma step_wrap: "n = 2 ^ k \<Longrightarrow> i < n \<Longrightarrow> (i + 1) AND (n - 1) = succ_mod n i"
  by (simp only: and_wrap) (auto simp: succ_mod_def)

lemma probe_distance_gap:
  assumes "n = 2 ^ k" "k \<le> 64" "a < n" "b < n"
  shows "probe_distance a b (n - 1) = gap n a b"
proof -
  have dvd: "n dvd 2 ^ 64" unfolding assms(1) using assms(2) by (rule le_imp_power_dvd)
  then obtain c where c: "2 ^ 64 = n * c" by (rule dvdE)
  have "(2 :: nat) ^ 64 \<noteq> 0" by simp
  then have "c \<noteq> 0" using c by (metis mult_0_right)
  then obtain d where d: "c = Suc d" by (cases c) auto
  have le: "n \<le> 2 ^ 64" using c d by simp
  have "probe_distance a b (n - 1) = ((b + 2 ^ 64 - a) mod 2 ^ 64) mod n"
    unfolding probe_distance_def by (rule and_wrap [OF assms(1)])
  also have "\<dots> = (b + 2 ^ 64 - a) mod n" by (rule mod_mod_cancel [OF dvd])
  also have "b + 2 ^ 64 - a = (b + n - a) + n * d" using c d assms(3,4) by simp
  also have "\<dots> mod n = (b + n - a) mod n" by simp
  also have "\<dots> = gap n a b"
  proof (cases "a \<le> b")
    case True
    then have "b + n - a = (b - a) + n" by simp
    then have "(b + n - a) mod n = (b - a) mod n" by (simp only: mod_add_self2)
    then show ?thesis using True assms(4) by (simp add: gap_def)
  next
    case False
    then show ?thesis using assms(3) by (simp add: gap_def add.commute)
  qed
  finally show ?thesis .
qed

section \<open>The shape of a table\<close>

lemma double_until_power: "0 < p \<Longrightarrow> \<exists>k. double_until p n = 2 ^ k * p \<and> n \<le> 2 ^ k * p"
proof (induction p n rule: double_until.induct)
  case (1 p n)
  show ?case
  proof (cases "n \<le> p")
    case True
    then show ?thesis by (intro exI [of _ 0]) (simp add: double_until.simps)
  next
    case False
    then obtain k where "double_until (2 * p) n = 2 ^ k * (2 * p)" "n \<le> 2 ^ k * (2 * p)" using 1 by auto
    then show ?thesis using False "1.prems" by (intro exI [of _ "Suc k"]) (simp add: double_until.simps [of p] mult.assoc)
  qed
qed

lemma bucket_count_power:
  assumes "bucket_count max_entries = Inr n"
  shows "\<exists>k < 64. n = 2 ^ k" "2 * max_entries \<le> n"
proof -
  have n: "n = double_until 1 (max (max_entries * 2) 1)" "fits_u64 n"
    using assms by (auto simp: bucket_count_def result_simps)
  obtain k where k: "double_until 1 (max (max_entries * 2) 1) = 2 ^ k" "max (max_entries * 2) 1 \<le> 2 ^ k"
    using double_until_power [of 1 "max (max_entries * 2) 1"] by auto
  have "k < 64"
  proof (rule ccontr)
    assume "\<not> k < 64"
    then have "(2 :: nat) ^ 64 \<le> 2 ^ k" by (intro power_increasing) simp_all
    then show False using n k by (simp add: fits_u64_def)
  qed
  then show "\<exists>k < 64. n = 2 ^ k" using n k by auto
  show "2 * max_entries \<le> n" using n k by simp
qed

text \<open>
  Dense entries and buckets point at each other; an index in \<open>X\<close> is on its way out. Along a probe
  from its home bucket to its bucket, an entry meets no empty bucket.
\<close>

definition linked :: "nat set \<Rightarrow> ('k \<Rightarrow> nat) \<Rightarrow> ('k, 'v) DenseEntry list \<Rightarrow> Bucket list \<Rightarrow> bool" where
  "linked X hasher es bs \<longleftrightarrow>
     (\<forall>i < length es. i \<notin> X \<longrightarrow> bucket_index (es ! i) < length bs \<and>
        bs ! bucket_index (es ! i) = Occupied (hasher (entry_key (es ! i))) i) \<and>
     (\<forall>b < length bs. \<forall>hash i. bs ! b = Occupied hash i \<longrightarrow> i < length es \<and> i \<notin> X \<and> bucket_index (es ! i) = b)"

definition home :: "Bucket list \<Rightarrow> nat \<Rightarrow> nat" where
  "home bs hash = hash mod length bs"

definition probe_free :: "Bucket list \<Rightarrow> nat \<Rightarrow> nat \<Rightarrow> bool" where
  "probe_free bs a b \<longleftrightarrow> (\<forall>x < length bs. gap (length bs) a x < gap (length bs) a b \<longrightarrow> bs ! x \<noteq> Empty)"

definition probed :: "Bucket list \<Rightarrow> bool" where
  "probed bs \<longleftrightarrow> (\<forall>b < length bs. \<forall>hash i. bs ! b = Occupied hash i \<longrightarrow> probe_free bs (home bs hash) b)"

definition table_ok :: "('k, 'v) BoundedHashMap \<Rightarrow> bool" where
  "table_ok m \<longleftrightarrow>
     bucket_count (maximum m) = Inr (length (buckets m)) \<and> length (entries m) \<le> maximum m \<and>
     distinct (map entry_key (entries m)) \<and>
     linked {} (hash_builder m) (entries m) (buckets m) \<and> probed (buckets m)"

definition contents :: "('k, 'v) BoundedHashMap \<Rightarrow> 'k \<rightharpoonup> 'v" where
  "contents m = map_of (iter m)"

lemma linkedD:
  assumes "linked X hasher es bs"
  shows "i < length es \<Longrightarrow> i \<notin> X \<Longrightarrow> bucket_index (es ! i) < length bs"
    and "i < length es \<Longrightarrow> i \<notin> X \<Longrightarrow> bs ! bucket_index (es ! i) = Occupied (hasher (entry_key (es ! i))) i"
    and "b < length bs \<Longrightarrow> bs ! b = Occupied hash i \<Longrightarrow> i < length es \<and> i \<notin> X \<and> bucket_index (es ! i) = b \<and>
      hash = hasher (entry_key (es ! i))"
  using assms unfolding linked_def by (blast, blast, force)

text \<open>A table has an empty bucket.\<close>

lemma empty_bucket:
  assumes "linked X hasher es bs" "length es < length bs"
  shows "\<exists>e < length bs. bs ! e = Empty"
proof (rule ccontr)
  assume "\<not> (\<exists>e < length bs. bs ! e = Empty)"
  then have occ: "\<exists>hash i. bs ! b = Occupied hash i" if "b < length bs" for b
    using that by (cases "bs ! b") auto
  let ?f = "\<lambda>b. case bs ! b of Occupied _ i \<Rightarrow> i | Empty \<Rightarrow> 0"
  have f: "?f b < length es \<and> bucket_index (es ! ?f b) = b" if "b < length bs" for b
    using occ [OF that] linkedD(3) [OF assms(1) that] by fastforce
  then have "inj_on ?f {..<length bs}" by (intro inj_onI) (metis lessThan_iff)
  moreover have "?f ` {..<length bs} \<subseteq> {..<length es}" using f by auto
  ultimately have "card {..<length bs} \<le> card {..<length es}" by (intro card_inj_on_le) auto
  then show False using assms(2) by simp
qed

lemma table_shape:
  assumes "table_ok m"
  shows "\<exists>k < 64. length (buckets m) = 2 ^ k" "length (entries m) < length (buckets m)" "0 < length (buckets m)"
proof -
  note n = bucket_count_power [of "maximum m" "length (buckets m)"]
  show k: "\<exists>k < 64. length (buckets m) = 2 ^ k" using n(1) assms by (simp add: table_ok_def)
  then show pos: "0 < length (buckets m)" by auto
  show "length (entries m) < length (buckets m)" using n(2) pos assms unfolding table_ok_def by linarith
qed

section \<open>Searching\<close>

lemma gap_self [simp]: "gap n a a = 0"
  by (simp add: gap_def)

lemma gap_zero: "a < n \<Longrightarrow> b < n \<Longrightarrow> gap n a b = 0 \<longleftrightarrow> a = b"
  by (auto simp: gap_def split: if_splits)

lemma gap_less: "a < n \<Longrightarrow> b < n \<Longrightarrow> gap n a b < n"
  by (auto simp: gap_def)

lemma succ_mod_less: "i < n \<Longrightarrow> succ_mod n i < n"
  by (auto simp: succ_mod_def)

lemma gap_step: "x < n \<Longrightarrow> b < n \<Longrightarrow> x \<noteq> b \<Longrightarrow> gap n (succ_mod n x) b < gap n x b"
  by (auto simp: gap_def succ_mod_def split: if_splits)

lemma gap_next: "a < n \<Longrightarrow> x < n \<Longrightarrow> b < n \<Longrightarrow> gap n a x < gap n a b \<Longrightarrow> gap n a (succ_mod n x) = gap n a x + 1"
  by (auto simp: gap_def succ_mod_def split: if_splits)

lemma gap_between:
  "x < n \<Longrightarrow> y < n \<Longrightarrow> e < n \<Longrightarrow> x \<noteq> y \<Longrightarrow> gap n x y < gap n x e \<Longrightarrow> gap n (succ_mod n x) y < gap n (succ_mod n x) e"
  by (auto simp: gap_def succ_mod_def split: if_splits)

lemma search_found:
  assumes "linked {} (hash_builder m) (entries m) (buckets m)" "distinct (map entry_key (entries m))"
    and "length (buckets m) = 2 ^ k" "i < length (entries m)" "entry_key (entries m ! i) = key"
    and "probe_free (buckets m) a (bucket_index (entries m ! i))" "a < length (buckets m)"
    and "x < length (buckets m)"
    and "gap (length (buckets m)) a x \<le> gap (length (buckets m)) a (bucket_index (entries m ! i))"
  shows "search_from m key (hash_builder m key) x = Some (Found (bucket_index (entries m ! i)) i)"
  using assms(8,9)
proof (induction "gap (length (buckets m)) x (bucket_index (entries m ! i))" arbitrary: x rule: less_induct)
  case less
  let ?n = "length (buckets m)" and ?b = "bucket_index (entries m ! i)"
  note link = linkedD [OF assms(1), simplified]
  have b: "?b < ?n" "buckets m ! ?b = Occupied (hash_builder m key) i" using link(1,2) [OF assms(4)] assms(5) by auto
  show ?case
  proof (cases "x = ?b")
    case True
    then show ?thesis using b assms(4,5) by (subst search_from.simps) (simp add: list_at_def)
  next
    case False
    have lt: "gap ?n a x < gap ?n a ?b"
    proof -
      have "gap ?n a x \<noteq> gap ?n a ?b" using False less.prems(1) b(1) assms(7) by (auto simp: gap_def split: if_splits)
      then show ?thesis using less.prems(2) by simp
    qed
    then have "buckets m ! x \<noteq> Empty" using assms(6) less.prems(1) by (simp add: probe_free_def)
    then obtain c j where cj: "buckets m ! x = Occupied c j" by (cases "buckets m ! x") auto
    then have j: "j < length (entries m)" "bucket_index (entries m ! j) = x" using link(3) [OF less.prems(1)] by auto
    have "entry_key (entries m ! j) \<noteq> key"
      using assms(2,4,5) j False nth_eq_iff_index_eq [OF assms(2), of j i] by auto
    then have "search_from m key (hash_builder m key) x = search_from m key (hash_builder m key) (succ_mod ?n x)"
      using less.prems(1) cj j(1) step_wrap [OF assms(3) less.prems(1)]
      by (subst search_from.simps) (simp add: list_at_def del: One_nat_def)
    moreover have "search_from m key (hash_builder m key) (succ_mod ?n x) = Some (Found ?b i)"
      by (rule less.hyps) (use False gap_step gap_next succ_mod_less less.prems(1) b(1) lt assms(7) in auto)
    ultimately show ?thesis by simp
  qed
qed

lemma search_vacant:
  assumes "linked {} (hash_builder m) (entries m) (buckets m)" "length (buckets m) = 2 ^ k"
    and "key \<notin> entry_key ` set (entries m)" "e < length (buckets m)" "buckets m ! e = Empty" "x < length (buckets m)"
  shows "\<exists>b < length (buckets m). search_from m key hash x = Some (Vacant b) \<and> buckets m ! b = Empty \<and>
    probe_free (buckets m) x b"
  using assms(6)
proof (induction "gap (length (buckets m)) x e" arbitrary: x rule: less_induct)
  case less
  let ?n = "length (buckets m)"
  note link = linkedD [OF assms(1), simplified]
  show ?case
  proof (cases "buckets m ! x")
    case Empty
    then have "search_from m key hash x = Some (Vacant x)"
      using less.prems by (subst search_from.simps) (simp add: list_at_def)
    then show ?thesis using Empty less.prems by (auto simp: probe_free_def)
  next
    case (Occupied c j)
    then have j: "j < length (entries m)" "bucket_index (entries m ! j) = x" using link(3) [OF less.prems] by auto
    then have "entry_key (entries m ! j) \<noteq> key" using assms(3) by auto
    then have step: "search_from m key hash x = search_from m key hash (succ_mod ?n x)"
      using less.prems Occupied j(1) step_wrap [OF assms(2) less.prems]
      by (subst search_from.simps) (simp add: list_at_def del: One_nat_def)
    have "x \<noteq> e" using Occupied assms(5) by auto
    then obtain b where b: "b < ?n" "search_from m key hash (succ_mod ?n x) = Some (Vacant b)" "buckets m ! b = Empty"
      "probe_free (buckets m) (succ_mod ?n x) b"
      using less.hyps [of "succ_mod ?n x"] gap_step [OF less.prems assms(4)] succ_mod_less [OF less.prems] by auto
    have "probe_free (buckets m) x b"
      unfolding probe_free_def
    proof (intro allI impI)
      fix y assume y: "y < ?n" "gap ?n x y < gap ?n x b"
      show "buckets m ! y \<noteq> Empty"
      proof (cases "y = x")
        case False
        then show ?thesis using b(1,4) y gap_between [OF less.prems y(1) b(1)] by (auto simp: probe_free_def)
      qed (simp add: Occupied)
    qed
    then show ?thesis using b step by auto
  qed
qed

lemma home_less: "0 < length bs \<Longrightarrow> home bs hash < length bs"
  by (simp add: home_def)

lemma table_search_home: "table_ok m \<Longrightarrow> search m key hash = search_from m key hash (home (buckets m) hash)"
  using table_shape(1) [of m] by (auto simp: search_def home_def hash_index_def and_wrap simp del: One_nat_def)

lemma table_search_found:
  assumes "table_ok m" "i < length (entries m)" "entry_key (entries m ! i) = key"
  shows "search m key (hash_builder m key) = Some (Found (bucket_index (entries m ! i)) i)"
proof -
  obtain k where k: "length (buckets m) = 2 ^ k" using table_shape(1) [OF assms(1)] by blast
  have ok: "linked {} (hash_builder m) (entries m) (buckets m)" "distinct (map entry_key (entries m))" "probed (buckets m)"
    using assms(1) by (simp_all add: table_ok_def)
  have b: "bucket_index (entries m ! i) < length (buckets m)"
    "buckets m ! bucket_index (entries m ! i) = Occupied (hash_builder m key) i"
    using linkedD(1,2) [OF ok(1) assms(2)] assms(3) by auto
  then have "probe_free (buckets m) (home (buckets m) (hash_builder m key)) (bucket_index (entries m ! i))"
    using ok(3) by (simp add: probed_def)
  from search_found [OF ok(1,2) k assms(2,3) this home_less [OF table_shape(3) [OF assms(1)]] home_less [OF table_shape(3) [OF assms(1)]]]
  show ?thesis by (simp add: table_search_home [OF assms(1)])
qed

lemma table_search_vacant:
  assumes "table_ok m" "key \<notin> entry_key ` set (entries m)"
  obtains b where "search m key (hash_builder m key) = Some (Vacant b)" "b < length (buckets m)" "buckets m ! b = Empty"
    "probe_free (buckets m) (home (buckets m) (hash_builder m key)) b"
proof -
  obtain k where k: "length (buckets m) = 2 ^ k" using table_shape(1) [OF assms(1)] by blast
  have ok: "linked {} (hash_builder m) (entries m) (buckets m)" using assms(1) by (simp add: table_ok_def)
  obtain e where "e < length (buckets m)" "buckets m ! e = Empty"
    using empty_bucket [OF ok table_shape(2) [OF assms(1)]] by blast
  from search_vacant [OF ok k assms(2) this home_less [OF table_shape(3) [OF assms(1)]], of "hash_builder m key"]
  show ?thesis using that by (auto simp: table_search_home [OF assms(1)])
qed

section \<open>Contents\<close>

lemma iter_simps [simp]: "map fst (iter m) = map entry_key (entries m)" "length (iter m) = length (entries m)"
  by (simp_all add: iter_def)

lemma contents_index:
  assumes "distinct (map entry_key (entries m))" "i < length (entries m)"
  shows "contents m (entry_key (entries m ! i)) = Some (entry_value (entries m ! i))"
proof -
  have "distinct (map fst (iter m))" using assms(1) by simp
  moreover have "(entry_key (entries m ! i), entry_value (entries m ! i)) \<in> set (iter m)"
    using assms(2) by (auto simp: iter_def)
  ultimately show ?thesis unfolding contents_def by (rule map_of_is_SomeI)
qed

lemma contents_None: "contents m key = None \<longleftrightarrow> key \<notin> entry_key ` set (entries m)"
  by (force simp: contents_def iter_def map_of_eq_None_iff)

lemma key_cases:
  obtains (absent) "key \<notin> entry_key ` set (entries m)" "contents m key = None"
  | (present) i where "i < length (entries m)" "entry_key (entries m ! i) = key"
  by (metis contents_None imageE in_set_conv_nth)

lemma entry_index_ok:
  assumes "table_ok m"
  shows "key \<notin> entry_key ` set (entries m) \<Longrightarrow> entry_index m key = Some None"
    and "i < length (entries m) \<Longrightarrow> entry_key (entries m ! i) = key \<Longrightarrow> entry_index m key = Some (Some i)"
proof -
  assume "key \<notin> entry_key ` set (entries m)"
  then obtain b where "search m key (hash_builder m key) = Some (Vacant b)" by (rule table_search_vacant [OF assms])
  then show "entry_index m key = Some None" by (simp add: entry_index_def)
next
  assume "i < length (entries m)" "entry_key (entries m ! i) = key"
  from table_search_found [OF assms this] show "entry_index m key = Some (Some i)" by (simp add: entry_index_def)
qed

lemma get_ok:
  assumes "table_ok m"
  shows "get m key = Some (contents m key)"
proof (cases rule: key_cases [of key m])
  case absent
  then show ?thesis by (simp add: get_def entry_index_ok(1) [OF assms])
next
  case (present i)
  then show ?thesis
    using contents_index [of m i] assms by (auto simp: get_def entry_index_ok(2) [OF assms present] list_at_def table_ok_def)
qed

lemma contains_ok: "table_ok m \<Longrightarrow> contains_key m key = Some (contents m key \<noteq> None)"
  by (cases rule: key_cases [of key m])
    (auto simp: contains_key_def entry_index_ok contents_None dest: nth_mem)

section \<open>Insertion\<close>

lemma linked_key_update:
  assumes "linked X hasher es bs" "entry_key e = entry_key (es ! i)" "bucket_index e = bucket_index (es ! i)"
  shows "linked X hasher (es[i := e]) bs"
proof -
  have eqs: "entry_key (es[i := e] ! j) = entry_key (es ! j)" "bucket_index (es[i := e] ! j) = bucket_index (es ! j)" for j
  proof -
    have "es[i := e] ! j = (if i = j \<and> i < length es then e else es ! j)"
      by (cases "i < length es") (simp_all add: nth_list_update list_update_beyond)
    then show "entry_key (es[i := e] ! j) = entry_key (es ! j)" "bucket_index (es[i := e] ! j) = bucket_index (es ! j)"
      by (simp_all only: assms(2,3) split: if_split, simp_all)
  qed
  show ?thesis unfolding linked_def eqs length_list_update by (rule assms(1) [unfolded linked_def])
qed

lemma keys_update: "entry_key e = entry_key (es ! i) \<Longrightarrow> map entry_key (es[i := e]) = map entry_key es"
  by (cases "i < length es") (simp_all add: map_update list_update_same_conv list_update_beyond)

lemma table_value_update:
  assumes "table_ok m" "i < length (entries m)" "entry_key e = entry_key (entries m ! i)" "bucket_index e = bucket_index (entries m ! i)"
  shows "table_ok (m\<lparr>entries := (entries m)[i := e]\<rparr>)"
    and "contents (m\<lparr>entries := (entries m)[i := e]\<rparr>) = (contents m)(entry_key (entries m ! i) \<mapsto> entry_value e)"
proof -
  show ok: "table_ok (m\<lparr>entries := (entries m)[i := e]\<rparr>)"
    using assms linked_key_update [of "{}" "hash_builder m" "entries m" "buckets m" e i]
    by (simp add: table_ok_def keys_update)
  show "contents (m\<lparr>entries := (entries m)[i := e]\<rparr>) = (contents m)(entry_key (entries m ! i) \<mapsto> entry_value e)"
  proof
    fix key
    let ?m = "m\<lparr>entries := (entries m)[i := e]\<rparr>"
    show "contents ?m key = ((contents m)(entry_key (entries m ! i) \<mapsto> entry_value e)) key"
    proof (cases rule: key_cases [of key m])
      case absent
      then have "key \<notin> entry_key ` set (entries ?m)"
        using keys_update [OF assms(3)] by (metis (no_types) set_map BoundedHashMap.select_convs(1) BoundedHashMap.surjective BoundedHashMap.update_convs(1))
      then show ?thesis using absent assms(2) by (auto simp: contents_None [THEN iffD2])
    next
      case (present j)
      have "distinct (map entry_key (entries m))" using assms(1) by (simp add: table_ok_def)
      then have "entry_key (entries m ! i) = key \<longleftrightarrow> i = j"
        using nth_eq_iff_index_eq [of "map entry_key (entries m)" i j] assms(2) present by auto
      moreover have "contents m key = Some (entry_value (entries m ! j))"
        using contents_index [of m j] assms(1) present by (simp add: table_ok_def)
      moreover have "entry_key (entries ?m ! j) = key" using present assms(2,3) by (auto simp: nth_list_update)
      then have "contents ?m key = Some (entry_value (entries ?m ! j))"
        using contents_index [of ?m j] ok present by (auto simp: table_ok_def)
      ultimately show ?thesis using assms(2) by (auto simp: nth_list_update)
    qed
  qed
qed

lemma update_value_ok:
  assumes "table_ok m"
  shows "\<exists>m'. update_value m key f = Some m' \<and> table_ok m' \<and> maximum m' = maximum m \<and> hash_builder m' = hash_builder m \<and>
    contents m' = (case contents m key of None \<Rightarrow> contents m | Some v \<Rightarrow> (contents m)(key \<mapsto> f v))"
proof (cases rule: key_cases [of key m])
  case absent
  then show ?thesis using assms by (simp add: update_value_def entry_index_ok(1) [OF assms])
next
  case (present i)
  let ?e = "(entries m ! i)\<lparr>entry_value := f (entry_value (entries m ! i))\<rparr>"
  have "update_value m key f = Some (m\<lparr>entries := (entries m)[i := ?e]\<rparr>)"
    using present by (simp add: update_value_def entry_index_ok(2) [OF assms present] list_at_def)
  moreover have "contents m key = Some (entry_value (entries m ! i))"
    using contents_index [of m i] assms present by (simp add: table_ok_def)
  ultimately show ?thesis using table_value_update [OF assms present(1), of ?e] present(2) by simp
qed

lemma map_of_values: "map_of (map (\<lambda>x. (g x, f (h x))) xs) = map_option f \<circ> map_of (map (\<lambda>x. (g x, h x)) xs)"
  by (induction xs) auto

lemma map_values_ok:
  assumes "table_ok m"
  shows "table_ok (map_values f m)" "contents (map_values f m) = map_option f \<circ> contents m"
    "maximum (map_values f m) = maximum m"
proof -
  let ?g = "\<lambda>entry. entry\<lparr>entry_value := f (entry_value entry)\<rparr>"
  have "map entry_key (map ?g es) = map entry_key es" for es :: "('a, 'b) DenseEntry list"
    by (simp add: comp_def)
  then show "table_ok (map_values f m)"
    using assms by (simp add: table_ok_def map_values_def linked_def comp_def)
  show "contents (map_values f m) = map_option f \<circ> contents m"
    by (simp add: contents_def iter_def map_values_def map_of_values comp_def)
  show "maximum (map_values f m) = maximum m" by (simp add: map_values_def)
qed

lemma try_insert_ok:
  assumes "table_ok m"
  shows "contents m key = Some old \<Longrightarrow>
      \<exists>m'. try_insert m key v = Some (Inr (Some old), m') \<and> table_ok m' \<and> contents m' = (contents m)(key \<mapsto> v) \<and>
        maximum m' = maximum m \<and> hash_builder m' = hash_builder m"
    and "contents m key = None \<Longrightarrow> card (dom (contents m)) < maximum m \<Longrightarrow>
      \<exists>m'. try_insert m key v = Some (Inr None, m') \<and> table_ok m' \<and> contents m' = (contents m)(key \<mapsto> v) \<and>
        maximum m' = maximum m \<and> hash_builder m' = hash_builder m"
    and "contents m key = None \<Longrightarrow> \<not> card (dom (contents m)) < maximum m \<Longrightarrow>
      try_insert m key v = Some (Inl (Full (maximum m)), m)"
proof -
  have d: "distinct (map entry_key (entries m))" and link: "linked {} (hash_builder m) (entries m) (buckets m)"
    and probed: "probed (buckets m)" using assms by (simp_all add: table_ok_def)
  have len: "length (entries m) = card (dom (contents m))"
    using distinct_card [OF d] by (simp add: contents_def dom_map_of_conv_image_fst iter_def image_image)
  {
    assume c: "contents m key = Some old"
    then obtain i where i: "i < length (entries m)" "entry_key (entries m ! i) = key"
      by (cases rule: key_cases [of key m]) auto
    let ?e = "(entries m ! i)\<lparr>entry_value := v\<rparr>"
    have "old = entry_value (entries m ! i)" using contents_index [OF d i(1)] c i(2) by simp
    then have "try_insert m key v = Some (Inr (Some old), m\<lparr>entries := (entries m)[i := ?e]\<rparr>)"
      using i table_search_found [OF assms i] by (simp add: try_insert_def list_at_def Let_def)
    then show "\<exists>m'. try_insert m key v = Some (Inr (Some old), m') \<and> table_ok m' \<and> contents m' = (contents m)(key \<mapsto> v) \<and>
        maximum m' = maximum m \<and> hash_builder m' = hash_builder m"
      using table_value_update [OF assms i(1), of ?e] i(2) by simp
  }
  {
    assume c: "contents m key = None" and cap: "card (dom (contents m)) < maximum m"
    then have absent: "key \<notin> entry_key ` set (entries m)" by (simp add: contents_None)
    obtain b where b: "search m key (hash_builder m key) = Some (Vacant b)" "b < length (buckets m)" "buckets m ! b = Empty"
      "probe_free (buckets m) (home (buckets m) (hash_builder m key)) b"
      by (rule table_search_vacant [OF assms absent])
    let ?e = "\<lparr>entry_key = key, entry_value = v, bucket_index = b\<rparr>"
    let ?bs = "(buckets m)[b := Occupied (hash_builder m key) (length (entries m))]"
    let ?m = "m\<lparr>entries := entries m @ [?e], buckets := ?bs\<rparr>"
    have run: "try_insert m key v = Some (Inr None, ?m)"
      using b cap len by (simp add: try_insert_def Let_def list_put_def)
    have "linked {} (hash_builder m) (entries m @ [?e]) ?bs"
      unfolding linked_def
    proof (intro conjI allI impI)
      fix i assume i: "i < length (entries m @ [?e])"
      have "bucket_index (entries m ! i) \<noteq> b" if "i < length (entries m)"
        using linkedD(2) [OF link that] b(3) by auto
      then show "bucket_index ((entries m @ [?e]) ! i) < length ?bs"
        "?bs ! bucket_index ((entries m @ [?e]) ! i) = Occupied (hash_builder m (entry_key ((entries m @ [?e]) ! i))) i"
        using i linkedD(1,2) [OF link, of i] b(2) by (cases "i < length (entries m)"; simp add: nth_append less_Suc_eq)+
    next
      fix c hash i assume c: "c < length ?bs" "?bs ! c = Occupied hash i"
      show "i < length (entries m @ [?e])" "i \<notin> {}" "bucket_index ((entries m @ [?e]) ! i) = c"
        using c linkedD(3) [OF link, of c hash i] b(2) by (cases "c = b"; simp add: nth_append)+
    qed
    moreover have "probed ?bs"
    proof -
      have "probe_free ?bs a c" if "probe_free (buckets m) a c" for a c
        using that b(2) by (auto simp: probe_free_def nth_list_update)
      then show ?thesis using probed b(2,4) unfolding probed_def home_def by (auto simp: nth_list_update split: if_splits)
    qed
    moreover have "distinct (map entry_key (entries m @ [?e]))" using d absent by auto
    ultimately have "table_ok ?m" using assms cap len by (simp add: table_ok_def)
    moreover have "contents ?m = (contents m)(key \<mapsto> v)"
    proof -
      have "map_of (iter m @ [(key, v)]) = (map_of (iter m))(key \<mapsto> v)"
        using c by (auto simp: contents_def map_add_def fun_eq_iff split: option.split)
      then show ?thesis by (simp add: contents_def iter_def)
    qed
    ultimately show "\<exists>m'. try_insert m key v = Some (Inr None, m') \<and> table_ok m' \<and> contents m' = (contents m)(key \<mapsto> v) \<and>
        maximum m' = maximum m \<and> hash_builder m' = hash_builder m"
      using run by simp
  }
  {
    assume c: "contents m key = None" and cap: "\<not> card (dom (contents m)) < maximum m"
    then have absent: "key \<notin> entry_key ` set (entries m)" by (simp add: contents_None)
    obtain b where "search m key (hash_builder m key) = Some (Vacant b)"
      by (rule table_search_vacant [OF assms absent])
    then show "try_insert m key v = Some (Inl (Full (maximum m)), m)"
      using cap len by (simp add: try_insert_def Let_def)
  }
qed

section \<open>Backward-shift deletion\<close>

text \<open>
  While a hole travels, entries that are still to be scanned may have the hole on their probe path; all
  others have a free path.
\<close>

definition probed_but :: "nat \<Rightarrow> nat \<Rightarrow> Bucket list \<Rightarrow> bool" where
  "probed_but hole scan bs \<longleftrightarrow>
     (\<forall>b < length bs. \<forall>hash i. bs ! b = Occupied hash i \<longrightarrow>
        (\<forall>x < length bs. gap (length bs) (home bs hash) x < gap (length bs) (home bs hash) b \<longrightarrow> bs ! x = Empty \<longrightarrow>
           x = hole \<and> gap (length bs) hole scan \<le> gap (length bs) hole b))"

lemma probed_but_start:
  assumes "probed bs" "hole < length bs"
  shows "probed_but hole (succ_mod (length bs) hole) (bs[hole := Empty])"
  unfolding probed_but_def
proof (intro allI impI)
  fix b hash i x
  let ?n = "length bs" and ?bs = "bs[hole := Empty]"
  assume b: "b < length ?bs" "?bs ! b = Occupied hash i" and x: "x < length ?bs"
    "gap (length ?bs) (home ?bs hash) x < gap (length ?bs) (home ?bs hash) b" "?bs ! x = Empty"
  have ne: "b \<noteq> hole" using b assms(2) by auto
  then have "probe_free bs (home bs hash) b" using assms(1) b by (auto simp: probed_def)
  then have "x = hole" using x assms(2) by (auto simp: probe_free_def home_def nth_list_update split: if_splits)
  moreover have "gap ?n hole (succ_mod ?n hole) \<le> gap ?n hole b"
    using ne assms(2) b(1) by (auto simp: gap_def succ_mod_def split: if_splits)
  ultimately show "x = hole \<and> gap (length ?bs) hole (succ_mod (length bs) hole) \<le> gap (length ?bs) hole b" by simp
qed

lemma probed_but_end:
  assumes "probed_but hole scan bs" "hole < length bs" "scan < length bs" "bs ! scan = Empty" "scan \<noteq> hole"
  shows "probed bs"
  unfolding probed_def probe_free_def
proof (intro allI impI notI)
  fix b hash i x
  let ?n = "length bs" and ?h = "home bs hash"
  assume b: "b < ?n" "bs ! b = Occupied hash i" and x: "x < ?n" "gap ?n ?h x < gap ?n ?h b" "bs ! x = Empty"
  then have hole: "x = hole" "gap ?n hole scan \<le> gap ?n hole b" using assms(1) by (auto simp: probed_but_def)
  have "b \<noteq> scan" using b assms(4) by auto
  have h: "?h < ?n" using b(1) by (intro home_less) linarith
  have "gap ?n ?h scan < gap ?n ?h b"
    using hole x b(1) assms(2,3) \<open>b \<noteq> scan\<close> h by (auto simp: gap_def split: if_splits)
  then have "scan = hole" using assms(1,3,4) b by (auto simp: probed_but_def)
  then show False using assms(5) by simp
qed

lemma probed_but_stay:
  assumes "probed_but hole scan bs" "bs ! scan = Occupied hash i" "scan < length bs" "hole < length bs" "scan \<noteq> hole"
    and "\<not> gap (length bs) (home bs hash) hole < gap (length bs) (home bs hash) scan"
  shows "probed_but hole (succ_mod (length bs) scan) bs"
  unfolding probed_but_def
proof (intro allI impI)
  fix b c j x
  let ?n = "length bs" and ?h = "home bs c"
  assume b: "b < ?n" "bs ! b = Occupied c j" and x: "x < ?n" "gap ?n ?h x < gap ?n ?h b" "bs ! x = Empty"
  then have hole: "x = hole" "gap ?n hole scan \<le> gap ?n hole b" using assms(1) by (auto simp: probed_but_def)
  have "b \<noteq> scan" using assms(2,6) b x hole by auto
  then show "x = hole \<and> gap ?n hole (succ_mod ?n scan) \<le> gap ?n hole b"
    using hole assms(3,4,5) b(1) by (auto simp: gap_def succ_mod_def split: if_splits)
qed

lemma probed_but_move:
  assumes "probed_but hole scan bs" "bs ! scan = Occupied hash i" "scan < length bs" "hole < length bs" "scan \<noteq> hole"
    and "bs ! hole = Empty" "gap (length bs) (home bs hash) hole < gap (length bs) (home bs hash) scan"
  shows "probed_but scan (succ_mod (length bs) scan) (bs[hole := Occupied hash i, scan := Empty])"
  unfolding probed_but_def
proof (intro allI impI)
  fix b c j x
  let ?n = "length bs" and ?bs = "bs[hole := Occupied hash i, scan := Empty]"
  assume b: "b < length ?bs" "?bs ! b = Occupied c j" and x: "x < length ?bs"
    "gap (length ?bs) (home ?bs c) x < gap (length ?bs) (home ?bs c) b" "?bs ! x = Empty"
  let ?h = "home bs c"
  have h: "?h < ?n" using assms(3) by (intro home_less) linarith
  have "b \<noteq> scan" using b assms(3) by auto
  have "x \<noteq> hole" using x assms(3,4,5) by (auto simp: nth_list_update)
  have "x = scan"
  proof (rule ccontr)
    assume "x \<noteq> scan"
    then have ex: "bs ! x = Empty" "x < ?n" using x \<open>x \<noteq> hole\<close> by (auto simp: nth_list_update)
    show False
    proof (cases "b = hole")
      case True
      then have "c = hash" using b assms(3,4,5) by (auto simp: nth_list_update)
      then have "gap ?n ?h x < gap ?n ?h scan" using x True assms(7) by (simp add: home_def)
      then show False using assms(1,2,3) ex \<open>c = hash\<close> \<open>x \<noteq> hole\<close> by (auto simp: probed_but_def)
    next
      case False
      then have "bs ! b = Occupied c j" using b \<open>b \<noteq> scan\<close> by (auto simp: nth_list_update)
      then show False using assms(1) b(1) ex x \<open>x \<noteq> hole\<close> by (auto simp: probed_but_def home_def)
    qed
  qed
  moreover have "gap ?n scan (succ_mod ?n scan) \<le> gap ?n scan b"
    using \<open>b \<noteq> scan\<close> assms(3) b(1) by (auto simp: gap_def succ_mod_def split: if_splits)
  ultimately show "x = scan \<and> gap (length ?bs) scan (succ_mod (length bs) scan) \<le> gap (length ?bs) scan b" by simp
qed

lemma linked_move:
  assumes "linked X hasher es bs" "bs ! scan = Occupied hash i" "scan < length bs" "hole < length bs" "scan \<noteq> hole"
    and "bs ! hole = Empty"
  shows "linked X hasher (es[i := (es ! i)\<lparr>bucket_index := hole\<rparr>]) (bs[hole := Occupied hash i, scan := Empty])"
proof -
  let ?es = "es[i := (es ! i)\<lparr>bucket_index := hole\<rparr>]" and ?bs = "bs[hole := Occupied hash i, scan := Empty]"
  have i: "i < length es" "i \<notin> X" "bucket_index (es ! i) = scan" "hash = hasher (entry_key (es ! i))"
    using linkedD(3) [OF assms(1) assms(3) assms(2)] by auto
  show ?thesis
    unfolding linked_def
  proof (intro conjI allI impI)
    fix j assume j: "j < length ?es" "j \<notin> X"
    have old: "bucket_index (es ! j) < length bs" "bs ! bucket_index (es ! j) = Occupied (hasher (entry_key (es ! j))) j"
      using linkedD(1,2) [OF assms(1)] j by auto
    have "bucket_index (es ! j) \<noteq> scan \<and> bucket_index (es ! j) \<noteq> hole" if "j \<noteq> i"
      using that old assms(2,6) by auto
    then show "bucket_index (?es ! j) < length ?bs"
      "?bs ! bucket_index (?es ! j) = Occupied (hasher (entry_key (?es ! j))) j"
      using old i j assms(3-5) by (cases "j = i"; simp add: nth_list_update)+
  next
    fix b c j assume b: "b < length ?bs" "?bs ! b = Occupied c j"
    have ne: "b \<noteq> scan" using b assms(3) by auto
    show "j < length ?es" "j \<notin> X" "bucket_index (?es ! j) = b"
    proof -
      consider "b = hole" "j = i" | "b \<noteq> hole" "bs ! b = Occupied c j"
        using b ne assms(3-5) by (cases "b = hole") (auto simp: nth_list_update)
      then have "j < length es \<and> j \<notin> X \<and> bucket_index (?es ! j) = b"
      proof cases
        case 1
        then show ?thesis using i by simp
      next
        case 2
        then have "j < length es \<and> j \<notin> X \<and> bucket_index (es ! j) = b" using linkedD(3) [OF assms(1), of b c j] b(1) by simp
        moreover from this have "j \<noteq> i" using i(3) ne by auto
        ultimately show ?thesis by simp
      qed
      then show "j < length ?es" "j \<notin> X" "bucket_index (?es ! j) = b" by simp_all
    qed
  qed
qed

lemma shift_from_ok:
  assumes "length (buckets m) = 2 ^ k" "k \<le> 64" "linked X (hash_builder m) (entries m) (buckets m)"
    and "hole < length (buckets m)" "scan < length (buckets m)" "scan \<noteq> hole" "buckets m ! hole = Empty"
    and "probed_but hole scan (buckets m)"
    and "e < length (buckets m)" "buckets m ! e = Empty" "e \<noteq> hole"
    and "gap (length (buckets m)) scan e < gap (length (buckets m)) scan hole"
  shows "\<exists>es bs. shift_from m hole scan = Some (m\<lparr>entries := es, buckets := bs\<rparr>) \<and> length bs = length (buckets m) \<and>
    length es = length (entries m) \<and> linked X (hash_builder m) es bs \<and> probed bs \<and>
    map (\<lambda>entry. (entry_key entry, entry_value entry)) es = iter m"
  using assms
proof (induction "gap (length (buckets m)) scan e" arbitrary: m hole scan rule: less_induct)
  case less
  let ?n = "length (buckets m)" and ?bs = "buckets m" and ?es = "entries m"
  note prems = less.prems
  show ?case
  proof (cases "?bs ! scan")
    case Empty
    then have "shift_from m hole scan = Some (m\<lparr>entries := ?es, buckets := ?bs\<rparr>)"
      using prems by (subst shift_from.simps) (simp add: list_at_def)
    moreover have "probed ?bs" by (rule probed_but_end [OF prems(8,4,5) Empty prems(6)])
    ultimately show ?thesis using prems(3) by (intro exI [of _ ?es] exI [of _ ?bs]) (simp add: iter_def)
  next
    case (Occupied hash i)
    have "scan \<noteq> e" using Occupied prems(10) by auto
    then have near: "gap ?n (succ_mod ?n scan) e < gap ?n scan e" by (rule gap_step [OF prems(5,9)])
    have next_lt: "succ_mod ?n scan < ?n" by (rule succ_mod_less [OF prems(5)])
    have i: "i < length ?es" using linkedD(3) [OF prems(3,5) Occupied] by simp
    have home: "hash_index hash AND (?n - 1) = home ?bs hash"
      by (simp add: hash_index_def home_def and_wrap [OF prems(1)] del: One_nat_def)
    have h: "home ?bs hash < ?n" using prems(5) by (intro home_less) linarith
    note dist = probe_distance_gap [OF prems(1,2) h]
    note nextm = step_wrap [OF prems(1,5)]
    show ?thesis
    proof (cases "gap ?n (home ?bs hash) hole < gap ?n (home ?bs hash) scan")
      case True
      let ?es' = "?es[i := (?es ! i)\<lparr>bucket_index := hole\<rparr>]" and ?bs' = "?bs[hole := Occupied hash i, scan := Empty]"
      let ?m = "m\<lparr>buckets := ?bs', entries := ?es'\<rparr>"
      have run: "shift_from m hole scan = shift_from ?m scan (succ_mod ?n scan)"
        using prems(4,5) Occupied i True dist [OF prems(4)] dist [OF prems(5)] nextm home
        by (subst shift_from.simps) (simp add: list_at_def list_put_def Let_def del: One_nat_def)
      have "e \<noteq> succ_mod ?n scan \<or> True" by simp
      have e': "?bs' ! e = Empty" using prems(9-11) \<open>scan \<noteq> e\<close> by (auto simp: nth_list_update)
      have "\<exists>es bs. shift_from ?m scan (succ_mod ?n scan) = Some (?m\<lparr>entries := es, buckets := bs\<rparr>) \<and> length bs = length (buckets ?m) \<and>
          length es = length (entries ?m) \<and> linked X (hash_builder ?m) es bs \<and> probed bs \<and>
          map (\<lambda>entry. (entry_key entry, entry_value entry)) es = iter ?m"
      proof (rule less.hyps)
        show "linked X (hash_builder ?m) (entries ?m) (buckets ?m)"
          using linked_move [OF prems(3) Occupied prems(5,4,6,7)] by simp
        show "probed_but scan (succ_mod ?n scan) (buckets ?m)"
          using probed_but_move [OF prems(8) Occupied prems(5,4,6,7) True] by simp
        show "succ_mod ?n scan \<noteq> scan" using \<open>scan \<noteq> e\<close> prems(5,9) by (auto simp: succ_mod_def)
        show "gap (length (buckets ?m)) (succ_mod ?n scan) e < gap (length (buckets ?m)) (succ_mod ?n scan) scan"
          using prems(5,9) \<open>scan \<noteq> e\<close> by (auto simp: gap_def succ_mod_def split: if_splits)
      qed (use prems near next_lt e' \<open>scan \<noteq> e\<close> in simp_all)
      then obtain es bs where r: "shift_from ?m scan (succ_mod ?n scan) = Some (?m\<lparr>entries := es, buckets := bs\<rparr>)"
        "length bs = length (buckets ?m)" "length es = length (entries ?m)" "linked X (hash_builder ?m) es bs" "probed bs"
        "map (\<lambda>entry. (entry_key entry, entry_value entry)) es = iter ?m" by blast
      have "iter ?m = iter m" using i by (auto simp: iter_def map_update list_update_same_conv)
      then show ?thesis using r run by (intro exI [of _ es] exI [of _ bs]) simp
    next
      case False
      have run: "shift_from m hole scan = shift_from m hole (succ_mod ?n scan)"
        using prems(4,5) Occupied i False dist [OF prems(4)] dist [OF prems(5)] nextm home
        by (subst shift_from.simps) (simp add: list_at_def Let_def del: One_nat_def)
      have "succ_mod ?n scan \<noteq> hole"
        using prems(4-6,9,11,12) \<open>scan \<noteq> e\<close> by (auto simp: gap_def succ_mod_def split: if_splits)
      moreover have "gap ?n (succ_mod ?n scan) e < gap ?n (succ_mod ?n scan) hole"
        using prems(4-6,9,11,12) \<open>scan \<noteq> e\<close> by (auto simp: gap_def succ_mod_def split: if_splits)
      ultimately show ?thesis
        unfolding run
        using less.hyps [of m "succ_mod ?n scan" hole] near next_lt prems probed_but_stay [OF prems(8) Occupied prems(5,4,6) False]
        by blast
    qed
  qed
qed

lemma swap_remove_nth:
  assumes "i < length xs" "j < length xs - 1"
  shows "swap_remove xs i ! j = (if j = i then last xs else xs ! j)"
  using assms by (simp add: swap_remove_def nth_butlast nth_list_update)

lemma swap_remove_length [simp]: "length (swap_remove xs i) = length xs - 1"
  by (simp add: swap_remove_def)

lemma swap_remove_map: "i < length xs \<Longrightarrow> map f (swap_remove xs i) = swap_remove (map f xs) i"
  by (cases "xs = []") (simp_all add: swap_remove_def map_butlast map_update last_map)

lemma swap_remove_set:
  assumes "distinct xs" "i < length xs"
  shows "set (swap_remove xs i) = set xs - {xs ! i}" "distinct (swap_remove xs i)"
proof -
  let ?l = "length xs - 1"
  have last: "last xs = xs ! ?l" using assms(2) by (intro last_conv_nth) auto
  have nth: "swap_remove xs i ! j = xs ! (if j = i then ?l else j)" if "j < ?l" for j
    using swap_remove_nth [OF assms(2) that] last by simp
  have inj: "(if j = i then ?l else j) = (if j' = i then ?l else j') \<longleftrightarrow> j = j'" if "j < ?l" "j' < ?l" for j j'
    using that by auto
  show "distinct (swap_remove xs i)"
    unfolding distinct_conv_nth swap_remove_length using assms nth inj by (auto simp: nth_eq_iff_index_eq)
  show "set (swap_remove xs i) = set xs - {xs ! i}"
  proof (intro set_eqI iffI)
    fix x assume "x \<in> set (swap_remove xs i)"
    then obtain j where j: "j < ?l" "x = xs ! (if j = i then ?l else j)" using nth by (auto simp: in_set_conv_nth)
    then have "(if j = i then ?l else j) < length xs" "(if j = i then ?l else j) \<noteq> i" by auto
    then show "x \<in> set xs - {xs ! i}" using j(2) assms by (simp add: nth_eq_iff_index_eq)
  next
    fix x assume "x \<in> set xs - {xs ! i}"
    then obtain j where j: "j < length xs" "x = xs ! j" "j \<noteq> i" by (auto simp: in_set_conv_nth)
    let ?j = "if j = ?l then i else j"
    have "?j < ?l" "swap_remove xs i ! ?j = x" using j assms(2) nth [of ?j] by auto
    then show "x \<in> set (swap_remove xs i)" by (metis nth_mem swap_remove_length)
  qed
qed

lemma erase_bucket_ok:
  assumes "table_ok m" "i < length (entries m)"
  shows "\<exists>es bs. erase_bucket m (bucket_index (entries m ! i)) = Some (m\<lparr>entries := es, buckets := bs\<rparr>) \<and>
    length bs = length (buckets m) \<and> length es = length (entries m) \<and>
    linked {i} (hash_builder m) es bs \<and> probed bs \<and>
    map (\<lambda>entry. (entry_key entry, entry_value entry)) es = iter m"
proof -
  let ?n = "length (buckets m)" and ?b = "bucket_index (entries m ! i)"
  have link: "linked {} (hash_builder m) (entries m) (buckets m)" and probed: "probed (buckets m)"
    using assms(1) by (simp_all add: table_ok_def)
  obtain k where k: "k < 64" "?n = 2 ^ k" using table_shape(1) [OF assms(1)] by blast
  have b: "?b < ?n" "buckets m ! ?b = Occupied (hash_builder m (entry_key (entries m ! i))) i"
    using linkedD(1,2) [OF link assms(2)] by auto
  obtain e where e: "e < ?n" "buckets m ! e = Empty" using empty_bucket [OF link table_shape(2) [OF assms(1)]] by blast
  have ne: "e \<noteq> ?b" using b e by auto
  let ?m = "m\<lparr>buckets := (buckets m)[?b := Empty]\<rparr>"
  have link': "linked {i} (hash_builder ?m) (entries ?m) (buckets ?m)"
    unfolding linked_def
  proof (intro conjI allI impI)
    fix j assume j: "j < length (entries ?m)" "j \<notin> {i}"
    then have "bucket_index (entries m ! j) \<noteq> ?b" using linkedD(2) [OF link, of j] b by auto
    then show "bucket_index (entries ?m ! j) < length (buckets ?m)"
      "buckets ?m ! bucket_index (entries ?m ! j) = Occupied (hash_builder ?m (entry_key (entries ?m ! j))) j"
      using linkedD(1,2) [OF link, of j] j by auto
  next
    fix c hash j assume c: "c < length (buckets ?m)" "buckets ?m ! c = Occupied hash j"
    then have "c \<noteq> ?b" using b(1) by auto
    then show "j < length (entries ?m)" "j \<notin> {i}" "bucket_index (entries ?m ! j) = c"
      using linkedD(3) [OF link, of c hash j] c by auto
  qed
  have step: "(?b + 1) AND (?n - 1) = succ_mod ?n ?b" by (rule step_wrap [OF k(2) b(1)])
  have run: "erase_bucket m ?b = shift_from ?m ?b (succ_mod ?n ?b)"
    using b(1) step by (simp add: erase_bucket_def list_put_def del: One_nat_def)
  have "\<exists>es bs. shift_from ?m ?b (succ_mod ?n ?b) = Some (?m\<lparr>entries := es, buckets := bs\<rparr>) \<and> length bs = length (buckets ?m) \<and>
    length es = length (entries ?m) \<and> linked {i} (hash_builder ?m) es bs \<and> probed bs \<and>
    map (\<lambda>entry. (entry_key entry, entry_value entry)) es = iter ?m"
  proof (rule shift_from_ok [OF _ _ link'])
    show "probed_but ?b (succ_mod ?n ?b) (buckets ?m)" using probed_but_start [OF probed b(1)] by simp
    show "length (buckets ?m) = 2 ^ k" "k \<le> 64" "?b < length (buckets ?m)" "succ_mod ?n ?b < length (buckets ?m)"
      "buckets ?m ! ?b = Empty" "e < length (buckets ?m)" "e \<noteq> ?b" "buckets ?m ! e = Empty"
      using k b(1) e ne succ_mod_less [OF b(1)] by (simp_all add: nth_list_update)
    show "succ_mod ?n ?b \<noteq> ?b" using ne e(1) b(1) by (auto simp: succ_mod_def)
    show "gap (length (buckets ?m)) (succ_mod ?n ?b) e < gap (length (buckets ?m)) (succ_mod ?n ?b) ?b"
      using ne e(1) b(1) by (auto simp: gap_def succ_mod_def split: if_splits)
  qed
  then show ?thesis unfolding run by (auto simp: iter_def)
qed

text \<open>Removing the entry and fixing the bucket of the entry that takes its place.\<close>

lemma linked_swap_remove:
  assumes "linked {i} hasher es bs" "i < length es"
  shows "i < length es - 1 \<Longrightarrow> \<exists>hash. bs ! bucket_index (last es) = Occupied hash (length es - 1) \<and>
      bucket_index (last es) < length bs \<and> hash = hasher (entry_key (last es)) \<and>
      linked {} hasher (swap_remove es i) (bs[bucket_index (last es) := Occupied hash i])"
    and "\<not> i < length es - 1 \<Longrightarrow> linked {} hasher (swap_remove es i) bs"
proof -
  let ?l = "length es - 1"
  have last: "last es = es ! ?l" using assms(2) by (intro last_conv_nth) auto
  note nth = swap_remove_nth [OF assms(2)]
  {
    assume il: "i < ?l"
    let ?lb = "bucket_index (last es)" and ?hash = "hasher (entry_key (last es))"
    have lb: "?lb < length bs" "bs ! ?lb = Occupied ?hash ?l"
      using linkedD(1,2) [OF assms(1), of ?l] il last by auto
    have "linked {} hasher (swap_remove es i) (bs[?lb := Occupied ?hash i])"
      unfolding linked_def
    proof (intro conjI allI impI)
      fix j assume j: "j < length (swap_remove es i)" "j \<notin> {}"
      have jl: "j < length es" using j by (simp add: less_diff_conv)
      have "bucket_index (es ! j) \<noteq> ?lb" if "j \<noteq> i"
        using linkedD(2) [OF assms(1) jl] that lb j by auto
      then show "bucket_index (swap_remove es i ! j) < length (bs[?lb := Occupied ?hash i])"
        "bs[?lb := Occupied ?hash i] ! bucket_index (swap_remove es i ! j) = Occupied (hasher (entry_key (swap_remove es i ! j))) j"
        using linkedD(1,2) [OF assms(1), of j] lb j nth [of j] by (cases "j = i"; auto)+
    next
      fix b hash j assume b: "b < length (bs[?lb := Occupied ?hash i])" "bs[?lb := Occupied ?hash i] ! b = Occupied hash j"
      have "j < ?l \<and> bucket_index (swap_remove es i ! j) = b"
      proof (cases "b = ?lb")
        case True
        then have "j = i" using b lb by simp
        then show ?thesis using True il nth [of i] by simp
      next
        case False
        then have "bs ! b = Occupied hash j" using b by simp
        then have j: "j < length es" "j \<noteq> i" "bucket_index (es ! j) = b" using linkedD(3) [OF assms(1), of b hash j] b by auto
        then have "j \<noteq> ?l" using False last by auto
        then show ?thesis using j nth [of j] by auto
      qed
      then show "j < length (swap_remove es i)" "j \<notin> {}" "bucket_index (swap_remove es i ! j) = b" by simp_all
    qed
    then show "\<exists>hash. bs ! ?lb = Occupied hash ?l \<and> ?lb < length bs \<and> hash = ?hash \<and>
      linked {} hasher (swap_remove es i) (bs[?lb := Occupied hash i])" using lb by blast
  }
  {
    assume "\<not> i < ?l"
    then have i: "i = ?l" using assms(2) by simp
    show "linked {} hasher (swap_remove es i) bs"
      unfolding linked_def
    proof (intro conjI allI impI)
      fix j assume j: "j < length (swap_remove es i)" "j \<notin> {}"
      then show "bucket_index (swap_remove es i ! j) < length bs"
        "bs ! bucket_index (swap_remove es i ! j) = Occupied (hasher (entry_key (swap_remove es i ! j))) j"
        using linkedD(1,2) [OF assms(1), of j] nth [of j] i by auto
    next
      fix b hash j assume b: "b < length bs" "bs ! b = Occupied hash j"
      then have "j < length es" "j \<noteq> i" "bucket_index (es ! j) = b" using linkedD(3) [OF assms(1) b] by auto
      then show "j < length (swap_remove es i)" "j \<notin> {}" "bucket_index (swap_remove es i ! j) = b"
        using i nth [of j] by auto
    qed
  }
qed

lemma probed_relabel:
  assumes "probed bs" "b < length bs" "bs ! b = Occupied hash j"
  shows "probed (bs[b := Occupied hash i])"
  using assms unfolding probed_def probe_free_def home_def by (auto simp: nth_list_update split: if_splits)

lemma contents_swap_remove:
  assumes "distinct (map entry_key (entries m))" "i < length (entries m)"
    and "map (\<lambda>entry. (entry_key entry, entry_value entry)) es = swap_remove (iter m) i"
  shows "distinct (map entry_key es)" "contents (m\<lparr>entries := es, buckets := bs\<rparr>) = (contents m)(entry_key (entries m ! i) := None)"
proof -
  have d: "distinct (map fst (iter m))" using assms(1) by simp
  have i: "i < length (iter m)" using assms(2) by simp
  have keys: "map entry_key es = swap_remove (map fst (iter m)) i"
    using arg_cong [OF assms(3), of "map fst"] swap_remove_map [OF i, of fst] by (simp add: comp_def)
  show "distinct (map entry_key es)" unfolding keys using swap_remove_set(2) [OF d] i by simp
  have set: "set (swap_remove (iter m) i) = set (iter m) - {iter m ! i}"
    by (rule swap_remove_set(1) [OF distinct_map [THEN iffD1, THEN conjunct1, OF d] i])
  have d': "distinct (map fst (swap_remove (iter m) i))"
    unfolding swap_remove_map [OF i] using swap_remove_set(2) [OF d] i by simp
  have ith: "iter m ! i = (entry_key (entries m ! i), entry_value (entries m ! i))" using assms(2) by (simp add: iter_def)
  have ith_in: "(entry_key (entries m ! i), entry_value (entries m ! i)) \<in> set (iter m)"
    using nth_mem [OF i] by (simp only: ith)
  show "contents (m\<lparr>entries := es, buckets := bs\<rparr>) = (contents m)(entry_key (entries m ! i) := None)"
  proof
    fix key
    have eqv: "map_of (swap_remove (iter m) i) key = Some v \<longleftrightarrow> map_of (iter m) key = Some v \<and> key \<noteq> entry_key (entries m ! i)" for v
    proof -
      have "map_of (swap_remove (iter m) i) key = Some v \<longleftrightarrow> (key, v) \<in> set (iter m) \<and> (key, v) \<noteq> iter m ! i"
        by (simp only: map_of_eq_Some_iff [OF d'] set Diff_iff singleton_iff)
      also have "\<dots> \<longleftrightarrow> (key, v) \<in> set (iter m) \<and> key \<noteq> entry_key (entries m ! i)"
        using eq_key_imp_eq_value [OF d, of key v "entry_value (entries m ! i)"] ith_in unfolding ith by blast
      also have "\<dots> \<longleftrightarrow> map_of (iter m) key = Some v \<and> key \<noteq> entry_key (entries m ! i)"
        by (simp only: map_of_eq_Some_iff [OF d])
      finally show ?thesis .
    qed
    have "map_of (swap_remove (iter m) i) key = (if key = entry_key (entries m ! i) then None else map_of (iter m) key)"
    proof (cases "key = entry_key (entries m ! i)")
      case True
      then have "\<forall>v. map_of (swap_remove (iter m) i) key \<noteq> Some v" using eqv by blast
      then show ?thesis using True by (simp add: not_Some_eq)
    next
      case False
      then have "\<forall>v. map_of (swap_remove (iter m) i) key = Some v \<longleftrightarrow> map_of (iter m) key = Some v" using eqv by blast
      then have "map_of (swap_remove (iter m) i) key = map_of (iter m) key" by (metis not_Some_eq)
      then show ?thesis using False by simp
    qed
    then show "contents (m\<lparr>entries := es, buckets := bs\<rparr>) key = ((contents m)(entry_key (entries m ! i) := None)) key"
      unfolding contents_def iter_def by (simp add: assms(3) [unfolded iter_def] iter_def [symmetric])
  qed
qed

lemma remove_ok:
  assumes "table_ok m"
  shows "\<exists>m'. remove m key = Some (contents m key, m') \<and> table_ok m' \<and> contents m' = (contents m)(key := None) \<and>
    maximum m' = maximum m \<and> hash_builder m' = hash_builder m"
proof (cases rule: key_cases [of key m])
  case absent
  obtain b where "search m key (hash_builder m key) = Some (Vacant b)"
    by (rule table_search_vacant [OF assms absent(1)])
  then have "remove m key = Some (None, m)" by (simp add: remove_def)
  then show ?thesis using assms absent(2) by (auto simp: fun_upd_idem)
next
  case (present i)
  have d: "distinct (map entry_key (entries m))" using assms by (simp add: table_ok_def)
  have c: "contents m key = Some (entry_value (entries m ! i))" using contents_index [OF d present(1)] present(2) by simp
  obtain es bs where erased: "erase_bucket m (bucket_index (entries m ! i)) = Some (m\<lparr>entries := es, buckets := bs\<rparr>)"
    "length bs = length (buckets m)" "length es = length (entries m)" "linked {i} (hash_builder m) es bs" "probed bs"
    "map (\<lambda>entry. (entry_key entry, entry_value entry)) es = iter m"
    using erase_bucket_ok [OF assms present(1)] by blast
  have i: "i < length es" using erased(3) present(1) by simp
  have val: "entry_value (es ! i) = entry_value (entries m ! i)"
    using arg_cong [OF erased(6), of "\<lambda>xs. snd (xs ! i)"] i present(1) by (simp add: iter_def)
  let ?rest = "swap_remove es i"
  have rest: "map (\<lambda>entry. (entry_key entry, entry_value entry)) ?rest = swap_remove (iter m) i"
    by (simp only: swap_remove_map [OF i] erased(6))
  have len: "length ?rest \<le> maximum m" using assms erased(3) unfolding table_ok_def swap_remove_length by linarith
  note content = contents_swap_remove [OF d present(1) rest]
  show ?thesis
  proof (cases "i < length es - 1")
    case True
    obtain hash where hash: "bs ! bucket_index (last es) = Occupied hash (length es - 1)" "bucket_index (last es) < length bs"
      "linked {} (hash_builder m) ?rest (bs[bucket_index (last es) := Occupied hash i])"
      using linked_swap_remove(1) [OF erased(4) i True] by blast
    let ?m = "m\<lparr>entries := ?rest, buckets := bs[bucket_index (last es) := Occupied hash i]\<rparr>"
    have "?rest ! i = last es" using swap_remove_nth [OF i, of i] True by simp
    then have "remove m key = Some (Some (entry_value (entries m ! i)), ?m)"
      using table_search_found [OF assms present] erased(1) i True hash(1,2) val
      by (simp add: remove_def Let_def list_at_def)
    moreover have "table_ok ?m"
      using assms hash(3) probed_relabel [OF erased(5) hash(2,1)] len content(1) erased(2) by (simp add: table_ok_def)
    ultimately show ?thesis using content(2) c present(2) by auto
  next
    case False
    let ?m = "m\<lparr>entries := ?rest, buckets := bs\<rparr>"
    have "remove m key = Some (Some (entry_value (entries m ! i)), ?m)"
      using table_search_found [OF assms present] erased(1) i False val
      by (simp add: remove_def Let_def list_at_def)
    moreover have "table_ok ?m"
      using assms linked_swap_remove(2) [OF erased(4) i False] erased(5) len content(1) erased(2) by (simp add: table_ok_def)
    ultimately show ?thesis using content(2) c present(2) by auto
  qed
qed

section \<open>Construction, clearing, equality and audit\<close>

lemma try_with_hasher_ok:
  assumes "try_with_hasher reserve max_entries hasher = Inr m"
  shows "table_ok m" "contents m = Map.empty" "maximum m = max_entries" "hash_builder m = hasher"
proof -
  obtain n where n: "bucket_count max_entries = Inr n"
    "m = \<lparr>entries = [], buckets = replicate n Empty, maximum = max_entries, hash_builder = hasher\<rparr>"
    using assms by (auto simp: try_with_hasher_def result_simps)
  then show "table_ok m" "contents m = Map.empty" "maximum m = max_entries" "hash_builder m = hasher"
    by (auto simp: table_ok_def linked_def probed_def contents_def iter_def)
qed

lemma clear_buckets_ok:
  "\<forall>entry \<in> set es. bucket_index entry < length bs \<Longrightarrow>
     \<exists>bs'. clear_buckets es bs = Some bs' \<and> length bs' = length bs \<and>
       (\<forall>b < length bs. bs' ! b = (if b \<in> bucket_index ` set es then Empty else bs ! b))"
proof (induction es arbitrary: bs)
  case (Cons entry es)
  let ?bs = "bs[bucket_index entry := Empty]"
  obtain bs' where bs': "clear_buckets es ?bs = Some bs'" "length bs' = length bs"
    "\<forall>b < length bs. bs' ! b = (if b \<in> bucket_index ` set es then Empty else ?bs ! b)"
    using Cons.IH [of ?bs] Cons.prems by auto
  then show ?case using Cons.prems by (auto simp: list_put_def nth_list_update)
qed simp

lemma clear_ok:
  assumes "table_ok m"
  shows "\<exists>m'. clear m = Some m' \<and> table_ok m' \<and> contents m' = Map.empty \<and> maximum m' = maximum m \<and> hash_builder m' = hash_builder m"
proof -
  have link: "linked {} (hash_builder m) (entries m) (buckets m)" using assms by (simp add: table_ok_def)
  have "\<forall>entry \<in> set (entries m). bucket_index entry < length (buckets m)"
    using linkedD(1) [OF link] by (auto simp: in_set_conv_nth)
  from clear_buckets_ok [OF this] obtain bs where bs: "clear_buckets (entries m) (buckets m) = Some bs"
    "length bs = length (buckets m)"
    "\<forall>b < length (buckets m). bs ! b = (if b \<in> bucket_index ` set (entries m) then Empty else buckets m ! b)" by blast
  have "bs ! b = Empty" if "b < length bs" for b
  proof (cases "buckets m ! b")
    case (Occupied hash i)
    then have "i < length (entries m)" "bucket_index (entries m ! i) = b" using linkedD(3) [OF link, of b] that bs(2) by auto
    then show ?thesis using bs(2,3) that by force
  qed (use bs(2,3) that in simp)
  then have "linked {} (hash_builder m) [] bs" "probed bs" by (auto simp: linked_def probed_def)
  then show ?thesis using bs(1,2) assms by (simp add: clear_def table_ok_def contents_def iter_def)
qed

lemma all_mapped_ok:
  "table_ok other \<Longrightarrow> all_mapped kvs other = Some (\<forall>(k, v) \<in> set kvs. contents other k = Some v)"
  by (induction kvs other rule: all_mapped.induct) (auto simp: get_ok)

lemma table_card: "table_ok m \<Longrightarrow> card (dom (contents m)) = length (entries m)"
proof -
  assume "table_ok m"
  then have "card (set (map entry_key (entries m))) = length (entries m)"
    using distinct_card [of "map entry_key (entries m)"] by (simp add: table_ok_def)
  moreover have "dom (contents m) = set (map entry_key (entries m))"
    by (simp add: contents_def dom_map_of_conv_image_fst iter_def image_image)
  ultimately show ?thesis by simp
qed

lemma eq_ok:
  assumes "table_ok m" "table_ok other"
  shows "eq m other = Some (contents m = contents other)"
proof -
  have d: "distinct (map fst (iter m))" using assms(1) by (simp add: table_ok_def)
  have le: "(\<forall>(k, v) \<in> set (iter m). contents other k = Some v) \<longleftrightarrow> contents m \<subseteq>\<^sub>m contents other"
    using map_of_eq_Some_iff [OF d] by (force simp: map_le_def contents_def dom_def)
  have fin: "finite (dom (contents m))" "finite (dom (contents other))" by (simp_all add: contents_def finite_dom_map_of)
  have "contents m \<subseteq>\<^sub>m contents other \<and> length (entries m) = length (entries other) \<longleftrightarrow> contents m = contents other"
  proof
    assume *: "contents m \<subseteq>\<^sub>m contents other \<and> length (entries m) = length (entries other)"
    then have "dom (contents m) = dom (contents other)"
      using map_le_implies_dom_le [of "contents m" "contents other"] table_card [OF assms(1)] table_card [OF assms(2)]
      by (intro card_subset_eq [OF fin(2)]) auto
    then show "contents m = contents other" using * by (intro map_le_antisym) (auto simp: map_le_def)
  next
    assume "contents m = contents other"
    then show "contents m \<subseteq>\<^sub>m contents other \<and> length (entries m) = length (entries other)"
      using table_card [OF assms(1)] table_card [OF assms(2)] by simp
  qed
  then show ?thesis by (auto simp: eq_def all_mapped_ok [OF assms(2)] le)
qed

lemma validate_entries_ok:
  assumes "table_ok m"
  shows "i \<le> length (entries m) \<Longrightarrow> validate_entries m i (drop i (entries m)) = Some (Inr ())"
proof (induction "length (entries m) - i" arbitrary: i)
  case (Suc n)
  then have i: "i < length (entries m)" by simp
  have link: "linked {} (hash_builder m) (entries m) (buckets m)" using assms by (simp add: table_ok_def)
  have "drop i (entries m) = entries m ! i # drop (i + 1) (entries m)" using i by (simp add: Cons_nth_drop_Suc)
  then show ?case
    using linkedD(1,2) [OF link i] table_search_found [OF assms i refl] Suc.hyps(1) [of "i + 1"] Suc.hyps(2) i
    by (simp add: list_at_def)
qed simp

lemma validate_layout_ok:
  assumes "table_ok m"
  shows "validate_layout m = Some (Inr ())"
proof -
  have "\<exists>k \<in> {..<64}. length (buckets m) = 2 ^ k" using table_shape(1) [OF assms] by auto
  moreover have "length (entries m) \<le> maximum m" "bucket_count (maximum m) = Inr (length (buckets m))"
    using assms by (simp_all add: table_ok_def)
  ultimately show ?thesis using validate_entries_ok [OF assms, of 0] by (simp add: validate_layout_def)
qed

section \<open>The interface\<close>

text \<open>
  What the engines use of an index: its calls return, the contents behave as a finite map, a new key is
  refused only at the maximum, and the maximum never changes.
\<close>

locale bounded_map =
  fixes lookup :: "'m \<Rightarrow> 'k \<Rightarrow> 'v option option"
    and insert_at :: "'m \<Rightarrow> 'k \<Rightarrow> 'v \<Rightarrow> ((BoundedHashError + 'v option) \<times> 'm) option"
    and delete :: "'m \<Rightarrow> 'k \<Rightarrow> ('v option \<times> 'm) option"
    and invar :: "'m \<Rightarrow> bool"
    and abs :: "'m \<Rightarrow> 'k \<rightharpoonup> 'v"
    and capacity :: "'m \<Rightarrow> nat"
  assumes lookup: "invar m \<Longrightarrow> lookup m k = Some (abs m k)"
    and insert_present: "invar m \<Longrightarrow> abs m k = Some old \<Longrightarrow>
      \<exists>m'. insert_at m k v = Some (Inr (Some old), m') \<and> invar m' \<and> abs m' = (abs m)(k \<mapsto> v) \<and> capacity m' = capacity m"
    and insert_new: "invar m \<Longrightarrow> abs m k = None \<Longrightarrow> card (dom (abs m)) < capacity m \<Longrightarrow>
      \<exists>m'. insert_at m k v = Some (Inr None, m') \<and> invar m' \<and> abs m' = (abs m)(k \<mapsto> v) \<and> capacity m' = capacity m"
    and insert_full: "invar m \<Longrightarrow> abs m k = None \<Longrightarrow> \<not> card (dom (abs m)) < capacity m \<Longrightarrow>
      insert_at m k v = Some (Inl (Full (capacity m)), m)"
    and delete: "invar m \<Longrightarrow> \<exists>m'. delete m k = Some (abs m k, m') \<and> invar m' \<and> abs m' = (abs m)(k := None) \<and> capacity m' = capacity m"
begin

text \<open>Every insertion either stores the pair or is refused at the maximum without any change.\<close>

lemma insert_outcome:
  assumes "invar m"
  obtains (stored) m' where "insert_at m k v = Some (Inr (abs m k), m')" "invar m'" "abs m' = (abs m)(k \<mapsto> v)" "capacity m' = capacity m"
    "abs m k \<noteq> None \<or> card (dom (abs m)) < capacity m"
  | (refused) "insert_at m k v = Some (Inl (Full (capacity m)), m)" "abs m k = None" "\<not> card (dom (abs m)) < capacity m"
proof (cases "abs m k")
  case None
  then show ?thesis
    using insert_new [OF assms None, of v] insert_full [OF assms None, of v] that by (cases "card (dom (abs m)) < capacity m") auto
next
  case (Some old)
  then show ?thesis using insert_present [OF assms Some, of v] that by auto
qed

lemma insert_then_lookup:
  "invar m \<Longrightarrow> insert_at m k v = Some (Inr r, m') \<Longrightarrow> lookup m' k = Some (Some v)"
  by (rule insert_outcome [of m k v]) (auto simp: lookup)

lemma insert_delete_roundtrip:
  assumes "invar m" "abs m k = None" "insert_at m k v = Some (Inr r, m')"
  shows "\<exists>m''. delete m' k = Some (Some v, m'') \<and> invar m'' \<and> abs m'' = abs m"
proof -
  have m': "invar m'" "abs m' = (abs m)(k \<mapsto> v)"
    using insert_outcome [OF assms(1), of k v] assms(3) by auto
  from delete [OF m'(1), of k] show ?thesis using m'(2) assms(2) by (auto simp: fun_upd_idem)
qed

end

interpretation hash_map: bounded_map get try_insert remove table_ok contents maximum
proof
  fix m :: "('k, 'v) BoundedHashMap" and k v old
  assume ok: "table_ok m"
  show "get m k = Some (contents m k)" by (rule get_ok [OF ok])
  show "\<exists>m'. remove m k = Some (contents m k, m') \<and> table_ok m' \<and> contents m' = (contents m)(k := None) \<and> maximum m' = maximum m"
    using remove_ok [OF ok, of k] by blast
  show "contents m k = Some old \<Longrightarrow>
      \<exists>m'. try_insert m k v = Some (Inr (Some old), m') \<and> table_ok m' \<and> contents m' = (contents m)(k \<mapsto> v) \<and> maximum m' = maximum m"
    using try_insert_ok(1) [OF ok] by blast
  show "contents m k = None \<Longrightarrow> card (dom (contents m)) < maximum m \<Longrightarrow>
      \<exists>m'. try_insert m k v = Some (Inr None, m') \<and> table_ok m' \<and> contents m' = (contents m)(k \<mapsto> v) \<and> maximum m' = maximum m"
    using try_insert_ok(2) [OF ok] by blast
  show "contents m k = None \<Longrightarrow> \<not> card (dom (contents m)) < maximum m \<Longrightarrow> try_insert m k v = Some (Inl (Full (maximum m)), m)"
    by (rule try_insert_ok(3) [OF ok])
qed

lemma set_insert_ok:
  assumes "table_ok m" "contents m k \<noteq> None \<or> card (dom (contents m)) < maximum m"
  shows "\<exists>m'. set_insert m k = Some (contents m k = None, m') \<and> table_ok m' \<and> dom (contents m') = insert k (dom (contents m))"
proof -
  obtain m' where "try_insert m k () = Some (Inr (contents m k), m')" "table_ok m'" "contents m' = (contents m)(k \<mapsto> ())"
    by (rule hash_map.insert_outcome [OF assms(1), of k "()"]) (use assms(2) in blast)+
  then show ?thesis by (intro exI [of _ m']) (simp add: set_insert_def insert_unwrap_def)
qed

section \<open>Properties\<close>

text \<open>The tables that the operations can build.\<close>

inductive hash_reachable :: "nat \<Rightarrow> ('k, 'v) BoundedHashMap \<Rightarrow> bool" for max_entries where
  built: "try_with_hasher reserve max_entries hasher = Inr m \<Longrightarrow> hash_reachable max_entries m"
| inserted: "hash_reachable max_entries m \<Longrightarrow> try_insert m k v = Some (r, m') \<Longrightarrow> hash_reachable max_entries m'"
| updated: "hash_reachable max_entries m \<Longrightarrow> update_value m k f = Some m' \<Longrightarrow> hash_reachable max_entries m'"
| removed: "hash_reachable max_entries m \<Longrightarrow> remove m k = Some (old, m') \<Longrightarrow> hash_reachable max_entries m'"
| cleared: "hash_reachable max_entries m \<Longrightarrow> clear m = Some m' \<Longrightarrow> hash_reachable max_entries m'"

lemma reachable_table: "hash_reachable max_entries m \<Longrightarrow> table_ok m \<and> maximum m = max_entries"
proof (induction rule: hash_reachable.induct)
  case (built reserve hasher m)
  then show ?case using try_with_hasher_ok by blast
next
  case (inserted m k v r m')
  then show ?case using hash_map.insert_outcome [of m k v] by auto
next
  case (updated m k f m')
  then show ?case using update_value_ok [of m k f] by auto
next
  case (removed m k old m')
  then show ?case using remove_ok [of m k] by auto
next
  case (cleared m m')
  then show ?case using clear_ok [of m] by auto
qed

text \<open>
  C39. The hash index refines a finite map of bounded size. On every table the operations can build, with
  any hash function, collisions included, every call returns without a panic; a lookup reads the
  map, a removal deletes the key and returns its value, an insertion stores the pair and returns
  the previous value, and only a new key at the configured maximum is refused, without a change.
\<close>

theorem hash_index_refines_map:
  assumes "hash_reachable max_entries m"
  shows "get m k = Some (contents m k) \<and>
    (\<exists>m'. remove m k = Some (contents m k, m') \<and> hash_reachable max_entries m' \<and> contents m' = (contents m)(k := None)) \<and>
    (if contents m k \<noteq> None \<or> card (dom (contents m)) < max_entries
     then \<exists>m'. try_insert m k v = Some (Inr (contents m k), m') \<and> hash_reachable max_entries m' \<and> contents m' = (contents m)(k \<mapsto> v)
     else try_insert m k v = Some (Inl (Full max_entries), m))"
proof -
  have ok: "table_ok m" and max: "maximum m = max_entries" using reachable_table [OF assms] by simp_all
  have "\<exists>m'. remove m k = Some (contents m k, m') \<and> hash_reachable max_entries m' \<and> contents m' = (contents m)(k := None)"
    using remove_ok [OF ok, of k] hash_reachable.removed [OF assms] by blast
  moreover have "if contents m k \<noteq> None \<or> card (dom (contents m)) < max_entries
     then \<exists>m'. try_insert m k v = Some (Inr (contents m k), m') \<and> hash_reachable max_entries m' \<and> contents m' = (contents m)(k \<mapsto> v)
     else try_insert m k v = Some (Inl (Full max_entries), m)"
    using ok hash_reachable.inserted [OF assms] max by (cases rule: hash_map.insert_outcome [of m k v]) auto
  ultimately show ?thesis using get_ok [OF ok] by blast
qed

lemma colliding_table:
  "\<exists>m :: (nat, nat) BoundedHashMap. hash_reachable 2 m \<and> contents m = [7 \<mapsto> 70, 8 \<mapsto> 80]"
proof -
  have "\<exists>m :: (nat, nat) BoundedHashMap. try_with_hasher (\<lambda>_. True) 2 (\<lambda>_. 3) = Inr m"
    by (simp add: try_with_hasher_def bucket_count_def fits_u64_def double_until.simps [of 1] double_until.simps [of "Suc 0"]
      double_until.simps [of 2] double_until.simps [of 4])
  then obtain m :: "(nat, nat) BoundedHashMap" where m: "try_with_hasher (\<lambda>_. True) 2 (\<lambda>_. 3) = Inr m" ..
  note base = try_with_hasher_ok [OF m]
  obtain m1 where m1: "try_insert m 7 70 = Some (Inr None, m1)" "table_ok m1" "contents m1 = [7 \<mapsto> 70]" "maximum m1 = 2"
    using try_insert_ok(2) [OF base(1), of 7 70] base by auto
  obtain m2 where m2: "try_insert m1 8 80 = Some (Inr None, m2)" "contents m2 = [7 \<mapsto> 70, 8 \<mapsto> 80]"
    using try_insert_ok(2) [OF m1(2), of 8 80] m1 by auto
  have "hash_reachable 2 m2"
    by (rule hash_reachable.inserted [OF hash_reachable.inserted [OF hash_reachable.built [OF m] m1(1)] m2(1)])
  then show ?thesis using m2(2) by blast
qed

theorem hash_index_refines_map_witness:
  "\<exists>m :: (nat, nat) BoundedHashMap. get m 7 = Some (Some 70) \<and> try_insert m 9 90 = Some (Inl (Full 2), m) \<and>
     (\<exists>m'. remove m 7 = Some (Some 70, m') \<and> contents m' = [8 \<mapsto> 80])"
proof -
  obtain m :: "(nat, nat) BoundedHashMap" where m: "hash_reachable 2 m" "contents m = [7 \<mapsto> 70, 8 \<mapsto> 80]"
    using colliding_table by blast
  have dom: "card (dom (contents m)) = 2" using m(2) by simp
  have upd: "([7 \<mapsto> 70, 8 \<mapsto> 80] :: nat \<rightharpoonup> nat)(7 := None) = [8 \<mapsto> 80]" by (simp add: fun_eq_iff)
  from hash_index_refines_map [OF m(1), of 7 90] hash_index_refines_map [OF m(1), of 9 90] show ?thesis
    using m(2) dom upd by (intro exI [of _ m]) auto
qed

text \<open>
  C40. The layout audit accepts every table the operations can build, iteration lists each pair of the map
  exactly once, and the equality of two tables is the equality of their maps.
\<close>

theorem hash_index_audit:
  assumes "hash_reachable max_entries m" "hash_reachable other_max other"
  shows "validate_layout m = Some (Inr ()) \<and>
    distinct (map fst (iter m)) \<and> map_of (iter m) = contents m \<and> length (iter m) \<le> max_entries \<and>
    eq m other = Some (contents m = contents other)"
proof -
  have ok: "table_ok m" "table_ok other" and max: "maximum m = max_entries"
    using reachable_table [OF assms(1)] reachable_table [OF assms(2)] by simp_all
  then show ?thesis
    using validate_layout_ok [OF ok(1)] eq_ok [OF ok] by (simp add: contents_def table_ok_def)
qed

theorem hash_index_audit_witness:
  "\<exists>m :: (nat, nat) BoundedHashMap. contents m = [7 \<mapsto> 70, 8 \<mapsto> 80] \<and> validate_layout m = Some (Inr ()) \<and> eq m m = Some True"
proof -
  obtain m :: "(nat, nat) BoundedHashMap" where m: "hash_reachable 2 m" "contents m = [7 \<mapsto> 70, 8 \<mapsto> 80]"
    using colliding_table by blast
  from hash_index_audit [OF m(1) m(1)] m(2) show ?thesis by auto
qed

end
