(* ===== verification/Domain.thy ===== *)
theory Domain
  imports Prelude
begin

text \<open>
  The validated scalars of \<open>src/src/domain.rs\<close>. The identifier newtypes are transparent wrappers of a
  non-zero \<open>u64\<close>, so they are natural numbers here and the constructor is the one function
  \<open>identifier_new\<close> the macro expands to for each of them; a \<open>Price\<close> is its raw \<open>i64\<close>, a \<open>Quantity\<close>
  its positive number of lots.
\<close>

datatype DomainError = ZeroIdentifier string | ZeroQuantity

type_synonym AccountId = nat
type_synonym AssetId = nat
type_synonym AuctionId = nat
type_synonym CalendarId = nat
type_synonym CalendarVersion = nat
type_synonym CommandId = nat
type_synonym InstrumentId = nat
type_synonym InstrumentVersion = nat
type_synonym OrderId = nat
type_synonym TradeId = nat
type_synonym TransactionId = nat
type_synonym TradingSessionId = nat
type_synonym AccountingDate = int
type_synonym Price = int
type_synonym Quantity = nat
type_synonym TimestampNs = nat

definition identifier_new :: "string \<Rightarrow> nat \<Rightarrow> DomainError + nat" where
  "identifier_new label v = (if v = 0 then Inl (ZeroIdentifier label) else Inr v)"

definition quantity_new :: "nat \<Rightarrow> DomainError + Quantity" where
  "quantity_new lots = (if lots = 0 then Inl ZeroQuantity else Inr lots)"

datatype Side = Buy | Sell

fun opposite :: "Side \<Rightarrow> Side" where
  "opposite Buy = Sell"
| "opposite Sell = Buy"

lemma opposite_opposite [simp]: "opposite (opposite s) = s"
  by (cases s) auto

lemma opposite_neq [simp]: "opposite s \<noteq> s" "s \<noteq> opposite s"
  by (cases s; simp)+

text \<open>A trade as the matching engine emits it (\<open>src/src/matching.rs\<close>); clearing reads it.\<close>

record Trade =
  trade_id :: TradeId
  trade_instrument_id :: InstrumentId
  trade_instrument_version :: InstrumentVersion
  trade_price :: Price
  trade_quantity :: Quantity
  trade_buy_order_id :: OrderId
  trade_sell_order_id :: OrderId
  buyer_account_id :: AccountId
  seller_account_id :: AccountId
  maker_order_id :: OrderId
  taker_order_id :: OrderId

end
