(* ===== verification/AuctionPricing.thy ===== *)
theory AuctionPricing
  imports Domain
begin

text \<open>
  Call-auction price discovery, from the first half of \<open>src/src/auction.rs\<close>: the price grid and band, the
  aggregate levels, the clearing state at one price, the ranking of two clearing states, the input
  validation and the sweep over the constant demand/supply intervals. The two cumulative curves
  \<open>demand_at\<close> and \<open>supply_at\<close> are the specification the sweep is compared with: what an uncross at a
  given price could execute, read off the levels directly.
\<close>

section \<open>The grid, the band and the aggregate levels\<close>

datatype AuctionError =
    InvalidTickSize nat
  | PriceBandInverted
  | PriceBandMinimumOffGrid
  | PriceBandMaximumOffGrid
  | ZeroLevelQuantity
  | PriceOffGrid Side nat
  | ReferencePriceOffGrid
  | NonCanonicalLevels Side nat
  | AuctionQuantityOverflow Side
  | AuctionQuantityUnderflow Side

record AuctionPriceGrid =
  grid_tick_size :: nat
  grid_tick_i64 :: int

definition grid_new :: "nat \<Rightarrow> AuctionError + AuctionPriceGrid" where
  "grid_new tick_size =
     (if \<not> fits_i64 (int tick_size) then Inl (InvalidTickSize tick_size)
      else if tick_size = 0 then Inl (InvalidTickSize tick_size)
      else Inr \<lparr>grid_tick_size = tick_size, grid_tick_i64 = int tick_size\<rparr>)"

text \<open>
  The tick of a grid is positive, so Euclidean remainder is HOL's \<open>mod\<close>.
\<close>

definition grid_contains :: "AuctionPriceGrid \<Rightarrow> Price \<Rightarrow> bool" where
  "grid_contains g price \<longleftrightarrow> price mod grid_tick_i64 g = 0"

definition grid_successor :: "AuctionPriceGrid \<Rightarrow> Price \<Rightarrow> Price option" where
  "grid_successor g price = checked fits_i64 (price + grid_tick_i64 g)"

definition grid_predecessor :: "AuctionPriceGrid \<Rightarrow> Price \<Rightarrow> Price option" where
  "grid_predecessor g price = checked fits_i64 (price - grid_tick_i64 g)"

definition grid_maximum :: "AuctionPriceGrid \<Rightarrow> Price" where
  "grid_maximum g = i64_max - i64_max mod grid_tick_i64 g"

definition grid_minimum :: "AuctionPriceGrid \<Rightarrow> Price" where
  "grid_minimum g =
     (let remainder = i64_min mod grid_tick_i64 g
      in if remainder = 0 then i64_min else i64_min + (grid_tick_i64 g - remainder))"

record AuctionPriceBand =
  band_minimum :: Price
  band_maximum :: Price

definition validate_price_band ::
    "AuctionPriceGrid \<Rightarrow> Price \<Rightarrow> Price \<Rightarrow> AuctionError + unit" where
  "validate_price_band g minimum maximum =
     (if maximum < minimum then Inl PriceBandInverted
      else if \<not> grid_contains g minimum then Inl PriceBandMinimumOffGrid
      else if \<not> grid_contains g maximum then Inl PriceBandMaximumOffGrid
      else Inr ())"

definition band_new ::
    "AuctionPriceGrid \<Rightarrow> Price \<Rightarrow> Price \<Rightarrow> AuctionError + AuctionPriceBand" where
  "band_new g minimum maximum =
     and_then (validate_price_band g minimum maximum)
       (\<lambda>_. Inr \<lparr>band_minimum = minimum, band_maximum = maximum\<rparr>)"

definition band_full :: "AuctionPriceGrid \<Rightarrow> AuctionPriceBand" where
  "band_full g = \<lparr>band_minimum = grid_minimum g, band_maximum = grid_maximum g\<rparr>"

record AuctionMarketInterest =
  market_buy :: nat
  market_sell :: nat

definition market_none :: AuctionMarketInterest where
  "market_none = \<lparr>market_buy = 0, market_sell = 0\<rparr>"

record AuctionLevel =
  level_price :: Price
  level_quantity :: nat

definition level_new :: "Price \<Rightarrow> nat \<Rightarrow> AuctionError + AuctionLevel" where
  "level_new price quantity =
     (if quantity = 0 then Inl ZeroLevelQuantity
      else Inr \<lparr>level_price = price, level_quantity = quantity\<rparr>)"

section \<open>Clearing states and their ranking\<close>

datatype AuctionPressureRule = Ignore | FavorImbalance

datatype AuctionFinalTieBreak = LowerPrice | HigherPrice

record AuctionPricePolicy =
  pressure_rule :: AuctionPressureRule
  final_tie_break :: AuctionFinalTieBreak

record AuctionClearing =
  clr_price :: Price
  executable_quantity :: nat
  buy_quantity :: nat
  sell_quantity :: nat
  imbalance_side :: "Side option"
  imbalance_quantity :: nat

definition from_quantities :: "Price \<Rightarrow> nat \<Rightarrow> nat \<Rightarrow> AuctionClearing" where
  "from_quantities price buy sell =
     (let executable = (if buy < sell then buy else sell);
          (side, imbalance) =
            (if sell < buy then (Some Buy, buy - sell)
             else if buy < sell then (Some Sell, sell - buy)
             else (None, 0))
      in \<lparr>clr_price = price, executable_quantity = executable, buy_quantity = buy,
          sell_quantity = sell, imbalance_side = side, imbalance_quantity = imbalance\<rparr>)"

definition is_better_than ::
    "AuctionClearing \<Rightarrow> AuctionClearing \<Rightarrow> Price \<Rightarrow> AuctionPricePolicy \<Rightarrow> bool" where
  "is_better_than self other reference_price policy =
     (if executable_quantity self \<noteq> executable_quantity other
      then executable_quantity other < executable_quantity self
      else if imbalance_quantity self \<noteq> imbalance_quantity other
      then imbalance_quantity self < imbalance_quantity other
      else if pressure_rule policy = FavorImbalance \<and>
              imbalance_side self = imbalance_side other \<and> clr_price self \<noteq> clr_price other \<and>
              imbalance_side self = Some Buy
      then clr_price other < clr_price self
      else if pressure_rule policy = FavorImbalance \<and>
              imbalance_side self = imbalance_side other \<and> clr_price self \<noteq> clr_price other \<and>
              imbalance_side self = Some Sell
      then clr_price self < clr_price other
      else
        let self_distance = \<bar>clr_price self - reference_price\<bar>;
            other_distance = \<bar>clr_price other - reference_price\<bar>
        in if self_distance \<noteq> other_distance then self_distance < other_distance
           else (case final_tie_break policy of
                   LowerPrice \<Rightarrow> clr_price self < clr_price other
                 | HigherPrice \<Rightarrow> clr_price other < clr_price self))"

section \<open>Validation of the aggregate levels\<close>

fun validate_levels_from ::
    "Side \<Rightarrow> AuctionPriceGrid \<Rightarrow> nat \<Rightarrow> nat \<Rightarrow> Price option \<Rightarrow> AuctionLevel list
     \<Rightarrow> AuctionError + nat" where
  "validate_levels_from side g index acc previous [] = Inr acc"
| "validate_levels_from side g index acc previous (level # levels) =
     (if \<not> grid_contains g (level_price level) then Inl (PriceOffGrid side index)
      else if (case previous of None \<Rightarrow> False
               | Some p \<Rightarrow> (case side of Buy \<Rightarrow> p \<le> level_price level
                                       | Sell \<Rightarrow> level_price level \<le> p))
      then Inl (NonCanonicalLevels side index)
      else and_then (ok_or (checked fits_u128 (acc + level_quantity level))
                           (AuctionQuantityOverflow side))
        (\<lambda>acc'. validate_levels_from side g (Suc index) acc' (Some (level_price level)) levels))"

definition validate_levels ::
    "AuctionLevel list \<Rightarrow> Side \<Rightarrow> AuctionPriceGrid \<Rightarrow> AuctionError + nat" where
  "validate_levels levels side g = validate_levels_from side g 0 0 None levels"

section \<open>The sweep\<close>

fun minimum_price :: "Price option \<Rightarrow> Price option \<Rightarrow> Price option" where
  "minimum_price (Some a) (Some b) = Some (min a b)"
| "minimum_price (Some a) None = Some a"
| "minimum_price None (Some b) = Some b"
| "minimum_price None None = None"

definition interval_candidate_price ::
    "Price \<Rightarrow> Price \<Rightarrow> Price \<Rightarrow> nat \<Rightarrow> nat \<Rightarrow> AuctionPricePolicy \<Rightarrow> Price" where
  "interval_candidate_price lower upper reference demand supply policy =
     (if pressure_rule policy = FavorImbalance \<and> supply < demand then upper
      else if pressure_rule policy = FavorImbalance \<and> demand < supply then lower
      else min (max reference lower) upper)"

text \<open>The two loops that establish demand and supply at the inclusive band minimum.\<close>

fun initial_demand ::
    "Price \<Rightarrow> nat \<Rightarrow> nat \<Rightarrow> AuctionLevel list \<Rightarrow> AuctionError + nat \<times> nat" where
  "initial_demand minimum demand remaining [] = Inr (demand, remaining)"
| "initial_demand minimum demand remaining (level # levels) =
     (if level_price level < minimum then Inr (demand, remaining)
      else and_then (ok_or (checked fits_u128 (demand + level_quantity level))
                           (AuctionQuantityOverflow Buy))
        (\<lambda>demand'. initial_demand minimum demand' (Suc remaining) levels))"

fun initial_supply ::
    "Price \<Rightarrow> nat \<Rightarrow> nat \<Rightarrow> AuctionLevel list \<Rightarrow> AuctionError + nat \<times> nat" where
  "initial_supply minimum supply next [] = Inr (supply, next)"
| "initial_supply minimum supply next (level # levels) =
     (if minimum < level_price level then Inr (supply, next)
      else and_then (ok_or (checked fits_u128 (supply + level_quantity level))
                           (AuctionQuantityOverflow Sell))
        (\<lambda>supply'. initial_supply minimum supply' (Suc next) levels))"

text \<open>The two inner loops that step past one transition price.\<close>

function consume_asks ::
    "AuctionLevel list \<Rightarrow> Price \<Rightarrow> nat \<Rightarrow> nat \<Rightarrow> AuctionError + nat \<times> nat" where
  "consume_asks asks transition supply next =
     (if next < length asks \<and> level_price (asks ! next) = transition
      then (case checked fits_u128 (supply + level_quantity (asks ! next)) of
              None \<Rightarrow> Inl (AuctionQuantityOverflow Sell)
            | Some supply' \<Rightarrow> consume_asks asks transition supply' (Suc next))
      else Inr (supply, next))"
  by pat_completeness auto
termination
  by (relation "measure (\<lambda>(asks, t, s, next). length asks - next)") auto

fun consume_bids ::
    "AuctionPriceGrid \<Rightarrow> AuctionLevel list \<Rightarrow> Price \<Rightarrow> nat \<Rightarrow> nat \<Rightarrow> AuctionError + nat \<times> nat"
where
  "consume_bids g bids transition demand 0 = Inr (demand, 0)"
| "consume_bids g bids transition demand (Suc remaining) =
     (if grid_successor g (level_price (bids ! remaining)) = Some transition
      then and_then (ok_or (checked_sub demand (level_quantity (bids ! remaining)))
                           (AuctionQuantityUnderflow Buy))
        (\<lambda>demand'. consume_bids g bids transition demand' remaining)
      else Inr (demand, Suc remaining))"

definition next_bid_transition ::
    "AuctionPriceGrid \<Rightarrow> AuctionPriceBand \<Rightarrow> AuctionLevel list \<Rightarrow> nat \<Rightarrow> Price option" where
  "next_bid_transition g band bids remaining =
     Option.bind (checked_sub remaining 1) (\<lambda>index.
       Option.bind (grid_successor g (level_price (bids ! index))) (\<lambda>price.
         if price \<le> band_maximum band then Some price else None))"

definition next_ask_price ::
    "AuctionPriceBand \<Rightarrow> AuctionLevel list \<Rightarrow> nat \<Rightarrow> Price option" where
  "next_ask_price band asks next =
     (if next < length asks \<and> level_price (asks ! next) \<le> band_maximum band
      then Some (level_price (asks ! next)) else None)"

text \<open>One candidate competes with the best one so far.\<close>

definition challenge ::
    "Price \<Rightarrow> AuctionPricePolicy \<Rightarrow> AuctionClearing option \<Rightarrow> AuctionClearing
     \<Rightarrow> AuctionClearing option" where
  "challenge reference_price policy best candidate =
     (if executable_quantity candidate \<noteq> 0 \<and>
         (case best of None \<Rightarrow> True
          | Some current \<Rightarrow> is_better_than candidate current reference_price policy)
      then Some candidate else best)"

declare consume_asks.simps [simp del]


lemma consume_asks_step:
  "consume_asks asks t s n = Inr (s', n') \<Longrightarrow> n \<le> n'"
proof (induction asks t s n arbitrary: s' n' rule: consume_asks.induct)
  case (1 asks t s n)
  then show ?case
    by (subst (asm) (2) consume_asks.simps) (fastforce split: if_splits option.splits)
qed

lemma consume_asks_progress:
  assumes "consume_asks asks t s n = Inr (s', n')" "n < length asks" "level_price (asks ! n) = t"
  shows "n < n'"
  using assms by (subst (asm) consume_asks.simps) (fastforce dest: consume_asks_step split: option.splits)

lemma consume_bids_step:
  "consume_bids g bids t d n = Inr (d', n') \<Longrightarrow> n' \<le> n"
  by (induction g bids t d n arbitrary: d' n' rule: consume_bids.induct)
    (fastforce simp: result_simps split: if_splits)+

lemma consume_bids_progress:
  assumes "consume_bids g bids t d n = Inr (d', n')" "n \<noteq> 0"
    "grid_successor g (level_price (bids ! (n - 1))) = Some t"
  shows "n' < n"
  using assms by (cases n) (auto simp: result_simps dest!: consume_bids_step)

lemma consume_asks_bound:
  "consume_asks asks t s n = Inr (s', n') \<Longrightarrow> n \<le> length asks \<Longrightarrow> n' \<le> length asks"
proof (induction asks t s n arbitrary: s' n' rule: consume_asks.induct)
  case (1 asks t s n)
  then show ?case
    by (subst (asm) (2) consume_asks.simps) (auto split: if_splits option.splits)
qed

text \<open>
  Every pass of the loop steps past at least one level: the transition price is the successor of
  the last live bid or the price of the next ask. This is the termination argument of the sweep.
\<close>

lemma transition_progress:
  assumes "minimum_price (next_bid_transition g band bids n) (next_ask_price band asks k) = Some t"
    and "consume_asks asks t s k = Inr (s', k')"
    and "consume_bids g bids t d n = Inr (d', n')"
  shows "n' + (length asks - k') < n + (length asks - k)"
proof (cases "next_ask_price band asks k = Some t")
  case True
  then have "k < length asks" "level_price (asks ! k) = t"
    by (auto simp: next_ask_price_def split: if_splits)
  then have "k < k'" and "k' \<le> length asks"
    using assms(2) consume_asks_progress consume_asks_bound by (blast, force)
  then show ?thesis
    using consume_bids_step [OF assms(3)] by simp
next
  case False
  then have "next_bid_transition g band bids n = Some t"
    using assms(1)
    by (cases "next_bid_transition g band bids n"; cases "next_ask_price band asks k")
      (auto simp: min_def split: if_splits)
  then have "n \<noteq> 0" "grid_successor g (level_price (bids ! (n - 1))) = Some t"
    by (auto simp: next_bid_transition_def bind_eq_Some_conv split: if_splits)
  then have "n' < n"
    using assms(3) consume_bids_progress by blast
  moreover have "length asks - k' \<le> length asks - k"
    using consume_asks_step [OF assms(2)] by simp
  ultimately show ?thesis by simp
qed

text \<open>The main loop, from the state at the lower end of one constant interval.\<close>

function sweep ::
    "AuctionLevel list \<Rightarrow> AuctionLevel list \<Rightarrow> AuctionPriceGrid \<Rightarrow> AuctionPriceBand \<Rightarrow> Price
     \<Rightarrow> AuctionPricePolicy \<Rightarrow> Price \<Rightarrow> nat \<Rightarrow> nat \<Rightarrow> nat \<Rightarrow> nat \<Rightarrow> AuctionClearing option
     \<Rightarrow> AuctionError + AuctionClearing option"
where
  "sweep bids asks g band reference_price policy interval_lower demand supply remaining_bids next_ask best =
     (let next_transition =
            minimum_price (next_bid_transition g band bids remaining_bids)
                          (next_ask_price band asks next_ask);
          interval_upper =
            (case Option.bind next_transition (grid_predecessor g) of
               Some p \<Rightarrow> p | None \<Rightarrow> band_maximum band);
          best' =
            (if interval_lower \<le> interval_upper
             then challenge reference_price policy best
                    (from_quantities
                      (interval_candidate_price interval_lower interval_upper reference_price
                         demand supply policy) demand supply)
             else best)
      in (case next_transition of
            None \<Rightarrow> Inr best'
          | Some transition \<Rightarrow>
              (case consume_asks asks transition supply next_ask of
                 Inl e \<Rightarrow> Inl e
               | Inr (supply', next_ask') \<Rightarrow>
                   (case consume_bids g bids transition demand remaining_bids of
                      Inl e \<Rightarrow> Inl e
                    | Inr (demand', remaining') \<Rightarrow>
                        sweep bids asks g band reference_price policy transition demand' supply'
                          remaining' next_ask' best'))))"
  by pat_completeness auto
termination
  by (relation "measure (\<lambda>(bids, asks, g, band, r, p, l, d, s, n, k, b). n + (length asks - k))")
    (auto intro: transition_progress [OF sym])

declare sweep.simps [simp del]

definition discover_bounded_clearing_price ::
    "AuctionLevel list \<Rightarrow> AuctionLevel list \<Rightarrow> AuctionMarketInterest \<Rightarrow> AuctionPriceGrid
     \<Rightarrow> AuctionPriceBand \<Rightarrow> Price \<Rightarrow> AuctionPricePolicy \<Rightarrow> AuctionError + AuctionClearing option"
where
  "discover_bounded_clearing_price bids asks market g band reference_price policy =
     and_then (validate_price_band g (band_minimum band) (band_maximum band)) (\<lambda>_.
     and_then (ensure (grid_contains g reference_price) ReferencePriceOffGrid) (\<lambda>_.
     and_then (validate_levels bids Buy g) (\<lambda>total_buy.
     and_then (validate_levels asks Sell g) (\<lambda>total_sell.
     and_then (ok_or (checked fits_u128 (total_buy + market_buy market))
                     (AuctionQuantityOverflow Buy)) (\<lambda>_.
     and_then (ok_or (checked fits_u128 (total_sell + market_sell market))
                     (AuctionQuantityOverflow Sell)) (\<lambda>_.
     and_then (initial_demand (band_minimum band) (market_buy market) 0 bids) (\<lambda>(demand, remaining_bids).
     and_then (initial_supply (band_minimum band) (market_sell market) 0 asks) (\<lambda>(supply, next_ask).
       sweep bids asks g band reference_price policy (band_minimum band) demand supply
         remaining_bids next_ask None))))))))"

definition discover_clearing_price ::
    "AuctionLevel list \<Rightarrow> AuctionLevel list \<Rightarrow> AuctionPriceGrid \<Rightarrow> Price \<Rightarrow> AuctionPricePolicy
     \<Rightarrow> AuctionError + AuctionClearing option"
where
  "discover_clearing_price bids asks g reference_price policy =
     discover_bounded_clearing_price bids asks market_none g (band_full g) reference_price policy"

section \<open>The specification: cumulative curves and the best price\<close>

definition demand_at :: "AuctionMarketInterest \<Rightarrow> AuctionLevel list \<Rightarrow> Price \<Rightarrow> nat" where
  "demand_at market bids p =
     market_buy market + sum_list (map level_quantity (filter (\<lambda>l. p \<le> level_price l) bids))"

definition supply_at :: "AuctionMarketInterest \<Rightarrow> AuctionLevel list \<Rightarrow> Price \<Rightarrow> nat" where
  "supply_at market asks p =
     market_sell market + sum_list (map level_quantity (filter (\<lambda>l. level_price l \<le> p) asks))"

definition clearing_on :: "(Price \<Rightarrow> nat) \<Rightarrow> (Price \<Rightarrow> nat) \<Rightarrow> Price \<Rightarrow> AuctionClearing" where
  "clearing_on demand supply p = from_quantities p (demand p) (supply p)"

text \<open>
  A result is optimal on a set of prices when it is the clearing state of one of them, executes
  something, and outranks every other price that would execute anything.
\<close>

fun optimal_on ::
    "(Price \<Rightarrow> AuctionClearing) \<Rightarrow> Price \<Rightarrow> AuctionPricePolicy \<Rightarrow> Price set
     \<Rightarrow> AuctionClearing option \<Rightarrow> bool" where
  "optimal_on state r policy S None \<longleftrightarrow> (\<forall>p\<in>S. executable_quantity (state p) = 0)"
| "optimal_on state r policy S (Some c) \<longleftrightarrow>
     (\<exists>p\<in>S. c = state p \<and> executable_quantity c \<noteq> 0 \<and>
        (\<forall>q\<in>S. q \<noteq> p \<longrightarrow> executable_quantity (state q) \<noteq> 0 \<longrightarrow> is_better_than c (state q) r policy))"

lemma clearing_on_simps [simp]:
  "clr_price (clearing_on d s p) = p"
  "buy_quantity (clearing_on d s p) = d p"
  "sell_quantity (clearing_on d s p) = s p"
  "executable_quantity (clearing_on d s p) = min (d p) (s p)"
  "imbalance_side (clearing_on d s p) =
     (if s p < d p then Some Buy else if d p < s p then Some Sell else None)"
  "imbalance_quantity (clearing_on d s p) = (d p - s p) + (s p - d p)"
  by (auto simp: clearing_on_def from_quantities_def Let_def)

text \<open>
  The ranking is not transitive on arbitrary clearing states: the pressure rule compares by price
  when both states have the same imbalance side and by distance otherwise. It is transitive on the
  states of one auction, because demand falls and supply grows with the price, so that the states
  with buy pressure all lie below those with sell pressure.
\<close>

definition nearer :: "Price \<Rightarrow> AuctionPricePolicy \<Rightarrow> Price \<Rightarrow> Price \<Rightarrow> bool" where
  "nearer r policy p q \<longleftrightarrow>
     \<bar>p - r\<bar> < \<bar>q - r\<bar> \<or>
     (\<bar>p - r\<bar> = \<bar>q - r\<bar> \<and> (case final_tie_break policy of LowerPrice \<Rightarrow> p < q | HigherPrice \<Rightarrow> q < p))"

lemma nearer_trans: "nearer r policy p q \<Longrightarrow> nearer r policy q s \<Longrightarrow> nearer r policy p s"
  by (auto simp: nearer_def split: AuctionFinalTieBreak.splits)

lemma nearer_between:
  "nearer r policy q s \<Longrightarrow> q < p \<Longrightarrow> p < s \<Longrightarrow> nearer r policy p s"
  "nearer r policy s q \<Longrightarrow> q < p \<Longrightarrow> p < s \<Longrightarrow> nearer r policy p q"
  by (auto simp: nearer_def split: AuctionFinalTieBreak.splits)

lemma nearer_beyond:
  "nearer r policy p q \<Longrightarrow> p < q \<Longrightarrow> q < s \<Longrightarrow> nearer r policy q s"
  "nearer r policy p q \<Longrightarrow> q < p \<Longrightarrow> s < q \<Longrightarrow> nearer r policy q s"
  by (auto simp: nearer_def split: AuctionFinalTieBreak.splits)

lemma nearer_asym: "nearer r policy p q \<Longrightarrow> \<not> nearer r policy q p"
  by (auto simp: nearer_def split: AuctionFinalTieBreak.splits)

lemma nearer_total: "p \<noteq> q \<Longrightarrow> nearer r policy p q \<or> nearer r policy q p"
  by (cases "final_tie_break policy") (auto simp: nearer_def)

lemma nearer_irrefl [simp]: "\<not> nearer r policy p p"
  by (simp add: nearer_def split: AuctionFinalTieBreak.split)

text \<open>The comparison of two states that tie on volume and on absolute imbalance.\<close>

definition beats ::
    "Price \<Rightarrow> AuctionPricePolicy \<Rightarrow> Side option \<Rightarrow> Side option \<Rightarrow> Price \<Rightarrow> Price \<Rightarrow> bool" where
  "beats r policy sp sq p q =
     (if pressure_rule policy = FavorImbalance \<and> sp = Some Buy \<and> sq = Some Buy then q < p
      else if pressure_rule policy = FavorImbalance \<and> sp = Some Sell \<and> sq = Some Sell then p < q
      else nearer r policy p q)"

lemma beats_total: "p \<noteq> q \<Longrightarrow> beats r policy sp sq p q \<or> beats r policy sq sp q p"
  using nearer_total [of p q r policy] by (auto simp: beats_def)

lemma beats_asym: "beats r policy sp sq p q \<Longrightarrow> \<not> beats r policy sq sp q p"
  using nearer_asym [of r policy p q] by (auto simp: beats_def split: if_splits)

definition pressure_ordered :: "Side option \<Rightarrow> Side option \<Rightarrow> Price \<Rightarrow> Price \<Rightarrow> bool" where
  "pressure_ordered sp sq p q \<longleftrightarrow>
     sp = sq \<or> sp = Some Buy \<and> sq = Some Sell \<and> p < q \<or> sp = Some Sell \<and> sq = Some Buy \<and> q < p"

lemma beats_trans:
  assumes "beats r policy sp sq p q" "beats r policy sq ss q s" "p \<noteq> s"
    and "pressure_ordered sp sq p q" "pressure_ordered sq ss q s" "pressure_ordered sp ss p s"
  shows "beats r policy sp ss p s"
proof (cases "pressure_rule policy = FavorImbalance")
  case False
  then show ?thesis using assms nearer_trans by (auto simp: beats_def)
next
  case favor: True
  consider "sp = None"
    | "sp = Some Buy" "sq = Some Buy" "ss = Some Buy" | "sp = Some Buy" "sq = Some Buy" "ss = Some Sell"
    | "sp = Some Buy" "sq = Some Sell" "ss = Some Buy" | "sp = Some Buy" "sq = Some Sell" "ss = Some Sell"
    | "sp = Some Sell" "sq = Some Buy" "ss = Some Buy" | "sp = Some Sell" "sq = Some Buy" "ss = Some Sell"
    | "sp = Some Sell" "sq = Some Sell" "ss = Some Buy" | "sp = Some Sell" "sq = Some Sell" "ss = Some Sell"
    using assms(4-6) unfolding pressure_ordered_def by (cases sp; cases sq; cases ss) (metis Side.exhaust)+
  then show ?thesis
  proof cases
    case 1
    then show ?thesis using assms nearer_trans by (auto simp: beats_def pressure_ordered_def)
  next
    case 2
    with favor assms show ?thesis by (auto simp: beats_def split: if_splits)
  next
    case 3
    with favor assms nearer_between(1) [of r policy q s p] show ?thesis
      by (simp add: beats_def pressure_ordered_def split: if_splits)
  next
    case 4
    then have "nearer r policy p q" "nearer r policy q s" "p < q" "s < q"
      using favor assms by (simp_all add: beats_def pressure_ordered_def)
    then have "\<not> p < s"
      using nearer_between(1) nearer_asym by blast
    with 4 favor assms show ?thesis by (simp add: beats_def)
  next
    case 5
    with favor assms nearer_beyond(1) [of r policy p q s] show ?thesis
      by (simp add: beats_def pressure_ordered_def split: if_splits) (metis nearer_trans)
  next
    case 6
    with favor assms nearer_beyond(2) [of r policy p q s] show ?thesis
      by (simp add: beats_def pressure_ordered_def split: if_splits) (metis nearer_trans)
  next
    case 7
    then have "nearer r policy p q" "nearer r policy q s" "q < p" "q < s"
      using favor assms by (simp_all add: beats_def pressure_ordered_def)
    then have "\<not> s < p"
      using nearer_between(2) nearer_asym by blast
    with 7 favor assms show ?thesis by (simp add: beats_def)
  next
    case 8
    with favor assms nearer_between(2) [of r policy q s p] show ?thesis
      by (simp add: beats_def pressure_ordered_def split: if_splits)
  next
    case 9
    with favor assms show ?thesis by (auto simp: beats_def split: if_splits)
  qed
qed

lemma is_better_than_untied:
  "executable_quantity x \<noteq> executable_quantity y \<or> imbalance_quantity x \<noteq> imbalance_quantity y \<Longrightarrow>
   is_better_than x y r policy \<longleftrightarrow>
     executable_quantity y < executable_quantity x \<or>
     (executable_quantity x = executable_quantity y \<and> imbalance_quantity x < imbalance_quantity y)"
  by (auto simp: is_better_than_def)

lemma is_better_than_tied:
  "executable_quantity x = executable_quantity y \<Longrightarrow> imbalance_quantity x = imbalance_quantity y \<Longrightarrow>
   is_better_than x y r policy \<longleftrightarrow>
     beats r policy (imbalance_side x) (imbalance_side y) (clr_price x) (clr_price y)"
  by (auto simp: is_better_than_def beats_def nearer_def Let_def split: AuctionFinalTieBreak.split)

lemma clamp_nearer:
  assumes "l \<le> q" "q \<le> u" "q \<noteq> min (max r l) u"
  shows "nearer r policy (min (max r l) u) q"
proof -
  consider "r < l" "min (max r l) u = l" | "u < r" "min (max r l) u = u" | "l \<le> r" "r \<le> u" "min (max r l) u = r"
    using assms by linarith
  then have "\<bar>min (max r l) u - r\<bar> < \<bar>q - r\<bar>"
    by cases (use assms in auto)
  then show ?thesis by (simp add: nearer_def)
qed

locale monotone_curves =
  fixes dem sup :: "Price \<Rightarrow> nat"
  assumes dem_antimono: "p \<le> q \<Longrightarrow> dem q \<le> dem p"
    and sup_mono: "p \<le> q \<Longrightarrow> sup p \<le> sup q"
begin

abbreviation "state \<equiv> clearing_on dem sup"

definition tied :: "Price \<Rightarrow> Price \<Rightarrow> bool" where
  "tied p q \<longleftrightarrow> executable_quantity (state p) = executable_quantity (state q) \<and>
     imbalance_quantity (state p) = imbalance_quantity (state q)"

definition fewer :: "Price \<Rightarrow> Price \<Rightarrow> bool" where
  "fewer p q \<longleftrightarrow> executable_quantity (state q) < executable_quantity (state p) \<or>
     (executable_quantity (state p) = executable_quantity (state q) \<and>
      imbalance_quantity (state p) < imbalance_quantity (state q))"

lemma outranks_iff:
  "is_better_than (state p) (state q) r policy \<longleftrightarrow>
     (if tied p q
      then beats r policy (imbalance_side (state p)) (imbalance_side (state q)) p q
      else fewer p q)"
  by (auto simp: tied_def fewer_def is_better_than_tied is_better_than_untied simp del: clearing_on_simps(4-6))

lemma fewer_rules:
  "\<not> tied p q \<Longrightarrow> fewer p q \<or> fewer q p" "fewer p q \<Longrightarrow> \<not> fewer q p" "fewer p q \<Longrightarrow> \<not> tied p q"
  "fewer p q \<Longrightarrow> fewer q s \<Longrightarrow> fewer p s" "tied p q \<Longrightarrow> fewer q s \<Longrightarrow> fewer p s"
  "fewer p q \<Longrightarrow> tied q s \<Longrightarrow> fewer p s" "tied p q \<Longrightarrow> tied q s \<Longrightarrow> tied p s" "tied p q \<Longrightarrow> tied q p"
  by (auto simp: tied_def fewer_def simp del: clearing_on_simps(4-6))

lemma outranks_total:
  "p \<noteq> q \<Longrightarrow> is_better_than (state p) (state q) r policy \<or> is_better_than (state q) (state p) r policy"
  using beats_total fewer_rules(1,8) by (auto simp: outranks_iff)

lemma outranks_asym:
  "is_better_than (state p) (state q) r policy \<Longrightarrow> \<not> is_better_than (state q) (state p) r policy"
  using beats_asym fewer_rules(2) [of p q] fewer_rules(8) [of p q] fewer_rules(8) [of q p]
  unfolding outranks_iff by metis

lemma tied_pressure_ordered:
  assumes "tied p q"
  shows "pressure_ordered (imbalance_side (state p)) (imbalance_side (state q)) p q"
proof -
  have "min (dem p) (sup p) = min (dem q) (sup q)"
    and "(dem p - sup p) + (sup p - dem p) = (dem q - sup q) + (sup q - dem q)"
    using assms by (simp_all add: tied_def)
  then consider "dem p = dem q" "sup p = sup q" | "dem p = sup q" "sup p = dem q"
    by linarith
  then show ?thesis
  proof cases
    case 1
    then show ?thesis by (simp add: pressure_ordered_def)
  next
    case 2
    have "p < q" if "dem q < dem p"
      using that dem_antimono [of q p] by (cases "p < q") auto
    moreover have "q < p" if "dem p < dem q"
      using that dem_antimono [of p q] by (cases "q < p") auto
    ultimately show ?thesis
      using 2 by (simp add: pressure_ordered_def)
  qed
qed

lemma outranks_trans:
  assumes "is_better_than (state p) (state q) r policy" "is_better_than (state q) (state s) r policy"
  shows "is_better_than (state p) (state s) r policy"
proof -
  have neq: "p \<noteq> s"
    using assms outranks_asym by blast
  show ?thesis
  proof (cases "tied p q \<and> tied q s")
    case True
    then have "tied p s"
      using fewer_rules(7) by blast
    then show ?thesis
      using assms True neq beats_trans tied_pressure_ordered unfolding outranks_iff
      by (metis (no_types, lifting))
  next
    case False
    then have "fewer p s"
      using assms fewer_rules by (metis outranks_iff)
    then show ?thesis
      using fewer_rules(3) by (auto simp: outranks_iff)
  qed
qed

lemma interval_best:
  assumes t: "t = interval_candidate_price lower upper r (dem lower) (sup lower) policy"
    and tq: "dem t = dem lower" "sup t = sup lower" "dem q = dem lower" "sup q = sup lower"
    and "lower \<le> q" "q \<le> upper" "q \<noteq> t"
  shows "is_better_than (state t) (state q) r policy"
proof -
  have tied: "tied t q"
    using tq by (simp add: tied_def)
  have "beats r policy (imbalance_side (state t)) (imbalance_side (state q)) t q"
  proof (cases "pressure_rule policy = FavorImbalance \<and> dem lower \<noteq> sup lower")
    case True
    then have "t = (if sup lower < dem lower then upper else lower)"
      by (auto simp: t interval_candidate_price_def)
    with True tq assms(6-8) show ?thesis
      by (simp add: beats_def split: if_splits)
  next
    case False
    then have "t = min (max r lower) upper"
      by (auto simp: t interval_candidate_price_def)
    moreover have "nearer r policy t q"
      using clamp_nearer [OF assms(6,7)] assms(8) calculation by simp
    ultimately show ?thesis
      using False tq by (auto simp: beats_def)
  qed
  then show ?thesis by (simp add: outranks_iff tied del: clearing_on_simps)
qed

lemma challenge_optimal:
  assumes best: "optimal_on state r policy S best" and "t \<in> T"
    and const: "\<And>q. q \<in> T \<Longrightarrow> dem q = dem t \<and> sup q = sup t"
    and top: "\<And>q. q \<in> T \<Longrightarrow> q \<noteq> t \<Longrightarrow> is_better_than (state t) (state q) r policy"
    and disj: "S \<inter> T = {}"
  shows "optimal_on state r policy (S \<union> T) (challenge r policy best (state t))"
proof (cases "executable_quantity (state t) = 0")
  case True
  then have "executable_quantity (state q) = 0" if "q \<in> T" for q
    using const [OF that] by simp
  then show ?thesis
    using best True by (cases best) (auto simp: challenge_def simp del: clearing_on_simps)
next
  case False
  show ?thesis
  proof (cases best)
    case None
    then show ?thesis
      using best False \<open>t \<in> T\<close> top by (auto simp: challenge_def simp del: clearing_on_simps)
  next
    case (Some c)
    then obtain p where p: "p \<in> S" "c = state p" "executable_quantity c \<noteq> 0"
      and top': "\<And>q. q \<in> S \<Longrightarrow> q \<noteq> p \<Longrightarrow> executable_quantity (state q) \<noteq> 0 \<Longrightarrow>
        is_better_than c (state q) r policy"
      using best by (auto simp del: clearing_on_simps)
    have "p \<noteq> t" using p(1) \<open>t \<in> T\<close> disj by blast
    show ?thesis
    proof (cases "is_better_than (state t) c r policy")
      case True
      then have "is_better_than (state t) (state q) r policy"
        if "q \<in> S \<union> T" "q \<noteq> t" "executable_quantity (state q) \<noteq> 0" for q
        using that top top' p(2) outranks_trans by (cases "q = p") blast+
      then show ?thesis
        using Some True False \<open>t \<in> T\<close> by (auto simp: challenge_def simp del: clearing_on_simps)
    next
      case worse: False
      then have "is_better_than c (state t) r policy"
        using outranks_total [OF \<open>p \<noteq> t\<close>] p(2) by blast
      then have "is_better_than c (state q) r policy"
        if "q \<in> S \<union> T" "q \<noteq> p" "executable_quantity (state q) \<noteq> 0" for q
        using that top top' p(2) outranks_trans by (cases "q = t") blast+
      then show ?thesis
        using Some worse p by (auto simp: challenge_def simp del: clearing_on_simps)
    qed
  qed
qed

end

section \<open>Correctness of the sweep\<close>

interpretation curves: monotone_curves "demand_at market bids" "supply_at market asks"
  for market bids asks
proof
  fix p q :: Price
  assume "p \<le> q"
  show "demand_at market bids q \<le> demand_at market bids p"
    using \<open>p \<le> q\<close> unfolding demand_at_def by (induction bids) auto
  show "supply_at market asks p \<le> supply_at market asks q"
    using \<open>p \<le> q\<close> unfolding supply_at_def by (induction asks) auto
qed

text \<open>What the constructors of a grid and of a level establish.\<close>

definition grid_wf :: "AuctionPriceGrid \<Rightarrow> bool" where
  "grid_wf g \<longleftrightarrow> 0 < grid_tick_i64 g \<and> fits_i64 (grid_tick_i64 g) \<and> grid_tick_i64 g = int (grid_tick_size g)"

lemma grid_new_wf: "grid_new tick = Inr g \<Longrightarrow> grid_wf g"
  by (auto simp: grid_new_def grid_wf_def split: if_splits)

lemma grid_gap:
  assumes "grid_wf g" "grid_contains g p" "grid_contains g q" "p < q"
  shows "p + grid_tick_i64 g \<le> q"
proof -
  have "grid_tick_i64 g dvd q - p"
    using assms by (simp add: grid_contains_def mod_eq_0_iff_dvd)
  then have "grid_tick_i64 g \<le> q - p"
    using assms by (intro zdvd_imp_le) auto
  then show ?thesis by simp
qed

lemma grid_step: "grid_contains g p \<Longrightarrow> grid_contains g (p + grid_tick_i64 g)"
  "grid_contains g p \<Longrightarrow> grid_contains g (p - grid_tick_i64 g)"
  by (simp_all add: grid_contains_def mod_eq_0_iff_dvd)

definition bids_canonical :: "AuctionPriceGrid \<Rightarrow> AuctionLevel list \<Rightarrow> bool" where
  "bids_canonical g bids \<longleftrightarrow>
     sorted_wrt (\<lambda>x y. level_price y < level_price x) bids \<and>
     (\<forall>l\<in>set bids. grid_contains g (level_price l))"

definition asks_canonical :: "AuctionPriceGrid \<Rightarrow> AuctionLevel list \<Rightarrow> bool" where
  "asks_canonical g asks \<longleftrightarrow>
     sorted_wrt (\<lambda>x y. level_price x < level_price y) asks \<and>
     (\<forall>l\<in>set asks. grid_contains g (level_price l))"

lemma canonical_nth:
  "bids_canonical g bids \<Longrightarrow> i < j \<Longrightarrow> j < length bids \<Longrightarrow> level_price (bids ! j) < level_price (bids ! i)"
  "bids_canonical g bids \<Longrightarrow> i \<le> j \<Longrightarrow> j < length bids \<Longrightarrow> level_price (bids ! j) \<le> level_price (bids ! i)"
  "bids_canonical g bids \<Longrightarrow> i < length bids \<Longrightarrow> grid_contains g (level_price (bids ! i))"
  "asks_canonical g asks \<Longrightarrow> i < j \<Longrightarrow> j < length asks \<Longrightarrow> level_price (asks ! i) < level_price (asks ! j)"
  "asks_canonical g asks \<Longrightarrow> i \<le> j \<Longrightarrow> j < length asks \<Longrightarrow> level_price (asks ! i) \<le> level_price (asks ! j)"
  "asks_canonical g asks \<Longrightarrow> i < length asks \<Longrightarrow> grid_contains g (level_price (asks ! i))"
  unfolding bids_canonical_def asks_canonical_def
  by (auto simp: sorted_wrt_iff_nth_less le_less)

lemma validate_bids_from:
  "validate_levels_from Buy g i acc prev bids = Inr n \<longleftrightarrow>
     n = acc + sum_list (map level_quantity bids) \<and> (bids \<noteq> [] \<longrightarrow> fits_u128 n) \<and>
     (case prev of None \<Rightarrow> True | Some p \<Rightarrow> \<forall>l\<in>set bids. level_price l < p) \<and>
     bids_canonical g bids"
proof (induction bids arbitrary: i acc prev)
  case Nil
  then show ?case by (auto simp: bids_canonical_def split: option.split)
next
  case (Cons l bids)
  show ?case
    by (auto simp: result_simps Cons.IH bids_canonical_def not_le split: option.splits
        intro: fits_u128_mono)
qed

lemma validate_asks_from:
  "validate_levels_from Sell g i acc prev asks = Inr n \<longleftrightarrow>
     n = acc + sum_list (map level_quantity asks) \<and> (asks \<noteq> [] \<longrightarrow> fits_u128 n) \<and>
     (case prev of None \<Rightarrow> True | Some p \<Rightarrow> \<forall>l\<in>set asks. p < level_price l) \<and>
     asks_canonical g asks"
proof (induction asks arbitrary: i acc prev)
  case Nil
  then show ?case by (auto simp: asks_canonical_def split: option.split)
next
  case (Cons l asks)
  show ?case
    by (auto simp: result_simps Cons.IH asks_canonical_def not_le split: option.splits
        intro: fits_u128_mono)
qed

text \<open>
  The split of the bids at a price: the first \<open>n\<close> levels are exactly those demanding at that price.
\<close>

definition bid_split :: "AuctionLevel list \<Rightarrow> Price \<Rightarrow> nat \<Rightarrow> bool" where
  "bid_split bids p n \<longleftrightarrow> n \<le> length bids \<and> (\<forall>i<n. p \<le> level_price (bids ! i)) \<and>
     (\<forall>i<length bids. n \<le> i \<longrightarrow> level_price (bids ! i) < p)"

definition ask_split :: "AuctionLevel list \<Rightarrow> Price \<Rightarrow> nat \<Rightarrow> bool" where
  "ask_split asks p k \<longleftrightarrow> k \<le> length asks \<and> (\<forall>i<k. level_price (asks ! i) \<le> p) \<and>
     (\<forall>i<length asks. k \<le> i \<longrightarrow> p < level_price (asks ! i))"

lemma demand_at_split:
  "bid_split bids p n \<Longrightarrow>
     demand_at market bids p = market_buy market + sum_list (map level_quantity (take n bids))"
  unfolding demand_at_def bid_split_def by (subst filter_eq_take [of n]) (auto simp: not_le)

lemma supply_at_split:
  "ask_split asks p k \<Longrightarrow>
     supply_at market asks p = market_sell market + sum_list (map level_quantity (take k asks))"
  unfolding supply_at_def ask_split_def by (subst filter_eq_take [of k]) (auto simp: not_le)

lemma initial_demand_split:
  assumes "bids_canonical g bids"
    and "fits_u128 (d + sum_list (map level_quantity bids))"
  shows "\<exists>n. initial_demand p d m bids = Inr (d + sum_list (map level_quantity (take n bids)), m + n)
       \<and> bid_split bids p n"
  using assms
proof (induction bids arbitrary: d m)
  case Nil
  then show ?case by (simp add: bid_split_def)
next
  case (Cons l bids)
  show ?case
  proof (cases "level_price l < p")
    case True
    have "level_price (bids ! i) < p" if "i < length bids" for i
      using Cons.prems(1) True nth_mem [OF that] by (auto simp: bids_canonical_def intro: less_trans)
    with True show ?thesis
      by (intro exI [of _ 0]) (auto simp: bid_split_def nth_Cons split: nat.split)
  next
    case False
    have "bids_canonical g bids" "fits_u128 ((d + level_quantity l) + sum_list (map level_quantity bids))"
      using Cons.prems by (auto simp: bids_canonical_def add.assoc)
    then obtain n where n: "bid_split bids p n"
      "initial_demand p (d + level_quantity l) (Suc m) bids =
         Inr (d + level_quantity l + sum_list (map level_quantity (take n bids)), Suc m + n)"
      using Cons.IH by blast
    moreover have "fits_u128 (d + level_quantity l)"
      using Cons.prems(2) by (auto intro: fits_u128_mono)
    ultimately show ?thesis
      using False
      by (intro exI [of _ "Suc n"]) (auto simp: bid_split_def nth_Cons add.assoc split: nat.splits)
  qed
qed

lemma initial_supply_split:
  assumes "asks_canonical g asks"
    and "fits_u128 (s + sum_list (map level_quantity asks))"
  shows "\<exists>k. initial_supply p s m asks = Inr (s + sum_list (map level_quantity (take k asks)), m + k)
       \<and> ask_split asks p k"
  using assms
proof (induction asks arbitrary: s m)
  case Nil
  then show ?case by (simp add: ask_split_def)
next
  case (Cons l asks)
  show ?case
  proof (cases "p < level_price l")
    case True
    have "p < level_price (asks ! i)" if "i < length asks" for i
      using Cons.prems(1) True nth_mem [OF that] by (auto simp: asks_canonical_def intro: less_trans)
    with True show ?thesis
      by (intro exI [of _ 0]) (auto simp: ask_split_def nth_Cons split: nat.split)
  next
    case False
    have "asks_canonical g asks" "fits_u128 ((s + level_quantity l) + sum_list (map level_quantity asks))"
      using Cons.prems by (auto simp: asks_canonical_def add.assoc)
    then obtain k where k: "ask_split asks p k"
      "initial_supply p (s + level_quantity l) (Suc m) asks =
         Inr (s + level_quantity l + sum_list (map level_quantity (take k asks)), Suc m + k)"
      using Cons.IH by blast
    moreover have "fits_u128 (s + level_quantity l)"
      using Cons.prems(2) by (auto intro: fits_u128_mono)
    ultimately show ?thesis
      using False
      by (intro exI [of _ "Suc k"]) (auto simp: ask_split_def nth_Cons add.assoc split: nat.splits)
  qed
qed


text \<open>One transition: both inner loops step past at most one level each.\<close>

lemma consume_asks_split:
  assumes "asks_canonical g asks" and split: "ask_split asks p k" and "p < t"
    and first: "k < length asks \<Longrightarrow> t \<le> level_price (asks ! k)"
    and fits: "fits_u128 (s + sum_list (map level_quantity (drop k asks)))"
  shows "\<exists>k'. consume_asks asks t s k = Inr (s + sum_list (map level_quantity (drop k (take k' asks))), k')
       \<and> ask_split asks t k' \<and> k \<le> k'"
proof (cases "k < length asks \<and> level_price (asks ! k) = t")
  case False
  then have "t < level_price (asks ! i)" if "k \<le> i" "i < length asks" for i
    using that first canonical_nth(5) [OF assms(1) that] by simp
  moreover have "consume_asks asks t s k = Inr (s, k)"
    using False by (subst consume_asks.simps) auto
  ultimately show ?thesis
    using split \<open>p < t\<close> by (intro exI [of _ k]) (auto simp: ask_split_def)
next
  case True
  then have later: "t < level_price (asks ! i)" if "k < i" "i < length asks" for i
    using canonical_nth(4) [OF assms(1) that] by simp
  have drop: "drop k asks = asks ! k # drop (Suc k) asks"
    using True by (simp add: Cons_nth_drop_Suc)
  have "consume_asks asks t (s + level_quantity (asks ! k)) (Suc k) = Inr (s + level_quantity (asks ! k), Suc k)"
    using later by (subst consume_asks.simps) force
  moreover have "fits_u128 (s + level_quantity (asks ! k))"
    using fits drop by (auto intro: fits_u128_mono)
  ultimately have "consume_asks asks t s k = Inr (s + level_quantity (asks ! k), Suc k)"
    using True by (subst consume_asks.simps) simp
  moreover have "drop k (take (Suc k) asks) = [asks ! k]"
    using True by (simp add: take_Suc_conv_app_nth)
  ultimately show ?thesis
    using split \<open>p < t\<close> True later
    by (intro exI [of _ "Suc k"]) (fastforce simp: ask_split_def less_Suc_eq Suc_le_eq)
qed

lemma consume_bids_split:
  assumes wf: "grid_wf g" and can: "bids_canonical g bids" and split: "bid_split bids p n"
    and "p < t" "grid_contains g p" "grid_contains g t" "fits_i64 t"
    and last: "n \<noteq> 0 \<Longrightarrow> t \<le> level_price (bids ! (n - 1)) + grid_tick_i64 g"
  shows "\<exists>n'. consume_bids g bids t (d + sum_list (map level_quantity (take n bids))) n =
           Inr (d + sum_list (map level_quantity (take n' bids)), n') \<and> bid_split bids t n'"
proof (cases "n \<noteq> 0 \<and> level_price (bids ! (n - 1)) + grid_tick_i64 g = t")
  case False
  have on_grid: "grid_contains g (level_price (bids ! i))" if "i < n" for i
    using that can split by (auto simp: bids_canonical_def bid_split_def)
  have "t \<le> level_price (bids ! i)" if "i < n" for i
  proof (rule ccontr)
    assume "\<not> t \<le> level_price (bids ! i)"
    then have "level_price (bids ! i) + grid_tick_i64 g \<le> t"
      using grid_gap [OF wf on_grid [OF that] \<open>grid_contains g t\<close>] by simp
    moreover have "level_price (bids ! (n - 1)) \<le> level_price (bids ! i)"
      using that split by (intro canonical_nth(2) [OF can]) (auto simp: bid_split_def)
    ultimately show False
      using False last that by simp
  qed
  moreover have "consume_bids g bids t (d + sum_list (map level_quantity (take n bids))) n =
      Inr (d + sum_list (map level_quantity (take n bids)), n)"
    using False by (cases n) (auto simp: grid_successor_def)
  ultimately show ?thesis
    using split \<open>p < t\<close> by (intro exI [of _ n]) (auto simp: bid_split_def)
next
  case True
  then obtain m where n: "n = Suc m" "level_price (bids ! m) + grid_tick_i64 g = t"
    by (cases n) auto
  have m: "m < length bids"
    using split n by (simp add: bid_split_def)
  have on_grid: "grid_contains g (level_price (bids ! i))" if "i < length bids" for i
    using that can by (auto simp: bids_canonical_def)
  have before: "t \<le> level_price (bids ! i)" if "i < m" for i
  proof -
    have "level_price (bids ! m) < level_price (bids ! i)"
      using canonical_nth(1) [OF can that m] .
    then have "level_price (bids ! m) + grid_tick_i64 g \<le> level_price (bids ! i)"
      using grid_gap [OF wf on_grid [OF m] on_grid] that m by simp
    then show ?thesis using n by simp
  qed
  have "consume_bids g bids t d' m = Inr (d', m)" for d'
  proof (cases m)
    case (Suc i)
    have "level_price (bids ! i) + grid_tick_i64 g \<noteq> t"
      using before [of i] Suc wf by (auto simp: grid_wf_def)
    then show ?thesis using Suc by (simp add: grid_successor_def)
  qed simp
  then have "consume_bids g bids t (d + sum_list (map level_quantity (take n bids))) n =
      Inr (d + sum_list (map level_quantity (take m bids)), m)"
    using n m \<open>fits_i64 t\<close> by (simp add: grid_successor_def sum_list_take_Suc checked_sub_def)
  moreover have "level_price (bids ! m) < t"
    using n wf by (simp add: grid_wf_def)
  ultimately show ?thesis
    using split before n \<open>p < t\<close>
    by (intro exI [of _ m]) (auto simp: bid_split_def less_Suc_eq Suc_le_eq le_less)
qed


text \<open>
  The state of the sweep at the lower end of an interval: the running quantities are the two curves
  at that price, and the best candidate is optimal among the grid prices below it.
\<close>

definition grid_prices :: "AuctionPriceGrid \<Rightarrow> Price \<Rightarrow> Price \<Rightarrow> Price set" where
  "grid_prices g lo hi = {p. grid_contains g p \<and> lo \<le> p \<and> p \<le> hi}"

lemma constant_interval:
  assumes "bid_split bids l n" "ask_split asks l k" "l \<le> q"
    and "n \<noteq> 0 \<Longrightarrow> q \<le> level_price (bids ! (n - 1))" "k < length asks \<Longrightarrow> q < level_price (asks ! k)"
    and "bids_canonical g bids" "asks_canonical g asks"
  shows "bid_split bids q n" "ask_split asks q k"
proof -
  have "q \<le> level_price (bids ! i)" if "i < n" for i
  proof -
    have "level_price (bids ! (n - 1)) \<le> level_price (bids ! i)"
      using that assms(1) by (intro canonical_nth(2) [OF assms(6)]) (auto simp: bid_split_def)
    then show ?thesis using that assms(4) by simp
  qed
  then show "bid_split bids q n"
    using assms(1,3) by (fastforce simp: bid_split_def)
  have "q < level_price (asks ! i)" if "k \<le> i" "i < length asks" for i
    using canonical_nth(5) [OF assms(7) that] assms(5) that by simp
  then show "ask_split asks q k"
    using assms(2,3) by (fastforce simp: ask_split_def)
qed

lemma next_transition_bounds:
  assumes wf: "grid_wf g" and "bid_split bids l n" "ask_split asks l k"
    and can: "bids_canonical g bids" "asks_canonical g asks"
    and grid: "grid_contains g l" "grid_contains g (band_maximum band)"
    and band: "l \<le> band_maximum band" "fits_i64 (band_maximum band)" "fits_i64 l"
  defines "t \<equiv> minimum_price (next_bid_transition g band bids n) (next_ask_price band asks k)"
  defines "u \<equiv> (case Option.bind t (grid_predecessor g) of Some p \<Rightarrow> p | None \<Rightarrow> band_maximum band)"
  shows "l \<le> u" "grid_contains g u" "u \<le> band_maximum band"
    and "n \<noteq> 0 \<Longrightarrow> u \<le> level_price (bids ! (n - 1))"
    and "k < length asks \<Longrightarrow> u < level_price (asks ! k)"
    and "t = None \<Longrightarrow> u = band_maximum band"
    and "t = Some p \<Longrightarrow> u = p - grid_tick_i64 g \<and> l < p \<and> p \<le> band_maximum band \<and>
       grid_contains g p \<and> fits_i64 p \<and>
       (n \<noteq> 0 \<longrightarrow> p \<le> level_price (bids ! (n - 1)) + grid_tick_i64 g) \<and>
       (k < length asks \<longrightarrow> p \<le> level_price (asks ! k))"
proof -
  let ?b = "level_price (bids ! (n - 1))" and ?a = "level_price (asks ! k)" and ?tick = "grid_tick_i64 g"
  have tick: "0 < ?tick" using wf by (simp add: grid_wf_def)
  have bid: "l \<le> ?b" "grid_contains g ?b" if "n \<noteq> 0"
    using that assms(2) canonical_nth(3) [OF can(1), of "n - 1"] by (auto simp: bid_split_def)
  have ask: "l < ?a" "grid_contains g ?a" if "k < length asks"
    using that assms(3) canonical_nth(6) [OF can(2), of k] by (auto simp: ask_split_def)
  have max_bid: "band_maximum band \<le> ?b" if "n \<noteq> 0" "next_bid_transition g band bids n = None"
  proof -
    have "\<not> (fits_i64 (?b + ?tick) \<and> ?b + ?tick \<le> band_maximum band)"
      using that by (auto simp: next_bid_transition_def grid_successor_def checked_sub_def checked_def)
    then have "\<not> ?b + ?tick \<le> band_maximum band"
      using bid [OF that(1)] band tick by (auto simp: width_defs)
    then show ?thesis
      using grid_gap [OF wf bid(2) [OF that(1)] grid(2)] by force
  qed
  have bid_tr: "n \<noteq> 0 \<and> p = ?b + ?tick \<and> p \<le> band_maximum band \<and> fits_i64 p"
    if "next_bid_transition g band bids n = Some p" for p
    using that by (auto simp: next_bid_transition_def grid_successor_def bind_eq_Some_conv split: if_splits)
  have ask_tr: "k < length asks \<and> p = ?a \<and> p \<le> band_maximum band"
    if "next_ask_price band asks k = Some p" for p
    using that by (auto simp: next_ask_price_def split: if_splits)
  have max_ask: "band_maximum band < ?a" if "k < length asks" "next_ask_price band asks k = None"
    using that by (auto simp: next_ask_price_def split: if_splits)
  have some: "l < p \<and> p \<le> band_maximum band \<and> grid_contains g p \<and> fits_i64 p \<and>
       (n \<noteq> 0 \<longrightarrow> p \<le> ?b + ?tick) \<and> (k < length asks \<longrightarrow> p \<le> ?a)" if "t = Some p" for p
  proof -
    have "p \<le> band_maximum band \<and> (n \<noteq> 0 \<longrightarrow> p \<le> ?b + ?tick) \<and> (k < length asks \<longrightarrow> p \<le> ?a) \<and>
       (n \<noteq> 0 \<and> p = ?b + ?tick \<or> k < length asks \<and> p = ?a)"
    proof (cases "next_bid_transition g band bids n")
      case None
      then have "next_ask_price band asks k = Some p"
        using that unfolding t_def by (cases "next_ask_price band asks k") auto
      then show ?thesis
        using ask_tr [of p] max_bid [OF _ None] tick by auto
    next
      case (Some x)
      note x = bid_tr [OF Some]
      show ?thesis
      proof (cases "next_ask_price band asks k")
        case None
        then have "p = x" using that Some by (simp add: t_def)
        then show ?thesis using x max_ask [OF _ None] by auto
      next
        case (Some y)
        then have "p = min x y" using that \<open>next_bid_transition g band bids n = Some x\<close> by (simp add: t_def)
        then show ?thesis using x ask_tr [OF Some] by (auto simp: min_def)
      qed
    qed
    moreover from this have "l < p" "grid_contains g p"
      using bid ask tick grid_step(1) by force+
    moreover have "fits_i64 p"
      using calculation band by (auto simp: width_defs)
    ultimately show ?thesis by blast
  qed
  have u_some: "u = p - ?tick" if "t = Some p" for p
  proof -
    have "l \<le> p - ?tick"
      using grid_gap [OF wf grid(1)] some [OF that] by force
    then have "fits_i64 (p - ?tick)"
      using some [OF that] band tick by (auto simp: width_defs)
    then show ?thesis using that by (simp add: u_def grid_predecessor_def)
  qed
  have u_none: "u = band_maximum band" if "t = None"
    using that by (simp add: u_def)
  have t_none: "next_bid_transition g band bids n = None \<and> next_ask_price band asks k = None" if "t = None"
    using that unfolding t_def
    by (cases "next_bid_transition g band bids n"; cases "next_ask_price band asks k") auto
  show "l \<le> u"
    using u_none u_some some band(1) grid_gap [OF wf grid(1)] by (cases t) force+
  show "grid_contains g u"
    using u_none u_some some grid(2) grid_step(2) by (cases t) force+
  show "u \<le> band_maximum band"
    using u_none u_some some tick by (cases t) force+
  show "u \<le> ?b" if "n \<noteq> 0"
    using that u_none u_some some max_bid t_none by (cases t) force+
  show "u < ?a" if "k < length asks"
    using that u_none u_some some max_ask t_none tick by (cases t) force+
  show "t = None \<Longrightarrow> u = band_maximum band" by (rule u_none)
  show "u = p - ?tick \<and> l < p \<and> p \<le> band_maximum band \<and> grid_contains g p \<and> fits_i64 p \<and>
       (n \<noteq> 0 \<longrightarrow> p \<le> ?b + ?tick) \<and> (k < length asks \<longrightarrow> p \<le> ?a)" if "t = Some p"
    using u_some some that by blast
qed


abbreviation "state_of market bids asks \<equiv> clearing_on (demand_at market bids) (supply_at market asks)"

lemma interval_step:
  assumes wf: "grid_wf g" and split: "bid_split bids l n" "ask_split asks l k"
    and can: "bids_canonical g bids" "asks_canonical g asks"
    and l: "grid_contains g l" "band_minimum band \<le> l"
    and u: "l \<le> u" "grid_contains g u" "n \<noteq> 0 \<Longrightarrow> u \<le> level_price (bids ! (n - 1))"
      "k < length asks \<Longrightarrow> u < level_price (asks ! k)"
    and r: "grid_contains g r"
    and best: "optimal_on (state_of market bids asks) r policy {p \<in> grid_prices g (band_minimum band) u. p < l} best"
  defines "d \<equiv> demand_at market bids l" and "s \<equiv> supply_at market asks l"
  shows "optimal_on (state_of market bids asks) r policy (grid_prices g (band_minimum band) u)
     (challenge r policy best (from_quantities (interval_candidate_price l u r d s policy) d s))"
proof -
  let ?t = "interval_candidate_price l u r d s policy" and ?T = "grid_prices g l u"
  have const: "demand_at market bids q = d \<and> supply_at market asks q = s" if "q \<in> ?T" for q
    using constant_interval [OF split _ _ _ can, of q] that u(3,4) split
    by (force simp: grid_prices_def d_def s_def demand_at_split supply_at_split)
  have t: "?t \<in> ?T"
    using l(1) u(1,2) r by (auto simp: grid_prices_def interval_candidate_price_def min_def max_def)
  have "optimal_on (state_of market bids asks) r policy
      ({p \<in> grid_prices g (band_minimum band) u. p < l} \<union> ?T)
      (challenge r policy best (state_of market bids asks ?t))"
  proof (rule curves.challenge_optimal [OF best t])
    show "demand_at market bids q = demand_at market bids ?t \<and> supply_at market asks q = supply_at market asks ?t"
      if "q \<in> ?T" for q
      using const that t by simp
    show "is_better_than (state_of market bids asks ?t) (state_of market bids asks q) r policy"
      if "q \<in> ?T" "q \<noteq> ?t" for q
      using const that t
      by (intro curves.interval_best [where lower = l and upper = u])
        (auto simp: d_def s_def grid_prices_def)
  qed (auto simp: grid_prices_def)
  moreover have "{p \<in> grid_prices g (band_minimum band) u. p < l} \<union> ?T = grid_prices g (band_minimum band) u"
    using l by (auto simp: grid_prices_def)
  moreover have "state_of market bids asks ?t = from_quantities ?t d s"
    using const [OF t] by (simp add: clearing_on_def)
  ultimately show ?thesis by simp
qed

lemma grid_prices_below:
  assumes "grid_wf g" "grid_contains g p"
  shows "{q \<in> grid_prices g lo hi. q < p} = grid_prices g lo (min hi (p - grid_tick_i64 g))"
  using grid_gap [OF assms(1) _ assms(2)] assms(1) by (fastforce simp: grid_prices_def grid_wf_def)

lemma sweep_optimal:
  assumes wf: "grid_wf g" and can: "bids_canonical g bids" "asks_canonical g asks"
    and band: "grid_contains g (band_maximum band)" "fits_i64 (band_minimum band)" "fits_i64 (band_maximum band)"
    and r: "grid_contains g r"
    and total: "fits_u128 (market_sell market + sum_list (map level_quantity asks))"
    and "grid_contains g l" "band_minimum band \<le> l" "l \<le> band_maximum band"
    and "bid_split bids l n" "ask_split asks l k"
    and "optimal_on (state_of market bids asks) r policy
           {p \<in> grid_prices g (band_minimum band) (band_maximum band). p < l} best"
  shows "\<exists>res. sweep bids asks g band r policy l (demand_at market bids l) (supply_at market asks l) n k best
             = Inr res \<and>
           optimal_on (state_of market bids asks) r policy
             (grid_prices g (band_minimum band) (band_maximum band)) res"
  using assms(9-)
proof (induction "n + (length asks - k)" arbitrary: l n k best rule: less_induct)
  case less
  note l = less.prems(1-3) and split = less.prems(4,5) and best = less.prems(6)
  let ?t = "minimum_price (next_bid_transition g band bids n) (next_ask_price band asks k)"
  let ?u = "case Option.bind ?t (grid_predecessor g) of Some p \<Rightarrow> p | None \<Rightarrow> band_maximum band"
  let ?d = "demand_at market bids l" and ?s = "supply_at market asks l"
  define best' where "best' = challenge r policy best
    (from_quantities (interval_candidate_price l ?u r ?d ?s policy) ?d ?s)"
  have "fits_i64 l" using band l by (auto simp: width_defs)
  note bounds = next_transition_bounds [OF wf split can l(1) band(1) l(3) band(3) this]
  have "{p \<in> grid_prices g (band_minimum band) (band_maximum band). p < l} =
      {p \<in> grid_prices g (band_minimum band) ?u. p < l}"
    using bounds(1,3) by (auto simp: grid_prices_def)
  then have opt: "optimal_on (state_of market bids asks) r policy (grid_prices g (band_minimum band) ?u) best'"
    unfolding best'_def using best bounds(1,2,4,5)
    by (intro interval_step [OF wf split can l(1,2) _ _ _ _ r]) simp_all
  have unfold: "sweep bids asks g band r policy l ?d ?s n k best =
      (case ?t of None \<Rightarrow> Inr best'
       | Some t \<Rightarrow> (case consume_asks asks t ?s k of Inl e \<Rightarrow> Inl e
         | Inr (s', k') \<Rightarrow> (case consume_bids g bids t ?d n of Inl e \<Rightarrow> Inl e
           | Inr (d', n') \<Rightarrow> sweep bids asks g band r policy t d' s' n' k' best')))"
    using bounds(1) by (subst sweep.simps) (simp only: best'_def Let_def if_True)
  show ?case
  proof (cases ?t)
    case None
    then show ?thesis using opt unfold bounds(6) by simp
  next
    case (Some t)
    note t = bounds(7) [OF Some]
    obtain k' where k': "consume_asks asks t ?s k =
        Inr (?s + sum_list (map level_quantity (drop k (take k' asks))), k')" "ask_split asks t k'" "k \<le> k'"
    proof -
      have "?s + sum_list (map level_quantity (drop k asks)) =
          market_sell market + sum_list (map level_quantity asks)"
        using supply_at_split [OF split(2), of market]
        by (metis add.assoc append_take_drop_id map_append sum_list_append)
      then show thesis
        using consume_asks_split [OF can(2) split(2), of t ?s] t total that by auto
    qed
    have "?s + sum_list (map level_quantity (drop k (take k' asks))) = supply_at market asks t"
    proof -
      have "take k' asks = take k asks @ drop k (take k' asks)"
        using \<open>k \<le> k'\<close> by (metis append_take_drop_id min.absorb1 take_take)
      then have "sum_list (map level_quantity (take k' asks)) =
          sum_list (map level_quantity (take k asks)) + sum_list (map level_quantity (drop k (take k' asks)))"
        by (metis map_append sum_list_append)
      then show ?thesis
        using supply_at_split [OF split(2), of market] supply_at_split [OF k'(2), of market] by simp
    qed
    note asks = k'(1) [unfolded this]
    obtain n' where n': "consume_bids g bids t ?d n = Inr (demand_at market bids t, n')" "bid_split bids t n'"
      using consume_bids_split [OF wf can(1) split(1) _ l(1), of t "market_buy market"] t
        demand_at_split [OF split(1), of market] demand_at_split [of bids t _ market] by metis
    have "n' + (length asks - k') < n + (length asks - k)"
      using transition_progress [OF Some asks n'(1)] .
    moreover have "{p \<in> grid_prices g (band_minimum band) (band_maximum band). p < t} =
        grid_prices g (band_minimum band) ?u"
      using t bounds(3) grid_prices_below [OF wf, of t] wf by (simp add: grid_wf_def)
    ultimately show ?thesis
      using less.hyps [OF _ _ _ _ n'(2) k'(2), of best'] t l opt unfold Some asks n'(1) by simp
  qed
qed

section \<open>Properties\<close>

text \<open>The checks of the discovery, in the order it makes them.\<close>

definition validate_discovery ::
    "AuctionLevel list \<Rightarrow> AuctionLevel list \<Rightarrow> AuctionMarketInterest \<Rightarrow> AuctionPriceGrid
     \<Rightarrow> AuctionPriceBand \<Rightarrow> Price \<Rightarrow> AuctionError + unit"
where
  "validate_discovery bids asks market g band reference_price =
     and_then (validate_price_band g (band_minimum band) (band_maximum band)) (\<lambda>_.
     and_then (ensure (grid_contains g reference_price) ReferencePriceOffGrid) (\<lambda>_.
     and_then (validate_levels bids Buy g) (\<lambda>total_buy.
     and_then (validate_levels asks Sell g) (\<lambda>total_sell.
     and_then (ensure (fits_u128 (total_buy + market_buy market)) (AuctionQuantityOverflow Buy)) (\<lambda>_.
       ensure (fits_u128 (total_sell + market_sell market)) (AuctionQuantityOverflow Sell))))))"

lemma validate_levels_Inr:
  "validate_levels bids Buy g = Inr n \<Longrightarrow> n = sum_list (map level_quantity bids) \<and> bids_canonical g bids"
  "validate_levels asks Sell g = Inr n \<Longrightarrow> n = sum_list (map level_quantity asks) \<and> asks_canonical g asks"
  by (simp_all add: validate_levels_def validate_bids_from validate_asks_from)

lemma discover_valid:
  assumes "grid_wf g" "fits_i64 (band_minimum band)" "fits_i64 (band_maximum band)"
    and valid: "validate_discovery bids asks market g band r = Inr ()"
  shows "\<exists>res. discover_bounded_clearing_price bids asks market g band r policy = Inr res \<and>
    optimal_on (state_of market bids asks) r policy
      (grid_prices g (band_minimum band) (band_maximum band)) res"
proof -
  obtain nb na where v: "validate_price_band g (band_minimum band) (band_maximum band) = Inr ()"
    "grid_contains g r" "validate_levels bids Buy g = Inr nb" "validate_levels asks Sell g = Inr na"
    "fits_u128 (nb + market_buy market)" "fits_u128 (na + market_sell market)"
    using valid by (auto simp: validate_discovery_def result_simps)
  note bids = validate_levels_Inr(1) [OF v(3)] and asks = validate_levels_Inr(2) [OF v(4)]
  have band: "band_minimum band \<le> band_maximum band" "grid_contains g (band_minimum band)"
    "grid_contains g (band_maximum band)"
    using v(1) by (auto simp: validate_price_band_def split: if_splits)
  obtain n where n: "initial_demand (band_minimum band) (market_buy market) 0 bids =
      Inr (market_buy market + sum_list (map level_quantity (take n bids)), n)"
      "bid_split bids (band_minimum band) n"
    using initial_demand_split [of g bids "market_buy market" "band_minimum band" 0] bids v(5)
    by (auto simp: add.commute)
  obtain k where k: "initial_supply (band_minimum band) (market_sell market) 0 asks =
      Inr (market_sell market + sum_list (map level_quantity (take k asks)), k)"
      "ask_split asks (band_minimum band) k"
    using initial_supply_split [of g asks "market_sell market" "band_minimum band" 0] asks v(6)
    by (auto simp: add.commute)
  have "\<exists>res. sweep bids asks g band r policy (band_minimum band)
        (demand_at market bids (band_minimum band)) (supply_at market asks (band_minimum band)) n k None = Inr res \<and>
      optimal_on (state_of market bids asks) r policy
        (grid_prices g (band_minimum band) (band_maximum band)) res"
    using bids asks v band n(2) k(2) assms(1-3)
    by (intro sweep_optimal) (auto simp: grid_prices_def add.commute)
  then show ?thesis
    using v n k by (simp add: discover_bounded_clearing_price_def demand_at_split [OF n(2)] supply_at_split [OF k(2)])
qed

lemma discover_invalid:
  "validate_discovery bids asks market g band r = Inl e \<Longrightarrow>
     discover_bounded_clearing_price bids asks market g band r policy = Inl e"
  by (auto simp: validate_discovery_def discover_bounded_clearing_price_def result_simps)

lemma optimal_on_unique:
  assumes "optimal_on (state_of market bids asks) r policy S x" "optimal_on (state_of market bids asks) r policy S y"
  shows "x = y"
proof (cases x; cases y)
  fix a b assume "x = Some a" "y = Some b"
  then obtain p q where "p \<in> S" "q \<in> S" "a = state_of market bids asks p" "b = state_of market bids asks q"
    "executable_quantity a \<noteq> 0" "executable_quantity b \<noteq> 0"
    "q \<noteq> p \<Longrightarrow> is_better_than a b r policy" "p \<noteq> q \<Longrightarrow> is_better_than b a r policy"
    using assms by (auto simp del: clearing_on_simps)
  then show ?thesis
    using curves.outranks_asym \<open>x = Some a\<close> \<open>y = Some b\<close> by metis
qed (use assms in \<open>auto simp del: clearing_on_simps\<close>)


definition sample_grid :: AuctionPriceGrid where
  "sample_grid = \<lparr>grid_tick_size = 5, grid_tick_i64 = 5\<rparr>"

definition sample_band :: AuctionPriceBand where
  "sample_band = \<lparr>band_minimum = -20, band_maximum = 40\<rparr>"

definition sample_bids :: "AuctionLevel list" where
  "sample_bids = [\<lparr>level_price = 50, level_quantity = 3\<rparr>, \<lparr>level_price = 15, level_quantity = 4\<rparr>,
     \<lparr>level_price = 10, level_quantity = 6\<rparr>]"

definition sample_asks :: "AuctionLevel list" where
  "sample_asks = [\<lparr>level_price = -30, level_quantity = 2\<rparr>, \<lparr>level_price = 5, level_quantity = 7\<rparr>,
     \<lparr>level_price = 20, level_quantity = 5\<rparr>]"

definition sample_market :: AuctionMarketInterest where
  "sample_market = \<lparr>market_buy = 1, market_sell = 0\<rparr>"

definition sample_policy :: AuctionPricePolicy where
  "sample_policy = \<lparr>pressure_rule = FavorImbalance, final_tie_break = LowerPrice\<rparr>"

lemmas sample_defs = sample_grid_def sample_band_def sample_bids_def sample_asks_def sample_market_def
  sample_policy_def

lemma sample_valid:
  "grid_wf sample_grid" "fits_i64 (band_minimum sample_band)" "fits_i64 (band_maximum sample_band)"
  "validate_discovery sample_bids sample_asks sample_market sample_grid sample_band 0 = Inr ()"
  by (simp_all add: sample_defs grid_wf_def width_defs validate_discovery_def validate_price_band_def grid_contains_def
      validate_levels_def)

text \<open>
  C36. The only failures of the discovery are its up-front checks, reported in the order it makes them:
  the sweep terminates on every input and never runs into its overflow or underflow exits, whatever
  the levels, the market interest and the reference price are.
\<close>

theorem discover_errors:
  assumes "grid_wf g" "fits_i64 (band_minimum band)" "fits_i64 (band_maximum band)"
  shows "discover_bounded_clearing_price bids asks market g band r policy = Inl e \<longleftrightarrow>
    validate_discovery bids asks market g band r = Inl e"
proof (cases "validate_discovery bids asks market g band r")
  case (Inr u)
  then show ?thesis
    using discover_valid [OF assms, of bids asks market r policy] by auto
qed (simp add: discover_invalid)

theorem discover_errors_witness:
  "discover_bounded_clearing_price sample_asks sample_bids sample_market sample_grid sample_band 0
     sample_policy = Inl (NonCanonicalLevels Buy 1)"
proof -
  have "validate_discovery sample_asks sample_bids sample_market sample_grid sample_band 0 =
      Inl (NonCanonicalLevels Buy 1)"
    by (simp add: sample_defs width_defs validate_discovery_def validate_price_band_def grid_contains_def
        validate_levels_def)
  then show ?thesis
    using discover_errors [OF sample_valid(1-3)] by simp
qed

lemma grid_full:
  assumes "grid_wf g"
  shows "grid_prices g (grid_minimum g) (grid_maximum g) = {p. grid_contains g p \<and> fits_i64 p}"
    and "fits_i64 (grid_minimum g)" "fits_i64 (grid_maximum g)"
    and "grid_contains g (grid_minimum g)" "grid_contains g (grid_maximum g)"
    and "grid_minimum g \<le> grid_maximum g"
proof -
  let ?k = "grid_tick_i64 g"
  have k: "0 < ?k" "?k < 2 ^ 63" using assms by (auto simp: grid_wf_def fits_i64_def)
  have r: "0 \<le> i64_max mod ?k" "i64_max mod ?k < ?k" "0 \<le> i64_min mod ?k" "i64_min mod ?k < ?k"
    using k by simp_all
  have "grid_maximum g = ?k * (i64_max div ?k)"
    by (simp add: grid_maximum_def minus_mod_eq_mult_div)
  then have max: "grid_contains g (grid_maximum g)" "grid_maximum g \<le> i64_max" "i64_max < grid_maximum g + ?k"
    using r by (simp_all add: grid_contains_def) (simp_all add: grid_maximum_def minus_mod_eq_mult_div [symmetric])
  have min: "grid_contains g (grid_minimum g) \<and> i64_min \<le> grid_minimum g \<and> grid_minimum g - ?k < i64_min"
  proof (cases "i64_min mod ?k = 0")
    case True
    then show ?thesis using k by (simp add: grid_minimum_def grid_contains_def)
  next
    case False
    have e: "i64_min + (?k - i64_min mod ?k) = ?k * (i64_min div ?k + 1)"
      using minus_mod_eq_mult_div [of i64_min ?k] by (simp add: algebra_simps)
    have "grid_minimum g = i64_min + (?k - i64_min mod ?k)"
      using False by (simp add: grid_minimum_def Let_def)
    then show ?thesis
      using r(3,4) False e by (simp add: grid_contains_def)
  qed
  have zero: "grid_contains g 0" by (simp add: grid_contains_def)
  have "grid_minimum g \<le> 0"
    using grid_gap [OF assms zero, of "grid_minimum g"] min by (force simp: i64_min_def)
  moreover have "0 \<le> grid_maximum g"
    using grid_gap [OF assms max(1) zero] max by (force simp: i64_max_def)
  ultimately show ordered: "grid_minimum g \<le> grid_maximum g" by simp
  show "fits_i64 (grid_minimum g)" "fits_i64 (grid_maximum g)"
    using ordered min max by (auto simp: fits_i64_def i64_min_def i64_max_def)
  show "grid_contains g (grid_minimum g)" "grid_contains g (grid_maximum g)"
    using min max by simp_all
  have "grid_minimum g \<le> p \<and> p \<le> grid_maximum g \<longleftrightarrow> fits_i64 p" if "grid_contains g p" for p
    using grid_gap [OF assms that, of "grid_minimum g"] grid_gap [OF assms max(1) that] min max
    by (force simp: fits_i64_def i64_min_def i64_max_def)
  then show "grid_prices g (grid_minimum g) (grid_maximum g) = {p. grid_contains g p \<and> fits_i64 p}"
    by (auto simp: grid_prices_def)
qed

text \<open>
  C30. The convenience form without market interest and band is optimal over every representable price of
  the grid: its full-grid band leaves no aligned \<open>i64\<close> price out.
\<close>

theorem discover_clearing_price_optimal:
  assumes "grid_wf g"
    and "discover_clearing_price bids asks g r policy = Inr res"
  shows "optimal_on (clearing_on (demand_at market_none bids) (supply_at market_none asks)) r policy
    {p. grid_contains g p \<and> fits_i64 p} res"
proof -
  note full = grid_full [OF assms(1)]
  have "validate_discovery bids asks market_none g (band_full g) r = Inr ()"
    using assms(2) discover_invalid [of bids asks market_none g "band_full g" r]
    by (cases "validate_discovery bids asks market_none g (band_full g) r")
      (auto simp: discover_clearing_price_def)
  then show ?thesis
    using discover_valid [OF assms(1), of "band_full g" bids asks market_none r policy] full(1-3) assms(2)
    by (auto simp: band_full_def discover_clearing_price_def)
qed

theorem discover_clearing_price_optimal_witness:
  "optimal_on (clearing_on (demand_at market_none sample_bids) (supply_at market_none sample_asks))
     0 sample_policy {p. grid_contains sample_grid p \<and> fits_i64 p}
     (Some \<lparr>clr_price = 10, executable_quantity = 9, buy_quantity = 13, sell_quantity = 9,
        imbalance_side = Some Buy, imbalance_quantity = 4\<rparr>)"
proof -
  have "discover_clearing_price sample_bids sample_asks sample_grid 0 sample_policy =
    Inr (Some \<lparr>clr_price = 10, executable_quantity = 9, buy_quantity = 13, sell_quantity = 9,
        imbalance_side = Some Buy, imbalance_quantity = 4\<rparr>)"
    by (simp add: discover_clearing_price_def band_full_def grid_maximum_def grid_minimum_def i64_min_def
        i64_max_def market_none_def
        sample_defs width_defs discover_bounded_clearing_price_def validate_price_band_def
        grid_contains_def validate_levels_def sweep.simps consume_asks.simps next_bid_transition_def
        next_ask_price_def checked_sub_def checked_def grid_successor_def grid_predecessor_def
        interval_candidate_price_def challenge_def from_quantities_def is_better_than_def)
  then show ?thesis
    using discover_clearing_price_optimal [OF sample_valid(1)] by blast
qed

end
