(* ===== verification/AuctionAllocation.thy ===== *)
theory AuctionAllocation
  imports AuctionPricing
begin

text \<open>
  Order-level allocation of a clearing result (the second half of \<open>src/src/auction.rs\<close>): strict
  price-time allocation and tiered pro-rata allocation with its exact fixed-width multiply-divide. An
  allocation validates the whole request first and then constructs the fills of each side; the
  reservation of the fill vectors is the parameter \<open>reserve\<close> (what the allocator answers for a side
  and a count).

  The theorems: the multiply-divide is the floor of the exact quotient, price-time fills are the
  water-filling of the side in priority order, pro-rata fills have a closed form, and construction
  never fails once the request is validated.
\<close>

section \<open>Orders, limits and plans\<close>

datatype AuctionAllocationError =
    InvalidOrderLimit nat
  | InvalidAllocationQuantum nat
  | OrderLimitExceeded Side nat nat
  | ClearingPriceOffGrid
  | LimitPriceOffGrid Side nat
  | OrderQuantityOffAllocationGrid Side nat nat nat
  | NonCanonicalOrders Side nat
  | QuantityOverflow Side
  | ClearingQuantityMismatch nat nat nat nat
  | ZeroExecutableQuantity
  | CapacityReservationFailed Side
  | FillQuantityOverflow Side
  | InsufficientEligibleQuantity Side

datatype AuctionOrderConstraint = Market | Limit Price

record AuctionOrder =
  auction_order_id :: OrderId
  order_constraint :: AuctionOrderConstraint
  order_quantity :: Quantity
  order_priority_class :: nat
  order_priority_sequence :: nat

record AuctionAllocationLimits =
  max_orders_per_side :: nat

definition allocation_limits_new :: "nat \<Rightarrow> AuctionAllocationError + AuctionAllocationLimits" where
  "allocation_limits_new maximum =
     (if maximum = 0 then Inl (InvalidOrderLimit maximum) else Inr \<lparr>max_orders_per_side = maximum\<rparr>)"

datatype AuctionAllocationPolicy = PriceTime | ProRataTime

record AuctionOrderFill =
  source_index :: nat
  fill_order_id :: OrderId
  fill_quantity_lots :: nat

record AuctionAllocationPlan =
  plan_clearing :: AuctionClearing
  buy_fills :: "AuctionOrderFill list"
  sell_fills :: "AuctionOrderFill list"

section \<open>Priority\<close>

definition priority_key :: "AuctionOrder \<Rightarrow> nat \<times> nat \<times> OrderId" where
  "priority_key order = (order_priority_class order, order_priority_sequence order, auction_order_id order)"

definition compare_order_priority :: "AuctionOrder \<Rightarrow> AuctionOrder \<Rightarrow> Side \<Rightarrow> Ordering" where
  "compare_order_priority previous current side =
     (case (order_constraint previous, order_constraint current) of
        (Market, Limit _) \<Rightarrow> Less
      | (Limit _, Market) \<Rightarrow> Greater
      | (Market, Market) \<Rightarrow> cmp (priority_key previous) (priority_key current)
      | (Limit previous_price, Limit price) \<Rightarrow>
          (if previous_price = price then cmp (priority_key previous) (priority_key current)
           else case side of Buy \<Rightarrow> cmp price previous_price | Sell \<Rightarrow> cmp previous_price price))"

definition precedes :: "AuctionOrder \<Rightarrow> AuctionOrder \<Rightarrow> Side \<Rightarrow> bool" where
  "precedes previous current side \<longleftrightarrow> compare_order_priority previous current side = Less"

definition is_eligible :: "AuctionOrder \<Rightarrow> Side \<Rightarrow> Price \<Rightarrow> bool" where
  "is_eligible order side clearing_price =
     (case order_constraint order of
        Market \<Rightarrow> True
      | Limit price \<Rightarrow> (case side of Buy \<Rightarrow> clearing_price \<le> price | Sell \<Rightarrow> price \<le> clearing_price))"

definition same_allocation_tier :: "AuctionOrder \<Rightarrow> AuctionOrder \<Rightarrow> bool" where
  "same_allocation_tier first other \<longleftrightarrow>
     order_constraint first = order_constraint other \<and> order_priority_class first = order_priority_class other"

section \<open>Exact multiply-divide\<close>

definition modular_double :: "nat \<Rightarrow> nat \<Rightarrow> nat \<times> nat" where
  "modular_double v modulus =
     (let complement = u128_sub modulus v
      in if complement \<le> v then (u128_sub v complement, 1) else (u128_add v v, 0))"

definition modular_add :: "nat \<Rightarrow> nat \<Rightarrow> nat \<Rightarrow> nat \<times> nat" where
  "modular_add left right modulus =
     (let complement = u128_sub modulus right
      in if complement \<le> left then (u128_sub left complement, 1) else (u128_add left right, 0))"

text \<open>The loop over the bits \<open>63 \<dots> 0\<close>; its first argument counts the bits left.\<close>

fun mul_div_loop :: "nat \<Rightarrow> nat \<Rightarrow> nat \<Rightarrow> nat \<Rightarrow> nat \<Rightarrow> nat \<Rightarrow> nat option" where
  "mul_div_loop 0 factor multiplier divisor quot remainder = Some quot"
| "mul_div_loop (Suc k) factor multiplier divisor quot remainder =
     (let (doubled, double_carry) = modular_double remainder divisor;
          (remainder, carry) =
            (if bit factor k
             then let (added, add_carry) = modular_add doubled multiplier divisor
                  in (added, double_carry + add_carry)
             else (doubled, double_carry))
      in Option.bind (checked fits_u64 (quot * 2)) (\<lambda>twice.
         Option.bind (checked fits_u64 (twice + carry)) (\<lambda>quot.
           mul_div_loop k factor multiplier divisor quot remainder)))"

definition exact_mul_div_floor :: "nat \<Rightarrow> nat \<Rightarrow> nat \<Rightarrow> nat option" where
  "exact_mul_div_floor factor multiplier divisor =
     (if divisor = 0 \<or> divisor \<le> multiplier then None
      else mul_div_loop 64 factor multiplier divisor 0 0)"

section \<open>Price-time fills\<close>

fun required_fill_count :: "AuctionOrder list \<Rightarrow> Side \<Rightarrow> Price \<Rightarrow> nat \<Rightarrow> nat" where
  "required_fill_count [] side clearing_price remaining = 0"
| "required_fill_count (order # orders) side clearing_price remaining =
     (if remaining = 0 \<or> \<not> is_eligible order side clearing_price then 0
      else 1 + required_fill_count orders side clearing_price (remaining - order_quantity order))"

text \<open>The enumeration index is an argument; the fills vector is threaded through the loop.\<close>

fun append_fills_from ::
    "nat \<Rightarrow> AuctionOrder list \<Rightarrow> Side \<Rightarrow> Price \<Rightarrow> nat \<Rightarrow> AuctionOrderFill list
     \<Rightarrow> AuctionAllocationError + nat \<times> AuctionOrderFill list"
where
  "append_fills_from i [] side clearing_price remaining fills = Inr (remaining, fills)"
| "append_fills_from i (order # orders) side clearing_price remaining fills =
     (if remaining = 0 \<or> \<not> is_eligible order side clearing_price then Inr (remaining, fills)
      else let fill_quantity = min remaining (order_quantity order)
           in and_then (ok_or (checked fits_u64 fill_quantity) (FillQuantityOverflow side)) (\<lambda>quantity_lots.
                append_fills_from (Suc i) orders side clearing_price (remaining - fill_quantity)
                  (fills @ [\<lparr>source_index = i, fill_order_id = auction_order_id order,
                             fill_quantity_lots = quantity_lots\<rparr>])))"

definition append_fills ::
    "AuctionOrder list \<Rightarrow> Side \<Rightarrow> Price \<Rightarrow> nat \<Rightarrow> AuctionOrderFill list
     \<Rightarrow> AuctionAllocationError + AuctionOrderFill list"
where
  "append_fills orders side clearing_price remaining fills =
     and_then (append_fills_from 0 orders side clearing_price remaining fills) (\<lambda>(remaining, fills).
       if remaining \<noteq> 0 then Inl (InsufficientEligibleQuantity side) else Inr fills)"

section \<open>Pro-rata fills\<close>

text \<open>
  The walk is parametric in the closure \<open>emit\<close>, which threads a state \<open>'s\<close>: the counting pass of the
  validation carries nothing, the constructing pass pushes onto the fills vector.
\<close>

function tier_end_from :: "AuctionOrder list \<Rightarrow> Side \<Rightarrow> Price \<Rightarrow> AuctionOrder \<Rightarrow> nat \<Rightarrow> nat" where
  "tier_end_from orders side clearing_price first i =
     (if i < length orders \<and> is_eligible (orders ! i) side clearing_price \<and>
         same_allocation_tier first (orders ! i)
      then tier_end_from orders side clearing_price first (Suc i) else i)"
  by pat_completeness auto
termination by (relation "measure (\<lambda>(orders, side, clearing_price, first, i). length orders - i)") auto

declare tier_end_from.simps [simp del]

fun tier_total :: "Side \<Rightarrow> AuctionOrder list \<Rightarrow> nat \<Rightarrow> AuctionAllocationError + nat" where
  "tier_total side [] tier_quantity = Inr tier_quantity"
| "tier_total side (order # orders) tier_quantity =
     and_then (ok_or (checked fits_u128 (tier_quantity + order_quantity order)) (QuantityOverflow side))
       (tier_total side orders)"

fun emit_full ::
    "(nat \<Rightarrow> AuctionOrder \<Rightarrow> nat \<Rightarrow> 's \<Rightarrow> AuctionAllocationError + 's) \<Rightarrow> Side \<Rightarrow> nat \<Rightarrow> AuctionOrder list
     \<Rightarrow> nat \<Rightarrow> 's \<Rightarrow> AuctionAllocationError + nat \<times> 's"
where
  "emit_full emit side i [] fill_count s = Inr (fill_count, s)"
| "emit_full emit side i (order # orders) fill_count s =
     and_then (emit i order (order_quantity order) s) (\<lambda>s.
     and_then (ok_or (checked fits_usize (fill_count + 1)) (FillQuantityOverflow side)) (\<lambda>fill_count.
       emit_full emit side (Suc i) orders fill_count s))"

fun allocate_base ::
    "Side \<Rightarrow> nat \<Rightarrow> nat \<Rightarrow> nat \<Rightarrow> AuctionOrder list \<Rightarrow> nat \<Rightarrow> AuctionAllocationError + nat"
where
  "allocate_base side quantum remaining_quanta tier_quanta [] allocated_quanta = Inr allocated_quanta"
| "allocate_base side quantum remaining_quanta tier_quanta (order # orders) allocated_quanta =
     and_then (ok_or (exact_mul_div_floor (order_quantity order div quantum) remaining_quanta tier_quanta)
                 (FillQuantityOverflow side)) (\<lambda>base.
     and_then (ok_or (checked fits_u128 (allocated_quanta + base)) (QuantityOverflow side)) (\<lambda>allocated_quanta.
       allocate_base side quantum remaining_quanta tier_quanta orders allocated_quanta))"

fun emit_marginal ::
    "(nat \<Rightarrow> AuctionOrder \<Rightarrow> nat \<Rightarrow> 's \<Rightarrow> AuctionAllocationError + 's) \<Rightarrow> Side \<Rightarrow> nat \<Rightarrow> nat \<Rightarrow> nat \<Rightarrow> nat
     \<Rightarrow> AuctionOrder list \<Rightarrow> nat \<Rightarrow> nat \<Rightarrow> 's \<Rightarrow> AuctionAllocationError + nat \<times> nat \<times> 's"
where
  "emit_marginal emit side quantum remaining_quanta tier_quanta i [] residual_quanta fill_count s =
     Inr (residual_quanta, fill_count, s)"
| "emit_marginal emit side quantum remaining_quanta tier_quanta i (order # orders) residual_quanta fill_count s =
     (let order_quanta = order_quantity order div quantum
      in and_then (ok_or (exact_mul_div_floor order_quanta remaining_quanta tier_quanta)
                     (FillQuantityOverflow side)) (\<lambda>base.
         and_then (if residual_quanta \<noteq> 0 \<and> base < order_quanta
                   then and_then (ok_or (checked fits_u64 (base + 1)) (FillQuantityOverflow side))
                          (\<lambda>fill_quanta. Inr (fill_quanta, residual_quanta - 1))
                   else Inr (base, residual_quanta)) (\<lambda>(fill_quanta, residual_quanta).
         if fill_quanta = 0
         then emit_marginal emit side quantum remaining_quanta tier_quanta (Suc i) orders residual_quanta fill_count s
         else and_then (ok_or (checked fits_u64 (fill_quanta * quantum)) (FillQuantityOverflow side))
                (\<lambda>quantity_lots.
              and_then (emit i order quantity_lots s) (\<lambda>s.
              and_then (ok_or (checked fits_usize (fill_count + 1)) (FillQuantityOverflow side)) (\<lambda>fill_count.
                emit_marginal emit side quantum remaining_quanta tier_quanta (Suc i) orders residual_quanta
                  fill_count s))))))"

lemma tier_end_from_ge: "i \<le> tier_end_from orders side p first i"
  by (induction orders side p first i rule: tier_end_from.induct) (subst tier_end_from.simps, force)

lemma tier_end_from_le: "i \<le> length orders \<Longrightarrow> tier_end_from orders side p first i \<le> length orders"
  by (induction orders side p first i rule: tier_end_from.induct) (subst tier_end_from.simps, force)

function walk_tiers ::
    "(nat \<Rightarrow> AuctionOrder \<Rightarrow> nat \<Rightarrow> 's \<Rightarrow> AuctionAllocationError + 's) \<Rightarrow> AuctionOrder list \<Rightarrow> Side
     \<Rightarrow> Price \<Rightarrow> nat \<Rightarrow> nat \<Rightarrow> nat \<Rightarrow> nat \<Rightarrow> 's \<Rightarrow> AuctionAllocationError + nat \<times> 's"
where
  "walk_tiers emit orders side clearing_price quantum remaining i fill_count s =
     (if remaining = 0 then Inr (fill_count, s)
      else if length orders \<le> i then Inl (InsufficientEligibleQuantity side)
      else if \<not> is_eligible (orders ! i) side clearing_price then Inl (InsufficientEligibleQuantity side)
      else let first = orders ! i;
               tier_end = tier_end_from orders side clearing_price first (i + 1);
               tier = take (tier_end - i) (drop i orders)
           in and_then (tier_total side tier 0) (\<lambda>tier_quantity.
              if tier_quantity \<le> remaining
              then and_then (emit_full emit side i tier fill_count s) (\<lambda>(fill_count, s).
                     walk_tiers emit orders side clearing_price quantum (remaining - tier_quantity) tier_end
                       fill_count s)
              else if remaining mod quantum \<noteq> 0 \<or> tier_quantity mod quantum \<noteq> 0
              then Inl (InsufficientEligibleQuantity side)
              else let remaining_quanta = remaining div quantum;
                       tier_quanta = tier_quantity div quantum
                   in and_then (allocate_base side quantum remaining_quanta tier_quanta tier 0) (\<lambda>allocated_quanta.
                      and_then (ok_or (checked_sub remaining_quanta allocated_quanta) (QuantityOverflow side))
                        (\<lambda>residual_quanta.
                      and_then (emit_marginal emit side quantum remaining_quanta tier_quanta i tier
                                 residual_quanta fill_count s) (\<lambda>(residual_quanta, fill_count, s).
                        if residual_quanta \<noteq> 0 then Inl (InsufficientEligibleQuantity side)
                        else Inr (fill_count, s))))))"
  by pat_completeness auto
termination
proof (relation "measure (\<lambda>(emit, orders, side, clearing_price, quantum, remaining, i, fill_count, s). length orders - i)",
    goal_cases)
  case (2 emit orders side clearing_price quantum remaining i)
  then show ?case
    using tier_end_from_ge [of "i + 1" orders side clearing_price "orders ! i"] by simp
qed simp

declare walk_tiers.simps [simp del]

definition walk_pro_rata_fills ::
    "AuctionOrder list \<Rightarrow> Side \<Rightarrow> Price \<Rightarrow> nat \<Rightarrow> nat
     \<Rightarrow> (nat \<Rightarrow> AuctionOrder \<Rightarrow> nat \<Rightarrow> 's \<Rightarrow> AuctionAllocationError + 's) \<Rightarrow> 's
     \<Rightarrow> AuctionAllocationError + nat \<times> 's"
where
  "walk_pro_rata_fills orders side clearing_price remaining allocation_quantum_lots emit s =
     (if allocation_quantum_lots = 0 then Inl (InvalidAllocationQuantum 0)
      else walk_tiers emit orders side clearing_price allocation_quantum_lots remaining 0 0 s)"

definition push_fill ::
    "nat \<Rightarrow> AuctionOrder \<Rightarrow> nat \<Rightarrow> AuctionOrderFill list \<Rightarrow> AuctionAllocationError + AuctionOrderFill list"
where
  "push_fill i order quantity_lots fills =
     Inr (fills @ [\<lparr>source_index = i, fill_order_id = auction_order_id order,
                     fill_quantity_lots = quantity_lots\<rparr>])"

definition append_policy_fills ::
    "AuctionOrder list \<Rightarrow> Side \<Rightarrow> Price \<Rightarrow> nat \<Rightarrow> AuctionAllocationPolicy \<Rightarrow> nat \<Rightarrow> AuctionOrderFill list
     \<Rightarrow> AuctionAllocationError + AuctionOrderFill list"
where
  "append_policy_fills orders side clearing_price executable policy allocation_quantum_lots fills =
     (case policy of
        PriceTime \<Rightarrow> append_fills orders side clearing_price executable fills
      | ProRataTime \<Rightarrow>
          and_then (walk_pro_rata_fills orders side clearing_price executable allocation_quantum_lots push_fill fills)
            (\<lambda>(_, fills). Inr fills))"

section \<open>Validation\<close>

definition validate_order_count ::
    "AuctionOrder list \<Rightarrow> Side \<Rightarrow> AuctionAllocationLimits \<Rightarrow> AuctionAllocationError + unit"
where
  "validate_order_count orders side limits =
     ensure (length orders \<le> max_orders_per_side limits)
       (OrderLimitExceeded side (length orders) (max_orders_per_side limits))"

definition limit_off_grid :: "AuctionPriceGrid \<Rightarrow> AuctionOrder \<Rightarrow> bool" where
  "limit_off_grid g order \<longleftrightarrow>
     (case order_constraint order of Market \<Rightarrow> False | Limit price \<Rightarrow> \<not> grid_contains g price)"

fun validate_orders_from ::
    "AuctionOrder list \<Rightarrow> Side \<Rightarrow> AuctionPriceGrid \<Rightarrow> Price \<Rightarrow> nat \<Rightarrow> AuctionOrder option \<Rightarrow> nat
     \<Rightarrow> AuctionAllocationError + nat"
where
  "validate_orders_from [] side g clearing_price i previous eligible_quantity = Inr eligible_quantity"
| "validate_orders_from (order # orders) side g clearing_price i previous eligible_quantity =
     (if limit_off_grid g order then Inl (LimitPriceOffGrid side i)
      else if (case previous of None \<Rightarrow> False | Some previous \<Rightarrow> \<not> precedes previous order side)
      then Inl (NonCanonicalOrders side i)
      else and_then
             (if is_eligible order side clearing_price
              then ok_or (checked fits_u128 (eligible_quantity + order_quantity order)) (QuantityOverflow side)
              else Inr eligible_quantity)
             (validate_orders_from orders side g clearing_price (Suc i) (Some order)))"

definition validate_allocation_orders ::
    "AuctionOrder list \<Rightarrow> Side \<Rightarrow> AuctionPriceGrid \<Rightarrow> Price \<Rightarrow> AuctionAllocationError + nat"
where
  "validate_allocation_orders orders side g clearing_price =
     validate_orders_from orders side g clearing_price 0 None 0"

definition validate_allocation_request ::
    "AuctionOrder list \<Rightarrow> AuctionOrder list \<Rightarrow> AuctionPriceGrid \<Rightarrow> AuctionClearing \<Rightarrow> AuctionAllocationLimits
     \<Rightarrow> AuctionAllocationError + nat \<times> nat"
where
  "validate_allocation_request bids asks g clearing limits =
     and_then (ensure (max_orders_per_side limits \<noteq> 0) (InvalidOrderLimit 0)) (\<lambda>_.
     and_then (validate_order_count bids Buy limits) (\<lambda>_.
     and_then (validate_order_count asks Sell limits) (\<lambda>_.
     and_then (ensure (grid_contains g (clr_price clearing)) ClearingPriceOffGrid) (\<lambda>_.
     and_then (validate_allocation_orders bids Buy g (clr_price clearing)) (\<lambda>observed_buy.
     and_then (validate_allocation_orders asks Sell g (clr_price clearing)) (\<lambda>observed_sell.
     and_then (ensure (observed_buy = buy_quantity clearing \<and> observed_sell = sell_quantity clearing)
                (ClearingQuantityMismatch (buy_quantity clearing) observed_buy
                   (sell_quantity clearing) observed_sell)) (\<lambda>_.
     and_then (ensure (executable_quantity clearing \<noteq> 0) ZeroExecutableQuantity) (\<lambda>_.
       Inr (required_fill_count bids Buy (clr_price clearing) (executable_quantity clearing),
            required_fill_count asks Sell (clr_price clearing) (executable_quantity clearing))))))))))"

fun validate_quantum_from :: "nat \<Rightarrow> AuctionOrder list \<Rightarrow> Side \<Rightarrow> nat \<Rightarrow> AuctionAllocationError + unit" where
  "validate_quantum_from i [] side quantum = Inr ()"
| "validate_quantum_from i (order # orders) side quantum =
     (if order_quantity order mod quantum \<noteq> 0
      then Inl (OrderQuantityOffAllocationGrid side i (order_quantity order) quantum)
      else validate_quantum_from (Suc i) orders side quantum)"

definition validate_allocation_quantum :: "AuctionOrder list \<Rightarrow> Side \<Rightarrow> nat \<Rightarrow> AuctionAllocationError + unit" where
  "validate_allocation_quantum orders side allocation_quantum_lots =
     (if allocation_quantum_lots = 0 then Inl (InvalidAllocationQuantum 0)
      else validate_quantum_from 0 orders side allocation_quantum_lots)"

definition count_only :: "nat \<Rightarrow> AuctionOrder \<Rightarrow> nat \<Rightarrow> unit \<Rightarrow> AuctionAllocationError + unit" where
  "count_only i order quantity_lots s = Inr s"

definition validate_policy_allocation_request ::
    "AuctionOrder list \<Rightarrow> AuctionOrder list \<Rightarrow> AuctionPriceGrid \<Rightarrow> AuctionClearing \<Rightarrow> AuctionAllocationPolicy
     \<Rightarrow> nat \<Rightarrow> AuctionAllocationLimits \<Rightarrow> AuctionAllocationError + nat \<times> nat"
where
  "validate_policy_allocation_request bids asks g clearing policy allocation_quantum_lots limits =
     and_then (validate_allocation_request bids asks g clearing limits) (\<lambda>price_time_counts.
       if policy = PriceTime then Inr price_time_counts
       else
         and_then (validate_allocation_quantum bids Buy allocation_quantum_lots) (\<lambda>_.
         and_then (validate_allocation_quantum asks Sell allocation_quantum_lots) (\<lambda>_.
         and_then (walk_pro_rata_fills bids Buy (clr_price clearing) (executable_quantity clearing)
                     allocation_quantum_lots count_only ()) (\<lambda>(buy_count, _).
         and_then (walk_pro_rata_fills asks Sell (clr_price clearing) (executable_quantity clearing)
                     allocation_quantum_lots count_only ()) (\<lambda>(sell_count, _).
           Inr (buy_count, sell_count))))))"

section \<open>Allocation\<close>

definition build_allocation_plan ::
    "AuctionOrder list \<Rightarrow> AuctionOrder list \<Rightarrow> AuctionClearing \<Rightarrow> AuctionAllocationPolicy \<Rightarrow> nat
     \<Rightarrow> AuctionAllocationError + AuctionAllocationPlan"
where
  "build_allocation_plan bids asks clearing policy allocation_quantum_lots =
     and_then (append_policy_fills bids Buy (clr_price clearing) (executable_quantity clearing) policy
                 allocation_quantum_lots []) (\<lambda>buys.
     and_then (append_policy_fills asks Sell (clr_price clearing) (executable_quantity clearing) policy
                 allocation_quantum_lots []) (\<lambda>sells.
       Inr \<lparr>plan_clearing = clearing, buy_fills = buys, sell_fills = sells\<rparr>))"

definition allocate_clearing_with_policy ::
    "(Side \<Rightarrow> nat \<Rightarrow> bool) \<Rightarrow> AuctionOrder list \<Rightarrow> AuctionOrder list \<Rightarrow> AuctionPriceGrid \<Rightarrow> AuctionClearing
     \<Rightarrow> AuctionAllocationPolicy \<Rightarrow> nat \<Rightarrow> AuctionAllocationLimits \<Rightarrow> AuctionAllocationError + AuctionAllocationPlan"
where
  "allocate_clearing_with_policy reserve bids asks g clearing policy allocation_quantum_lots limits =
     and_then (validate_policy_allocation_request bids asks g clearing policy allocation_quantum_lots limits)
       (\<lambda>(buy_fill_count, sell_fill_count).
     and_then (ensure (reserve Buy buy_fill_count) (CapacityReservationFailed Buy)) (\<lambda>_.
     and_then (ensure (reserve Sell sell_fill_count) (CapacityReservationFailed Sell)) (\<lambda>_.
       build_allocation_plan bids asks clearing policy allocation_quantum_lots)))"

definition allocate_clearing_price_time where
  "allocate_clearing_price_time reserve bids asks g clearing limits =
     allocate_clearing_with_policy reserve bids asks g clearing PriceTime 1 limits"

definition allocate_clearing_pro_rata_time where
  "allocate_clearing_pro_rata_time reserve bids asks g clearing allocation_quantum_lots limits =
     allocate_clearing_with_policy reserve bids asks g clearing ProRataTime allocation_quantum_lots limits"

text \<open>
  The reusing form writes into a caller's plan, whose vectors have the capacities \<open>buy_capacity\<close> and
  \<open>sell_capacity\<close>: the new state of the plan is returned with the result, so an error exit shows what
  it leaves behind.
\<close>

definition allocate_clearing_reusing ::
    "nat \<Rightarrow> nat \<Rightarrow> AuctionOrder list \<Rightarrow> AuctionOrder list \<Rightarrow> AuctionPriceGrid \<Rightarrow> AuctionClearing
     \<Rightarrow> AuctionAllocationPolicy \<Rightarrow> nat \<Rightarrow> AuctionAllocationLimits \<Rightarrow> AuctionAllocationPlan
     \<Rightarrow> (AuctionAllocationError + unit) \<times> AuctionAllocationPlan"
where
  "allocate_clearing_reusing buy_capacity sell_capacity bids asks g clearing policy allocation_quantum_lots limits plan =
     (case validate_policy_allocation_request bids asks g clearing policy allocation_quantum_lots limits of
        Inl e \<Rightarrow> (Inl e, plan)
      | Inr (buy_fill_count, sell_fill_count) \<Rightarrow>
          (if buy_capacity < buy_fill_count then (Inl (CapacityReservationFailed Buy), plan)
           else if sell_capacity < sell_fill_count then (Inl (CapacityReservationFailed Sell), plan)
           else let plan = plan\<lparr>buy_fills := [], sell_fills := []\<rparr>
                in case append_policy_fills bids Buy (clr_price clearing) (executable_quantity clearing) policy
                          allocation_quantum_lots (buy_fills plan) of
                     Inl e \<Rightarrow> (Inl e, plan)
                   | Inr buys \<Rightarrow>
                       let plan = plan\<lparr>buy_fills := buys\<rparr>
                       in case append_policy_fills asks Sell (clr_price clearing) (executable_quantity clearing)
                                 policy allocation_quantum_lots (sell_fills plan) of
                            Inl e \<Rightarrow> (Inl e, plan)
                          | Inr sells \<Rightarrow> (Inr (), plan\<lparr>sell_fills := sells, plan_clearing := clearing\<rparr>)))"

section \<open>The multiply-divide\<close>

lemma modular_double_exact:
  assumes "v < d" "fits_u128 d"
  shows "modular_double v d = ((2 * v) mod d, (2 * v) div d)"
proof (cases "d \<le> 2 * v")
  case True
  then have "(2 * v) div d = 1" "(2 * v) mod d = 2 * v - d"
    using assms(1) by (auto intro: div_nat_eqI simp: le_mod_geq)
  moreover have "u128_sub d v = d - v" "u128_sub v (d - v) = v - (d - v)"
    using True assms(1) u128_sub_exact [of v d] u128_sub_exact [of "d - v" v] assms(2)
      fits_u128_mono [OF assms(2), of v] by simp_all
  ultimately show ?thesis
    using True assms(1) by (simp add: modular_double_def Let_def mult_2)
next
  case False
  moreover have "u128_sub d v = d - v" "u128_add v v = v + v"
    using False assms(1) u128_sub_exact [of v d] u128_add_exact [of v v] assms(2)
      fits_u128_mono [OF assms(2), of "v + v"] by simp_all
  ultimately show ?thesis
    using assms(1) by (simp add: modular_double_def Let_def mult_2)
qed

lemma modular_add_exact:
  assumes "l < d" "r < d" "fits_u128 d"
  shows "modular_add l r d = ((l + r) mod d, (l + r) div d)"
proof (cases "d \<le> l + r")
  case True
  then have "(l + r) div d = 1" "(l + r) mod d = l + r - d"
    using assms(1,2) by (auto intro: div_nat_eqI simp: le_mod_geq)
  moreover have "u128_sub d r = d - r" "u128_sub l (d - r) = l - (d - r)"
    using True assms(1,2) u128_sub_exact [of r d] u128_sub_exact [of "d - r" l] assms(3)
      fits_u128_mono [OF assms(3), of l] by simp_all
  ultimately show ?thesis
    using True assms(1,2) by (simp add: modular_add_def Let_def)
next
  case False
  then have less: "\<not> d - r \<le> l" "l + r < d" by simp_all
  have "u128_sub d r = d - r"
    using assms(2,3) by (intro u128_sub_exact) simp_all
  moreover have "u128_add l r = l + r"
    using less by (intro u128_add_exact fits_u128_mono [OF assms(3)]) simp
  ultimately show ?thesis
    using less by (simp add: modular_add_def Let_def del: not_le)
qed

lemma div_mod_shift:
  fixes d :: nat
  assumes "x = y * d + r" "0 < d"
  shows "x div d = y + r div d" "x mod d = r mod d"
  unfolding assms(1) using assms(2) by simp_all

lemma mul_div_loop_exact:
  assumes "m < d" "fits_u128 d" "fits_u64 f"
    and "q = (f div 2 ^ k * m) div d" "r = (f div 2 ^ k * m) mod d"
  shows "mul_div_loop k f m d q r = Some (f * m div d)"
  using assms(4,5)
proof (induction k arbitrary: q r)
  case (Suc k)
  define P where "P = f div 2 ^ Suc k"
  define P' where "P' = f div 2 ^ k"
  have P': "P' = 2 * P + of_bool (bit f k)"
    unfolding P_def P'_def power_Suc2 div_mult2_eq bit_iff_odd
    by (cases "odd (f div 2 ^ k)") (auto elim!: oddE evenE)
  have d: "0 < d" using assms(1) by simp
  have r: "r < d" using assms(1) Suc.prems by simp
  have Pm: "P * m = q * d + r"
    using Suc.prems by (simp add: P_def)
  have le: "x * m div d \<le> x" for x
    using assms(1) div_le_mono [of "x * m" "x * d" d] by simp
  have fits: "fits_u64 (P' * m div d)"
    using le [of P'] assms(3) unfolding P'_def
    by (meson fits_u64_mono div_le_dividend order_trans)
  show ?case
  proof (cases "bit f k")
    case False
    have e: "P' * m = 2 * q * d + 2 * r" using P' False Pm by (simp add: algebra_simps)
    note new = div_mod_shift [OF e d]
    have "fits_u64 (q * 2)" "fits_u64 (q * 2 + 2 * r div d)"
      using fits new(1) by (auto simp: mult.commute intro: fits_u64_mono)
    then show ?thesis
      using False new Suc.IH [of "q * 2 + 2 * r div d" "2 * r mod d"]
      by (simp add: modular_double_exact [OF r assms(2)] P'_def mult.commute)
  next
    case True
    define a c where "a = 2 * r mod d" and "c = 2 * r div d"
    define a' c' where "a' = (a + m) mod d" and "c' = (a + m) div d"
    have a: "a < d" using assms(1) by (simp add: a_def)
    have steps: "modular_double r d = (a, c)" "modular_add a m d = (a', c')"
      using modular_double_exact [OF r assms(2)] modular_add_exact [OF a assms(1,2)]
      by (simp_all add: a_def c_def a'_def c'_def)
    have "P' * m = 2 * q * d + 2 * r + m" using P' True Pm by (simp add: algebra_simps)
    also have "2 * r = c * d + a" by (simp add: a_def c_def)
    finally have e: "P' * m = (2 * q + c) * d + (a + m)" by (simp add: algebra_simps)
    have new: "f div 2 ^ k * m div d = q * 2 + (c + c')" "f div 2 ^ k * m mod d = a'"
      using div_mod_shift [OF e d] by (simp_all add: a'_def c'_def P'_def)
    have "fits_u64 (q * 2)" "fits_u64 (q * 2 + (c + c'))"
      using fits new(1) by (auto simp: P'_def intro: fits_u64_mono)
    then show ?thesis
      using True Suc.IH [OF new [symmetric]] by (simp add: steps)
  qed
qed simp

lemma exact_mul_div:
  "m < d \<Longrightarrow> fits_u128 d \<Longrightarrow> fits_u64 f \<Longrightarrow> exact_mul_div_floor f m d = Some (f * m div d)"
  by (auto simp: exact_mul_div_floor_def fits_u64_def intro!: mul_div_loop_exact)

text \<open>
  C40. The fixed-width multiply-divide returns the floor of the exact quotient for every factor and every
  proper fraction, although the product may need 192 bits, and refuses exactly a zero divisor and an
  improper fraction.
\<close>

theorem exact_mul_div_floor_correct:
  assumes "fits_u64 factor" "fits_u128 divisor"
  shows "exact_mul_div_floor factor multiplier divisor =
    (if multiplier < divisor then Some (factor * multiplier div divisor) else None)"
proof (cases "multiplier < divisor")
  case False
  then show ?thesis
    by (auto simp: exact_mul_div_floor_def)
qed (simp add: exact_mul_div assms)

theorem exact_mul_div_floor_correct_witness:
  "exact_mul_div_floor (2 ^ 64 - 1) (2 ^ 127) (2 ^ 127 + 1) = Some (2 ^ 64 - 2)"
  using exact_mul_div_floor_correct [of "2 ^ 64 - 1" "2 ^ 127 + 1" "2 ^ 127"]
  by (simp add: width_defs)

section \<open>Canonical sides\<close>

lemmas order_cases = AuctionOrderConstraint.split Side.split

lemma precedes_trans: "precedes a b side \<Longrightarrow> precedes b c side \<Longrightarrow> precedes a c side"
  by (auto simp: precedes_def compare_order_priority_def split: AuctionOrderConstraint.splits Side.splits if_splits)

lemma precedes_asym: "precedes a b side \<Longrightarrow> \<not> precedes b a side"
  by (auto simp: precedes_def compare_order_priority_def split: AuctionOrderConstraint.splits Side.splits if_splits)

lemma precedes_eligible: "precedes a b side \<Longrightarrow> is_eligible b side p \<Longrightarrow> is_eligible a side p"
  by (auto simp: precedes_def compare_order_priority_def is_eligible_def
      split: AuctionOrderConstraint.splits Side.splits if_splits)

lemma same_tier_eligible: "same_allocation_tier a b \<Longrightarrow> is_eligible a side p = is_eligible b side p"
  by (simp add: same_allocation_tier_def is_eligible_def)

lemma same_tier_refl [simp]: "same_allocation_tier a a"
  by (simp add: same_allocation_tier_def)

lemma same_tier_sym: "same_allocation_tier a b \<longleftrightarrow> same_allocation_tier b a"
  by (auto simp: same_allocation_tier_def)

lemma same_tier_trans: "same_allocation_tier a b \<Longrightarrow> same_allocation_tier a c \<longleftrightarrow> same_allocation_tier b c"
  by (auto simp: same_allocation_tier_def)

lemma same_tier_between:
  "precedes a b side \<Longrightarrow> precedes b c side \<Longrightarrow> same_allocation_tier a c \<Longrightarrow> same_allocation_tier a b"
  by (auto simp: precedes_def compare_order_priority_def same_allocation_tier_def priority_key_def
      split: AuctionOrderConstraint.splits Side.splits if_splits)

definition orders_canonical :: "AuctionOrder list \<Rightarrow> Side \<Rightarrow> bool" where
  "orders_canonical orders side \<longleftrightarrow> sorted_wrt (\<lambda>a b. precedes a b side) orders"

definition orders_wf :: "AuctionOrder list \<Rightarrow> bool" where
  "orders_wf orders \<longleftrightarrow> (\<forall>order \<in> set orders. 0 < order_quantity order \<and> fits_u64 (order_quantity order)) \<and>
     fits_usize (length orders)"

lemma canonical_precedes:
  "orders_canonical orders side \<Longrightarrow> i < j \<Longrightarrow> j < length orders \<Longrightarrow> precedes (orders ! i) (orders ! j) side"
  by (simp add: orders_canonical_def sorted_wrt_iff_nth_less)

lemma canonical_eligible:
  "orders_canonical orders side \<Longrightarrow> i \<le> j \<Longrightarrow> j < length orders \<Longrightarrow> is_eligible (orders ! j) side p
     \<Longrightarrow> is_eligible (orders ! i) side p"
  using precedes_eligible [OF canonical_precedes [of orders side i j]] by (cases "i = j") auto

text \<open>The quantity of the orders that precede position \<open>i\<close>, and the eligible quantity of a side.\<close>

definition quantity_before :: "AuctionOrder list \<Rightarrow> nat \<Rightarrow> nat" where
  "quantity_before orders i = sum_list (map order_quantity (take i orders))"

definition eligible_total :: "AuctionOrder list \<Rightarrow> Side \<Rightarrow> Price \<Rightarrow> nat" where
  "eligible_total orders side p = sum_list (map order_quantity (filter (\<lambda>order. is_eligible order side p) orders))"

lemma quantity_before_Suc:
  "i < length orders \<Longrightarrow> quantity_before orders (Suc i) = quantity_before orders i + order_quantity (orders ! i)"
  by (simp add: quantity_before_def sum_list_take_Suc)

lemma quantity_before_0 [simp]: "quantity_before orders 0 = 0"
  by (simp add: quantity_before_def)

lemma quantity_before_slice:
  "i \<le> e \<Longrightarrow> quantity_before orders e =
     quantity_before orders i + sum_list (map order_quantity (take (e - i) (drop i orders)))"
  using take_add [of i "e - i" orders] by (simp add: quantity_before_def)

lemma quantity_before_mono: "i \<le> j \<Longrightarrow> quantity_before orders i \<le> quantity_before orders j"
  by (simp add: quantity_before_slice)

lemma eligible_prefix:
  assumes "orders_canonical orders side"
  obtains m where "m \<le> length orders" "\<And>i. i < length orders \<Longrightarrow> is_eligible (orders ! i) side p \<longleftrightarrow> i < m"
    "eligible_total orders side p = quantity_before orders m"
proof -
  define m where "m = length (takeWhile (\<lambda>order. is_eligible order side p) orders)"
  have m: "m \<le> length orders" by (simp add: m_def length_takeWhile_le)
  have iff: "is_eligible (orders ! i) side p \<longleftrightarrow> i < m" if "i < length orders" for i
  proof (cases "i < m")
    case True
    then show ?thesis using nth_length_takeWhile set_takeWhileD takeWhile_nth unfolding m_def
      by (metis nth_mem)
  next
    case False
    then have "m < length orders" using that by simp
    then have "\<not> is_eligible (orders ! m) side p"
      using nth_length_takeWhile [of "\<lambda>order. is_eligible order side p" orders] by (simp add: m_def)
    then show ?thesis
      using False canonical_eligible [OF assms, of m i] that by auto
  qed
  have "filter (\<lambda>order. is_eligible order side p) orders = take m orders"
    using m iff by (intro filter_eq_take) auto
  then show ?thesis
    using that m iff by (simp add: eligible_total_def quantity_before_def)
qed

lemma validate_orders_from_Inr:
  assumes "validate_orders_from orders side g p i previous e = Inr n"
  shows "(\<forall>order \<in> set orders. \<not> limit_off_grid g order)" (is ?grid)
    and "sorted_wrt (\<lambda>a b. precedes a b side) (case previous of None \<Rightarrow> orders | Some order \<Rightarrow> order # orders)" (is ?sorted)
    and "n = e + eligible_total orders side p" (is ?sum)
    and "fits_u128 e \<Longrightarrow> fits_u128 n" (is "_ \<Longrightarrow> ?fits")
proof -
  have "?grid \<and> ?sorted \<and> ?sum \<and> (fits_u128 e \<longrightarrow> ?fits)"
    using assms
  proof (induction orders arbitrary: i previous e)
    case (Cons order orders)
    define e' where "e' = (if is_eligible order side p then e + order_quantity order else e)"
    have rest: "validate_orders_from orders side g p (Suc i) (Some order) e' = Inr n"
      and head: "\<not> limit_off_grid g order" "\<And>x. previous = Some x \<Longrightarrow> precedes x order side"
      "fits_u128 e \<Longrightarrow> fits_u128 e'"
      using Cons.prems by (auto simp: e'_def result_simps split: if_splits option.splits)
    have sorted: "sorted_wrt (\<lambda>a b. precedes a b side) (order # orders)"
      and sum: "n = e' + eligible_total orders side p"
      using Cons.IH [OF rest] by auto
    have "precedes x y side" if "previous = Some x" "y \<in> set orders" for x y
      using precedes_trans [OF head(2) [OF that(1)]] sorted that(2) by auto
    then show ?case
      using Cons.IH [OF rest] head sorted sum
      by (auto simp: eligible_total_def e'_def split: option.splits)
  qed (auto simp: eligible_total_def split: option.splits)
  then show ?grid ?sorted ?sum "fits_u128 e \<Longrightarrow> ?fits" by blast+
qed

lemma validate_orders_Inr:
  assumes "validate_allocation_orders orders side g p = Inr n"
  shows "orders_canonical orders side" "n = eligible_total orders side p" "fits_u128 n"
  using validate_orders_from_Inr [OF assms [unfolded validate_allocation_orders_def]]
  by (auto simp: orders_canonical_def width_defs)

section \<open>Shares and their fills\<close>

definition fill_of :: "AuctionOrder list \<Rightarrow> nat \<times> nat \<Rightarrow> AuctionOrderFill" where
  "fill_of orders = (\<lambda>(i, lots). \<lparr>source_index = i, fill_order_id = auction_order_id (orders ! i),
     fill_quantity_lots = lots\<rparr>)"

text \<open>The positive shares of the positions \<open>a \<dots> b - 1\<close>.\<close>

definition entries :: "(nat \<Rightarrow> nat) \<Rightarrow> nat \<Rightarrow> nat \<Rightarrow> (nat \<times> nat) list" where
  "entries share a b = map (\<lambda>i. (i, share i)) (filter (\<lambda>i. share i \<noteq> 0) [a..<b])"

definition fills_of :: "AuctionOrder list \<Rightarrow> (nat \<Rightarrow> nat) \<Rightarrow> AuctionOrderFill list" where
  "fills_of orders share = map (fill_of orders) (entries share 0 (length orders))"

lemma entries_split: "a \<le> c \<Longrightarrow> c \<le> b \<Longrightarrow> entries share a b = entries share a c @ entries share c b"
  using upt_add_eq_append [of a c "b - c"] by (simp add: entries_def)

lemma entries_Cons:
  "a < b \<Longrightarrow> entries share a b = (if share a \<noteq> 0 then (a, share a) # entries share (Suc a) b else entries share (Suc a) b)"
  by (simp add: entries_def upt_conv_Cons)

lemma entries_empty: "(\<And>i. a \<le> i \<Longrightarrow> i < b \<Longrightarrow> share i = 0) \<Longrightarrow> entries share a b = []"
  by (auto simp: entries_def filter_empty_conv)

lemma entries_same [simp]: "entries share a a = []"
  by (simp add: entries_def)

lemma entries_cong: "(\<And>i. a \<le> i \<Longrightarrow> i < b \<Longrightarrow> f i = g i) \<Longrightarrow> entries f a b = entries g a b"
  by (auto simp: entries_def intro!: map_cong filter_cong)

lemma length_entries: "length (entries share a b) \<le> b - a"
  unfolding entries_def length_map by (rule order_trans [OF length_filter_le]) simp

text \<open>
  Price-time: an eligible order receives its quantity or what the orders before it leave of the
  executable quantity.
\<close>

definition price_time_share :: "AuctionOrder list \<Rightarrow> Side \<Rightarrow> Price \<Rightarrow> nat \<Rightarrow> nat \<Rightarrow> nat" where
  "price_time_share orders side p executable i =
     (if is_eligible (orders ! i) side p
      then min (order_quantity (orders ! i)) (executable - quantity_before orders i) else 0)"

lemma append_fills_from_shares:
  assumes "orders_wf orders" "orders_canonical orders side" "i \<le> length orders" "quantity_before orders i \<le> E"
  shows "append_fills_from i (drop i orders) side p (E - quantity_before orders i) fills =
      Inr (E - min E (max (eligible_total orders side p) (quantity_before orders i)),
        fills @ map (fill_of orders) (entries (price_time_share orders side p E) i (length orders)))"
    and "required_fill_count (drop i orders) side p (E - quantity_before orders i) =
      length (entries (price_time_share orders side p E) i (length orders))"
proof -
  obtain m where m: "m \<le> length orders" "\<And>i. i < length orders \<Longrightarrow> is_eligible (orders ! i) side p \<longleftrightarrow> i < m"
    "eligible_total orders side p = quantity_before orders m"
    using eligible_prefix [OF assms(2)] by blast
  have stop: "entries (price_time_share orders side p E) i (length orders) = []"
    if "i \<ge> m \<or> E \<le> quantity_before orders i" for i
    using that m(2) quantity_before_mono [of i _ orders]
    by (intro entries_empty) (fastforce simp: price_time_share_def)
  have total: "min E (max (quantity_before orders m) (quantity_before orders i)) = quantity_before orders i"
    if "m \<le> i" "quantity_before orders i \<le> E" for i
    using quantity_before_mono [OF that(1), of orders] that(2) by simp
  have "append_fills_from i (drop i orders) side p (E - quantity_before orders i) fills =
      Inr (E - min E (max (eligible_total orders side p) (quantity_before orders i)),
        fills @ map (fill_of orders) (entries (price_time_share orders side p E) i (length orders))) \<and>
    required_fill_count (drop i orders) side p (E - quantity_before orders i) =
      length (entries (price_time_share orders side p E) i (length orders))"
    using assms(3,4)
  proof (induction "length orders - i" arbitrary: i fills)
    case 0
    then show ?case using m(1) total [of i] by (simp add: m(3) entries_empty)
  next
    case (Suc k)
    then have i: "i < length orders" by simp
    let ?q = "order_quantity (orders ! i)" and ?rem = "E - quantity_before orders i"
    have q: "0 < ?q" "fits_u64 ?q" using assms(1) i by (auto simp: orders_wf_def)
    note step = Cons_nth_drop_Suc [OF i, symmetric] quantity_before_Suc [OF i]
    show ?case
    proof (cases "?rem = 0 \<or> \<not> i < m")
      case True
      then have "E - min E (max (eligible_total orders side p) (quantity_before orders i)) = ?rem"
        using total [of i] Suc.prems by (auto simp: m(3))
      then show ?thesis
        using True stop [of i] m(2) [OF i] i by (auto simp: step(1))
    next
      case False
      then have elig: "is_eligible (orders ! i) side p" and pos: "?rem \<noteq> 0" using m(2) i by auto
      have share: "price_time_share orders side p E i = min ?q ?rem"
        by (simp add: price_time_share_def elig)
      have le: "quantity_before orders i \<le> quantity_before orders m"
        using False by (intro quantity_before_mono) simp
      show ?thesis
      proof (cases "?q \<le> ?rem")
        case True
        have "quantity_before orders (Suc i) \<le> quantity_before orders m"
          using False by (intro quantity_before_mono) simp
        then show ?thesis
          using True q elig pos i Suc.hyps(2) Suc.prems share le
            Suc.hyps(1) [of "Suc i" "fills @ [fill_of orders (i, ?q)]"]
          by (simp add: step entries_Cons fill_of_def m(3) min_absorb1 min_absorb2 max_absorb1 diff_diff_eq)
      next
        case False
        have "E \<le> quantity_before orders (Suc i)" using False by (simp add: step)
        moreover have "quantity_before orders (Suc i) \<le> quantity_before orders m"
          using \<open>\<not> (?rem = 0 \<or> \<not> i < m)\<close> by (intro quantity_before_mono) simp
        moreover have "append_fills_from (Suc i) xs side p 0 f = Inr (0, f)"
          "required_fill_count xs side p 0 = 0" for xs f by (cases xs; simp)+
        moreover have "fits_u64 ?rem" using q(2) False by (auto intro: fits_u64_mono)
        ultimately show ?thesis
          using False q elig pos i share stop [of "Suc i"]
          by (simp add: step(1) entries_Cons fill_of_def m(3) min_absorb1 min_absorb2)
      qed
    qed
  qed
  then show "append_fills_from i (drop i orders) side p (E - quantity_before orders i) fills =
      Inr (E - min E (max (eligible_total orders side p) (quantity_before orders i)),
        fills @ map (fill_of orders) (entries (price_time_share orders side p E) i (length orders)))"
    and "required_fill_count (drop i orders) side p (E - quantity_before orders i) =
      length (entries (price_time_share orders side p E) i (length orders))"
    by simp_all
qed

lemma append_fills_shares:
  assumes "orders_wf orders" "orders_canonical orders side" "E \<le> eligible_total orders side p"
  shows "append_fills orders side p E [] = Inr (fills_of orders (price_time_share orders side p E))"
    and "required_fill_count orders side p E = length (fills_of orders (price_time_share orders side p E))"
  using append_fills_from_shares [OF assms(1,2), of 0 E p] assms(3)
  by (simp_all add: append_fills_def fills_of_def)

text \<open>
  Pro-rata: the members of an order's tier, the quantity of the better tiers, and the share of the
  order: everything if the executable quantity covers its tier; otherwise the floor of its
  proportional part in quanta, plus one quantum for the first orders of the tier while quanta are left.
\<close>

definition tier_members :: "AuctionOrder list \<Rightarrow> nat \<Rightarrow> nat list" where
  "tier_members orders i =
     filter (\<lambda>j. same_allocation_tier (orders ! i) (orders ! j)) [0..<length orders]"

definition quantity_of :: "AuctionOrder list \<Rightarrow> nat list \<Rightarrow> nat" where
  "quantity_of orders positions = sum_list (map (\<lambda>j. order_quantity (orders ! j)) positions)"

definition ahead_of_tier :: "AuctionOrder list \<Rightarrow> nat \<Rightarrow> nat" where
  "ahead_of_tier orders i =
     quantity_of orders (filter (\<lambda>j. \<not> same_allocation_tier (orders ! i) (orders ! j)) [0..<i])"

definition marginal_share ::
    "AuctionOrder list \<Rightarrow> nat \<Rightarrow> nat \<Rightarrow> nat list \<Rightarrow> nat \<Rightarrow> nat"
where
  "marginal_share orders quantum left members i =
     (let quanta = (\<lambda>j. order_quantity (orders ! j) div quantum);
          base = (\<lambda>j. quanta j * (left div quantum) div (quantity_of orders members div quantum));
          residual = left div quantum - sum_list (map base members);
          rank = length (filter (\<lambda>j. j < i) members)
      in quantum * (base i + (if rank < residual then 1 else 0)))"

definition pro_rata_share :: "AuctionOrder list \<Rightarrow> Side \<Rightarrow> Price \<Rightarrow> nat \<Rightarrow> nat \<Rightarrow> nat \<Rightarrow> nat" where
  "pro_rata_share orders side p quantum executable i =
     (if is_eligible (orders ! i) side p
      then let members = tier_members orders i; left = executable - ahead_of_tier orders i
           in if quantity_of orders members \<le> left then order_quantity (orders ! i)
              else marginal_share orders quantum left members i
      else 0)"

definition tier_range :: "AuctionOrder list \<Rightarrow> nat \<Rightarrow> nat \<Rightarrow> bool" where
  "tier_range orders a b \<longleftrightarrow> a < b \<and> b \<le> length orders \<and>
     (\<forall>k. a \<le> k \<longrightarrow> k < b \<longrightarrow> same_allocation_tier (orders ! a) (orders ! k)) \<and>
     (a = 0 \<or> \<not> same_allocation_tier (orders ! (a - 1)) (orders ! a)) \<and>
     (b = length orders \<or> \<not> same_allocation_tier (orders ! a) (orders ! b))"

lemma filter_interval: "a \<le> b \<Longrightarrow> b \<le> n \<Longrightarrow> filter (\<lambda>k. a \<le> k \<and> k < b) [0..<n] = [a..<b]"
proof -
  assume ab: "a \<le> b" "b \<le> n"
  have "[0..<n] = [0..<a] @ [a..<b] @ [b..<n]"
    using ab upt_add_eq_append [of 0 a "n - a"] upt_add_eq_append [of a b "n - b"] by simp
  then show "filter (\<lambda>k. a \<le> k \<and> k < b) [0..<n] = [a..<b]"
    by (simp add: filter_empty_conv)
qed

lemma tier_range_same:
  assumes "orders_canonical orders side" "tier_range orders a b" "a \<le> i" "i < b" "j < length orders"
  shows "same_allocation_tier (orders ! i) (orders ! j) \<longleftrightarrow> a \<le> j \<and> j < b"
proof -
  note r = assms(2)[unfolded tier_range_def]
  have ai: "same_allocation_tier (orders ! a) (orders ! i)" using r assms(3,4) by simp
  have iff: "same_allocation_tier (orders ! i) (orders ! j) \<longleftrightarrow> same_allocation_tier (orders ! a) (orders ! j)"
    using same_tier_trans [OF ai] by blast
  consider "j < a" | "a \<le> j" "j < b" | "b \<le> j" by linarith
  then show ?thesis
  proof cases
    case 1
    have "\<not> same_allocation_tier (orders ! a) (orders ! j)"
    proof
      assume same: "same_allocation_tier (orders ! a) (orders ! j)"
      have "same_allocation_tier (orders ! (a - 1)) (orders ! a)"
      proof (cases "j = a - 1")
        case True
        then show ?thesis using same by (simp add: same_tier_sym)
      next
        case False
        then have "precedes (orders ! j) (orders ! (a - 1)) side" "precedes (orders ! (a - 1)) (orders ! a) side"
          using 1 r by (auto intro!: canonical_precedes [OF assms(1)])
        then have "same_allocation_tier (orders ! j) (orders ! (a - 1))"
          using same same_tier_between same_tier_sym by blast
        then show ?thesis using same same_tier_trans same_tier_sym by blast
      qed
      then show False using 1 r by simp
    qed
    then show ?thesis using 1 iff by simp
  next
    case 2
    then show ?thesis using r iff by simp
  next
    case 3
    have "\<not> same_allocation_tier (orders ! a) (orders ! j)"
    proof
      assume same: "same_allocation_tier (orders ! a) (orders ! j)"
      have "same_allocation_tier (orders ! a) (orders ! b)"
      proof (cases "j = b")
        case False
        then have "precedes (orders ! a) (orders ! b) side" "precedes (orders ! b) (orders ! j) side"
          using 3 r assms(5) by (auto intro!: canonical_precedes [OF assms(1)])
        then show ?thesis using same same_tier_between by blast
      qed (use same in simp)
      then show False using 3 r assms(5) by simp
    qed
    then show ?thesis using 3 iff by simp
  qed
qed

lemma quantity_of_upt: "b \<le> length orders \<Longrightarrow> a \<le> b \<Longrightarrow>
    quantity_before orders b = quantity_before orders a + quantity_of orders [a..<b]"
proof (induction b)
  case (Suc b)
  then show ?case
    by (cases "a = Suc b") (auto simp: quantity_of_def quantity_before_Suc)
qed (simp add: quantity_of_def)

lemma tier_range_facts:
  assumes "orders_canonical orders side" "tier_range orders a b" "a \<le> i" "i < b"
  shows "tier_members orders i = [a..<b]" "ahead_of_tier orders i = quantity_before orders a"
    "length (filter (\<lambda>j. j < i) [a..<b]) = i - a"
proof -
  have b: "b \<le> length orders" using assms(2) by (simp add: tier_range_def)
  have "tier_members orders i = filter (\<lambda>k. a \<le> k \<and> k < b) [0..<length orders]"
    unfolding tier_members_def by (rule filter_cong) (auto simp: tier_range_same [OF assms])
  then show "tier_members orders i = [a..<b]"
    using filter_interval [of a b "length orders"] b assms(3,4) by simp
  have "filter (\<lambda>j. \<not> same_allocation_tier (orders ! i) (orders ! j)) [0..<i] = filter (\<lambda>k. 0 \<le> k \<and> k < a) [0..<i]"
    using b assms(4) by (intro filter_cong) (auto simp: tier_range_same [OF assms])
  then have "ahead_of_tier orders i = quantity_of orders [0..<a]"
    using filter_interval [of 0 a i] assms(3) by (simp add: ahead_of_tier_def)
  then show "ahead_of_tier orders i = quantity_before orders a"
    using quantity_of_upt [of a orders 0] b assms(3,4) by simp
  have "filter (\<lambda>j. j < i) [a..<b] = [a..<i]"
    using assms(3,4) upt_add_eq_append [of a i "b - i"] by (simp add: filter_empty_conv)
  then show "length (filter (\<lambda>j. j < i) [a..<b]) = i - a" by simp
qed

lemma tier_share:
  assumes "orders_canonical orders side" "tier_range orders a b" "a \<le> i" "i < b" "is_eligible (orders ! i) side p"
  shows "pro_rata_share orders side p quantum E i =
     (if quantity_of orders [a..<b] \<le> E - quantity_before orders a then order_quantity (orders ! i)
      else marginal_share orders quantum (E - quantity_before orders a) [a..<b] i)"
  using assms(5) by (simp add: pro_rata_share_def tier_range_facts [OF assms(1-4)])

lemma tier_range_exists:
  assumes "orders_canonical orders side" "i < length orders"
  obtains a b where "tier_range orders a b" "a \<le> i" "i < b"
proof -
  define a where "a = (LEAST k. same_allocation_tier (orders ! i) (orders ! k))"
  define b where "b = (LEAST k. i < k \<and> (k = length orders \<or> \<not> same_allocation_tier (orders ! i) (orders ! k)))"
  have a: "same_allocation_tier (orders ! i) (orders ! a)" "a \<le> i"
    unfolding a_def by (rule LeastI [of _ i], simp) (rule Least_le, simp)
  have before: "\<not> same_allocation_tier (orders ! i) (orders ! k)" if "k < a" for k
    using not_less_Least that unfolding a_def by blast
  have b': "i < b \<and> (b = length orders \<or> \<not> same_allocation_tier (orders ! i) (orders ! b))"
    unfolding b_def by (rule LeastI [of _ "length orders"]) (simp add: assms(2))
  moreover have "b \<le> length orders"
    unfolding b_def by (rule Least_le) (simp add: assms(2))
  ultimately have b: "i < b" "b = length orders \<or> \<not> same_allocation_tier (orders ! i) (orders ! b)" "b \<le> length orders"
    by blast+
  have within: "k \<noteq> length orders \<and> same_allocation_tier (orders ! i) (orders ! k)" if "i < k" "k < b" for k
    using not_less_Least [OF that(2) [unfolded b_def]] that(1) by blast
  have "same_allocation_tier (orders ! i) (orders ! k)" if "a \<le> k" "k < b" for k
  proof (cases "k \<le> i")
    case False
    then show ?thesis using within that by simp
  next
    case True
    show ?thesis
    proof (cases "k = i \<or> k = a")
      case False
      then have "precedes (orders ! a) (orders ! k) side" "precedes (orders ! k) (orders ! i) side"
        using True that assms(2) by (auto intro!: canonical_precedes [OF assms(1)])
      then have "same_allocation_tier (orders ! a) (orders ! k)"
        using same_tier_between a(1) same_tier_sym by blast
      then show ?thesis using a(1) same_tier_trans same_tier_sym by blast
    qed (use a in auto)
  qed
  then have "tier_range orders a b"
    using a b before [of "a - 1"] same_tier_trans [OF a(1)] same_tier_sym unfolding tier_range_def
    by (metis diff_less less_one not_gr_zero order_le_less_trans)
  then show ?thesis using that a b by blast
qed

text \<open>The floors of the proportional parts leave less than one quantum per member.\<close>

lemma floor_sum:
  fixes c :: "nat \<Rightarrow> nat"
  assumes "T = sum_list (map c xs)" "0 < T"
  shows "sum_list (map (\<lambda>j. c j * R div T) xs) \<le> R"
    and "R < sum_list (map (\<lambda>j. c j * R div T) xs) + length xs"
proof -
  let ?base = "sum_list (map (\<lambda>j. c j * R div T) xs)"
  have "sum_list (map (\<lambda>j. c j * R) ys) \<le> T * sum_list (map (\<lambda>j. c j * R div T) ys) + length ys * (T - 1) \<and>
      T * sum_list (map (\<lambda>j. c j * R div T) ys) \<le> sum_list (map (\<lambda>j. c j * R) ys)" for ys
  proof (induction ys)
    case (Cons y ys)
    have "c y * R = T * (c y * R div T) + c y * R mod T" by simp
    moreover have "c y * R mod T \<le> T - 1" using assms(2) mod_less_divisor [of T "c y * R"] by linarith
    moreover have "length (y # ys) * (T - 1) = length ys * (T - 1) + (T - 1)" by simp
    ultimately show ?case
      using Cons.IH unfolding list.map sum_list.Cons distrib_left by (intro conjI; linarith)
  qed simp
  then have b: "sum_list (map (\<lambda>j. c j * R) xs) \<le> T * ?base + length xs * (T - 1)"
    "T * ?base \<le> sum_list (map (\<lambda>j. c j * R) xs)" by blast+
  have t: "sum_list (map (\<lambda>j. c j * R) xs) = T * R"
    by (simp add: assms(1) sum_list_mult_const)
  show "?base \<le> R" using b(2) assms(2) by (simp add: t)
  have "xs \<noteq> []" using assms by auto
  then have "length xs * (T - 1) < length xs * T" using assms(2) by simp
  then have "T * R < T * ?base + T * length xs"
    using b(1) unfolding t mult.commute [of "length xs" T] by linarith
  then show "R < ?base + length xs" by (simp only: distrib_left [symmetric] mult_less_cancel1)
qed

lemma sum_div_quantum:
  assumes "\<And>j. j \<in> set xs \<Longrightarrow> quantum dvd f j"
  shows "sum_list (map (\<lambda>j. f j div quantum) xs) = sum_list (map f xs) div quantum"
    and "quantum dvd sum_list (map (f :: nat \<Rightarrow> nat) xs)"
  using assms by (induction xs) (auto simp: div_plus_div_distrib_dvd_left)

section \<open>The pro-rata walk\<close>

definition run :: "(nat \<Rightarrow> AuctionOrder \<Rightarrow> nat \<Rightarrow> 's \<Rightarrow> 's) \<Rightarrow> AuctionOrder list \<Rightarrow> (nat \<times> nat) list \<Rightarrow> 's \<Rightarrow> 's" where
  "run upd orders xs s = fold (\<lambda>(i, lots). upd i (orders ! i) lots) xs s"

lemma run_simps [simp]:
  "run upd orders [] s = s"
  "run upd orders ((i, lots) # xs) s = run upd orders xs (upd i (orders ! i) lots s)"
  "run upd orders (xs @ ys) s = run upd orders ys (run upd orders xs s)"
  by (simp_all add: run_def)

lemma slice_Cons:
  assumes "i < b" "b \<le> length xs"
  shows "take (b - i) (drop i xs) = xs ! i # take (b - Suc i) (drop (Suc i) xs)"
  using assms by (simp add: Cons_nth_drop_Suc [symmetric] Suc_diff_le take_Cons' )

lemma tier_total_slice:
  assumes "i \<le> b" "b \<le> length orders" "fits_u128 (n + quantity_of orders [i..<b])"
  shows "tier_total side (take (b - i) (drop i orders)) n = Inr (n + quantity_of orders [i..<b])"
  using assms
proof (induction "b - i" arbitrary: i n)
  case (Suc k)
  then have i: "i < b" by simp
  then show ?case
    using Suc.prems Suc.hyps(1) [of "Suc i" "n + order_quantity (orders ! i)"] Suc.hyps(2) fits_u128_mono
    by (simp add: slice_Cons upt_conv_Cons quantity_of_def add.assoc)
qed (simp add: quantity_of_def)

lemma allocate_base_slice:
  assumes "orders_wf orders" "R < T" "fits_u128 T" "i \<le> b" "b \<le> length orders"
    and "fits_u128 (n + sum_list (map (\<lambda>j. order_quantity (orders ! j) div quantum * R div T) [i..<b]))"
  shows "allocate_base side quantum R T (take (b - i) (drop i orders)) n =
    Inr (n + sum_list (map (\<lambda>j. order_quantity (orders ! j) div quantum * R div T) [i..<b]))"
  using assms(4-)
proof (induction "b - i" arbitrary: i n)
  case (Suc k)
  then have i: "i < b" by simp
  have "fits_u64 (order_quantity (orders ! i))"
    using assms(1) Suc.prems i by (auto simp: orders_wf_def)
  then have "exact_mul_div_floor (order_quantity (orders ! i) div quantum) R T =
      Some (order_quantity (orders ! i) div quantum * R div T)"
    by (intro exact_mul_div [OF assms(2,3)] fits_u64_mono [OF _ div_le_dividend])
  then show ?case
    using i Suc.prems Suc.hyps(1) [of "Suc i" "n + order_quantity (orders ! i) div quantum * R div T"] Suc.hyps(2)
      fits_u128_mono
    by (simp add: slice_Cons upt_conv_Cons add.assoc)
qed simp

text \<open>Where a tier starts, and what the walk has left to give from there on.\<close>

definition tier_start :: "AuctionOrder list \<Rightarrow> nat \<Rightarrow> bool" where
  "tier_start orders i \<longleftrightarrow> i = 0 \<or> length orders \<le> i \<or> \<not> same_allocation_tier (orders ! (i - 1)) (orders ! i)"

lemma range_end_start:
  assumes "tier_range orders a b"
  shows "tier_start orders b"
proof (cases "b = length orders")
  case False
  have "same_allocation_tier (orders ! a) (orders ! (b - 1))" "\<not> same_allocation_tier (orders ! a) (orders ! b)"
    using assms False by (auto simp: tier_range_def)
  then show ?thesis
    using same_tier_trans by (auto simp: tier_start_def)
qed (simp add: tier_start_def)

lemma share_exhausted:
  assumes "orders_wf orders" "orders_canonical orders side" "tier_start orders i" "E \<le> quantity_before orders i"
  shows "entries (pro_rata_share orders side p quantum E) i (length orders) = []"
proof (rule entries_empty)
  fix j assume j: "i \<le> j" "j < length orders"
  obtain a b where r: "tier_range orders a b" "a \<le> j" "j < b"
    using tier_range_exists [OF assms(2) j(2)] by blast
  have "i \<le> a"
  proof (rule ccontr)
    assume "\<not> i \<le> a"
    then have "same_allocation_tier (orders ! a) (orders ! (i - 1))" "same_allocation_tier (orders ! a) (orders ! i)"
      using r j by (auto simp: tier_range_def)
    then have "same_allocation_tier (orders ! (i - 1)) (orders ! i)"
      using same_tier_trans by blast
    then show False using assms(3) j \<open>\<not> i \<le> a\<close> by (simp add: tier_start_def)
  qed
  then have left: "E - quantity_before orders a = 0"
    using assms(4) quantity_before_mono [of i a orders] by simp
  have "order_quantity (orders ! j) \<le> quantity_of orders [a..<b]"
    using r unfolding quantity_of_def by (intro member_le_sum_list) auto
  moreover have "0 < order_quantity (orders ! j)" using assms(1) j by (auto simp: orders_wf_def)
  ultimately show "pro_rata_share orders side p quantum E j = 0"
    using tier_share [OF assms(2) r, of p quantum E]
    by (cases "is_eligible (orders ! j) side p") (auto simp: pro_rata_share_def left marginal_share_def Let_def)
qed

lemma quantum_before:
  assumes "\<And>j. j < length orders \<Longrightarrow> quantum dvd order_quantity (orders ! j)" "i \<le> length orders"
  shows "quantum dvd quantity_before orders i"
  using assms(2)
proof (induction i)
  case (Suc i)
  then show ?case using assms(1) by (simp add: quantity_before_Suc)
qed simp

lemma tier_end_from_spec:
  assumes "e = tier_end_from orders side p first i" "i \<le> length orders"
  shows "\<forall>k. i \<le> k \<longrightarrow> k < e \<longrightarrow> is_eligible (orders ! k) side p \<and> same_allocation_tier first (orders ! k)"
    and "e = length orders \<or> \<not> (is_eligible (orders ! e) side p \<and> same_allocation_tier first (orders ! e))"
proof -
  have "(\<forall>k. i \<le> k \<longrightarrow> k < e \<longrightarrow> is_eligible (orders ! k) side p \<and> same_allocation_tier first (orders ! k)) \<and>
    (e = length orders \<or> \<not> (is_eligible (orders ! e) side p \<and> same_allocation_tier first (orders ! e)))"
    using assms
  proof (induction orders side p first i rule: tier_end_from.induct)
    case (1 orders side p first i)
    show ?case
    proof (cases "i < length orders \<and> is_eligible (orders ! i) side p \<and> same_allocation_tier first (orders ! i)")
      case True
      then have "e = tier_end_from orders side p first (Suc i)"
        using 1(2) by (subst (asm) tier_end_from.simps) simp
      then show ?thesis
        using 1(1) [OF True] True by (metis Suc_leI le_antisym not_less_eq_eq)
    next
      case False
      then have "e = i" using 1(2) tier_end_from.simps [of orders side p first i] by (simp only: if_not_P if_False)
      then show ?thesis using False 1(3) by auto
    qed
  qed
  then show "\<forall>k. i \<le> k \<longrightarrow> k < e \<longrightarrow> is_eligible (orders ! k) side p \<and> same_allocation_tier first (orders ! k)"
    and "e = length orders \<or> \<not> (is_eligible (orders ! e) side p \<and> same_allocation_tier first (orders ! e))"
    by blast+
qed

lemma tier_end_range:
  assumes "m \<le> length orders" "\<And>i. i < length orders \<Longrightarrow> is_eligible (orders ! i) side p \<longleftrightarrow> i < m"
    and "i < m" "tier_start orders i"
  shows "tier_range orders i (tier_end_from orders side p (orders ! i) (i + 1))"
    and "tier_end_from orders side p (orders ! i) (i + 1) \<le> m"
proof -
  define e where "e = tier_end_from orders side p (orders ! i) (i + 1)"
  have i: "i + 1 \<le> length orders" using assms by simp
  note spec = tier_end_from_spec [OF e_def i]
  have e: "i + 1 \<le> e" "e \<le> length orders"
    using tier_end_from_ge tier_end_from_le [OF i] by (auto simp: e_def)
  have "\<not> same_allocation_tier (orders ! i) (orders ! e)" if "e < length orders"
    using spec(2) that assms(2) [of i] i assms(3) same_tier_eligible by auto
  moreover have "same_allocation_tier (orders ! i) (orders ! k)" if "i \<le> k" "k < e" for k
    using spec(1) that by (cases "k = i") auto
  ultimately show "tier_range orders i e"
    using e assms(4) i by (auto simp: tier_range_def tier_start_def)
  show "e \<le> m"
    using spec(1) [rule_format, of "e - 1"] e assms(2) [of "e - 1"] assms(3)
    by (cases "e = i + 1") (simp, simp, linarith)
qed

text \<open>Both uses of the walk pass an \<open>emit\<close> that never fails; then the walk runs over the shares.\<close>

locale pure_emit =
  fixes emit :: "nat \<Rightarrow> AuctionOrder \<Rightarrow> nat \<Rightarrow> 's \<Rightarrow> AuctionAllocationError + 's"
    and upd :: "nat \<Rightarrow> AuctionOrder \<Rightarrow> nat \<Rightarrow> 's \<Rightarrow> 's"
  assumes emit: "\<And>i order lots s. emit i order lots s = Inr (upd i order lots s)"
begin

lemma emit_full_run:
  assumes "orders_wf orders" "i \<le> b" "b \<le> length orders" "n \<le> i"
    and "\<And>j. i \<le> j \<Longrightarrow> j < b \<Longrightarrow> share j = order_quantity (orders ! j)"
  shows "emit_full emit side i (take (b - i) (drop i orders)) n s =
      Inr (n + length (entries share i b), run upd orders (entries share i b) s)"
  using assms(2-)
proof (induction "b - i" arbitrary: i n s)
  case (Suc k)
  then have i: "i < b" by simp
  then have "share i \<noteq> 0" using assms(1) Suc.prems by (auto simp: orders_wf_def)
  moreover have "fits_usize (n + 1)"
    using assms(1) Suc.prems i fits_u64_mono [of "length orders" "n + 1"] by (auto simp: orders_wf_def)
  ultimately show ?case
    using Suc.prems i Suc.hyps(1) [of "Suc i" "n + 1"] Suc.hyps(2)
    by (simp add: slice_Cons entries_Cons emit)
qed simp

lemma emit_marginal_run:
  assumes "orders_wf orders" "0 < quantum" "R < T" "fits_u128 T"
    and "\<And>j. j < length orders \<Longrightarrow> quantum dvd order_quantity (orders ! j)"
    and "i \<le> b" "b \<le> length orders" "n \<le> i" "r \<le> b - i"
    and "\<And>j. i \<le> j \<Longrightarrow> j < b \<Longrightarrow>
      share j = quantum * (order_quantity (orders ! j) div quantum * R div T + (if j < i + r then 1 else 0))"
  shows "emit_marginal emit side quantum R T i (take (b - i) (drop i orders)) r n s =
      Inr (0, n + length (entries share i b), run upd orders (entries share i b) s)"
  using assms(6-)
proof (induction "b - i" arbitrary: i n r s)
  case (Suc k)
  then have i: "i < b" by simp
  let ?q = "order_quantity (orders ! i) div quantum"
  let ?base = "?q * R div T"
  have q: "0 < order_quantity (orders ! i)" "fits_u64 (order_quantity (orders ! i))"
    using assms(1) Suc.prems i by (auto simp: orders_wf_def)
  have qd: "order_quantity (orders ! i) = quantum * ?q"
    using assms(5) [of i] Suc.prems i by simp
  then have q0: "0 < ?q" using q by (metis mult_0_right neq0_conv)
  have "?q * R < ?q * T" using q0 assms(3) by simp
  then have base: "?base < ?q" using assms(3) by (simp add: div_less_iff_less_mult)
  have fits: "fits_u64 x" if "x \<le> order_quantity (orders ! i)" for x
    using fits_u64_mono [OF q(2) that] .
  have small: "?base + 1 \<le> order_quantity (orders ! i)" "fits_u64 ?q"
    using base fits [of ?q] div_le_dividend [of "order_quantity (orders ! i)" quantum] by linarith+
  have quot: "exact_mul_div_floor ?q R T = Some ?base"
    by (rule exact_mul_div [OF assms(3,4) small(2)])
  have n: "fits_usize (n + 1)"
    using assms(1) Suc.prems i fits_u64_mono [of "length orders" "n + 1"] by (auto simp: orders_wf_def)
  have later: "share j = quantum * (order_quantity (orders ! j) div quantum * R div T + (if j < Suc i + (r - 1) then 1 else 0))"
    if "Suc i \<le> j" "j < b" for j
    using Suc.prems(5) [of j] that by (cases r) auto
  show ?case
  proof (cases r)
    case 0
    have share: "share i = quantum * ?base" using Suc.prems(5) [of i] i 0 by simp
    have "quantum * ?base \<le> order_quantity (orders ! i)"
      using mult_le_mono2 [of ?base ?q quantum] base qd by linarith
    then have f: "fits_u64 (?base * quantum)" by (simp add: fits mult.commute)
    show ?thesis
    proof (cases "?base = 0")
      case True
      then have "share i = 0" using share by simp
      then show ?thesis
        using 0 i Suc.prems Suc.hyps(1) [of "Suc i" n 0 s] Suc.hyps(2) later quot True
        by (simp add: slice_Cons entries_Cons)
    next
      case False
      then have "share i \<noteq> 0" using share assms(2) by simp
      then show ?thesis
        using 0 i Suc.prems Suc.hyps(1) [of "Suc i" "n + 1" 0 "upd i (orders ! i) (share i) s"] Suc.hyps(2) later quot
          False f n
        by (simp add: slice_Cons entries_Cons emit share mult.commute)
    qed
  next
    case (Suc r')
    have share: "share i = quantum * (?base + 1)" using Suc.prems(5) [of i] i Suc by simp
    have "quantum * (?base + 1) \<le> order_quantity (orders ! i)"
      using mult_le_mono2 [of "?base + 1" ?q quantum] base qd by linarith
    then have f: "fits_u64 ((?base + 1) * quantum)" by (metis fits mult.commute)
    have "share i \<noteq> 0" using share assms(2) by simp
    then show ?thesis
      using Suc i Suc.prems Suc.hyps(1) [of "Suc i" "n + 1" r' "upd i (orders ! i) (share i) s"]
        Suc.hyps(2) later quot base f n fits [OF small(1)]
      by (simp add: slice_Cons entries_Cons emit share mult.commute)
  qed
qed simp

lemma walk_tiers_run:
  assumes "orders_wf orders" "orders_canonical orders side" "0 < quantum" "quantum dvd E"
    and dvd: "\<And>j. j < length orders \<Longrightarrow> quantum dvd order_quantity (orders ! j)"
    and "E \<le> eligible_total orders side p" "fits_u128 (eligible_total orders side p)"
    and "i \<le> length orders" "tier_start orders i" "quantity_before orders i \<le> E" "n \<le> i"
  shows "walk_tiers emit orders side p quantum (E - quantity_before orders i) i n s =
      Inr (n + length (entries (pro_rata_share orders side p quantum E) i (length orders)),
        run upd orders (entries (pro_rata_share orders side p quantum E) i (length orders)) s)"
  using assms(8-)
proof (induction "length orders - i" arbitrary: i n s rule: less_induct)
  case less
  let ?share = "pro_rata_share orders side p quantum E" and ?rem = "E - quantity_before orders i"
  show ?case
  proof (cases "?rem = 0")
    case True
    then show ?thesis
      using share_exhausted [OF assms(1,2) less.prems(2)] less.prems by (subst walk_tiers.simps) simp
  next
    case False
    obtain m where m: "m \<le> length orders" "\<And>i. i < length orders \<Longrightarrow> is_eligible (orders ! i) side p \<longleftrightarrow> i < m"
      "eligible_total orders side p = quantity_before orders m"
      using eligible_prefix [OF assms(2)] by blast
    have im: "i < m"
      using False assms(6) m(3) quantity_before_mono [of m i orders] by (intro not_le_imp_less notI) simp
    define b where "b = tier_end_from orders side p (orders ! i) (i + 1)"
    define tier where "tier = take (b - i) (drop i orders)"
    define T where "T = quantity_of orders [i..<b]"
    have range: "tier_range orders i b" and bm: "b \<le> m"
      using tier_end_range [OF m(1,2) im less.prems(2)] by (simp_all add: b_def)
    have b: "i < b" "b \<le> length orders" using range by (simp_all add: tier_range_def)
    have Sb: "quantity_before orders b = quantity_before orders i + T"
      using quantity_of_upt [of b orders i] b by (simp add: T_def)
    have fitsT: "fits_u128 T"
      using fits_u128_mono [OF assms(7)] quantity_before_mono [OF bm, of orders] m(3) Sb by simp
    have total: "tier_total side tier 0 = Inr T"
      using tier_total_slice [of i b orders 0] b fitsT by (simp add: tier_def T_def)
    have elig: "is_eligible (orders ! j) side p" if "j < b" for j
      using m(2) that bm m(1) by simp
    have unfolded: "walk_tiers emit orders side p quantum ?rem i n s =
      (if T \<le> ?rem
       then and_then (emit_full emit side i tier n s) (\<lambda>(fill_count, s).
              walk_tiers emit orders side p quantum (?rem - T) b fill_count s)
       else if ?rem mod quantum \<noteq> 0 \<or> T mod quantum \<noteq> 0
       then Inl (InsufficientEligibleQuantity side)
       else and_then (allocate_base side quantum (?rem div quantum) (T div quantum) tier 0) (\<lambda>allocated_quanta.
            and_then (ok_or (checked_sub (?rem div quantum) allocated_quanta) (QuantityOverflow side)) (\<lambda>residual_quanta.
            and_then (emit_marginal emit side quantum (?rem div quantum) (T div quantum) i tier
                       residual_quanta n s) (\<lambda>(residual_quanta, fill_count, s).
              if residual_quanta \<noteq> 0 then Inl (InsufficientEligibleQuantity side)
              else Inr (fill_count, s)))))"
      using False elig b total
      by (subst walk_tiers.simps) (simp only: Let_def b_def [symmetric] tier_def [symmetric] not_le if_False
          if_True simp_thms and_then.simps less_le_trans [OF b(1) b(2)] if_not_P)
    show ?thesis
    proof (cases "T \<le> ?rem")
      case True
      have share: "?share j = order_quantity (orders ! j)" if "i \<le> j" "j < b" for j
        using tier_share [OF assms(2) range that elig] that True by (simp add: T_def)
      have "tier_start orders b"
        using range same_tier_trans [of "orders ! i" "orders ! (b - 1)"] unfolding tier_range_def tier_start_def
        by (metis One_nat_def Suc_pred diff_less less_Suc_eq_le less_imp_Suc_add less_nat_zero_code neq0_conv zero_less_Suc)
      then show ?thesis
        using True b less.prems Sb emit_full_run [OF assms(1) less_imp_le [OF b(1)] b(2) less.prems(4) share]
          less.hyps [of b "n + length (entries ?share i b)"] length_entries [of ?share i b]
          entries_split [of i b "length orders" ?share]
        by (simp add: unfolded tier_def diff_diff_eq)
    next
      case marginal: False
      let ?R = "?rem div quantum" and ?T = "T div quantum"
      let ?base = "\<lambda>j. order_quantity (orders ! j) div quantum * ?R div ?T"
      define residual where "residual = ?R - sum_list (map ?base [i..<b])"
      have T: "?T = sum_list (map (\<lambda>j. order_quantity (orders ! j) div quantum) [i..<b])" "quantum dvd T"
        using sum_div_quantum [of "[i..<b]" quantum "\<lambda>j. order_quantity (orders ! j)"] dvd b
        by (simp_all add: T_def quantity_of_def)
      have R: "quantum dvd ?rem"
        using quantum_before [OF dvd less.prems(1)] assms(4) by (simp add: dvd_diff_nat)
      obtain r t where rt: "?rem = quantum * r" "T = quantum * t" using R T(2) by (auto elim!: dvdE)
      have RT: "?R < ?T" using marginal rt assms(3) by simp
      note floors = floor_sum [OF T(1), of ?R]
      have base: "sum_list (map ?base [i..<b]) \<le> ?R" "residual \<le> b - i"
        using floors RT unfolding residual_def length_upt by linarith+
      have fits: "fits_u128 ?T" "fits_u128 (0 + sum_list (map ?base [i..<b]))"
        using base(1) RT div_le_dividend [of T quantum] by - (rule fits_u128_mono [OF fitsT], linarith)+
      have share: "?share j = quantum * (?base j + (if j < i + residual then 1 else 0))" if "i \<le> j" "j < b" for j
        using tier_share [OF assms(2) range that elig] that marginal tier_range_facts(3) [OF assms(2) range that]
        by (auto simp: T_def marginal_share_def Let_def residual_def)
      have "entries ?share b (length orders) = []"
        using share_exhausted [OF assms(1,2) range_end_start [OF range], of E p quantum] marginal Sb by simp
      then have split: "entries ?share i (length orders) = entries ?share i b"
        using entries_split [of i b "length orders" ?share] b by simp
      have "allocate_base side quantum ?R ?T tier 0 = Inr (sum_list (map ?base [i..<b]))"
        using allocate_base_slice [OF assms(1) RT fits(1) less_imp_le [OF b(1)] b(2) fits(2)] by (simp add: tier_def)
      moreover have "emit_marginal emit side quantum ?R ?T i tier residual n s =
          Inr (0, n + length (entries ?share i b), run upd orders (entries ?share i b) s)"
        unfolding tier_def
        by (rule emit_marginal_run [OF assms(1,3) RT fits(1) dvd less_imp_le [OF b(1)] b(2) less.prems(4) base(2)])
          (use share in auto)
      moreover have "ok_or (checked_sub ?R (sum_list (map ?base [i..<b]))) (QuantityOverflow side) = Inr residual"
        using base(1) by (simp add: residual_def ok_or_eq_Inr)
      ultimately show ?thesis
        using marginal R T(2) unfolding unfolded split by simp
    qed
  qed
qed

end

interpretation counting: pure_emit count_only "\<lambda>i order lots s. s"
  by unfold_locales (simp add: count_only_def)

interpretation pushing: pure_emit push_fill
  "\<lambda>i order lots fills. fills @ [\<lparr>source_index = i, fill_order_id = auction_order_id order, fill_quantity_lots = lots\<rparr>]"
  by unfold_locales (simp add: push_fill_def)

lemma run_pushing:
  "run (\<lambda>i order lots fills. fills @ [\<lparr>source_index = i, fill_order_id = auction_order_id order,
      fill_quantity_lots = lots\<rparr>]) orders xs fills = fills @ map (fill_of orders) xs"
  by (induction xs arbitrary: fills) (auto simp: fill_of_def)

lemma walk_pro_rata_shares:
  assumes "orders_wf orders" "orders_canonical orders side" "0 < quantum" "quantum dvd E"
    and "\<And>j. j < length orders \<Longrightarrow> quantum dvd order_quantity (orders ! j)"
    and "E \<le> eligible_total orders side p" "fits_u128 (eligible_total orders side p)"
  shows "walk_pro_rata_fills orders side p E quantum push_fill [] =
      Inr (length (fills_of orders (pro_rata_share orders side p quantum E)),
        fills_of orders (pro_rata_share orders side p quantum E))"
    and "walk_pro_rata_fills orders side p E quantum count_only () =
      Inr (length (fills_of orders (pro_rata_share orders side p quantum E)), ())"
  using pushing.walk_tiers_run [OF assms, of 0 0 "[]"] counting.walk_tiers_run [OF assms, of 0 0 "()"] assms(3)
  by (simp_all add: walk_pro_rata_fills_def tier_start_def run_pushing fills_of_def)

section \<open>The shares exhaust the executable quantity\<close>

lemma sum_entries: "sum_list (map snd (entries share a b)) = sum_list (map share [a..<b])"
proof -
  have "sum_list (map share (filter (\<lambda>i. share i \<noteq> 0) xs)) = sum_list (map share xs)" for xs :: "nat list"
    by (induction xs) auto
  then show ?thesis by (simp add: entries_def comp_def)
qed

lemma sum_fills: "sum_list (map fill_quantity_lots (fills_of orders share)) = sum_list (map share [0..<length orders])"
proof -
  have "map fill_quantity_lots (fills_of orders share) = map snd (entries share 0 (length orders))"
    by (auto simp: fills_of_def fill_of_def)
  then show ?thesis by (simp add: sum_entries)
qed

lemma price_time_total:
  assumes "orders_canonical orders side" "E \<le> eligible_total orders side p"
  shows "sum_list (map (price_time_share orders side p E) [0..<length orders]) = E"
proof -
  obtain m where m: "m \<le> length orders" "\<And>i. i < length orders \<Longrightarrow> is_eligible (orders ! i) side p \<longleftrightarrow> i < m"
    "eligible_total orders side p = quantity_before orders m"
    using eligible_prefix [OF assms(1)] by blast
  have "sum_list (map (price_time_share orders side p E) [0..<i]) = min E (quantity_before orders (min i m))"
    if "i \<le> length orders" for i
    using that
  proof (induction i)
    case (Suc i)
    then have "sum_list (map (price_time_share orders side p E) [0..<i]) = min E (quantity_before orders (min i m))" by simp
    moreover have "price_time_share orders side p E i =
        (if i < m then min (order_quantity (orders ! i)) (E - quantity_before orders i) else 0)"
      using Suc.prems m(2) [of i] by (simp add: price_time_share_def)
    moreover have "quantity_before orders (min (Suc i) m) =
        (if i < m then quantity_before orders i + order_quantity (orders ! i) else quantity_before orders m)"
      using Suc.prems quantity_before_Suc [of i orders] by (simp add: min_def)
    ultimately show ?case
      by (cases "i < m") (auto simp: min_def)
  qed simp
  then show ?thesis
    using m assms(2) by (simp add: min_absorb1 min_absorb2)
qed

lemma tier_range_start:
  assumes "orders_canonical orders side" "tier_start orders i" "i < length orders"
  obtains b where "tier_range orders i b"
proof -
  obtain a b where r: "tier_range orders a b" "a \<le> i" "i < b"
    using tier_range_exists [OF assms(1,3)] by blast
  have "i \<le> a"
  proof (rule ccontr)
    assume "\<not> i \<le> a"
    then have "same_allocation_tier (orders ! a) (orders ! (i - 1))" "same_allocation_tier (orders ! a) (orders ! i)"
      using r by (auto simp: tier_range_def)
    then show False using assms(2,3) \<open>\<not> i \<le> a\<close> same_tier_trans by (auto simp: tier_start_def)
  qed
  then show ?thesis using that r by simp
qed

lemma sum_residual:
  "sum_list (map (\<lambda>j. quantum * (base j + (if j < i + r then 1 else 0))) [i..<i + n]) =
     quantum * (sum_list (map base [i..<i + n]) + min r (n :: nat))" for base :: "nat \<Rightarrow> nat"
  by (induction n) (auto simp: distrib_left min_def not_le less_Suc_eq_le dest: antisym)

lemma pro_rata_total_from:
  assumes "orders_wf orders" "orders_canonical orders side" "0 < quantum" "quantum dvd E"
    and dvd: "\<And>j. j < length orders \<Longrightarrow> quantum dvd order_quantity (orders ! j)"
    and "E \<le> eligible_total orders side p"
    and "i \<le> length orders" "tier_start orders i" "quantity_before orders i \<le> E"
  shows "sum_list (map (pro_rata_share orders side p quantum E) [i..<length orders]) = E - quantity_before orders i"
  using assms(7-)
proof (induction "length orders - i" arbitrary: i rule: less_induct)
  case less
  let ?share = "pro_rata_share orders side p quantum E" and ?rem = "E - quantity_before orders i"
  have exhausted: "sum_list (map ?share [k..<length orders]) = 0"
    if "tier_start orders k" "E \<le> quantity_before orders k" for k
    using share_exhausted [OF assms(1,2) that, of p quantum] sum_entries [of ?share k "length orders"] by simp
  show ?case
  proof (cases "?rem = 0")
    case False
    obtain m where m: "m \<le> length orders" "\<And>i. i < length orders \<Longrightarrow> is_eligible (orders ! i) side p \<longleftrightarrow> i < m"
      "eligible_total orders side p = quantity_before orders m"
      using eligible_prefix [OF assms(2)] by blast
    have im: "i < m"
      using False assms(6) m(3) quantity_before_mono [of m i orders] by (intro not_le_imp_less notI) simp
    obtain b where range: "tier_range orders i b"
      using tier_range_start [OF assms(2) less.prems(2)] im m(1) by (meson less_le_trans)
    have b: "i < b" "b \<le> length orders" using range by (simp_all add: tier_range_def)
    have elig: "is_eligible (orders ! j) side p" if "i \<le> j" "j < b" for j
    proof -
      have "same_allocation_tier (orders ! i) (orders ! j)" using range that by (simp add: tier_range_def)
      then show ?thesis using im m(1,2) same_tier_eligible by (metis less_le_trans)
    qed
    define T where "T = quantity_of orders [i..<b]"
    have Sb: "quantity_before orders b = quantity_before orders i + T"
      using quantity_of_upt [of b orders i] b by (simp add: T_def)
    have split: "sum_list (map ?share [i..<length orders]) =
        sum_list (map ?share [i..<b]) + sum_list (map ?share [b..<length orders])"
      using upt_add_eq_append [of i b "length orders - b"] b by simp
    note start = range_end_start [OF range]
    show ?thesis
    proof (cases "T \<le> ?rem")
      case True
      have "map ?share [i..<b] = map (\<lambda>j. order_quantity (orders ! j)) [i..<b]"
        using tier_share [OF assms(2) range _ _ elig] True by (simp add: T_def)
      then have "sum_list (map ?share [i..<b]) = T" unfolding T_def quantity_of_def by (rule arg_cong)
      then show ?thesis
        using True less.prems b less.hyps [of b] start Sb by (simp add: split)
    next
      case marginal: False
      let ?R = "?rem div quantum" and ?T = "T div quantum"
      let ?base = "\<lambda>j. order_quantity (orders ! j) div quantum * ?R div ?T"
      define residual where "residual = ?R - sum_list (map ?base [i..<b])"
      have T: "?T = sum_list (map (\<lambda>j. order_quantity (orders ! j) div quantum) [i..<b])" "quantum dvd T"
        using sum_div_quantum [of "[i..<b]" quantum "\<lambda>j. order_quantity (orders ! j)"] dvd b
        by (simp_all add: T_def quantity_of_def)
      have R: "quantum dvd ?rem"
        using quantum_before [OF dvd less.prems(1)] assms(4) by (simp add: dvd_diff_nat)
      obtain r t where rt: "?rem = quantum * r" "T = quantum * t" using R T(2) by (auto elim!: dvdE)
      have RT: "0 < ?T" using marginal rt assms(3) by simp
      note floors = floor_sum [OF T(1) RT, of ?R]
      have shares: "map ?share [i..<b] = map (\<lambda>j. quantum * (?base j + (if j < i + residual then 1 else 0))) [i..<b]"
        using tier_share [OF assms(2) range _ _ elig] marginal tier_range_facts(3) [OF assms(2) range]
        by (auto simp: T_def marginal_share_def Let_def residual_def)
      have "sum_list (map ?share [i..<b]) = quantum * (sum_list (map ?base [i..<b]) + min residual (b - i))"
        using sum_residual [of quantum ?base i residual "b - i"] b unfolding shares by simp
      also have "sum_list (map ?base [i..<b]) + min residual (b - i) = ?R"
        using floors unfolding residual_def length_upt min_def by (auto split: if_splits)
      finally have "sum_list (map ?share [i..<b]) = ?rem" using R by simp
      then show ?thesis
        using marginal exhausted [OF start] Sb by (simp add: split)
    qed
  qed (use exhausted [OF less.prems(2)] in simp)
qed

lemma pro_rata_total:
  assumes "orders_wf orders" "orders_canonical orders side" "0 < quantum" "quantum dvd E"
    and "\<And>j. j < length orders \<Longrightarrow> quantum dvd order_quantity (orders ! j)"
    and "E \<le> eligible_total orders side p"
  shows "sum_list (map (pro_rata_share orders side p quantum E) [0..<length orders]) = E"
  using pro_rata_total_from [OF assms, of 0] by (simp add: tier_start_def)

section \<open>The allocation as a whole\<close>

definition policy_share ::
    "AuctionOrder list \<Rightarrow> Side \<Rightarrow> AuctionClearing \<Rightarrow> AuctionAllocationPolicy \<Rightarrow> nat \<Rightarrow> nat \<Rightarrow> nat"
where
  "policy_share orders side clearing policy quantum =
     (case policy of
        PriceTime \<Rightarrow> price_time_share orders side (clr_price clearing) (executable_quantity clearing)
      | ProRataTime \<Rightarrow> pro_rata_share orders side (clr_price clearing) quantum (executable_quantity clearing))"

definition allocated_plan ::
    "AuctionOrder list \<Rightarrow> AuctionOrder list \<Rightarrow> AuctionClearing \<Rightarrow> AuctionAllocationPolicy \<Rightarrow> nat \<Rightarrow> AuctionAllocationPlan"
where
  "allocated_plan bids asks clearing policy quantum =
     \<lparr>plan_clearing = clearing,
      buy_fills = fills_of bids (policy_share bids Buy clearing policy quantum),
      sell_fills = fills_of asks (policy_share asks Sell clearing policy quantum)\<rparr>"

text \<open>The checks that remain visible: the request, and for the pro-rata policy the allocation quantum.\<close>

definition validate_policy ::
    "AuctionOrder list \<Rightarrow> AuctionOrder list \<Rightarrow> AuctionPriceGrid \<Rightarrow> AuctionClearing \<Rightarrow> AuctionAllocationPolicy
     \<Rightarrow> nat \<Rightarrow> AuctionAllocationLimits \<Rightarrow> AuctionAllocationError + unit"
where
  "validate_policy bids asks g clearing policy quantum limits =
     and_then (validate_allocation_request bids asks g clearing limits) (\<lambda>_.
       if policy = PriceTime then Inr ()
       else and_then (validate_allocation_quantum bids Buy quantum) (\<lambda>_.
            validate_allocation_quantum asks Sell quantum))"

definition clearing_wf :: "AuctionClearing \<Rightarrow> bool" where
  "clearing_wf clearing \<longleftrightarrow> executable_quantity clearing = min (buy_quantity clearing) (sell_quantity clearing)"

lemma clearing_wf_from_quantities: "clearing_wf (from_quantities price demand supplied)"
  by (simp add: clearing_wf_def from_quantities_def)

lemma validate_quantum_Inr:
  "validate_allocation_quantum orders side quantum = Inr () \<longleftrightarrow>
     0 < quantum \<and> (\<forall>j < length orders. quantum dvd order_quantity (orders ! j))"
proof -
  have "validate_quantum_from i orders side quantum = Inr () \<longleftrightarrow> (\<forall>order \<in> set orders. quantum dvd order_quantity order)" for i
    by (induction orders arbitrary: i) auto
  then show ?thesis by (simp add: validate_allocation_quantum_def all_set_conv_all_nth)
qed

lemma request_valid:
  assumes "validate_allocation_request bids asks g clearing limits = Inr counts"
  shows "orders_canonical bids Buy" "orders_canonical asks Sell"
    "buy_quantity clearing = eligible_total bids Buy (clr_price clearing)"
    "sell_quantity clearing = eligible_total asks Sell (clr_price clearing)"
    "fits_u128 (eligible_total bids Buy (clr_price clearing))"
    "fits_u128 (eligible_total asks Sell (clr_price clearing))"
    "counts = (required_fill_count bids Buy (clr_price clearing) (executable_quantity clearing),
       required_fill_count asks Sell (clr_price clearing) (executable_quantity clearing))"
  using assms validate_orders_Inr unfolding validate_allocation_request_def
  by (auto simp: result_simps)

lemma eligible_total_dvd:
  assumes "orders_canonical orders side" "\<And>j. j < length orders \<Longrightarrow> quantum dvd order_quantity (orders ! j)"
  shows "quantum dvd eligible_total orders side p"
  using eligible_prefix [OF assms(1), of p] quantum_before [OF assms(2)] by metis

lemma policy_fills:
  assumes "orders_wf orders" "orders_canonical orders side"
    and "executable_quantity clearing \<le> eligible_total orders side (clr_price clearing)"
    and "fits_u128 (eligible_total orders side (clr_price clearing))"
    and "policy = ProRataTime \<Longrightarrow> 0 < quantum \<and> quantum dvd executable_quantity clearing \<and>
      (\<forall>j < length orders. quantum dvd order_quantity (orders ! j))"
  shows "append_policy_fills orders side (clr_price clearing) (executable_quantity clearing) policy quantum [] =
      Inr (fills_of orders (policy_share orders side clearing policy quantum))"
    and "sum_list (map fill_quantity_lots (fills_of orders (policy_share orders side clearing policy quantum))) =
      executable_quantity clearing"
  using append_fills_shares [OF assms(1-3)] walk_pro_rata_shares(1) [OF assms(1,2) _ _ _ assms(3,4), of quantum]
    price_time_total [OF assms(2,3)] pro_rata_total [OF assms(1,2) _ _ _ assms(3), of quantum] assms(5)
  by (cases policy; simp add: append_policy_fills_def policy_share_def sum_fills)+

lemma allocate_stages:
  assumes "orders_wf bids" "orders_wf asks" "clearing_wf clearing"
    and "validate_policy bids asks g clearing policy quantum limits = Inr ()"
  shows "validate_policy_allocation_request bids asks g clearing policy quantum limits =
      Inr (length (buy_fills (allocated_plan bids asks clearing policy quantum)),
           length (sell_fills (allocated_plan bids asks clearing policy quantum)))"
    and "append_policy_fills bids Buy (clr_price clearing) (executable_quantity clearing) policy quantum [] =
      Inr (buy_fills (allocated_plan bids asks clearing policy quantum))"
    and "append_policy_fills asks Sell (clr_price clearing) (executable_quantity clearing) policy quantum [] =
      Inr (sell_fills (allocated_plan bids asks clearing policy quantum))"
    and "sum_list (map fill_quantity_lots (buy_fills (allocated_plan bids asks clearing policy quantum))) =
      executable_quantity clearing"
    and "sum_list (map fill_quantity_lots (sell_fills (allocated_plan bids asks clearing policy quantum))) =
      executable_quantity clearing"
proof -
  obtain counts where req: "validate_allocation_request bids asks g clearing limits = Inr counts"
    and quant: "policy = ProRataTime \<Longrightarrow> validate_allocation_quantum bids Buy quantum = Inr () \<and>
      validate_allocation_quantum asks Sell quantum = Inr ()"
    using assms(4) by (cases policy) (auto simp: validate_policy_def result_simps)
  note v = request_valid [OF req]
  have le: "executable_quantity clearing \<le> eligible_total bids Buy (clr_price clearing)"
    "executable_quantity clearing \<le> eligible_total asks Sell (clr_price clearing)"
    using assms(3) v(3,4) by (simp_all add: clearing_wf_def)
  have q: "0 < quantum \<and> quantum dvd executable_quantity clearing \<and>
      (\<forall>j < length bids. quantum dvd order_quantity (bids ! j)) \<and>
      (\<forall>j < length asks. quantum dvd order_quantity (asks ! j))" if "policy = ProRataTime"
    using quant [OF that] eligible_total_dvd [OF v(1), of quantum "clr_price clearing"]
      eligible_total_dvd [OF v(2), of quantum "clr_price clearing"] v(3,4) assms(3)
    by (simp add: validate_quantum_Inr clearing_wf_def min_def)
  note buys = policy_fills [OF assms(1) v(1) le(1) v(5), of policy quantum]
  note sells = policy_fills [OF assms(2) v(2) le(2) v(6), of policy quantum]
  show "append_policy_fills bids Buy (clr_price clearing) (executable_quantity clearing) policy quantum [] =
      Inr (buy_fills (allocated_plan bids asks clearing policy quantum))"
    and "append_policy_fills asks Sell (clr_price clearing) (executable_quantity clearing) policy quantum [] =
      Inr (sell_fills (allocated_plan bids asks clearing policy quantum))"
    and "sum_list (map fill_quantity_lots (buy_fills (allocated_plan bids asks clearing policy quantum))) =
      executable_quantity clearing"
    and "sum_list (map fill_quantity_lots (sell_fills (allocated_plan bids asks clearing policy quantum))) =
      executable_quantity clearing"
    using buys sells q by (simp_all add: allocated_plan_def)
  show "validate_policy_allocation_request bids asks g clearing policy quantum limits =
      Inr (length (buy_fills (allocated_plan bids asks clearing policy quantum)),
           length (sell_fills (allocated_plan bids asks clearing policy quantum)))"
  proof (cases policy)
    case PriceTime
    then show ?thesis
      using req v(7) append_fills_shares(2) [OF assms(1) v(1) le(1)] append_fills_shares(2) [OF assms(2) v(2) le(2)]
      by (simp add: validate_policy_allocation_request_def allocated_plan_def policy_share_def)
  next
    case ProRataTime
    then show ?thesis
      using req quant q [OF ProRataTime] walk_pro_rata_shares(2) [OF assms(1) v(1) _ _ _ le(1) v(5), of quantum]
        walk_pro_rata_shares(2) [OF assms(2) v(2) _ _ _ le(2) v(6), of quantum]
      by (simp add: validate_policy_allocation_request_def allocated_plan_def policy_share_def)
  qed
qed

lemma validate_policy_Inl:
  assumes "validate_policy bids asks g clearing policy quantum limits = Inl e"
  shows "validate_policy_allocation_request bids asks g clearing policy quantum limits = Inl e"
  using assms by (auto simp: validate_policy_def validate_policy_allocation_request_def result_simps split: if_splits)

lemma allocate_Inr:
  assumes "orders_wf bids" "orders_wf asks" "clearing_wf clearing"
    and "allocate_clearing_with_policy reserve bids asks g clearing policy quantum limits = Inr plan"
  shows "plan = allocated_plan bids asks clearing policy quantum"
    and "validate_policy bids asks g clearing policy quantum limits = Inr ()"
proof -
  show v: "validate_policy bids asks g clearing policy quantum limits = Inr ()"
    using assms(4) validate_policy_Inl [of bids asks g clearing policy quantum limits]
    by (cases "validate_policy bids asks g clearing policy quantum limits")
      (auto simp: allocate_clearing_with_policy_def)
  show "plan = allocated_plan bids asks clearing policy quantum"
    using assms(4) allocate_stages [OF assms(1-3) v]
    by (simp add: allocate_clearing_with_policy_def build_allocation_plan_def result_simps allocated_plan_def)
qed

text \<open>
  C2. The outcome of an allocation is determined completely: it fails with the first failing check of the
  request, of the quantum or of the two reservations, and otherwise returns the plan whose fills are
  the positive shares of each side in source order. The reservations ask for exactly the number of
  fills constructed, and the construction never fails.
\<close>

theorem allocation_complete:
  assumes "orders_wf bids" "orders_wf asks" "clearing_wf clearing"
  shows "allocate_clearing_with_policy reserve bids asks g clearing policy quantum limits =
    and_then (validate_policy bids asks g clearing policy quantum limits) (\<lambda>_.
      let plan = allocated_plan bids asks clearing policy quantum
      in and_then (ensure (reserve Buy (length (buy_fills plan))) (CapacityReservationFailed Buy)) (\<lambda>_.
         and_then (ensure (reserve Sell (length (sell_fills plan))) (CapacityReservationFailed Sell)) (\<lambda>_.
           Inr plan)))"
proof (cases "validate_policy bids asks g clearing policy quantum limits")
  case (Inl e)
  then show ?thesis
    using validate_policy_Inl [OF Inl] by (simp add: allocate_clearing_with_policy_def)
next
  case (Inr u)
  then show ?thesis
    using allocate_stages [OF assms, of g policy quantum limits]
    by (simp add: allocate_clearing_with_policy_def build_allocation_plan_def) (simp add: allocated_plan_def)
qed

text \<open>
  Both sides of a plan reconcile to the executable quantity, under either policy: nothing is lost in
  the floors of the proportional parts and nothing is allocated twice.
\<close>

theorem allocation_conserves:
  assumes "orders_wf bids" "orders_wf asks" "clearing_wf clearing"
    and "allocate_clearing_with_policy reserve bids asks g clearing policy quantum limits = Inr plan"
  shows "sum_list (map fill_quantity_lots (buy_fills plan)) = executable_quantity clearing \<and>
    sum_list (map fill_quantity_lots (sell_fills plan)) = executable_quantity clearing"
  using allocate_Inr [OF assms] allocate_stages(4,5) [OF assms(1-3)] by simp

section \<open>What an order receives\<close>

definition filled :: "AuctionOrderFill list \<Rightarrow> nat \<Rightarrow> nat" where
  "filled fills i = sum_list (map fill_quantity_lots (filter (\<lambda>fill. source_index fill = i) fills))"

lemma filled_fills_of: "filled (fills_of orders share) i = (if i < length orders then share i else 0)"
proof -
  have "filled (map (fill_of orders) (entries share 0 n)) i = (if i < n then share i else 0)" for n
  proof (induction n)
    case (Suc n)
    have "entries share 0 (Suc n) = entries share 0 n @ entries share n (Suc n)"
      by (rule entries_split) simp_all
    then have "filled (map (fill_of orders) (entries share 0 (Suc n))) i =
        filled (map (fill_of orders) (entries share 0 n)) i + (if i = n then share n else 0)"
      by (simp add: filled_def entries_Cons [of n "Suc n"] fill_of_def)
    then show ?case using Suc by simp
  qed (simp add: filled_def)
  then show ?thesis by (simp add: fills_of_def)
qed

lemma source_indexes: "sorted_wrt (<) (map source_index (fills_of orders share))"
proof -
  have "map source_index (fills_of orders share) = filter (\<lambda>i. share i \<noteq> 0) [0..<length orders]"
    by (simp add: fills_of_def fill_of_def entries_def comp_def)
  then show ?thesis by (simp add: sorted_wrt_filter)
qed

lemma share_cases:
  assumes "orders_canonical orders side" "0 < quantum" "quantum dvd E" "orders_wf orders"
    and dvd: "\<And>j. j < length orders \<Longrightarrow> quantum dvd order_quantity (orders ! j)"
    and "tier_range orders a b" "a \<le> i" "i < b" "is_eligible (orders ! i) side p"
  obtains "quantity_of orders [a..<b] \<le> E - quantity_before orders a"
      "pro_rata_share orders side p quantum E i = order_quantity (orders ! i)"
  | c r t \<delta> where "order_quantity (orders ! i) = quantum * c" "E - quantity_before orders a = quantum * r"
      "quantity_of orders [a..<b] = quantum * t" "r < t" "0 < c" "\<delta> \<le> 1" "r = 0 \<Longrightarrow> \<delta> = 0"
      "pro_rata_share orders side p quantum E i = quantum * (c * r div t + \<delta>)"
proof (cases "quantity_of orders [a..<b] \<le> E - quantity_before orders a")
  case True
  then show ?thesis using that(1) tier_share [OF assms(1,6-)] by simp
next
  case False
  have b: "b \<le> length orders" "a \<le> length orders" using assms(6) by (auto simp: tier_range_def)
  obtain c where c: "order_quantity (orders ! i) = quantum * c" using dvd assms(8) b(1) by (metis dvdE less_le_trans)
  have "quantum dvd E - quantity_before orders a"
    using quantum_before [OF dvd b(2)] assms(3) by (simp add: dvd_diff_nat)
  then obtain r where r: "E - quantity_before orders a = quantum * r" by (auto elim: dvdE)
  have "quantum dvd quantity_of orders [a..<b]"
    using sum_div_quantum(2) [of "[a..<b]" quantum "\<lambda>j. order_quantity (orders ! j)"] dvd b(1)
    by (simp add: quantity_of_def)
  then obtain t where t: "quantity_of orders [a..<b] = quantum * t" by (auto elim: dvdE)
  have "i < length orders" using assms(8) b(1) by simp
  then have "0 < order_quantity (orders ! i)" using assms(4) by (simp add: orders_wf_def)
  then have "0 < c" using c by simp
  moreover have "r < t" using False r t assms(2) by simp
  ultimately show ?thesis
    using that(2) [OF c r t, of "of_bool (i - a < r - sum_list (map (\<lambda>j. order_quantity (orders ! j) div quantum * r div t) [a..<b]))"]
      tier_share [OF assms(1,6-), of quantum E] False assms(2) tier_range_facts(3) [OF assms(1,6-8)]
    by (simp add: marginal_share_def Let_def r t c)
qed

lemma pro_rata_bounded:
  assumes "orders_canonical orders side" "0 < quantum" "quantum dvd E" "orders_wf orders" "i < length orders"
    and "\<And>j. j < length orders \<Longrightarrow> quantum dvd order_quantity (orders ! j)"
  shows "pro_rata_share orders side p quantum E i \<le> order_quantity (orders ! i) \<and>
    quantum dvd pro_rata_share orders side p quantum E i"
proof (cases "is_eligible (orders ! i) side p")
  case True
  obtain a b where range: "tier_range orders a b" "a \<le> i" "i < b"
    using tier_range_exists [OF assms(1,5)] by blast
  show ?thesis
  proof (rule share_cases [OF assms(1-4,6) range True])
    fix c r t \<delta>
    assume *: "order_quantity (orders ! i) = quantum * c" "r < t" "0 < c" "\<delta> \<le> 1"
      "pro_rata_share orders side p quantum E i = quantum * (c * r div t + \<delta>)"
    have "c * r < c * t" using *(2,3) by simp
    then have "c * r div t < c" using *(2) by (simp add: div_less_iff_less_mult)
    then have "c * r div t + \<delta> \<le> c" using *(4) by linarith
    then show ?thesis using * by simp
  qed (use assms(5,6) in auto)
qed (simp add: pro_rata_share_def)

lemma pro_rata_tier_priority:
  assumes "orders_canonical orders side" "0 < quantum" "quantum dvd E" "orders_wf orders"
    and "\<And>j. j < length orders \<Longrightarrow> quantum dvd order_quantity (orders ! j)"
    and "i < j" "j < length orders" "\<not> same_allocation_tier (orders ! i) (orders ! j)"
    and "pro_rata_share orders side p quantum E j \<noteq> 0"
  shows "pro_rata_share orders side p quantum E i = order_quantity (orders ! i)"
proof -
  have elig: "is_eligible (orders ! j) side p" using assms(9) by (auto simp: pro_rata_share_def split: if_splits)
  then have elig_i: "is_eligible (orders ! i) side p"
    using canonical_eligible [OF assms(1), of i j p] assms(6,7) by simp
  obtain a b where rj: "tier_range orders a b" "a \<le> j" "j < b" using tier_range_exists [OF assms(1,7)] by blast
  have "i < length orders" using assms(6,7) by simp
  then obtain a' b' where ri: "tier_range orders a' b'" "a' \<le> i" "i < b'" using tier_range_exists [OF assms(1)] by blast
  have "\<not> (a' \<le> j \<and> j < b')" using tier_range_same [OF assms(1) ri assms(7)] assms(8) by simp
  then have "b' \<le> j" using ri assms(6) by simp
  have "b' \<le> a"
  proof (rule ccontr)
    assume "\<not> b' \<le> a"
    then have "i < a \<or> a \<le> i" "a < b'" by auto
    show False
    proof (cases "a \<le> i")
      case True
      then show False using tier_range_same [OF assms(1) rj] \<open>i < length orders\<close> assms(6,8) rj(3) same_tier_sym by simp
    next
      case False
      then have "same_allocation_tier (orders ! i) (orders ! a)"
        using tier_range_same [OF assms(1) ri, of a] ri(2) \<open>a < b'\<close> rj assms(7) by simp
      moreover have "same_allocation_tier (orders ! a) (orders ! j)" using rj by (simp add: tier_range_def)
      ultimately show False using assms(8) same_tier_trans same_tier_sym by blast
    qed
  qed
  have "E - quantity_before orders a \<noteq> 0"
  proof
    assume zero: "E - quantity_before orders a = 0"
    have "0 < order_quantity (orders ! j)" using assms(4,7) by (auto simp: orders_wf_def)
    moreover have "order_quantity (orders ! j) \<le> quantity_of orders [a..<b]"
      using rj unfolding quantity_of_def by (intro member_le_sum_list) auto
    ultimately show False
      using share_cases [OF assms(1-5) rj elig, of thesis] assms(9) zero
      by (rule_tac share_cases [OF assms(1-5) rj elig]) auto
  qed
  then have "quantity_before orders b' \<le> E"
    using quantity_before_mono [OF \<open>b' \<le> a\<close>, of orders] by simp
  then have "quantity_of orders [a'..<b'] \<le> E - quantity_before orders a'"
    using quantity_of_upt [of b' orders a'] ri by (simp add: tier_range_def)
  then show ?thesis using tier_share [OF assms(1) ri elig_i] by simp
qed

lemma price_time_priority:
  assumes "orders_canonical orders side" "i < j" "j < length orders" "price_time_share orders side p E j \<noteq> 0"
  shows "price_time_share orders side p E i = order_quantity (orders ! i)"
proof -
  have "is_eligible (orders ! i) side p" "quantity_before orders j < E"
    using assms canonical_eligible [OF assms(1), of i j p] by (auto simp: price_time_share_def split: if_splits)
  moreover have "quantity_before orders (Suc i) \<le> quantity_before orders j"
    using assms(2) by (intro quantity_before_mono) simp
  ultimately show ?thesis
    using assms(2,3) by (simp add: price_time_share_def quantity_before_Suc)
qed

lemma pro_rata_fair:
  assumes "orders_canonical orders side" "0 < quantum" "quantum dvd E" "orders_wf orders"
    and "\<And>j. j < length orders \<Longrightarrow> quantum dvd order_quantity (orders ! j)"
    and "i < length orders" "j < length orders" "same_allocation_tier (orders ! i) (orders ! j)"
  shows "pro_rata_share orders side p quantum E i * order_quantity (orders ! j) \<le>
    pro_rata_share orders side p quantum E j * order_quantity (orders ! i) +
    quantum * (order_quantity (orders ! i) + order_quantity (orders ! j))"
proof (cases "is_eligible (orders ! i) side p")
  case True
  obtain a b where ri: "tier_range orders a b" "a \<le> i" "i < b" using tier_range_exists [OF assms(1,6)] by blast
  then have rj: "a \<le> j" "j < b" using tier_range_same [OF assms(1) ri assms(7)] assms(8) by auto
  have elig_j: "is_eligible (orders ! j) side p" using True same_tier_eligible [OF assms(8)] by simp
  show ?thesis
  proof (rule share_cases [OF assms(1-5) ri True])
    assume "quantity_of orders [a..<b] \<le> E - quantity_before orders a"
    then show ?thesis
      using tier_share [OF assms(1) ri True] tier_share [OF assms(1) ri(1) rj elig_j] by simp
  next
    fix c r t \<delta>
    assume i: "order_quantity (orders ! i) = quantum * c" "E - quantity_before orders a = quantum * r"
      "quantity_of orders [a..<b] = quantum * t" "r < t" "\<delta> \<le> 1"
      "pro_rata_share orders side p quantum E i = quantum * (c * r div t + \<delta>)"
    show ?thesis
    proof (rule share_cases [OF assms(1-5) ri(1) rj elig_j])
      assume "quantity_of orders [a..<b] \<le> E - quantity_before orders a"
      then show ?thesis using i assms(2) by simp
    next
      fix c' r' t' \<delta>'
      assume j: "order_quantity (orders ! j) = quantum * c'" "E - quantity_before orders a = quantum * r'"
        "quantity_of orders [a..<b] = quantum * t'" 
        "pro_rata_share orders side p quantum E j = quantum * (c' * r' div t' + \<delta>')"
      have same: "r' = r" "t' = t" using i j assms(2) by simp_all
      have t: "0 < t" using i(4) by simp
      have up: "t * (c * r div t) \<le> c * r" by (rule times_div_less_eq_dividend)
      have low: "c' * r \<le> t * (c' * r div t) + t"
        using mod_less_divisor [OF t, of "c' * r"] mult_div_mod_eq [of t "c' * r"] by linarith
      have "t * ((c * r div t) * c') \<le> c * r * c'"
        using mult_le_mono1 [OF up, of c'] by (simp only: mult.assoc)
      also have "\<dots> = (c' * r) * c" by (simp add: ac_simps)
      also have "\<dots> \<le> (t * (c' * r div t) + t) * c" by (rule mult_le_mono1 [OF low])
      also have "\<dots> = t * ((c' * r div t) * c + c)" by (simp add: algebra_simps)
      finally have "(c * r div t) * c' \<le> (c' * r div t) * c + c" using t by simp
      moreover have "\<delta> * c' \<le> c'" using i(5) by (cases "\<delta> = 0") auto
      ultimately have "(c * r div t + \<delta>) * c' \<le> (c' * r div t + \<delta>') * c + (c + c')"
        unfolding distrib_right by linarith
      then have "quantum * quantum * ((c * r div t + \<delta>) * c') \<le>
          quantum * quantum * ((c' * r div t + \<delta>') * c + (c + c'))" by (rule mult_le_mono2)
      then show ?thesis by (simp add: i(1,6) j(1,4) same algebra_simps)
    qed
  qed
qed (simp add: pro_rata_share_def)

section \<open>Properties of a plan\<close>

fun side_orders :: "AuctionOrder list \<Rightarrow> AuctionOrder list \<Rightarrow> Side \<Rightarrow> AuctionOrder list" where
  "side_orders bids asks Buy = bids"
| "side_orders bids asks Sell = asks"

fun side_fills :: "AuctionAllocationPlan \<Rightarrow> Side \<Rightarrow> AuctionOrderFill list" where
  "side_fills plan Buy = buy_fills plan"
| "side_fills plan Sell = sell_fills plan"

lemma plan_side:
  assumes "orders_wf bids" "orders_wf asks" "clearing_wf clearing"
    and "allocate_clearing_with_policy reserve bids asks g clearing policy quantum limits = Inr plan"
    and "orders = side_orders bids asks side"
  shows "side_fills plan side = fills_of orders (policy_share orders side clearing policy quantum)"
    and "orders_canonical orders side" "orders_wf orders"
    and "policy = ProRataTime \<Longrightarrow> 0 < quantum"
    and "policy = ProRataTime \<Longrightarrow> quantum dvd executable_quantity clearing"
    and "policy = ProRataTime \<Longrightarrow> j < length orders \<Longrightarrow> quantum dvd order_quantity (orders ! j)"
proof -
  note a = allocate_Inr [OF assms(1-4)]
  obtain counts where req: "validate_allocation_request bids asks g clearing limits = Inr counts"
    and quant: "policy = ProRataTime \<Longrightarrow> validate_allocation_quantum bids Buy quantum = Inr () \<and>
      validate_allocation_quantum asks Sell quantum = Inr ()"
    using a(2) by (cases policy) (auto simp: validate_policy_def result_simps)
  note v = request_valid [OF req]
  show "side_fills plan side = fills_of orders (policy_share orders side clearing policy quantum)"
    "orders_canonical orders side" "orders_wf orders"
    using a(1) v(1,2) assms(1,2,5) by (cases side; simp add: allocated_plan_def)+
  show "0 < quantum" if "policy = ProRataTime"
    using quant [OF that] by (simp add: validate_quantum_Inr)
  show "quantum dvd order_quantity (orders ! j)" if "policy = ProRataTime" "j < length orders"
    using quant [OF that(1)] that(2) assms(5) by (cases side) (simp_all add: validate_quantum_Inr)
  show "quantum dvd executable_quantity clearing" if "policy = ProRataTime"
    using quant [OF that] eligible_total_dvd [OF v(1), of quantum "clr_price clearing"]
      eligible_total_dvd [OF v(2), of quantum "clr_price clearing"] v(3,4) assms(3)
    by (simp add: validate_quantum_Inr clearing_wf_def min_def)
qed

text \<open>
  Strict priority: if an order receives anything, every order before it in another tier (under
  price-time allocation, every order before it) is filled completely.
\<close>

theorem allocation_priority:
  assumes "orders_wf bids" "orders_wf asks" "clearing_wf clearing"
    and "allocate_clearing_with_policy reserve bids asks g clearing policy quantum limits = Inr plan"
    and "orders = side_orders bids asks side" "i < j" "j < length orders"
    and "policy = PriceTime \<or> \<not> same_allocation_tier (orders ! i) (orders ! j)"
    and "filled (side_fills plan side) j \<noteq> 0"
  shows "filled (side_fills plan side) i = order_quantity (orders ! i)"
proof -
  note s = plan_side [OF assms(1-5)]
  show ?thesis
    using assms(6-9) price_time_priority [OF s(2) assms(6,7)] pro_rata_tier_priority [OF s(2,4,5,3,6) assms(6,7)]
    by (cases policy) (simp_all add: s(1) filled_fills_of policy_share_def)
qed

text \<open>
  Pro-rata allocation is fair inside a tier: the fills of two orders of one tier are proportional to
  their quantities up to one allocation quantum for each of them.
\<close>

theorem pro_rata_proportional:
  assumes "orders_wf bids" "orders_wf asks" "clearing_wf clearing"
    and "allocate_clearing_pro_rata_time reserve bids asks g clearing quantum limits = Inr plan"
    and "orders = side_orders bids asks side" "i < length orders" "j < length orders"
    and "same_allocation_tier (orders ! i) (orders ! j)"
  shows "filled (side_fills plan side) i * order_quantity (orders ! j) \<le>
    filled (side_fills plan side) j * order_quantity (orders ! i) +
    quantum * (order_quantity (orders ! i) + order_quantity (orders ! j))"
proof -
  note s = plan_side [OF assms(1-3) assms(4)[unfolded allocate_clearing_pro_rata_time_def] assms(5)]
  show ?thesis
    using pro_rata_fair [OF s(2) s(4,5) s(3) s(6) assms(6-8)] assms(6,7)
    by (simp add: s(1) filled_fills_of policy_share_def)
qed

text \<open>
  C37. Every fill of a plan is sound: it names an eligible order of its side by position and identity,
  allocates a positive quantity that the order has, in multiples of the quantum under pro-rata
  allocation, and no order is filled twice.
\<close>

theorem allocation_fills_sound:
  assumes "orders_wf bids" "orders_wf asks" "clearing_wf clearing"
    and "allocate_clearing_with_policy reserve bids asks g clearing policy quantum limits = Inr plan"
    and "orders = side_orders bids asks side" "fill \<in> set (side_fills plan side)"
  shows "source_index fill < length orders \<and>
    fill_order_id fill = auction_order_id (orders ! source_index fill) \<and>
    is_eligible (orders ! source_index fill) side (clr_price clearing) \<and>
    0 < fill_quantity_lots fill \<and> fill_quantity_lots fill \<le> order_quantity (orders ! source_index fill) \<and>
    (policy = ProRataTime \<longrightarrow> quantum dvd fill_quantity_lots fill) \<and>
    sorted_wrt (<) (map source_index (side_fills plan side))"
proof -
  note s = plan_side [OF assms(1-5)]
  have bounded: "policy = ProRataTime \<longrightarrow>
      policy_share orders side clearing policy quantum i \<le> order_quantity (orders ! i) \<and>
      quantum dvd policy_share orders side clearing policy quantum i" if "i < length orders" for i
    using pro_rata_bounded [OF s(2,4,5,3) that s(6)] by (simp add: policy_share_def)
  obtain i where "i < length orders" "policy_share orders side clearing policy quantum i \<noteq> 0"
    "fill = fill_of orders (i, policy_share orders side clearing policy quantum i)"
    using assms(6) unfolding s(1) by (auto simp: fills_of_def entries_def)
  moreover from this(2) have "is_eligible (orders ! i) side (clr_price clearing)"
    by (cases policy) (auto simp: policy_share_def price_time_share_def pro_rata_share_def split: if_splits)
  ultimately show ?thesis
    using bounded [of i] source_indexes [of orders]
    by (cases policy) (auto simp: s(1) fill_of_def policy_share_def price_time_share_def)
qed

text \<open>
  C38. Allocation into a caller's plan is the plain allocation with the capacities as reservation: the
  same plan or the same error, and on every error the caller's plan is left as it was.
\<close>

theorem allocate_reusing_equivalent:
  assumes "orders_wf bids" "orders_wf asks" "clearing_wf clearing"
    and "reserve = (\<lambda>side n. n \<le> (case side of Buy \<Rightarrow> buy_capacity | Sell \<Rightarrow> sell_capacity))"
  shows "allocate_clearing_reusing buy_capacity sell_capacity bids asks g clearing policy quantum limits plan =
    (case allocate_clearing_with_policy reserve bids asks g clearing policy quantum limits of
       Inl e \<Rightarrow> (Inl e, plan)
     | Inr plan' \<Rightarrow> (Inr (), plan'))"
proof (cases "validate_policy bids asks g clearing policy quantum limits")
  case (Inl e)
  then show ?thesis
    using validate_policy_Inl [OF Inl] by (simp add: allocate_clearing_with_policy_def allocate_clearing_reusing_def)
next
  case (Inr u)
  then have v: "validate_policy bids asks g clearing policy quantum limits = Inr ()" by simp
  note stages = allocate_stages [OF assms(1-3) v]
  show ?thesis
    by (simp add: allocate_clearing_reusing_def allocate_clearing_with_policy_def build_allocation_plan_def stages
        assms(4) Let_def ensure_def allocated_plan_def)
qed

section \<open>A sample allocation\<close>

definition sample_buyers :: "AuctionOrder list" where
  "sample_buyers =
    [\<lparr>auction_order_id = 1, order_constraint = Market, order_quantity = 3, order_priority_class = 0, order_priority_sequence = 5\<rparr>,
     \<lparr>auction_order_id = 2, order_constraint = Limit 15, order_quantity = 6, order_priority_class = 2, order_priority_sequence = 1\<rparr>,
     \<lparr>auction_order_id = 3, order_constraint = Limit 5, order_quantity = 7, order_priority_class = 0, order_priority_sequence = 2\<rparr>]"

definition sample_sellers :: "AuctionOrder list" where
  "sample_sellers =
    [\<lparr>auction_order_id = 4, order_constraint = Limit 0, order_quantity = 2, order_priority_class = 0, order_priority_sequence = 9\<rparr>,
     \<lparr>auction_order_id = 5, order_constraint = Limit 10, order_quantity = 5, order_priority_class = 1, order_priority_sequence = 3\<rparr>,
     \<lparr>auction_order_id = 6, order_constraint = Limit 10, order_quantity = 3, order_priority_class = 1, order_priority_sequence = 4\<rparr>,
     \<lparr>auction_order_id = 7, order_constraint = Limit 10, order_quantity = 3, order_priority_class = 1, order_priority_sequence = 6\<rparr>,
     \<lparr>auction_order_id = 8, order_constraint = Limit 20, order_quantity = 9, order_priority_class = 0, order_priority_sequence = 7\<rparr>]"

definition sample_clearing :: AuctionClearing where
  "sample_clearing = from_quantities 10 9 13"

definition sample_limits :: AuctionAllocationLimits where
  "sample_limits = \<lparr>max_orders_per_side = 8\<rparr>"

definition sample_plan :: "AuctionOrderFill list \<Rightarrow> AuctionAllocationPlan" where
  "sample_plan fills = \<lparr>plan_clearing = sample_clearing,
     buy_fills = [\<lparr>source_index = 0, fill_order_id = 1, fill_quantity_lots = 3\<rparr>,
       \<lparr>source_index = 1, fill_order_id = 2, fill_quantity_lots = 6\<rparr>],
     sell_fills = fills\<rparr>"

definition pro_rata_fills :: "AuctionOrderFill list" where
  "pro_rata_fills = [\<lparr>source_index = 0, fill_order_id = 4, fill_quantity_lots = 2\<rparr>,
     \<lparr>source_index = 1, fill_order_id = 5, fill_quantity_lots = 4\<rparr>,
     \<lparr>source_index = 2, fill_order_id = 6, fill_quantity_lots = 2\<rparr>,
     \<lparr>source_index = 3, fill_order_id = 7, fill_quantity_lots = 1\<rparr>]"

lemma sample_orders_wf: "orders_wf sample_buyers" "orders_wf sample_sellers" "clearing_wf sample_clearing"
  by (simp_all add: sample_buyers_def sample_sellers_def orders_wf_def width_defs sample_clearing_def
      clearing_wf_from_quantities)

lemma sample_validated: "validate_policy sample_buyers sample_sellers sample_grid sample_clearing policy 1 sample_limits = Inr ()"
  by (simp add: validate_policy_def validate_allocation_request_def validate_order_count_def sample_limits_def
      sample_clearing_def from_quantities_def grid_contains_def sample_grid_def validate_allocation_orders_def
      sample_buyers_def sample_sellers_def limit_off_grid_def precedes_def compare_order_priority_def
      priority_key_def is_eligible_def width_defs validate_allocation_quantum_def)

lemmas share_eval = allocated_plan_def fills_of_def fill_of_def entries_def policy_share_def pro_rata_share_def
  price_time_share_def marginal_share_def tier_members_def quantity_of_def ahead_of_tier_def quantity_before_def
  same_allocation_tier_def is_eligible_def sample_buyers_def sample_sellers_def sample_clearing_def
  from_quantities_def sample_plan_def upt_rec_numeral pro_rata_fills_def

lemma sample_pro_rata_plan:
  "allocated_plan sample_buyers sample_sellers sample_clearing ProRataTime 1 = sample_plan pro_rata_fills"
  by (simp add: share_eval upt_rec)

lemma sample_allocated:
  "allocate_clearing_with_policy (\<lambda>side n. n \<le> 4) sample_buyers sample_sellers sample_grid sample_clearing ProRataTime 1
     sample_limits = Inr (sample_plan pro_rata_fills)"
  using allocate_stages [OF sample_orders_wf sample_validated [of ProRataTime]] sample_pro_rata_plan
  by (simp add: allocate_clearing_with_policy_def build_allocation_plan_def sample_plan_def pro_rata_fills_def)

theorem allocation_complete_witness:
  "allocate_clearing_with_policy (\<lambda>side n. side = Buy) sample_buyers sample_sellers sample_grid sample_clearing
     ProRataTime 1 sample_limits = Inl (CapacityReservationFailed Sell)"
  by (simp add: allocation_complete [OF sample_orders_wf] sample_validated [simplified]
      sample_pro_rata_plan [simplified] sample_plan_def pro_rata_fills_def)

theorem allocation_conserves_witness:
  "sum_list (map fill_quantity_lots (sell_fills (sample_plan pro_rata_fills))) = executable_quantity sample_clearing"
  using allocation_conserves [OF sample_orders_wf sample_allocated] by blast

theorem allocation_priority_witness:
  "filled (side_fills (sample_plan pro_rata_fills) Sell) 0 = 2"
proof -
  have "filled (side_fills (sample_plan pro_rata_fills) Sell) 3 \<noteq> 0"
    by (simp add: filled_def sample_plan_def pro_rata_fills_def)
  then show ?thesis
    using allocation_priority [OF sample_orders_wf sample_allocated, of sample_sellers Sell 0 3]
    by (simp add: sample_sellers_def same_allocation_tier_def)
qed

theorem pro_rata_proportional_witness:
  "filled (side_fills (sample_plan pro_rata_fills) Sell) 1 * 3 \<le>
     filled (side_fills (sample_plan pro_rata_fills) Sell) 3 * 5 + 1 * (5 + 3)"
  using pro_rata_proportional [of sample_buyers sample_sellers sample_clearing "\<lambda>side n. n \<le> 4" sample_grid 1
      sample_limits "sample_plan pro_rata_fills" sample_sellers Sell 1 3] sample_orders_wf sample_allocated
  by (simp add: allocate_clearing_pro_rata_time_def sample_sellers_def same_allocation_tier_def)

theorem allocation_fills_sound_witness:
  "is_eligible (sample_sellers ! 3) Sell 10 \<and> (1::nat) \<le> order_quantity (sample_sellers ! 3)"
  using allocation_fills_sound [OF sample_orders_wf sample_allocated, of sample_sellers Sell
      "\<lparr>source_index = 3, fill_order_id = 7, fill_quantity_lots = 1\<rparr>"]
  by (simp add: sample_plan_def pro_rata_fills_def sample_clearing_def from_quantities_def)

theorem allocate_reusing_equivalent_witness:
  "allocate_clearing_reusing 2 3 sample_buyers sample_sellers sample_grid sample_clearing ProRataTime 1 sample_limits
     (sample_plan []) = (Inl (CapacityReservationFailed Sell), sample_plan [])"
proof -
  let ?reserve = "\<lambda>side n. n \<le> (case side of Buy \<Rightarrow> 2 | Sell \<Rightarrow> 3)"
  have "allocate_clearing_with_policy ?reserve sample_buyers sample_sellers sample_grid sample_clearing
      ProRataTime 1 sample_limits = Inl (CapacityReservationFailed Sell)"
    using allocate_stages [OF sample_orders_wf sample_validated [of ProRataTime]] sample_pro_rata_plan
    by (simp add: allocate_clearing_with_policy_def sample_plan_def pro_rata_fills_def)
  then show ?thesis
    using allocate_reusing_equivalent [OF sample_orders_wf, of ?reserve 2 3 sample_grid ProRataTime 1 sample_limits
        "sample_plan []"] by simp
qed

end
