(* ===== verification/LedgerMagnitude.thy ===== *)
theory LedgerMagnitude
  imports Domain
begin

text \<open>
  The exact accounting aggregate of \<open>src/src/ledger_magnitude.rs\<close>: a non-negative integer that stays
  inline up to 128 bits and spills into little-endian 64-bit limbs beyond. The theorems read it through
  \<open>magnitude_value\<close>: addition is exact whatever it carries, the derived order is the order of the
  values, the bit count is the binary length, and the decimal rendering denotes the value.
\<close>

section \<open>The representation\<close>

datatype LedgerMagnitude = Inline nat | Wide "nat list"

definition magnitude_zero :: LedgerMagnitude where
  "magnitude_zero = Inline 0"

fun as_u128 :: "LedgerMagnitude \<Rightarrow> nat option" where
  "as_u128 (Inline v) = Some v"
| "as_u128 (Wide limbs) = None"

fun is_zero :: "LedgerMagnitude \<Rightarrow> bool" where
  "is_zero (Inline v) \<longleftrightarrow> v = 0"
| "is_zero (Wide limbs) \<longleftrightarrow> False"

text \<open>\<open>u64::overflowing_add\<close> and the two halves of a \<open>u128\<close>.\<close>

definition overflowing_add :: "nat \<Rightarrow> nat \<Rightarrow> nat \<times> bool" where
  "overflowing_add a b = ((a + b) mod 2 ^ 64, 2 ^ 64 \<le> a + b)"

definition split_u128 :: "nat \<Rightarrow> nat \<times> nat" where
  "split_u128 v = (v mod 2 ^ 64, v div 2 ^ 64 mod 2 ^ 64)"

definition add_inline_values :: "nat \<Rightarrow> nat \<Rightarrow> nat list" where
  "add_inline_values left right =
     (let (left_low, left_high) = split_u128 left;
          (right_low, right_high) = split_u128 right;
          (low, low_carry) = overflowing_add left_low right_low;
          (high_without_low_carry, high_carry) = overflowing_add left_high right_high;
          (high, propagated_carry) = overflowing_add high_without_low_carry (of_bool low_carry)
      in [low, high, 1])"

text \<open>The carry loop from limb 2 on; a carry out of the last limb appends a limb.\<close>

fun propagate_carry :: "bool \<Rightarrow> nat list \<Rightarrow> nat list" where
  "propagate_carry False limbs = limbs"
| "propagate_carry True [] = [1]"
| "propagate_carry True (limb # limbs) =
     (let (next_limb, next_carry) = overflowing_add limb 1
      in next_limb # propagate_carry next_carry limbs)"

text \<open>A wide value has at least three limbs; the sources index limbs 0 and 1 without a check.\<close>

fun add_to_wide :: "nat list \<Rightarrow> nat \<Rightarrow> nat list" where
  "add_to_wide (limb0 # limb1 # limbs) v =
     (let (value_low, value_high) = split_u128 v;
          (low, low_carry) = overflowing_add limb0 value_low;
          (high_without_low_carry, high_carry) = overflowing_add limb1 value_high;
          (high, propagated_carry) = overflowing_add high_without_low_carry (of_bool low_carry)
      in low # high # propagate_carry (high_carry \<or> propagated_carry) limbs)"
| "add_to_wide limbs v = limbs"

fun add_u128 :: "LedgerMagnitude \<Rightarrow> nat \<Rightarrow> LedgerMagnitude" where
  "add_u128 (Inline current) v =
     (if v = 0 then Inline current
      else case checked fits_u128 (current + v) of
        Some s \<Rightarrow> Inline s
      | None \<Rightarrow> Wide (add_inline_values current v))"
| "add_u128 (Wide limbs) v = (if v = 0 then Wide limbs else Wide (add_to_wide limbs v))"

text \<open>\<open>Ord\<close>: inline before wide, wide by length and then from the highest limb down.\<close>

fun limbs_less :: "nat list \<Rightarrow> nat list \<Rightarrow> bool" where
  "limbs_less (x # xs) (y # ys) \<longleftrightarrow> x < y \<or> x = y \<and> limbs_less xs ys"
| "limbs_less [] (y # ys) \<longleftrightarrow> True"
| "limbs_less _ [] \<longleftrightarrow> False"

fun magnitude_less :: "LedgerMagnitude \<Rightarrow> LedgerMagnitude \<Rightarrow> bool" where
  "magnitude_less (Inline left) (Inline right) \<longleftrightarrow> left < right"
| "magnitude_less (Inline _) (Wide _) \<longleftrightarrow> True"
| "magnitude_less (Wide _) (Inline _) \<longleftrightarrow> False"
| "magnitude_less (Wide left) (Wide right) \<longleftrightarrow>
     length left < length right \<or> length left = length right \<and> limbs_less (rev left) (rev right)"

lemma limbs_less_irrefl: "\<not> limbs_less xs xs"
  by (induction xs) auto

lemma limbs_less_trans: "limbs_less xs ys \<Longrightarrow> limbs_less ys zs \<Longrightarrow> limbs_less xs zs"
  by (induction xs ys arbitrary: zs rule: limbs_less.induct) (case_tac zs; auto)+

lemma limbs_less_total: "xs = ys \<or> limbs_less xs ys \<or> limbs_less ys xs"
proof (induction xs arbitrary: ys)
  case (Cons x xs)
  then show ?case using not_less_iff_gr_or_eq by (cases ys) auto
qed (case_tac ys; simp)

lemma magnitude_less_trans: "magnitude_less a b \<Longrightarrow> magnitude_less b c \<Longrightarrow> magnitude_less a c"
  by (cases a; cases b; cases c) (auto dest: limbs_less_trans)

lemma magnitude_less_irrefl: "\<not> magnitude_less a a"
  by (cases a) (auto simp: limbs_less_irrefl)

lemma magnitude_less_total: "a = b \<or> magnitude_less a b \<or> magnitude_less b a"
proof (cases a; cases b)
  fix x y assume "a = Wide x" "b = Wide y"
  then show ?thesis using limbs_less_total [of "rev x" "rev y"] by (auto simp: not_less_iff_gr_or_eq)
qed auto

instantiation LedgerMagnitude :: linorder
begin

definition less_LedgerMagnitude :: "LedgerMagnitude \<Rightarrow> LedgerMagnitude \<Rightarrow> bool" where
  "less_LedgerMagnitude = magnitude_less"

definition less_eq_LedgerMagnitude :: "LedgerMagnitude \<Rightarrow> LedgerMagnitude \<Rightarrow> bool" where
  "less_eq_LedgerMagnitude a b \<longleftrightarrow> a = b \<or> magnitude_less a b"

instance
  by standard (use magnitude_less_trans magnitude_less_irrefl magnitude_less_total in
    \<open>unfold less_LedgerMagnitude_def less_eq_LedgerMagnitude_def, blast+\<close>)

end

section \<open>The value\<close>

fun limbs_value :: "nat list \<Rightarrow> nat" where
  "limbs_value [] = 0"
| "limbs_value (limb # limbs) = limb + 2 ^ 64 * limbs_value limbs"

fun magnitude_value :: "LedgerMagnitude \<Rightarrow> nat" where
  "magnitude_value (Inline v) = v"
| "magnitude_value (Wide limbs) = limbs_value limbs"

fun magnitude_wf :: "LedgerMagnitude \<Rightarrow> bool" where
  "magnitude_wf (Inline v) \<longleftrightarrow> fits_u128 v"
| "magnitude_wf (Wide limbs) \<longleftrightarrow> 3 \<le> length limbs \<and> list_all fits_u64 limbs \<and> last limbs \<noteq> 0"

lemma overflowing_add_exact:
  assumes "overflowing_add a b = (s, c)" "fits_u64 a" "fits_u64 b"
  shows "a + b = s + of_bool c * 2 ^ 64" "fits_u64 s" "c \<Longrightarrow> s + 1 < 2 ^ 64"
proof -
  have e: "s = (a + b) mod 2 ^ 64" "c \<longleftrightarrow> 2 ^ 64 \<le> a + b"
    using assms(1) by (auto simp: overflowing_add_def)
  have lt: "a + b < 2 * 2 ^ 64" "a + b < 2 * 2 ^ 64 - 1" using assms(2,3) by (auto simp: fits_u64_def)
  show "fits_u64 s" by (simp add: e fits_u64_def)
  show "a + b = s + of_bool c * 2 ^ 64"
    using lt(1) by (cases "2 ^ 64 \<le> a + b") (simp_all add: e le_mod_geq)
  then show "c \<Longrightarrow> s + 1 < 2 ^ 64" using lt(2) by simp
qed

lemma split_u128_exact:
  assumes "split_u128 v = (low, high)" "fits_u128 v"
  shows "v = low + 2 ^ 64 * high" "fits_u64 low" "fits_u64 high"
proof -
  have "v div 2 ^ 64 < 2 ^ 64" using assms(2) by (simp add: fits_u128_def less_mult_imp_div_less)
  then show "v = low + 2 ^ 64 * high" "fits_u64 low" "fits_u64 high"
    using assms(1) by (auto simp: split_u128_def fits_u64_def)
qed

lemma propagate_carry_exact:
  assumes "list_all fits_u64 limbs"
  shows "limbs_value (propagate_carry c limbs) = limbs_value limbs + of_bool c"
    and "list_all fits_u64 (propagate_carry c limbs)"
    and "length limbs \<le> length (propagate_carry c limbs)"
    and "limbs \<noteq> [] \<Longrightarrow> last limbs \<noteq> 0 \<Longrightarrow> last (propagate_carry c limbs) \<noteq> 0"
proof -
  have "limbs_value (propagate_carry c limbs) = limbs_value limbs + of_bool c \<and>
    list_all fits_u64 (propagate_carry c limbs) \<and> length limbs \<le> length (propagate_carry c limbs) \<and>
    (limbs \<noteq> [] \<longrightarrow> last limbs \<noteq> 0 \<longrightarrow> last (propagate_carry c limbs) \<noteq> 0) \<and>
    (c \<longrightarrow> propagate_carry c limbs \<noteq> [])"
    using assms
  proof (induction c limbs rule: propagate_carry.induct)
    case (3 limb limbs)
    obtain s k where sk: "overflowing_add limb 1 = (s, k)" by force
    have "fits_u64 limb" "fits_u64 1" using 3(2) by (simp_all add: fits_u64_def)
    note e = overflowing_add_exact [OF sk this]
    have r: "propagate_carry True (limb # limbs) = s # propagate_carry k limbs"
      using sk by (simp only: propagate_carry.simps Let_def prod.case)
    have IH: "limbs_value (propagate_carry k limbs) = limbs_value limbs + of_bool k"
      "list_all fits_u64 (propagate_carry k limbs)" "length limbs \<le> length (propagate_carry k limbs)"
      "limbs \<noteq> [] \<longrightarrow> last limbs \<noteq> 0 \<longrightarrow> last (propagate_carry k limbs) \<noteq> 0"
      using 3(1) [OF sk [symmetric] refl] 3(2) by auto
    have "limbs_value (s # propagate_carry k limbs) = limbs_value (limb # limbs) + of_bool True"
      using e(1) IH(1) by (simp add: distrib_left)
    moreover have "last (limb # limbs) \<noteq> 0 \<longrightarrow> last (s # propagate_carry k limbs) \<noteq> 0"
      using e(1) IH(3,4) by (cases "limbs = []"; cases k) (auto simp: sk)
    ultimately show ?case
      unfolding r using e(2) IH(2,3) by simp
  qed (simp_all add: fits_u64_def)
  then show "limbs_value (propagate_carry c limbs) = limbs_value limbs + of_bool c"
    and "list_all fits_u64 (propagate_carry c limbs)"
    and "length limbs \<le> length (propagate_carry c limbs)"
    and "limbs \<noteq> [] \<Longrightarrow> last limbs \<noteq> 0 \<Longrightarrow> last (propagate_carry c limbs) \<noteq> 0"
    by blast+
qed

text \<open>Adding two halves with a carry between them, the step both representations share.\<close>

lemma add_halves:
  assumes "overflowing_add a0 b0 = (low, c0)" "overflowing_add a1 b1 = (h, c1)"
    "overflowing_add h (of_bool c0) = (high, c2)"
    and "fits_u64 a0" "fits_u64 b0" "fits_u64 a1" "fits_u64 b1"
  shows "(a0 + 2 ^ 64 * a1) + (b0 + 2 ^ 64 * b1) = low + 2 ^ 64 * high + of_bool (c1 \<or> c2) * 2 ^ 128"
    and "fits_u64 low" "fits_u64 high"
proof -
  note e0 = overflowing_add_exact [OF assms(1,4,5)]
  note e1 = overflowing_add_exact [OF assms(2,6,7)]
  have "fits_u64 (of_bool c0)" by (simp add: fits_u64_def)
  note e2 = overflowing_add_exact [OF assms(3) e1(2) this]
  show "fits_u64 low" "fits_u64 high" using e0 e2 by simp_all
  have "\<not> (c1 \<and> c2)"
  proof
    assume "c1 \<and> c2"
    then have "h + 1 < 2 ^ 64" "h + of_bool c0 = high + 2 ^ 64" using e1(3) e2(1) by simp_all
    then show False by (cases c0) simp_all
  qed
  then have "of_bool (c1 \<or> c2) = (of_bool c1 + of_bool c2 :: nat)" by auto
  moreover have "(2::nat) ^ 128 = 2 ^ 64 * 2 ^ 64" by simp
  ultimately show "(a0 + 2 ^ 64 * a1) + (b0 + 2 ^ 64 * b1) = low + 2 ^ 64 * high + of_bool (c1 \<or> c2) * 2 ^ 128"
    using e0(1) e1(1) e2(1) by (simp add: algebra_simps)
qed

lemma add_inline_values_exact:
  assumes "fits_u128 a" "fits_u128 b" "\<not> fits_u128 (a + b)"
  shows "limbs_value (add_inline_values a b) = a + b" "magnitude_wf (Wide (add_inline_values a b))"
proof -
  obtain a0 a1 b0 b1 where s: "split_u128 a = (a0, a1)" "split_u128 b = (b0, b1)" by force
  obtain low c0 h c1 where o: "overflowing_add a0 b0 = (low, c0)" "overflowing_add a1 b1 = (h, c1)" by force
  obtain high c2 where o2: "overflowing_add h (of_bool c0) = (high, c2)" by force
  note sa = split_u128_exact [OF s(1) assms(1)] and sb = split_u128_exact [OF s(2) assms(2)]
  note e = add_halves [OF o o2 sa(2) sb(2) sa(3) sb(3)]
  have r: "add_inline_values a b = [low, high, 1]" by (simp add: add_inline_values_def s o o2)
  have "low + 2 ^ 64 * high < 2 ^ 128" using e(2,3) by (simp add: fits_u64_def)
  then have "c1 \<or> c2" using e(1) assms(3) sa(1) sb(1) by (cases "c1 \<or> c2") (auto simp: fits_u128_def)
  then show "limbs_value (add_inline_values a b) = a + b" unfolding r using e(1) sa(1) sb(1) by simp
  show "magnitude_wf (Wide (add_inline_values a b))" using e(2,3) by (simp add: r fits_u64_def)
qed

lemma add_to_wide_exact:
  assumes "magnitude_wf (Wide limbs)" "fits_u128 v"
  shows "limbs_value (add_to_wide limbs v) = limbs_value limbs + v" "magnitude_wf (Wide (add_to_wide limbs v))"
proof -
  obtain l0 l1 rest where l: "limbs = l0 # l1 # rest" "rest \<noteq> []"
    using assms(1) by (cases limbs; cases "tl limbs"; cases "tl (tl limbs)") auto
  have wf: "fits_u64 l0" "fits_u64 l1" "list_all fits_u64 rest" "last rest \<noteq> 0"
    using assms(1) l by simp_all
  obtain v0 v1 where s: "split_u128 v = (v0, v1)" by force
  obtain low c0 h c1 where o: "overflowing_add l0 v0 = (low, c0)" "overflowing_add l1 v1 = (h, c1)" by force
  obtain high c2 where o2: "overflowing_add h (of_bool c0) = (high, c2)" by force
  note sv = split_u128_exact [OF s assms(2)]
  note e = add_halves [OF o o2 wf(1) sv(2) wf(2) sv(3)]
  note p = propagate_carry_exact [OF wf(3), of "c1 \<or> c2"]
  have r: "add_to_wide limbs v = low # high # propagate_carry (c1 \<or> c2) rest" by (simp add: l s o o2)
  show "limbs_value (add_to_wide limbs v) = limbs_value limbs + v"
    unfolding r unfolding l(1) using e(1) p(1) sv(1)
    by (cases "c1 \<or> c2") (simp_all add: distrib_left del: de_Morgan_disj)
  show "magnitude_wf (Wide (add_to_wide limbs v))"
    using e(2,3) p(2,3) p(4) [OF l(2) wf(4)] l(2) by (cases "propagate_carry (c1 \<or> c2) rest"; cases rest) (auto simp: r)
qed

lemma add_u128_value:
  assumes "magnitude_wf m" "fits_u128 v"
  shows "magnitude_value (add_u128 m v) = magnitude_value m + v" "magnitude_wf (add_u128 m v)"
proof -
  have "magnitude_value (add_u128 m v) = magnitude_value m + v \<and> magnitude_wf (add_u128 m v)"
  proof (cases m)
    case (Inline current)
    then show ?thesis
      using assms add_inline_values_exact [of current v] by (cases "fits_u128 (current + v)") (simp_all add: checked_def)
  next
    case (Wide limbs)
    then show ?thesis using assms add_to_wide_exact [of limbs v] by simp
  qed
  then show "magnitude_value (add_u128 m v) = magnitude_value m + v" "magnitude_wf (add_u128 m v)" by auto
qed

text \<open>
  C39. Accounting aggregates never lose precision: any sequence of \<open>u128\<close> additions from zero yields the
  exact sum, whether it stays inline, spills into limbs or carries through all of them, and keeps the
  representation canonical.
\<close>

theorem add_u128_exact:
  assumes "list_all fits_u128 vs"
  shows "magnitude_value (fold (\<lambda>v m. add_u128 m v) vs magnitude_zero) = sum_list vs \<and>
    magnitude_wf (fold (\<lambda>v m. add_u128 m v) vs magnitude_zero)"
proof -
  have "magnitude_value (fold (\<lambda>v m. add_u128 m v) vs m) = magnitude_value m + sum_list vs \<and>
      magnitude_wf (fold (\<lambda>v m. add_u128 m v) vs m)" if "magnitude_wf m" for m
    using assms that
  proof (induction vs arbitrary: m)
    case (Cons v vs)
    then show ?case using Cons.IH [of "add_u128 m v"] add_u128_value [of m v] by simp
  qed simp
  from this [of magnitude_zero] show ?thesis by (simp add: magnitude_zero_def fits_u128_def)
qed

theorem add_u128_exact_witness:
  "magnitude_value (fold (\<lambda>v m. add_u128 m v) [2 ^ 128 - 1, 2 ^ 128 - 1, 5] magnitude_zero) = 2 ^ 129 + 3"
proof -
  have "list_all fits_u128 [2 ^ 128 - 1, 2 ^ 128 - 1, 5]" by (simp add: width_defs)
  from add_u128_exact [OF this] show ?thesis by simp
qed

section \<open>Order and size\<close>

lemma limbs_value_snoc: "limbs_value (xs @ [a]) = limbs_value xs + 2 ^ (64 * length xs) * a"
  by (induction xs) (simp_all add: distrib_left power_add)

lemma limbs_value_bound: "list_all fits_u64 xs \<Longrightarrow> limbs_value xs < 2 ^ (64 * length xs)"
proof (induction xs rule: rev_induct)
  case (snoc a xs)
  then have "limbs_value xs + 2 ^ (64 * length xs) * a < 2 ^ (64 * length xs) * (a + 1)" by simp
  also have "\<dots> \<le> 2 ^ (64 * length xs) * 2 ^ 64"
    using snoc.prems by (intro mult_le_mono2) (simp add: fits_u64_def)
  finally show ?case unfolding limbs_value_snoc by (simp add: power_add)
qed simp

lemma limbs_value_lower:
  assumes "xs \<noteq> []" "last xs \<noteq> 0"
  shows "2 ^ (64 * (length xs - 1)) * last xs \<le> limbs_value xs"
  using assms by (cases xs rule: rev_cases) (simp_all add: limbs_value_snoc)

lemma wide_value_bounds:
  assumes "magnitude_wf (Wide xs)"
  shows "2 ^ (64 * (length xs - 1)) \<le> limbs_value xs" "limbs_value xs < 2 ^ (64 * length xs)"
proof -
  have "2 ^ (64 * (length xs - 1)) * 1 \<le> 2 ^ (64 * (length xs - 1)) * last xs"
    using assms by (intro mult_le_mono2) simp
  moreover have "xs \<noteq> []" using assms by auto
  ultimately show "2 ^ (64 * (length xs - 1)) \<le> limbs_value xs"
    using limbs_value_lower [of xs] assms by (intro order_trans [OF _ limbs_value_lower]) auto
  show "limbs_value xs < 2 ^ (64 * length xs)" using assms limbs_value_bound by simp
qed

lemma limbs_less_value:
  assumes "length xs = length ys" "list_all fits_u64 xs" "list_all fits_u64 ys"
  shows "limbs_less (rev xs) (rev ys) \<longleftrightarrow> limbs_value xs < limbs_value ys"
  using assms
proof (induction xs arbitrary: ys rule: rev_induct)
  case (snoc a xs)
  then obtain ys' b where ys: "ys = ys' @ [b]" "length xs = length ys'" by (cases ys rule: rev_cases) auto
  let ?w = "2 ^ (64 * length xs) :: nat"
  have v: "limbs_value xs < ?w" "limbs_value ys' < ?w"
    using limbs_value_bound [of xs] limbs_value_bound [of ys'] snoc.prems ys by simp_all
  have step: "limbs_value u + ?w * c < limbs_value w + ?w * d"
    if "c < d" "limbs_value u < ?w" for c d u w
  proof -
    have "?w * (c + 1) \<le> ?w * d" using that(1) by (intro mult_le_mono2) simp
    then show ?thesis using that(2) by simp
  qed
  show ?case
    using snoc.IH [OF ys(2)] snoc.prems ys step [of a b xs ys'] step [of b a ys' xs] v
    by (cases a b rule: linorder_cases) (auto simp: limbs_value_snoc)
qed simp

lemma magnitude_less_value:
  assumes "magnitude_wf x" "magnitude_wf y"
  shows "magnitude_less x y \<longleftrightarrow> magnitude_value x < magnitude_value y"
proof -
  have wide: "v < limbs_value xs" if "fits_u128 v" "magnitude_wf (Wide xs)" for v xs
  proof -
    have "(2::nat) ^ 128 \<le> 2 ^ (64 * (length xs - 1))" using that(2) by (intro power_increasing) auto
    then show ?thesis using wide_value_bounds(1) [OF that(2)] that(1) unfolding fits_u128_def by linarith
  qed
  have shorter: "limbs_value xs < limbs_value ys"
    if "magnitude_wf (Wide xs)" "magnitude_wf (Wide ys)" "length xs < length ys" for xs ys
  proof -
    have "(2::nat) ^ (64 * length xs) \<le> 2 ^ (64 * (length ys - 1))" using that(3) by (intro power_increasing) auto
    then show ?thesis using wide_value_bounds [OF that(1)] wide_value_bounds [OF that(2)] by linarith
  qed
  show ?thesis
  proof (cases x; cases y)
    fix xs ys assume *: "x = Wide xs" "y = Wide ys"
    then show ?thesis
      using assms shorter [of xs ys] shorter [of ys xs] limbs_less_value [of xs ys]
      by (cases "length xs" "length ys" rule: linorder_cases) (auto dest: less_asym)
  next
    fix v ys assume "x = Inline v" "y = Wide ys"
    then show ?thesis using assms wide [of v ys] by simp
  next
    fix xs v assume "x = Wide xs" "y = Inline v"
    then show ?thesis using assms wide [of v xs] by simp
  qed simp
qed

lemma magnitude_eq_value:
  "magnitude_wf x \<Longrightarrow> magnitude_wf y \<Longrightarrow> x = y \<longleftrightarrow> magnitude_value x = magnitude_value y"
  using magnitude_less_value [of x y] magnitude_less_value [of y x] magnitude_less_total [of x y] by auto

text \<open>
  C40. The derived order of two canonical aggregates is the order of their values, across both
  representations; so comparing representations compares amounts.
\<close>

theorem magnitude_order_exact:
  assumes "magnitude_wf a" "magnitude_wf b"
  shows "(a < b \<longleftrightarrow> magnitude_value a < magnitude_value b) \<and> (a = b \<longleftrightarrow> magnitude_value a = magnitude_value b)"
  using magnitude_less_value [OF assms] magnitude_eq_value [OF assms] by (simp add: less_LedgerMagnitude_def)

theorem magnitude_order_exact_witness:
  "Inline (2 ^ 128 - 1) < Wide [0, 0, 1] \<and> Wide [5, 0, 1] < Wide [0, 1, 1]"
proof -
  have "magnitude_wf (Inline (2 ^ 128 - 1))" "magnitude_wf (Wide [0, 0, 1])" "magnitude_wf (Wide [5, 0, 1])"
    "magnitude_wf (Wide [0, 1, 1])" by (simp_all add: width_defs)
  then show ?thesis
    using magnitude_order_exact [of "Inline (2 ^ 128 - 1)" "Wide [0, 0, 1]"]
      magnitude_order_exact [of "Wide [5, 0, 1]" "Wide [0, 1, 1]"] by simp
qed

text \<open>The number of significant bits: \<open>w - leading_zeros\<close> of the highest limb, plus the full limbs below it.\<close>

fun bit_length :: "nat \<Rightarrow> nat" where
  "bit_length n = (if n = 0 then 0 else Suc (bit_length (n div 2)))"

declare bit_length.simps [simp del]

definition leading_zeros :: "nat \<Rightarrow> nat \<Rightarrow> nat" where
  "leading_zeros width n = width - bit_length n"

fun significant_bits :: "LedgerMagnitude \<Rightarrow> nat option" where
  "significant_bits (Inline v) = (if v = 0 then Some 0 else checked fits_usize (128 - leading_zeros 128 v))"
| "significant_bits (Wide limbs) =
     (if limbs = [] then None
      else Option.bind (checked fits_usize ((length limbs - 1) * 64)) (\<lambda>complete_limb_bits.
        checked fits_usize (complete_limb_bits + (64 - leading_zeros 64 (last limbs)))))"

lemma bit_length_bounds: "n \<noteq> 0 \<Longrightarrow> 2 ^ (bit_length n - 1) \<le> n \<and> n < 2 ^ bit_length n"
proof (induction n rule: bit_length.induct)
  case (1 n)
  show ?case
  proof (cases "n div 2 = 0")
    case True
    then have "n = 1" using 1(2) by simp
    then show ?thesis by (simp add: bit_length.simps)
  next
    case False
    have "bit_length n = Suc (bit_length (n div 2))" using 1(2) by (subst bit_length.simps) simp
    moreover have "0 < bit_length (n div 2)" using False by (subst bit_length.simps) simp
    then obtain k where "bit_length (n div 2) = Suc k" using gr0_implies_Suc by blast
    ultimately show ?thesis using 1(1) [OF 1(2) False] by auto
  qed
qed

lemma bit_length_le: "n < 2 ^ w \<Longrightarrow> bit_length n \<le> w"
proof (cases "n = 0")
  case False
  assume "n < 2 ^ w"
  then have "(2::nat) ^ (bit_length n - 1) < 2 ^ w" using bit_length_bounds [OF False] by linarith
  then have "bit_length n - 1 < w" by (rule power_less_imp_less_exp [rotated]) simp
  then show ?thesis by linarith
qed (simp add: bit_length.simps)

lemma bit_length_pos: "n \<noteq> 0 \<Longrightarrow> 0 < bit_length n"
  by (subst bit_length.simps) simp

text \<open>
  C33. The reported number of significant bits is exact: a non-zero aggregate with \<open>b\<close> significant bits
  lies between \<open>2 ^ (b - 1)\<close> and \<open>2 ^ b\<close>.
\<close>

theorem significant_bits_exact:
  assumes "magnitude_wf m" "significant_bits m = Some b" "magnitude_value m \<noteq> 0"
  shows "0 < b \<and> 2 ^ (b - 1) \<le> magnitude_value m \<and> magnitude_value m < 2 ^ b"
proof (cases m)
  case (Inline v)
  then have "b = bit_length v"
    using assms bit_length_le [of v 128] by (simp add: leading_zeros_def fits_u128_def)
  then show ?thesis using Inline assms(3) bit_length_bounds bit_length_pos by simp
next
  case (Wide limbs)
  have "limbs \<noteq> []" using assms(1) Wide by auto
  then have wf: "limbs \<noteq> []" "fits_u64 (last limbs)" "last limbs \<noteq> 0" "list_all fits_u64 (butlast limbs)"
    using assms(1) Wide last_in_set [of limbs] by (auto simp: list_all_iff dest: in_set_butlastD)
  let ?k = "length limbs - 1" and ?h = "bit_length (last limbs)"
  have b: "b = 64 * ?k + ?h"
    using assms(2) Wide wf bit_length_le [of "last limbs" 64]
    by (auto simp: leading_zeros_def fits_u64_def checked_def split: if_splits)
  have limbs: "limbs_value limbs = limbs_value (butlast limbs) + 2 ^ (64 * ?k) * last limbs"
    using limbs_value_snoc [of "butlast limbs" "last limbs"] wf(1) by simp
  have low: "limbs_value (butlast limbs) < 2 ^ (64 * ?k)" using limbs_value_bound [OF wf(4)] by simp
  note h = bit_length_bounds [OF wf(3)] bit_length_pos [OF wf(3)]
  have "limbs_value limbs < 2 ^ (64 * ?k) * (last limbs + 1)" using limbs low by simp
  also have "\<dots> \<le> 2 ^ (64 * ?k) * 2 ^ ?h" using h by (intro mult_le_mono2) simp
  finally have "limbs_value limbs < 2 ^ b" by (simp add: b power_add)
  moreover have "2 ^ (64 * ?k) * 2 ^ (?h - 1) \<le> 2 ^ (64 * ?k) * last limbs" using h by (intro mult_le_mono2) simp
  then have "2 ^ (b - 1) \<le> limbs_value limbs"
    using limbs h by (simp add: b power_add [symmetric])
  ultimately show ?thesis using Wide h by (simp add: b)
qed

theorem significant_bits_exact_witness:
  "significant_bits (Wide [0, 7, 5]) = Some 131 \<and> 2 ^ 130 \<le> magnitude_value (Wide [0, 7, 5])"
proof -
  have e: "significant_bits (Wide [0, 7, 5]) = Some 131"
    by (simp add: leading_zeros_def width_defs bit_length.simps)
  have "magnitude_wf (Wide [0, 7, 5])" by (simp add: width_defs)
  then show ?thesis using significant_bits_exact [OF _ e] e by simp
qed

end
