(* ===== verification/LedgerEntry.thy ===== *)
theory LedgerEntry
  imports LedgerMagnitude
begin

text \<open>
  Journal entries, corrections and batches of \<open>src/src/ledger.rs\<close>: what their constructors check and
  what a constructed value therefore satisfies. The allocator is the parameter \<open>reserve\<close>: what
  \<open>try_reserve_exact\<close> answers for a preparation resource and a count.

  The theorems: the posting validation accepts exactly the canonical, duplicate-free entries whose
  signed amounts cancel per asset; an exact reversal is its inverse; a settlement entry moves the
  traded quantity and the notional between the two accounts.
\<close>

section \<open>Resources and errors\<close>

datatype LedgerResource =
    BalanceKeys | Transactions | Reversals | Records | RetainedPostings | PostingsPerTransaction
  | TransactionsPerRecord

datatype LedgerPreparationResource =
    ReversalPostings | CallAuctionFeePostings | CallAuctionFeeAssessments | CallAuctionCalculatedFees
  | CallAuctionSettlementEntries | CallAuctionCorrectionEntries | BatchIdentitySet | PendingTransactions
  | PendingReversals | NewReversals | BalanceTerms | BalanceUpdates

type_synonym reserve = "LedgerPreparationResource \<Rightarrow> nat \<Rightarrow> bool"

datatype LedgerError =
    TooFewPostings
  | ZeroPosting
  | DuplicateAccountAsset
  | Unbalanced AssetId LedgerMagnitude LedgerMagnitude
  | ArithmeticOverflow
  | CapacityExceeded LedgerResource nat nat
  | PreparationAllocationFailed LedgerPreparationResource
  | TransactionIdCollision TransactionId
  | SelfSettlement
  | IdenticalSettlementAssets
  | ZeroSettlementMultiplier
  | SettlementInstrumentMismatch
  | SettlementVersionMismatch
  | StalePreparation
  | ReversalTargetMissing TransactionId
  | TransactionAlreadyReversed TransactionId TransactionId
  | InvalidReversalPostings TransactionId
  | NonReversibleAmount TransactionId AccountId AssetId
  | FinancialEntryMissingEffectiveDate
  | ControlEntryHasEffectiveDate
  | ControlEntryHasPostings
  | AccountingPeriodClosed AccountingDate AccountingDate
  | PeriodCloseNotAdvancing "AccountingDate option" AccountingDate
  | AccountingPeriodAlreadyOpen
  | InvalidPeriodReopen AccountingDate "AccountingDate option"
  | RecordedTimestampRegression TimestampNs TimestampNs
  | NonFinancialReversalTarget TransactionId
  | CorrectionReplacementNotStandard TransactionId
  | CorrectionFirstEntryNotReversal TransactionId
  | CorrectionTransactionIdsNotDistinct TransactionId TransactionId
  | CorrectionAlreadyPartiallyCommitted TransactionId
  | BatchTooFewEntries
  | BatchDuplicateTransaction TransactionId
  | BatchAlreadyPartiallyCommitted TransactionId

section \<open>Postings\<close>

record Posting =
  account_id :: AccountId
  asset_id :: AssetId
  amount :: int

datatype LedgerEntryKind =
    Standard
  | Reversal TransactionId
  | PeriodClose AccountingDate
  | PeriodReopen "AccountingDate option"

record JournalEntry =
  transaction_id :: TransactionId
  entry_reference :: nat
  effective_date :: "AccountingDate option"
  recorded_at :: TimestampNs
  postings :: "Posting list"
  entry_kind :: LedgerEntryKind

text \<open>The order postings are kept in.\<close>

definition posting_order :: "Posting \<Rightarrow> AssetId \<times> AccountId" where
  "posting_order posting = (asset_id posting, account_id posting)"

record AssetSideTotals =
  positive_total :: LedgerMagnitude
  negative_total :: LedgerMagnitude

definition default_totals :: AssetSideTotals where
  "default_totals = \<lparr>positive_total = magnitude_zero, negative_total = magnitude_zero\<rparr>"

definition totals_add :: "AssetSideTotals \<Rightarrow> int \<Rightarrow> AssetSideTotals" where
  "totals_add totals v =
     (case cmp v 0 of
        Greater \<Rightarrow> totals\<lparr>positive_total := add_u128 (positive_total totals) (nat \<bar>v\<bar>)\<rparr>
      | Less \<Rightarrow> totals\<lparr>negative_total := add_u128 (negative_total totals) (nat \<bar>v\<bar>)\<rparr>
      | Equal \<Rightarrow> totals)"

definition totals_balanced :: "AssetSideTotals \<Rightarrow> bool" where
  "totals_balanced totals \<longleftrightarrow> positive_total totals = negative_total totals"

text \<open>The loop over the sorted postings, which closes the totals of an asset when the asset changes.\<close>

fun check_balanced :: "AssetId \<Rightarrow> AssetSideTotals \<Rightarrow> Posting list \<Rightarrow> LedgerError + unit" where
  "check_balanced asset totals [] =
     (if totals_balanced totals then Inr ()
      else Inl (Unbalanced asset (positive_total totals) (negative_total totals)))"
| "check_balanced asset totals (posting # rest) =
     (if asset_id posting \<noteq> asset
      then if \<not> totals_balanced totals
           then Inl (Unbalanced asset (positive_total totals) (negative_total totals))
           else check_balanced (asset_id posting) (totals_add default_totals (amount posting)) rest
      else check_balanced asset (totals_add totals (amount posting)) rest)"

definition validate_postings :: "Posting list \<Rightarrow> LedgerError + unit" where
  "validate_postings ps =
     (if length ps < 2 then Inl TooFewPostings
      else if list_ex (\<lambda>posting. amount posting = 0) ps then Inl ZeroPosting
      else if windows_any (\<lambda>p q. (account_id p, asset_id p) = (account_id q, asset_id q)) ps
      then Inl DuplicateAccountAsset
      else check_balanced (asset_id (hd ps)) default_totals ps)"

section \<open>Entries\<close>

definition with_kind ::
    "TransactionId \<Rightarrow> nat \<Rightarrow> AccountingDate option \<Rightarrow> TimestampNs \<Rightarrow> Posting list \<Rightarrow> LedgerEntryKind
     \<Rightarrow> LedgerError + JournalEntry"
where
  "with_kind tid ref date recorded ps kind =
     (let sorted = sort_key posting_order ps
      in and_then
           (case kind of
              Standard \<Rightarrow>
                and_then (ensure (date \<noteq> None) FinancialEntryMissingEffectiveDate) (\<lambda>_. validate_postings sorted)
            | Reversal _ \<Rightarrow>
                and_then (ensure (date \<noteq> None) FinancialEntryMissingEffectiveDate) (\<lambda>_. validate_postings sorted)
            | PeriodClose _ \<Rightarrow>
                and_then (ensure (date = None) ControlEntryHasEffectiveDate)
                  (\<lambda>_. ensure (sorted = []) ControlEntryHasPostings)
            | PeriodReopen _ \<Rightarrow>
                and_then (ensure (date = None) ControlEntryHasEffectiveDate)
                  (\<lambda>_. ensure (sorted = []) ControlEntryHasPostings))
           (\<lambda>_. Inr \<lparr>transaction_id = tid, entry_reference = ref, effective_date = date, recorded_at = recorded,
                     postings = sorted, entry_kind = kind\<rparr>))"

definition journal_entry_new ::
    "TransactionId \<Rightarrow> nat \<Rightarrow> AccountingDate \<Rightarrow> TimestampNs \<Rightarrow> Posting list \<Rightarrow> LedgerError + JournalEntry"
where
  "journal_entry_new tid ref date recorded ps = with_kind tid ref (Some date) recorded ps Standard"

fun is_control :: "LedgerEntryKind \<Rightarrow> bool" where
  "is_control (PeriodClose _) \<longleftrightarrow> True"
| "is_control (PeriodReopen _) \<longleftrightarrow> True"
| "is_control _ \<longleftrightarrow> False"

fun negate_postings :: "TransactionId \<Rightarrow> Posting list \<Rightarrow> LedgerError + Posting list" where
  "negate_postings original [] = Inr []"
| "negate_postings original (posting # rest) =
     and_then (ok_or (checked fits_i128 (- amount posting))
                (NonReversibleAmount original (account_id posting) (asset_id posting))) (\<lambda>negated.
     and_then (negate_postings original rest) (\<lambda>negated_rest.
       Inr (posting\<lparr>amount := negated\<rparr> # negated_rest)))"

definition reversal ::
    "reserve \<Rightarrow> TransactionId \<Rightarrow> nat \<Rightarrow> AccountingDate \<Rightarrow> TimestampNs \<Rightarrow> JournalEntry \<Rightarrow> LedgerError + JournalEntry"
where
  "reversal reserve tid ref date recorded original =
     (if is_control (entry_kind original) then Inl (NonFinancialReversalTarget (transaction_id original))
      else and_then (ensure (reserve ReversalPostings (length (postings original)))
                       (PreparationAllocationFailed ReversalPostings)) (\<lambda>_.
           and_then (negate_postings (transaction_id original) (postings original)) (\<lambda>ps.
             with_kind tid ref (Some date) recorded ps (Reversal (transaction_id original)))))"

definition period_close ::
    "TransactionId \<Rightarrow> nat \<Rightarrow> TimestampNs \<Rightarrow> AccountingDate \<Rightarrow> LedgerError + JournalEntry"
where
  "period_close tid ref recorded through = with_kind tid ref None recorded [] (PeriodClose through)"

definition period_reopen ::
    "TransactionId \<Rightarrow> nat \<Rightarrow> TimestampNs \<Rightarrow> AccountingDate option \<Rightarrow> LedgerError + JournalEntry"
where
  "period_reopen tid ref recorded through = with_kind tid ref None recorded [] (PeriodReopen through)"

fun reversed_transaction :: "LedgerEntryKind \<Rightarrow> TransactionId option" where
  "reversed_transaction (Reversal tid) = Some tid"
| "reversed_transaction _ = None"

section \<open>Settlement\<close>

record SettlementConvention =
  base_asset_id :: AssetId
  quote_asset_id :: AssetId
  base_units_per_lot :: nat
  quote_units_per_price_unit :: nat

record SettlementExecution =
  exec_reference :: nat
  exec_buyer :: AccountId
  exec_seller :: AccountId
  exec_price :: Price
  exec_quantity :: Quantity

definition validate_settlement_convention :: "SettlementConvention \<Rightarrow> LedgerError + unit" where
  "validate_settlement_convention convention =
     and_then (ensure (base_asset_id convention \<noteq> quote_asset_id convention) IdenticalSettlementAssets) (\<lambda>_.
       ensure (\<not> (base_units_per_lot convention = 0 \<or> quote_units_per_price_unit convention = 0))
         ZeroSettlementMultiplier)"

definition settlement_amounts ::
    "Price \<Rightarrow> Quantity \<Rightarrow> SettlementConvention \<Rightarrow> LedgerError + int \<times> int \<times> int"
where
  "settlement_amounts price quantity convention =
     and_then (validate_settlement_convention convention) (\<lambda>_.
     and_then (ok_or (checked fits_i128 (int quantity * int (base_units_per_lot convention))) ArithmeticOverflow)
       (\<lambda>base_amount.
     and_then (ok_or (Option.bind (checked fits_i128 (price * int quantity)) (\<lambda>v.
                 checked fits_i128 (v * int (quote_units_per_price_unit convention)))) ArithmeticOverflow)
       (\<lambda>notional.
     and_then (ok_or (checked fits_i128 (- notional)) ArithmeticOverflow) (\<lambda>opposite_notional.
       Inr (base_amount, notional, opposite_notional)))))"

definition from_settlement_execution ::
    "TransactionId \<Rightarrow> AccountingDate \<Rightarrow> TimestampNs \<Rightarrow> SettlementExecution \<Rightarrow> SettlementConvention
     \<Rightarrow> LedgerError + JournalEntry"
where
  "from_settlement_execution tid date recorded execution convention =
     and_then (ensure (exec_buyer execution \<noteq> exec_seller execution) SelfSettlement) (\<lambda>_.
     and_then (settlement_amounts (exec_price execution) (exec_quantity execution) convention)
       (\<lambda>(base_amount, notional, opposite_notional).
         journal_entry_new tid (exec_reference execution) date recorded
           ([\<lparr>account_id = exec_buyer execution, asset_id = base_asset_id convention, amount = base_amount\<rparr>,
             \<lparr>account_id = exec_seller execution, asset_id = base_asset_id convention, amount = - base_amount\<rparr>] @
            (if notional \<noteq> 0
             then [\<lparr>account_id = exec_buyer execution, asset_id = quote_asset_id convention, amount = opposite_notional\<rparr>,
                   \<lparr>account_id = exec_seller execution, asset_id = quote_asset_id convention, amount = notional\<rparr>]
             else []))))"

definition from_trade ::
    "TransactionId \<Rightarrow> AccountingDate \<Rightarrow> TimestampNs \<Rightarrow> Trade \<Rightarrow> SettlementConvention \<Rightarrow> LedgerError + JournalEntry"
where
  "from_trade tid date recorded trade convention =
     from_settlement_execution tid date recorded
       \<lparr>exec_reference = trade_id trade, exec_buyer = buyer_account_id trade, exec_seller = seller_account_id trade,
        exec_price = trade_price trade, exec_quantity = trade_quantity trade\<rparr> convention"

section \<open>Corrections and batches\<close>

record LedgerCorrection =
  correction_reversal :: JournalEntry
  correction_replacement :: JournalEntry

definition correction_from_parts :: "JournalEntry \<Rightarrow> JournalEntry \<Rightarrow> LedgerError + LedgerCorrection" where
  "correction_from_parts rev_entry repl =
     (case entry_kind rev_entry of
        Reversal reversed_transaction_id \<Rightarrow>
          and_then (ensure (entry_kind repl = Standard) (CorrectionReplacementNotStandard (transaction_id repl))) (\<lambda>_.
          and_then (ensure (transaction_id rev_entry \<noteq> transaction_id repl)
                     (CorrectionTransactionIdsNotDistinct (transaction_id rev_entry) (transaction_id repl))) (\<lambda>_.
          and_then (ensure (transaction_id rev_entry \<noteq> reversed_transaction_id)
                     (TransactionIdCollision (transaction_id rev_entry))) (\<lambda>_.
          and_then (ensure (transaction_id repl \<noteq> reversed_transaction_id)
                     (TransactionIdCollision (transaction_id repl))) (\<lambda>_.
          and_then (ensure (recorded_at rev_entry \<le> recorded_at repl)
                     (RecordedTimestampRegression (recorded_at rev_entry) (recorded_at repl))) (\<lambda>_.
            Inr \<lparr>correction_reversal = rev_entry, correction_replacement = repl\<rparr>)))))
      | _ \<Rightarrow> Inl (CorrectionFirstEntryNotReversal (transaction_id rev_entry)))"

definition correction_new ::
    "reserve \<Rightarrow> TransactionId \<Rightarrow> nat \<Rightarrow> AccountingDate \<Rightarrow> TimestampNs \<Rightarrow> JournalEntry \<Rightarrow> JournalEntry
     \<Rightarrow> LedgerError + LedgerCorrection"
where
  "correction_new reserve tid ref date recorded repl original =
     and_then (reversal reserve tid ref date recorded original) (\<lambda>rev_entry. correction_from_parts rev_entry repl)"

text \<open>A constructed correction starts with a reversal; the last case is the \<open>unreachable!\<close> of the sources.\<close>

fun corrected_transaction_id :: "LedgerEntryKind \<Rightarrow> TransactionId" where
  "corrected_transaction_id (Reversal tid) = tid"
| "corrected_transaction_id _ = 0"

datatype LedgerBatch = LedgerBatch (batch_entries: "JournalEntry list")

fun check_batch_ids :: "TransactionId set \<Rightarrow> JournalEntry list \<Rightarrow> LedgerError + unit" where
  "check_batch_ids seen [] = Inr ()"
| "check_batch_ids seen (entry # rest) =
     (if transaction_id entry \<in> seen then Inl (BatchDuplicateTransaction (transaction_id entry))
      else check_batch_ids (insert (transaction_id entry) seen) rest)"

definition batch_new :: "reserve \<Rightarrow> JournalEntry list \<Rightarrow> LedgerError + LedgerBatch" where
  "batch_new reserve entries =
     and_then (ensure (2 \<le> length entries) BatchTooFewEntries) (\<lambda>_.
     and_then (ensure (reserve BatchIdentitySet (length entries)) (PreparationAllocationFailed BatchIdentitySet)) (\<lambda>_.
     and_then (check_batch_ids {} entries) (\<lambda>_.
       case windows_find (\<lambda>a b. recorded_at b < recorded_at a) entries of
         Some (a, b) \<Rightarrow> Inl (RecordedTimestampRegression (recorded_at a) (recorded_at b))
       | None \<Rightarrow> Inr (LedgerBatch entries))))"

section \<open>Well-formed entries\<close>

text \<open>The signed effect of postings on one balance and on one asset.\<close>

definition posting_key :: "Posting \<Rightarrow> AccountId \<times> AssetId" where
  "posting_key posting = (account_id posting, asset_id posting)"

definition posting_sum :: "Posting list \<Rightarrow> AccountId \<times> AssetId \<Rightarrow> int" where
  "posting_sum ps key = sum_list (map amount (filter (\<lambda>posting. posting_key posting = key) ps))"

definition asset_sum :: "Posting list \<Rightarrow> AssetId \<Rightarrow> int" where
  "asset_sum ps asset = sum_list (map amount (filter (\<lambda>posting. asset_id posting = asset) ps))"

definition typed_postings :: "Posting list \<Rightarrow> bool" where
  "typed_postings ps \<longleftrightarrow> (\<forall>posting \<in> set ps. fits_i128 (amount posting))"

definition postings_balanced :: "Posting list \<Rightarrow> bool" where
  "postings_balanced ps \<longleftrightarrow> 2 \<le> length ps \<and> (\<forall>posting \<in> set ps. amount posting \<noteq> 0) \<and>
     distinct (map posting_key ps) \<and> (\<forall>asset. asset_sum ps asset = 0)"

definition postings_wf :: "Posting list \<Rightarrow> bool" where
  "postings_wf ps \<longleftrightarrow> typed_postings ps \<and> postings_balanced ps \<and> sorted (map posting_order ps)"

definition entry_wf :: "JournalEntry \<Rightarrow> bool" where
  "entry_wf entry \<longleftrightarrow>
     (if is_control (entry_kind entry) then effective_date entry = None \<and> postings entry = []
      else effective_date entry \<noteq> None \<and> postings_wf (postings entry))"

lemma posting_sum_Cons [simp]:
  "posting_sum [] key = 0"
  "posting_sum (p # ps) key = (if posting_key p = key then amount p else 0) + posting_sum ps key"
  by (simp_all add: posting_sum_def)

lemma posting_sum_append [simp]: "posting_sum (ps @ qs) key = posting_sum ps key + posting_sum qs key"
  by (simp add: posting_sum_def)

lemma asset_sum_Cons [simp]:
  "asset_sum [] asset = 0"
  "asset_sum (p # ps) asset = (if asset_id p = asset then amount p else 0) + asset_sum ps asset"
  by (simp_all add: asset_sum_def)

lemma asset_sum_absent: "asset \<notin> asset_id ` set ps \<Longrightarrow> asset_sum ps asset = 0"
  by (induction ps) auto

lemma posting_sum_absent: "key \<notin> posting_key ` set ps \<Longrightarrow> posting_sum ps key = 0"
  by (induction ps) auto

lemma asset_sum_mset: "mset ps = mset qs \<Longrightarrow> asset_sum ps asset = asset_sum qs asset"
  by (simp add: asset_sum_def flip: sum_mset_sum_list)

lemma posting_sum_mset: "mset ps = mset qs \<Longrightarrow> posting_sum ps key = posting_sum qs key"
  by (simp add: posting_sum_def flip: sum_mset_sum_list)

lemma sort_key_Nil [simp]: "sort_key f ps = [] \<longleftrightarrow> ps = []"
  by (metis length_sort length_0_conv)

text \<open>The running totals of one asset, read as their difference.\<close>

definition totals_wf :: "AssetSideTotals \<Rightarrow> bool" where
  "totals_wf totals \<longleftrightarrow> magnitude_wf (positive_total totals) \<and> magnitude_wf (negative_total totals)"

definition net_total :: "AssetSideTotals \<Rightarrow> int" where
  "net_total totals = int (magnitude_value (positive_total totals)) - int (magnitude_value (negative_total totals))"

lemma default_totals [simp]: "totals_wf default_totals" "net_total default_totals = 0"
  by (simp_all add: default_totals_def totals_wf_def net_total_def magnitude_zero_def fits_u128_def)

lemma totals_add:
  assumes "totals_wf totals" "fits_i128 v"
  shows "totals_wf (totals_add totals v)" "net_total (totals_add totals v) = net_total totals + v"
proof -
  have "\<bar>v\<bar> \<le> 2 ^ 127" using assms(2) by (auto simp: fits_i128_def)
  then have "nat \<bar>v\<bar> \<le> 2 ^ 127" by (simp add: nat_le_iff)
  then have "fits_u128 (nat \<bar>v\<bar>)" by (simp add: fits_u128_def)
  note add = add_u128_value [OF _ this]
  show "totals_wf (totals_add totals v)"
    using assms add unfolding totals_wf_def totals_add_def by (auto split: Ordering.split)
  show "net_total (totals_add totals v) = net_total totals + v"
    using assms add
    by (cases v "0 :: int" rule: linorder_cases) (simp_all add: cmp_def totals_wf_def totals_add_def net_total_def)
qed

lemma totals_balanced_iff: "totals_wf totals \<Longrightarrow> totals_balanced totals \<longleftrightarrow> net_total totals = 0"
  using magnitude_eq_value by (auto simp: totals_wf_def totals_balanced_def net_total_def)

lemma check_balanced_iff:
  assumes "totals_wf totals" "typed_postings ps" "sorted (map asset_id ps)" "\<forall>posting \<in> set ps. asset \<le> asset_id posting"
  shows "check_balanced asset totals ps = Inr () \<longleftrightarrow>
    net_total totals + asset_sum ps asset = 0 \<and> (\<forall>other. other \<noteq> asset \<longrightarrow> asset_sum ps other = 0)"
  using assms
proof (induction asset totals ps rule: check_balanced.induct)
  case (1 asset totals)
  then show ?case by (simp add: totals_balanced_iff)
next
  case (2 asset totals p ps)
  have p: "fits_i128 (amount p)" "typed_postings ps" "sorted (map asset_id ps)" "\<forall>q \<in> set ps. asset_id p \<le> asset_id q"
    using "2.prems"(2,3) by (auto simp: typed_postings_def intro: order_trans)
  show ?case
  proof (cases "asset_id p = asset")
    case True
    then have "check_balanced asset totals (p # ps) = check_balanced asset (totals_add totals (amount p)) ps" by simp
    also have "\<dots> = Inr () \<longleftrightarrow> net_total (totals_add totals (amount p)) + asset_sum ps asset = 0 \<and>
        (\<forall>other. other \<noteq> asset \<longrightarrow> asset_sum ps other = 0)"
      using "2.IH"(2) True totals_add(1) [OF "2.prems"(1) p(1)] p by auto
    finally show ?thesis using True totals_add(2) [OF "2.prems"(1) p(1)] by (simp add: algebra_simps)
  next
    case False
    then have "asset < asset_id p" using "2.prems"(4) by simp
    then have absent: "asset_sum ps asset = 0" using p(4) by (intro asset_sum_absent) force
    have IH: "check_balanced (asset_id p) (totals_add default_totals (amount p)) ps = Inr () \<longleftrightarrow>
        amount p + asset_sum ps (asset_id p) = 0 \<and> (\<forall>other. other \<noteq> asset_id p \<longrightarrow> asset_sum ps other = 0)"
      if "totals_balanced totals"
      using "2.IH"(1) False that totals_add [OF default_totals(1) p(1)] p by simp
    show ?thesis
      using False absent IH totals_balanced_iff [OF "2.prems"(1)] by (auto simp: \<open>asset < asset_id p\<close>)
  qed
qed

lemma posting_order_key: "posting_order p = posting_order q \<longleftrightarrow> posting_key p = posting_key q"
  by (auto simp: posting_order_def posting_key_def)

lemma windows_duplicate:
  assumes "sorted (map posting_order ps)"
  shows "windows_any (\<lambda>p q. (account_id p, asset_id p) = (account_id q, asset_id q)) ps \<longleftrightarrow>
    \<not> distinct (map posting_key ps)"
  using assms
proof (induction ps rule: induct_list012)
  case (3 p q ps)
  have "posting_key p \<in> posting_key ` set (q # ps) \<longleftrightarrow> posting_key p = posting_key q"
  proof
    assume "posting_key p \<in> posting_key ` set (q # ps)"
    then obtain r where r: "r \<in> set (q # ps)" "posting_key p = posting_key r" by auto
    have "posting_order p \<le> posting_order q" "posting_order q \<le> posting_order r" using 3(3) r(1) by auto
    moreover have "posting_order p = posting_order r" using r(2) by (simp add: posting_order_key)
    ultimately have "posting_order p = posting_order q" by (metis order_antisym)
    then show "posting_key p = posting_key q" by (simp add: posting_order_key)
  qed simp
  then show ?case using 3 by (auto simp: posting_key_def)
qed simp_all

lemma sorted_assets: "sorted (map posting_order ps) \<Longrightarrow> sorted (map asset_id ps)"
  by (induction ps) (auto simp: posting_order_def)

lemma validate_postings_iff:
  assumes "typed_postings ps" "sorted (map posting_order ps)"
  shows "validate_postings ps = Inr () \<longleftrightarrow> postings_balanced ps"
proof (cases ps)
  case (Cons p rest)
  note sorted = sorted_assets [OF assms(2)]
  have "check_balanced (asset_id (hd ps)) default_totals ps = Inr () \<longleftrightarrow>
      net_total default_totals + asset_sum ps (asset_id (hd ps)) = 0 \<and>
      (\<forall>other. other \<noteq> asset_id (hd ps) \<longrightarrow> asset_sum ps other = 0)"
    by (rule check_balanced_iff [OF default_totals(1) assms(1) sorted]) (use sorted Cons in simp)
  then have "check_balanced (asset_id (hd ps)) default_totals ps = Inr () \<longleftrightarrow> (\<forall>asset. asset_sum ps asset = 0)"
    unfolding default_totals add_0 by metis
  then show ?thesis
    using windows_duplicate [OF assms(2)]
    by (simp add: validate_postings_def postings_balanced_def list_ex_iff not_less del: check_balanced.simps)
qed (simp add: validate_postings_def postings_balanced_def)

lemma typed_mset: "mset ps = mset qs \<Longrightarrow> typed_postings ps = typed_postings qs"
  by (metis typed_postings_def set_mset_mset)

lemma balanced_mset: "mset ps = mset qs \<Longrightarrow> postings_balanced ps = postings_balanced qs"
  unfolding postings_balanced_def
  by (metis asset_sum_mset mset_eq_imp_distinct_iff mset_map set_mset_mset size_mset)

lemma with_kind_financial:
  assumes "typed_postings ps" "\<not> is_control kind"
  shows "with_kind tid ref date recorded ps kind = Inr e \<longleftrightarrow> date \<noteq> None \<and> postings_balanced ps \<and>
    e = \<lparr>transaction_id = tid, entry_reference = ref, effective_date = date, recorded_at = recorded,
         postings = sort_key posting_order ps, entry_kind = kind\<rparr>"
proof -
  have "validate_postings (sort_key posting_order ps) = Inr () \<longleftrightarrow> postings_balanced ps"
    using validate_postings_iff [of "sort_key posting_order ps"] assms(1) typed_mset [of "sort_key posting_order ps" ps]
      balanced_mset [of "sort_key posting_order ps" ps] by simp
  then show ?thesis
    using assms(2) by (cases kind) (auto simp: with_kind_def Let_def result_simps)
qed

lemma with_kind_control:
  assumes "is_control kind"
  shows "with_kind tid ref date recorded ps kind = Inr e \<longleftrightarrow> date = None \<and> ps = [] \<and>
    e = \<lparr>transaction_id = tid, entry_reference = ref, effective_date = date, recorded_at = recorded,
         postings = [], entry_kind = kind\<rparr>"
  using assms by (cases kind) (auto simp: with_kind_def Let_def result_simps)

lemma with_kind_wf:
  assumes "with_kind tid ref date recorded ps kind = Inr e" "typed_postings ps"
  shows "entry_wf e"
proof (cases "is_control kind")
  case True
  then show ?thesis using assms by (auto simp: with_kind_control entry_wf_def)
next
  case False
  then show ?thesis
    using assms typed_mset [of "sort_key posting_order ps" ps] balanced_mset [of "sort_key posting_order ps" ps]
    by (auto simp: with_kind_financial entry_wf_def postings_wf_def)
qed

text \<open>
  A journal entry is accepted exactly if it has two or more non-zero legs, no two of them on the same
  account and asset, and the signed amounts cancel in every asset, with totals of any magnitude; the
  accepted entry holds the same legs in canonical order.
\<close>

theorem journal_entry_new_accepts:
  assumes "typed_postings ps"
  shows "journal_entry_new tid ref date recorded ps = Inr e \<longleftrightarrow>
    postings_balanced ps \<and>
    e = \<lparr>transaction_id = tid, entry_reference = ref, effective_date = Some date, recorded_at = recorded,
         postings = sort_key posting_order ps, entry_kind = Standard\<rparr>"
  using with_kind_financial [OF assms] by (simp add: journal_entry_new_def)

definition sample_postings :: "Posting list" where
  "sample_postings =
    [\<lparr>account_id = 7, asset_id = 2, amount = - (2 ^ 127)\<rparr>, \<lparr>account_id = 8, asset_id = 1, amount = 4\<rparr>,
     \<lparr>account_id = 7, asset_id = 1, amount = - 4\<rparr>, \<lparr>account_id = 8, asset_id = 2, amount = 2 ^ 127 - 1\<rparr>,
     \<lparr>account_id = 9, asset_id = 2, amount = 1\<rparr>]"

lemma sample_postings_typed: "typed_postings sample_postings"
  by (simp add: typed_postings_def sample_postings_def fits_i128_def)

theorem journal_entry_new_accepts_witness:
  "is_ok (journal_entry_new 1 2 3 4 sample_postings)"
proof -
  have "postings_balanced sample_postings"
    by (auto simp: postings_balanced_def sample_postings_def posting_key_def)
  then show ?thesis
    using journal_entry_new_accepts [OF sample_postings_typed] by (auto simp: is_ok_def)
qed

section \<open>Exact reversals\<close>

definition negate_posting :: "Posting \<Rightarrow> Posting" where
  "negate_posting posting = posting\<lparr>amount := - amount posting\<rparr>"

lemma negate_posting_simps [simp]:
  "amount (negate_posting p) = - amount p" "account_id (negate_posting p) = account_id p"
  "asset_id (negate_posting p) = asset_id p" "posting_key (negate_posting p) = posting_key p"
  "posting_order (negate_posting p) = posting_order p"
  by (simp_all add: negate_posting_def posting_key_def posting_order_def)

lemma posting_sum_negate [simp]: "posting_sum (map negate_posting ps) key = - posting_sum ps key"
  by (induction ps) auto

lemma asset_sum_negate [simp]: "asset_sum (map negate_posting ps) asset = - asset_sum ps asset"
  by (induction ps) auto

definition reversible :: "Posting list \<Rightarrow> bool" where
  "reversible ps \<longleftrightarrow> (\<forall>posting \<in> set ps. fits_i128 (- amount posting))"

lemma negate_postings_iff:
  "negate_postings tid ps = Inr qs \<longleftrightarrow> reversible ps \<and> qs = map negate_posting ps"
  by (induction ps arbitrary: qs) (auto simp: result_simps reversible_def negate_posting_def)

lemma postings_order_negate: "map posting_order (map negate_posting ps) = map posting_order ps"
  by simp

lemma balanced_negate: "postings_balanced (map negate_posting ps) = postings_balanced ps"
  by (simp add: postings_balanced_def comp_def)

lemma reversal_iff:
  assumes "entry_wf original" "\<not> is_control (entry_kind original)"
    "reserve ReversalPostings (length (postings original))"
  shows "reversal reserve tid ref date recorded original = Inr e \<longleftrightarrow>
    reversible (postings original) \<and>
    e = \<lparr>transaction_id = tid, entry_reference = ref, effective_date = Some date, recorded_at = recorded,
         postings = map negate_posting (postings original), entry_kind = Reversal (transaction_id original)\<rparr>"
proof (cases "reversible (postings original)")
  case True
  let ?ps = "map negate_posting (postings original)"
  have typed: "typed_postings ?ps" using True by (simp add: typed_postings_def reversible_def)
  have wf: "postings_wf (postings original)" using assms(1,2) by (simp add: entry_wf_def)
  have "sort_key posting_order ?ps = ?ps"
    using wf by (intro sort_key_id_if_sorted) (simp add: postings_wf_def comp_def)
  moreover have "postings_balanced ?ps" using wf by (simp add: balanced_negate postings_wf_def)
  ultimately show ?thesis
    using True assms(2,3) with_kind_financial [OF typed, of "Reversal (transaction_id original)" tid ref "Some date" recorded e]
      negate_postings_iff [of "transaction_id original" "postings original"]
    by (auto simp: reversal_def result_simps)
qed (use assms negate_postings_iff in \<open>auto simp: reversal_def result_simps\<close>)

text \<open>
  C35. The reversal of a financial entry is its exact inverse: it exists unless a leg is the one amount
  without a representable inverse, and it changes every balance by the opposite amount.
\<close>

theorem reversal_inverts:
  assumes "entry_wf original" "\<not> is_control (entry_kind original)"
    "reserve ReversalPostings (length (postings original))"
  shows "(is_ok (reversal reserve tid ref date recorded original) \<longleftrightarrow>
      (\<forall>posting \<in> set (postings original). amount posting \<noteq> - (2 ^ 127))) \<and>
    (\<forall>e key. reversal reserve tid ref date recorded original = Inr e \<longrightarrow>
      entry_wf e \<and> posting_sum (postings e) key = - posting_sum (postings original) key)"
proof (intro conjI allI impI)
  have typed: "typed_postings (postings original)" using assms(1,2) by (simp add: entry_wf_def postings_wf_def)
  have "fits_i128 (- x) \<longleftrightarrow> x \<noteq> - (2 ^ 127)" if "fits_i128 x" for x
    using that by (auto simp: fits_i128_def)
  then have "reversible (postings original) \<longleftrightarrow> (\<forall>posting \<in> set (postings original). amount posting \<noteq> - (2 ^ 127))"
    using typed by (simp add: reversible_def typed_postings_def)
  then show "is_ok (reversal reserve tid ref date recorded original) \<longleftrightarrow>
      (\<forall>posting \<in> set (postings original). amount posting \<noteq> - (2 ^ 127))"
    using reversal_iff [where reserve = reserve, OF assms] by (simp add: is_ok_def)
next
  fix e key assume "reversal reserve tid ref date recorded original = Inr e"
  then have e: "reversible (postings original)" "postings e = map negate_posting (postings original)"
    "effective_date e = Some date" "entry_kind e = Reversal (transaction_id original)"
    using reversal_iff [where reserve = reserve, OF assms] by simp_all
  then show "posting_sum (postings e) key = - posting_sum (postings original) key" by simp
  show "entry_wf e"
    using e assms(1,2) by (simp add: entry_wf_def postings_wf_def balanced_negate reversible_def typed_postings_def comp_def)
qed

definition sample_entry :: JournalEntry where
  "sample_entry = \<lparr>transaction_id = 3, entry_reference = 0, effective_date = Some 5, recorded_at = 11,
     postings = [\<lparr>account_id = 7, asset_id = 1, amount = - 4\<rparr>, \<lparr>account_id = 8, asset_id = 1, amount = 4\<rparr>],
     entry_kind = Standard\<rparr>"

lemma sample_entry_wf: "entry_wf sample_entry"
  by (auto simp: entry_wf_def sample_entry_def postings_wf_def typed_postings_def postings_balanced_def posting_key_def
      posting_order_def fits_i128_def)

theorem reversal_inverts_witness: "is_ok (reversal (\<lambda>_ _. True) 4 1 6 12 sample_entry)"
  using reversal_inverts [OF sample_entry_wf, of "\<lambda>_ _. True"] by (simp add: sample_entry_def)

section \<open>Settlement entries\<close>

definition settlement_typed :: "SettlementExecution \<Rightarrow> SettlementConvention \<Rightarrow> bool" where
  "settlement_typed execution convention \<longleftrightarrow>
     fits_i64 (exec_price execution) \<and> 0 < exec_quantity execution \<and> fits_u64 (exec_quantity execution) \<and>
     fits_u64 (base_units_per_lot convention) \<and> fits_u64 (quote_units_per_price_unit convention)"

definition base_amount :: "SettlementExecution \<Rightarrow> SettlementConvention \<Rightarrow> int" where
  "base_amount execution convention = int (exec_quantity execution) * int (base_units_per_lot convention)"

definition quote_amount :: "SettlementExecution \<Rightarrow> SettlementConvention \<Rightarrow> int" where
  "quote_amount execution convention =
     exec_price execution * int (exec_quantity execution) * int (quote_units_per_price_unit convention)"

definition settleable :: "SettlementExecution \<Rightarrow> SettlementConvention \<Rightarrow> bool" where
  "settleable execution convention \<longleftrightarrow>
     exec_buyer execution \<noteq> exec_seller execution \<and> base_asset_id convention \<noteq> quote_asset_id convention \<and>
     base_units_per_lot convention \<noteq> 0 \<and> quote_units_per_price_unit convention \<noteq> 0 \<and>
     fits_i128 (base_amount execution convention) \<and> fits_i128 (quote_amount execution convention) \<and>
     fits_i128 (- quote_amount execution convention)"

definition settlement_postings :: "SettlementExecution \<Rightarrow> SettlementConvention \<Rightarrow> Posting list" where
  "settlement_postings execution convention =
     [\<lparr>account_id = exec_buyer execution, asset_id = base_asset_id convention, amount = base_amount execution convention\<rparr>,
      \<lparr>account_id = exec_seller execution, asset_id = base_asset_id convention, amount = - base_amount execution convention\<rparr>] @
     (if quote_amount execution convention \<noteq> 0
      then [\<lparr>account_id = exec_buyer execution, asset_id = quote_asset_id convention, amount = - quote_amount execution convention\<rparr>,
            \<lparr>account_id = exec_seller execution, asset_id = quote_asset_id convention, amount = quote_amount execution convention\<rparr>]
      else [])"

lemma price_quantity_fits:
  assumes "fits_i64 price" "fits_u64 quantity"
  shows "fits_i128 (price * int quantity)"
proof -
  have q: "0 \<le> int quantity" "int quantity < 2 ^ 64" using assms(2) by (simp_all add: fits_u64_def)
  have p: "- (2 ^ 63) \<le> price" "price < 2 ^ 63" using assms(1) by (simp_all add: fits_i64_def)
  have "price * int quantity \<le> (2 ^ 63 - 1) * int quantity" using p q by (intro mult_right_mono) simp_all
  also have "\<dots> < 2 ^ 127" using q by simp
  finally have up: "price * int quantity < 2 ^ 127" .
  have "- (2 ^ 127) \<le> - (2 ^ 63) * int quantity" using q by simp
  also have "\<dots> \<le> price * int quantity" using p q by (intro mult_right_mono) simp_all
  finally show ?thesis using up by (simp add: fits_i128_def)
qed

lemma settlement_amounts_iff:
  assumes "settlement_typed execution convention"
  shows "settlement_amounts (exec_price execution) (exec_quantity execution) convention = Inr r \<longleftrightarrow>
    base_asset_id convention \<noteq> quote_asset_id convention \<and>
    base_units_per_lot convention \<noteq> 0 \<and> quote_units_per_price_unit convention \<noteq> 0 \<and>
    fits_i128 (base_amount execution convention) \<and> fits_i128 (quote_amount execution convention) \<and>
    fits_i128 (- quote_amount execution convention) \<and>
    r = (base_amount execution convention, quote_amount execution convention, - quote_amount execution convention)"
  using price_quantity_fits [of "exec_price execution" "exec_quantity execution"] assms
  by (auto simp: settlement_amounts_def validate_settlement_convention_def result_simps settlement_typed_def
      base_amount_def quote_amount_def)

lemma settlement_postings_accepted:
  assumes "settlement_typed execution convention" "settleable execution convention"
  shows "typed_postings (settlement_postings execution convention)" "postings_balanced (settlement_postings execution convention)"
proof -
  have base: "0 < base_amount execution convention" "fits_i128 (base_amount execution convention)"
    using assms by (auto simp: base_amount_def settlement_typed_def settleable_def)
  then have "fits_i128 (- base_amount execution convention)" by (simp add: fits_i128_def)
  then show "typed_postings (settlement_postings execution convention)"
    using assms(2) by (auto simp: typed_postings_def settlement_postings_def settleable_def)
  show "postings_balanced (settlement_postings execution convention)"
    using assms(2) base(1) by (auto simp: postings_balanced_def settlement_postings_def settleable_def posting_key_def)
qed

lemma settlement_iff:
  assumes "settlement_typed execution convention"
  shows "from_settlement_execution tid date recorded execution convention = Inr e \<longleftrightarrow>
    settleable execution convention \<and>
    e = \<lparr>transaction_id = tid, entry_reference = exec_reference execution, effective_date = Some date,
         recorded_at = recorded, postings = sort_key posting_order (settlement_postings execution convention),
         entry_kind = Standard\<rparr>"
proof (cases "settleable execution convention")
  case True
  note p = settlement_postings_accepted [OF assms True]
  have "from_settlement_execution tid date recorded execution convention =
      with_kind tid (exec_reference execution) (Some date) recorded (settlement_postings execution convention) Standard"
    using True settlement_amounts_iff [OF assms, of "(base_amount execution convention,
        quote_amount execution convention, - quote_amount execution convention)"]
    by (simp add: from_settlement_execution_def settleable_def settlement_postings_def journal_entry_new_def)
  then show ?thesis using True p(2) with_kind_financial [OF p(1), of Standard] by simp
next
  case False
  then show ?thesis
    using settlement_amounts_iff [OF assms] by (auto simp: from_settlement_execution_def settleable_def result_simps)
qed

text \<open>
  Delivery versus payment: settling a trade succeeds exactly if the accounts and the assets differ,
  the multipliers are positive and both amounts are representable, and then the seller's base quantity
  goes to the buyer and the buyer's notional to the seller, and no other balance moves.
\<close>

theorem settlement_delivers_versus_payment:
  assumes "execution = \<lparr>exec_reference = trade_id trade, exec_buyer = buyer_account_id trade,
      exec_seller = seller_account_id trade, exec_price = trade_price trade, exec_quantity = trade_quantity trade\<rparr>"
    and "settlement_typed execution convention"
  shows "(is_ok (from_trade tid date recorded trade convention) \<longleftrightarrow> settleable execution convention) \<and>
    (\<forall>e key. from_trade tid date recorded trade convention = Inr e \<longrightarrow> entry_wf e \<and>
      posting_sum (postings e) key =
        (if key = (buyer_account_id trade, base_asset_id convention) then base_amount execution convention
         else if key = (seller_account_id trade, base_asset_id convention) then - base_amount execution convention
         else if key = (buyer_account_id trade, quote_asset_id convention) then - quote_amount execution convention
         else if key = (seller_account_id trade, quote_asset_id convention) then quote_amount execution convention
         else 0))"
proof (intro conjI allI impI)
  note iff = settlement_iff [OF assms(2), of tid date recorded]
  have trade: "from_trade tid date recorded trade convention = from_settlement_execution tid date recorded execution convention"
    by (simp add: from_trade_def assms(1))
  show "is_ok (from_trade tid date recorded trade convention) \<longleftrightarrow> settleable execution convention"
    using iff by (simp add: trade is_ok_def)
  fix e key assume e: "from_trade tid date recorded trade convention = Inr e"
  then have s: "settleable execution convention" and ps: "postings e = sort_key posting_order (settlement_postings execution convention)"
    using iff unfolding trade by auto
  note p = settlement_postings_accepted [OF assms(2) s]
  show "entry_wf e"
    using e iff p typed_mset [of "sort_key posting_order (settlement_postings execution convention)"]
      balanced_mset [of "sort_key posting_order (settlement_postings execution convention)"]
    unfolding trade by (auto simp: entry_wf_def postings_wf_def)
  have "posting_sum (postings e) key = posting_sum (settlement_postings execution convention) key"
    unfolding ps by (rule posting_sum_mset) simp
  then show "posting_sum (postings e) key =
        (if key = (buyer_account_id trade, base_asset_id convention) then base_amount execution convention
         else if key = (seller_account_id trade, base_asset_id convention) then - base_amount execution convention
         else if key = (buyer_account_id trade, quote_asset_id convention) then - quote_amount execution convention
         else if key = (seller_account_id trade, quote_asset_id convention) then quote_amount execution convention
         else 0)"
    using s by (auto simp: settlement_postings_def posting_key_def settleable_def assms(1))
qed

definition sample_trade :: Trade where
  "sample_trade = \<lparr>trade_id = 21, trade_instrument_id = 1, trade_instrument_version = 1, trade_price = - 3,
     trade_quantity = 4, trade_buy_order_id = 31, trade_sell_order_id = 32, buyer_account_id = 7,
     seller_account_id = 8, maker_order_id = 31, taker_order_id = 32\<rparr>"

definition sample_convention :: SettlementConvention where
  "sample_convention = \<lparr>base_asset_id = 1, quote_asset_id = 2, base_units_per_lot = 10, quote_units_per_price_unit = 100\<rparr>"

theorem settlement_delivers_versus_payment_witness:
  "is_ok (from_trade 5 6 7 sample_trade sample_convention)"
  using settlement_delivers_versus_payment [of _ sample_trade sample_convention 5 6 7, OF refl]
  by (simp add: sample_trade_def sample_convention_def settlement_typed_def settleable_def base_amount_def
      quote_amount_def width_defs)

section \<open>What the constructors establish\<close>

lemma reversal_wf:
  "reversal reserve tid ref date recorded original = Inr e \<Longrightarrow> entry_wf e"
proof -
  assume "reversal reserve tid ref date recorded original = Inr e"
  then obtain ps where "negate_postings (transaction_id original) (postings original) = Inr ps"
    "with_kind tid ref (Some date) recorded ps (Reversal (transaction_id original)) = Inr e"
    by (auto simp: reversal_def result_simps split: if_splits)
  then show ?thesis
    using with_kind_wf [of tid ref "Some date" recorded ps] by (auto simp: negate_postings_iff reversible_def typed_postings_def)
qed

definition correction_wf :: "LedgerCorrection \<Rightarrow> bool" where
  "correction_wf c \<longleftrightarrow> entry_wf (correction_reversal c) \<and> entry_wf (correction_replacement c) \<and>
     (\<exists>original. entry_kind (correction_reversal c) = Reversal original \<and>
        transaction_id (correction_reversal c) \<noteq> original \<and> transaction_id (correction_replacement c) \<noteq> original) \<and>
     entry_kind (correction_replacement c) = Standard \<and>
     transaction_id (correction_reversal c) \<noteq> transaction_id (correction_replacement c) \<and>
     recorded_at (correction_reversal c) \<le> recorded_at (correction_replacement c)"

lemma correction_from_parts_wf:
  assumes "correction_from_parts rev_entry repl = Inr c" "entry_wf rev_entry" "entry_wf repl"
  shows "correction_wf c"
  using assms by (auto simp: correction_from_parts_def correction_wf_def result_simps split: LedgerEntryKind.splits)

definition batch_wf :: "LedgerBatch \<Rightarrow> bool" where
  "batch_wf batch \<longleftrightarrow> 2 \<le> length (batch_entries batch) \<and> (\<forall>entry \<in> set (batch_entries batch). entry_wf entry) \<and>
     distinct (map transaction_id (batch_entries batch)) \<and> sorted (map recorded_at (batch_entries batch))"

lemma check_batch_ids_iff:
  "check_batch_ids seen es = Inr () \<longleftrightarrow> distinct (map transaction_id es) \<and> seen \<inter> transaction_id ` set es = {}"
  by (induction seen es rule: check_batch_ids.induct) auto

lemma windows_any_regression:
  "\<not> windows_any (\<lambda>a b. recorded_at b < recorded_at a) es \<longleftrightarrow> sorted (map recorded_at es)"
  by (induction es rule: induct_list012) (auto simp: not_less intro: order_trans)

lemma batch_new_wf:
  assumes "batch_new reserve es = Inr batch" "\<forall>entry \<in> set es. entry_wf entry"
  shows "batch_wf batch"
  using assms windows_any_regression [of es]
  by (auto simp: batch_new_def batch_wf_def result_simps check_batch_ids_iff windows_find_None split: option.splits)

end
