(* ===== verification/Ledger.thy ===== *)
theory Ledger
  imports LedgerEntry
begin

text \<open>
  The ledger of \<open>src/src/ledger.rs\<close>: its state, and the two-phase protocol of its three kinds of event
  (an entry, a correction, a batch): \<open>prepare\<close> validates against the current generation without
  touching it, \<open>commit\<close> applies the prepared image. An operation on \<open>&mut self\<close> returns its result and
  the new state, so an error shows the state it leaves.

  The three \<open>BoundedHashMap\<close> indexes are finite maps; that the open-addressed table behaves as one is
  the subject of theory BoundedHash. The allocator is the parameter \<open>reserve\<close>.
\<close>

section \<open>Limits\<close>

record LedgerLimitsSpec =
  max_balance_keys :: nat
  max_transactions :: nat
  max_reversals :: nat
  max_records :: nat
  max_postings_per_transaction :: nat
  max_transactions_per_record :: nat
  max_retained_postings :: nat

datatype LedgerLimitError =
    ZeroMaximum LedgerResource
  | TransactionsPerRecordExceedTransactions nat nat
  | PostingsPerTransactionExceedRetainedPostings nat nat
  | RecordsExceedTransactions nat nat
  | ReversalsExceedTransactions nat nat

fun first_zero_maximum :: "(LedgerResource \<times> nat) list \<Rightarrow> LedgerLimitError + unit" where
  "first_zero_maximum [] = Inr ()"
| "first_zero_maximum ((resource, maximum) # rest) =
     (if maximum = 0 then Inl (ZeroMaximum resource) else first_zero_maximum rest)"

definition limits_try_from :: "LedgerLimitsSpec \<Rightarrow> LedgerLimitError + LedgerLimitsSpec" where
  "limits_try_from spec =
     and_then (first_zero_maximum
       [(BalanceKeys, max_balance_keys spec), (Transactions, max_transactions spec),
        (Reversals, max_reversals spec), (Records, max_records spec),
        (PostingsPerTransaction, max_postings_per_transaction spec),
        (TransactionsPerRecord, max_transactions_per_record spec),
        (RetainedPostings, max_retained_postings spec)]) (\<lambda>_.
     and_then (ensure (max_transactions_per_record spec \<le> max_transactions spec)
       (TransactionsPerRecordExceedTransactions (max_transactions_per_record spec) (max_transactions spec))) (\<lambda>_.
     and_then (ensure (max_postings_per_transaction spec \<le> max_retained_postings spec)
       (PostingsPerTransactionExceedRetainedPostings (max_postings_per_transaction spec)
          (max_retained_postings spec))) (\<lambda>_.
     and_then (ensure (max_records spec \<le> max_transactions spec)
       (RecordsExceedTransactions (max_records spec) (max_transactions spec))) (\<lambda>_.
     and_then (ensure (max_reversals spec \<le> max_transactions spec)
       (ReversalsExceedTransactions (max_reversals spec) (max_transactions spec))) (\<lambda>_.
       Inr spec)))))"

section \<open>State\<close>

record PostedEntry =
  posted_entry :: JournalEntry
  posted_sequence :: nat

datatype LedgerRecordKey =
    EntryKey TransactionId
  | CorrectionKey TransactionId TransactionId
  | BatchKey LedgerBatch

fun transaction_count :: "LedgerRecordKey \<Rightarrow> nat" where
  "transaction_count (EntryKey _) = 1"
| "transaction_count (CorrectionKey _ _) = 2"
| "transaction_count (BatchKey batch) = length (batch_entries batch)"

fun transaction_id_at :: "LedgerRecordKey \<Rightarrow> nat \<Rightarrow> TransactionId option" where
  "transaction_id_at (EntryKey tid) i = (if i = 0 then Some tid else None)"
| "transaction_id_at (CorrectionKey rev_tid repl_tid) i =
     (if i = 0 then Some rev_tid else if i = 1 then Some repl_tid else None)"
| "transaction_id_at (BatchKey batch) i =
     (if i < length (batch_entries batch) then Some (transaction_id (batch_entries batch ! i)) else None)"

type_synonym BalanceKey = "AccountId \<times> AssetId"
type_synonym BalanceUpdate = "BalanceKey \<times> int"

record Ledger =
  ledger_limits :: LedgerLimitsSpec
  ledger_balances :: "BalanceKey \<rightharpoonup> int"
  ledger_entries :: "TransactionId \<rightharpoonup> PostedEntry"
  ledger_reversals :: "TransactionId \<rightharpoonup> TransactionId"
  ledger_journal :: "LedgerRecordKey list"
  ledger_retained_postings :: nat
  ledger_closed_through :: "AccountingDate option"
  ledger_last_recorded_at :: "TimestampNs option"

datatype LedgerConstructionError =
    InvalidLimits LedgerLimitError
  | ReservationFailed LedgerResource nat

fun map_error :: "('e \<Rightarrow> 'f) \<Rightarrow> 'e + 'a \<Rightarrow> 'f + 'a" where
  "map_error f (Inl e) = Inl (f e)"
| "map_error f (Inr x) = Inr x"

definition try_with_limits ::
    "(LedgerResource \<Rightarrow> nat \<Rightarrow> bool) \<Rightarrow> LedgerLimitsSpec \<Rightarrow> LedgerConstructionError + Ledger"
where
  "try_with_limits reserve spec =
     and_then (map_error InvalidLimits (limits_try_from spec)) (\<lambda>limits.
     and_then (ensure (reserve BalanceKeys (max_balance_keys spec))
                (ReservationFailed BalanceKeys (max_balance_keys spec))) (\<lambda>_.
     and_then (ensure (reserve Transactions (max_transactions spec))
                (ReservationFailed Transactions (max_transactions spec))) (\<lambda>_.
     and_then (ensure (reserve Reversals (max_reversals spec))
                (ReservationFailed Reversals (max_reversals spec))) (\<lambda>_.
     and_then (ensure (reserve Records (max_records spec))
                (ReservationFailed Records (max_records spec))) (\<lambda>_.
       Inr \<lparr>ledger_limits = limits, ledger_balances = Map.empty, ledger_entries = Map.empty,
            ledger_reversals = Map.empty, ledger_journal = [], ledger_retained_postings = 0,
            ledger_closed_through = None, ledger_last_recorded_at = None\<rparr>)))))"

definition balance_in :: "(BalanceKey \<rightharpoonup> int) \<Rightarrow> BalanceKey \<Rightarrow> int" where
  "balance_in balances key = (case balances key of None \<Rightarrow> 0 | Some v \<Rightarrow> v)"

definition balance :: "Ledger \<Rightarrow> AccountId \<Rightarrow> AssetId \<Rightarrow> int" where
  "balance ledger account asset = balance_in (ledger_balances ledger) (account, asset)"

section \<open>Capacity\<close>

definition ensure_ledger_capacity :: "nat \<Rightarrow> nat \<Rightarrow> nat \<Rightarrow> LedgerResource \<Rightarrow> LedgerError + nat" where
  "ensure_ledger_capacity current added maximum resource =
     and_then (ok_or (checked fits_usize (current + added)) ArithmeticOverflow) (\<lambda>attempted.
       if maximum < attempted then Inl (CapacityExceeded resource maximum attempted) else Inr attempted)"

fun count_balances :: "(BalanceKey \<rightharpoonup> int) \<Rightarrow> BalanceUpdate list \<Rightarrow> nat \<Rightarrow> LedgerError + nat" where
  "count_balances balances [] n = Inr n"
| "count_balances balances ((key, v) # rest) n =
     (if balances key \<noteq> None \<and> v = 0
      then and_then (ok_or (checked_sub n 1) ArithmeticOverflow) (count_balances balances rest)
      else if balances key = None \<and> v \<noteq> 0
      then and_then (ok_or (checked fits_usize (n + 1)) ArithmeticOverflow) (count_balances balances rest)
      else count_balances balances rest n)"

definition preflight_event_capacity ::
    "Ledger \<Rightarrow> nat \<Rightarrow> nat \<Rightarrow> nat \<Rightarrow> BalanceUpdate list \<Rightarrow> LedgerError + nat"
where
  "preflight_event_capacity ledger transactions reversal_count posting_count next_balances =
     (let limits = ledger_limits ledger in
      and_then (ensure_ledger_capacity (card (dom (ledger_entries ledger))) transactions
                 (max_transactions limits) Transactions) (\<lambda>_.
      and_then (ensure_ledger_capacity (length (ledger_journal ledger)) 1 (max_records limits) Records) (\<lambda>_.
      and_then (ensure_ledger_capacity (card (dom (ledger_reversals ledger))) reversal_count
                 (max_reversals limits) Reversals) (\<lambda>_.
      and_then (ensure_ledger_capacity (ledger_retained_postings ledger) posting_count
                 (max_retained_postings limits) RetainedPostings) (\<lambda>retained_postings_after.
      and_then (count_balances (ledger_balances ledger) next_balances (card (dom (ledger_balances ledger))))
        (\<lambda>balances_after.
        if max_balance_keys limits < balances_after
        then Inl (CapacityExceeded BalanceKeys (max_balance_keys limits) balances_after)
        else Inr retained_postings_after))))))"

definition validate_entry_cardinality :: "Ledger \<Rightarrow> JournalEntry \<Rightarrow> LedgerError + unit" where
  "validate_entry_cardinality ledger entry =
     (let maximum = max_postings_per_transaction (ledger_limits ledger)
      in ensure (length (postings entry) \<le> maximum)
           (CapacityExceeded PostingsPerTransaction maximum (length (postings entry))))"

definition validate_record_cardinality :: "Ledger \<Rightarrow> nat \<Rightarrow> LedgerError + unit" where
  "validate_record_cardinality ledger transactions =
     (let maximum = max_transactions_per_record (ledger_limits ledger)
      in ensure (transactions \<le> maximum) (CapacityExceeded TransactionsPerRecord maximum transactions))"

definition next_sequence :: "Ledger \<Rightarrow> LedgerError + nat" where
  "next_sequence ledger =
     ok_or (Option.bind (checked fits_u64 (length (ledger_journal ledger))) (\<lambda>v. checked fits_u64 (v + 1)))
       ArithmeticOverflow"

section \<open>Lifecycle rules\<close>

definition validate_financial_entry :: "JournalEntry \<Rightarrow> AccountingDate option \<Rightarrow> LedgerError + unit" where
  "validate_financial_entry entry closed_through =
     and_then (ok_or (effective_date entry) FinancialEntryMissingEffectiveDate) (\<lambda>date.
     and_then (validate_postings (postings entry)) (\<lambda>_.
       case closed_through of
         None \<Rightarrow> Inr ()
       | Some through \<Rightarrow> ensure (through < date) (AccountingPeriodClosed date through)))"

definition validate_control_entry :: "JournalEntry \<Rightarrow> LedgerError + unit" where
  "validate_control_entry entry =
     and_then (ensure (effective_date entry = None) ControlEntryHasEffectiveDate) (\<lambda>_.
       ensure (postings entry = []) ControlEntryHasPostings)"

definition postings_are_exact_inverse :: "Posting list \<Rightarrow> Posting list \<Rightarrow> bool" where
  "postings_are_exact_inverse candidate original \<longleftrightarrow>
     length candidate = length original \<and>
     list_all (\<lambda>(c, p). account_id c = account_id p \<and> asset_id c = asset_id p \<and>
       checked fits_i128 (- amount p) = Some (amount c)) (zip candidate original)"

datatype PeriodUpdate = Unchanged | SetPeriod AccountingDate | ClearPeriod

definition validate_recorded_at :: "TimestampNs option \<Rightarrow> JournalEntry \<Rightarrow> LedgerError + unit" where
  "validate_recorded_at latest entry =
     (case latest of
        None \<Rightarrow> Inr ()
      | Some previous \<Rightarrow>
          ensure (previous \<le> recorded_at entry) (RecordedTimestampRegression previous (recorded_at entry)))"

text \<open>The reversal rules, common to the three kinds of event: the target and its lineage are looked up.\<close>

definition validate_reversal ::
    "JournalEntry option \<Rightarrow> TransactionId option \<Rightarrow> TransactionId \<Rightarrow> JournalEntry \<Rightarrow> LedgerError + unit"
where
  "validate_reversal target reversed_by reversed entry =
     and_then (ok_or target (ReversalTargetMissing reversed)) (\<lambda>original.
     and_then (ensure (\<not> is_control (entry_kind original)) (NonFinancialReversalTarget reversed)) (\<lambda>_.
     and_then (case reversed_by of
                 None \<Rightarrow> Inr ()
               | Some by_tid \<Rightarrow> Inl (TransactionAlreadyReversed reversed by_tid)) (\<lambda>_.
       ensure (postings_are_exact_inverse (postings entry) (postings original)) (InvalidReversalPostings reversed))))"

definition validate_entry_lifecycle :: "Ledger \<Rightarrow> JournalEntry \<Rightarrow> LedgerError + PeriodUpdate" where
  "validate_entry_lifecycle ledger entry =
     and_then (validate_recorded_at (ledger_last_recorded_at ledger) entry) (\<lambda>_.
       case entry_kind entry of
         Standard \<Rightarrow>
           and_then (validate_financial_entry entry (ledger_closed_through ledger)) (\<lambda>_. Inr Unchanged)
       | Reversal reversed \<Rightarrow>
           and_then (validate_financial_entry entry (ledger_closed_through ledger)) (\<lambda>_.
           and_then (validate_reversal (map_option posted_entry (ledger_entries ledger reversed))
                       (ledger_reversals ledger reversed) reversed entry) (\<lambda>_.
             Inr Unchanged))
       | PeriodClose through \<Rightarrow>
           and_then (validate_control_entry entry) (\<lambda>_.
           if (case ledger_closed_through ledger of None \<Rightarrow> False | Some current \<Rightarrow> through \<le> current)
           then Inl (PeriodCloseNotAdvancing (ledger_closed_through ledger) through)
           else Inr (SetPeriod through))
       | PeriodReopen through \<Rightarrow>
           and_then (validate_control_entry entry) (\<lambda>_.
           and_then (ok_or (ledger_closed_through ledger) AccountingPeriodAlreadyOpen) (\<lambda>current.
             if (case through of None \<Rightarrow> False | Some proposed \<Rightarrow> current \<le> proposed)
             then Inl (InvalidPeriodReopen current through)
             else Inr (case through of None \<Rightarrow> ClearPeriod | Some proposed \<Rightarrow> SetPeriod proposed))))"

section \<open>Applying balances\<close>

text \<open>Zero results are removed first, then the non-zero results are written.\<close>

definition apply_balance_updates :: "(BalanceKey \<rightharpoonup> int) \<Rightarrow> BalanceUpdate list \<Rightarrow> (BalanceKey \<rightharpoonup> int)" where
  "apply_balance_updates balances updates =
     (let removed = fold (\<lambda>(key, v) m. if v = 0 then m(key := None) else m) updates balances
      in fold (\<lambda>(key, v) m. if v \<noteq> 0 then m(key \<mapsto> v) else m) updates removed)"

section \<open>Entries: prepare and commit\<close>

record PostReceipt =
  post_sequence :: nat
  post_replayed :: bool

record PreparedPosting =
  prepared_entry :: JournalEntry
  posting_next_balances :: "BalanceUpdate list"
  period_update :: PeriodUpdate
  posting_retained_after :: nat
  posting_expected_count :: nat
  posting_sequence :: nat

datatype PostingPreparation = PostingReplay PostReceipt | PostingReady PreparedPosting

fun entry_balances :: "(BalanceKey \<rightharpoonup> int) \<Rightarrow> Posting list \<Rightarrow> LedgerError + BalanceUpdate list" where
  "entry_balances balances [] = Inr []"
| "entry_balances balances (posting # rest) =
     (let key = (account_id posting, asset_id posting)
      in and_then (ok_or (checked fits_i128 (balance_in balances key + amount posting)) ArithmeticOverflow)
           (\<lambda>next_balance.
         and_then (entry_balances balances rest) (\<lambda>updates. Inr ((key, next_balance) # updates))))"

definition prepare :: "reserve \<Rightarrow> Ledger \<Rightarrow> JournalEntry \<Rightarrow> LedgerError + PostingPreparation" where
  "prepare reserve ledger entry =
     (case ledger_entries ledger (transaction_id entry) of
        Some existing \<Rightarrow>
          (if posted_entry existing = entry
           then Inr (PostingReplay \<lparr>post_sequence = posted_sequence existing, post_replayed = True\<rparr>)
           else Inl (TransactionIdCollision (transaction_id entry)))
      | None \<Rightarrow>
          and_then (validate_record_cardinality ledger 1) (\<lambda>_.
          and_then (validate_entry_cardinality ledger entry) (\<lambda>_.
          and_then (validate_entry_lifecycle ledger entry) (\<lambda>update.
          and_then (ensure (reserve BalanceUpdates (length (postings entry)))
                     (PreparationAllocationFailed BalanceUpdates)) (\<lambda>_.
          and_then (entry_balances (ledger_balances ledger) (postings entry)) (\<lambda>next_balances.
          and_then (preflight_event_capacity ledger 1
                     (if reversed_transaction (entry_kind entry) \<noteq> None then 1 else 0)
                     (length (postings entry)) next_balances) (\<lambda>retained_after.
          and_then (next_sequence ledger) (\<lambda>sequence.
            Inr (PostingReady \<lparr>prepared_entry = entry, posting_next_balances = next_balances,
              period_update = update, posting_retained_after = retained_after,
              posting_expected_count = length (ledger_journal ledger), posting_sequence = sequence\<rparr>)))))))))"

definition commit :: "Ledger \<Rightarrow> PreparedPosting \<Rightarrow> (LedgerError + PostReceipt) \<times> Ledger" where
  "commit ledger prepared =
     (let entry = prepared_entry prepared; tid = transaction_id entry
      in if length (ledger_journal ledger) \<noteq> posting_expected_count prepared \<or> ledger_entries ledger tid \<noteq> None
         then (Inl StalePreparation, ledger)
         else
           (Inr \<lparr>post_sequence = posting_sequence prepared, post_replayed = False\<rparr>,
            ledger\<lparr>
              ledger_balances := apply_balance_updates (ledger_balances ledger) (posting_next_balances prepared),
              ledger_closed_through :=
                (case period_update prepared of
                   Unchanged \<Rightarrow> ledger_closed_through ledger
                 | SetPeriod through \<Rightarrow> Some through
                 | ClearPeriod \<Rightarrow> None),
              ledger_reversals :=
                (case reversed_transaction (entry_kind entry) of
                   None \<Rightarrow> ledger_reversals ledger
                 | Some reversed \<Rightarrow> (ledger_reversals ledger)(reversed \<mapsto> tid)),
              ledger_entries :=
                (ledger_entries ledger)(tid \<mapsto> \<lparr>posted_entry = entry, posted_sequence = posting_sequence prepared\<rparr>),
              ledger_journal := ledger_journal ledger @ [EntryKey tid],
              ledger_retained_postings := posting_retained_after prepared,
              ledger_last_recorded_at := Some (recorded_at entry)\<rparr>))"

definition post :: "reserve \<Rightarrow> Ledger \<Rightarrow> JournalEntry \<Rightarrow> (LedgerError + PostReceipt) \<times> Ledger" where
  "post reserve ledger entry =
     (case prepare reserve ledger entry of
        Inl e \<Rightarrow> (Inl e, ledger)
      | Inr (PostingReplay receipt) \<Rightarrow> (Inr receipt, ledger)
      | Inr (PostingReady prepared) \<Rightarrow> commit ledger prepared)"

section \<open>Corrections: prepare and commit\<close>

record CorrectionReceipt =
  correction_receipt_sequence :: nat
  correction_replayed :: bool
  receipt_reversal :: TransactionId
  receipt_replacement :: TransactionId

record PreparedCorrection =
  prepared_correction :: LedgerCorrection
  correction_next_balances :: "BalanceUpdate list"
  correction_retained_after :: nat
  correction_expected_count :: nat
  correction_sequence :: nat

datatype CorrectionPreparation = CorrectionReplay CorrectionReceipt | CorrectionReady PreparedCorrection

text \<open>Three addends in whichever order has no overflowing partial sum.\<close>

definition checked_add_three :: "int \<Rightarrow> int \<Rightarrow> int \<Rightarrow> int option" where
  "checked_add_three first second third =
     (let pairwise = (\<lambda>a b c. Option.bind (checked fits_i128 (a + b)) (\<lambda>partial. checked fits_i128 (partial + c)))
      in case pairwise first second third of
           Some v \<Rightarrow> Some v
         | None \<Rightarrow>
             (case pairwise first third second of
                Some v \<Rightarrow> Some v
              | None \<Rightarrow> pairwise second third first))"

text \<open>One key of the merge: the update is kept if the balance changes.\<close>

definition merge_step ::
    "(BalanceKey \<rightharpoonup> int) \<Rightarrow> Posting \<Rightarrow> int \<Rightarrow> int \<Rightarrow> LedgerError + BalanceUpdate list"
where
  "merge_step balances posting left_amount right_amount =
     (let key = (account_id posting, asset_id posting); current = balance_in balances key
      in and_then (ok_or (checked_add_three current left_amount right_amount) ArithmeticOverflow) (\<lambda>next_balance.
           Inr (if next_balance \<noteq> current then [(key, next_balance)] else [])))"

fun calculate_correction_balances ::
    "(BalanceKey \<rightharpoonup> int) \<Rightarrow> Posting list \<Rightarrow> Posting list \<Rightarrow> LedgerError + BalanceUpdate list"
where
  "calculate_correction_balances balances [] [] = Inr []"
| "calculate_correction_balances balances (p # ps) [] =
     and_then (merge_step balances p (amount p) 0) (\<lambda>updates.
     and_then (calculate_correction_balances balances ps []) (\<lambda>rest. Inr (updates @ rest)))"
| "calculate_correction_balances balances [] (q # qs) =
     and_then (merge_step balances q 0 (amount q)) (\<lambda>updates.
     and_then (calculate_correction_balances balances [] qs) (\<lambda>rest. Inr (updates @ rest)))"
| "calculate_correction_balances balances (p # ps) (q # qs) =
     (if posting_order p < posting_order q
      then and_then (merge_step balances p (amount p) 0) (\<lambda>updates.
           and_then (calculate_correction_balances balances ps (q # qs)) (\<lambda>rest. Inr (updates @ rest)))
      else if posting_order q < posting_order p
      then and_then (merge_step balances q 0 (amount q)) (\<lambda>updates.
           and_then (calculate_correction_balances balances (p # ps) qs) (\<lambda>rest. Inr (updates @ rest)))
      else and_then (merge_step balances p (amount p) (amount q)) (\<lambda>updates.
           and_then (calculate_correction_balances balances ps qs) (\<lambda>rest. Inr (updates @ rest))))"

definition existing_correction_receipt :: "Ledger \<Rightarrow> LedgerCorrection \<Rightarrow> LedgerError + CorrectionReceipt option" where
  "existing_correction_receipt ledger c =
     (let rev_tid = transaction_id (correction_reversal c); repl_tid = transaction_id (correction_replacement c)
      in case (ledger_entries ledger rev_tid, ledger_entries ledger repl_tid) of
           (None, None) \<Rightarrow> Inr None
         | (Some rev_posted, Some repl_posted) \<Rightarrow>
             and_then (ensure (posted_entry rev_posted = correction_reversal c) (TransactionIdCollision rev_tid)) (\<lambda>_.
             and_then (ensure (posted_entry repl_posted = correction_replacement c) (TransactionIdCollision repl_tid)) (\<lambda>_.
             and_then (ensure (posted_sequence rev_posted = posted_sequence repl_posted \<and>
                         posted_sequence rev_posted \<noteq> 0 \<and>
                         posted_sequence rev_posted - 1 < length (ledger_journal ledger) \<and>
                         ledger_journal ledger ! (posted_sequence rev_posted - 1) = CorrectionKey rev_tid repl_tid)
                       (CorrectionAlreadyPartiallyCommitted rev_tid)) (\<lambda>_.
               Inr (Some \<lparr>correction_receipt_sequence = posted_sequence rev_posted, correction_replayed = True,
                          receipt_reversal = rev_tid, receipt_replacement = repl_tid\<rparr>))))
         | (Some existing, None) \<Rightarrow>
             and_then (ensure (posted_entry existing = correction_reversal c) (TransactionIdCollision rev_tid)) (\<lambda>_.
               Inl (CorrectionAlreadyPartiallyCommitted rev_tid))
         | (None, Some existing) \<Rightarrow>
             and_then (ensure (posted_entry existing = correction_replacement c) (TransactionIdCollision repl_tid)) (\<lambda>_.
               Inl (CorrectionAlreadyPartiallyCommitted repl_tid)))"

definition prepare_correction :: "reserve \<Rightarrow> Ledger \<Rightarrow> LedgerCorrection \<Rightarrow> LedgerError + CorrectionPreparation" where
  "prepare_correction reserve ledger c =
     and_then (existing_correction_receipt ledger c) (\<lambda>existing.
     case existing of
       Some receipt \<Rightarrow> Inr (CorrectionReplay receipt)
     | None \<Rightarrow>
         (let rev_entry = correction_reversal c; repl = correction_replacement c;
              reversed = corrected_transaction_id (entry_kind rev_entry)
          in and_then (validate_record_cardinality ledger 2) (\<lambda>_.
             and_then (validate_entry_cardinality ledger rev_entry) (\<lambda>_.
             and_then (validate_entry_cardinality ledger repl) (\<lambda>_.
             and_then (validate_recorded_at (ledger_last_recorded_at ledger) rev_entry) (\<lambda>_.
             and_then (validate_financial_entry rev_entry (ledger_closed_through ledger)) (\<lambda>_.
             and_then (validate_financial_entry repl (ledger_closed_through ledger)) (\<lambda>_.
             and_then (validate_reversal (map_option posted_entry (ledger_entries ledger reversed))
                         (ledger_reversals ledger reversed) reversed rev_entry) (\<lambda>_.
             and_then (ok_or (checked fits_usize (length (postings rev_entry) + length (postings repl)))
                         ArithmeticOverflow) (\<lambda>capacity.
             and_then (ensure (reserve BalanceUpdates capacity) (PreparationAllocationFailed BalanceUpdates)) (\<lambda>_.
             and_then (calculate_correction_balances (ledger_balances ledger) (postings rev_entry) (postings repl))
               (\<lambda>next_balances.
             and_then (ok_or (checked fits_usize (length (postings rev_entry) + length (postings repl)))
                         ArithmeticOverflow) (\<lambda>posting_count.
             and_then (preflight_event_capacity ledger 2 1 posting_count next_balances) (\<lambda>retained_after.
             and_then (next_sequence ledger) (\<lambda>sequence.
               Inr (CorrectionReady \<lparr>prepared_correction = c, correction_next_balances = next_balances,
                 correction_retained_after = retained_after,
                 correction_expected_count = length (ledger_journal ledger),
                 correction_sequence = sequence\<rparr>))))))))))))))))"

definition commit_correction :: "Ledger \<Rightarrow> PreparedCorrection \<Rightarrow> (LedgerError + CorrectionReceipt) \<times> Ledger" where
  "commit_correction ledger prepared =
     (let c = prepared_correction prepared; rev_entry = correction_reversal c; repl = correction_replacement c;
          rev_tid = transaction_id rev_entry; repl_tid = transaction_id repl
      in if length (ledger_journal ledger) \<noteq> correction_expected_count prepared \<or>
            ledger_entries ledger rev_tid \<noteq> None \<or> ledger_entries ledger repl_tid \<noteq> None
         then (Inl StalePreparation, ledger)
         else
           (Inr \<lparr>correction_receipt_sequence = correction_sequence prepared, correction_replayed = False,
                 receipt_reversal = rev_tid, receipt_replacement = repl_tid\<rparr>,
            ledger\<lparr>
              ledger_balances := apply_balance_updates (ledger_balances ledger) (correction_next_balances prepared),
              ledger_reversals :=
                (ledger_reversals ledger)(corrected_transaction_id (entry_kind rev_entry) \<mapsto> rev_tid),
              ledger_entries := (ledger_entries ledger)
                (rev_tid \<mapsto> \<lparr>posted_entry = rev_entry, posted_sequence = correction_sequence prepared\<rparr>,
                 repl_tid \<mapsto> \<lparr>posted_entry = repl, posted_sequence = correction_sequence prepared\<rparr>),
              ledger_journal := ledger_journal ledger @ [CorrectionKey rev_tid repl_tid],
              ledger_retained_postings := correction_retained_after prepared,
              ledger_last_recorded_at := Some (recorded_at repl)\<rparr>))"

definition correct :: "reserve \<Rightarrow> Ledger \<Rightarrow> LedgerCorrection \<Rightarrow> (LedgerError + CorrectionReceipt) \<times> Ledger" where
  "correct reserve ledger c =
     (case prepare_correction reserve ledger c of
        Inl e \<Rightarrow> (Inl e, ledger)
      | Inr (CorrectionReplay receipt) \<Rightarrow> (Inr receipt, ledger)
      | Inr (CorrectionReady prepared) \<Rightarrow> commit_correction ledger prepared)"

section \<open>Batches: prepare and commit\<close>

record BatchReceipt =
  batch_receipt_sequence :: nat
  batch_replayed :: bool
  batch_transaction_count :: nat

record PreparedBatch =
  prepared_batch :: LedgerBatch
  batch_next_balances :: "BalanceUpdate list"
  final_closed_through :: "AccountingDate option"
  new_reversals :: "(TransactionId \<times> TransactionId) list"
  batch_retained_after :: nat
  batch_expected_count :: nat
  batch_sequence :: nat

datatype BatchPreparation = BatchReplay BatchReceipt | BatchReady PreparedBatch

text \<open>What the loop over a batch carries besides the ledger it validates against.\<close>

record BatchOverlay =
  overlay_recorded_at :: "TimestampNs option"
  overlay_closed_through :: "AccountingDate option"
  pending_entries :: "TransactionId \<rightharpoonup> JournalEntry"
  pending_reversals :: "TransactionId \<rightharpoonup> TransactionId"
  overlay_new_reversals :: "(TransactionId \<times> TransactionId) list"

definition validate_batch_lifecycle_entry ::
    "Ledger \<Rightarrow> JournalEntry \<Rightarrow> BatchOverlay \<Rightarrow> LedgerError + BatchOverlay"
where
  "validate_batch_lifecycle_entry ledger entry overlay =
     (case entry_kind entry of
        Standard \<Rightarrow>
          and_then (validate_financial_entry entry (overlay_closed_through overlay)) (\<lambda>_. Inr overlay)
      | Reversal reversed \<Rightarrow>
          and_then (validate_financial_entry entry (overlay_closed_through overlay)) (\<lambda>_.
          and_then (validate_reversal
                      (case pending_entries overlay reversed of
                         Some original \<Rightarrow> Some original
                       | None \<Rightarrow> map_option posted_entry (ledger_entries ledger reversed))
                      (case pending_reversals overlay reversed of
                         Some by_tid \<Rightarrow> Some by_tid
                       | None \<Rightarrow> ledger_reversals ledger reversed) reversed entry) (\<lambda>_.
          case pending_reversals overlay reversed of
            Some by_tid \<Rightarrow> Inl (TransactionAlreadyReversed reversed by_tid)
          | None \<Rightarrow>
              Inr (overlay\<lparr>pending_reversals := (pending_reversals overlay)(reversed \<mapsto> transaction_id entry),
                   overlay_new_reversals := overlay_new_reversals overlay @ [(reversed, transaction_id entry)]\<rparr>)))
      | PeriodClose proposed \<Rightarrow>
          and_then (validate_control_entry entry) (\<lambda>_.
          if (case overlay_closed_through overlay of None \<Rightarrow> False | Some current \<Rightarrow> proposed \<le> current)
          then Inl (PeriodCloseNotAdvancing (overlay_closed_through overlay) proposed)
          else Inr (overlay\<lparr>overlay_closed_through := Some proposed\<rparr>))
      | PeriodReopen through \<Rightarrow>
          and_then (validate_control_entry entry) (\<lambda>_.
          and_then (ok_or (overlay_closed_through overlay) AccountingPeriodAlreadyOpen) (\<lambda>current.
          if (case through of None \<Rightarrow> False | Some proposed \<Rightarrow> current \<le> proposed)
          then Inl (InvalidPeriodReopen current through)
          else Inr (overlay\<lparr>overlay_closed_through := through\<rparr>))))"

fun validate_batch_entries :: "Ledger \<Rightarrow> JournalEntry list \<Rightarrow> BatchOverlay \<Rightarrow> LedgerError + BatchOverlay" where
  "validate_batch_entries ledger [] overlay = Inr overlay"
| "validate_batch_entries ledger (entry # rest) overlay =
     and_then (validate_recorded_at (overlay_recorded_at overlay) entry) (\<lambda>_.
     and_then (validate_batch_lifecycle_entry ledger entry overlay) (\<lambda>overlay.
     if pending_entries overlay (transaction_id entry) \<noteq> None
     then Inl (BatchDuplicateTransaction (transaction_id entry))
     else validate_batch_entries ledger rest
            (overlay\<lparr>pending_entries := (pending_entries overlay)(transaction_id entry \<mapsto> entry),
                     overlay_recorded_at := Some (recorded_at entry)\<rparr>)))"

text \<open>
  The signed terms of one balance: negative amounts are consumed while the running balance is
  non-negative, positive amounts while it is negative, and what remains at the end in turn.
\<close>

fun interleave :: "int \<Rightarrow> int list \<Rightarrow> int list \<Rightarrow> LedgerError + int" where
  "interleave current [] [] = Inr current"
| "interleave current (n # ns) [] =
     and_then (ok_or (checked fits_i128 (current + n)) ArithmeticOverflow) (\<lambda>current. interleave current ns [])"
| "interleave current [] (p # ps) =
     and_then (ok_or (checked fits_i128 (current + p)) ArithmeticOverflow) (\<lambda>current. interleave current [] ps)"
| "interleave current (n # ns) (p # ps) =
     (if 0 \<le> current
      then and_then (ok_or (checked fits_i128 (current + n)) ArithmeticOverflow) (\<lambda>current.
             interleave current ns (p # ps))
      else and_then (ok_or (checked fits_i128 (current + p)) ArithmeticOverflow) (\<lambda>current.
             interleave current (n # ns) ps))"

definition batch_terms :: "JournalEntry list \<Rightarrow> BalanceUpdate list" where
  "batch_terms entries =
     sort_key (\<lambda>(key, v). (key, 0 < v))
       (map (\<lambda>posting. ((account_id posting, asset_id posting), amount posting)) (concat (map postings entries)))"

function group_balances :: "(BalanceKey \<rightharpoonup> int) \<Rightarrow> BalanceUpdate list \<Rightarrow> LedgerError + BalanceUpdate list" where
  "group_balances balances [] = Inr []"
| "group_balances balances ((key, v) # terms) =
     (let group = (key, v) # takeWhile (\<lambda>(other, _). other = key) terms;
          rest = dropWhile (\<lambda>(other, _). other = key) terms;
          negatives = takeWhile (\<lambda>v. v < 0) (map snd group);
          positives = drop (length negatives) (map snd group);
          current = balance_in balances key
      in and_then (interleave current negatives positives) (\<lambda>next_balance.
         and_then (group_balances balances rest) (\<lambda>updates.
           Inr (if next_balance \<noteq> current then (key, next_balance) # updates else updates))))"
  by pat_completeness auto
termination
  by (relation "measure (\<lambda>(balances, terms). length terms)") (auto simp: length_dropWhile_le less_Suc_eq_le)

fun sum_checked :: "nat list \<Rightarrow> nat \<Rightarrow> LedgerError + nat" where
  "sum_checked [] n = Inr n"
| "sum_checked (k # ks) n = and_then (ok_or (checked fits_usize (n + k)) ArithmeticOverflow) (sum_checked ks)"

definition calculate_batch_balances ::
    "reserve \<Rightarrow> (BalanceKey \<rightharpoonup> int) \<Rightarrow> JournalEntry list \<Rightarrow> LedgerError + BalanceUpdate list"
where
  "calculate_batch_balances reserve balances entries =
     and_then (sum_checked (map (\<lambda>entry. length (postings entry)) entries) 0) (\<lambda>posting_count.
     and_then (ensure (reserve BalanceTerms posting_count) (PreparationAllocationFailed BalanceTerms)) (\<lambda>_.
     and_then (ensure (reserve BalanceUpdates (length (batch_terms entries)))
                (PreparationAllocationFailed BalanceUpdates)) (\<lambda>_.
       group_balances balances (batch_terms entries))))"

fun scan_batch ::
    "(TransactionId \<rightharpoonup> PostedEntry) \<Rightarrow> JournalEntry list \<Rightarrow> TransactionId option \<Rightarrow> nat \<Rightarrow> nat option
     \<Rightarrow> LedgerError + TransactionId option \<times> nat \<times> nat option"
where
  "scan_batch entries [] first_present present_count sequence = Inr (first_present, present_count, sequence)"
| "scan_batch entries (entry # rest) first_present present_count sequence =
     (case entries (transaction_id entry) of
        None \<Rightarrow> scan_batch entries rest first_present present_count sequence
      | Some existing \<Rightarrow>
          if posted_entry existing \<noteq> entry then Inl (TransactionIdCollision (transaction_id entry))
          else and_then (ok_or (checked fits_usize (present_count + 1)) ArithmeticOverflow) (\<lambda>present_count.
                 scan_batch entries rest
                   (case first_present of None \<Rightarrow> Some (transaction_id entry) | Some tid \<Rightarrow> Some tid)
                   present_count
                   (case sequence of None \<Rightarrow> Some (posted_sequence existing) | Some n \<Rightarrow> Some n)))"

definition existing_batch_receipt :: "Ledger \<Rightarrow> LedgerBatch \<Rightarrow> LedgerError + BatchReceipt option" where
  "existing_batch_receipt ledger batch =
     and_then (scan_batch (ledger_entries ledger) (batch_entries batch) None 0 None)
       (\<lambda>(first_present, present_count, sequence).
         case first_present of
           None \<Rightarrow> Inr None
         | Some first_present \<Rightarrow>
             and_then (ensure (present_count = length (batch_entries batch))
                        (BatchAlreadyPartiallyCommitted first_present)) (\<lambda>_.
             and_then (ok_or sequence (BatchAlreadyPartiallyCommitted first_present)) (\<lambda>sequence.
             and_then (ensure (\<not> list_ex (\<lambda>entry. case ledger_entries ledger (transaction_id entry) of
                                 None \<Rightarrow> True | Some posted \<Rightarrow> posted_sequence posted \<noteq> sequence) (batch_entries batch))
                        (BatchAlreadyPartiallyCommitted first_present)) (\<lambda>_.
             and_then (ensure (sequence \<noteq> 0 \<and> sequence - 1 < length (ledger_journal ledger) \<and>
                               ledger_journal ledger ! (sequence - 1) = BatchKey batch)
                        (BatchAlreadyPartiallyCommitted first_present)) (\<lambda>_.
               Inr (Some \<lparr>batch_receipt_sequence = sequence, batch_replayed = True,
                          batch_transaction_count = length (batch_entries batch)\<rparr>))))))"

fun count_batch_postings :: "Ledger \<Rightarrow> JournalEntry list \<Rightarrow> nat \<Rightarrow> LedgerError + nat" where
  "count_batch_postings ledger [] n = Inr n"
| "count_batch_postings ledger (entry # rest) n =
     and_then (validate_entry_cardinality ledger entry) (\<lambda>_.
     and_then (ok_or (checked fits_usize (n + length (postings entry))) ArithmeticOverflow)
       (count_batch_postings ledger rest))"

definition prepare_batch :: "reserve \<Rightarrow> Ledger \<Rightarrow> LedgerBatch \<Rightarrow> LedgerError + BatchPreparation" where
  "prepare_batch reserve ledger batch =
     and_then (existing_batch_receipt ledger batch) (\<lambda>existing.
     case existing of
       Some receipt \<Rightarrow> Inr (BatchReplay receipt)
     | None \<Rightarrow>
         (let entries = batch_entries batch; n = length entries
          in and_then (validate_record_cardinality ledger n) (\<lambda>_.
             and_then (count_batch_postings ledger entries 0) (\<lambda>posting_count.
             and_then (ensure (reserve PendingTransactions n) (PreparationAllocationFailed PendingTransactions)) (\<lambda>_.
             and_then (ensure (reserve PendingReversals n) (PreparationAllocationFailed PendingReversals)) (\<lambda>_.
             and_then (ensure (reserve NewReversals n) (PreparationAllocationFailed NewReversals)) (\<lambda>_.
             and_then (validate_batch_entries ledger entries
                         \<lparr>overlay_recorded_at = ledger_last_recorded_at ledger,
                          overlay_closed_through = ledger_closed_through ledger,
                          pending_entries = Map.empty, pending_reversals = Map.empty,
                          overlay_new_reversals = []\<rparr>) (\<lambda>overlay.
             and_then (calculate_batch_balances reserve (ledger_balances ledger) entries) (\<lambda>next_balances.
             and_then (preflight_event_capacity ledger n (length (overlay_new_reversals overlay)) posting_count
                         next_balances) (\<lambda>retained_after.
             and_then (next_sequence ledger) (\<lambda>sequence.
               Inr (BatchReady \<lparr>prepared_batch = batch, batch_next_balances = next_balances,
                 final_closed_through = overlay_closed_through overlay,
                 new_reversals = overlay_new_reversals overlay, batch_retained_after = retained_after,
                 batch_expected_count = length (ledger_journal ledger), batch_sequence = sequence\<rparr>))))))))))))"

definition commit_batch :: "Ledger \<Rightarrow> PreparedBatch \<Rightarrow> (LedgerError + BatchReceipt) \<times> Ledger" where
  "commit_batch ledger prepared =
     (let entries = batch_entries (prepared_batch prepared)
      in if length (ledger_journal ledger) \<noteq> batch_expected_count prepared \<or>
            list_ex (\<lambda>entry. ledger_entries ledger (transaction_id entry) \<noteq> None) entries
         then (Inl StalePreparation, ledger)
         else
           (Inr \<lparr>batch_receipt_sequence = batch_sequence prepared, batch_replayed = False,
                 batch_transaction_count = length entries\<rparr>,
            ledger\<lparr>
              ledger_balances := apply_balance_updates (ledger_balances ledger) (batch_next_balances prepared),
              ledger_closed_through := final_closed_through prepared,
              ledger_reversals :=
                fold (\<lambda>(reversed, by_tid) m. m(reversed \<mapsto> by_tid)) (new_reversals prepared) (ledger_reversals ledger),
              ledger_entries :=
                fold (\<lambda>entry m. m(transaction_id entry \<mapsto>
                    \<lparr>posted_entry = entry, posted_sequence = batch_sequence prepared\<rparr>)) entries (ledger_entries ledger),
              ledger_journal := ledger_journal ledger @ [BatchKey (prepared_batch prepared)],
              ledger_retained_postings := batch_retained_after prepared,
              ledger_last_recorded_at := Some (recorded_at (entries ! (length entries - 1)))\<rparr>))"

definition post_batch :: "reserve \<Rightarrow> Ledger \<Rightarrow> LedgerBatch \<Rightarrow> (LedgerError + BatchReceipt) \<times> Ledger" where
  "post_batch reserve ledger batch =
     (case prepare_batch reserve ledger batch of
        Inl e \<Rightarrow> (Inl e, ledger)
      | Inr (BatchReplay receipt) \<Rightarrow> (Inr receipt, ledger)
      | Inr (BatchReady prepared) \<Rightarrow> commit_batch ledger prepared)"

section \<open>Derived operations\<close>

definition reverse :: "reserve \<Rightarrow> Ledger \<Rightarrow> TransactionId \<Rightarrow> nat \<Rightarrow> AccountingDate \<Rightarrow> TimestampNs \<Rightarrow> TransactionId
     \<Rightarrow> (LedgerError + PostReceipt) \<times> Ledger" where
  "reverse reserve ledger tid ref date recorded reversed =
     (case and_then (ok_or (ledger_entries ledger reversed) (ReversalTargetMissing reversed)) (\<lambda>original.
             reversal reserve tid ref date recorded (posted_entry original)) of
        Inl e \<Rightarrow> (Inl e, ledger)
      | Inr entry \<Rightarrow> post reserve ledger entry)"

definition close_period :: "reserve \<Rightarrow> Ledger \<Rightarrow> TransactionId \<Rightarrow> nat \<Rightarrow> TimestampNs \<Rightarrow> AccountingDate
     \<Rightarrow> (LedgerError + PostReceipt) \<times> Ledger" where
  "close_period reserve ledger tid ref recorded through =
     (case period_close tid ref recorded through of
        Inl e \<Rightarrow> (Inl e, ledger)
      | Inr entry \<Rightarrow> post reserve ledger entry)"

definition reopen_period :: "reserve \<Rightarrow> Ledger \<Rightarrow> TransactionId \<Rightarrow> nat \<Rightarrow> TimestampNs \<Rightarrow> AccountingDate option
     \<Rightarrow> (LedgerError + PostReceipt) \<times> Ledger" where
  "reopen_period reserve ledger tid ref recorded through =
     (case period_reopen tid ref recorded through of
        Inl e \<Rightarrow> (Inl e, ledger)
      | Inr entry \<Rightarrow> post reserve ledger entry)"

definition settle_trade :: "reserve \<Rightarrow> Ledger \<Rightarrow> TransactionId \<Rightarrow> AccountingDate \<Rightarrow> TimestampNs \<Rightarrow> Trade
     \<Rightarrow> SettlementConvention \<Rightarrow> (LedgerError + PostReceipt) \<times> Ledger" where
  "settle_trade reserve ledger tid date recorded trade convention =
     (case from_trade tid date recorded trade convention of
        Inl e \<Rightarrow> (Inl e, ledger)
      | Inr entry \<Rightarrow> post reserve ledger entry)"

end
