(* ===== verification/LedgerBalances.thy ===== *)
theory LedgerBalances
  imports Ledger
begin

text \<open>
  The balance arithmetic of the ledger: each of the three prepared balance images (one entry, the merge
  of a correction, the grouped terms of a batch) is exact. It fails only if a final balance is not an
  \<open>i128\<close>, never for an intermediate sum, and applying it yields the new balances with zeros removed.
\<close>

section \<open>Images of the balances\<close>

definition balances_of :: "('k \<Rightarrow> int) \<Rightarrow> ('k \<rightharpoonup> int)" where
  "balances_of f = (\<lambda>key. if f key = 0 then None else Some (f key))"

lemma balance_in_balances_of [simp]: "balance_in (balances_of f) key = f key"
  by (simp add: balance_in_def balances_of_def)

lemma dom_balances_of: "dom (balances_of f) = {key. f key \<noteq> 0}"
  by (auto simp: balances_of_def dom_def)

definition updates_to :: "('k \<Rightarrow> int) \<Rightarrow> ('k \<times> int) list \<Rightarrow> ('k \<Rightarrow> int) \<Rightarrow> bool" where
  "updates_to f us g \<longleftrightarrow> distinct (map fst us) \<and>
     (\<forall>key. g key = (case map_of us key of None \<Rightarrow> f key | Some v \<Rightarrow> v))"

lemma fold_remove: "fold (\<lambda>(key, v) m. if v = (0::int) then m(key := None) else m) us m k =
    (if (k, 0) \<in> set us then None else m k)"
  by (induction us arbitrary: m) (auto split: if_splits)

lemma fold_insert: "distinct (map fst us) \<Longrightarrow>
    fold (\<lambda>(key, v) m. if v \<noteq> (0::int) then m(key \<mapsto> v) else m) us m k =
    (case map_of us k of None \<Rightarrow> m k | Some v \<Rightarrow> if v \<noteq> 0 then Some v else m k)"
proof (induction us arbitrary: m)
  case (Cons u us)
  obtain key v where u: "u = (key, v)" by (cases u)
  have "map_of us key = None" using Cons.prems u by (simp add: map_of_eq_None_iff image_iff)
  then show ?case using Cons u by (auto split: option.splits)
qed simp

lemma updates_to_key: "updates_to f us g \<Longrightarrow> g key = (case map_of us key of None \<Rightarrow> f key | Some v \<Rightarrow> v)"
  by (simp add: updates_to_def)

lemma apply_updates:
  assumes "updates_to f us g"
  shows "apply_balance_updates (balances_of f) us = balances_of g"
proof (rule ext)
  fix k
  have d: "distinct (map fst us)" using assms by (simp add: updates_to_def)
  have "(k, 0) \<in> set us \<longleftrightarrow> map_of us k = Some 0" using d by (simp add: map_of_eq_Some_iff)
  then show "apply_balance_updates (balances_of f) us k = balances_of g k"
    unfolding apply_balance_updates_def Let_def fold_insert [OF d] fold_remove balances_of_def
      updates_to_key [OF assms, of k]
    by (cases "map_of us k") simp_all
qed

lemma count_balances_exact:
  assumes "distinct (map fst us)" "finite (dom m)" "\<forall>key \<in> fst ` set us. m key = b key"
    and "count_balances b us (card (dom m)) = Inr n"
  shows "n = card (dom (fold (\<lambda>(key, v) m. if v = 0 then m(key := None) else m(key \<mapsto> v)) us m))"
  using assms
proof (induction us arbitrary: m)
  case (Cons u us)
  obtain key v where u: "u = (key, v)" by (cases u)
  let ?m = "if v = 0 then m(key := None) else m(key \<mapsto> v)"
  have b: "b key = m key" using Cons.prems(3) by (simp add: u)
  have "count_balances b us (card (dom ?m)) = Inr n"
  proof -
    consider "m key \<noteq> None" "v = 0" | "m key = None" "v \<noteq> 0" | "m key \<noteq> None" "v \<noteq> 0" | "m key = None" "v = 0" by blast
    then show ?thesis
    proof cases
      case 1
      then have "card (dom ?m) = card (dom m) - 1" using Cons.prems(2) by (simp add: domIff)
      then show ?thesis using Cons.prems(4) 1 b by (auto simp: u result_simps)
    next
      case 2
      then have "card (dom ?m) = card (dom m) + 1" using Cons.prems(2) by (simp add: domIff)
      then show ?thesis using Cons.prems(4) 2 b by (auto simp: u result_simps)
    next
      case 3
      then have "dom ?m = dom m" by auto
      then show ?thesis using Cons.prems(4) 3 b by (simp add: u)
    next
      case 4
      then have "dom ?m = dom m" by (auto simp: domIff)
      then show ?thesis using Cons.prems(4) 4 b by (simp add: u)
    qed
  qed
  moreover have "\<forall>k \<in> fst ` set us. ?m k = b k"
    using Cons.prems(1,3) by (auto simp: u)
  ultimately have "n = card (dom (fold (\<lambda>(key, v) m. if v = 0 then m(key := None) else m(key \<mapsto> v)) us ?m))"
    using Cons.IH [of ?m] Cons.prems(1,2) by (simp add: u)
  then show ?case by (simp add: u)
qed simp

lemma fold_update: "distinct (map fst us) \<Longrightarrow>
    fold (\<lambda>(key, v) m. if v = (0::int) then m(key := None) else m(key \<mapsto> v)) us m k =
    (case map_of us k of None \<Rightarrow> m k | Some v \<Rightarrow> if v \<noteq> 0 then Some v else None)"
proof (induction us arbitrary: m)
  case (Cons u us)
  obtain key v where u: "u = (key, v)" by (cases u)
  have "map_of us key = None" using Cons.prems u by (simp add: map_of_eq_None_iff image_iff)
  then show ?case using Cons u by (auto split: option.splits)
qed simp

lemma count_updates:
  assumes "updates_to f us g" "finite {key. f key \<noteq> 0}"
    and "count_balances (balances_of f) us (card (dom (balances_of f))) = Inr n"
  shows "n = card {key. g key \<noteq> 0}"
proof -
  have d: "distinct (map fst us)" using assms(1) by (simp add: updates_to_def)
  have "fold (\<lambda>(key, v) m. if v = 0 then m(key := None) else m(key \<mapsto> v)) us (balances_of f) = balances_of g"
    by (rule ext) (simp add: fold_update [OF d] updates_to_key [OF assms(1)] balances_of_def split: option.split)
  then show ?thesis
    using count_balances_exact [OF d _ _ assms(3)] assms(2) by (simp add: dom_balances_of)
qed

section \<open>One entry\<close>

lemma entry_balances_iff:
  "entry_balances b ps = Inr us \<longleftrightarrow>
     (\<forall>p \<in> set ps. fits_i128 (balance_in b (posting_key p) + amount p)) \<and>
     us = map (\<lambda>p. (posting_key p, balance_in b (posting_key p) + amount p)) ps"
  by (induction ps arbitrary: us) (auto simp: result_simps posting_key_def Let_def)

lemma posting_sum_member:
  "distinct (map posting_key ps) \<Longrightarrow> p \<in> set ps \<Longrightarrow> posting_sum ps (posting_key p) = amount p"
proof (induction ps)
  case (Cons q ps)
  then show ?case using posting_sum_absent [of "posting_key q" ps] by (cases "p = q") (auto dest: image_eqI)
qed simp

lemma entry_updates:
  assumes "distinct (map posting_key ps)" "entry_balances (balances_of f) ps = Inr us"
  shows "updates_to f us (\<lambda>key. f key + posting_sum ps key)"
proof -
  have us: "us = map (\<lambda>p. (posting_key p, f (posting_key p) + amount p)) ps"
    using assms(2) by (simp add: entry_balances_iff)
  have keys: "map fst us = map posting_key ps" by (simp add: us)
  have "f key + posting_sum ps key = (case map_of us key of None \<Rightarrow> f key | Some v \<Rightarrow> v)" for key
  proof (cases "map_of us key")
    case None
    then have "key \<notin> set (map posting_key ps)" by (simp only: map_of_eq_None_iff flip: keys) simp
    then show ?thesis using None posting_sum_absent [of key ps] by simp
  next
    case (Some v)
    then obtain p where "p \<in> set ps" "key = posting_key p" "v = f (posting_key p) + amount p"
      using map_of_SomeD [OF Some] by (auto simp: us)
    then show ?thesis using Some posting_sum_member [OF assms(1)] by simp
  qed
  then show ?thesis using assms(1) keys by (simp add: updates_to_def)
qed

lemma entry_balances_fits:
  assumes "distinct (map posting_key ps)"
  shows "(\<exists>us. entry_balances (balances_of f) ps = Inr us) \<longleftrightarrow>
    (\<forall>key \<in> posting_key ` set ps. fits_i128 (f key + posting_sum ps key))"
  using posting_sum_member [OF assms] by (auto simp: entry_balances_iff)

section \<open>Three addends\<close>

lemma checked_add_three_exact:
  assumes "fits_i128 a" "fits_i128 b" "fits_i128 c"
  shows "checked_add_three a b c = checked fits_i128 (a + b + c)"
proof -
  let ?M = "2 ^ 127 :: int"
  have r: "- ?M \<le> a" "a < ?M" "- ?M \<le> b" "b < ?M" "- ?M \<le> c" "c < ?M"
    using assms by (auto simp: fits_i128_def)
  have "(fits_i128 (a + b) \<or> fits_i128 (a + c) \<or> fits_i128 (b + c))" if "fits_i128 (a + b + c)"
    using r that unfolding fits_i128_def by linarith
  then show ?thesis
    by (cases "fits_i128 (a + b)"; cases "fits_i128 (a + c)"; cases "fits_i128 (b + c)"; cases "fits_i128 (a + b + c)")
      (auto simp: checked_add_three_def checked_def add.commute add.left_commute Let_def)
qed

text \<open>
  C34. The three-operand addition of a correction is exact: it yields the sum whenever the sum is an
  \<open>i128\<close>, although the first partial sum it tries may overflow.
\<close>

theorem checked_add_three_correct:
  assumes "fits_i128 first" "fits_i128 second" "fits_i128 third"
  shows "checked_add_three first second third =
    (if fits_i128 (first + second + third) then Some (first + second + third) else None)"
  using checked_add_three_exact [OF assms] by (simp add: checked_def)

theorem checked_add_three_correct_witness:
  "checked_add_three (2 ^ 127 - 1) (2 ^ 127 - 1) (- (2 ^ 127)) = Some (2 ^ 127 - 2)"
  using checked_add_three_correct [of "2 ^ 127 - 1" "2 ^ 127 - 1" "- (2 ^ 127)"] by (simp add: fits_i128_def)

section \<open>The merge of a correction\<close>

lemma updates_to_Nil [simp]: "updates_to f [] g \<longleftrightarrow> g = f"
  by (auto simp: updates_to_def)

lemma updates_to_Cons:
  assumes "updates_to f us g" "key \<notin> fst ` set us"
  shows "updates_to f ((if v \<noteq> f key then [(key, v)] else []) @ us) (g(key := v))"
proof -
  have "map_of us key = None" using assms(2) by (simp add: map_of_eq_None_iff)
  then show ?thesis using assms by (auto simp: updates_to_def)
qed

lemma merge_step_exact:
  assumes "fits_i128 (f (posting_key p))" "fits_i128 a" "fits_i128 b"
  shows "merge_step (balances_of f) p a b =
    (let v = f (posting_key p) + a + b
     in if fits_i128 v then Inr (if v \<noteq> f (posting_key p) then [(posting_key p, v)] else []) else Inl ArithmeticOverflow)"
  using checked_add_three_exact [OF assms]
  by (simp add: merge_step_def posting_key_def Let_def checked_def)

definition strict_postings :: "Posting list \<Rightarrow> bool" where
  "strict_postings ps \<longleftrightarrow> sorted_wrt (<) (map posting_order ps) \<and> typed_postings ps"

lemma strict_Cons: "strict_postings (p # ps) \<Longrightarrow> strict_postings ps \<and> fits_i128 (amount p) \<and>
    posting_key p \<notin> posting_key ` set ps"
  by (auto simp: strict_postings_def typed_postings_def posting_order_key [symmetric])

lemma strict_above: "strict_postings (q # qs) \<Longrightarrow> posting_order p < posting_order q \<Longrightarrow>
    posting_key p \<notin> posting_key ` set (q # qs)"
  by (auto simp: strict_postings_def posting_order_key [symmetric])

definition correction_image :: "(BalanceKey \<Rightarrow> int) \<Rightarrow> Posting list \<Rightarrow> Posting list \<Rightarrow> BalanceKey \<Rightarrow> int" where
  "correction_image f ps qs key = f key + posting_sum ps key + posting_sum qs key"

definition correction_exact :: "(BalanceKey \<Rightarrow> int) \<Rightarrow> Posting list \<Rightarrow> Posting list \<Rightarrow> bool" where
  "correction_exact f ps qs \<longleftrightarrow>
     (\<exists>us. calculate_correction_balances (balances_of f) ps qs = Inr us \<and>
        updates_to f us (correction_image f ps qs) \<and>
        fst ` set us \<subseteq> posting_key ` set ps \<union> posting_key ` set qs \<and>
        (\<forall>key. fits_i128 (correction_image f ps qs key))) \<or>
     (calculate_correction_balances (balances_of f) ps qs = Inl ArithmeticOverflow \<and>
        (\<exists>key. \<not> fits_i128 (correction_image f ps qs key)))"

text \<open>One key of the merge, whichever side holds it.\<close>

lemma correction_exact_step:
  assumes "calculate_correction_balances (balances_of f) ps qs =
        and_then (merge_step (balances_of f) p a b) (\<lambda>updates.
        and_then (calculate_correction_balances (balances_of f) ps' qs') (\<lambda>rest. Inr (updates @ rest)))"
    and "fits_i128 a" "fits_i128 b" "correction_exact f ps' qs'"
    and "posting_key p \<notin> posting_key ` set ps'" "posting_key p \<notin> posting_key ` set qs'"
    and keys: "posting_key ` set ps' \<union> posting_key ` set qs' \<subseteq> posting_key ` set ps \<union> posting_key ` set qs"
      "posting_key p \<in> posting_key ` set ps \<union> posting_key ` set qs"
    and sums: "\<And>key. posting_sum ps key + posting_sum qs key =
      (if key = posting_key p then a + b else posting_sum ps' key + posting_sum qs' key)"
    and fits: "\<And>key. fits_i128 (f key)"
  shows "correction_exact f ps qs"
proof -
  let ?g = "correction_image f ps qs" and ?g' = "correction_image f ps' qs'"
  let ?v = "f (posting_key p) + a + b"
  let ?u = "if ?v \<noteq> f (posting_key p) then [(posting_key p, ?v)] else []"
  have gk: "?g key = (if key = posting_key p then ?v else ?g' key)" for key
    using sums [of key] by (simp add: correction_image_def algebra_simps)
  then have g: "?g = ?g'(posting_key p := ?v)" by (simp add: fun_eq_iff del: split_paired_All)
  have own: "?g' (posting_key p) = f (posting_key p)"
    using assms(5,6) by (simp add: correction_image_def posting_sum_absent)
  consider us where "calculate_correction_balances (balances_of f) ps' qs' = Inr us" "updates_to f us ?g'"
      "fst ` set us \<subseteq> posting_key ` set ps' \<union> posting_key ` set qs'" "\<And>key. fits_i128 (?g' key)"
    | key where "calculate_correction_balances (balances_of f) ps' qs' = Inl ArithmeticOverflow" "\<not> fits_i128 (?g' key)"
    using assms(4) unfolding correction_exact_def by blast
  then show ?thesis
  proof cases
    case (1 us)
    show ?thesis
    proof (cases "fits_i128 ?v")
      case True
      then have calc: "calculate_correction_balances (balances_of f) ps qs = Inr (?u @ us)"
        using assms(1-3) fits 1(1) by (simp add: merge_step_exact Let_def)
      have "posting_key p \<notin> fst ` set us" using 1(3) assms(5,6) by blast
      from updates_to_Cons [OF 1(2) this, of ?v] have up: "updates_to f (?u @ us) ?g" unfolding g .
      have u: "fst ` set ?u \<subseteq> {posting_key p}" by (cases "?v \<noteq> f (posting_key p)") simp_all
      have k: "{posting_key p} \<subseteq> posting_key ` set ps \<union> posting_key ` set qs" using keys(2) by simp
      have "fst ` set (?u @ us) \<subseteq> posting_key ` set ps \<union> posting_key ` set qs"
        unfolding set_append image_Un by (rule Un_least [OF order_trans [OF u k] order_trans [OF 1(3) keys(1)]])
      moreover have "fits_i128 (?g key)" for key using 1(4) True unfolding gk by simp
      ultimately show ?thesis using calc up unfolding correction_exact_def by blast
    next
      case False
      then have "calculate_correction_balances (balances_of f) ps qs = Inl ArithmeticOverflow"
        using assms(1-3) fits by (simp add: merge_step_exact Let_def)
      moreover have "\<not> fits_i128 (?g (posting_key p))" using False unfolding gk by simp
      ultimately show ?thesis unfolding correction_exact_def by blast
    qed
  next
    case (2 key)
    have "key \<noteq> posting_key p" using 2(2) own fits by metis
    then have "\<not> fits_i128 (?g key)" using 2(2) unfolding gk by simp
    moreover have "calculate_correction_balances (balances_of f) ps qs = Inl ArithmeticOverflow"
      using assms(1-3) fits 2(1) by (cases "fits_i128 ?v") (simp_all add: merge_step_exact Let_def)
    ultimately show ?thesis unfolding correction_exact_def by blast
  qed
qed

lemma calculate_correction_exact:
  assumes "strict_postings ps" "strict_postings qs" "\<And>key. fits_i128 (f key)"
  shows "correction_exact f ps qs"
  using assms(1,2)
proof (induction "length ps + length qs" arbitrary: ps qs rule: less_induct)
  case less
  have zero: "fits_i128 0" by (simp add: fits_i128_def)
  show ?case
  proof (cases ps; cases qs)
    assume "ps = []" "qs = []"
    then show ?thesis using assms(3) by (simp add: correction_exact_def correction_image_def fun_eq_iff)
  next
    fix p ps' assume e: "ps = p # ps'" "qs = []"
    note p = strict_Cons [OF less.prems(1)[unfolded e]]
    show ?thesis
      by (rule correction_exact_step [of f ps qs p "amount p" 0 ps' "[]"])
        (use e p less posting_sum_absent [of "posting_key p" ps'] zero assms(3) in auto)
  next
    fix q qs' assume e: "ps = []" "qs = q # qs'"
    note q = strict_Cons [OF less.prems(2)[unfolded e]]
    show ?thesis
      by (rule correction_exact_step [of f ps qs q 0 "amount q" "[]" qs'])
        (use e q less posting_sum_absent [of "posting_key q" qs'] zero assms(3) in auto)
  next
    fix p ps' q qs' assume e: "ps = p # ps'" "qs = q # qs'"
    note p = strict_Cons [OF less.prems(1)[unfolded e]] and q = strict_Cons [OF less.prems(2)[unfolded e]]
    consider "posting_order p < posting_order q" | "posting_order q < posting_order p" | "posting_order p = posting_order q"
      by (metis linorder_less_linear)
    then show ?thesis
    proof cases
      case 1
      note above = strict_above [OF less.prems(2)[unfolded e] 1]
      have "correction_exact f ps' qs" using less.hyps [of ps' qs] less.prems p e by simp
      then show ?thesis
        using e p above 1 posting_sum_absent [of "posting_key p" ps'] posting_sum_absent [OF above] zero assms(3)
        by (intro correction_exact_step [of f ps qs p "amount p" 0 ps' qs]) auto
    next
      case 2
      note above = strict_above [OF less.prems(1)[unfolded e] 2]
      have "correction_exact f ps qs'" using less.hyps [of ps qs'] less.prems q e by simp
      then show ?thesis
        using e q above 2 posting_sum_absent [of "posting_key q" qs'] posting_sum_absent [OF above] zero assms(3)
        by (intro correction_exact_step [of f ps qs q 0 "amount q" ps qs']) auto
    next
      case 3
      then have key: "posting_key p = posting_key q" by (simp add: posting_order_key)
      have "correction_exact f ps' qs'" using less.hyps [of ps' qs'] p q e by simp
      then show ?thesis
        using e p q 3 key posting_sum_absent [of "posting_key p" ps'] posting_sum_absent [of "posting_key q" qs'] assms(3)
        by (intro correction_exact_step [of f ps qs p "amount p" "amount q" ps' qs']) auto
    qed
  qed
qed

section \<open>The grouped terms of a batch\<close>

lemma interleave_exact:
  assumes "fits_i128 current" "\<forall>v \<in> set ns. v < 0 \<and> fits_i128 v" "\<forall>v \<in> set ps. 0 < v \<and> fits_i128 v"
  shows "interleave current ns ps =
    ok_or (checked fits_i128 (current + sum_list ns + sum_list ps)) ArithmeticOverflow"
  using assms
proof (induction current ns ps rule: interleave.induct)
  case (1 current)
  then show ?case by simp
next
  case (2 current n ns)
  have neg: "sum_list ns \<le> 0" using 2(3) by (intro sum_list_nonpos) auto
  show ?case
  proof (cases "fits_i128 (current + n)")
    case True
    then show ?thesis using 2 by (simp add: add.assoc)
  next
    case False
    have "n < 0" using 2(3) by simp
    then have "current + n < - (2 ^ 127)" using False 2(2) by (simp add: fits_i128_def)
    then have "\<not> fits_i128 (current + (n + sum_list ns))" using neg by (simp add: fits_i128_def)
    then show ?thesis using False by (simp add: checked_def)
  qed
next
  case (3 current p ps)
  have pos: "0 \<le> sum_list ps" using 3(4) by (intro sum_list_nonneg) auto
  show ?case
  proof (cases "fits_i128 (current + p)")
    case True
    then show ?thesis using 3 by (simp add: add.assoc)
  next
    case False
    have "0 < p" using 3(4) by simp
    then have "2 ^ 127 \<le> current + p" using False 3(2) by (simp add: fits_i128_def)
    then have "\<not> fits_i128 (current + (p + sum_list ps))" using pos by (simp add: fits_i128_def)
    then show ?thesis using False by (simp add: checked_def)
  qed
next
  case (4 current n ns p ps)
  show ?case
  proof (cases "0 \<le> current")
    case True
    then have "fits_i128 (current + n)" using 4(3,4) by (simp add: fits_i128_def)
    then show ?thesis using True 4 by (simp add: add.assoc)
  next
    case False
    then have "fits_i128 (current + p)" using 4(3,5) by (simp add: fits_i128_def)
    then show ?thesis using False 4 by (simp add: algebra_simps)
  qed
qed

definition term_sum :: "('k \<times> int) list \<Rightarrow> 'k \<Rightarrow> int" where
  "term_sum terms key = sum_list (map snd (filter (\<lambda>(other, _). other = key) terms))"

definition terms_wf :: "BalanceUpdate list \<Rightarrow> bool" where
  "terms_wf terms \<longleftrightarrow> sorted (map (\<lambda>(key, v). (key, 0 < v)) terms) \<and> (\<forall>(key, v) \<in> set terms. v \<noteq> 0 \<and> fits_i128 v)"

lemma term_sum_simps:
  "term_sum [] key = 0"
  "term_sum ((other, v) # terms) key = (if other = key then v else 0) + term_sum terms key"
  by (simp_all add: term_sum_def)

lemma term_sum_absent: "key \<notin> fst ` set terms \<Longrightarrow> term_sum terms key = 0"
  by (induction terms) (auto simp: term_sum_def)

lemma takeWhile_sorted:
  fixes f :: "'a \<Rightarrow> 'b :: linorder"
  assumes "sorted (map f xs)" "\<forall>x \<in> set xs. k \<le> f x"
  shows "takeWhile (\<lambda>x. f x = k) xs = filter (\<lambda>x. f x = k) xs"
    and "dropWhile (\<lambda>x. f x = k) xs = filter (\<lambda>x. f x \<noteq> k) xs"
proof -
  have "takeWhile (\<lambda>x. f x = k) xs = filter (\<lambda>x. f x = k) xs \<and> dropWhile (\<lambda>x. f x = k) xs = filter (\<lambda>x. f x \<noteq> k) xs"
    using assms
  proof (induction xs)
    case (Cons x xs)
    show ?case
    proof (cases "f x = k")
      case False
      then have "\<forall>y \<in> set (x # xs). f y \<noteq> k" using Cons.prems by auto
      then show ?thesis by (simp add: filter_empty_conv filter_True)
    qed (use Cons in auto)
  qed simp
  then show "takeWhile (\<lambda>x. f x = k) xs = filter (\<lambda>x. f x = k) xs"
    and "dropWhile (\<lambda>x. f x = k) xs = filter (\<lambda>x. f x \<noteq> k) xs" by blast+
qed

lemma split_signs:
  assumes "sorted (map (\<lambda>v. 0 < v) vs)" "\<forall>v \<in> set vs. v \<noteq> (0::int)"
  shows "takeWhile (\<lambda>v. v < 0) vs = filter (\<lambda>v. v < 0) vs"
    and "drop (length (takeWhile (\<lambda>v. v < 0) vs)) vs = filter (\<lambda>v. 0 < v) vs"
proof -
  have "takeWhile (\<lambda>v. v < 0) vs = filter (\<lambda>v. v < 0) vs \<and> dropWhile (\<lambda>v. v < 0) vs = filter (\<lambda>v. 0 < v) vs"
    using assms
  proof (induction vs)
    case (Cons v vs)
    show ?case
    proof (cases "v < 0")
      case False
      then have "\<forall>w \<in> set (v # vs). 0 < w" using Cons.prems by auto
      then have "filter (\<lambda>v. v < 0) (v # vs) = []" "filter (\<lambda>v. 0 < v) (v # vs) = v # vs"
        by (auto simp: filter_empty_conv filter_id_conv simp del: filter.simps)
      then show ?thesis using False by simp
    qed (use Cons in auto)
  qed simp
  then show "takeWhile (\<lambda>v. v < 0) vs = filter (\<lambda>v. v < 0) vs"
    and "drop (length (takeWhile (\<lambda>v. v < 0) vs)) vs = filter (\<lambda>v. 0 < v) vs"
    unfolding dropWhile_eq_drop [symmetric] by blast+
qed

lemma sum_signs: "\<forall>v \<in> set vs. v \<noteq> (0::int) \<Longrightarrow>
    sum_list (filter (\<lambda>v. v < 0) vs) + sum_list (filter (\<lambda>v. 0 < v) vs) = sum_list vs"
  by (induction vs) (auto simp: not_less)

lemma pair_le_fst: "(a, b) \<le> (c, d) \<Longrightarrow> a \<le> (c :: 'a :: linorder)" for b d :: "'b :: linorder"
  by auto

lemma sorted_keys:
  fixes terms :: "('k :: linorder \<times> int) list"
  assumes "sorted (map (\<lambda>(key, v). (key, 0 < v)) terms)"
  shows "sorted (map fst terms)"
  using assms unfolding sorted_map
  by (rule sorted_wrt_mono_rel [rotated]) (auto split: prod.splits dest: pair_le_fst)

lemma sorted_signs:
  fixes terms :: "('k :: linorder \<times> int) list"
  assumes "sorted (map (\<lambda>(key, v). (key, 0 < v)) terms)" "\<forall>t \<in> set terms. fst t = key"
  shows "sorted (map (\<lambda>v. 0 < v) (map snd terms))"
proof -
  have "sorted_wrt (\<lambda>s t. (0 < snd s) \<le> (0 < snd t)) terms"
    using assms(1) unfolding sorted_map
  proof (rule sorted_wrt_mono_rel [rotated])
    fix s t assume st: "s \<in> set terms" "t \<in> set terms"
      "(case s of (key, v) \<Rightarrow> (key, 0 < v)) \<le> (case t of (key, v) \<Rightarrow> (key, 0 < v))"
    then have "fst s = fst t" using assms(2) by simp
    then show "(0 < snd s) \<le> (0 < snd t)" using st(3) by (cases s; cases t) auto
  qed
  then show ?thesis by (simp add: sorted_map sorted_wrt_map)
qed

declare group_balances.simps [simp del]

text \<open>The group at the head of sorted terms: the terms of its key; the rest has the other keys.\<close>

lemma terms_head:
  assumes "terms_wf ((key, v) # terms)"
  defines "amounts \<equiv> map snd ((key, v) # takeWhile (\<lambda>(other, _). other = key) terms)"
    and "rest \<equiv> dropWhile (\<lambda>(other, _). other = key) terms"
  shows "sum_list amounts = term_sum ((key, v) # terms) key"
    and "sorted (map (\<lambda>v. 0 < v) amounts)" "\<forall>v \<in> set amounts. v \<noteq> 0 \<and> fits_i128 v"
    and "terms_wf rest" "key \<notin> fst ` set rest"
    and "\<And>other. other \<noteq> key \<Longrightarrow> term_sum rest other = term_sum ((key, v) # terms) other"
    and "fst ` set rest \<subseteq> fst ` set terms"
proof -
  let ?r = "\<lambda>(key, v). (key, 0 < v) :: BalanceKey \<times> bool"
  have s: "sorted (map ?r terms)" "\<forall>t \<in> set terms. (key, 0 < v) \<le> ?r t"
    using assms(1) by (auto simp: terms_wf_def)
  have keys: "sorted (map fst terms)" "\<forall>t \<in> set terms. key \<le> fst t"
  proof -
    show "sorted (map fst terms)" by (rule sorted_keys [OF s(1)])
    show "\<forall>t \<in> set terms. key \<le> fst t" using s(2) pair_le_fst by fastforce
  qed
  have lam: "(\<lambda>(other, _). other = key) = (\<lambda>t :: BalanceKey \<times> int. fst t = key)" by auto
  have tw: "takeWhile (\<lambda>(other, _). other = key) terms = filter (\<lambda>t. fst t = key) terms"
    and dw: "rest = filter (\<lambda>t. fst t \<noteq> key) terms"
    using takeWhile_sorted [OF keys] by (simp_all add: lam rest_def)
  show "sum_list amounts = term_sum ((key, v) # terms) key"
    by (simp add: amounts_def tw [unfolded lam] term_sum_def lam)
  show "\<forall>v \<in> set amounts. v \<noteq> 0 \<and> fits_i128 v"
    using assms(1) by (auto simp: amounts_def tw terms_wf_def)
  have "sorted (map ?r (filter (\<lambda>t. fst t = key) ((key, v) # terms)))"
    using assms(1) by (intro sorted_filter) (simp add: terms_wf_def)
  from sorted_signs [OF this] show "sorted (map (\<lambda>v. 0 < v) amounts)" by (simp add: amounts_def tw [unfolded lam] lam)
  show "terms_wf rest"
    using assms(1) sorted_filter [OF s(1)] by (auto simp: terms_wf_def dw)
  show "key \<notin> fst ` set rest" by (auto simp: dw)
  show "fst ` set rest \<subseteq> fst ` set terms" by (auto simp: dw)
  fix other assume "other \<noteq> key"
  then show "term_sum rest other = term_sum ((key, v) # terms) other"
    unfolding dw term_sum_def by (simp add: filter_filter case_prod_unfold conj_commute cong: conj_cong)
qed

definition groups_exact :: "(BalanceKey \<Rightarrow> int) \<Rightarrow> BalanceUpdate list \<Rightarrow> bool" where
  "groups_exact f terms \<longleftrightarrow>
     (\<exists>us. group_balances (balances_of f) terms = Inr us \<and>
        updates_to f us (\<lambda>key. f key + term_sum terms key) \<and> fst ` set us \<subseteq> fst ` set terms \<and>
        (\<forall>key. fits_i128 (f key + term_sum terms key))) \<or>
     (group_balances (balances_of f) terms = Inl ArithmeticOverflow \<and>
        (\<exists>key. \<not> fits_i128 (f key + term_sum terms key)))"

lemma group_balances_exact:
  assumes "terms_wf terms" "\<And>key. fits_i128 (f key)"
  shows "groups_exact f terms"
  using assms(1)
proof (induction "length terms" arbitrary: terms rule: less_induct)
  case less
  show ?case
  proof (cases terms)
    case Nil
    then show ?thesis using assms(2) by (simp add: groups_exact_def term_sum_simps group_balances.simps)
  next
  case (Cons t terms')
  obtain key v where t: "t = (key, v)" by (cases t)
  have terms: "terms = (key, v) # terms'" using Cons t by simp
  define amounts where "amounts = map snd ((key, v) # takeWhile (\<lambda>(other, _). other = key) terms')"
  define rest where "rest = dropWhile (\<lambda>(other, _). other = key) terms'"
  define ns where "ns = takeWhile (\<lambda>v. v < 0) amounts"
  note head = terms_head [OF less.prems[unfolded terms], folded amounts_def rest_def]
  let ?g = "\<lambda>k. f k + term_sum ((key, v) # terms') k" and ?g' = "\<lambda>k. f k + term_sum rest k"
  have IH: "groups_exact f rest"
    using less.hyps [of rest] head(4) length_dropWhile_le [of _ terms'] by (simp add: terms rest_def less_Suc_eq_le)
  have nz: "\<forall>v \<in> set amounts. v \<noteq> 0" using head(3) by blast
  note signs = split_signs [OF head(2) nz]
  have "interleave (f key) ns (drop (length ns) amounts) = ok_or (checked fits_i128 (?g key)) ArithmeticOverflow"
    unfolding ns_def unfolding signs(2) unfolding signs(1)
    using interleave_exact [of "f key" "filter (\<lambda>v. v < 0) amounts" "filter (\<lambda>v. 0 < v) amounts"] head(3) assms(2)
      sum_signs [OF nz] head(1)
    by (simp add: add.assoc)
  moreover have "group_balances (balances_of f) ((key, v) # terms') =
      and_then (interleave (f key) ns (drop (length ns) amounts)) (\<lambda>next_balance.
      and_then (group_balances (balances_of f) rest) (\<lambda>updates.
        Inr (if next_balance \<noteq> f key then (key, next_balance) # updates else updates)))"
    by (simp only: group_balances.simps Let_def ns_def amounts_def rest_def balance_in_balances_of)
  ultimately have unfolded: "group_balances (balances_of f) ((key, v) # terms') =
      and_then (ok_or (checked fits_i128 (?g key)) ArithmeticOverflow) (\<lambda>next_balance.
      and_then (group_balances (balances_of f) rest) (\<lambda>updates.
        Inr (if next_balance \<noteq> f key then (key, next_balance) # updates else updates)))" by simp
  have g: "?g = ?g'(key := ?g key)"
    using head(6) by (simp add: fun_eq_iff del: split_paired_All)
  have own: "?g' key = f key" using head(5) by (simp add: term_sum_absent)
  consider us where "group_balances (balances_of f) rest = Inr us" "updates_to f us ?g'"
      "fst ` set us \<subseteq> fst ` set rest" "\<And>k. fits_i128 (?g' k)"
    | k where "group_balances (balances_of f) rest = Inl ArithmeticOverflow" "\<not> fits_i128 (?g' k)"
    using IH unfolding groups_exact_def by blast
  then show ?thesis
  proof cases
    case (1 us)
    show ?thesis
    proof (cases "fits_i128 (?g key)")
      case True
      let ?us = "(if ?g key \<noteq> f key then [(key, ?g key)] else []) @ us"
      have calc: "group_balances (balances_of f) ((key, v) # terms') = Inr ?us"
        using True 1(1) by (simp add: unfolded)
      have "key \<notin> fst ` set us" using 1(3) head(5) by blast
      from updates_to_Cons [OF 1(2) this, of "?g key"] have up: "updates_to f ?us ?g" using g by simp
      have keys: "fst ` set ?us \<subseteq> fst ` set ((key, v) # terms')"
        using 1(3) head(7) by auto
      have "fits_i128 (?g k)" for k
        using True 1(4) [of k] head(6) [of k] by (cases "k = key") auto
      then show ?thesis
        unfolding groups_exact_def terms by (intro disjI1 exI [of _ ?us] conjI allI calc up keys)
    next
      case False
      then have "group_balances (balances_of f) ((key, v) # terms') = Inl ArithmeticOverflow"
        by (simp add: unfolded checked_def)
      then show ?thesis using False unfolding groups_exact_def terms by blast
    qed
  next
    case (2 k)
    have "k \<noteq> key" using 2(2) own assms(2) by metis
    then have "\<not> fits_i128 (?g k)" using 2(2) head(6) by simp
    moreover have "group_balances (balances_of f) ((key, v) # terms') = Inl ArithmeticOverflow"
      using 2(1) by (cases "fits_i128 (?g key)") (simp_all add: unfolded checked_def)
    ultimately show ?thesis unfolding groups_exact_def terms by blast
  qed
qed
qed

section \<open>Events as a whole\<close>

text \<open>The effect of a group of entries on one balance.\<close>

definition effect :: "JournalEntry list \<Rightarrow> BalanceKey \<Rightarrow> int" where
  "effect xs key = sum_list (map (\<lambda>entry. posting_sum (postings entry) key) xs)"

lemma effect_simps [simp]:
  "effect [] key = 0" "effect (x # xs) key = posting_sum (postings x) key + effect xs key"
  "effect (xs @ ys) key = effect xs key + effect ys key"
  by (simp_all add: effect_def)

lemma effect_concat: "effect xs key = posting_sum (concat (map postings xs)) key"
  by (induction xs) simp_all

lemma effect_finite: "finite {key. effect xs key \<noteq> 0}"
proof -
  have "{key. effect xs key \<noteq> 0} \<subseteq> posting_key ` set (concat (map postings xs))"
    unfolding effect_concat using posting_sum_absent by blast
  then show ?thesis by (rule finite_subset) simp
qed

lemma entry_wf_postings:
  assumes "entry_wf entry"
  shows "typed_postings (postings entry)" "\<forall>p \<in> set (postings entry). amount p \<noteq> 0"
    "distinct (map posting_key (postings entry))" "sorted (map posting_order (postings entry))"
    "asset_sum (postings entry) asset = 0"
  using assms by (auto simp: entry_wf_def postings_wf_def postings_balanced_def typed_postings_def split: if_splits)

lemma entry_wf_strict:
  assumes "entry_wf entry"
  shows "strict_postings (postings entry)"
proof -
  have "distinct (map posting_order ps)" if "distinct (map posting_key ps)" for ps
    using that by (induction ps) (auto simp: posting_order_key)
  then show ?thesis
    using entry_wf_postings [OF assms] by (simp add: strict_postings_def strict_sorted_iff)
qed

lemma batch_terms_wf:
  assumes "\<forall>entry \<in> set es. entry_wf entry"
  shows "terms_wf (batch_terms es)" "term_sum (batch_terms es) key = effect es key"
proof -
  let ?terms = "map (\<lambda>posting. ((account_id posting, asset_id posting), amount posting)) (concat (map postings es))"
  have "\<forall>(key, v) \<in> set ?terms. v \<noteq> 0 \<and> fits_i128 v"
    using assms entry_wf_postings(1,2) by (fastforce simp: typed_postings_def)
  then show "terms_wf (batch_terms es)" by (simp add: terms_wf_def batch_terms_def)
  have "term_sum (batch_terms es) key = term_sum ?terms key"
    unfolding batch_terms_def term_sum_def by (simp flip: sum_mset_sum_list)
  also have "term_sum (map (\<lambda>posting. ((account_id posting, asset_id posting), amount posting)) ps) key = posting_sum ps key" for ps
    by (induction ps) (auto simp: term_sum_simps posting_key_def)
  finally show "term_sum (batch_terms es) key = effect es key" by (simp add: effect_concat)
qed

lemma sum_checked_exact:
  "sum_checked ks n = Inr m \<Longrightarrow> m = n + sum_list ks"
  "fits_usize (n + sum_list ks) \<Longrightarrow> sum_checked ks n = Inr (n + sum_list ks)"
proof -
  show "sum_checked ks n = Inr m \<Longrightarrow> m = n + sum_list ks"
    by (induction ks arbitrary: n) (fastforce simp: result_simps)+
  show "fits_usize (n + sum_list ks) \<Longrightarrow> sum_checked ks n = Inr (n + sum_list ks)"
    by (induction ks arbitrary: n) (auto simp: result_simps add.assoc intro: fits_u64_mono)
qed

lemma calculate_batch_updates:
  assumes "\<forall>entry \<in> set es. entry_wf entry" "\<And>key. fits_i128 (f key)"
    and "calculate_batch_balances reserve (balances_of f) es = Inr us"
  shows "updates_to f us (\<lambda>key. f key + effect es key)" "\<And>key. fits_i128 (f key + effect es key)"
proof -
  have "group_balances (balances_of f) (batch_terms es) = Inr us"
    using assms(3) by (auto simp: calculate_batch_balances_def result_simps)
  then have "updates_to f us (\<lambda>key. f key + effect es key) \<and> (\<forall>key. fits_i128 (f key + effect es key))"
    using group_balances_exact [where f = f, OF batch_terms_wf(1) [OF assms(1)] assms(2)]
    by (simp add: groups_exact_def batch_terms_wf(2) [OF assms(1)] del: split_paired_All split_paired_Ex)
  then show "updates_to f us (\<lambda>key. f key + effect es key)" "\<And>key. fits_i128 (f key + effect es key)" by blast+
qed

lemma calculate_correction_updates:
  assumes "entry_wf a" "entry_wf b" "\<And>key. fits_i128 (f key)"
    and "calculate_correction_balances (balances_of f) (postings a) (postings b) = Inr us"
  shows "updates_to f us (\<lambda>key. f key + effect [a, b] key)" "\<And>key. fits_i128 (f key + effect [a, b] key)"
proof -
  have "correction_image f (postings a) (postings b) = (\<lambda>key. f key + effect [a, b] key)"
    by (rule ext) (simp add: correction_image_def)
  then show "updates_to f us (\<lambda>key. f key + effect [a, b] key)" "\<And>key. fits_i128 (f key + effect [a, b] key)"
    using calculate_correction_exact [where f = f, OF entry_wf_strict [OF assms(1)] entry_wf_strict [OF assms(2)] assms(3)] assms(4)
    by (auto simp: correction_exact_def simp del: split_paired_All split_paired_Ex)
qed

text \<open>
  C33. The balance image of a batch is exact: it exists exactly if every final balance is an \<open>i128\<close>, in
  whatever order the entries of the batch raise and lower the balances, and applying it adds the
  effect of all entries and drops the balances that become zero.
\<close>

theorem calculate_batch_balances_exact:
  assumes "\<forall>entry \<in> set es. entry_wf entry" "\<And>key. fits_i128 (f key)"
    and "reserve BalanceTerms (length (batch_terms es))" "reserve BalanceUpdates (length (batch_terms es))"
    and "fits_usize (length (batch_terms es))"
  shows "if \<forall>key. fits_i128 (f key + effect es key)
    then \<exists>us. calculate_batch_balances reserve (balances_of f) es = Inr us \<and>
      apply_balance_updates (balances_of f) us = balances_of (\<lambda>key. f key + effect es key)
    else calculate_batch_balances reserve (balances_of f) es = Inl ArithmeticOverflow"
proof -
  have n: "sum_list (map (\<lambda>entry. length (postings entry)) es) = length (batch_terms es)"
    by (simp add: batch_terms_def length_concat comp_def)
  have calc: "calculate_batch_balances reserve (balances_of f) es = group_balances (balances_of f) (batch_terms es)"
    using assms(3-5) sum_checked_exact(2) [of 0 "map (\<lambda>entry. length (postings entry)) es"]
    by (simp add: calculate_batch_balances_def n)
  have "groups_exact f (batch_terms es)"
    by (rule group_balances_exact [where f = f, OF batch_terms_wf(1) [OF assms(1)] assms(2)])
  note exact = this [unfolded groups_exact_def batch_terms_wf(2) [OF assms(1)]]
  show ?thesis
  proof (cases "\<forall>key. fits_i128 (f key + effect es key)")
    case True
    then obtain us where us: "group_balances (balances_of f) (batch_terms es) = Inr us"
      "updates_to f us (\<lambda>key. f key + effect es key)" using exact by blast
    show ?thesis
      unfolding calc if_P [OF True] by (rule exI [of _ us]) (use us apply_updates [OF us(2)] in simp)
  next
    case False
    then have "group_balances (balances_of f) (batch_terms es) = Inl ArithmeticOverflow" using exact by blast
    then show ?thesis unfolding calc if_not_P [OF False] .
  qed
qed

definition swap_entry :: "TransactionId \<Rightarrow> int \<Rightarrow> JournalEntry" where
  "swap_entry tid v = \<lparr>transaction_id = tid, entry_reference = 0, effective_date = Some 1, recorded_at = 1,
     postings = [\<lparr>account_id = 1, asset_id = 1, amount = v\<rparr>, \<lparr>account_id = 2, asset_id = 1, amount = - v\<rparr>],
     entry_kind = Standard\<rparr>"

lemma swap_entry_wf: "v \<noteq> 0 \<Longrightarrow> fits_i128 v \<Longrightarrow> fits_i128 (- v) \<Longrightarrow> entry_wf (swap_entry tid v)"
  by (auto simp: entry_wf_def swap_entry_def postings_wf_def typed_postings_def postings_balanced_def posting_key_def
      posting_order_def)

theorem calculate_batch_balances_exact_witness:
  "\<exists>us. calculate_batch_balances (\<lambda>_ _. True) (balances_of (\<lambda>key. if key = (1, 1) then 2 ^ 127 - 1 else
        if key = (2, 1) then - (2 ^ 127) + 1 else 0))
     [swap_entry 1 5, swap_entry 2 (- 7)] = Inr us"
proof -
  let ?es = "[swap_entry 1 5, swap_entry 2 (- 7)]"
  let ?f = "\<lambda>key. if key = (1, 1) then 2 ^ 127 - 1 else if key = (2, 1) then - (2 ^ 127) + 1 else (0 :: int)"
  have es: "\<forall>entry \<in> set ?es. entry_wf entry" by (simp add: swap_entry_wf fits_i128_def)
  have f: "fits_i128 (?f key)" for key by (simp add: fits_i128_def)
  have fits: "fits_usize (length (batch_terms ?es))" by (simp add: batch_terms_def swap_entry_def width_defs)
  have "fits_i128 (?f key + effect ?es key)" for key
    by (simp add: swap_entry_def posting_key_def fits_i128_def)
  then show ?thesis
    using calculate_batch_balances_exact [of ?es ?f "\<lambda>_ _. True", OF es f TrueI TrueI fits]
    by (auto split: if_splits simp del: split_paired_All)
qed

text \<open>
  C19. The same for a correction: the merge of reversal and replacement yields the exact final balances,
  although the balance after the reversal alone need not be representable.
\<close>

theorem calculate_correction_balances_exact:
  assumes "entry_wf a" "entry_wf b" "\<And>key. fits_i128 (f key)"
  shows "if \<forall>key. fits_i128 (f key + effect [a, b] key)
    then \<exists>us. calculate_correction_balances (balances_of f) (postings a) (postings b) = Inr us \<and>
      apply_balance_updates (balances_of f) us = balances_of (\<lambda>key. f key + effect [a, b] key)
    else calculate_correction_balances (balances_of f) (postings a) (postings b) = Inl ArithmeticOverflow"
proof -
  have image: "correction_image f (postings a) (postings b) = (\<lambda>key. f key + effect [a, b] key)"
    by (rule ext) (simp add: correction_image_def)
  note exact = calculate_correction_exact [where f = f, OF entry_wf_strict [OF assms(1)] entry_wf_strict [OF assms(2)]
      assms(3), unfolded correction_exact_def image]
  show ?thesis
  proof (cases "\<forall>key. fits_i128 (f key + effect [a, b] key)")
    case True
    then obtain us where us: "calculate_correction_balances (balances_of f) (postings a) (postings b) = Inr us"
      "updates_to f us (\<lambda>key. f key + effect [a, b] key)" using exact by blast
    show ?thesis
      unfolding if_P [OF True] by (rule exI [of _ us]) (use us apply_updates [OF us(2)] in simp)
  next
    case False
    then have "calculate_correction_balances (balances_of f) (postings a) (postings b) = Inl ArithmeticOverflow"
      using exact by blast
    then show ?thesis unfolding if_not_P [OF False] .
  qed
qed

theorem calculate_correction_balances_exact_witness:
  "\<exists>us. calculate_correction_balances (balances_of (\<lambda>key. if key = (1, 1) then 2 ^ 127 - 1 else
        if key = (2, 1) then - (2 ^ 127) + 1 else 0)) (postings (swap_entry 1 5)) (postings (swap_entry 2 (- 7))) = Inr us"
proof -
  let ?f = "\<lambda>key. if key = (1, 1) then 2 ^ 127 - 1 else if key = (2, 1) then - (2 ^ 127) + 1 else (0 :: int)"
  have wf: "entry_wf (swap_entry 1 5)" "entry_wf (swap_entry 2 (- 7))" by (simp_all add: swap_entry_wf fits_i128_def)
  have f: "fits_i128 (?f key)" for key by (simp add: fits_i128_def)
  have "fits_i128 (?f key + effect [swap_entry 1 5, swap_entry 2 (- 7)] key)" for key
    by (simp add: swap_entry_def posting_key_def fits_i128_def)
  then show ?thesis
    using calculate_correction_balances_exact [of _ _ ?f, OF wf f] by (auto split: if_splits simp del: split_paired_All)
qed

end
