(* ===== verification/LedgerHistory.thy ===== *)
theory LedgerHistory
  imports LedgerBalances
begin

text \<open>
  The ledger against its history. The abstract ledger is the list of its records, the audit journal
  \<open>LedgerRecord\<close> of \<open>src/src/ledger.rs\<close>; \<open>ledger_of\<close> is the state a history determines, and \<open>legal\<close> the
  lifecycle rules stated entry by entry on the flat history. The theorems show that posting an entry, a
  correction or a batch refines appending one record: the indexes, the balances, the period boundary
  and the receipts are always those of the history, and what is accepted is legal.
\<close>

section \<open>Histories\<close>

datatype LedgerRecord =
    RecordEntry JournalEntry
  | RecordCorrection LedgerCorrection
  | RecordBatch LedgerBatch

fun record_members :: "LedgerRecord \<Rightarrow> JournalEntry list" where
  "record_members (RecordEntry entry) = [entry]"
| "record_members (RecordCorrection c) = [correction_reversal c, correction_replacement c]"
| "record_members (RecordBatch batch) = batch_entries batch"

fun record_key :: "LedgerRecord \<Rightarrow> LedgerRecordKey" where
  "record_key (RecordEntry entry) = EntryKey (transaction_id entry)"
| "record_key (RecordCorrection c) =
     CorrectionKey (transaction_id (correction_reversal c)) (transaction_id (correction_replacement c))"
| "record_key (RecordBatch batch) = BatchKey batch"

definition flat :: "LedgerRecord list \<Rightarrow> JournalEntry list" where
  "flat h = concat (map record_members h)"

definition find_entry :: "JournalEntry list \<Rightarrow> TransactionId \<Rightarrow> JournalEntry option" where
  "find_entry xs tid = find (\<lambda>entry. transaction_id entry = tid) xs"

definition find_reversal :: "JournalEntry list \<Rightarrow> TransactionId \<Rightarrow> TransactionId option" where
  "find_reversal xs tid = map_option transaction_id (find (\<lambda>entry. entry_kind entry = Reversal tid) xs)"

fun record_index :: "LedgerRecord list \<Rightarrow> TransactionId \<Rightarrow> nat" where
  "record_index [] tid = 0"
| "record_index (r # h) tid = (if tid \<in> transaction_id ` set (record_members r) then 1 else 1 + record_index h tid)"

fun period_step :: "JournalEntry \<Rightarrow> AccountingDate option \<Rightarrow> AccountingDate option" where
  "period_step entry current =
     (case entry_kind entry of PeriodClose through \<Rightarrow> Some through | PeriodReopen through \<Rightarrow> through | _ \<Rightarrow> current)"

definition period_after :: "JournalEntry list \<Rightarrow> AccountingDate option" where
  "period_after xs = fold period_step xs None"

definition recorded_after :: "JournalEntry list \<Rightarrow> TimestampNs option" where
  "recorded_after xs = (if xs = [] then None else Some (recorded_at (last xs)))"

definition ledger_of :: "LedgerLimitsSpec \<Rightarrow> LedgerRecord list \<Rightarrow> Ledger" where
  "ledger_of limits h =
     \<lparr>ledger_limits = limits,
      ledger_balances = balances_of (effect (flat h)),
      ledger_entries = (\<lambda>tid. map_option (\<lambda>entry. \<lparr>posted_entry = entry, posted_sequence = record_index h tid\<rparr>)
        (find_entry (flat h) tid)),
      ledger_reversals = find_reversal (flat h),
      ledger_journal = map record_key h,
      ledger_retained_postings = sum_list (map (\<lambda>entry. length (postings entry)) (flat h)),
      ledger_closed_through = period_after (flat h),
      ledger_last_recorded_at = recorded_after (flat h)\<rparr>"

text \<open>When an entry may follow a history.\<close>

definition date_open :: "AccountingDate option \<Rightarrow> JournalEntry \<Rightarrow> bool" where
  "date_open closed entry \<longleftrightarrow>
     (case closed of None \<Rightarrow> True | Some through \<Rightarrow> \<exists>date. effective_date entry = Some date \<and> through < date)"

definition may_follow :: "JournalEntry list \<Rightarrow> JournalEntry \<Rightarrow> bool" where
  "may_follow xs entry \<longleftrightarrow>
     entry_wf entry \<and> transaction_id entry \<notin> transaction_id ` set xs \<and>
     (case recorded_after xs of None \<Rightarrow> True | Some previous \<Rightarrow> previous \<le> recorded_at entry) \<and>
     (case entry_kind entry of
        Standard \<Rightarrow> date_open (period_after xs) entry
      | Reversal reversed \<Rightarrow> date_open (period_after xs) entry \<and> find_reversal xs reversed = None \<and>
          (\<exists>original \<in> set xs. transaction_id original = reversed \<and> \<not> is_control (entry_kind original) \<and>
             postings entry = map negate_posting (postings original))
      | PeriodClose through \<Rightarrow> (case period_after xs of None \<Rightarrow> True | Some current \<Rightarrow> current < through)
      | PeriodReopen through \<Rightarrow> (\<exists>current. period_after xs = Some current \<and>
          (case through of None \<Rightarrow> True | Some proposed \<Rightarrow> proposed < current)))"

fun legal_from :: "JournalEntry list \<Rightarrow> JournalEntry list \<Rightarrow> bool" where
  "legal_from xs [] \<longleftrightarrow> True"
| "legal_from xs (entry # rest) \<longleftrightarrow> may_follow xs entry \<and> legal_from (xs @ [entry]) rest"

definition legal :: "JournalEntry list \<Rightarrow> bool" where
  "legal xs \<longleftrightarrow> legal_from [] xs"

fun record_wf :: "LedgerRecord \<Rightarrow> bool" where
  "record_wf (RecordEntry entry) \<longleftrightarrow> entry_wf entry"
| "record_wf (RecordCorrection c) \<longleftrightarrow> correction_wf c"
| "record_wf (RecordBatch batch) \<longleftrightarrow> batch_wf batch"

definition within_limits :: "LedgerLimitsSpec \<Rightarrow> LedgerRecord list \<Rightarrow> bool" where
  "within_limits limits h \<longleftrightarrow>
     card {key. effect (flat h) key \<noteq> 0} \<le> max_balance_keys limits \<and>
     length (flat h) \<le> max_transactions limits \<and>
     card (dom (find_reversal (flat h))) \<le> max_reversals limits \<and>
     length h \<le> max_records limits \<and>
     sum_list (map (\<lambda>entry. length (postings entry)) (flat h)) \<le> max_retained_postings limits \<and>
     (\<forall>entry \<in> set (flat h). length (postings entry) \<le> max_postings_per_transaction limits) \<and>
     (\<forall>r \<in> set h. length (record_members r) \<le> max_transactions_per_record limits)"

definition valid_history :: "LedgerLimitsSpec \<Rightarrow> LedgerRecord list \<Rightarrow> bool" where
  "valid_history limits h \<longleftrightarrow>
     legal (flat h) \<and> (\<forall>r \<in> set h. record_wf r) \<and> within_limits limits h \<and>
     (\<forall>key. fits_i128 (effect (flat h) key))"

section \<open>Reading a history\<close>

lemma flat_simps [simp]: "flat [] = []" "flat (h @ [r]) = flat h @ record_members r"
  by (simp_all add: flat_def)

lemma find_append: "find P (xs @ ys) = (case find P xs of None \<Rightarrow> find P ys | Some x \<Rightarrow> Some x)"
  by (induction xs) auto

lemma find_entry_append:
  "find_entry (xs @ ys) tid = (case find_entry xs tid of None \<Rightarrow> find_entry ys tid | Some x \<Rightarrow> Some x)"
  by (simp add: find_entry_def find_append split: option.split)

lemma find_reversal_append:
  "find_reversal (xs @ ys) tid = (case find_reversal xs tid of None \<Rightarrow> find_reversal ys tid | Some x \<Rightarrow> Some x)"
  by (simp add: find_reversal_def find_append split: option.split)

lemma find_entry_None: "find_entry xs tid = None \<longleftrightarrow> tid \<notin> transaction_id ` set xs"
  by (auto simp: find_entry_def find_None_iff)

lemma find_entry_Some: "find_entry xs tid = Some entry \<Longrightarrow> entry \<in> set xs \<and> transaction_id entry = tid"
  by (auto simp: find_entry_def find_Some_iff)

lemma find_entry_member:
  "distinct (map transaction_id xs) \<Longrightarrow> entry \<in> set xs \<Longrightarrow> find_entry xs (transaction_id entry) = Some entry"
proof (induction xs)
  case (Cons x xs)
  then show ?case by (cases "x = entry") (auto simp: find_entry_def dest: image_eqI)
qed simp

lemma find_reversal_None: "find_reversal xs tid = None \<longleftrightarrow> (\<forall>entry \<in> set xs. entry_kind entry \<noteq> Reversal tid)"
  by (auto simp: find_reversal_def find_None_iff)

lemma dom_find_entry: "dom (find_entry xs) = transaction_id ` set xs"
  by (rule set_eqI) (metis domIff find_entry_None)

lemma find_reversal_Cons:
  "find_reversal (x # xs) tid = (if entry_kind x = Reversal tid then Some (transaction_id x) else find_reversal xs tid)"
  "find_reversal [] tid = None"
  by (simp_all add: find_reversal_def)

lemma dom_find_reversal_finite: "finite (dom (find_reversal xs))"
proof (induction xs)
  case (Cons x xs)
  have "dom (find_reversal (x # xs)) \<subseteq> insert (the (reversed_transaction (entry_kind x))) (dom (find_reversal xs))"
    by (auto simp: find_reversal_Cons split: if_splits)
  then show ?case using Cons finite_subset by blast
qed (simp add: find_reversal_Cons dom_def)

lemma period_after_append: "period_after (xs @ ys) = fold period_step ys (period_after xs)"
  by (simp add: period_after_def)

lemma recorded_after_snoc [simp]: "recorded_after (xs @ [x]) = Some (recorded_at x)"
  by (simp add: recorded_after_def)

lemma legal_from_append: "legal_from xs (ys @ zs) \<longleftrightarrow> legal_from xs ys \<and> legal_from (xs @ ys) zs"
  by (induction xs ys rule: legal_from.induct) auto

lemma legal_append: "legal (xs @ ys) \<longleftrightarrow> legal xs \<and> legal_from xs ys"
  by (simp add: legal_def legal_from_append)

lemma legal_from_distinct:
  "legal_from xs ys \<Longrightarrow> distinct (map transaction_id xs) \<Longrightarrow> distinct (map transaction_id (xs @ ys))"
  by (induction xs ys rule: legal_from.induct) (auto simp: may_follow_def)

lemma legal_distinct: "legal xs \<Longrightarrow> distinct (map transaction_id xs)"
  using legal_from_distinct [of "[]" xs] by (simp add: legal_def)

lemma legal_from_wf: "legal_from xs ys \<Longrightarrow> entry \<in> set ys \<Longrightarrow> entry_wf entry"
  by (induction xs ys rule: legal_from.induct) (auto simp: may_follow_def)

lemma record_index_append:
  "record_index (h @ [r]) tid =
     (if tid \<in> transaction_id ` set (flat h) then record_index h tid else length h + 1)"
  by (induction h) (auto simp: flat_def)

lemma record_index_bounds:
  assumes "tid \<in> transaction_id ` set (flat h)"
  shows "0 < record_index h tid" "record_index h tid \<le> length h"
    "tid \<in> transaction_id ` set (record_members (h ! (record_index h tid - 1)))"
proof -
  have "0 < record_index h tid \<and> record_index h tid \<le> length h \<and>
      tid \<in> transaction_id ` set (record_members (h ! (record_index h tid - 1)))"
    using assms
  proof (induction h)
    case (Cons r h)
    show ?case
    proof (cases "tid \<in> transaction_id ` set (record_members r)")
      case False
      then have "tid \<in> transaction_id ` set (flat h)" using Cons.prems by (auto simp: flat_def)
      then show ?thesis using Cons.IH False by (auto simp: nth_Cons')
    qed simp
  qed (simp add: flat_def)
  then show "0 < record_index h tid" "record_index h tid \<le> length h"
    "tid \<in> transaction_id ` set (record_members (h ! (record_index h tid - 1)))" by blast+
qed

section \<open>The lifecycle checks are the lifecycle rules\<close>

lemma validate_financial_iff:
  assumes "entry_wf entry" "\<not> is_control (entry_kind entry)"
  shows "validate_financial_entry entry closed = Inr () \<longleftrightarrow> date_open closed entry"
proof -
  have "validate_postings (postings entry) = Inr ()"
    using validate_postings_iff [of "postings entry"] assms by (simp add: entry_wf_def postings_wf_def)
  then show ?thesis
    using assms by (auto simp: validate_financial_entry_def date_open_def entry_wf_def result_simps split: option.splits)
qed

lemma validate_control_iff:
  "entry_wf entry \<Longrightarrow> is_control (entry_kind entry) \<Longrightarrow> validate_control_entry entry = Inr ()"
  by (simp add: validate_control_entry_def entry_wf_def result_simps)

lemma exact_inverse_iff:
  assumes "typed_postings cs"
  shows "postings_are_exact_inverse cs ps \<longleftrightarrow> cs = map negate_posting ps"
proof
  assume "cs = map negate_posting ps"
  then show "postings_are_exact_inverse cs ps"
    using assms by (auto simp: postings_are_exact_inverse_def list_all_length typed_postings_def)
next
  assume inv: "postings_are_exact_inverse cs ps"
  show "cs = map negate_posting ps"
  proof (rule nth_equalityI)
    show "length cs = length (map negate_posting ps)" using inv by (simp add: postings_are_exact_inverse_def)
    fix i assume "i < length cs"
    then have "account_id (cs ! i) = account_id (ps ! i) \<and> asset_id (cs ! i) = asset_id (ps ! i) \<and>
        amount (cs ! i) = - amount (ps ! i)" "i < length ps"
      using inv by (auto simp: postings_are_exact_inverse_def list_all_length)
    then show "cs ! i = map negate_posting ps ! i" by (simp add: negate_posting_def)
  qed
qed

lemma validate_reversal_iff:
  assumes "distinct (map transaction_id xs)" "entry_wf entry" "\<not> is_control (entry_kind entry)"
  shows "validate_reversal (find_entry xs reversed) (find_reversal xs reversed) reversed entry = Inr () \<longleftrightarrow>
    find_reversal xs reversed = None \<and>
    (\<exists>original \<in> set xs. transaction_id original = reversed \<and> \<not> is_control (entry_kind original) \<and>
       postings entry = map negate_posting (postings original))"
proof -
  have typed: "typed_postings (postings entry)" using assms(2,3) by (simp add: entry_wf_def postings_wf_def)
  have "find_entry xs reversed = Some original \<longleftrightarrow> original \<in> set xs \<and> transaction_id original = reversed" for original
    using find_entry_Some [of xs reversed original] find_entry_member [OF assms(1)] by auto
  then show ?thesis
    by (auto simp: validate_reversal_def result_simps exact_inverse_iff [OF typed] split: option.splits)
qed

lemma validate_recorded_iff:
  "validate_recorded_at latest entry = Inr () \<longleftrightarrow>
     (case latest of None \<Rightarrow> True | Some previous \<Rightarrow> previous \<le> recorded_at entry)"
  by (auto simp: validate_recorded_at_def result_simps split: option.splits)

text \<open>One entry against a history that does not hold its transaction.\<close>

definition update_period :: "PeriodUpdate \<Rightarrow> AccountingDate option \<Rightarrow> AccountingDate option" where
  "update_period update closed =
     (case update of Unchanged \<Rightarrow> closed | SetPeriod through \<Rightarrow> Some through | ClearPeriod \<Rightarrow> None)"

lemma ledger_of_simps [simp]:
  "ledger_limits (ledger_of limits h) = limits"
  "ledger_balances (ledger_of limits h) = balances_of (effect (flat h))"
  "ledger_reversals (ledger_of limits h) = find_reversal (flat h)"
  "ledger_journal (ledger_of limits h) = map record_key h"
  "ledger_retained_postings (ledger_of limits h) = sum_list (map (\<lambda>entry. length (postings entry)) (flat h))"
  "ledger_closed_through (ledger_of limits h) = period_after (flat h)"
  "ledger_last_recorded_at (ledger_of limits h) = recorded_after (flat h)"
  "map_option posted_entry (ledger_entries (ledger_of limits h) tid) = find_entry (flat h) tid"
  "ledger_entries (ledger_of limits h) tid = None \<longleftrightarrow> find_entry (flat h) tid = None"
  by (simp_all add: ledger_of_def option.map_comp comp_def option.map_ident)

lemma entry_lifecycle_iff:
  assumes "legal (flat h)" "entry_wf entry" "find_entry (flat h) (transaction_id entry) = None"
  shows "(\<exists>update. validate_entry_lifecycle (ledger_of limits h) entry = Inr update) \<longleftrightarrow> may_follow (flat h) entry"
    and "validate_entry_lifecycle (ledger_of limits h) entry = Inr update \<Longrightarrow>
      update_period update (period_after (flat h)) = period_step entry (period_after (flat h))"
proof -
  let ?xs = "flat h"
  note d = legal_distinct [OF assms(1)]
  have fresh: "transaction_id entry \<notin> transaction_id ` set ?xs" using assms(3) by (simp add: find_entry_None)
  note fin = validate_financial_iff [OF assms(2)] and con = validate_control_iff [OF assms(2)]
    and rev = validate_reversal_iff [OF d assms(2)]
  show "(\<exists>update. validate_entry_lifecycle (ledger_of limits h) entry = Inr update) \<longleftrightarrow> may_follow ?xs entry"
  proof (cases "entry_kind entry")
    case (PeriodReopen through)
    then show ?thesis
      using assms(2) fresh con
      by (cases "period_after ?xs"; cases through)
        (auto simp: validate_entry_lifecycle_def may_follow_def result_simps validate_recorded_iff not_le split: option.splits)
  qed (use assms(2) fresh fin con rev in
      \<open>auto simp: validate_entry_lifecycle_def may_follow_def result_simps validate_recorded_iff split: option.splits if_splits\<close>)
  show "validate_entry_lifecycle (ledger_of limits h) entry = Inr update \<Longrightarrow>
      update_period update (period_after ?xs) = period_step entry (period_after ?xs)"
    by (cases "entry_kind entry")
      (auto simp: validate_entry_lifecycle_def result_simps update_period_def split: option.splits if_splits)
qed

text \<open>A batch: the overlay is the history extended by the members seen so far.\<close>

fun reversal_pairs :: "JournalEntry list \<Rightarrow> (TransactionId \<times> TransactionId) list" where
  "reversal_pairs [] = []"
| "reversal_pairs (entry # rest) =
     (case reversed_transaction (entry_kind entry) of
        None \<Rightarrow> reversal_pairs rest
      | Some reversed \<Rightarrow> (reversed, transaction_id entry) # reversal_pairs rest)"

lemma reversal_pairs_append [simp]: "reversal_pairs (xs @ ys) = reversal_pairs xs @ reversal_pairs ys"
  by (induction xs) (auto split: option.splits)

definition overlay_of :: "JournalEntry list \<Rightarrow> JournalEntry list \<Rightarrow> BatchOverlay" where
  "overlay_of xs seen =
     \<lparr>overlay_recorded_at = recorded_after (xs @ seen),
      overlay_closed_through = period_after (xs @ seen),
      pending_entries = find_entry seen, pending_reversals = find_reversal seen,
      overlay_new_reversals = reversal_pairs seen\<rparr>"

lemma find_append_overlay:
  assumes "distinct (map transaction_id (xs @ ys))"
  shows "(case find_entry ys tid of None \<Rightarrow> find_entry xs tid | Some e \<Rightarrow> Some e) = find_entry (xs @ ys) tid"
proof (cases "find_entry ys tid")
  case (Some e)
  then have "tid \<in> transaction_id ` set ys" using find_entry_Some by blast
  then have "find_entry xs tid = None" using assms by (auto simp: find_entry_None)
  then show ?thesis using Some by (simp add: find_entry_append)
qed (simp add: find_entry_append split: option.splits)

lemma validate_reversal_overlay:
  assumes "distinct (map transaction_id xs)" "entry_wf entry" "\<not> is_control (entry_kind entry)"
  shows "validate_reversal (find_entry xs reversed) by_tid reversed entry = Inr () \<longleftrightarrow>
    by_tid = None \<and>
    (\<exists>original \<in> set xs. transaction_id original = reversed \<and> \<not> is_control (entry_kind original) \<and>
       postings entry = map negate_posting (postings original))"
proof -
  have typed: "typed_postings (postings entry)" using assms(2,3) by (simp add: entry_wf_def postings_wf_def)
  have "find_entry xs reversed = Some original \<longleftrightarrow> original \<in> set xs \<and> transaction_id original = reversed" for original
    using find_entry_Some [of xs reversed original] find_entry_member [OF assms(1)] by auto
  then show ?thesis
    by (auto simp: validate_reversal_def result_simps exact_inverse_iff [OF typed] split: option.splits)
qed

lemma find_reversal_snoc:
  "find_reversal (xs @ [x]) = (case reversed_transaction (entry_kind x) of None \<Rightarrow> find_reversal xs
     | Some reversed \<Rightarrow> if find_reversal xs reversed = None then (find_reversal xs)(reversed \<mapsto> transaction_id x)
                        else find_reversal xs)"
  by (rule ext) (cases "entry_kind x"; auto simp: find_reversal_append find_reversal_Cons split: option.splits)

lemma find_entry_snoc:
  "find_entry (xs @ [x]) = (if find_entry xs (transaction_id x) = None
     then (find_entry xs)(transaction_id x \<mapsto> x) else find_entry xs)"
  by (rule ext) (auto simp: find_entry_append, auto simp: find_entry_def split: option.splits)

lemma period_after_snoc [simp]: "period_after (xs @ [x]) = period_step x (period_after xs)"
  by (simp add: period_after_def)

definition batch_check :: "Ledger \<Rightarrow> JournalEntry \<Rightarrow> BatchOverlay \<Rightarrow> LedgerError + BatchOverlay" where
  "batch_check ledger entry overlay =
     and_then (validate_recorded_at (overlay_recorded_at overlay) entry) (\<lambda>_.
     and_then (validate_batch_lifecycle_entry ledger entry overlay) (\<lambda>overlay.
     if pending_entries overlay (transaction_id entry) \<noteq> None
     then Inl (BatchDuplicateTransaction (transaction_id entry))
     else Inr (overlay\<lparr>pending_entries := (pending_entries overlay)(transaction_id entry \<mapsto> entry),
                     overlay_recorded_at := Some (recorded_at entry)\<rparr>)))"

lemma validate_batch_entries_step:
  "validate_batch_entries ledger (entry # rest) overlay =
     and_then (batch_check ledger entry overlay) (validate_batch_entries ledger rest)"
  by (cases "validate_recorded_at (overlay_recorded_at overlay) entry";
      cases "validate_batch_lifecycle_entry ledger entry overlay")
    (simp_all add: batch_check_def)

lemma batch_check_iff:
  assumes "legal (flat h @ seen)" "entry_wf entry" "transaction_id entry \<notin> transaction_id ` set (flat h)"
  shows "batch_check (ledger_of limits h) entry (overlay_of (flat h) seen) = Inr ov \<longleftrightarrow>
    may_follow (flat h @ seen) entry \<and> ov = overlay_of (flat h) (seen @ [entry])"
proof -
  let ?xs = "flat h @ seen"
  note d = legal_distinct [OF assms(1)]
  have fin: "validate_financial_entry entry c = Inr () \<longleftrightarrow> date_open c entry" if "\<not> is_control (entry_kind entry)" for c
    using validate_financial_iff [OF assms(2) that] .
  have con: "validate_control_entry entry = Inr ()" if "is_control (entry_kind entry)"
    using validate_control_iff [OF assms(2) that] .
  have rev: "validate_reversal (find_entry ?xs reversed) r reversed entry = Inr () \<longleftrightarrow>
    r = None \<and> (\<exists>original \<in> set ?xs. transaction_id original = reversed \<and> \<not> is_control (entry_kind original) \<and>
       postings entry = map negate_posting (postings original))" if "\<not> is_control (entry_kind entry)" for reversed r
    using validate_reversal_overlay [OF d assms(2) that] .
  note target = find_append_overlay [OF d]
  have revs: "(case find_reversal seen reversed of None \<Rightarrow> find_reversal (flat h) reversed | Some b \<Rightarrow> Some b) = None \<longleftrightarrow>
    find_reversal ?xs reversed = None" for reversed
    by (auto simp: find_reversal_append split: option.splits)
  have dup: "find_entry seen (transaction_id entry) = None \<longleftrightarrow> transaction_id entry \<notin> transaction_id ` set ?xs"
    using assms(3) by (auto simp: find_entry_None)
  have notin: "find_reversal ?xs r = None \<Longrightarrow> find_reversal seen r = None" for r
    by (auto simp: find_reversal_append split: option.splits)
  have ov: "overlay_of (flat h) (seen @ [entry]) =
     (overlay_of (flat h) seen)\<lparr>overlay_recorded_at := Some (recorded_at entry),
        overlay_closed_through := period_step entry (period_after ?xs),
        pending_entries := (if find_entry seen (transaction_id entry) = None
     then (find_entry seen)(transaction_id entry \<mapsto> entry) else find_entry seen),
        pending_reversals := find_reversal (seen @ [entry]),
        overlay_new_reversals := reversal_pairs (seen @ [entry])\<rparr>"
    unfolding overlay_of_def find_entry_snoc [symmetric] append_assoc [symmetric] period_after_snoc recorded_after_snoc by simp
  show ?thesis
  proof (cases "entry_kind entry")
    case Standard
    then show ?thesis
      unfolding batch_check_def ov find_reversal_snoc
      using assms(2) fin dup by (auto simp: overlay_of_def may_follow_def validate_batch_lifecycle_entry_def result_simps
        validate_recorded_iff split: if_splits)
  next
    case (Reversal reversed)
    then show ?thesis
      unfolding batch_check_def ov find_reversal_snoc
      using assms(2) fin dup rev [of reversed] notin [of reversed] revs [of reversed] target [of reversed]
      by (auto simp: overlay_of_def may_follow_def validate_batch_lifecycle_entry_def result_simps
        validate_recorded_iff split: if_splits option.splits)
  next
    case (PeriodClose through)
    then show ?thesis
      unfolding batch_check_def ov find_reversal_snoc
      using assms(2) con dup
      by (cases "period_after ?xs") (auto simp: overlay_of_def may_follow_def validate_batch_lifecycle_entry_def result_simps
        validate_recorded_iff not_le split: if_splits)
  next
    case (PeriodReopen through)
    then show ?thesis
      unfolding batch_check_def ov find_reversal_snoc
      using assms(2) con dup
      by (cases "period_after ?xs"; cases through) (auto simp: overlay_of_def may_follow_def validate_batch_lifecycle_entry_def result_simps
        validate_recorded_iff not_le split: if_splits)
  qed
qed

lemma validate_batch_entries_iff:
  assumes "legal (flat h @ seen)" "\<forall>entry \<in> set rest. entry_wf entry \<and> transaction_id entry \<notin> transaction_id ` set (flat h)"
  shows "validate_batch_entries (ledger_of limits h) rest (overlay_of (flat h) seen) = Inr ov \<longleftrightarrow>
    legal_from (flat h @ seen) rest \<and> ov = overlay_of (flat h) (seen @ rest)"
  using assms
proof (induction rest arbitrary: seen)
  case (Cons entry rest)
  show ?case
  proof (cases "may_follow (flat h @ seen) entry")
    case True
    then have check: "batch_check (ledger_of limits h) entry (overlay_of (flat h) seen) = Inr (overlay_of (flat h) (seen @ [entry]))"
      using batch_check_iff [OF Cons.prems(1)] Cons.prems(2) by simp
    have "legal (flat h @ seen @ [entry])"
      using Cons.prems(1) True unfolding append_assoc [symmetric] by (subst legal_append) simp
    from Cons.IH [OF this] Cons.prems(2) show ?thesis
      using True by (simp only: validate_batch_entries_step check and_then.simps) simp
  next
    case False
    then have "\<exists>e. batch_check (ledger_of limits h) entry (overlay_of (flat h) seen) = Inl e"
      using batch_check_iff [OF Cons.prems(1)] Cons.prems(2)
      by (cases "batch_check (ledger_of limits h) entry (overlay_of (flat h) seen)") simp_all
    then obtain e where check: "batch_check (ledger_of limits h) entry (overlay_of (flat h) seen) = Inl e" ..
    then show ?thesis using False by (simp only: validate_batch_entries_step check and_then.simps) simp
  qed
qed auto

section \<open>Appending a record\<close>

lemma find_entry_Cons:
  "find_entry (x # xs) tid = (if transaction_id x = tid then Some x else find_entry xs tid)" "find_entry [] tid = None"
  by (simp_all add: find_entry_def)

lemma fold_entries:
  assumes "distinct (map transaction_id es)"
  shows "fold (\<lambda>entry m. m(transaction_id entry \<mapsto> g entry)) es m tid =
    (case find_entry es tid of None \<Rightarrow> m tid | Some entry \<Rightarrow> Some (g entry))"
  using assms
proof (induction es arbitrary: m)
  case (Cons x es)
  then have "find_entry es (transaction_id x) = None" by (simp add: find_entry_None)
  then show ?case using Cons by (auto simp: find_entry_Cons split: option.splits)
qed (simp add: find_entry_Cons)

lemma ledger_entries_append:
  assumes "distinct (map transaction_id (flat h @ record_members r))"
  shows "ledger_entries (ledger_of limits (h @ [r])) =
    fold (\<lambda>entry m. m(transaction_id entry \<mapsto> \<lparr>posted_entry = entry, posted_sequence = length h + 1\<rparr>))
      (record_members r) (ledger_entries (ledger_of limits h))"
proof (rule ext)
  fix tid
  have d: "distinct (map transaction_id (record_members r))" using assms by simp
  show "ledger_entries (ledger_of limits (h @ [r])) tid =
    fold (\<lambda>entry m. m(transaction_id entry \<mapsto> \<lparr>posted_entry = entry, posted_sequence = length h + 1\<rparr>))
      (record_members r) (ledger_entries (ledger_of limits h)) tid"
  proof (cases "find_entry (flat h) tid")
    case None
    then have "tid \<notin> transaction_id ` set (flat h)" by (simp add: find_entry_None)
    then show ?thesis
      by (simp add: fold_entries [OF d] ledger_of_def None record_index_append find_entry_append split: option.split)
  next
    case (Some entry)
    then have "tid \<in> transaction_id ` set (flat h)" using find_entry_Some by blast
    moreover from this have "find_entry (record_members r) tid = None"
      using assms by (auto simp: find_entry_None)
    ultimately show ?thesis
      by (simp add: fold_entries [OF d] ledger_of_def Some record_index_append find_entry_append)
  qed
qed

lemma reversals_append:
  assumes "legal_from xs es"
  shows "find_reversal (xs @ es) = fold (\<lambda>(reversed, by_tid) m. m(reversed \<mapsto> by_tid)) (reversal_pairs es) (find_reversal xs)"
    and "card (dom (find_reversal (xs @ es))) = card (dom (find_reversal xs)) + length (reversal_pairs es)"
proof -
  have "find_reversal (xs @ es) = fold (\<lambda>(reversed, by_tid) m. m(reversed \<mapsto> by_tid)) (reversal_pairs es) (find_reversal xs) \<and>
    card (dom (find_reversal (xs @ es))) = card (dom (find_reversal xs)) + length (reversal_pairs es)"
    using assms
  proof (induction xs es rule: legal_from.induct)
    case (2 xs entry rest)
    then have rest: "legal_from (xs @ [entry]) rest" by simp
    have IH: "find_reversal (xs @ entry # rest) =
        fold (\<lambda>(reversed, by_tid) m. m(reversed \<mapsto> by_tid)) (reversal_pairs rest) (find_reversal (xs @ [entry]))"
      "card (dom (find_reversal (xs @ entry # rest))) = card (dom (find_reversal (xs @ [entry]))) + length (reversal_pairs rest)"
      using "2.IH" [OF rest] unfolding append_assoc append_Cons append_Nil by blast+
    have new: "find_reversal xs reversed = None" if "reversed_transaction (entry_kind entry) = Some reversed" for reversed
      using that "2.prems" by (cases "entry_kind entry") (auto simp: may_follow_def)
    show ?case
    proof (cases "reversed_transaction (entry_kind entry)")
      case (Some reversed)
      have "reversed \<notin> dom (find_reversal xs)" using new [OF Some] by (simp add: domIff)
      then show ?thesis
        using IH Some new [OF Some] by (simp add: find_reversal_snoc dom_find_reversal_finite del: fun_upd_apply)
    qed (use IH in \<open>simp add: find_reversal_snoc del: fun_upd_apply\<close>)
  qed simp
  then show "find_reversal (xs @ es) = fold (\<lambda>(reversed, by_tid) m. m(reversed \<mapsto> by_tid)) (reversal_pairs es) (find_reversal xs)"
    "card (dom (find_reversal (xs @ es))) = card (dom (find_reversal xs)) + length (reversal_pairs es)" by blast+
qed

lemma ensure_capacity_iff:
  "ensure_ledger_capacity current added maximum resource = Inr attempted \<longleftrightarrow>
     fits_usize (current + added) \<and> current + added \<le> maximum \<and> attempted = current + added"
  by (auto simp: ensure_ledger_capacity_def result_simps checked_def split: if_splits)

lemma next_sequence_iff:
  "next_sequence (ledger_of limits h) = Inr s \<longleftrightarrow> fits_u64 (length h + 1) \<and> s = length h + 1"
  by (auto simp: next_sequence_def result_simps checked_def bind_eq_Some_conv fits_u64_def split: if_splits)

lemma entries_card:
  assumes "legal (flat h)"
  shows "card (dom (ledger_entries (ledger_of limits h))) = length (flat h)"
proof -
  have "dom (ledger_entries (ledger_of limits h)) = transaction_id ` set (flat h)"
    by (rule set_eqI) (metis domIff find_entry_None ledger_of_simps(9))
  then show ?thesis using distinct_card [OF legal_distinct [OF assms]] by simp
qed

text \<open>Counting balances never fails inside the address space.\<close>

lemma count_balances_ok:
  assumes "distinct (map fst us)" "finite (dom m)" "\<forall>key \<in> fst ` set us. m key = b key"
    and "fits_usize (card (dom m) + length (filter (\<lambda>(key, v). v \<noteq> 0) us))"
  shows "\<exists>n. count_balances b us (card (dom m)) = Inr n"
  using assms
proof (induction us arbitrary: m)
  case (Cons u us)
  obtain key v where u: "u = (key, v)" by (cases u)
  let ?m = "if v = 0 then m(key := None) else m(key \<mapsto> v)"
  have b: "b key = m key" using Cons.prems(3) by (simp add: u)
  have agree: "\<forall>k \<in> fst ` set us. ?m k = b k" using Cons.prems(1,3) by (auto simp: u)
  have d: "distinct (map fst us)" and fin: "finite (dom ?m)" using Cons.prems(1,2) by (simp_all add: u)
  have IH: "\<exists>n. count_balances b us k = Inr n"
    if "card (dom ?m) = k" "k + length (filter (\<lambda>(key, v). v \<noteq> 0) us) \<le> card (dom m) + length (filter (\<lambda>(key, v). v \<noteq> 0) (u # us))" for k
    using Cons.IH [OF d fin agree] that Cons.prems(4) by (simp add: fits_u64_def)
  consider "m key \<noteq> None" "v = 0" | "m key = None" "v \<noteq> 0" | "m key \<noteq> None" "v \<noteq> 0" | "m key = None" "v = 0" by blast
  then show ?case
  proof cases
    case 1
    then have "dom ?m = dom m - {key}" by auto
    moreover have "key \<in> dom m" using 1(1) by (simp add: domIff)
    ultimately have c: "card (dom ?m) = card (dom m) - 1" by (simp only: card_Diff_singleton)
    have "0 < card (dom m)" using \<open>key \<in> dom m\<close> Cons.prems(2) by (auto simp: card_gt_0_iff)
    then show ?thesis using IH [OF c] 1 b by (auto simp: u checked_sub_def)
  next
    case 2
    then have "dom ?m = insert key (dom m)" by auto
    moreover have "key \<notin> dom m" using 2(1) by (simp add: domIff)
    ultimately have c: "card (dom ?m) = card (dom m) + 1" using Cons.prems(2) by simp
    have "fits_usize (card (dom m) + 1)" using Cons.prems(4) 2 by (auto simp: u fits_u64_def)
    then show ?thesis using IH [OF c] 2 b by (simp add: u checked_def)
  next
    case 3
    then have "dom ?m = dom m" by auto
    then have c: "card (dom ?m) = card (dom m)" by simp
    show ?thesis using IH [OF c] 3 b by (auto simp: u)
  next
    case 4
    then have "dom ?m = dom m" by (auto simp: domIff)
    then have c: "card (dom ?m) = card (dom m)" by simp
    show ?thesis using IH [OF c] 4 b by (auto simp: u)
  qed
qed simp

lemma count_updates_ok:
  assumes "updates_to f us g" "finite {key. f key \<noteq> 0}" "finite {key. g key \<noteq> 0}"
    and "fits_usize (card {key. f key \<noteq> 0} + card {key. g key \<noteq> 0})"
  shows "count_balances (balances_of f) us (card (dom (balances_of f))) = Inr (card {key. g key \<noteq> 0})"
proof -
  have d: "distinct (map fst us)" using assms(1) by (simp add: updates_to_def)
  let ?new = "filter (\<lambda>(key, v). v \<noteq> 0) us"
  have "set (map fst ?new) \<subseteq> {key. g key \<noteq> 0}"
    using updates_to_key [OF assms(1)] d by (auto simp: map_of_eq_Some_iff)
  moreover have "distinct (map fst ?new)" using d by (rule distinct_map_filter)
  ultimately have "length ?new \<le> card {key. g key \<noteq> 0}"
    using card_mono [OF assms(3), of "set (map fst ?new)"] distinct_card [of "map fst ?new"] by simp
  then have "fits_usize (card (dom (balances_of f)) + length ?new)"
    using assms(4) by (simp add: dom_balances_of fits_u64_def)
  then obtain n where n: "count_balances (balances_of f) us (card (dom (balances_of f))) = Inr n"
    using count_balances_ok [OF d, of "balances_of f" "balances_of f"] assms(2) by (auto simp: dom_balances_of)
  then show ?thesis using count_updates [OF assms(1,2) n] by simp
qed

declare split_paired_All [simp del] split_paired_Ex [simp del]

text \<open>
  Configured maxima for which the bookkeeping arithmetic cannot leave the machine word. The maxima of
  a \<open>LedgerLimits\<close> are words; twice the number of balance keys is far below what can be allocated.
\<close>

definition limits_wf :: "LedgerLimitsSpec \<Rightarrow> bool" where
  "limits_wf limits \<longleftrightarrow>
     fits_usize (2 * max_balance_keys limits) \<and> fits_usize (max_transactions limits) \<and>
     fits_usize (max_records limits) \<and> fits_usize (max_retained_postings limits)"

definition retained :: "JournalEntry list \<Rightarrow> nat" where
  "retained xs = sum_list (map (\<lambda>entry. length (postings entry)) xs)"

lemma retained_simps [simp]:
  "retained [] = 0" "retained (x # xs) = length (postings x) + retained xs"
  "retained (xs @ ys) = retained xs + retained ys"
  by (simp_all add: retained_def)

lemma ledger_retained [simp]: "ledger_retained_postings (ledger_of limits h) = retained (flat h)"
  by (simp add: retained_def)

declare ledger_of_simps(5) [simp del]

lemma reversals_card_mono:
  assumes "legal (xs @ ys)"
  shows "card (dom (find_reversal (xs @ ys))) = card (dom (find_reversal xs)) + length (reversal_pairs ys)"
  using reversals_append(2) [of xs ys] assms by (simp add: legal_append)

lemma no_reversals [simp]: "find_reversal [] = Map.empty"
  by (rule ext) (simp add: find_reversal_Cons)

lemma preflight_Inr:
  "preflight_event_capacity ledger transactions reversal_count posting_count us = Inr k \<longleftrightarrow>
      (fits_usize (card (dom (ledger_entries ledger)) + transactions) \<and>
       card (dom (ledger_entries ledger)) + transactions \<le> max_transactions (ledger_limits ledger)) \<and>
      (fits_usize (length (ledger_journal ledger) + 1) \<and>
       length (ledger_journal ledger) + 1 \<le> max_records (ledger_limits ledger)) \<and>
      (fits_usize (card (dom (ledger_reversals ledger)) + reversal_count) \<and>
       card (dom (ledger_reversals ledger)) + reversal_count \<le> max_reversals (ledger_limits ledger)) \<and>
      (fits_usize (ledger_retained_postings ledger + posting_count) \<and>
       ledger_retained_postings ledger + posting_count \<le> max_retained_postings (ledger_limits ledger)) \<and>
      (\<exists>n. count_balances (ledger_balances ledger) us (card (dom (ledger_balances ledger))) = Inr n \<and>
        n \<le> max_balance_keys (ledger_limits ledger)) \<and>
      k = ledger_retained_postings ledger + posting_count"
  by (simp add: preflight_event_capacity_def Let_def result_simps ensure_capacity_iff not_less if_distrib [of "\<lambda>x. x = Inr k"]
      del: One_nat_def cong: conj_cong) blast

text \<open>The capacity checks are exactly that the extended history is within the limits.\<close>

lemma preflight_iff:
  assumes "legal (flat h @ record_members r)" "within_limits limits h"
    and "updates_to (effect (flat h)) us (effect (flat h @ record_members r))" "limits_wf limits"
  shows "preflight_event_capacity (ledger_of limits h) (length (record_members r))
       (length (reversal_pairs (record_members r))) (retained (record_members r)) us = Inr k \<longleftrightarrow>
     length (flat h @ record_members r) \<le> max_transactions limits \<and>
     length h + 1 \<le> max_records limits \<and>
     card (dom (find_reversal (flat h @ record_members r))) \<le> max_reversals limits \<and>
     retained (flat h @ record_members r) \<le> max_retained_postings limits \<and>
     card {key. effect (flat h @ record_members r) key \<noteq> 0} \<le> max_balance_keys limits \<and>
     k = retained (flat h @ record_members r)"
    (is "?lhs \<longleftrightarrow> ?rhs")
proof -
  let ?xs = "flat h" and ?es = "record_members r"
  let ?L = "ledger_of limits h"
  have l: "legal ?xs" using assms(1) by (simp add: legal_append)
  have revs: "card (dom (find_reversal (?xs @ ?es))) = card (dom (find_reversal ?xs)) + length (reversal_pairs ?es)"
    by (rule reversals_card_mono [OF assms(1)])
  have "card (dom (find_reversal (?xs @ ?es))) \<le> length (?xs @ ?es)"
  proof -
    have "length (reversal_pairs zs) \<le> length zs" for zs by (induction zs) (auto split: option.splits)
    moreover have "card (dom (find_reversal (?xs @ ?es))) = length (reversal_pairs (?xs @ ?es))"
      using reversals_append(2) [of "[]" "?xs @ ?es"] assms(1) no_reversals by (simp add: legal_def)
    ultimately show ?thesis by metis
  qed
  note rev_le = this
  have keys: "card {key. effect ?xs key \<noteq> 0} \<le> max_balance_keys limits"
    using assms(2) by (simp add: within_limits_def)
  define keys_after where "keys_after = card {key. effect (?xs @ ?es) key \<noteq> 0}"
  define count where "count = count_balances (balances_of (effect ?xs)) us (card (dom (balances_of (effect ?xs))))"
  have count_exact: "n = keys_after" if "count = Inr n" for n
    unfolding keys_after_def by (rule count_updates [OF assms(3) effect_finite that [unfolded count_def]])
  have count_ok: "count = Inr keys_after" if "keys_after \<le> max_balance_keys limits"
    unfolding count_def keys_after_def
    by (rule count_updates_ok [OF assms(3) effect_finite effect_finite])
      (use that keys assms(4) in \<open>simp add: limits_wf_def fits_u64_def keys_after_def\<close>)
  have entries: "card (dom (ledger_entries ?L)) = length ?xs" by (rule entries_card [OF l])
  have lhs: "?lhs \<longleftrightarrow>
      (fits_usize (length (?xs @ ?es)) \<and> length (?xs @ ?es) \<le> max_transactions limits) \<and>
      (fits_usize (length h + 1) \<and> length h + 1 \<le> max_records limits) \<and>
      (fits_usize (card (dom (find_reversal (?xs @ ?es)))) \<and> card (dom (find_reversal (?xs @ ?es))) \<le> max_reversals limits) \<and>
      (fits_usize (retained (?xs @ ?es)) \<and> retained (?xs @ ?es) \<le> max_retained_postings limits) \<and>
      (\<exists>n. count = Inr n \<and> n \<le> max_balance_keys limits) \<and> k = retained (?xs @ ?es)"
    unfolding preflight_Inr count_def ledger_of_simps(1-4,6-9) entries length_map length_append revs retained_simps ledger_retained ..
  have keys_iff: "(\<exists>n. count = Inr n \<and> n \<le> max_balance_keys limits) \<longleftrightarrow> keys_after \<le> max_balance_keys limits"
    using count_exact count_ok by blast
  have fit: "fits_usize n" if "n \<le> max_transactions limits \<or> n \<le> max_records limits \<or> n \<le> max_retained_postings limits" for n
    using that assms(4) by (auto simp: limits_wf_def fits_u64_def)
  have "fits_usize (card (dom (find_reversal (?xs @ ?es))))" if "length (?xs @ ?es) \<le> max_transactions limits"
    by (rule fit) (use rev_le that in linarith)
  then show ?thesis unfolding lhs keys_iff keys_after_def [symmetric] using fit by blast
qed

lemma valid_append_iff:
  assumes "valid_history limits h"
  shows "valid_history limits (h @ [r]) \<longleftrightarrow>
    record_wf r \<and> legal_from (flat h) (record_members r) \<and>
    length (record_members r) \<le> max_transactions_per_record limits \<and>
    (\<forall>entry \<in> set (record_members r). length (postings entry) \<le> max_postings_per_transaction limits) \<and>
    (\<forall>key. fits_i128 (effect (flat h @ record_members r) key)) \<and>
    length (flat h @ record_members r) \<le> max_transactions limits \<and>
    length h + 1 \<le> max_records limits \<and>
    card (dom (find_reversal (flat h @ record_members r))) \<le> max_reversals limits \<and>
    retained (flat h @ record_members r) \<le> max_retained_postings limits \<and>
    card {key. effect (flat h @ record_members r) key \<noteq> 0} \<le> max_balance_keys limits"
proof -
  have "legal (flat h)" "\<forall>r \<in> set h. record_wf r"
    "\<forall>entry \<in> set (flat h). length (postings entry) \<le> max_postings_per_transaction limits"
    "\<forall>r \<in> set h. length (record_members r) \<le> max_transactions_per_record limits"
    using assms by (simp_all add: valid_history_def within_limits_def)
  then show ?thesis
    by (simp only: valid_history_def within_limits_def flat_simps legal_append retained_def [symmetric] set_append
        ball_Un length_append list.size list.set ball_simps) auto
qed


lemma ledger_eqI:
  assumes "ledger_limits a = ledger_limits b" "ledger_balances a = ledger_balances b"
    "ledger_entries a = ledger_entries b" "ledger_reversals a = ledger_reversals b"
    "ledger_journal a = ledger_journal b" "ledger_retained_postings a = ledger_retained_postings b"
    "ledger_closed_through a = ledger_closed_through b" "ledger_last_recorded_at a = ledger_last_recorded_at b"
  shows "a = (b :: Ledger)"
  using assms by (cases a; cases b) simp

lemma ledger_append:
  assumes "legal (flat h @ record_members r)" "record_members r \<noteq> []"
  shows "ledger_of limits (h @ [r]) = (ledger_of limits h)\<lparr>
    ledger_balances := balances_of (effect (flat h @ record_members r)),
    ledger_closed_through := period_after (flat h @ record_members r),
    ledger_reversals := fold (\<lambda>(reversed, by_tid) m. m(reversed \<mapsto> by_tid)) (reversal_pairs (record_members r))
      (ledger_reversals (ledger_of limits h)),
    ledger_entries := fold (\<lambda>entry m. m(transaction_id entry \<mapsto> \<lparr>posted_entry = entry, posted_sequence = length h + 1\<rparr>))
      (record_members r) (ledger_entries (ledger_of limits h)),
    ledger_journal := ledger_journal (ledger_of limits h) @ [record_key r],
    ledger_retained_postings := retained (flat h @ record_members r),
    ledger_last_recorded_at := Some (recorded_at (last (record_members r)))\<rparr>"
proof -
  have legal: "legal_from (flat h) (record_members r)" using assms(1) by (simp add: legal_append)
  have last: "recorded_after (flat h @ record_members r) = Some (recorded_at (last (record_members r)))"
    using assms(2) by (simp add: recorded_after_def)
  show ?thesis
    by (rule ledger_eqI)
      (simp_all add: last ledger_entries_append [OF legal_distinct [OF assms(1)]] reversals_append(1) [OF legal]
        del: fun_upd_apply)
qed


section \<open>Entries\<close>

lemma prepare_ready:
  assumes "valid_history limits h" "entry_wf entry" "limits_wf limits"
    and "find_entry (flat h) (transaction_id entry) = None"
  shows "prepare reserve (ledger_of limits h) entry = Inr (PostingReady p) \<Longrightarrow>
      valid_history limits (h @ [RecordEntry entry]) \<and>
      commit (ledger_of limits h) p =
        (Inr \<lparr>post_sequence = length h + 1, post_replayed = False\<rparr>, ledger_of limits (h @ [RecordEntry entry]))"
    and "valid_history limits (h @ [RecordEntry entry]) \<Longrightarrow> reserve BalanceUpdates (length (postings entry)) \<Longrightarrow>
      \<exists>p. prepare reserve (ledger_of limits h) entry = Inr (PostingReady p)"
    and "valid_history limits (h @ [RecordEntry entry]) \<Longrightarrow> \<not> reserve BalanceUpdates (length (postings entry)) \<Longrightarrow>
      prepare reserve (ledger_of limits h) entry = Inl (PreparationAllocationFailed BalanceUpdates)"
proof -
  let ?L = "ledger_of limits h" and ?xs = "flat h" and ?r = "RecordEntry entry"
  have legal: "legal ?xs" and within: "within_limits limits h" and fits: "\<And>key. fits_i128 (effect ?xs key)"
    using assms(1) by (simp_all add: valid_history_def)
  have none: "ledger_entries ?L (transaction_id entry) = None" using assms(4) by simp
  have rcount: "(if reversed_transaction (entry_kind entry) \<noteq> None then 1 else 0) = length (reversal_pairs (record_members ?r))"
    by (simp split: option.split)
  have pcount: "length (postings entry) = retained (record_members ?r)" by simp
  have image: "(\<lambda>key. effect ?xs key + posting_sum (postings entry) key) = effect (?xs @ record_members ?r)"
    by (rule ext) simp
  have upd: "updates_to (effect ?xs) us (effect (?xs @ record_members ?r)) \<and> (\<forall>key. fits_i128 (effect (?xs @ record_members ?r) key))"
    if "entry_balances (balances_of (effect ?xs)) (postings entry) = Inr us" for us
  proof -
    have u: "updates_to (effect ?xs) us (effect (?xs @ record_members ?r))"
      using entry_updates [OF entry_wf_postings(3) [OF assms(2)] that] by (simp only: image)
    have "\<forall>key \<in> posting_key ` set (postings entry). fits_i128 (effect ?xs key + posting_sum (postings entry) key)"
      using entry_balances_fits [OF entry_wf_postings(3) [OF assms(2)], of "effect ?xs"] that by blast
    then have "fits_i128 (effect ?xs key + posting_sum (postings entry) key)" for key
      using fits [of key] posting_sum_absent [of key "postings entry"] by (cases "key \<in> posting_key ` set (postings entry)") auto
    then show ?thesis using u by simp
  qed
  have lf: "legal_from ?xs (record_members ?r) \<longleftrightarrow> may_follow ?xs entry" by simp
  {
    assume prep: "prepare reserve ?L entry = Inr (PostingReady p)"
    then obtain update us k where ok: "validate_record_cardinality ?L 1 = Inr ()" "validate_entry_cardinality ?L entry = Inr ()"
      "validate_entry_lifecycle ?L entry = Inr update"
      "entry_balances (ledger_balances ?L) (postings entry) = Inr us"
      "preflight_event_capacity ?L 1 (if reversed_transaction (entry_kind entry) \<noteq> None then 1 else 0) (length (postings entry)) us = Inr k"
      and p: "p = \<lparr>prepared_entry = entry, posting_next_balances = us, period_update = update, posting_retained_after = k,
        posting_expected_count = length (ledger_journal ?L), posting_sequence = length h + 1\<rparr>"
      unfolding prepare_def none by (auto simp: result_simps next_sequence_iff)
    have follow: "may_follow ?xs entry" using entry_lifecycle_iff(1) [OF legal assms(2,4)] ok(3) by blast
    then have legal': "legal (?xs @ record_members ?r)" using legal by (simp add: legal_append)
    note u = upd [OF ok(4) [unfolded ledger_of_simps]]
    have pre: "preflight_event_capacity ?L (length (record_members ?r)) (length (reversal_pairs (record_members ?r)))
      (retained (record_members ?r)) us = Inr k"
      using ok(5) unfolding rcount pcount by simp
    note room = preflight_iff [OF legal' within conjunct1 [OF u] assms(3), THEN iffD1, OF pre]
    have valid: "valid_history limits (h @ [?r])"
      unfolding valid_append_iff [OF assms(1)] lf
      using room u follow assms(2) ok(1,2) by (simp add: validate_record_cardinality_def validate_entry_cardinality_def result_simps Let_def)
    have image_bal: "apply_balance_updates (balances_of (effect ?xs)) us = balances_of (effect (?xs @ record_members ?r))"
      by (rule apply_updates [OF conjunct1 [OF u]])
    have period: "(case update of Unchanged \<Rightarrow> ledger_closed_through ?L | SetPeriod through \<Rightarrow> Some through | ClearPeriod \<Rightarrow> None) =
        period_after (?xs @ [entry])"
      using entry_lifecycle_iff(2) [OF legal assms(2,4) ok(3)]
      by (simp add: update_period_def split: PeriodUpdate.splits)
    have ne: "record_members ?r \<noteq> []" by simp
    have "commit ?L p = (Inr \<lparr>post_sequence = length h + 1, post_replayed = False\<rparr>, ledger_of limits (h @ [?r]))"
      unfolding commit_def Let_def p ledger_append [OF legal' ne]
      using none image_bal period room
      by (simp del: fun_upd_apply period_after_snoc split: option.split)
    with valid show "valid_history limits (h @ [?r]) \<and>
      commit ?L p = (Inr \<lparr>post_sequence = length h + 1, post_replayed = False\<rparr>, ledger_of limits (h @ [?r]))" ..
  }
  {
    assume valid: "valid_history limits (h @ [?r])"
    note v = valid [unfolded valid_append_iff [OF assms(1)] lf]
    then have legal': "legal (?xs @ record_members ?r)" using legal by (simp add: legal_append)
    obtain update where life: "validate_entry_lifecycle ?L entry = Inr update"
      using entry_lifecycle_iff(1) [OF legal assms(2,4)] v by blast
    have card: "validate_record_cardinality ?L 1 = Inr ()" "validate_entry_cardinality ?L entry = Inr ()"
      using v by (simp_all add: validate_record_cardinality_def validate_entry_cardinality_def)
    have "\<forall>key. fits_i128 (effect ?xs key + posting_sum (postings entry) key)" using v by simp
    then obtain us where us: "entry_balances (balances_of (effect ?xs)) (postings entry) = Inr us"
      using entry_balances_fits [OF entry_wf_postings(3) [OF assms(2)], of "effect ?xs"] by blast
    have pre: "preflight_event_capacity ?L (length (record_members ?r)) (length (reversal_pairs (record_members ?r)))
      (retained (record_members ?r)) us = Inr (retained (?xs @ record_members ?r))"
      using preflight_iff [OF legal' within conjunct1 [OF upd [OF us]] assms(3)] v by blast
    have seq: "next_sequence ?L = Inr (length h + 1)"
      using v assms(3) by (simp add: next_sequence_iff limits_wf_def fits_u64_def)
    note steps = none life card us pre [folded rcount pcount] seq
    show "reserve BalanceUpdates (length (postings entry)) \<Longrightarrow> \<exists>p. prepare reserve ?L entry = Inr (PostingReady p)"
      using pre by (simp add: prepare_def none life card [unfolded One_nat_def] us seq flip: rcount pcount split: option.splits)
    show "\<not> reserve BalanceUpdates (length (postings entry)) \<Longrightarrow>
      prepare reserve ?L entry = Inl (PreparationAllocationFailed BalanceUpdates)"
      by (simp add: prepare_def none life card [unfolded One_nat_def])
  }
qed


text \<open>
  What an event does to the ledger of a history: it replays, or appends its record if the history
  stays valid (unless the allocator refuses), or is rejected; the last two leave the ledger as it was.
\<close>

definition event_outcome ::
    "('r \<Rightarrow> nat \<times> bool) \<Rightarrow> reserve \<Rightarrow> LedgerLimitsSpec \<Rightarrow> LedgerRecord list \<Rightarrow> LedgerRecord \<Rightarrow> nat option
     \<Rightarrow> (LedgerError + 'r) \<times> Ledger \<Rightarrow> bool"
where
  "event_outcome read reserve limits h r replay outcome \<longleftrightarrow>
     (case replay of
        Some n \<Rightarrow> \<exists>rc. outcome = (Inr rc, ledger_of limits h) \<and> read rc = (n, True)
      | None \<Rightarrow>
          if valid_history limits (h @ [r])
          then (\<exists>rc. outcome = (Inr rc, ledger_of limits (h @ [r])) \<and> read rc = (length h + 1, False)) \<or>
               ((\<exists>resource n. \<not> reserve resource n) \<and>
                (\<exists>resource. outcome = (Inl (PreparationAllocationFailed resource), ledger_of limits h)))
          else \<exists>e. outcome = (Inl e, ledger_of limits h))"

definition entry_replay :: "LedgerRecord list \<Rightarrow> JournalEntry \<Rightarrow> nat option" where
  "entry_replay h entry =
     (if find_entry (flat h) (transaction_id entry) = Some entry then Some (record_index h (transaction_id entry)) else None)"

definition read_post :: "PostReceipt \<Rightarrow> nat \<times> bool" where
  "read_post rc = (post_sequence rc, post_replayed rc)"

lemma valid_fresh:
  assumes "valid_history limits h" "valid_history limits (h @ [r])" "entry \<in> set (record_members r)"
  shows "find_entry (flat h) (transaction_id entry) = None"
proof -
  have "legal (flat h @ record_members r)" using assms(2) by (simp add: valid_history_def)
  from legal_distinct [OF this] assms(3) show ?thesis by (auto simp: find_entry_None)
qed

lemma post_outcome:
  assumes "valid_history limits h" "entry_wf entry" "limits_wf limits"
  shows "event_outcome read_post reserve limits h (RecordEntry entry) (entry_replay h entry)
    (post reserve (ledger_of limits h) entry)"
proof (cases "find_entry (flat h) (transaction_id entry)")
  case (Some existing)
  then have posted: "ledger_entries (ledger_of limits h) (transaction_id entry) =
      Some \<lparr>posted_entry = existing, posted_sequence = record_index h (transaction_id entry)\<rparr>"
    by (simp add: ledger_of_def)
  have "\<not> valid_history limits (h @ [RecordEntry entry])"
    using valid_fresh [OF assms(1), of "RecordEntry entry" entry] Some by auto
  then show ?thesis
    using Some by (simp add: event_outcome_def post_def prepare_def posted entry_replay_def read_post_def)
next
  case None
  note ready = prepare_ready [OF assms None, of reserve]
  have replay: "entry_replay h entry = None" using None by (simp add: entry_replay_def)
  have none: "ledger_entries (ledger_of limits h) (transaction_id entry) = None" using None by simp
  show ?thesis
  proof (cases "valid_history limits (h @ [RecordEntry entry])")
    case True
    show ?thesis
    proof (cases "reserve BalanceUpdates (length (postings entry))")
      case granted: True
      from ready(2) [OF True granted] obtain p where p: "prepare reserve (ledger_of limits h) entry = Inr (PostingReady p)" ..
      show ?thesis using True p ready(1) [OF p] replay by (simp add: event_outcome_def post_def read_post_def)
    next
      case False
      then show ?thesis using ready(3) [OF True False] True replay by (auto simp: event_outcome_def post_def)
    qed
  next
    case False
    have "\<exists>e. prepare reserve (ledger_of limits h) entry = Inl e"
    proof (cases "prepare reserve (ledger_of limits h) entry")
      case (Inr prep)
      then show ?thesis using ready(1) False None
        by (cases prep) (auto simp: prepare_def none result_simps)
    qed simp
    then show ?thesis using False replay by (auto simp: event_outcome_def post_def)
  qed
qed

end
