(* ===== verification/LedgerEvents.thy ===== *)
theory LedgerEvents
  imports LedgerHistory
begin

text \<open>
  Corrections and batches against the history, the interface that entries, corrections and batches share,
  and the reachable ledgers with their invariants: balances that sum to zero per asset, reversals that
  happen at most once, closed periods, receipts that can be retried.
\<close>

section \<open>Recorded events\<close>

lemma record_index_member:
  assumes "distinct (map transaction_id (flat h))" "i < length h" "tid \<in> transaction_id ` set (record_members (h ! i))"
  shows "record_index h tid = i + 1"
  using assms
proof (induction h arbitrary: i)
  case (Cons r h)
  show ?case
  proof (cases i)
    case 0
    then show ?thesis using Cons.prems by simp
  next
    case (Suc j)
    have flat: "flat (r # h) = record_members r @ flat h" by (simp add: flat_def)
    have "h ! j \<in> set h" using Cons.prems(2) Suc by simp
    then have "tid \<in> transaction_id ` set (flat h)"
      using Cons.prems(3) Suc unfolding flat_def by auto
    then have "tid \<notin> transaction_id ` set (record_members r)"
      using Cons.prems(1) unfolding flat by auto
    moreover have "record_index h tid = j + 1" using Cons Suc by (simp add: flat)
    ultimately show ?thesis by (simp add: Suc)
  qed
qed simp

lemma ledger_entry_Some:
  "ledger_entries (ledger_of limits h) tid = Some posted \<longleftrightarrow>
     find_entry (flat h) tid = Some (posted_entry posted) \<and> posted_sequence posted = record_index h tid"
  by (auto simp: ledger_of_def)

lemma record_posted:
  assumes "valid_history limits h" "r \<in> set h" "entry \<in> set (record_members r)"
  shows "ledger_entries (ledger_of limits h) (transaction_id entry) =
      Some \<lparr>posted_entry = entry, posted_sequence = record_index h (transaction_id entry)\<rparr>"
    and "record_index h (transaction_id entry) \<noteq> 0" "record_index h (transaction_id entry) - 1 < length h"
    and "h ! (record_index h (transaction_id entry) - 1) = r"
    and "\<And>other. other \<in> set (record_members r) \<Longrightarrow>
      record_index h (transaction_id other) = record_index h (transaction_id entry)"
proof -
  have d: "distinct (map transaction_id (flat h))" using assms(1) legal_distinct by (auto simp: valid_history_def)
  obtain i where i: "i < length h" "h ! i = r" using assms(2) by (auto simp: in_set_conv_nth)
  have idx: "record_index h (transaction_id other) = i + 1" if "other \<in> set (record_members r)" for other
    using record_index_member [OF d i(1)] i(2) that by simp
  have "entry \<in> set (flat h)" using assms(2,3) by (auto simp: flat_def)
  then show "ledger_entries (ledger_of limits h) (transaction_id entry) =
      Some \<lparr>posted_entry = entry, posted_sequence = record_index h (transaction_id entry)\<rparr>"
    using find_entry_member [OF d] by (simp add: ledger_entry_Some)
  show "record_index h (transaction_id entry) \<noteq> 0" "record_index h (transaction_id entry) - 1 < length h"
    "h ! (record_index h (transaction_id entry) - 1) = r"
    "\<And>other. other \<in> set (record_members r) \<Longrightarrow>
      record_index h (transaction_id other) = record_index h (transaction_id entry)"
    using idx assms(3) i by simp_all
qed

section \<open>Corrections\<close>

definition correction_replay :: "LedgerRecord list \<Rightarrow> LedgerCorrection \<Rightarrow> nat option" where
  "correction_replay h c =
     (if RecordCorrection c \<in> set h then Some (record_index h (transaction_id (correction_reversal c))) else None)"

definition read_correction :: "CorrectionReceipt \<Rightarrow> nat \<times> bool" where
  "read_correction rc = (correction_receipt_sequence rc, correction_replayed rc)"

lemma existing_correction_recorded:
  assumes "valid_history limits h" "RecordCorrection c \<in> set h"
  shows "existing_correction_receipt (ledger_of limits h) c =
    Inr (Some \<lparr>correction_receipt_sequence = record_index h (transaction_id (correction_reversal c)),
      correction_replayed = True, receipt_reversal = transaction_id (correction_reversal c),
      receipt_replacement = transaction_id (correction_replacement c)\<rparr>)"
proof -
  note rev = record_posted(1-4) [OF assms, of "correction_reversal c", simplified]
    and repl = record_posted(1) [OF assms, of "correction_replacement c", simplified]
  have same: "record_index h (transaction_id (correction_replacement c)) = record_index h (transaction_id (correction_reversal c))"
    using record_posted(5) [OF assms, of "correction_reversal c" "correction_replacement c"] by simp
  have "map record_key h ! (record_index h (transaction_id (correction_reversal c)) - 1) = record_key (RecordCorrection c)"
    using rev by simp
  then show ?thesis
    using rev(2,3) by (simp add: existing_correction_receipt_def Let_def rev(1) repl same)
qed

lemma existing_correction_new:
  assumes "valid_history limits h" "RecordCorrection c \<notin> set h"
  shows "existing_correction_receipt (ledger_of limits h) c = Inr x \<longleftrightarrow>
    x = None \<and> find_entry (flat h) (transaction_id (correction_reversal c)) = None \<and>
    find_entry (flat h) (transaction_id (correction_replacement c)) = None"
proof -
  let ?L = "ledger_of limits h"
  let ?rev = "transaction_id (correction_reversal c)" and ?repl = "transaction_id (correction_replacement c)"
  have d: "distinct (map transaction_id (flat h))" using assms(1) legal_distinct by (auto simp: valid_history_def)
  have clash: False
    if "ledger_entries ?L ?rev = Some p" "posted_entry p = correction_reversal c" "ledger_entries ?L ?repl = Some q"
      "posted_entry q = correction_replacement c" "posted_sequence p - 1 < length h"
      "ledger_journal ?L ! (posted_sequence p - 1) = CorrectionKey ?rev ?repl" for p q
  proof -
    have "record_key (h ! (posted_sequence p - 1)) = CorrectionKey ?rev ?repl" using that(5,6) by simp
    then obtain c' where c': "h ! (posted_sequence p - 1) = RecordCorrection c'"
      "transaction_id (correction_reversal c') = ?rev" "transaction_id (correction_replacement c') = ?repl"
      by (cases "h ! (posted_sequence p - 1)") auto
    have mem: "RecordCorrection c' \<in> set h" using c'(1) that(5) nth_mem by metis
    have "correction_reversal c' = correction_reversal c"
      using record_posted(1) [OF assms(1) mem, of "correction_reversal c'"] that(1,2) c'(2) by auto
    moreover have "correction_replacement c' = correction_replacement c"
      using record_posted(1) [OF assms(1) mem, of "correction_replacement c'"] that(3,4) c'(3) by auto
    ultimately have "c' = c" by (cases c; cases c') simp
    then show False using mem assms(2) by simp
  qed
  have found: "find_entry (flat h) tid = None \<longleftrightarrow> ledger_entries ?L tid = None" for tid by simp
  consider "ledger_entries ?L ?rev = None" "ledger_entries ?L ?repl = None"
    | q where "ledger_entries ?L ?rev = None" "ledger_entries ?L ?repl = Some q"
    | p where "ledger_entries ?L ?rev = Some p" "ledger_entries ?L ?repl = None"
    | p q where "ledger_entries ?L ?rev = Some p" "ledger_entries ?L ?repl = Some q"
    by (cases "ledger_entries ?L ?rev"; cases "ledger_entries ?L ?repl")
  then show ?thesis
  proof cases
    case (4 p q)
    then show ?thesis unfolding found using clash [OF 4(1) _ 4(2)]
      by (auto simp: existing_correction_receipt_def Let_def result_simps)
  qed (auto simp: found existing_correction_receipt_def Let_def result_simps simp del: ledger_of_simps(9))
qed

lemma correction_may_follow:
  assumes "correction_wf c" "legal (flat h)"
    and "find_entry (flat h) (transaction_id (correction_reversal c)) = None"
    and "find_entry (flat h) (transaction_id (correction_replacement c)) = None"
  shows "legal_from (flat h) [correction_reversal c, correction_replacement c] \<longleftrightarrow>
    validate_recorded_at (recorded_after (flat h)) (correction_reversal c) = Inr () \<and>
    validate_financial_entry (correction_reversal c) (period_after (flat h)) = Inr () \<and>
    validate_financial_entry (correction_replacement c) (period_after (flat h)) = Inr () \<and>
    validate_reversal (find_entry (flat h) (corrected_transaction_id (entry_kind (correction_reversal c))))
      (find_reversal (flat h) (corrected_transaction_id (entry_kind (correction_reversal c))))
      (corrected_transaction_id (entry_kind (correction_reversal c))) (correction_reversal c) = Inr ()"
proof -
  obtain original where kind: "entry_kind (correction_reversal c) = Reversal original"
    using assms(1) by (auto simp: correction_wf_def)
  have wf: "entry_wf (correction_reversal c)" "entry_wf (correction_replacement c)"
    "entry_kind (correction_replacement c) = Standard"
    "transaction_id (correction_reversal c) \<noteq> transaction_id (correction_replacement c)"
    "recorded_at (correction_reversal c) \<le> recorded_at (correction_replacement c)"
    using assms(1) by (simp_all add: correction_wf_def)
  have fin: "\<not> is_control (entry_kind (correction_reversal c))" "\<not> is_control (entry_kind (correction_replacement c))"
    using kind wf(3) by simp_all
  show ?thesis
    using assms(3,4) wf validate_financial_iff [OF wf(1) fin(1)] validate_financial_iff [OF wf(2) fin(2)]
      validate_reversal_iff [OF legal_distinct [OF assms(2)] wf(1) fin(1), of original]
    by (auto simp: may_follow_def kind validate_recorded_iff find_entry_None)
qed

lemma prepare_correction_ready:
  assumes "valid_history limits h" "correction_wf c" "limits_wf limits" "RecordCorrection c \<notin> set h"
  shows "prepare_correction reserve (ledger_of limits h) c = Inr prep \<Longrightarrow>
      valid_history limits (h @ [RecordCorrection c]) \<and>
      (\<exists>p rc. prep = CorrectionReady p \<and> commit_correction (ledger_of limits h) p =
        (Inr rc, ledger_of limits (h @ [RecordCorrection c])) \<and> read_correction rc = (length h + 1, False))"
    and "valid_history limits (h @ [RecordCorrection c]) \<Longrightarrow>
      prepare_correction reserve (ledger_of limits h) c = Inl e \<Longrightarrow>
      (\<exists>n. \<not> reserve BalanceUpdates n) \<and> e = PreparationAllocationFailed BalanceUpdates"
proof -
  let ?L = "ledger_of limits h" and ?xs = "flat h" and ?r = "RecordCorrection c"
  let ?a = "correction_reversal c" and ?b = "correction_replacement c"
  let ?es = "record_members ?r"
  have es: "?es = [?a, ?b]" by simp
  obtain original where kind: "entry_kind ?a = Reversal original" "entry_kind ?b = Standard"
    using assms(2) by (auto simp: correction_wf_def)
  have wf: "entry_wf ?a" "entry_wf ?b" using assms(2) by (simp_all add: correction_wf_def)
  have legal: "legal ?xs" and within: "within_limits limits h" and fits: "\<And>key. fits_i128 (effect ?xs key)"
    using assms(1) by (simp_all add: valid_history_def)
  have pairs: "reversal_pairs ?es = [(original, transaction_id ?a)]" using kind by simp
  have image: "(\<lambda>key. effect ?xs key + effect [?a, ?b] key) = effect (?xs @ ?es)" by (rule ext) simp
  note may = correction_may_follow [OF assms(2) legal, unfolded kind corrected_transaction_id.simps]
  have rs: "retained ?es = length (postings ?a) + length (postings ?b)" by simp
  {
    assume prep: "prepare_correction reserve ?L c = Inr prep"
    then have new: "find_entry ?xs (transaction_id ?a) = None" "find_entry ?xs (transaction_id ?b) = None"
      and existing: "existing_correction_receipt ?L c = Inr None"
      using existing_correction_new [OF assms(1,4)] by (auto simp: prepare_correction_def result_simps)
    obtain us k where ok: "validate_record_cardinality ?L 2 = Inr ()" "validate_entry_cardinality ?L ?a = Inr ()"
      "validate_entry_cardinality ?L ?b = Inr ()"
      "legal_from ?xs [?a, ?b]"
      "calculate_correction_balances (balances_of (effect ?xs)) (postings ?a) (postings ?b) = Inr us"
      "preflight_event_capacity ?L 2 1 (length (postings ?a) + length (postings ?b)) us = Inr k"
      and p: "prep = CorrectionReady \<lparr>prepared_correction = c, correction_next_balances = us, correction_retained_after = k,
        correction_expected_count = length h, correction_sequence = length h + 1\<rparr>"
      using prep unfolding may [OF new] prepare_correction_def existing
      by (auto simp: result_simps Let_def next_sequence_iff kind checked_def split: if_splits)
    have legal': "legal (?xs @ ?es)" using legal ok(4) by (simp add: legal_append)
    note u = calculate_correction_updates [OF wf fits ok(5), unfolded image]
    have fit: "fits_i128 (effect (?xs @ ?es) key)" for key using u(2) [of key] by (simp add: image [symmetric])
    have pre: "preflight_event_capacity ?L (length ?es) (length (reversal_pairs ?es)) (retained ?es) us = Inr k"
      using ok(6) unfolding pairs rs by (simp add: numeral_2_eq_2)
    note room = preflight_iff [OF legal' within u(1) assms(3), THEN iffD1, OF pre]
    have valid: "valid_history limits (h @ [?r])"
      unfolding valid_append_iff [OF assms(1)]
      using room fit ok(1-4) assms(2)
      by (simp add: validate_record_cardinality_def validate_entry_cardinality_def result_simps Let_def)
    have ne: "?es \<noteq> []" by simp
    have none: "ledger_entries ?L (transaction_id ?a) = None" "ledger_entries ?L (transaction_id ?b) = None"
      using new by simp_all
    have period: "period_after (?xs @ ?es) = period_after ?xs"
      using kind by (simp add: period_after_def)
    have "fst (commit_correction ?L (case prep of CorrectionReady p \<Rightarrow> p)) = Inr \<lparr>correction_receipt_sequence = length h + 1,
        correction_replayed = False, receipt_reversal = transaction_id ?a, receipt_replacement = transaction_id ?b\<rparr> \<and>
      snd (commit_correction ?L (case prep of CorrectionReady p \<Rightarrow> p)) = ledger_of limits (h @ [?r])"
      unfolding commit_correction_def Let_def p ledger_append [OF legal' ne] period
      using none apply_updates [OF u(1)] room
      by (simp add: kind del: fun_upd_apply)
    with valid p show "valid_history limits (h @ [?r]) \<and>
      (\<exists>p rc. prep = CorrectionReady p \<and> commit_correction ?L p = (Inr rc, ledger_of limits (h @ [?r])) \<and>
        read_correction rc = (length h + 1, False))"
      by (auto simp: read_correction_def prod_eq_iff)
  }
  {
    assume valid: "valid_history limits (h @ [?r])" and fail: "prepare_correction reserve ?L c = Inl e"
    have new: "find_entry ?xs (transaction_id ?a) = None" "find_entry ?xs (transaction_id ?b) = None"
      using valid_fresh [OF assms(1) valid] by simp_all
    note v = valid [unfolded valid_append_iff [OF assms(1)]]
    have legal': "legal (?xs @ ?es)" using legal v by (simp add: legal_append)
    have existing: "existing_correction_receipt ?L c = Inr None"
      using existing_correction_new [OF assms(1,4)] new by blast
    have "legal_from ?xs [?a, ?b]" using v by simp
    note life = this [unfolded may [OF new]]
    have card: "validate_record_cardinality ?L 2 = Inr ()" "validate_entry_cardinality ?L ?a = Inr ()"
      "validate_entry_cardinality ?L ?b = Inr ()"
      using v by (simp_all add: validate_record_cardinality_def validate_entry_cardinality_def)
    have "\<forall>key. fits_i128 (effect ?xs key + effect [?a, ?b] key)" using v by simp
    then obtain us where us: "calculate_correction_balances (balances_of (effect ?xs)) (postings ?a) (postings ?b) = Inr us"
      using calculate_correction_exact [where f = "effect ?xs", OF entry_wf_strict [OF wf(1)] entry_wf_strict [OF wf(2)] fits]
      by (auto simp: correction_exact_def correction_image_def add.assoc)
    note u = calculate_correction_updates [OF wf fits us, unfolded image]
    have pre: "preflight_event_capacity ?L (length ?es) (length (reversal_pairs ?es)) (retained ?es) us = Inr (retained (?xs @ ?es))"
      using preflight_iff [OF legal' within u(1) assms(3)] v by blast
    then have pre': "preflight_event_capacity ?L 2 1 (length (postings ?a) + length (postings ?b)) us = Inr (retained (?xs @ ?es))"
      unfolding pairs rs by (simp add: numeral_2_eq_2)
    have seq: "next_sequence ?L = Inr (length h + 1)"
      using v assms(3) by (simp add: next_sequence_iff limits_wf_def fits_u64_def)
    have count: "checked fits_usize (length (postings ?a) + length (postings ?b)) = Some (length (postings ?a) + length (postings ?b))"
      using v assms(3) by (simp add: checked_def limits_wf_def fits_u64_def)
    show "(\<exists>n. \<not> reserve BalanceUpdates n) \<and> e = PreparationAllocationFailed BalanceUpdates"
    proof (cases "reserve BalanceUpdates (length (postings ?a) + length (postings ?b))")
      case True
      then show ?thesis
        using fail by (simp add: prepare_correction_def existing Let_def card kind life count us pre' [unfolded One_nat_def] seq)
    next
      case False
      then show ?thesis
        using fail by (auto simp: prepare_correction_def existing Let_def card kind life count)
    qed
  }
qed

lemma correct_outcome:
  assumes "valid_history limits h" "correction_wf c" "limits_wf limits"
  shows "event_outcome read_correction reserve limits h (RecordCorrection c) (correction_replay h c)
    (correct reserve (ledger_of limits h) c)"
proof (cases "RecordCorrection c \<in> set h")
  case True
  then show ?thesis
    using existing_correction_recorded [OF assms(1) True]
    by (simp add: event_outcome_def correction_replay_def correct_def prepare_correction_def read_correction_def)
next
  case False
  note ready = prepare_correction_ready [OF assms False, of reserve]
  have replay: "correction_replay h c = None" using False by (simp add: correction_replay_def)
  show ?thesis
  proof (cases "prepare_correction reserve (ledger_of limits h) c")
    case (Inl e)
    then show ?thesis using ready(2) [OF _ Inl] by (auto simp: event_outcome_def correct_def replay)
  next
    case (Inr prep)
    then show ?thesis using ready(1) [OF Inr] by (auto simp: event_outcome_def correct_def replay)
  qed
qed

section \<open>Batches\<close>

definition batch_primary :: "LedgerBatch \<Rightarrow> TransactionId" where
  "batch_primary batch = transaction_id (hd (batch_entries batch))"

definition batch_replay :: "LedgerRecord list \<Rightarrow> LedgerBatch \<Rightarrow> nat option" where
  "batch_replay h batch = (if RecordBatch batch \<in> set h then Some (record_index h (batch_primary batch)) else None)"

definition read_batch :: "BatchReceipt \<Rightarrow> nat \<times> bool" where
  "read_batch rc = (batch_receipt_sequence rc, batch_replayed rc)"

text \<open>Scanning a batch: the first member present, how many are, and the sequence of the first.\<close>

lemma scan_batch_Inr:
  assumes "scan_batch m es first_present n s = Inr (first', n', s')"
  shows "(\<forall>entry \<in> set es. \<forall>posted. m (transaction_id entry) = Some posted \<longrightarrow> posted_entry posted = entry) \<and>
    n' = n + length (filter (\<lambda>entry. m (transaction_id entry) \<noteq> None) es) \<and>
    (first' = None \<longleftrightarrow> first_present = None \<and> (\<forall>entry \<in> set es. m (transaction_id entry) = None))"
  using assms
proof (induction m es first_present n s rule: scan_batch.induct)
  case (2 m entry rest first_present n s)
  show ?case
  proof (cases "m (transaction_id entry)")
    case None
    then show ?thesis using "2.IH"(1) [OF None] "2.prems" by simp
  next
    case (Some posted)
    then have same: "posted_entry posted = entry" and n: "checked fits_usize (n + 1) = Some (n + 1)"
      using "2.prems" by (auto simp: result_simps checked_def split: if_splits)
    from "2.IH"(2) [OF Some, of "n + 1"] "2.prems" show ?thesis
      using Some same n by (auto split: option.splits)
  qed
qed auto

lemma scan_batch_absent:
  assumes "\<forall>entry \<in> set es. m (transaction_id entry) = None"
  shows "scan_batch m es first_present n s = Inr (first_present, n, s)"
  using assms by (induction es) auto

lemma scan_batch_present:
  assumes "\<forall>entry \<in> set es. m (transaction_id entry) = Some \<lparr>posted_entry = entry, posted_sequence = k\<rparr>"
    and "fits_usize (n + length es)" "s = None \<or> s = Some k" "es = [] \<longrightarrow> s \<noteq> None \<and> first_present \<noteq> None"
  shows "\<exists>tid. scan_batch m es first_present n s = Inr (Some tid, n + length es, Some k)"
  using assms
proof (induction es arbitrary: first_present n s)
  case (Cons x es)
  have "\<exists>tid. scan_batch m es (case first_present of None \<Rightarrow> Some (transaction_id x) | Some tid \<Rightarrow> Some tid) (n + 1)
      (case s of None \<Rightarrow> Some k | Some i \<Rightarrow> Some i) = Inr (Some tid, (n + 1) + length es, Some k)"
    by (rule Cons.IH) (use Cons.prems in \<open>auto simp: fits_u64_def split: option.splits\<close>)
  moreover have "fits_usize (Suc n)" using Cons.prems(2) by (simp add: fits_u64_def)
  ultimately show ?case using Cons.prems(1) by (cases s) (simp_all add: checked_def)
qed auto

lemma existing_batch_recorded:
  assumes "valid_history limits h" "RecordBatch batch \<in> set h" "batch_wf batch" "limits_wf limits"
  shows "\<exists>rc. existing_batch_receipt (ledger_of limits h) batch = Inr (Some rc) \<and>
    read_batch rc = (record_index h (batch_primary batch), True)"
proof -
  let ?L = "ledger_of limits h" and ?es = "batch_entries batch" and ?k = "record_index h (batch_primary batch)"
  have ne: "?es \<noteq> []" using assms(3) by (auto simp: batch_wf_def)
  then have hd: "hd ?es \<in> set (record_members (RecordBatch batch))" by simp
  note rec = record_posted [OF assms(1,2) hd, folded batch_primary_def]
  have all: "\<forall>entry \<in> set ?es. ledger_entries ?L (transaction_id entry) = Some \<lparr>posted_entry = entry, posted_sequence = ?k\<rparr>"
    using record_posted(1) [OF assms(1,2)] rec(5) by simp
  have "length ?es \<le> length (flat h)"
  proof -
    have "set ?es \<subseteq> set (flat h)" using assms(2) by (force simp: flat_def)
    moreover have "distinct ?es" using assms(3) by (simp add: batch_wf_def distinct_map)
    ultimately show ?thesis using card_mono [of "set (flat h)" "set ?es"] card_length [of "flat h"] by (simp add: distinct_card)
  qed
  then have "fits_usize (0 + length ?es)"
    using assms(1,4) by (auto simp: valid_history_def within_limits_def limits_wf_def fits_u64_def)
  then obtain tid where scan: "scan_batch (ledger_entries ?L) ?es None 0 None = Inr (Some tid, length ?es, Some ?k)"
    using scan_batch_present [OF all, of 0 None None] ne by auto
  have key: "ledger_journal ?L ! (?k - 1) = BatchKey batch" using rec(3,4) by simp
  have same: "\<not> list_ex (\<lambda>entry. case ledger_entries ?L (transaction_id entry) of
        None \<Rightarrow> True | Some posted \<Rightarrow> posted_sequence posted \<noteq> ?k) ?es"
    using all by (auto simp: list_ex_iff)
  show ?thesis
    using rec(2,3) key same by (simp add: existing_batch_receipt_def scan read_batch_def del: ledger_of_simps(3))
qed

lemma existing_batch_new:
  assumes "valid_history limits h" "RecordBatch batch \<notin> set h"
  shows "existing_batch_receipt (ledger_of limits h) batch = Inr x \<longleftrightarrow>
    x = None \<and> (\<forall>entry \<in> set (batch_entries batch). find_entry (flat h) (transaction_id entry) = None)"
proof
  let ?L = "ledger_of limits h" and ?es = "batch_entries batch"
  have no_key: "record_key (h ! i) \<noteq> BatchKey batch" if "i < length h" for i
  proof
    assume "record_key (h ! i) = BatchKey batch"
    then have "h ! i = RecordBatch batch" by (cases "h ! i") auto
    then show False using assms(2) that nth_mem by metis
  qed
  assume ok: "existing_batch_receipt ?L batch = Inr x"
  then obtain first_present n s where scan: "scan_batch (ledger_entries ?L) ?es None 0 None = Inr (first_present, n, s)"
    by (cases "scan_batch (ledger_entries ?L) ?es None 0 None") (auto simp: existing_batch_receipt_def)
  have rest: "first_present = None \<and> x = None"
    using ok no_key by (auto simp: existing_batch_receipt_def scan result_simps split: option.splits)
  then show "x = None \<and> (\<forall>entry \<in> set ?es. find_entry (flat h) (transaction_id entry) = None)"
    using no_key scan_batch_Inr [OF scan] by auto
next
  assume "x = None \<and> (\<forall>entry \<in> set (batch_entries batch). find_entry (flat h) (transaction_id entry) = None)"
  then show "existing_batch_receipt (ledger_of limits h) batch = Inr x"
    by (simp add: existing_batch_receipt_def scan_batch_absent)
qed

lemma count_batch_postings_Inr:
  "count_batch_postings (ledger_of limits h) es n = Inr m \<Longrightarrow>
     m = n + retained es \<and> (\<forall>entry \<in> set es. length (postings entry) \<le> max_postings_per_transaction limits)"
  by (induction es arbitrary: n)
    (fastforce simp: result_simps validate_entry_cardinality_def Let_def checked_def split: if_splits)+

lemma count_batch_postings_ok:
  "fits_usize (n + retained es) \<Longrightarrow> \<forall>entry \<in> set es. length (postings entry) \<le> max_postings_per_transaction limits \<Longrightarrow>
     count_batch_postings (ledger_of limits h) es n = Inr (n + retained es)"
proof (induction es arbitrary: n)
  case (Cons x es)
  have "fits_usize (n + length (postings x))" using Cons.prems(1) by (simp add: fits_u64_def)
  then show ?case using Cons by (simp add: validate_entry_cardinality_def Let_def checked_def add.assoc)
qed simp

lemma overlay_sel:
  "overlay_new_reversals (overlay_of xs seen) = reversal_pairs seen"
  "overlay_closed_through (overlay_of xs seen) = period_after (xs @ seen)"
  by (simp_all add: overlay_of_def)

lemma calculate_batch_ok:
  assumes "\<forall>entry \<in> set es. entry_wf entry" "\<And>key. fits_i128 (f key)"
    and "reserve BalanceTerms (retained es)" "reserve BalanceUpdates (retained es)" "fits_usize (retained es)"
    and "\<forall>key. fits_i128 (f key + effect es key)"
  shows "\<exists>us. calculate_batch_balances reserve (balances_of f) es = Inr us"
proof -
  have n: "length (batch_terms es) = retained es"
    by (simp add: batch_terms_def length_concat comp_def retained_def)
  have "groups_exact f (batch_terms es)"
    by (rule group_balances_exact [where f = f, OF batch_terms_wf(1) [OF assms(1)] assms(2)])
  then obtain us where "group_balances (balances_of f) (batch_terms es) = Inr us"
    using assms(6) unfolding groups_exact_def batch_terms_wf(2) [OF assms(1)] by blast
  then show ?thesis
    using assms(3-5) sum_checked_exact(2) [of 0 "map (\<lambda>entry. length (postings entry)) es"]
    by (simp add: calculate_batch_balances_def n retained_def)
qed

lemma prepare_batch_ready:
  assumes "valid_history limits h" "batch_wf batch" "limits_wf limits" "RecordBatch batch \<notin> set h"
  shows "prepare_batch reserve (ledger_of limits h) batch = Inr prep \<Longrightarrow>
      valid_history limits (h @ [RecordBatch batch]) \<and>
      (\<exists>p rc. prep = BatchReady p \<and> commit_batch (ledger_of limits h) p =
        (Inr rc, ledger_of limits (h @ [RecordBatch batch])) \<and> read_batch rc = (length h + 1, False))"
    and "valid_history limits (h @ [RecordBatch batch]) \<Longrightarrow>
      prepare_batch reserve (ledger_of limits h) batch = Inl e \<Longrightarrow>
      (\<exists>resource n. \<not> reserve resource n) \<and> (\<exists>resource. e = PreparationAllocationFailed resource)"
proof -
  let ?L = "ledger_of limits h" and ?xs = "flat h" and ?r = "RecordBatch batch"
  let ?es = "batch_entries batch"
  have members: "record_members ?r = ?es" by simp
  have wf: "\<forall>entry \<in> set ?es. entry_wf entry" using assms(2) by (simp add: batch_wf_def)
  have ne: "record_members ?r \<noteq> []" using assms(2) by (auto simp: batch_wf_def)
  have legal: "legal ?xs" and within: "within_limits limits h" and fits: "\<And>key. fits_i128 (effect ?xs key)"
    using assms(1) by (simp_all add: valid_history_def)
  have legal0: "legal (?xs @ [])" using legal by simp
  have start: "\<lparr>overlay_recorded_at = ledger_last_recorded_at ?L, overlay_closed_through = ledger_closed_through ?L,
      pending_entries = Map.empty, pending_reversals = Map.empty, overlay_new_reversals = []\<rparr> = overlay_of ?xs []"
  proof -
    have "find_entry [] = Map.empty" by (rule ext) (simp add: find_entry_Cons)
    then show ?thesis by (simp add: overlay_of_def)
  qed
  have image: "(\<lambda>key. effect ?xs key + effect ?es key) = effect (?xs @ ?es)" by (rule ext) simp
  {
    assume prep: "prepare_batch reserve ?L batch = Inr prep"
    then have new: "\<forall>entry \<in> set ?es. find_entry ?xs (transaction_id entry) = None"
      and existing: "existing_batch_receipt ?L batch = Inr None"
      using existing_batch_new [OF assms(1,4)] by (auto simp: prepare_batch_def result_simps)
    have fresh: "\<forall>entry \<in> set ?es. entry_wf entry \<and> transaction_id entry \<notin> transaction_id ` set ?xs"
      using wf new by (simp add: find_entry_None)
    obtain ov us k n where ok: "validate_record_cardinality ?L (length ?es) = Inr ()"
      "count_batch_postings ?L ?es 0 = Inr n"
      "validate_batch_entries ?L ?es (overlay_of ?xs []) = Inr ov"
      "calculate_batch_balances reserve (balances_of (effect ?xs)) ?es = Inr us"
      "preflight_event_capacity ?L (length ?es) (length (overlay_new_reversals ov)) n us = Inr k"
      and p: "prep = BatchReady \<lparr>prepared_batch = batch, batch_next_balances = us,
        final_closed_through = overlay_closed_through ov, new_reversals = overlay_new_reversals ov,
        batch_retained_after = k, batch_expected_count = length h, batch_sequence = length h + 1\<rparr>"
      using prep unfolding prepare_batch_def existing Let_def start
      by (auto simp: result_simps next_sequence_iff)
    note life = validate_batch_entries_iff [OF legal0 fresh, THEN iffD1, OF ok(3), simplified]
    have legal': "legal (?xs @ record_members ?r)" using legal life by (simp add: legal_append)
    note u = calculate_batch_updates [OF wf fits ok(4), unfolded image]
    have fit: "fits_i128 (effect (?xs @ ?es) key)" for key using u(2) [of key] by (simp add: image [symmetric])
    note count = count_batch_postings_Inr [OF ok(2), simplified]
    have pre: "preflight_event_capacity ?L (length (record_members ?r)) (length (reversal_pairs (record_members ?r)))
      (retained (record_members ?r)) us = Inr k"
      using ok(5) life count by (simp add: overlay_of_def)
    note room = preflight_iff [OF legal' within u(1) [folded members] assms(3), THEN iffD1, OF pre]
    have valid: "valid_history limits (h @ [?r])"
      unfolding valid_append_iff [OF assms(1)]
      using room fit ok(1) life count assms(2)
      by (simp add: validate_record_cardinality_def result_simps Let_def)
    have none: "\<not> list_ex (\<lambda>entry. ledger_entries ?L (transaction_id entry) \<noteq> None) ?es"
      using new by (simp add: list_ex_iff)
    have "last ?es = ?es ! (length ?es - 1)" using ne by (simp add: last_conv_nth)
    then have "fst (commit_batch ?L (case prep of BatchReady p \<Rightarrow> p)) = Inr \<lparr>batch_receipt_sequence = length h + 1,
        batch_replayed = False, batch_transaction_count = length ?es\<rparr> \<and>
      snd (commit_batch ?L (case prep of BatchReady p \<Rightarrow> p)) = ledger_of limits (h @ [?r])"
      unfolding commit_batch_def Let_def p ledger_append [OF legal' ne]
      using none apply_updates [OF u(1)] room life
      by (simp add: overlay_of_def del: fun_upd_apply)
    with valid p show "valid_history limits (h @ [?r]) \<and>
      (\<exists>p rc. prep = BatchReady p \<and> commit_batch ?L p = (Inr rc, ledger_of limits (h @ [?r])) \<and>
        read_batch rc = (length h + 1, False))"
      by (auto simp: read_batch_def prod_eq_iff)
  }
  {
    assume valid: "valid_history limits (h @ [?r])" and fail: "prepare_batch reserve ?L batch = Inl e"
    have new: "\<forall>entry \<in> set ?es. find_entry ?xs (transaction_id entry) = None"
      using valid_fresh [OF assms(1) valid] by simp
    have fresh: "\<forall>entry \<in> set ?es. entry_wf entry \<and> transaction_id entry \<notin> transaction_id ` set ?xs"
      using wf new by (simp add: find_entry_None)
    note v = valid [unfolded valid_append_iff [OF assms(1)] members]
    have legal': "legal (?xs @ record_members ?r)" using legal v by (simp add: legal_append)
    have existing: "existing_batch_receipt ?L batch = Inr None"
      using existing_batch_new [OF assms(1,4)] new by blast
    have life: "validate_batch_entries ?L ?es (overlay_of ?xs []) = Inr (overlay_of ?xs ?es)"
      using validate_batch_entries_iff [OF legal0 fresh] v by simp
    have card: "validate_record_cardinality ?L (length ?es) = Inr ()"
      using v by (simp add: validate_record_cardinality_def)
    have fit_n: "fits_usize (retained ?es)" using v assms(3) by (auto simp: limits_wf_def fits_u64_def)
    have count: "count_batch_postings ?L ?es 0 = Inr (retained ?es)"
      using count_batch_postings_ok [of 0 ?es] fit_n v by simp
    have n: "length (batch_terms ?es) = retained ?es"
      by (simp add: batch_terms_def length_concat comp_def retained_def)
    have all_fit: "\<forall>key. fits_i128 (effect ?xs key + effect ?es key)" using v by simp
    have seq: "next_sequence ?L = Inr (length h + 1)"
      using v assms(3) by (simp add: next_sequence_iff limits_wf_def fits_u64_def)
    show "(\<exists>resource n. \<not> reserve resource n) \<and> (\<exists>resource. e = PreparationAllocationFailed resource)"
    proof (cases "calculate_batch_balances reserve (balances_of (effect ?xs)) ?es")
      case (Inr us)
      note u = calculate_batch_updates [OF wf fits Inr, unfolded image]
      have "preflight_event_capacity ?L (length (record_members ?r)) (length (reversal_pairs (record_members ?r)))
          (retained (record_members ?r)) us = Inr (retained (?xs @ record_members ?r))"
        using preflight_iff [OF legal' within u(1) [folded members] assms(3)] v by simp
      then show ?thesis
        using fail unfolding prepare_batch_def existing Let_def start
        by (auto simp: result_simps card count life Inr seq overlay_sel)
    next
      case (Inl e')
      have batch_error: "(\<exists>resource n. \<not> reserve resource n) \<and> (\<exists>resource. e' = PreparationAllocationFailed resource)"
      proof (cases "reserve BalanceTerms (retained ?es) \<and> reserve BalanceUpdates (retained ?es)")
        case True
        then obtain us where "calculate_batch_balances reserve (balances_of (effect ?xs)) ?es = Inr us"
          using calculate_batch_ok [where f = "effect ?xs" and reserve = reserve, OF wf fits] all_fit fit_n by blast
        then show ?thesis using Inl by simp
      next
        case False
        have "sum_checked (map (\<lambda>entry. length (postings entry)) ?es) 0 = Inr (retained ?es)"
          using sum_checked_exact(2) [of 0 "map (\<lambda>entry. length (postings entry)) ?es"] fit_n by (simp add: retained_def)
        then show ?thesis using Inl False by (auto simp: calculate_batch_balances_def n result_simps)
      qed
      then show ?thesis
        using fail Inl unfolding prepare_batch_def existing Let_def start
        by (auto simp: result_simps card count life)
    qed
  }
qed

lemma post_batch_outcome:
  assumes "valid_history limits h" "batch_wf batch" "limits_wf limits"
  shows "event_outcome read_batch reserve limits h (RecordBatch batch) (batch_replay h batch)
    (post_batch reserve (ledger_of limits h) batch)"
proof (cases "RecordBatch batch \<in> set h")
  case True
  then show ?thesis
    using existing_batch_recorded [OF assms(1) True assms(2,3)]
    by (auto simp: event_outcome_def batch_replay_def post_batch_def prepare_batch_def)
next
  case False
  note ready = prepare_batch_ready [OF assms False, of reserve]
  have replay: "batch_replay h batch = None" using False by (simp add: batch_replay_def)
  show ?thesis
  proof (cases "prepare_batch reserve (ledger_of limits h) batch")
    case (Inl e)
    then show ?thesis using ready(2) [OF _ Inl] by (auto simp: event_outcome_def post_batch_def replay)
  next
    case (Inr prep)
    then show ?thesis using ready(1) [OF Inr] by (auto simp: event_outcome_def post_batch_def replay)
  qed
qed

section \<open>The interface of a ledger event\<close>

lemma valid_history_distinct: "valid_history limits h \<Longrightarrow> distinct (map transaction_id (flat h))"
  using legal_distinct by (auto simp: valid_history_def)

lemma record_index_new:
  assumes "valid_history limits (h @ [r])" "entry \<in> set (record_members r)"
  shows "record_index (h @ [r]) (transaction_id entry) = length h + 1"
proof -
  have "transaction_id entry \<notin> transaction_id ` set (flat h)"
    using valid_history_distinct [OF assms(1)] assms(2) by auto
  then show ?thesis by (simp add: record_index_append)
qed

lemma record_index_old:
  "tid \<in> transaction_id ` set (flat h) \<Longrightarrow> record_index (h @ [r]) tid = record_index h tid"
  by (simp add: record_index_append)

locale ledger_event =
  fixes perform :: "reserve \<Rightarrow> Ledger \<Rightarrow> 'event \<Rightarrow> (LedgerError + 'receipt) \<times> Ledger"
    and as_record :: "'event \<Rightarrow> LedgerRecord"
    and replay :: "LedgerRecord list \<Rightarrow> 'event \<Rightarrow> nat option"
    and read :: "'receipt \<Rightarrow> nat \<times> bool"
    and event_wf :: "'event \<Rightarrow> bool"
  assumes outcome: "valid_history limits h \<Longrightarrow> event_wf ev \<Longrightarrow> limits_wf limits \<Longrightarrow>
      event_outcome read reserve limits h (as_record ev) (replay h ev) (perform reserve (ledger_of limits h) ev)"
    and replay_new: "event_wf ev \<Longrightarrow> valid_history limits (h @ [as_record ev]) \<Longrightarrow>
      replay (h @ [as_record ev]) ev = Some (length h + 1)"
    and replay_old: "event_wf ev \<Longrightarrow> replay h ev = Some n \<Longrightarrow> valid_history limits (h @ [r]) \<Longrightarrow> replay (h @ [r]) ev = Some n"
begin

lemma failure_unchanged:
  assumes "valid_history limits h" "event_wf ev" "limits_wf limits"
    and "perform reserve (ledger_of limits h) ev = (Inl e, ledger')"
  shows "ledger' = ledger_of limits h"
  using outcome [OF assms(1-3), of reserve] assms(4)
  by (auto simp: event_outcome_def split: option.splits if_splits)

lemma success_cases:
  assumes "valid_history limits h" "event_wf ev" "limits_wf limits"
    and "perform reserve (ledger_of limits h) ev = (Inr rc, ledger')"
  shows "(replay h ev = Some (fst (read rc)) \<and> snd (read rc) \<and> ledger' = ledger_of limits h) \<or>
    (replay h ev = None \<and> read rc = (length h + 1, False) \<and>
     valid_history limits (h @ [as_record ev]) \<and> ledger' = ledger_of limits (h @ [as_record ev]))"
  using outcome [OF assms(1-3), of reserve] assms(4)
  by (auto simp: event_outcome_def split: option.splits if_splits)

lemma step_history:
  assumes "valid_history limits h" "event_wf ev" "limits_wf limits"
    and "perform reserve (ledger_of limits h) ev = (res, ledger')"
  shows "\<exists>h'. ledger' = ledger_of limits h' \<and> valid_history limits h' \<and> (h' = h \<or> h' = h @ [as_record ev])"
  using outcome [OF assms(1-3), of reserve] assms(1,4)
  by (auto simp: event_outcome_def split: option.splits if_splits)

text \<open>Retrying a successful event returns the same receipt, marked as a replay, and changes nothing.\<close>

lemma retry:
  assumes "valid_history limits h" "event_wf ev" "limits_wf limits"
    and "perform reserve (ledger_of limits h) ev = (Inr rc, ledger')"
  shows "\<exists>rc'. perform reserve' ledger' ev = (Inr rc', ledger') \<and> read rc' = (fst (read rc), True)"
  using success_cases [OF assms]
proof
  assume "replay h ev = Some (fst (read rc)) \<and> snd (read rc) \<and> ledger' = ledger_of limits h"
  then show ?thesis
    using outcome [OF assms(1-3), of reserve'] by (auto simp: event_outcome_def)
next
  assume new: "replay h ev = None \<and> read rc = (length h + 1, False) \<and>
     valid_history limits (h @ [as_record ev]) \<and> ledger' = ledger_of limits (h @ [as_record ev])"
  then have valid: "valid_history limits (h @ [as_record ev])" by blast
  show ?thesis
    using outcome [OF valid assms(2,3), of reserve'] new replay_new [OF assms(2) valid]
    by (auto simp: event_outcome_def)
qed

text \<open>The event is accepted exactly if the extended history is valid, given memory.\<close>

lemma accepted_iff:
  assumes "valid_history limits h" "event_wf ev" "limits_wf limits" "replay h ev = None"
    and "\<And>resource n. reserve resource n"
  shows "(\<exists>rc. perform reserve (ledger_of limits h) ev = (Inr rc, ledger_of limits (h @ [as_record ev])) \<and>
      read rc = (length h + 1, False)) \<longleftrightarrow> valid_history limits (h @ [as_record ev])"
    and "\<not> valid_history limits (h @ [as_record ev]) \<Longrightarrow>
      \<exists>e. perform reserve (ledger_of limits h) ev = (Inl e, ledger_of limits h)"
  using outcome [OF assms(1-3), of reserve] assms(4,5) by (auto simp: event_outcome_def split: if_splits)

end

interpretation entry_event: ledger_event post RecordEntry entry_replay read_post entry_wf
proof
  fix limits :: LedgerLimitsSpec and h :: "LedgerRecord list" and entry :: JournalEntry and reserve
  assume "valid_history limits h" "entry_wf entry" "limits_wf limits"
  then show "event_outcome read_post reserve limits h (RecordEntry entry) (entry_replay h entry)
    (post reserve (ledger_of limits h) entry)" by (rule post_outcome)
next
  fix limits :: LedgerLimitsSpec and h :: "LedgerRecord list" and entry :: JournalEntry
  assume v: "valid_history limits (h @ [RecordEntry entry])"
  have "find_entry (flat (h @ [RecordEntry entry])) (transaction_id entry) = Some entry"
    using find_entry_member [OF valid_history_distinct [OF v], of entry] by simp
  then show "entry_replay (h @ [RecordEntry entry]) entry = Some (length h + 1)"
    using record_index_new [OF v, of entry] by (simp add: entry_replay_def)
next
  fix limits :: LedgerLimitsSpec and h :: "LedgerRecord list" and entry :: JournalEntry and n r
  assume "entry_replay h entry = Some n"
  then have f: "find_entry (flat h) (transaction_id entry) = Some entry" "n = record_index h (transaction_id entry)"
    by (auto simp: entry_replay_def split: if_splits)
  then have "transaction_id entry \<in> transaction_id ` set (flat h)" using find_entry_Some by blast
  then show "entry_replay (h @ [r]) entry = Some n"
    using f by (simp add: entry_replay_def find_entry_append record_index_old)
qed

interpretation correction_event: ledger_event correct RecordCorrection correction_replay read_correction correction_wf
proof
  fix limits :: LedgerLimitsSpec and h :: "LedgerRecord list" and c :: LedgerCorrection and reserve
  assume "valid_history limits h" "correction_wf c" "limits_wf limits"
  then show "event_outcome read_correction reserve limits h (RecordCorrection c) (correction_replay h c)
    (correct reserve (ledger_of limits h) c)" by (rule correct_outcome)
next
  fix limits :: LedgerLimitsSpec and h :: "LedgerRecord list" and c :: LedgerCorrection
  assume v: "valid_history limits (h @ [RecordCorrection c])"
  show "correction_replay (h @ [RecordCorrection c]) c = Some (length h + 1)"
    using record_index_new [OF v, of "correction_reversal c"] by (simp add: correction_replay_def)
next
  fix limits :: LedgerLimitsSpec and h :: "LedgerRecord list" and c :: LedgerCorrection and n r
  assume "correction_replay h c = Some n"
  then have m: "RecordCorrection c \<in> set h" "n = record_index h (transaction_id (correction_reversal c))"
    by (auto simp: correction_replay_def split: if_splits)
  from m(1) have "transaction_id (correction_reversal c) \<in> transaction_id ` set (flat h)"
    by (force simp: flat_def)
  then show "correction_replay (h @ [r]) c = Some n"
    using m by (simp add: correction_replay_def record_index_old)
qed

interpretation batch_event: ledger_event post_batch RecordBatch batch_replay read_batch batch_wf
proof
  fix limits :: LedgerLimitsSpec and h :: "LedgerRecord list" and b :: LedgerBatch and reserve
  assume "valid_history limits h" "batch_wf b" "limits_wf limits"
  then show "event_outcome read_batch reserve limits h (RecordBatch b) (batch_replay h b)
    (post_batch reserve (ledger_of limits h) b)" by (rule post_batch_outcome)
next
  fix limits :: LedgerLimitsSpec and h :: "LedgerRecord list" and b :: LedgerBatch
  assume v: "valid_history limits (h @ [RecordBatch b])" and "batch_wf b"
  then have "hd (batch_entries b) \<in> set (record_members (RecordBatch b))" by (auto simp: batch_wf_def intro!: hd_in_set)
  then show "batch_replay (h @ [RecordBatch b]) b = Some (length h + 1)"
    using record_index_new [OF v] by (simp add: batch_replay_def batch_primary_def)
next
  fix limits :: LedgerLimitsSpec and h :: "LedgerRecord list" and b :: LedgerBatch and n r
  assume "batch_replay h b = Some n" "batch_wf b"
  then have m: "RecordBatch b \<in> set h" "n = record_index h (batch_primary b)" "batch_entries b \<noteq> []"
    by (auto simp: batch_replay_def batch_wf_def split: if_splits)
  from m(1,3) have "batch_primary b \<in> transaction_id ` set (flat h)"
    by (force simp: flat_def batch_primary_def)
  then show "batch_replay (h @ [r]) b = Some n"
    using m by (simp add: batch_replay_def record_index_old)
qed

section \<open>Reachable ledgers\<close>

inductive ledger_reachable :: "LedgerLimitsSpec \<Rightarrow> Ledger \<Rightarrow> bool" for limits where
  started: "try_with_limits reserve limits = Inr ledger \<Longrightarrow> ledger_reachable limits ledger"
| posted: "ledger_reachable limits ledger \<Longrightarrow> entry_wf entry \<Longrightarrow>
    post space ledger entry = (res, ledger') \<Longrightarrow> ledger_reachable limits ledger'"
| corrected: "ledger_reachable limits ledger \<Longrightarrow> correction_wf c \<Longrightarrow>
    correct space ledger c = (cres, ledger') \<Longrightarrow> ledger_reachable limits ledger'"
| batched: "ledger_reachable limits ledger \<Longrightarrow> batch_wf batch \<Longrightarrow>
    post_batch space ledger batch = (bres, ledger') \<Longrightarrow> ledger_reachable limits ledger'"

lemma valid_history_Nil [simp]: "valid_history limits []"
  by (simp add: valid_history_def within_limits_def legal_def fits_i128_def)

lemma try_with_limits_ledger_of:
  "try_with_limits reserve limits = Inr ledger \<Longrightarrow> ledger = ledger_of limits []"
proof -
  assume "try_with_limits reserve limits = Inr ledger"
  moreover have "limits_try_from limits = Inr spec \<Longrightarrow> spec = limits" for spec
    by (auto simp: limits_try_from_def result_simps)
  moreover have "map_error f m = Inr x \<longleftrightarrow> m = Inr x" for f :: "LedgerLimitError \<Rightarrow> LedgerConstructionError" and m :: "LedgerLimitError + LedgerLimitsSpec" and x
    by (cases m) auto
  moreover have "find_entry [] = Map.empty" by (rule ext) (simp add: find_entry_Cons)
  ultimately show ?thesis
    by (auto simp: try_with_limits_def result_simps ledger_of_def balances_of_def period_after_def recorded_after_def)
qed

text \<open>Every reachable ledger is the ledger of a valid history.\<close>

lemma reachable_history:
  assumes "ledger_reachable limits ledger" "limits_wf limits"
  shows "\<exists>h. valid_history limits h \<and> ledger = ledger_of limits h"
  using assms
proof (induction rule: ledger_reachable.induct)
  case (started reserve ledger)
  then show ?case using try_with_limits_ledger_of valid_history_Nil by blast
next
  case (posted ledger entry space res ledger')
  then show ?case using entry_event.step_history by blast
next
  case (corrected ledger c space cres ledger')
  then show ?case using correction_event.step_history by blast
next
  case (batched ledger batch space bres ledger')
  then show ?case using batch_event.step_history by blast
qed

section \<open>Invariants of reachable ledgers\<close>

lemma asset_sum_keys:
  assumes "finite K" "\<forall>key \<in> K. snd key = asset"
    and "\<forall>p \<in> set ps. asset_id p = asset \<longrightarrow> posting_key p \<in> K"
  shows "(\<Sum>key \<in> K. posting_sum ps key) = asset_sum ps asset"
  using assms(3)
proof (induction ps)
  case (Cons p ps)
  have "(\<Sum>key \<in> K. posting_sum (p # ps) key) =
      (\<Sum>key \<in> K. (if posting_key p = key then amount p else 0) + posting_sum ps key)"
    by (rule sum.cong) (auto simp: posting_sum_def)
  also have "\<dots> = (\<Sum>key \<in> K. if posting_key p = key then amount p else 0) + asset_sum ps asset"
    using Cons by (simp add: sum.distrib)
  also have "(\<Sum>key \<in> K. if posting_key p = key then amount p else 0) = (if posting_key p \<in> K then amount p else 0)"
    by (simp add: assms(1))
  also have "\<dots> = (if asset_id p = asset then amount p else 0)"
    using Cons.prems assms(2) by (auto simp: posting_key_def)
  finally show ?case by (simp add: asset_sum_def)
qed (simp add: asset_sum_def posting_sum_def)

definition asset_total :: "Ledger \<Rightarrow> AssetId \<Rightarrow> int" where
  "asset_total ledger asset =
     (\<Sum>key \<in> {key \<in> dom (ledger_balances ledger). snd key = asset}. balance_in (ledger_balances ledger) key)"

lemma asset_total_ledger_of:
  assumes "valid_history limits h"
  shows "asset_total (ledger_of limits h) asset = 0"
proof -
  let ?ps = "concat (map postings (flat h))"
  let ?K = "posting_key ` {p \<in> set ?ps. asset_id p = asset}"
  have wf: "entry_wf entry" if "entry \<in> set (flat h)" for entry
    using assms that legal_from_wf by (auto simp: valid_history_def legal_def)
  have "asset_sum (concat (map postings xs)) asset = (\<Sum>entry\<leftarrow>xs. asset_sum (postings entry) asset)" for xs
    by (induction xs) (simp_all add: asset_sum_def)
  also have "(\<Sum>entry\<leftarrow>flat h. asset_sum (postings entry) asset) = (\<Sum>entry\<leftarrow>flat h. 0)"
    by (rule arg_cong [of _ _ sum_list], rule map_cong) (simp_all add: entry_wf_postings(5) wf)
  finally have "asset_sum ?ps asset = 0" by simp
  then have "(\<Sum>key \<in> ?K. effect (flat h) key) = 0"
    using asset_sum_keys [of ?K asset ?ps] by (simp add: effect_concat posting_key_def)
  moreover have "{key \<in> dom (ledger_balances (ledger_of limits h)). snd key = asset} \<subseteq> ?K"
  proof
    fix key assume key: "key \<in> {key \<in> dom (ledger_balances (ledger_of limits h)). snd key = asset}"
    then have "key \<in> posting_key ` set ?ps"
      using posting_sum_absent [of key ?ps] by (auto simp: dom_balances_of effect_concat)
    then show "key \<in> ?K" using key by (auto simp: posting_key_def)
  qed
  then have "(\<Sum>key \<in> {key \<in> dom (ledger_balances (ledger_of limits h)). snd key = asset}. effect (flat h) key) =
      (\<Sum>key \<in> ?K. effect (flat h) key)"
    by (rule sum.mono_neutral_left [rotated]) (auto simp: dom_balances_of posting_key_def)
  ultimately show ?thesis by (simp add: asset_total_def)
qed

lemma find_reversal_entry:
  assumes "find_reversal xs tid = Some by_tid" "distinct (map transaction_id xs)"
  shows "\<exists>entry \<in> set xs. transaction_id entry = by_tid \<and> entry_kind entry = Reversal tid"
  using assms(1) by (auto simp: find_reversal_def find_Some_iff)

lemma legal_reversal:
  assumes "legal_from ys xs" "entry \<in> set xs" "entry_kind entry = Reversal tid" "distinct (map transaction_id ys)"
  shows "\<exists>original \<in> set (ys @ xs). transaction_id original = tid \<and> \<not> is_control (entry_kind original) \<and>
    postings entry = map negate_posting (postings original) \<and> find_reversal (ys @ xs) tid = Some (transaction_id entry)"
  using assms
proof (induction ys xs rule: legal_from.induct)
  case (2 ys x rest)
  have d: "distinct (map transaction_id (ys @ [x]))"
    using "2.prems"(1,4) by (auto simp: may_follow_def)
  show ?case
  proof (cases "entry = x")
    case True
    have "find_reversal ys tid = None"
      using "2.prems"(1,3) True by (simp add: may_follow_def)
    then have "find_reversal (ys @ x # rest) tid = Some (transaction_id entry)"
      using "2.prems"(3) True by (simp add: find_reversal_append find_reversal_Cons)
    then show ?thesis using "2.prems"(1,3) True by (auto simp: may_follow_def)
  next
    case False
    then show ?thesis using "2.IH" "2.prems" d by auto
  qed
qed simp

lemma reversal_nets_to_zero:
  "postings entry = map negate_posting (postings original) \<Longrightarrow> posting_sum (postings original) key + posting_sum (postings entry) key = 0"
proof -
  have "posting_sum (map negate_posting ps) key = - posting_sum ps key" for ps
    by (induction ps) (auto simp: posting_sum_def posting_key_def negate_posting_def)
  then show "postings entry = map negate_posting (postings original) \<Longrightarrow>
    posting_sum (postings original) key + posting_sum (postings entry) key = 0" by simp
qed

definition sample_limits :: LedgerLimitsSpec where
  "sample_limits = \<lparr>max_balance_keys = 8, max_transactions = 8, max_reversals = 8, max_records = 8,
     max_postings_per_transaction = 4, max_transactions_per_record = 4, max_retained_postings = 16\<rparr>"

lemma sample_limits_wf [simp]: "limits_wf sample_limits"
  by (simp add: limits_wf_def sample_limits_def width_defs)

lemma swap_history:
  assumes "v \<noteq> 0" "fits_i128 v" "fits_i128 (- v)"
  shows "valid_history sample_limits [RecordEntry (swap_entry tid v)]"
proof -
  have wf: "entry_wf (swap_entry tid v)" by (rule swap_entry_wf [OF assms])
  have eff: "effect [swap_entry tid v] key = (if key = (1, 1) then v else if key = (2, 1) then - v else 0)" for key
    by (auto simp: swap_entry_def posting_key_def posting_sum_def)
  have "{key. effect [swap_entry tid v] key \<noteq> 0} = {(1, 1), (2, 1)}"
    unfolding eff using assms(1) by auto
  then have card: "card {key. effect [swap_entry tid v] key \<noteq> 0} = 2" by simp
  have rev: "find_reversal [swap_entry tid v] = Map.empty"
    by (rule ext) (simp add: find_reversal_Cons swap_entry_def)
  have fits: "fits_i128 (effect [swap_entry tid v] key)" for key
    unfolding eff using assms by (auto simp: fits_i128_def)
  have flat: "flat [RecordEntry (swap_entry tid v)] = [swap_entry tid v]" by (simp add: flat_def)
  show ?thesis
    unfolding valid_history_def within_limits_def flat
    using wf card rev fits
    by (simp add: legal_def may_follow_def recorded_after_def period_after_def date_open_def sample_limits_def)
       (simp add: swap_entry_def period_after_def date_open_def)
qed

lemma sample_reachable: "ledger_reachable sample_limits (ledger_of sample_limits [])"
proof -
  have "\<exists>ledger. try_with_limits (\<lambda>_ _. True) sample_limits = Inr ledger"
    by (simp add: try_with_limits_def limits_try_from_def sample_limits_def)
  then show ?thesis using try_with_limits_ledger_of ledger_reachable.started by metis
qed


lemma post_reachable:
  assumes "ledger_reachable limits (ledger_of limits h)" "valid_history limits h" "limits_wf limits" "entry_wf entry"
    and "valid_history limits (h @ [RecordEntry entry])"
  shows "ledger_reachable limits (ledger_of limits (h @ [RecordEntry entry]))"
proof -
  have "find_entry (flat h) (transaction_id entry) = None"
    using valid_fresh [OF assms(2,5), of entry] by simp
  then have "entry_replay h entry = None" by (simp add: entry_replay_def)
  then have "\<exists>res. post (\<lambda>_ _. True) (ledger_of limits h) entry = (res, ledger_of limits (h @ [RecordEntry entry]))"
    using entry_event.accepted_iff(1) [OF assms(2,4,3), of "\<lambda>_ _. True"] assms(5) by auto
  then show ?thesis using ledger_reachable.posted [OF assms(1,4)] by blast
qed

definition sample_reversal :: JournalEntry where
  "sample_reversal = (swap_entry 2 (- 5))\<lparr>entry_kind := Reversal 1\<rparr>"

definition sample_close :: JournalEntry where
  "sample_close = \<lparr>transaction_id = 1, entry_reference = 0, effective_date = None, recorded_at = 1, postings = [],
     entry_kind = PeriodClose 10\<rparr>"

lemma sample_histories_wf:
  "entry_wf (swap_entry 1 5)" "entry_wf sample_reversal" "entry_wf sample_close"
proof -
  show "entry_wf (swap_entry 1 5)" by (simp add: swap_entry_wf fits_i128_def)
  have "entry_wf (swap_entry 2 (- 5))" by (simp add: swap_entry_wf fits_i128_def)
  then show "entry_wf sample_reversal" by (simp add: sample_reversal_def entry_wf_def swap_entry_def)
  show "entry_wf sample_close" by (simp add: sample_close_def entry_wf_def)
qed

lemma sample_reversal_history: "valid_history sample_limits [RecordEntry (swap_entry 1 5), RecordEntry sample_reversal]"
proof -
  let ?es = "[swap_entry 1 5, sample_reversal]"
  have eff: "effect ?es key = 0" for key by (auto simp: sample_reversal_def swap_entry_def posting_key_def posting_sum_def)
  have rev: "find_reversal ?es = [1 \<mapsto> 2]"
    by (rule ext) (simp add: find_reversal_Cons swap_entry_def sample_reversal_def)
  have flat: "flat [RecordEntry (swap_entry 1 5), RecordEntry sample_reversal] = ?es" by (simp add: flat_def)
  show ?thesis
    unfolding valid_history_def within_limits_def flat eff rev
    using sample_histories_wf
    by (simp add: legal_def may_follow_def recorded_after_def sample_limits_def fits_i128_def)
       (simp add: swap_entry_def sample_reversal_def period_after_def date_open_def find_reversal_None negate_posting_def)
qed

lemma sample_close_history: "valid_history sample_limits [RecordEntry sample_close]"
proof -
  have rev: "find_reversal [sample_close] = Map.empty"
    by (rule ext) (simp add: find_reversal_Cons sample_close_def)
  have flat: "flat [RecordEntry sample_close] = [sample_close]" by (simp add: flat_def)
  have eff: "effect [sample_close] key = 0" for key by (simp add: sample_close_def posting_sum_def)
  show ?thesis
    unfolding valid_history_def within_limits_def flat eff rev
    using sample_histories_wf(3)
    by (simp add: legal_def may_follow_def recorded_after_def sample_limits_def fits_i128_def)
       (simp add: sample_close_def period_after_def)
qed

lemma sample_reversal_reachable:
  "ledger_reachable sample_limits (ledger_of sample_limits [RecordEntry (swap_entry 1 5), RecordEntry sample_reversal])"
proof -
  have v: "valid_history sample_limits [RecordEntry (swap_entry 1 5)]" by (rule swap_history) (simp_all add: fits_i128_def)
  have "ledger_reachable sample_limits (ledger_of sample_limits [RecordEntry (swap_entry 1 5)])"
    using post_reachable [OF sample_reachable valid_history_Nil sample_limits_wf sample_histories_wf(1)] v by simp
  from post_reachable [OF this v sample_limits_wf sample_histories_wf(2)] sample_reversal_history show ?thesis by simp
qed

lemma sample_close_reachable: "ledger_reachable sample_limits (ledger_of sample_limits [RecordEntry sample_close])"
  using post_reachable [OF sample_reachable valid_history_Nil sample_limits_wf sample_histories_wf(3)] sample_close_history
  by simp

section \<open>The ledger refines its history\<close>

text \<open>
  C3. Posting an entry to the ledger of a history is exactly this: a recorded entry replays its receipt, a
  different entry under a recorded identity collides, and a new entry is appended if and only if
  the extended history is legal, representable and within every limit. Otherwise the post is
  refused and the ledger is untouched.
\<close>

theorem post_refines_history:
  assumes "valid_history limits h" "entry_wf entry" "limits_wf limits" "\<And>resource n. reserve resource n"
  shows "case find_entry (flat h) (transaction_id entry) of
      Some existing \<Rightarrow>
        post reserve (ledger_of limits h) entry =
          (if existing = entry
           then Inr \<lparr>post_sequence = record_index h (transaction_id entry), post_replayed = True\<rparr>
           else Inl (TransactionIdCollision (transaction_id entry)), ledger_of limits h)
    | None \<Rightarrow>
        if valid_history limits (h @ [RecordEntry entry])
        then post reserve (ledger_of limits h) entry =
          (Inr \<lparr>post_sequence = length h + 1, post_replayed = False\<rparr>, ledger_of limits (h @ [RecordEntry entry]))
        else \<exists>e. post reserve (ledger_of limits h) entry = (Inl e, ledger_of limits h)"
proof (cases "find_entry (flat h) (transaction_id entry)")
  case (Some existing)
  then have "ledger_entries (ledger_of limits h) (transaction_id entry) =
      Some \<lparr>posted_entry = existing, posted_sequence = record_index h (transaction_id entry)\<rparr>"
    by (simp add: ledger_of_def)
  then show ?thesis using Some by (simp add: post_def prepare_def)
next
  case None
  then have "entry_replay h entry = None" by (simp add: entry_replay_def)
  from entry_event.outcome [OF assms(1-3), of reserve] this assms(4) None show ?thesis
    by (auto simp: event_outcome_def read_post_def)
qed

theorem post_refines_history_witness:
  "post (\<lambda>_ _. True) (ledger_of sample_limits []) (swap_entry 1 5) =
     (Inr \<lparr>post_sequence = 1, post_replayed = False\<rparr>, ledger_of sample_limits [RecordEntry (swap_entry 1 5)])"
proof -
  have "valid_history sample_limits [RecordEntry (swap_entry 1 5)]" by (rule swap_history) (simp_all add: fits_i128_def)
  moreover have "entry_wf (swap_entry 1 5)" by (simp add: swap_entry_wf fits_i128_def)
  ultimately show ?thesis
    using post_refines_history [of sample_limits "[]" "swap_entry 1 5" "\<lambda>_ _. True"] by (simp add: find_entry_Cons)
qed

text \<open>
  C9. A correction refines appending one record: it replays if the history holds this correction, is
  appended atomically with both members if the extended history is valid, and is otherwise refused
  with the ledger untouched. The balances of the new ledger are those of the extended history.
\<close>

theorem correct_refines_history:
  assumes "valid_history limits h" "correction_wf c" "limits_wf limits" "\<And>resource n. reserve resource n"
  shows "if RecordCorrection c \<in> set h
    then \<exists>rc. correct reserve (ledger_of limits h) c = (Inr rc, ledger_of limits h) \<and> correction_replayed rc \<and>
      correction_receipt_sequence rc = record_index h (transaction_id (correction_reversal c))
    else if valid_history limits (h @ [RecordCorrection c])
    then \<exists>rc. correct reserve (ledger_of limits h) c = (Inr rc, ledger_of limits (h @ [RecordCorrection c])) \<and>
      \<not> correction_replayed rc \<and> correction_receipt_sequence rc = length h + 1
    else \<exists>e. correct reserve (ledger_of limits h) c = (Inl e, ledger_of limits h)"
  using correction_event.outcome [OF assms(1-3), of reserve] assms(4)
  by (auto simp: event_outcome_def correction_replay_def read_correction_def split: if_splits)

definition sample_correction :: LedgerCorrection where
  "sample_correction = \<lparr>correction_reversal = (swap_entry 2 (- 5))\<lparr>entry_kind := Reversal 1\<rparr>,
     correction_replacement = swap_entry 3 7\<rparr>"

lemma sample_correction_wf: "correction_wf sample_correction"
  by (auto simp: correction_wf_def sample_correction_def entry_wf_def swap_entry_def postings_wf_def typed_postings_def
      postings_balanced_def posting_key_def posting_order_def fits_i128_def)

theorem correct_refines_history_witness:
  "\<exists>e. correct (\<lambda>_ _. True) (ledger_of sample_limits []) sample_correction = (Inl e, ledger_of sample_limits [])"
proof -
  have "\<not> valid_history sample_limits [RecordCorrection sample_correction]"
    by (simp add: valid_history_def flat_def legal_def may_follow_def sample_correction_def)
  then show ?thesis
    using correct_refines_history [of sample_limits "[]" sample_correction "\<lambda>_ _. True"] sample_correction_wf by simp
qed

text \<open>
  C10. A batch refines appending one record: all of its entries in order, checked one after the other
  against the history extended by the ones before, or none of them.
\<close>

theorem post_batch_refines_history:
  assumes "valid_history limits h" "batch_wf batch" "limits_wf limits" "\<And>resource n. reserve resource n"
  shows "if RecordBatch batch \<in> set h
    then \<exists>rc. post_batch reserve (ledger_of limits h) batch = (Inr rc, ledger_of limits h) \<and> batch_replayed rc \<and>
      batch_receipt_sequence rc = record_index h (transaction_id (hd (batch_entries batch)))
    else if valid_history limits (h @ [RecordBatch batch])
    then \<exists>rc. post_batch reserve (ledger_of limits h) batch = (Inr rc, ledger_of limits (h @ [RecordBatch batch])) \<and>
      \<not> batch_replayed rc \<and> batch_receipt_sequence rc = length h + 1
    else \<exists>e. post_batch reserve (ledger_of limits h) batch = (Inl e, ledger_of limits h)"
  using batch_event.outcome [OF assms(1-3), of reserve] assms(4)
  by (auto simp: event_outcome_def batch_replay_def batch_primary_def read_batch_def split: if_splits)

lemma swap_batch_wf: "batch_wf (LedgerBatch [swap_entry 1 5, swap_entry 2 (- 5)])"
proof -
  have "entry_wf (swap_entry 1 5)" "entry_wf (swap_entry 2 (- 5))" by (simp_all add: swap_entry_wf fits_i128_def)
  then show ?thesis by (auto simp: batch_wf_def) (simp_all add: swap_entry_def)
qed

lemma swap_batch_history: "valid_history sample_limits [RecordBatch (LedgerBatch [swap_entry 1 5, swap_entry 2 (- 5)])]"
proof -
  let ?es = "[swap_entry 1 5, swap_entry 2 (- 5)]"
  have wf: "entry_wf (swap_entry 1 5)" "entry_wf (swap_entry 2 (- 5))" by (simp_all add: swap_entry_wf fits_i128_def)
  have eff: "effect ?es key = 0" for key by (auto simp: swap_entry_def posting_key_def posting_sum_def)
  have rev: "find_reversal ?es = Map.empty"
    by (rule ext) (simp add: find_reversal_Cons swap_entry_def)
  have flat: "flat [RecordBatch (LedgerBatch ?es)] = ?es" by (simp add: flat_def)
  show ?thesis
    unfolding valid_history_def within_limits_def flat eff rev
    using wf swap_batch_wf
    by (simp add: legal_def may_follow_def recorded_after_def period_after_def date_open_def sample_limits_def fits_i128_def)
       (simp add: swap_entry_def period_after_def date_open_def)
qed

theorem post_batch_refines_history_witness:
  "\<exists>rc. post_batch (\<lambda>_ _. True) (ledger_of sample_limits []) (LedgerBatch [swap_entry 1 5, swap_entry 2 (- 5)]) =
     (Inr rc, ledger_of sample_limits [RecordBatch (LedgerBatch [swap_entry 1 5, swap_entry 2 (- 5)])])"
  using post_batch_refines_history [of sample_limits "[]" "LedgerBatch [swap_entry 1 5, swap_entry 2 (- 5)]" "\<lambda>_ _. True"]
    swap_batch_wf swap_batch_history by auto

text \<open>
  C4. Every ledger that the three operations can produce is the ledger of a valid history: its indexes,
  balances, period boundary, posting count and journal are those its records determine.
\<close>

theorem reachable_is_history:
  assumes "ledger_reachable limits ledger" "limits_wf limits"
  shows "\<exists>h. valid_history limits h \<and> ledger = ledger_of limits h"
  by (rule reachable_history [OF assms])

theorem reachable_is_history_witness:
  "\<exists>h. valid_history sample_limits h \<and> ledger_of sample_limits [] = ledger_of sample_limits h"
  by (rule reachable_is_history [OF sample_reachable sample_limits_wf])

text \<open>
  C8. Double entry is preserved: in every reachable ledger the balances of an asset over all accounts
  sum to zero, and no zero balance is stored.
\<close>

theorem reachable_conserves:
  assumes "ledger_reachable limits ledger" "limits_wf limits"
  shows "asset_total ledger asset = 0 \<and> (\<forall>key. ledger_balances ledger key \<noteq> Some 0)"
proof -
  obtain h where h: "valid_history limits h" "ledger = ledger_of limits h"
    using reachable_history [OF assms] by blast
  show ?thesis using asset_total_ledger_of [OF h(1)] by (simp add: h(2) balances_of_def)
qed

theorem reachable_conserves_witness:
  "asset_total (ledger_of sample_limits []) 1 = 0 \<and> (\<forall>key. ledger_balances (ledger_of sample_limits []) key \<noteq> Some 0)"
  by (rule reachable_conserves [OF sample_reachable sample_limits_wf])

text \<open>
  A transaction is reversed at most once: the lineage index names, for every posted reversal, exactly
  that reversal, and original and reversal together leave every balance as it was.
\<close>

theorem reachable_reversal_once:
  assumes "ledger_reachable limits ledger" "limits_wf limits"
    and "ledger_entries ledger tid = Some posted" "entry_kind (posted_entry posted) = Reversal reversed"
  shows "ledger_reversals ledger reversed = Some tid \<and>
    (\<exists>original. ledger_entries ledger reversed = Some original \<and> \<not> is_control (entry_kind (posted_entry original)) \<and>
       (\<forall>key. posting_sum (postings (posted_entry original)) key + posting_sum (postings (posted_entry posted)) key = 0))"
proof -
  obtain h where h: "valid_history limits h" "ledger = ledger_of limits h"
    using reachable_history [OF assms(1,2)] by blast
  have d: "distinct (map transaction_id (flat h))" by (rule valid_history_distinct [OF h(1)])
  have entry: "posted_entry posted \<in> set (flat h)" "transaction_id (posted_entry posted) = tid"
    using assms(3) h(2) find_entry_Some [of "flat h" tid] by (auto simp: ledger_entry_Some)
  have "legal_from [] (flat h)" using h(1) by (simp add: valid_history_def legal_def)
  from legal_reversal [OF this entry(1) assms(4)] obtain original where original: "original \<in> set (flat h)"
    "transaction_id original = reversed" "\<not> is_control (entry_kind original)"
    "postings (posted_entry posted) = map negate_posting (postings original)"
    "find_reversal (flat h) reversed = Some tid" using entry(2) by auto
  have "ledger_entries ledger reversed = Some \<lparr>posted_entry = original, posted_sequence = record_index h reversed\<rparr>"
    using find_entry_member [OF d original(1)] original(2) by (simp add: h(2) ledger_entry_Some)
  then show ?thesis
    using original(3,5) reversal_nets_to_zero [OF original(4)] by (simp add: h(2))
qed

theorem reachable_reversal_once_witness:
  "ledger_reversals (ledger_of sample_limits [RecordEntry (swap_entry 1 5), RecordEntry sample_reversal]) 1 = Some 2"
proof -
  have "ledger_entries (ledger_of sample_limits [RecordEntry (swap_entry 1 5), RecordEntry sample_reversal]) 2 =
      Some \<lparr>posted_entry = sample_reversal, posted_sequence = 2\<rparr>"
    by (simp add: ledger_of_def flat_def find_entry_Cons swap_entry_def sample_reversal_def)
  from reachable_reversal_once [OF sample_reversal_reachable sample_limits_wf this, of 1] show ?thesis
    by (simp add: sample_reversal_def)
qed

text \<open>
  A closed period stays closed to bookings: an entry dated on or before the boundary that is not
  already posted is refused by \<open>post\<close>, as is a correction with such a member, and nothing changes.
\<close>

theorem closed_period_refuses:
  assumes "ledger_reachable limits ledger" "limits_wf limits"
    and "ledger_closed_through ledger = Some through"
  shows "(entry_wf entry \<longrightarrow> ledger_entries ledger (transaction_id entry) = None \<longrightarrow>
       (\<exists>date. effective_date entry = Some date \<and> date \<le> through) \<longrightarrow>
       (\<exists>e. post reserve ledger entry = (Inl e, ledger))) \<and>
    (correction_wf c \<longrightarrow> ledger_entries ledger (transaction_id (correction_reversal c)) = None \<longrightarrow>
       (\<exists>member \<in> {correction_reversal c, correction_replacement c}. \<exists>date. effective_date member = Some date \<and> date \<le> through) \<longrightarrow>
       (\<exists>e. correct reserve ledger c = (Inl e, ledger)))"
proof -
  obtain h where h: "valid_history limits h" "ledger = ledger_of limits h"
    using reachable_history [OF assms(1,2)] by blast
  have closed: "period_after (flat h) = Some through" using assms(3) h(2) by simp
  have control: "effective_date entry = None" if "entry_wf entry" "is_control (entry_kind entry)" for entry
    using that by (simp add: entry_wf_def)
  have follow: "\<not> may_follow xs entry"
    if "entry_wf entry" "effective_date entry = Some date" "date \<le> through" "period_after xs = Some through" for xs entry date
    using that control [OF that(1)] by (cases "entry_kind entry") (auto simp: may_follow_def date_open_def)
  have "\<exists>e. post reserve ledger entry = (Inl e, ledger)"
    if hyps: "entry_wf entry" "ledger_entries ledger (transaction_id entry) = None" "effective_date entry = Some date" "date \<le> through" for date
  proof -
    have "\<not> valid_history limits (h @ [RecordEntry entry])"
      using follow [OF hyps(1,3,4) closed] by (simp add: valid_history_def legal_append)
    moreover have "entry_replay h entry = None" using hyps(2) by (simp add: entry_replay_def h(2))
    ultimately show ?thesis
      using entry_event.outcome [OF h(1) hyps(1) assms(2), of reserve] by (simp add: event_outcome_def h(2))
  qed
  moreover have "\<exists>e. correct reserve ledger c = (Inl e, ledger)"
    if hyps: "correction_wf c" "ledger_entries ledger (transaction_id (correction_reversal c)) = None"
      "member \<in> {correction_reversal c, correction_replacement c}" "effective_date member = Some date" "date \<le> through"
    for member date
  proof -
    have wf: "entry_wf (correction_reversal c)" "entry_wf (correction_replacement c)"
      and kind: "\<exists>original. entry_kind (correction_reversal c) = Reversal original"
      using hyps(1) by (auto simp: correction_wf_def)
    have "period_after (flat h @ [correction_reversal c]) = Some through"
      using kind closed by auto
    then have "\<not> legal_from (flat h) [correction_reversal c, correction_replacement c]"
      using hyps(3-5) follow [OF wf(1) _ _ closed] follow [OF wf(2)] by auto
    then have "\<not> valid_history limits (h @ [RecordCorrection c])"
      by (auto simp: valid_history_def legal_append)
    moreover have "correction_replay h c = None"
    proof -
      have "RecordCorrection c \<notin> set h"
        using record_posted(1) [OF h(1), of "RecordCorrection c" "correction_reversal c"] hyps(2)
        unfolding h(2) by force
      then show ?thesis by (simp add: correction_replay_def)
    qed
    ultimately show ?thesis
      using correction_event.outcome [OF h(1) hyps(1) assms(2), of reserve] by (simp add: event_outcome_def h(2))
  qed
  ultimately show ?thesis by blast
qed

theorem closed_period_refuses_witness:
  "\<exists>e. post (\<lambda>_ _. True) (ledger_of sample_limits [RecordEntry sample_close]) (swap_entry 2 5) =
     (Inl e, ledger_of sample_limits [RecordEntry sample_close])"
proof -
  have "ledger_closed_through (ledger_of sample_limits [RecordEntry sample_close]) = Some 10"
    by (simp add: period_after_def flat_def sample_close_def)
  moreover have "ledger_entries (ledger_of sample_limits [RecordEntry sample_close]) (transaction_id (swap_entry 2 5)) = None"
    by (simp add: flat_def find_entry_Cons sample_close_def swap_entry_def)
  moreover have "entry_wf (swap_entry 2 5)" by (simp add: swap_entry_wf fits_i128_def)
  moreover have "effective_date (swap_entry 2 5) = Some 1" by (simp add: swap_entry_def)
  ultimately show ?thesis
    using closed_period_refuses [OF sample_close_reachable sample_limits_wf, of 10 "swap_entry 2 5" "\<lambda>_ _. True"] by auto
qed

text \<open>
  Retries are safe: an event that succeeded, on whatever ledger and with whatever memory, succeeds
  again on the ledger it left, with the sequence of the first receipt, marked as a replay, and
  without any further change.
\<close>

theorem events_retry:
  assumes "ledger_reachable limits ledger" "limits_wf limits"
  shows "(entry_wf entry \<and> post reserve ledger entry = (Inr rc, ledger') \<longrightarrow>
      post reserve' ledger' entry = (Inr \<lparr>post_sequence = post_sequence rc, post_replayed = True\<rparr>, ledger')) \<and>
    (correction_wf c \<and> correct reserve ledger c = (Inr crc, ledger') \<longrightarrow>
      (\<exists>again. correct reserve' ledger' c = (Inr again, ledger') \<and> correction_replayed again \<and>
         correction_receipt_sequence again = correction_receipt_sequence crc)) \<and>
    (batch_wf batch \<and> post_batch reserve ledger batch = (Inr brc, ledger') \<longrightarrow>
      (\<exists>again. post_batch reserve' ledger' batch = (Inr again, ledger') \<and> batch_replayed again \<and>
         batch_receipt_sequence again = batch_receipt_sequence brc))"
proof -
  obtain h where h: "valid_history limits h" "ledger = ledger_of limits h"
    using reachable_history [OF assms] by blast
  have "post reserve' ledger' entry = (Inr \<lparr>post_sequence = post_sequence rc, post_replayed = True\<rparr>, ledger')"
    if "entry_wf entry" "post reserve ledger entry = (Inr rc, ledger')"
    using entry_event.retry [OF h(1) that(1) assms(2) that(2) [unfolded h(2)], of reserve'] by (auto simp: read_post_def)
  moreover have "\<exists>again. correct reserve' ledger' c = (Inr again, ledger') \<and> correction_replayed again \<and>
         correction_receipt_sequence again = correction_receipt_sequence crc"
    if "correction_wf c" "correct reserve ledger c = (Inr crc, ledger')"
    using correction_event.retry [OF h(1) that(1) assms(2) that(2) [unfolded h(2)], of reserve'] by (auto simp: read_correction_def)
  moreover have "\<exists>again. post_batch reserve' ledger' batch = (Inr again, ledger') \<and> batch_replayed again \<and>
         batch_receipt_sequence again = batch_receipt_sequence brc"
    if "batch_wf batch" "post_batch reserve ledger batch = (Inr brc, ledger')"
    using batch_event.retry [OF h(1) that(1) assms(2) that(2) [unfolded h(2)], of reserve'] by (auto simp: read_batch_def)
  ultimately show ?thesis by blast
qed

theorem events_retry_witness:
  "post (\<lambda>_ _. False) (ledger_of sample_limits [RecordEntry (swap_entry 1 5)]) (swap_entry 1 5) =
     (Inr \<lparr>post_sequence = 1, post_replayed = True\<rparr>, ledger_of sample_limits [RecordEntry (swap_entry 1 5)])"
proof -
  have "post (\<lambda>_ _. True) (ledger_of sample_limits []) (swap_entry 1 5) =
     (Inr \<lparr>post_sequence = 1, post_replayed = False\<rparr>, ledger_of sample_limits [RecordEntry (swap_entry 1 5)])"
  proof -
    have "valid_history sample_limits [RecordEntry (swap_entry 1 5)]" by (rule swap_history) (simp_all add: fits_i128_def)
    then show ?thesis
      using entry_event.outcome [OF valid_history_Nil sample_histories_wf(1) sample_limits_wf, of "\<lambda>_ _. True"]
      by (auto simp: event_outcome_def entry_replay_def find_entry_Cons read_post_def)
  qed
  then show ?thesis
    using events_retry [OF sample_reachable sample_limits_wf, of "swap_entry 1 5" "\<lambda>_ _. True" _ _ "\<lambda>_ _. False"]
      sample_histories_wf(1) by simp
qed

text \<open>
  Failure is atomic: whatever error an event reports, a missing reservation included, and whatever
  its validation had already computed, the ledger is exactly the one before.
\<close>

theorem failed_events_change_nothing:
  assumes "ledger_reachable limits ledger" "limits_wf limits"
  shows "(entry_wf entry \<and> post reserve ledger entry = (Inl e, ledger') \<longrightarrow> ledger' = ledger) \<and>
    (correction_wf c \<and> correct reserve ledger c = (Inl e, ledger') \<longrightarrow> ledger' = ledger) \<and>
    (batch_wf batch \<and> post_batch reserve ledger batch = (Inl e, ledger') \<longrightarrow> ledger' = ledger)"
proof -
  obtain h where h: "valid_history limits h" "ledger = ledger_of limits h"
    using reachable_history [OF assms] by blast
  show ?thesis
    using entry_event.failure_unchanged [OF h(1) _ assms(2)] correction_event.failure_unchanged [OF h(1) _ assms(2)]
      batch_event.failure_unchanged [OF h(1) _ assms(2)] unfolding h(2) by blast
qed

theorem failed_events_change_nothing_witness:
  "snd (post (\<lambda>_ _. False) (ledger_of sample_limits []) (swap_entry 1 5)) = ledger_of sample_limits []"
proof -
  obtain res ledger' where step: "post (\<lambda>_ _. False) (ledger_of sample_limits []) (swap_entry 1 5) = (res, ledger')"
    by (cases "post (\<lambda>_ _. False) (ledger_of sample_limits []) (swap_entry 1 5)")
  have "valid_history sample_limits ([] @ [RecordEntry (swap_entry 1 5)])"
    using swap_history [of 5 1] by (simp add: fits_i128_def)
  then have "prepare (\<lambda>_ _. False) (ledger_of sample_limits []) (swap_entry 1 5) = Inl (PreparationAllocationFailed BalanceUpdates)"
    by (intro prepare_ready(3)) (simp_all add: sample_histories_wf [simplified] find_entry_Cons)
  then have "\<exists>e. res = Inl e" using step by (auto simp: post_def)
  then show ?thesis
    using failed_events_change_nothing [OF sample_reachable sample_limits_wf, of "swap_entry 1 5" "\<lambda>_ _. False"]
      sample_histories_wf(1) step by auto
qed

end
