(* ===== verification/LedgerQueries.thy ===== *)
theory LedgerQueries
  imports LedgerEvents
begin

text \<open>
  Reading the ledger of \<open>src/src/ledger.rs\<close>: resolving journal keys into records, balances as of a
  generation and the trial balance. An iteration over a hash index takes the order of its entries as
  an argument.
\<close>

section \<open>Retained records\<close>

datatype LedgerHistoryError =
    SequenceOverflow nat
  | MissingTransaction nat TransactionId
  | TransactionMismatch nat TransactionId

definition resolve_history_transaction ::
    "Ledger \<Rightarrow> nat \<Rightarrow> TransactionId \<Rightarrow> JournalEntry option \<Rightarrow> LedgerHistoryError + JournalEntry"
where
  "resolve_history_transaction ledger sequence tid expected =
     and_then (ok_or (ledger_entries ledger tid) (MissingTransaction sequence tid)) (\<lambda>posted.
       if posted_sequence posted \<noteq> sequence \<or> transaction_id (posted_entry posted) \<noteq> tid \<or>
          (case expected of None \<Rightarrow> False | Some entry \<Rightarrow> posted_entry posted \<noteq> entry)
       then Inl (TransactionMismatch sequence tid)
       else Inr (posted_entry posted))"

fun resolve_batch_members :: "Ledger \<Rightarrow> nat \<Rightarrow> JournalEntry list \<Rightarrow> LedgerHistoryError + unit" where
  "resolve_batch_members ledger sequence [] = Inr ()"
| "resolve_batch_members ledger sequence (entry # rest) =
     and_then (resolve_history_transaction ledger sequence (transaction_id entry) (Some entry)) (\<lambda>_.
       resolve_batch_members ledger sequence rest)"

definition resolve_retained_record ::
    "Ledger \<Rightarrow> nat \<Rightarrow> LedgerRecordKey \<Rightarrow> LedgerHistoryError + nat \<times> LedgerRecord"
where
  "resolve_retained_record ledger index key =
     and_then (ok_or (Option.bind (checked fits_u64 index) (\<lambda>v. checked fits_u64 (v + 1))) (SequenceOverflow index)) (\<lambda>sequence.
     and_then (case key of
         EntryKey tid \<Rightarrow>
           and_then (resolve_history_transaction ledger sequence tid None) (\<lambda>entry. Inr (RecordEntry entry))
       | CorrectionKey rev_tid repl_tid \<Rightarrow>
           and_then (resolve_history_transaction ledger sequence rev_tid None) (\<lambda>rev_entry.
           and_then (resolve_history_transaction ledger sequence repl_tid None) (\<lambda>repl.
             Inr (RecordCorrection \<lparr>correction_reversal = rev_entry, correction_replacement = repl\<rparr>)))
       | BatchKey batch \<Rightarrow>
           and_then (resolve_batch_members ledger sequence (batch_entries batch)) (\<lambda>_. Inr (RecordBatch batch)))
       (\<lambda>record. Inr (sequence, record)))"

definition try_record_view :: "Ledger \<Rightarrow> nat \<Rightarrow> LedgerHistoryError + LedgerRecord option" where
  "try_record_view ledger sequence =
     (case checked_sub sequence 1 of
        None \<Rightarrow> Inr None
      | Some index \<Rightarrow>
          if index < length (ledger_journal ledger)
          then and_then (resolve_retained_record ledger index (ledger_journal ledger ! index)) (\<lambda>(_, record).
                 Inr (Some record))
          else Inr None)"

text \<open>The retained history from a journal position on: the records in sequence order.\<close>

fun retained_from :: "Ledger \<Rightarrow> nat \<Rightarrow> LedgerRecordKey list \<Rightarrow> LedgerHistoryError + (nat \<times> LedgerRecord) list" where
  "retained_from ledger index [] = Inr []"
| "retained_from ledger index (key # keys) =
     and_then (resolve_retained_record ledger index key) (\<lambda>retained.
     and_then (retained_from ledger (index + 1) keys) (\<lambda>rest. Inr (retained # rest)))"

section \<open>Balances as of a generation\<close>

datatype LedgerAsOfError =
    GenerationOutOfRange nat nat
  | History LedgerHistoryError
  | BalanceOverflow nat AccountId AssetId
  | CurrentBalanceMismatch AccountId AssetId int int

text \<open>The binary search of the sources, on legs sorted by asset and account.\<close>

definition entry_posting :: "JournalEntry \<Rightarrow> AccountId \<Rightarrow> AssetId \<Rightarrow> Posting option" where
  "entry_posting entry account asset = find (\<lambda>p. (asset_id p, account_id p) = (asset, account)) (postings entry)"

text \<open>A cursor into the members of a record is the list of those not yet visited.\<close>

fun next_record_amount :: "JournalEntry list \<Rightarrow> AccountId \<Rightarrow> AssetId \<Rightarrow> bool \<Rightarrow> int option \<times> JournalEntry list" where
  "next_record_amount [] account asset positive = (None, [])"
| "next_record_amount (entry # rest) account asset positive =
     (case entry_posting entry account asset of
        Some posting \<Rightarrow>
          if (0 < amount posting) = positive then (Some (amount posting), rest)
          else next_record_amount rest account asset positive
      | None \<Rightarrow> next_record_amount rest account asset positive)"

lemma next_record_amount_shorter:
  "next_record_amount members account asset positive = (Some v, rest) \<Longrightarrow> length rest < length members"
  by (induction members account asset positive arbitrary: rest rule: next_record_amount.induct)
    (fastforce split: option.splits if_splits)+

lemma next_record_amount_le:
  "next_record_amount members account asset positive = (x, rest) \<Longrightarrow> length rest \<le> length members"
  by (induction members account asset positive arbitrary: rest rule: next_record_amount.induct)
    (fastforce split: option.splits if_splits)+

definition next_amount ::
    "int \<Rightarrow> JournalEntry list \<Rightarrow> JournalEntry list \<Rightarrow> AccountId \<Rightarrow> AssetId \<Rightarrow> int option \<times> JournalEntry list \<times> JournalEntry list"
where
  "next_amount current negatives positives account asset =
     (if 0 \<le> current
      then case next_record_amount negatives account asset False of
             (Some v, rest) \<Rightarrow> (Some v, rest, positives)
           | (None, rest) \<Rightarrow>
               (case next_record_amount positives account asset True of (v, rest') \<Rightarrow> (v, rest, rest'))
      else case next_record_amount positives account asset True of
             (Some v, rest) \<Rightarrow> (Some v, negatives, rest)
           | (None, rest) \<Rightarrow>
               (case next_record_amount negatives account asset False of (v, rest') \<Rightarrow> (v, rest', rest)))"

lemma next_amount_shorter:
  "next_amount current negatives positives account asset = (Some v, ns, ps) \<Longrightarrow>
     length ns + length ps < length negatives + length positives"
  using next_record_amount_shorter [of negatives account asset False] next_record_amount_shorter [of positives account asset True]
    next_record_amount_le [of negatives account asset False] next_record_amount_le [of positives account asset True]
  by (fastforce simp: next_amount_def split: if_splits prod.splits option.splits)

function apply_cursors ::
    "nat \<Rightarrow> AccountId \<Rightarrow> AssetId \<Rightarrow> JournalEntry list \<Rightarrow> JournalEntry list \<Rightarrow> int \<Rightarrow> LedgerAsOfError + int"
where
  "apply_cursors sequence account asset negatives positives current =
     (case next_amount current negatives positives account asset of
        (None, _, _) \<Rightarrow> Inr current
      | (Some v, negatives', positives') \<Rightarrow>
          (case checked fits_i128 (current + v) of
             None \<Rightarrow> Inl (BalanceOverflow sequence account asset)
           | Some next_balance \<Rightarrow> apply_cursors sequence account asset negatives' positives' next_balance))"
  by pat_completeness auto
termination
  by (relation "measure (\<lambda>(s, a, b, ns, ps, c). length ns + length ps)")
    (auto dest: next_amount_shorter [OF sym])

declare apply_cursors.simps [simp del]

definition apply_record_balance :: "LedgerRecord \<Rightarrow> nat \<Rightarrow> AccountId \<Rightarrow> AssetId \<Rightarrow> int \<Rightarrow> LedgerAsOfError + int" where
  "apply_record_balance record sequence account asset current =
     apply_cursors sequence account asset (record_members record) (record_members record) current"

fun reconstruct ::
    "Ledger \<Rightarrow> nat \<Rightarrow> LedgerRecordKey list \<Rightarrow> AccountId \<Rightarrow> AssetId \<Rightarrow> int \<Rightarrow> LedgerAsOfError + int" where
  "reconstruct ledger index [] account asset current = Inr current"
| "reconstruct ledger index (key # keys) account asset current =
     (case resolve_retained_record ledger index key of
        Inl e \<Rightarrow> Inl (History e)
      | Inr (sequence, record) \<Rightarrow>
          and_then (apply_record_balance record sequence account asset current) (\<lambda>next_balance.
            reconstruct ledger (index + 1) keys account asset next_balance))"

definition try_balance_at :: "Ledger \<Rightarrow> nat \<Rightarrow> AccountId \<Rightarrow> AssetId \<Rightarrow> LedgerAsOfError + int" where
  "try_balance_at ledger generation account asset =
     and_then (ok_or (checked fits_u64 (length (ledger_journal ledger)))
                (History (SequenceOverflow (length (ledger_journal ledger) - 1)))) (\<lambda>current_generation.
     and_then (ensure (generation \<le> current_generation) (GenerationOutOfRange generation current_generation)) (\<lambda>_.
     and_then (ok_or (checked fits_usize generation) (History (SequenceOverflow (length (ledger_journal ledger))))) (\<lambda>record_limit.
     and_then (reconstruct ledger 0 (take record_limit (ledger_journal ledger)) account asset 0) (\<lambda>reconstructed.
       if generation = current_generation \<and> reconstructed \<noteq> balance ledger account asset
       then Inl (CurrentBalanceMismatch account asset reconstructed (balance ledger account asset))
       else Inr reconstructed))))"

section \<open>Reconstruction is exact\<close>

fun side_amounts :: "JournalEntry list \<Rightarrow> AccountId \<Rightarrow> AssetId \<Rightarrow> bool \<Rightarrow> int list" where
  "side_amounts [] account asset positive = []"
| "side_amounts (entry # rest) account asset positive =
     (case entry_posting entry account asset of
        None \<Rightarrow> side_amounts rest account asset positive
      | Some p \<Rightarrow> if (0 < amount p) = positive then amount p # side_amounts rest account asset positive
                  else side_amounts rest account asset positive)"

lemma next_record_amount_side:
  "case side_amounts members account asset positive of
     [] \<Rightarrow> next_record_amount members account asset positive = (None, [])
   | v # vs \<Rightarrow> \<exists>rest. next_record_amount members account asset positive = (Some v, rest) \<and>
       side_amounts rest account asset positive = vs"
  by (induction members account asset positive rule: side_amounts.induct) (auto split: option.splits list.splits)

definition as_of_error :: "nat \<Rightarrow> AccountId \<Rightarrow> AssetId \<Rightarrow> LedgerError + int \<Rightarrow> LedgerAsOfError + int" where
  "as_of_error sequence account asset result =
     (case result of Inl _ \<Rightarrow> Inl (BalanceOverflow sequence account asset) | Inr v \<Rightarrow> Inr v)"

lemma as_of_error_and_then:
  "as_of_error s a b (and_then (ok_or x e) f) =
     (case x of None \<Rightarrow> Inl (BalanceOverflow s a b) | Some v \<Rightarrow> as_of_error s a b (f v))"
  by (cases x) (simp_all add: as_of_error_def)

lemma apply_cursors_interleave:
  "apply_cursors sequence account asset ns ps current =
     as_of_error sequence account asset
       (interleave current (side_amounts ns account asset False) (side_amounts ps account asset True))"
proof (induction sequence account asset ns ps current rule: apply_cursors.induct)
  case (1 sequence account asset ns ps current)
  let ?ns = "side_amounts ns account asset False" and ?ps = "side_amounts ps account asset True"
  note n = next_record_amount_side [of ns account asset False] and p = next_record_amount_side [of ps account asset True]
  note unfolded = apply_cursors.simps [of sequence account asset ns ps current]
  show ?case
  proof (cases ?ns)
    case Nil
    show ?thesis
    proof (cases ?ps)
      case Nil': Nil
      then show ?thesis using n p Nil by (simp add: unfolded next_amount_def as_of_error_def)
    next
      case (Cons v vs)
      then obtain rest where rest: "next_record_amount ps account asset True = (Some v, rest)"
        "side_amounts rest account asset True = vs" using p by auto
      have none: "next_record_amount ns account asset False = (None, [])" using n Nil by simp
      show ?thesis
      proof (cases "0 \<le> current")
        case True
        then have next_v: "next_amount current ns ps account asset = (Some v, [], rest)"
          using rest none by (simp add: next_amount_def)
        show ?thesis
          using "1.IH" [OF next_v [symmetric] refl refl] rest(2) Nil Cons
          by (simp add: unfolded next_v as_of_error_and_then split: option.split)
      next
        case False
        then have next_v: "next_amount current ns ps account asset = (Some v, ns, rest)"
          using rest none by (simp add: next_amount_def)
        show ?thesis
          using "1.IH" [OF next_v [symmetric] refl refl] rest(2) Nil Cons
          by (simp add: unfolded next_v as_of_error_and_then split: option.split)
      qed
    qed
  next
    case (Cons u us)
    then obtain nrest where nrest: "next_record_amount ns account asset False = (Some u, nrest)"
      "side_amounts nrest account asset False = us" using n by auto
    show ?thesis
    proof (cases "0 \<le> current \<or> ?ps = []")
      case True
      have "\<exists>prest. next_amount current ns ps account asset = (Some u, nrest, prest) \<and> side_amounts prest account asset True = ?ps"
        using True nrest p by (auto simp: next_amount_def)
      then obtain prest where next_v: "next_amount current ns ps account asset = (Some u, nrest, prest)"
        and prest: "side_amounts prest account asset True = ?ps" by blast
      have "interleave current (u # us) ?ps =
          and_then (ok_or (checked fits_i128 (current + u)) ArithmeticOverflow) (\<lambda>c. interleave c us ?ps)"
        using True by (cases ?ps) auto
      then show ?thesis
        using "1.IH" [OF next_v [symmetric] refl refl] nrest(2) prest Cons
        by (simp add: unfolded next_v as_of_error_and_then split: option.split)
    next
      case False
      then obtain v vs where ps: "?ps = v # vs" by (cases ?ps) auto
      then obtain prest where prest: "next_record_amount ps account asset True = (Some v, prest)"
        "side_amounts prest account asset True = vs" using p by auto
      have next_v: "next_amount current ns ps account asset = (Some v, ns, prest)"
        using False prest by (simp add: next_amount_def)
      show ?thesis
        using "1.IH" [OF next_v [symmetric] refl refl] prest(2) ps Cons False
        by (simp add: unfolded next_v as_of_error_and_then split: option.split)
    qed
  qed
qed

lemma entry_posting_sum:
  assumes "entry_wf entry"
  shows "(case entry_posting entry account asset of None \<Rightarrow> 0 | Some p \<Rightarrow> amount p) = posting_sum (postings entry) (account, asset)"
    and "entry_posting entry account asset = Some p \<Longrightarrow> amount p \<noteq> 0 \<and> fits_i128 (amount p)"
proof -
  note wf = entry_wf_postings [OF assms]
  show "(case entry_posting entry account asset of None \<Rightarrow> 0 | Some p \<Rightarrow> amount p) = posting_sum (postings entry) (account, asset)"
  proof (cases "entry_posting entry account asset")
    case None
    then have "(account, asset) \<notin> posting_key ` set (postings entry)"
      by (auto simp: entry_posting_def find_None_iff posting_key_def)
    then show ?thesis using None by (simp add: posting_sum_absent)
  next
    case (Some p)
    then have "p \<in> set (postings entry)" "posting_key p = (account, asset)"
      by (auto simp: entry_posting_def find_Some_iff posting_key_def)
    then show ?thesis using posting_sum_member [OF wf(3), of p] Some by simp
  qed
  assume "entry_posting entry account asset = Some p"
  then have "p \<in> set (postings entry)" by (auto simp: entry_posting_def find_Some_iff)
  then show "amount p \<noteq> 0 \<and> fits_i128 (amount p)" using wf(1,2) by (simp add: typed_postings_def)
qed

lemma side_amounts_sum:
  assumes "\<forall>entry \<in> set members. entry_wf entry"
  shows "sum_list (side_amounts members account asset False) + sum_list (side_amounts members account asset True) =
      effect members (account, asset)"
    and "\<forall>v \<in> set (side_amounts members account asset False). v < 0 \<and> fits_i128 v"
    and "\<forall>v \<in> set (side_amounts members account asset True). 0 < v \<and> fits_i128 v"
proof -
  have "sum_list (side_amounts members account asset False) + sum_list (side_amounts members account asset True) =
      effect members (account, asset) \<and>
    (\<forall>v \<in> set (side_amounts members account asset False). v < 0 \<and> fits_i128 v) \<and>
    (\<forall>v \<in> set (side_amounts members account asset True). 0 < v \<and> fits_i128 v)"
    using assms
  proof (induction members)
    case (Cons entry members)
    then have "entry_wf entry" by simp
    note e = entry_posting_sum [OF this, of account asset]
    show ?case
    proof (cases "entry_posting entry account asset")
      case None
      then show ?thesis using Cons e(1) by simp
    next
      case (Some p)
      then show ?thesis using Cons e(1) e(2) [OF Some] by (cases "0 < amount p") auto
    qed
  qed simp
  then show "sum_list (side_amounts members account asset False) + sum_list (side_amounts members account asset True) =
      effect members (account, asset)"
    "\<forall>v \<in> set (side_amounts members account asset False). v < 0 \<and> fits_i128 v"
    "\<forall>v \<in> set (side_amounts members account asset True). 0 < v \<and> fits_i128 v" by blast+
qed

lemma apply_record_balance_exact:
  assumes "\<forall>entry \<in> set (record_members record). entry_wf entry" "fits_i128 current"
  shows "apply_record_balance record sequence account asset current =
    (if fits_i128 (current + effect (record_members record) (account, asset))
     then Inr (current + effect (record_members record) (account, asset))
     else Inl (BalanceOverflow sequence account asset))"
  using interleave_exact [OF assms(2) side_amounts_sum(2) [OF assms(1)] side_amounts_sum(3) [OF assms(1)], of account asset account asset]
    side_amounts_sum(1) [OF assms(1), of account asset]
  by (simp add: apply_record_balance_def apply_cursors_interleave as_of_error_def checked_def ok_or_def add.assoc)

section \<open>Histories whose every prefix is valid\<close>

definition sound_history :: "LedgerLimitsSpec \<Rightarrow> LedgerRecord list \<Rightarrow> bool" where
  "sound_history limits h \<longleftrightarrow> (\<forall>n. valid_history limits (take n h))"

lemma sound_valid: "sound_history limits h \<Longrightarrow> valid_history limits h"
  by (metis order_refl sound_history_def take_all)

lemma sound_append: "sound_history limits h \<Longrightarrow> valid_history limits (h @ [r]) \<Longrightarrow> sound_history limits (h @ [r])"
  by (auto simp: sound_history_def take_Cons' not_le)

lemma reachable_sound:
  assumes "ledger_reachable limits ledger" "limits_wf limits"
  shows "\<exists>h. sound_history limits h \<and> ledger = ledger_of limits h"
  using assms
proof (induction rule: ledger_reachable.induct)
  case (started reserve ledger)
  then have "ledger = ledger_of limits []" using try_with_limits_ledger_of by blast
  then show ?case by (intro exI [of _ "[]"]) (simp add: sound_history_def)
next
  case (posted ledger entry space res ledger')
  then show ?case using entry_event.step_history sound_valid sound_append by metis
next
  case (corrected ledger c space cres ledger')
  then show ?case using correction_event.step_history sound_valid sound_append by metis
next
  case (batched ledger batch space bres ledger')
  then show ?case using batch_event.step_history sound_valid sound_append by metis
qed

section \<open>Resolving the journal\<close>

lemma resolve_retained:
  assumes "valid_history limits h" "i < length h" "limits_wf limits"
  shows "resolve_retained_record (ledger_of limits h) i (record_key (h ! i)) = Inr (i + 1, h ! i)"
proof -
  let ?L = "ledger_of limits h" and ?r = "h ! i"
  have mem: "?r \<in> set h" using assms(2) by simp
  have idx: "record_index h (transaction_id entry) = i + 1" if "entry \<in> set (record_members ?r)" for entry
    using record_index_member [OF valid_history_distinct [OF assms(1)] assms(2)] that by simp
  have res: "resolve_history_transaction ?L (i + 1) (transaction_id entry) expected = Inr entry"
    if "entry \<in> set (record_members ?r)" "expected = None \<or> expected = Some entry" for entry expected
    using record_posted(1) [OF assms(1) mem that(1)] idx [OF that(1)] that(2)
    by (auto simp: resolve_history_transaction_def)
  have members: "resolve_batch_members ?L (i + 1) es = Inr ()" if "set es \<subseteq> set (record_members ?r)" for es
    using that by (induction es) (auto simp: res [simplified])
  have "length h \<le> max_records limits" using assms(1) by (simp add: valid_history_def within_limits_def)
  then have "checked fits_u64 i = Some i" "checked fits_u64 (i + 1) = Some (i + 1)"
    using assms(2,3) by (simp_all add: limits_wf_def fits_u64_def checked_def)
  then have seq: "Option.bind (checked fits_u64 i) (\<lambda>v. checked fits_u64 (v + 1)) = Some (i + 1)" by simp
  show ?thesis
  proof (cases ?r)
    case (RecordEntry entry)
    then show ?thesis using res [of entry None] by (simp add: resolve_retained_record_def seq [simplified])
  next
    case (RecordCorrection c)
    then show ?thesis
      using res [of "correction_reversal c" None] res [of "correction_replacement c" None]
      by (simp add: resolve_retained_record_def seq [simplified])
  next
    case (RecordBatch batch)
    then show ?thesis using members [of "batch_entries batch"] by (simp add: resolve_retained_record_def seq [simplified])
  qed
qed

lemma reconstruct_exact:
  assumes "sound_history limits h" "limits_wf limits" "n \<le> length h" "i \<le> n"
  shows "reconstruct (ledger_of limits h) i (drop i (take n (map record_key h))) account asset (effect (flat (take i h)) (account, asset)) =
    Inr (effect (flat (take n h)) (account, asset))"
  using assms(4)
proof (induction "n - i" arbitrary: i)
  case (Suc k)
  then have i: "i < n" "i < length h" using assms(3) by auto
  have valid: "valid_history limits h" by (rule sound_valid [OF assms(1)])
  have members: "flat (take (i + 1) h) = flat (take i h) @ record_members (h ! i)"
    using i by (simp add: take_Suc_conv_app_nth)
  have wf: "\<forall>entry \<in> set (record_members (h ! i)). entry_wf entry"
  proof
    fix entry assume "entry \<in> set (record_members (h ! i))"
    then have "entry \<in> set (flat h)" using i(2) nth_mem [of i h] unfolding flat_def by auto
    then show "entry_wf entry" using valid legal_from_wf by (auto simp: valid_history_def legal_def)
  qed
  have fits: "fits_i128 (effect (flat (take m h)) key)" for m key
    using assms(1) by (simp add: sound_history_def valid_history_def)
  have step: "apply_record_balance (h ! i) (i + 1) account asset (effect (flat (take i h)) (account, asset)) =
      Inr (effect (flat (take (i + 1) h)) (account, asset))"
    using apply_record_balance_exact [OF wf fits] fits [of "i + 1" "(account, asset)"] unfolding members by simp
  have "drop i (take n (map record_key h)) = record_key (h ! i) # drop (i + 1) (take n (map record_key h))"
    using i by (simp add: Cons_nth_drop_Suc [symmetric])
  then show ?case
    using resolve_retained [OF valid i(2) assms(2)] step Suc.hyps(1) [of "i + 1"] Suc.hyps(2) i(1) by simp
qed simp

section \<open>Trial balance\<close>

record AssetTrialBalance =
  trial_asset :: AssetId
  trial_positive :: LedgerMagnitude
  trial_negative :: LedgerMagnitude

definition trial_is_balanced :: "AssetTrialBalance \<Rightarrow> bool" where
  "trial_is_balanced row \<longleftrightarrow> trial_positive row = trial_negative row"

datatype LedgerQueryResource = TrialBalanceTerms | TrialBalanceOutput
datatype LedgerQueryError = QueryReservationFailed LedgerQueryResource nat

text \<open>The entries of the balance index in its iteration order, as \<open>(asset, amount)\<close> terms sorted by asset.\<close>

definition trial_terms :: "BalanceUpdate list \<Rightarrow> (AssetId \<times> int) list" where
  "trial_terms balances =
     sort_key fst (map (\<lambda>((account, asset), v). (asset, v)) (filter (\<lambda>(key, v). v \<noteq> 0) balances))"

function trial_rows :: "(AssetId \<times> int) list \<Rightarrow> AssetTrialBalance list" where
  "trial_rows [] = []"
| "trial_rows ((asset, v) # terms) =
     (let totals = fold (\<lambda>(_, v) totals. totals_add totals v)
            ((asset, v) # takeWhile (\<lambda>(other, _). other = asset) terms) default_totals
      in \<lparr>trial_asset = asset, trial_positive = positive_total totals, trial_negative = negative_total totals\<rparr> #
         trial_rows (dropWhile (\<lambda>(other, _). other = asset) terms))"
  by pat_completeness auto
termination
  by (relation "measure length") (auto simp: length_dropWhile_le less_Suc_eq_le)

fun window_changes :: "(AssetId \<times> int) list \<Rightarrow> nat" where
  "window_changes (p # q # rest) = (if fst p \<noteq> fst q then 1 else 0) + window_changes (q # rest)"
| "window_changes _ = 0"

definition try_trial_balance ::
    "(LedgerQueryResource \<Rightarrow> nat \<Rightarrow> bool) \<Rightarrow> BalanceUpdate list \<Rightarrow> LedgerQueryError + AssetTrialBalance list"
where
  "try_trial_balance reserve balances =
     and_then (ensure (reserve TrialBalanceTerms (length balances))
                (QueryReservationFailed TrialBalanceTerms (length balances))) (\<lambda>_.
     let terms = trial_terms balances in
     and_then (ok_or (checked fits_usize (window_changes terms + (if terms = [] then 0 else 1)))
                (QueryReservationFailed TrialBalanceOutput (2 ^ 64 - 1))) (\<lambda>asset_count.
     and_then (ensure (reserve TrialBalanceOutput asset_count) (QueryReservationFailed TrialBalanceOutput asset_count)) (\<lambda>_.
       Inr (trial_rows terms))))"

section \<open>The trial balance is balanced\<close>

lemma totals_fold:
  assumes "totals_wf totals" "\<forall>(a, v) \<in> set terms. fits_i128 v"
  shows "totals_wf (fold (\<lambda>(_, v) totals. totals_add totals v) terms totals) \<and>
    net_total (fold (\<lambda>(_, v) totals. totals_add totals v) terms totals) = net_total totals + sum_list (map snd terms)"
  using assms
proof (induction terms arbitrary: totals)
  case (Cons t terms)
  then show ?case using totals_add [of totals "snd t"] by (auto simp: case_prod_beta)
qed simp

definition asset_term_sum :: "(AssetId \<times> int) list \<Rightarrow> AssetId \<Rightarrow> int" where
  "asset_term_sum terms asset = sum_list (map snd (filter (\<lambda>(other, _). other = asset) terms))"

lemma asset_term_sum_append:
  "asset_term_sum (xs @ ys) asset = asset_term_sum xs asset + asset_term_sum ys asset"
  by (simp add: asset_term_sum_def)

lemma sorted_dropWhile: "sorted (map fst xs) \<Longrightarrow> sorted (map fst (dropWhile P xs))"
  by (induction xs) auto

lemma trial_rows_balanced:
  assumes "sorted (map fst terms)" "\<forall>(a, v) \<in> set terms. fits_i128 v" "\<And>asset. asset_term_sum terms asset = 0"
  shows "\<forall>row \<in> set (trial_rows terms). trial_is_balanced row"
  using assms
proof (induction terms rule: trial_rows.induct)
  case (2 asset v terms)
  let ?group = "(asset, v) # takeWhile (\<lambda>(other, _). other = asset) terms"
    and ?rest = "dropWhile (\<lambda>(other, _). other = asset) terms"
  have split: "terms = takeWhile (\<lambda>(other, _). other = asset) terms @ ?rest" by simp
  have later: "\<forall>(other, _) \<in> set ?rest. other \<noteq> asset"
  proof (cases ?rest)
    case (Cons t ts)
    then have "fst t \<noteq> asset" using hd_dropWhile [of "\<lambda>(other, _). other = asset" terms] by (auto simp: case_prod_beta)
    moreover have "sorted (map fst (t # ts))"
      using sorted_dropWhile [of terms] "2.prems"(1) by (simp flip: Cons)
    moreover have "t \<in> set terms" using Cons set_dropWhileD [of t] by (metis list.set_intros(1))
    then have "asset \<le> fst t" using "2.prems"(1) by auto
    ultimately show ?thesis unfolding Cons by fastforce
  next
    case Nil
    show ?thesis unfolding Nil by simp
  qed
  have group: "\<forall>(other, _) \<in> set ?group. other = asset" by (auto dest: set_takeWhileD)
  have sums: "asset_term_sum ((asset, v) # terms) other =
      (if other = asset then sum_list (map snd ?group) else asset_term_sum ?rest other)" for other
  proof -
    have "asset_term_sum ((asset, v) # terms) other = asset_term_sum ?group other + asset_term_sum ?rest other"
      using asset_term_sum_append [of ?group ?rest other] by simp
    moreover have "asset_term_sum ?group other = (if other = asset then sum_list (map snd ?group) else 0)"
    proof -
      have "filter (\<lambda>(a, _). a = other) ?group = (if other = asset then ?group else [])"
        using group by (auto simp: filter_id_conv filter_empty_conv)
      then show ?thesis by (simp add: asset_term_sum_def)
    qed
    moreover have "asset_term_sum ?rest asset = 0"
    proof -
      have "filter (\<lambda>(a, _). a = asset) ?rest = []" using later by (auto simp: filter_empty_conv)
      then show ?thesis by (simp add: asset_term_sum_def)
    qed
    ultimately show ?thesis by simp
  qed
  have gsum: "sum_list (map snd ?group) = 0" using sums [of asset] "2.prems"(3) [of asset] by simp
  have fits: "\<forall>(a, v) \<in> set ?group. fits_i128 v" using "2.prems"(2) by (auto dest: set_takeWhileD)
  have rest: "\<forall>row \<in> set (trial_rows ?rest). trial_is_balanced row"
  proof (rule "2.IH")
    show "sorted (map fst ?rest)" using sorted_dropWhile [of terms] "2.prems"(1) by simp
    show "\<forall>(a, v) \<in> set ?rest. fits_i128 v" using "2.prems"(2) by (auto dest: set_dropWhileD)
    fix other
    show "asset_term_sum ?rest other = 0"
    proof (cases "other = asset")
      case True
      have "filter (\<lambda>(a, _). a = asset) ?rest = []" using later by (auto simp: filter_empty_conv)
      then show ?thesis using True by (simp add: asset_term_sum_def)
    next
      case False
      then show ?thesis using sums [of other] "2.prems"(3) [of other] by simp
    qed
  qed (simp add: Let_def)
  have "totals_balanced (fold (\<lambda>(_, v) totals. totals_add totals v) ?group default_totals)"
    using totals_fold [OF default_totals(1) fits] gsum totals_balanced_iff by auto
  then show ?case using rest by (simp add: Let_def trial_is_balanced_def totals_balanced_def)
qed simp


definition iteration_of :: "BalanceUpdate list \<Rightarrow> Ledger \<Rightarrow> bool" where
  "iteration_of balances ledger \<longleftrightarrow> distinct (map fst balances) \<and> map_of balances = ledger_balances ledger"

lemma trial_terms_total:
  assumes "iteration_of balances ledger"
  shows "asset_term_sum (trial_terms balances) asset = asset_total ledger asset"
proof -
  have d: "distinct (map fst balances)" and m: "map_of balances = ledger_balances ledger"
    using assms by (simp_all add: iteration_of_def)
  let ?b = "map (\<lambda>((account, asset), v). (asset, v)) (filter (\<lambda>(key, v). v \<noteq> 0) balances)"
  have "asset_term_sum (trial_terms balances) asset = asset_term_sum ?b asset"
    unfolding asset_term_sum_def trial_terms_def by (simp add: filter_sort flip: sum_mset_sum_list)
  also have "\<dots> = (\<Sum>(key, v) \<leftarrow> balances. if snd key = asset then v else 0)"
    by (induction balances) (auto simp: asset_term_sum_def)
  also have "\<dots> = (\<Sum>(key, v) \<in> set balances. if snd key = asset then v else 0)"
    using d by (simp add: sum_list_distinct_conv_sum_set distinct_map)
  also have "\<dots> = (\<Sum>key \<in> fst ` set balances. if snd key = asset then the (map_of balances key) else 0)"
  proof -
    have inj: "inj_on fst (set balances)" using d by (simp add: distinct_map)
    have "(case p of (key, v) \<Rightarrow> if snd key = asset then v else 0) =
        (if snd (fst p) = asset then the (map_of balances (fst p)) else 0)" if "p \<in> set balances" for p
      using map_of_is_SomeI [OF d, of "fst p" "snd p"] that by (cases p) simp
    then show ?thesis unfolding sum.reindex [OF inj] comp_def by (rule sum.cong [OF refl])
  qed
  also have "fst ` set balances = dom (ledger_balances ledger)" by (simp flip: m add: dom_map_of_conv_image_fst)
  also have "(\<Sum>key \<in> dom (ledger_balances ledger). if snd key = asset then the (map_of balances key) else 0) =
      asset_total ledger asset"
  proof -
    have fin: "finite (dom (ledger_balances ledger))" by (simp flip: m add: finite_dom_map_of)
    show ?thesis
      unfolding asset_total_def m sum.inter_filter [OF fin, symmetric]
      by (rule sum.cong) (auto simp: balance_in_def)
  qed
  finally show ?thesis .
qed

lemma window_changes_le: "window_changes terms \<le> length terms - 1"
  by (induction terms rule: window_changes.induct) auto

lemma trial_balance_ok:
  assumes "valid_history limits h" "limits_wf limits" "iteration_of balances (ledger_of limits h)"
    and "\<And>resource n. reserve resource n"
  shows "\<exists>rows. try_trial_balance reserve balances = Inr rows \<and> (\<forall>row \<in> set rows. trial_is_balanced row)"
proof -
  let ?terms = "trial_terms balances"
  have m: "map_of balances = balances_of (effect (flat h))" and d: "distinct (map fst balances)"
    using assms(3) by (simp_all add: iteration_of_def)
  have "length balances = card (dom (balances_of (effect (flat h))))"
    using distinct_card [OF d] by (simp flip: m add: dom_map_of_conv_image_fst)
  then have "length balances \<le> max_balance_keys limits"
    using assms(1) by (simp add: dom_balances_of valid_history_def within_limits_def)
  moreover have "length ?terms \<le> length balances" by (simp add: trial_terms_def)
  ultimately have "checked fits_usize (window_changes ?terms + (if ?terms = [] then 0 else 1)) =
      Some (window_changes ?terms + (if ?terms = [] then 0 else 1))"
    using assms(2) window_changes_le [of ?terms] by (cases ?terms) (auto simp: limits_wf_def fits_u64_def checked_def)
  then have ok: "try_trial_balance reserve balances = Inr (trial_rows ?terms)"
    using assms(4) by (simp only: try_trial_balance_def Let_def) simp
  have "fits_i128 v" if "(asset, v) \<in> set ?terms" for asset v
  proof -
    have "\<exists>account. ((account, asset), v) \<in> set balances" using that by (force simp: trial_terms_def)
    then obtain account where "((account, asset), v) \<in> set balances" ..
    then have "balances_of (effect (flat h)) (account, asset) = Some v"
      using map_of_is_SomeI [OF d] by (simp flip: m)
    then have "v = effect (flat h) (account, asset)" by (auto simp: balances_of_def split: if_splits)
    then show ?thesis using assms(1) by (simp add: valid_history_def)
  qed
  then have fits: "\<forall>(a, v) \<in> set ?terms. fits_i128 v" by blast
  have sums: "asset_term_sum ?terms asset = 0" for asset
    using trial_terms_total [OF assms(3)] asset_total_ledger_of [OF assms(1)] by simp
  have "sorted (map fst ?terms)" by (simp add: trial_terms_def)
  from ok trial_rows_balanced [OF this fits sums] show ?thesis by blast
qed

section \<open>Properties\<close>

text \<open>
  C11. A balance as of any committed generation is the effect of exactly the records up to it: for every
  reachable ledger there is one history such that each generation up to its length yields the sum
  of its first records, a later one is refused, and the newest one agrees with the balance index.
\<close>

theorem balance_as_of_exact:
  assumes "ledger_reachable limits ledger" "limits_wf limits"
  shows "\<exists>h. ledger = ledger_of limits h \<and> (\<forall>generation account asset.
    try_balance_at ledger generation account asset =
      (if generation \<le> length h then Inr (effect (flat (take generation h)) (account, asset))
       else Inl (GenerationOutOfRange generation (length h))))"
proof -
  obtain h where h: "sound_history limits h" "ledger = ledger_of limits h"
    using reachable_sound [OF assms] by blast
  have "length h \<le> max_records limits"
    using sound_valid [OF h(1)] by (simp add: valid_history_def within_limits_def)
  then have fits: "checked fits_u64 n = Some n" if "n \<le> length h" for n
    using assms(2) that by (simp add: limits_wf_def fits_u64_def checked_def)
  have "try_balance_at ledger generation account asset =
      (if generation \<le> length h then Inr (effect (flat (take generation h)) (account, asset))
       else Inl (GenerationOutOfRange generation (length h)))" for generation account asset
  proof (cases "generation \<le> length h")
    case True
    have "reconstruct ledger 0 (take generation (map record_key h)) account asset 0 =
        Inr (effect (flat (take generation h)) (account, asset))"
      using reconstruct_exact [OF h(1) assms(2) True, of 0 account asset] by (simp add: h(2))
    then show ?thesis
      using True fits [OF True] fits [OF order_refl]
      by (simp add: try_balance_at_def h(2) balance_def)
  next
    case False
    then show ?thesis using fits [OF order_refl] by (simp add: try_balance_at_def h(2))
  qed
  then show ?thesis using h(2) by blast
qed

theorem balance_as_of_exact_witness:
  "\<exists>h. ledger_of sample_limits [] = ledger_of sample_limits h \<and>
     try_balance_at (ledger_of sample_limits []) 0 1 1 = Inr (effect (flat (take 0 h)) (1, 1))"
proof -
  from balance_as_of_exact [OF sample_reachable sample_limits_wf] obtain h where
    h: "ledger_of sample_limits [] = ledger_of sample_limits h"
      "\<And>generation account asset. try_balance_at (ledger_of sample_limits []) generation account asset =
        (if generation \<le> length h then Inr (effect (flat (take generation h)) (account, asset))
         else Inl (GenerationOutOfRange generation (length h)))"
    by blast
  show ?thesis by (rule exI [of _ h]) (simp only: h(2) h(1) [symmetric], simp)
qed

text \<open>
  The trial balance of a reachable ledger is always balanced: in whatever order the balance index is
  iterated, the positive and the negative total of every asset are the same magnitude.
\<close>

theorem trial_balance_balanced:
  assumes "ledger_reachable limits ledger" "limits_wf limits" "iteration_of balances ledger"
    and "\<And>resource n. reserve resource n"
  shows "\<exists>rows. try_trial_balance reserve balances = Inr rows \<and> (\<forall>row \<in> set rows. trial_is_balanced row)"
proof -
  obtain h where h: "valid_history limits h" "ledger = ledger_of limits h"
    using reachable_history [OF assms(1,2)] by blast
  show ?thesis by (rule trial_balance_ok [OF h(1) assms(2) assms(3) [unfolded h(2)] assms(4)])
qed

theorem trial_balance_balanced_witness:
  "\<exists>rows. try_trial_balance (\<lambda>_ _. True) [] = Inr rows \<and> (\<forall>row \<in> set rows. trial_is_balanced row)"
proof -
  have "iteration_of [] (ledger_of sample_limits [])" by (simp add: iteration_of_def balances_of_def fun_eq_iff)
  from trial_balance_balanced [OF sample_reachable sample_limits_wf this] show ?thesis by simp
qed

end
