(* ===== verification/LedgerCheckpoint.thy ===== *)
theory LedgerCheckpoint
  imports LedgerQueries
begin

text \<open>
  The audit of the ledger and its checkpoints (\<open>src/src/ledger.rs\<close>): the structural checks, resolving
  and replaying the journal, capturing canonical balances with all records, validating a decoded
  checkpoint under limits computed from its records, and restoring a ledger from it.
\<close>

section \<open>Audit: materialise and replay\<close>

text \<open>The sources format the violation as text; the model keeps its cause.\<close>

datatype LedgerInvariantViolation =
    JournalExceedsLimit
  | ZeroBalanceRetained
  | PostingCardinality
  | RecordCardinality
  | EntryCardinalityOverflow
  | EntryIndexLength
  | GenerationOverflow
  | HistoryViolation LedgerHistoryError
  | ReplayFailed LedgerError
  | GroupingDiffers
  | BalancesDiffer
  | ReversalsDiffer
  | PostingCountDiffers
  | PeriodBoundaryDiffers
  | BookingTimestampDiffers
  | TrialBalanceNotZero AssetId

datatype LedgerCheckpointCaptureResource =
    CaptureRecords
  | CaptureBalances
  | AuditTrialBalanceTerms
  | AuditTrialBalanceOutput

datatype LedgerCheckpointCaptureError =
    CaptureInvalid LedgerInvariantViolation
  | CaptureConstruction LedgerConstructionError
  | CaptureReservationFailed LedgerCheckpointCaptureResource nat

text \<open>
  The structural checks. The maxima and the layout of the three hash indexes, which the sources check
  first, belong to the representation of the maps (theory \<open>BoundedHash\<close>); the maps here have none.
  The entries of the transaction index are given in iteration order.
\<close>

fun count_entry_postings :: "nat \<Rightarrow> PostedEntry list \<Rightarrow> nat \<Rightarrow> nat option" where
  "count_entry_postings maximum [] n = Some n"
| "count_entry_postings maximum (posted # rest) n =
     (if maximum < length (postings (posted_entry posted)) then None
      else Option.bind (checked fits_usize (n + length (postings (posted_entry posted)))) (count_entry_postings maximum rest))"

fun count_transactions :: "LedgerRecordKey list \<Rightarrow> nat \<Rightarrow> nat option" where
  "count_transactions [] n = Some n"
| "count_transactions (key # keys) n =
     Option.bind (checked fits_usize (n + transaction_count key)) (count_transactions keys)"

definition validate_resource_invariants ::
    "BalanceUpdate list \<Rightarrow> PostedEntry list \<Rightarrow> Ledger \<Rightarrow> LedgerInvariantViolation + unit"
where
  "validate_resource_invariants balances entries ledger =
     (let limits = ledger_limits ledger in
      and_then (ensure (length (ledger_journal ledger) \<le> max_records limits) JournalExceedsLimit) (\<lambda>_.
      and_then (ensure (list_all (\<lambda>(_, v). v \<noteq> 0) balances) ZeroBalanceRetained) (\<lambda>_.
      and_then (ensure (count_entry_postings (max_postings_per_transaction limits) entries 0 =
                    Some (ledger_retained_postings ledger) \<and>
                  ledger_retained_postings ledger \<le> max_retained_postings limits) PostingCardinality) (\<lambda>_.
      and_then (ensure (list_all (\<lambda>key. transaction_count key \<le> max_transactions_per_record limits)
                  (ledger_journal ledger)) RecordCardinality) (\<lambda>_.
      and_then (ok_or (count_transactions (ledger_journal ledger) 0) EntryCardinalityOverflow) (\<lambda>expected.
        ensure (length entries = expected) EntryIndexLength))))))"

fun materialize_from :: "Ledger \<Rightarrow> nat \<Rightarrow> LedgerRecordKey list \<Rightarrow> LedgerCheckpointCaptureError + LedgerRecord list" where
  "materialize_from ledger index [] = Inr []"
| "materialize_from ledger index (key # keys) =
     (case resolve_retained_record ledger index key of
        Inl e \<Rightarrow> Inl (CaptureInvalid (HistoryViolation e))
      | Inr (_, record) \<Rightarrow>
          and_then (materialize_from ledger (index + 1) keys) (\<lambda>rest. Inr (record # rest)))"

definition materialize_audit_records :: "(LedgerCheckpointCaptureResource \<Rightarrow> nat \<Rightarrow> bool) \<Rightarrow> Ledger \<Rightarrow> LedgerCheckpointCaptureError + LedgerRecord list" where
  "materialize_audit_records reserve_records ledger =
     and_then (ensure (reserve_records CaptureRecords (length (ledger_journal ledger)))
                (CaptureReservationFailed CaptureRecords (length (ledger_journal ledger)))) (\<lambda>_.
       materialize_from ledger 0 (ledger_journal ledger))"

definition apply_record :: "reserve \<Rightarrow> Ledger \<Rightarrow> LedgerRecord \<Rightarrow> LedgerError + bool \<times> Ledger" where
  "apply_record reserve ledger record =
     (case record of
        RecordEntry entry \<Rightarrow>
          (case post reserve ledger entry of (Inl e, _) \<Rightarrow> Inl e | (Inr rc, ledger') \<Rightarrow> Inr (post_replayed rc, ledger'))
      | RecordCorrection c \<Rightarrow>
          (case correct reserve ledger c of (Inl e, _) \<Rightarrow> Inl e | (Inr rc, ledger') \<Rightarrow> Inr (correction_replayed rc, ledger'))
      | RecordBatch batch \<Rightarrow>
          (case post_batch reserve ledger batch of (Inl e, _) \<Rightarrow> Inl e | (Inr rc, ledger') \<Rightarrow> Inr (batch_replayed rc, ledger')))"

fun replay_records :: "reserve \<Rightarrow> LedgerRecord list \<Rightarrow> Ledger \<Rightarrow> LedgerCheckpointCaptureError + Ledger" where
  "replay_records reserve [] ledger = Inr ledger"
| "replay_records reserve (record # rest) ledger =
     (case apply_record reserve ledger record of
        Inl e \<Rightarrow> Inl (CaptureInvalid (ReplayFailed e))
      | Inr (_, ledger') \<Rightarrow> replay_records reserve rest ledger')"

definition replay_audit_records ::
    "(LedgerResource \<Rightarrow> nat \<Rightarrow> bool) \<Rightarrow> reserve \<Rightarrow> Ledger \<Rightarrow> LedgerRecord list \<Rightarrow> LedgerCheckpointCaptureError + Ledger"
where
  "replay_audit_records reserve_layout reserve ledger records =
     (case try_with_limits reserve_layout (ledger_limits ledger) of
        Inl e \<Rightarrow> Inl (CaptureConstruction e)
      | Inr replayed \<Rightarrow> replay_records reserve records replayed)"

definition validate_replayed_state :: "Ledger \<Rightarrow> Ledger \<Rightarrow> LedgerCheckpointCaptureError + unit" where
  "validate_replayed_state ledger replayed =
     (if ledger_journal ledger \<noteq> ledger_journal replayed then Inl (CaptureInvalid GroupingDiffers)
      else if ledger_balances ledger \<noteq> ledger_balances replayed then Inl (CaptureInvalid BalancesDiffer)
      else if ledger_reversals ledger \<noteq> ledger_reversals replayed then Inl (CaptureInvalid ReversalsDiffer)
      else if ledger_retained_postings ledger \<noteq> ledger_retained_postings replayed then Inl (CaptureInvalid PostingCountDiffers)
      else if ledger_closed_through ledger \<noteq> ledger_closed_through replayed then Inl (CaptureInvalid PeriodBoundaryDiffers)
      else if ledger_last_recorded_at ledger \<noteq> ledger_last_recorded_at replayed
      then Inl (CaptureInvalid BookingTimestampDiffers)
      else Inr ())"

text \<open>The allocator of the audit, one field for each kind of storage it asks for.\<close>

record AuditMemory =
  memory_layout :: "LedgerResource \<Rightarrow> nat \<Rightarrow> bool"
  memory_event :: reserve
  memory_capture :: "LedgerCheckpointCaptureResource \<Rightarrow> nat \<Rightarrow> bool"
  memory_query :: "LedgerQueryResource \<Rightarrow> nat \<Rightarrow> bool"

fun capture_resource :: "LedgerQueryResource \<Rightarrow> LedgerCheckpointCaptureResource" where
  "capture_resource TrialBalanceTerms = AuditTrialBalanceTerms"
| "capture_resource TrialBalanceOutput = AuditTrialBalanceOutput"

definition validate_for_checkpoint ::
    "AuditMemory \<Rightarrow> BalanceUpdate list \<Rightarrow> PostedEntry list \<Rightarrow> Ledger \<Rightarrow> LedgerCheckpointCaptureError + LedgerRecord list"
where
  "validate_for_checkpoint memory balances entries ledger =
     and_then (map_error CaptureInvalid (validate_resource_invariants balances entries ledger)) (\<lambda>_.
     and_then (materialize_audit_records (memory_capture memory) ledger) (\<lambda>records.
     and_then (replay_audit_records (memory_layout memory) (memory_event memory) ledger records) (\<lambda>replayed.
     and_then (validate_replayed_state ledger replayed) (\<lambda>_.
     case try_trial_balance (memory_query memory) balances of
       Inl (QueryReservationFailed resource maximum) \<Rightarrow>
         Inl (CaptureReservationFailed (capture_resource resource) maximum)
     | Inr rows \<Rightarrow>
         (case find (\<lambda>row. \<not> trial_is_balanced row) rows of
            Some row \<Rightarrow> Inl (CaptureInvalid (TrialBalanceNotZero (trial_asset row)))
          | None \<Rightarrow> Inr records)))))"

definition validate :: "AuditMemory \<Rightarrow> BalanceUpdate list \<Rightarrow> PostedEntry list \<Rightarrow> Ledger \<Rightarrow> LedgerCheckpointCaptureError + unit" where
  "validate memory balances entries ledger =
     and_then (validate_for_checkpoint memory balances entries ledger) (\<lambda>_. Inr ())"

section \<open>Checkpoints\<close>

record LedgerBalance =
  balance_account :: AccountId
  balance_asset :: AssetId
  balance_amount :: int

record LedgerCheckpoint =
  checkpoint_generation :: nat
  checkpoint_balances :: "LedgerBalance list"
  checkpoint_records :: "LedgerRecord list"

definition balance_order :: "LedgerBalance \<Rightarrow> AssetId \<times> AccountId" where
  "balance_order b = (balance_asset b, balance_account b)"

definition canonical_balances :: "BalanceUpdate list \<Rightarrow> LedgerBalance list" where
  "canonical_balances balances =
     sort_key balance_order (map (\<lambda>((account, asset), v).
       \<lparr>balance_account = account, balance_asset = asset, balance_amount = v\<rparr>) (filter (\<lambda>(_, v). v \<noteq> 0) balances))"

definition checkpoint ::
    "AuditMemory \<Rightarrow> BalanceUpdate list \<Rightarrow> PostedEntry list \<Rightarrow> Ledger \<Rightarrow> LedgerCheckpointCaptureError + LedgerCheckpoint"
where
  "checkpoint memory balances entries ledger =
     and_then (validate_for_checkpoint memory balances entries ledger) (\<lambda>records.
     and_then (ok_or (checked fits_u64 (length (ledger_journal ledger))) (CaptureInvalid GenerationOverflow)) (\<lambda>generation.
     and_then (ensure (memory_capture memory CaptureBalances (length balances))
                (CaptureReservationFailed CaptureBalances (length balances))) (\<lambda>_.
       Inr \<lparr>checkpoint_generation = generation, checkpoint_balances = canonical_balances balances,
            checkpoint_records = records\<rparr>)))"

datatype LedgerCheckpointError =
    GenerationMismatch nat nat
  | NonCanonicalBalances
  | RecordReplay nat LedgerError
  | DuplicateTransaction nat TransactionId
  | BalanceMismatch
  | CardinalityOverflow
  | CheckpointConstruction LedgerConstructionError

fun restore_from :: "reserve \<Rightarrow> nat \<Rightarrow> LedgerRecord list \<Rightarrow> Ledger \<Rightarrow> LedgerCheckpointError + Ledger" where
  "restore_from reserve index [] ledger = Inr ledger"
| "restore_from reserve index (record # rest) ledger =
     (case apply_record reserve ledger record of
        Inl e \<Rightarrow> Inl (RecordReplay index e)
      | Inr (_, ledger') \<Rightarrow> restore_from reserve (index + 1) rest ledger')"

definition from_checkpoint_with_limits ::
    "(LedgerResource \<Rightarrow> nat \<Rightarrow> bool) \<Rightarrow> reserve \<Rightarrow> LedgerCheckpoint \<Rightarrow> LedgerLimitsSpec \<Rightarrow> LedgerCheckpointError + Ledger"
where
  "from_checkpoint_with_limits reserve_layout reserve c limits =
     (case try_with_limits reserve_layout limits of
        Inl e \<Rightarrow> Inl (CheckpointConstruction e)
      | Inr ledger \<Rightarrow> restore_from reserve 0 (checkpoint_records c) ledger)"

section \<open>Validation of decoded checkpoints\<close>

text \<open>The cardinalities of the records: transactions, postings, and the largest of each.\<close>

record ReplayCardinality =
  replay_transactions :: nat
  replay_postings :: nat
  replay_entry_postings :: nat
  replay_record_transactions :: nat

fun accumulate_entries :: "JournalEntry list \<Rightarrow> ReplayCardinality \<Rightarrow> LedgerCheckpointError + ReplayCardinality" where
  "accumulate_entries [] acc = Inr acc"
| "accumulate_entries (entry # rest) acc =
     and_then (ok_or (checked fits_usize (replay_postings acc + length (postings entry))) CardinalityOverflow) (\<lambda>n.
       accumulate_entries rest (acc\<lparr>replay_postings := n,
         replay_entry_postings := max (replay_entry_postings acc) (length (postings entry))\<rparr>))"

fun accumulate_records :: "LedgerRecord list \<Rightarrow> ReplayCardinality \<Rightarrow> LedgerCheckpointError + ReplayCardinality" where
  "accumulate_records [] acc = Inr acc"
| "accumulate_records (record # rest) acc =
     (let n = length (record_members record) in
      and_then (ok_or (checked fits_usize (replay_transactions acc + n)) CardinalityOverflow) (\<lambda>transactions.
      and_then (accumulate_entries (record_members record)
          (acc\<lparr>replay_transactions := transactions,
             replay_record_transactions := max (replay_record_transactions acc) n\<rparr>)) (\<lambda>acc'.
        accumulate_records rest acc')))"

definition checkpoint_replay_limits :: "LedgerRecord list \<Rightarrow> nat \<Rightarrow> LedgerCheckpointError + LedgerLimitsSpec" where
  "checkpoint_replay_limits records encoded_balance_count =
     and_then (accumulate_records records
         \<lparr>replay_transactions = 0, replay_postings = 0, replay_entry_postings = 1, replay_record_transactions = 1\<rparr>) (\<lambda>acc.
       let transactions = max (replay_transactions acc) 1; retained_postings = max (replay_postings acc) 1 in
       Inr \<lparr>max_balance_keys = max (max retained_postings encoded_balance_count) 1, max_transactions = transactions,
            max_reversals = transactions, max_records = max (length records) 1,
            max_postings_per_transaction = replay_entry_postings acc,
            max_transactions_per_record = replay_record_transactions acc,
            max_retained_postings = retained_postings\<rparr>)"

fun primary_transaction_id :: "LedgerRecord \<Rightarrow> TransactionId" where
  "primary_transaction_id (RecordEntry entry) = transaction_id entry"
| "primary_transaction_id (RecordCorrection c) = transaction_id (correction_reversal c)"
| "primary_transaction_id (RecordBatch batch) = transaction_id (hd (batch_entries batch))"

fun replay_fresh :: "reserve \<Rightarrow> nat \<Rightarrow> LedgerRecord list \<Rightarrow> Ledger \<Rightarrow> LedgerCheckpointError + Ledger" where
  "replay_fresh reserve index [] ledger = Inr ledger"
| "replay_fresh reserve index (record # rest) ledger =
     (case apply_record reserve ledger record of
        Inl e \<Rightarrow> Inl (RecordReplay index e)
      | Inr (replayed, ledger') \<Rightarrow>
          if replayed then Inl (DuplicateTransaction index (primary_transaction_id record))
          else replay_fresh reserve (index + 1) rest ledger')"

definition balances_differ :: "Ledger \<Rightarrow> LedgerBalance list \<Rightarrow> bool" where
  "balances_differ replayed balances \<longleftrightarrow>
     card (dom (ledger_balances replayed)) \<noteq> length balances \<or>
     list_ex (\<lambda>b. ledger_balances replayed (balance_account b, balance_asset b) \<noteq> Some (balance_amount b)) balances"

definition validate_checkpoint ::
    "(LedgerResource \<Rightarrow> nat \<Rightarrow> bool) \<Rightarrow> reserve \<Rightarrow> nat \<Rightarrow> LedgerBalance list \<Rightarrow> LedgerRecord list \<Rightarrow> LedgerCheckpointError + unit"
where
  "validate_checkpoint reserve_layout reserve generation balances records =
     and_then (ensure (checked fits_usize generation = Some (length records))
                (GenerationMismatch generation (length records))) (\<lambda>_.
     and_then (ensure (\<not> (list_ex (\<lambda>b. balance_amount b = 0) balances \<or>
                  windows_any (\<lambda>b c. balance_order c \<le> balance_order b) balances)) NonCanonicalBalances) (\<lambda>_.
     and_then (checkpoint_replay_limits records (length balances)) (\<lambda>limits.
     and_then (map_error CheckpointConstruction (try_with_limits reserve_layout limits)) (\<lambda>start.
     and_then (replay_fresh reserve 0 records start) (\<lambda>replayed.
       ensure (\<not> balances_differ replayed balances) BalanceMismatch)))))"

definition checkpoint_from_parts ::
    "(LedgerResource \<Rightarrow> nat \<Rightarrow> bool) \<Rightarrow> reserve \<Rightarrow> nat \<Rightarrow> LedgerBalance list \<Rightarrow> LedgerRecord list
     \<Rightarrow> LedgerCheckpointError + LedgerCheckpoint"
where
  "checkpoint_from_parts reserve_layout reserve generation balances records =
     and_then (validate_checkpoint reserve_layout reserve generation balances records) (\<lambda>_.
       Inr \<lparr>checkpoint_generation = generation, checkpoint_balances = balances, checkpoint_records = records\<rparr>)"

section \<open>Replaying records\<close>

lemma new_record:
  assumes "valid_history limits (h @ [r])" "entry \<in> set (record_members r)"
  shows "r \<notin> set h"
proof
  assume "r \<in> set h"
  then have "entry \<in> set (flat h)" using assms(2) by (auto simp: flat_def)
  then show False using valid_history_distinct [OF assms(1)] assms(2) by auto
qed

lemma apply_record_next:
  assumes "valid_history limits h" "valid_history limits (h @ [r])" "limits_wf limits" "\<And>resource n. reserve resource n"
  shows "apply_record reserve (ledger_of limits h) r = Inr (False, ledger_of limits (h @ [r]))"
proof -
  have wf: "record_wf r" using assms(2) by (simp add: valid_history_def)
  show ?thesis
  proof (cases r)
    case (RecordEntry entry)
    have "entry_replay h entry = None"
      using valid_fresh [OF assms(1,2), of entry] RecordEntry by (simp add: entry_replay_def)
    then show ?thesis
      using entry_event.outcome [OF assms(1) _ assms(3), of entry reserve] wf RecordEntry assms(2,4)
      by (auto simp: event_outcome_def apply_record_def read_post_def)
  next
    case (RecordCorrection c)
    have "correction_replay h c = None"
      using new_record [OF assms(2), of "correction_reversal c"] RecordCorrection by (simp add: correction_replay_def)
    then show ?thesis
      using correction_event.outcome [OF assms(1) _ assms(3), of c reserve] wf RecordCorrection assms(2,4)
      by (auto simp: event_outcome_def apply_record_def read_correction_def)
  next
    case (RecordBatch batch)
    have "hd (batch_entries batch) \<in> set (record_members r)"
      using wf RecordBatch by (auto simp: batch_wf_def intro!: hd_in_set)
    then have "batch_replay h batch = None"
      using new_record [OF assms(2)] RecordBatch by (auto simp: batch_replay_def)
    then show ?thesis
      using batch_event.outcome [OF assms(1) _ assms(3), of batch reserve] wf RecordBatch assms(2,4)
      by (auto simp: event_outcome_def apply_record_def read_batch_def)
  qed
qed

lemma sound_step:
  assumes "sound_history limits h" "i < length h" "limits_wf limits" "\<And>resource n. reserve resource n"
  shows "apply_record reserve (ledger_of limits (take i h)) (h ! i) = Inr (False, ledger_of limits (take (i + 1) h))"
proof -
  have take: "take (i + 1) h = take i h @ [h ! i]" using assms(2) by (simp add: take_Suc_conv_app_nth)
  have "valid_history limits (take i h)" "valid_history limits (take i h @ [h ! i])"
    using assms(1) take unfolding sound_history_def by (blast, metis)
  then show ?thesis using apply_record_next [OF _ _ assms(3,4)] take by simp
qed

lemma replay_sound:
  assumes "sound_history limits h" "limits_wf limits" "\<And>resource n. reserve resource n"
  shows "i \<le> length h \<Longrightarrow> replay_records reserve (drop i h) (ledger_of limits (take i h)) = Inr (ledger_of limits h)"
    and "i \<le> length h \<Longrightarrow> restore_from reserve k (drop i h) (ledger_of limits (take i h)) = Inr (ledger_of limits h)"
proof -
  show "i \<le> length h \<Longrightarrow> replay_records reserve (drop i h) (ledger_of limits (take i h)) = Inr (ledger_of limits h)"
  proof (induction "length h - i" arbitrary: i)
    case (Suc n)
    then have "i < length h" by simp
    then show ?case
      using Suc.hyps(1) [of "i + 1"] Suc.hyps(2) sound_step [OF assms(1) _ assms(2,3), of i]
      by (simp add: Cons_nth_drop_Suc [symmetric])
  qed simp
  show "i \<le> length h \<Longrightarrow> restore_from reserve k (drop i h) (ledger_of limits (take i h)) = Inr (ledger_of limits h)"
  proof (induction "length h - i" arbitrary: i k)
    case (Suc n)
    then have "i < length h" by simp
    then show ?case
      using Suc.hyps(1) [of "i + 1"] Suc.hyps(2) sound_step [OF assms(1) _ assms(2,3), of i]
      by (simp add: Cons_nth_drop_Suc [symmetric])
  qed simp
qed

lemma materialize_ok:
  assumes "valid_history limits h" "limits_wf limits"
  shows "i \<le> length h \<Longrightarrow> materialize_from (ledger_of limits h) i (drop i (map record_key h)) = Inr (drop i h)"
proof (induction "length h - i" arbitrary: i)
  case (Suc n)
  then have i: "i < length h" by simp
  have "drop i (map record_key h) = record_key (h ! i) # drop (i + 1) (map record_key h)"
    using i by (simp add: Cons_nth_drop_Suc [symmetric] drop_map)
  then show ?case
    using Suc.hyps(1) [of "i + 1"] Suc.hyps(2) resolve_retained [OF assms(1) i assms(2)] i
    by (simp add: Cons_nth_drop_Suc)
qed simp

lemma reachable_limits:
  "ledger_reachable limits ledger \<Longrightarrow> \<exists>reserve start. try_with_limits reserve limits = Inr start"
  by (induction rule: ledger_reachable.induct) blast+

lemma map_error_Inr: "map_error f m = Inr x \<longleftrightarrow> m = Inr x"
  by (cases m) auto

lemma construction_ok:
  assumes "try_with_limits reserve limits = Inr start" "\<And>resource n. reserve' resource n"
  shows "try_with_limits reserve' limits = Inr (ledger_of limits [])"
proof -
  obtain spec where "limits_try_from limits = Inr spec"
    using assms(1) unfolding try_with_limits_def and_then_eq_Inr map_error_Inr by blast
  then have "\<exists>start. try_with_limits reserve' limits = Inr start"
    using assms(2) by (simp add: try_with_limits_def)
  then show ?thesis using try_with_limits_ledger_of by blast
qed

section \<open>Limits computed from records\<close>

lemma flat_Cons [simp]: "flat (r # rs) = record_members r @ flat rs"
  by (simp add: flat_def)

lemma effect_support_le: "card {key. effect es key \<noteq> 0} \<le> retained es"
proof -
  have "{key. effect es key \<noteq> 0} \<subseteq> posting_key ` set (concat (map postings es))"
    unfolding effect_concat using posting_sum_absent by blast
  then have "{key. effect es key \<noteq> 0} \<subseteq> set (map posting_key (concat (map postings es)))" by (simp only: set_map)
  then have "card {key. effect es key \<noteq> 0} \<le> card (set (map posting_key (concat (map postings es))))"
    by (rule card_mono [OF finite_set])
  also have "\<dots> \<le> length (map posting_key (concat (map postings es)))" by (rule card_length)
  also have "\<dots> = retained es" by (induction es) auto
  finally show ?thesis .
qed

lemma find_reversal_card_le: "card (dom (find_reversal es)) \<le> length es"
proof (induction es)
  case (Cons e es)
  have "dom (find_reversal (e # es)) \<subseteq> insert (the (reversed_transaction (entry_kind e))) (dom (find_reversal es))"
    by (auto simp: find_reversal_Cons split: if_splits)
  then have "card (dom (find_reversal (e # es))) \<le> card (insert (the (reversed_transaction (entry_kind e))) (dom (find_reversal es)))"
    by (rule card_mono [rotated]) (simp add: dom_find_reversal_finite)
  also have "\<dots> \<le> Suc (card (dom (find_reversal es)))" by (rule card_insert_le_m1) simp_all
  finally show ?case using Cons by simp
qed simp

lemma accumulate_entries_ok:
  assumes "fits_usize (replay_postings acc + retained es)"
  shows "\<exists>acc'. accumulate_entries es acc = Inr acc' \<and>
    replay_postings acc' = replay_postings acc + retained es \<and> replay_transactions acc' = replay_transactions acc \<and>
    replay_record_transactions acc' = replay_record_transactions acc \<and>
    replay_entry_postings acc \<le> replay_entry_postings acc' \<and>
    replay_entry_postings acc' \<le> max (replay_entry_postings acc) (retained es) \<and>
    (\<forall>entry \<in> set es. length (postings entry) \<le> replay_entry_postings acc')"
  using assms
proof (induction es arbitrary: acc)
  case (Cons entry es)
  let ?acc = "acc\<lparr>replay_postings := replay_postings acc + length (postings entry),
    replay_entry_postings := max (replay_entry_postings acc) (length (postings entry))\<rparr>"
  have fits: "fits_usize (replay_postings acc + length (postings entry))"
    using fits_u64_mono [OF Cons.prems] by simp
  obtain acc' where acc': "accumulate_entries es ?acc = Inr acc'"
    "replay_postings acc' = replay_postings ?acc + retained es" "replay_transactions acc' = replay_transactions acc"
    "replay_record_transactions acc' = replay_record_transactions acc"
    "replay_entry_postings ?acc \<le> replay_entry_postings acc'"
    "replay_entry_postings acc' \<le> max (replay_entry_postings ?acc) (retained es)"
    "\<forall>entry \<in> set es. length (postings entry) \<le> replay_entry_postings acc'"
    using Cons.IH [of ?acc] Cons.prems by (force simp: add.assoc)
  show ?case
    by (rule exI [of _ acc']) (use acc' fits in auto)
qed simp

lemma accumulate_records_ok:
  assumes "fits_usize (replay_postings acc + retained (flat rs))" "fits_usize (replay_transactions acc + length (flat rs))"
  shows "\<exists>acc'. accumulate_records rs acc = Inr acc' \<and>
    replay_postings acc' = replay_postings acc + retained (flat rs) \<and>
    replay_transactions acc' = replay_transactions acc + length (flat rs) \<and>
    replay_entry_postings acc \<le> replay_entry_postings acc' \<and>
    replay_entry_postings acc' \<le> max (replay_entry_postings acc) (retained (flat rs)) \<and>
    (\<forall>entry \<in> set (flat rs). length (postings entry) \<le> replay_entry_postings acc') \<and>
    replay_record_transactions acc' \<le> max (replay_record_transactions acc) (length (flat rs)) \<and>
    replay_record_transactions acc \<le> replay_record_transactions acc' \<and>
    (\<forall>r \<in> set rs. length (record_members r) \<le> replay_record_transactions acc')"
  using assms
proof (induction rs arbitrary: acc)
  case Nil
  then show ?case by (simp add: flat_def)
next
  case (Cons r rs)
  let ?n = "length (record_members r)"
  let ?acc = "acc\<lparr>replay_transactions := replay_transactions acc + ?n,
    replay_record_transactions := max (replay_record_transactions acc) ?n\<rparr>"
  have fits: "fits_usize (replay_transactions acc + ?n)" "fits_usize (replay_postings ?acc + retained (record_members r))"
    using fits_u64_mono [OF Cons.prems(2)] fits_u64_mono [OF Cons.prems(1)] by simp_all
  obtain a where a: "accumulate_entries (record_members r) ?acc = Inr a"
    "replay_postings a = replay_postings acc + retained (record_members r)" "replay_transactions a = replay_transactions ?acc"
    "replay_record_transactions a = replay_record_transactions ?acc" "replay_entry_postings acc \<le> replay_entry_postings a"
    "replay_entry_postings a \<le> max (replay_entry_postings acc) (retained (record_members r))"
    "\<forall>entry \<in> set (record_members r). length (postings entry) \<le> replay_entry_postings a"
    using accumulate_entries_ok [OF fits(2)] by force
  obtain b where b: "accumulate_records rs a = Inr b"
    "replay_postings b = replay_postings a + retained (flat rs)"
    "replay_transactions b = replay_transactions a + length (flat rs)"
    "replay_entry_postings a \<le> replay_entry_postings b"
    "replay_entry_postings b \<le> max (replay_entry_postings a) (retained (flat rs))"
    "\<forall>entry \<in> set (flat rs). length (postings entry) \<le> replay_entry_postings b"
    "replay_record_transactions b \<le> max (replay_record_transactions a) (length (flat rs))"
    "replay_record_transactions a \<le> replay_record_transactions b"
    "\<forall>r \<in> set rs. length (record_members r) \<le> replay_record_transactions b"
    using Cons.IH [of a] Cons.prems a(2,3) by (force simp: add.assoc)
  have "\<forall>entry \<in> set (flat (r # rs)). length (postings entry) \<le> replay_entry_postings b"
    using a(7) b(4,6) by (auto intro: order_trans)
  moreover have "\<forall>x \<in> set (r # rs). length (record_members x) \<le> replay_record_transactions b"
    using a(4) b(8,9) by auto
  ultimately show ?case
    by (intro exI [of _ b]) (use a b fits in \<open>auto simp: Let_def\<close>)
qed

text \<open>Records that some ledger could have committed one after the other, limits aside.\<close>

definition coherent_records :: "LedgerRecord list \<Rightarrow> bool" where
  "coherent_records rs \<longleftrightarrow> legal (flat rs) \<and> (\<forall>n key. fits_i128 (effect (flat (take n rs)) key))"

lemma legal_prefix: "legal (flat rs) \<Longrightarrow> legal (flat (take n rs))"
  by (metis append_take_drop_id concat_append flat_def legal_append map_append)

lemma flat_take_drop: "flat rs = flat (take n rs) @ flat (drop n rs)"
  unfolding flat_def by (metis append_take_drop_id concat_append map_append)

lemma retained_take_le: "retained (flat (take n rs)) \<le> retained (flat rs)"
  using flat_take_drop [of rs n] by (metis le_add1 retained_simps(3))

lemma flat_length_ge:
  assumes "\<forall>r \<in> set rs. record_wf r"
  shows "length rs \<le> length (flat rs)"
  using assms
proof (induction rs)
  case (Cons r rs)
  then have "record_wf r" by simp
  then have "1 \<le> length (record_members r)" by (cases r) (auto simp: batch_wf_def)
  then show ?case using Cons by simp
qed simp

lemma replay_limits:
  assumes "\<forall>r \<in> set rs. record_wf r" "fits_usize (2 * (retained (flat rs) + length (flat rs) + k + 1))"
  shows "\<exists>limits. checkpoint_replay_limits rs k = Inr limits \<and> limits_try_from limits = Inr limits \<and> limits_wf limits \<and>
    (\<forall>n. valid_history limits (take n rs) \<longleftrightarrow> legal (flat (take n rs)) \<and> (\<forall>key. fits_i128 (effect (flat (take n rs)) key)))"
proof -
  let ?acc = "\<lparr>replay_transactions = 0, replay_postings = 0, replay_entry_postings = 1, replay_record_transactions = 1\<rparr>"
  have "fits_usize (replay_postings ?acc + retained (flat rs))" "fits_usize (replay_transactions ?acc + length (flat rs))"
    by (rule fits_u64_mono [OF assms(2)], simp)+
  from accumulate_records_ok [OF this] obtain c where c: "accumulate_records rs ?acc = Inr c"
    "replay_postings c = retained (flat rs)" "replay_transactions c = length (flat rs)"
    "1 \<le> replay_entry_postings c" "replay_entry_postings c \<le> max 1 (retained (flat rs))"
    "\<forall>entry \<in> set (flat rs). length (postings entry) \<le> replay_entry_postings c"
    "replay_record_transactions c \<le> max 1 (length (flat rs))" "1 \<le> replay_record_transactions c"
    "\<forall>r \<in> set rs. length (record_members r) \<le> replay_record_transactions c" by auto
  let ?limits = "\<lparr>max_balance_keys = max (max (max (retained (flat rs)) 1) k) 1, max_transactions = max (length (flat rs)) 1,
    max_reversals = max (length (flat rs)) 1, max_records = max (length rs) 1,
    max_postings_per_transaction = replay_entry_postings c,
    max_transactions_per_record = replay_record_transactions c, max_retained_postings = max (retained (flat rs)) 1\<rparr>"
  have eq: "checkpoint_replay_limits rs k = Inr ?limits"
    using c(1-3) by (simp add: checkpoint_replay_limits_def Let_def)
  have len: "length rs \<le> length (flat rs)" by (rule flat_length_ge [OF assms(1)])
  have ok: "limits_try_from ?limits = Inr ?limits"
    using c(4,5,7,8) len by (simp add: limits_try_from_def ensure_def max.commute)
  have wf: "limits_wf ?limits"
    unfolding limits_wf_def using len by (auto intro!: fits_u64_mono [OF assms(2)])
  have within: "within_limits ?limits (take n rs)" for n
  proof -
    have ret: "retained (flat (take n rs)) \<le> retained (flat rs)" by (rule retained_take_le)
    have lenn: "length (flat (take n rs)) \<le> length (flat rs)" using flat_take_drop [of rs n] by (metis le_add1 length_append)
    have sub: "set (flat (take n rs)) \<subseteq> set (flat rs)" using flat_take_drop [of rs n] by (metis Un_upper1 set_append)
    have "\<forall>r \<in> set (take n rs). length (record_members r) \<le> replay_record_transactions c"
      using c(9) by (auto dest: in_set_takeD)
    then show ?thesis
      unfolding within_limits_def retained_def [symmetric]
      using effect_support_le [of "flat (take n rs)"] find_reversal_card_le [of "flat (take n rs)"] ret lenn sub c(6) by auto
  qed
  have "valid_history ?limits (take n rs) \<longleftrightarrow> legal (flat (take n rs)) \<and> (\<forall>key. fits_i128 (effect (flat (take n rs)) key))" for n
    using within [of n] assms(1) by (auto simp: valid_history_def dest: in_set_takeD)
  then show ?thesis using eq ok wf by blast
qed

section \<open>Replay decides coherence\<close>

lemma apply_record_exact:
  assumes "valid_history limits h" "record_wf r" "limits_wf limits" "\<And>resource n. reserve resource n"
  shows "apply_record reserve (ledger_of limits h) r = Inr (False, ledger') \<longleftrightarrow>
    valid_history limits (h @ [r]) \<and> ledger' = ledger_of limits (h @ [r])"
proof (cases "valid_history limits (h @ [r])")
  case True
  then show ?thesis using apply_record_next [OF assms(1) True assms(3), of reserve] assms(4) by auto
next
  case False
  have "apply_record reserve (ledger_of limits h) r \<noteq> Inr (False, ledger')"
  proof (cases r)
    case (RecordEntry entry)
    then show ?thesis
      using entry_event.outcome [OF assms(1) _ assms(3), of entry reserve] assms(2,4) False
      by (auto simp: event_outcome_def apply_record_def read_post_def split: option.splits)
  next
    case (RecordCorrection c)
    then show ?thesis
      using correction_event.outcome [OF assms(1) _ assms(3), of c reserve] assms(2,4) False
      by (auto simp: event_outcome_def apply_record_def read_correction_def split: option.splits)
  next
    case (RecordBatch batch)
    then show ?thesis
      using batch_event.outcome [OF assms(1) _ assms(3), of batch reserve] assms(2,4) False
      by (auto simp: event_outcome_def apply_record_def read_batch_def split: option.splits)
  qed
  then show ?thesis using False by blast
qed

lemma replay_fresh_exact:
  assumes "valid_history limits h" "\<forall>r \<in> set rs. record_wf r" "limits_wf limits" "\<And>resource n. reserve resource n"
  shows "replay_fresh reserve index rs (ledger_of limits h) = Inr ledger' \<longleftrightarrow>
    (\<forall>n. valid_history limits (h @ take n rs)) \<and> ledger' = ledger_of limits (h @ rs)"
  using assms(1,2)
proof (induction rs arbitrary: h index)
  case Nil
  then show ?case by auto
next
  case (Cons r rs)
  have step: "apply_record reserve (ledger_of limits h) r = Inr (False, l) \<longleftrightarrow>
      valid_history limits (h @ [r]) \<and> l = ledger_of limits (h @ [r])" for l
    by (rule apply_record_exact [OF Cons.prems(1) _ assms(3,4)]) (use Cons.prems(2) in simp)
  have prefixes: "(\<forall>n. valid_history limits (h @ take n (r # rs))) \<longleftrightarrow>
      (\<forall>n. valid_history limits ((h @ [r]) @ take n rs))" if "valid_history limits h"
  proof
    assume *: "\<forall>n. valid_history limits (h @ take n (r # rs))"
    show "\<forall>n. valid_history limits ((h @ [r]) @ take n rs)"
    proof
      fix n show "valid_history limits ((h @ [r]) @ take n rs)" using spec [OF *, of "Suc n"] by simp
    qed
  next
    assume *: "\<forall>n. valid_history limits ((h @ [r]) @ take n rs)"
    show "\<forall>n. valid_history limits (h @ take n (r # rs))"
    proof
      fix n show "valid_history limits (h @ take n (r # rs))" using * that by (cases n) auto
    qed
  qed
  show ?case
  proof (cases "valid_history limits (h @ [r])")
    case True
    have "apply_record reserve (ledger_of limits h) r = Inr (False, ledger_of limits (h @ [r]))"
      using step True by blast
    then have "replay_fresh reserve index (r # rs) (ledger_of limits h) =
        replay_fresh reserve (index + 1) rs (ledger_of limits (h @ [r]))"
      by simp
    then show ?thesis using Cons.IH [OF True, of "index + 1"] Cons.prems prefixes by simp
  next
    case False
    then have "\<forall>l. apply_record reserve (ledger_of limits h) r \<noteq> Inr (False, l)" using step by blast
    then have "replay_fresh reserve index (r # rs) (ledger_of limits h) \<noteq> Inr ledger'"
      by (auto split: sum.splits if_splits)
    moreover have "\<not> (\<forall>n. valid_history limits (h @ take n (r # rs)))" 
    proof -
      have "h @ take 1 (r # rs) = h @ [r]" by simp
      then show ?thesis using False by metis
    qed
    ultimately show ?thesis by blast
  qed
qed

section \<open>Canonical balances\<close>

definition balance_map :: "LedgerBalance list \<Rightarrow> BalanceKey \<rightharpoonup> int" where
  "balance_map bs = map_of (map (\<lambda>b. ((balance_account b, balance_asset b), balance_amount b)) bs)"

definition canonical :: "LedgerBalance list \<Rightarrow> bool" where
  "canonical bs \<longleftrightarrow> sorted_wrt (<) (map balance_order bs) \<and> (\<forall>b \<in> set bs. balance_amount b \<noteq> 0)"

lemma canonical_windows:
  "\<not> (list_ex (\<lambda>b. balance_amount b = 0) bs \<or> windows_any (\<lambda>b c. balance_order c \<le> balance_order b) bs) \<longleftrightarrow> canonical bs"
proof -
  have "transp (\<lambda>b c. balance_order b < balance_order c)" by (auto intro!: transpI)
  from windows_any_sorted_wrt [OF this, of bs] show ?thesis
    by (auto simp: canonical_def list_ex_iff sorted_wrt_map not_less)
qed

lemma canonical_distinct: "canonical bs \<Longrightarrow> distinct (map (\<lambda>b. (balance_account b, balance_asset b)) bs)"
proof -
  assume "canonical bs"
  then have "distinct (map balance_order bs)" by (simp add: canonical_def strict_sorted_iff)
  then show ?thesis unfolding distinct_map inj_on_def balance_order_def by force
qed

lemma balances_differ_iff:
  assumes "canonical bs" "finite (dom (ledger_balances ledger))"
  shows "\<not> balances_differ ledger bs \<longleftrightarrow> balance_map bs = ledger_balances ledger"
proof -
  let ?rows = "map (\<lambda>b. ((balance_account b, balance_asset b), balance_amount b)) bs"
  have fst: "map fst ?rows = map (\<lambda>b. (balance_account b, balance_asset b)) bs" by simp
  have d: "distinct (map fst ?rows)" unfolding fst by (rule canonical_distinct [OF assms(1)])
  have dom: "dom (balance_map bs) = (\<lambda>b. (balance_account b, balance_asset b)) ` set bs"
    unfolding balance_map_def dom_map_of_conv_image_fst by (simp add: image_image)
  have card: "card (dom (balance_map bs)) = length bs"
    unfolding dom using distinct_card [OF canonical_distinct [OF assms(1)]] by simp
  have sub: "\<not> list_ex (\<lambda>b. ledger_balances ledger (balance_account b, balance_asset b) \<noteq> Some (balance_amount b)) bs
      \<longleftrightarrow> balance_map bs \<subseteq>\<^sub>m ledger_balances ledger"
  proof -
    have "balance_map bs (balance_account b, balance_asset b) = Some (balance_amount b)" if "b \<in> set bs" for b
      unfolding balance_map_def by (rule map_of_is_SomeI [OF d]) (use that in force)
    then show ?thesis unfolding list_ex_iff map_le_def dom by force
  qed
  show ?thesis
  proof
    assume *: "\<not> balances_differ ledger bs"
    then have le: "balance_map bs \<subseteq>\<^sub>m ledger_balances ledger" and c: "card (dom (ledger_balances ledger)) = length bs"
      using sub by (simp_all add: balances_differ_def)
    have "dom (balance_map bs) = dom (ledger_balances ledger)"
      by (rule card_subset_eq [OF assms(2) map_le_implies_dom_le [OF le]]) (simp add: card c)
    with le show "balance_map bs = ledger_balances ledger" by (intro map_le_antisym) (auto simp: map_le_def)
  next
    assume *: "balance_map bs = ledger_balances ledger"
    then show "\<not> balances_differ ledger bs" using sub card by (simp add: balances_differ_def map_le_def)
  qed
qed

lemma canonical_balances_ok:
  assumes "iteration_of balances ledger" "\<forall>key. ledger_balances ledger key \<noteq> Some 0"
  shows "canonical (canonical_balances balances)" "balance_map (canonical_balances balances) = ledger_balances ledger"
proof -
  let ?row = "\<lambda>((account, asset), v). \<lparr>balance_account = account, balance_asset = asset, balance_amount = v\<rparr>"
  have d: "distinct (map fst balances)" and m: "map_of balances = ledger_balances ledger"
    using assms(1) by (simp_all add: iteration_of_def)
  have nz: "v \<noteq> 0" if "(key, v) \<in> set balances" for key v
    using map_of_is_SomeI [OF d that] assms(2) m by auto
  have all: "filter (\<lambda>(_, v). v \<noteq> 0) balances = balances"
    using nz by (auto simp: filter_id_conv)
  have set: "set (canonical_balances balances) = ?row ` set balances"
    by (simp only: canonical_balances_def all set_sort set_map)
  have keyd: "distinct (map balance_order (canonical_balances balances))"
  proof -
    have "mset (map balance_order (canonical_balances balances)) = mset (map (\<lambda>(account, asset). (asset, account)) (map fst balances))"
      by (simp add: canonical_balances_def all balance_order_def case_prod_beta image_mset.compositionality comp_def)
    moreover have "distinct (map (\<lambda>(account, asset). (asset, account)) (map fst balances))"
      using d by (simp add: distinct_map inj_on_def) force
    ultimately show ?thesis by (metis mset_eq_imp_distinct_iff)
  qed
  have "sorted (map balance_order (canonical_balances balances))"
    unfolding canonical_balances_def by simp
  with keyd have "sorted_wrt (<) (map balance_order (canonical_balances balances))" by (simp add: strict_sorted_iff)
  moreover have "\<forall>b \<in> set (canonical_balances balances). balance_amount b \<noteq> 0" unfolding set using nz by auto
  ultimately show can: "canonical (canonical_balances balances)" by (simp add: canonical_def)
  show "balance_map (canonical_balances balances) = ledger_balances ledger"
  proof -
    let ?rows = "map (\<lambda>b. ((balance_account b, balance_asset b), balance_amount b)) (canonical_balances balances)"
    have "map fst ?rows = map (\<lambda>b. (balance_account b, balance_asset b)) (canonical_balances balances)" by simp
    then have d': "distinct (map fst ?rows)" using canonical_distinct [OF can] by metis
    have "set ?rows = set balances" unfolding set_map set by (force simp: image_image)
    then show ?thesis unfolding balance_map_def m [symmetric] using map_of_inject_set [of ?rows balances] d d' by blast
  qed
qed

section \<open>The structural checks hold\<close>

lemma count_entry_postings_ok:
  assumes "\<forall>posted \<in> set entries. length (postings (posted_entry posted)) \<le> maximum"
    and "fits_usize (n + retained (map posted_entry entries))"
  shows "count_entry_postings maximum entries n = Some (n + retained (map posted_entry entries))"
  using assms
proof (induction entries arbitrary: n)
  case (Cons posted entries)
  have "fits_usize (n + length (postings (posted_entry posted)))" by (rule fits_u64_mono [OF Cons.prems(2)]) simp
  moreover have "fits_usize (n + length (postings (posted_entry posted)) + retained (map posted_entry entries))"
    using Cons.prems(2) by (simp add: add.assoc)
  ultimately show ?case using Cons by (simp add: add.assoc)
qed simp

lemma count_transactions_ok:
  assumes "fits_usize (n + length (flat h))"
  shows "count_transactions (map record_key h) n = Some (n + length (flat h))"
  using assms
proof (induction h arbitrary: n)
  case (Cons r h)
  have "transaction_count (record_key r) = length (record_members r)" by (cases r) simp_all
  moreover have "fits_usize (n + length (record_members r))" by (rule fits_u64_mono [OF Cons.prems]) simp
  ultimately show ?case using Cons by (simp add: add.assoc)
qed (simp add: flat_def)

text \<open>The transaction index in the order of an iteration.\<close>

definition entries_of :: "PostedEntry list \<Rightarrow> Ledger \<Rightarrow> bool" where
  "entries_of entries ledger \<longleftrightarrow> distinct (map (\<lambda>posted. transaction_id (posted_entry posted)) entries) \<and>
     map_of (map (\<lambda>posted. (transaction_id (posted_entry posted), posted)) entries) = ledger_entries ledger"

lemma entries_of_flat:
  assumes "entries_of entries (ledger_of limits h)" "legal (flat h)"
  shows "mset (map posted_entry entries) = mset (flat h)"
proof -
  have df: "distinct (map transaction_id (flat h))" by (rule legal_distinct [OF assms(2)])
  let ?rows = "map (\<lambda>posted. (transaction_id (posted_entry posted), posted)) entries"
  have d: "distinct (map fst ?rows)" using assms(1) by (simp add: entries_of_def comp_def)
  have m: "map_of ?rows = ledger_entries (ledger_of limits h)" using assms(1) by (simp only: entries_of_def)
  have "set (map posted_entry entries) = set (flat h)"
  proof (intro set_eqI iffI)
    fix e assume "e \<in> set (map posted_entry entries)"
    then obtain posted where p: "posted \<in> set entries" "posted_entry posted = e" by auto
    then have "map_of ?rows (transaction_id e) = Some posted"
      by (intro map_of_is_SomeI [OF d]) auto
    then have "find_entry (flat h) (transaction_id e) = Some e" unfolding m using p(2) by (auto simp: ledger_entry_Some)
    then show "e \<in> set (flat h)" using find_entry_Some by blast
  next
    fix e assume e: "e \<in> set (flat h)"
    then have "find_entry (flat h) (transaction_id e) = Some e" by (rule find_entry_member [OF df])
    then have "\<exists>posted. map_of ?rows (transaction_id e) = Some posted \<and> posted_entry posted = e"
      unfolding m by (simp add: ledger_of_def)
    then show "e \<in> set (map posted_entry entries)" by (auto dest!: map_of_SomeD)
  qed
  moreover have "distinct (map posted_entry entries)" "distinct (flat h)"
    using assms(1) df by (auto simp: entries_of_def distinct_map inj_on_def)
  ultimately show ?thesis by (metis set_eq_iff_mset_eq_distinct)
qed

lemma resource_invariants_ok:
  assumes "valid_history limits h" "limits_wf limits"
    and "iteration_of balances (ledger_of limits h)" "entries_of entries (ledger_of limits h)"
  shows "validate_resource_invariants balances entries (ledger_of limits h) = Inr ()"
proof -
  have legal: "legal (flat h)" and within: "within_limits limits h" using assms(1) by (simp_all add: valid_history_def)
  have perm: "mset (map posted_entry entries) = mset (flat h)" by (rule entries_of_flat [OF assms(4) legal])
  have ret: "retained (map posted_entry entries) = retained (flat h)"
    unfolding retained_def by (rule arg_cong [OF perm, of "\<lambda>M. sum_mset (image_mset (\<lambda>entry. length (postings entry)) M)",
        unfolded mset_map [symmetric] sum_mset_sum_list])
  have len: "length entries = length (flat h)" using mset_eq_length [OF perm] by simp
  have mem: "set (map posted_entry entries) = set (flat h)" using perm by (rule mset_eq_setD)
  have short: "\<forall>posted \<in> set entries. length (postings (posted_entry posted)) \<le> max_postings_per_transaction limits"
  proof
    fix posted assume "posted \<in> set entries"
    then have "posted_entry posted \<in> set (flat h)" unfolding mem [symmetric] by simp
    then show "length (postings (posted_entry posted)) \<le> max_postings_per_transaction limits"
      using within by (simp add: within_limits_def)
  qed
  have retle: "retained (flat h) \<le> max_retained_postings limits" using within by (simp add: within_limits_def retained_def)
  then have "fits_usize (0 + retained (map posted_entry entries))"
    using assms(2) unfolding ret by (auto simp: limits_wf_def intro: fits_u64_mono)
  from count_entry_postings_ok [OF short this] have count: "count_entry_postings (max_postings_per_transaction limits) entries 0 =
      Some (retained (flat h))" by (simp add: ret)
  have "fits_usize (0 + length (flat h))"
    using within assms(2) by (auto simp: limits_wf_def within_limits_def intro: fits_u64_mono)
  from count_transactions_ok [OF this] have trans: "count_transactions (map record_key h) 0 = Some (length (flat h))" by simp
  have nz: "list_all (\<lambda>(_, v). v \<noteq> 0) balances"
  proof -
    have "v \<noteq> 0" if "(key, v) \<in> set balances" for key v
    proof -
      have "map_of balances key = Some v"
        using assms(3) by (intro map_of_is_SomeI [OF _ that]) (simp add: iteration_of_def)
      then show ?thesis using assms(3) by (auto simp: iteration_of_def balances_of_def split: if_splits)
    qed
    then show ?thesis by (auto simp: list_all_iff)
  qed
  have records: "list_all (\<lambda>key. transaction_count key \<le> max_transactions_per_record limits) (map record_key h)"
  proof -
    have "transaction_count (record_key r) = length (record_members r)" for r by (cases r) simp_all
    then show ?thesis using within by (simp add: within_limits_def list_all_iff)
  qed
  have "length h \<le> max_records limits" using within by (simp add: within_limits_def)
  then show ?thesis
    by (simp add: validate_resource_invariants_def nz count retle records trans len del: ledger_of_simps(5))
qed

section \<open>Properties\<close>

lemma validate_for_checkpoint_ok:
  assumes "sound_history limits h" "limits_wf limits" "try_with_limits layout limits = Inr start"
    and "iteration_of balances (ledger_of limits h)" "entries_of entries (ledger_of limits h)"
    and "\<And>resource n. memory_layout memory resource n" "\<And>resource n. memory_event memory resource n"
    and "\<And>resource n. memory_capture memory resource n" "\<And>resource n. memory_query memory resource n"
  shows "validate_for_checkpoint memory balances entries (ledger_of limits h) = Inr h"
proof -
  note valid = sound_valid [OF assms(1)]
  note start = construction_ok [OF assms(3), of "memory_layout memory", OF assms(6)]
  have records: "materialize_audit_records (memory_capture memory) (ledger_of limits h) = Inr h"
    using materialize_ok [OF valid assms(2), of 0] assms(8) by (simp add: materialize_audit_records_def)
  have replay: "replay_audit_records (memory_layout memory) (memory_event memory) (ledger_of limits h) h = Inr (ledger_of limits h)"
    using replay_sound(1) [OF assms(1,2), of "memory_event memory" 0, OF assms(7)] start
    by (simp add: replay_audit_records_def)
  obtain rows where rows: "try_trial_balance (memory_query memory) balances = Inr rows"
    "\<forall>row \<in> set rows. trial_is_balanced row"
    using trial_balance_ok [OF valid assms(2,4), of "memory_query memory", OF assms(9)] by blast
  have "find (\<lambda>row. \<not> trial_is_balanced row) rows = None" using rows(2) by (simp add: find_None_iff)
  then show ?thesis
    using resource_invariants_ok [OF valid assms(2,4,5)]
    by (simp add: validate_for_checkpoint_def records replay rows(1) validate_replayed_state_def)
qed

lemma validate_checkpoint_iff:
  assumes "\<forall>r \<in> set rs. record_wf r" "fits_usize (2 * (retained (flat rs) + length (flat rs) + length bs + 1))"
    and "\<And>resource n. layout resource n" "\<And>resource n. reserve resource n" "fits_u64 generation"
  shows "validate_checkpoint layout reserve generation bs rs = Inr () \<longleftrightarrow>
    generation = length rs \<and> coherent_records rs \<and> canonical bs \<and> balance_map bs = balances_of (effect (flat rs))"
proof -
  obtain limits where limits: "checkpoint_replay_limits rs (length bs) = Inr limits" "limits_try_from limits = Inr limits"
    "limits_wf limits" "\<And>n. valid_history limits (take n rs) \<longleftrightarrow> legal (flat (take n rs)) \<and> (\<forall>key. fits_i128 (effect (flat (take n rs)) key))"
    using replay_limits [OF assms(1,2)] by blast
  have "\<exists>start. try_with_limits layout limits = Inr start" using limits(2) assms(3) by (simp add: try_with_limits_def)
  then have start: "try_with_limits layout limits = Inr (ledger_of limits [])" using try_with_limits_ledger_of by blast
  have coherent: "(\<forall>n. valid_history limits ([] @ take n rs)) \<longleftrightarrow> coherent_records rs"
    unfolding append_Nil limits(4) coherent_records_def using legal_prefix [of rs] spec [of _ "length rs"]
    by (metis order_refl take_all)
  have replay: "replay_fresh reserve 0 rs (ledger_of limits []) = Inr ledger' \<longleftrightarrow>
      coherent_records rs \<and> ledger' = ledger_of limits rs" for ledger'
    using replay_fresh_exact [OF valid_history_Nil assms(1) limits(3), of reserve 0] assms(4) coherent by simp
  have fin: "finite (dom (ledger_balances (ledger_of limits rs)))"
    by (simp add: dom_balances_of effect_finite)
  have gen: "checked fits_u64 generation = Some generation" using assms(5) by simp
  show ?thesis
    unfolding validate_checkpoint_def canonical_windows
    using balances_differ_iff [OF _ fin]
    by (auto simp: result_simps gen limits(1) start replay)
qed

lemma capture_history:
  assumes "sound_history limits h" "limits_wf limits" "try_with_limits layout limits = Inr start"
    and "iteration_of balances (ledger_of limits h)" "entries_of entries (ledger_of limits h)"
    and "\<And>resource n. memory_layout memory resource n" "\<And>resource n. memory_event memory resource n"
    and "\<And>resource n. memory_capture memory resource n" "\<And>resource n. memory_query memory resource n"
  shows "checkpoint memory balances entries (ledger_of limits h) =
    Inr \<lparr>checkpoint_generation = length h, checkpoint_balances = canonical_balances balances, checkpoint_records = h\<rparr>"
proof -
  have "within_limits limits h" using sound_valid [OF assms(1)] by (simp add: valid_history_def)
  then have "length h \<le> max_records limits" by (simp add: within_limits_def)
  then have "fits_u64 (length h)" using assms(2) by (auto simp: limits_wf_def intro: fits_u64_mono)
  then show ?thesis
    using validate_for_checkpoint_ok [OF assms] assms(8) by (simp add: checkpoint_def)
qed

lemma capture_restores:
  assumes "ledger_reachable limits ledger" "limits_wf limits" "iteration_of balances ledger" "entries_of entries ledger"
    and "\<And>resource n. memory_layout memory resource n" "\<And>resource n. memory_event memory resource n"
    and "\<And>resource n. memory_capture memory resource n" "\<And>resource n. memory_query memory resource n"
    and "fits_usize (4 * (max_retained_postings limits + max_transactions limits + 1))"
  shows "\<exists>c. (\<forall>r \<in> set (checkpoint_records c). record_wf r) \<and> checkpoint memory balances entries ledger = Inr c \<and>
    checkpoint_from_parts (memory_layout memory) (memory_event memory)
      (checkpoint_generation c) (checkpoint_balances c) (checkpoint_records c) = Inr c \<and>
    from_checkpoint_with_limits (memory_layout memory) (memory_event memory) c limits = Inr ledger"
proof -
  obtain h where h: "sound_history limits h" "ledger = ledger_of limits h"
    using reachable_sound [OF assms(1,2)] by blast
  note valid = sound_valid [OF h(1)]
  obtain layout start where start: "try_with_limits layout limits = Inr start" using reachable_limits [OF assms(1)] by blast
  note fresh = construction_ok [OF start, of "memory_layout memory", OF assms(5)]
  have within: "within_limits limits h" using valid by (simp add: valid_history_def)
  then have "length h \<le> max_records limits" by (simp add: within_limits_def)
  then have gen: "fits_u64 (length h)" using assms(2) by (auto simp: limits_wf_def intro: fits_u64_mono)
  let ?c = "\<lparr>checkpoint_generation = length h, checkpoint_balances = canonical_balances balances, checkpoint_records = h\<rparr>"
  have capture: "checkpoint memory balances entries ledger = Inr ?c"
    unfolding h(2)
    by (rule capture_history [OF h(1) assms(2) start assms(3) [unfolded h(2)] assms(4) [unfolded h(2)] assms(5-8)])
  have nz: "\<forall>key. ledger_balances ledger key \<noteq> Some 0" by (simp add: h(2) balances_of_def)
  note canon = canonical_balances_ok [OF assms(3) nz]
  have "validate_checkpoint (memory_layout memory) (memory_event memory) (length h) (canonical_balances balances) h = Inr ()"
  proof (rule iffD2 [OF validate_checkpoint_iff])
    show "\<forall>r \<in> set h. record_wf r" using valid by (simp add: valid_history_def)
    have "length (canonical_balances balances) \<le> length balances" by (simp add: canonical_balances_def)
    moreover have "length balances \<le> retained (flat h)"
    proof -
      have d: "distinct (map fst balances)" and m: "map_of balances = balances_of (effect (flat h))"
        using assms(3) by (simp_all add: iteration_of_def h(2))
      have "length balances = card (dom (balances_of (effect (flat h))))"
        using distinct_card [OF d] by (simp flip: m add: dom_map_of_conv_image_fst)
      then show ?thesis using effect_support_le [of "flat h"] by (simp add: dom_balances_of)
    qed
    moreover have "retained (flat h) \<le> max_retained_postings limits" "length (flat h) \<le> max_transactions limits"
      using within by (simp_all add: within_limits_def retained_def)
    ultimately have "2 * (retained (flat h) + length (flat h) + length (canonical_balances balances) + 1)
        \<le> 4 * (max_retained_postings limits + max_transactions limits + 1)" by arith
    then show "fits_usize (2 * (retained (flat h) + length (flat h) + length (canonical_balances balances) + 1))"
      by (rule fits_u64_mono [OF assms(9)])
    have "coherent_records h" using h(1) valid by (simp add: coherent_records_def valid_history_def sound_history_def)
    then show "length h = length h \<and> coherent_records h \<and> canonical (canonical_balances balances) \<and>
        balance_map (canonical_balances balances) = balances_of (effect (flat h))"
      using canon by (simp add: h(2))
  qed (use assms(5,6) gen in auto)
  then have parts: "checkpoint_from_parts (memory_layout memory) (memory_event memory) (length h) (canonical_balances balances) h = Inr ?c"
    by (simp add: checkpoint_from_parts_def)
  have "from_checkpoint_with_limits (memory_layout memory) (memory_event memory) ?c limits = Inr ledger"
    using replay_sound(2) [OF h(1) assms(2), of "memory_event memory" 0 0, OF assms(6)] fresh
    by (simp add: from_checkpoint_with_limits_def h(2))
  with capture parts have "checkpoint memory balances entries ledger = Inr ?c \<and>
      checkpoint_from_parts (memory_layout memory) (memory_event memory) (checkpoint_generation ?c) (checkpoint_balances ?c)
        (checkpoint_records ?c) = Inr ?c \<and> from_checkpoint_with_limits (memory_layout memory) (memory_event memory) ?c limits = Inr ledger"
    by simp
  moreover have "\<forall>r \<in> set (checkpoint_records ?c). record_wf r" using valid by (simp add: valid_history_def)
  ultimately show ?thesis by blast
qed


definition ample_memory :: AuditMemory where
  "ample_memory = \<lparr>memory_layout = \<lambda>_ _. True, memory_event = \<lambda>_ _. True, memory_capture = \<lambda>_ _. True, memory_query = \<lambda>_ _. True\<rparr>"


text \<open>
  Exactly the coherent checkpoints decode: a generation, balances and records are accepted if and only
  if the generation counts the records, each record may follow the ones before it with every
  balance representable, and the balances are the sorted non-zero effects of the records. The
  limits computed from the records never refuse a record on their own.
\<close>

theorem checkpoint_accepts_iff:
  assumes "\<forall>r \<in> set rs. record_wf r" "fits_usize (2 * (retained (flat rs) + length (flat rs) + length bs + 1))"
    and "\<And>resource n. layout resource n" "\<And>resource n. reserve resource n" "fits_u64 generation"
  shows "(\<exists>c. checkpoint_from_parts layout reserve generation bs rs = Inr c) \<longleftrightarrow>
    generation = length rs \<and> legal (flat rs) \<and> (\<forall>n key. fits_i128 (effect (flat (take n rs)) key)) \<and>
    sorted_wrt (<) (map balance_order bs) \<and> (\<forall>b \<in> set bs. balance_amount b \<noteq> 0) \<and>
    balance_map bs = balances_of (effect (flat rs))"
  using validate_checkpoint_iff [OF assms(1,2), of layout reserve generation] assms(3-5)
  by (auto simp: checkpoint_from_parts_def result_simps coherent_records_def canonical_def)

theorem checkpoint_accepts_iff_witness:
  "\<exists>c. checkpoint_from_parts (\<lambda>_ _. True) (\<lambda>_ _. True) 1 [] [RecordEntry sample_close] = Inr c"
proof -
  have eff: "effect (flat [RecordEntry sample_close]) key = 0" for key
    by (simp add: flat_def sample_close_def posting_sum_def)
  have "valid_history sample_limits [RecordEntry sample_close]" by (rule sample_close_history)
  then have "legal (flat [RecordEntry sample_close])" by (simp add: valid_history_def)
  moreover have "fits_i128 (effect (flat (take n [RecordEntry sample_close])) key)" for n key
    using eff by (cases n) (simp_all add: fits_i128_def)
  moreover have "balance_map [] = balances_of (effect (flat [RecordEntry sample_close]))"
    by (simp add: balance_map_def balances_of_def fun_eq_iff eff del: flat_Cons)
  moreover have "fits_usize (2 * (retained (flat [RecordEntry sample_close]) + length (flat [RecordEntry sample_close]) +
      length ([] :: LedgerBalance list) + 1))"
    by (simp add: flat_def sample_close_def fits_u64_def)
  ultimately show ?thesis
    using checkpoint_accepts_iff [of "[RecordEntry sample_close]" "[]" "\<lambda>_ _. True" "\<lambda>_ _. True" 1] sample_histories_wf(3)
    by (simp add: fits_u64_def)
qed

end
