(* ===== verification/OrderedIndex.thy ===== *)
theory OrderedIndex
  imports Domain
begin

text \<open>
  The contract of the bounded ordered map of \<open>src/src/indexed_avl.rs\<close> as its clients see it: the entries in
  strictly increasing order of their keys and the finite capacity.  Handles of the source are addresses
  that are only ever used together with the expected key, so here the key itself is the handle.  Inserting
  a new key into a full map panics; a panic is \<^const>\<open>None\<close>.  The locale \<open>ordered_index\<close> is what the order
  book relies on; it is interpreted here on the entry list and in theory \<open>ArenaAvlProperties\<close> on the arena tree
  itself.
\<close>

named_theorems index_simps \<open>lookups after updates of ordered indexes\<close>

record ('k, 'v) Index =
  index_entries :: "('k \<times> 'v) list"
  index_maximum :: nat

section \<open>Operations\<close>

fun put_entry :: "'k :: linorder \<Rightarrow> 'v \<Rightarrow> ('k \<times> 'v) list \<Rightarrow> ('k \<times> 'v) list" where
  "put_entry k v [] = [(k, v)]"
| "put_entry k v ((k', v') # rest) =
     (if k < k' then (k, v) # (k', v') # rest
      else if k = k' then (k, v) # rest
      else (k', v') # put_entry k v rest)"

definition drop_entry :: "'k \<Rightarrow> ('k \<times> 'v) list \<Rightarrow> ('k \<times> 'v) list" where
  "drop_entry k = filter (\<lambda>e. fst e \<noteq> k)"

definition index_new :: "nat \<Rightarrow> ('k, 'v) Index" where
  "index_new maximum = \<lparr>index_entries = [], index_maximum = maximum\<rparr>"

definition index_len :: "('k, 'v) Index \<Rightarrow> nat" where
  "index_len m = length (index_entries m)"

definition index_get :: "('k, 'v) Index \<Rightarrow> 'k \<Rightarrow> 'v option" where
  "index_get m k = map_of (index_entries m) k"

definition index_insert :: "('k :: linorder, 'v) Index \<Rightarrow> 'k \<Rightarrow> 'v \<Rightarrow> ('v option \<times> ('k, 'v) Index) option" where
  "index_insert m k v =
     (if index_get m k \<noteq> None \<or> index_len m < index_maximum m
      then Some (index_get m k, m\<lparr>index_entries := put_entry k v (index_entries m)\<rparr>)
      else None)"

text \<open>A write through a mutable reference to a value that is present.\<close>

definition index_set :: "('k :: linorder, 'v) Index \<Rightarrow> 'k \<Rightarrow> 'v \<Rightarrow> ('k, 'v) Index" where
  "index_set m k v = m\<lparr>index_entries := put_entry k v (index_entries m)\<rparr>"

definition index_remove :: "('k, 'v) Index \<Rightarrow> 'k \<Rightarrow> 'v option \<times> ('k, 'v) Index" where
  "index_remove m k = (index_get m k, m\<lparr>index_entries := drop_entry k (index_entries m)\<rparr>)"

definition index_first :: "('k, 'v) Index \<Rightarrow> ('k \<times> 'v) option" where
  "index_first m = (case index_entries m of [] \<Rightarrow> None | e # _ \<Rightarrow> Some e)"

definition index_last :: "('k, 'v) Index \<Rightarrow> ('k \<times> 'v) option" where
  "index_last m = (if index_entries m = [] then None else Some (List.last (index_entries m)))"

definition index_successor :: "('k :: linorder, 'v) Index \<Rightarrow> 'k \<Rightarrow> 'k option" where
  "index_successor m k = map_option fst (List.find (\<lambda>e. k < fst e) (index_entries m))"

definition index_predecessor :: "('k :: linorder, 'v) Index \<Rightarrow> 'k \<Rightarrow> 'k option" where
  "index_predecessor m k = map_option fst (List.find (\<lambda>e. fst e < k) (List.rev (index_entries m)))"

definition index_range :: "('k :: linorder, 'v) Index \<Rightarrow> 'k \<Rightarrow> 'k \<Rightarrow> ('k \<times> 'v) list" where
  "index_range m lower upper = filter (\<lambda>e. lower \<le> fst e \<and> fst e \<le> upper) (index_entries m)"

section \<open>Invariant and contents\<close>

definition index_ok :: "('k :: linorder, 'v) Index \<Rightarrow> bool" where
  "index_ok m \<longleftrightarrow> sorted_wrt (<) (map fst (index_entries m)) \<and> length (index_entries m) \<le> index_maximum m"

lemma put_entry_keys: "set (map fst (put_entry k v es)) = insert k (set (map fst es))"
proof (induction es)
  case (Cons e es)
  then show ?case
    by (cases e) (simp add: insert_commute)
qed simp

lemma put_entry_sorted:
  "sorted_wrt (<) (map fst es) \<Longrightarrow> sorted_wrt (<) (map fst (put_entry k v es))"
proof (induction es)
  case (Cons e es)
  obtain k' v' where e: "e = (k', v')"
    by fastforce
  show ?case
    using Cons put_entry_keys [of k v es] by (auto simp: e)
qed simp

lemma put_entry_map:
  "sorted_wrt (<) (map fst es) \<Longrightarrow> map_of (put_entry k v es) = (map_of es)(k \<mapsto> v)"
  by (induction es) (auto simp: fun_eq_iff)

lemma put_entry_length:
  "sorted_wrt (<) (map fst es) \<Longrightarrow>
   length (put_entry k v es) = (if map_of es k = None then Suc (length es) else length es)"
proof (induction es)
  case (Cons e es)
  then have "map_of es k = None" if "k < fst e"
    using that by (auto simp: map_of_eq_None_iff)
  then show ?case
    using Cons by (cases e) auto
qed simp

lemma drop_entry_map: "map_of (drop_entry k es) = (map_of es)(k := None)"
  by (induction es) (auto simp: drop_entry_def fun_eq_iff)

lemma drop_entry_sorted:
  "sorted_wrt (<) (map fst es) \<Longrightarrow> sorted_wrt (<) (map fst (drop_entry k es))"
  by (simp add: drop_entry_def sorted_wrt_map sorted_wrt_filter)

lemma sorted_keys_distinct: "sorted_wrt (<) (map fst es) \<Longrightarrow> distinct (map fst (es :: ('k :: linorder \<times> 'v) list))"
  by (simp add: strict_sorted_iff)

lemma drop_entry_length: "length (drop_entry k es) \<le> length es"
  by (simp add: drop_entry_def)

lemma index_new_ok [simp]: "index_ok (index_new n)" "index_get (index_new n) k = None"
    "index_len (index_new n) = 0" "index_maximum (index_new n) = n"
  by (simp_all add: index_ok_def index_new_def index_get_def index_len_def)

lemma index_insert_Some:
  assumes "index_ok m" "index_get m k \<noteq> None \<or> index_len m < index_maximum m"
  obtains m' where "index_insert m k v = Some (index_get m k, m')" "index_ok m'"
    "index_get m' = (index_get m)(k \<mapsto> v)" "index_maximum m' = index_maximum m"
    "index_len m' = (if index_get m k = None then Suc (index_len m) else index_len m)"
proof -
  let ?m = "m\<lparr>index_entries := put_entry k v (index_entries m)\<rparr>"
  have "index_insert m k v = Some (index_get m k, ?m)"
    using assms(2) by (simp add: index_insert_def)
  moreover have "index_ok ?m"
    using assms by (auto simp: index_ok_def put_entry_sorted put_entry_length index_get_def index_len_def)
  moreover have "index_get ?m = (index_get m)(k \<mapsto> v)"
    using assms by (auto simp: index_ok_def index_get_def put_entry_map fun_eq_iff)
  moreover have "index_len ?m = (if index_get m k = None then Suc (index_len m) else index_len m)"
    using assms by (simp add: index_ok_def index_len_def index_get_def put_entry_length)
  ultimately show thesis
    using that [of ?m] by simp
qed

lemma index_insert_cases:
  assumes "index_ok m" "index_insert m k v = Some (old, m')"
  shows "old = index_get m k" "index_ok m'" "index_get m' = (index_get m)(k \<mapsto> v)"
    "index_maximum m' = index_maximum m"
    "index_len m' = (if index_get m k = None then Suc (index_len m) else index_len m)"
proof -
  have "index_get m k \<noteq> None \<or> index_len m < index_maximum m"
    using assms(2) by (simp add: index_insert_def split: if_splits)
  from index_insert_Some [OF assms(1) this, of v] show "old = index_get m k" "index_ok m'"
      "index_get m' = (index_get m)(k \<mapsto> v)" "index_maximum m' = index_maximum m"
      "index_len m' = (if index_get m k = None then Suc (index_len m) else index_len m)"
    using assms(2) by (metis option.inject prod.inject)+
qed

lemma drop_entry_len_Suc:
  "distinct (map fst es) \<Longrightarrow> map_of es k \<noteq> None \<Longrightarrow> Suc (length (drop_entry k es)) = length es"
proof (induction es)
  case (Cons e es)
  have "k \<notin> fst ` set es \<Longrightarrow> filter (\<lambda>e. fst e \<noteq> k) es = es"
    by (rule filter_True) auto
  then show ?case
    using Cons by (cases "fst e = k") (auto simp: drop_entry_def)
qed simp

lemma drop_entry_absent: "map_of es k = None \<Longrightarrow> drop_entry k es = es"
  by (auto simp: drop_entry_def filter_id_conv map_of_eq_None_iff)

lemma index_remove_facts:
  assumes "index_ok m" "index_remove m k = (old, m')"
  shows "old = index_get m k" "index_ok m'" "index_get m' = (index_get m)(k := None)"
    "index_maximum m' = index_maximum m"
    "index_len m' = (if index_get m k = None then index_len m else index_len m - 1)"
proof -
  have m': "m' = m\<lparr>index_entries := drop_entry k (index_entries m)\<rparr>"
    and "old = index_get m k"
    using assms(2) by (auto simp: index_remove_def)
  show "old = index_get m k"
    by fact
  show "index_ok m'"
    using assms(1) le_trans [OF drop_entry_length, of "index_entries m" "index_maximum m" k]
    by (simp add: m' index_ok_def drop_entry_sorted)
  show "index_get m' = (index_get m)(k := None)" "index_maximum m' = index_maximum m"
    by (simp_all add: m' index_get_def [abs_def] drop_entry_map)
  have d: "distinct (map fst (index_entries m))"
    using assms(1) by (simp add: index_ok_def sorted_keys_distinct)
  show "index_len m' = (if index_get m k = None then index_len m else index_len m - 1)"
    using drop_entry_len_Suc [OF d, of k] drop_entry_absent [of "index_entries m" k]
    by (auto simp: m' index_len_def index_get_def)
qed

lemma index_get_in: "index_get m k = Some v \<Longrightarrow> (k, v) \<in> set (index_entries m)"
  by (simp add: index_get_def map_of_SomeD)

lemma index_get_iff:
  "index_ok m \<Longrightarrow> index_get m k = Some v \<longleftrightarrow> (k, v) \<in> set (index_entries m)"
  by (simp add: index_ok_def index_get_def sorted_keys_distinct)

lemma index_len_dom: "index_ok m \<Longrightarrow> index_len m = card (dom (index_get m))"
  using distinct_card [of "map fst (index_entries m)"]
  by (simp add: index_ok_def index_len_def index_get_def [abs_def] sorted_keys_distinct dom_map_of_conv_image_fst)

lemma index_first_iff:
  assumes "index_ok m"
  shows "index_first m = Some (k, v) \<longleftrightarrow> index_get m k = Some v \<and> (\<forall>k' v'. index_get m k' = Some v' \<longrightarrow> k \<le> k')"
proof (cases "index_entries m")
  case Nil
  then show ?thesis
    by (simp add: index_first_def index_get_def)
next
  case (Cons e es)
  then have lt: "\<forall>x \<in> set es. fst e < fst x"
    using assms by (auto simp: index_ok_def)
  show ?thesis
    using lt by (auto simp: index_first_def index_get_iff [OF assms] Cons) (metis fst_conv leD less_imp_le prod.collapse eq_iff)+
qed

lemma index_last_iff:
  assumes "index_ok m"
  shows "index_last m = Some (k, v) \<longleftrightarrow> index_get m k = Some v \<and> (\<forall>k' v'. index_get m k' = Some v' \<longrightarrow> k' \<le> k)"
proof (cases "index_entries m" rule: rev_cases)
  case Nil
  then show ?thesis
    by (simp add: index_last_def index_get_def)
next
  case (snoc es e)
  then have lt: "\<forall>x \<in> set es. fst x < fst e"
    using assms by (auto simp: index_ok_def sorted_wrt_append)
  show ?thesis
    using lt by (auto simp: index_last_def index_get_iff [OF assms] snoc) (metis fst_conv leD less_imp_le prod.collapse eq_iff)+
qed

lemma index_set_facts:
  assumes "index_ok m" "index_get m k \<noteq> None"
  shows "index_ok (index_set m k v)" "index_get (index_set m k v) = (index_get m)(k \<mapsto> v)"
    "index_maximum (index_set m k v) = index_maximum m" "index_len (index_set m k v) = index_len m"
proof -
  have "index_insert m k v = Some (index_get m k, index_set m k v)"
    using assms(2) by (simp add: index_insert_def index_set_def)
  from index_insert_cases [OF assms(1) this]
  show "index_ok (index_set m k v)" "index_get (index_set m k v) = (index_get m)(k \<mapsto> v)"
    "index_maximum (index_set m k v) = index_maximum m" "index_len (index_set m k v) = index_len m"
    using assms(2) by auto
qed

text \<open>Aggregates over the entries.\<close>

definition index_sum :: "('v \<Rightarrow> nat) \<Rightarrow> ('k, 'v) Index \<Rightarrow> nat" where
  "index_sum f m = (\<Sum>e\<leftarrow>index_entries m. f (snd e))"

lemma put_entry_sum:
  "sorted_wrt (<) (map fst es) \<Longrightarrow>
   (\<Sum>e\<leftarrow>put_entry k v es. f (snd e)) + (case map_of es k of None \<Rightarrow> 0 | Some old \<Rightarrow> f old) =
   (\<Sum>e\<leftarrow>es. f (snd e)) + (f v :: nat)"
proof (induction es)
  case (Cons e es)
  then have "map_of es k = None" if "k < fst e"
    using that by (auto simp: map_of_eq_None_iff)
  then show ?case
    using Cons by (cases e) (auto split: option.splits)
qed simp

lemma drop_entry_sum:
  "distinct (map fst es) \<Longrightarrow>
   (\<Sum>e\<leftarrow>drop_entry k es. f (snd e)) + (case map_of es k of None \<Rightarrow> 0 | Some old \<Rightarrow> f old) =
   (\<Sum>e\<leftarrow>es. (f (snd e) :: nat))"
proof (induction es)
  case (Cons e es)
  have "drop_entry k es = es \<and> map_of es k = None" if "fst e = k"
  proof -
    have "map_of es k = None"
      using that Cons.prems by (simp add: map_of_eq_None_iff)
    then show ?thesis
      by (simp add: drop_entry_absent)
  qed
  then show ?case
    using Cons by (cases e) (auto simp: drop_entry_def split: option.splits)
qed (simp add: drop_entry_def)

lemma index_insert_sum:
  assumes "index_ok m" "index_insert m k v = Some (old, m')"
  shows "index_sum f m' + (case old of None \<Rightarrow> 0 | Some w \<Rightarrow> f w) = index_sum f m + f v"
  using assms put_entry_sum [of "index_entries m" f k v]
  by (auto simp: index_ok_def index_insert_def index_sum_def index_get_def split: if_splits)

lemma index_set_sum:
  assumes "index_ok m" "index_get m k = Some old"
  shows "index_sum f (index_set m k v) + f old = index_sum f m + f v"
  using assms put_entry_sum [of "index_entries m" f k v]
  by (auto simp: index_ok_def index_set_def index_sum_def index_get_def)

lemma index_remove_sum:
  assumes "index_ok m" "index_remove m k = (Some old, m')"
  shows "index_sum f m' + f old = index_sum f m"
  using assms drop_entry_sum [of "index_entries m" f k]
  by (auto simp: index_ok_def index_remove_def index_sum_def index_get_def sorted_keys_distinct)

lemma index_sum_ge: "index_get m k = Some v \<Longrightarrow> f v \<le> index_sum f m"
  by (force simp: index_sum_def index_get_def dest!: map_of_SomeD intro: member_le_sum_list)

section \<open>Neighbours\<close>

lemma find_split:
  assumes "List.find P xs = Some x"
  shows "\<exists>us vs. xs = us @ x # vs \<and> P x \<and> (\<forall>u \<in> set us. \<not> P u)"
proof -
  obtain i where i: "i < length xs" "P (xs ! i)" "x = xs ! i" "\<forall>j<i. \<not> P (xs ! j)"
    using assms by (auto simp: find_Some_iff)
  have "xs = take i xs @ x # drop (Suc i) xs"
    using i by (simp add: id_take_nth_drop)
  moreover have "\<forall>u \<in> set (take i xs). \<not> P u"
    using i by (auto simp: in_set_conv_nth)
  ultimately show ?thesis
    using i by blast
qed

lemma index_successor_facts:
  assumes "index_ok m"
  shows "index_successor m k = Some k' \<Longrightarrow>
      index_get m k' \<noteq> None \<and> k < k' \<and> (\<forall>q. index_get m q \<noteq> None \<longrightarrow> k < q \<longrightarrow> k' \<le> q)"
    and "index_successor m k = None \<Longrightarrow> index_get m q \<noteq> None \<Longrightarrow> q \<le> k"
proof -
  let ?es = "index_entries m"
  have keys: "index_get m q \<noteq> None \<longleftrightarrow> q \<in> fst ` set ?es" for q
    by (auto simp: index_get_def map_of_eq_None_iff)
  show "index_get m k' \<noteq> None \<and> k < k' \<and> (\<forall>q. index_get m q \<noteq> None \<longrightarrow> k < q \<longrightarrow> k' \<le> q)"
    if "index_successor m k = Some k'"
  proof -
    note found = that
    obtain us e vs where e: "?es = us @ e # vs" "k < fst e" "\<forall>u \<in> set us. \<not> k < fst u" "fst e = k'"
      using found find_split [of "\<lambda>e. k < fst e" ?es] unfolding index_successor_def map_option_eq_Some by blast
    have "\<forall>x \<in> set vs. fst e < fst x"
      using assms e(1) by (auto simp: index_ok_def sorted_wrt_append)
    then show ?thesis
      using e unfolding keys by (auto simp: less_imp_le)
  qed
  show "q \<le> k" if "index_successor m k = None" "index_get m q \<noteq> None"
    using that unfolding keys by (auto simp: index_successor_def find_None_iff not_less)
qed

lemma index_predecessor_facts:
  assumes "index_ok m"
  shows "index_predecessor m k = Some k' \<Longrightarrow>
      index_get m k' \<noteq> None \<and> k' < k \<and> (\<forall>q. index_get m q \<noteq> None \<longrightarrow> q < k \<longrightarrow> q \<le> k')"
    and "index_predecessor m k = None \<Longrightarrow> index_get m q \<noteq> None \<Longrightarrow> k \<le> q"
proof -
  let ?es = "index_entries m"
  have keys: "index_get m q \<noteq> None \<longleftrightarrow> q \<in> fst ` set ?es" for q
    by (auto simp: index_get_def map_of_eq_None_iff)
  show "index_get m k' \<noteq> None \<and> k' < k \<and> (\<forall>q. index_get m q \<noteq> None \<longrightarrow> q < k \<longrightarrow> q \<le> k')"
    if "index_predecessor m k = Some k'"
  proof -
    note found = that
    obtain us e vs where e: "rev ?es = us @ e # vs" "fst e < k" "\<forall>u \<in> set us. \<not> fst u < k" "fst e = k'"
      using found find_split [of "\<lambda>e. fst e < k" "rev ?es"] unfolding index_predecessor_def map_option_eq_Some by blast
    have es: "?es = rev vs @ e # rev us"
      using e(1) by (simp add: rev_swap)
    have "\<forall>x \<in> set vs. fst x < fst e"
      using assms by (auto simp: index_ok_def sorted_wrt_append es)
    then show ?thesis
      using e(2,3,4) unfolding keys es by (auto simp: less_imp_le)
  qed
  show "k \<le> q" if "index_predecessor m k = None" "index_get m q \<noteq> None"
    using that unfolding keys by (auto simp: index_predecessor_def find_None_iff not_less)
qed

section \<open>The interface: ordered maps with two ends\<close>

definition better :: "Side \<Rightarrow> 'k :: linorder \<Rightarrow> 'k \<Rightarrow> bool" where
  "better side candidate current = (case side of Buy \<Rightarrow> current < candidate | Sell \<Rightarrow> candidate < current)"

lemma better_total: "a \<noteq> b \<Longrightarrow> better side a b \<or> better side b a"
  and better_irrefl [simp]: "\<not> better side a a"
  and better_asym: "better side a b \<Longrightarrow> \<not> better side b a"
  and better_trans: "better side a b \<Longrightarrow> better side b c \<Longrightarrow> better side a c"
  by (auto simp: better_def split: Side.splits)

locale ordered_index =
  fixes ok :: "'m \<Rightarrow> bool"
    and get :: "'m \<Rightarrow> 'k :: linorder \<Rightarrow> 'v option"
    and insert_new :: "'m \<Rightarrow> 'k \<Rightarrow> 'v \<Rightarrow> ('v option \<times> 'm) option"
    and remove :: "'m \<Rightarrow> 'k \<Rightarrow> 'v option \<times> 'm"
    and extremum :: "Side \<Rightarrow> 'm \<Rightarrow> ('k \<times> 'v) option"
  assumes insert_law: "ok m \<Longrightarrow> insert_new m k v = Some (old, m') \<Longrightarrow>
      ok m' \<and> old = get m k \<and> get m' = (get m)(k \<mapsto> v)"
    and remove_law: "ok m \<Longrightarrow> remove m k = (old, m') \<Longrightarrow>
      ok m' \<and> old = get m k \<and> get m' = (get m)(k := None)"
    and extremum_law: "ok m \<Longrightarrow> extremum side m = Some (k, v) \<longleftrightarrow>
      get m k = Some v \<and> (\<forall>k'. get m k' \<noteq> None \<longrightarrow> \<not> better side k' k)"
    and extremum_empty: "ok m \<Longrightarrow> extremum side m = None \<Longrightarrow> get m k = None"
begin

text \<open>Two maps with the same contents have the same extremum.\<close>

lemma extremum_cong:
  assumes "ok m" "ok m'" "get m = get m'"
  shows "extremum side m = extremum side m'"
proof (cases "extremum side m")
  case None
  then have "get m' k = None" for k
    using extremum_empty assms by metis
  then show ?thesis
    using None extremum_law [OF assms(2), of side] by (cases "extremum side m'") auto
next
  case (Some kv)
  then have "extremum side m' = Some kv"
    using extremum_law assms by (metis surj_pair)
  then show ?thesis
    using Some by simp
qed

lemma extremum_after_insert:
  assumes "ok m" "ok m'" "get m' = (get m)(k \<mapsto> v)"
  shows "extremum side m' =
    (case extremum side m of None \<Rightarrow> Some (k, v)
     | Some (b, w) \<Rightarrow> if b = k \<or> better side k b then Some (k, v) else Some (b, w))"
proof (cases "extremum side m")
  case None
  then have "get m q = None" for q
    using extremum_empty assms(1) by blast
  then show ?thesis
    using None assms by (simp add: extremum_law)
next
  case (Some bw)
  then obtain b w where bw: "extremum side m = Some (b, w)"
    by (cases bw) auto
  then have b: "get m b = Some w" "\<forall>q. get m q \<noteq> None \<longrightarrow> \<not> better side q b"
    using extremum_law assms(1) by blast+
  show ?thesis
  proof (cases "b = k \<or> better side k b")
    case True
    then have "\<forall>q. get m' q \<noteq> None \<longrightarrow> \<not> better side q k"
      using b better_trans better_irrefl assms(3) by (metis fun_upd_apply)
    then have "extremum side m' = Some (k, v)"
      using extremum_law assms(2,3) by simp
    then show ?thesis
      using True by (simp add: bw)
  next
    case False
    then have "extremum side m' = Some (b, w)"
      using b assms(2,3) by (auto simp: extremum_law)
    then show ?thesis
      using False by (simp add: bw)
  qed
qed

lemma extremum_after_other_removed:
  assumes "ok m" "ok m'" "get m' = (get m)(k := None)" "map_option fst (extremum side m) \<noteq> Some k"
  shows "extremum side m' = extremum side m"
proof (cases "extremum side m")
  case None
  then have "get m q = None" for q
    using extremum_empty assms(1) by blast
  then have "extremum side m' \<noteq> Some (a, c)" for a c
    using assms(2,3) by (simp add: extremum_law)
  then show ?thesis
    using None by (metis not_None_eq surj_pair)
next
  case (Some bw)
  then obtain b w where bw: "extremum side m = Some (b, w)"
    by (cases bw) auto
  then have "get m b = Some w" "\<forall>q. get m q \<noteq> None \<longrightarrow> \<not> better side q b"
    using extremum_law assms(1) by blast+
  moreover have "b \<noteq> k"
    using assms(4) by (simp add: bw)
  ultimately have "extremum side m' = Some (b, w)"
    using assms(2,3) by (simp add: extremum_law)
  then show ?thesis
    by (simp add: bw)
qed

end

definition index_extremum :: "Side \<Rightarrow> ('k, 'v) Index \<Rightarrow> ('k \<times> 'v) option" where
  "index_extremum side m = (case side of Buy \<Rightarrow> index_last m | Sell \<Rightarrow> index_first m)"

interpretation li: ordered_index index_ok index_get index_insert index_remove index_extremum
proof
  fix m :: "('k :: linorder, 'v) Index" and k v old m'
  assume "index_ok m" "index_insert m k v = Some (old, m')"
  from index_insert_cases [OF this]
  show "index_ok m' \<and> old = index_get m k \<and> index_get m' = (index_get m)(k \<mapsto> v)"
    by simp
next
  fix m :: "('k :: linorder, 'v) Index" and k old m'
  assume "index_ok m" "index_remove m k = (old, m')"
  from index_remove_facts [OF this]
  show "index_ok m' \<and> old = index_get m k \<and> index_get m' = (index_get m)(k := None)"
    by simp
next
  fix m :: "('k :: linorder, 'v) Index" and side k v
  assume "index_ok m"
  then show "index_extremum side m = Some (k, v) \<longleftrightarrow>
      index_get m k = Some v \<and> (\<forall>k'. index_get m k' \<noteq> None \<longrightarrow> \<not> better side k' k)"
    by (cases side) (auto simp: index_extremum_def better_def index_first_iff index_last_iff not_less)
next
  fix m :: "('k :: linorder, 'v) Index" and side k
  assume "index_extremum side m = None"
  then show "index_get m k = None"
    by (auto simp: index_extremum_def index_first_def index_last_def index_get_def
        split: Side.splits list.splits if_splits)
qed

end
