(* ===== verification/MatchingTypes.thy ===== *)
theory MatchingTypes
  imports Domain
begin

text \<open>
  The vocabulary of \<open>src/src/matching.rs\<close>: the commands an order book accepts, the events it emits and the
  enumerations they carry, with the trading states of \<open>src/src/instrument.rs\<close>.  Constructors and fields
  keep the names of the source; a prefix or suffix is added where two types share a name.
\<close>

section \<open>Order terms\<close>

datatype StopActivation = StopMarket | StopLimit Price

datatype OrderType = Market | MarketToLimit | Limit Price | Stop Price StopActivation

fun activation_order_type :: "StopActivation \<Rightarrow> OrderType" where
  "activation_order_type StopMarket = Market"
| "activation_order_type (StopLimit price) = Limit price"

fun risk_price :: "StopActivation \<Rightarrow> Price option" where
  "risk_price StopMarket = None"
| "risk_price (StopLimit price) = Some price"

fun order_stop :: "OrderType \<Rightarrow> (Price \<times> StopActivation) option" where
  "order_stop (Stop trigger_price activation) = Some (trigger_price, activation)"
| "order_stop _ = None"

fun order_active :: "OrderType \<Rightarrow> OrderType" where
  "order_active (Stop trigger_price activation) = activation_order_type activation"
| "order_active order_type = order_type"

datatype OrderDisplay = FullyDisplayed | Reserve Quantity | Hidden

definition is_reserve :: "OrderDisplay \<Rightarrow> bool" where
  "is_reserve display = (case display of Reserve _ \<Rightarrow> True | _ \<Rightarrow> False)"

definition is_hidden :: "OrderDisplay \<Rightarrow> bool" where
  "is_hidden display = (display = Hidden)"

fun peak :: "OrderDisplay \<Rightarrow> Quantity option" where
  "peak (Reserve p) = Some p"
| "peak _ = None"

fun working_lots :: "OrderDisplay \<Rightarrow> nat \<Rightarrow> nat" where
  "working_lots (Reserve p) total_leaves = (if p < total_leaves then p else total_leaves)"
| "working_lots _ total_leaves = total_leaves"

fun visible_lots :: "OrderDisplay \<Rightarrow> nat \<Rightarrow> nat" where
  "visible_lots Hidden working = 0"
| "visible_lots _ working = working"

fun same_mode :: "OrderDisplay \<Rightarrow> OrderDisplay \<Rightarrow> bool" where
  "same_mode FullyDisplayed FullyDisplayed = True"
| "same_mode (Reserve _) (Reserve _) = True"
| "same_mode Hidden Hidden = True"
| "same_mode _ _ = False"

datatype TimeInForce = GoodTilCancelled | GoodTilTimestamp TimestampNs | ImmediateOrCancel
  | ImmediateOrCancelWithMinimum Quantity | FillOrKill | PostOnly

fun may_rest :: "TimeInForce \<Rightarrow> bool" where
  "may_rest GoodTilCancelled = True"
| "may_rest (GoodTilTimestamp _) = True"
| "may_rest PostOnly = True"
| "may_rest _ = False"

fun tif_expires_at :: "TimeInForce \<Rightarrow> TimestampNs option" where
  "tif_expires_at (GoodTilTimestamp expires_at) = Some expires_at"
| "tif_expires_at _ = None"

fun minimum_quantity :: "TimeInForce \<Rightarrow> Quantity option" where
  "minimum_quantity (ImmediateOrCancelWithMinimum m) = Some m"
| "minimum_quantity _ = None"

datatype SelfTradePrevention = CancelAggressor | CancelResting | CancelBoth | DecrementAndCancel

section \<open>Commands\<close>

record NewOrder =
  new_command_id :: CommandId
  new_order_id :: OrderId
  new_account_id :: AccountId
  new_instrument_id :: InstrumentId
  new_instrument_version :: InstrumentVersion
  new_side :: Side
  new_quantity :: Quantity
  new_display :: OrderDisplay
  new_order_type :: OrderType
  new_time_in_force :: TimeInForce
  new_self_trade_prevention :: SelfTradePrevention
  new_received_at :: TimestampNs

record CancelOrder =
  cancel_command_id :: CommandId
  cancel_order_id :: OrderId
  cancel_account_id :: AccountId
  cancel_instrument_id :: InstrumentId
  cancel_instrument_version :: InstrumentVersion
  cancel_received_at :: TimestampNs

datatype MassCancelScope = ScopeAll | ScopeSide Side

fun scope_includes :: "MassCancelScope \<Rightarrow> Side \<Rightarrow> bool" where
  "scope_includes ScopeAll side = True"
| "scope_includes (ScopeSide selected) side = (selected = side)"

record MassCancel =
  mass_command_id :: CommandId
  mass_account_id :: AccountId
  mass_instrument_id :: InstrumentId
  mass_instrument_version :: InstrumentVersion
  mass_scope :: MassCancelScope
  mass_received_at :: TimestampNs

record ReplaceOrder =
  replace_command_id :: CommandId
  replace_order_id :: OrderId
  replace_account_id :: AccountId
  replace_instrument_id :: InstrumentId
  replace_instrument_version :: InstrumentVersion
  replace_quantity :: Quantity
  replace_price :: Price
  replace_display :: OrderDisplay
  replace_received_at :: TimestampNs

datatype AccountAdmissionState = Enabled | Blocked

datatype AccountControlAction = BlockAndCancel | Enable

fun resulting_state :: "AccountControlAction \<Rightarrow> AccountAdmissionState" where
  "resulting_state BlockAndCancel = Blocked"
| "resulting_state Enable = Enabled"

record AccountControl =
  account_command_id :: CommandId
  account_account_id :: AccountId
  account_instrument_id :: InstrumentId
  account_instrument_version :: InstrumentVersion
  account_expected_revision :: nat
  account_action :: AccountControlAction
  account_received_at :: TimestampNs

datatype TradingStateControlAction = Transition | TransitionAndCancel

datatype TradingState = Open | CancelOnly | Halted | Closed

definition permits_entry :: "TradingState \<Rightarrow> bool" where
  "permits_entry state \<longleftrightarrow> state = Open"

record TradingStateControl =
  state_command_id :: CommandId
  state_instrument_id :: InstrumentId
  state_instrument_version :: InstrumentVersion
  state_expected_revision :: nat
  target_state :: TradingState
  state_action :: TradingStateControlAction
  state_received_at :: TimestampNs

record ExpirySweep =
  expiry_command_id :: CommandId
  expiry_instrument_id :: InstrumentId
  expiry_instrument_version :: InstrumentVersion
  expiry_through :: TimestampNs
  expiry_received_at :: TimestampNs

record StopReferenceCursor =
  source_id :: nat
  source_version :: nat
  source_sequence :: nat

record StopReference =
  reference_cursor :: StopReferenceCursor
  reference_price :: Price

record StopTriggerSweep =
  trigger_command_id :: CommandId
  trigger_instrument_id :: InstrumentId
  trigger_instrument_version :: InstrumentVersion
  trigger_reference :: StopReference
  maximum_orders :: nat
  trigger_received_at :: TimestampNs

record TradingStateSnapshot =
  snapshot_trading_state :: TradingState
  trading_revision :: nat

record AccountControlSnapshot =
  admission_state :: AccountAdmissionState
  admission_revision :: nat

datatype Command =
    New NewOrder
  | Cancel CancelOrder
  | Replace ReplaceOrder
  | CommandMassCancel MassCancel
  | CommandAccountControl AccountControl
  | CommandTradingStateControl TradingStateControl
  | CommandExpirySweep ExpirySweep
  | CommandStopTriggerSweep StopTriggerSweep

fun command_id :: "Command \<Rightarrow> CommandId" where
  "command_id (New command) = new_command_id command"
| "command_id (Cancel command) = cancel_command_id command"
| "command_id (Replace command) = replace_command_id command"
| "command_id (CommandMassCancel command) = mass_command_id command"
| "command_id (CommandAccountControl command) = account_command_id command"
| "command_id (CommandTradingStateControl command) = state_command_id command"
| "command_id (CommandExpirySweep command) = expiry_command_id command"
| "command_id (CommandStopTriggerSweep command) = trigger_command_id command"

fun received_at :: "Command \<Rightarrow> TimestampNs" where
  "received_at (New command) = new_received_at command"
| "received_at (Cancel command) = cancel_received_at command"
| "received_at (Replace command) = replace_received_at command"
| "received_at (CommandMassCancel command) = mass_received_at command"
| "received_at (CommandAccountControl command) = account_received_at command"
| "received_at (CommandTradingStateControl command) = state_received_at command"
| "received_at (CommandExpirySweep command) = expiry_received_at command"
| "received_at (CommandStopTriggerSweep command) = trigger_received_at command"

section \<open>Outcomes\<close>

datatype AdmissionError = AdmissionWrongInstrument | WrongVersion | TradingStateDisallowsEntry
  | AdmissionPriceOffTickGrid | AdmissionPriceOutsideCollar | AdmissionQuantityOffGrid
  | AdmissionQuantityOutsideLimits | AdmissionReserveOrderNotSupported
  | AdmissionHiddenOrderNotSupported | AdmissionDisplayQuantityOffGrid
  | AdmissionDisplayQuantityNotLessThanOrder | AdmissionReserveReplenishmentLimit

datatype (plugins del: code quickcheck_random quickcheck_exhaustive quickcheck_bounded_forall quickcheck_full_exhaustive quickcheck_narrowing) RejectReason = WrongInstrument | DuplicateOrder | UnknownOrder | NotOrderOwner
  | MarketOrderCannotRest | MarketOrderCannotPost | UnsupportedFokSelfTradePolicy
  | InvalidMinimumQuantity | UnsupportedMinimumQuantitySelfTradePolicy | InsufficientLiquidity
  | PostOnlyWouldCross | WrongInstrumentVersion | InstrumentNotOpen | PriceOffTickGrid
  | PriceOutsideCollar | QuantityOffGrid | QuantityOutsideLimits | RiskProfileMissing
  | RiskAccountBlocked | RiskReduceOnly | RiskOrderQuantityLimit | RiskOrderNotionalLimit
  | RiskOpenOrderCountLimit | RiskOpenQuantityLimit | RiskOpenNotionalLimit | RiskPositionLimit
  | RiskArithmeticOverflow | ReserveOrderNotSupported | HiddenOrderNotSupported
  | DisplayQuantityOffGrid | DisplayQuantityNotLessThanOrder | ReserveReplenishmentLimit
  | ReserveOrderCannotBeImmediate | HiddenOrderCannotBeImmediate | OrderDisplayModeChangeNotAllowed
  | AccountAdmissionBlocked | AccountControlRevisionMismatch | AccountControlRevisionExhausted
  | TradingStateControlRevisionMismatch | TradingStateControlRevisionExhausted
  | TradingStateUnchanged | TradingStateControlCannotCancelIntoOpen | OrderAlreadyExpired
  | ExpiryWatermarkRegression | ExpiryHorizonAfterCommandTime | StopReferenceUnavailable
  | StopAlreadyTriggered | StopTriggerBatchEmpty | StopTriggerBatchExceedsActiveOrderCapacity
  | StopTriggerBacklog | StopReferenceCursorCollision | StopReferenceSourceMismatch
  | StopReferenceVersionDiscontinuity | StopReferenceSequenceDiscontinuity | StopMarketCannotPost
  | StopMarketCannotBeReplaced | MarketToLimitBookEmpty | MarketToLimitRequiresRestingLifetime

fun admission_reject :: "AdmissionError \<Rightarrow> RejectReason" where
  "admission_reject AdmissionWrongInstrument = WrongInstrument"
| "admission_reject WrongVersion = WrongInstrumentVersion"
| "admission_reject TradingStateDisallowsEntry = InstrumentNotOpen"
| "admission_reject AdmissionPriceOffTickGrid = PriceOffTickGrid"
| "admission_reject AdmissionPriceOutsideCollar = PriceOutsideCollar"
| "admission_reject AdmissionQuantityOffGrid = QuantityOffGrid"
| "admission_reject AdmissionQuantityOutsideLimits = QuantityOutsideLimits"
| "admission_reject AdmissionReserveOrderNotSupported = ReserveOrderNotSupported"
| "admission_reject AdmissionHiddenOrderNotSupported = HiddenOrderNotSupported"
| "admission_reject AdmissionDisplayQuantityOffGrid = DisplayQuantityOffGrid"
| "admission_reject AdmissionDisplayQuantityNotLessThanOrder = DisplayQuantityNotLessThanOrder"
| "admission_reject AdmissionReserveReplenishmentLimit = ReserveReplenishmentLimit"

datatype CancelReason = UserRequested | UnfilledRemainder | SelfTradeAggressor | SelfTradeResting
  | MassCancelled | AccountControlled | TradingStateControlled | Expired | TriggeredFokUnfilled
  | TriggeredPostOnlyWouldCross | TriggeredCapacityUnavailable | MinimumQuantityUnavailable

datatype EventKind =
    OrderAccepted OrderId Quantity OrderDisplay
  | MarketToLimitPriced OrderId Price
  | OrderRested OrderId Price Quantity Quantity
  | OrderRefreshed OrderId Price Quantity Quantity
  | MassCancelCompleted AccountId MassCancelScope nat nat
  | AccountControlApplied AccountId AccountAdmissionState AccountAdmissionState nat nat nat
  | TradingStateControlApplied TradingState TradingState nat nat nat
  | ExpirySweepCompleted "TimestampNs option" TimestampNs nat nat
  | StopOrderArmed OrderId Price StopActivation nat
  | StopOrderTriggered OrderId Price StopReference nat
  | StopTriggerSweepCompleted "StopReference option" StopReference nat nat
  | TradeOccurred Trade
  | OrderCancelled OrderId Quantity CancelReason
  | OrderReplaced OrderId Price Price Quantity Quantity OrderDisplay OrderDisplay bool
  | SelfTradePrevented OrderId OrderId Quantity SelfTradePrevention
  | CommandRejected RejectReason

record Event =
  event_sequence :: nat
  event_command_id :: CommandId
  occurred_at :: TimestampNs
  event_kind :: EventKind

datatype CommandOutcome = Accepted | Rejected RejectReason

record ExecutionReport =
  report_command_id :: CommandId
  report_outcome :: CommandOutcome
  report_events :: "Event list"
  report_replayed :: bool

section \<open>Facts about displays\<close>

lemma is_hidden_simps [simp]:
  "is_hidden Hidden" "\<not> is_hidden FullyDisplayed" "\<not> is_hidden (Reserve p)"
  by (simp_all add: is_hidden_def)

lemma working_lots_le [simp]: "working_lots display leaves \<le> leaves"
  by (cases display) auto

lemma working_lots_pos:
  "0 < leaves \<Longrightarrow> (\<And>p. display = Reserve p \<Longrightarrow> 0 < p) \<Longrightarrow> 0 < working_lots display leaves"
  by (cases display) auto

lemma visible_lots_le [simp]: "visible_lots display n \<le> n"
  by (cases display) auto

lemma visible_lots_hidden: "is_hidden display \<Longrightarrow> visible_lots display n = 0"
  by (cases display) auto

lemma visible_lots_shown: "\<not> is_hidden display \<Longrightarrow> visible_lots display n = n"
  by (cases display) auto

end
