(* ===== verification/PriceLevels.thy ===== *)
theory PriceLevels
  imports OrderedIndex MatchingTypes "HOL-Library.Monad_Syntax"
begin

text \<open>
  One side of the book in \<open>src/src/matching.rs\<close>: the execution-price index, the public-price index of its
  visibly occupied levels, and the cached extrema and event work that every mutation maintains.  The
  section on the invariant shows that the caches always equal what a fresh search of the indexes finds.
  Overflow checks are enabled in every build profile, so an overflowing addition or subtraction is a panic
  (\<^const>\<open>None\<close>) like a failed assertion.
\<close>

record PriceLevel =
  level_head :: OrderId
  level_tail :: OrderId
  displayed_tail :: "OrderId option"
  total_quantity :: nat
  order_count :: nat
  visible_order_count :: nat
  level_event_units :: nat

record PriceLevels =
  levels_side :: Side
  by_price :: "(Price, PriceLevel) Index"
  visible_by_price :: "(Price, unit) Index"
  best :: "(Price \<times> PriceLevel) option"
  best_handle :: "Price option"
  best_visible :: "(Price \<times> PriceLevel) option"
  side_event_units :: nat

section \<open>Operations\<close>

definition levels_new :: "Side \<Rightarrow> nat \<Rightarrow> PriceLevels" where
  "levels_new side maximum_levels =
     \<lparr>levels_side = side, by_price = index_new maximum_levels, visible_by_price = index_new maximum_levels,
      best = None, best_handle = None, best_visible = None, side_event_units = 0\<rparr>"

definition levels_get :: "PriceLevels \<Rightarrow> Price \<Rightarrow> PriceLevel option" where
  "levels_get l price = index_get (by_price l) price"

definition levels_len :: "PriceLevels \<Rightarrow> nat" where
  "levels_len l = index_len (by_price l)"

definition levels_best_price :: "PriceLevels \<Rightarrow> Price option" where
  "levels_best_price l = map_option fst (best l)"

definition best_level_with_handle :: "PriceLevels \<Rightarrow> (Price \<times> PriceLevel) option" where
  "best_level_with_handle l =
     (case best_handle l of None \<Rightarrow> None
      | Some handle \<Rightarrow> (case best l of None \<Rightarrow> None | Some (price, level) \<Rightarrow> Some (handle, level)))"

definition levels_handle :: "PriceLevels \<Rightarrow> Price \<Rightarrow> Price option" where
  "levels_handle l price = (if index_get (by_price l) price = None then None else Some price)"

definition next_worse :: "PriceLevels \<Rightarrow> Price \<Rightarrow> Price option" where
  "next_worse l current =
     (case levels_side l of Buy \<Rightarrow> index_predecessor (by_price l) current
      | Sell \<Rightarrow> index_successor (by_price l) current)"

definition is_better :: "PriceLevels \<Rightarrow> Price \<Rightarrow> Price \<Rightarrow> bool" where
  "is_better l candidate current =
     (case levels_side l of Buy \<Rightarrow> current < candidate | Sell \<Rightarrow> candidate < current)"

definition map_extremum :: "PriceLevels \<Rightarrow> (Price \<times> PriceLevel) option" where
  "map_extremum l =
     (case levels_side l of Buy \<Rightarrow> index_last (by_price l) | Sell \<Rightarrow> index_first (by_price l))"

definition visible_extremum :: "PriceLevels \<Rightarrow> Price option" where
  "visible_extremum l =
     map_option fst (case levels_side l of Buy \<Rightarrow> index_last (visible_by_price l)
                     | Sell \<Rightarrow> index_first (visible_by_price l))"

definition visible_best_of :: "PriceLevels \<Rightarrow> (Price \<times> PriceLevel) option" where
  "visible_best_of l =
     (case visible_extremum l of None \<Rightarrow> None
      | Some price \<Rightarrow> map_option (Pair price) (index_get (by_price l) price))"

definition is_visible :: "PriceLevel option \<Rightarrow> bool" where
  "is_visible level = (case level of None \<Rightarrow> False | Some lv \<Rightarrow> total_quantity lv \<noteq> 0)"

definition sync_visible_index ::
    "PriceLevels \<Rightarrow> Price \<Rightarrow> PriceLevel option \<Rightarrow> PriceLevel option \<Rightarrow> PriceLevels option"
where
  "sync_visible_index l price previous current =
     (if \<not> is_visible previous \<and> is_visible current then do {
        (old, visible) \<leftarrow> index_insert (visible_by_price l) price ();
        if old = None then Some (l\<lparr>visible_by_price := visible\<rparr>) else None
      } else if is_visible previous \<and> \<not> is_visible current then
        (let (old, visible) = index_remove (visible_by_price l) price
         in if old = Some () then Some (l\<lparr>visible_by_price := visible\<rparr>) else None)
      else Some l)"

definition sync_visible_level ::
    "PriceLevels \<Rightarrow> Price \<Rightarrow> PriceLevel option \<Rightarrow> PriceLevel option \<Rightarrow> PriceLevels option"
where
  "sync_visible_level l price previous current = do {
     l \<leftarrow> sync_visible_index l price previous current;
     Some (if is_visible current \<and>
              (case best_visible l of None \<Rightarrow> True | Some (b, _) \<Rightarrow> b = price \<or> is_better l price b)
           then l\<lparr>best_visible := map_option (Pair price) current\<rparr>
           else if (case best_visible l of None \<Rightarrow> False | Some (b, _) \<Rightarrow> b = price \<and> \<not> is_visible current)
           then l\<lparr>best_visible := visible_best_of l\<rparr>
           else l)
   }"

definition levels_insert :: "PriceLevels \<Rightarrow> Price \<Rightarrow> PriceLevel \<Rightarrow> (PriceLevel option \<times> PriceLevels) option" where
  "levels_insert l price level = do {
     (replaced, by) \<leftarrow> index_insert (by_price l) price level;
     units \<leftarrow> checked_sub (side_event_units l) (case replaced of None \<Rightarrow> 0 | Some lv \<Rightarrow> level_event_units lv);
     units \<leftarrow> checked fits_u128 (units + level_event_units level);
     let l = l\<lparr>by_price := by, side_event_units := units\<rparr>;
     let l = (if (case best l of None \<Rightarrow> True | Some (current, _) \<Rightarrow> current = price \<or> is_better l price current)
              then l\<lparr>best := Some (price, level), best_handle := Some price\<rparr> else l);
     l \<leftarrow> sync_visible_level l price replaced (Some level);
     Some (replaced, l)
   }"

text \<open>The closure passed to \<open>update_by_handle\<close> may panic, and returns a result and the updated level.\<close>

definition update_by_handle ::
    "PriceLevels \<Rightarrow> Price \<Rightarrow> (PriceLevel \<Rightarrow> ('r \<times> PriceLevel) option) \<Rightarrow> ('r option \<times> PriceLevels) option"
where
  "update_by_handle l handle update =
     (case index_get (by_price l) handle of
        None \<Rightarrow> Some (None, l)
      | Some previous \<Rightarrow> do {
          (result, snapshot) \<leftarrow> update previous;
          let l = l\<lparr>by_price := index_set (by_price l) handle snapshot\<rparr>;
          units \<leftarrow> checked_sub (side_event_units l) (level_event_units previous);
          units \<leftarrow> checked fits_u128 (units + level_event_units snapshot);
          let l = l\<lparr>side_event_units := units\<rparr>;
          let l = (if best_handle l = Some handle then l\<lparr>best := Some (handle, snapshot)\<rparr> else l);
          l \<leftarrow> sync_visible_level l handle (Some previous) (Some snapshot);
          Some (Some result, l)
        })"

definition remove_by_handle :: "PriceLevels \<Rightarrow> Price \<Rightarrow> (PriceLevel option \<times> PriceLevels) option" where
  "remove_by_handle l handle = do {
     let (removed, by) = index_remove (by_price l) handle;
     let l = l\<lparr>by_price := by\<rparr>;
     units \<leftarrow> (case removed of None \<Rightarrow> Some (side_event_units l)
               | Some lv \<Rightarrow> checked_sub (side_event_units l) (level_event_units lv));
     let l = l\<lparr>side_event_units := units\<rparr>;
     let l = (if best_handle l = Some handle
              then l\<lparr>best := map_extremum l, best_handle := map_option fst (map_extremum l)\<rparr> else l);
     l \<leftarrow> (case removed of None \<Rightarrow> Some l | Some lv \<Rightarrow> sync_visible_level l handle (Some lv) None);
     Some (removed, l)
   }"

section \<open>The audit of the derived state\<close>

datatype LevelsViolation = PublicReservation | PriceIndex | PublicPriceIndex | CachedBest | CachedPublicBest
  | PublicMembership | CachedEventWork

definition validate_extremum :: "PriceLevels \<Rightarrow> LevelsViolation + unit" where
  "validate_extremum l =
     and_then (ensure (index_maximum (visible_by_price l) = index_maximum (by_price l)) PublicReservation) (\<lambda>_.
     and_then (ensure (index_ok (by_price l)) PriceIndex) (\<lambda>_.
     and_then (ensure (index_ok (visible_by_price l)) PublicPriceIndex) (\<lambda>_.
     and_then (ensure (best l = map_extremum l \<and> best_handle l = map_option fst (map_extremum l)) CachedBest) (\<lambda>_.
     and_then (ensure (best_visible l = visible_best_of l) CachedPublicBest) (\<lambda>_.
     and_then (ensure
        (index_len (visible_by_price l) =
           length (filter (\<lambda>(_, lv). total_quantity lv \<noteq> 0) (index_entries (by_price l))) \<and>
         list_all (\<lambda>(price, _). is_visible (index_get (by_price l) price)) (index_entries (visible_by_price l)))
        PublicMembership) (\<lambda>_.
       ensure (fits_u128 (index_sum level_event_units (by_price l)) \<and>
               side_event_units l = index_sum level_event_units (by_price l)) CachedEventWork))))))"

section \<open>The invariant\<close>

definition levels_ok :: "PriceLevels \<Rightarrow> bool" where
  "levels_ok l \<longleftrightarrow>
     index_ok (by_price l) \<and> index_ok (visible_by_price l) \<and>
     index_maximum (visible_by_price l) = index_maximum (by_price l) \<and>
     (\<forall>p. index_get (visible_by_price l) p = (if is_visible (levels_get l p) then Some () else None)) \<and>
     best l = map_extremum l \<and> best_handle l = map_option fst (map_extremum l) \<and>
     best_visible l = visible_best_of l \<and>
     side_event_units l = index_sum level_event_units (by_price l) \<and> fits_u128 (side_event_units l)"

lemma map_extremum_eq: "map_extremum l = index_extremum (levels_side l) (by_price l)"
  by (simp add: map_extremum_def index_extremum_def)

lemma visible_extremum_eq:
  "visible_extremum l = map_option fst (index_extremum (levels_side l) (visible_by_price l))"
  by (simp add: visible_extremum_def index_extremum_def)

lemma is_better_eq: "is_better l a b = better (levels_side l) a b"
  by (simp add: is_better_def better_def)

lemma is_visible_simps [simp]: "\<not> is_visible None" "is_visible (Some lv) \<longleftrightarrow> total_quantity lv \<noteq> 0"
  by (simp_all add: is_visible_def)

text \<open>The best visible level, characterised over the contents.\<close>

lemma visible_best_of_iff:
  assumes "index_ok (visible_by_price l)"
    and vis: "\<forall>p. index_get (visible_by_price l) p = (if is_visible (levels_get l p) then Some () else None)"
  shows "visible_best_of l = Some (p, lv) \<longleftrightarrow>
    levels_get l p = Some lv \<and> total_quantity lv \<noteq> 0 \<and>
    (\<forall>q. is_visible (levels_get l q) \<longrightarrow> \<not> better (levels_side l) q p)"
proof (cases "index_extremum (levels_side l) (visible_by_price l)")
  case None
  then have "\<not> is_visible (levels_get l q)" for q
    using li.extremum_empty [OF assms(1) None, of q] vis by (auto split: if_splits)
  from this [of p] show ?thesis
    using None by (auto simp: visible_best_of_def visible_extremum_eq)
next
  case (Some b)
  then obtain q where q: "index_extremum (levels_side l) (visible_by_price l) = Some (q, ())"
    by (cases b) auto
  then have iv: "is_visible (levels_get l q)" and top: "\<forall>r. is_visible (levels_get l r) \<longrightarrow> \<not> better (levels_side l) r q"
    using li.extremum_law [OF assms(1)] vis by (auto split: if_splits)
  show ?thesis
  proof
    assume "visible_best_of l = Some (p, lv)"
    then have "p = q" "levels_get l p = Some lv"
      by (auto simp: visible_best_of_def visible_extremum_eq q levels_get_def)
    then show "levels_get l p = Some lv \<and> total_quantity lv \<noteq> 0 \<and>
        (\<forall>q. is_visible (levels_get l q) \<longrightarrow> \<not> better (levels_side l) q p)"
      using iv top by (auto simp: is_visible_def)
  next
    assume a: "levels_get l p = Some lv \<and> total_quantity lv \<noteq> 0 \<and>
        (\<forall>q. is_visible (levels_get l q) \<longrightarrow> \<not> better (levels_side l) q p)"
    then have "is_visible (levels_get l p)"
      by (simp add: is_visible_def)
    then have "p = q"
      using top iv a better_total by blast
    then show "visible_best_of l = Some (p, lv)"
      using a by (auto simp: visible_best_of_def visible_extremum_eq q levels_get_def)
  qed
qed

section \<open>Every operation maintains the caches\<close>

lemma levels_get_simps [simp]:
  "levels_get (l\<lparr>visible_by_price := v\<rparr>) = levels_get l" "levels_get (l\<lparr>best := b\<rparr>) = levels_get l"
  "levels_get (l\<lparr>best_handle := h\<rparr>) = levels_get l" "levels_get (l\<lparr>best_visible := bv\<rparr>) = levels_get l"
  "levels_get (l\<lparr>side_event_units := u\<rparr>) = levels_get l" "levels_get (l\<lparr>by_price := m\<rparr>) = index_get m"
  by (simp_all add: levels_get_def fun_eq_iff)

lemma visible_best_of_eq:
  "visible_best_of l =
     (case index_extremum (levels_side l) (visible_by_price l) of None \<Rightarrow> None
      | Some (b, _) \<Rightarrow> map_option (Pair b) (levels_get l b))"
  by (auto simp: visible_best_of_def visible_extremum_eq levels_get_def split: option.splits)

lemma visible_best_of_upd [simp]: "visible_best_of (l\<lparr>best_visible := b\<rparr>) = visible_best_of l"
  by (simp add: visible_best_of_eq cong: option.case_cong)

text \<open>
  A level of the side changes from \<open>previous\<close> to \<open>current\<close>; the public index and its cached best follow.
\<close>

lemma sync_visible_index_cases:
  assumes vok: "index_ok (visible_by_price l)"
    and bok: "index_ok (by_price l)" "index_maximum (visible_by_price l) = index_maximum (by_price l)"
    and vis: "\<forall>p. index_get (visible_by_price l) p = (if is_visible (old p) then Some () else None)"
    and upd: "levels_get l = old(price := current)"
  obtains v where "sync_visible_index l price (old price) current = Some (l\<lparr>visible_by_price := v\<rparr>)"
    "index_ok v" "index_maximum v = index_maximum (visible_by_price l)"
    "index_get v = (index_get (visible_by_price l))(price := if is_visible current then Some () else None)"
proof -
  let ?v = "visible_by_price l"
  consider (shown) "\<not> is_visible (old price)" "is_visible current"
    | (gone) "is_visible (old price)" "\<not> is_visible current"
    | (same) "is_visible (old price) = is_visible current"
    by blast
  then show thesis
  proof cases
    case shown
    have "dom (index_get ?v) \<subseteq> dom (levels_get l) - {price}"
    proof
      fix p assume "p \<in> dom (index_get ?v)"
      then have "is_visible (old p)"
        using vis by (auto split: if_splits)
      then show "p \<in> dom (levels_get l) - {price}"
        using shown(1) by (cases "old p") (auto simp: upd)
    qed
    moreover have "price \<in> dom (levels_get l)"
      using shown(2) by (cases current) (auto simp: upd)
    moreover have "levels_get l = index_get (by_price l)"
      by (simp add: levels_get_def fun_eq_iff)
    moreover have "finite (dom (index_get (by_price l)))"
      by (simp add: index_get_def [abs_def] finite_dom_map_of)
    ultimately have "card (dom (index_get ?v)) < card (dom (index_get (by_price l)))"
      by (metis Diff_subset finite_subset psubset_card_mono psubsetI subset_Diff_insert subset_insert_iff insertI1 order_trans)
    then have "index_len ?v < index_len (by_price l)"
      by (simp add: index_len_dom vok bok(1))
    then have "index_len ?v < index_maximum ?v"
      using bok by (simp add: index_ok_def index_len_def)
    from index_insert_Some [OF vok disjI2 [OF this], of price "()"] obtain v where v:
      "index_insert ?v price () = Some (index_get ?v price, v)" "index_ok v"
      "index_get v = (index_get ?v)(price \<mapsto> ())" "index_maximum v = index_maximum ?v"
      by metis
    then show thesis
      using that [of v] shown vis by (simp add: sync_visible_index_def)
  next
    case gone
    obtain x v where v: "index_remove ?v price = (x, v)"
      by fastforce
    from index_remove_facts [OF vok v] show thesis
      using that [of v] gone vis by (simp add: sync_visible_index_def v)
  next
    case same
    then have "index_get ?v = (index_get ?v)(price := if is_visible current then Some () else None)"
      using vis by (auto simp: fun_eq_iff)
    then show thesis
      using that [of ?v] same vok by (auto simp: sync_visible_index_def)
  qed
qed

lemma sync_visible_level_correct:
  assumes vok: "index_ok (visible_by_price l)"
    and bok: "index_ok (by_price l)" "index_maximum (visible_by_price l) = index_maximum (by_price l)"
    and vis: "\<forall>p. index_get (visible_by_price l) p = (if is_visible (old p) then Some () else None)"
    and upd: "levels_get l = old(price := current)"
    and bv: "best_visible l =
      (case index_extremum (levels_side l) (visible_by_price l) of None \<Rightarrow> None
       | Some (b, _) \<Rightarrow> map_option (Pair b) (old b))"
  obtains v bv' where
    "sync_visible_level l price (old price) current = Some (l\<lparr>visible_by_price := v, best_visible := bv'\<rparr>)"
    "index_ok v" "index_maximum v = index_maximum (visible_by_price l)"
    "\<forall>p. index_get v p = (if is_visible (levels_get l p) then Some () else None)"
    "bv' = visible_best_of (l\<lparr>visible_by_price := v, best_visible := bv'\<rparr>)"
proof -
  from sync_visible_index_cases [OF vok bok vis upd] obtain v where
    v: "sync_visible_index l price (old price) current = Some (l\<lparr>visible_by_price := v\<rparr>)"
      "index_ok v" "index_maximum v = index_maximum (visible_by_price l)"
      "index_get v = (index_get (visible_by_price l))(price := if is_visible current then Some () else None)"
    by metis
  let ?l = "l\<lparr>visible_by_price := v\<rparr>" and ?side = "levels_side l" and ?v = "visible_by_price l"
  have vis': "\<forall>p. index_get v p = (if is_visible (levels_get l p) then Some () else None)"
    using vis by (simp add: v(4) upd)
  define bv' where "bv' = (if is_visible current \<and>
              (case best_visible l of None \<Rightarrow> True | Some (b, _) \<Rightarrow> b = price \<or> is_better l price b)
           then map_option (Pair price) current
           else if (case best_visible l of None \<Rightarrow> False | Some (b, _) \<Rightarrow> b = price \<and> \<not> is_visible current)
           then visible_best_of ?l
           else best_visible l)"
  have step: "sync_visible_level l price (old price) current = Some (l\<lparr>visible_by_price := v, best_visible := bv'\<rparr>)"
    by (cases "best_visible l") (auto simp: sync_visible_level_def v(1) bv'_def is_better_def)
  have oldvis: "\<exists>w. old b = Some w \<and> total_quantity w \<noteq> 0" if "index_extremum ?side ?v = Some (b, x)" for b x
    using li.extremum_law [OF vok, of ?side b x] that vis by (auto simp: is_visible_def split: if_splits option.splits)
  have "bv' = visible_best_of ?l"
  proof (cases "is_visible current")
    case True
    then have get: "index_get v = (index_get ?v)(price \<mapsto> ())"
      by (simp add: v(4))
    obtain lv where lv: "current = Some lv"
      using True by (cases current) auto
    then have tq: "total_quantity lv \<noteq> 0"
      using True by simp
    from li.extremum_after_insert [OF vok v(2) get, of ?side] oldvis show ?thesis
      by (auto simp: bv'_def bv visible_best_of_eq upd tq lv is_better_eq split: option.splits prod.splits)
  next
    case False
    then have get: "index_get v = (index_get ?v)(price := None)"
      by (simp add: v(4))
    show ?thesis
    proof (cases "map_option fst (index_extremum ?side ?v) = Some price")
      case True
      then obtain x where "index_extremum ?side ?v = Some (price, x)"
        by auto
      moreover from this obtain lv where "old price = Some lv"
        using oldvis by blast
      ultimately show ?thesis
        using False by (simp add: bv'_def bv)
    next
      case other: False
      from li.extremum_after_other_removed [OF vok v(2) get other]
      show ?thesis
        using False other by (auto simp: bv'_def bv visible_best_of_eq upd split: option.splits)
    qed
  qed
  then have "bv' = visible_best_of (l\<lparr>visible_by_price := v, best_visible := bv'\<rparr>)"
    by simp
  then show thesis
    using that step v(2,3) vis' by blast
qed

text \<open>
  The common end of the three mutations: the level index holds the new contents, the best level and the
  event work are those of the new contents, and the public index is synchronised last.
\<close>

lemma sync_restores:
  assumes ok: "levels_ok l"
    and L: "L = l\<lparr>by_price := m, side_event_units := index_sum level_event_units m,
                best := index_extremum (levels_side l) m,
                best_handle := map_option fst (index_extremum (levels_side l) m)\<rparr>"
    and m: "index_ok m" "index_maximum m = index_maximum (by_price l)"
      "index_get m = (levels_get l)(price := current)"
    and fits: "fits_u128 (index_sum level_event_units m)"
  obtains l' where "sync_visible_level L price (levels_get l price) current = Some l'" "levels_ok l'"
    "levels_side l' = levels_side l" "levels_get l' = (levels_get l)(price := current)"
    "index_maximum (by_price l') = index_maximum (by_price l)" "by_price l' = m"
proof -
  have o: "index_ok (visible_by_price L)" "index_ok (by_price L)"
      "index_maximum (visible_by_price L) = index_maximum (by_price L)"
      "\<forall>p. index_get (visible_by_price L) p = (if is_visible (levels_get l p) then Some () else None)"
      "levels_get L = (levels_get l)(price := current)"
    using ok m by (auto simp: L levels_ok_def)
  have "best_visible L = visible_best_of l"
    using ok by (simp add: L levels_ok_def)
  then have bv: "best_visible L = (case index_extremum (levels_side L) (visible_by_price L) of None \<Rightarrow> None
       | Some (b, _) \<Rightarrow> map_option (Pair b) (levels_get l b))"
    by (simp add: visible_best_of_eq L)
  from sync_visible_level_correct [OF o bv] obtain v bv' where
    v: "sync_visible_level L price (levels_get l price) current =
        Some (L\<lparr>visible_by_price := v, best_visible := bv'\<rparr>)"
      "index_ok v" "index_maximum v = index_maximum (visible_by_price L)"
      "\<forall>p. index_get v p = (if is_visible (levels_get L p) then Some () else None)"
      "bv' = visible_best_of (L\<lparr>visible_by_price := v, best_visible := bv'\<rparr>)"
    by metis
  let ?l' = "L\<lparr>visible_by_price := v, best_visible := bv'\<rparr>"
  have "levels_ok ?l'"
    using v(2-5) o(3) m(1) fits by (simp add: levels_ok_def L map_extremum_eq)
  then show thesis
    using that [of ?l'] v(1) m by (simp add: L)
qed

theorem levels_insert_correct:
  assumes ok: "levels_ok l" and room: "levels_get l price \<noteq> None \<or> levels_len l < index_maximum (by_price l)"
    and fits: "fits_u128 (side_event_units l + level_event_units level)"
  obtains l' where "levels_insert l price level = Some (levels_get l price, l')" "levels_ok l'"
    "levels_side l' = levels_side l" "levels_get l' = (levels_get l)(price \<mapsto> level)"
    "index_maximum (by_price l') = index_maximum (by_price l)"
    "levels_len l' = (if levels_get l price = None then Suc (levels_len l) else levels_len l)"
    "side_event_units l' + (case levels_get l price of None \<Rightarrow> 0 | Some lv \<Rightarrow> level_event_units lv) =
       side_event_units l + level_event_units level"
proof -
  have bok: "index_ok (by_price l)"
    using ok by (simp add: levels_ok_def)
  have get: "index_get (by_price l) = levels_get l"
    by (simp add: levels_get_def fun_eq_iff)
  have "index_get (by_price l) price \<noteq> None \<or> index_len (by_price l) < index_maximum (by_price l)"
    using room by (simp add: levels_get_def levels_len_def)
  from index_insert_Some [OF bok this, of level] obtain m where
    m: "index_insert (by_price l) price level = Some (levels_get l price, m)" "index_ok m"
      "index_get m = (levels_get l)(price \<mapsto> level)" "index_maximum m = index_maximum (by_price l)"
      "index_len m = (if levels_get l price = None then Suc (levels_len l) else levels_len l)"
    by (metis levels_get_def get levels_len_def)
  let ?old = "case levels_get l price of None \<Rightarrow> 0 | Some lv \<Rightarrow> level_event_units lv"
  have sum: "index_sum level_event_units m + ?old = side_event_units l + level_event_units level"
    using index_insert_sum [OF bok m(1), of level_event_units] ok by (simp add: levels_ok_def)
  have old: "?old \<le> side_event_units l"
    using index_sum_ge [of "by_price l" price _ level_event_units] ok
    by (auto simp: levels_ok_def levels_get_def split: option.splits)
  have fit: "fits_u128 (index_sum level_event_units m)"
    using sum fits fits_u128_mono [OF fits, of "index_sum level_event_units m"] by simp
  have units: "index_sum level_event_units m = side_event_units l - ?old + level_event_units level"
    using sum old by linarith
  have get': "index_get m = (index_get (by_price l))(price \<mapsto> level)"
    by (simp add: m(3) get)
  let ?L = "l\<lparr>by_price := m, side_event_units := index_sum level_event_units m,
                best := index_extremum (levels_side l) m,
                best_handle := map_option fst (index_extremum (levels_side l) m)\<rparr>"
  have best: "best l = index_extremum (levels_side l) (by_price l)"
      "best_handle l = map_option fst (index_extremum (levels_side l) (by_price l))"
    using ok by (simp_all add: levels_ok_def map_extremum_eq)
  let ?K = "l\<lparr>by_price := m, side_event_units := index_sum level_event_units m\<rparr>"
  let ?c = "case best l of None \<Rightarrow> True | Some (current, _) \<Rightarrow> current = price \<or> better (levels_side l) price current"
  have e: "index_extremum (levels_side l) m = (if ?c then Some (price, level) else best l)"
    using li.extremum_after_insert [OF bok m(2) get', of "levels_side l"]
    by (cases "best l") (auto simp: best(1) [symmetric] split: if_splits)
  have h: "best_handle l = map_option fst (best l)"
    using best by simp
  have L: "(if ?c then ?K\<lparr>best := Some (price, level), best_handle := Some price\<rparr> else ?K) = ?L"
  proof (cases ?c)
    case True
    then have "index_extremum (levels_side l) m = Some (price, level)"
      by (simp only: e if_True)
    then show ?thesis
      by (simp only: if_P [OF True]) simp
  next
    case False
    then have "index_extremum (levels_side l) m = best l"
      by (simp only: e if_False)
    then show ?thesis
      by (simp only: if_not_P [OF False]) (simp add: h [symmetric])
  qed
  have c: "(case best ?K of None \<Rightarrow> True | Some (current, _) \<Rightarrow> current = price \<or> is_better ?K price current) = ?c"
    by (cases "best l") (auto simp: is_better_eq)
  obtain l' where l': "sync_visible_level ?L price (levels_get l price) (Some level) = Some l'" "levels_ok l'"
    "levels_side l' = levels_side l" "levels_get l' = (levels_get l)(price \<mapsto> level)"
    "index_maximum (by_price l') = index_maximum (by_price l)" "by_price l' = m"
    using sync_restores [OF ok refl m(2) m(4) m(3) fit] by metis
  have u: "checked_sub (side_event_units l) ?old = Some (side_event_units l - ?old)"
      "checked fits_u128 (side_event_units l - ?old + level_event_units level) = Some (index_sum level_event_units m)"
    using old fit units by simp_all
  have "levels_insert l price level = Some (levels_get l price, l')"
    by (simp only: levels_insert_def m(1) Let_def bind.simps prod.case u c L l'(1))
  moreover have "side_event_units l' = index_sum level_event_units m"
    using l'(2,6) by (simp add: levels_ok_def)
  ultimately show thesis
    using that [of l'] l' sum m(5) by (simp add: levels_len_def)
qed

lemma update_by_handle_absent: "levels_get l handle = None \<Longrightarrow> update_by_handle l handle f = Some (None, l)"
  by (simp add: update_by_handle_def levels_get_def)

theorem update_by_handle_correct:
  assumes ok: "levels_ok l" and present: "levels_get l h = Some previous" and f: "f previous = Some (r, snapshot)"
    and fits: "fits_u128 (side_event_units l - level_event_units previous + level_event_units snapshot)"
  obtains l' where "update_by_handle l h f = Some (Some r, l')" "levels_ok l'"
    "levels_side l' = levels_side l" "levels_get l' = (levels_get l)(h \<mapsto> snapshot)"
    "index_maximum (by_price l') = index_maximum (by_price l)" "levels_len l' = levels_len l"
    "side_event_units l' + level_event_units previous = side_event_units l + level_event_units snapshot"
proof -
  have bok: "index_ok (by_price l)"
    using ok by (simp add: levels_ok_def)
  have get: "index_get (by_price l) = levels_get l"
    by (simp add: levels_get_def fun_eq_iff)
  define m where "m = index_set (by_price l) h snapshot"
  have "index_get (by_price l) h \<noteq> None"
    using present by (simp add: get)
  from index_set_facts [OF bok this, of snapshot] have
    m: "index_ok m" "index_get m = (levels_get l)(h \<mapsto> snapshot)" "index_maximum m = index_maximum (by_price l)"
      "index_len m = levels_len l"
    by (simp_all add: m_def get levels_len_def)
  have sum: "index_sum level_event_units m + level_event_units previous = side_event_units l + level_event_units snapshot"
    using index_set_sum [OF bok, of h previous level_event_units snapshot] ok present
    by (simp add: m_def levels_ok_def get)
  have old: "level_event_units previous \<le> side_event_units l"
    using index_sum_ge [of "by_price l" h previous level_event_units] ok present
    by (simp add: levels_ok_def get)
  have units: "side_event_units l - level_event_units previous + level_event_units snapshot = index_sum level_event_units m"
    using sum old by linarith
  have fit: "fits_u128 (index_sum level_event_units m)"
    using fits by (simp only: units)
  have get': "index_get m = (index_get (by_price l))(h \<mapsto> snapshot)"
    by (simp add: m(2) get)
  let ?L = "l\<lparr>by_price := m, side_event_units := index_sum level_event_units m,
                best := index_extremum (levels_side l) m,
                best_handle := map_option fst (index_extremum (levels_side l) m)\<rparr>"
  let ?K = "l\<lparr>by_price := m, side_event_units := index_sum level_event_units m\<rparr>"
  have best: "best l = index_extremum (levels_side l) (by_price l)"
      "best_handle l = map_option fst (best l)"
    using ok by (simp_all add: levels_ok_def map_extremum_eq)
  obtain b w where bw: "index_extremum (levels_side l) (by_price l) = Some (b, w)"
    using li.extremum_empty [OF bok, of "levels_side l" h] present
    by (cases "index_extremum (levels_side l) (by_price l)") (auto simp: get)
  then have nb: "\<not> better (levels_side l) h b"
    using li.extremum_law [OF bok, of "levels_side l" b w] present by (auto simp: get)
  have e: "index_extremum (levels_side l) m = (if b = h then Some (h, snapshot) else Some (b, w))"
    using li.extremum_after_insert [OF bok m(1) get', of "levels_side l"] nb by (simp add: bw)
  have L: "(if best_handle ?K = Some h then ?K\<lparr>best := Some (h, snapshot)\<rparr> else ?K) = ?L"
    by (cases "b = h") (simp_all add: e best bw)
  obtain l' where l': "sync_visible_level ?L h (levels_get l h) (Some snapshot) = Some l'" "levels_ok l'"
    "levels_side l' = levels_side l" "levels_get l' = (levels_get l)(h \<mapsto> snapshot)"
    "index_maximum (by_price l') = index_maximum (by_price l)" "by_price l' = m"
    using sync_restores [OF ok refl m(1) m(3) m(2) fit] by metis
  have u: "checked_sub (side_event_units l) (level_event_units previous) = Some (side_event_units l - level_event_units previous)"
      "checked fits_u128 (side_event_units l - level_event_units previous + level_event_units snapshot) = Some (index_sum level_event_units m)"
    using old fit units by simp_all
  have p: "index_get (by_price l) h = Some previous"
    by (simp add: get present)
  have K: "l\<lparr>by_price := m\<rparr>\<lparr>side_event_units := index_sum level_event_units m\<rparr> = ?K"
    by simp
  have s: "side_event_units (l\<lparr>by_price := m\<rparr>) = side_event_units l"
    by simp
  have "update_by_handle l h f = Some (Some r, l')"
    using l'(1) unfolding present
    by (simp only: update_by_handle_def p option.case f Let_def bind.simps prod.case m_def [symmetric] s u L)
  moreover have "side_event_units l' = index_sum level_event_units m"
    using l'(2,6) by (simp add: levels_ok_def)
  ultimately show thesis
    using that [of l'] l' sum m(4) by (simp add: levels_len_def)
qed

theorem remove_by_handle_correct:
  assumes ok: "levels_ok l" and present: "levels_get l h = Some lv"
  obtains l' where "remove_by_handle l h = Some (Some lv, l')" "levels_ok l'"
    "levels_side l' = levels_side l" "levels_get l' = (levels_get l)(h := None)"
    "index_maximum (by_price l') = index_maximum (by_price l)" "levels_len l' = levels_len l - 1"
    "side_event_units l' + level_event_units lv = side_event_units l"
proof -
  have bok: "index_ok (by_price l)"
    using ok by (simp add: levels_ok_def)
  have get: "index_get (by_price l) = levels_get l"
    by (simp add: levels_get_def fun_eq_iff)
  obtain m where rm: "index_remove (by_price l) h = (Some lv, m)"
    using present by (auto simp: index_remove_def get)
  from index_remove_facts [OF bok rm] have
    m: "index_ok m" "index_get m = (levels_get l)(h := None)" "index_maximum m = index_maximum (by_price l)"
      "index_len m = levels_len l - 1"
    using present by (auto simp: get levels_len_def)
  have sum: "index_sum level_event_units m + level_event_units lv = side_event_units l"
    using index_remove_sum [OF bok rm, of level_event_units] ok by (simp add: levels_ok_def)
  have fit: "fits_u128 (index_sum level_event_units m)"
  proof (rule fits_u128_mono)
    show "fits_u128 (side_event_units l)"
      using ok unfolding levels_ok_def by blast
  qed (use sum in linarith)
  have get': "index_get m = (index_get (by_price l))(h := None)"
    by (simp add: m(2) get)
  let ?L = "l\<lparr>by_price := m, side_event_units := index_sum level_event_units m,
                best := index_extremum (levels_side l) m,
                best_handle := map_option fst (index_extremum (levels_side l) m)\<rparr>"
  let ?K = "l\<lparr>by_price := m, side_event_units := index_sum level_event_units m\<rparr>"
  have best: "best l = index_extremum (levels_side l) (by_price l)"
      "best_handle l = map_option fst (best l)"
    using ok by (simp_all add: levels_ok_def map_extremum_eq)
  have ke: "map_extremum ?K = index_extremum (levels_side l) m"
    by (simp add: map_extremum_eq)
  have L: "(if best_handle ?K = Some h then ?K\<lparr>best := map_extremum ?K, best_handle := map_option fst (map_extremum ?K)\<rparr>
      else ?K) = ?L"
  proof (cases "best_handle l = Some h")
    case True
    then show ?thesis
      by (simp add: map_extremum_eq)
  next
    case False
    then have "index_extremum (levels_side l) m = best l"
      using li.extremum_after_other_removed [OF bok m(1) get'] best by simp
    moreover have "best_handle l = map_option fst (index_extremum (levels_side l) m)"
      using best(2) calculation by simp
    ultimately show ?thesis
      using False by simp
  qed
  obtain l' where l': "sync_visible_level ?L h (levels_get l h) None = Some l'" "levels_ok l'"
    "levels_side l' = levels_side l" "levels_get l' = (levels_get l)(h := None)"
    "index_maximum (by_price l') = index_maximum (by_price l)" "by_price l' = m"
    using sync_restores [OF ok refl m(1) m(3) m(2) fit] by metis
  have u: "checked_sub (side_event_units l) (level_event_units lv) = Some (index_sum level_event_units m)"
    using sum by simp
  have s: "side_event_units (l\<lparr>by_price := m\<rparr>) = side_event_units l"
    by simp
  have "remove_by_handle l h = Some (Some lv, l')"
    using l'(1) unfolding present
    by (simp only: remove_by_handle_def rm option.case Let_def bind.simps prod.case s u L)
  moreover have "side_event_units l' = index_sum level_event_units m"
    using l'(2,6) by (simp add: levels_ok_def)
  ultimately show thesis
    using that [of l'] l' sum m(4) by (simp add: levels_len_def)
qed

text \<open>The best price, the level behind it and the next worse price, over the contents.\<close>

lemma levels_best_iff:
  assumes "levels_ok l"
  shows "best l = Some (p, lv) \<longleftrightarrow>
    levels_get l p = Some lv \<and> (\<forall>q. levels_get l q \<noteq> None \<longrightarrow> \<not> better (levels_side l) q p)"
  using li.extremum_law [of "by_price l" "levels_side l" p lv] assms
  by (simp add: levels_ok_def map_extremum_eq levels_get_def)

lemma levels_best_None:
  assumes "levels_ok l"
  shows "best l = None \<longleftrightarrow> levels_get l = Map.empty"
proof
  assume "best l = None"
  then show "levels_get l = Map.empty"
    using li.extremum_empty [of "by_price l" "levels_side l"] assms
    by (simp add: levels_ok_def map_extremum_eq levels_get_def fun_eq_iff)
next
  assume e: "levels_get l = Map.empty"
  show "best l = None"
  proof (cases "best l")
    case (Some b)
    then show ?thesis
      using levels_best_iff [OF assms, of "fst b" "snd b"] e by simp
  qed
qed

lemma best_level_with_handle_eq: "levels_ok l \<Longrightarrow> best_level_with_handle l = best l"
proof -
  assume "levels_ok l"
  then have "best_handle l = map_option fst (best l)"
    by (simp add: levels_ok_def)
  then show ?thesis
    by (cases "best l") (auto simp: best_level_with_handle_def)
qed

lemma next_worse_facts:
  assumes "levels_ok l"
  shows "next_worse l p = Some q \<Longrightarrow> levels_get l q \<noteq> None \<and> better (levels_side l) p q \<and>
      (\<forall>r. levels_get l r \<noteq> None \<longrightarrow> better (levels_side l) p r \<longrightarrow> \<not> better (levels_side l) r q)"
    and "next_worse l p = None \<Longrightarrow> levels_get l r \<noteq> None \<Longrightarrow> \<not> better (levels_side l) p r"
proof -
  have ok: "index_ok (by_price l)"
    using assms by (simp add: levels_ok_def)
  show "levels_get l q \<noteq> None \<and> better (levels_side l) p q \<and>
      (\<forall>r. levels_get l r \<noteq> None \<longrightarrow> better (levels_side l) p r \<longrightarrow> \<not> better (levels_side l) r q)"
    if "next_worse l p = Some q"
    using that index_predecessor_facts(1) [OF ok] index_successor_facts(1) [OF ok]
    by (fastforce simp: next_worse_def levels_get_def better_def not_less split: Side.splits)
  show "\<not> better (levels_side l) p r" if "next_worse l p = None" "levels_get l r \<noteq> None"
    using that index_predecessor_facts(2) [OF ok, of p r] index_successor_facts(2) [OF ok, of p r]
    by (cases "levels_side l") (auto simp: next_worse_def levels_get_def better_def not_less)
qed

lemma levels_new_ok [simp]: "levels_ok (levels_new side n)" "levels_get (levels_new side n) = Map.empty"
    "levels_side (levels_new side n) = side" "index_maximum (by_price (levels_new side n)) = n"
    "side_event_units (levels_new side n) = 0"
  by (auto simp: levels_new_def levels_ok_def levels_get_def map_extremum_def visible_best_of_def visible_extremum_def
      index_first_def index_last_def index_new_def index_ok_def index_get_def index_sum_def fits_u128_def fun_eq_iff
      split: Side.splits)

end
