(* ===== verification/LinkedOrders.thy ===== *)
theory LinkedOrders
  imports Prelude
begin

text \<open>
  Doubly linked lists threaded through the values of a map, as the order book threads its price queues and
  its account lists through the resting orders (\<open>src/src/matching.rs\<close>).  The locale \<open>linked\<close> fixes the two
  links of a node and what the code relies on: writing one link leaves the other link and the rest of the node (\<open>core\<close>) alone.  A segment
  \<open>seg h p xs q\<close> says that the nodes \<open>xs\<close> are linked in this order, preceded by \<open>p\<close> and followed by \<open>q\<close>.  It
  is interpreted twice on resting orders.
\<close>

definition hd_or :: "'k option \<Rightarrow> 'k list \<Rightarrow> 'k option" where
  "hd_or q xs = (case xs of [] \<Rightarrow> q | x # _ \<Rightarrow> Some x)"

definition last_or :: "'k option \<Rightarrow> 'k list \<Rightarrow> 'k option" where
  "last_or p xs = (if xs = [] then p else Some (List.last xs))"

lemma hd_or_simps [simp]: "hd_or q [] = q" "hd_or q (x # xs) = Some x" "hd_or q (xs @ ys) = hd_or (hd_or q ys) xs"
  by (simp_all add: hd_or_def split: list.split)

lemma last_or_simps [simp]: "last_or p [] = p" "last_or p (xs @ [x]) = Some x"
    "last_or p (x # xs) = last_or (Some x) xs" "last_or p (xs @ ys) = last_or (last_or p xs) ys"
  by (simp_all add: last_or_def)

lemma hd_or_eq_None: "hd_or None xs = None \<longleftrightarrow> xs = []"
  and last_or_eq_None: "last_or None xs = None \<longleftrightarrow> xs = []"
  by (simp_all add: hd_or_def last_or_def split: list.split)

locale linked =
  fixes prev :: "'n \<Rightarrow> 'k option" and nxt :: "'n \<Rightarrow> 'k option"
    and set_prev :: "'k option \<Rightarrow> 'n \<Rightarrow> 'n" and set_nxt :: "'k option \<Rightarrow> 'n \<Rightarrow> 'n"
    and core :: "'n \<Rightarrow> 's"
  assumes prev_set_prev: "prev (set_prev v n) = v" and nxt_set_prev: "nxt (set_prev v n) = nxt n"
    and nxt_set_nxt: "nxt (set_nxt v n) = v" and prev_set_nxt: "prev (set_nxt v n) = prev n"
    and core_set_prev: "core (set_prev v n) = core n" and core_set_nxt: "core (set_nxt v n) = core n"
begin

fun seg :: "('k \<rightharpoonup> 'n) \<Rightarrow> 'k option \<Rightarrow> 'k list \<Rightarrow> 'k option \<Rightarrow> bool" where
  "seg h p [] q \<longleftrightarrow> True"
| "seg h p (x # xs) q \<longleftrightarrow>
     (\<exists>n. h x = Some n \<and> prev n = p \<and> nxt n = hd_or q xs) \<and> seg h (Some x) xs q"

lemma seg_append: "seg h p (xs @ ys) q \<longleftrightarrow> seg h p xs (hd_or q ys) \<and> seg h (last_or p xs) ys q"
  by (induction xs arbitrary: p) auto

lemma seg_in_dom: "seg h p xs q \<Longrightarrow> x \<in> set xs \<Longrightarrow> h x \<noteq> None"
  by (induction xs arbitrary: p) auto

text \<open>Changes outside the segment do not matter.\<close>

lemma seg_cong: "(\<And>x. x \<in> set xs \<Longrightarrow> h x = h' x) \<Longrightarrow> seg h p xs q \<longleftrightarrow> seg h' p xs q"
  by (induction xs arbitrary: p) auto

lemma seg_transfer: "seg h p xs q \<Longrightarrow> (\<And>x. x \<in> set xs \<Longrightarrow> h' x = h x) \<Longrightarrow> seg h' p xs q"
  by (induction xs arbitrary: p) auto

lemma seg_frame: "x \<notin> set xs \<Longrightarrow> seg (h(x := v)) p xs q \<longleftrightarrow> seg h p xs q"
  by (rule seg_cong) auto

text \<open>Changes of a node that leave its links alone do not matter either.\<close>

lemma seg_same_links:
  "(\<And>x n. x \<in> set xs \<Longrightarrow> h x = Some n \<Longrightarrow> \<exists>n'. h' x = Some n' \<and> prev n' = prev n \<and> nxt n' = nxt n) \<Longrightarrow>
   seg h p xs q \<Longrightarrow> seg h' p xs q"
  by (induction xs arbitrary: p) (auto, metis)

lemma seg_node:
  assumes "seg h p (xs @ x # ys) q"
  obtains n where "h x = Some n" "prev n = last_or p xs" "nxt n = hd_or q ys"
  using assms by (auto simp: seg_append)

text \<open>Redirecting the last node forwards and the first node backwards.\<close>

lemma seg_set_last_next:
  assumes "seg h p (xs @ [x]) q" "distinct (xs @ [x])" "h x = Some n"
  shows "seg (h(x \<mapsto> set_nxt v n)) p (xs @ [x]) v"
proof -
  have "seg h p xs (Some x)" "prev n = last_or p xs"
    using assms(1,3) by (auto simp: seg_append)
  moreover have "x \<notin> set xs"
    using assms(2) by simp
  ultimately show ?thesis
    by (simp add: seg_append seg_frame nxt_set_nxt prev_set_nxt)
qed

lemma seg_set_first_prev:
  assumes "seg h p (x # xs) q" "distinct (x # xs)" "h x = Some n"
  shows "seg (h(x \<mapsto> set_prev v n)) v (x # xs) q"
proof -
  have "nxt n = hd_or q xs" "seg h (Some x) xs q"
    using assms(1,3) by auto
  moreover have "x \<notin> set xs"
    using assms(2) by simp
  ultimately show ?thesis
    by (simp add: seg_frame nxt_set_prev prev_set_prev)
qed

text \<open>
  The two link writes of the code: the node at an optional key gets a new forward or backward link.
\<close>

definition link_next :: "'k option \<Rightarrow> 'k option \<Rightarrow> ('k \<rightharpoonup> 'n) \<Rightarrow> ('k \<rightharpoonup> 'n) option" where
  "link_next at v h =
     (case at of None \<Rightarrow> Some h
      | Some k \<Rightarrow> (case h k of None \<Rightarrow> None | Some n \<Rightarrow> Some (h(k \<mapsto> set_nxt v n))))"

definition link_prev :: "'k option \<Rightarrow> 'k option \<Rightarrow> ('k \<rightharpoonup> 'n) \<Rightarrow> ('k \<rightharpoonup> 'n) option" where
  "link_prev at v h =
     (case at of None \<Rightarrow> Some h
      | Some k \<Rightarrow> (case h k of None \<Rightarrow> None | Some n \<Rightarrow> Some (h(k \<mapsto> set_prev v n))))"

definition relinked :: "('k \<rightharpoonup> 'n) \<Rightarrow> ('k \<rightharpoonup> 'n) \<Rightarrow> 'k set \<Rightarrow> bool" where
  "relinked h h' A \<longleftrightarrow> (\<forall>k. map_option core (h' k) = map_option core (h k)) \<and> (\<forall>k. k \<notin> A \<longrightarrow> h' k = h k)"

lemma relinked_refl [simp]: "relinked h h A"
  by (simp add: relinked_def)

lemma relinked_trans: "relinked h h1 A \<Longrightarrow> relinked h1 h2 A \<Longrightarrow> relinked h h2 A"
  by (simp add: relinked_def)

lemma relinked_mono: "relinked h h1 A \<Longrightarrow> A \<subseteq> B \<Longrightarrow> relinked h h1 B"
  by (auto simp: relinked_def)

lemma relinked_dom: "relinked h h' A \<Longrightarrow> h' k = None \<longleftrightarrow> h k = None"
  by (simp add: relinked_def) (metis map_option_is_None)

lemma relinked_node: "relinked h h' A \<Longrightarrow> h k = Some n \<Longrightarrow> \<exists>n'. h' k = Some n' \<and> core n' = core n"
  by (simp add: relinked_def) (metis map_option_eq_Some option.simps(9))

lemma relinked_seg: "relinked h h' A \<Longrightarrow> A \<inter> set xs = {} \<Longrightarrow> seg h p xs q \<Longrightarrow> seg h' p xs q"
  by (rule seg_transfer [where h = h]) (auto simp: relinked_def)

text \<open>
  Rejoining two lists: after the two writes, the part before ends in \<open>v\<close> and the part after starts with
  predecessor \<open>w\<close>.
\<close>

lemma link_next_last:
  assumes "seg h None xs q" "seg h p ys None" "distinct (xs @ ys)"
  obtains h' where "link_next (last_or None xs) v h = Some h'" "seg h' None xs v" "seg h' p ys None"
    "relinked h h' (set xs)"
proof (cases xs rule: rev_cases)
  case Nil
  then show ?thesis
    using that [of h] assms by (simp add: link_next_def)
next
  case (snoc us x)
  obtain n where n: "h x = Some n"
    using assms(1) by (auto simp: snoc seg_append)
  have "x \<notin> set ys" "distinct (us @ [x])"
    using assms(3) by (auto simp: snoc)
  then have "seg (h(x \<mapsto> set_nxt v n)) None xs v" "seg (h(x \<mapsto> set_nxt v n)) p ys None"
    using seg_set_last_next [of h None us x q n v] assms n by (auto simp: snoc seg_frame)
  then show ?thesis
    using that [of "h(x \<mapsto> set_nxt v n)"] n by (simp add: snoc link_next_def relinked_def core_set_nxt)
qed

lemma link_prev_first:
  assumes "seg h None xs v" "seg h p ys None" "distinct (xs @ ys)"
  obtains h' where "link_prev (hd_or None ys) w h = Some h'" "seg h' None xs v" "seg h' w ys None"
    "relinked h h' (set ys)"
proof (cases ys)
  case Nil
  then show ?thesis
    using that [of h] assms by (simp add: link_prev_def)
next
  case (Cons y us)
  obtain n where n: "h y = Some n"
    using assms(2) by (auto simp: Cons)
  have "y \<notin> set xs" "distinct (y # us)"
    using assms(3) by (auto simp: Cons)
  then have "seg (h(y \<mapsto> set_prev w n)) None xs v" "seg (h(y \<mapsto> set_prev w n)) w ys None"
    using seg_set_first_prev [of h p y us None n w] assms n by (auto simp: Cons seg_frame)
  then show ?thesis
    using that [of "h(y \<mapsto> set_prev w n)"] n by (simp add: Cons link_prev_def relinked_def core_set_prev)
qed

lemma link_both:
  assumes "seg h None xs q" "seg h p ys None" "distinct (xs @ ys)"
  obtains h1 h2 where "link_next (last_or None xs) v h = Some h1" "link_prev (hd_or None ys) w h1 = Some h2"
    "seg h2 None xs v" "seg h2 w ys None" "relinked h h2 (set xs \<union> set ys)"
proof -
  from link_next_last [OF assms, of v] obtain h1 where h1: "link_next (last_or None xs) v h = Some h1"
      "seg h1 None xs v" "seg h1 p ys None" "relinked h h1 (set xs)"
    by metis
  from link_prev_first [OF h1(2,3) assms(3), of w] obtain h2 where h2: "link_prev (hd_or None ys) w h1 = Some h2"
      "seg h2 None xs v" "seg h2 w ys None" "relinked h1 h2 (set ys)"
    by metis
  have "relinked h h2 (set xs \<union> set ys)"
    using relinked_trans [OF relinked_mono [OF h1(4)] relinked_mono [OF h2(4)]] by blast
  then show thesis
    using that h1(1) h2(1,2,3) by blast
qed

text \<open>Splicing a node in between two parts of a list.\<close>

lemma splice_in:
  assumes "seg h None (xs @ ys) None" "distinct (xs @ x # ys)"
  obtains h1 h2 where "link_next (last_or None xs) (Some x) h = Some h1"
    "link_prev (hd_or None ys) (Some x) h1 = Some h2"
    "\<And>n. prev n = last_or None xs \<Longrightarrow> nxt n = hd_or None ys \<Longrightarrow> seg (h2(x \<mapsto> n)) None (xs @ x # ys) None"
    "relinked h h2 (set xs \<union> set ys)"
proof -
  have "seg h None xs (hd_or None ys)" "seg h (last_or None xs) ys None" "distinct (xs @ ys)"
    using assms by (auto simp: seg_append)
  from link_both [OF this, of "Some x" "Some x"] obtain h1 h2 where
    h: "link_next (last_or None xs) (Some x) h = Some h1" "link_prev (hd_or None ys) (Some x) h1 = Some h2"
      "seg h2 None xs (Some x)" "seg h2 (Some x) ys None" "relinked h h2 (set xs \<union> set ys)"
    by metis
  show thesis
    by (rule that [OF h(1,2) _ h(5)]) (use h(3,4) assms(2) in \<open>simp add: seg_append seg_frame\<close>)
qed

text \<open>Splicing a node out: the two neighbours are linked to each other.\<close>

lemma splice_out:
  assumes "seg h None (xs @ x # ys) None" "distinct (xs @ x # ys)" "h x = Some n"
    and "\<And>k. k \<noteq> x \<Longrightarrow> h' k = h k"
  obtains h1 h2 where "link_next (prev n) (nxt n) h' = Some h1"
    "link_prev (nxt n) (prev n) h1 = Some h2" "seg h2 None (xs @ ys) None" "relinked h' h2 (set xs \<union> set ys)"
proof -
  have links: "prev n = last_or None xs" "nxt n = hd_or None ys"
    using assms(1,3) by (auto simp: seg_append)
  have s: "seg h None xs (Some x)" "seg h (Some x) ys None"
    using assms(1) by (auto simp: seg_append)
  have "seg h' None xs (Some x)"
    by (rule seg_transfer [OF s(1)], rule assms(4)) (use assms(2) in auto)
  moreover have "seg h' (Some x) ys None"
    by (rule seg_transfer [OF s(2)], rule assms(4)) (use assms(2) in auto)
  ultimately have "seg h' None xs (Some x)" "seg h' (Some x) ys None"
    by simp_all
  from link_both [OF this, of "hd_or None ys" "last_or None xs"] assms(2) obtain h1 h2 where
    h: "link_next (last_or None xs) (hd_or None ys) h' = Some h1"
      "link_prev (hd_or None ys) (last_or None xs) h1 = Some h2"
      "seg h2 None xs (hd_or None ys)" "seg h2 (last_or None xs) ys None" "relinked h' h2 (set xs \<union> set ys)"
    by auto
  show thesis
    using that [of h1 h2] h by (simp add: links seg_append)
qed

end

end
