(* ===== verification/Instrument.thy ===== *)
theory Instrument
  imports MatchingTypes
begin

text \<open>
  The instrument reference data of \<open>src/src/instrument.rs\<close> that order entry uses: the price, quantity and
  reserve-order rules with their validating constructors, codes, symbols and assets, the definition of an
  instrument version and the admission of commands.
\<close>

datatype InstrumentCatalogResource = AssetIdentifiers | AssetCodes | Instruments | InstrumentVersions

text \<open>Codes and symbols are their canonical bytes; the fixed arrays of the source pad them with zeros.\<close>

type_synonym AssetCode = string

type_synonym InstrumentSymbol = string

datatype InstrumentError =
    EmptyText string
  | TextTooLong string nat nat
  | InvalidTextByte string nat
  | DecimalScaleTooLarge nat
  | InvalidTickSize
  | InvalidPriceRange
  | CollarOffTickGrid
  | InvalidQuantityRule
  | QuantityBoundaryOffGrid
  | IdenticalAssets
  | ZeroSettlementMultiplier
  | InvalidReserveOrderRules
  | DuplicateAsset
  | DuplicateInstrumentVersion
  | UnknownAsset AssetId
  | UnknownAssetCode AssetCode
  | NonMonotonicVersion
  | IdentityChanged
  | CapacityExceeded InstrumentCatalogResource nat nat
  | NoEffectiveVersion InstrumentId TimestampNs
  | UnknownInstrument InstrumentId
  | UnknownInstrumentVersion InstrumentId InstrumentVersion

section \<open>Codes, symbols and assets\<close>

definition is_text_byte :: "char \<Rightarrow> bool" where
  "is_text_byte c = (let byte = of_char c :: nat in
     65 \<le> byte \<and> byte \<le> 90 \<or> 48 \<le> byte \<and> byte \<le> 57 \<or> byte = 46 \<or> byte = 95 \<or> byte = 45)"

definition validate_text :: "string \<Rightarrow> string \<Rightarrow> nat \<Rightarrow> InstrumentError + unit" where
  "validate_text field bytes upper =
     and_then (ensure (bytes \<noteq> []) (EmptyText field)) (\<lambda>_.
     and_then (ensure (length bytes \<le> upper) (TextTooLong field (length bytes) upper)) (\<lambda>_.
       case List.find (\<lambda>c. \<not> is_text_byte c) bytes of
         Some c \<Rightarrow> Inl (InvalidTextByte field (of_char c))
       | None \<Rightarrow> Inr ()))"

definition asset_code_new :: "string \<Rightarrow> InstrumentError + AssetCode" where
  "asset_code_new text = and_then (validate_text ''asset code'' text 16) (\<lambda>_. Inr text)"

definition instrument_symbol_new :: "string \<Rightarrow> InstrumentError + InstrumentSymbol" where
  "instrument_symbol_new text = and_then (validate_text ''instrument symbol'' text 32) (\<lambda>_. Inr text)"

record AssetDefinition =
  asset_id_of :: AssetId
  asset_code :: AssetCode
  asset_decimal_scale :: nat

definition asset_definition_new :: "AssetId \<Rightarrow> AssetCode \<Rightarrow> nat \<Rightarrow> InstrumentError + AssetDefinition" where
  "asset_definition_new i code scale =
     (if 18 < scale then Inl (DecimalScaleTooLarge scale)
      else Inr \<lparr>asset_id_of = i, asset_code = code, asset_decimal_scale = scale\<rparr>)"

datatype InstrumentKind = Equity | Spot | Future | Option | Bond | Swap | Index | Synthetic

section \<open>Price rules\<close>

record PriceRules =
  decimal_scale :: nat
  tick_size :: nat
  minimum :: Price
  maximum_price :: Price

text \<open>
  The remainder of the source truncates towards zero and the one here towards minus infinity; they are
  zero for the same prices.
\<close>

definition price_rules_new :: "nat \<Rightarrow> nat \<Rightarrow> Price \<Rightarrow> Price \<Rightarrow> InstrumentError + PriceRules" where
  "price_rules_new scale tick lower upper =
     and_then (ensure (scale \<le> 18) (DecimalScaleTooLarge scale)) (\<lambda>_.
     and_then (ok_or (checked fits_i64 (int tick)) InvalidTickSize) (\<lambda>tick'.
     and_then (ensure (tick' \<noteq> 0) InvalidTickSize) (\<lambda>_.
     and_then (ensure (lower \<le> upper) InvalidPriceRange) (\<lambda>_.
     and_then (ensure (lower mod tick' = 0 \<and> upper mod tick' = 0) CollarOffTickGrid) (\<lambda>_.
       Inr \<lparr>decimal_scale = scale, tick_size = tick, minimum = lower, maximum_price = upper\<rparr>)))))"

definition validate_price :: "PriceRules \<Rightarrow> Price \<Rightarrow> AdmissionError + unit" where
  "validate_price rules price =
     and_then (ensure (minimum rules \<le> price \<and> price \<le> maximum_price rules) AdmissionPriceOutsideCollar) (\<lambda>_.
     and_then (ok_or (checked fits_i64 (int (tick_size rules))) AdmissionPriceOffTickGrid) (\<lambda>tick.
       ensure (price mod tick = 0) AdmissionPriceOffTickGrid))"

section \<open>Quantity rules\<close>

record QuantityRules =
  increment :: nat
  minimum_lots :: nat
  maximum_lots :: nat

definition quantity_rules_new :: "nat \<Rightarrow> nat \<Rightarrow> nat \<Rightarrow> InstrumentError + QuantityRules" where
  "quantity_rules_new increment_lots lower upper =
     and_then (ensure (\<not> (increment_lots = 0 \<or> lower = 0 \<or> upper = 0 \<or> upper < lower)) InvalidQuantityRule) (\<lambda>_.
     and_then (ensure (lower mod increment_lots = 0 \<and> upper mod increment_lots = 0) QuantityBoundaryOffGrid) (\<lambda>_.
       Inr \<lparr>increment = increment_lots, minimum_lots = lower, maximum_lots = upper\<rparr>))"

definition validate_quantity :: "QuantityRules \<Rightarrow> Quantity \<Rightarrow> AdmissionError + unit" where
  "validate_quantity rules lots =
     and_then (ensure (minimum_lots rules \<le> lots \<and> lots \<le> maximum_lots rules) AdmissionQuantityOutsideLimits) (\<lambda>_.
       ensure (lots mod increment rules = 0) AdmissionQuantityOffGrid)"

definition validate_leaves :: "QuantityRules \<Rightarrow> Quantity \<Rightarrow> AdmissionError + unit" where
  "validate_leaves rules lots =
     and_then (ensure (lots \<le> maximum_lots rules) AdmissionQuantityOutsideLimits) (\<lambda>_.
       ensure (lots mod increment rules = 0) AdmissionQuantityOffGrid)"

definition display_is_aligned :: "QuantityRules \<Rightarrow> Quantity \<Rightarrow> bool" where
  "display_is_aligned rules lots \<longleftrightarrow> lots mod increment rules = 0"

section \<open>Reserve-order rules\<close>

record ReserveOrderRules =
  maximum_replenishments :: nat

definition reserve_rules_disabled :: ReserveOrderRules where
  "reserve_rules_disabled = \<lparr>maximum_replenishments = 0\<rparr>"

definition reserve_rules_new :: "nat \<Rightarrow> InstrumentError + ReserveOrderRules" where
  "reserve_rules_new n =
     (if n = 0 then Inl InvalidReserveOrderRules else Inr \<lparr>maximum_replenishments = n\<rparr>)"

definition reserve_enabled :: "ReserveOrderRules \<Rightarrow> bool" where
  "reserve_enabled rules \<longleftrightarrow> maximum_replenishments rules \<noteq> 0"

section \<open>Definitions and admission\<close>

record InstrumentDefinition =
  def_instrument_id :: InstrumentId
  def_version :: InstrumentVersion
  effective_from :: TimestampNs
  def_symbol :: InstrumentSymbol
  def_kind :: InstrumentKind
  def_base_asset_id :: AssetId
  def_quote_asset_id :: AssetId
  def_price :: PriceRules
  def_quantity :: QuantityRules
  def_reserve :: ReserveOrderRules
  hidden_orders_supported :: bool
  def_base_units_per_lot :: nat
  def_quote_units_per_price_unit :: nat
  def_trading_state :: TradingState

definition instrument_definition_new :: "InstrumentDefinition \<Rightarrow> InstrumentError + InstrumentDefinition" where
  "instrument_definition_new spec =
     and_then (ensure (def_base_asset_id spec \<noteq> def_quote_asset_id spec) IdenticalAssets) (\<lambda>_.
     and_then (ensure (\<not> (def_base_units_per_lot spec = 0 \<or> def_quote_units_per_price_unit spec = 0))
                ZeroSettlementMultiplier) (\<lambda>_.
       Inr spec))"

definition validate_identity :: "InstrumentDefinition \<Rightarrow> InstrumentId \<Rightarrow> InstrumentVersion \<Rightarrow> AdmissionError + unit" where
  "validate_identity d instrument version =
     (if instrument \<noteq> def_instrument_id d then Inl AdmissionWrongInstrument
      else if version \<noteq> def_version d then Inl WrongVersion
      else Inr ())"

definition validate_display :: "InstrumentDefinition \<Rightarrow> OrderDisplay \<Rightarrow> Quantity \<Rightarrow> AdmissionError + unit" where
  "validate_display d display total_lots =
     (case display of
        Hidden \<Rightarrow> if hidden_orders_supported d then Inr () else Inl AdmissionHiddenOrderNotSupported
      | FullyDisplayed \<Rightarrow> Inr ()
      | Reserve p \<Rightarrow>
          and_then (ensure (reserve_enabled (def_reserve d)) AdmissionReserveOrderNotSupported) (\<lambda>_.
          and_then (ensure (display_is_aligned (def_quantity d) p) AdmissionDisplayQuantityOffGrid) (\<lambda>_.
          and_then (ensure (p < total_lots) AdmissionDisplayQuantityNotLessThanOrder) (\<lambda>_.
            ensure ((total_lots - 1) div p \<le> maximum_replenishments (def_reserve d))
              AdmissionReserveReplenishmentLimit))))"

definition admit_new :: "InstrumentDefinition \<Rightarrow> NewOrder \<Rightarrow> TradingState \<Rightarrow> AdmissionError + unit" where
  "admit_new d order state =
     and_then (validate_identity d (new_instrument_id order) (new_instrument_version order)) (\<lambda>_.
     and_then (ensure (permits_entry state) TradingStateDisallowsEntry) (\<lambda>_.
     and_then (validate_quantity (def_quantity d) (new_quantity order)) (\<lambda>_.
     and_then (validate_display d (new_display order) (new_quantity order)) (\<lambda>_.
       case new_order_type order of
         Market \<Rightarrow> Inr ()
       | MarketToLimit \<Rightarrow> Inr ()
       | Limit price \<Rightarrow> validate_price (def_price d) price
       | Stop trigger_price activation \<Rightarrow>
           and_then (validate_price (def_price d) trigger_price) (\<lambda>_.
             case activation of StopLimit price \<Rightarrow> validate_price (def_price d) price
             | StopMarket \<Rightarrow> Inr ())))))"

definition admit_replace :: "InstrumentDefinition \<Rightarrow> ReplaceOrder \<Rightarrow> TradingState \<Rightarrow> AdmissionError + unit" where
  "admit_replace d order state =
     and_then (validate_identity d (replace_instrument_id order) (replace_instrument_version order)) (\<lambda>_.
     and_then (ensure (permits_entry state) TradingStateDisallowsEntry) (\<lambda>_.
     and_then (validate_quantity (def_quantity d) (replace_quantity order)) (\<lambda>_.
     and_then (validate_display d (replace_display order) (replace_quantity order)) (\<lambda>_.
       validate_price (def_price d) (replace_price order)))))"

fun admit_in_state :: "InstrumentDefinition \<Rightarrow> Command \<Rightarrow> TradingState \<Rightarrow> AdmissionError + unit" where
  "admit_in_state d (New c) state = admit_new d c state"
| "admit_in_state d (Cancel c) state =
     validate_identity d (cancel_instrument_id c) (cancel_instrument_version c)"
| "admit_in_state d (Replace c) state = admit_replace d c state"
| "admit_in_state d (CommandMassCancel c) state =
     validate_identity d (mass_instrument_id c) (mass_instrument_version c)"
| "admit_in_state d (CommandAccountControl c) state =
     validate_identity d (account_instrument_id c) (account_instrument_version c)"
| "admit_in_state d (CommandTradingStateControl c) state =
     validate_identity d (state_instrument_id c) (state_instrument_version c)"
| "admit_in_state d (CommandExpirySweep c) state =
     validate_identity d (expiry_instrument_id c) (expiry_instrument_version c)"
| "admit_in_state d (CommandStopTriggerSweep c) state =
     and_then (validate_identity d (trigger_instrument_id c) (trigger_instrument_version c)) (\<lambda>_.
       validate_price (def_price d) (reference_price (trigger_reference c)))"

definition admit :: "InstrumentDefinition \<Rightarrow> Command \<Rightarrow> AdmissionError + unit" where
  "admit d command = admit_in_state d command (def_trading_state d)"

end
