(* ===== verification/OrderBookState.thy ===== *)
theory OrderBookState
  imports PriceLevels LinkedOrders Instrument
begin

text \<open>
  The state of the order book of \<open>src/src/matching.rs\<close> and the operations that keep its orders, price queues,
  account lists, expiry index and trigger indexes in step.  The bounded hash maps of the source are partial
  functions here (theory \<^theory_text>\<open>BoundedHash\<close> shows that the table behaves as one) and the ordered indexes are
  those of \<^theory_text>\<open>OrderedIndex\<close>.  A failed assertion, an \<open>expect\<close> on an absent value and an overflow are
  \<^const>\<open>None\<close>.
\<close>

section \<open>Limits and errors\<close>

datatype MatchingCapacity = AdmissionCommandHistory | AdmissionEventHistory | CommandHistory | RetainedEvents
  | AcceptedOrderIds | AccountControls | ActiveOrders | ExpiryIndex | BuyStopIndex | SellStopIndex
  | ActiveAccounts | BidPriceLevels | AskPriceLevels | ReportEvents | OrderSelectionBuffers
  | PreparedOrderSelections | RiskReservations | RiskAccounts

datatype MatchingError = CommandIdCollision CommandId | SequenceExhausted | TradeIdExhausted
  | CapacityExhausted MatchingCapacity | CapacityReservationFailed MatchingCapacity
  | PreparationCapacityExhausted nat | StalePreparation | ForeignPreparation | BookInstanceIdExhausted
  | InternalInvariantViolation

record OrderBookLimits =
  max_active_orders :: nat
  max_active_accounts :: nat
  max_price_levels_per_side :: nat
  max_accepted_order_ids :: nat
  max_account_controls :: nat
  max_retained_commands :: nat
  cancellation_reserve :: nat
  max_report_events :: nat
  max_retained_events :: nat
  max_prepared_order_selections :: nat

datatype OrderBookLimitsError = ZeroActiveOrders | ZeroActiveAccounts | ZeroPriceLevels | ZeroAcceptedOrderIds
  | ZeroAccountControls | ZeroRetainedCommands | ZeroReportEvents | ZeroRetainedEvents
  | ZeroPreparedOrderSelections | ActiveAccountsExceedActiveOrders | PriceLevelsExceedActiveOrders
  | ActiveOrdersExceedAcceptedOrderIds | CancellationReserveBelowActiveOrders
  | ReportEventsBelowMassCancelMaximum | NoOrdinaryCommandCapacity
  | ActiveOrdersExceedOrdinaryCommandCapacity | RetainedEventReserveOverflow | NoOrdinaryEventCapacity
  | ReportEventsExceedOrdinaryEventCapacity | ActiveOrdersExceedOrdinaryEventCapacity

definition book_limits_new :: "OrderBookLimits \<Rightarrow> OrderBookLimitsError + OrderBookLimits" where
  "book_limits_new spec =
     and_then (ensure (max_active_orders spec \<noteq> 0) ZeroActiveOrders) (\<lambda>_.
     and_then (ensure (max_active_accounts spec \<noteq> 0) ZeroActiveAccounts) (\<lambda>_.
     and_then (ensure (max_price_levels_per_side spec \<noteq> 0) ZeroPriceLevels) (\<lambda>_.
     and_then (ensure (max_accepted_order_ids spec \<noteq> 0) ZeroAcceptedOrderIds) (\<lambda>_.
     and_then (ensure (max_account_controls spec \<noteq> 0) ZeroAccountControls) (\<lambda>_.
     and_then (ensure (max_retained_commands spec \<noteq> 0) ZeroRetainedCommands) (\<lambda>_.
     and_then (ensure (max_report_events spec \<noteq> 0) ZeroReportEvents) (\<lambda>_.
     and_then (ensure (max_retained_events spec \<noteq> 0) ZeroRetainedEvents) (\<lambda>_.
     and_then (ensure (max_prepared_order_selections spec \<noteq> 0) ZeroPreparedOrderSelections) (\<lambda>_.
     and_then (ensure (max_active_accounts spec \<le> max_active_orders spec) ActiveAccountsExceedActiveOrders) (\<lambda>_.
     and_then (ensure (max_price_levels_per_side spec \<le> max_active_orders spec) PriceLevelsExceedActiveOrders) (\<lambda>_.
     and_then (ensure (max_active_orders spec \<le> max_accepted_order_ids spec) ActiveOrdersExceedAcceptedOrderIds) (\<lambda>_.
     and_then (ensure (max_active_orders spec \<le> cancellation_reserve spec) CancellationReserveBelowActiveOrders) (\<lambda>_.
     and_then (ok_or (checked fits_usize (max_active_orders spec + 1)) RetainedEventReserveOverflow) (\<lambda>mass_cancel_events.
     and_then (ensure (mass_cancel_events \<le> max_report_events spec) ReportEventsBelowMassCancelMaximum) (\<lambda>_.
     and_then (ensure (cancellation_reserve spec < max_retained_commands spec) NoOrdinaryCommandCapacity) (\<lambda>_.
     and_then (ensure (max_active_orders spec \<le> max_retained_commands spec - cancellation_reserve spec)
                ActiveOrdersExceedOrdinaryCommandCapacity) (\<lambda>_.
     and_then (ensure (mass_cancel_events < max_retained_events spec) NoOrdinaryEventCapacity) (\<lambda>_.
       let ordinary = max_retained_events spec - mass_cancel_events
       in and_then (ensure (max_report_events spec \<le> ordinary) ReportEventsExceedOrdinaryEventCapacity) (\<lambda>_.
          and_then (ok_or (checked fits_usize (max_active_orders spec * 2)) ActiveOrdersExceedOrdinaryEventCapacity)
            (\<lambda>population_events.
          and_then (ensure (population_events \<le> ordinary) ActiveOrdersExceedOrdinaryEventCapacity) (\<lambda>_.
            Inr spec)))))))))))))))))))))"

definition cancellation_event_reserve :: "OrderBookLimits \<Rightarrow> nat" where
  "cancellation_event_reserve limits = max_active_orders limits + 1"

definition ordinary_event_capacity :: "OrderBookLimits \<Rightarrow> nat" where
  "ordinary_event_capacity limits = max_retained_events limits - cancellation_event_reserve limits"

definition ordinary_command_capacity :: "OrderBookLimits \<Rightarrow> nat" where
  "ordinary_command_capacity limits = max_retained_commands limits - cancellation_reserve limits"

section \<open>Resting orders and their keys\<close>

record DormantStopState =
  stop_trigger_price :: Price
  stop_activation :: StopActivation
  stop_time_in_force :: TimeInForce
  priority_sequence :: nat

record RestingOrder =
  order_id :: OrderId
  order_account_id :: AccountId
  order_side :: Side
  order_price :: Price
  leaves :: nat
  displayed :: nat
  order_display :: OrderDisplay
  order_self_trade_prevention :: SelfTradePrevention
  order_expires_at :: "TimestampNs option"
  stop :: "DormantStopState option"
  previous :: "OrderId option"
  next_order :: "OrderId option"
  account_previous :: "OrderId option"
  account_next :: "OrderId option"

definition is_dormant_stop :: "RestingOrder \<Rightarrow> bool" where
  "is_dormant_stop order \<longleftrightarrow> stop order \<noteq> None"

text \<open>\<open>u128::div_ceil\<close>; the divisor is not zero.\<close>

definition div_ceil :: "nat \<Rightarrow> nat \<Rightarrow> nat option" where
  "div_ceil a b = (if b = 0 then None else Some ((a + b - 1) div b))"

definition remaining_event_units :: "RestingOrder \<Rightarrow> nat option" where
  "remaining_event_units order =
     (if stop order \<noteq> None then Some 0
      else do {
        slices \<leftarrow> (case order_display order of
                     FullyDisplayed \<Rightarrow> Some 1
                   | Hidden \<Rightarrow> Some 1
                   | Reserve p \<Rightarrow> do {
                       hidden \<leftarrow> checked_sub (leaves order) (displayed order);
                       refills \<leftarrow> div_ceil hidden p;
                       checked fits_u128 (1 + refills)
                     });
        doubled \<leftarrow> checked fits_u128 (slices * 2);
        checked_sub doubled 1
      })"

text \<open>The reversed order of the sell-stop keys, \<open>std::cmp::Reverse\<close>.\<close>

datatype 'a Reverse = Reverse (unreverse: 'a)

instantiation Reverse :: (linorder) linorder
begin

definition less_eq_Reverse :: "'a Reverse \<Rightarrow> 'a Reverse \<Rightarrow> bool" where
  "less_eq_Reverse a b \<longleftrightarrow> unreverse b \<le> unreverse a"

definition less_Reverse :: "'a Reverse \<Rightarrow> 'a Reverse \<Rightarrow> bool" where
  "less_Reverse a b \<longleftrightarrow> unreverse b < unreverse a"

instance
  by standard (auto simp: less_eq_Reverse_def less_Reverse_def Reverse.expand)

end

text \<open>Derived orders compare the fields of a key lexicographically.\<close>

type_synonym ExpiryKey = "TimestampNs \<times> OrderId"
type_synonym BuyStopKey = "Price \<times> nat \<times> OrderId"
type_synonym SellStopKey = "Price Reverse \<times> nat \<times> OrderId"

section \<open>Account indexes\<close>

record AccountSideIndex =
  account_head :: "OrderId option"
  account_tail :: "OrderId option"
  account_order_count :: nat
  account_event_units :: nat

record AccountOrderIndex =
  buys :: AccountSideIndex
  sells :: AccountSideIndex

definition side_index_default :: AccountSideIndex where
  "side_index_default = \<lparr>account_head = None, account_tail = None, account_order_count = 0, account_event_units = 0\<rparr>"

definition account_index_default :: AccountOrderIndex where
  "account_index_default = \<lparr>buys = side_index_default, sells = side_index_default\<rparr>"

fun account_side :: "AccountOrderIndex \<Rightarrow> Side \<Rightarrow> AccountSideIndex" where
  "account_side i Buy = buys i"
| "account_side i Sell = sells i"

fun set_account_side :: "Side \<Rightarrow> AccountSideIndex \<Rightarrow> AccountOrderIndex \<Rightarrow> AccountOrderIndex" where
  "set_account_side Buy v i = i\<lparr>buys := v\<rparr>"
| "set_account_side Sell v i = i\<lparr>sells := v\<rparr>"

definition assert_that :: "bool \<Rightarrow> unit option" where
  "assert_that c = (if c then Some () else None)"

definition account_append ::
    "AccountOrderIndex \<Rightarrow> Side \<Rightarrow> OrderId \<Rightarrow> nat \<Rightarrow> (OrderId option \<times> AccountOrderIndex) option"
where
  "account_append i side x units = do {
     let index = account_side i side;
     let prior = account_tail index;
     index \<leftarrow> (if account_order_count index = 0 then do {
         assert_that (account_head index = None \<and> account_tail index = None);
         Some (index\<lparr>account_head := Some x\<rparr>)
       } else do {
         assert_that (account_head index \<noteq> None \<and> account_tail index \<noteq> None);
         Some index
       });
     count \<leftarrow> checked fits_usize (account_order_count index + 1);
     units \<leftarrow> checked fits_u128 (account_event_units index + units);
     Some (prior, set_account_side side
       (index\<lparr>account_tail := Some x, account_order_count := count, account_event_units := units\<rparr>) i)
   }"

definition account_remove ::
    "AccountOrderIndex \<Rightarrow> Side \<Rightarrow> OrderId \<Rightarrow> OrderId option \<Rightarrow> OrderId option \<Rightarrow> nat \<Rightarrow> AccountOrderIndex option"
where
  "account_remove i side x prior following units = do {
     let index = account_side i side;
     assert_that (account_order_count index \<noteq> 0);
     index \<leftarrow> (if prior = None then do {
         assert_that (account_head index = Some x);
         Some (index\<lparr>account_head := following\<rparr>)
       } else Some index);
     index \<leftarrow> (if following = None then do {
         assert_that (account_tail index = Some x);
         Some (index\<lparr>account_tail := prior\<rparr>)
       } else Some index);
     remaining \<leftarrow> checked_sub (account_event_units index) units;
     let index = index\<lparr>account_order_count := account_order_count index - 1, account_event_units := remaining\<rparr>;
     assert_that (account_order_count index = 0 \<longrightarrow> account_head index = None \<and> account_tail index = None);
     Some (set_account_side side index i)
   }"

definition replace_event_units :: "AccountOrderIndex \<Rightarrow> Side \<Rightarrow> nat \<Rightarrow> nat \<Rightarrow> AccountOrderIndex option" where
  "replace_event_units i side old new = do {
     let index = account_side i side;
     units \<leftarrow> checked_sub (account_event_units index) old;
     units \<leftarrow> checked fits_u128 (units + new);
     Some (set_account_side side (index\<lparr>account_event_units := units\<rparr>) i)
   }"

definition account_is_empty :: "AccountOrderIndex \<Rightarrow> bool" where
  "account_is_empty i \<longleftrightarrow> account_order_count (buys i) = 0 \<and> account_order_count (sells i) = 0"

section \<open>The book\<close>

record CachedReport =
  cached_command :: Command
  cached_report :: ExecutionReport

record OrderBook =
  instance_id :: nat
  book_definition :: InstrumentDefinition
  trading_state :: TradingStateSnapshot
  limits :: OrderBookLimits
  bids :: PriceLevels
  asks :: PriceLevels
  orders :: "OrderId \<rightharpoonup> RestingOrder"
  expiries :: "(ExpiryKey, OrderId) Index"
  expiry_watermark :: "TimestampNs option"
  buy_stops :: "(BuyStopKey, OrderId) Index"
  sell_stops :: "(SellStopKey, OrderId) Index"
  stop_reference :: "StopReference option"
  account_orders :: "AccountId \<rightharpoonup> AccountOrderIndex"
  seen_order_ids :: "OrderId set"
  account_controls :: "AccountId \<rightharpoonup> AccountControlSnapshot"
  reports :: "CommandId \<rightharpoonup> CachedReport"
  retained_event_count :: nat
  next_sequence :: nat
  next_trade_id :: nat

text \<open>
  \<open>OrderBook::try_with_limits\<close> after every reservation has succeeded; the process-local instance number is a
  parameter.
\<close>

definition book_new :: "nat \<Rightarrow> InstrumentDefinition \<Rightarrow> OrderBookLimits \<Rightarrow> OrderBook" where
  "book_new instance d limit =
     \<lparr>instance_id = instance, book_definition = d,
      trading_state = \<lparr>snapshot_trading_state = def_trading_state d, trading_revision = 0\<rparr>, limits = limit,
      bids = levels_new Buy (max_price_levels_per_side limit), asks = levels_new Sell (max_price_levels_per_side limit),
      orders = Map.empty, expiries = index_new (max_active_orders limit), expiry_watermark = None,
      buy_stops = index_new (max_active_orders limit), sell_stops = index_new (max_active_orders limit),
      stop_reference = None, account_orders = Map.empty, seen_order_ids = {}, account_controls = Map.empty,
      reports = Map.empty, retained_event_count = 0, next_sequence = 1, next_trade_id = 1\<rparr>"

fun levels :: "OrderBook \<Rightarrow> Side \<Rightarrow> PriceLevels" where
  "levels b Buy = bids b"
| "levels b Sell = asks b"

fun set_levels :: "Side \<Rightarrow> PriceLevels \<Rightarrow> OrderBook \<Rightarrow> OrderBook" where
  "set_levels Buy l b = b\<lparr>bids := l\<rparr>"
| "set_levels Sell l b = b\<lparr>asks := l\<rparr>"

text \<open>\<open>orders.get_mut(..).expect(..)\<close> followed by an update of the order.\<close>

definition modify_order :: "OrderId \<Rightarrow> (RestingOrder \<Rightarrow> RestingOrder) \<Rightarrow> OrderBook \<Rightarrow> OrderBook option" where
  "modify_order x f b =
     (case orders b x of None \<Rightarrow> None | Some o' \<Rightarrow> Some (b\<lparr>orders := (orders b)(x \<mapsto> f o')\<rparr>))"

definition modify_optional ::
    "OrderId option \<Rightarrow> (RestingOrder \<Rightarrow> RestingOrder) \<Rightarrow> OrderBook \<Rightarrow> OrderBook option" where
  "modify_optional x f b = (case x of None \<Rightarrow> Some b | Some k \<Rightarrow> modify_order k f b)"

definition update_level ::
    "Side \<Rightarrow> Price \<Rightarrow> (PriceLevel \<Rightarrow> ('r \<times> PriceLevel) option) \<Rightarrow> OrderBook \<Rightarrow> ('r \<times> OrderBook) option"
where
  "update_level side handle f b = do {
     (r, l) \<leftarrow> update_by_handle (levels b side) handle f;
     case r of None \<Rightarrow> None | Some r \<Rightarrow> Some (r, set_levels side l b)
   }"

section \<open>Appending\<close>

text \<open>\<open>insert_expiry\<close> registers an order that expires in the index of expiries.\<close>

definition insert_expiry :: "RestingOrder \<Rightarrow> OrderBook \<Rightarrow> OrderBook option" where
  "insert_expiry order b =
     (case order_expires_at order of
        None \<Rightarrow> Some b
      | Some expires_at \<Rightarrow> do {
          (old, index) \<leftarrow> index_insert (expiries b) (expires_at, order_id order) (order_id order);
          assert_that (old = None);
          Some (b\<lparr>expiries := index\<rparr>)
        })"

definition append_account_membership :: "RestingOrder \<Rightarrow> OrderBook \<Rightarrow> (RestingOrder \<times> OrderBook) option" where
  "append_account_membership order b = do {
     event_units \<leftarrow> remaining_event_units order;
     assert_that (account_previous order = None \<and> account_next order = None);
     let prior = (case account_orders b (order_account_id order) of None \<Rightarrow> None
                  | Some index \<Rightarrow> account_tail (account_side index (order_side order)));
     let order = order\<lparr>account_previous := prior\<rparr>;
     b \<leftarrow> (case prior of
             None \<Rightarrow> Some b
           | Some k \<Rightarrow> do {
               before \<leftarrow> orders b k;
               assert_that (order_account_id before = order_account_id order);
               assert_that (order_side before = order_side order);
               assert_that (account_next before = None);
               modify_order k (\<lambda>o'. o'\<lparr>account_next := Some (order_id order)\<rparr>) b
             });
     let index = (case account_orders b (order_account_id order) of None \<Rightarrow> account_index_default | Some i \<Rightarrow> i);
     (indexed_prior, index) \<leftarrow> account_append index (order_side order) (order_id order) event_units;
     assert_that (indexed_prior = prior);
     Some (order, b\<lparr>account_orders := (account_orders b)(order_account_id order \<mapsto> index)\<rparr>)
   }"

text \<open>
  The links of an order that joins an occupied level: behind the whole queue if it is hidden, behind the
  displayed class otherwise; then the closure that updates the level.
\<close>

definition link_into_level :: "RestingOrder \<Rightarrow> PriceLevel \<Rightarrow> OrderBook \<Rightarrow> (RestingOrder \<times> OrderBook) option" where
  "link_into_level order level b =
     (if is_hidden (order_display order) then do {
        b \<leftarrow> modify_order (level_tail level) (\<lambda>o'. o'\<lparr>next_order := Some (order_id order)\<rparr>) b;
        Some (order\<lparr>previous := Some (level_tail level)\<rparr>, b)
      } else do {
        following \<leftarrow> (case displayed_tail level of
            None \<Rightarrow> Some (Some (level_head level))
          | Some t \<Rightarrow> map_option next_order (orders b t));
        b \<leftarrow> modify_optional (displayed_tail level) (\<lambda>o'. o'\<lparr>next_order := Some (order_id order)\<rparr>) b;
        b \<leftarrow> modify_optional following (\<lambda>o'. o'\<lparr>previous := Some (order_id order)\<rparr>) b;
        Some (order\<lparr>previous := displayed_tail level, next_order := following\<rparr>, b)
      })"

definition level_with_order :: "RestingOrder \<Rightarrow> nat \<Rightarrow> PriceLevel \<Rightarrow> (unit \<times> PriceLevel) option" where
  "level_with_order order event_units level = do {
     let hidden = is_hidden (order_display order);
     let level =
       (if hidden then level\<lparr>level_tail := order_id order\<rparr>
        else level\<lparr>level_head := (if previous order = None then order_id order else level_head level),
                   level_tail := (if next_order order = None then order_id order else level_tail level),
                   displayed_tail := Some (order_id order)\<rparr>);
     quantity \<leftarrow> checked fits_u128 (total_quantity level + visible_lots (order_display order) (displayed order));
     count \<leftarrow> checked fits_u64 (order_count level + 1);
     visible_count \<leftarrow> checked fits_u64 (visible_order_count level + (if hidden then 0 else 1));
     units \<leftarrow> checked fits_u128 (level_event_units level + event_units);
     Some ((), level\<lparr>total_quantity := quantity, order_count := count,
       visible_order_count := visible_count, level_event_units := units\<rparr>)
   }"

definition level_for_order :: "RestingOrder \<Rightarrow> nat \<Rightarrow> PriceLevel" where
  "level_for_order order event_units =
     \<lparr>level_head = order_id order, level_tail = order_id order,
      displayed_tail = (if is_hidden (order_display order) then None else Some (order_id order)),
      total_quantity = visible_lots (order_display order) (displayed order), order_count = 1,
      visible_order_count = (if is_hidden (order_display order) then 0 else 1), level_event_units = event_units\<rparr>"

definition append_order_preserving_account_index :: "RestingOrder \<Rightarrow> OrderBook \<Rightarrow> OrderBook option" where
  "append_order_preserving_account_index order b = do {
     assert_that (stop order = None);
     event_units \<leftarrow> remaining_event_units order;
     let side = order_side order;
     let price = order_price order;
     (order, b) \<leftarrow>
       (case levels_get (levels b side) price of
          Some level \<Rightarrow> do {
            (order, b) \<leftarrow> link_into_level order level b;
            (_, b) \<leftarrow> update_level side price (level_with_order order event_units) b;
            Some (order, b)
          }
        | None \<Rightarrow> do {
            (_, l) \<leftarrow> levels_insert (levels b side) price (level_for_order order event_units);
            Some (order, set_levels side l b)
          });
     assert_that (orders b (order_id order) = None);
     let b = b\<lparr>orders := (orders b)(order_id order \<mapsto> order)\<rparr>;
     insert_expiry order b
   }"

definition append_order :: "RestingOrder \<Rightarrow> OrderBook \<Rightarrow> OrderBook option" where
  "append_order order b = do {
     assert_that (stop order = None);
     assert_that (card (dom (orders b)) < max_active_orders (limits b));
     assert_that (account_orders b (order_account_id order) \<noteq> None \<or>
                  card (dom (account_orders b)) < max_active_accounts (limits b));
     assert_that (levels_get (levels b (order_side order)) (order_price order) \<noteq> None \<or>
                  levels_len (levels b (order_side order)) < max_price_levels_per_side (limits b));
     (order, b) \<leftarrow> append_account_membership order b;
     append_order_preserving_account_index order b
   }"

text \<open>The stop indexes order the buys by rising and the sells by falling trigger prices.\<close>

definition insert_stop :: "RestingOrder \<Rightarrow> DormantStopState \<Rightarrow> OrderBook \<Rightarrow> OrderBook option" where
  "insert_stop order s b =
     (case order_side order of
        Buy \<Rightarrow> do {
          (old, index) \<leftarrow> index_insert (buy_stops b)
            (stop_trigger_price s, priority_sequence s, order_id order) (order_id order);
          assert_that (old = None);
          Some (b\<lparr>buy_stops := index\<rparr>)
        }
      | Sell \<Rightarrow> do {
          (old, index) \<leftarrow> index_insert (sell_stops b)
            (Reverse (stop_trigger_price s), priority_sequence s, order_id order) (order_id order);
          assert_that (old = None);
          Some (b\<lparr>sell_stops := index\<rparr>)
        })"

definition append_dormant_stop :: "RestingOrder \<Rightarrow> OrderBook \<Rightarrow> OrderBook option" where
  "append_dormant_stop order b = do {
     assert_that (stop order \<noteq> None);
     assert_that (card (dom (orders b)) < max_active_orders (limits b));
     assert_that (account_orders b (order_account_id order) \<noteq> None \<or>
                  card (dom (account_orders b)) < max_active_accounts (limits b));
     (order, b) \<leftarrow> append_account_membership order b;
     s \<leftarrow> stop order;
     assert_that (orders b (order_id order) = None);
     let b = b\<lparr>orders := (orders b)(order_id order \<mapsto> order)\<rparr>;
     b \<leftarrow> insert_expiry order b;
     insert_stop order s b
   }"

section \<open>Removing\<close>

definition remove_expiry :: "RestingOrder \<Rightarrow> OrderBook \<Rightarrow> OrderBook option" where
  "remove_expiry order b =
     (case order_expires_at order of
        None \<Rightarrow> Some b
      | Some expires_at \<Rightarrow>
          (let (old, index) = index_remove (expiries b) (expires_at, order_id order)
           in if old = Some (order_id order) then Some (b\<lparr>expiries := index\<rparr>) else None))"

definition level_without_order :: "RestingOrder \<Rightarrow> nat \<Rightarrow> PriceLevel \<Rightarrow> (bool \<times> PriceLevel) option" where
  "level_without_order order order_units level = do {
     quantity \<leftarrow> checked_sub (total_quantity level) (visible_lots (order_display order) (displayed order));
     count \<leftarrow> checked_sub (order_count level) 1;
     visible_count \<leftarrow> checked_sub (visible_order_count level) (if is_hidden (order_display order) then 0 else 1);
     units \<leftarrow> checked_sub (level_event_units level) order_units;
     let level = level\<lparr>total_quantity := quantity, order_count := count,
       visible_order_count := visible_count, level_event_units := units\<rparr>;
     let level = (if previous order = None then
                    (case next_order order of Some n \<Rightarrow> level\<lparr>level_head := n\<rparr> | None \<Rightarrow> level) else level);
     let level = (if next_order order = None then
                    (case previous order of Some p \<Rightarrow> level\<lparr>level_tail := p\<rparr> | None \<Rightarrow> level) else level);
     let level = (if displayed_tail level = Some (order_id order)
                  then level\<lparr>displayed_tail := previous order\<rparr> else level);
     Some (order_count level = 0, level)
   }"

definition remove_order_preserving_account_index_at :: "OrderId \<Rightarrow> Price \<Rightarrow> OrderBook \<Rightarrow> (RestingOrder \<times> OrderBook) option" where
  "remove_order_preserving_account_index_at x handle b = do {
     order \<leftarrow> orders b x;
     let b = b\<lparr>orders := (orders b)(x := None)\<rparr>;
     b \<leftarrow> remove_expiry order b;
     b \<leftarrow> modify_optional (previous order) (\<lambda>o'. o'\<lparr>next_order := next_order order\<rparr>) b;
     b \<leftarrow> modify_optional (next_order order) (\<lambda>o'. o'\<lparr>previous := previous order\<rparr>) b;
     order_units \<leftarrow> remaining_event_units order;
     (emptied, b) \<leftarrow> update_level (order_side order) handle (level_without_order order order_units) b;
     if emptied then do {
       (removed, l) \<leftarrow> remove_by_handle (levels b (order_side order)) handle;
       assert_that (removed \<noteq> None);
       Some (order, set_levels (order_side order) l b)
     } else Some (order, b)
   }"

definition remove_stop :: "RestingOrder \<Rightarrow> DormantStopState \<Rightarrow> OrderId \<Rightarrow> OrderBook \<Rightarrow> (RestingOrder \<times> OrderBook) option" where
  "remove_stop order s x b =
     (case order_side order of
        Buy \<Rightarrow>
          (let (removed, index) = index_remove (buy_stops b) (stop_trigger_price s, priority_sequence s, x)
           in if removed = Some x then Some (order, b\<lparr>buy_stops := index\<rparr>) else None)
      | Sell \<Rightarrow>
          (let (removed, index) = index_remove (sell_stops b) (Reverse (stop_trigger_price s), priority_sequence s, x)
           in if removed = Some x then Some (order, b\<lparr>sell_stops := index\<rparr>) else None))"

definition remove_dormant_stop_preserving_account_index :: "OrderId \<Rightarrow> OrderBook \<Rightarrow> (RestingOrder \<times> OrderBook) option" where
  "remove_dormant_stop_preserving_account_index x b = do {
     order \<leftarrow> orders b x;
     let b = b\<lparr>orders := (orders b)(x := None)\<rparr>;
     s \<leftarrow> stop order;
     b \<leftarrow> remove_expiry order b;
     remove_stop order s x b
   }"

definition remove_order_preserving_account_index :: "OrderId \<Rightarrow> OrderBook \<Rightarrow> (RestingOrder \<times> OrderBook) option" where
  "remove_order_preserving_account_index x b = do {
     order \<leftarrow> orders b x;
     if is_dormant_stop order then remove_dormant_stop_preserving_account_index x b
     else do {
       handle \<leftarrow> levels_handle (levels b (order_side order)) (order_price order);
       remove_order_preserving_account_index_at x handle b
     }
   }"

definition remove_account_membership :: "RestingOrder \<Rightarrow> OrderBook \<Rightarrow> OrderBook option" where
  "remove_account_membership order b = do {
     b \<leftarrow> modify_optional (account_previous order) (\<lambda>o'. o'\<lparr>account_next := account_next order\<rparr>) b;
     b \<leftarrow> modify_optional (account_next order) (\<lambda>o'. o'\<lparr>account_previous := account_previous order\<rparr>) b;
     index \<leftarrow> account_orders b (order_account_id order);
     units \<leftarrow> remaining_event_units order;
     index \<leftarrow> account_remove index (order_side order) (order_id order) (account_previous order)
       (account_next order) units;
     Some (b\<lparr>account_orders :=
       (account_orders b)(order_account_id order := if account_is_empty index then None else Some index)\<rparr>)
   }"

definition remove_order_at_level :: "OrderId \<Rightarrow> Price \<Rightarrow> OrderBook \<Rightarrow> (RestingOrder \<times> OrderBook) option" where
  "remove_order_at_level x handle b = do {
     (order, b) \<leftarrow> remove_order_preserving_account_index_at x handle b;
     b \<leftarrow> remove_account_membership order b;
     Some (order, b)
   }"

definition remove_order :: "OrderId \<Rightarrow> OrderBook \<Rightarrow> (RestingOrder \<times> OrderBook) option" where
  "remove_order x b = do {
     order \<leftarrow> orders b x;
     if is_dormant_stop order then do {
       (removed, b) \<leftarrow> remove_dormant_stop_preserving_account_index x b;
       b \<leftarrow> remove_account_membership removed b;
       Some (removed, b)
     } else do {
       handle \<leftarrow> levels_handle (levels b (order_side order)) (order_price order);
       remove_order_at_level x handle b
     }
   }"

section \<open>Filling a resting order\<close>

record ReserveRefresh =
  refresh_order_id :: OrderId
  refresh_price :: Price
  refresh_displayed :: nat
  refresh_leaves :: nat

definition relink_to_displayed_tail :: "RestingOrder \<Rightarrow> PriceLevel \<Rightarrow> OrderBook \<Rightarrow> (OrderId option \<times> OrderId option \<times> OrderBook) option" where
  "relink_to_displayed_tail order level b = do {
     following \<leftarrow> next_order order;
     b \<leftarrow> modify_optional (previous order) (\<lambda>o'. o'\<lparr>next_order := Some following\<rparr>) b;
     b \<leftarrow> modify_order following (\<lambda>o'. o'\<lparr>previous := previous order\<rparr>) b;
     shown_tail \<leftarrow> displayed_tail level;
     insertion_next \<leftarrow> map_option next_order (orders b shown_tail);
     b \<leftarrow> modify_order shown_tail (\<lambda>o'. o'\<lparr>next_order := Some (order_id order)\<rparr>) b;
     b \<leftarrow> modify_optional insertion_next (\<lambda>o'. o'\<lparr>previous := Some (order_id order)\<rparr>) b;
     Some (Some shown_tail, insertion_next, b)
   }"

definition level_with_refresh :: "RestingOrder \<Rightarrow> RestingOrder \<Rightarrow> nat \<Rightarrow> nat \<Rightarrow> bool \<Rightarrow> PriceLevel \<Rightarrow> (unit \<times> PriceLevel) option" where
  "level_with_refresh order refreshed old_units new_units moved level = do {
     quantity \<leftarrow> checked_sub (total_quantity level) (visible_lots (order_display order) (displayed order));
     quantity \<leftarrow> checked fits_u128 (quantity + visible_lots (order_display refreshed) (displayed refreshed));
     units \<leftarrow> checked_sub (level_event_units level) old_units;
     units \<leftarrow> checked fits_u128 (units + new_units);
     let level = level\<lparr>total_quantity := quantity, level_event_units := units\<rparr>;
     if moved then do {
       following \<leftarrow> next_order order;
       Some ((), level\<lparr>level_head := (if previous order = None then following else level_head level),
         level_tail := (if next_order refreshed = None then order_id order else level_tail level),
         displayed_tail := Some (order_id order)\<rparr>)
     } else Some ((), level)
   }"

definition refresh_resting :: "RestingOrder \<Rightarrow> nat \<Rightarrow> Price \<Rightarrow> OrderBook \<Rightarrow> (ReserveRefresh \<times> OrderBook) option" where
  "refresh_resting order quantity handle b = do {
     old_units \<leftarrow> remaining_event_units order;
     remaining \<leftarrow> checked_sub (leaves order) quantity;
     let refreshed = order\<lparr>leaves := remaining, displayed := working_lots (order_display order) remaining\<rparr>;
     new_units \<leftarrow> remaining_event_units refreshed;
     level \<leftarrow> levels_get (levels b (order_side order)) handle;
     let moved = (displayed_tail level \<noteq> Some (order_id order));
     (refreshed, b) \<leftarrow> (if moved then do {
         (prior, following, b) \<leftarrow> relink_to_displayed_tail order level b;
         Some (refreshed\<lparr>previous := prior, next_order := following\<rparr>, b)
       } else Some (refreshed, b));
     (_, b) \<leftarrow> update_level (order_side order) handle
       (level_with_refresh order refreshed old_units new_units moved) b;
     index \<leftarrow> account_orders b (order_account_id order);
     index \<leftarrow> replace_event_units index (order_side order) old_units new_units;
     let b = b\<lparr>account_orders := (account_orders b)(order_account_id order \<mapsto> index)\<rparr>;
     b \<leftarrow> modify_order (order_id order) (\<lambda>_. refreshed) b;
     Some (\<lparr>refresh_order_id = order_id refreshed, refresh_price = order_price refreshed,
       refresh_displayed = displayed refreshed, refresh_leaves = leaves refreshed\<rparr>, b)
   }"

definition level_with_less :: "RestingOrder \<Rightarrow> nat \<Rightarrow> PriceLevel \<Rightarrow> (unit \<times> PriceLevel) option" where
  "level_with_less order quantity level = do {
     total \<leftarrow> checked_sub (total_quantity level) (visible_lots (order_display order) quantity);
     Some ((), level\<lparr>total_quantity := total\<rparr>)
   }"

definition decrement_resting :: "OrderId \<Rightarrow> nat \<Rightarrow> Price \<Rightarrow> OrderBook \<Rightarrow> (ReserveRefresh option \<times> OrderBook) option" where
  "decrement_resting x quantity handle b = do {
     order \<leftarrow> orders b x;
     if quantity = leaves order then do {
       (_, b) \<leftarrow> remove_order_at_level x handle b;
       Some (None, b)
     } else if quantity < displayed order then do {
       remaining \<leftarrow> checked_sub (leaves order) quantity;
       working \<leftarrow> checked_sub (displayed order) quantity;
       b \<leftarrow> modify_order x (\<lambda>o'. o'\<lparr>leaves := remaining, displayed := working\<rparr>) b;
       (_, b) \<leftarrow> update_level (order_side order) handle (level_with_less order quantity) b;
       Some (None, b)
     } else do {
       (refresh, b) \<leftarrow> refresh_resting order quantity handle b;
       Some (Some refresh, b)
     }
   }"

end
