(* ===== verification/BookSpec.thy ===== *)
theory BookSpec
  imports OrderBookState
begin

text \<open>
  What the linked structures of the order book stand for.  The abstract book is a finite map of orders
  without links, a queue for every side and price (the displayed class before the hidden class, each first
  in first out) and a list of orders for every account and side.  \<open>represents b S\<close> relates a concrete book to
  it: every link, head, tail, count and aggregate of the concrete book is the one the abstract book
  determines.  The theory also proves the aggregates to stay within their widths.
\<close>

section \<open>Orders without links\<close>

definition strip :: "RestingOrder \<Rightarrow> RestingOrder" where
  "strip order = order\<lparr>previous := None, next_order := None, account_previous := None, account_next := None\<rparr>"

lemma strip_simps [simp]:
  "order_id (strip x) = order_id x" "order_account_id (strip x) = order_account_id x"
  "order_side (strip x) = order_side x" "order_price (strip x) = order_price x" "leaves (strip x) = leaves x"
  "displayed (strip x) = displayed x" "order_display (strip x) = order_display x"
  "order_self_trade_prevention (strip x) = order_self_trade_prevention x"
  "order_expires_at (strip x) = order_expires_at x" "stop (strip x) = stop x"
  "previous (strip x) = None" "next_order (strip x) = None" "account_previous (strip x) = None"
  "account_next (strip x) = None" "strip (strip x) = strip x"
  "strip (x\<lparr>previous := a\<rparr>) = strip x" "strip (x\<lparr>next_order := a\<rparr>) = strip x"
  "strip (x\<lparr>account_previous := a\<rparr>) = strip x" "strip (x\<lparr>account_next := a\<rparr>) = strip x"
  by (simp_all add: strip_def)

text \<open>An order in the book: positive quantities and a working quantity its display mode allows.\<close>

definition order_wf :: "RestingOrder \<Rightarrow> bool" where
  "order_wf order \<longleftrightarrow> 0 < leaves order \<and> fits_u64 (leaves order) \<and>
     (case order_display order of
        Reserve p \<Rightarrow> 0 < displayed order \<and> displayed order \<le> p \<and> displayed order \<le> leaves order \<and>
          leaves order \<le> p * 2 ^ 32
      | _ \<Rightarrow> displayed order = leaves order)"

definition units :: "RestingOrder \<Rightarrow> nat" where
  "units order =
     (if stop order \<noteq> None then 0
      else case order_display order of
          Reserve p \<Rightarrow> 2 * (1 + (leaves order - displayed order + p - 1) div p) - 1
        | _ \<Rightarrow> 1)"

lemma order_wf_strip [simp]: "order_wf (strip x) = order_wf x"
  by (cases "order_display x") (simp_all add: order_wf_def)

lemma units_strip [simp]: "units (strip x) = units x"
  by (cases "order_display x") (simp_all add: units_def)

lemma order_wf_displayed:
  assumes "order_wf x"
  shows "0 < displayed x" "displayed x \<le> leaves x" "fits_u64 (displayed x)" "fits_u64 (leaves x)" "0 < leaves x"
  using assms fits_u64_mono [of "leaves x" "displayed x"]
  by (auto simp: order_wf_def split: OrderDisplay.splits)

lemma refills_bound:
  assumes "order_wf x" "order_display x = Reserve p"
  shows "0 < p" "(leaves x - displayed x + p - 1) div p \<le> 2 ^ 32"
proof -
  show p: "0 < p"
    using assms by (auto simp: order_wf_def)
  have "displayed x \<le> leaves x" "leaves x \<le> p * 2 ^ 32"
    using assms by (simp_all add: order_wf_def)
  then have "leaves x - displayed x + p - 1 < p * 2 ^ 32 + p"
    using p by linarith
  then have "leaves x - displayed x + p - 1 < (2 ^ 32 + 1) * p"
    by (simp add: algebra_simps)
  then have "(leaves x - displayed x + p - 1) div p < 2 ^ 32 + 1"
    by (rule less_mult_imp_div_less)
  then show "(leaves x - displayed x + p - 1) div p \<le> 2 ^ 32"
    by simp
qed

lemma units_bound:
  assumes "order_wf x"
  shows "units x \<le> 2 ^ 34"
  using refills_bound [OF assms] by (cases "order_display x") (auto simp: units_def)

lemma remaining_event_units_wf [simp]:
  assumes "order_wf x"
  shows "remaining_event_units x = Some (units x)"
proof (cases "order_display x")
  case (Reserve p)
  note p = refills_bound [OF assms Reserve]
  have "displayed x \<le> leaves x"
    using assms by (simp add: order_wf_def Reserve)
  moreover have "fits_u128 (1 + (leaves x - displayed x + p - 1) div p)"
      "fits_u128 ((1 + (leaves x - displayed x + p - 1) div p) * 2)"
    using p by (simp_all add: fits_u128_def)
  ultimately show ?thesis
    using p by (simp add: remaining_event_units_def units_def Reserve div_ceil_def checked_sub_def algebra_simps)
next
  case FullyDisplayed
  then show ?thesis
    by (simp add: remaining_event_units_def units_def checked_sub_def fits_u128_def)
next
  case Hidden
  then show ?thesis
    by (simp add: remaining_event_units_def units_def checked_sub_def fits_u128_def)
qed

section \<open>The two families of lists\<close>

interpretation fifo: linked previous next_order "\<lambda>v x. x\<lparr>previous := v\<rparr>" "\<lambda>v x. x\<lparr>next_order := v\<rparr>"
    "\<lambda>x. x\<lparr>previous := None, next_order := None\<rparr>"
  by unfold_locales simp_all

interpretation acct: linked account_previous account_next "\<lambda>v x. x\<lparr>account_previous := v\<rparr>"
    "\<lambda>v x. x\<lparr>account_next := v\<rparr>" "\<lambda>x. x\<lparr>account_previous := None, account_next := None\<rparr>"
  by unfold_locales simp_all

lemma fifo_relinked_strip: "fifo.relinked h h' A \<Longrightarrow> map_option strip (h' k) = map_option strip (h k)"
proof -
  assume "fifo.relinked h h' A"
  then have "map_option (\<lambda>x. x\<lparr>previous := None, next_order := None\<rparr>) (h' k) =
      map_option (\<lambda>x. x\<lparr>previous := None, next_order := None\<rparr>) (h k)"
    by (simp add: fifo.relinked_def)
  from arg_cong [OF this, of "map_option strip"] show ?thesis
    by (simp add: option.map_comp o_def)
qed

lemma acct_relinked_strip: "acct.relinked h h' A \<Longrightarrow> map_option strip (h' k) = map_option strip (h k)"
proof -
  assume "acct.relinked h h' A"
  then have "map_option (\<lambda>x. x\<lparr>account_previous := None, account_next := None\<rparr>) (h' k) =
      map_option (\<lambda>x. x\<lparr>account_previous := None, account_next := None\<rparr>) (h k)"
    by (simp add: acct.relinked_def)
  from arg_cong [OF this, of "map_option strip"] show ?thesis
    by (simp add: option.map_comp o_def)
qed

lemma fifo_relinked_acct_seg:
  assumes "fifo.relinked h h' A" "acct.seg h p xs q"
  shows "acct.seg h' p xs q"
proof (rule acct.seg_same_links [OF _ assms(2)])
  fix x n
  assume "h x = Some n"
  from fifo.relinked_node [OF assms(1) this] obtain n' where
    n': "h' x = Some n'" "n'\<lparr>previous := None, next_order := None\<rparr> = n\<lparr>previous := None, next_order := None\<rparr>"
    by blast
  from arg_cong [OF n'(2), of account_previous] arg_cong [OF n'(2), of account_next]
  show "\<exists>n'. h' x = Some n' \<and> account_previous n' = account_previous n \<and> account_next n' = account_next n"
    using n'(1) by simp
qed

lemma acct_relinked_fifo_seg:
  assumes "acct.relinked h h' A" "fifo.seg h p xs q"
  shows "fifo.seg h' p xs q"
proof (rule fifo.seg_same_links [OF _ assms(2)])
  fix x n
  assume "h x = Some n"
  from acct.relinked_node [OF assms(1) this] obtain n' where
    n': "h' x = Some n'"
      "n'\<lparr>account_previous := None, account_next := None\<rparr> = n\<lparr>account_previous := None, account_next := None\<rparr>"
    by blast
  from arg_cong [OF n'(2), of previous] arg_cong [OF n'(2), of next_order]
  show "\<exists>n'. h' x = Some n' \<and> previous n' = previous n \<and> next_order n' = next_order n"
    using n'(1) by simp
qed

lemma modify_optional_fifo:
  "modify_optional k (\<lambda>x. x\<lparr>next_order := v\<rparr>) b = map_option (\<lambda>h. b\<lparr>orders := h\<rparr>) (fifo.link_next k v (orders b))"
  "modify_optional k (\<lambda>x. x\<lparr>previous := v\<rparr>) b = map_option (\<lambda>h. b\<lparr>orders := h\<rparr>) (fifo.link_prev k v (orders b))"
  by (auto simp: modify_optional_def modify_order_def fifo.link_next_def fifo.link_prev_def split: option.splits)

lemma modify_optional_acct:
  "modify_optional k (\<lambda>x. x\<lparr>account_next := v\<rparr>) b = map_option (\<lambda>h. b\<lparr>orders := h\<rparr>) (acct.link_next k v (orders b))"
  "modify_optional k (\<lambda>x. x\<lparr>account_previous := v\<rparr>) b = map_option (\<lambda>h. b\<lparr>orders := h\<rparr>) (acct.link_prev k v (orders b))"
  by (auto simp: modify_optional_def modify_order_def acct.link_next_def acct.link_prev_def split: option.splits)

lemma modify_order_optional: "modify_order k f b = modify_optional (Some k) f b"
  by (simp add: modify_optional_def)

section \<open>The abstract book\<close>

type_synonym Queue = "OrderId list \<times> OrderId list"

record BookSpec =
  spec_orders :: "OrderId \<rightharpoonup> RestingOrder"
  queue :: "Side \<Rightarrow> Price \<Rightarrow> Queue"
  account_list :: "AccountId \<Rightarrow> Side \<Rightarrow> OrderId list"

definition members :: "Queue \<Rightarrow> OrderId list" where
  "members q = fst q @ snd q"

definition total_units :: "(OrderId \<rightharpoonup> RestingOrder) \<Rightarrow> OrderId list \<Rightarrow> nat" where
  "total_units R xs = (\<Sum>x\<leftarrow>xs. units (the (R x)))"

definition shown_total :: "(OrderId \<rightharpoonup> RestingOrder) \<Rightarrow> OrderId list \<Rightarrow> nat" where
  "shown_total R xs = (\<Sum>x\<leftarrow>xs. displayed (the (R x)))"

definition level_of :: "(OrderId \<rightharpoonup> RestingOrder) \<Rightarrow> Queue \<Rightarrow> PriceLevel option" where
  "level_of R q =
     (if members q = [] then None
      else Some \<lparr>level_head = hd (members q), level_tail = List.last (members q),
             displayed_tail = last_or None (fst q), total_quantity = shown_total R (fst q),
             order_count = length (members q), visible_order_count = length (fst q),
             level_event_units = total_units R (members q)\<rparr>)"

definition side_index_of :: "(OrderId \<rightharpoonup> RestingOrder) \<Rightarrow> OrderId list \<Rightarrow> AccountSideIndex" where
  "side_index_of R xs =
     \<lparr>account_head = hd_or None xs, account_tail = last_or None xs, account_order_count = length xs,
      account_event_units = total_units R xs\<rparr>"

definition account_of :: "(OrderId \<rightharpoonup> RestingOrder) \<Rightarrow> (Side \<Rightarrow> OrderId list) \<Rightarrow> AccountOrderIndex option" where
  "account_of R xs =
     (if xs Buy = [] \<and> xs Sell = [] then None
      else Some \<lparr>buys = side_index_of R (xs Buy), sells = side_index_of R (xs Sell)\<rparr>)"

text \<open>A working order is one that rests in a queue; a dormant stop is in no queue.\<close>

definition rests :: "BookSpec \<Rightarrow> Side \<Rightarrow> Price \<Rightarrow> bool \<Rightarrow> OrderId \<Rightarrow> bool" where
  "rests S s p hidden x \<longleftrightarrow>
     (case spec_orders S x of None \<Rightarrow> False
      | Some r \<Rightarrow> order_side r = s \<and> order_price r = p \<and> stop r = None \<and> is_hidden (order_display r) = hidden)"

definition owned :: "BookSpec \<Rightarrow> AccountId \<Rightarrow> Side \<Rightarrow> OrderId \<Rightarrow> bool" where
  "owned S a s x \<longleftrightarrow>
     (case spec_orders S x of None \<Rightarrow> False | Some r \<Rightarrow> order_account_id r = a \<and> order_side r = s)"

definition orders_ok :: "BookSpec \<Rightarrow> bool" where
  "orders_ok S \<longleftrightarrow> finite (dom (spec_orders S)) \<and>
     (\<forall>x r. spec_orders S x = Some r \<longrightarrow> order_id r = x \<and> order_wf r \<and> strip r = r)"

definition queues_ok :: "BookSpec \<Rightarrow> bool" where
  "queues_ok S \<longleftrightarrow>
     (\<forall>s p. distinct (members (queue S s p)) \<and>
        set (fst (queue S s p)) = {x. rests S s p False x} \<and> set (snd (queue S s p)) = {x. rests S s p True x})"

definition accounts_ok :: "BookSpec \<Rightarrow> bool" where
  "accounts_ok S \<longleftrightarrow>
     (\<forall>a s. distinct (account_list S a s) \<and> set (account_list S a s) = {x. owned S a s x})"

definition expiry_entry :: "(OrderId \<rightharpoonup> RestingOrder) \<Rightarrow> ExpiryKey \<Rightarrow> OrderId option" where
  "expiry_entry R k =
     (case R (snd k) of None \<Rightarrow> None
      | Some r \<Rightarrow> if order_expires_at r = Some (fst k) then Some (snd k) else None)"

definition stop_entry :: "Side \<Rightarrow> (OrderId \<rightharpoonup> RestingOrder) \<Rightarrow> Price \<times> nat \<times> OrderId \<Rightarrow> OrderId option" where
  "stop_entry side R k =
     (case k of (price, sequence, x) \<Rightarrow>
       (case R x of None \<Rightarrow> None
        | Some r \<Rightarrow>
            (case stop r of None \<Rightarrow> None
             | Some s \<Rightarrow> if order_side r = side \<and> stop_trigger_price s = price \<and> priority_sequence s = sequence
                        then Some x else None)))"

definition levels_rep :: "OrderBook \<Rightarrow> BookSpec \<Rightarrow> bool" where
  "levels_rep b S \<longleftrightarrow>
     (\<forall>s. levels_ok (levels b s) \<and> levels_side (levels b s) = s \<and>
        index_maximum (by_price (levels b s)) = max_price_levels_per_side (limits b) \<and>
        (\<forall>p. levels_get (levels b s) p = level_of (spec_orders S) (queue S s p)))"

definition indexes_rep :: "OrderBook \<Rightarrow> BookSpec \<Rightarrow> bool" where
  "indexes_rep b S \<longleftrightarrow>
     index_ok (expiries b) \<and> index_maximum (expiries b) = max_active_orders (limits b) \<and>
     (\<forall>k. index_get (expiries b) k = expiry_entry (spec_orders S) k) \<and>
     index_ok (buy_stops b) \<and> index_maximum (buy_stops b) = max_active_orders (limits b) \<and>
     (\<forall>k. index_get (buy_stops b) k = stop_entry Buy (spec_orders S) k) \<and>
     index_ok (sell_stops b) \<and> index_maximum (sell_stops b) = max_active_orders (limits b) \<and>
     (\<forall>p k. index_get (sell_stops b) (Reverse p, k) = stop_entry Sell (spec_orders S) (p, k))"

text \<open>Everything but the account lists, which some operations of the code leave for later.\<close>

definition core_rep :: "OrderBook \<Rightarrow> BookSpec \<Rightarrow> bool" where
  "core_rep b S \<longleftrightarrow>
     orders_ok S \<and> queues_ok S \<and>
     card (dom (spec_orders S)) \<le> max_active_orders (limits b) \<and> fits_usize (max_active_orders (limits b)) \<and>
     (\<forall>x. map_option strip (orders b x) = spec_orders S x) \<and>
     (\<forall>s p. fifo.seg (orders b) None (members (queue S s p)) None) \<and>
     (\<forall>x r. orders b x = Some r \<longrightarrow> stop r \<noteq> None \<longrightarrow> previous r = None \<and> next_order r = None) \<and>
     levels_rep b S \<and> indexes_rep b S"

definition acct_rep :: "OrderBook \<Rightarrow> BookSpec \<Rightarrow> bool" where
  "acct_rep b S \<longleftrightarrow>
     accounts_ok S \<and> (\<forall>a s. acct.seg (orders b) None (account_list S a s) None) \<and>
     (\<forall>a. account_orders b a = account_of (spec_orders S) (account_list S a))"

definition represents :: "OrderBook \<Rightarrow> BookSpec \<Rightarrow> bool" where
  "represents b S \<longleftrightarrow> core_rep b S \<and> acct_rep b S"

section \<open>The operations of the abstract book\<close>

definition enqueue :: "RestingOrder \<Rightarrow> Queue \<Rightarrow> Queue" where
  "enqueue r q =
     (if is_hidden (order_display r) then (fst q, snd q @ [order_id r]) else (fst q @ [order_id r], snd q))"

definition spec_insert :: "RestingOrder \<Rightarrow> BookSpec \<Rightarrow> BookSpec" where
  "spec_insert r S = S\<lparr>
     spec_orders := (spec_orders S)(order_id r \<mapsto> strip r),
     queue := (\<lambda>s p. if stop r = None \<and> s = order_side r \<and> p = order_price r
                      then enqueue r (queue S s p) else queue S s p),
     account_list := (\<lambda>a s. if a = order_account_id r \<and> s = order_side r
                      then account_list S a s @ [order_id r] else account_list S a s)\<rparr>"

definition spec_delete :: "OrderId \<Rightarrow> BookSpec \<Rightarrow> BookSpec" where
  "spec_delete x S = S\<lparr>
     spec_orders := (spec_orders S)(x := None),
     queue := (\<lambda>s p. (removeAll x (fst (queue S s p)), removeAll x (snd (queue S s p)))),
     account_list := (\<lambda>a s. removeAll x (account_list S a s))\<rparr>"

definition reduced :: "nat \<Rightarrow> RestingOrder \<Rightarrow> RestingOrder" where
  "reduced q r = r\<lparr>leaves := leaves r - q, displayed := displayed r - q\<rparr>"

definition spec_reduce :: "OrderId \<Rightarrow> nat \<Rightarrow> BookSpec \<Rightarrow> BookSpec" where
  "spec_reduce x q S = S\<lparr>spec_orders := (spec_orders S)(x := map_option (reduced q) (spec_orders S x))\<rparr>"

definition refreshed_order :: "nat \<Rightarrow> RestingOrder \<Rightarrow> RestingOrder" where
  "refreshed_order q r =
     r\<lparr>leaves := leaves r - q, displayed := working_lots (order_display r) (leaves r - q)\<rparr>"

text \<open>A refreshed reserve order loses its time priority: it moves to the end of the displayed class.\<close>

definition spec_refresh :: "OrderId \<Rightarrow> nat \<Rightarrow> BookSpec \<Rightarrow> BookSpec" where
  "spec_refresh x q S =
     (case spec_orders S x of
        None \<Rightarrow> S
      | Some r \<Rightarrow> S\<lparr>
          spec_orders := (spec_orders S)(x \<mapsto> refreshed_order q r),
          queue := (\<lambda>s p. if s = order_side r \<and> p = order_price r
                           then (removeAll x (fst (queue S s p)) @ [x], snd (queue S s p)) else queue S s p)\<rparr>)"

section \<open>Consequences of the representation\<close>

lemma rests_members:
  "queues_ok S \<Longrightarrow> x \<in> set (members (queue S s p)) \<longleftrightarrow> rests S s p False x \<or> rests S s p True x"
  by (auto simp: queues_ok_def members_def)

lemma rests_unique: "rests S s p h x \<Longrightarrow> rests S s' p' h' x \<Longrightarrow> s = s' \<and> p = p' \<and> h = h'"
  by (auto simp: rests_def split: option.splits)

lemma owned_unique: "owned S a s x \<Longrightarrow> owned S a' s' x \<Longrightarrow> a = a' \<and> s = s'"
  by (auto simp: owned_def split: option.splits)

lemma total_units_upd [simp]:
  "x \<notin> set xs \<Longrightarrow> total_units (R(x := v)) xs = total_units R xs"
  unfolding total_units_def by (rule arg_cong [of _ _ sum_list]) auto

lemma shown_total_upd [simp]:
  "x \<notin> set xs \<Longrightarrow> shown_total (R(x := v)) xs = shown_total R xs"
  unfolding shown_total_def by (rule arg_cong [of _ _ sum_list]) auto

lemma total_units_simps [simp]: "total_units R [] = 0" "total_units R (x # xs) = units (the (R x)) + total_units R xs"
    "total_units R (xs @ ys) = total_units R xs + total_units R ys"
  by (simp_all add: total_units_def)

lemma shown_total_simps [simp]: "shown_total R [] = 0" "shown_total R (x # xs) = displayed (the (R x)) + shown_total R xs"
    "shown_total R (xs @ ys) = shown_total R xs + shown_total R ys"
  by (simp_all add: shown_total_def)

lemma sum_list_le_times: "(\<And>x. x \<in> set xs \<Longrightarrow> f x \<le> (k :: nat)) \<Longrightarrow> (\<Sum>x\<leftarrow>xs. f x) \<le> length xs * k"
  by (induction xs) (auto simp: add_mono)

text \<open>Bounds on the aggregates of lists of different orders of the book.\<close>

lemma orders_of_list:
  assumes "orders_ok S" "distinct xs" "\<And>x. x \<in> set xs \<Longrightarrow> spec_orders S x \<noteq> None"
  shows "length xs \<le> card (dom (spec_orders S))" "total_units (spec_orders S) xs \<le> card (dom (spec_orders S)) * 2 ^ 34"
    "shown_total (spec_orders S) xs \<le> card (dom (spec_orders S)) * 2 ^ 64"
proof -
  let ?n = "card (dom (spec_orders S))"
  have "set xs \<subseteq> dom (spec_orders S)" "finite (dom (spec_orders S))"
    using assms by (auto simp: orders_ok_def)
  then show n: "length xs \<le> ?n"
    using card_mono [of "dom (spec_orders S)" "set xs"] distinct_card [OF assms(2)] by simp
  have wf: "order_wf (the (spec_orders S x))" if "x \<in> set xs" for x
    using assms that by (fastforce simp: orders_ok_def)
  have "total_units (spec_orders S) xs \<le> length xs * 2 ^ 34"
    unfolding total_units_def by (rule sum_list_le_times) (use wf units_bound in blast)
  also have "\<dots> \<le> ?n * 2 ^ 34"
    using n by simp
  finally show "total_units (spec_orders S) xs \<le> ?n * 2 ^ 34" .
  have "displayed (the (spec_orders S x)) \<le> 2 ^ 64" if "x \<in> set xs" for x
    using order_wf_displayed(3) [OF wf [OF that]] by (simp add: fits_u64_def)
  then have "shown_total (spec_orders S) xs \<le> length xs * 2 ^ 64"
    unfolding shown_total_def by (rule sum_list_le_times)
  also have "\<dots> \<le> ?n * 2 ^ 64"
    using n by simp
  finally show "shown_total (spec_orders S) xs \<le> ?n * 2 ^ 64" .
qed

lemma members_in: "queues_ok S \<Longrightarrow> x \<in> set (members (queue S s p)) \<Longrightarrow> spec_orders S x \<noteq> None"
  by (auto simp: rests_members rests_def split: option.splits)

lemma index_sum_dom:
  assumes "index_ok m"
  shows "index_sum f m = (\<Sum>k \<in> dom (index_get m). f (the (index_get m k)))"
proof -
  let ?es = "index_entries m"
  have d: "distinct (map fst ?es)"
    using assms by (simp add: index_ok_def sorted_keys_distinct)
  have "index_sum f m = (\<Sum>e \<in> set ?es. f (snd e))"
    using d by (simp add: index_sum_def distinct_map sum.distinct_set_conv_list)
  also have "\<dots> = (\<Sum>e \<in> set ?es. f (the (index_get m (fst e))))"
    using d by (intro sum.cong) (auto simp: index_get_def)
  also have "\<dots> = (\<Sum>k \<in> fst ` set ?es. f (the (index_get m k)))"
    using d by (simp add: distinct_map sum.reindex)
  also have "fst ` set ?es = dom (index_get m)"
    by (simp add: index_get_def [abs_def] dom_map_of_conv_image_fst)
  finally show ?thesis .
qed

text \<open>The event work of a side is the work of the orders resting on it; a dormant stop has none.\<close>

lemma side_units_eq:
  assumes "core_rep b S"
  shows "side_event_units (levels b s) =
    (\<Sum>x \<in> dom (spec_orders S). if order_side (the (spec_orders S x)) = s then units (the (spec_orders S x)) else 0)"
proof -
  let ?R = "spec_orders S" and ?l = "levels b s" and ?Q = "queue S s"
  have ok: "orders_ok S" "queues_ok S" "levels_ok ?l" "\<And>p. levels_get ?l p = level_of ?R (?Q p)"
    using assms by (auto simp: core_rep_def levels_rep_def)
  have iok: "index_ok (by_price ?l)"
    using ok(3) by (simp add: levels_ok_def)
  let ?D = "dom (levels_get ?l)"
  have g: "index_get (by_price ?l) = levels_get ?l"
    by (simp add: levels_get_def fun_eq_iff)
  have fin: "finite ?D"
    by (simp add: levels_get_def [abs_def] index_get_def [abs_def] finite_dom_map_of)
  have "side_event_units ?l = (\<Sum>p \<in> ?D. level_event_units (the (levels_get ?l p)))"
    using ok(3) index_sum_dom [OF iok, of level_event_units] by (simp add: levels_ok_def g)
  also have "\<dots> = (\<Sum>p \<in> ?D. \<Sum>x \<in> set (members (?Q p)). units (the (?R x)))"
  proof (rule sum.cong [OF refl])
    fix p assume "p \<in> ?D"
    then have "level_event_units (the (levels_get ?l p)) = total_units ?R (members (?Q p))"
      by (auto simp: ok(4) level_of_def split: if_splits)
    also have "distinct (members (?Q p))"
      using ok(2) by (simp add: queues_ok_def)
    ultimately show "level_event_units (the (levels_get ?l p)) = (\<Sum>x \<in> set (members (?Q p)). units (the (?R x)))"
      by (simp add: total_units_def sum.distinct_set_conv_list)
  qed
  also have "\<dots> = (\<Sum>x \<in> (\<Union>p \<in> ?D. set (members (?Q p))). units (the (?R x)))"
    using rests_unique by (intro sum.UNION_disjoint [symmetric] fin) (auto simp: rests_members [OF ok(2)] dest: rests_unique)
  also have "\<dots> = (\<Sum>x \<in> (\<Union>p \<in> ?D. set (members (?Q p))). if order_side (the (?R x)) = s then units (the (?R x)) else 0)"
    by (rule sum.cong [OF refl]) (auto simp: rests_members [OF ok(2)] rests_def split: option.splits)
  also have "\<dots> = (\<Sum>x \<in> dom ?R. if order_side (the (?R x)) = s then units (the (?R x)) else 0)"
  proof (rule sum.mono_neutral_left)
    show "finite (dom ?R)" "(\<Union>p \<in> ?D. set (members (?Q p))) \<subseteq> dom ?R"
      using members_in [OF ok(2)] ok(1) by (auto simp: orders_ok_def)
    show "\<forall>x \<in> dom ?R - (\<Union>p \<in> ?D. set (members (?Q p))).
        (if order_side (the (?R x)) = s then units (the (?R x)) else 0) = 0"
    proof
      fix x assume x: "x \<in> dom ?R - (\<Union>p \<in> ?D. set (members (?Q p)))"
      then obtain r where r: "?R x = Some r"
        by blast
      show "(if order_side (the (?R x)) = s then units (the (?R x)) else 0) = 0"
      proof (cases "order_side r = s \<and> stop r = None")
        case True
        then have "x \<in> set (members (?Q (order_price r)))"
          using r by (cases "is_hidden (order_display r)") (simp_all add: rests_members [OF ok(2)] rests_def)
        moreover from this have "order_price r \<in> ?D"
          by (auto simp: ok(4) level_of_def)
        ultimately show ?thesis
          using x by blast
      qed (auto simp: r units_def)
    qed
  qed
  finally show ?thesis .
qed

lemma side_units_bound:
  assumes "core_rep b S"
  shows "side_event_units (levels b s) \<le> card (dom (spec_orders S)) * 2 ^ 34"
proof -
  have ok: "orders_ok S"
    using assms by (simp add: core_rep_def)
  have "side_event_units (levels b s) \<le> (\<Sum>x \<in> dom (spec_orders S). 2 ^ 34)"
    unfolding side_units_eq [OF assms] using ok units_bound by (intro sum_mono) (auto simp: orders_ok_def)
  then show ?thesis
    by simp
qed

end
