(* ===== verification/BookUpdates.thy ===== *)
theory BookUpdates
  imports BookSpec
begin

text \<open>
  The structural operations of the order book (\<open>src/src/matching.rs\<close>: appending, removing, filling and refreshing
  resting orders) implement the operations of the abstract book: each of them returns, keeps the
  representation and changes nothing else of the book.
\<close>

section \<open>The abstract operations keep the abstract invariants\<close>

lemma spec_insert_ok:
  assumes "orders_ok S" "queues_ok S" "spec_orders S (order_id r) = None" "order_wf r"
  shows "orders_ok (spec_insert r S)" "queues_ok (spec_insert r S)"
    "accounts_ok S \<Longrightarrow> accounts_ok (spec_insert r S)"
    "card (dom (spec_orders (spec_insert r S))) = Suc (card (dom (spec_orders S)))"
proof -
  let ?x = "order_id r" and ?S = "spec_insert r S"
  show "orders_ok ?S"
    using assms by (auto simp: orders_ok_def spec_insert_def)
  have rest: "rests ?S s p h y \<longleftrightarrow> rests S s p h y \<or> (y = ?x \<and> stop r = None \<and> s = order_side r \<and>
      p = order_price r \<and> h = is_hidden (order_display r))" for s p h y
    using assms(3) by (auto simp: rests_def spec_insert_def)
  have fresh: "\<not> rests S s p h ?x" for s p h
    using assms(3) by (simp add: rests_def)
  then have "?x \<notin> set (members (queue S s p))" for s p
    using rests_members [OF assms(2)] by simp
  then show "queues_ok ?S"
    using assms(2) unfolding queues_ok_def rest
    by (auto simp: spec_insert_def enqueue_def members_def dest: rests_unique)
  have own: "owned ?S a s y \<longleftrightarrow> owned S a s y \<or> (y = ?x \<and> a = order_account_id r \<and> s = order_side r)" for a s y
    using assms(3) by (auto simp: owned_def spec_insert_def)
  have "\<not> owned S a s ?x" for a s
    using assms(3) by (simp add: owned_def)
  note not_owned = this
  show "accounts_ok ?S" if acc: "accounts_ok S"
  proof -
    have "?x \<notin> set (account_list S a s)" for a s
      using acc not_owned by (simp add: accounts_ok_def)
    then show ?thesis
      using acc unfolding accounts_ok_def own by (auto simp: spec_insert_def)
  qed
  show "card (dom (spec_orders ?S)) = Suc (card (dom (spec_orders S)))"
    using assms by (simp add: orders_ok_def spec_insert_def domIff)
qed

lemma spec_delete_ok:
  assumes "orders_ok S" "queues_ok S"
  shows "orders_ok (spec_delete x S)" "queues_ok (spec_delete x S)"
    "accounts_ok S \<Longrightarrow> accounts_ok (spec_delete x S)"
    "card (dom (spec_orders (spec_delete x S))) \<le> card (dom (spec_orders S))"
proof -
  let ?S = "spec_delete x S"
  show "orders_ok ?S"
    using assms(1) by (auto simp: orders_ok_def spec_delete_def)
  have rest: "rests ?S s p h y \<longleftrightarrow> rests S s p h y \<and> y \<noteq> x" for s p h y
    by (auto simp: rests_def spec_delete_def)
  show "queues_ok ?S"
    using assms(2) unfolding queues_ok_def rest
    by (auto simp: spec_delete_def members_def distinct_removeAll dest: rests_unique)
  have own: "owned ?S a s y \<longleftrightarrow> owned S a s y \<and> y \<noteq> x" for a s y
    by (auto simp: owned_def spec_delete_def)
  show "accounts_ok ?S" if "accounts_ok S"
    using that unfolding accounts_ok_def own by (auto simp: spec_delete_def distinct_removeAll)
  show "card (dom (spec_orders ?S)) \<le> card (dom (spec_orders S))"
    using assms(1) by (auto simp: orders_ok_def spec_delete_def intro: card_mono)
qed

text \<open>Both fills change the quantities of one order, which keeps its identity and place of rest.\<close>

lemma spec_fill_ok:
  assumes "orders_ok S" "queues_ok S" "spec_orders S x = Some r" "order_wf r'" "strip r' = r'"
    and same: "order_id r' = order_id r" "order_account_id r' = order_account_id r" "order_side r' = order_side r"
      "order_price r' = order_price r" "order_display r' = order_display r" "stop r' = stop r"
    and S': "spec_orders S' = (spec_orders S)(x \<mapsto> r')" "account_list S' = account_list S"
    and Q: "\<And>s p. distinct (members (queue S' s p)) \<and> set (fst (queue S' s p)) = set (fst (queue S s p)) \<and>
      set (snd (queue S' s p)) = set (snd (queue S s p))"
  shows "orders_ok S'" "queues_ok S'" "accounts_ok S \<Longrightarrow> accounts_ok S'"
    "card (dom (spec_orders S')) = card (dom (spec_orders S))"
proof -
  show "orders_ok S'"
    using assms(1,3,4,5) same(1) by (auto simp: orders_ok_def S'(1))
  have rest: "rests S' s p h y = rests S s p h y" for s p h y
    using assms(3) same by (auto simp: rests_def S'(1))
  show "queues_ok S'"
    using assms(2) Q unfolding queues_ok_def rest by simp
  have own: "owned S' a s y = owned S a s y" for a s y
    using assms(3) same by (auto simp: owned_def S'(1))
  show "accounts_ok S'" if "accounts_ok S"
    using that unfolding accounts_ok_def own S'(2) .
  have "dom (spec_orders S') = dom (spec_orders S)"
    using assms(3) by (auto simp: S'(1))
  then show "card (dom (spec_orders S')) = card (dom (spec_orders S))"
    by simp
qed

section \<open>Account lists\<close>

lemma fits_u64_lists:
  assumes "fits_usize m" "n \<le> m"
  shows "fits_u64 n" "fits_u128 (n * 2 ^ 34)" "fits_u128 (n * 2 ^ 64)" 
proof -
  have "n < 2 ^ 64"
    using assms by (simp add: fits_u64_def)
  then show "fits_u64 n" "fits_u128 (n * 2 ^ 34)" "fits_u128 (n * 2 ^ 64)"
    by (simp_all add: fits_u64_def fits_u128_def)
qed

lemma account_append_correct:
  assumes "account_side i side = side_index_of R xs" "fits_usize (Suc (length xs))"
    "fits_u128 (total_units R xs + u)" "x \<notin> set xs" "R' = R(x \<mapsto> r)" "units r = u"
  shows "account_append i side x u = Some (last_or None xs, set_account_side side (side_index_of R' (xs @ [x])) i)"
proof -
  have "side_index_of R' (xs @ [x]) = (side_index_of R xs)\<lparr>account_head := (if xs = [] then Some x else hd_or None xs),
      account_tail := Some x, account_order_count := Suc (length xs), account_event_units := total_units R xs + u\<rparr>"
    using assms(4-6) by (cases xs) (simp_all add: side_index_of_def)
  then show ?thesis
    using assms(1-3) by (cases xs) (simp_all add: account_append_def assert_that_def side_index_of_def Let_def last_or_def)
qed

lemma assert_that_simps [simp]: "assert_that True = Some ()" "assert_that False = None"
  by (simp_all add: assert_that_def)

lemma account_index_of:
  assumes "account_orders b a = account_of R xs"
  shows "account_side (case account_orders b a of None \<Rightarrow> account_index_default | Some i \<Rightarrow> i) s = side_index_of R (xs s)"
    "(case account_orders b a of None \<Rightarrow> None | Some i \<Rightarrow> account_tail (account_side i s)) = last_or None (xs s)"
  using assms
  by (cases s; auto simp: account_of_def account_index_default_def side_index_default_def side_index_of_def)+

lemma account_of_set_side:
  assumes "account_orders b a = account_of R xs" "\<And>t. t \<noteq> s \<Longrightarrow> side_index_of R' (xs t) = side_index_of R (xs t)" "ys \<noteq> []"
  shows "Some (set_account_side s (side_index_of R' ys) (case account_orders b a of None \<Rightarrow> account_index_default | Some i \<Rightarrow> i)) =
    account_of R' (xs(s := ys))"
  using assms(1,3) assms(2) [of "opposite s"]
  by (cases s)
    (auto simp: account_of_def account_index_default_def side_index_default_def side_index_of_def split: if_splits)

lemma side_index_of_upd: "x \<notin> set xs \<Longrightarrow> side_index_of (R(x := v)) xs = side_index_of R xs"
  by (simp add: side_index_of_def)

lemma acct_facts:
  assumes "acct_rep b S" "core_rep b S"
  shows "acct.seg (orders b) None (account_list S a s) None" "distinct (account_list S a s)"
    "set (account_list S a s) = {x. owned S a s x}"
    "length (account_list S a s) \<le> card (dom (spec_orders S))"
    "total_units (spec_orders S) (account_list S a s) \<le> card (dom (spec_orders S)) * 2 ^ 34"
proof -
  show "acct.seg (orders b) None (account_list S a s) None" and d: "distinct (account_list S a s)"
    and m: "set (account_list S a s) = {x. owned S a s x}"
    using assms(1) by (auto simp: acct_rep_def accounts_ok_def)
  have "spec_orders S x \<noteq> None" if "x \<in> set (account_list S a s)" for x
    using that by (auto simp: m owned_def split: option.splits)
  moreover have "orders_ok S"
    using assms(2) by (simp add: core_rep_def)
  ultimately show "length (account_list S a s) \<le> card (dom (spec_orders S))"
    "total_units (spec_orders S) (account_list S a s) \<le> card (dom (spec_orders S)) * 2 ^ 34"
    using orders_of_list [of S "account_list S a s"] d by auto
qed

lemma acct_index: "acct_rep b S \<Longrightarrow> account_orders b a = account_of (spec_orders S) (account_list S a)"
  by (simp add: acct_rep_def)

lemma append_account_membership_correct:
  fixes S :: BookSpec and r :: RestingOrder
  defines "x \<equiv> order_id r" and "a \<equiv> order_account_id r" and "s \<equiv> order_side r"
  defines "l \<equiv> account_list S a s"
  assumes rep: "acct_rep b S" "core_rep b S" and fresh: "spec_orders S x = None" and wf: "order_wf r"
    and unlinked: "account_previous r = None" "account_next r = None"
    and room: "card (dom (spec_orders S)) < max_active_orders (limits b)"
  obtains h index where
    "append_account_membership r b =
       Some (r\<lparr>account_previous := last_or None l\<rparr>, b\<lparr>orders := h, account_orders := (account_orders b)(a \<mapsto> index)\<rparr>)"
    "acct.relinked (orders b) h (set l)"
    "\<And>n. account_previous n = last_or None l \<Longrightarrow> account_next n = None \<Longrightarrow> acct.seg (h(x \<mapsto> n)) None (l @ [x]) None"
    "\<And>c. ((account_orders b)(a \<mapsto> index)) c = account_of (spec_orders (spec_insert r S)) (account_list (spec_insert r S) c)"
proof -
  let ?R = "spec_orders S" and ?R' = "(spec_orders S)(x \<mapsto> strip r)"
  note facts = acct_facts [OF rep, of a s, folded l_def]
  have fit: "fits_usize (max_active_orders (limits b))"
    using rep(2) by (simp add: core_rep_def)
  have xl: "x \<notin> set (account_list S c t)" for c t
    using acct_facts(3) [OF rep, of c t] fresh by (simp add: owned_def)
  then have "x \<notin> set l"
    by (simp add: l_def)
  have "acct.seg (orders b) None (l @ []) None" "distinct (l @ x # [])"
    using facts(1,2) \<open>x \<notin> set l\<close> by simp_all
  from acct.splice_in [OF this] obtain h h2 where
    h: "acct.link_next (last_or None l) (Some x) (orders b) = Some h" "acct.link_prev (hd_or None []) (Some x) h = Some h2"
      "\<And>n. account_previous n = last_or None l \<Longrightarrow> account_next n = hd_or None [] \<Longrightarrow>
         acct.seg (h2(x \<mapsto> n)) None (l @ [x]) None"
      "acct.relinked (orders b) h2 (set l \<union> set [])"
    by metis
  have "h2 = h"
    using h(2) by (simp add: acct.link_prev_def)
  note h = h [unfolded this]
  define index0 where "index0 = (case account_orders b a of None \<Rightarrow> account_index_default | Some i \<Rightarrow> i)"
  define index where "index = set_account_side s (side_index_of ?R' (l @ [x])) index0"
  have side: "account_side index0 s = side_index_of ?R l"
    using account_index_of(1) [OF acct_index [OF rep(1), of a], of s] by (simp add: index0_def l_def)
  have prior: "(case account_orders b a of None \<Rightarrow> None | Some i \<Rightarrow> account_tail (account_side i s)) = last_or None l"
    using account_index_of(2) [OF acct_index [OF rep(1), of a], of s] by (simp add: l_def)
  have "fits_usize (Suc (length l))"
    using facts(4) room fits_u64_lists(1) [OF fit, of "Suc (length l)"] by simp
  moreover have "fits_u128 (total_units ?R l + units r)"
  proof (rule fits_u128_mono)
    show "fits_u128 (max_active_orders (limits b) * 2 ^ 34)"
      by (rule fits_u64_lists [OF fit order_refl])
    have "total_units ?R l + units r \<le> Suc (card (dom ?R)) * 2 ^ 34"
      using facts(5) units_bound [OF wf] by simp
    also have "\<dots> \<le> max_active_orders (limits b) * 2 ^ 34"
      using room by (intro mult_le_mono1) simp
    finally show "total_units ?R l + units r \<le> max_active_orders (limits b) * 2 ^ 34" .
  qed
  ultimately have app: "account_append index0 s x (units r) = Some (last_or None l, index)"
    using account_append_correct [OF side _ _ \<open>x \<notin> set l\<close> refl, of "units r" "strip r"] by (simp add: index_def)
  have link: "(case last_or None l of None \<Rightarrow> Some b
     | Some k \<Rightarrow> do {
         before \<leftarrow> orders b k;
         assert_that (order_account_id before = a);
         assert_that (order_side before = s);
         assert_that (account_next before = None);
         modify_order k (\<lambda>o'. o'\<lparr>account_next := Some x\<rparr>) b
       }) = Some (b\<lparr>orders := h\<rparr>)"
  proof (cases l rule: rev_cases)
    case Nil
    then show ?thesis
      using h(1) by (simp add: acct.link_next_def)
  next
    case (snoc us k)
    obtain n where n: "orders b k = Some n" "account_next n = None"
      using facts(1) by (auto simp: snoc acct.seg_append)
    have "owned S a s k"
      using facts(3) by (auto simp: snoc)
    moreover have "?R k = Some (strip n)"
      using rep(2) n(1) by (metis core_rep_def option.map(2))
    ultimately have "order_account_id n = a" "order_side n = s"
      by (simp_all add: owned_def)
    then show ?thesis
      using n h(1) by (simp add: snoc assert_that_def modify_order_optional modify_optional_acct)
  qed
  have step: "append_account_membership r b =
       Some (r\<lparr>account_previous := last_or None l\<rparr>, b\<lparr>orders := h, account_orders := (account_orders b)(a \<mapsto> index)\<rparr>)"
    using link app prior unfolding append_account_membership_def x_def a_def s_def index0_def Let_def
    by (simp add: wf unlinked cong: option.case_cong)
  have idx: "((account_orders b)(a \<mapsto> index)) c = account_of (spec_orders (spec_insert r S)) (account_list (spec_insert r S) c)" for c
  proof (cases "c = a")
    case True
    have "Some index = account_of ?R' ((account_list S a)(s := l @ [x]))"
      unfolding index_def index0_def
      by (rule account_of_set_side [OF acct_index [OF rep(1)]]) (simp_all add: side_index_of_upd xl)
    also have "(account_list S a)(s := l @ [x]) = account_list (spec_insert r S) a"
      by (auto simp: spec_insert_def l_def x_def a_def s_def)
    finally show ?thesis
      using True by (simp add: spec_insert_def x_def fun_upd_def)
  next
    case False
    have "account_of ?R' (account_list S c) = account_of ?R (account_list S c)"
      by (simp add: account_of_def side_index_of_upd xl)
    then show ?thesis
      using False acct_index [OF rep(1), of c] by (simp add: spec_insert_def x_def a_def)
  qed
  show thesis
    by (rule that [OF step _ _ idx]) (use h(3,4) in simp_all)
qed

section \<open>The part of the book the structural operations leave alone\<close>

definition book_rest :: "OrderBook \<Rightarrow> OrderBook" where
  "book_rest b = b\<lparr>bids := levels_new Buy 0, asks := levels_new Sell 0, orders := Map.empty,
     expiries := index_new 0, buy_stops := index_new 0, sell_stops := index_new 0, account_orders := Map.empty\<rparr>"

lemma book_rest_simps [simp]:
  "book_rest (b\<lparr>bids := l\<rparr>) = book_rest b" "book_rest (b\<lparr>asks := l\<rparr>) = book_rest b"
  "book_rest (b\<lparr>orders := h\<rparr>) = book_rest b" "book_rest (b\<lparr>expiries := e\<rparr>) = book_rest b"
  "book_rest (b\<lparr>buy_stops := bs\<rparr>) = book_rest b" "book_rest (b\<lparr>sell_stops := ss\<rparr>) = book_rest b"
  "book_rest (b\<lparr>account_orders := ao\<rparr>) = book_rest b"
  by (simp_all add: book_rest_def)

lemma book_rest_set_levels [simp]: "book_rest (set_levels s l b) = book_rest b"
  by (cases s) simp_all

lemma book_rest_fields:
  assumes "book_rest b' = book_rest b"
  shows "limits b' = limits b" "book_definition b' = book_definition b" "trading_state b' = trading_state b"
    "expiry_watermark b' = expiry_watermark b" "stop_reference b' = stop_reference b"
    "seen_order_ids b' = seen_order_ids b" "account_controls b' = account_controls b" "reports b' = reports b"
    "retained_event_count b' = retained_event_count b" "next_sequence b' = next_sequence b"
    "next_trade_id b' = next_trade_id b" "instance_id b' = instance_id b"
  using arg_cong [OF assms, of limits] arg_cong [OF assms, of book_definition] arg_cong [OF assms, of trading_state]
    arg_cong [OF assms, of expiry_watermark] arg_cong [OF assms, of stop_reference]
    arg_cong [OF assms, of seen_order_ids] arg_cong [OF assms, of account_controls] arg_cong [OF assms, of reports]
    arg_cong [OF assms, of retained_event_count] arg_cong [OF assms, of next_sequence]
    arg_cong [OF assms, of next_trade_id] arg_cong [OF assms, of instance_id]
  by (simp_all add: book_rest_def)

lemma levels_simps [simp]:
  "levels (b\<lparr>orders := h\<rparr>) s = levels b s" "levels (b\<lparr>expiries := e\<rparr>) s = levels b s"
  "levels (b\<lparr>buy_stops := bs\<rparr>) s = levels b s" "levels (b\<lparr>sell_stops := ss\<rparr>) s = levels b s"
  "levels (b\<lparr>account_orders := ao\<rparr>) s = levels b s"
  by (cases s; simp)+

lemma levels_set_levels: "levels (set_levels s l b) t = (if t = s then l else levels b t)"
  by (cases s; cases t) simp_all

lemma set_levels_simps [simp]:
  "orders (set_levels s l b) = orders b" "expiries (set_levels s l b) = expiries b"
  "buy_stops (set_levels s l b) = buy_stops b" "sell_stops (set_levels s l b) = sell_stops b"
  "account_orders (set_levels s l b) = account_orders b" "limits (set_levels s l b) = limits b"
  by (cases s; simp)+

section \<open>The indexes by expiry and by trigger\<close>

lemma expiry_entry_upd:
  "expiry_entry (R(x \<mapsto> r)) k =
     (if snd k = x then if order_expires_at r = Some (fst k) then Some x else None else expiry_entry R k)"
  "expiry_entry (R(x := None)) k = (if snd k = x then None else expiry_entry R k)"
  by (simp_all add: expiry_entry_def)

lemma stop_entry_upd:
  "stop_entry side (R(x \<mapsto> r)) k =
     (if snd (snd k) = x then
        case stop r of None \<Rightarrow> None
        | Some s \<Rightarrow> if order_side r = side \<and> k = (stop_trigger_price s, priority_sequence s, x) then Some x else None
      else stop_entry side R k)"
  "stop_entry side (R(x := None)) k = (if snd (snd k) = x then None else stop_entry side R k)"
  by (auto simp: stop_entry_def split: prod.splits option.splits)

lemma expiry_entry_room:
  assumes "index_ok m" "\<forall>k. index_get m k = expiry_entry R k" "finite (dom R)"
  shows "index_len m \<le> card (dom R)"
proof -
  have "dom (index_get m) = dom (expiry_entry R)"
    using assms(2) by (auto simp: dom_def)
  moreover have "inj_on snd (dom (expiry_entry R))"
    by (auto simp: inj_on_def expiry_entry_def split: option.splits if_splits)
  moreover have "snd ` dom (expiry_entry R) \<subseteq> dom R"
    by (auto simp: expiry_entry_def split: option.splits)
  ultimately show ?thesis
    using card_inj_on_le [of snd "dom (expiry_entry R)" "dom R"] assms(1,3) by (simp add: index_len_dom)
qed

lemma insert_expiry_correct:
  assumes "index_ok (expiries b)" "\<forall>k. index_get (expiries b) k = expiry_entry R k" "finite (dom R)"
    and "R (order_id r) = None" "card (dom R) < index_maximum (expiries b)" "order_expires_at r = order_expires_at r'"
  obtains e where "insert_expiry r b = Some (b\<lparr>expiries := e\<rparr>)" "index_ok e" "index_maximum e = index_maximum (expiries b)"
    "\<forall>k. index_get e k = expiry_entry (R(order_id r \<mapsto> r')) k"
proof (cases "order_expires_at r")
  case None
  have "expiry_entry (R(order_id r \<mapsto> r')) k = expiry_entry R k" for k
    using None assms(4,6) by (auto simp: expiry_entry_def)
  then show thesis
    using that [of "expiries b"] None assms(1,2) by (simp add: insert_expiry_def)
next
  case (Some at)
  let ?k = "(at, order_id r)"
  have none: "index_get (expiries b) ?k = None"
    using assms(2,4) by (simp add: expiry_entry_def)
  have "index_len (expiries b) < index_maximum (expiries b)"
    using expiry_entry_room [OF assms(1-3)] assms(5) by simp
  from index_insert_Some [OF assms(1) disjI2 [OF this], of ?k "order_id r"] obtain e where
    e: "index_insert (expiries b) ?k (order_id r) = Some (index_get (expiries b) ?k, e)" "index_ok e"
      "index_get e = (index_get (expiries b))(?k \<mapsto> order_id r)" "index_maximum e = index_maximum (expiries b)"
    by metis
  have "\<forall>k. index_get e k = expiry_entry (R(order_id r \<mapsto> r')) k"
    using assms(2,4,6) Some by (auto simp: e(3) expiry_entry_def)
  then show thesis
    using that [of e] e none Some by (simp add: insert_expiry_def)
qed

lemma remove_expiry_correct:
  assumes "index_ok (expiries b)" "\<forall>k. index_get (expiries b) k = expiry_entry R k" "R x = Some r"
    and "order_id r' = x" "order_expires_at r' = order_expires_at r"
  obtains e where "remove_expiry r' b = Some (b\<lparr>expiries := e\<rparr>)" "index_ok e" "index_maximum e = index_maximum (expiries b)"
    "\<forall>k. index_get e k = expiry_entry (R(x := None)) k"
proof (cases "order_expires_at r")
  case None
  have "expiry_entry (R(x := None)) k = expiry_entry R k" for k
    using None assms(3) by (auto simp: expiry_entry_def)
  then show thesis
    using that [of "expiries b"] None assms by (simp add: remove_expiry_def)
next
  case (Some at)
  obtain old e where rm: "index_remove (expiries b) (at, x) = (old, e)"
    by fastforce
  note e = index_remove_facts [OF assms(1) rm]
  have "old = Some x"
    using assms(2,3) Some by (simp add: e(1) expiry_entry_def)
  moreover have "\<forall>k. index_get e k = expiry_entry (R(x := None)) k"
    using assms(2,3) Some by (auto simp: e(3) expiry_entry_def)
  ultimately show thesis
    using that [of e] e(2,4) rm Some assms(4,5) by (simp add: remove_expiry_def)
qed

section \<open>Levels\<close>

lemma level_of_cong:
  assumes "\<And>x. x \<in> set (members q) \<Longrightarrow> R x = R' x"
  shows "level_of R q = level_of R' q"
proof -
  have "total_units R (members q) = total_units R' (members q)"
    unfolding total_units_def by (rule arg_cong [of _ _ sum_list]) (use assms in auto)
  moreover have "shown_total R (fst q) = shown_total R' (fst q)"
    unfolding shown_total_def by (rule arg_cong [of _ _ sum_list]) (use assms in \<open>auto simp: members_def\<close>)
  ultimately show ?thesis
    by (simp add: level_of_def)
qed

lemma level_of_upd: "x \<notin> set (members q) \<Longrightarrow> level_of (R(x := v)) q = level_of R q"
  by (rule level_of_cong) auto

lemma levels_rep_change:
  assumes "levels_rep b S" "limits b' = limits b"
    and "\<And>t. levels b' t = (if t = s then l' else levels b t)"
    and "levels_ok l'" "levels_side l' = s" "index_maximum (by_price l') = index_maximum (by_price (levels b s))"
    and "levels_get l' = (levels_get (levels b s))(p := level_of (spec_orders S') (queue S' s p))"
    and "\<And>t q. (t, q) \<noteq> (s, p) \<Longrightarrow> level_of (spec_orders S') (queue S' t q) = level_of (spec_orders S) (queue S t q)"
  shows "levels_rep b' S'"
  using assms(1,2,4-6) unfolding levels_rep_def assms(3) by (auto simp: assms(7) assms(8))

lemma update_level_correct:
  assumes "levels_ok (levels b s)" "levels_get (levels b s) p = Some level" "f level = Some (res, level')"
    and "fits_u128 (side_event_units (levels b s) - level_event_units level + level_event_units level')"
  obtains l' where "update_level s p f b = Some (res, set_levels s l' b)" "levels_ok l'"
    "levels_side l' = levels_side (levels b s)" "levels_get l' = (levels_get (levels b s))(p \<mapsto> level')"
    "index_maximum (by_price l') = index_maximum (by_price (levels b s))"
proof -
  from update_by_handle_correct [where f = f, OF assms] obtain l' where
    l': "update_by_handle (levels b s) p f = Some (Some res, l')" "levels_ok l'"
      "levels_side l' = levels_side (levels b s)" "levels_get l' = (levels_get (levels b s))(p \<mapsto> level')"
      "index_maximum (by_price l') = index_maximum (by_price (levels b s))"
    by metis
  show thesis
    by (rule that [OF _ l'(2-5)]) (simp add: update_level_def l'(1))
qed

section \<open>An order joins a queue\<close>

text \<open>Where an order goes: the members before and behind it.\<close>

definition before :: "RestingOrder \<Rightarrow> Queue \<Rightarrow> OrderId list" where
  "before r q = (if is_hidden (order_display r) then members q else fst q)"

definition behind :: "RestingOrder \<Rightarrow> Queue \<Rightarrow> OrderId list" where
  "behind r q = (if is_hidden (order_display r) then [] else snd q)"

lemma members_split: "members q = before r q @ behind r q"
  by (simp add: before_def behind_def members_def)

lemma members_enqueue: "members (enqueue r q) = before r q @ order_id r # behind r q"
  by (simp add: before_def behind_def members_def enqueue_def)

lemma core_queue_facts:
  assumes "core_rep b S"
  shows "fifo.seg (orders b) None (members (queue S s p)) None" "distinct (members (queue S s p))"
    "set (members (queue S s p)) = {x. rests S s p False x \<or> rests S s p True x}"
    "levels_get (levels b s) p = level_of (spec_orders S) (queue S s p)"
    "length (members (queue S s p)) \<le> card (dom (spec_orders S))"
    "total_units (spec_orders S) (members (queue S s p)) \<le> card (dom (spec_orders S)) * 2 ^ 34"
    "shown_total (spec_orders S) (fst (queue S s p)) \<le> card (dom (spec_orders S)) * 2 ^ 64"
proof -
  have q: "queues_ok S" "orders_ok S"
    using assms by (simp_all add: core_rep_def)
  show "fifo.seg (orders b) None (members (queue S s p)) None"
    "levels_get (levels b s) p = level_of (spec_orders S) (queue S s p)"
    using assms by (simp_all add: core_rep_def levels_rep_def)
  show d: "distinct (members (queue S s p))"
    using q by (simp add: queues_ok_def)
  show "set (members (queue S s p)) = {x. rests S s p False x \<or> rests S s p True x}"
    using rests_members [OF q(1)] by blast
  have m: "\<And>x. x \<in> set (members (queue S s p)) \<Longrightarrow> spec_orders S x \<noteq> None"
    using members_in [OF q(1)] .
  show "length (members (queue S s p)) \<le> card (dom (spec_orders S))"
    "total_units (spec_orders S) (members (queue S s p)) \<le> card (dom (spec_orders S)) * 2 ^ 34"
    using orders_of_list [OF q(2) d m] by simp_all
  show "shown_total (spec_orders S) (fst (queue S s p)) \<le> card (dom (spec_orders S)) * 2 ^ 64"
    using orders_of_list(3) [OF q(2), of "fst (queue S s p)"] d m by (auto simp: members_def)
qed

lemma link_into_level_correct:
  assumes seg: "fifo.seg (orders b) None (members q) None" and d: "distinct (members q)" "members q \<noteq> []"
    and x: "order_id r \<notin> set (members q)" and level: "level_of R q = Some level"
    and r: "previous r = None" "next_order r = None"
  obtains h where
    "link_into_level r level b =
       Some (r\<lparr>previous := last_or None (before r q), next_order := hd_or None (behind r q)\<rparr>, b\<lparr>orders := h\<rparr>)"
    "fifo.relinked (orders b) h (set (members q))"
    "\<And>n. previous n = last_or None (before r q) \<Longrightarrow> next_order n = hd_or None (behind r q) \<Longrightarrow>
       fifo.seg (h(order_id r \<mapsto> n)) None (members (enqueue r q)) None"
proof -
  let ?us = "before r q" and ?vs = "behind r q"
  have "fifo.seg (orders b) None (?us @ ?vs) None" "distinct (?us @ order_id r # ?vs)"
    using seg d x by (auto simp: members_split [of q r])
  from fifo.splice_in [OF this] obtain h1 h2 where
    h: "fifo.link_next (last_or None ?us) (Some (order_id r)) (orders b) = Some h1"
      "fifo.link_prev (hd_or None ?vs) (Some (order_id r)) h1 = Some h2"
      "\<And>n. previous n = last_or None ?us \<Longrightarrow> next_order n = hd_or None ?vs \<Longrightarrow>
         fifo.seg (h2(order_id r \<mapsto> n)) None (?us @ order_id r # ?vs) None"
      "fifo.relinked (orders b) h2 (set ?us \<union> set ?vs)"
    by metis
  have l: "level_tail level = List.last (members q)" "level_head level = hd (members q)"
      "displayed_tail level = last_or None (fst q)"
    using level d by (auto simp: level_of_def)
  have "link_into_level r level b =
       Some (r\<lparr>previous := last_or None ?us, next_order := hd_or None ?vs\<rparr>, b\<lparr>orders := h2\<rparr>)"
  proof (cases "is_hidden (order_display r)")
    case True
    then have us: "last_or None ?us = Some (level_tail level)" and vs: "?vs = []"
      using d by (simp_all add: before_def behind_def l last_or_def)
    then have "h2 = h1"
      using h(2) by (simp add: fifo.link_prev_def)
    then show ?thesis
      using True h(1) vs us by (simp add: link_into_level_def modify_order_optional modify_optional_fifo r)
  next
    case False
    then have us: "?us = fst q" and vs: "?vs = snd q"
      by (simp_all add: before_def behind_def)
    have following: "(case displayed_tail level of None \<Rightarrow> Some (Some (level_head level))
        | Some t \<Rightarrow> map_option next_order (orders b t)) = Some (hd_or None (snd q))"
    proof (cases "fst q" rule: rev_cases)
      case Nil
      then show ?thesis
        using d by (cases "snd q") (auto simp: l members_def)
    next
      case (snoc zs t)
      then show ?thesis
        using seg by (auto simp: l members_def fifo.seg_append)
    qed
    have "displayed_tail level = last_or None ?us"
      by (simp add: l us)
    then show ?thesis
      using False h(1,2) following by (simp add: link_into_level_def modify_optional_fifo us vs)
  qed
  then show thesis
    by (rule that) (use h(3,4) in \<open>simp_all add: members_enqueue members_split [of q r]\<close>)
qed

lemma level_with_order_correct:
  assumes level: "level_of R q = Some level" and x: "order_id r \<notin> set (members q)" and wf: "order_wf r"
    and r: "previous r' = last_or None (before r q)" "next_order r' = hd_or None (behind r q)"
      "order_id r' = order_id r" "order_display r' = order_display r" "displayed r' = displayed r"
    and fits: "fits_u128 (shown_total R (fst q) + displayed r)" "fits_u64 (Suc (length (members q)))"
      "fits_u128 (total_units R (members q) + units r)"
  obtains level' where "level_with_order r' (units r) level = Some ((), level')"
    "level_of (R(order_id r \<mapsto> strip r)) (enqueue r q) = Some level'"
    "level_event_units level' = level_event_units level + units r"
proof -
  have ne: "members q \<noteq> []"
    using level by (auto simp: level_of_def)
  have lv: "level = \<lparr>level_head = hd (members q), level_tail = List.last (members q),
             displayed_tail = last_or None (fst q), total_quantity = shown_total R (fst q),
             order_count = length (members q), visible_order_count = length (fst q),
             level_event_units = total_units R (members q)\<rparr>"
    using level ne by (simp add: level_of_def)
  have xs: "order_id r \<notin> set (fst q)" "order_id r \<notin> set (snd q)"
    using x by (auto simp: members_def)
  let ?v = "visible_lots (order_display r) (displayed r)"
  have f: "fits_u128 (shown_total R (fst q) + ?v)" "fits_u64 (Suc (length (fst q)))" "fits_u64 (length (fst q))"
    using fits(1) fits_u128_mono [OF fits(1), of "shown_total R (fst q) + ?v"]
      fits_u64_mono [OF fits(2), of "Suc (length (fst q))"] fits_u64_mono [OF fits(2), of "length (fst q)"]
    by (simp_all add: members_def)
  show thesis
  proof (cases "is_hidden (order_display r)")
    case True
    let ?level' = "level\<lparr>level_tail := order_id r, order_count := Suc (order_count level),
      level_event_units := level_event_units level + units r\<rparr>"
    have "level_with_order r' (units r) level = Some ((), ?level')"
      using True f fits by (simp add: level_with_order_def r visible_lots_hidden lv)
    moreover have "level_of (R(order_id r \<mapsto> strip r)) (enqueue r q) = Some ?level'"
      using True ne xs by (cases "fst q"; cases "snd q") (simp_all add: level_of_def enqueue_def members_def lv)
    ultimately show thesis
      by (rule that) simp
  next
    case False
    let ?level' = "level\<lparr>level_head := (if fst q = [] then order_id r else level_head level),
      level_tail := (if snd q = [] then order_id r else level_tail level), displayed_tail := Some (order_id r),
      total_quantity := total_quantity level + displayed r, order_count := Suc (order_count level),
      visible_order_count := Suc (visible_order_count level), level_event_units := level_event_units level + units r\<rparr>"
    have "level_with_order r' (units r) level = Some ((), ?level')"
      using False f fits
      by (simp add: level_with_order_def r visible_lots_shown lv before_def behind_def hd_or_eq_None last_or_eq_None)
    moreover have "level_of (R(order_id r \<mapsto> strip r)) (enqueue r q) = Some ?level'"
      using False ne xs by (simp add: level_of_def enqueue_def members_def lv)
    ultimately show thesis
      by (rule that) simp
  qed
qed

lemma level_for_order_correct:
  "level_of (R(order_id r \<mapsto> strip r)) (enqueue r ([], [])) = Some (level_for_order r (units r))"
  by (simp add: level_of_def enqueue_def members_def level_for_order_def visible_lots_hidden visible_lots_shown)

text \<open>The new node is the only change of the map, apart from the links of its neighbours.\<close>

lemma core_rep_insert:
  assumes core: "core_rep b S" and fresh: "spec_orders S (order_id r) = None" and wf: "order_wf r"
    and room: "card (dom (spec_orders S)) < max_active_orders (limits b)"
    and h: "fifo.relinked (orders b) h (if stop r = None then set (members (queue S (order_side r) (order_price r))) else {})"
    and b': "orders b' = h(order_id r \<mapsto> n)" "strip n = strip r" "limits b' = limits b"
    and dormant: "stop r \<noteq> None \<Longrightarrow> previous n = None \<and> next_order n = None"
    and seg: "stop r = None \<Longrightarrow> fifo.seg (orders b') None (members (enqueue r (queue S (order_side r) (order_price r)))) None"
    and levels: "levels_rep b' (spec_insert r S)" and indexes: "indexes_rep b' (spec_insert r S)"
  shows "core_rep b' (spec_insert r S)"
proof -
  let ?x = "order_id r" and ?S = "spec_insert r S" and ?q = "queue S (order_side r) (order_price r)"
  have ok: "orders_ok S" "queues_ok S" and fit: "fits_usize (max_active_orders (limits b))"
    and strips: "\<And>y. map_option strip (orders b y) = spec_orders S y"
    and unlinked: "\<And>y m. orders b y = Some m \<Longrightarrow> stop m \<noteq> None \<Longrightarrow> previous m = None \<and> next_order m = None"
    using core by (auto simp: core_rep_def)
  have strips': "map_option strip (orders b' y) = spec_orders ?S y" for y
    using fifo_relinked_strip [OF h, of y] strips [of y] b'(2) by (simp add: b'(1) spec_insert_def)
  have "orders_ok ?S" "queues_ok ?S" "card (dom (spec_orders ?S)) \<le> max_active_orders (limits b)"
    using spec_insert_ok [OF ok fresh wf] room by simp_all
  moreover have "fifo.seg (orders b') None (members (queue ?S s p)) None" for s p
  proof (cases "stop r = None \<and> s = order_side r \<and> p = order_price r")
    case True
    then show ?thesis
      using seg by (simp add: spec_insert_def)
  next
    case False
    then have q: "queue ?S s p = queue S s p"
      by (auto simp: spec_insert_def)
    have nx: "?x \<notin> set (members (queue S s p))"
      using members_in [OF ok(2), of ?x s p] fresh by auto
    have dis: "(if stop r = None then set (members ?q) else {}) \<inter> set (members (queue S s p)) = {}"
      using False by (auto simp: rests_members [OF ok(2)] dest: rests_unique)
    have "fifo.seg h None (members (queue S s p)) None"
      using fifo.relinked_seg [OF h dis core_queue_facts(1) [OF core, of s p]] .
    then show ?thesis
      using nx by (simp add: q b'(1) fifo.seg_frame)
  qed
  moreover have "previous m = None \<and> next_order m = None" if m: "orders b' y = Some m" "stop m \<noteq> None" for y m
  proof (cases "y = ?x")
    case True
    then have "m = n"
      using m(1) by (simp add: b'(1))
    then have "stop r \<noteq> None"
      using m(2) arg_cong [OF b'(2), of stop] by simp
    then show ?thesis
      using dormant \<open>m = n\<close> by simp
  next
    case False
    then have hm: "h y = Some m"
      using m(1) by (simp add: b'(1))
    have "spec_orders S y = Some (strip m)"
      using strips [of y] fifo_relinked_strip [OF h, of y] hm by simp
    then have "\<not> rests S s p hd y" for s p hd
      using m(2) by (simp add: rests_def)
    then have "y \<notin> set (members ?q)"
      by (simp add: rests_members [OF ok(2)])
    then have "orders b y = Some m"
      using h hm by (auto simp: fifo.relinked_def split: if_splits)
    then show ?thesis
      using unlinked m(2) by blast
  qed
  ultimately show ?thesis
    using fit strips' levels indexes unfolding core_rep_def b'(3) by blast
qed

lemma indexes_rep_insert:
  assumes "core_rep b S" "spec_orders S (order_id r) = None" "order_id r' = order_id r"
    "order_expires_at r' = order_expires_at r" "expiries b' = expiries b"
    "card (dom (spec_orders S)) < max_active_orders (limits b)"
  obtains e where "insert_expiry r' b' = Some (b'\<lparr>expiries := e\<rparr>)" "index_ok e"
    "index_maximum e = max_active_orders (limits b)" "\<forall>k. index_get e k = expiry_entry (spec_orders (spec_insert r S)) k"
proof -
  let ?R = "spec_orders S"
  have i: "index_ok (expiries b')" "index_maximum (expiries b') = max_active_orders (limits b)"
      "\<forall>k. index_get (expiries b') k = expiry_entry ?R k" and fin: "finite (dom ?R)"
    using assms(1,5) by (auto simp: core_rep_def indexes_rep_def orders_ok_def)
  have "?R (order_id r') = None" "card (dom ?R) < index_maximum (expiries b')"
      "order_expires_at r' = order_expires_at (strip r)"
    using assms i by simp_all
  from insert_expiry_correct [OF i(1,3) fin this] obtain e where
    e: "insert_expiry r' b' = Some (b'\<lparr>expiries := e\<rparr>)" "index_ok e" "index_maximum e = index_maximum (expiries b')"
      "\<forall>k. index_get e k = expiry_entry (?R(order_id r' \<mapsto> strip r)) k"
    by metis
  moreover have "spec_orders (spec_insert r S) = ?R(order_id r' \<mapsto> strip r)"
    by (simp add: spec_insert_def assms(3))
  ultimately show thesis
    using that [of e] i(2) by simp
qed

theorem append_preserving_correct:
  assumes core: "core_rep b S" and fresh: "spec_orders S (order_id r) = None" and wf: "order_wf r"
    and stop: "stop r = None" and unlinked: "previous r = None" "next_order r = None"
    and room: "card (dom (spec_orders S)) < max_active_orders (limits b)"
    and level_room: "levels_get (levels b (order_side r)) (order_price r) \<noteq> None \<or>
       levels_len (levels b (order_side r)) < max_price_levels_per_side (limits b)"
  obtains b' h n where "append_order_preserving_account_index r b = Some b'" "core_rep b' (spec_insert r S)"
    "book_rest b' = book_rest b" "account_orders b' = account_orders b"
    "fifo.relinked (orders b) h (set (members (queue S (order_side r) (order_price r))))"
    "orders b' = h(order_id r \<mapsto> n)" "account_previous n = account_previous r" "account_next n = account_next r"
proof -
  let ?x = "order_id r" and ?s = "order_side r" and ?p = "order_price r" and ?R = "spec_orders S"
  let ?q = "queue S ?s ?p" and ?R' = "(spec_orders S)(order_id r \<mapsto> strip r)" and ?l = "levels b (order_side r)"
  let ?n = "card (dom ?R)" and ?m = "max_active_orders (limits b)"
  have ok: "orders_ok S" "queues_ok S" "levels_rep b S" "indexes_rep b S" and fit: "fits_usize ?m"
    and strips: "\<And>y. map_option strip (orders b y) = ?R y"
    using core by (auto simp: core_rep_def)
  note qf = core_queue_facts [OF core, of ?s ?p]
  have lok: "levels_ok ?l" "levels_side ?l = ?s" "index_maximum (by_price ?l) = max_price_levels_per_side (limits b)"
    using ok(3) by (auto simp: levels_rep_def)
  have xq: "?x \<notin> set (members (queue S s p))" for s p
    using members_in [OF ok(2), of ?x s p] fresh by auto
  have ob: "orders b ?x = None"
    using strips [of ?x] fresh by simp
  have n: "Suc ?n \<le> ?m"
    using room by simp
  have side_fits: "fits_u128 (side_event_units ?l + units r)"
  proof (rule fits_u128_mono [OF fits_u64_lists(2) [OF fit n]])
    show "side_event_units ?l + units r \<le> Suc ?n * 2 ^ 34"
      using side_units_bound [OF core, of ?s] units_bound [OF wf] by simp
  qed
  obtain h l' n where step:
    "(case levels_get ?l ?p of
        Some level \<Rightarrow> do {
          (order, b) \<leftarrow> link_into_level r level b;
          (_, b) \<leftarrow> update_level ?s ?p (level_with_order order (units r)) b;
          Some (order, b)
        }
      | None \<Rightarrow> do {
          (_, l) \<leftarrow> levels_insert ?l ?p (level_for_order r (units r));
          Some (r, set_levels ?s l b)
        }) = Some (n, set_levels ?s l' (b\<lparr>orders := h\<rparr>))"
    and n_def: "n = r\<lparr>previous := last_or None (before r ?q), next_order := hd_or None (behind r ?q)\<rparr>"
    and h: "fifo.relinked (orders b) h (set (members ?q))"
    and seg: "fifo.seg (h(?x \<mapsto> n)) None (members (enqueue r ?q)) None"
    and l': "levels_ok l'" "levels_side l' = ?s" "index_maximum (by_price l') = index_maximum (by_price ?l)"
      "levels_get l' = (levels_get ?l)(?p := level_of ?R' (enqueue r ?q))"
  proof (cases "levels_get ?l ?p")
    case None
    then have empty: "members ?q = []"
      using qf(4) by (auto simp: level_of_def split: if_splits)
    then have q: "?q = ([], [])"
      by (simp add: members_def prod_eq_iff)
    have "levels_get ?l ?p \<noteq> None \<or> levels_len ?l < index_maximum (by_price ?l)"
      using level_room lok(3) by simp
    from levels_insert_correct [OF lok(1) this, of "level_for_order r (units r)"] obtain l' where
      l': "levels_insert ?l ?p (level_for_order r (units r)) = Some (levels_get ?l ?p, l')" "levels_ok l'"
        "levels_side l' = levels_side ?l" "levels_get l' = (levels_get ?l)(?p \<mapsto> level_for_order r (units r))"
        "index_maximum (by_price l') = index_maximum (by_price ?l)"
      using side_fits by (metis (no_types, lifting) PriceLevel.select_convs(7) level_for_order_def)
    have "r\<lparr>previous := last_or None (before r ?q), next_order := hd_or None (behind r ?q)\<rparr> = r"
      using unlinked by (intro RestingOrder.equality) (simp_all add: q before_def behind_def members_def)
    moreover have "fifo.seg ((orders b)(?x \<mapsto> r)) None (members (enqueue r ?q)) None"
      using unlinked by (simp add: q enqueue_def members_def)
    ultimately show thesis
      using that [of r l' "orders b"] l' lok(2) None level_for_order_correct [of ?R r]
      by (simp add: q)
  next
    case (Some level)
    then have lv: "level_of ?R ?q = Some level"
      using qf(4) by simp
    then have ne: "members ?q \<noteq> []"
      by (auto simp: level_of_def)
    let ?r' = "r\<lparr>previous := last_or None (before r ?q), next_order := hd_or None (behind r ?q)\<rparr>"
    from link_into_level_correct [OF qf(1,2) ne xq lv unlinked] obtain h where
      h0: "link_into_level r level b = Some (?r', b\<lparr>orders := h\<rparr>)" "fifo.relinked (orders b) h (set (members ?q))"
        "\<And>n. previous n = last_or None (before r ?q) \<Longrightarrow> next_order n = hd_or None (behind r ?q) \<Longrightarrow>
           fifo.seg (h(?x \<mapsto> n)) None (members (enqueue r ?q)) None"
      by blast
    have "fifo.seg (h(?x \<mapsto> ?r')) None (members (enqueue r ?q)) None"
      by (rule h0(3)) simp_all
    note h = h0(1,2) this
    have f: "fits_u128 (shown_total ?R (fst ?q) + displayed r)" "fits_u64 (Suc (length (members ?q)))"
      "fits_u128 (total_units ?R (members ?q) + units r)"
    proof -
      show "fits_u128 (shown_total ?R (fst ?q) + displayed r)"
      proof (rule fits_u128_mono [OF fits_u64_lists(3) [OF fit n]])
        show "shown_total ?R (fst ?q) + displayed r \<le> Suc ?n * 2 ^ 64"
          using qf(7) order_wf_displayed(3) [OF wf] by (simp add: fits_u64_def)
      qed
      show "fits_u64 (Suc (length (members ?q)))"
        using qf(5) n by (intro fits_u64_lists(1) [OF fit]) simp
      show "fits_u128 (total_units ?R (members ?q) + units r)"
      proof (rule fits_u128_mono [OF fits_u64_lists(2) [OF fit n]])
        show "total_units ?R (members ?q) + units r \<le> Suc ?n * 2 ^ 34"
          using qf(6) units_bound [OF wf] by simp
      qed
    qed
    obtain level' where level': "level_with_order ?r' (units r) level = Some ((), level')"
      "level_of ?R' (enqueue r ?q) = Some level'" "level_event_units level' = level_event_units level + units r"
      by (rule level_with_order_correct [where r' = ?r', OF lv xq wf _ _ _ _ _ f]) simp_all
    have le: "level_event_units level \<le> side_event_units ?l"
      using index_sum_ge [of "by_price ?l" ?p level level_event_units] lok(1) Some
      by (simp add: levels_ok_def levels_get_def)
    have "levels_ok (levels (b\<lparr>orders := h\<rparr>) ?s)" "levels_get (levels (b\<lparr>orders := h\<rparr>) ?s) ?p = Some level"
      using lok(1) Some by simp_all
    moreover have "fits_u128 (side_event_units (levels (b\<lparr>orders := h\<rparr>) ?s) - level_event_units level + level_event_units level')"
      using side_fits le by (simp add: level'(3))
    ultimately obtain l' where
      "update_level ?s ?p (level_with_order ?r' (units r)) (b\<lparr>orders := h\<rparr>) = Some ((), set_levels ?s l' (b\<lparr>orders := h\<rparr>))"
      "levels_ok l'" "levels_side l' = levels_side ?l" "levels_get l' = (levels_get ?l)(?p \<mapsto> level')"
      "index_maximum (by_price l') = index_maximum (by_price ?l)"
      using update_level_correct [of "b\<lparr>orders := h\<rparr>" ?s ?p level "level_with_order ?r' (units r)"] level'(1)
      by (metis levels_simps(1))
    then show thesis
      using that [of ?r' l' h] h Some lok(2) level'(2) by simp
  qed
  let ?b1 = "set_levels ?s l' (b\<lparr>orders := h\<rparr>)"
  have hx: "h ?x = None"
    using fifo.relinked_dom [OF h, of ?x] ob by simp
  let ?b2 = "?b1\<lparr>orders := h(?x \<mapsto> n)\<rparr>"
  have n_facts: "order_id n = ?x" "order_expires_at n = order_expires_at r" "strip n = strip r"
      "account_previous n = account_previous r" "account_next n = account_next r"
    by (simp_all add: n_def strip_def)
  obtain e where e: "insert_expiry n ?b2 = Some (?b2\<lparr>expiries := e\<rparr>)" "index_ok e"
      "index_maximum e = ?m" "\<forall>k. index_get e k = expiry_entry (spec_orders (spec_insert r S)) k"
    by (rule indexes_rep_insert [OF core fresh n_facts(1,2) _ room, of ?b2]) simp_all
  let ?b' = "?b2\<lparr>expiries := e\<rparr>"
  have run: "append_order_preserving_account_index r b = Some ?b'"
    using step hx e(1) n_facts(1) by (simp add: append_order_preserving_account_index_def stop wf Let_def)
  have spec: "spec_orders (spec_insert r S) = ?R'" "queue (spec_insert r S) ?s ?p = enqueue r ?q"
    by (simp_all add: spec_insert_def stop)
  have lv: "levels_rep ?b' (spec_insert r S)"
  proof (rule levels_rep_change [OF ok(3) _ _ l'(1-3)])
    show "levels_get l' = (levels_get ?l)(?p := level_of (spec_orders (spec_insert r S)) (queue (spec_insert r S) ?s ?p))"
      by (simp add: l'(4) spec)
    show "level_of (spec_orders (spec_insert r S)) (queue (spec_insert r S) t q) = level_of ?R (queue S t q)"
      if "(t, q) \<noteq> (?s, ?p)" for t q
    proof -
      have "queue (spec_insert r S) t q = queue S t q"
        using that by (auto simp: spec_insert_def)
      then show ?thesis
        by (simp add: spec level_of_upd xq)
    qed
  qed (simp_all add: levels_set_levels)
  have stops: "stop_entry side ?R' k = stop_entry side ?R k" for side k
    using fresh by (auto simp: stop_entry_upd stop stop_entry_def split: prod.splits)
  have ix: "indexes_rep ?b' (spec_insert r S)"
    using ok(4) e(2-4) by (simp add: indexes_rep_def spec stops)
  have "core_rep ?b' (spec_insert r S)"
    by (rule core_rep_insert [OF core fresh wf room, where h = h and n = n])
      (use h seg n_facts(3) stop lv ix in \<open>simp_all\<close>)
  moreover have "book_rest ?b' = book_rest b" "account_orders ?b' = account_orders b" "orders ?b' = h(?x \<mapsto> n)"
    by simp_all
  ultimately show thesis
    using that [of ?b' h n] run h n_facts(4,5) by blast
qed

section \<open>Appending an order\<close>

text \<open>Changes of account links and of the account indexes leave the core alone.\<close>

lemma core_rep_acct:
  assumes core: "core_rep b S" and h: "acct.relinked (orders b) h A"
  shows "core_rep (b\<lparr>orders := h, account_orders := ao\<rparr>) S"
proof -
  have strips: "map_option strip (h x) = spec_orders S x" for x
    using acct_relinked_strip [OF h, of x] core by (simp add: core_rep_def)
  have "fifo.seg h None (members (queue S s p)) None" for s p
    using acct_relinked_fifo_seg [OF h] core by (simp add: core_rep_def)
  moreover have "previous r = None \<and> next_order r = None" if "h x = Some r" "stop r \<noteq> None" for x r
  proof -
    note hyps = that
    obtain r0 where r0: "orders b x = Some r0"
      using acct.relinked_dom [OF h, of x] hyps(1) by (cases "orders b x") auto
    from acct.relinked_node [OF h r0] that(1)
    have e: "r\<lparr>account_previous := None, account_next := None\<rparr> = r0\<lparr>account_previous := None, account_next := None\<rparr>"
      by simp
    have "stop r0 = stop r" "previous r0 = previous r" "next_order r0 = next_order r"
      using arg_cong [OF e, of stop] arg_cong [OF e, of previous] arg_cong [OF e, of next_order] by simp_all
    then show ?thesis
      using core r0 that(2) by (auto simp: core_rep_def)
  qed
  ultimately show ?thesis
    using core strips by (auto simp: core_rep_def levels_rep_def indexes_rep_def)
qed

lemma fifo_relinked_upd: "fifo.relinked h h' A \<Longrightarrow> fifo.relinked (h(x := v)) (h'(x := v)) A"
  by (simp add: fifo.relinked_def)

lemma acct_relinked_upd: "acct.relinked h h' A \<Longrightarrow> acct.relinked (h(x := v)) (h'(x := v)) A"
  by (simp add: acct.relinked_def)

lemma spec_insert_cong [simp]:
  "spec_insert (r\<lparr>account_previous := v\<rparr>) S = spec_insert r S"
  by (simp add: spec_insert_def enqueue_def cong: if_cong)

lemma core_orders:
  assumes "core_rep b S"
  shows "map_option strip (orders b x) = spec_orders S x" "orders b x = None \<longleftrightarrow> spec_orders S x = None"
    "dom (orders b) = dom (spec_orders S)"
proof -
  show m: "map_option strip (orders b x) = spec_orders S x" for x
    using assms by (simp add: core_rep_def)
  show n: "orders b x = None \<longleftrightarrow> spec_orders S x = None" for x
    unfolding m [symmetric] by simp
  show "dom (orders b) = dom (spec_orders S)"
    by (simp add: dom_def n)
qed

lemma acct_rep_insert:
  fixes S :: BookSpec and r :: RestingOrder
  defines "x \<equiv> order_id r" and "a \<equiv> order_account_id r" and "s \<equiv> order_side r"
  defines "l \<equiv> account_list S a s"
  assumes acct: "acct_rep b S" "core_rep b S" and fresh: "spec_orders S x = None" and wf: "order_wf r"
    and ha: "acct.relinked (orders b) ha (set l)"
    and seg: "\<And>n. account_previous n = last_or None l \<Longrightarrow> account_next n = None \<Longrightarrow> acct.seg (ha(x \<mapsto> n)) None (l @ [x]) None"
    and hf: "fifo.relinked ha hf A" and b': "orders b' = hf(x \<mapsto> n)"
    and n: "account_previous n = last_or None l" "account_next n = None"
    and index: "\<And>c. account_orders b' c = account_of (spec_orders (spec_insert r S)) (account_list (spec_insert r S) c)"
  shows "acct_rep b' (spec_insert r S)"
proof -
  have ok: "accounts_ok S" "orders_ok S" "queues_ok S"
    using acct by (simp_all add: acct_rep_def core_rep_def)
  then have "accounts_ok (spec_insert r S)"
    using spec_insert_ok(3) [OF ok(2,3) _ wf ok(1)] fresh by (simp add: x_def)
  moreover have "acct.seg (orders b') None (account_list (spec_insert r S) c t) None" for c t
  proof (cases "c = a \<and> t = s")
    case True
    have "acct.seg (ha(x \<mapsto> n)) None (l @ [x]) None"
      by (rule seg [OF n])
    then have "acct.seg (hf(x \<mapsto> n)) None (l @ [x]) None"
      by (rule fifo_relinked_acct_seg [OF fifo_relinked_upd [OF hf]])
    then show ?thesis
      using True by (simp add: b' spec_insert_def a_def s_def l_def x_def)
  next
    case False
    then have e: "account_list (spec_insert r S) c t = account_list S c t"
      by (auto simp: spec_insert_def a_def s_def)
    have nx: "x \<notin> set (account_list S c t)"
      using acct_facts(3) [OF acct, of c t] fresh by (simp add: owned_def)
    have "set l \<inter> set (account_list S c t) = {}"
      using False acct_facts(3) [OF acct, of c t] acct_facts(3) [OF acct, of a s] by (auto simp: l_def dest: owned_unique)
    from acct.relinked_seg [OF ha this acct_facts(1) [OF acct]]
    have "acct.seg hf None (account_list S c t) None"
      by (rule fifo_relinked_acct_seg [OF hf])
    then show ?thesis
      using nx by (simp add: e b' acct.seg_frame)
  qed
  ultimately show ?thesis
    using index by (simp add: acct_rep_def)
qed

theorem append_order_correct:
  assumes rep: "represents b S" and fresh: "spec_orders S (order_id r) = None" and wf: "order_wf r" and r: "strip r = r"
    and stop: "stop r = None"
    and room: "card (dom (spec_orders S)) < max_active_orders (limits b)"
    and account_room: "account_orders b (order_account_id r) \<noteq> None \<or>
       card (dom (account_orders b)) < max_active_accounts (limits b)"
    and level_room: "levels_get (levels b (order_side r)) (order_price r) \<noteq> None \<or>
       levels_len (levels b (order_side r)) < max_price_levels_per_side (limits b)"
  obtains b' where "append_order r b = Some b'" "represents b' (spec_insert r S)" "book_rest b' = book_rest b"
proof -
  let ?a = "order_account_id r" and ?s = "order_side r"
  let ?l = "account_list S ?a ?s"
  have core: "core_rep b S" and acct: "acct_rep b S"
    using rep by (simp_all add: represents_def)
  have unlinked: "previous r = None" "next_order r = None" "account_previous r = None" "account_next r = None"
    using strip_simps(11-14) [of r] by (simp_all only: r)
  obtain h1 index where
    m: "append_account_membership r b =
       Some (r\<lparr>account_previous := last_or None ?l\<rparr>, b\<lparr>orders := h1, account_orders := (account_orders b)(?a \<mapsto> index)\<rparr>)"
      "acct.relinked (orders b) h1 (set ?l)"
      "\<And>n. account_previous n = last_or None ?l \<Longrightarrow> account_next n = None \<Longrightarrow> acct.seg (h1(order_id r \<mapsto> n)) None (?l @ [order_id r]) None"
      "\<And>c. ((account_orders b)(?a \<mapsto> index)) c = account_of (spec_orders (spec_insert r S)) (account_list (spec_insert r S) c)"
    by (rule append_account_membership_correct [OF acct core fresh wf unlinked(3,4) room]) (rule that)
  let ?r = "r\<lparr>account_previous := last_or None ?l\<rparr>"
  let ?b1 = "b\<lparr>orders := h1, account_orders := (account_orders b)(?a \<mapsto> index)\<rparr>"
  have core1: "core_rep ?b1 S"
    by (rule core_rep_acct [OF core m(2)])
  have p: "spec_orders S (order_id ?r) = None" "order_wf ?r" "stop ?r = None" "previous ?r = None" "next_order ?r = None"
      "card (dom (spec_orders S)) < max_active_orders (limits ?b1)"
      "levels_get (levels ?b1 (order_side ?r)) (order_price ?r) \<noteq> None \<or>
       levels_len (levels ?b1 (order_side ?r)) < max_price_levels_per_side (limits ?b1)"
    using fresh wf stop unlinked room level_room order_wf_strip [of ?r] order_wf_strip [of r] by simp_all
  obtain b' h2 n where
    b': "append_order_preserving_account_index ?r ?b1 = Some b'" "core_rep b' (spec_insert ?r S)"
      "book_rest b' = book_rest ?b1" "account_orders b' = account_orders ?b1"
      "fifo.relinked (orders ?b1) h2 (set (members (queue S (order_side ?r) (order_price ?r))))"
      "orders b' = h2(order_id ?r \<mapsto> n)" "account_previous n = account_previous ?r" "account_next n = account_next ?r"
    by (rule append_preserving_correct [OF core1 p]) (rule that)
  have "acct_rep b' (spec_insert r S)"
    by (rule acct_rep_insert [OF acct core fresh wf m(2,3), where hf = h2 and n = n])
      (use b'(4-8) m(4) unlinked in simp_all)
  moreover have "card (dom (orders b)) < max_active_orders (limits b)"
  proof -
    have "dom (orders b) = dom (spec_orders S)"
      using core by (auto simp: core_rep_def dom_def) (metis option.map_disc_iff option.distinct(1) not_None_eq)+
    then show ?thesis
      using room by simp
  qed
  moreover have "book_rest b' = book_rest b"
    using b'(3) by simp
  ultimately show thesis
    using that [of b'] b'(1,2) stop account_room level_room m(1)
    by (simp add: append_order_def represents_def)
qed

section \<open>An order leaves the book\<close>

lemma members_delete: "members (queue (spec_delete x S) s p) = removeAll x (members (queue S s p))"
  by (simp add: spec_delete_def members_def)

lemma removeAll_split: "distinct (us @ x # vs) \<Longrightarrow> removeAll x (us @ x # vs) = us @ vs"
  by (simp add: removeAll_id)

lemma core_rep_delete:
  assumes core: "core_rep b S" and r: "spec_orders S x = Some r"
    and h: "fifo.relinked ((orders b)(x := None)) h (if stop r = None then set (members (queue S (order_side r) (order_price r))) else {})"
    and b': "orders b' = h" "limits b' = limits b"
    and seg: "stop r = None \<Longrightarrow> fifo.seg h None (removeAll x (members (queue S (order_side r) (order_price r)))) None"
    and levels: "levels_rep b' (spec_delete x S)" and indexes: "indexes_rep b' (spec_delete x S)"
  shows "core_rep b' (spec_delete x S)"
proof -
  let ?S = "spec_delete x S" and ?q = "queue S (order_side r) (order_price r)"
  have ok: "orders_ok S" "queues_ok S" and fit: "fits_usize (max_active_orders (limits b))"
    and card: "card (dom (spec_orders S)) \<le> max_active_orders (limits b)"
    and unlinked: "\<And>y m. orders b y = Some m \<Longrightarrow> stop m \<noteq> None \<Longrightarrow> previous m = None \<and> next_order m = None"
    using core by (auto simp: core_rep_def)
  note strips = core_orders(1) [OF core]
  have strips': "map_option strip (orders b' y) = spec_orders ?S y" for y
    using fifo_relinked_strip [OF h, of y] strips [of y] by (simp add: b'(1) spec_delete_def)
  have "orders_ok ?S" "queues_ok ?S" "card (dom (spec_orders ?S)) \<le> max_active_orders (limits b)"
    using spec_delete_ok [OF ok, of x] card by simp_all
  moreover have "fifo.seg (orders b') None (members (queue ?S s p)) None" for s p
  proof (cases "stop r = None \<and> s = order_side r \<and> p = order_price r")
    case True
    then show ?thesis
      using seg by (simp add: b'(1) members_delete)
  next
    case False
    have nx: "x \<notin> set (members (queue S s p))"
      using False r by (auto simp: rests_members [OF ok(2)] rests_def)
    have dis: "(if stop r = None then set (members ?q) else {}) \<inter> set (members (queue S s p)) = {}"
      using False by (auto simp: rests_members [OF ok(2)] dest: rests_unique)
    have "fifo.seg ((orders b)(x := None)) None (members (queue S s p)) None"
      using nx core_queue_facts(1) [OF core] by (simp add: fifo.seg_frame)
    from fifo.relinked_seg [OF h dis this] show ?thesis
      using nx by (simp add: b'(1) members_delete)
  qed
  moreover have "previous m = None \<and> next_order m = None" if m: "orders b' y = Some m" "stop m \<noteq> None" for y m
  proof -
    have "spec_orders ?S y = Some (strip m)"
      using strips' [of y] m(1) by simp
    then have s: "spec_orders S y = Some (strip m)" "y \<noteq> x"
      by (auto simp: spec_delete_def split: if_splits)
    then have "\<not> rests S s p hd y" for s p hd
      using m(2) by (simp add: rests_def)
    then have "y \<notin> set (members ?q)"
      by (simp add: rests_members [OF ok(2)])
    then have "orders b y = Some m"
      using h m(1) s(2) by (auto simp: b'(1) fifo.relinked_def split: if_splits)
    then show ?thesis
      using unlinked m(2) by blast
  qed
  ultimately show ?thesis
    using fit strips' levels indexes unfolding core_rep_def b'(2) by blast
qed

lemma total_units_split: "x \<notin> set us \<Longrightarrow> x \<notin> set vs \<Longrightarrow>
   total_units R (us @ x # vs) = units (the (R x)) + total_units (R(x := v)) (us @ vs)"
  by simp

lemma level_without_order_correct:
  assumes level: "level_of R q = Some level" and q: "members q = us @ x # vs" "distinct (members q)"
    and kind: "if is_hidden (order_display r) then x \<in> set (snd q) else x \<in> set (fst q)"
    and r: "R x = Some (strip r)" "order_id r = x" "previous r = last_or None us" "next_order r = hd_or None vs"
  obtains level' where "level_without_order r (units r) level = Some (us @ vs = [], level')"
    "us @ vs \<noteq> [] \<Longrightarrow> level_of (R(x := None)) (removeAll x (fst q), removeAll x (snd q)) = Some level'"
    "level_event_units level' + units r = level_event_units level"
proof -
  let ?q' = "(removeAll x (fst q), removeAll x (snd q))" and ?R' = "R(x := None)"
  have lv: "level = \<lparr>level_head = hd (members q), level_tail = List.last (members q),
             displayed_tail = last_or None (fst q), total_quantity = shown_total R (fst q),
             order_count = length (members q), visible_order_count = length (fst q),
             level_event_units = total_units R (members q)\<rparr>"
    using level by (simp add: level_of_def split: if_splits)
  have m': "members ?q' = us @ vs"
  proof -
    have "members ?q' = removeAll x (members q)"
      by (simp add: members_def)
    then show ?thesis
      using removeAll_split [of us x vs] q by simp
  qed
  have x: "x \<notin> set us" "x \<notin> set vs"
    using q by auto
  have tu: "total_units R (members q) = units r + total_units ?R' (us @ vs)"
    using total_units_split [OF x, of R None] r(1) by (simp add: q(1))
  have counts: "length (members q) = Suc (length (us @ vs))"
    by (simp add: q(1))
  show thesis
  proof (cases "is_hidden (order_display r)")
    case True
    then have xd: "x \<notin> set (fst q)"
      using kind q(2) by (auto simp: members_def)
    then have d: "removeAll x (fst q) = fst q" "last_or None (fst q) \<noteq> Some x"
      by (auto simp: last_or_def)
    let ?level' = "level\<lparr>level_head := (if us = [] \<and> vs \<noteq> [] then hd vs else level_head level),
      level_tail := (if vs = [] \<and> us \<noteq> [] then List.last us else level_tail level),
      order_count := length (us @ vs), level_event_units := total_units ?R' (us @ vs)\<rparr>"
    have "level_without_order r (units r) level = Some (us @ vs = [], ?level')"
    proof -
      have "checked_sub (length (members q)) 1 = Some (length (us @ vs))"
          "checked_sub (total_units R (members q)) (units r) = Some (total_units ?R' (us @ vs))"
        using counts tu by simp_all
      then show ?thesis
        using True d(2) r(2-4)
        by (cases us rule: rev_cases; cases vs)
          (simp_all add: level_without_order_def visible_lots_hidden lv Let_def checked_sub_def)
    qed
    moreover have "level_of ?R' ?q' = Some ?level'" if "us @ vs \<noteq> []"
      using that m' xd d(1) q(1)
      by (cases us; cases vs) (auto simp: level_of_def lv)
    ultimately show thesis
      by (rule that) (simp_all add: lv tu)
  next
    case False
    then have xd: "x \<in> set (fst q)"
      using kind by simp
    then obtain d1 d2 where ds: "fst q = d1 @ x # d2"
      by (auto simp: in_set_conv_decomp)
    have "us @ x # vs = d1 @ x # (d2 @ snd q)"
      using q(1) by (simp add: members_def ds)
    moreover have "x \<notin> set d1" "x \<notin> set (d2 @ snd q)"
      using q(2) by (auto simp: members_def ds)
    ultimately have uv: "us = d1" "vs = d2 @ snd q"
      using x by (auto simp: append_Cons_eq_iff)
    have d: "removeAll x (fst q) = d1 @ d2" "x \<notin> set d1" "x \<notin> set d2"
      using x by (simp_all add: ds uv)
    have st: "shown_total R (fst q) = displayed r + shown_total ?R' (d1 @ d2)"
      using d r(1) by (simp add: ds)
    have dt: "last_or None (fst q) = Some x \<longleftrightarrow> d2 = []"
      using d by (auto simp: ds last_or_def)
    let ?level' = "level\<lparr>level_head := (if us = [] \<and> vs \<noteq> [] then hd vs else level_head level),
      level_tail := (if vs = [] \<and> us \<noteq> [] then List.last us else level_tail level),
      displayed_tail := (if d2 = [] then last_or None us else displayed_tail level),
      total_quantity := shown_total ?R' (d1 @ d2), order_count := length (us @ vs),
      visible_order_count := length (d1 @ d2), level_event_units := total_units ?R' (us @ vs)\<rparr>"
    have "level_without_order r (units r) level = Some (us @ vs = [], ?level')"
    proof -
      have "checked_sub (shown_total R (fst q)) (displayed r) = Some (shown_total ?R' (d1 @ d2))"
          "checked_sub (length (members q)) 1 = Some (length (us @ vs))"
          "checked_sub (length (fst q)) 1 = Some (length (d1 @ d2))"
          "checked_sub (total_units R (members q)) (units r) = Some (total_units ?R' (us @ vs))"
        using st counts tu by (simp_all add: ds)
      then show ?thesis
        using False dt r(2-4)
        by (cases us rule: rev_cases; cases vs)
          (simp_all add: level_without_order_def visible_lots_shown lv Let_def checked_sub_def)
    qed
    moreover have "level_of ?R' ?q' = Some ?level'" if "us @ vs \<noteq> []"
    proof -
      have "last_or None (d1 @ d2) = (if d2 = [] then last_or None us else last_or None (fst q))"
        by (simp add: uv ds last_or_def)
      then show ?thesis
        using that m' d(1) q(1) by (cases us; cases vs) (auto simp: level_of_def lv)
    qed
    ultimately show thesis
      by (rule that) (simp_all add: lv tu)
  qed
qed

lemma indexes_rep_delete:
  assumes "core_rep b S" "spec_orders S x = Some r" "order_id r' = x" "order_expires_at r' = order_expires_at r"
    "expiries b' = expiries b"
  obtains e where "remove_expiry r' b' = Some (b'\<lparr>expiries := e\<rparr>)" "index_ok e"
    "index_maximum e = max_active_orders (limits b)" "\<forall>k. index_get e k = expiry_entry (spec_orders (spec_delete x S)) k"
proof -
  have i: "index_ok (expiries b')" "index_maximum (expiries b') = max_active_orders (limits b)"
      "\<forall>k. index_get (expiries b') k = expiry_entry (spec_orders S) k"
    using assms(1,5) by (auto simp: core_rep_def indexes_rep_def)
  obtain e where e: "remove_expiry r' b' = Some (b'\<lparr>expiries := e\<rparr>)" "index_ok e" "index_maximum e = index_maximum (expiries b')"
      "\<forall>k. index_get e k = expiry_entry ((spec_orders S)(x := None)) k"
    by (rule remove_expiry_correct [OF i(1,3) assms(2,3,4)]) (rule that)
  then show thesis
    using that [of e] i(2) by (simp add: spec_delete_def)
qed

theorem remove_preserving_at_correct:
  assumes core: "core_rep b S" and r: "spec_orders S x = Some r" and stop: "stop r = None"
  obtains b' n where "remove_order_preserving_account_index_at x (order_price r) b = Some (n, b')"
    "orders b x = Some n" "core_rep b' (spec_delete x S)" "book_rest b' = book_rest b"
    "account_orders b' = account_orders b"
    "fifo.relinked ((orders b)(x := None)) (orders b') (set (members (queue S (order_side r) (order_price r))))"
proof -
  let ?s = "order_side r" and ?p = "order_price r" and ?R = "spec_orders S" and ?R' = "(spec_orders S)(x := None)"
  let ?q = "queue S ?s ?p" and ?l = "levels b (order_side r)"
  have ok: "orders_ok S" "queues_ok S" "levels_rep b S" "indexes_rep b S"
    using core by (auto simp: core_rep_def)
  have rid: "order_id r = x" "order_wf r"
    using ok(1) r by (auto simp: orders_ok_def)
  obtain n where n: "orders b x = Some n" "strip n = r"
    using core_orders(1) [OF core, of x] r by (cases "orders b x") auto
  have nf: "order_id n = x" "order_side n = ?s" "order_price n = ?p" "stop n = None" "order_wf n"
      "order_expires_at n = order_expires_at r" "order_display n = order_display r" "units n = units r"
    using rid stop order_wf_strip [of n] units_strip [of n] by (auto simp: n(2) [symmetric])
  note qf = core_queue_facts [OF core, of ?s ?p]
  have cls: "rests S ?s ?p (is_hidden (order_display r)) x"
    using r stop by (simp add: rests_def)
  then have xq: "x \<in> set (members ?q)"
    using qf(3) by (cases "is_hidden (order_display r)") auto
  then obtain us vs where uv: "members ?q = us @ x # vs"
    by (auto simp: in_set_conv_decomp)
  have lok: "levels_ok ?l" "levels_side ?l = ?s" "index_maximum (by_price ?l) = max_price_levels_per_side (limits b)"
    using ok(3) by (auto simp: levels_rep_def)
  have "fifo.seg (orders b) None (us @ x # vs) None" "distinct (us @ x # vs)"
    using qf(1,2) by (simp_all add: uv)
  note sd = this
  have links: "previous n = last_or None us" "next_order n = hd_or None vs"
    using fifo.seg_node [OF sd(1)] n(1) by auto
  obtain h1 h2 where h: "fifo.link_next (previous n) (next_order n) ((orders b)(x := None)) = Some h1"
    "fifo.link_prev (next_order n) (previous n) h1 = Some h2" "fifo.seg h2 None (us @ vs) None"
    "fifo.relinked ((orders b)(x := None)) h2 (set us \<union> set vs)"
    by (rule fifo.splice_out [OF sd n(1), of "(orders b)(x := None)"]) (auto intro: that)
  have hr: "fifo.relinked ((orders b)(x := None)) h2 (set (members ?q))"
    by (rule fifo.relinked_mono [OF h(4)]) (auto simp: uv)
  obtain e where e: "remove_expiry n (b\<lparr>orders := (orders b)(x := None)\<rparr>) =
        Some (b\<lparr>orders := (orders b)(x := None)\<rparr>\<lparr>expiries := e\<rparr>)" "index_ok e"
      "index_maximum e = max_active_orders (limits b)" "\<forall>k. index_get e k = expiry_entry (spec_orders (spec_delete x S)) k"
    by (rule indexes_rep_delete [OF core r nf(1,6), of "b\<lparr>orders := (orders b)(x := None)\<rparr>"]) (simp, rule that)
  let ?b2 = "b\<lparr>expiries := e, orders := h2\<rparr>"
  have "level_of ?R ?q \<noteq> None"
    by (simp add: level_of_def uv)
  then obtain level where lv: "level_of ?R ?q = Some level"
    by blast
  then have lg: "levels_get ?l ?p = Some level"
    using qf(4) by simp
  have kind: "if is_hidden (order_display n) then x \<in> set (snd ?q) else x \<in> set (fst ?q)"
    using ok(2) cls by (cases "is_hidden (order_display r)") (simp_all add: queues_ok_def nf(7))
  have rn: "?R x = Some (strip n)"
    by (simp add: r n(2))
  obtain level' where level': "level_without_order n (units n) level = Some (us @ vs = [], level')"
    "us @ vs \<noteq> [] \<Longrightarrow> level_of ?R' (removeAll x (fst ?q), removeAll x (snd ?q)) = Some level'"
    "level_event_units level' + units n = level_event_units level"
    by (rule level_without_order_correct [OF lv uv qf(2) kind rn nf(1) links]) (rule that)
  have le: "level_event_units level \<le> side_event_units ?l"
    using index_sum_ge [of "by_price ?l" ?p level level_event_units] lok(1) lg
    by (simp add: levels_ok_def levels_get_def)
  have fits: "fits_u128 (side_event_units ?l - level_event_units level + level_event_units level')"
  proof (rule fits_u128_mono)
    show "fits_u128 (side_event_units ?l)"
      using lok(1) unfolding levels_ok_def by blast
  qed (use le level'(3) in linarith)
  have up: "levels_ok (levels ?b2 ?s)" "levels_get (levels ?b2 ?s) ?p = Some level"
      "level_without_order n (units n) level = Some (us @ vs = [], level')"
      "fits_u128 (side_event_units (levels ?b2 ?s) - level_event_units level + level_event_units level')"
    using lok(1) lg level'(1) fits by simp_all
  obtain l1 where l1: "update_level ?s ?p (level_without_order n (units n)) ?b2 = Some (us @ vs = [], set_levels ?s l1 ?b2)"
    "levels_ok l1" "levels_side l1 = levels_side (levels ?b2 ?s)" "levels_get l1 = (levels_get (levels ?b2 ?s))(?p \<mapsto> level')"
    "index_maximum (by_price l1) = index_maximum (by_price (levels ?b2 ?s))"
    by (rule update_level_correct [where f = "level_without_order n (units n)", OF up]) (rule that)
  have spec: "spec_orders (spec_delete x S) = ?R'"
      "queue (spec_delete x S) ?s ?p = (removeAll x (fst ?q), removeAll x (snd ?q))"
    by (simp_all add: spec_delete_def)
  have m': "members (queue (spec_delete x S) ?s ?p) = us @ vs"
    using sd(2) by (simp add: members_delete uv removeAll_id)
  obtain l' where l': "(if us @ vs = [] then do {
         (removed, l) \<leftarrow> remove_by_handle l1 ?p;
         assert_that (removed \<noteq> None);
         Some (n, set_levels ?s l (set_levels ?s l1 ?b2))
       } else Some (n, set_levels ?s l1 ?b2)) = Some (n, set_levels ?s l' ?b2)"
    "levels_ok l'" "levels_side l' = ?s" "index_maximum (by_price l') = index_maximum (by_price ?l)"
    "levels_get l' = (levels_get ?l)(?p := level_of ?R' (queue (spec_delete x S) ?s ?p))"
  proof (cases "us @ vs = []")
    case True
    then have none: "level_of ?R' (queue (spec_delete x S) ?s ?p) = None"
      by (simp add: level_of_def m')
    have "levels_get l1 ?p = Some level'"
      by (simp add: l1(4))
    then obtain l2 where "remove_by_handle l1 ?p = Some (Some level', l2)" "levels_ok l2" "levels_side l2 = levels_side l1"
      "levels_get l2 = (levels_get l1)(?p := None)" "index_maximum (by_price l2) = index_maximum (by_price l1)"
      using remove_by_handle_correct [OF l1(2)] by metis
    then show thesis
      using that [of l2] True l1(3-5) lok(2) none by (cases ?s) simp_all
  next
    case False
    then show thesis
      by (intro that [of l1]) (use l1 lok(2) level'(2) in \<open>auto simp: spec(2)\<close>)
  qed
  let ?b' = "set_levels ?s l' ?b2"
  have "levels (set_levels ?s l1 ?b2) ?s = l1"
    by (simp add: levels_set_levels)
  then have run: "remove_order_preserving_account_index_at x ?p b = Some (n, ?b')"
    using h(1,2) e(1) l1(1) l'(1) nf(2,4,5)
    by (auto simp add: remove_order_preserving_account_index_at_def n(1) Let_def modify_optional_fifo
        simp del: not_None_eq split: if_splits)
  have lvr: "levels_rep ?b' (spec_delete x S)"
  proof (rule levels_rep_change [OF ok(3) _ _ l'(2-4)])
    show "levels_get l' = (levels_get ?l)(?p := level_of (spec_orders (spec_delete x S)) (queue (spec_delete x S) ?s ?p))"
      by (simp add: l'(5) spec(1))
    show "level_of (spec_orders (spec_delete x S)) (queue (spec_delete x S) t q) = level_of ?R (queue S t q)"
      if "(t, q) \<noteq> (?s, ?p)" for t q
    proof -
      have "x \<notin> set (members (queue S t q))"
        using that cls by (auto simp: rests_members [OF ok(2)] dest: rests_unique)
      moreover from this have "queue (spec_delete x S) t q = queue S t q"
        by (simp add: spec_delete_def members_def prod_eq_iff)
      ultimately show ?thesis
        by (simp add: spec(1) level_of_upd)
    qed
  qed (simp_all add: levels_set_levels)
  have stops: "stop_entry side ?R' k = stop_entry side ?R k" for side k
    using r stop by (auto simp: stop_entry_upd stop_entry_def split: prod.splits)
  have ix: "indexes_rep ?b' (spec_delete x S)"
    using ok(4) e(2-4) by (simp add: indexes_rep_def spec stops)
  have "core_rep ?b' (spec_delete x S)"
    by (rule core_rep_delete [OF core r, where h = h2])
      (use hr h(3) sd(2) stop lvr ix in \<open>simp_all add: uv removeAll_id\<close>)
  then show thesis
    using that [of n ?b'] run n(1) hr by simp
qed

section \<open>An order leaves its account\<close>

lemma account_remove_correct:
  assumes "account_side i side = side_index_of R (us @ x # vs)" "distinct (us @ x # vs)" "R x = Some r"
  shows "account_remove i side x (last_or None us) (hd_or None vs) (units r) =
    Some (set_account_side side (side_index_of (R(x := None)) (us @ vs)) i)"
proof -
  let ?T = "total_units (R(x := None)) (us @ vs)"
  have t: "total_units R (us @ x # vs) = units r + ?T"
    using assms(2,3) by simp
  have old: "account_side i side = \<lparr>account_head = hd_or (Some x) us, account_tail = last_or (Some x) vs,
      account_order_count = Suc (length (us @ vs)), account_event_units = units r + ?T\<rparr>"
    unfolding assms(1) t [symmetric] by (simp add: side_index_of_def)
  have new: "side_index_of (R(x := None)) (us @ vs) = \<lparr>account_head = hd_or (hd_or None vs) us,
      account_tail = last_or (last_or None us) vs, account_order_count = length (us @ vs), account_event_units = ?T\<rparr>"
    by (simp add: side_index_of_def)
  have heads: "hd_or (Some x) us = (if us = [] then Some x else hd_or (hd_or None vs) us)"
      "last_or (Some x) vs = (if vs = [] then Some x else last_or (last_or None us) vs)"
    by (simp_all add: hd_or_def last_or_def split: list.split)
  have empties: "hd_or (hd_or None vs) us = None \<longleftrightarrow> us = [] \<and> vs = []"
      "last_or (last_or None us) vs = None \<longleftrightarrow> us = [] \<and> vs = []"
    by (simp_all add: hd_or_def last_or_def split: list.split)
  show ?thesis
    unfolding account_remove_def old new heads
    by (simp add: hd_or_eq_None last_or_eq_None checked_sub_def empties)
qed

lemma account_of_drop:
  assumes "Some i = account_of R xs" "\<And>t. t \<noteq> s \<Longrightarrow> side_index_of R' (xs t) = side_index_of R (xs t)"
  shows "(if account_is_empty (set_account_side s (side_index_of R' ys) i) then None
          else Some (set_account_side s (side_index_of R' ys) i)) = account_of R' (xs(s := ys))"
  using assms(1) assms(2) [of "opposite s"]
  by (cases s) (auto simp: account_of_def account_is_empty_def side_index_of_def split: if_splits)

lemma remove_account_membership_correct:
  assumes acct: "acct_rep b S" "core_rep b S" and r: "spec_orders S x = Some r" and n: "orders b x = Some n"
    and b1: "fifo.relinked ((orders b)(x := None)) (orders b1) A" "account_orders b1 = account_orders b"
      "core_rep b1 (spec_delete x S)"
  obtains b' where "remove_account_membership n b1 = Some b'" "represents b' (spec_delete x S)"
    "book_rest b' = book_rest b1"
proof -
  let ?a = "order_account_id r" and ?s = "order_side r" and ?R = "spec_orders S" and ?S = "spec_delete x S"
  let ?l = "account_list S ?a ?s" and ?R' = "(spec_orders S)(x := None)"
  have ok: "orders_ok S" "queues_ok S" "accounts_ok S"
    using acct by (simp_all add: acct_rep_def core_rep_def)
  have sn: "strip n = r"
    using core_orders(1) [OF acct(2), of x] n r by simp
  have wf: "order_wf n" "order_id n = x"
    using ok(1) r order_wf_strip [of n] strip_simps(1) [of n] unfolding orders_ok_def sn by metis+
  have nf: "order_account_id n = ?a" "order_side n = ?s" "units n = units r"
    using units_strip [of n] by (simp_all add: sn [symmetric])
  note facts = acct_facts [OF acct, of ?a ?s]
  have own: "owned S ?a ?s x"
    using r by (simp add: owned_def)
  then have "x \<in> set ?l"
    using facts(3) by simp
  then obtain us vs where uv: "?l = us @ x # vs"
    by (auto simp: in_set_conv_decomp)
  have d: "distinct (us @ x # vs)"
    using facts(2) by (simp add: uv)
  let ?h = "(orders b1)(x \<mapsto> n)"
  have "fifo.relinked (((orders b)(x := None))(x \<mapsto> n)) ?h A"
    by (rule fifo_relinked_upd [OF b1(1)])
  moreover have "((orders b)(x := None))(x \<mapsto> n) = orders b"
    using n by (simp add: fun_eq_iff)
  ultimately have link: "fifo.relinked (orders b) ?h A"
    by simp
  have seg: "acct.seg ?h None (us @ x # vs) None"
    using fifo_relinked_acct_seg [OF link facts(1)] by (simp add: uv)
  have links: "account_previous n = last_or None us" "account_next n = hd_or None vs"
    using acct.seg_node [OF seg] by auto
  obtain g h where h: "acct.link_next (account_previous n) (account_next n) (orders b1) = Some g"
    "acct.link_prev (account_next n) (account_previous n) g = Some h" "acct.seg h None (us @ vs) None"
    "acct.relinked (orders b1) h (set us \<union> set vs)"
    by (rule acct.splice_out [OF seg d, of n "orders b1"]) (simp, simp, rule that)
  have "account_of ?R (account_list S ?a) \<noteq> None"
    using uv by (cases ?s) (auto simp: account_of_def)
  then obtain i where i: "account_orders b ?a = Some i" "Some i = account_of ?R (account_list S ?a)"
    using acct_index [OF acct(1), of ?a] by auto
  have side: "account_side i ?s = side_index_of ?R (us @ x # vs)"
    using account_index_of(1) [OF acct_index [OF acct(1), of ?a], of ?s] i(1) by (simp add: uv)
  let ?i = "set_account_side ?s (side_index_of ?R' (us @ vs)) i"
  have rm: "account_remove i ?s x (account_previous n) (account_next n) (units r) = Some ?i"
    unfolding links by (rule account_remove_correct [OF side d r])
  let ?b' = "b1\<lparr>orders := h, account_orders := (account_orders b)(?a := if account_is_empty ?i then None else Some ?i)\<rparr>"
  have run: "remove_account_membership n b1 = Some ?b'"
    using h(1,2) i(1) rm wf
    by (simp add: remove_account_membership_def modify_optional_acct b1(2) nf)
  have core': "core_rep ?b' ?S"
    by (rule core_rep_acct [OF b1(3) h(4)])
  have xl: "x \<notin> set (account_list S c t)" if "(c, t) \<noteq> (?a, ?s)" for c t
    using that own acct_facts(3) [OF acct, of c t] by (auto dest: owned_unique)
  have lists: "account_list ?S c t = (if (c, t) = (?a, ?s) then us @ vs else account_list S c t)" for c t
    using xl [of c t] d by (auto simp: spec_delete_def uv)
  have "acct.seg h None (account_list ?S c t) None" for c t
  proof (cases "(c, t) = (?a, ?s)")
    case False
    have "(set us \<union> set vs) \<inter> set (account_list S c t) = {}"
      using False facts(3) acct_facts(3) [OF acct, of c t] by (auto simp: uv dest: owned_unique)
    moreover have "acct.seg (orders b1) None (account_list S c t) None"
      using fifo_relinked_acct_seg [OF link acct_facts(1) [OF acct, of c t]] xl [OF False] by (simp add: acct.seg_frame)
    ultimately show ?thesis
      using acct.relinked_seg [OF h(4)] False by (auto simp: lists)
  qed (simp add: lists h(3))
  moreover have "account_orders ?b' c = account_of (spec_orders ?S) (account_list ?S c)" for c
  proof (cases "c = ?a")
    case True
    have "account_of ?R' ((account_list S ?a)(?s := us @ vs)) = (if account_is_empty ?i then None else Some ?i)"
      by (rule account_of_drop [OF i(2), symmetric]) (use xl in \<open>simp add: side_index_of_upd\<close>)
    moreover have "(account_list S ?a)(?s := us @ vs) = account_list ?S ?a"
      by (auto simp: lists)
    ultimately show ?thesis
      using True by (simp add: spec_delete_def)
  next
    case False
    have "account_of ?R' (account_list S c) = account_of ?R (account_list S c)"
      using False xl by (simp add: account_of_def side_index_of_upd)
    moreover have "account_list ?S c = account_list S c"
      using False by (auto simp: lists)
    ultimately show ?thesis
      using False acct_index [OF acct(1), of c] by (simp add: spec_delete_def)
  qed
  ultimately have "acct_rep ?b' ?S"
    using spec_delete_ok(3) [OF ok] by (simp add: acct_rep_def)
  then show thesis
    using that [OF run] core' by (simp add: represents_def)
qed

lemma levels_handle_of:
  assumes "core_rep b S" "spec_orders S x = Some r" "stop r = None"
  shows "levels_handle (levels b (order_side r)) (order_price r) = Some (order_price r)"
proof -
  have "rests S (order_side r) (order_price r) (is_hidden (order_display r)) x"
    using assms(2,3) by (simp add: rests_def)
  then have "x \<in> set (members (queue S (order_side r) (order_price r)))"
    using assms(1) by (cases "is_hidden (order_display r)") (auto simp: core_rep_def rests_members)
  then have "level_of (spec_orders S) (queue S (order_side r) (order_price r)) \<noteq> None"
    by (auto simp: level_of_def)
  then show ?thesis
    using core_queue_facts(4) [OF assms(1)] by (auto simp: levels_handle_def levels_get_def)
qed

theorem remove_order_at_level_correct:
  assumes rep: "represents b S" and r: "spec_orders S x = Some r" and stop: "stop r = None"
  obtains b' n where "remove_order_at_level x (order_price r) b = Some (n, b')" "strip n = r"
    "represents b' (spec_delete x S)" "book_rest b' = book_rest b"
proof -
  have core: "core_rep b S" and acct: "acct_rep b S"
    using rep by (simp_all add: represents_def)
  obtain b1 n where b1: "remove_order_preserving_account_index_at x (order_price r) b = Some (n, b1)"
    "orders b x = Some n" "core_rep b1 (spec_delete x S)" "book_rest b1 = book_rest b"
    "account_orders b1 = account_orders b"
    "fifo.relinked ((orders b)(x := None)) (orders b1) (set (members (queue S (order_side r) (order_price r))))"
    by (rule remove_preserving_at_correct [OF core r stop]) (rule that)
  obtain b' where "remove_account_membership n b1 = Some b'" "represents b' (spec_delete x S)"
    "book_rest b' = book_rest b1"
    by (rule remove_account_membership_correct [OF acct core r b1(2,6,5,3)]) (rule that)
  moreover have "strip n = r"
    using core_orders(1) [OF core, of x] b1(2) r by simp
  ultimately show thesis
    using that b1(1,4) by (simp add: remove_order_at_level_def)
qed

end
