(* ===== verification/BookFills.thy ===== *)
theory BookFills
  imports BookUpdates
begin

text \<open>
  Dormant stops and fills: registering and removing a stop order, removing any order, and the three ways in
  which a trade changes the resting order it meets (removal, reduction, refresh of a reserve order at the
  end of the displayed class), each against the operations of the abstract book.
\<close>

section \<open>Dormant stops\<close>

declare split_paired_All [simp del] split_paired_Ex [simp del]

definition sell_key :: "BuyStopKey \<Rightarrow> SellStopKey" where
  "sell_key k = (Reverse (fst k), snd k)"

lemma inj_sell_key: "inj sell_key" and surj_sell_key: "surj sell_key"
proof -
  show "inj sell_key"
    by (auto simp: inj_def sell_key_def)
  have "k = sell_key (unreverse (fst k), snd k)" for k
    by (cases k; cases "fst k") (simp add: sell_key_def)
  then show "surj sell_key"
    unfolding surj_def by blast
qed

definition stop_index_rep :: "Side \<Rightarrow> (BuyStopKey \<Rightarrow> 'k :: linorder) \<Rightarrow> ('k, OrderId) Index \<Rightarrow> (OrderId \<rightharpoonup> RestingOrder) \<Rightarrow> bool" where
  "stop_index_rep side f m R \<longleftrightarrow> index_ok m \<and> (\<forall>k. index_get m (f k) = stop_entry side R k)"

lemma stop_index_room:
  assumes "stop_index_rep side f m R" "inj f" "surj f" "finite (dom R)"
  shows "index_len m \<le> card (dom R)"
proof -
  have "dom (index_get m) = f ` dom (stop_entry side R)"
  proof (rule set_eqI)
    fix k
    obtain i where "k = f i"
      using assms(3) by blast
    then show "k \<in> dom (index_get m) \<longleftrightarrow> k \<in> f ` dom (stop_entry side R)"
      using assms(1,2) by (auto simp: stop_index_rep_def inj_def dom_def)
  qed
  then have "card (dom (index_get m)) = card (dom (stop_entry side R))"
    using assms(2) by (simp add: card_image inj_on_subset [OF assms(2) subset_UNIV])
  moreover have "inj_on (\<lambda>k. snd (snd k)) (dom (stop_entry side R))"
    by (auto simp: inj_on_def stop_entry_def split: option.splits if_splits)
  moreover have "(\<lambda>k. snd (snd k)) ` dom (stop_entry side R) \<subseteq> dom R"
    by (auto simp: stop_entry_def split: option.splits)
  ultimately show ?thesis
    using card_inj_on_le [of "\<lambda>k. snd (snd k)" "dom (stop_entry side R)" "dom R"] assms(1,4)
    by (simp add: index_len_dom stop_index_rep_def)
qed

lemma stop_index_insert:
  assumes rep: "stop_index_rep (order_side r) f m R" and f: "inj f" "surj f" and fin: "finite (dom R)"
    and room: "card (dom R) < index_maximum m" and fresh: "R (order_id r) = None"
    and s: "stop r' = Some s" "order_side r' = order_side r"
  obtains e where "index_insert m (f (stop_trigger_price s, priority_sequence s, order_id r)) (order_id r) = Some (None, e)"
    "stop_index_rep (order_side r) f e (R(order_id r \<mapsto> r'))" "index_maximum e = index_maximum m"
proof -
  let ?k = "(stop_trigger_price s, priority_sequence s, order_id r)"
  have ok: "index_ok m" "\<And>k. index_get m (f k) = stop_entry (order_side r) R k"
    using rep by (simp_all add: stop_index_rep_def)
  have none: "index_get m (f ?k) = None"
    using fresh by (simp add: ok(2) stop_entry_def)
  have "index_len m < index_maximum m"
    using stop_index_room [OF rep f fin] room by simp
  from index_insert_Some [OF ok(1) disjI2 [OF this], of "f ?k" "order_id r"] obtain e where
    e: "index_insert m (f ?k) (order_id r) = Some (index_get m (f ?k), e)" "index_ok e"
      "index_get e = (index_get m)(f ?k \<mapsto> order_id r)" "index_maximum e = index_maximum m"
    by metis
  have "index_get e (f k) = stop_entry (order_side r) (R(order_id r \<mapsto> r')) k" for k
    using s fresh by (cases k) (auto simp: e(3) ok(2) stop_entry_def inj_eq [OF f(1)])
  then show thesis
    using that [of e] e none by (simp add: stop_index_rep_def)
qed

lemma stop_index_remove:
  assumes rep: "stop_index_rep (order_side r) f m R" and f: "inj f" and r: "R x = Some r" "stop r = Some s"
  obtains e where "index_remove m (f (stop_trigger_price s, priority_sequence s, x)) = (Some x, e)"
    "stop_index_rep (order_side r) f e (R(x := None))" "index_maximum e = index_maximum m"
proof -
  let ?k = "(stop_trigger_price s, priority_sequence s, x)"
  have ok: "index_ok m" "\<And>k. index_get m (f k) = stop_entry (order_side r) R k"
    using rep by (simp_all add: stop_index_rep_def)
  obtain old e where rm: "index_remove m (f ?k) = (old, e)"
    by fastforce
  note e = index_remove_facts [OF ok(1) rm]
  have "old = Some x"
    using r by (simp add: e(1) ok(2) stop_entry_def)
  moreover have "index_get e (f k) = stop_entry (order_side r) (R(x := None)) k" for k
    using r by (cases k) (auto simp: e(3) ok(2) stop_entry_def inj_eq [OF f])
  ultimately show thesis
    using that [of e] rm e(2,4) by (simp add: stop_index_rep_def)
qed

text \<open>A change of one order that is a stop on one side leaves the index of the other side alone.\<close>

lemma stop_index_other:
  assumes "stop_index_rep side f m R" "R x = None \<or> order_side (the (R x)) \<noteq> side"
    and "v = None \<or> order_side (the v) \<noteq> side"
  shows "stop_index_rep side f m (R(x := v))"
proof -
  have "stop_entry side (R(x := v)) k = stop_entry side R k" for k
    using assms(2,3) by (cases k) (auto simp: stop_entry_def split: option.splits)
  then show ?thesis
    using assms(1) by (simp add: stop_index_rep_def)
qed

lemma indexes_rep_iff:
  "indexes_rep b S \<longleftrightarrow>
     index_ok (expiries b) \<and> index_maximum (expiries b) = max_active_orders (limits b) \<and>
     (\<forall>k. index_get (expiries b) k = expiry_entry (spec_orders S) k) \<and>
     stop_index_rep Buy id (buy_stops b) (spec_orders S) \<and> index_maximum (buy_stops b) = max_active_orders (limits b) \<and>
     stop_index_rep Sell sell_key (sell_stops b) (spec_orders S) \<and> index_maximum (sell_stops b) = max_active_orders (limits b)"
  unfolding indexes_rep_def stop_index_rep_def by (auto simp: sell_key_def split_paired_All)

definition stop_side_rep :: "Side \<Rightarrow> OrderBook \<Rightarrow> (OrderId \<rightharpoonup> RestingOrder) \<Rightarrow> bool" where
  "stop_side_rep side b R \<longleftrightarrow>
     (case side of
        Buy \<Rightarrow> stop_index_rep Buy id (buy_stops b) R \<and> index_maximum (buy_stops b) = max_active_orders (limits b)
      | Sell \<Rightarrow> stop_index_rep Sell sell_key (sell_stops b) R \<and> index_maximum (sell_stops b) = max_active_orders (limits b))"

lemma stop_side_rep_upd [simp]:
  "stop_side_rep t (b\<lparr>orders := h\<rparr>) R = stop_side_rep t b R" "stop_side_rep t (b\<lparr>expiries := e\<rparr>) R = stop_side_rep t b R"
  "stop_side_rep t (b\<lparr>account_orders := ao\<rparr>) R = stop_side_rep t b R"
  by (cases t; simp add: stop_side_rep_def)+

lemma indexes_rep_sides:
  "indexes_rep b S \<longleftrightarrow>
     index_ok (expiries b) \<and> index_maximum (expiries b) = max_active_orders (limits b) \<and>
     (\<forall>k. index_get (expiries b) k = expiry_entry (spec_orders S) k) \<and>
     stop_side_rep Buy b (spec_orders S) \<and> stop_side_rep Sell b (spec_orders S)"
  by (auto simp: indexes_rep_iff stop_side_rep_def)

text \<open>The queues do not see a dormant stop.\<close>

lemma dormant_queue:
  assumes "queues_ok S" "stop (the (spec_orders S x)) \<noteq> None \<or> spec_orders S x = None"
  shows "x \<notin> set (members (queue S s p))"
  using assms by (auto simp: rests_members rests_def split: option.splits)

lemma levels_fun [simp]:
  "levels (b\<lparr>orders := h\<rparr>) = levels b" "levels (b\<lparr>expiries := e\<rparr>) = levels b"
  "levels (b\<lparr>buy_stops := bs\<rparr>) = levels b" "levels (b\<lparr>sell_stops := ss\<rparr>) = levels b"
  "levels (b\<lparr>account_orders := ao\<rparr>) = levels b"
  by (simp_all add: fun_eq_iff)

lemma insert_stop_correct:
  assumes sides: "\<And>t. stop_side_rep t b R" and fin: "finite (dom R)" and room: "card (dom R) < max_active_orders (limits b)"
    and fresh: "R (order_id r) = None" and r': "stop r' = Some s" "order_side r' = order_side r"
  obtains b' where "insert_stop r s b = Some b'" "orders b' = orders b" "limits b' = limits b" "levels b' = levels b"
    "expiries b' = expiries b" "account_orders b' = account_orders b" "book_rest b' = book_rest b"
    "\<And>t. stop_side_rep t b' (R(order_id r \<mapsto> r'))"
proof (cases "order_side r")
  case Buy
  have rep: "stop_index_rep (order_side r) id (buy_stops b) R" "card (dom R) < index_maximum (buy_stops b)"
    using sides [of Buy] room Buy by (simp_all add: stop_side_rep_def)
  obtain i where i: "index_insert (buy_stops b) (id (stop_trigger_price s, priority_sequence s, order_id r)) (order_id r) = Some (None, i)"
      "stop_index_rep (order_side r) id i (R(order_id r \<mapsto> r'))" "index_maximum i = index_maximum (buy_stops b)"
    by (rule stop_index_insert [OF rep(1) _ _ fin rep(2) fresh r']) (simp, simp, rule that)
  have "stop_index_rep Sell sell_key (sell_stops b) (R(order_id r \<mapsto> r'))"
    by (rule stop_index_other) (use sides [of Sell] fresh r' Buy in \<open>simp_all add: stop_side_rep_def\<close>)
  then have "stop_side_rep t (b\<lparr>buy_stops := i\<rparr>) (R(order_id r \<mapsto> r'))" for t
    using i sides [of Buy] sides [of Sell] Buy by (simp add: stop_side_rep_def split: Side.split)
  then show thesis
    by (intro that [of "b\<lparr>buy_stops := i\<rparr>"]) (use i(1) in \<open>simp_all add: insert_stop_def Buy\<close>)
next
  case Sell
  have rep: "stop_index_rep (order_side r) sell_key (sell_stops b) R" "card (dom R) < index_maximum (sell_stops b)"
    using sides [of Sell] room Sell by (simp_all add: stop_side_rep_def)
  obtain i where i: "index_insert (sell_stops b) (sell_key (stop_trigger_price s, priority_sequence s, order_id r)) (order_id r) = Some (None, i)"
      "stop_index_rep (order_side r) sell_key i (R(order_id r \<mapsto> r'))" "index_maximum i = index_maximum (sell_stops b)"
    by (rule stop_index_insert [OF rep(1) inj_sell_key surj_sell_key fin rep(2) fresh r']) (rule that)
  have "stop_index_rep Buy id (buy_stops b) (R(order_id r \<mapsto> r'))"
    by (rule stop_index_other) (use sides [of Buy] fresh r' Sell in \<open>simp_all add: stop_side_rep_def\<close>)
  then have "stop_side_rep t (b\<lparr>sell_stops := i\<rparr>) (R(order_id r \<mapsto> r'))" for t
    using i sides [of Buy] sides [of Sell] Sell by (simp add: stop_side_rep_def split: Side.split)
  then show thesis
    by (intro that [of "b\<lparr>sell_stops := i\<rparr>"]) (use i(1) in \<open>simp_all add: insert_stop_def Sell sell_key_def\<close>)
qed

lemma remove_stop_correct:
  assumes sides: "\<And>t. stop_side_rep t b R" and r: "R x = Some r" "stop r = Some s" and n: "order_side n = order_side r"
  obtains b' where "remove_stop n s x b = Some (n, b')" "orders b' = orders b" "limits b' = limits b" "levels b' = levels b"
    "expiries b' = expiries b" "account_orders b' = account_orders b" "book_rest b' = book_rest b"
    "\<And>t. stop_side_rep t b' (R(x := None))"
proof (cases "order_side r")
  case Buy
  have rep: "stop_index_rep (order_side r) id (buy_stops b) R"
    using sides [of Buy] Buy by (simp_all add: stop_side_rep_def)
  obtain i where i: "index_remove (buy_stops b) (id (stop_trigger_price s, priority_sequence s, x)) = (Some x, i)"
      "stop_index_rep (order_side r) id i (R(x := None))" "index_maximum i = index_maximum (buy_stops b)"
    by (rule stop_index_remove [OF rep _ r]) (simp, rule that)
  have "stop_index_rep Sell sell_key (sell_stops b) (R(x := None))"
    by (rule stop_index_other) (use sides [of Sell] r Buy in \<open>simp_all add: stop_side_rep_def\<close>)
  then have "stop_side_rep t (b\<lparr>buy_stops := i\<rparr>) (R(x := None))" for t
    using i sides [of Buy] sides [of Sell] Buy by (simp add: stop_side_rep_def split: Side.split)
  then show thesis
    by (intro that [of "b\<lparr>buy_stops := i\<rparr>"]) (use i(1) in \<open>simp_all add: remove_stop_def n Buy\<close>)
next
  case Sell
  have rep: "stop_index_rep (order_side r) sell_key (sell_stops b) R"
    using sides [of Sell] Sell by (simp_all add: stop_side_rep_def)
  obtain i where i: "index_remove (sell_stops b) (sell_key (stop_trigger_price s, priority_sequence s, x)) = (Some x, i)"
      "stop_index_rep (order_side r) sell_key i (R(x := None))" "index_maximum i = index_maximum (sell_stops b)"
    by (rule stop_index_remove [OF rep inj_sell_key r]) (rule that)
  have "stop_index_rep Buy id (buy_stops b) (R(x := None))"
    by (rule stop_index_other) (use sides [of Buy] r Sell in \<open>simp_all add: stop_side_rep_def\<close>)
  then have "stop_side_rep t (b\<lparr>sell_stops := i\<rparr>) (R(x := None))" for t
    using i sides [of Buy] sides [of Sell] Sell by (simp add: stop_side_rep_def split: Side.split)
  then show thesis
    by (intro that [of "b\<lparr>sell_stops := i\<rparr>"]) (use i(1) in \<open>simp_all add: remove_stop_def n Sell sell_key_def\<close>)
qed

theorem append_dormant_stop_correct:
  assumes rep: "represents b S" and fresh: "spec_orders S (order_id r) = None" and wf: "order_wf r" and r: "strip r = r"
    and stop: "stop r = Some s"
    and room: "card (dom (spec_orders S)) < max_active_orders (limits b)"
    and account_room: "account_orders b (order_account_id r) \<noteq> None \<or>
       card (dom (account_orders b)) < max_active_accounts (limits b)"
  obtains b' where "append_dormant_stop r b = Some b'" "represents b' (spec_insert r S)" "book_rest b' = book_rest b"
proof -
  let ?a = "order_account_id r" and ?s = "order_side r" and ?x = "order_id r"
  let ?l = "account_list S ?a ?s" and ?R = "spec_orders S" and ?R' = "(spec_orders S)(order_id r \<mapsto> strip r)"
  have core: "core_rep b S" and acct: "acct_rep b S"
    using rep by (simp_all add: represents_def)
  have ok: "queues_ok S" "finite (dom ?R)" "levels_rep b S" "indexes_rep b S"
    using core by (auto simp: core_rep_def orders_ok_def)
  have unlinked: "previous r = None" "next_order r = None" "account_previous r = None" "account_next r = None"
    using strip_simps(11-14) [of r] by (simp_all only: r)
  obtain h index where
    m: "append_account_membership r b =
       Some (r\<lparr>account_previous := last_or None ?l\<rparr>, b\<lparr>orders := h, account_orders := (account_orders b)(?a \<mapsto> index)\<rparr>)"
      "acct.relinked (orders b) h (set ?l)"
      "\<And>n. account_previous n = last_or None ?l \<Longrightarrow> account_next n = None \<Longrightarrow> acct.seg (h(order_id r \<mapsto> n)) None (?l @ [order_id r]) None"
      "\<And>c. ((account_orders b)(?a \<mapsto> index)) c = account_of (spec_orders (spec_insert r S)) (account_list (spec_insert r S) c)"
    by (rule append_account_membership_correct [OF acct core fresh wf unlinked(3,4) room]) (rule that)
  let ?r = "r\<lparr>account_previous := last_or None ?l\<rparr>"
  let ?b1 = "b\<lparr>orders := h, account_orders := (account_orders b)(?a \<mapsto> index)\<rparr>"
  have core1: "core_rep ?b1 S"
    by (rule core_rep_acct [OF core m(2)])
  have hx: "h ?x = None"
    using acct.relinked_dom [OF m(2), of ?x] core_orders(2) [OF core] fresh by simp
  let ?b2 = "?b1\<lparr>orders := h(?x \<mapsto> ?r)\<rparr>"
  have room1: "card (dom ?R) < max_active_orders (limits ?b1)"
    using room by simp
  have same: "order_id ?r = order_id r" "order_expires_at ?r = order_expires_at r" "expiries ?b2 = expiries ?b1"
    by simp_all
  obtain e where e: "insert_expiry ?r ?b2 = Some (?b2\<lparr>expiries := e\<rparr>)" "index_ok e"
      "index_maximum e = max_active_orders (limits ?b1)" "\<forall>k. index_get e k = expiry_entry (spec_orders (spec_insert r S)) k"
    by (rule indexes_rep_insert [OF core1 fresh same room1]) (rule that)
  let ?b3 = "?b2\<lparr>expiries := e\<rparr>"
  have sides: "stop_side_rep t b ?R" for t
    using ok(4) by (cases t) (simp_all add: indexes_rep_sides)
  have spec: "spec_orders (spec_insert r S) = ?R'" "\<And>t p. queue (spec_insert r S) t p = queue S t p"
    by (simp_all add: spec_insert_def stop)
  have r': "stop (strip r) = Some s" "order_side (strip r) = order_side r"
    by (simp_all add: stop)
  have p: "stop_side_rep t ?b3 ?R" "card (dom ?R) < max_active_orders (limits ?b3)" for t
    using sides [of t] room by simp_all
  have id: "insert_stop ?r s b' = insert_stop r s b'" for b'
    by (simp add: insert_stop_def cong: Side.case_cong)
  obtain b' where b': "insert_stop r s ?b3 = Some b'" "orders b' = orders ?b3" "limits b' = limits ?b3" "levels b' = levels ?b3"
    "expiries b' = expiries ?b3" "account_orders b' = account_orders ?b3" "book_rest b' = book_rest ?b3"
    "\<And>t. stop_side_rep t b' ?R'"
    by (rule insert_stop_correct [OF p(1) ok(2) p(2) fresh r']) (rule that)
  have "card (dom (orders b)) < max_active_orders (limits b)"
    using room by (simp add: core_orders(3) [OF core])
  then have run: "append_dormant_stop r b = Some b'"
    using m(1) e(1) hx b'(1) account_room
    by (simp add: append_dormant_stop_def stop id)
  have lv: "levels_rep b' (spec_insert r S)"
    using ok(3) b'(3,4) dormant_queue [OF ok(1), of ?x] fresh by (simp add: levels_rep_def spec level_of_upd)
  have ix: "indexes_rep b' (spec_insert r S)"
    using b'(3,5,8) e(2-4) by (simp add: indexes_rep_sides spec(1))
  have c: "core_rep b' (spec_insert r S)"
    by (rule core_rep_insert [OF core1 fresh wf, where h = h and n = ?r])
      (use room b'(2,3) lv ix stop unlinked in simp_all)
  have "acct_rep b' (spec_insert r S)"
    by (rule acct_rep_insert [OF acct core fresh wf m(2,3), where hf = h and n = ?r])
      (use b'(2,6) m(4) unlinked in simp_all)
  then show thesis
    using that [OF run] c b'(7) by (simp add: represents_def)
qed

theorem remove_dormant_correct:
  assumes core: "core_rep b S" and r: "spec_orders S x = Some r" and stop: "stop r = Some s"
  obtains b' n where "remove_dormant_stop_preserving_account_index x b = Some (n, b')" "orders b x = Some n"
    "core_rep b' (spec_delete x S)" "book_rest b' = book_rest b" "account_orders b' = account_orders b"
    "orders b' = (orders b)(x := None)"
proof -
  let ?R = "spec_orders S" and ?R' = "(spec_orders S)(x := None)"
  have ok: "orders_ok S" "queues_ok S" "levels_rep b S" "indexes_rep b S"
    using core by (auto simp: core_rep_def)
  obtain n where n: "orders b x = Some n" "strip n = r"
    using core_orders(1) [OF core, of x] r by (cases "orders b x") auto
  have nf: "order_id n = x" "order_side n = order_side r" "stop n = Some s" "order_expires_at n = order_expires_at r"
    using ok(1) r stop by (auto simp: n(2) [symmetric] orders_ok_def) (metis strip_simps(1))
  let ?b1 = "b\<lparr>orders := (orders b)(x := None)\<rparr>"
  have same: "expiries ?b1 = expiries b"
    by simp
  obtain e where e: "remove_expiry n ?b1 = Some (?b1\<lparr>expiries := e\<rparr>)" "index_ok e"
      "index_maximum e = max_active_orders (limits b)" "\<forall>k. index_get e k = expiry_entry (spec_orders (spec_delete x S)) k"
    by (rule indexes_rep_delete [OF core r nf(1,4) same]) (rule that)
  let ?b2 = "?b1\<lparr>expiries := e\<rparr>"
  have sides: "stop_side_rep t ?b2 ?R" for t
    using ok(4) by (cases t) (simp_all add: indexes_rep_sides)
  obtain b' where b': "remove_stop n s x ?b2 = Some (n, b')" "orders b' = orders ?b2" "limits b' = limits ?b2"
    "levels b' = levels ?b2" "expiries b' = expiries ?b2" "account_orders b' = account_orders ?b2"
    "book_rest b' = book_rest ?b2" "\<And>t. stop_side_rep t b' ?R'"
    by (rule remove_stop_correct [OF sides r stop nf(2)]) (rule that)
  have run: "remove_dormant_stop_preserving_account_index x b = Some (n, b')"
    using e(1) b'(1) by (simp add: remove_dormant_stop_preserving_account_index_def n(1) nf(3))
  have out: "x \<notin> set (members (queue S t p))" for t p
    by (rule dormant_queue [OF ok(2)]) (simp add: r stop)
  then have queues: "queue (spec_delete x S) t p = queue S t p" for t p
    by (simp add: spec_delete_def members_def prod_eq_iff)
  have spec: "spec_orders (spec_delete x S) = ?R'"
    by (simp add: spec_delete_def)
  have "levels_rep b' (spec_delete x S)"
    using ok(3) b'(3,4) out by (simp add: levels_rep_def spec queues level_of_upd)
  moreover have "indexes_rep b' (spec_delete x S)"
    using b'(3,5,8) e(2-4) by (simp add: indexes_rep_sides spec)
  ultimately have "core_rep b' (spec_delete x S)"
    by (intro core_rep_delete [OF core r, where h = "(orders b)(x := None)"]) (use b'(2,3) stop in simp_all)
  then show thesis
    using that [OF run n(1)] b'(2,6,7) by simp
qed

theorem remove_order_correct:
  assumes rep: "represents b S" and r: "spec_orders S x = Some r"
  obtains b' n where "remove_order x b = Some (n, b')" "strip n = r"
    "represents b' (spec_delete x S)" "book_rest b' = book_rest b"
proof -
  have core: "core_rep b S" and acct: "acct_rep b S"
    using rep by (simp_all add: represents_def)
  obtain m where m: "orders b x = Some m" "strip m = r"
    using core_orders(1) [OF core, of x] r by (cases "orders b x") auto
  then have stop_m: "stop m = stop r" "order_side m = order_side r" "order_price m = order_price r"
    by auto
  show thesis
  proof (cases "stop r")
    case None
    obtain b' n where b': "remove_order_at_level x (order_price r) b = Some (n, b')" "strip n = r"
      "represents b' (spec_delete x S)" "book_rest b' = book_rest b"
      by (rule remove_order_at_level_correct [OF rep r None]) (rule that)
    have "remove_order x b = Some (n, b')"
      using b'(1) levels_handle_of [OF core r None] m(1) None
      by (simp add: remove_order_def is_dormant_stop_def stop_m)
    then show thesis
      using that b'(2-4) by blast
  next
    case (Some s)
    obtain b1 n where b1: "remove_dormant_stop_preserving_account_index x b = Some (n, b1)" "orders b x = Some n"
      "core_rep b1 (spec_delete x S)" "book_rest b1 = book_rest b" "account_orders b1 = account_orders b"
      "orders b1 = (orders b)(x := None)"
      by (rule remove_dormant_correct [OF core r Some]) (rule that)
    have link: "fifo.relinked ((orders b)(x := None)) (orders b1) {}"
      by (simp add: b1(6))
    obtain b' where b': "remove_account_membership n b1 = Some b'" "represents b' (spec_delete x S)"
      "book_rest b' = book_rest b1"
      by (rule remove_account_membership_correct [OF acct core r b1(2) link b1(5,3)]) (rule that)
    have "remove_order x b = Some (n, b')"
      using b1(1) b'(1) m(1) Some by (simp add: remove_order_def is_dormant_stop_def stop_m)
    moreover have "strip n = r"
      using m b1(2) by simp
    ultimately show thesis
      using that b'(2,3) b1(4) by simp
  qed
qed

section \<open>One order is filled in place\<close>

text \<open>
  What the two ways of filling a resting order share: the order \<open>x\<close> gets new quantities, the queue of its
  level a new order of the same members, and the links follow.
\<close>

definition refilled :: "RestingOrder \<Rightarrow> RestingOrder \<Rightarrow> bool" where
  "refilled r r' \<longleftrightarrow> order_wf r' \<and> strip r' = r' \<and> order_id r' = order_id r \<and> order_account_id r' = order_account_id r \<and>
     order_side r' = order_side r \<and> order_price r' = order_price r \<and> order_display r' = order_display r \<and>
     stop r' = stop r \<and> order_expires_at r' = order_expires_at r"

definition requeued :: "BookSpec \<Rightarrow> BookSpec \<Rightarrow> OrderId \<Rightarrow> RestingOrder \<Rightarrow> RestingOrder \<Rightarrow> bool" where
  "requeued S S' x r r' \<longleftrightarrow>
     spec_orders S' = (spec_orders S)(x \<mapsto> r') \<and> account_list S' = account_list S \<and>
     (\<forall>s p. (s, p) \<noteq> (order_side r, order_price r) \<longrightarrow> queue S' s p = queue S s p) \<and>
     (let q = queue S (order_side r) (order_price r); q' = queue S' (order_side r) (order_price r)
      in distinct (members q') \<and> set (fst q') = set (fst q) \<and> set (snd q') = set (snd q))"

lemma requeued_ok:
  assumes "requeued S S' x r r'" "refilled r r'" "orders_ok S" "queues_ok S" "spec_orders S x = Some r"
  shows "orders_ok S'" "queues_ok S'" "accounts_ok S \<Longrightarrow> accounts_ok S'"
    "card (dom (spec_orders S')) = card (dom (spec_orders S))" "dom (spec_orders S') = dom (spec_orders S)"
proof -
  have S': "spec_orders S' = (spec_orders S)(x \<mapsto> r')" "account_list S' = account_list S"
    using assms(1) by (simp_all add: requeued_def)
  have Q: "distinct (members (queue S' s p)) \<and> set (fst (queue S' s p)) = set (fst (queue S s p)) \<and>
      set (snd (queue S' s p)) = set (snd (queue S s p))" for s p
    using assms(1,4) by (cases "(s, p) = (order_side r, order_price r)") (auto simp: requeued_def queues_ok_def Let_def)
  have f: "order_wf r'" "strip r' = r'" "order_id r' = order_id r" "order_account_id r' = order_account_id r"
      "order_side r' = order_side r" "order_price r' = order_price r" "order_display r' = order_display r" "stop r' = stop r"
    using assms(2) by (simp_all add: refilled_def)
  note ok = spec_fill_ok [OF assms(3,4,5) f S' Q]
  show "orders_ok S'" "queues_ok S'" "card (dom (spec_orders S')) = card (dom (spec_orders S))"
    by (fact ok)+
  show "accounts_ok S'" if "accounts_ok S"
    by (rule ok(3) [OF that])
  show "dom (spec_orders S') = dom (spec_orders S)"
    using assms(5) by (auto simp: S'(1))
qed

lemma core_rep_fill:
  assumes core: "core_rep b S" and r: "spec_orders S x = Some r" "stop r = None" "refilled r r'" and re: "requeued S S' x r r'"
    and h: "fifo.relinked (orders b) h (set (members (queue S (order_side r) (order_price r))))"
    and b': "orders b' = h(x \<mapsto> n)" "strip n = r'" "limits b' = limits b" "expiries b' = expiries b"
      "buy_stops b' = buy_stops b" "sell_stops b' = sell_stops b"
    and seg: "fifo.seg (orders b') None (members (queue S' (order_side r) (order_price r))) None"
    and levels: "levels_rep b' S'"
  shows "core_rep b' S'"
proof -
  let ?s = "order_side r" and ?p = "order_price r"
  let ?q = "queue S ?s ?p"
  have ok: "orders_ok S" "queues_ok S" and fit: "fits_usize (max_active_orders (limits b))"
    and card: "card (dom (spec_orders S)) \<le> max_active_orders (limits b)" and ix: "indexes_rep b S"
    and unlinked: "\<And>y m. orders b y = Some m \<Longrightarrow> stop m \<noteq> None \<Longrightarrow> previous m = None \<and> next_order m = None"
    using core by (auto simp: core_rep_def)
  have S': "spec_orders S' = (spec_orders S)(x \<mapsto> r')"
    using re by (simp add: requeued_def)
  note okS = requeued_ok [OF re r(3) ok r(1)]
  have rest_x: "rests S ?s ?p (is_hidden (order_display r)) x"
    using r by (simp add: rests_def)
  have strips: "map_option strip (orders b' y) = spec_orders S' y" for y
    using fifo_relinked_strip [OF h, of y] core_orders(1) [OF core, of y] by (simp add: b'(1,2) S')
  have segs: "fifo.seg (orders b') None (members (queue S' s p)) None" for s p
  proof (cases "(s, p) = (?s, ?p)")
    case False
    have e: "queue S' s p = queue S s p"
      using re False by (simp add: requeued_def)
    have dis: "set (members ?q) \<inter> set (members (queue S s p)) = {}" "x \<notin> set (members (queue S s p))"
      using False rest_x by (auto simp: rests_members [OF ok(2)] dest: rests_unique)
    from fifo.relinked_seg [OF h dis(1) core_queue_facts(1) [OF core]] show ?thesis
      using dis(2) by (simp add: e b'(1) fifo.seg_frame)
  qed (use seg in simp)
  have unl: "previous m = None \<and> next_order m = None" if m: "orders b' y = Some m" "stop m \<noteq> None" for y m
  proof -
    have "spec_orders S' y = Some (strip m)"
      using strips [of y] m(1) by simp
    then have "y \<noteq> x" "spec_orders S y = Some (strip m)"
      using m(2) r(2,3) by (auto simp: S' refilled_def split: if_splits)
    moreover from this have "y \<notin> set (members ?q)"
      using m(2) by (auto simp: rests_members [OF ok(2)] rests_def)
    ultimately have "orders b y = Some m"
      using h m(1) by (auto simp: b'(1) fifo.relinked_def)
    then show ?thesis
      using unlinked m(2) by blast
  qed
  have same: "stop r' = stop r" "order_expires_at r' = order_expires_at r" "order_side r' = order_side r"
    using r(3) by (simp_all add: refilled_def)
  have "expiry_entry (spec_orders S') k = expiry_entry (spec_orders S) k" for k
    using r(1) same by (cases k) (auto simp: expiry_entry_def S')
  moreover have "stop_entry side (spec_orders S') k = stop_entry side (spec_orders S) k" for side k
    using r same by (cases k) (auto simp: stop_entry_def S')
  ultimately have "indexes_rep b' S'"
    using ix by (simp add: indexes_rep_def b'(3-6))
  then show ?thesis
    using okS(1,2,4) card fit strips segs unl levels unfolding core_rep_def b'(3) by simp
qed

lemma acct_rep_fill:
  assumes acct: "acct_rep b S" "core_rep b S" and r: "spec_orders S x = Some r" "refilled r r'" and re: "requeued S S' x r r'"
    and h: "fifo.relinked (orders b) h A"
    and b': "orders b' = h(x \<mapsto> n')" "orders b x = Some n" "account_previous n' = account_previous n" "account_next n' = account_next n"
    and ao: "account_orders b' = (account_orders b)(order_account_id r := account_of (spec_orders S') (account_list S (order_account_id r)))"
  shows "acct_rep b' S'"
proof -
  have S': "spec_orders S' = (spec_orders S)(x \<mapsto> r')" "account_list S' = account_list S"
    using re by (simp_all add: requeued_def)
  have ok: "orders_ok S" "queues_ok S" "accounts_ok S"
    using acct by (simp_all add: acct_rep_def core_rep_def)
  have "acct.seg (orders b') None (account_list S a s) None" for a s
  proof (rule acct.seg_same_links)
    show "acct.seg h None (account_list S a s) None"
      by (rule fifo_relinked_acct_seg [OF h acct_facts(1) [OF acct]])
    fix y m
    assume m: "h y = Some m"
    obtain m' where "h x = Some m'" "m'\<lparr>previous := None, next_order := None\<rparr> = n\<lparr>previous := None, next_order := None\<rparr>"
      using fifo.relinked_node [OF h b'(2)] by blast
    note m' = this
    have "account_previous m' = account_previous n" "account_next m' = account_next n"
      using arg_cong [OF m'(2), of account_previous] arg_cong [OF m'(2), of account_next] by simp_all
    then show "\<exists>m'. orders b' y = Some m' \<and> account_previous m' = account_previous m \<and> account_next m' = account_next m"
      using m m'(1) by (auto simp: b'(1,3,4))
  qed
  moreover have "account_orders b' a = account_of (spec_orders S') (account_list S' a)" for a
  proof (cases "a = order_account_id r")
    case False
    have "x \<notin> set (account_list S a t)" for t
      using False r(1) acct_facts(3) [OF acct, of a t] by (auto simp: owned_def)
    then have "account_of (spec_orders S') (account_list S a) = account_of (spec_orders S) (account_list S a)"
      by (simp add: account_of_def side_index_of_upd S'(1))
    then show ?thesis
      using False acct_index [OF acct(1), of a] by (simp add: ao S'(2))
  qed (simp add: ao S'(2))
  ultimately show ?thesis
    using requeued_ok(3) [OF re r(2) ok(1,2) r(1) ok(3)] by (simp add: acct_rep_def S'(2))
qed

section \<open>Reducing a resting order\<close>

lemma refilled_reduced:
  assumes "order_wf r" "strip r = r" "q < displayed r"
  shows "refilled r (reduced q r)" "units (reduced q r) = units r"
proof -
  have "displayed r \<le> leaves r" "fits_u64 (leaves r - q)"
    using order_wf_displayed [OF assms(1)] fits_u64_mono [of "leaves r" "leaves r - q"] by simp_all
  then have "order_wf (reduced q r)"
    using assms(1,3) by (auto simp: order_wf_def reduced_def split: OrderDisplay.splits)
  moreover have "strip (reduced q r) = reduced q r"
    using assms(2) by (cases r) (simp add: strip_def reduced_def)
  ultimately show "refilled r (reduced q r)"
    by (simp add: refilled_def reduced_def)
  show "units (reduced q r) = units r"
    using assms(3) \<open>displayed r \<le> leaves r\<close> by (simp add: units_def reduced_def split: OrderDisplay.split)
qed

lemma shown_total_reduced:
  assumes "x \<in> set xs" "distinct xs" "R x = Some r" "displayed r' = displayed r - k" "k \<le> displayed r"
  shows "shown_total (R(x \<mapsto> r')) xs = shown_total R xs - k" "k \<le> shown_total R xs"
proof -
  obtain us vs where "xs = us @ x # vs"
    using assms(1) by (auto simp: in_set_conv_decomp)
  moreover from this have "x \<notin> set us" "x \<notin> set vs"
    using assms(2) by auto
  ultimately show "shown_total (R(x \<mapsto> r')) xs = shown_total R xs - k" "k \<le> shown_total R xs"
    using assms(3-5) by simp_all
qed

lemma total_units_same: "R x = Some r \<Longrightarrow> units r' = units r \<Longrightarrow> total_units (R(x \<mapsto> r')) xs = total_units R xs"
  unfolding total_units_def by (rule arg_cong [of _ _ sum_list]) auto

lemma account_of_same: "R x = Some r \<Longrightarrow> units r' = units r \<Longrightarrow> account_of (R(x \<mapsto> r')) xs = account_of R xs"
  by (simp add: account_of_def side_index_of_def total_units_same)

lemma level_with_less_correct:
  assumes level: "level_of R q = Some level" and d: "distinct (members q)" and x: "R x = Some r"
    and kind: "if is_hidden (order_display r) then x \<in> set (snd q) else x \<in> set (fst q)"
    and r': "units r' = units r" "displayed r' = displayed r - k" "k \<le> displayed r"
    and n: "order_display n = order_display r"
  obtains level' where "level_with_less n k level = Some ((), level')"
    "level_of (R(x \<mapsto> r')) q = Some level'" "level_event_units level' = level_event_units level"
proof -
  let ?l = "level\<lparr>total_quantity := shown_total (R(x \<mapsto> r')) (fst q)\<rparr>"
  have lv: "total_quantity level = shown_total R (fst q)"
    using level by (auto simp: level_of_def split: if_splits)
  have "level_with_less n k level = Some ((), ?l)"
  proof (cases "is_hidden (order_display r)")
    case True
    then have "x \<notin> set (fst q)"
      using kind d by (auto simp: members_def)
    then show ?thesis
      using True by (simp add: level_with_less_def n visible_lots_hidden checked_sub_def lv)
  next
    case False
    then have "x \<in> set (fst q)" "distinct (fst q)"
      using kind d by (auto simp: members_def)
    then show ?thesis
      using False shown_total_reduced [where R = R and xs = "fst q", OF _ _ x r'(2,3)]
      by (simp add: level_with_less_def n visible_lots_shown checked_sub_def lv)
  qed
  moreover have "level_of (R(x \<mapsto> r')) q = Some ?l"
    using level total_units_same [where R = R, OF x r'(1)] by (auto simp: level_of_def split: if_splits)
  ultimately show thesis
    by (rule that) simp
qed

lemma members_kind:
  assumes "queues_ok S" "spec_orders S x = Some r" "stop r = None"
  shows "if is_hidden (order_display r) then x \<in> set (snd (queue S (order_side r) (order_price r)))
         else x \<in> set (fst (queue S (order_side r) (order_price r)))"
    "x \<in> set (members (queue S (order_side r) (order_price r)))"
  using assms by (auto simp: queues_ok_def rests_def members_def)

theorem reduce_resting_correct:
  assumes rep: "represents b S" and r: "spec_orders S x = Some r" and stop: "stop r = None" and k: "k < displayed r"
  obtains b' where "decrement_resting x k (order_price r) b = Some (None, b')" "represents b' (spec_reduce x k S)"
    "book_rest b' = book_rest b"
proof -
  let ?s = "order_side r" and ?p = "order_price r" and ?R = "spec_orders S" and ?r' = "reduced k r"
  let ?q = "queue S ?s ?p" and ?l = "levels b (order_side r)" and ?S = "spec_reduce x k S"
  have core: "core_rep b S" and acct: "acct_rep b S"
    using rep by (simp_all add: represents_def)
  have ok: "orders_ok S" "queues_ok S" "levels_rep b S"
    using core by (auto simp: core_rep_def)
  have wf: "order_wf r" "strip r = r" "order_id r = x"
    using ok(1) r by (auto simp: orders_ok_def)
  note f = refilled_reduced [OF wf(1,2) k]
  obtain n where n: "orders b x = Some n" "strip n = r"
    using core_orders(1) [OF core, of x] r by (cases "orders b x") auto
  have nf: "leaves n = leaves r" "displayed n = displayed r" "order_display n = order_display r" "order_side n = ?s"
    by (simp_all add: n(2) [symmetric])
  have kl: "k < leaves r"
    using k order_wf_displayed(2) [OF wf(1)] by simp
  let ?n = "n\<lparr>leaves := leaves r - k, displayed := displayed r - k\<rparr>"
  let ?h = "(orders b)(x \<mapsto> ?n)" and ?b1 = "b\<lparr>orders := (orders b)(x \<mapsto> ?n)\<rparr>"
  have S': "spec_orders ?S = ?R(x \<mapsto> ?r')" "\<And>s p. queue ?S s p = queue S s p" "account_list ?S = account_list S"
    by (simp_all add: spec_reduce_def r)
  have re: "requeued S ?S x r ?r'"
    using ok(2) by (simp add: requeued_def S' queues_ok_def)
  note kind = members_kind [OF ok(2) r stop]
  note qf = core_queue_facts [OF core, of ?s ?p]
  have lok: "levels_ok ?l" "levels_side ?l = ?s"
    using ok(3) by (auto simp: levels_rep_def)
  have "level_of ?R ?q \<noteq> None"
    using kind(2) by (auto simp: level_of_def)
  then obtain level where lv: "level_of ?R ?q = Some level"
    by blast
  then have lg: "levels_get ?l ?p = Some level"
    using qf(4) by simp
  have rd: "displayed ?r' = displayed r - k" "k \<le> displayed r"
    using k by (simp_all add: reduced_def)
  obtain level' where level': "level_with_less n k level = Some ((), level')" "level_of (?R(x \<mapsto> ?r')) ?q = Some level'"
    "level_event_units level' = level_event_units level"
    by (rule level_with_less_correct [OF lv qf(2) r kind(1) f(2) rd nf(3)]) (rule that)
  have "level_event_units level \<le> side_event_units ?l"
    using index_sum_ge [of "by_price ?l" ?p level level_event_units] lok(1) lg
    by (simp add: levels_ok_def levels_get_def)
  moreover have "fits_u128 (side_event_units ?l)"
    using lok(1) unfolding levels_ok_def by blast
  ultimately have up: "levels_ok (levels ?b1 ?s)" "levels_get (levels ?b1 ?s) ?p = Some level"
      "level_with_less n k level = Some ((), level')"
      "fits_u128 (side_event_units (levels ?b1 ?s) - level_event_units level + level_event_units level')"
    using lok(1) lg level' by simp_all
  obtain l' where l': "update_level ?s ?p (level_with_less n k) ?b1 = Some ((), set_levels ?s l' ?b1)"
    "levels_ok l'" "levels_side l' = levels_side (levels ?b1 ?s)" "levels_get l' = (levels_get (levels ?b1 ?s))(?p \<mapsto> level')"
    "index_maximum (by_price l') = index_maximum (by_price (levels ?b1 ?s))"
    by (rule update_level_correct [where f = "level_with_less n k", OF up]) (rule that)
  let ?b' = "set_levels ?s l' ?b1"
  have run: "decrement_resting x k ?p b = Some (None, ?b')"
    using l'(1) k kl by (simp add: decrement_resting_def n(1) nf modify_order_def checked_sub_def)
  have levels: "levels_rep ?b' ?S"
  proof (rule levels_rep_change [OF ok(3) _ _ l'(2)])
    show "levels_get l' = (levels_get ?l)(?p := level_of (spec_orders ?S) (queue ?S ?s ?p))"
      using l'(4) level'(2) by (simp add: S')
    show "level_of (spec_orders ?S) (queue ?S t q) = level_of ?R (queue S t q)" if "(t, q) \<noteq> (?s, ?p)" for t q
    proof -
      have "x \<notin> set (members (queue S t q))"
        using that r by (auto simp: rests_members [OF ok(2)] rests_def)
      then show ?thesis
        by (simp add: S' level_of_upd)
    qed
  qed (use l'(3,5) lok(2) in \<open>simp_all add: levels_set_levels\<close>)
  have strip': "strip ?n = ?r'"
    by (simp add: n(2) [symmetric] strip_def reduced_def)
  have seg: "fifo.seg ?h None (members ?q) None"
    by (rule fifo.seg_same_links [OF _ qf(1)]) (use n(1) in auto)
  have c: "core_rep ?b' ?S"
    by (rule core_rep_fill [OF core r stop f(1) re, where h = "orders b" and n = ?n])
      (use levels strip' seg in \<open>simp_all add: S'(2)\<close>)
  have "account_orders b = (account_orders b)(order_account_id r := account_of (spec_orders ?S) (account_list S (order_account_id r)))"
    using acct_index [OF acct, of "order_account_id r"] account_of_same [where R = ?R, OF r f(2)] by (simp add: S' fun_eq_iff)
  then have "acct_rep ?b' ?S"
    by (intro acct_rep_fill [OF acct core r f(1) re, where h = "orders b" and n' = ?n and n = n and A = "{}"]) (simp_all add: n)
  then show thesis
    using that [OF run] c by (simp add: represents_def)
qed

section \<open>Refreshing a reserve order\<close>

lemma refilled_refreshed:
  assumes "order_wf r" "strip r = r" "k < leaves r"
  shows "refilled r (refreshed_order k r)"
proof -
  have "fits_u64 (leaves r - k)"
    using order_wf_displayed(4) [OF assms(1)] fits_u64_mono [of "leaves r" "leaves r - k"] by simp
  then have "order_wf (refreshed_order k r)"
    using assms(1,3) by (auto simp: order_wf_def refreshed_order_def split: OrderDisplay.splits)
  moreover have "strip (refreshed_order k r) = refreshed_order k r"
    using assms(2) by (cases r) (simp add: strip_def refreshed_order_def)
  ultimately show ?thesis
    by (simp add: refilled_def refreshed_order_def)
qed

lemma relink_to_displayed_tail_correct:
  assumes seg: "fifo.seg (orders b) None (us @ x # vs @ hs) None" and d: "distinct (us @ x # vs @ hs)" and vs: "vs \<noteq> []"
    and n: "orders b x = Some n" "order_id n = x" and tail: "displayed_tail level = Some (List.last vs)"
  obtains h where "relink_to_displayed_tail n level b = Some (Some (List.last vs), hd_or None hs, b\<lparr>orders := h\<rparr>)"
    "fifo.relinked (orders b) h (set (us @ x # vs @ hs))"
    "\<And>m. previous m = Some (List.last vs) \<Longrightarrow> next_order m = hd_or None hs \<Longrightarrow>
       fifo.seg (h(x \<mapsto> m)) None (us @ vs @ x # hs) None"
proof -
  obtain f fs where f: "vs = f # fs"
    using vs by (cases vs) auto
  obtain ws t where t: "vs = ws @ [t]"
    using vs by (cases vs rule: rev_cases) auto
  have links: "previous n = last_or None us" "next_order n = Some f"
    using fifo.seg_node [OF seg] n(1) by (auto simp: f)
  obtain h1 h2 where h: "fifo.link_next (previous n) (next_order n) (orders b) = Some h1"
    "fifo.link_prev (next_order n) (previous n) h1 = Some h2" "fifo.seg h2 None (us @ vs @ hs) None"
    "fifo.relinked (orders b) h2 (set us \<union> set (vs @ hs))"
    by (rule fifo.splice_out [OF seg d n(1), of "orders b"]) (simp, rule that)
  have seg2: "fifo.seg h2 None ((us @ vs) @ hs) None" "distinct ((us @ vs) @ x # hs)"
    using h(3) d by auto
  obtain h3 h4 where g: "fifo.link_next (last_or None (us @ vs)) (Some x) h2 = Some h3"
    "fifo.link_prev (hd_or None hs) (Some x) h3 = Some h4"
    "\<And>m. previous m = last_or None (us @ vs) \<Longrightarrow> next_order m = hd_or None hs \<Longrightarrow> fifo.seg (h4(x \<mapsto> m)) None ((us @ vs) @ x # hs) None"
    "fifo.relinked h2 h4 (set (us @ vs) \<union> set hs)"
    by (rule fifo.splice_in [OF seg2]) (rule that)
  have last: "last_or None (us @ vs) = Some t" "List.last vs = t"
    by (simp_all add: t)
  have "fifo.seg h2 None ((us @ ws) @ t # hs) None"
    using seg2(1) by (simp add: t)
  from fifo.seg_node [OF this] obtain m where m: "h2 t = Some m" "next_order m = hd_or None hs"
    by blast
  have "relink_to_displayed_tail n level b = Some (Some t, hd_or None hs, b\<lparr>orders := h4\<rparr>)"
    using h(1,2) g(1,2) [unfolded last] m n(2) links tail
    by (simp add: relink_to_displayed_tail_def modify_order_optional modify_optional_fifo last)
  moreover have "fifo.relinked (orders b) h4 (set (us @ x # vs @ hs))"
    using fifo.relinked_trans [OF fifo.relinked_mono [OF h(4)] fifo.relinked_mono [OF g(4)], of "set (us @ x # vs @ hs)"]
    by auto
  moreover have "fifo.seg (h4(x \<mapsto> m)) None (us @ vs @ x # hs) None"
    if "previous m = Some (List.last vs)" "next_order m = hd_or None hs" for m
    using g(3) that last by simp
  ultimately show thesis
    using that by (simp add: last(2))
qed

lemma level_with_refresh_correct:
  assumes level: "level_of R (us @ x # vs, hs) = Some level" and d: "distinct (us @ x # vs @ hs)"
    and x: "R x = Some r" and n: "order_display n = order_display r" "displayed n = displayed r" "order_id n = x"
      "previous n = last_or None us" "next_order n = hd_or None (vs @ hs)"
    and n': "order_display n' = order_display r" "displayed n' = displayed r'" "vs \<noteq> [] \<Longrightarrow> next_order n' = hd_or None hs"
    and shown: "\<not> is_hidden (order_display r)"
    and fits: "fits_u128 (shown_total (R(x \<mapsto> r')) (us @ vs @ [x]))" "fits_u128 (total_units (R(x \<mapsto> r')) (us @ vs @ x # hs))"
  obtains level' where "level_with_refresh n n' (units r) (units r') (vs \<noteq> []) level = Some ((), level')"
    "level_of (R(x \<mapsto> r')) (us @ vs @ [x], hs) = Some level'"
    "level_event_units level' = total_units (R(x \<mapsto> r')) (us @ vs @ x # hs)"
proof -
  let ?R' = "R(x \<mapsto> r')"
  define A where "A = shown_total R (us @ vs)"
  define B where "B = total_units R (us @ vs @ hs)"
  have out: "x \<notin> set us" "x \<notin> set vs" "x \<notin> set hs"
    using d by auto
  have totals: "shown_total R (us @ x # vs) = A + displayed r" "shown_total ?R' (us @ vs @ [x]) = A + displayed r'"
      "total_units R (us @ x # vs @ hs) = B + units r" "total_units ?R' (us @ vs @ x # hs) = B + units r'"
    using out x by (simp_all add: A_def B_def)
  have lv: "level = \<lparr>level_head = hd (us @ x # vs @ hs), level_tail = List.last (us @ x # vs @ hs),
      displayed_tail = last_or None (us @ x # vs), total_quantity = A + displayed r,
      order_count = length (us @ x # vs @ hs), visible_order_count = length (us @ x # vs), level_event_units = B + units r\<rparr>"
    using level unfolding level_of_def members_def totals [symmetric] by simp
  let ?l = "\<lparr>level_head = hd (us @ vs @ x # hs), level_tail = List.last (us @ vs @ x # hs),
      displayed_tail = Some x, total_quantity = A + displayed r',
      order_count = length (us @ x # vs @ hs), visible_order_count = length (us @ x # vs), level_event_units = B + units r'\<rparr>"
  have new: "level_of ?R' (us @ vs @ [x], hs) = Some ?l"
    unfolding level_of_def members_def totals(2,4) [symmetric] by simp
  have f: "fits_u128 (A + displayed r')" "fits_u128 (B + units r')"
    using fits by (simp_all only: totals)
  have "level_with_refresh n n' (units r) (units r') (vs \<noteq> []) level = Some ((), ?l)"
  proof (cases vs)
    case Nil
    then show ?thesis
      using f shown by (simp add: level_with_refresh_def lv n n'(1,2) visible_lots_shown checked_sub_def)
  next
    case (Cons v ws)
    then have next': "next_order n' = hd_or None hs" "next_order n = Some v" "vs \<noteq> []"
      using n'(3) n(5) by simp_all
    have "hd (us @ vs @ x # hs) = (if us = [] then v else hd (us @ x # vs @ hs))"
        "List.last (us @ vs @ x # hs) = (if hs = [] then x else List.last (us @ x # vs @ hs))"
      by (simp_all add: Cons)
    then show ?thesis
      using f shown next'
      by (simp add: level_with_refresh_def lv n(1-4) n'(1,2) visible_lots_shown checked_sub_def last_or_eq_None hd_or_eq_None)
  qed
  then show thesis
    by (rule that [OF _ new]) (simp only: totals PriceLevel.select_convs)
qed

lemma replace_event_units_correct:
  assumes "account_side i side = side_index_of R xs" "x \<in> set xs" "distinct xs" "R x = Some r"
    "fits_u128 (total_units (R(x \<mapsto> r')) xs)"
  shows "replace_event_units i side (units r) (units r') = Some (set_account_side side (side_index_of (R(x \<mapsto> r')) xs) i)"
proof -
  obtain us vs where uv: "xs = us @ x # vs"
    using assms(2) by (auto simp: in_set_conv_decomp)
  then have "x \<notin> set us" "x \<notin> set vs"
    using assms(3) by auto
  then have "total_units R xs = total_units R (us @ vs) + units r"
      "total_units (R(x \<mapsto> r')) xs = total_units R (us @ vs) + units r'"
    using assms(4) by (simp_all add: uv)
  then show ?thesis
    using assms(1,5) by (simp add: replace_event_units_def side_index_of_def checked_sub_def)
qed

lemma account_of_fill:
  assumes "Some i = account_of R xs" "x \<in> set (xs s)" "x \<notin> set (xs (opposite s))"
  shows "Some (set_account_side s (side_index_of (R(x \<mapsto> r')) (xs s)) i) = account_of (R(x \<mapsto> r')) xs"
  using assms by (cases s) (auto simp: account_of_def side_index_of_upd split: if_splits)

text \<open>The place of an order in its queue, and the queue after the refresh.\<close>

lemma refresh_queue:
  assumes "represents b S" "spec_orders S x = Some r" "stop r = None" "\<not> is_hidden (order_display r)"
  obtains us vs hs where "queue S (order_side r) (order_price r) = (us @ x # vs, hs)"
    "distinct (us @ x # vs @ hs)"
    "queue (spec_refresh x k S) (order_side r) (order_price r) = (us @ vs @ [x], hs)"
proof -
  let ?q = "queue S (order_side r) (order_price r)"
  have ok: "queues_ok S"
    using assms(1) by (simp add: represents_def core_rep_def)
  then obtain us vs where uv: "fst ?q = us @ x # vs"
    using members_kind(1) [OF ok assms(2,3)] assms(4) by (auto simp: in_set_conv_decomp)
  have "distinct (members ?q)"
    using ok by (simp add: queues_ok_def)
  then have d: "distinct (fst ?q @ snd ?q)"
    by (simp only: members_def)
  then have "removeAll x (fst ?q) = us @ vs"
    using removeAll_split [of us x vs] by (simp add: uv)
  then have "queue (spec_refresh x k S) (order_side r) (order_price r) = (us @ vs @ [x], snd ?q)"
    by (simp add: spec_refresh_def assms(2))
  moreover have "?q = (us @ x # vs, snd ?q)" "distinct (us @ x # vs @ snd ?q)"
    using uv d by (simp_all add: prod_eq_iff)
  ultimately show thesis
    by (intro that [of us vs "snd ?q"])
qed

lemma refresh_requeued:
  assumes "represents b S" "spec_orders S x = Some r" "stop r = None" "\<not> is_hidden (order_display r)"
  shows "requeued S (spec_refresh x k S) x r (refreshed_order k r)"
proof -
  obtain us vs hs where q: "queue S (order_side r) (order_price r) = (us @ x # vs, hs)"
    "distinct (us @ x # vs @ hs)" "queue (spec_refresh x k S) (order_side r) (order_price r) = (us @ vs @ [x], hs)"
    by (rule refresh_queue [OF assms]) (rule that)
  have "distinct (members (us @ vs @ [x], hs))"
    using q(2) by (auto simp: members_def)
  moreover have "queue (spec_refresh x k S) s p = queue S s p" if "(s, p) \<noteq> (order_side r, order_price r)" for s p
    using that by (auto simp: spec_refresh_def assms(2))
  ultimately show ?thesis
    unfolding requeued_def q Let_def by (auto simp: spec_refresh_def assms(2))
qed

theorem refresh_resting_correct:
  assumes rep: "represents b S" and r: "spec_orders S x = Some r" and n: "orders b x = Some n" and stop: "stop r = None"
    and shown: "\<not> is_hidden (order_display r)" and k: "k < leaves r"
  obtains b' where "refresh_resting n k (order_price r) b =
      Some (\<lparr>refresh_order_id = x, refresh_price = order_price r, refresh_displayed = displayed (refreshed_order k r),
             refresh_leaves = leaves r - k\<rparr>, b')"
    "represents b' (spec_refresh x k S)" "book_rest b' = book_rest b"
proof -
  let ?s = "order_side r" and ?p = "order_price r" and ?a = "order_account_id r" and ?R = "spec_orders S"
  let ?r' = "refreshed_order k r" and ?q = "queue S (order_side r) (order_price r)"
  let ?l = "levels b (order_side r)" and ?S = "spec_refresh x k S"
  let ?R' = "(spec_orders S)(x \<mapsto> refreshed_order k r)"
  have core: "core_rep b S" and acct: "acct_rep b S"
    using rep by (simp_all add: represents_def)
  have ok: "orders_ok S" "queues_ok S" "levels_rep b S" and fit: "fits_usize (max_active_orders (limits b))"
    and card: "card (dom ?R) \<le> max_active_orders (limits b)"
    using core by (auto simp: core_rep_def)
  have wf: "order_wf r" "strip r = r" "order_id r = x"
    using ok(1) r by (auto simp: orders_ok_def)
  have sn: "strip n = r"
    using core_orders(1) [OF core, of x] n r by simp
  have nf: "order_id n = x" "order_side n = ?s" "order_price n = ?p" "order_account_id n = ?a" "leaves n = leaves r"
      "displayed n = displayed r" "order_display n = order_display r" "order_wf n" "units n = units r"
    using wf order_wf_strip [of n] units_strip [of n] by (auto simp: sn [symmetric])
  have f: "refilled r ?r'"
    by (rule refilled_refreshed [OF wf(1,2) k])
  then have wf': "order_wf ?r'" "units ?r' \<le> 2 ^ 34"
    using units_bound by (auto simp: refilled_def)
  have re: "requeued S ?S x r ?r'"
    by (rule refresh_requeued [OF rep r stop shown])
  obtain us vs hs where q: "?q = (us @ x # vs, hs)" "distinct (us @ x # vs @ hs)"
    "queue ?S ?s ?p = (us @ vs @ [x], hs)"
    by (rule refresh_queue [OF rep r stop shown]) (rule that)
  note qf = core_queue_facts [OF core, of ?s ?p]
  have seg: "fifo.seg (orders b) None (us @ x # vs @ hs) None"
    using qf(1) by (simp add: q(1) members_def)
  have links: "previous n = last_or None us" "next_order n = hd_or None (vs @ hs)"
    using fifo.seg_node [OF seg] n by auto
  have S': "spec_orders ?S = ?R'" "account_list ?S = account_list S"
    using re by (simp_all add: requeued_def)
  note okS = requeued_ok [OF re f ok(1,2) r]
  have bounds: "total_units ?R' xs \<le> card (dom ?R) * 2 ^ 34" "shown_total ?R' xs \<le> card (dom ?R) * 2 ^ 64"
    if "distinct xs" "\<And>y. y \<in> set xs \<Longrightarrow> ?R y \<noteq> None" for xs
    using orders_of_list [OF okS(1) that(1)] that(2) okS(4) by (auto simp: S'(1))
  have present: "?R y \<noteq> None" if "y \<in> set (us @ x # vs @ hs)" for y
    using that members_in [OF ok(2), of y ?s ?p] by (simp add: q(1) members_def)
  have fits: "fits_u128 (shown_total ?R' (us @ vs @ [x]))" "fits_u128 (total_units ?R' (us @ vs @ x # hs))"
  proof -
    show "fits_u128 (shown_total ?R' (us @ vs @ [x]))"
      by (rule fits_u128_mono [OF fits_u64_lists(3) [OF fit card]], rule bounds) (use q(2) present in auto)
    show "fits_u128 (total_units ?R' (us @ vs @ x # hs))"
      by (rule fits_u128_mono [OF fits_u64_lists(2) [OF fit card]], rule bounds) (use q(2) present in auto)
  qed
  have lok: "levels_ok ?l" "levels_side ?l = ?s"
    using ok(3) by (auto simp: levels_rep_def)
  have "level_of ?R ?q \<noteq> None"
    by (simp add: level_of_def q(1) members_def)
  then obtain level where lv: "level_of ?R ?q = Some level"
    by blast
  then have lg: "levels_get ?l ?p = Some level"
    using qf(4) by simp
  have tail: "displayed_tail level = last_or None (us @ x # vs)"
    using lv by (auto simp: q(1) level_of_def members_def)
  have moved: "displayed_tail level \<noteq> Some x \<longleftrightarrow> vs \<noteq> []"
    using q(2) by (cases vs rule: rev_cases) (auto simp: tail)
  let ?n0 = "n\<lparr>leaves := leaves r - k, displayed := working_lots (order_display r) (leaves r - k)\<rparr>"
  have sn0: "strip ?n0 = ?r'"
    by (simp add: sn [symmetric] strip_def refreshed_order_def)
  have n0: "order_wf ?n0" "units ?n0 = units ?r'"
    using wf'(1) order_wf_strip [of ?n0] units_strip [of ?n0] by (simp_all only: sn0)
  obtain n' h where relink: "(if vs \<noteq> [] then do {
         (prior, following, b) \<leftarrow> relink_to_displayed_tail n level b;
         Some (?n0\<lparr>previous := prior, next_order := following\<rparr>, b)
       } else Some (?n0, b)) = Some (n', b\<lparr>orders := h\<rparr>)"
    "strip n' = ?r'" "account_previous n' = account_previous n" "account_next n' = account_next n"
    "fifo.relinked (orders b) h (set (members ?q))" "fifo.seg (h(x \<mapsto> n')) None (us @ vs @ x # hs) None"
    "vs \<noteq> [] \<Longrightarrow> next_order n' = hd_or None hs"
  proof (cases "vs = []")
    case True
    have "fifo.seg ((orders b)(x \<mapsto> ?n0)) None (us @ x # vs @ hs) None"
      by (rule fifo.seg_same_links [OF _ seg]) (use n in auto)
    then show thesis
      using that [of ?n0 "orders b"] True sn0 by simp
  next
    case False
    have t: "displayed_tail level = Some (List.last vs)"
      using False by (simp add: tail last_or_def)
    obtain h where h: "relink_to_displayed_tail n level b = Some (Some (List.last vs), hd_or None hs, b\<lparr>orders := h\<rparr>)"
      "fifo.relinked (orders b) h (set (us @ x # vs @ hs))"
      "\<And>m. previous m = Some (List.last vs) \<Longrightarrow> next_order m = hd_or None hs \<Longrightarrow>
         fifo.seg (h(x \<mapsto> m)) None (us @ vs @ x # hs) None"
      by (rule relink_to_displayed_tail_correct [OF seg q(2) False n nf(1) t]) (rule that)
    let ?n' = "?n0\<lparr>previous := Some (List.last vs), next_order := hd_or None hs\<rparr>"
    have "fifo.seg (h(x \<mapsto> ?n')) None (us @ vs @ x # hs) None"
      by (rule h(3)) simp_all
    then show thesis
      using that [of ?n' h] h(1,2) False sn0 by (simp add: q(1) members_def)
  qed
  have "order_display n' = order_display ?r'" "displayed n' = displayed ?r'" "order_id n' = order_id ?r'"
      "order_price n' = order_price ?r'" "leaves n' = leaves ?r'"
    by (simp_all flip: relink(2))
  then have n': "order_display n' = order_display r" "displayed n' = displayed ?r'" "order_id n' = x" "order_price n' = ?p"
      "leaves n' = leaves r - k"
    using wf(3) by (simp_all add: refreshed_order_def)
  have lv': "level_of ?R (us @ x # vs, hs) = Some level"
    using lv by (simp add: q(1))
  obtain level' where level': "level_with_refresh n n' (units r) (units ?r') (vs \<noteq> []) level = Some ((), level')"
    "level_of ?R' (us @ vs @ [x], hs) = Some level'" "level_event_units level' = total_units ?R' (us @ vs @ x # hs)"
    by (rule level_with_refresh_correct [where n' = n', OF lv' q(2) r nf(7,6,1) links n'(1,2) relink(7) shown fits]) (assumption, rule that)
  let ?b1 = "b\<lparr>orders := h\<rparr>"
  have side: "fits_u128 (side_event_units ?l - level_event_units level + level_event_units level')"
  proof -
    have "side_event_units ?l \<le> card (dom ?R) * 2 ^ 34"
      by (rule side_units_bound [OF core])
    moreover have "level_event_units level' \<le> card (dom ?R) * 2 ^ 34"
      unfolding level'(3) by (rule bounds) (use q(2) present in auto)
    ultimately have "side_event_units ?l - level_event_units level + level_event_units level' \<le>
        card (dom ?R) * 2 ^ 34 + card (dom ?R) * 2 ^ 34"
      by linarith
    also have "\<dots> \<le> card (dom ?R) * 2 ^ 64"
      by simp
    finally show ?thesis
      using fits_u128_mono [OF fits_u64_lists(3) [OF fit card]] by blast
  qed
  have up: "levels_ok (levels ?b1 ?s)" "levels_get (levels ?b1 ?s) ?p = Some level"
      "level_with_refresh n n' (units r) (units ?r') (vs \<noteq> []) level = Some ((), level')"
      "fits_u128 (side_event_units (levels ?b1 ?s) - level_event_units level + level_event_units level')"
    using lok(1) lg level'(1) side by simp_all
  obtain l' where l': "update_level ?s ?p (level_with_refresh n n' (units r) (units ?r') (vs \<noteq> [])) ?b1 = Some ((), set_levels ?s l' ?b1)"
    "levels_ok l'" "levels_side l' = levels_side (levels ?b1 ?s)" "levels_get l' = (levels_get (levels ?b1 ?s))(?p \<mapsto> level')"
    "index_maximum (by_price l') = index_maximum (by_price (levels ?b1 ?s))"
    by (rule update_level_correct [where f = "level_with_refresh n n' (units r) (units ?r') (vs \<noteq> [])", OF up]) (rule that)
  have xl: "x \<in> set (account_list S ?a ?s)" "x \<notin> set (account_list S ?a (opposite ?s))"
    using r acct_facts(3) [OF acct core] by (cases ?s; auto simp: owned_def)+
  then have "account_of ?R (account_list S ?a) \<noteq> None"
    by (cases ?s) (auto simp: account_of_def)
  then obtain i where i: "account_orders b ?a = Some i" "Some i = account_of ?R (account_list S ?a)"
    using acct_index [OF acct, of ?a] by auto
  have iside: "account_side i ?s = side_index_of ?R (account_list S ?a ?s)"
    using account_index_of(1) [OF acct_index [OF acct, of ?a], of ?s] i(1) by simp
  let ?i = "set_account_side ?s (side_index_of ?R' (account_list S ?a ?s)) i"
  have "fits_u128 (total_units ?R' (account_list S ?a ?s))"
    by (rule fits_u128_mono [OF fits_u64_lists(2) [OF fit card]], rule bounds)
      (use acct_facts(2,3) [OF acct core, of ?a ?s] in \<open>auto simp: owned_def split: option.splits\<close>)
  then have ri: "replace_event_units i ?s (units r) (units ?r') = Some ?i"
    by (intro replace_event_units_correct [where R = ?R, OF iside xl(1) acct_facts(2) [OF acct core] r])
  have hx: "h x \<noteq> None"
    using fifo.relinked_dom [OF relink(5), of x] n by simp
  let ?b' = "set_levels ?s l' (b\<lparr>account_orders := (account_orders b)(?a \<mapsto> ?i), orders := h(x \<mapsto> n')\<rparr>)"
  have comm: "set_levels ?s l' (b\<lparr>orders := h\<rparr>)\<lparr>account_orders := (account_orders b)(?a \<mapsto> ?i)\<rparr>\<lparr>orders := h(x \<mapsto> n')\<rparr> = ?b'"
    by (cases ?s) simp_all
  have steps: "remaining_event_units n = Some (units r)" "checked_sub (leaves r) k = Some (leaves r - k)"
      "remaining_event_units ?n0 = Some (units ?r')"
      "account_orders (set_levels ?s l' ?b1) ?a = Some i"
      "modify_order x (\<lambda>_. n') (set_levels ?s l' ?b1\<lparr>account_orders := (account_orders (set_levels ?s l' ?b1))(?a \<mapsto> ?i)\<rparr>) = Some ?b'"
    using nf(8,9) k n0 i(1) hx by (cases ?s; auto simp: modify_order_def)+
  have moved': "(displayed_tail level \<noteq> Some x) = (vs \<noteq> [])"
    by (simp add: moved)
  have run: "refresh_resting n k ?p b = Some (\<lparr>refresh_order_id = x, refresh_price = ?p, refresh_displayed = displayed ?r',
      refresh_leaves = leaves r - k\<rparr>, ?b')"
    by (simp only: refresh_resting_def nf steps(1-3) lg moved' relink(1) l'(1) steps(4,5) ri n' Let_def bind.bind_lunit prod.case)
  have levels: "levels_rep ?b' ?S"
  proof (rule levels_rep_change [OF ok(3) _ _ l'(2)])
    show "levels_get l' = (levels_get ?l)(?p := level_of (spec_orders ?S) (queue ?S ?s ?p))"
      using l'(4) level'(2) by (simp add: S' q(3))
    show "level_of (spec_orders ?S) (queue ?S t u) = level_of ?R (queue S t u)" if tu: "(t, u) \<noteq> (?s, ?p)" for t u
    proof -
      have "x \<notin> set (members (queue S t u))"
        using tu r by (auto simp: rests_members [OF ok(2)] rests_def)
      moreover have "queue ?S t u = queue S t u"
        using re tu by (simp add: requeued_def)
      ultimately show ?thesis
        by (simp add: S' level_of_upd)
    qed
  qed (use l'(3,5) lok(2) in \<open>simp_all add: levels_set_levels\<close>)
  have seg': "fifo.seg (h(x \<mapsto> n')) None (members (queue ?S ?s ?p)) None"
    using relink(6) by (simp add: q(3) members_def)
  have c: "core_rep ?b' ?S"
    by (rule core_rep_fill [OF core r stop f re relink(5), where n = n']) (use levels relink(2) seg' in simp_all)
  have "Some ?i = account_of ?R' (account_list S ?a)"
    by (rule account_of_fill [OF i(2) xl])
  then have "acct_rep ?b' ?S"
    by (intro acct_rep_fill [OF acct core r f re relink(5) _ n relink(3,4)]) (simp_all add: S'(1))
  then show thesis
    using that [OF run] c by (simp add: represents_def)
qed

text \<open>A fill of a resting order removes it, reduces it or refreshes it.\<close>

definition spec_fill :: "OrderId \<Rightarrow> nat \<Rightarrow> BookSpec \<Rightarrow> BookSpec" where
  "spec_fill x k S =
     (case spec_orders S x of
        None \<Rightarrow> S
      | Some r \<Rightarrow> if k = leaves r then spec_delete x S
                  else if k < displayed r then spec_reduce x k S else spec_refresh x k S)"

definition refresh_of :: "RestingOrder \<Rightarrow> nat \<Rightarrow> ReserveRefresh option" where
  "refresh_of r k =
     (if displayed r \<le> k \<and> k < leaves r
      then Some \<lparr>refresh_order_id = order_id r, refresh_price = order_price r,
             refresh_displayed = displayed (refreshed_order k r), refresh_leaves = leaves r - k\<rparr>
      else None)"

theorem decrement_resting_correct:
  assumes rep: "represents b S" and r: "spec_orders S x = Some r" and stop: "stop r = None" and k: "0 < k" "k \<le> leaves r"
  obtains b' where "decrement_resting x k (order_price r) b = Some (refresh_of r k, b')" "represents b' (spec_fill x k S)"
    "book_rest b' = book_rest b"
proof -
  have core: "core_rep b S"
    using rep by (simp add: represents_def)
  then have wf: "order_wf r" "order_id r = x"
    using r by (auto simp: core_rep_def orders_ok_def)
  note dl = order_wf_displayed(2) [OF wf(1)]
  obtain n where n: "orders b x = Some n" "strip n = r"
    using core_orders(1) [OF core, of x] r by (cases "orders b x") auto
  have nf: "leaves n = leaves r" "displayed n = displayed r"
    by (simp_all add: n(2) [symmetric])
  consider "k = leaves r" | "k < displayed r" "k \<noteq> leaves r" | "displayed r \<le> k" "k < leaves r"
    using k dl by linarith
  then show thesis
  proof cases
    case 1
    obtain b' m where "remove_order_at_level x (order_price r) b = Some (m, b')" "strip m = r"
      "represents b' (spec_delete x S)" "book_rest b' = book_rest b"
      by (rule remove_order_at_level_correct [OF rep r stop]) (rule that)
    then show thesis
      using that [of b'] 1 n(1) nf by (simp add: decrement_resting_def spec_fill_def refresh_of_def r)
  next
    case 2
    obtain b' where "decrement_resting x k (order_price r) b = Some (None, b')" "represents b' (spec_reduce x k S)"
      "book_rest b' = book_rest b"
      by (rule reduce_resting_correct [OF rep r stop 2(1)]) (rule that)
    then show thesis
      using that [of b'] 2 by (simp add: spec_fill_def refresh_of_def r)
  next
    case 3
    have shown: "\<not> is_hidden (order_display r)"
      using 3 wf(1) by (cases "order_display r") (simp_all add: order_wf_def is_hidden_def)
    obtain b' where "refresh_resting n k (order_price r) b =
        Some (\<lparr>refresh_order_id = x, refresh_price = order_price r, refresh_displayed = displayed (refreshed_order k r),
               refresh_leaves = leaves r - k\<rparr>, b')"
      "represents b' (spec_refresh x k S)" "book_rest b' = book_rest b"
      by (rule refresh_resting_correct [OF rep r n(1) stop shown 3(2)]) (rule that)
    then show thesis
      using that 3 n(1) nf wf(2) by (simp add: decrement_resting_def spec_fill_def refresh_of_def r)
  qed
qed

end
