(* ===== verification/Matching.thy ===== *)
theory Matching
  imports BookFills
begin

text \<open>
  The execution of an incoming order against the book (\<open>src/src/matching.rs\<close>): the matching loop with its
  four self-trade policies, the trades and events it emits, and the resting or cancellation of what is left.
  An action works on the book and the event trace of the command; it fails to return (\<^const>\<open>None\<close>) where the
  code panics, and returns an error next to the state it leaves where the code returns \<open>Err\<close>.
\<close>

section \<open>Actions\<close>

text \<open>
  \<open>EventTraceBuilder\<close>: a range of the event arena with room for \<open>trace_maximum\<close> events; the events written
  so far stand for the arena slots from \<open>trace_start\<close> on.
\<close>

record EventTraceBuilder =
  trace_start :: nat
  trace_maximum :: nat
  trace_events :: "Event list"

definition trace_new :: "nat \<Rightarrow> nat \<Rightarrow> nat \<Rightarrow> EventTraceBuilder option" where
  "trace_new capacity start maximum_events = do {
     stop \<leftarrow> checked fits_usize (start + maximum_events);
     assert_that (stop \<le> capacity);
     Some \<lparr>trace_start = start, trace_maximum = maximum_events, trace_events = []\<rparr>
   }"

definition trace_push :: "Event \<Rightarrow> EventTraceBuilder \<Rightarrow> EventTraceBuilder option" where
  "trace_push event t = do {
     assert_that (length (trace_events t) < trace_maximum t);
     _ \<leftarrow> checked fits_usize (trace_start t + length (trace_events t));
     Some (t\<lparr>trace_events := trace_events t @ [event]\<rparr>)
   }"

type_synonym Exec = "OrderBook \<times> EventTraceBuilder"
type_synonym 'a action = "Exec \<Rightarrow> ((MatchingError + 'a) \<times> Exec) option"

definition and_do :: "'a action \<Rightarrow> ('a \<Rightarrow> 'b action) \<Rightarrow> 'b action" where
  "and_do m f s =
     (case m s of
        None \<Rightarrow> None
      | Some (Inl e, s') \<Rightarrow> Some (Inl e, s')
      | Some (Inr a, s') \<Rightarrow> f a s')"

definition give :: "'a \<Rightarrow> 'a action" where
  "give a s = Some (Inr a, s)"

definition fail :: "MatchingError \<Rightarrow> 'a action" where
  "fail e s = Some (Inl e, s)"

text \<open>Reading and updating the book.\<close>

definition observe :: "(OrderBook \<Rightarrow> 'a option) \<Rightarrow> 'a action" where
  "observe f s = map_option (\<lambda>a. (Inr a, s)) (f (fst s))"

definition update :: "(OrderBook \<Rightarrow> ('a \<times> OrderBook) option) \<Rightarrow> 'a action" where
  "update f s = map_option (\<lambda>(a, b). (Inr a, (b, snd s))) (f (fst s))"

definition update_book :: "(OrderBook \<Rightarrow> OrderBook option) \<Rightarrow> unit action" where
  "update_book f s = map_option (\<lambda>b. (Inr (), (b, snd s))) (f (fst s))"

text \<open>\<open>Quantity::new(lots).expect(..)\<close>.\<close>

definition quantity :: "nat \<Rightarrow> Quantity option" where
  "quantity lots = (case quantity_new lots of Inl _ \<Rightarrow> None | Inr q \<Rightarrow> Some q)"

section \<open>Events\<close>

definition push_event :: "CommandId \<Rightarrow> TimestampNs \<Rightarrow> EventKind \<Rightarrow> unit action" where
  "push_event command time kind s =
     (let sequence = next_sequence (fst s)
      in case checked fits_u64 (sequence + 1) of
           None \<Rightarrow> Some (Inl SequenceExhausted, s)
         | Some following \<Rightarrow> do {
             events \<leftarrow> trace_push \<lparr>event_sequence = sequence, event_command_id = command, occurred_at = time,
               event_kind = kind\<rparr> (snd s);
             Some (Inr (), (fst s)\<lparr>next_sequence := following\<rparr>, events)
           })"

definition push_cancelled :: "CommandId \<Rightarrow> TimestampNs \<Rightarrow> OrderId \<Rightarrow> nat \<Rightarrow> CancelReason \<Rightarrow> unit action" where
  "push_cancelled command time x lots reason =
     and_do (observe (\<lambda>_. quantity lots)) (\<lambda>q. push_event command time (OrderCancelled x q reason))"

definition push_refresh :: "CommandId \<Rightarrow> TimestampNs \<Rightarrow> ReserveRefresh \<Rightarrow> unit action" where
  "push_refresh command time refresh =
     and_do (observe (\<lambda>_. quantity (refresh_displayed refresh))) (\<lambda>shown.
     and_do (observe (\<lambda>_. quantity (refresh_leaves refresh))) (\<lambda>rest.
     push_event command time (OrderRefreshed (refresh_order_id refresh) (refresh_price refresh) shown rest)))"

section \<open>Matching\<close>

record IncomingOrder =
  incoming_order_id :: OrderId
  incoming_account_id :: AccountId
  incoming_side :: Side
  incoming_order_type :: OrderType
  incoming_leaves :: nat
  incoming_display :: OrderDisplay
  incoming_self_trade_prevention :: SelfTradePrevention

definition best_price :: "Side \<Rightarrow> OrderBook \<Rightarrow> Price option" where
  "best_price side b = map_option fst (best (levels b side))"

text \<open>Whether a price satisfies the limit of an order; unpriced and dormant orders are \<open>unreachable!\<close> here.\<close>

fun crosses_price :: "Side \<Rightarrow> OrderType \<Rightarrow> Price \<Rightarrow> bool option" where
  "crosses_price _ Market price = Some True"
| "crosses_price Buy (Limit limit) price = Some (price \<le> limit)"
| "crosses_price Sell (Limit limit) price = Some (limit \<le> price)"
| "crosses_price _ MarketToLimit price = None"
| "crosses_price _ (Stop _ _) price = None"

definition would_cross :: "Side \<Rightarrow> OrderType \<Rightarrow> OrderBook \<Rightarrow> bool option" where
  "would_cross side order_type b =
     (case order_type of
        Market \<Rightarrow> Some (best_price (opposite side) b \<noteq> None)
      | Limit limit \<Rightarrow>
          (case best_price (opposite side) b of
             None \<Rightarrow> Some False
           | Some price \<Rightarrow> crosses_price side (Limit limit) price)
      | _ \<Rightarrow> None)"

definition best_opposite_order :: "Side \<Rightarrow> OrderType \<Rightarrow> OrderBook \<Rightarrow> (OrderId \<times> Price) option option" where
  "best_opposite_order side order_type b =
     (case best_level_with_handle (levels b (opposite side)) of
        None \<Rightarrow> Some None
      | Some (handle, level) \<Rightarrow> do {
          crosses \<leftarrow> crosses_price side order_type handle;
          Some (if crosses then Some (level_head level, handle) else None)
        })"

text \<open>\<open>TradeId::new\<close> refuses zero; the trade takes the price of the resting order.\<close>

definition make_trade :: "IncomingOrder \<Rightarrow> RestingOrder \<Rightarrow> nat \<Rightarrow> Trade action" where
  "make_trade incoming resting executed s =
     (let b = fst s
      in case identifier_new ''trade'' (next_trade_id b) of
           Inl _ \<Rightarrow> Some (Inl TradeIdExhausted, s)
         | Inr trade \<Rightarrow>
             (case checked fits_u64 (next_trade_id b + 1) of
                None \<Rightarrow> Some (Inl TradeIdExhausted, s)
              | Some following \<Rightarrow> do {
                  q \<leftarrow> quantity executed;
                  let (buy_order, sell_order, buyer, seller) =
                    (if incoming_side incoming = Buy
                     then (incoming_order_id incoming, order_id resting, incoming_account_id incoming, order_account_id resting)
                     else (order_id resting, incoming_order_id incoming, order_account_id resting, incoming_account_id incoming));
                  Some (Inr \<lparr>trade_id = trade, trade_instrument_id = def_instrument_id (book_definition b),
                    trade_instrument_version = def_version (book_definition b), trade_price = order_price resting,
                    trade_quantity = q, trade_buy_order_id = buy_order, trade_sell_order_id = sell_order,
                    buyer_account_id = buyer, seller_account_id = seller, maker_order_id = order_id resting,
                    taker_order_id = incoming_order_id incoming\<rparr>, b\<lparr>next_trade_id := following\<rparr>, snd s)
                }))"

definition cancel_incoming :: "IncomingOrder \<Rightarrow> CancelReason \<Rightarrow> CommandId \<Rightarrow> TimestampNs \<Rightarrow> IncomingOrder action" where
  "cancel_incoming incoming reason command time =
     and_do (push_cancelled command time (incoming_order_id incoming) (incoming_leaves incoming) reason)
       (\<lambda>_. give (incoming\<lparr>incoming_leaves := 0\<rparr>))"

text \<open>A fill of the resting order at \<open>handle\<close> and the event of a refresh, if there is one.\<close>

definition fill_resting :: "OrderId \<Rightarrow> nat \<Rightarrow> Price \<Rightarrow> CommandId \<Rightarrow> TimestampNs \<Rightarrow> unit action" where
  "fill_resting x executed handle command time =
     and_do (update (decrement_resting x executed handle)) (\<lambda>refresh.
       case refresh of None \<Rightarrow> give () | Some refresh \<Rightarrow> push_refresh command time refresh)"

definition cancel_resting :: "OrderId \<Rightarrow> Price \<Rightarrow> CommandId \<Rightarrow> TimestampNs \<Rightarrow> unit action" where
  "cancel_resting x handle command time =
     and_do (update (remove_order_at_level x handle)) (\<lambda>removed.
       push_cancelled command time (order_id removed) (leaves removed) SelfTradeResting)"

definition prevent_self_trade ::
    "IncomingOrder \<Rightarrow> RestingOrder \<Rightarrow> Price \<Rightarrow> CommandId \<Rightarrow> TimestampNs \<Rightarrow> IncomingOrder action"
where
  "prevent_self_trade incoming resting handle command time =
     (let prevented = min (incoming_leaves incoming) (displayed resting);
          policy = incoming_self_trade_prevention incoming
      in and_do (observe (\<lambda>_. quantity prevented)) (\<lambda>q.
         and_do (push_event command time
           (SelfTradePrevented (incoming_order_id incoming) (order_id resting) q policy)) (\<lambda>_.
         case policy of
           CancelAggressor \<Rightarrow> cancel_incoming incoming SelfTradeAggressor command time
         | CancelResting \<Rightarrow>
             and_do (cancel_resting (order_id resting) handle command time) (\<lambda>_. give incoming)
         | CancelBoth \<Rightarrow>
             and_do (cancel_resting (order_id resting) handle command time) (\<lambda>_.
               cancel_incoming incoming SelfTradeAggressor command time)
         | DecrementAndCancel \<Rightarrow>
             and_do (fill_resting (order_id resting) prevented handle command time) (\<lambda>_.
               give (incoming\<lparr>incoming_leaves := incoming_leaves incoming - prevented\<rparr>)))))"

definition execute_against ::
    "IncomingOrder \<Rightarrow> RestingOrder \<Rightarrow> Price \<Rightarrow> CommandId \<Rightarrow> TimestampNs \<Rightarrow> IncomingOrder action"
where
  "execute_against incoming resting handle command time =
     (let executed = min (incoming_leaves incoming) (displayed resting)
      in and_do (make_trade incoming resting executed) (\<lambda>trade.
         and_do (push_event command time (TradeOccurred trade)) (\<lambda>_.
         and_do (fill_resting (order_id resting) executed handle command time) (\<lambda>_.
           give (incoming\<lparr>incoming_leaves := incoming_leaves incoming - executed\<rparr>)))))"

text \<open>One turn of the loop: \<open>None\<close> when no opposite order crosses, the incoming order after the turn otherwise.\<close>

definition match_turn :: "CommandId \<Rightarrow> TimestampNs \<Rightarrow> IncomingOrder \<Rightarrow> IncomingOrder option action" where
  "match_turn command time incoming =
     and_do (observe (best_opposite_order (incoming_side incoming) (incoming_order_type incoming))) (\<lambda>found.
       case found of
         None \<Rightarrow> give None
       | Some (x, handle) \<Rightarrow>
           and_do (observe (\<lambda>b. orders b x)) (\<lambda>resting.
           and_do (if order_account_id resting = incoming_account_id incoming
                   then prevent_self_trade incoming resting handle command time
                   else execute_against incoming resting handle command time) (\<lambda>incoming.
             give (Some incoming))))"

partial_function (option) match_loop ::
    "CommandId \<Rightarrow> TimestampNs \<Rightarrow> IncomingOrder \<Rightarrow> Exec \<Rightarrow> ((MatchingError + IncomingOrder) \<times> Exec) option"
where
  "match_loop command time incoming s =
     (if incoming_leaves incoming = 0 then Some (Inr incoming, s)
      else case match_turn command time incoming s of
             None \<Rightarrow> None
           | Some (Inl e, s') \<Rightarrow> Some (Inl e, s')
           | Some (Inr None, s') \<Rightarrow> Some (Inr incoming, s')
           | Some (Inr (Some incoming'), s') \<Rightarrow> match_loop command time incoming' s')"

declare match_loop.simps [code]

definition resting_of :: "IncomingOrder \<Rightarrow> Price \<Rightarrow> TimeInForce \<Rightarrow> RestingOrder" where
  "resting_of incoming price time_in_force =
     \<lparr>order_id = incoming_order_id incoming, order_account_id = incoming_account_id incoming,
      order_side = incoming_side incoming, order_price = price, leaves = incoming_leaves incoming,
      displayed = working_lots (incoming_display incoming) (incoming_leaves incoming),
      order_display = incoming_display incoming, order_self_trade_prevention = incoming_self_trade_prevention incoming,
      order_expires_at = tif_expires_at time_in_force, stop = None, previous = None, next_order = None,
      account_previous = None, account_next = None\<rparr>"

text \<open>What happens to the remainder: a limit order that may rest is appended, any other is cancelled.\<close>

definition rest_or_cancel :: "IncomingOrder \<Rightarrow> TimeInForce \<Rightarrow> CommandId \<Rightarrow> TimestampNs \<Rightarrow> unit action" where
  "rest_or_cancel incoming time_in_force command time =
     (if incoming_leaves incoming = 0 then give ()
      else case incoming_order_type incoming of
        Limit price \<Rightarrow>
          (if may_rest time_in_force then
             (let r = resting_of incoming price time_in_force
              in and_do (update_book (append_order r)) (\<lambda>_.
                 and_do (observe (\<lambda>_. quantity (incoming_leaves incoming))) (\<lambda>lots.
                 and_do (observe (\<lambda>_. quantity (displayed r))) (\<lambda>working.
                 push_event command time (OrderRested (incoming_order_id incoming) price lots working)))))
           else push_cancelled command time (incoming_order_id incoming) (incoming_leaves incoming) UnfilledRemainder)
      | _ \<Rightarrow> push_cancelled command time (incoming_order_id incoming) (incoming_leaves incoming) UnfilledRemainder)"

definition execute_incoming :: "IncomingOrder \<Rightarrow> TimeInForce \<Rightarrow> CommandId \<Rightarrow> TimestampNs \<Rightarrow> unit action" where
  "execute_incoming incoming time_in_force command time =
     and_do (match_loop command time incoming) (\<lambda>incoming. rest_or_cancel incoming time_in_force command time)"

end
