(* ===== verification/MatchingSpec.thy ===== *)
theory MatchingSpec
  imports Matching
begin

text \<open>
  What matching does to the abstract book.  A step meets the first order of the best-priced opposite queue; it
  trades with it, or applies the self-trade policy of the incoming order.  Runs of steps collect the events
  they emit.  The invariants of runs are proved here, away from the linked structures; theory
  \<^theory_text>\<open>MatchingCorrect\<close> shows that the code performs exactly these runs.
\<close>

section \<open>The order to meet\<close>

definition best_maker :: "BookSpec \<Rightarrow> Side \<Rightarrow> Price \<Rightarrow> OrderId \<Rightarrow> bool" where
  "best_maker S s p x \<longleftrightarrow> members (queue S s p) \<noteq> [] \<and> x = hd (members (queue S s p)) \<and>
     (\<forall>q. members (queue S s q) \<noteq> [] \<longrightarrow> \<not> better s q p)"

definition meets :: "BookSpec \<Rightarrow> IncomingOrder \<Rightarrow> RestingOrder \<Rightarrow> bool" where
  "meets S taker r \<longleftrightarrow>
     0 < incoming_leaves taker \<and> order_side r = opposite (incoming_side taker) \<and>
     best_maker S (order_side r) (order_price r) (order_id r) \<and> spec_orders S (order_id r) = Some r \<and>
     crosses_price (incoming_side taker) (incoming_order_type taker) (order_price r) = Some True"

definition takes :: "IncomingOrder \<Rightarrow> RestingOrder \<Rightarrow> nat" where
  "takes taker r = min (incoming_leaves taker) (displayed r)"

definition less_leaves :: "nat \<Rightarrow> IncomingOrder \<Rightarrow> IncomingOrder" where
  "less_leaves k taker = taker\<lparr>incoming_leaves := incoming_leaves taker - k\<rparr>"

section \<open>Events of a step\<close>

definition refresh_kinds :: "RestingOrder \<Rightarrow> nat \<Rightarrow> EventKind list" where
  "refresh_kinds r k =
     (if displayed r \<le> k \<and> k < leaves r
      then [OrderRefreshed (order_id r) (order_price r) (displayed (refreshed_order k r)) (leaves r - k)] else [])"

definition trade_of :: "InstrumentDefinition \<Rightarrow> nat \<Rightarrow> IncomingOrder \<Rightarrow> RestingOrder \<Rightarrow> Trade" where
  "trade_of d n taker r =
     (let buys = (incoming_side taker = Buy)
      in \<lparr>trade_id = n, trade_instrument_id = def_instrument_id d, trade_instrument_version = def_version d,
          trade_price = order_price r, trade_quantity = takes taker r,
          trade_buy_order_id = (if buys then incoming_order_id taker else order_id r),
          trade_sell_order_id = (if buys then order_id r else incoming_order_id taker),
          buyer_account_id = (if buys then incoming_account_id taker else order_account_id r),
          seller_account_id = (if buys then order_account_id r else incoming_account_id taker),
          maker_order_id = order_id r, taker_order_id = incoming_order_id taker\<rparr>)"

definition prevented_kind :: "IncomingOrder \<Rightarrow> RestingOrder \<Rightarrow> EventKind" where
  "prevented_kind taker r =
     SelfTradePrevented (incoming_order_id taker) (order_id r) (takes taker r) (incoming_self_trade_prevention taker)"

definition resting_cancelled :: "RestingOrder \<Rightarrow> EventKind" where
  "resting_cancelled r = OrderCancelled (order_id r) (leaves r) SelfTradeResting"

definition taker_cancelled :: "IncomingOrder \<Rightarrow> EventKind" where
  "taker_cancelled taker = OrderCancelled (incoming_order_id taker) (incoming_leaves taker) SelfTradeAggressor"

section \<open>Steps and runs\<close>

type_synonym Taking = "nat \<times> IncomingOrder \<times> BookSpec"

inductive taker_step :: "InstrumentDefinition \<Rightarrow> Taking \<Rightarrow> EventKind list \<Rightarrow> Taking \<Rightarrow> bool" for d where
  trades: "meets S taker r \<Longrightarrow> order_account_id r \<noteq> incoming_account_id taker \<Longrightarrow>
    taker_step d (n, taker, S) (TradeOccurred (trade_of d n taker r) # refresh_kinds r (takes taker r))
      (Suc n, less_leaves (takes taker r) taker, spec_fill (order_id r) (takes taker r) S)"
| cancels_aggressor: "meets S taker r \<Longrightarrow> order_account_id r = incoming_account_id taker \<Longrightarrow>
    incoming_self_trade_prevention taker = CancelAggressor \<Longrightarrow>
    taker_step d (n, taker, S) [prevented_kind taker r, taker_cancelled taker]
      (n, less_leaves (incoming_leaves taker) taker, S)"
| cancels_resting: "meets S taker r \<Longrightarrow> order_account_id r = incoming_account_id taker \<Longrightarrow>
    incoming_self_trade_prevention taker = CancelResting \<Longrightarrow>
    taker_step d (n, taker, S) [prevented_kind taker r, resting_cancelled r]
      (n, taker, spec_delete (order_id r) S)"
| cancels_both: "meets S taker r \<Longrightarrow> order_account_id r = incoming_account_id taker \<Longrightarrow>
    incoming_self_trade_prevention taker = CancelBoth \<Longrightarrow>
    taker_step d (n, taker, S) [prevented_kind taker r, resting_cancelled r, taker_cancelled taker]
      (n, less_leaves (incoming_leaves taker) taker, spec_delete (order_id r) S)"
| decrements: "meets S taker r \<Longrightarrow> order_account_id r = incoming_account_id taker \<Longrightarrow>
    incoming_self_trade_prevention taker = DecrementAndCancel \<Longrightarrow>
    taker_step d (n, taker, S) (prevented_kind taker r # refresh_kinds r (takes taker r))
      (n, less_leaves (takes taker r) taker, spec_fill (order_id r) (takes taker r) S)"

inductive taker_run :: "InstrumentDefinition \<Rightarrow> Taking \<Rightarrow> EventKind list \<Rightarrow> Taking \<Rightarrow> bool" for d where
  done_: "\<forall>r. \<not> meets (snd (snd st)) (fst (snd st)) r \<Longrightarrow> taker_run d st [] st"
| more: "taker_step d st ks st' \<Longrightarrow> taker_run d st' ks' st'' \<Longrightarrow> taker_run d st (ks @ ks') st''"

lemmas taker_step_induct = taker_step.induct [split_format (complete)]

section \<open>Well-formed states\<close>

definition taker_wf :: "IncomingOrder \<Rightarrow> bool" where
  "taker_wf taker \<longleftrightarrow> fits_u64 (incoming_leaves taker) \<and>
     (case incoming_order_type taker of Market \<Rightarrow> True | Limit _ \<Rightarrow> True | _ \<Rightarrow> False)"

definition book_wf :: "BookSpec \<Rightarrow> bool" where
  "book_wf S \<longleftrightarrow> orders_ok S \<and> queues_ok S \<and> accounts_ok S"

lemma representsD: "represents b S \<Longrightarrow> book_wf S"
  by (simp add: represents_def core_rep_def acct_rep_def book_wf_def)

lemma meets_order:
  assumes "meets S taker r" "book_wf S"
  shows "spec_orders S (order_id r) = Some r" "order_wf r" "stop r = None" "strip r = r" "0 < takes taker r"
    "takes taker r \<le> leaves r" "takes taker r \<le> displayed r" "takes taker r \<le> incoming_leaves taker"
    "order_side r = opposite (incoming_side taker)" "0 < incoming_leaves taker"
proof -
  show r: "spec_orders S (order_id r) = Some r" and "order_side r = opposite (incoming_side taker)"
    and pos: "0 < incoming_leaves taker"
    using assms(1) by (simp_all add: meets_def)
  then show wf: "order_wf r" and "strip r = r"
    using assms(2) by (auto simp: book_wf_def orders_ok_def)
  have "order_id r \<in> set (members (queue S (order_side r) (order_price r)))"
    using assms(1) by (auto simp: meets_def best_maker_def)
  then show "stop r = None"
    using assms(2) r by (auto simp: book_wf_def rests_members rests_def)
  show "0 < takes taker r" "takes taker r \<le> leaves r" "takes taker r \<le> displayed r" "takes taker r \<le> incoming_leaves taker"
    using order_wf_displayed [OF wf] pos by (simp_all add: takes_def)
qed

lemma meets_unique: "meets S taker r \<Longrightarrow> meets S taker r' \<Longrightarrow> r = r'"
proof -
  assume m: "meets S taker r" "meets S taker r'"
  let ?s = "opposite (incoming_side taker)"
  have "\<not> better ?s (order_price r) (order_price r')" "\<not> better ?s (order_price r') (order_price r)"
    using m by (auto simp: meets_def best_maker_def)
  then have "order_price r = order_price r'"
    by (cases ?s) (auto simp: better_def)
  moreover have "order_side r = order_side r'"
    using m by (simp add: meets_def)
  ultimately have "order_id r = order_id r'"
    using m by (simp add: meets_def best_maker_def)
  then show "r = r'"
    using m by (simp add: meets_def)
qed

text \<open>Fills keep the abstract book well formed.\<close>

lemma requeued_reduce:
  assumes "queues_ok S" "spec_orders S x = Some r"
  shows "requeued S (spec_reduce x k S) x r (reduced k r)"
  using assms by (simp add: requeued_def spec_reduce_def queues_ok_def Let_def)

lemma requeued_refresh:
  assumes "queues_ok S" "spec_orders S x = Some r" "stop r = None" "\<not> is_hidden (order_display r)"
  shows "requeued S (spec_refresh x k S) x r (refreshed_order k r)"
proof -
  let ?q = "queue S (order_side r) (order_price r)"
  have x: "x \<in> set (fst ?q)" and d: "distinct (members ?q)"
    using assms by (auto simp: queues_ok_def rests_def)
  have "distinct (removeAll x (fst ?q) @ [x] @ snd ?q)" "set (removeAll x (fst ?q) @ [x]) = set (fst ?q)"
    using x d by (auto simp: members_def distinct_removeAll)
  then show ?thesis
    using d by (auto simp: requeued_def spec_refresh_def assms(2) members_def Let_def)
qed

lemma fill_cases:
  assumes wf: "book_wf S" and r: "spec_orders S x = Some r" "stop r = None" and k: "0 < k" "k \<le> leaves r"
  obtains (gone) "k = leaves r" "spec_fill x k S = spec_delete x S"
  | (kept) r' where "k < leaves r" "requeued S (spec_fill x k S) x r r'" "refilled r r'" "leaves r' = leaves r - k"
      "if k < displayed r then spec_fill x k S = spec_reduce x k S \<and> r' = reduced k r
       else spec_fill x k S = spec_refresh x k S \<and> r' = refreshed_order k r \<and> \<not> is_hidden (order_display r)"
proof -
  have ok: "orders_ok S" "queues_ok S"
    using wf by (simp_all add: book_wf_def)
  have rwf: "order_wf r" "strip r = r"
    using ok(1) r(1) by (auto simp: orders_ok_def)
  note dl = order_wf_displayed(2) [OF rwf(1)]
  consider "k = leaves r" | "k < leaves r" "k < displayed r" | "k < leaves r" "\<not> k < displayed r"
    using k(2) by linarith
  then show thesis
  proof cases
    case 1
    then show thesis
      by (intro gone) (simp_all add: spec_fill_def r)
  next
    case 2
    then show thesis
      using requeued_reduce [OF ok(2) r(1), of k] refilled_reduced(1) [OF rwf 2(2)]
      by (intro kept [of "reduced k r"]) (simp_all add: spec_fill_def r reduced_def)
  next
    case 3
    have shown: "\<not> is_hidden (order_display r)"
      using 3 rwf(1) by (cases "order_display r") (auto simp: order_wf_def)
    then show thesis
      using 3 requeued_refresh [OF ok(2) r shown, of k] refilled_refreshed [OF rwf 3(1)]
      by (intro kept [of "refreshed_order k r"]) (simp_all add: spec_fill_def r refreshed_order_def)
  qed
qed

lemma spec_fill_wf:
  assumes wf: "book_wf S" and r: "spec_orders S x = Some r" "stop r = None" and k: "0 < k" "k \<le> leaves r"
  shows "book_wf (spec_fill x k S)"
proof -
  have ok: "orders_ok S" "queues_ok S" "accounts_ok S"
    using wf by (simp_all add: book_wf_def)
  from wf r k show ?thesis
  proof (cases rule: fill_cases)
    case gone
    then show ?thesis
      using spec_delete_ok(1-3) [OF ok(1,2), of x] ok(3) by (simp add: book_wf_def)
  next
    case (kept r')
    then show ?thesis
      using requeued_ok(1-3) [OF kept(2,3) ok(1,2) r(1)] ok(3) by (simp add: book_wf_def)
  qed
qed

lemma spec_delete_wf: "book_wf S \<Longrightarrow> book_wf (spec_delete x S)"
  using spec_delete_ok(1-3) by (simp add: book_wf_def)

lemma step_wf:
  "taker_step d st ks st' \<Longrightarrow> book_wf (snd (snd st)) \<Longrightarrow> book_wf (snd (snd st'))"
proof (induction rule: taker_step.induct)
  case (trades S taker r n)
  note m = meets_order [OF trades(1)]
  show ?case
    using m(1-6) trades.prems spec_fill_wf [of S "order_id r" r "takes taker r"] by simp
next
  case (decrements S taker r n)
  note m = meets_order [OF decrements(1)]
  show ?case
    using m(1-6) decrements.prems spec_fill_wf [of S "order_id r" r "takes taker r"] by simp
qed (simp_all add: spec_delete_wf)

lemma step_taker_wf: "taker_step d st ks st' \<Longrightarrow> taker_wf (fst (snd st)) \<Longrightarrow> taker_wf (fst (snd st'))"
  by (induction rule: taker_step.induct) (auto simp: taker_wf_def less_leaves_def intro: fits_u64_mono)

text \<open>A state with an order to meet has a step.\<close>

lemma step_exists:
  assumes "meets S taker r"
  obtains ks st' where "taker_step d (n, taker, S) ks st'"
proof (cases "order_account_id r = incoming_account_id taker")
  case False
  then show thesis
    using that taker_step.trades [OF assms] by blast
next
  case True
  then show thesis
    using that taker_step.intros(2-5) [OF assms] by (cases "incoming_self_trade_prevention taker") blast+
qed

lemma fill_dom:
  assumes "book_wf S" "spec_orders S x = Some r" "stop r = None" "0 < k" "k \<le> leaves r"
  shows "card (dom (spec_orders (spec_fill x k S))) \<le> card (dom (spec_orders S))"
  using assms
proof (cases rule: fill_cases)
  case gone
  then show ?thesis
    using assms(1) spec_delete_ok(4) [of S x] by (simp add: book_wf_def)
next
  case (kept r')
  then show ?thesis
    using requeued_ok(4) [OF kept(2,3)] assms(1,2) by (simp add: book_wf_def)
qed

text \<open>Every step lowers the open quantity of the taker or the number of orders.\<close>

definition step_measure :: "Taking \<Rightarrow> nat" where
  "step_measure st = incoming_leaves (fst (snd st)) + card (dom (spec_orders (snd (snd st))))"

lemma delete_card:
  assumes "book_wf S" "spec_orders S x = Some r"
  shows "card (dom (spec_orders (spec_delete x S))) < card (dom (spec_orders S))"
  using assms psubset_card_mono [of "dom (spec_orders S)" "dom (spec_orders (spec_delete x S))"]
  by (auto simp: book_wf_def orders_ok_def spec_delete_def)

lemma step_decreases:
  "taker_step d st ks st' \<Longrightarrow> book_wf (snd (snd st)) \<Longrightarrow> step_measure st' < step_measure st"
proof (induction rule: taker_step.induct)
  case (trades S taker r n)
  note m = meets_order [OF trades(1)]
  show ?case
    using m fill_dom [of S "order_id r" r "takes taker r"] trades.prems by (simp add: step_measure_def less_leaves_def)
next
  case (decrements S taker r n)
  note m = meets_order [OF decrements(1)]
  show ?case
    using m fill_dom [of S "order_id r" r "takes taker r"] decrements.prems by (simp add: step_measure_def less_leaves_def)
next
  case (cancels_aggressor S taker r n)
  show ?case
    using meets_order(10) [OF cancels_aggressor(1)] cancels_aggressor.prems by (simp add: step_measure_def less_leaves_def)
next
  case (cancels_resting S taker r n)
  show ?case
    using delete_card [of S "order_id r" r] meets_order(1) [OF cancels_resting(1)] cancels_resting.prems
    by (simp add: step_measure_def)
next
  case (cancels_both S taker r n)
  show ?case
    using delete_card [of S "order_id r" r] meets_order(1) [OF cancels_both(1)] cancels_both.prems
    by (simp add: step_measure_def less_leaves_def)
qed

theorem run_exists:
  assumes "book_wf (snd (snd st))"
  shows "\<exists>ks st'. taker_run d st ks st'"
  using assms
proof (induction "step_measure st" arbitrary: st rule: less_induct)
  case less
  obtain n taker S where st: "st = (n, taker, S)"
    by (cases st)
  show ?case
  proof (cases "\<exists>r. meets S taker r")
    case True
    then obtain ks st' where step: "taker_step d st ks st'"
      unfolding st by (blast elim: step_exists)
    have "\<exists>ks' st''. taker_run d st' ks' st''"
      by (rule less.hyps [OF step_decreases [OF step less.prems] step_wf [OF step less.prems]])
    then show ?thesis
      using taker_run.more [OF step] by blast
  next
    case False
    then have "taker_run d st [] st"
      by (intro taker_run.done_) (simp add: st)
    then show ?thesis
      by blast
  qed
qed

end
