(* ===== verification/MatchingCorrect.thy ===== *)
theory MatchingCorrect
  imports MatchingSpec
begin

text \<open>
  The matching loop of the code performs exactly the runs of \<^theory_text>\<open>MatchingSpec\<close>: on a book that represents an
  abstract book it returns, its events are the events of the run with contiguous sequence numbers, and the
  book it leaves represents the abstract book the run leaves.
\<close>

section \<open>What an action has done\<close>

fun numbered :: "CommandId \<Rightarrow> TimestampNs \<Rightarrow> nat \<Rightarrow> EventKind list \<Rightarrow> Event list" where
  "numbered command time n [] = []"
| "numbered command time n (k # ks) =
     \<lparr>event_sequence = n, event_command_id = command, occurred_at = time, event_kind = k\<rparr> # numbered command time (Suc n) ks"

lemma numbered_append: "numbered c t n (ks @ ks') = numbered c t n ks @ numbered c t (n + length ks) ks'"
  by (induction ks arbitrary: n) auto

lemma length_numbered [simp]: "length (numbered c t n ks) = length ks"
  by (induction ks arbitrary: n) auto

fun is_trade :: "EventKind \<Rightarrow> bool" where
  "is_trade (TradeOccurred _) = True"
| "is_trade _ = False"

definition trades_in :: "EventKind list \<Rightarrow> nat" where
  "trades_in ks = length (filter is_trade ks)"

lemma trades_in_simps [simp]: "trades_in [] = 0" "trades_in (k # ks) = (if is_trade k then Suc (trades_in ks) else trades_in ks)"
    "trades_in (ks @ ks') = trades_in ks + trades_in ks'"
  by (simp_all add: trades_in_def)

definition book_frame :: "OrderBook \<Rightarrow> OrderBook" where
  "book_frame b = (book_rest b)\<lparr>next_sequence := 0, next_trade_id := 0\<rparr>"

lemma book_frame_simps [simp]:
  "book_frame (b\<lparr>next_sequence := n\<rparr>) = book_frame b" "book_frame (b\<lparr>next_trade_id := n\<rparr>) = book_frame b"
  by (simp_all add: book_frame_def book_rest_def)

lemma book_frame_rest: "book_rest b' = book_rest b \<Longrightarrow> book_frame b' = book_frame b"
  by (simp add: book_frame_def)

lemma represents_counters [simp]:
  "represents (b\<lparr>next_sequence := n\<rparr>) S = represents b S" "represents (b\<lparr>next_trade_id := n\<rparr>) S = represents b S"
proof -
  have "levels (b\<lparr>next_sequence := n\<rparr>) s = levels b s" "levels (b\<lparr>next_trade_id := n\<rparr>) s = levels b s" for s
    by (cases s; simp)+
  note l = this
  show "represents (b\<lparr>next_sequence := n\<rparr>) S = represents b S" "represents (b\<lparr>next_trade_id := n\<rparr>) S = represents b S"
    by (simp_all add: represents_def core_rep_def acct_rep_def levels_rep_def indexes_rep_def l)
qed

definition performs :: "CommandId \<Rightarrow> TimestampNs \<Rightarrow> Exec \<Rightarrow> EventKind list \<Rightarrow> Exec \<Rightarrow> bool" where
  "performs command time s ks s' \<longleftrightarrow>
     snd s' = (snd s)\<lparr>trace_events := trace_events (snd s) @ numbered command time (next_sequence (fst s)) ks\<rparr> \<and>
     next_sequence (fst s') = next_sequence (fst s) + length ks \<and>
     next_trade_id (fst s') = next_trade_id (fst s) + trades_in ks \<and>
     book_frame (fst s') = book_frame (fst s)"

lemma performs_Nil [simp]: "performs c t s [] s"
  by (simp add: performs_def)

lemma performs_trans: "performs c t s ks s' \<Longrightarrow> performs c t s' ks' s'' \<Longrightarrow> performs c t s (ks @ ks') s''"
  by (simp add: performs_def numbered_append)

lemma performs_book:
  assumes "book_rest b' = book_rest b"
  shows "performs c t (b, tr) [] (b', tr)"
  using book_rest_fields(10,11) [OF assms] book_frame_rest [OF assms] by (simp add: performs_def)

text \<open>Room for \<open>m\<close> more events and \<open>j\<close> more trades.\<close>

definition room :: "nat \<Rightarrow> nat \<Rightarrow> Exec \<Rightarrow> bool" where
  "room m j s \<longleftrightarrow>
     length (trace_events (snd s)) + m \<le> trace_maximum (snd s) \<and>
     fits_usize (trace_start (snd s) + trace_maximum (snd s)) \<and>
     fits_u64 (next_sequence (fst s) + m) \<and>
     0 < next_trade_id (fst s) \<and> fits_u64 (next_trade_id (fst s) + j)"

lemma room_performs:
  assumes "performs c t s ks s'" "room (length ks + m) (trades_in ks + j) s"
  shows "room m j s'"
  using assms by (simp add: performs_def room_def add.assoc)

lemma room_mono: "room m j s \<Longrightarrow> m' \<le> m \<Longrightarrow> j' \<le> j \<Longrightarrow> room m' j' s"
  by (auto simp: room_def fits_u64_def)

section \<open>Combinators\<close>

lemma and_do_simps [simp]:
  "m s = None \<Longrightarrow> and_do m f s = None"
  "m s = Some (Inl e, s') \<Longrightarrow> and_do m f s = Some (Inl e, s')"
  "m s = Some (Inr a, s') \<Longrightarrow> and_do m f s = f a s'"
  by (simp_all add: and_do_def)

lemma give_simp [simp]: "give a s = Some (Inr a, s)"
  by (simp add: give_def)

lemma observe_simps [simp]: "f (fst s) = Some a \<Longrightarrow> observe f s = Some (Inr a, s)"
  by (simp add: observe_def)

lemma quantity_simp [simp]: "quantity q = (if q = 0 then None else Some q)"
  by (simp add: quantity_def quantity_new_def)

lemma push_event_ok:
  assumes "room (Suc m) j s" "\<not> is_trade k"
  obtains s' where "push_event c t k s = Some (Inr (), s')" "performs c t s [k] s'" "room m j s'"
    "\<And>S. represents (fst s') S = represents (fst s) S"
proof -
  let ?e = "\<lparr>event_sequence = next_sequence (fst s), event_command_id = c, occurred_at = t, event_kind = k\<rparr>"
  let ?s = "((fst s)\<lparr>next_sequence := Suc (next_sequence (fst s))\<rparr>, (snd s)\<lparr>trace_events := trace_events (snd s) @ [?e]\<rparr>)"
  have r: "length (trace_events (snd s)) < trace_maximum (snd s)" "fits_u64 (Suc (next_sequence (fst s)))"
      "fits_u64 (trace_start (snd s) + length (trace_events (snd s)))"
    using assms(1) by (auto simp: room_def fits_u64_def)
  have p: "performs c t s [k] ?s"
    using assms(2) by (simp add: performs_def)
  have "push_event c t k s = Some (Inr (), ?s)"
    using r by (simp add: push_event_def trace_push_def Let_def)
  then show thesis
    using that [OF _ p room_performs [OF p]] assms by simp
qed

lemma push_cancelled_ok:
  assumes "room (Suc m) j s" "0 < q"
  obtains s' where "push_cancelled c t x q why s = Some (Inr (), s')" "performs c t s [OrderCancelled x q why] s'" "room m j s'"
    "\<And>S. represents (fst s') S = represents (fst s) S"
proof -
  obtain s' where "push_event c t (OrderCancelled x q why) s = Some (Inr (), s')"
    "performs c t s [OrderCancelled x q why] s'" "room m j s'" "\<And>S. represents (fst s') S = represents (fst s) S"
    by (rule push_event_ok [OF assms(1), of "OrderCancelled x q why"]) (simp, rule that)
  then show thesis
    using that assms(2) by (simp add: push_cancelled_def)
qed

section \<open>Actions on a resting order\<close>

lemma refreshed_positive:
  assumes "order_wf r" "k < leaves r"
  shows "0 < displayed (refreshed_order k r)"
  using assms by (auto simp: refreshed_order_def order_wf_def split: OrderDisplay.splits intro!: working_lots_pos)

lemma fill_resting_ok:
  assumes rep: "represents (fst s) S" and r: "spec_orders S x = Some r" "stop r = None" and k: "0 < k" "k \<le> leaves r"
    and room: "room (length (refresh_kinds r k) + m) j s"
  obtains s' where "fill_resting x k (order_price r) c t s = Some (Inr (), s')" "performs c t s (refresh_kinds r k) s'"
    "represents (fst s') (spec_fill x k S)" "room m j s'"
proof -
  obtain b tr where s: "s = (b, tr)"
    by (cases s)
  have wf: "order_wf r"
    using representsD [OF rep] r(1) by (auto simp: book_wf_def orders_ok_def)
  have "represents b S"
    using rep by (simp add: s)
  from decrement_resting_correct [OF this r k] obtain b' where
    b': "decrement_resting x k (order_price r) b = Some (refresh_of r k, b')" "represents b' (spec_fill x k S)"
      "book_rest b' = book_rest b"
    by metis
  have up: "update (decrement_resting x k (order_price r)) s = Some (Inr (refresh_of r k), (b', tr))"
    by (simp add: update_def s b'(1))
  have p0: "performs c t s [] (b', tr)"
    using performs_book [OF b'(3)] by (simp add: s)
  show thesis
  proof (cases "displayed r \<le> k \<and> k < leaves r")
    case False
    then have none: "refresh_of r k = None" "refresh_kinds r k = []"
      by (auto simp: refresh_of_def refresh_kinds_def)
    have "room m j (b', tr)"
      using room_performs [OF p0, of m j] room by (simp add: none)
    then show thesis
      using that [of "(b', tr)"] up p0 b'(2) by (simp add: fill_resting_def none)
  next
    case True
    let ?k = "OrderRefreshed (order_id r) (order_price r) (displayed (refreshed_order k r)) (leaves r - k)"
    have kinds: "refresh_kinds r k = [?k]"
      using True by (simp add: refresh_kinds_def)
    have "room (Suc m) j (b', tr)"
      using room_performs [OF p0, of "Suc m" j] room by (simp add: kinds)
    then obtain s' where s': "push_event c t ?k (b', tr) = Some (Inr (), s')" "performs c t (b', tr) [?k] s'" "room m j s'"
      "\<And>S. represents (fst s') S = represents b' S"
      by (rule push_event_ok [of _ _ _ ?k c t]) (simp, simp add: that)
    have "push_refresh c t (the (refresh_of r k)) (b', tr) = Some (Inr (), s')"
      using True s'(1) refreshed_positive [OF wf] by (simp add: push_refresh_def refresh_of_def)
    then have "fill_resting x k (order_price r) c t s = Some (Inr (), s')"
      using up True by (simp add: fill_resting_def refresh_of_def)
    then show thesis
      using that performs_trans [OF p0 s'(2)] s'(3,4) b'(2) by (simp add: kinds)
  qed
qed

lemma cancel_resting_ok:
  assumes rep: "represents (fst s) S" and r: "spec_orders S x = Some r" "stop r = None" and room: "room (Suc m) j s"
  obtains s' where "cancel_resting x (order_price r) c t s = Some (Inr (), s')" "performs c t s [resting_cancelled r] s'"
    "represents (fst s') (spec_delete x S)" "room m j s'"
proof -
  obtain b tr where s: "s = (b, tr)"
    by (cases s)
  have wf: "order_wf r"
    using representsD [OF rep] r(1) by (auto simp: book_wf_def orders_ok_def)
  have "represents b S"
    using rep by (simp add: s)
  from remove_order_at_level_correct [OF this r] obtain b' n where
    b': "remove_order_at_level x (order_price r) b = Some (n, b')" "strip n = r"
      "represents b' (spec_delete x S)" "book_rest b' = book_rest b"
    by metis
  have n: "order_id n = order_id r" "leaves n = leaves r"
    by (simp_all flip: b'(2))
  have p0: "performs c t s [] (b', tr)"
    using performs_book [OF b'(4)] by (simp add: s)
  have "room (Suc m) j (b', tr)"
    using room_performs [OF p0, of "Suc m" j] room by simp
  then obtain s' where s': "push_cancelled c t (order_id r) (leaves r) SelfTradeResting (b', tr) = Some (Inr (), s')"
    "performs c t (b', tr) [resting_cancelled r] s'" "room m j s'" "\<And>S. represents (fst s') S = represents b' S"
    by (rule push_cancelled_ok [of _ _ _ "leaves r" c t "order_id r" SelfTradeResting])
      (use order_wf_displayed(5) [OF wf] in simp, simp add: that resting_cancelled_def)
  have "update (remove_order_at_level x (order_price r)) s = Some (Inr n, (b', tr))"
    by (simp add: update_def s b'(1))
  then have "cancel_resting x (order_price r) c t s = Some (Inr (), s')"
    using s'(1) by (simp add: cancel_resting_def n)
  then show thesis
    using that performs_trans [OF p0 s'(2)] s'(3,4) b'(3) by simp
qed

section \<open>Finding the order to meet\<close>

lemma crosses_price_defined:
  "taker_wf taker \<Longrightarrow> crosses_price (incoming_side taker) (incoming_order_type taker) p \<noteq> None"
  by (cases "incoming_side taker"; cases "incoming_order_type taker") (simp_all add: taker_wf_def)

lemma level_of_eq_None: "level_of R q = None \<longleftrightarrow> members q = []"
  by (simp add: level_of_def)

lemma best_of_side:
  assumes "represents b S"
  shows "best (levels b s) = Some (p, lv) \<longleftrightarrow>
    level_of (spec_orders S) (queue S s p) = Some lv \<and> (\<forall>q. members (queue S s q) \<noteq> [] \<longrightarrow> \<not> better s q p)"
    "best (levels b s) = None \<longleftrightarrow> (\<forall>q. members (queue S s q) = [])"
proof -
  have l: "levels_ok (levels b s)" "levels_side (levels b s) = s" "\<And>q. levels_get (levels b s) q = level_of (spec_orders S) (queue S s q)"
    using assms by (simp_all add: represents_def core_rep_def levels_rep_def)
  show "best (levels b s) = Some (p, lv) \<longleftrightarrow>
    level_of (spec_orders S) (queue S s p) = Some lv \<and> (\<forall>q. members (queue S s q) \<noteq> [] \<longrightarrow> \<not> better s q p)"
    using level_of_eq_None [of "spec_orders S"] by (simp add: levels_best_iff [OF l(1)] l(2,3) del: not_None_eq)
  show "best (levels b s) = None \<longleftrightarrow> (\<forall>q. members (queue S s q) = [])"
    by (simp add: levels_best_None [OF l(1)] fun_eq_iff l(3) level_of_eq_None)
qed

lemma best_maker_of_level:
  assumes "represents b S" "best (levels b s) = Some (p, lv)"
  obtains r where "best_maker S s p (level_head lv)" "spec_orders S (level_head lv) = Some r" "order_id r = level_head lv"
    "order_side r = s" "order_price r = p"
proof -
  have lv: "level_of (spec_orders S) (queue S s p) = Some lv" "\<forall>q. members (queue S s q) \<noteq> [] \<longrightarrow> \<not> better s q p"
    using assms(2) best_of_side(1) [OF assms(1)] by simp_all
  have ne: "members (queue S s p) \<noteq> []" "level_head lv = hd (members (queue S s p))"
    using lv(1) by (auto simp: level_of_def split: if_splits)
  have bm: "best_maker S s p (level_head lv)"
    using lv(2) ne by (simp add: best_maker_def)
  have "level_head lv \<in> set (members (queue S s p))"
    using ne by simp
  moreover have ok: "orders_ok S" "queues_ok S"
    using representsD [OF assms(1)] by (simp_all add: book_wf_def)
  ultimately obtain r where "spec_orders S (level_head lv) = Some r" "order_side r = s" "order_price r = p"
    by (auto simp: rests_members rests_def split: option.splits)
  then show thesis
    using that bm ok(1) by (auto simp: orders_ok_def)
qed

lemma best_opposite_order_correct:
  assumes rep: "represents b S" and wf: "taker_wf taker" and pos: "0 < incoming_leaves taker"
  shows "(\<exists>r. meets S taker r \<and> best_opposite_order (incoming_side taker) (incoming_order_type taker) b = Some (Some (order_id r, order_price r)))
    \<or> (\<forall>r. \<not> meets S taker r) \<and> best_opposite_order (incoming_side taker) (incoming_order_type taker) b = Some None"
proof -
  let ?s = "opposite (incoming_side taker)"
  have l: "levels_ok (levels b ?s)"
    using rep by (simp add: represents_def core_rep_def levels_rep_def)
  show ?thesis
  proof (cases "best (levels b ?s)")
    case None
    then have "\<not> meets S taker r" for r
      using best_of_side(2) [OF rep, of ?s] by (auto simp: meets_def best_maker_def)
    then show ?thesis
      using None by (simp add: best_opposite_order_def best_level_with_handle_eq [OF l])
  next
    case (Some bl)
    obtain p lv where bl: "bl = (p, lv)"
      by (cases bl)
    obtain c where c: "crosses_price (incoming_side taker) (incoming_order_type taker) p = Some c"
      using crosses_price_defined [OF wf, of p] by auto
    obtain r where r: "best_maker S ?s p (level_head lv)" "spec_orders S (level_head lv) = Some r" "order_id r = level_head lv"
      "order_side r = ?s" "order_price r = p"
      using best_maker_of_level [OF rep] Some bl by blast
    have found: "best_opposite_order (incoming_side taker) (incoming_order_type taker) b =
        Some (if c then Some (level_head lv, p) else None)"
      using Some c by (simp add: best_opposite_order_def best_level_with_handle_eq [OF l] bl)
    show ?thesis
    proof (cases c)
      case True
      then have "meets S taker r"
        using r c pos by (simp add: meets_def)
      then show ?thesis
        using found True r by auto
    next
      case False
      have "\<not> meets S taker r'" for r'
      proof
        assume m: "meets S taker r'"
        have "\<not> better ?s (order_price r') p" "\<not> better ?s p (order_price r')"
          using m r(1) by (auto simp: meets_def best_maker_def)
        then have "order_price r' = p"
          by (cases ?s) (auto simp: better_def)
        then show False
          using m c False by (simp add: meets_def)
      qed
      then show ?thesis
        using found False by simp
    qed
  qed
qed

section \<open>One turn\<close>

lemma book_frame_fields:
  assumes "book_frame b' = book_frame b"
  shows "book_definition b' = book_definition b" "limits b' = limits b" "seen_order_ids b' = seen_order_ids b"
    "trading_state b' = trading_state b" "reports b' = reports b" "account_controls b' = account_controls b"
    "expiry_watermark b' = expiry_watermark b" "stop_reference b' = stop_reference b"
    "retained_event_count b' = retained_event_count b" "instance_id b' = instance_id b"
  using arg_cong [OF assms, of book_definition] arg_cong [OF assms, of limits] arg_cong [OF assms, of seen_order_ids]
    arg_cong [OF assms, of trading_state] arg_cong [OF assms, of reports] arg_cong [OF assms, of account_controls]
    arg_cong [OF assms, of expiry_watermark] arg_cong [OF assms, of stop_reference]
    arg_cong [OF assms, of retained_event_count] arg_cong [OF assms, of instance_id]
  by (simp_all add: book_frame_def book_rest_def)

lemma execute_against_ok:
  assumes rep: "represents (fst s) S" and m: "meets S taker r" and n: "strip n = r"
    and room: "room (Suc (length (refresh_kinds r (takes taker r)) + m)) (Suc j) s"
  defines "ks \<equiv> TradeOccurred (trade_of (book_definition (fst s)) (next_trade_id (fst s)) taker r) # refresh_kinds r (takes taker r)"
  obtains s' where "execute_against taker n (order_price r) c t s = Some (Inr (less_leaves (takes taker r) taker), s')"
    "performs c t s ks s'" "represents (fst s') (spec_fill (order_id r) (takes taker r) S)" "room m j s'"
proof -
  let ?k = "takes taker r" and ?t = "trade_of (book_definition (fst s)) (next_trade_id (fst s)) taker r"
  note mo = meets_order [OF m representsD [OF rep]]
  have nf: "order_id n = order_id r" "displayed n = displayed r" "order_account_id n = order_account_id r" "order_price n = order_price r"
    by (simp_all flip: n)
  have k: "min (incoming_leaves taker) (displayed n) = ?k"
    by (simp add: takes_def nf)
  have ids: "0 < next_trade_id (fst s)" "fits_u64 (Suc (next_trade_id (fst s)))"
    using room by (auto simp: room_def fits_u64_def)
  let ?s1 = "((fst s)\<lparr>next_trade_id := Suc (next_trade_id (fst s))\<rparr>, snd s)"
  have trade: "make_trade taker n ?k s = Some (Inr ?t, ?s1)"
    using ids mo(5) by (simp add: make_trade_def identifier_new_def Let_def trade_of_def nf)
  let ?e = "\<lparr>event_sequence = next_sequence (fst s), event_command_id = c, occurred_at = t, event_kind = TradeOccurred ?t\<rparr>"
  let ?s2 = "((fst s)\<lparr>next_trade_id := Suc (next_trade_id (fst s)), next_sequence := Suc (next_sequence (fst s))\<rparr>,
              (snd s)\<lparr>trace_events := trace_events (snd s) @ [?e]\<rparr>)"
  have "length (trace_events (snd s)) < trace_maximum (snd s)" "fits_u64 (Suc (next_sequence (fst s)))"
      "fits_u64 (trace_start (snd s) + length (trace_events (snd s)))"
    using room by (auto simp: room_def fits_u64_def)
  then have push: "push_event c t (TradeOccurred ?t) ?s1 = Some (Inr (), ?s2)"
    by (simp add: push_event_def trace_push_def Let_def)
  have p: "performs c t s [TradeOccurred ?t] ?s2"
    by (simp add: performs_def)
  have room2: "room (length (refresh_kinds r ?k) + m) j ?s2"
    using room_performs [OF p, of "length (refresh_kinds r ?k) + m" j] room by simp
  have rep2: "represents (fst ?s2) S"
    using rep by simp
  obtain s' where s': "fill_resting (order_id r) ?k (order_price r) c t ?s2 = Some (Inr (), s')"
    "performs c t ?s2 (refresh_kinds r ?k) s'" "represents (fst s') (spec_fill (order_id r) ?k S)" "room m j s'"
    by (rule fill_resting_ok [OF rep2 mo(1,3,5,6) room2]) (rule that)
  have "execute_against taker n (order_price r) c t s = Some (Inr (less_leaves ?k taker), s')"
    using trade push s'(1) unfolding execute_against_def k nf(1) Let_def by (simp add: less_leaves_def)
  then show thesis
    using that performs_trans [OF p s'(2)] s'(3,4) by (simp add: ks_def)
qed

lemma cancel_incoming_ok:
  assumes "room (Suc m) j s" "0 < incoming_leaves taker"
  obtains s' where "cancel_incoming taker SelfTradeAggressor c t s = Some (Inr (less_leaves (incoming_leaves taker) taker), s')"
    "performs c t s [taker_cancelled taker] s'" "room m j s'" "\<And>S. represents (fst s') S = represents (fst s) S"
proof -
  obtain s' where "push_cancelled c t (incoming_order_id taker) (incoming_leaves taker) SelfTradeAggressor s = Some (Inr (), s')"
    "performs c t s [OrderCancelled (incoming_order_id taker) (incoming_leaves taker) SelfTradeAggressor] s'" "room m j s'"
    "\<And>S. represents (fst s') S = represents (fst s) S"
    by (rule push_cancelled_ok [OF assms]) (rule that)
  then show thesis
    using that by (simp add: cancel_incoming_def taker_cancelled_def less_leaves_def)
qed

text \<open>The self-trade branch, after the event that reports it.\<close>

lemma prevent_self_trade_ok:
  assumes rep: "represents (fst s) S" and m: "meets S taker r" and n: "strip n = r"
    and self: "order_account_id r = incoming_account_id taker"
    and step: "taker_step d (i, taker, S) ks (i', taker', S')" and room: "room (length ks + m) j s"
  obtains s' where "prevent_self_trade taker n (order_price r) c t s = Some (Inr taker', s')"
    "performs c t s ks s'" "represents (fst s') S'" "room m j s'" "i' = i" "trades_in ks = 0"
proof -
  note mo = meets_order [OF m representsD [OF rep]]
  have nf: "order_id n = order_id r" "displayed n = displayed r"
    by (simp_all flip: n)
  have k: "min (incoming_leaves taker) (displayed n) = takes taker r"
    by (simp add: takes_def nf)
  have same: "r' = r" if "meets S taker r'" for r'
    using that m by (rule meets_unique)
  obtain rest where ks: "ks = prevented_kind taker r # rest"
    using step same self by (cases rule: taker_step.cases) blast+
  have "room (Suc (length rest + m)) j s"
    using room by (simp add: ks)
  then obtain s1 where s1: "push_event c t (prevented_kind taker r) s = Some (Inr (), s1)" "performs c t s [prevented_kind taker r] s1"
    "room (length rest + m) j s1" "\<And>S. represents (fst s1) S = represents (fst s) S"
    by (rule push_event_ok [of _ _ _ "prevented_kind taker r" c t]) (simp add: prevented_kind_def, rule that)
  have rep1: "represents (fst s1) S"
    using rep s1(4) by simp
  have start: "prevent_self_trade taker n (order_price r) c t s =
      (case incoming_self_trade_prevention taker of
           CancelAggressor \<Rightarrow> cancel_incoming taker SelfTradeAggressor c t
         | CancelResting \<Rightarrow> and_do (cancel_resting (order_id r) (order_price r) c t) (\<lambda>_. give taker)
         | CancelBoth \<Rightarrow> and_do (cancel_resting (order_id r) (order_price r) c t) (\<lambda>_.
               cancel_incoming taker SelfTradeAggressor c t)
         | DecrementAndCancel \<Rightarrow> and_do (fill_resting (order_id r) (takes taker r) (order_price r) c t) (\<lambda>_.
               give (taker\<lparr>incoming_leaves := incoming_leaves taker - takes taker r\<rparr>))) s1"
    using s1(1) mo(5) unfolding prevent_self_trade_def k nf(1) Let_def by (simp add: prevented_kind_def)
  from step show thesis
  proof (cases rule: taker_step.cases)
    case (trades r')
    then show thesis
      using same self by blast
  next
    case (cancels_aggressor r')
    have e: "rest = [taker_cancelled taker]"
      using cancels_aggressor ks same by simp
    obtain s' where s': "cancel_incoming taker SelfTradeAggressor c t s1 = Some (Inr (less_leaves (incoming_leaves taker) taker), s')"
      "performs c t s1 [taker_cancelled taker] s'" "room m j s'" "\<And>S. represents (fst s') S = represents (fst s1) S"
      using s1(3) by (auto simp: e elim: cancel_incoming_ok [OF _ mo(10), of m j s1 c t])
    show thesis
      by (rule that [of s']) (use cancels_aggressor start s' rep1 performs_trans [OF s1(2) s'(2)] in
        \<open>simp_all add: ks e taker_cancelled_def prevented_kind_def\<close>)
  next
    case (cancels_resting r')
    have e: "rest = [resting_cancelled r]"
      using cancels_resting ks same by simp
    have room1: "room (Suc m) j s1"
      using s1(3) by (simp add: e)
    obtain s' where s': "cancel_resting (order_id r) (order_price r) c t s1 = Some (Inr (), s')"
      "performs c t s1 [resting_cancelled r] s'" "represents (fst s') (spec_delete (order_id r) S)" "room m j s'"
      by (rule cancel_resting_ok [OF rep1 mo(1,3) room1]) (rule that)
    have "r' = r"
      using cancels_resting same by simp
    then show thesis
      by (intro that [of s']) (use cancels_resting start s' performs_trans [OF s1(2) s'(2)] in
        \<open>simp_all add: ks e resting_cancelled_def prevented_kind_def\<close>)
  next
    case (cancels_both r')
    have e: "rest = [resting_cancelled r, taker_cancelled taker]"
      using cancels_both ks same by simp
    have room1: "room (Suc (Suc m)) j s1"
      using s1(3) by (simp add: e)
    obtain s2 where s2: "cancel_resting (order_id r) (order_price r) c t s1 = Some (Inr (), s2)"
      "performs c t s1 [resting_cancelled r] s2" "represents (fst s2) (spec_delete (order_id r) S)" "room (Suc m) j s2"
      by (rule cancel_resting_ok [OF rep1 mo(1,3) room1]) (rule that)
    obtain s' where s': "cancel_incoming taker SelfTradeAggressor c t s2 = Some (Inr (less_leaves (incoming_leaves taker) taker), s')"
      "performs c t s2 [taker_cancelled taker] s'" "room m j s'" "\<And>S. represents (fst s') S = represents (fst s2) S"
      by (rule cancel_incoming_ok [OF s2(4) mo(10)]) (rule that)
    have "r' = r"
      using cancels_both same by simp
    then show thesis
      by (intro that [of s']) (use cancels_both start s2 s' performs_trans [OF s1(2) performs_trans [OF s2(2) s'(2)]] in
        \<open>simp_all add: ks e resting_cancelled_def taker_cancelled_def prevented_kind_def\<close>)
  next
    case (decrements r')
    have e: "rest = refresh_kinds r (takes taker r)"
      using decrements ks same by simp
    have room1: "room (length (refresh_kinds r (takes taker r)) + m) j s1"
      using s1(3) by (simp add: e)
    obtain s' where s': "fill_resting (order_id r) (takes taker r) (order_price r) c t s1 = Some (Inr (), s')"
      "performs c t s1 (refresh_kinds r (takes taker r)) s'" "represents (fst s') (spec_fill (order_id r) (takes taker r) S)" "room m j s'"
      by (rule fill_resting_ok [OF rep1 mo(1,3,5,6) room1]) (rule that)
    have "r' = r"
      using decrements same by simp
    then show thesis
      by (intro that [of s']) (use decrements start s' performs_trans [OF s1(2) s'(2)] in
        \<open>simp_all add: ks e less_leaves_def prevented_kind_def refresh_kinds_def\<close>)
  qed
qed

lemma performs_fields:
  assumes "performs c t s ks s'"
  shows "book_definition (fst s') = book_definition (fst s)" "limits (fst s') = limits (fst s)"
  using assms book_frame_fields(1,2) [of "fst s'" "fst s"] by (simp_all add: performs_def)

lemma match_turn_ok:
  assumes rep: "represents (fst s) S" and wf: "taker_wf taker"
    and step: "taker_step (book_definition (fst s)) (next_trade_id (fst s), taker, S) ks (i, taker', S')"
    and room: "room (length ks + m) (trades_in ks + j) s"
  obtains s' where "match_turn c t taker s = Some (Inr (Some taker'), s')"
    "performs c t s ks s'" "represents (fst s') S'" "room m j s'" "i = next_trade_id (fst s')"
proof -
  obtain r where m: "meets S taker r"
    using step by (cases rule: taker_step.cases) blast+
  note mo = meets_order [OF m representsD [OF rep]]
  have "\<exists>r. meets S taker r \<and> best_opposite_order (incoming_side taker) (incoming_order_type taker) (fst s) =
      Some (Some (order_id r, order_price r))"
    using best_opposite_order_correct [OF rep wf mo(10)] m by blast
  then have found: "best_opposite_order (incoming_side taker) (incoming_order_type taker) (fst s) =
      Some (Some (order_id r, order_price r))"
    using meets_unique [OF m] by blast
  obtain n where n: "orders (fst s) (order_id r) = Some n" "strip n = r"
    using core_orders(1) [of "fst s" S "order_id r"] rep mo(1) by (cases "orders (fst s) (order_id r)") (auto simp: represents_def)
  have nf: "order_account_id n = order_account_id r"
    by (simp flip: n(2))
  have turn: "match_turn c t taker s = and_do
      (if order_account_id r = incoming_account_id taker then prevent_self_trade taker n (order_price r) c t
       else execute_against taker n (order_price r) c t) (\<lambda>taker'. give (Some taker')) s"
    using found n(1) by (simp add: match_turn_def nf)
  show thesis
  proof (cases "order_account_id r = incoming_account_id taker")
    case True
    have room': "room (length ks + m) j s"
      by (rule room_mono [OF room]) simp_all
    obtain s' where "prevent_self_trade taker n (order_price r) c t s = Some (Inr taker', s')"
      "performs c t s ks s'" "represents (fst s') S'" "room m j s'" "i = next_trade_id (fst s)" "trades_in ks = 0"
      by (rule prevent_self_trade_ok [OF rep m n(2) True step room']) (rule that)
    then show thesis
      using that turn True by (simp add: performs_def)
  next
    case False
    from step obtain r' where r': "meets S taker r'"
      "ks = TradeOccurred (trade_of (book_definition (fst s)) (next_trade_id (fst s)) taker r') # refresh_kinds r' (takes taker r')"
      "i = Suc (next_trade_id (fst s))" "taker' = less_leaves (takes taker r') taker"
      "S' = spec_fill (order_id r') (takes taker r') S"
      by (cases rule: taker_step.cases) (use False meets_unique [OF m] in blast)+
    have same: "r' = r"
      by (rule meets_unique [OF r'(1) m])
    have no: "trades_in (refresh_kinds r (takes taker r)) = 0"
      by (simp add: refresh_kinds_def)
    have room': "room (Suc (length (refresh_kinds r (takes taker r)) + m)) (Suc j) s"
      using room by (simp add: r'(2) same no)
    obtain s' where "execute_against taker n (order_price r) c t s = Some (Inr (less_leaves (takes taker r) taker), s')"
      "performs c t s (TradeOccurred (trade_of (book_definition (fst s)) (next_trade_id (fst s)) taker r) #
         refresh_kinds r (takes taker r)) s'"
      "represents (fst s') (spec_fill (order_id r) (takes taker r) S)" "room m j s'"
      by (rule execute_against_ok [OF rep m n(2) room']) (rule that)
    then show thesis
      using that turn False no by (simp add: performs_def r'(2-5) same)
  qed
qed

lemma match_turn_stop:
  assumes "represents (fst s) S" "taker_wf taker" "0 < incoming_leaves taker" "\<forall>r. \<not> meets S taker r"
  shows "match_turn c t taker s = Some (Inr None, s)"
  using best_opposite_order_correct [OF assms(1-3)] assms(4) by (simp add: match_turn_def)

section \<open>The loop\<close>

theorem match_loop_ok:
  assumes "taker_run d st ks st'" "st = (n, taker, S)" "st' = (n', taker', S')"
    and "represents (fst s) S" "taker_wf taker" "d = book_definition (fst s)" "n = next_trade_id (fst s)"
    and "room (length ks + m) (trades_in ks + j) s"
  shows "\<exists>s'. match_loop c t taker s = Some (Inr taker', s') \<and> performs c t s ks s' \<and> represents (fst s') S' \<and>
    room m j s' \<and> n' = next_trade_id (fst s') \<and> taker_wf taker'"
  using assms
proof (induction arbitrary: n taker S s rule: taker_run.induct)
  case (done_ st)
  show ?case
  proof (cases "incoming_leaves taker = 0")
    case True
    then have "match_loop c t taker s = Some (Inr taker, s)"
      by (subst match_loop.simps) simp
    then show ?thesis
      using done_ by simp
  next
    case False
    then have "match_turn c t taker s = Some (Inr None, s)"
      using done_ by (intro match_turn_stop) auto
    then have "match_loop c t taker s = Some (Inr taker, s)"
      using False by (subst match_loop.simps) simp
    then show ?thesis
      using done_ by simp
  qed
next
  case (more st ks1 st1 ks2 st2)
  obtain i taker1 S1 where st1: "st1 = (i, taker1, S1)"
    by (cases st1)
  have pos: "0 < incoming_leaves taker"
    using more.hyps(1) more.prems(1) by (cases rule: taker_step.cases) (auto simp: meets_def)
  have step: "taker_step (book_definition (fst s)) (next_trade_id (fst s), taker, S) ks1 (i, taker1, S1)"
    using more.hyps(1) more.prems(1,5,6) by (simp add: st1)
  have room1: "room (length ks1 + (length ks2 + m)) (trades_in ks1 + (trades_in ks2 + j)) s"
    using more.prems(7) by (simp add: add.assoc)
  obtain s1 where s1: "match_turn c t taker s = Some (Inr (Some taker1), s1)" "performs c t s ks1 s1"
    "represents (fst s1) S1" "room (length ks2 + m) (trades_in ks2 + j) s1" "i = next_trade_id (fst s1)"
    by (rule match_turn_ok [OF more.prems(3,4) step room1]) (rule that)
  have d1: "d = book_definition (fst s1)"
    using performs_fields(1) [OF s1(2)] more.prems(5) by simp
  have wf1: "taker_wf taker1"
    using step_taker_wf [OF more.hyps(1)] more.prems(1,4) by (simp add: st1)
  from more.IH [OF st1 more.prems(2) s1(3) wf1 d1 s1(5,4)] obtain s' where
    s': "match_loop c t taker1 s1 = Some (Inr taker', s') \<and> performs c t s1 ks2 s' \<and> represents (fst s') S' \<and>
      room m j s' \<and> n' = next_trade_id (fst s') \<and> taker_wf taker'"
    by blast
  have "match_loop c t taker s = match_loop c t taker1 s1"
    using pos s1(1) by (subst match_loop.simps) simp
  then show ?case
    using s' performs_trans [OF s1(2), of ks2 s'] by auto
qed

section \<open>The remainder\<close>

definition rest_kinds :: "IncomingOrder \<Rightarrow> TimeInForce \<Rightarrow> EventKind list" where
  "rest_kinds taker tif =
     (if incoming_leaves taker = 0 then []
      else case incoming_order_type taker of
        Limit price \<Rightarrow>
          (if may_rest tif
           then [OrderRested (incoming_order_id taker) price (incoming_leaves taker)
                  (working_lots (incoming_display taker) (incoming_leaves taker))]
           else [OrderCancelled (incoming_order_id taker) (incoming_leaves taker) UnfilledRemainder])
      | _ \<Rightarrow> [OrderCancelled (incoming_order_id taker) (incoming_leaves taker) UnfilledRemainder])"

definition spec_rest :: "IncomingOrder \<Rightarrow> TimeInForce \<Rightarrow> BookSpec \<Rightarrow> BookSpec" where
  "spec_rest taker tif S =
     (if incoming_leaves taker = 0 then S
      else case incoming_order_type taker of
        Limit price \<Rightarrow> if may_rest tif then spec_insert (resting_of taker price tif) S else S
      | _ \<Rightarrow> S)"

text \<open>What a remainder that rests needs of the book.\<close>

definition rest_fits :: "IncomingOrder \<Rightarrow> Price \<Rightarrow> TimeInForce \<Rightarrow> BookSpec \<Rightarrow> OrderBook \<Rightarrow> bool" where
  "rest_fits taker price tif S b \<longleftrightarrow>
     spec_orders S (incoming_order_id taker) = None \<and> order_wf (resting_of taker price tif) \<and>
     card (dom (spec_orders S)) < max_active_orders (limits b) \<and>
     (account_orders b (incoming_account_id taker) \<noteq> None \<or> card (dom (account_orders b)) < max_active_accounts (limits b)) \<and>
     (levels_get (levels b (incoming_side taker)) price \<noteq> None \<or>
      levels_len (levels b (incoming_side taker)) < max_price_levels_per_side (limits b))"

lemma rest_or_cancel_ok:
  assumes rep: "represents (fst s) S" and room: "room (length (rest_kinds taker tif) + m) j s"
    and fits: "\<And>price. incoming_order_type taker = Limit price \<Longrightarrow> may_rest tif \<Longrightarrow> 0 < incoming_leaves taker \<Longrightarrow>
      rest_fits taker price tif S (fst s)"
  obtains s' where "rest_or_cancel taker tif c t s = Some (Inr (), s')" "performs c t s (rest_kinds taker tif) s'"
    "represents (fst s') (spec_rest taker tif S)" "room m j s'"
proof -
  consider (none) "incoming_leaves taker = 0"
    | (rests) price where "0 < incoming_leaves taker" "incoming_order_type taker = Limit price" "may_rest tif"
    | (cancels) "0 < incoming_leaves taker" "\<forall>price. incoming_order_type taker = Limit price \<longrightarrow> \<not> may_rest tif"
    by (cases "incoming_order_type taker") auto
  then show thesis
  proof cases
    case none
    then show thesis
      using that [of s] rep room by (simp add: rest_or_cancel_def rest_kinds_def spec_rest_def)
  next
    case cancels
    have kinds: "rest_kinds taker tif = [OrderCancelled (incoming_order_id taker) (incoming_leaves taker) UnfilledRemainder]"
      "spec_rest taker tif S = S"
      using cancels by (auto simp: rest_kinds_def spec_rest_def split: OrderType.split)
    have "room (Suc m) j s"
      using room by (simp add: kinds)
    then obtain s' where s': "push_cancelled c t (incoming_order_id taker) (incoming_leaves taker) UnfilledRemainder s = Some (Inr (), s')"
      "performs c t s [OrderCancelled (incoming_order_id taker) (incoming_leaves taker) UnfilledRemainder] s'" "room m j s'"
      "\<And>S. represents (fst s') S = represents (fst s) S"
      by (rule push_cancelled_ok [OF _ cancels(1), of _ _ _ c t "incoming_order_id taker" UnfilledRemainder]) (rule that)
    have "rest_or_cancel taker tif c t s = push_cancelled c t (incoming_order_id taker) (incoming_leaves taker) UnfilledRemainder s"
      using cancels by (simp add: rest_or_cancel_def split: OrderType.split)
    then show thesis
      using that s' rep by (simp add: kinds)
  next
    case rests
    let ?r = "resting_of taker price tif"
    obtain b tr where s: "s = (b, tr)"
      by (cases s)
    have f: "rest_fits taker price tif S b"
      using fits [OF rests(2,3,1)] by (simp add: s)
    have pre: "represents b S" "spec_orders S (order_id ?r) = None" "order_wf ?r" "strip ?r = ?r" "stop ?r = None"
        "card (dom (spec_orders S)) < max_active_orders (limits b)"
        "account_orders b (order_account_id ?r) \<noteq> None \<or> card (dom (account_orders b)) < max_active_accounts (limits b)"
        "levels_get (levels b (order_side ?r)) (order_price ?r) \<noteq> None \<or>
           levels_len (levels b (order_side ?r)) < max_price_levels_per_side (limits b)"
      using rep f by (simp_all add: s rest_fits_def resting_of_def strip_def)
    obtain b' where b': "append_order ?r b = Some b'" "represents b' (spec_insert ?r S)" "book_rest b' = book_rest b"
      by (rule append_order_correct [OF pre]) (rule that)
    let ?k = "OrderRested (incoming_order_id taker) price (incoming_leaves taker) (displayed ?r)"
    have kinds: "rest_kinds taker tif = [?k]" "spec_rest taker tif S = spec_insert ?r S"
      using rests by (simp_all add: rest_kinds_def spec_rest_def resting_of_def)
    have p0: "performs c t s [] (b', tr)"
      using performs_book [OF b'(3)] by (simp add: s)
    have "room (Suc m) j (b', tr)"
      using room_performs [OF p0, of "Suc m" j] room by (simp add: kinds)
    then obtain s' where s': "push_event c t ?k (b', tr) = Some (Inr (), s')" "performs c t (b', tr) [?k] s'" "room m j s'"
      "\<And>S. represents (fst s') S = represents b' S"
      by (rule push_event_ok [of _ _ _ ?k c t]) (simp, simp add: that)
    have "update_book (append_order ?r) s = Some (Inr (), (b', tr))"
      by (simp add: update_book_def s b'(1))
    then have "rest_or_cancel taker tif c t s = Some (Inr (), s')"
      using rests s'(1) order_wf_displayed(1) [OF pre(3)] by (simp add: rest_or_cancel_def Let_def)
    then show thesis
      using that performs_trans [OF p0 s'(2)] s'(3,4) b'(2) by (simp add: kinds)
  qed
qed

theorem execute_incoming_ok:
  assumes run: "taker_run (book_definition (fst s)) (next_trade_id (fst s), taker, S) ks (n', taker', S')"
    and rep: "represents (fst s) S" and wf: "taker_wf taker"
    and room: "room (length ks + length (rest_kinds taker' tif)) (trades_in ks) s"
    and fits: "\<And>price b'. incoming_order_type taker' = Limit price \<Longrightarrow> may_rest tif \<Longrightarrow> 0 < incoming_leaves taker' \<Longrightarrow>
      represents b' S' \<Longrightarrow> limits b' = limits (fst s) \<Longrightarrow> rest_fits taker' price tif S' b'"
  obtains s' where "execute_incoming taker tif c t s = Some (Inr (), s')"
    "performs c t s (ks @ rest_kinds taker' tif) s'" "represents (fst s') (spec_rest taker' tif S')"
proof -
  have "room (length ks + length (rest_kinds taker' tif)) (trades_in ks + 0) s"
    using room by simp
  from match_loop_ok [OF run refl refl rep wf refl refl this] obtain s1 where
    s1: "match_loop c t taker s = Some (Inr taker', s1)" "performs c t s ks s1" "represents (fst s1) S'"
      "room (length (rest_kinds taker' tif)) 0 s1" "taker_wf taker'"
    by blast
  have "limits (fst s1) = limits (fst s)"
    by (rule performs_fields(2) [OF s1(2)])
  with fits s1(3) have f: "rest_fits taker' price tif S' (fst s1)"
    if "incoming_order_type taker' = Limit price" "may_rest tif" "0 < incoming_leaves taker'" for price
    using that by simp
  have "room (length (rest_kinds taker' tif) + 0) 0 s1"
    using s1(4) by simp
  then obtain s' where
    s': "rest_or_cancel taker' tif c t s1 = Some (Inr (), s')" "performs c t s1 (rest_kinds taker' tif) s'"
      "represents (fst s') (spec_rest taker' tif S')"
    by (rule rest_or_cancel_ok [OF s1(3)]) (assumption | rule f that)+
  have "execute_incoming taker tif c t s = Some (Inr (), s')"
    using s1(1) s'(1) by (simp add: execute_incoming_def)
  then show thesis
    using that performs_trans [OF s1(2) s'(2)] s'(3) by simp
qed

end
