(* ===== verification/MatchingRuns.thy ===== *)
theory MatchingRuns
  imports MatchingCorrect
begin

text \<open>
  What holds of every run of matching steps: trades stay within the limit of the incoming order and walk away
  from the best price, no account trades with itself, every lot of the incoming order and of the resting
  orders is accounted for by an event, and the book does not become crossed.
\<close>

section \<open>Sums over the orders of the book\<close>

definition order_sum :: "(RestingOrder \<Rightarrow> nat) \<Rightarrow> BookSpec \<Rightarrow> nat" where
  "order_sum f S = (\<Sum>x \<in> dom (spec_orders S). f (the (spec_orders S x)))"

lemma order_sum_delete:
  assumes "book_wf S" "spec_orders S x = Some r"
  shows "order_sum f S = f r + order_sum f (spec_delete x S)"
proof -
  have "finite (dom (spec_orders S))" "x \<in> dom (spec_orders S)"
    using assms by (auto simp: book_wf_def orders_ok_def)
  then have "order_sum f S = f r + (\<Sum>y \<in> dom (spec_orders S) - {x}. f (the (spec_orders S y)))"
    using assms(2) by (simp add: order_sum_def sum.remove)
  also have "(\<Sum>y \<in> dom (spec_orders S) - {x}. f (the (spec_orders S y))) = order_sum f (spec_delete x S)"
    unfolding order_sum_def by (rule sum.cong) (auto simp: spec_delete_def)
  finally show ?thesis .
qed

lemma order_sum_upd:
  assumes "book_wf S" "spec_orders S x = Some r" "spec_orders S' = (spec_orders S)(x \<mapsto> r')"
  shows "order_sum f S' + f r = order_sum f S + f r'"
proof -
  have fin: "finite (dom (spec_orders S))" "x \<in> dom (spec_orders S)" "dom (spec_orders S') = dom (spec_orders S)"
    using assms by (auto simp: book_wf_def orders_ok_def)
  have "order_sum f S = f r + (\<Sum>y \<in> dom (spec_orders S) - {x}. f (the (spec_orders S y)))"
    using fin assms(2) by (simp add: order_sum_def sum.remove)
  moreover have "order_sum f S' = f r' + (\<Sum>y \<in> dom (spec_orders S) - {x}. f (the (spec_orders S' y)))"
    using fin assms(3) by (simp add: order_sum_def sum.remove)
  moreover have "(\<Sum>y \<in> dom (spec_orders S) - {x}. f (the (spec_orders S' y))) =
      (\<Sum>y \<in> dom (spec_orders S) - {x}. f (the (spec_orders S y)))"
    by (rule sum.cong) (auto simp: assms(3))
  ultimately show ?thesis
    by simp
qed

definition filled :: "nat \<Rightarrow> RestingOrder \<Rightarrow> RestingOrder option" where
  "filled k r = (if k = leaves r then None else Some (if k < displayed r then reduced k r else refreshed_order k r))"

lemma order_sum_fill:
  assumes "book_wf S" "spec_orders S x = Some r" "stop r = None" "0 < k" "k \<le> leaves r"
  shows "order_sum f (spec_fill x k S) + f r = order_sum f S + (case filled k r of None \<Rightarrow> 0 | Some r' \<Rightarrow> f r')"
  using assms
proof (cases rule: fill_cases)
  case gone
  then show ?thesis
    using order_sum_delete [OF assms(1,2), of f] by (simp add: filled_def)
next
  case (kept r')
  have "spec_orders (spec_fill x k S) = (spec_orders S)(x \<mapsto> r')"
    using kept(2) by (simp add: requeued_def)
  from order_sum_upd [OF assms(1,2) this, of f] show ?thesis
    using kept(1,5) by (simp add: filled_def split: if_splits)
qed

section \<open>Queues only shrink\<close>

lemma fill_members:
  assumes "book_wf S" "spec_orders S x = Some r" "stop r = None" "0 < k" "k \<le> leaves r"
  shows "set (members (queue (spec_fill x k S) s p)) \<subseteq> set (members (queue S s p))"
  using assms
proof (cases rule: fill_cases)
  case gone
  then show ?thesis
    by (auto simp: spec_delete_def members_def)
next
  case (kept r')
  then show ?thesis
    by (cases "(s, p) = (order_side r, order_price r)") (auto simp: requeued_def Let_def members_def)
qed

lemma step_members:
  "taker_step d st ks st' \<Longrightarrow> book_wf (snd (snd st)) \<Longrightarrow>
   set (members (queue (snd (snd st')) s p)) \<subseteq> set (members (queue (snd (snd st)) s p))"
proof (induction rule: taker_step.induct)
  case (trades S taker r n)
  note m = meets_order [OF trades(1)]
  show ?case
    using fill_members [of S "order_id r" r "takes taker r" s p] m trades.prems by simp
next
  case (decrements S taker r n)
  note m = meets_order [OF decrements(1)]
  show ?case
    using fill_members [of S "order_id r" r "takes taker r" s p] m decrements.prems by simp
qed (auto simp: spec_delete_def members_def)

lemma run_wf: "taker_run d st ks st' \<Longrightarrow> book_wf (snd (snd st)) \<Longrightarrow> book_wf (snd (snd st'))"
  by (induction rule: taker_run.induct) (simp_all add: step_wf)

lemma run_members:
  "taker_run d st ks st' \<Longrightarrow> book_wf (snd (snd st)) \<Longrightarrow>
   set (members (queue (snd (snd st')) s p)) \<subseteq> set (members (queue (snd (snd st)) s p))"
  by (induction rule: taker_run.induct) (auto dest: step_members [where s = s and p = p] simp: step_wf)

lemma run_taker:
  "taker_run d st ks st' \<Longrightarrow>
   fst (snd st') = (fst (snd st))\<lparr>incoming_leaves := incoming_leaves (fst (snd st'))\<rparr>"
proof (induction rule: taker_run.induct)
  case (more st ks st' ks' st'')
  have "fst (snd st') = (fst (snd st))\<lparr>incoming_leaves := incoming_leaves (fst (snd st'))\<rparr>"
    using more(1) by (induction rule: taker_step.induct) (simp_all add: less_leaves_def)
  then show ?case
    using more(3) by (metis IncomingOrder.surjective IncomingOrder.update_convs(5))
qed simp

lemma run_final: "taker_run d st ks st' \<Longrightarrow> \<not> meets (snd (snd st')) (fst (snd st')) r"
  by (induction rule: taker_run.induct) auto

section \<open>Trades\<close>

definition trades_of :: "EventKind list \<Rightarrow> Trade list" where
  "trades_of ks = concat (map (\<lambda>k. case k of TradeOccurred t \<Rightarrow> [t] | _ \<Rightarrow> []) ks)"

lemma trades_of_simps [simp]: "trades_of [] = []" "trades_of (TradeOccurred t # ks) = t # trades_of ks"
    "\<not> is_trade k \<Longrightarrow> trades_of (k # ks) = trades_of ks" "trades_of (ks @ ks') = trades_of ks @ trades_of ks'"
    "trades_of (refresh_kinds r q) = []"
  by (auto simp: trades_of_def refresh_kinds_def split: EventKind.split)

lemma step_trades:
  "taker_step d st ks st' \<Longrightarrow> trades_of ks = [] \<or>
     (\<exists>r. meets (snd (snd st)) (fst (snd st)) r \<and> order_account_id r \<noteq> incoming_account_id (fst (snd st)) \<and>
          trades_of ks = [trade_of d (fst st) (fst (snd st)) r])"
  by (induction rule: taker_step.induct)
    (auto simp: prevented_kind_def resting_cancelled_def taker_cancelled_def)

text \<open>Each trade is within the limit, between different accounts and for a positive quantity.\<close>

definition good_trade :: "IncomingOrder \<Rightarrow> Trade \<Rightarrow> bool" where
  "good_trade taker t \<longleftrightarrow>
     crosses_price (incoming_side taker) (incoming_order_type taker) (trade_price t) = Some True \<and>
     buyer_account_id t \<noteq> seller_account_id t \<and> 0 < trade_quantity t \<and> taker_order_id t = incoming_order_id taker \<and>
     (if incoming_side taker = Buy then trade_buy_order_id t = incoming_order_id taker else trade_sell_order_id t = incoming_order_id taker)"

lemma good_trade_leaves [simp]: "good_trade (taker\<lparr>incoming_leaves := q\<rparr>) t = good_trade taker t"
  by (simp add: good_trade_def)

lemma run_good_trades:
  "taker_run d st ks st' \<Longrightarrow> book_wf (snd (snd st)) \<Longrightarrow> \<forall>t \<in> set (trades_of ks). good_trade (fst (snd st)) t"
proof (induction rule: taker_run.induct)
  case (more st ks st' ks' st'')
  have "\<forall>t \<in> set (trades_of ks). good_trade (fst (snd st)) t"
    using step_trades [OF more(1)] meets_order(5) [OF _ more.prems]
    by (auto simp: good_trade_def trade_of_def meets_def Let_def)
  moreover have "fst (snd st') = (fst (snd st))\<lparr>incoming_leaves := incoming_leaves (fst (snd st'))\<rparr>"
    using more(1) by (induction rule: taker_step.induct) (simp_all add: less_leaves_def)
  then have "good_trade (fst (snd st')) t = good_trade (fst (snd st)) t" for t
    using good_trade_leaves by metis
  ultimately show ?case
    using more.IH [OF step_wf [OF more(1) more.prems]] by auto
qed simp

text \<open>Trade prices walk away from the best price.\<close>

lemma run_prices:
  "taker_run d st ks st' \<Longrightarrow> book_wf (snd (snd st)) \<Longrightarrow> t \<in> set (trades_of ks) \<Longrightarrow>
   \<exists>x. x \<in> set (members (queue (snd (snd st)) (opposite (incoming_side (fst (snd st)))) (trade_price t)))"
proof (induction rule: taker_run.induct)
  case (more st ks st' ks' st'')
  have side: "incoming_side (fst (snd st')) = incoming_side (fst (snd st))"
    using more(1) by (induction rule: taker_step.induct) (simp_all add: less_leaves_def)
  consider "t \<in> set (trades_of ks)" | "t \<in> set (trades_of ks')"
    using more.prems(2) by auto
  then show ?case
  proof cases
    case 1
    then obtain r where "meets (snd (snd st)) (fst (snd st)) r" "t = trade_of d (fst st) (fst (snd st)) r"
      using step_trades [OF more(1)] by auto
    then show ?thesis
      by (intro exI [of _ "order_id r"]) (auto simp: meets_def best_maker_def trade_of_def Let_def)
  next
    case 2
    then show ?thesis
      using more.IH [OF step_wf [OF more(1) more.prems(1)]] step_members [OF more(1) more.prems(1)] side by fastforce
  qed
qed simp

lemma run_prices_sorted:
  "taker_run d st ks st' \<Longrightarrow> book_wf (snd (snd st)) \<Longrightarrow>
   sorted_wrt (\<lambda>p q. \<not> better (opposite (incoming_side (fst (snd st)))) q p) (map trade_price (trades_of ks))"
proof (induction rule: taker_run.induct)
  case (more st ks st' ks' st'')
  let ?s = "opposite (incoming_side (fst (snd st)))"
  have side: "incoming_side (fst (snd st')) = incoming_side (fst (snd st))"
    using more(1) by (induction rule: taker_step.induct) (simp_all add: less_leaves_def)
  have rest: "sorted_wrt (\<lambda>p q. \<not> better ?s q p) (map trade_price (trades_of ks'))"
    using more.IH [OF step_wf [OF more(1) more.prems]] by (simp add: side)
  show ?case
  proof (cases "trades_of ks = []")
    case False
    then obtain r where r: "meets (snd (snd st)) (fst (snd st)) r" "trades_of ks = [trade_of d (fst st) (fst (snd st)) r]"
      using step_trades [OF more(1)] by auto
    have "\<not> better ?s (trade_price t) (order_price r)" if t: "t \<in> set (trades_of ks')" for t
    proof -
      obtain x where "x \<in> set (members (queue (snd (snd st')) ?s (trade_price t)))"
        using run_prices [OF more(2) step_wf [OF more(1) more.prems] t] by (auto simp: side)
      then have "members (queue (snd (snd st)) ?s (trade_price t)) \<noteq> []"
        using step_members [OF more(1) more.prems] by fastforce
      then show ?thesis
        using r(1) by (auto simp: meets_def best_maker_def)
    qed
    then show ?thesis
      using rest by (simp add: r(2) trade_of_def Let_def)
  qed (use rest in simp)
qed simp

section \<open>Every lot is accounted for\<close>

fun taker_lots :: "EventKind \<Rightarrow> nat" where
  "taker_lots (TradeOccurred t) = trade_quantity t"
| "taker_lots (SelfTradePrevented _ _ q DecrementAndCancel) = q"
| "taker_lots (OrderCancelled _ q SelfTradeAggressor) = q"
| "taker_lots (OrderCancelled _ q UnfilledRemainder) = q"
| "taker_lots (OrderRested _ _ q _) = q"
| "taker_lots _ = 0"

fun maker_lots :: "EventKind \<Rightarrow> nat" where
  "maker_lots (TradeOccurred t) = trade_quantity t"
| "maker_lots (SelfTradePrevented _ _ q DecrementAndCancel) = q"
| "maker_lots (OrderCancelled _ q SelfTradeResting) = q"
| "maker_lots _ = 0"

lemma lots_simps [simp]:
  "sum_list (map taker_lots (refresh_kinds r k)) = 0" "sum_list (map maker_lots (refresh_kinds r k)) = 0"
  by (auto simp: refresh_kinds_def)

lemma step_taker_lots:
  "taker_step d st ks st' \<Longrightarrow> book_wf (snd (snd st)) \<Longrightarrow>
   incoming_leaves (fst (snd st)) = sum_list (map taker_lots ks) + incoming_leaves (fst (snd st'))"
proof (induction rule: taker_step.induct)
  case (trades S taker r n)
  then show ?case
    using meets_order(8) [OF trades(1)] by (simp add: less_leaves_def trade_of_def Let_def)
next
  case (decrements S taker r n)
  then show ?case
    using meets_order(8) [OF decrements(1)] by (simp add: less_leaves_def prevented_kind_def)
qed (simp_all add: less_leaves_def prevented_kind_def resting_cancelled_def taker_cancelled_def)

lemma run_taker_lots:
  "taker_run d st ks st' \<Longrightarrow> book_wf (snd (snd st)) \<Longrightarrow>
   incoming_leaves (fst (snd st)) = sum_list (map taker_lots ks) + incoming_leaves (fst (snd st'))"
proof (induction rule: taker_run.induct)
  case (more st ks st' ks' st'')
  then show ?case
    using step_taker_lots [OF more(1) more.prems] step_wf [OF more(1) more.prems] by simp
qed simp

lemma filled_leaves: "k \<le> leaves r \<Longrightarrow> (case filled k r of None \<Rightarrow> 0 | Some r' \<Rightarrow> leaves r') + k = leaves r"
  by (simp add: filled_def reduced_def refreshed_order_def)

lemma step_maker_lots:
  "taker_step d st ks st' \<Longrightarrow> book_wf (snd (snd st)) \<Longrightarrow>
   order_sum leaves (snd (snd st)) = sum_list (map maker_lots ks) + order_sum leaves (snd (snd st'))"
proof (induction rule: taker_step.induct)
  case (trades S taker r n)
  have wf: "book_wf S"
    using trades.prems by simp
  note m = meets_order [OF trades(1) wf]
  show ?case
    using order_sum_fill [OF wf m(1,3,5,6), of leaves] filled_leaves [OF m(6)] by (simp add: trade_of_def Let_def)
next
  case (decrements S taker r n)
  have wf: "book_wf S"
    using decrements.prems by simp
  note m = meets_order [OF decrements(1) wf]
  show ?case
    using order_sum_fill [OF wf m(1,3,5,6), of leaves] filled_leaves [OF m(6)] decrements(3) by (simp add: prevented_kind_def)
next
  case (cancels_resting S taker r n)
  then show ?case
    using order_sum_delete [of S "order_id r" r leaves] meets_order(1) [OF cancels_resting(1)]
    by (simp add: prevented_kind_def resting_cancelled_def)
next
  case (cancels_both S taker r n)
  then show ?case
    using order_sum_delete [of S "order_id r" r leaves] meets_order(1) [OF cancels_both(1)]
    by (simp add: prevented_kind_def resting_cancelled_def taker_cancelled_def)
qed (simp add: prevented_kind_def taker_cancelled_def)

lemma run_maker_lots:
  "taker_run d st ks st' \<Longrightarrow> book_wf (snd (snd st)) \<Longrightarrow>
   order_sum leaves (snd (snd st)) = sum_list (map maker_lots ks) + order_sum leaves (snd (snd st'))"
proof (induction rule: taker_run.induct)
  case (more st ks st' ks' st'')
  then show ?case
    using step_maker_lots [OF more(1) more.prems] step_wf [OF more(1) more.prems] by simp
qed simp

section \<open>The book does not become crossed\<close>

definition uncrossed :: "BookSpec \<Rightarrow> bool" where
  "uncrossed S \<longleftrightarrow> (\<forall>p q. members (queue S Buy p) \<noteq> [] \<longrightarrow> members (queue S Sell q) \<noteq> [] \<longrightarrow> p < q)"

lemma uncrossed_sides:
  "uncrossed S \<longleftrightarrow> (\<forall>p q. members (queue S s p) \<noteq> [] \<longrightarrow> members (queue S (opposite s) q) \<noteq> [] \<longrightarrow>
     (if s = Buy then p < q else q < p))"
  by (cases s) (auto simp: uncrossed_def)

lemma run_uncrossed:
  assumes "taker_run d st ks st'" "book_wf (snd (snd st))" "uncrossed (snd (snd st))"
  shows "uncrossed (snd (snd st'))"
proof -
  have "members (queue (snd (snd st)) s p) \<noteq> []" if "members (queue (snd (snd st')) s p) \<noteq> []" for s p
    using run_members [OF assms(1,2), of s p] that by (cases "members (queue (snd (snd st')) s p)") auto
  then show ?thesis
    using assms(3) by (simp add: uncrossed_def)
qed

text \<open>A limit order that stops with a remainder meets no opposite order at its price.\<close>

lemma no_meet_no_cross:
  assumes wf: "book_wf S" and none: "\<forall>r. \<not> meets S taker r" and pos: "0 < incoming_leaves taker"
    and limit: "incoming_order_type taker = Limit price"
    and q: "members (queue S (opposite (incoming_side taker)) q) \<noteq> []"
  shows "if incoming_side taker = Buy then price < q else q < price"
proof (rule ccontr)
  let ?s = "opposite (incoming_side taker)"
  assume c: "\<not> ?thesis"
  define P where "P = {p. members (queue S ?s p) \<noteq> []}"
  have "P \<subseteq> (\<lambda>x. order_price (the (spec_orders S x))) ` dom (spec_orders S)"
  proof
    fix p assume "p \<in> P"
    then have "hd (members (queue S ?s p)) \<in> set (members (queue S ?s p))"
      by (simp add: P_def)
    then obtain x where "x \<in> set (members (queue S ?s p))"
      by blast
    then obtain r where "spec_orders S x = Some r" "order_price r = p"
      using wf by (auto simp: book_wf_def rests_members rests_def split: option.splits)
    then show "p \<in> (\<lambda>x. order_price (the (spec_orders S x))) ` dom (spec_orders S)"
      by force
  qed
  then have fin: "finite P"
    using wf by (auto simp: book_wf_def orders_ok_def intro: finite_subset)
  have qP: "q \<in> P"
    using q by (simp add: P_def)
  let ?p = "if ?s = Buy then Max P else Min P"
  have p: "?p \<in> P" "\<And>r. r \<in> P \<Longrightarrow> \<not> better ?s r ?p"
  proof -
    have ne: "P \<noteq> {}"
      using qP by blast
    show "?p \<in> P"
      using Max_in [OF fin ne] Min_in [OF fin ne] by simp
    show "\<not> better ?s r ?p" if "r \<in> P" for r
      using Max_ge [OF fin that] Min_le [OF fin that] by (cases ?s) (auto simp: better_def not_less)
  qed
  have cr: "crosses_price (incoming_side taker) (incoming_order_type taker) ?p = Some True"
    using c limit Max_ge [OF fin qP] Min_le [OF fin qP] by (cases "incoming_side taker") auto
  let ?x = "hd (members (queue S ?s ?p))"
  have ne: "members (queue S ?s ?p) \<noteq> []"
    using p(1) by (simp add: P_def)
  then have "?x \<in> set (members (queue S ?s ?p))"
    by simp
  then obtain r where r: "spec_orders S ?x = Some r" "order_side r = ?s" "order_price r = ?p"
    using wf by (auto simp: book_wf_def rests_members rests_def split: option.splits)
  moreover have "order_id r = ?x"
    using r(1) wf by (auto simp: book_wf_def orders_ok_def)
  moreover have "best_maker S ?s ?p ?x"
    using ne p(2) by (simp add: best_maker_def P_def)
  ultimately have "meets S taker r"
    using pos cr by (simp add: meets_def)
  then show False
    using none by blast
qed

lemma rest_uncrossed:
  assumes wf: "book_wf S" and un: "uncrossed S" and none: "\<forall>r. \<not> meets S taker r"
  shows "uncrossed (spec_rest taker tif S)"
proof (cases "0 < incoming_leaves taker \<and> (\<exists>price. incoming_order_type taker = Limit price) \<and> may_rest tif")
  case False
  then have "spec_rest taker tif S = S"
    by (auto simp: spec_rest_def split: OrderType.split)
  then show ?thesis
    using un by simp
next
  case True
  then obtain price where price: "incoming_order_type taker = Limit price" "may_rest tif" "0 < incoming_leaves taker"
    by blast
  let ?s = "incoming_side taker" and ?S = "spec_rest taker tif S"
  have S': "queue ?S s p = (if s = ?s \<and> p = price then enqueue (resting_of taker price tif) (queue S s p) else queue S s p)" for s p
    using price by (simp add: spec_rest_def spec_insert_def resting_of_def)
  have opp: "queue ?S (opposite ?s) p = queue S (opposite ?s) p" for p
    by (simp add: S')
  have own: "members (queue S ?s p) \<noteq> [] \<or> p = price" if "members (queue ?S ?s p) \<noteq> []" for p
    using that by (auto simp: S' split: if_splits)
  show ?thesis
    unfolding uncrossed_sides [of _ ?s]
  proof (intro allI impI)
    fix p q
    assume a: "members (queue ?S ?s p) \<noteq> []" "members (queue ?S (opposite ?s) q) \<noteq> []"
    have q: "members (queue S (opposite ?s) q) \<noteq> []"
      using a(2) by (simp add: opp)
    from own [OF a(1)] show "if ?s = Buy then p < q else q < p"
    proof
      assume "members (queue S ?s p) \<noteq> []"
      then show ?thesis
        using un [unfolded uncrossed_sides [of _ ?s]] q by blast
    next
      assume "p = price"
      then show ?thesis
        using no_meet_no_cross [OF wf none price(3,1) q] by simp
    qed
  qed
qed

end
