(* ===== verification/MatchingWork.thy ===== *)
theory MatchingWork
  imports MatchingRuns
begin

text \<open>
  The event and trade bounds an execution is prepared with (\<open>maximum_matching_work\<close> of \<open>src/src/matching.rs\<close>)
  and the proof that no run of the matching loop, with its remainder, exceeds them.
\<close>

section \<open>The prepared bounds\<close>

record IncomingPreview =
  preview_account_id :: AccountId
  preview_side :: Side
  preview_order_type :: OrderType
  preview_leaves :: nat
  preview_self_trade_prevention :: SelfTradePrevention

definition preview_of :: "NewOrder \<Rightarrow> IncomingPreview" where
  "preview_of order = \<lparr>preview_account_id = new_account_id order, preview_side = new_side order,
     preview_order_type = new_order_type order, preview_leaves = new_quantity order,
     preview_self_trade_prevention = new_self_trade_prevention order\<rparr>"

definition maximum_matching_work :: "IncomingPreview \<Rightarrow> nat \<Rightarrow> OrderBook \<Rightarrow> (MatchingError + nat \<times> nat) option" where
  "maximum_matching_work incoming terminal_events b = do {
     let step_size = increment (def_quantity (book_definition b));
     assert_that (step_size \<noteq> 0);
     let steps = preview_leaves incoming div step_size;
     let side = opposite (preview_side incoming);
     let total_units = side_event_units (levels b side);
     let (self_count, self_units) =
       (case account_orders b (preview_account_id incoming) of
          None \<Rightarrow> (0, 0)
        | Some index \<Rightarrow> (account_order_count (account_side index side), account_event_units (account_side index side)));
     external_units \<leftarrow> checked_sub total_units self_units;
     Some (
       and_then (ok_or (checked fits_u128 (steps * 2)) SequenceExhausted) (\<lambda>consuming.
       and_then
         (case preview_self_trade_prevention incoming of
            CancelResting \<Rightarrow>
              and_then (ok_or (checked fits_u128 (self_count * 2)) SequenceExhausted) (\<lambda>cancels.
              and_then (ok_or (checked fits_u128 (min consuming external_units + cancels)) SequenceExhausted) (\<lambda>work.
              ok_or (checked fits_u128 (work + terminal_events)) SequenceExhausted))
          | CancelAggressor \<Rightarrow>
              ok_or (checked fits_u128 (min consuming external_units +
                max terminal_events (if self_count = 0 then 0 else 2))) SequenceExhausted
          | CancelBoth \<Rightarrow>
              ok_or (checked fits_u128 (min consuming external_units +
                max terminal_events (if self_count = 0 then 0 else 3))) SequenceExhausted
          | DecrementAndCancel \<Rightarrow>
              ok_or (checked fits_u128 (min consuming total_units + terminal_events)) SequenceExhausted) (\<lambda>work.
       and_then (ok_or (checked fits_u128 (work + 1)) SequenceExhausted) (\<lambda>events.
       and_then (ok_or (checked fits_u64 (min steps external_units)) TradeIdExhausted) (\<lambda>trades.
       Inr (events, trades))))))
   }"

section \<open>Event work of one order\<close>

lemma units_gone:
  assumes "order_wf r" "stop r = None" "displayed r = leaves r"
  shows "units r = 1"
  using assms by (auto simp: units_def order_wf_def split: OrderDisplay.split)

lemma div_ceil_step: "0 < p \<Longrightarrow> p < h \<Longrightarrow> (h + p - 1) div p = Suc ((h - p + p - 1) div p)" for h p :: nat
proof -
  assume "0 < p" "p < h"
  moreover have "h + p - 1 = (h - p + p - 1) + p"
    using \<open>p < h\<close> by simp
  ultimately show ?thesis
    by (metis div_add_self2 Suc_eq_plus1 add.commute neq0_conv)
qed

lemma div_ceil_one: "0 < h \<Longrightarrow> h \<le> p \<Longrightarrow> (h + p - 1) div p = Suc 0" for h p :: nat
  by (rule div_nat_eqI) auto

lemma units_refresh:
  assumes wf: "order_wf r" and "stop r = None" "displayed r < leaves r"
  shows "units (refreshed_order (displayed r) r) + 2 = units r"
proof (cases "order_display r")
  case (Reserve p)
  let ?h = "leaves r - displayed r"
  have p: "0 < p" "0 < ?h"
    using assms by (auto simp: order_wf_def Reserve)
  show ?thesis
  proof (cases "p < ?h")
    case True
    then show ?thesis
      using p div_ceil_step [of p ?h] assms(2)
      by (simp add: units_def refreshed_order_def Reserve del: div_add_self1 div_add_self2)
  next
    case False
    then have "(?h + p - 1) div p = Suc 0"
      using p by (intro div_ceil_one) simp_all
    moreover have "(p - Suc 0) div p = 0"
      using p(1) by simp
    ultimately show ?thesis
      using False p assms(2) by (simp add: units_def refreshed_order_def Reserve)
  qed
qed (use assms in \<open>simp_all add: order_wf_def\<close>)

lemma units_positive: "stop r = None \<Longrightarrow> 1 \<le> units r"
  by (auto simp: units_def split: OrderDisplay.split)

text \<open>What a fill of one slice leaves of the work, and the events it costs.\<close>

lemma fill_work:
  assumes wf: "order_wf r" "stop r = None" and k: "k = min q (displayed r)" "0 < q"
  shows "(\<exists>r'. filled k r = Some r' \<and> k = q \<and> refresh_kinds r k = [] \<and> units r' = units r \<and> 1 \<le> units r) \<or>
    (\<exists>u. (case filled k r of None \<Rightarrow> 0 | Some r' \<Rightarrow> units r') = u \<and> u + Suc (length (refresh_kinds r k)) = units r)"
proof -
  note d = order_wf_displayed [OF wf(1)]
  have "k = displayed r \<or> k < displayed r \<and> k = q"
    using k(1) by (auto simp: min_def)
  then consider (gone) "k = leaves r" | (refresh) "k \<noteq> leaves r" "k = displayed r" | (less) "k \<noteq> leaves r" "k < displayed r" "k = q"
    by blast
  then show ?thesis
  proof cases
    case gone
    then have "displayed r = leaves r"
      using k d by (auto simp: min_def split: if_splits)
    then show ?thesis
      using gone units_gone [OF wf] by (simp add: filled_def refresh_kinds_def)
  next
    case refresh
    then have "displayed r < leaves r"
      using d by simp
    then show ?thesis
      using refresh units_refresh [OF wf] by (simp add: filled_def refresh_kinds_def)
  next
    case less
    have "units (reduced q r) = units r"
      using less d by (simp add: units_def reduced_def split: OrderDisplay.split)
    then show ?thesis
      using less units_positive [OF wf(2)] by (simp add: filled_def refresh_kinds_def)
  qed
qed

section \<open>Quantities on the grid\<close>

definition order_on_grid :: "nat \<Rightarrow> RestingOrder \<Rightarrow> bool" where
  "order_on_grid g r \<longleftrightarrow> g dvd leaves r \<and> g dvd displayed r \<and> (\<forall>p. order_display r = Reserve p \<longrightarrow> g dvd p)"

definition on_grid :: "nat \<Rightarrow> BookSpec \<Rightarrow> bool" where
  "on_grid g S \<longleftrightarrow> (\<forall>x r. spec_orders S x = Some r \<longrightarrow> order_on_grid g r)"

lemma order_on_grid_filled:
  assumes "order_on_grid g r" "g dvd k" "k \<le> leaves r" "filled k r = Some r'"
  shows "order_on_grid g r'"
  using assms by (cases "order_display r")
    (auto simp: order_on_grid_def filled_def reduced_def refreshed_order_def split: if_splits)

lemma on_grid_fill:
  assumes "book_wf S" "spec_orders S x = Some r" "stop r = None" "0 < k" "k \<le> leaves r" "on_grid g S" "g dvd k"
  shows "on_grid g (spec_fill x k S)"
  using assms(1-5)
proof (cases rule: fill_cases)
  case gone
  then show ?thesis
    using assms(6) by (auto simp: on_grid_def spec_delete_def)
next
  case (kept r')
  have "filled k r = Some r'"
    using kept(1,5) by (auto simp: filled_def split: if_splits)
  moreover have "order_on_grid g r"
    using assms(2,6) by (simp add: on_grid_def)
  ultimately have "order_on_grid g r'"
    using order_on_grid_filled assms(5,7) by blast
  moreover have "spec_orders (spec_fill x k S) = (spec_orders S)(x \<mapsto> r')"
    using kept(2) by (simp add: requeued_def)
  ultimately show ?thesis
    using assms(6) by (auto simp: on_grid_def)
qed

definition grid_ok :: "nat \<Rightarrow> Taking \<Rightarrow> bool" where
  "grid_ok g st \<longleftrightarrow> g dvd incoming_leaves (fst (snd st)) \<and> on_grid g (snd (snd st))"

lemma takes_on_grid:
  assumes "grid_ok g (n, taker, S)" "meets S taker r" "book_wf S"
  shows "g dvd takes taker r"
  using assms meets_order(1) [OF assms(2,3)] by (auto simp: grid_ok_def takes_def on_grid_def order_on_grid_def min_def)

lemma step_grid:
  "taker_step d st ks st' \<Longrightarrow> book_wf (snd (snd st)) \<Longrightarrow> grid_ok g st \<Longrightarrow> grid_ok g st'"
proof (induction rule: taker_step.induct)
  case (trades S taker r n)
  have wf: "book_wf S"
    using trades.prems by simp
  note m = meets_order [OF trades(1) wf]
  have g: "g dvd takes taker r"
    by (rule takes_on_grid [OF _ trades(1) wf]) (use trades.prems in simp)
  show ?case
    using on_grid_fill [OF wf m(1,3,5,6) _ g] g trades.prems by (simp add: grid_ok_def less_leaves_def)
next
  case (decrements S taker r n)
  have wf: "book_wf S"
    using decrements.prems by simp
  note m = meets_order [OF decrements(1) wf]
  have g: "g dvd takes taker r"
    by (rule takes_on_grid [OF _ decrements(1) wf]) (use decrements.prems in simp)
  show ?case
    using on_grid_fill [OF wf m(1,3,5,6) _ g] g decrements.prems by (simp add: grid_ok_def less_leaves_def)
qed (auto simp: grid_ok_def less_leaves_def on_grid_def spec_delete_def)

lemma steps_taken:
  fixes g q k :: nat
  assumes "0 < g" "g dvd q" "g dvd k" "0 < k" "k \<le> q"
  shows "(q - k) div g + 1 \<le> q div g"
proof -
  have "q div g = (q - k) div g + k div g"
    using assms div_plus_div_distrib_dvd_right [OF assms(3), of "q - k"] by simp
  moreover have "1 \<le> k div g"
    using assms dvd_imp_le by (simp add: div_greater_zero_iff Suc_le_eq)
  ultimately show ?thesis
    by simp
qed

section \<open>The bound on the events of a run\<close>

definition external_units :: "IncomingOrder \<Rightarrow> BookSpec \<Rightarrow> nat" where
  "external_units taker S = order_sum (\<lambda>r. if order_side r = opposite (incoming_side taker) \<and>
     order_account_id r \<noteq> incoming_account_id taker then units r else 0) S"

definition whole_units :: "IncomingOrder \<Rightarrow> BookSpec \<Rightarrow> nat" where
  "whole_units taker S = order_sum (\<lambda>r. if order_side r = opposite (incoming_side taker) then units r else 0) S"

definition own_orders :: "IncomingOrder \<Rightarrow> BookSpec \<Rightarrow> nat" where
  "own_orders taker S = order_sum (\<lambda>r. if order_side r = opposite (incoming_side taker) \<and>
     order_account_id r = incoming_account_id taker then 1 else 0) S"

lemma units_less_leaves [simp]:
  "external_units (less_leaves k taker) S = external_units taker S"
  "whole_units (less_leaves k taker) S = whole_units taker S"
  "own_orders (less_leaves k taker) S = own_orders taker S"
  by (simp_all add: external_units_def whole_units_def own_orders_def less_leaves_def)

lemma filled_same:
  "filled k r = Some r' \<Longrightarrow> order_side r' = order_side r \<and> order_account_id r' = order_account_id r"
  by (auto simp: filled_def reduced_def refreshed_order_def split: if_splits)

text \<open>How the work of a class of orders changes when one of its orders is filled.\<close>

lemma fill_class:
  assumes wf: "book_wf S" and m: "meets S taker r"
    and P: "\<And>r'. order_side r' = order_side r \<Longrightarrow> order_account_id r' = order_account_id r \<Longrightarrow> P r'"
  defines "k \<equiv> takes taker r"
  defines "work \<equiv> order_sum (\<lambda>r. if P r then units r else 0) S"
    and "rest \<equiv> order_sum (\<lambda>r. if P r then units r else 0) (spec_fill (order_id r) k S)"
  shows "k = incoming_leaves taker \<and> refresh_kinds r k = [] \<and> rest = work \<and> 1 \<le> work \<or>
    rest + Suc (length (refresh_kinds r k)) = work"
proof -
  note mo = meets_order [OF m wf, folded k_def]
  have sum: "rest + units r = work + (case filled k r of None \<Rightarrow> 0 | Some r' \<Rightarrow> units r')"
    using order_sum_fill [OF wf mo(1,3,5,6), of "\<lambda>r. if P r then units r else 0"] P filled_same [of k r]
    by (auto simp: rest_def work_def split: option.splits)
  have le: "units r \<le> work"
    using order_sum_delete [OF wf mo(1), of "\<lambda>r. if P r then units r else 0"] P by (simp add: work_def)
  have "k = min (incoming_leaves taker) (displayed r)"
    by (simp add: k_def takes_def)
  from fill_work [OF mo(2,3) this mo(10)] show ?thesis
  proof
    assume "\<exists>r'. filled k r = Some r' \<and> k = incoming_leaves taker \<and> refresh_kinds r k = [] \<and> units r' = units r \<and> 1 \<le> units r"
    then show ?thesis
      using sum le by auto
  next
    assume "\<exists>u. (case filled k r of None \<Rightarrow> 0 | Some r' \<Rightarrow> units r') = u \<and> u + Suc (length (refresh_kinds r k)) = units r"
    then show ?thesis
      using sum by auto
  qed
qed

lemma fill_other:
  assumes wf: "book_wf S" and m: "meets S taker r"
    and P: "\<And>r'. order_side r' = order_side r \<Longrightarrow> order_account_id r' = order_account_id r \<Longrightarrow> f r' = 0"
  shows "order_sum f (spec_fill (order_id r) (takes taker r) S) = order_sum f S"
  using order_sum_fill [OF wf meets_order(1,3,5,6) [OF m wf], of f] P filled_same [of "takes taker r" r]
  by (auto split: option.splits)

lemma delete_class:
  assumes "book_wf S" "meets S taker r"
  shows "order_sum f S = f r + order_sum f (spec_delete (order_id r) S)"
  by (rule order_sum_delete [OF assms(1) meets_order(1) [OF assms(2,1)]])

text \<open>
  The bound: two events for every step of the grid, but no more than the work of the orders to meet, plus the
  events of the self-trade policy and \<open>T\<close> events for a remainder.
\<close>

definition event_bound :: "nat \<Rightarrow> nat \<Rightarrow> IncomingOrder \<Rightarrow> BookSpec \<Rightarrow> nat" where
  "event_bound g T taker S =
     (let steps = incoming_leaves taker div g * 2
      in case incoming_self_trade_prevention taker of
           CancelResting \<Rightarrow> min steps (external_units taker S) + own_orders taker S * 2 + T
         | CancelAggressor \<Rightarrow> min steps (external_units taker S) + max T (if own_orders taker S = 0 then 0 else 2)
         | CancelBoth \<Rightarrow> min steps (external_units taker S) + max T (if own_orders taker S = 0 then 0 else 3)
         | DecrementAndCancel \<Rightarrow> min steps (whole_units taker S) + T)"

definition open_bound :: "nat \<Rightarrow> nat \<Rightarrow> Taking \<Rightarrow> nat" where
  "open_bound g T st = (if incoming_leaves (fst (snd st)) = 0 then 0 else event_bound g T (fst (snd st)) (snd (snd st)))"

lemma step_consumes:
  assumes "grid_ok g (n, taker, S)" "0 < g" "meets S taker r" "book_wf S"
  shows "incoming_leaves (less_leaves (takes taker r) taker) div g + 1 \<le> incoming_leaves taker div g"
proof -
  note m = meets_order [OF assms(3,4)]
  have "g dvd incoming_leaves taker"
    using assms(1) by (simp add: grid_ok_def)
  then show ?thesis
    using steps_taken [OF assms(2) _ takes_on_grid [OF assms(1,3,4)] m(5,8)] by (simp add: less_leaves_def)
qed

lemma step_bound:
  "taker_step d st ks st' \<Longrightarrow> book_wf (snd (snd st)) \<Longrightarrow> grid_ok g st \<Longrightarrow> 0 < g \<Longrightarrow>
   length ks + open_bound g T st' \<le> open_bound g T st"
proof (induction rule: taker_step.induct)
  case (trades S taker r n)
  let ?k = "takes taker r" and ?S = "spec_fill (order_id r) (takes taker r) S"
  have wf: "book_wf S" and grid: "grid_ok g (n, taker, S)"
    using trades.prems by simp_all
  note m = meets_order [OF trades(1) wf]
  note c = step_consumes [OF grid \<open>0 < g\<close> trades(1) wf]
  have own: "own_orders taker ?S = own_orders taker S"
    unfolding own_orders_def by (rule fill_other [OF wf trades(1)]) (simp add: trades(2))
  have e: "?k = incoming_leaves taker \<and> refresh_kinds r ?k = [] \<and> external_units taker ?S = external_units taker S \<and> 1 \<le> external_units taker S \<or>
      external_units taker ?S + Suc (length (refresh_kinds r ?k)) = external_units taker S"
    unfolding external_units_def by (rule fill_class [OF wf trades(1)]) (use m(9) trades(2) in simp)
  have w: "?k = incoming_leaves taker \<and> refresh_kinds r ?k = [] \<and> whole_units taker ?S = whole_units taker S \<and> 1 \<le> whole_units taker S \<or>
      whole_units taker ?S + Suc (length (refresh_kinds r ?k)) = whole_units taker S"
    unfolding whole_units_def by (rule fill_class [OF wf trades(1)]) (use m(9) in simp)
  have l: "length (refresh_kinds r ?k) \<le> 1"
    by (simp add: refresh_kinds_def)
  have z: "incoming_leaves (less_leaves ?k taker) = 0 \<longleftrightarrow> ?k = incoming_leaves taker"
    using m(8) by (auto simp: less_leaves_def)
  have pol: "incoming_self_trade_prevention (less_leaves ?k taker) = incoming_self_trade_prevention taker"
    by (simp add: less_leaves_def)
  show ?case
    using c e w l m(10) unfolding open_bound_def event_bound_def Let_def fst_conv snd_conv z pol units_less_leaves own
    by (cases "incoming_self_trade_prevention taker") (auto simp: min_def)
next
  case (cancels_aggressor S taker r n)
  have wf: "book_wf S"
    using cancels_aggressor.prems by simp
  note m = meets_order [OF cancels_aggressor(1) wf]
  have "1 \<le> own_orders taker S"
    using delete_class [OF wf cancels_aggressor(1), of "\<lambda>r. if order_side r = opposite (incoming_side taker) \<and>
      order_account_id r = incoming_account_id taker then 1 else 0"] m(9) cancels_aggressor(2) by (simp add: own_orders_def)
  then show ?case
    using m(10) cancels_aggressor(3) by (simp add: open_bound_def event_bound_def less_leaves_def Let_def)
next
  case (cancels_resting S taker r n)
  have wf: "book_wf S"
    using cancels_resting.prems by simp
  note m = meets_order [OF cancels_resting(1) wf]
  have "own_orders taker S = Suc (own_orders taker (spec_delete (order_id r) S))"
    using delete_class [OF wf cancels_resting(1), of "\<lambda>r. if order_side r = opposite (incoming_side taker) \<and>
      order_account_id r = incoming_account_id taker then 1 else 0"] m(9) cancels_resting(2) by (simp add: own_orders_def)
  moreover have "external_units taker S = external_units taker (spec_delete (order_id r) S)"
    using delete_class [OF wf cancels_resting(1), of "\<lambda>r. if order_side r = opposite (incoming_side taker) \<and>
      order_account_id r \<noteq> incoming_account_id taker then units r else 0"] cancels_resting(2) by (simp add: external_units_def)
  ultimately show ?case
    using m(10) cancels_resting(3) by (simp add: open_bound_def event_bound_def Let_def)
next
  case (cancels_both S taker r n)
  have wf: "book_wf S"
    using cancels_both.prems by simp
  note m = meets_order [OF cancels_both(1) wf]
  have "1 \<le> own_orders taker S"
    using delete_class [OF wf cancels_both(1), of "\<lambda>r. if order_side r = opposite (incoming_side taker) \<and>
      order_account_id r = incoming_account_id taker then 1 else 0"] m(9) cancels_both(2) by (simp add: own_orders_def)
  then show ?case
    using m(10) cancels_both(3) by (simp add: open_bound_def event_bound_def less_leaves_def Let_def)
next
  case (decrements S taker r n)
  let ?k = "takes taker r" and ?S = "spec_fill (order_id r) (takes taker r) S"
  have wf: "book_wf S" and grid: "grid_ok g (n, taker, S)"
    using decrements.prems by simp_all
  note m = meets_order [OF decrements(1) wf]
  note c = step_consumes [OF grid \<open>0 < g\<close> decrements(1) wf]
  have w: "?k = incoming_leaves taker \<and> refresh_kinds r ?k = [] \<and> whole_units taker ?S = whole_units taker S \<and> 1 \<le> whole_units taker S \<or>
      whole_units taker ?S + Suc (length (refresh_kinds r ?k)) = whole_units taker S"
    unfolding whole_units_def by (rule fill_class [OF wf decrements(1)]) (use m(9) in simp)
  have l: "length (refresh_kinds r ?k) \<le> 1"
    by (simp add: refresh_kinds_def)
  have z: "incoming_leaves (less_leaves ?k taker) = 0 \<longleftrightarrow> ?k = incoming_leaves taker"
    using m(8) by (auto simp: less_leaves_def)
  have pol: "incoming_self_trade_prevention (less_leaves ?k taker) = DecrementAndCancel"
    using decrements(3) by (simp add: less_leaves_def)
  show ?case
    using c w l m(10) unfolding open_bound_def event_bound_def Let_def fst_conv snd_conv z pol decrements(3) units_less_leaves
    by (auto simp: min_def)
qed

theorem run_bound:
  "taker_run d st ks st' \<Longrightarrow> book_wf (snd (snd st)) \<Longrightarrow> grid_ok g st \<Longrightarrow> 0 < g \<Longrightarrow>
   length ks + (if incoming_leaves (fst (snd st')) = 0 then 0 else T) \<le> open_bound g T st"
proof (induction rule: taker_run.induct)
  case (done_ st)
  then show ?case
    by (auto simp: open_bound_def event_bound_def Let_def max_def split: SelfTradePrevention.split)
next
  case (more st ks st' ks' st'')
  show ?case
    using step_bound [OF more(1) more.prems, of T] more.IH [OF step_wf [OF more(1) more.prems(1)]
      step_grid [OF more(1) more.prems(1,2)] more.prems(3)] by simp
qed

text \<open>The bound on trades.\<close>

definition trade_bound :: "nat \<Rightarrow> Taking \<Rightarrow> nat" where
  "trade_bound g st = min (incoming_leaves (fst (snd st)) div g) (external_units (fst (snd st)) (snd (snd st)))"

lemma step_trade_bound:
  "taker_step d st ks st' \<Longrightarrow> book_wf (snd (snd st)) \<Longrightarrow> grid_ok g st \<Longrightarrow> 0 < g \<Longrightarrow>
   trades_in ks + trade_bound g st' \<le> trade_bound g st"
proof (induction rule: taker_step.induct)
  case (trades S taker r n)
  let ?k = "takes taker r" and ?S = "spec_fill (order_id r) (takes taker r) S"
  have wf: "book_wf S" and grid: "grid_ok g (n, taker, S)"
    using trades.prems by simp_all
  note m = meets_order [OF trades(1) wf]
  note c = step_consumes [OF grid \<open>0 < g\<close> trades(1) wf]
  have e: "?k = incoming_leaves taker \<and> refresh_kinds r ?k = [] \<and> external_units taker ?S = external_units taker S \<and> 1 \<le> external_units taker S \<or>
      external_units taker ?S + Suc (length (refresh_kinds r ?k)) = external_units taker S"
    unfolding external_units_def by (rule fill_class [OF wf trades(1)]) (use m(9) trades(2) in simp)
  have t: "trades_in (refresh_kinds r ?k) = 0"
    by (simp add: refresh_kinds_def)
  have z: "?k = incoming_leaves taker \<Longrightarrow> incoming_leaves (less_leaves ?k taker) = 0"
    by (simp add: less_leaves_def)
  show ?case
    using c e z by (auto simp: trade_bound_def t min_def)
next
  case (decrements S taker r n)
  let ?k = "takes taker r" and ?S = "spec_fill (order_id r) (takes taker r) S"
  have wf: "book_wf S"
    using decrements.prems by simp
  have e: "external_units taker ?S = external_units taker S"
    unfolding external_units_def by (rule fill_other [OF wf decrements(1)]) (simp add: decrements(2))
  have "incoming_leaves (less_leaves ?k taker) div g \<le> incoming_leaves taker div g"
    by (rule div_le_mono) (simp add: less_leaves_def)
  then show ?case
    by (auto simp: trade_bound_def e refresh_kinds_def prevented_kind_def min_def)
next
  case (cancels_resting S taker r n)
  have wf: "book_wf S"
    using cancels_resting.prems by simp
  show ?case
    using delete_class [OF wf cancels_resting(1), of "\<lambda>r. if order_side r = opposite (incoming_side taker) \<and>
      order_account_id r \<noteq> incoming_account_id taker then units r else 0"]
    by (auto simp: trade_bound_def external_units_def prevented_kind_def resting_cancelled_def min_def)
qed (simp_all add: trade_bound_def less_leaves_def prevented_kind_def resting_cancelled_def taker_cancelled_def)

theorem run_trade_bound:
  "taker_run d st ks st' \<Longrightarrow> book_wf (snd (snd st)) \<Longrightarrow> grid_ok g st \<Longrightarrow> 0 < g \<Longrightarrow>
   trades_in ks \<le> trade_bound g st"
proof (induction rule: taker_run.induct)
  case (more st ks st' ks' st'')
  show ?case
    using step_trade_bound [OF more(1) more.prems] more.IH [OF step_wf [OF more(1) more.prems(1)]
      step_grid [OF more(1) more.prems(1,2)] more.prems(3)] by simp
qed simp

section \<open>The prepared bounds are these bounds\<close>

lemma order_sum_class:
  assumes "book_wf S" "X = {x \<in> dom (spec_orders S). P (the (spec_orders S x))}"
  shows "order_sum (\<lambda>r. if P r then f r else 0) S = (\<Sum>x \<in> X. f (the (spec_orders S x)))"
proof -
  have fin: "finite (dom (spec_orders S))"
    using assms(1) by (simp add: book_wf_def orders_ok_def)
  show ?thesis
    unfolding order_sum_def assms(2) by (simp add: sum.inter_filter [OF fin])
qed

lemma account_work:
  assumes "represents b S"
  shows "(case account_orders b a of None \<Rightarrow> (0, 0)
       | Some index \<Rightarrow> (account_order_count (account_side index s), account_event_units (account_side index s))) =
     (order_sum (\<lambda>r. if order_side r = s \<and> order_account_id r = a then 1 else 0) S,
      order_sum (\<lambda>r. if order_side r = s \<and> order_account_id r = a then units r else 0) S)"
proof -
  have acct: "acct_rep b S" "core_rep b S"
    using assms by (simp_all add: represents_def)
  let ?l = "account_list S a s" and ?P = "\<lambda>r. order_side r = s \<and> order_account_id r = a"
  have d: "distinct ?l" and l: "set ?l = {x \<in> dom (spec_orders S). ?P (the (spec_orders S x))}"
    using acct_facts(2,3) [OF acct, of a s] by (auto simp: owned_def split: option.splits)
  note sums = order_sum_class [OF representsD [OF assms] l]
  have "order_sum (\<lambda>r. if ?P r then 1 else 0) S = length ?l"
    using sums [of "\<lambda>_. 1"] distinct_card [OF d] by simp
  moreover have "order_sum (\<lambda>r. if ?P r then units r else 0) S = total_units (spec_orders S) ?l"
    using sums [of units] d by (simp add: total_units_def sum.distinct_set_conv_list)
  moreover have "(case account_orders b a of None \<Rightarrow> (0, 0)
       | Some index \<Rightarrow> (account_order_count (account_side index s), account_event_units (account_side index s))) =
      (length ?l, total_units (spec_orders S) ?l)"
    using acct_index [OF acct(1), of a] by (cases s) (auto simp: account_of_def side_index_of_def)
  ultimately show ?thesis
    by simp
qed

lemma side_work:
  assumes "represents b S"
  shows "side_event_units (levels b s) = order_sum (\<lambda>r. if order_side r = s then units r else 0) S"
  using side_units_eq [of b S s] assms by (simp add: represents_def order_sum_def)

lemma split_work:
  "order_sum (\<lambda>r. if order_side r = s then units r else 0) S =
   order_sum (\<lambda>r. if order_side r = s \<and> order_account_id r = a then units r else 0) S +
   order_sum (\<lambda>r. if order_side r = s \<and> order_account_id r \<noteq> a then units r else 0) S"
  unfolding order_sum_def sum.distrib [symmetric] by (rule sum.cong) auto

definition previews :: "IncomingPreview \<Rightarrow> IncomingOrder \<Rightarrow> bool" where
  "previews p taker \<longleftrightarrow> preview_account_id p = incoming_account_id taker \<and> preview_side p = incoming_side taker \<and>
     preview_leaves p = incoming_leaves taker \<and> preview_self_trade_prevention p = incoming_self_trade_prevention taker"

lemma maximum_matching_work_eq:
  assumes rep: "represents b S" and p: "previews p taker" and g: "g = increment (def_quantity (book_definition b))" "0 < g"
  shows "maximum_matching_work p T b \<noteq> None"
    "maximum_matching_work p T b = Some (Inr (events, trades)) \<Longrightarrow>
       events = event_bound g T taker S + 1 \<and> trades = trade_bound g (n, taker, S)"
proof -
  let ?s = "opposite (incoming_side taker)" and ?a = "incoming_account_id taker"
  note work = account_work [OF rep, of ?s ?a] side_work [OF rep, of ?s] split_work [of ?s S ?a]
  have ext: "checked_sub (side_event_units (levels b ?s)) (order_sum (\<lambda>r. if order_side r = ?s \<and> order_account_id r = ?a then units r else 0) S) =
      Some (external_units taker S)"
    by (simp add: work(2,3) checked_sub_def external_units_def)
  have pf: "preview_account_id p = ?a" "preview_side p = incoming_side taker" "preview_leaves p = incoming_leaves taker"
      "preview_self_trade_prevention p = incoming_self_trade_prevention taker"
    using p by (simp_all add: previews_def)
  note def = maximum_matching_work_def [of p T b, unfolded g(1) [symmetric] pf Let_def work(1) prod.case ext]
  show "maximum_matching_work p T b \<noteq> None"
    using g(2) by (simp add: def)
  show "events = event_bound g T taker S + 1 \<and> trades = trade_bound g (n, taker, S)"
    if "maximum_matching_work p T b = Some (Inr (events, trades))"
    using that g(2) work(2)
    by (cases "incoming_self_trade_prevention taker")
      (auto simp: def event_bound_def trade_bound_def own_orders_def whole_units_def Let_def ok_or_def and_then_eq_Inr split: option.splits if_splits)
qed

theorem prepared_work_covers:
  assumes rep: "represents b S" and p: "previews p taker" and g: "g = increment (def_quantity (book_definition b))" "0 < g"
    and grid: "g dvd incoming_leaves taker" "on_grid g S"
    and work: "maximum_matching_work p T b = Some (Inr (events, trades))"
    and run: "taker_run d (n, taker, S) ks (n', taker', S')" and T: "length (rest_kinds taker' tif) \<le> T"
    and pos: "0 < incoming_leaves taker"
  shows "1 + length (ks @ rest_kinds taker' tif) \<le> events" "trades_in ks \<le> trades"
proof -
  have wf: "book_wf S"
    by (rule representsD [OF rep])
  have gr: "grid_ok g (n, taker, S)"
    using grid by (simp add: grid_ok_def)
  have e: "events = event_bound g T taker S + 1" "trades = trade_bound g (n, taker, S)"
    using maximum_matching_work_eq(2) [OF rep p g work] by simp_all
  have "length ks + (if incoming_leaves taker' = 0 then 0 else T) \<le> event_bound g T taker S"
    using run_bound [OF run, of g T] wf gr g(2) pos by (simp add: open_bound_def)
  moreover have "incoming_leaves taker' = 0 \<Longrightarrow> rest_kinds taker' tif = []"
    by (simp add: rest_kinds_def)
  ultimately show "1 + length (ks @ rest_kinds taker' tif) \<le> events"
    using T by (auto simp: e(1) split: if_splits)
  show "trades_in ks \<le> trades"
    using run_trade_bound [OF run, of g] wf gr g(2) by (simp add: e(2))
qed

end
