(* ===== verification/MatchingSafety.thy ===== *)
theory MatchingSafety
  imports MatchingWork
begin

text \<open>
  The execution of a whole incoming order: an order prepared the way the code prepares it is executed without
  failure, and the outcome has the properties of \<^theory_text>\<open>MatchingRuns\<close>.
\<close>

section \<open>A book without orders\<close>

definition spec_new :: BookSpec where
  "spec_new = \<lparr>spec_orders = Map.empty, queue = (\<lambda>_ _. ([], [])), account_list = (\<lambda>_ _. [])\<rparr>"

lemma book_new_represents:
  assumes "fits_usize (max_active_orders limit)"
  shows "represents (book_new i d limit) spec_new"
proof -
  have "levels (book_new i d limit) s = levels_new s (max_price_levels_per_side limit)" for s
    by (cases s) (simp_all add: book_new_def)
  then have "levels_rep (book_new i d limit) spec_new"
    by (simp add: levels_rep_def spec_new_def level_of_def members_def) (simp add: book_new_def)
  moreover have "index_ok (index_new n)" "index_get (index_new n) k = None" "index_maximum (index_new n) = n" for n k
    by (simp_all add: index_ok_def index_new_def index_get_def index_len_def)
  then have "indexes_rep (book_new i d limit) spec_new"
    by (simp add: indexes_rep_def spec_new_def expiry_entry_def stop_entry_def book_new_def split: prod.split)
  ultimately have "core_rep (book_new i d limit) spec_new"
    using assms unfolding core_rep_def
    by (simp add: orders_ok_def queues_ok_def rests_def members_def) (simp add: spec_new_def book_new_def members_def rests_def)
  moreover have "acct_rep (book_new i d limit) spec_new"
    by (simp add: acct_rep_def accounts_ok_def owned_def spec_new_def book_new_def account_of_def)
  ultimately show ?thesis
    by (simp add: represents_def)
qed

section \<open>Room for a remainder\<close>

definition accounts_in :: "BookSpec \<Rightarrow> AccountId set" where
  "accounts_in S = (\<lambda>x. order_account_id (the (spec_orders S x))) ` dom (spec_orders S)"

lemma account_orders_dom:
  assumes "represents b S"
  shows "dom (account_orders b) = accounts_in S"
proof -
  have acct: "acct_rep b S" "core_rep b S"
    using assms by (simp_all add: represents_def)
  have "account_orders b a \<noteq> None \<longleftrightarrow> (\<exists>s. account_list S a s \<noteq> [])" for a
    using acct_index [OF acct(1), of a] by (auto simp: account_of_def) (metis Side.exhaust)+
  moreover have "(\<exists>s. account_list S a s \<noteq> []) \<longleftrightarrow> a \<in> accounts_in S" for a
  proof -
    have "account_list S a s \<noteq> [] \<longleftrightarrow> (\<exists>x. owned S a s x)" for s
      using acct_facts(3) [OF acct, of a s] by (cases "account_list S a s") auto
    then show ?thesis
      by (auto simp: accounts_in_def owned_def image_iff dom_def split: option.splits) force+
  qed
  ultimately show ?thesis
    by (auto simp: dom_def)
qed

lemma levels_len_eq:
  assumes "represents b S"
  shows "levels_len (levels b s) = card {p. members (queue S s p) \<noteq> []}"
proof -
  have l: "levels_ok (levels b s)" "\<And>q. levels_get (levels b s) q = level_of (spec_orders S) (queue S s q)"
    using assms by (simp_all add: represents_def core_rep_def levels_rep_def)
  have "levels_len (levels b s) = card (dom (levels_get (levels b s)))"
    using l(1) index_len_dom [of "by_price (levels b s)"]
    by (simp add: levels_len_def levels_ok_def levels_get_def [abs_def])
  also have "dom (levels_get (levels b s)) = {p. members (queue S s p) \<noteq> []}"
    using level_of_eq_None [of "spec_orders S"] by (auto simp: dom_def l(2))
  finally show ?thesis .
qed

text \<open>A run takes orders of the other side only.\<close>

lemma step_shrinks:
  "taker_step d st ks st' \<Longrightarrow> book_wf (snd (snd st)) \<Longrightarrow>
   dom (spec_orders (snd (snd st'))) \<subseteq> dom (spec_orders (snd (snd st))) \<and>
   (\<forall>x r r'. spec_orders (snd (snd st)) x = Some r \<longrightarrow> spec_orders (snd (snd st')) x = Some r' \<longrightarrow>
      order_account_id r' = order_account_id r) \<and>
   queue (snd (snd st')) (incoming_side (fst (snd st))) = queue (snd (snd st)) (incoming_side (fst (snd st)))"
proof -
  have fill: "dom (spec_orders (spec_fill x k S)) \<subseteq> dom (spec_orders S) \<and>
      (\<forall>y r r'. spec_orders S y = Some r \<longrightarrow> spec_orders (spec_fill x k S) y = Some r' \<longrightarrow> order_account_id r' = order_account_id r) \<and>
      queue (spec_fill x k S) s = queue S s"
    if "book_wf S" "spec_orders S x = Some m" "stop m = None" "0 < k" "k \<le> leaves m" "s \<noteq> order_side m" for S x m k s
    using that(1-5)
  proof (cases rule: fill_cases)
    case gone
    have "x \<notin> set (members (queue S s p))" for p
      using that(1,2,6) by (auto simp: book_wf_def rests_members rests_def)
    then have "queue (spec_delete x S) s p = queue S s p" for p
      by (simp add: spec_delete_def members_def prod_eq_iff)
    then show ?thesis
      using gone by (auto simp: spec_delete_def fun_eq_iff)
  next
    case (kept r')
    then show ?thesis
      using that(2,6) by (auto simp: requeued_def refilled_def fun_eq_iff split: if_splits)
  qed
  have delete: "dom (spec_orders (spec_delete x S)) \<subseteq> dom (spec_orders S) \<and>
      (\<forall>y r r'. spec_orders S y = Some r \<longrightarrow> spec_orders (spec_delete x S) y = Some r' \<longrightarrow> order_account_id r' = order_account_id r) \<and>
      queue (spec_delete x S) s = queue S s"
    if "book_wf S" "spec_orders S x = Some m" "s \<noteq> order_side m" for S x m s
  proof -
    have "x \<notin> set (members (queue S s p))" for p
      using that by (auto simp: book_wf_def rests_members rests_def)
    then have "queue (spec_delete x S) s p = queue S s p" for p
      by (simp add: spec_delete_def members_def prod_eq_iff)
    then show ?thesis
      by (auto simp: spec_delete_def fun_eq_iff split: if_splits)
  qed
  show "taker_step d st ks st' \<Longrightarrow> book_wf (snd (snd st)) \<Longrightarrow> ?thesis"
  proof (induction rule: taker_step.induct)
    case (trades S taker r n)
    have wf: "book_wf S"
      using trades.prems by simp
    note m = meets_order [OF trades(1) wf]
    show ?case
      using fill [OF wf m(1,3,5,6), of "incoming_side taker"] m(9) by simp
  next
    case (decrements S taker r n)
    have wf: "book_wf S"
      using decrements.prems by simp
    note m = meets_order [OF decrements(1) wf]
    show ?case
      using fill [OF wf m(1,3,5,6), of "incoming_side taker"] m(9) by simp
  next
    case (cancels_resting S taker r n)
    have wf: "book_wf S"
      using cancels_resting.prems by simp
    note m = meets_order [OF cancels_resting(1) wf]
    show ?case
      using delete [OF wf m(1), of "incoming_side taker"] m(9) by simp
  next
    case (cancels_both S taker r n)
    have wf: "book_wf S"
      using cancels_both.prems by simp
    note m = meets_order [OF cancels_both(1) wf]
    show ?case
      using delete [OF wf m(1), of "incoming_side taker"] m(9) by simp
  qed auto
qed

lemma run_shrinks:
  "taker_run d st ks st' \<Longrightarrow> book_wf (snd (snd st)) \<Longrightarrow>
   dom (spec_orders (snd (snd st'))) \<subseteq> dom (spec_orders (snd (snd st))) \<and>
   (\<forall>x r r'. spec_orders (snd (snd st)) x = Some r \<longrightarrow> spec_orders (snd (snd st')) x = Some r' \<longrightarrow>
      order_account_id r' = order_account_id r) \<and>
   queue (snd (snd st')) (incoming_side (fst (snd st))) = queue (snd (snd st)) (incoming_side (fst (snd st)))"
proof (induction rule: taker_run.induct)
  case (more st ks st' ks' st'')
  have side: "incoming_side (fst (snd st')) = incoming_side (fst (snd st))"
    using more(1) by (induction rule: taker_step.induct) (simp_all add: less_leaves_def)
  note a = step_shrinks [OF more(1) more.prems] and b = more.IH [OF step_wf [OF more(1) more.prems]]
  show ?case
  proof (intro conjI allI impI)
    fix x r r''
    assume h: "spec_orders (snd (snd st)) x = Some r" "spec_orders (snd (snd st'')) x = Some r''"
    then obtain r' where "spec_orders (snd (snd st')) x = Some r'"
      using b by blast
    then show "order_account_id r'' = order_account_id r"
      using a b h by metis
  next
    show "dom (spec_orders (snd (snd st''))) \<subseteq> dom (spec_orders (snd (snd st)))"
      using a b by (meson order_trans)
    show "queue (snd (snd st'')) (incoming_side (fst (snd st))) = queue (snd (snd st)) (incoming_side (fst (snd st)))"
      using a b by (simp add: side)
  qed
qed auto

section \<open>Executing a prepared order\<close>

definition rest_room :: "IncomingOrder \<Rightarrow> Price \<Rightarrow> OrderBook \<Rightarrow> bool" where
  "rest_room taker price b \<longleftrightarrow>
     card (dom (orders b)) < max_active_orders (limits b) \<and>
     card (dom (account_orders b)) \<le> max_active_accounts (limits b) \<and>
     (account_orders b (incoming_account_id taker) \<noteq> None \<or> card (dom (account_orders b)) < max_active_accounts (limits b)) \<and>
     (levels_get (levels b (incoming_side taker)) price \<noteq> None \<or>
      levels_len (levels b (incoming_side taker)) < max_price_levels_per_side (limits b))"

definition display_fits :: "nat \<Rightarrow> IncomingOrder \<Rightarrow> bool" where
  "display_fits g taker \<longleftrightarrow>
     (case incoming_display taker of Reserve p \<Rightarrow> 0 < p \<and> incoming_leaves taker \<le> p * 2 ^ 32 \<and> g dvd p | _ \<Rightarrow> True)"

text \<open>
  An execution the code has prepared: quantities on the grid of the instrument, a free order number and room
  for the remainder, and a trace with the events and trades \<open>maximum_matching_work\<close> has computed.
\<close>

definition prepared :: "IncomingOrder \<Rightarrow> TimeInForce \<Rightarrow> BookSpec \<Rightarrow> Exec \<Rightarrow> bool" where
  "prepared taker tif S s \<longleftrightarrow>
     (let g = increment (def_quantity (book_definition (fst s)))
      in represents (fst s) S \<and> taker_wf taker \<and> 0 < incoming_leaves taker \<and>
         0 < g \<and> g dvd incoming_leaves taker \<and> on_grid g S \<and>
         (\<forall>price. incoming_order_type taker = Limit price \<longrightarrow> may_rest tif \<longrightarrow>
            orders (fst s) (incoming_order_id taker) = None \<and> display_fits g taker \<and> rest_room taker price (fst s)) \<and>
         (\<exists>p events trades. previews p taker \<and> maximum_matching_work p 1 (fst s) = Some (Inr (events, trades)) \<and>
            room (events - 1) trades s))"

lemma resting_of_wf:
  assumes "display_fits g taker" "fits_u64 (incoming_leaves taker)" "0 < q" "q \<le> incoming_leaves taker"
  shows "order_wf (resting_of (taker\<lparr>incoming_leaves := q\<rparr>) price tif)"
  using assms fits_u64_mono [OF assms(2,4)]
  by (cases "incoming_display taker") (auto simp: resting_of_def order_wf_def display_fits_def)

lemma run_leaves:
  "taker_run d st ks st' \<Longrightarrow> incoming_leaves (fst (snd st')) \<le> incoming_leaves (fst (snd st))"
proof (induction rule: taker_run.induct)
  case (more st ks st' ks' st'')
  have "incoming_leaves (fst (snd st')) \<le> incoming_leaves (fst (snd st))"
    using more(1) by (induction rule: taker_step.induct) (simp_all add: less_leaves_def)
  then show ?case
    using more.IH by simp
qed simp

text \<open>Room before the run is room after it.\<close>

lemma rest_fits_after:
  assumes rep: "represents b S" "represents b' S'" and same: "limits b' = limits b"
    and run: "taker_run d (n, taker, S) ks (n', taker', S')"
    and fresh: "orders b (incoming_order_id taker) = None" and room: "rest_room taker price b"
    and wf: "order_wf (resting_of taker' price tif)"
  shows "rest_fits taker' price tif S' b'"
proof -
  have bw: "book_wf S"
    by (rule representsD [OF rep(1)])
  have t: "incoming_order_id taker' = incoming_order_id taker" "incoming_account_id taker' = incoming_account_id taker"
      "incoming_side taker' = incoming_side taker"
    using run_taker [OF run] by (metis IncomingOrder.select_convs IncomingOrder.surjective IncomingOrder.update_convs(5) fst_conv snd_conv)+
  have sh: "dom (spec_orders S') \<subseteq> dom (spec_orders S)"
      "\<And>x r r'. spec_orders S x = Some r \<Longrightarrow> spec_orders S' x = Some r' \<Longrightarrow> order_account_id r' = order_account_id r"
      "queue S' (incoming_side taker) = queue S (incoming_side taker)"
    using run_shrinks [OF run] bw by auto
  have core: "core_rep b S" "core_rep b' S'" and fin: "finite (dom (spec_orders S))"
    using rep by (simp_all add: represents_def core_rep_def orders_ok_def)
  have id: "spec_orders S' (incoming_order_id taker) = None"
    using fresh sh(1) core_orders(2) [OF core(1)] by (auto simp: dom_def)
  have count: "card (dom (spec_orders S')) < max_active_orders (limits b')"
    using room card_mono [OF fin sh(1)] core_orders(3) [OF core(1)] by (simp add: rest_room_def same)
  have sub: "accounts_in S' \<subseteq> accounts_in S"
    using sh(1,2) by (fastforce simp: accounts_in_def dom_def image_iff)
  have accounts: "account_orders b' (incoming_account_id taker) \<noteq> None \<or> card (dom (account_orders b')) < max_active_accounts (limits b')"
  proof (cases "incoming_account_id taker \<in> accounts_in S'")
    case True
    then show ?thesis
      using account_orders_dom [OF rep(2)] by blast
  next
    case False
    have f: "finite (accounts_in S)"
      using fin by (simp add: accounts_in_def)
    show ?thesis
    proof (cases "incoming_account_id taker \<in> accounts_in S")
      case True
      then have "card (accounts_in S') < card (accounts_in S)"
        using False sub by (intro psubset_card_mono [OF f]) blast
      then show ?thesis
        using room by (simp add: rest_room_def same account_orders_dom [OF rep(1)] account_orders_dom [OF rep(2)])
    next
      case no: False
      then have "account_orders b (incoming_account_id taker) = None"
        using account_orders_dom [OF rep(1)] by blast
      then have "card (accounts_in S) < max_active_accounts (limits b)"
        using room by (simp add: rest_room_def account_orders_dom [OF rep(1)])
      then show ?thesis
        using card_mono [OF f sub] by (simp add: same account_orders_dom [OF rep(2)])
    qed
  qed
  have lv: "levels_get (levels b s) q \<noteq> None \<longleftrightarrow> members (queue S s q) \<noteq> []"
    "levels_get (levels b' s) q \<noteq> None \<longleftrightarrow> members (queue S' s q) \<noteq> []" for s q
    using core_queue_facts(4) [OF core(1), of s q] core_queue_facts(4) [OF core(2), of s q] level_of_eq_None by metis+
  have levels: "levels_get (levels b' (incoming_side taker)) price \<noteq> None \<or>
      levels_len (levels b' (incoming_side taker)) < max_price_levels_per_side (limits b')"
    using room unfolding rest_room_def levels_len_eq [OF rep(1)] levels_len_eq [OF rep(2)] lv sh(3) same by blast
  show ?thesis
    using id wf count accounts levels unfolding rest_fits_def t by blast
qed

theorem execute_prepared:
  assumes prep: "prepared taker tif S s"
  obtains ks n' taker' S' s' where
    "taker_run (book_definition (fst s)) (next_trade_id (fst s), taker, S) ks (n', taker', S')"
    "execute_incoming taker tif c t s = Some (Inr (), s')"
    "performs c t s (ks @ rest_kinds taker' tif) s'" "represents (fst s') (spec_rest taker' tif S')"
    "represents (fst s) S" "taker' = taker\<lparr>incoming_leaves := incoming_leaves taker'\<rparr>"
proof -
  let ?g = "increment (def_quantity (book_definition (fst s)))"
  obtain p events trades where p: "previews p taker" "maximum_matching_work p 1 (fst s) = Some (Inr (events, trades))"
      "room (events - 1) trades s"
    using prep by (auto simp: prepared_def Let_def)
  have rep: "represents (fst s) S" and wf: "taker_wf taker" and pos: "0 < incoming_leaves taker"
    and g: "0 < ?g" "?g dvd incoming_leaves taker" "on_grid ?g S"
    using prep by (simp_all add: prepared_def Let_def)
  obtain ks st' where "taker_run (book_definition (fst s)) (next_trade_id (fst s), taker, S) ks st'"
    using run_exists [of "(next_trade_id (fst s), taker, S)" "book_definition (fst s)"] representsD [OF rep] by auto
  then obtain n' taker' S' where run: "taker_run (book_definition (fst s)) (next_trade_id (fst s), taker, S) ks (n', taker', S')"
    by (cases st') blast
  have t: "taker' = taker\<lparr>incoming_leaves := incoming_leaves taker'\<rparr>"
    using run_taker [OF run] by simp
  have le: "incoming_leaves taker' \<le> incoming_leaves taker"
    using run_leaves [OF run] by simp
  have one: "length (rest_kinds taker' tif) \<le> 1"
    by (simp add: rest_kinds_def split: OrderType.split)
  note covers = prepared_work_covers [OF rep p(1) refl g(1-3) p(2) run one pos]
  have room: "room (length ks + length (rest_kinds taker' tif)) (trades_in ks) s"
    by (rule room_mono [OF p(3)]) (use covers in simp_all)
  have fits: "rest_fits taker' price tif S' b'"
    if "incoming_order_type taker' = Limit price" "may_rest tif" "0 < incoming_leaves taker'" "represents b' S'"
      "limits b' = limits (fst s)" for price b'
  proof -
    note hyps = that
    have "incoming_order_type taker = Limit price"
      using hyps(1) t by (metis IncomingOrder.select_convs(4) IncomingOrder.surjective IncomingOrder.update_convs(5))
    then have f: "orders (fst s) (incoming_order_id taker) = None" "display_fits ?g taker" "rest_room taker price (fst s)"
      using prep hyps(2) by (auto simp: prepared_def Let_def)
    have "order_wf (resting_of (taker\<lparr>incoming_leaves := incoming_leaves taker'\<rparr>) price tif)"
      by (rule resting_of_wf [OF f(2)]) (use wf le hyps(3) in \<open>simp_all add: taker_wf_def\<close>)
    then have "order_wf (resting_of taker' price tif)"
      using t by simp
    then show ?thesis
      by (rule rest_fits_after [OF rep hyps(4,5) run f(1,3)])
  qed
  obtain s' where "execute_incoming taker tif c t s = Some (Inr (), s')"
    "performs c t s (ks @ rest_kinds taker' tif) s'" "represents (fst s') (spec_rest taker' tif S')"
    by (rule execute_incoming_ok [OF run rep wf room fits, of c t]) (assumption | rule that)+
  then show thesis
    using that run rep t by blast
qed

end
