(* ===== verification/MatchingProperties.thy ===== *)
theory MatchingProperties
  imports MatchingSafety
begin

text \<open>
  What the order book and its matching loop promise, stated of the code's own functions on a book that
  represents an abstract book, with a small book on which every statement applies.
\<close>

section \<open>A small book\<close>

text \<open>One sell of five lots at 100, and a buy of eight lots at 101 that comes in.\<close>

definition sample_definition :: InstrumentDefinition where
  "sample_definition = \<lparr>def_instrument_id = 1, def_version = 1, effective_from = 0, def_symbol = ''ABC'', def_kind = Spot,
     def_base_asset_id = 1, def_quote_asset_id = 2,
     def_price = \<lparr>decimal_scale = 0, tick_size = 1, minimum = 1, maximum_price = 1000\<rparr>,
     def_quantity = \<lparr>increment = 1, minimum_lots = 1, maximum_lots = 1000\<rparr>, def_reserve = reserve_rules_disabled,
     hidden_orders_supported = False, def_base_units_per_lot = 1, def_quote_units_per_price_unit = 1,
     def_trading_state = Open\<rparr>"

definition sample_limits :: OrderBookLimits where
  "sample_limits = \<lparr>max_active_orders = 4, max_active_accounts = 4, max_price_levels_per_side = 4,
     max_accepted_order_ids = 8, max_account_controls = 4, max_retained_commands = 16, cancellation_reserve = 4,
     max_report_events = 32, max_retained_events = 64, max_prepared_order_selections = 2\<rparr>"

definition sample_maker :: RestingOrder where
  "sample_maker = \<lparr>order_id = 7, order_account_id = 2, order_side = Sell, order_price = 100, leaves = 5, displayed = 5,
     order_display = FullyDisplayed, order_self_trade_prevention = CancelAggressor, order_expires_at = None, stop = None,
     previous = None, next_order = None, account_previous = None, account_next = None\<rparr>"

definition sample_taker :: IncomingOrder where
  "sample_taker = \<lparr>incoming_order_id = 8, incoming_account_id = 3, incoming_side = Buy, incoming_order_type = Limit 101,
     incoming_leaves = 8, incoming_display = FullyDisplayed, incoming_self_trade_prevention = CancelAggressor\<rparr>"

definition sample_level :: PriceLevel where
  "sample_level = \<lparr>level_head = 7, level_tail = 7, displayed_tail = Some 7, total_quantity = 5, order_count = 1,
     visible_order_count = 1, level_event_units = 1\<rparr>"

definition sample_book :: OrderBook where
  "sample_book = (book_new 1 sample_definition sample_limits)\<lparr>
     asks := \<lparr>levels_side = Sell, by_price = \<lparr>index_entries = [(100, sample_level)], index_maximum = 4\<rparr>,
       visible_by_price = \<lparr>index_entries = [(100, ())], index_maximum = 4\<rparr>, best = Some (100, sample_level),
       best_handle = Some 100, best_visible = Some (100, sample_level), side_event_units = 1\<rparr>,
     orders := [7 \<mapsto> sample_maker],
     account_orders := [2 \<mapsto> \<lparr>buys = side_index_default, sells = \<lparr>account_head = Some 7, account_tail = Some 7,
       account_order_count = 1, account_event_units = 1\<rparr>\<rparr>]\<rparr>"

lemma sample_append: "append_order sample_maker (book_new 1 sample_definition sample_limits) = Some sample_book"
  by (simp add: append_order_def sample_maker_def append_account_membership_def account_append_def remaining_event_units_def
    checked_sub_def fits_u128_def fits_u64_def Let_def book_new_def sample_limits_def levels_new_def levels_get_def index_new_def index_get_def
    levels_len_def index_len_def account_index_default_def side_index_default_def
    append_order_preserving_account_index_def levels_insert_def level_for_order_def index_insert_def insert_expiry_def
    sync_visible_level_def sync_visible_index_def is_visible_def is_better_def
    sample_book_def sample_level_def)

definition sample_spec :: BookSpec where
  "sample_spec = spec_insert sample_maker spec_new"

definition sample_exec :: Exec where
  "sample_exec = (sample_book, \<lparr>trace_start = 0, trace_maximum = 32, trace_events = []\<rparr>)"

lemma sample_maker_facts:
  "order_wf sample_maker" "strip sample_maker = sample_maker" "stop sample_maker = None" "order_id sample_maker = 7"
  "order_side sample_maker = Sell" "order_price sample_maker = 100" "leaves sample_maker = 5" "displayed sample_maker = 5"
  "order_account_id sample_maker = 2" "order_display sample_maker = FullyDisplayed"
  by (simp_all add: sample_maker_def order_wf_def strip_def fits_u64_def)

lemma sample_new: "represents (book_new 1 sample_definition sample_limits) spec_new"
  by (rule book_new_represents) (simp add: sample_limits_def fits_u64_def)

lemma sample_represents: "represents sample_book sample_spec"
proof -
  let ?b = "book_new 1 sample_definition sample_limits"
  have pre: "spec_orders spec_new (order_id sample_maker) = None" "card (dom (spec_orders spec_new)) < max_active_orders (limits ?b)"
      "account_orders ?b (order_account_id sample_maker) \<noteq> None \<or> card (dom (account_orders ?b)) < max_active_accounts (limits ?b)"
      "levels_get (levels ?b (order_side sample_maker)) (order_price sample_maker) \<noteq> None \<or>
        levels_len (levels ?b (order_side sample_maker)) < max_price_levels_per_side (limits ?b)"
    by (simp_all add: spec_new_def book_new_def sample_limits_def sample_maker_def levels_new_def levels_len_def index_len_def index_new_def)
  obtain b' where b: "append_order sample_maker ?b = Some b'" "represents b' (spec_insert sample_maker spec_new)"
    by (rule append_order_correct [OF sample_new pre(1) sample_maker_facts(1-3) pre(2-4)]) (rule that)
  have "sample_book = b'"
    using trans [OF sample_append [symmetric] b(1)] by (rule option.inject [THEN iffD1])
  then show ?thesis
    using b(2) by (simp add: sample_spec_def)
qed

definition sample_preview :: IncomingPreview where
  "sample_preview = \<lparr>preview_account_id = 3, preview_side = Buy, preview_order_type = Limit 101, preview_leaves = 8,
    preview_self_trade_prevention = CancelAggressor\<rparr>"

lemma sample_work: "maximum_matching_work sample_preview 1 (fst sample_exec) = Some (Inr (3, 1))" "previews sample_preview sample_taker"
proof -
  show "maximum_matching_work sample_preview 1 (fst sample_exec) = Some (Inr (3, 1))"
    by (simp add: maximum_matching_work_def sample_exec_def sample_preview_def sample_book_def book_new_def sample_definition_def
        checked_sub_def ok_or_def fits_u128_def fits_u64_def Let_def)
  show "previews sample_preview sample_taker"
    by (simp add: previews_def sample_taker_def sample_preview_def)
qed

lemma sample_prepared: "prepared sample_taker GoodTilCancelled sample_spec sample_exec"
proof -
  have "room (3 - 1) 1 sample_exec"
    by (simp add: room_def sample_exec_def sample_book_def book_new_def fits_u64_def)
  moreover have "rest_room sample_taker 101 (fst sample_exec)"
    by (simp add: rest_room_def sample_taker_def sample_exec_def sample_book_def book_new_def sample_limits_def levels_new_def
        levels_len_def index_len_def index_new_def)
  moreover have "represents (fst sample_exec) sample_spec"
    using sample_represents by (simp add: sample_exec_def)
  moreover have "on_grid 1 sample_spec" "taker_wf sample_taker" "0 < incoming_leaves sample_taker" "display_fits 1 sample_taker"
    by (simp_all add: on_grid_def order_on_grid_def taker_wf_def sample_taker_def fits_u64_def display_fits_def)
  moreover have "increment (def_quantity (book_definition (fst sample_exec))) = 1" "incoming_order_type sample_taker = Limit 101"
      "orders (fst sample_exec) (incoming_order_id sample_taker) = None"
    by (simp_all add: sample_exec_def sample_book_def book_new_def sample_definition_def sample_taker_def)
  ultimately show ?thesis
    using sample_work unfolding prepared_def Let_def by auto
qed

lemma sample_executes:
  obtains s' where "execute_incoming sample_taker GoodTilCancelled 9 5 sample_exec = Some (Inr (), s')"
  by (rule execute_prepared [OF sample_prepared, of 9 5]) (rule that)

section \<open>Readings of the book\<close>

definition new_kinds :: "Exec \<Rightarrow> Exec \<Rightarrow> EventKind list" where
  "new_kinds s s' = map event_kind (drop (length (trace_events (snd s))) (trace_events (snd s')))"

lemma kinds_numbered [simp]: "map event_kind (numbered c t n ks) = ks"
  by (induction ks arbitrary: n) auto

lemma new_kinds_performs: "performs c t s ks s' \<Longrightarrow> new_kinds s s' = ks"
  by (simp add: new_kinds_def performs_def)

definition book_lots :: "OrderBook \<Rightarrow> nat" where
  "book_lots b = (\<Sum>x \<in> dom (orders b). leaves (the (orders b x)))"

lemma book_lots_eq:
  assumes "represents b S"
  shows "book_lots b = order_sum leaves S"
proof -
  have core: "core_rep b S"
    using assms by (simp add: represents_def)
  have "leaves (the (orders b x)) = leaves (the (spec_orders S x))" if "x \<in> dom (orders b)" for x
    using that by (auto simp: core_orders(1) [OF core, of x, symmetric])
  then show ?thesis
    unfolding book_lots_def order_sum_def core_orders(3) [OF core, symmetric] by (rule sum.cong [OF refl])
qed

definition best_uncrossed :: "OrderBook \<Rightarrow> bool" where
  "best_uncrossed b \<longleftrightarrow>
     (case (best_price Buy b, best_price Sell b) of (Some p, Some q) \<Rightarrow> p < q | _ \<Rightarrow> True)"

lemma best_price_cases:
  assumes "represents b S"
  shows "best_price s b = None \<longleftrightarrow> (\<forall>q. members (queue S s q) = [])"
    "best_price s b = Some p \<longleftrightarrow> members (queue S s p) \<noteq> [] \<and> (\<forall>q. members (queue S s q) \<noteq> [] \<longrightarrow> \<not> better s q p)"
proof -
  show "best_price s b = None \<longleftrightarrow> (\<forall>q. members (queue S s q) = [])"
    using best_of_side(2) [OF assms] by (simp add: best_price_def)
  have "(\<exists>lv. level_of R q = Some lv) \<longleftrightarrow> members q \<noteq> []" for R q
    using level_of_eq_None [of R q] by (cases "level_of R q") simp_all
  moreover have "best_price s b = Some p \<longleftrightarrow> (\<exists>lv. best (levels b s) = Some (p, lv))"
    by (cases "best (levels b s)") (auto simp: best_price_def)
  ultimately show "best_price s b = Some p \<longleftrightarrow> members (queue S s p) \<noteq> [] \<and> (\<forall>q. members (queue S s q) \<noteq> [] \<longrightarrow> \<not> better s q p)"
    by (simp add: best_of_side(1) [OF assms])
qed

lemma best_uncrossed_eq:
  assumes "represents b S"
  shows "best_uncrossed b \<longleftrightarrow> uncrossed S"
proof (cases "best_price Buy b")
  case None
  then show ?thesis
    using best_price_cases(1) [OF assms, of Buy] by (simp add: best_uncrossed_def uncrossed_def)
next
  case (Some p)
  show ?thesis
  proof (cases "best_price Sell b")
    case None
    then show ?thesis
      using best_price_cases(1) [OF assms, of Sell] Some by (simp add: best_uncrossed_def uncrossed_def)
  next
    case (Some q)
    note pq = \<open>best_price Buy b = Some p\<close>[unfolded best_price_cases(2) [OF assms]] Some [unfolded best_price_cases(2) [OF assms]]
    have "best_uncrossed b \<longleftrightarrow> p < q"
      using Some \<open>best_price Buy b = Some p\<close> by (simp add: best_uncrossed_def)
    also have "\<dots> \<longleftrightarrow> uncrossed S"
      unfolding uncrossed_def using pq by (fastforce simp: better_def)
    finally show ?thesis .
  qed
qed

section \<open>Executing an incoming order\<close>

text \<open>
  C12. A prepared incoming order is executed: the loop returns, no error is met, and the book that results
  represents the abstract book after one of the runs of the matching specification and the treatment of the
  remainder; the events are exactly those of the run.
\<close>

theorem execute_incoming_refines:
  assumes "prepared taker tif S s"
  shows "\<exists>ks n' taker' S' s'.
    taker_run (book_definition (fst s)) (next_trade_id (fst s), taker, S) ks (n', taker', S') \<and>
    execute_incoming taker tif c t s = Some (Inr (), s') \<and>
    represents (fst s') (spec_rest taker' tif S') \<and> new_kinds s s' = ks @ rest_kinds taker' tif"
proof -
  obtain ks n' taker' S' s' where
    "taker_run (book_definition (fst s)) (next_trade_id (fst s), taker, S) ks (n', taker', S')"
    "execute_incoming taker tif c t s = Some (Inr (), s')"
    "performs c t s (ks @ rest_kinds taker' tif) s'" "represents (fst s') (spec_rest taker' tif S')"
    by (rule execute_prepared [OF assms, of c t]) (rule that)
  then show ?thesis
    using new_kinds_performs by blast
qed

theorem execute_incoming_refines_witness:
  "\<exists>ks n' taker' S' s'.
    taker_run (book_definition (fst sample_exec)) (next_trade_id (fst sample_exec), sample_taker, sample_spec) ks (n', taker', S') \<and>
    execute_incoming sample_taker GoodTilCancelled 9 5 sample_exec = Some (Inr (), s') \<and>
    represents (fst s') (spec_rest taker' GoodTilCancelled S') \<and> new_kinds sample_exec s' = ks @ rest_kinds taker' GoodTilCancelled"
  by (rule execute_incoming_refines [OF sample_prepared])



text \<open>Lots that come to rest.\<close>

fun rested_lots :: "EventKind \<Rightarrow> nat" where
  "rested_lots (OrderRested _ _ q _) = q"
| "rested_lots _ = 0"

lemma run_rested: "taker_run d st ks st' \<Longrightarrow> sum_list (map rested_lots ks) = 0"
proof (induction rule: taker_run.induct)
  case (more st ks st' ks' st'')
  have "sum_list (map rested_lots ks) = 0"
    using more(1)
    by (induction rule: taker_step.induct)
      (simp_all add: refresh_kinds_def prevented_kind_def resting_cancelled_def taker_cancelled_def)
  then show ?case
    using more.IH by simp
qed simp

lemma rest_lots:
  assumes "book_wf S" "\<And>price. incoming_order_type taker = Limit price \<Longrightarrow> may_rest tif \<Longrightarrow> spec_orders S (incoming_order_id taker) = None"
  shows "sum_list (map taker_lots (rest_kinds taker tif)) = incoming_leaves taker"
    "order_sum leaves (spec_rest taker tif S) = order_sum leaves S + sum_list (map rested_lots (rest_kinds taker tif))"
    "sum_list (map maker_lots (rest_kinds taker tif)) = 0"
proof -
  show "sum_list (map taker_lots (rest_kinds taker tif)) = incoming_leaves taker" "sum_list (map maker_lots (rest_kinds taker tif)) = 0"
    by (simp_all add: rest_kinds_def split: OrderType.split)
  show "order_sum leaves (spec_rest taker tif S) = order_sum leaves S + sum_list (map rested_lots (rest_kinds taker tif))"
  proof (cases "incoming_leaves taker \<noteq> 0 \<and> may_rest tif \<and> (\<exists>price. incoming_order_type taker = Limit price)")
    case False
    then show ?thesis
      by (auto simp: rest_kinds_def spec_rest_def split: OrderType.split)
  next
    case True
    then obtain price where price: "incoming_order_type taker = Limit price" "may_rest tif" "incoming_leaves taker \<noteq> 0"
      by blast
    let ?r = "resting_of taker price tif"
    have fin: "finite (dom (spec_orders S))" "order_id ?r \<notin> dom (spec_orders S)"
      using assms(2) [OF price(1,2)] assms(1) by (auto simp: book_wf_def orders_ok_def resting_of_def)
    have "order_sum leaves (spec_insert ?r S) = leaves ?r + (\<Sum>x \<in> dom (spec_orders S). leaves (the (spec_orders (spec_insert ?r S) x)))"
      using fin by (simp add: order_sum_def spec_insert_def)
    also have "(\<Sum>x \<in> dom (spec_orders S). leaves (the (spec_orders (spec_insert ?r S) x))) = order_sum leaves S"
      unfolding order_sum_def using fin(2) by (intro sum.cong) (auto simp: spec_insert_def)
    finally show ?thesis
      using price by (simp add: rest_kinds_def spec_rest_def resting_of_def)
  qed
qed

text \<open>
  C13. Lots are conserved: every lot of the incoming order is traded, decremented, cancelled or rests, and the lots
  of the book change by exactly what trades and self-trade prevention took from resting orders and by what
  came to rest.
\<close>

theorem execute_incoming_conserves:
  assumes "prepared taker tif S s" "execute_incoming taker tif c t s = Some (Inr (), s')"
  shows "sum_list (map taker_lots (new_kinds s s')) = incoming_leaves taker \<and>
    book_lots (fst s') + sum_list (map maker_lots (new_kinds s s')) =
    book_lots (fst s) + sum_list (map rested_lots (new_kinds s s'))"
proof -
  obtain ks n' taker' S' s1 where e:
    "taker_run (book_definition (fst s)) (next_trade_id (fst s), taker, S) ks (n', taker', S')"
    "execute_incoming taker tif c t s = Some (Inr (), s1)"
    "performs c t s (ks @ rest_kinds taker' tif) s1" "represents (fst s1) (spec_rest taker' tif S')" "represents (fst s) S"
    "taker' = taker\<lparr>incoming_leaves := incoming_leaves taker'\<rparr>"
    by (rule execute_prepared [OF assms(1), of c t]) (rule that)
  have s': "s' = s1"
    using e(2) assms(2) by simp
  have fields: "incoming_order_type taker' = incoming_order_type taker" "incoming_order_id taker' = incoming_order_id taker"
    by (subst e(6), simp)+
  have wf: "book_wf S" "book_wf S'"
    using representsD [OF e(5)] run_wf [OF e(1)] by simp_all
  have "orders (fst s) (incoming_order_id taker) = None" if "incoming_order_type taker = Limit price" "may_rest tif" for price
    using assms(1) that by (auto simp: prepared_def Let_def)
  then have fresh: "spec_orders S' (incoming_order_id taker') = None" if "incoming_order_type taker' = Limit price" "may_rest tif" for price
    using that run_shrinks [OF e(1)] wf(1) e(5) fields core_orders(2) [of "fst s" S]
    by (auto simp: represents_def dom_def)
  have rest: "sum_list (map taker_lots (rest_kinds taker' tif)) = incoming_leaves taker'"
    "order_sum leaves (spec_rest taker' tif S') = order_sum leaves S' + sum_list (map rested_lots (rest_kinds taker' tif))"
    "sum_list (map maker_lots (rest_kinds taker' tif)) = 0"
    by (rule rest_lots [OF wf(2)]; rule fresh; assumption)+
  have lots: "incoming_leaves taker = sum_list (map taker_lots ks) + incoming_leaves taker'"
    "order_sum leaves S = sum_list (map maker_lots ks) + order_sum leaves S'" "sum_list (map rested_lots ks) = 0"
    using run_taker_lots [OF e(1)] run_maker_lots [OF e(1)] run_rested [OF e(1)] wf(1) by simp_all
  show ?thesis
    unfolding s' new_kinds_performs [OF e(3)] book_lots_eq [OF e(4)] book_lots_eq [OF e(5)] map_append sum_list.append
    using rest lots by linarith
qed

theorem execute_incoming_conserves_witness:
  "\<exists>s'. execute_incoming sample_taker GoodTilCancelled 9 5 sample_exec = Some (Inr (), s') \<and>
    sum_list (map taker_lots (new_kinds sample_exec s')) = incoming_leaves sample_taker \<and>
    book_lots (fst s') + sum_list (map maker_lots (new_kinds sample_exec s')) =
    book_lots (fst sample_exec) + sum_list (map rested_lots (new_kinds sample_exec s'))"
proof -
  obtain s' where "execute_incoming sample_taker GoodTilCancelled 9 5 sample_exec = Some (Inr (), s')"
    by (rule sample_executes)
  then show ?thesis
    using execute_incoming_conserves [OF sample_prepared] by blast
qed

text \<open>C15. A book whose best prices do not cross is a book whose best prices do not cross after the order.\<close>

theorem execute_incoming_uncrossed:
  assumes "prepared taker tif S s" "execute_incoming taker tif c t s = Some (Inr (), s')" "best_uncrossed (fst s)"
  shows "best_uncrossed (fst s')"
proof -
  obtain ks n' taker' S' s1 where e:
    "taker_run (book_definition (fst s)) (next_trade_id (fst s), taker, S) ks (n', taker', S')"
    "execute_incoming taker tif c t s = Some (Inr (), s1)"
    "represents (fst s1) (spec_rest taker' tif S')" "represents (fst s) S"
    by (rule execute_prepared [OF assms(1), of c t]) (rule that)
  have wf: "book_wf S" "book_wf S'"
    using representsD [OF e(4)] run_wf [OF e(1)] by simp_all
  have "uncrossed S'"
    using run_uncrossed [OF e(1)] wf(1) assms(3) best_uncrossed_eq [OF e(4)] by simp
  moreover have "\<forall>r. \<not> meets S' taker' r"
    using run_final [OF e(1)] by simp
  ultimately have "uncrossed (spec_rest taker' tif S')"
    by (rule rest_uncrossed [OF wf(2)])
  then show ?thesis
    using best_uncrossed_eq [OF e(3)] e(2) assms(2) by simp
qed

theorem execute_incoming_uncrossed_witness:
  "\<exists>s'. execute_incoming sample_taker GoodTilCancelled 9 5 sample_exec = Some (Inr (), s') \<and> best_uncrossed (fst s')"
proof -
  obtain s' where s': "execute_incoming sample_taker GoodTilCancelled 9 5 sample_exec = Some (Inr (), s')"
    by (rule sample_executes)
  have "best_uncrossed (fst sample_exec)"
    by (simp add: best_uncrossed_def sample_exec_def sample_book_def best_price_def book_new_def levels_new_def)
  then show ?thesis
    using execute_incoming_uncrossed [OF sample_prepared s'] s' by blast
qed

text \<open>
  C16. The events of the command carry its id and time and consecutive sequence numbers, the book goes on from the
  next one, trade ids are drawn without gaps, and the numbers of events and trades are within the bounds that
  were prepared.
\<close>

theorem execute_incoming_events:
  assumes "prepared taker tif S s" "execute_incoming taker tif c t s = Some (Inr (), s')"
    "previews p taker" "maximum_matching_work p 1 (fst s) = Some (Inr (events, trades))"
  shows "trace_events (snd s') = trace_events (snd s) @ numbered c t (next_sequence (fst s)) (new_kinds s s') \<and>
    next_sequence (fst s') = next_sequence (fst s) + length (new_kinds s s') \<and>
    next_trade_id (fst s') = next_trade_id (fst s) + trades_in (new_kinds s s') \<and>
    1 + length (new_kinds s s') \<le> events \<and> trades_in (new_kinds s s') \<le> trades"
proof -
  obtain ks n' taker' S' s1 where e:
    "taker_run (book_definition (fst s)) (next_trade_id (fst s), taker, S) ks (n', taker', S')"
    "execute_incoming taker tif c t s = Some (Inr (), s1)"
    "performs c t s (ks @ rest_kinds taker' tif) s1" "represents (fst s) S"
    by (rule execute_prepared [OF assms(1), of c t]) (rule that)
  have s': "s' = s1"
    using e(2) assms(2) by simp
  have rest: "length (rest_kinds taker' tif) \<le> 1" "trades_in (rest_kinds taker' tif) = 0"
    by (simp_all add: rest_kinds_def split: OrderType.split)
  let ?g = "increment (def_quantity (book_definition (fst s)))"
  have g: "0 < ?g" "?g dvd incoming_leaves taker" "on_grid ?g S" "0 < incoming_leaves taker"
    using assms(1) by (simp_all add: prepared_def Let_def)
  have "1 + length (ks @ rest_kinds taker' tif) \<le> events" "trades_in ks \<le> trades"
    by (rule prepared_work_covers [OF e(4) assms(3) refl g(1-3) assms(4) e(1) rest(1) g(4)])+
  then show ?thesis
    using e(3) by (simp add: s' new_kinds_performs [OF e(3)] performs_def rest(2))
qed

theorem execute_incoming_events_witness:
  "\<exists>s'. execute_incoming sample_taker GoodTilCancelled 9 5 sample_exec = Some (Inr (), s') \<and>
    1 + length (new_kinds sample_exec s') \<le> 3 \<and> trades_in (new_kinds sample_exec s') \<le> 1"
proof -
  obtain s' where s': "execute_incoming sample_taker GoodTilCancelled 9 5 sample_exec = Some (Inr (), s')"
    by (rule sample_executes)
  show ?thesis
    using execute_incoming_events [OF sample_prepared s' sample_work(2,1)] s' by blast
qed


section \<open>The loop\<close>

lemma match_turn_stops:
  "match_turn c t taker s = Some (Inr None, s') \<Longrightarrow>
   s' = s \<and> best_opposite_order (incoming_side taker) (incoming_order_type taker) (fst s) = Some None"
  by (auto simp: match_turn_def and_do_def observe_def give_def split: option.splits sum.splits prod.splits Option.bind_splits)

lemma match_loop_exit:
  assumes "match_loop c t taker s = Some res"
  shows "case res of (Inl e, s') \<Rightarrow> True
     | (Inr taker', s') \<Rightarrow> incoming_leaves taker' = 0 \<or>
         best_opposite_order (incoming_side taker') (incoming_order_type taker') (fst s') = Some None"
proof (rule match_loop.raw_induct [OF _ assms, where P = "\<lambda>c t taker s res. case res of (Inl e, s') \<Rightarrow> True
     | (Inr taker', s') \<Rightarrow> incoming_leaves taker' = 0 \<or>
         best_opposite_order (incoming_side taker') (incoming_order_type taker') (fst s') = Some None"], goal_cases)
  case (1 loop c t taker s res)
  show ?case
  proof (cases "incoming_leaves taker = 0")
    case True
    then show ?thesis
      using 1(2) by auto
  next
    case False
    then consider e s1 where "match_turn c t taker s = Some (Inl e, s1)" "res = (Inl e, s1)"
      | s1 where "match_turn c t taker s = Some (Inr None, s1)" "res = (Inr taker, s1)"
      | taker1 s1 where "match_turn c t taker s = Some (Inr (Some taker1), s1)" "loop c t taker1 s1 = Some res"
      using 1(2) by (auto split: option.splits prod.splits sum.splits)
    then show ?thesis
    proof cases
      case 2
      then show ?thesis
        using match_turn_stops [OF 2(1)] by simp
    next
      case 3
      show ?thesis
        by (rule 1(1) [OF 3(2)])
    qed simp
  qed
qed

text \<open>
  C24. The matching loop returns, and when it does the incoming order is exhausted or there is no opposite order
  left that its limit reaches.
\<close>

theorem match_loop_terminates:
  assumes "prepared taker tif S s"
  shows "\<exists>taker' s'. match_loop c t taker s = Some (Inr taker', s') \<and>
    (incoming_leaves taker' = 0 \<or>
     best_opposite_order (incoming_side taker') (incoming_order_type taker') (fst s') = Some None)"
proof -
  obtain s' where "execute_incoming taker tif c t s = Some (Inr (), s')"
    by (rule execute_prepared [OF assms, of c t]) (rule that)
  then obtain taker' s1 where "match_loop c t taker s = Some (Inr taker', s1)"
    by (auto simp: execute_incoming_def and_do_def split: option.splits sum.splits prod.splits Option.bind_splits)
  then show ?thesis
    using match_loop_exit by fastforce
qed

theorem match_loop_terminates_witness:
  "\<exists>taker' s'. match_loop 9 5 sample_taker sample_exec = Some (Inr taker', s') \<and>
    (incoming_leaves taker' = 0 \<or>
     best_opposite_order (incoming_side taker') (incoming_order_type taker') (fst s') = Some None)"
  by (rule match_loop_terminates [OF sample_prepared])

text \<open>An order that would not cross does not trade: what is left to do is to rest or cancel all of it.\<close>

theorem no_cross_no_trade:
  assumes "prepared taker tif S s" "execute_incoming taker tif c t s = Some (Inr (), s')"
    "would_cross (incoming_side taker) (incoming_order_type taker) (fst s) = Some False"
  shows "new_kinds s s' = rest_kinds taker tif"
proof -
  obtain ks n' taker' S' s1 where e:
    "taker_run (book_definition (fst s)) (next_trade_id (fst s), taker, S) ks (n', taker', S')"
    "execute_incoming taker tif c t s = Some (Inr (), s1)"
    "performs c t s (ks @ rest_kinds taker' tif) s1" "represents (fst s) S"
    by (rule execute_prepared [OF assms(1), of c t]) (rule that)
  have "taker_wf taker"
    using assms(1) by (simp add: prepared_def Let_def)
  have none: "\<not> meets S taker r" for r
  proof
    assume m: "meets S taker r"
    then have "best_price (opposite (incoming_side taker)) (fst s) = Some (order_price r)"
      using best_price_cases(2) [OF e(4)] by (auto simp: meets_def best_maker_def)
    then show False
      using assms(3) m \<open>taker_wf taker\<close> by (auto simp: would_cross_def meets_def taker_wf_def split: OrderType.splits)
  qed
  from e(1) have "ks = [] \<and> taker' = taker"
  proof (cases rule: taker_run.cases)
    case (more ks1 st1 ks2)
    then have "\<exists>r. meets S taker r"
      by (auto elim: taker_step.cases)
    then show ?thesis
      using none by blast
  qed simp
  then show ?thesis
    using e(2) assms(2) new_kinds_performs [OF e(3)] by simp
qed

definition shy_taker :: IncomingOrder where
  "shy_taker = sample_taker\<lparr>incoming_order_type := Limit 99\<rparr>"

lemma shy_prepared: "prepared shy_taker GoodTilCancelled sample_spec sample_exec"
proof -
  have "rest_room shy_taker 99 (fst sample_exec)"
    by (simp add: rest_room_def shy_taker_def sample_taker_def sample_exec_def sample_book_def book_new_def sample_limits_def
        levels_new_def levels_len_def index_len_def index_new_def)
  moreover have "previews p shy_taker = previews p sample_taker" for p
    by (simp add: previews_def shy_taker_def)
  moreover have "display_fits 1 shy_taker" "taker_wf shy_taker" "incoming_leaves shy_taker = incoming_leaves sample_taker"
      "incoming_order_type shy_taker = Limit 99" "incoming_order_id shy_taker = incoming_order_id sample_taker"
      "increment (def_quantity (book_definition (fst sample_exec))) = 1"
      "orders (fst sample_exec) (incoming_order_id sample_taker) = None"
    by (simp_all add: shy_taker_def sample_taker_def display_fits_def taker_wf_def fits_u64_def sample_exec_def sample_book_def
        book_new_def sample_definition_def)
  ultimately show ?thesis
    using sample_prepared sample_work(1) unfolding prepared_def Let_def by auto
qed

theorem no_cross_no_trade_witness:
  "\<exists>s'. execute_incoming shy_taker GoodTilCancelled 9 5 sample_exec = Some (Inr (), s') \<and>
    new_kinds sample_exec s' = [OrderRested 8 99 8 8]"
proof -
  obtain s' where s': "execute_incoming shy_taker GoodTilCancelled 9 5 sample_exec = Some (Inr (), s')"
    by (rule execute_prepared [OF shy_prepared, of 9 5]) (rule that)
  have "would_cross (incoming_side shy_taker) (incoming_order_type shy_taker) (fst sample_exec) = Some False"
    by (simp add: would_cross_def shy_taker_def sample_taker_def sample_exec_def sample_book_def best_price_def)
  from no_cross_no_trade [OF shy_prepared s' this] show ?thesis
    using s' by (simp add: rest_kinds_def shy_taker_def sample_taker_def)
qed

section \<open>The operations on resting orders\<close>

text \<open>
  C25. Appending an order that fits puts it behind the orders of its price, into the list of its account and into
  the indexes, and leaves the rest of the book as it is.
\<close>

theorem append_order_refines:
  assumes "represents b S" "spec_orders S (order_id r) = None" "order_wf r" "strip r = r" "stop r = None"
    "card (dom (spec_orders S)) < max_active_orders (limits b)"
    "account_orders b (order_account_id r) \<noteq> None \<or> card (dom (account_orders b)) < max_active_accounts (limits b)"
    "levels_get (levels b (order_side r)) (order_price r) \<noteq> None \<or>
       levels_len (levels b (order_side r)) < max_price_levels_per_side (limits b)"
  shows "\<exists>b'. append_order r b = Some b' \<and> represents b' (spec_insert r S) \<and> book_rest b' = book_rest b"
  by (rule append_order_correct [OF assms]) blast

theorem append_order_refines_witness:
  "\<exists>b'. append_order sample_maker (book_new 1 sample_definition sample_limits) = Some b' \<and>
     represents b' (spec_insert sample_maker spec_new) \<and> book_rest b' = book_rest (book_new 1 sample_definition sample_limits)"
  by (rule append_order_refines [OF sample_new])
    (simp_all add: spec_new_def book_new_def sample_limits_def sample_maker_def levels_new_def levels_len_def index_len_def
      index_new_def order_wf_def strip_def fits_u64_def)

text \<open>
  C26. Removing an order, resting or dormant, gives it back and takes it out of its queue, the list of its account
  and the indexes.
\<close>

theorem remove_order_refines:
  assumes "represents b S" "spec_orders S x = Some r"
  shows "\<exists>b' n. remove_order x b = Some (n, b') \<and> strip n = r \<and> represents b' (spec_delete x S) \<and> book_rest b' = book_rest b"
  by (rule remove_order_correct [OF assms]) blast

lemma sample_order: "spec_orders sample_spec 7 = Some sample_maker"
  by (simp add: sample_spec_def spec_insert_def sample_maker_facts(2,4))

theorem remove_order_refines_witness:
  "\<exists>b' n. remove_order 7 sample_book = Some (n, b') \<and> strip n = sample_maker \<and> represents b' (spec_delete 7 sample_spec) \<and>
     book_rest b' = book_rest sample_book"
  by (rule remove_order_refines [OF sample_represents sample_order])

text \<open>
  C27. A fill takes lots from an order, removes it when nothing is left, and when the displayed part of a reserve
  order is used up, replenishes it and moves it behind the displayed orders of its price.
\<close>

theorem decrement_resting_refines:
  assumes "represents b S" "spec_orders S x = Some r" "stop r = None" "0 < k" "k \<le> leaves r"
  shows "\<exists>b'. decrement_resting x k (order_price r) b = Some (refresh_of r k, b') \<and> represents b' (spec_fill x k S) \<and>
    book_rest b' = book_rest b"
  by (rule decrement_resting_correct [OF assms]) blast

theorem decrement_resting_refines_witness:
  "\<exists>b'. decrement_resting 7 2 100 sample_book = Some (None, b') \<and> represents b' (spec_fill 7 2 sample_spec)"
proof -
  have "refresh_of sample_maker 2 = None"
    by (simp add: refresh_of_def sample_maker_facts)
  then show ?thesis
    using decrement_resting_refines [OF sample_represents sample_order sample_maker_facts(3), of 2]
    by (auto simp: sample_maker_facts)
qed

end
