(* ===== verification/ArenaAvl.thy ===== *)
theory ArenaAvl
  imports OrderedIndex "HOL-Library.Monad_Syntax"
begin

text \<open>
  The bounded ordered map of \<open>src/src/indexed_avl.rs\<close>: an AVL tree whose nodes live in the slots of an arena
  and refer to each other by slot number, with the vacant slots in an intrusive free list.  Every definition is
  the function of the source with the same name; reading a slot that is absent or vacant is a panic, which is
  \<^const>\<open>None\<close>, and so is a walk that does not end.  The type \<open>usize\<close> has 64 bits.
\<close>

section \<open>Representation\<close>

record ('k, 'v) AvlNode =
  node_key :: 'k
  node_value :: 'v
  left_child :: "nat option"
  right_child :: "nat option"
  node_height :: nat

datatype ('k, 'v) Slot = OccupiedSlot "('k, 'v) AvlNode" | VacantSlot "nat option"

type_synonym ('k, 'v) arena = "('k, 'v) Slot list"

record ('k, 'v) IndexedAvlMap =
  avl_root :: "nat option"
  slots :: "('k, 'v) arena"
  free_head :: "nat option"
  avl_length :: nat
  avl_maximum :: nat
  slots_capacity :: nat

text \<open>
  \<open>reserve n\<close> is the capacity that \<open>Vec::try_reserve_exact(n)\<close> obtains, if the allocator grants it.
\<close>

definition try_with_capacity :: "(nat \<Rightarrow> nat option) \<Rightarrow> nat \<Rightarrow> ('k, 'v) IndexedAvlMap option" where
  "try_with_capacity reserve n =
     map_option (\<lambda>capacity. \<lparr>avl_root = None, slots = [], free_head = None, avl_length = 0, avl_maximum = n,
        slots_capacity = capacity\<rparr>) (reserve n)"

definition has_insertion_capacity :: "('k, 'v) IndexedAvlMap \<Rightarrow> bool" where
  "has_insertion_capacity m \<longleftrightarrow>
     free_head m \<noteq> None \<or> (length (slots m) < avl_maximum m \<and> length (slots m) < slots_capacity m)"

fun vacate_from :: "nat \<Rightarrow> nat option \<Rightarrow> ('k, 'v) arena \<Rightarrow> nat option \<times> ('k, 'v) arena" where
  "vacate_from 0 next_free s = (next_free, s)"
| "vacate_from (Suc i) next_free s = vacate_from i (Some i) (s[i := VacantSlot next_free])"

definition avl_clear :: "('k, 'v) IndexedAvlMap \<Rightarrow> ('k, 'v) IndexedAvlMap" where
  "avl_clear m =
     (let (next_free, s) = vacate_from (length (slots m)) None (slots m)
      in m\<lparr>slots := s, avl_root := None, free_head := next_free, avl_length := 0\<rparr>)"

section \<open>Nodes\<close>

definition node_at :: "('k, 'v) arena \<Rightarrow> nat \<Rightarrow> ('k, 'v) AvlNode option" where
  "node_at s i = do { slot \<leftarrow> list_at s i; case slot of OccupiedSlot n \<Rightarrow> Some n | VacantSlot _ \<Rightarrow> None }"

definition node_update :: "nat \<Rightarrow> (('k, 'v) AvlNode \<Rightarrow> ('k, 'v) AvlNode) \<Rightarrow> ('k, 'v) arena \<Rightarrow> ('k, 'v) arena option" where
  "node_update i f s = do { n \<leftarrow> node_at s i; Some (s[i := OccupiedSlot (f n)]) }"

definition height_at :: "('k, 'v) arena \<Rightarrow> nat option \<Rightarrow> nat option" where
  "height_at s r = (case r of None \<Rightarrow> Some 0 | Some i \<Rightarrow> map_option node_height (node_at s i))"

definition update_height :: "nat \<Rightarrow> ('k, 'v) arena \<Rightarrow> ('k, 'v) arena option" where
  "update_height i s = do {
     n \<leftarrow> node_at s i;
     hl \<leftarrow> height_at s (left_child n);
     hr \<leftarrow> height_at s (right_child n);
     h \<leftarrow> checked fits_u16 (max hl hr + 1);
     node_update i (\<lambda>n. n\<lparr>node_height := h\<rparr>) s
   }"

definition balance_factor :: "('k, 'v) arena \<Rightarrow> nat \<Rightarrow> int option" where
  "balance_factor s i = do {
     n \<leftarrow> node_at s i;
     hl \<leftarrow> height_at s (left_child n);
     hr \<leftarrow> height_at s (right_child n);
     Some (int hl - int hr)
   }"

section \<open>Rotations\<close>

definition rotate_left :: "nat \<Rightarrow> ('k, 'v) arena \<Rightarrow> (nat \<times> ('k, 'v) arena) option" where
  "rotate_left root s = do {
     n \<leftarrow> node_at s root;
     pivot \<leftarrow> right_child n;
     p \<leftarrow> node_at s pivot;
     let transferred = left_child p;
     s \<leftarrow> node_update root (\<lambda>n. n\<lparr>right_child := transferred\<rparr>) s;
     s \<leftarrow> node_update pivot (\<lambda>p. p\<lparr>left_child := Some root\<rparr>) s;
     s \<leftarrow> update_height root s;
     s \<leftarrow> update_height pivot s;
     Some (pivot, s)
   }"

definition rotate_right :: "nat \<Rightarrow> ('k, 'v) arena \<Rightarrow> (nat \<times> ('k, 'v) arena) option" where
  "rotate_right root s = do {
     n \<leftarrow> node_at s root;
     pivot \<leftarrow> left_child n;
     p \<leftarrow> node_at s pivot;
     let transferred = right_child p;
     s \<leftarrow> node_update root (\<lambda>n. n\<lparr>left_child := transferred\<rparr>) s;
     s \<leftarrow> node_update pivot (\<lambda>p. p\<lparr>right_child := Some root\<rparr>) s;
     s \<leftarrow> update_height root s;
     s \<leftarrow> update_height pivot s;
     Some (pivot, s)
   }"

definition rebalance :: "nat \<Rightarrow> ('k, 'v) arena \<Rightarrow> (nat \<times> ('k, 'v) arena) option" where
  "rebalance i s = do {
     s \<leftarrow> update_height i s;
     balance \<leftarrow> balance_factor s i;
     if 1 < balance then do {
       n \<leftarrow> node_at s i;
       l \<leftarrow> left_child n;
       left_balance \<leftarrow> balance_factor s l;
       s \<leftarrow> if left_balance < 0 then do {
              (rotated, s) \<leftarrow> rotate_left l s;
              node_update i (\<lambda>n. n\<lparr>left_child := Some rotated\<rparr>) s
            } else Some s;
       rotate_right i s
     }
     else if balance < - 1 then do {
       n \<leftarrow> node_at s i;
       r \<leftarrow> right_child n;
       right_balance \<leftarrow> balance_factor s r;
       s \<leftarrow> if 0 < right_balance then do {
              (rotated, s) \<leftarrow> rotate_right r s;
              node_update i (\<lambda>n. n\<lparr>right_child := Some rotated\<rparr>) s
            } else Some s;
       rotate_left i s
     }
     else Some (i, s)
   }"

section \<open>Insertion and deletion below a root\<close>

partial_function (option) find_index :: "('k :: linorder, 'v) arena \<Rightarrow> 'k \<Rightarrow> nat option \<Rightarrow> nat option option" where
  "find_index s k current =
     (case current of
        None \<Rightarrow> Some None
      | Some i \<Rightarrow> do {
          n \<leftarrow> node_at s i;
          if k < node_key n then find_index s k (left_child n)
          else if node_key n < k then find_index s k (right_child n)
          else Some (Some i)
        })"

partial_function (option) insert_index ::
    "('k :: linorder, 'v) arena \<Rightarrow> nat option \<Rightarrow> nat \<Rightarrow> 'k \<Rightarrow> (nat \<times> ('k, 'v) arena) option" where
  "insert_index s root inserted k =
     (case root of
        None \<Rightarrow> Some (inserted, s)
      | Some r \<Rightarrow> do {
          n \<leftarrow> node_at s r;
          s \<leftarrow> if k < node_key n then do {
                 (child, s) \<leftarrow> insert_index s (left_child n) inserted k;
                 node_update r (\<lambda>n. n\<lparr>left_child := Some child\<rparr>) s
               } else if node_key n < k then do {
                 (child, s) \<leftarrow> insert_index s (right_child n) inserted k;
                 node_update r (\<lambda>n. n\<lparr>right_child := Some child\<rparr>) s
               } else None;
          rebalance r s
        })"

partial_function (option) detach_minimum ::
    "('k, 'v) arena \<Rightarrow> nat \<Rightarrow> (nat option \<times> nat \<times> ('k, 'v) arena) option" where
  "detach_minimum s root = do {
     n \<leftarrow> node_at s root;
     case left_child n of
       None \<Rightarrow> Some (right_child n, root, s)
     | Some l \<Rightarrow> do {
         (l, least, s) \<leftarrow> detach_minimum s l;
         s \<leftarrow> node_update root (\<lambda>n. n\<lparr>left_child := l\<rparr>) s;
         (r, s) \<leftarrow> rebalance root s;
         Some (Some r, least, s)
       }
   }"

text \<open>The match of \<open>delete_index\<close> on the children of the node that holds the key.\<close>

definition unlink :: "('k, 'v) arena \<Rightarrow> nat \<Rightarrow> ('k, 'v) AvlNode \<Rightarrow> (nat option \<times> ('k, 'v) arena) option" where
  "unlink s root n =
     (if left_child n = None then Some (right_child n, s)
      else case right_child n of
        None \<Rightarrow> Some (left_child n, s)
      | Some r \<Rightarrow> do {
          (r, successor, s) \<leftarrow> detach_minimum s r;
          s \<leftarrow> node_update successor (\<lambda>m. m\<lparr>left_child := left_child n, right_child := r\<rparr>) s;
          (i, s) \<leftarrow> rebalance successor s;
          Some (Some i, s)
        })"

partial_function (option) delete_index ::
    "('k :: linorder, 'v) arena \<Rightarrow> nat option \<Rightarrow> 'k \<Rightarrow> nat option \<Rightarrow> (nat option \<times> nat option \<times> ('k, 'v) arena) option" where
  "delete_index s root k removed =
     (case root of
        None \<Rightarrow> Some (None, removed, s)
      | Some r \<Rightarrow> do {
          n \<leftarrow> node_at s r;
          if k < node_key n then do {
            (child, removed, s) \<leftarrow> delete_index s (left_child n) k removed;
            s \<leftarrow> node_update r (\<lambda>n. n\<lparr>left_child := child\<rparr>) s;
            (i, s) \<leftarrow> rebalance r s;
            Some (Some i, removed, s)
          } else if node_key n < k then do {
            (child, removed, s) \<leftarrow> delete_index s (right_child n) k removed;
            s \<leftarrow> node_update r (\<lambda>n. n\<lparr>right_child := child\<rparr>) s;
            (i, s) \<leftarrow> rebalance r s;
            Some (Some i, removed, s)
          } else do {
            (child, s) \<leftarrow> unlink s r n;
            Some (child, Some r, s)
          }
        })"

section \<open>Operations of the map\<close>

definition allocate_slot :: "'k \<Rightarrow> 'v \<Rightarrow> ('k, 'v) IndexedAvlMap \<Rightarrow> (nat \<times> ('k, 'v) IndexedAvlMap) option" where
  "allocate_slot k v m =
     (let n = \<lparr>node_key = k, node_value = v, left_child = None, right_child = None, node_height = 1\<rparr> in
      case free_head m of
        Some i \<Rightarrow> do {
          slot \<leftarrow> list_at (slots m) i;
          case slot of
            VacantSlot next_free \<Rightarrow> Some (i, m\<lparr>free_head := next_free, slots := (slots m)[i := OccupiedSlot n]\<rparr>)
          | OccupiedSlot _ \<Rightarrow> None
        }
      | None \<Rightarrow> Some (length (slots m), m\<lparr>slots := slots m @ [OccupiedSlot n]\<rparr>))"

definition release_slot :: "nat \<Rightarrow> ('k, 'v) IndexedAvlMap \<Rightarrow> ('k, 'v) IndexedAvlMap option" where
  "release_slot i m = do {
     s \<leftarrow> list_put (slots m) i (VacantSlot (free_head m));
     Some (m\<lparr>slots := s, free_head := Some i\<rparr>)
   }"

definition avl_get_handle :: "('k :: linorder, 'v) IndexedAvlMap \<Rightarrow> 'k \<Rightarrow> nat option option" where
  "avl_get_handle m k = find_index (slots m) k (avl_root m)"

definition avl_get :: "('k :: linorder, 'v) IndexedAvlMap \<Rightarrow> 'k \<Rightarrow> 'v option option" where
  "avl_get m k = do {
     found \<leftarrow> find_index (slots m) k (avl_root m);
     case found of None \<Rightarrow> Some None | Some i \<Rightarrow> do { n \<leftarrow> node_at (slots m) i; Some (Some (node_value n)) }
   }"

text \<open>Access by handle never panics: a handle that does not hold the expected key is refused.\<close>

definition avl_get_by_handle :: "('k, 'v) IndexedAvlMap \<Rightarrow> nat \<Rightarrow> 'k \<Rightarrow> 'v option" where
  "avl_get_by_handle m handle expected =
     (case node_at (slots m) handle of
        None \<Rightarrow> None
      | Some n \<Rightarrow> if node_key n = expected then Some (node_value n) else None)"

text \<open>A write through \<open>get_mut_by_handle\<close>.\<close>

definition avl_set_by_handle :: "('k, 'v) IndexedAvlMap \<Rightarrow> nat \<Rightarrow> 'k \<Rightarrow> 'v \<Rightarrow> ('k, 'v) IndexedAvlMap option" where
  "avl_set_by_handle m handle expected v =
     (if avl_get_by_handle m handle expected = None then None
      else map_option (\<lambda>s. m\<lparr>slots := s\<rparr>) (node_update handle (\<lambda>n. n\<lparr>node_value := v\<rparr>) (slots m)))"

definition avl_insert_with_handle ::
    "('k :: linorder, 'v) IndexedAvlMap \<Rightarrow> 'k \<Rightarrow> 'v \<Rightarrow> (nat \<times> 'v option \<times> ('k, 'v) IndexedAvlMap) option" where
  "avl_insert_with_handle m k v = do {
     found \<leftarrow> find_index (slots m) k (avl_root m);
     case found of
       Some i \<Rightarrow> do {
         n \<leftarrow> node_at (slots m) i;
         s \<leftarrow> node_update i (\<lambda>n. n\<lparr>node_value := v\<rparr>) (slots m);
         Some (i, Some (node_value n), m\<lparr>slots := s\<rparr>)
       }
     | None \<Rightarrow>
         if \<not> has_insertion_capacity m then None
         else do {
           (i, m) \<leftarrow> allocate_slot k v m;
           (root, s) \<leftarrow> insert_index (slots m) (avl_root m) i k;
           Some (i, None, m\<lparr>slots := s, avl_root := Some root, avl_length := avl_length m + 1\<rparr>)
         }
   }"

definition avl_insert ::
    "('k :: linorder, 'v) IndexedAvlMap \<Rightarrow> 'k \<Rightarrow> 'v \<Rightarrow> ('v option \<times> ('k, 'v) IndexedAvlMap) option" where
  "avl_insert m k v = map_option snd (avl_insert_with_handle m k v)"

definition avl_remove_by_handle ::
    "('k :: linorder, 'v) IndexedAvlMap \<Rightarrow> nat \<Rightarrow> 'k \<Rightarrow> ('v option \<times> ('k, 'v) IndexedAvlMap) option" where
  "avl_remove_by_handle m handle expected =
     (case avl_get_by_handle m handle expected of
        None \<Rightarrow> Some (None, m)
      | Some original \<Rightarrow> do {
          (root, removed, s) \<leftarrow> delete_index (slots m) (avl_root m) expected None;
          i \<leftarrow> removed;
          if i \<noteq> handle then None
          else do {
            m \<leftarrow> release_slot i (m\<lparr>avl_root := root, slots := s\<rparr>);
            n \<leftarrow> checked_sub (avl_length m) 1;
            Some (Some original, m\<lparr>avl_length := n\<rparr>)
          }
        })"

definition avl_remove :: "('k :: linorder, 'v) IndexedAvlMap \<Rightarrow> 'k \<Rightarrow> ('v option \<times> ('k, 'v) IndexedAvlMap) option" where
  "avl_remove m k = do {
     found \<leftarrow> avl_get_handle m k;
     case found of None \<Rightarrow> Some (None, m) | Some handle \<Rightarrow> avl_remove_by_handle m handle k
   }"

section \<open>Extrema and neighbours\<close>

partial_function (option) minimum_index :: "('k, 'v) arena \<Rightarrow> nat \<Rightarrow> nat option" where
  "minimum_index s i = do {
     n \<leftarrow> node_at s i;
     case left_child n of None \<Rightarrow> Some i | Some l \<Rightarrow> minimum_index s l
   }"

partial_function (option) maximum_index :: "('k, 'v) arena \<Rightarrow> nat \<Rightarrow> nat option" where
  "maximum_index s i = do {
     n \<leftarrow> node_at s i;
     case right_child n of None \<Rightarrow> Some i | Some r \<Rightarrow> maximum_index s r
   }"

definition avl_first :: "('k, 'v) IndexedAvlMap \<Rightarrow> (nat \<times> 'k \<times> 'v) option option" where
  "avl_first m =
     (case avl_root m of
        None \<Rightarrow> Some None
      | Some r \<Rightarrow> do {
          i \<leftarrow> minimum_index (slots m) r;
          n \<leftarrow> node_at (slots m) i;
          Some (Some (i, node_key n, node_value n))
        })"

definition avl_last :: "('k, 'v) IndexedAvlMap \<Rightarrow> (nat \<times> 'k \<times> 'v) option option" where
  "avl_last m =
     (case avl_root m of
        None \<Rightarrow> Some None
      | Some r \<Rightarrow> do {
          i \<leftarrow> maximum_index (slots m) r;
          n \<leftarrow> node_at (slots m) i;
          Some (Some (i, node_key n, node_value n))
        })"

partial_function (option) predecessor_loop ::
    "('k :: linorder, 'v) arena \<Rightarrow> 'k \<Rightarrow> nat option \<Rightarrow> nat option \<Rightarrow> nat option option" where
  "predecessor_loop s k current candidate =
     (case current of
        None \<Rightarrow> Some candidate
      | Some i \<Rightarrow> do {
          n \<leftarrow> node_at s i;
          if node_key n < k then predecessor_loop s k (right_child n) (Some i)
          else predecessor_loop s k (left_child n) candidate
        })"

partial_function (option) successor_loop ::
    "('k :: linorder, 'v) arena \<Rightarrow> 'k \<Rightarrow> nat option \<Rightarrow> nat option \<Rightarrow> nat option option" where
  "successor_loop s k current candidate =
     (case current of
        None \<Rightarrow> Some candidate
      | Some i \<Rightarrow> do {
          n \<leftarrow> node_at s i;
          if k < node_key n then successor_loop s k (left_child n) (Some i)
          else successor_loop s k (right_child n) candidate
        })"

definition key_at :: "('k, 'v) arena \<Rightarrow> nat option \<Rightarrow> 'k option option" where
  "key_at s candidate = (case candidate of None \<Rightarrow> Some None | Some i \<Rightarrow> do { n \<leftarrow> node_at s i; Some (Some (node_key n)) })"

definition avl_predecessor_key :: "('k :: linorder, 'v) IndexedAvlMap \<Rightarrow> 'k \<Rightarrow> 'k option option" where
  "avl_predecessor_key m k = do { candidate \<leftarrow> predecessor_loop (slots m) k (avl_root m) None; key_at (slots m) candidate }"

definition avl_successor_key :: "('k :: linorder, 'v) IndexedAvlMap \<Rightarrow> 'k \<Rightarrow> 'k option option" where
  "avl_successor_key m k = do { candidate \<leftarrow> successor_loop (slots m) k (avl_root m) None; key_at (slots m) candidate }"

section \<open>Iteration\<close>

definition max_avl_height :: nat where
  "max_avl_height = 64 * 2"

text \<open>The two stacks of an iterator, innermost node first, and the number of entries that are left.\<close>

record Iter =
  front_stack :: "nat list"
  back_stack :: "nat list"
  remaining_entries :: nat

partial_function (option) push_left :: "('k, 'v) arena \<Rightarrow> nat option \<Rightarrow> nat list \<Rightarrow> nat list option" where
  "push_left s current stack =
     (case current of
        None \<Rightarrow> Some stack
      | Some i \<Rightarrow>
          if max_avl_height \<le> length stack then None
          else do { n \<leftarrow> node_at s i; push_left s (left_child n) (i # stack) })"

partial_function (option) push_right :: "('k, 'v) arena \<Rightarrow> nat option \<Rightarrow> nat list \<Rightarrow> nat list option" where
  "push_right s current stack =
     (case current of
        None \<Rightarrow> Some stack
      | Some i \<Rightarrow>
          if max_avl_height \<le> length stack then None
          else do { n \<leftarrow> node_at s i; push_right s (right_child n) (i # stack) })"

definition iter_new :: "('k, 'v) IndexedAvlMap \<Rightarrow> Iter option" where
  "iter_new m = do {
     f \<leftarrow> push_left (slots m) (avl_root m) [];
     b \<leftarrow> push_right (slots m) (avl_root m) [];
     Some \<lparr>front_stack = f, back_stack = b, remaining_entries = avl_length m\<rparr>
   }"

definition iter_next :: "('k, 'v) arena \<Rightarrow> Iter \<Rightarrow> (('k \<times> 'v) option \<times> Iter) option" where
  "iter_next s it =
     (if remaining_entries it = 0 then Some (None, it)
      else case front_stack it of
        [] \<Rightarrow> None
      | i # stack \<Rightarrow> do {
          n \<leftarrow> node_at s i;
          f \<leftarrow> push_left s (right_child n) stack;
          Some (Some (node_key n, node_value n), it\<lparr>front_stack := f, remaining_entries := remaining_entries it - 1\<rparr>)
        })"

definition iter_next_back :: "('k, 'v) arena \<Rightarrow> Iter \<Rightarrow> (('k \<times> 'v) option \<times> Iter) option" where
  "iter_next_back s it =
     (if remaining_entries it = 0 then Some (None, it)
      else case back_stack it of
        [] \<Rightarrow> None
      | i # stack \<Rightarrow> do {
          n \<leftarrow> node_at s i;
          b \<leftarrow> push_right s (left_child n) stack;
          Some (Some (node_key n, node_value n), it\<lparr>back_stack := b, remaining_entries := remaining_entries it - 1\<rparr>)
        })"

end
