(* ===== verification/AvlTree.thy ===== *)
theory AvlTree
  imports OrderedIndex "HOL-Library.Tree"
begin

text \<open>
  The functional counterpart of the arena tree: binary trees of entries \<open>(slot, key, value)\<close> with the rotations,
  the rebalancing, the insertion and the deletion of \<open>src/src/indexed_avl.rs\<close>.  The facts here are about order,
  balance and height; the arena code is proved to compute these functions in theory \<open>ArenaAvlCorrect\<close>.
\<close>

type_synonym ('k, 'v) entry = "nat \<times> 'k \<times> 'v"

definition key_of :: "('k, 'v) entry \<Rightarrow> 'k" where
  "key_of x = fst (snd x)"

lemma key_of_eq: "key_of = (\<lambda>x. fst (snd x))"
  by (simp add: key_of_def fun_eq_iff)

lemma key_of_simps [simp]: "key_of (i, k, v) = k"
  by (simp add: key_of_def)

section \<open>The tree algorithms\<close>

fun rotl :: "'a tree \<Rightarrow> 'a tree" where
  "rotl (Node a x (Node b y c)) = Node (Node a x b) y c"
| "rotl t = t"

fun rotr :: "'a tree \<Rightarrow> 'a tree" where
  "rotr (Node (Node a x b) y c) = Node a x (Node b y c)"
| "rotr t = t"

definition bal :: "'a tree \<Rightarrow> 'a \<Rightarrow> 'a tree \<Rightarrow> 'a tree" where
  "bal l x r =
     (if height r + 1 < height l then
        rotr (Node (if height (left l) < height (right l) then rotl l else l) x r)
      else if height l + 1 < height r then
        rotl (Node l x (if height (right r) < height (left r) then rotr r else r))
      else Node l x r)"

fun ins :: "('k :: linorder, 'v) entry \<Rightarrow> ('k, 'v) entry tree \<Rightarrow> ('k, 'v) entry tree" where
  "ins x Leaf = Node Leaf x Leaf"
| "ins x (Node l y r) = (if key_of x < key_of y then bal (ins x l) y r else bal l y (ins x r))"

fun delmin :: "'a tree \<Rightarrow> 'a tree \<times> 'a" where
  "delmin (Node l x r) = (if l = Leaf then (r, x) else (bal (fst (delmin l)) x r, snd (delmin l)))"

declare delmin.simps [simp del]

lemma delmin_simps [simp]:
  "delmin (Node Leaf x r) = (r, x)"
  "l \<noteq> Leaf \<Longrightarrow> delmin (Node l x r) = (bal (fst (delmin l)) x r, snd (delmin l))"
  by (simp_all add: delmin.simps)

definition join :: "'a tree \<Rightarrow> 'a tree \<Rightarrow> 'a tree" where
  "join l r = (if l = Leaf then r else if r = Leaf then l else bal l (snd (delmin r)) (fst (delmin r)))"

fun del :: "'k :: linorder \<Rightarrow> ('k, 'v) entry tree \<Rightarrow> ('k, 'v) entry tree" where
  "del k Leaf = Leaf"
| "del k (Node l y r) =
     (if k < key_of y then bal (del k l) y r else if key_of y < k then bal l y (del k r) else join l r)"

section \<open>Order\<close>

lemma inorder_rotations [simp]: "inorder (rotl t) = inorder t" "inorder (rotr t) = inorder t"
  by (cases t rule: rotl.cases; simp) (cases t rule: rotr.cases; simp)

lemma inorder_rot_Node: "inorder (rotr (Node l x r)) = inorder l @ x # inorder r" "inorder (rotl (Node l x r)) = inorder l @ x # inorder r"
  by (simp_all del: rotl.simps rotr.simps)

lemma inorder_bal [simp]: "inorder (bal l x r) = inorder l @ x # inorder r"
  by (simp add: bal_def inorder_rot_Node del: rotl.simps rotr.simps)

lemma bal_not_Leaf [simp]: "bal l x r \<noteq> Leaf" "Leaf \<noteq> bal l x r"
  by (metis append_is_Nil_conv inorder.simps(1) inorder_bal list.distinct(1))+

definition ascending :: "('k :: linorder, 'v) entry tree \<Rightarrow> bool" where
  "ascending t \<longleftrightarrow> sorted_wrt (<) (map key_of (inorder t))"

lemma ascending_Leaf [simp]: "ascending Leaf"
  by (simp add: ascending_def)

lemma ascending_Node [simp]:
  "ascending (Node l x r) \<longleftrightarrow> ascending l \<and> ascending r \<and> (\<forall>y\<in>set_tree l. key_of y < key_of x) \<and> (\<forall>y\<in>set_tree r. key_of x < key_of y)"
  by (auto simp: ascending_def sorted_wrt_append intro: less_trans)

lemma inorder_ins:
  assumes "ascending t" "\<forall>y\<in>set_tree t. key_of y \<noteq> key_of x"
  shows "inorder (ins x t) = filter (\<lambda>y. key_of y < key_of x) (inorder t) @ x # filter (\<lambda>y. key_of x < key_of y) (inorder t)"
  using assms
proof (induction t)
  case (Node l y r)
  consider "key_of x < key_of y" | "key_of y < key_of x"
    using Node.prems(2) by force
  then show ?case
  proof cases
    case 1
    have "\<forall>z\<in>set_tree r. key_of x < key_of z"
      using 1 Node.prems(1) less_trans unfolding ascending_Node by blast
    then have "filter (\<lambda>y. key_of y < key_of x) (inorder r) = []" "filter (\<lambda>y. key_of x < key_of y) (inorder r) = inorder r"
      by (auto simp: filter_empty_conv dest: less_asym intro!: filter_True)
    then show ?thesis
      using 1 Node by auto
  next
    case 2
    have "\<forall>z\<in>set_tree l. key_of z < key_of x"
      using 2 Node.prems(1) less_trans unfolding ascending_Node by blast
    then have "filter (\<lambda>y. key_of x < key_of y) (inorder l) = []" "filter (\<lambda>y. key_of y < key_of x) (inorder l) = inorder l"
      by (auto simp: filter_empty_conv dest: less_asym intro!: filter_True)
    then show ?thesis
      using 2 Node by auto
  qed
qed simp

lemma inorder_delmin: "t \<noteq> Leaf \<Longrightarrow> snd (delmin t) # inorder (fst (delmin t)) = inorder t"
proof (induction t)
  case (Node l x r)
  then show ?case
    by (cases "l = Leaf") auto
qed simp

lemma inorder_join [simp]: "inorder (join l r) = inorder l @ inorder r"
  using inorder_delmin [of r] by (auto simp: join_def)

lemma inorder_del:
  assumes "ascending t"
  shows "inorder (del k t) = filter (\<lambda>y. key_of y \<noteq> k) (inorder t)"
  using assms
proof (induction t)
  case (Node l y r)
  have l: "filter (\<lambda>y. key_of y \<noteq> k) (inorder l) = inorder l" if "\<not> k < key_of y"
    using Node.prems that by (intro filter_True) auto
  have r: "filter (\<lambda>y. key_of y \<noteq> k) (inorder r) = inorder r" if "\<not> key_of y < k"
    using Node.prems that by (intro filter_True) auto
  show ?case
    using Node l r by (cases k "key_of y" rule: linorder_cases) auto
qed simp

section \<open>Balance\<close>

fun avl :: "'a tree \<Rightarrow> bool" where
  "avl Leaf = True"
| "avl (Node l x r) \<longleftrightarrow> avl l \<and> avl r \<and> height l \<le> height r + 1 \<and> height r \<le> height l + 1"

lemma bal_facts:
  assumes "avl l" "avl r" "height l \<le> height r + 2" "height r \<le> height l + 2"
  shows "avl (bal l x r) \<and> max (height l) (height r) \<le> height (bal l x r) \<and> height (bal l x r) \<le> max (height l) (height r) + 1"
proof -
  consider "height r + 1 < height l" | "height l + 1 < height r" | "height l \<le> height r + 1" "height r \<le> height l + 1"
    by linarith
  then show ?thesis
  proof cases
    case 1
    then obtain a y b where l: "l = Node a y b"
      by (cases l) auto
    show ?thesis
    proof (cases "height a < height b")
      case True
      then obtain b1 z b2 where "b = Node b1 z b2"
        by (cases b) auto
      then show ?thesis
        using assms 1 True by (simp add: bal_def l; arith)
    next
      case False
      then show ?thesis
        using assms 1 by (simp add: bal_def l; arith)
    qed
  next
    case 2
    then obtain a y b where r: "r = Node a y b"
      by (cases r) auto
    show ?thesis
    proof (cases "height b < height a")
      case True
      then obtain b1 z b2 where "a = Node b1 z b2"
        by (cases a) auto
      then show ?thesis
        using assms 2 True by (simp add: bal_def r; arith)
    next
      case False
      then show ?thesis
        using assms 2 by (simp add: bal_def r; arith)
    qed
  qed (use assms in \<open>auto simp: bal_def\<close>)
qed

lemma bal_balanced: "height l \<le> height r + 1 \<Longrightarrow> height r \<le> height l + 1 \<Longrightarrow> bal l x r = Node l x r"
  by (simp add: bal_def)

lemma ins_facts: "avl t \<Longrightarrow> avl (ins x t) \<and> height t \<le> height (ins x t) \<and> height (ins x t) \<le> height t + 1"
proof (induction t)
  case (Node l y r)
  show ?case
  proof (cases "key_of x < key_of y")
    case True
    then show ?thesis
      using Node True bal_facts [of "ins x l" r y] bal_balanced [of "ins x l" r y]
      by (cases "height (ins x l) \<le> height r + 1") auto
  next
    case False
    then show ?thesis
      using Node bal_facts [of l "ins x r" y] bal_balanced [of l "ins x r" y]
      by (cases "height (ins x r) \<le> height l + 1") auto
  qed
qed simp

lemma delmin_facts:
  "avl t \<Longrightarrow> t \<noteq> Leaf \<Longrightarrow> avl (fst (delmin t)) \<and> height (fst (delmin t)) \<le> height t \<and> height t \<le> height (fst (delmin t)) + 1"
proof (induction t)
  case (Node l x r)
  then show ?case
    using bal_facts [of "fst (delmin l)" r x] bal_balanced [of "fst (delmin l)" r x]
    by (cases "l = Leaf"; cases "height r \<le> height (fst (delmin l)) + 1") auto
qed simp

lemma join_facts:
  assumes "avl l" "avl r" "height l \<le> height r + 1" "height r \<le> height l + 1"
  shows "avl (join l r) \<and> height (join l r) \<le> max (height l) (height r) + 1 \<and> max (height l) (height r) \<le> height (join l r)"
  using assms delmin_facts [of r] bal_facts [of l "fst (delmin r)" "snd (delmin r)"]
    bal_balanced [of l "fst (delmin r)" "snd (delmin r)"]
  by (cases "height l \<le> height (fst (delmin r)) + 1") (auto simp: join_def)

lemma del_facts: "avl t \<Longrightarrow> avl (del k t) \<and> height (del k t) \<le> height t \<and> height t \<le> height (del k t) + 1"
proof (induction t)
  case (Node l y r)
  consider "k < key_of y" | "key_of y < k" | "k = key_of y"
    by force
  then show ?case
  proof cases
    case 1
    then show ?thesis
      using Node bal_facts [of "del k l" r y] bal_balanced [of "del k l" r y]
      by (cases "height r \<le> height (del k l) + 1") auto
  next
    case 2
    then show ?thesis
      using Node bal_facts [of l "del k r" y] bal_balanced [of l "del k r" y]
      by (cases "height l \<le> height (del k r) + 1") auto
  next
    case 3
    then show ?thesis
      using Node.prems join_facts [of l r] by auto
  qed
qed simp

text \<open>The height of a balanced tree is at most twice the logarithm of its size.\<close>

lemma avl_size: "avl t \<Longrightarrow> 2 ^ (height t div 2) \<le> size t + 1"
proof (induction "height t" arbitrary: t rule: less_induct)
  case less
  show ?case
  proof (cases t)
    case (Node l x r)
    have h: "height l < height t" "height r < height t"
      by (simp_all add: Node)
    have ih: "2 ^ (height l div 2) \<le> size l + 1" "2 ^ (height r div 2) \<le> size r + 1"
      using less.hyps h less.prems by (simp_all add: Node)
    have "height t div 2 \<le> height l div 2 + 1" "height t div 2 \<le> height r div 2 + 1"
      using less.prems by (auto simp: Node max_def)
    note half = this
    show ?thesis
    proof (cases "height t div 2")
      case (Suc n)
      then have "n \<le> height l div 2" "n \<le> height r div 2"
        using half by simp_all
      then have "(2::nat) ^ n \<le> 2 ^ (height l div 2)" "(2::nat) ^ n \<le> 2 ^ (height r div 2)"
        by (simp_all add: power_increasing)
      moreover have "(2::nat) ^ (height t div 2) = 2 ^ n + 2 ^ n" "size t = size l + size r + 1"
        by (simp_all only: Suc power_Suc mult_2) (simp add: Node)
      ultimately show ?thesis
        using ih by linarith
    qed simp
  qed simp
qed

lemma avl_height:
  assumes "avl t" "size t < 2 ^ 63"
  shows "height t < 128"
proof (rule ccontr)
  assume "\<not> height t < 128"
  then have "64 \<le> height t div 2"
    by linarith
  then have "(2::nat) ^ 64 \<le> 2 ^ (height t div 2)"
    by (rule power_increasing) simp
  also have "\<dots> \<le> size t + 1"
    by (rule avl_size [OF assms(1)])
  also have "\<dots> \<le> 2 ^ 63"
    using assms(2) by (simp only: Suc_eq_plus1 [symmetric] Suc_le_eq)
  finally show False
    by simp
qed

end
