(* ===== verification/ArenaAvlCorrect.thy ===== *)
theory ArenaAvlCorrect
  imports ArenaAvl AvlTree
begin

text \<open>
  The arena code computes the tree algorithms.  \<open>tree_at s r t\<close> says that the arena \<open>s\<close> holds the tree \<open>t\<close> below
  the link \<open>r\<close>, with the cached heights right; \<open>opened s l x r\<close> says the same of a node whose own height may be
  stale; \<open>kept A s s'\<close> says that only slots of \<open>A\<close> were written.
\<close>

named_theorems arena_intros \<open>rules for trees in an arena\<close>

section \<open>Trees in an arena\<close>

definition slots_of :: "('k, 'v) entry tree \<Rightarrow> nat set" where
  "slots_of t = fst ` set_tree t"

lemma slots_of_simps [simp]: "slots_of Leaf = {}" "slots_of (Node l x r) = insert (fst x) (slots_of l \<union> slots_of r)"
  by (auto simp: slots_of_def)

fun separate :: "('k, 'v) entry tree \<Rightarrow> bool" where
  "separate Leaf = True"
| "separate (Node l x r) \<longleftrightarrow> separate l \<and> separate r \<and> slots_of l \<inter> slots_of r = {} \<and> fst x \<notin> slots_of l \<and> fst x \<notin> slots_of r"

lemma slots_of_inorder: "slots_of t = set (map fst (inorder t))"
  by (simp add: slots_of_def)

lemma separate_iff: "separate t \<longleftrightarrow> distinct (map fst (inorder t))"
  by (induction t) (auto simp: slots_of_inorder)

fun tree_at :: "('k, 'v) arena \<Rightarrow> nat option \<Rightarrow> ('k, 'v) entry tree \<Rightarrow> bool" where
  "tree_at s q Leaf \<longleftrightarrow> q = None"
| "tree_at s q (Node l x r) \<longleftrightarrow> q = Some (fst x) \<and>
     (\<exists>n. node_at s (fst x) = Some n \<and> snd x = (node_key n, node_value n) \<and> node_height n = max (height l) (height r) + 1 \<and>
        tree_at s (left_child n) l \<and> tree_at s (right_child n) r)"

definition opened :: "('k, 'v) arena \<Rightarrow> ('k, 'v) entry tree \<Rightarrow> ('k, 'v) entry \<Rightarrow> ('k, 'v) entry tree \<Rightarrow> bool" where
  "opened s l x r \<longleftrightarrow> (\<exists>n. node_at s (fst x) = Some n \<and> snd x = (node_key n, node_value n) \<and>
     tree_at s (left_child n) l \<and> tree_at s (right_child n) r)"

definition kept :: "nat set \<Rightarrow> ('k, 'v) arena \<Rightarrow> ('k, 'v) arena \<Rightarrow> bool" where
  "kept A s s' \<longleftrightarrow> length s' = length s \<and> (\<forall>i. i \<notin> A \<longrightarrow> s' ! i = s ! i)"

lemma node_at_Some: "node_at s i = Some n \<longleftrightarrow> i < length s \<and> s ! i = OccupiedSlot n"
  by (auto simp: node_at_def list_at_def split: Option.bind_splits Slot.splits if_splits)

lemma node_at_put [simp]: "i < length s \<Longrightarrow> node_at (s[i := OccupiedSlot n]) j = (if j = i then Some n else node_at s j)"
  by (auto simp: node_at_def list_at_def split: Option.bind_splits)

lemma node_update_Some: "node_at s i = Some n \<Longrightarrow> node_update i f s = Some (s[i := OccupiedSlot (f n)])"
  by (simp add: node_update_def)

lemma kept_refl [simp]: "kept A s s"
  by (simp add: kept_def)

lemma kept_put: "i \<in> A \<Longrightarrow> kept A s (s[i := x])"
  by (auto simp: kept_def) (metis nth_list_update_neq)

lemma kept_trans: "kept A s s1 \<Longrightarrow> kept A s1 s2 \<Longrightarrow> kept A s s2"
  by (simp add: kept_def)

lemma kept_mono: "kept A s s' \<Longrightarrow> A \<subseteq> B \<Longrightarrow> kept B s s'"
  by (auto simp: kept_def)

lemma kept_node: "kept A s s' \<Longrightarrow> i \<notin> A \<Longrightarrow> node_at s' i = node_at s i"
  by (simp add: kept_def node_at_def list_at_def)

lemma tree_at_kept: "tree_at s q t \<Longrightarrow> kept A s s' \<Longrightarrow> A \<inter> slots_of t = {} \<Longrightarrow> tree_at s' q t"
proof (induction t arbitrary: q)
  case (Node l x r)
  then have "node_at s' (fst x) = node_at s (fst x)"
    by (intro kept_node) auto
  then show ?case
    using Node by (auto simp: Int_Un_distrib)
qed simp

lemma opened_kept: "opened s l x r \<Longrightarrow> kept A s s' \<Longrightarrow> A \<inter> insert (fst x) (slots_of l \<union> slots_of r) = {} \<Longrightarrow> opened s' l x r"
  unfolding opened_def using kept_node [of A s s' "fst x"] tree_at_kept [of s _ _ A s']
  by (fastforce simp: Int_Un_distrib)

lemma tree_at_opened: "tree_at s q (Node l x r) \<Longrightarrow> opened s l x r"
  by (auto simp: opened_def)

lemma height_at_tree: "tree_at s q t \<Longrightarrow> height_at s q = Some (height t)"
  by (cases t) (auto simp: height_at_def)

lemma tree_at_slots: "tree_at s q t \<Longrightarrow> i \<in> slots_of t \<Longrightarrow> \<exists>n. node_at s i = Some n"
  by (induction t arbitrary: q) auto

lemma update_height_ok:
  assumes "opened s l x r" "fst x \<notin> slots_of l \<union> slots_of r" "max (height l) (height r) < 60000"
  shows "\<exists>s'. update_height (fst x) s = Some s' \<and> tree_at s' (Some (fst x)) (Node l x r) \<and> kept {fst x} s s'"
proof -
  obtain n where n: "node_at s (fst x) = Some n" "snd x = (node_key n, node_value n)" "tree_at s (left_child n) l"
      "tree_at s (right_child n) r"
    using assms(1) by (auto simp: opened_def)
  let ?h = "max (height l) (height r) + 1"
  let ?s = "s[fst x := OccupiedSlot (n\<lparr>node_height := ?h\<rparr>)]"
  have i: "fst x < length s"
    using n(1) by (simp add: node_at_Some)
  have k: "kept {fst x} s ?s"
    by (rule kept_put) simp
  have "update_height (fst x) s = Some ?s"
    using n assms(3) by (simp add: update_height_def height_at_tree checked_def fits_u16_def node_update_Some)
  moreover have "tree_at ?s (left_child n) l" "tree_at ?s (right_child n) r"
    using tree_at_kept [OF n(3) k] tree_at_kept [OF n(4) k] assms(2) by auto
  ultimately show ?thesis
    using n(2) i k by auto
qed

lemma balance_factor_ok: "opened s l x r \<Longrightarrow> balance_factor s (fst x) = Some (int (height l) - int (height r))"
  by (auto simp: opened_def balance_factor_def height_at_tree)

text \<open>Writing one link of a node.\<close>

lemma link_left_ok:
  assumes n: "node_at s (fst x) = Some n" "snd x = (node_key n, node_value n)" "tree_at s (right_child n) r"
    and q: "tree_at s q l'" and disjoint: "fst x \<notin> slots_of l' \<union> slots_of r"
  shows "\<exists>s'. node_update (fst x) (\<lambda>n. n\<lparr>left_child := q\<rparr>) s = Some s' \<and> opened s' l' x r \<and> kept {fst x} s s'"
proof -
  let ?s = "s[fst x := OccupiedSlot (n\<lparr>left_child := q\<rparr>)]"
  have i: "fst x < length s"
    using n(1) by (simp add: node_at_Some)
  have k: "kept {fst x} s ?s"
    by (rule kept_put) simp
  have "tree_at ?s q l'" "tree_at ?s (right_child n) r"
    using tree_at_kept [OF n(3) k] tree_at_kept [OF q k] disjoint by auto
  then show ?thesis
    using n i k by (auto simp: opened_def node_update_Some)
qed

lemma link_right_ok:
  assumes n: "node_at s (fst x) = Some n" "snd x = (node_key n, node_value n)" "tree_at s (left_child n) l"
    and q: "tree_at s q r'" and disjoint: "fst x \<notin> slots_of l \<union> slots_of r'"
  shows "\<exists>s'. node_update (fst x) (\<lambda>n. n\<lparr>right_child := q\<rparr>) s = Some s' \<and> opened s' l x r' \<and> kept {fst x} s s'"
proof -
  let ?s = "s[fst x := OccupiedSlot (n\<lparr>right_child := q\<rparr>)]"
  have i: "fst x < length s"
    using n(1) by (simp add: node_at_Some)
  have k: "kept {fst x} s ?s"
    by (rule kept_put) simp
  have "tree_at ?s q r'" "tree_at ?s (left_child n) l"
    using tree_at_kept [OF n(3) k] tree_at_kept [OF q k] disjoint by auto
  then show ?thesis
    using n i k by (auto simp: opened_def node_update_Some)
qed

section \<open>Rotations and rebalancing\<close>

lemma rotate_right_ok:
  assumes "opened s (Node a y b) x c" "separate (Node (Node a y b) x c)" "height (Node (Node a y b) x c) < 50000"
  shows "\<exists>s'. rotate_right (fst x) s = Some (fst y, s') \<and> tree_at s' (Some (fst y)) (Node a y (Node b x c)) \<and> kept {fst x, fst y} s s'"
proof -
  obtain n p where n: "node_at s (fst x) = Some n" "snd x = (node_key n, node_value n)" "left_child n = Some (fst y)" "tree_at s (right_child n) c"
    and p: "node_at s (fst y) = Some p" "snd y = (node_key p, node_value p)" "tree_at s (left_child p) a" "tree_at s (right_child p) b"
    using assms(1) by (auto simp: opened_def)
  let ?s1 = "s[fst x := OccupiedSlot (n\<lparr>left_child := right_child p\<rparr>)]"
  let ?s2 = "?s1[fst y := OccupiedSlot (p\<lparr>right_child := Some (fst x)\<rparr>)]"
  have i: "fst x < length s" "fst y < length s" "fst x \<noteq> fst y"
    using n(1) p(1) assms(2) by (auto simp: node_at_Some)
  have k: "kept {fst x, fst y} s ?s2"
    by (rule kept_trans; rule kept_put) auto
  have t: "tree_at ?s2 (left_child p) a" "tree_at ?s2 (right_child p) b" "tree_at ?s2 (right_child n) c"
    using tree_at_kept [OF n(4) k] tree_at_kept [OF p(3) k] tree_at_kept [OF p(4) k] assms(2) by auto
  have "opened ?s2 b x c"
    using n i t by (auto simp: opened_def)
  then obtain s3 where s3: "update_height (fst x) ?s2 = Some s3" "tree_at s3 (Some (fst x)) (Node b x c)" "kept {fst x} ?s2 s3"
    using update_height_ok [of ?s2 b x c] assms(2,3) by auto
  have "node_at s3 (fst y) = Some (p\<lparr>right_child := Some (fst x)\<rparr>)"
    using kept_node [OF s3(3), of "fst y"] i by simp
  moreover have "tree_at s3 (left_child p) a"
    using tree_at_kept [OF t(1) s3(3)] assms(2) by auto
  ultimately have "opened s3 a y (Node b x c)"
    using s3(2) p(2) by (simp add: opened_def)
  then obtain s4 where s4: "update_height (fst y) s3 = Some s4" "tree_at s4 (Some (fst y)) (Node a y (Node b x c))" "kept {fst y} s3 s4"
    using update_height_ok [of s3 a y "Node b x c"] assms(2,3) by auto
  have "rotate_right (fst x) s = Some (fst y, s4)"
    using n p i s3(1) s4(1) by (simp add: rotate_right_def node_update_Some)
  moreover have "kept {fst x, fst y} s s4"
    using kept_trans [OF kept_trans [OF k kept_mono [OF s3(3)]] kept_mono [OF s4(3)]] by simp
  ultimately show ?thesis
    using s4(2) by blast
qed

lemma rotate_left_ok:
  assumes "opened s a x (Node b y c)" "separate (Node a x (Node b y c))" "height (Node a x (Node b y c)) < 50000"
  shows "\<exists>s'. rotate_left (fst x) s = Some (fst y, s') \<and> tree_at s' (Some (fst y)) (Node (Node a x b) y c) \<and> kept {fst x, fst y} s s'"
proof -
  obtain n p where n: "node_at s (fst x) = Some n" "snd x = (node_key n, node_value n)" "right_child n = Some (fst y)" "tree_at s (left_child n) a"
    and p: "node_at s (fst y) = Some p" "snd y = (node_key p, node_value p)" "tree_at s (left_child p) b" "tree_at s (right_child p) c"
    using assms(1) by (auto simp: opened_def)
  let ?s1 = "s[fst x := OccupiedSlot (n\<lparr>right_child := left_child p\<rparr>)]"
  let ?s2 = "?s1[fst y := OccupiedSlot (p\<lparr>left_child := Some (fst x)\<rparr>)]"
  have i: "fst x < length s" "fst y < length s" "fst x \<noteq> fst y"
    using n(1) p(1) assms(2) by (auto simp: node_at_Some)
  have k: "kept {fst x, fst y} s ?s2"
    by (rule kept_trans; rule kept_put) auto
  have t: "tree_at ?s2 (left_child p) b" "tree_at ?s2 (right_child p) c" "tree_at ?s2 (left_child n) a"
    using tree_at_kept [OF n(4) k] tree_at_kept [OF p(3) k] tree_at_kept [OF p(4) k] assms(2) by auto
  have "opened ?s2 a x b"
    using n i t by (auto simp: opened_def)
  then obtain s3 where s3: "update_height (fst x) ?s2 = Some s3" "tree_at s3 (Some (fst x)) (Node a x b)" "kept {fst x} ?s2 s3"
    using update_height_ok [of ?s2 a x b] assms(2,3) by auto
  have "node_at s3 (fst y) = Some (p\<lparr>left_child := Some (fst x)\<rparr>)"
    using kept_node [OF s3(3), of "fst y"] i by simp
  moreover have "tree_at s3 (right_child p) c"
    using tree_at_kept [OF t(2) s3(3)] assms(2) by auto
  ultimately have "opened s3 (Node a x b) y c"
    using s3(2) p(2) by (simp add: opened_def)
  then obtain s4 where s4: "update_height (fst y) s3 = Some s4" "tree_at s4 (Some (fst y)) (Node (Node a x b) y c)" "kept {fst y} s3 s4"
    using update_height_ok [of s3 "Node a x b" y c] assms(2,3) by auto
  have "rotate_left (fst x) s = Some (fst y, s4)"
    using n p i s3(1) s4(1) by (simp add: rotate_left_def node_update_Some)
  moreover have "kept {fst x, fst y} s s4"
    using kept_trans [OF kept_trans [OF k kept_mono [OF s3(3)]] kept_mono [OF s4(3)]] by simp
  ultimately show ?thesis
    using s4(2) by blast
qed

lemma rebalance_ok:
  assumes "opened s l x r" "separate (Node l x r)" "height l < 40000" "height r < 40000"
  shows "\<exists>q s'. rebalance (fst x) s = Some (q, s') \<and> tree_at s' (Some q) (bal l x r) \<and>
    kept (insert (fst x) (slots_of l \<union> slots_of r)) s s'"
proof -
  let ?A = "insert (fst x) (slots_of l \<union> slots_of r)"
  obtain s1 where s1: "update_height (fst x) s = Some s1" "tree_at s1 (Some (fst x)) (Node l x r)" "kept {fst x} s s1"
    using update_height_ok [OF assms(1)] assms(2,3,4) by auto
  note o1 = tree_at_opened [OF s1(2)]
  note b1 = balance_factor_ok [OF o1]
  obtain n where n: "node_at s1 (fst x) = Some n" "snd x = (node_key n, node_value n)" "tree_at s1 (left_child n) l" "tree_at s1 (right_child n) r"
    using o1 by (auto simp: opened_def)
  have k1: "kept ?A s s1"
    by (rule kept_mono [OF s1(3)]) simp
  consider (left) "height r + 1 < height l" | (right) "height l + 1 < height r" | (even) "height l \<le> height r + 1" "height r \<le> height l + 1"
    by linarith
  then show ?thesis
  proof cases
    case left
    then obtain a y b where l: "l = Node a y b"
      by (cases l) auto
    have y: "left_child n = Some (fst y)" "opened s1 a y b"
      using n(3) by (auto simp: l opened_def)
    show ?thesis
    proof (cases "height a < height b")
      case True
      then obtain c z d where b: "b = Node c z d"
        by (cases b) auto
      obtain s2 where s2: "rotate_left (fst y) s1 = Some (fst z, s2)" "tree_at s2 (Some (fst z)) (Node (Node a y c) z d)" "kept {fst y, fst z} s1 s2"
        using rotate_left_ok [of s1 a y c z d] y(2) assms(2,3) by (auto simp: l b)
      have x2: "node_at s2 (fst x) = Some n" "tree_at s2 (right_child n) r"
        using kept_node [OF s2(3), of "fst x"] tree_at_kept [OF n(4) s2(3)] n(1) assms(2) by (auto simp: l b)
      obtain s3 where s3: "node_update (fst x) (\<lambda>n. n\<lparr>left_child := Some (fst z)\<rparr>) s2 = Some s3"
          "opened s3 (Node (Node a y c) z d) x r" "kept {fst x} s2 s3"
        using link_left_ok [OF x2(1) n(2) x2(2) s2(2)] assms(2) by (auto simp: l b)
      have sep: "separate (Node (Node (Node a y c) z d) x r)"
        using assms(2) by (auto simp: l b)
      obtain s4 where s4: "rotate_right (fst x) s3 = Some (fst z, s4)" "tree_at s4 (Some (fst z)) (Node (Node a y c) z (Node d x r))"
          "kept {fst x, fst z} s3 s4"
        using rotate_right_ok [OF s3(2) sep] assms(3,4) by (auto simp: l b)
      have "kept ?A s1 s2" "kept ?A s2 s3" "kept ?A s3 s4"
        by (rule kept_mono [OF s2(3)], simp add: l b) (rule kept_mono [OF s3(3)] kept_mono [OF s4(3)], simp add: l b)+
      then have "kept ?A s s4"
        using k1 kept_trans by blast
      moreover have "rebalance (fst x) s = Some (fst z, s4)"
        using s1(1) b1 left n(1) y(1) balance_factor_ok [OF y(2)] True s2(1) s3(1) s4(1) by (simp add: rebalance_def)
      moreover have "bal l x r = Node (Node a y c) z (Node d x r)"
        using left True by (simp add: bal_def l b)
      ultimately show ?thesis
        using s4(2) by auto
    next
      case False
      obtain s4 where s4: "rotate_right (fst x) s1 = Some (fst y, s4)" "tree_at s4 (Some (fst y)) (Node a y (Node b x r))"
          "kept {fst x, fst y} s1 s4"
        using rotate_right_ok [of s1 a y b x r] o1 assms(2,3,4) by (auto simp: l)
      have "kept ?A s1 s4"
        by (rule kept_mono [OF s4(3)]) (simp add: l)
      then have "kept ?A s s4"
        using k1 kept_trans by blast
      moreover have "rebalance (fst x) s = Some (fst y, s4)"
        using s1(1) b1 left n(1) y(1) balance_factor_ok [OF y(2)] False s4(1) by (simp add: rebalance_def)
      moreover have "bal l x r = Node a y (Node b x r)"
        using left False by (simp add: bal_def l)
      ultimately show ?thesis
        using s4(2) by auto
    qed
  next
    case right
    then obtain a y b where r: "r = Node a y b"
      by (cases r) auto
    have y: "right_child n = Some (fst y)" "opened s1 a y b"
      using n(4) by (auto simp: r opened_def)
    show ?thesis
    proof (cases "height b < height a")
      case True
      then obtain c z d where a: "a = Node c z d"
        by (cases a) auto
      obtain s2 where s2: "rotate_right (fst y) s1 = Some (fst z, s2)" "tree_at s2 (Some (fst z)) (Node c z (Node d y b))" "kept {fst y, fst z} s1 s2"
        using rotate_right_ok [of s1 c z d y b] y(2) assms(2,4) by (auto simp: r a)
      have x2: "node_at s2 (fst x) = Some n" "tree_at s2 (left_child n) l"
        using kept_node [OF s2(3), of "fst x"] tree_at_kept [OF n(3) s2(3)] n(1) assms(2) by (auto simp: r a)
      obtain s3 where s3: "node_update (fst x) (\<lambda>n. n\<lparr>right_child := Some (fst z)\<rparr>) s2 = Some s3"
          "opened s3 l x (Node c z (Node d y b))" "kept {fst x} s2 s3"
        using link_right_ok [OF x2(1) n(2) x2(2) s2(2)] assms(2) by (auto simp: r a)
      have sep: "separate (Node l x (Node c z (Node d y b)))"
        using assms(2) by (auto simp: r a)
      obtain s4 where s4: "rotate_left (fst x) s3 = Some (fst z, s4)" "tree_at s4 (Some (fst z)) (Node (Node l x c) z (Node d y b))"
          "kept {fst x, fst z} s3 s4"
        using rotate_left_ok [OF s3(2) sep] assms(3,4) by (auto simp: r a)
      have "kept ?A s1 s2" "kept ?A s2 s3" "kept ?A s3 s4"
        by (rule kept_mono [OF s2(3)], simp add: r a) (rule kept_mono [OF s3(3)] kept_mono [OF s4(3)], simp add: r a)+
      then have "kept ?A s s4"
        using k1 kept_trans by blast
      moreover have "rebalance (fst x) s = Some (fst z, s4)"
        using s1(1) b1 right n(1) y(1) balance_factor_ok [OF y(2)] True s2(1) s3(1) s4(1) by (simp add: rebalance_def)
      moreover have "bal l x r = Node (Node l x c) z (Node d y b)"
        using right True by (simp add: bal_def r a)
      ultimately show ?thesis
        using s4(2) by auto
    next
      case False
      obtain s4 where s4: "rotate_left (fst x) s1 = Some (fst y, s4)" "tree_at s4 (Some (fst y)) (Node (Node l x a) y b)"
          "kept {fst x, fst y} s1 s4"
        using rotate_left_ok [of s1 l x a y b] o1 assms(2,3,4) by (auto simp: r)
      have "kept ?A s1 s4"
        by (rule kept_mono [OF s4(3)]) (simp add: r)
      then have "kept ?A s s4"
        using k1 kept_trans by blast
      moreover have "rebalance (fst x) s = Some (fst y, s4)"
        using s1(1) b1 right n(1) y(1) balance_factor_ok [OF y(2)] False s4(1) by (simp add: rebalance_def)
      moreover have "bal l x r = Node (Node l x a) y b"
        using right False by (simp add: bal_def r)
      ultimately show ?thesis
        using s4(2) by auto
    qed
  next
    case even
    then have "rebalance (fst x) s = Some (fst x, s1)"
      using s1(1) b1 by (simp add: rebalance_def)
    then show ?thesis
      using s1(2) k1 even by (auto simp: bal_balanced)
  qed
qed

section \<open>Search, insertion and deletion\<close>

lemma find_index_ok:
  assumes "tree_at s q t" "ascending t"
  shows "\<exists>f. find_index s k q = Some f \<and> (\<forall>x. x \<in> set_tree t \<and> key_of x = k \<longrightarrow> f = Some (fst x)) \<and>
    ((\<forall>x\<in>set_tree t. key_of x \<noteq> k) \<longrightarrow> f = None)"
  using assms
proof (induction t arbitrary: q)
  case Leaf
  then show ?case
    by (simp add: find_index.simps)
next
  case (Node l y r)
  obtain n where n: "q = Some (fst y)" "node_at s (fst y) = Some n" "key_of y = node_key n" "tree_at s (left_child n) l" "tree_at s (right_child n) r"
    using Node.prems(1) by (auto simp: key_of_def)
  have asc: "\<And>x. x \<in> set_tree l \<Longrightarrow> key_of x < key_of y" "\<And>x. x \<in> set_tree r \<Longrightarrow> key_of y < key_of x"
    using Node.prems(2) by auto
  consider "k < key_of y" | "key_of y < k" | "k = key_of y"
    by force
  then show ?case
  proof cases
    case 1
    then have "x \<notin> set_tree r \<and> x \<noteq> y" if "key_of x = k" for x
      using that asc(2) [of x] by auto
    then show ?thesis
      using Node.IH(1) [OF n(4)] Node.prems(2) 1 n(1,2,3) by (subst find_index.simps) auto
  next
    case 2
    then have "x \<notin> set_tree l \<and> x \<noteq> y" if "key_of x = k" for x
      using that asc(1) [of x] by auto
    then show ?thesis
      using Node.IH(2) [OF n(5)] Node.prems(2) 2 n(1,2,3) by (subst find_index.simps) auto
  next
    case 3
    then have "x \<notin> set_tree l \<and> x \<notin> set_tree r" if "key_of x = k" for x
      using that asc(1) [of x] asc(2) [of x] by auto
    then show ?thesis
      using 3 n(1,2,3) by (subst find_index.simps) auto
  qed
qed

lemma set_tree_bal [simp]: "set_tree (bal l x r) = insert x (set_tree l \<union> set_tree r)"
  unfolding set_inorder [symmetric] by (simp del: set_inorder)

lemma slots_of_bal [simp]: "slots_of (bal l x r) = insert (fst x) (slots_of l \<union> slots_of r)"
  by (auto simp: slots_of_def)

lemma set_tree_ins [simp]: "set_tree (ins x t) = insert x (set_tree t)"
  by (induction t) auto

lemma slots_of_ins [simp]: "slots_of (ins x t) = insert (fst x) (slots_of t)"
  by (auto simp: slots_of_def)

lemma mset_ins: "mset (inorder (ins x t)) = add_mset x (mset (inorder t))"
  by (induction t) auto

lemma separate_ins: "separate t \<Longrightarrow> fst x \<notin> slots_of t \<Longrightarrow> separate (ins x t)"
proof -
  assume a: "separate t" "fst x \<notin> slots_of t"
  have "mset (map fst (inorder (ins x t))) = mset (map fst (x # inorder t))"
    by (simp add: mset_ins)
  then show ?thesis
    using a mset_eq_imp_distinct_iff unfolding separate_iff slots_of_inorder by fastforce
qed

lemma separate_bal: "separate (Node l x r) \<Longrightarrow> separate (bal l x r)"
  by (simp add: separate_iff del: separate.simps)

lemma insert_index_ok:
  assumes "tree_at s q t" "separate t" "avl t" "height t < 1000" "\<forall>y\<in>set_tree t. key_of y \<noteq> key_of x" "fst x \<notin> slots_of t"
    "tree_at s (Some (fst x)) (Node Leaf x Leaf)"
  shows "\<exists>i s'. insert_index s q (fst x) (key_of x) = Some (i, s') \<and> tree_at s' (Some i) (ins x t) \<and> kept (insert (fst x) (slots_of t)) s s'"
  using assms(1-6)
proof (induction t arbitrary: q)
  case Leaf
  then show ?case
    using assms(7) by (auto simp: insert_index.simps)
next
  case (Node l y r)
  let ?A = "insert (fst x) (slots_of (Node l y r))"
  obtain n where n: "q = Some (fst y)" "node_at s (fst y) = Some n" "snd y = (node_key n, node_value n)"
      "tree_at s (left_child n) l" "tree_at s (right_child n) r"
    using Node.prems(1) by auto
  then have key: "key_of y = node_key n"
    by (simp add: key_of_def)
  have heights: "height (ins x l) \<le> height l + 1" "height (ins x r) \<le> height r + 1"
    using ins_facts [of l x] ins_facts [of r x] Node.prems(3) by simp_all
  consider "key_of x < key_of y" | "key_of y < key_of x"
    using Node.prems(5) by force
  then show ?case
  proof cases
    case 1
    obtain i s1 where s1: "insert_index s (left_child n) (fst x) (key_of x) = Some (i, s1)" "tree_at s1 (Some i) (ins x l)"
        "kept (insert (fst x) (slots_of l)) s s1"
      using Node.IH(1) [OF n(4)] Node.prems by auto
    have n1: "node_at s1 (fst y) = Some n" "tree_at s1 (right_child n) r"
      using kept_node [OF s1(3), of "fst y"] tree_at_kept [OF n(5) s1(3)] n(2) Node.prems(2,6) by auto
    obtain s2 where s2: "node_update (fst y) (\<lambda>n. n\<lparr>left_child := Some i\<rparr>) s1 = Some s2" "opened s2 (ins x l) y r" "kept {fst y} s1 s2"
      using link_left_ok [OF n1(1) n(3) n1(2) s1(2)] Node.prems(2,6) by auto
    have "separate (Node (ins x l) y r)"
      using Node.prems(2,6) by (auto intro: separate_ins)
    then obtain j s3 where s3: "rebalance (fst y) s2 = Some (j, s3)" "tree_at s3 (Some j) (bal (ins x l) y r)"
        "kept (insert (fst y) (slots_of (ins x l) \<union> slots_of r)) s2 s3"
      using rebalance_ok [OF s2(2)] heights Node.prems(4) by auto
    have "kept ?A s s3"
      by (rule kept_trans [OF kept_mono [OF s1(3)] kept_trans [OF kept_mono [OF s2(3)] kept_mono [OF s3(3)]]]) auto
    moreover have "insert_index s q (fst x) (key_of x) = Some (j, s3)"
      using n 1 key s1(1) s2(1) s3(1) by (subst insert_index.simps) simp
    ultimately show ?thesis
      using s3(2) 1 by auto
  next
    case 2
    obtain i s1 where s1: "insert_index s (right_child n) (fst x) (key_of x) = Some (i, s1)" "tree_at s1 (Some i) (ins x r)"
        "kept (insert (fst x) (slots_of r)) s s1"
      using Node.IH(2) [OF n(5)] Node.prems by auto
    have n1: "node_at s1 (fst y) = Some n" "tree_at s1 (left_child n) l"
      using kept_node [OF s1(3), of "fst y"] tree_at_kept [OF n(4) s1(3)] n(2) Node.prems(2,6) by auto
    obtain s2 where s2: "node_update (fst y) (\<lambda>n. n\<lparr>right_child := Some i\<rparr>) s1 = Some s2" "opened s2 l y (ins x r)" "kept {fst y} s1 s2"
      using link_right_ok [OF n1(1) n(3) n1(2) s1(2)] Node.prems(2,6) by auto
    have "separate (Node l y (ins x r))"
      using Node.prems(2,6) by (auto intro: separate_ins)
    then obtain j s3 where s3: "rebalance (fst y) s2 = Some (j, s3)" "tree_at s3 (Some j) (bal l y (ins x r))"
        "kept (insert (fst y) (slots_of l \<union> slots_of (ins x r))) s2 s3"
      using rebalance_ok [OF s2(2)] heights Node.prems(4) by auto
    have "kept ?A s s3"
      by (rule kept_trans [OF kept_mono [OF s1(3)] kept_trans [OF kept_mono [OF s2(3)] kept_mono [OF s3(3)]]]) auto
    moreover have "insert_index s q (fst x) (key_of x) = Some (j, s3)"
      using n 2 less_not_sym [OF 2] key s1(1) s2(1) s3(1) by (subst insert_index.simps) simp
    ultimately show ?thesis
      using s3(2) 2 by auto
  qed
qed

lemma set_tree_delmin: "t \<noteq> Leaf \<Longrightarrow> set_tree t = insert (snd (delmin t)) (set_tree (fst (delmin t)))"
  using arg_cong [OF inorder_delmin [of t], of set] by simp

lemma separate_delmin:
  assumes "separate t" "t \<noteq> Leaf"
  shows "separate (fst (delmin t))" "fst (snd (delmin t)) \<notin> slots_of (fst (delmin t))"
    "slots_of t = insert (fst (snd (delmin t))) (slots_of (fst (delmin t)))"
proof -
  have "map fst (inorder t) = fst (snd (delmin t)) # map fst (inorder (fst (delmin t)))"
    using inorder_delmin [OF assms(2)] by (metis list.simps(9))
  then show "separate (fst (delmin t))" "fst (snd (delmin t)) \<notin> slots_of (fst (delmin t))"
      "slots_of t = insert (fst (snd (delmin t))) (slots_of (fst (delmin t)))"
    using assms(1) by (simp_all only: separate_iff slots_of_inorder distinct.simps list.set)
      auto
qed

lemma detach_minimum_ok:
  assumes "tree_at s (Some i) t" "separate t" "avl t" "height t < 1000"
  shows "\<exists>q s' n. detach_minimum s i = Some (q, fst (snd (delmin t)), s') \<and> tree_at s' q (fst (delmin t)) \<and>
    node_at s' (fst (snd (delmin t))) = Some n \<and> snd (snd (delmin t)) = (node_key n, node_value n) \<and> kept (slots_of t) s s'"
  using assms
proof (induction t arbitrary: i)
  case (Node l x r)
  obtain n where n: "i = fst x" "node_at s (fst x) = Some n" "snd x = (node_key n, node_value n)"
      "tree_at s (left_child n) l" "tree_at s (right_child n) r"
    using Node.prems(1) by auto
  show ?case
  proof (cases "l = Leaf")
    case True
    then have "detach_minimum s i = Some (right_child n, fst x, s)"
      using n by (subst detach_minimum.simps) simp
    then show ?thesis
      using True n by auto
  next
    case False
    then obtain j where j: "left_child n = Some j"
      using n(4) by (cases l) auto
    let ?m = "snd (delmin l)" and ?l = "fst (delmin l)"
    obtain q s1 m where s1: "detach_minimum s j = Some (q, fst ?m, s1)" "tree_at s1 q ?l"
        "node_at s1 (fst ?m) = Some m" "snd ?m = (node_key m, node_value m)" "kept (slots_of l) s s1"
      using Node.IH(1) [of j] Node.prems n(4) j by auto
    have sep: "separate ?l" "fst ?m \<notin> slots_of ?l" "slots_of l = insert (fst ?m) (slots_of ?l)"
      using separate_delmin [of l] False Node.prems(2) by auto
    have n1: "node_at s1 (fst x) = Some n" "tree_at s1 (right_child n) r"
      using kept_node [OF s1(5), of "fst x"] tree_at_kept [OF n(5) s1(5)] n(2) Node.prems(2) by auto
    obtain s2 where s2: "node_update (fst x) (\<lambda>n. n\<lparr>left_child := q\<rparr>) s1 = Some s2" "opened s2 ?l x r" "kept {fst x} s1 s2"
      using link_left_ok [OF n1(1) n(3) n1(2) s1(2)] Node.prems(2) sep by auto
    have sepN: "separate (Node ?l x r)"
      using Node.prems(2) sep by auto
    have "height ?l \<le> height l"
      using delmin_facts [of l] False Node.prems(3) by auto
    then obtain k s3 where s3: "rebalance (fst x) s2 = Some (k, s3)" "tree_at s3 (Some k) (bal ?l x r)"
        "kept (insert (fst x) (slots_of ?l \<union> slots_of r)) s2 s3"
      using rebalance_ok [OF s2(2) sepN] Node.prems(4) by auto
    have m: "fst ?m \<noteq> fst x" "fst ?m \<notin> slots_of ?l \<union> slots_of r"
      using Node.prems(2) sep by auto
    have "node_at s3 (fst ?m) = Some m"
      using kept_node [OF s2(3), of "fst ?m"] kept_node [OF s3(3), of "fst ?m"] m s1(3) by simp
    moreover have "kept (slots_of (Node l x r)) s s3"
      by (rule kept_trans [OF kept_mono [OF s1(5)] kept_trans [OF kept_mono [OF s2(3)] kept_mono [OF s3(3)]]])
        (auto simp: sep(3))
    moreover have "detach_minimum s i = Some (Some k, fst ?m, s3)"
      using n j s1(1) s2(1) s3(1) by (subst detach_minimum.simps) simp
    ultimately show ?thesis
      using False s3(2) s1(4) by auto
  qed
qed simp

lemma unlink_ok:
  assumes "tree_at s (left_child n) l" "tree_at s (right_child n) r" "separate (Node l x r)" "avl (Node l x r)" "height r < 1000"
  shows "\<exists>q s'. unlink s i n = Some (q, s') \<and> tree_at s' q (join l r) \<and> kept (slots_of l \<union> slots_of r) s s'"
proof (cases "l = Leaf \<or> r = Leaf")
  case True
  have "l = Leaf \<longleftrightarrow> left_child n = None" "r = Leaf \<longleftrightarrow> right_child n = None"
    using assms(1,2) by (cases l; auto) (use assms(2) in \<open>cases r; auto\<close>)
  then show ?thesis
    using assms(1,2) True by (cases "right_child n") (auto simp: unlink_def join_def)
next
  case False
  obtain j where j: "right_child n = Some j" "left_child n \<noteq> None"
    using False assms(1,2) by (cases l; cases r) auto
  let ?m = "snd (delmin r)" and ?r = "fst (delmin r)"
  obtain q s1 m where s1: "detach_minimum s j = Some (q, fst ?m, s1)" "tree_at s1 q ?r"
      "node_at s1 (fst ?m) = Some m" "snd ?m = (node_key m, node_value m)" "kept (slots_of r) s s1"
    using detach_minimum_ok [of s j r] assms(2-5) j by auto
  have sep: "separate ?r" "fst ?m \<notin> slots_of ?r" "slots_of r = insert (fst ?m) (slots_of ?r)"
    using separate_delmin [of r] False assms(3) by auto
  have l1: "tree_at s1 (left_child n) l"
    using tree_at_kept [OF assms(1) s1(5)] assms(3) by auto
  let ?s2 = "s1[fst ?m := OccupiedSlot (m\<lparr>left_child := left_child n, right_child := q\<rparr>)]"
  have k: "kept {fst ?m} s1 ?s2"
    by (rule kept_put) simp
  have out: "fst ?m \<notin> slots_of l \<union> slots_of ?r"
    using assms(3) sep by auto
  have t2: "tree_at ?s2 (left_child n) l" "tree_at ?s2 q ?r"
    using tree_at_kept [OF l1 k] tree_at_kept [OF s1(2) k] out by auto
  have "fst ?m < length s1"
    using s1(3) by (simp add: node_at_Some)
  then have o2: "opened ?s2 l ?m ?r"
    using t2 s1(4) by (auto simp: opened_def)
  have sepN: "separate (Node l ?m ?r)"
    using assms(3) sep by auto
  have "height ?r \<le> height r" "height l \<le> height r + 1"
    using delmin_facts [of r] False assms(4) by auto
  then obtain k' s3 where s3: "rebalance (fst ?m) ?s2 = Some (k', s3)" "tree_at s3 (Some k') (bal l ?m ?r)"
      "kept (insert (fst ?m) (slots_of l \<union> slots_of ?r)) ?s2 s3"
    using rebalance_ok [OF o2 sepN] assms(5) by auto
  have "kept (slots_of l \<union> slots_of r) s s3"
    by (rule kept_trans [OF kept_mono [OF s1(5)] kept_trans [OF kept_mono [OF k] kept_mono [OF s3(3)]]]) (auto simp: sep(3))
  moreover have "unlink s i n = Some (Some k', s3)"
    using j s1(1) s3(1) s1(3) by (auto simp: unlink_def node_update_Some)
  ultimately show ?thesis
    using False s3(2) by (auto simp: join_def)
qed

lemma separate_del: "separate t \<Longrightarrow> ascending t \<Longrightarrow> separate (del k t)"
  by (simp add: separate_iff inorder_del distinct_map_filter)

lemma set_tree_del: "ascending t \<Longrightarrow> set_tree (del k t) = {y \<in> set_tree t. key_of y \<noteq> k}"
  using arg_cong [OF inorder_del [of t k], of set] by simp

lemma slots_of_del: "ascending t \<Longrightarrow> slots_of (del k t) \<subseteq> slots_of t"
  by (auto simp: slots_of_def set_tree_del)

lemma delete_index_ok:
  assumes "tree_at s q t" "separate t" "ascending t" "avl t" "height t < 1000" "x \<in> set_tree t" "key_of x = k"
  shows "\<exists>q' s'. delete_index s q k removed = Some (q', Some (fst x), s') \<and> tree_at s' q' (del k t) \<and> kept (slots_of t) s s'"
  using assms
proof (induction t arbitrary: q)
  case (Node l y r)
  let ?A = "slots_of (Node l y r)"
  obtain n where n: "q = Some (fst y)" "node_at s (fst y) = Some n" "snd y = (node_key n, node_value n)"
      "tree_at s (left_child n) l" "tree_at s (right_child n) r"
    using Node.prems(1) by auto
  then have key: "key_of y = node_key n"
    by (simp add: key_of_def)
  have heights: "height (del k l) \<le> height l" "height (del k r) \<le> height r"
    using del_facts [of l k] del_facts [of r k] Node.prems(4) by simp_all
  have asc: "\<And>z. z \<in> set_tree l \<Longrightarrow> key_of z < key_of y" "\<And>z. z \<in> set_tree r \<Longrightarrow> key_of y < key_of z"
    using Node.prems(3) by auto
  consider "k < key_of y" | "key_of y < k" | "k = key_of y"
    by force
  then show ?case
  proof cases
    case 1
    then have "x \<in> set_tree l"
      using Node.prems(6,7) asc(2) [of x] by auto
    then obtain i s1 where s1: "delete_index s (left_child n) k removed = Some (i, Some (fst x), s1)" "tree_at s1 i (del k l)"
        "kept (slots_of l) s s1"
      using Node.IH(1) [OF n(4)] Node.prems by auto
    have n1: "node_at s1 (fst y) = Some n" "tree_at s1 (right_child n) r"
      using kept_node [OF s1(3), of "fst y"] tree_at_kept [OF n(5) s1(3)] n(2) Node.prems(2) by auto
    have sub: "slots_of (del k l) \<subseteq> slots_of l"
      using slots_of_del Node.prems(3) by auto
    obtain s2 where s2: "node_update (fst y) (\<lambda>n. n\<lparr>left_child := i\<rparr>) s1 = Some s2" "opened s2 (del k l) y r" "kept {fst y} s1 s2"
      using link_left_ok [OF n1(1) n(3) n1(2) s1(2)] Node.prems(2) sub by auto
    have "separate (Node (del k l) y r)"
      using Node.prems(2,3) sub separate_del by auto
    then obtain j s3 where s3: "rebalance (fst y) s2 = Some (j, s3)" "tree_at s3 (Some j) (bal (del k l) y r)"
        "kept (insert (fst y) (slots_of (del k l) \<union> slots_of r)) s2 s3"
      using rebalance_ok [OF s2(2)] heights Node.prems(5) by auto
    have "kept ?A s s3"
      by (rule kept_trans [OF kept_mono [OF s1(3)] kept_trans [OF kept_mono [OF s2(3)] kept_mono [OF s3(3)]]]) (use sub in auto)
    moreover have "delete_index s q k removed = Some (Some j, Some (fst x), s3)"
      using n 1 key s1(1) s2(1) s3(1) by (subst delete_index.simps) simp
    ultimately show ?thesis
      using s3(2) 1 by auto
  next
    case 2
    then have "x \<in> set_tree r"
      using Node.prems(6,7) asc(1) [of x] by auto
    then obtain i s1 where s1: "delete_index s (right_child n) k removed = Some (i, Some (fst x), s1)" "tree_at s1 i (del k r)"
        "kept (slots_of r) s s1"
      using Node.IH(2) [OF n(5)] Node.prems by auto
    have n1: "node_at s1 (fst y) = Some n" "tree_at s1 (left_child n) l"
      using kept_node [OF s1(3), of "fst y"] tree_at_kept [OF n(4) s1(3)] n(2) Node.prems(2) by auto
    have sub: "slots_of (del k r) \<subseteq> slots_of r"
      using slots_of_del Node.prems(3) by auto
    obtain s2 where s2: "node_update (fst y) (\<lambda>n. n\<lparr>right_child := i\<rparr>) s1 = Some s2" "opened s2 l y (del k r)" "kept {fst y} s1 s2"
      using link_right_ok [OF n1(1) n(3) n1(2) s1(2)] Node.prems(2) sub by auto
    have "separate (Node l y (del k r))"
      using Node.prems(2,3) sub separate_del by auto
    then obtain j s3 where s3: "rebalance (fst y) s2 = Some (j, s3)" "tree_at s3 (Some j) (bal l y (del k r))"
        "kept (insert (fst y) (slots_of l \<union> slots_of (del k r))) s2 s3"
      using rebalance_ok [OF s2(2)] heights Node.prems(5) by auto
    have "kept ?A s s3"
      by (rule kept_trans [OF kept_mono [OF s1(3)] kept_trans [OF kept_mono [OF s2(3)] kept_mono [OF s3(3)]]]) (use sub in auto)
    moreover have "delete_index s q k removed = Some (Some j, Some (fst x), s3)"
      using n 2 less_not_sym [OF 2] key s1(1) s2(1) s3(1) by (subst delete_index.simps) simp
    ultimately show ?thesis
      using s3(2) 2 less_not_sym [OF 2] by auto
  next
    case 3
    then have x: "x = y"
      using Node.prems(6,7) asc(1) [of x] asc(2) [of x] by auto
    obtain i s1 where s1: "unlink s (fst y) n = Some (i, s1)" "tree_at s1 i (join l r)" "kept (slots_of l \<union> slots_of r) s s1"
      using unlink_ok [OF n(4,5) Node.prems(2,4), of "fst y"] Node.prems(5) by auto
    have "delete_index s q k removed = Some (i, Some (fst x), s1)"
      using n 3 key s1(1) x by (subst delete_index.simps) simp
    moreover have "kept ?A s s1"
      by (rule kept_mono [OF s1(3)]) auto
    ultimately show ?thesis
      using s1(2) 3 by auto
  qed
qed simp

end
