(* ===== verification/ArenaAvlQueries.thy ===== *)
theory ArenaAvlQueries
  imports ArenaAvlMap
begin

text \<open>
  Extrema, neighbours, construction, clearing and double-ended iteration of the arena map.
\<close>

section \<open>Extrema\<close>

lemma minimum_index_ok: "tree_at s (Some i) t \<Longrightarrow> minimum_index s i = Some (fst (hd (inorder t)))"
proof (induction t arbitrary: i)
  case (Node l x r)
  then obtain n where n: "i = fst x" "node_at s (fst x) = Some n" "tree_at s (left_child n) l"
    by auto
  then show ?case
    using Node.IH(1) by (cases l) (auto simp: minimum_index.simps [of s "fst x"] hd_append)
qed simp

lemma maximum_index_ok: "tree_at s (Some i) t \<Longrightarrow> maximum_index s i = Some (fst (List.last (inorder t)))"
proof (induction t arbitrary: i)
  case (Node l x r)
  then obtain n where n: "i = fst x" "node_at s (fst x) = Some n" "tree_at s (right_child n) r"
    by auto
  then show ?case
    using Node.IH(2) by (cases r) (auto simp: maximum_index.simps [of s "fst x"])
qed simp

lemma entry_at: "tree_at s q t \<Longrightarrow> x \<in> set_tree t \<Longrightarrow> \<exists>n. node_at s (fst x) = Some n \<and> x = (fst x, node_key n, node_value n)"
  using tree_at_node [of s q t x] by (auto simp: prod_eq_iff)

lemma root_None: "holds m t fl \<Longrightarrow> avl_root m = None \<longleftrightarrow> t = Leaf"
  using holdsD(1) [of m t fl] by (cases t) auto

lemma avl_first_ok:
  assumes "holds m t fl"
  shows "avl_first m = Some (if t = Leaf then None else Some (hd (inorder t)))"
proof (cases "avl_root m")
  case None
  then show ?thesis
    using root_None [OF assms] by (simp add: avl_first_def)
next
  case (Some i)
  let ?x = "hd (inorder t)"
  have t: "t \<noteq> Leaf" "?x \<in> set_tree t"
    using root_None [OF assms] Some by (auto simp flip: set_inorder)
  obtain n where "node_at (slots m) (fst ?x) = Some n" "?x = (fst ?x, node_key n, node_value n)"
    using entry_at [OF holdsD(1) [OF assms] t(2)] by blast
  then show ?thesis
    using Some t(1) minimum_index_ok [of "slots m" i t] holdsD(1) [OF assms] by (simp add: avl_first_def)
qed

lemma avl_last_ok:
  assumes "holds m t fl"
  shows "avl_last m = Some (if t = Leaf then None else Some (List.last (inorder t)))"
proof (cases "avl_root m")
  case None
  then show ?thesis
    using root_None [OF assms] by (simp add: avl_last_def)
next
  case (Some i)
  let ?x = "List.last (inorder t)"
  have t: "t \<noteq> Leaf" "?x \<in> set_tree t"
    using root_None [OF assms] Some by (auto simp flip: set_inorder)
  obtain n where "node_at (slots m) (fst ?x) = Some n" "?x = (fst ?x, node_key n, node_value n)"
    using entry_at [OF holdsD(1) [OF assms] t(2)] by blast
  then show ?thesis
    using Some t(1) maximum_index_ok [of "slots m" i t] holdsD(1) [OF assms] by (simp add: avl_last_def)
qed

section \<open>Neighbours\<close>

lemma find_appended: "List.find P (xs @ ys) = (case List.find P xs of None \<Rightarrow> List.find P ys | Some x \<Rightarrow> Some x)"
  by (induction xs) auto

lemma find_none: "(\<And>x. x \<in> set xs \<Longrightarrow> \<not> P x) \<Longrightarrow> List.find P xs = None"
  by (simp add: find_None_iff)

lemma successor_loop_ok:
  assumes "tree_at s q t" "ascending t"
  shows "successor_loop s k q c =
    Some (case List.find (\<lambda>x. k < key_of x) (inorder t) of None \<Rightarrow> c | Some x \<Rightarrow> Some (fst x))"
  using assms
proof (induction t arbitrary: q c)
  case Leaf
  then show ?case
    by (simp add: successor_loop.simps)
next
  case (Node l y r)
  then obtain n where n: "q = Some (fst y)" "node_at s (fst y) = Some n" "node_key n = key_of y"
      "tree_at s (left_child n) l" "tree_at s (right_child n) r"
    by (auto simp: key_of_def)
  show ?case
  proof (cases "k < key_of y")
    case True
    then have "successor_loop s k q c = successor_loop s k (left_child n) (Some (fst y))"
      using n by (subst successor_loop.simps) simp
    then show ?thesis
      using True n(3) Node.IH(1) [OF n(4), of "Some (fst y)"] Node.prems(2)
      by (cases "List.find (\<lambda>x. k < key_of x) (inorder l)") (simp_all add: find_appended)
  next
    case False
    then have "List.find (\<lambda>x. k < key_of x) (inorder l) = None"
      using Node.prems(2) by (intro find_none) force
    then show ?thesis
      using False n Node.IH(2) [OF n(5), of c] Node.prems(2)
      by (subst successor_loop.simps) (simp add: find_appended)
  qed
qed

lemma predecessor_loop_ok:
  assumes "tree_at s q t" "ascending t"
  shows "predecessor_loop s k q c =
    Some (case List.find (\<lambda>x. key_of x < k) (List.rev (inorder t)) of None \<Rightarrow> c | Some x \<Rightarrow> Some (fst x))"
  using assms
proof (induction t arbitrary: q c)
  case Leaf
  then show ?case
    by (simp add: predecessor_loop.simps)
next
  case (Node l y r)
  then obtain n where n: "q = Some (fst y)" "node_at s (fst y) = Some n" "node_key n = key_of y"
      "tree_at s (left_child n) l" "tree_at s (right_child n) r"
    by (auto simp: key_of_def)
  show ?case
  proof (cases "key_of y < k")
    case True
    then have "predecessor_loop s k q c = predecessor_loop s k (right_child n) (Some (fst y))"
      using n by (subst predecessor_loop.simps) simp
    then show ?thesis
      using True n(3) Node.IH(2) [OF n(5), of "Some (fst y)"] Node.prems(2)
      by (cases "List.find (\<lambda>x. key_of x < k) (List.rev (inorder r))") (simp_all add: find_appended)
  next
    case False
    then have "List.find (\<lambda>x. key_of x < k) (List.rev (inorder r)) = None"
      using Node.prems(2) by (intro find_none) force
    then show ?thesis
      using False n Node.IH(1) [OF n(4), of c] Node.prems(2)
      by (subst predecessor_loop.simps) (simp add: find_appended)
  qed
qed

lemma find_map: "List.find P (map f xs) = map_option f (List.find (P \<circ> f) xs)"
  by (induction xs) auto

lemma key_at_ok:
  assumes "tree_at s q t" "\<And>x. candidate = Some x \<Longrightarrow> x \<in> set_tree t"
  shows "key_at s (map_option fst candidate) = Some (map_option key_of candidate)"
  using assms tree_at_node [OF assms(1)] by (cases candidate) (fastforce simp: key_at_def key_of_def)+

lemma find_member: "List.find P xs = Some x \<Longrightarrow> x \<in> set xs"
  by (induction xs) (auto split: if_splits)

lemma successor_key_ok:
  assumes "holds m t fl"
  shows "avl_successor_key m k = Some (map_option fst (List.find (\<lambda>e. k < fst e) (entries_of t)))"
proof -
  let ?c = "List.find (\<lambda>x. k < key_of x) (inorder t)"
  have "key_at (slots m) (map_option fst ?c) = Some (map_option key_of ?c)"
    by (rule key_at_ok [OF holdsD(1) [OF assms]]) (use find_member [of _ "inorder t"] in auto)
  moreover have "(case ?c of None \<Rightarrow> None | Some x \<Rightarrow> Some (fst x)) = map_option fst ?c"
    by (cases ?c) auto
  ultimately show ?thesis
    using successor_loop_ok [OF holdsD(1,3) [OF assms], of k None]
    by (simp add: avl_successor_key_def entries_of_def find_map comp_def key_of_eq option.map_comp)
qed

lemma predecessor_key_ok:
  assumes "holds m t fl"
  shows "avl_predecessor_key m k = Some (map_option fst (List.find (\<lambda>e. fst e < k) (List.rev (entries_of t))))"
proof -
  let ?c = "List.find (\<lambda>x. key_of x < k) (List.rev (inorder t))"
  have "key_at (slots m) (map_option fst ?c) = Some (map_option key_of ?c)"
    by (rule key_at_ok [OF holdsD(1) [OF assms]]) (use find_member [of _ "List.rev (inorder t)"] in auto)
  moreover have "(case ?c of None \<Rightarrow> None | Some x \<Rightarrow> Some (fst x)) = map_option fst ?c"
    by (cases ?c) auto
  ultimately show ?thesis
    using predecessor_loop_ok [OF holdsD(1,3) [OF assms], of k None]
    by (simp add: avl_predecessor_key_def entries_of_def find_map comp_def key_of_eq option.map_comp rev_map)
qed

section \<open>Construction and clearing\<close>

lemma try_with_capacity_ok:
  "try_with_capacity reserve n = Some m \<Longrightarrow> (\<And>c. reserve n = Some c \<Longrightarrow> n \<le> c \<and> c < 2 ^ 63) \<Longrightarrow>
   holds m Leaf [] \<and> avl_maximum m = n"
  by (auto simp: try_with_capacity_def holds_def)

lemma vacate_from_ok:
  assumes "i \<le> length s" "chain s q [i..<length s]"
  shows "\<exists>q' s'. vacate_from i q s = (q', s') \<and> chain s' q' [0..<length s] \<and> length s' = length s"
  using assms
proof (induction i arbitrary: q s)
  case (Suc i)
  let ?s = "s[i := VacantSlot q]"
  have "chain ?s q [Suc i..<length s]"
    using chain_kept [OF Suc.prems(2) kept_put [of i "{i}"]] by simp
  then have "chain ?s (Some i) [i..<length ?s]"
    using Suc.prems(1) by (simp add: upt_conv_Cons)
  then show ?case
    using Suc.IH [of ?s "Some i"] Suc.prems(1) by simp
qed simp

lemma avl_clear_ok:
  assumes "holds m t fl"
  shows "\<exists>fl'. holds (avl_clear m) Leaf fl' \<and> avl_maximum (avl_clear m) = avl_maximum m"
proof -
  obtain q s where v: "vacate_from (length (slots m)) None (slots m) = (q, s)" "chain s q [0..<length (slots m)]" "length s = length (slots m)"
    using vacate_from_ok [of "length (slots m)" "slots m" None] by auto
  have "holds (avl_clear m) Leaf [0..<length (slots m)]"
    using v holdsD(9,10,11) [OF assms] unfolding holds_def by (simp add: avl_clear_def atLeast0LessThan)
  then show ?thesis
    by (intro exI [of _ "[0..<length (slots m)]"]) (simp add: avl_clear_def Let_def split: prod.splits)
qed

section \<open>Iteration\<close>

text \<open>What the two stacks still have to deliver, each in its own direction.\<close>

fun pending :: "('k, 'v) arena \<Rightarrow> nat list \<Rightarrow> ('k, 'v) entry list \<Rightarrow> bool" where
  "pending s [] xs \<longleftrightarrow> xs = []"
| "pending s (i # stack) xs \<longleftrightarrow>
     (\<exists>n r ys. node_at s i = Some n \<and> tree_at s (right_child n) r \<and> length stack + height r < max_avl_height \<and>
        pending s stack ys \<and> xs = (i, node_key n, node_value n) # inorder r @ ys)"

fun pending_back :: "('k, 'v) arena \<Rightarrow> nat list \<Rightarrow> ('k, 'v) entry list \<Rightarrow> bool" where
  "pending_back s [] xs \<longleftrightarrow> xs = []"
| "pending_back s (i # stack) xs \<longleftrightarrow>
     (\<exists>n l ys. node_at s i = Some n \<and> tree_at s (left_child n) l \<and> length stack + height l < max_avl_height \<and>
        pending_back s stack ys \<and> xs = (i, node_key n, node_value n) # List.rev (inorder l) @ ys)"

lemma push_left_ok:
  assumes "tree_at s q t" "pending s stack ys" "length stack + height t \<le> max_avl_height"
  shows "\<exists>stack'. push_left s q stack = Some stack' \<and> pending s stack' (inorder t @ ys)"
  using assms
proof (induction t arbitrary: q stack ys)
  case Leaf
  then show ?case
    by (simp add: push_left.simps)
next
  case (Node l x r)
  then obtain n where n: "q = Some (fst x)" "node_at s (fst x) = Some n" "snd x = (node_key n, node_value n)"
      "tree_at s (left_child n) l" "tree_at s (right_child n) r"
    by auto
  have depth: "length (fst x # stack) + height l \<le> max_avl_height"
    using Node.prems(3) by (simp add: max_def split: if_splits)
  have "x = (fst x, node_key n, node_value n)"
    using n(3) by (simp add: prod_eq_iff)
  then have st: "pending s (fst x # stack) (x # inorder r @ ys)"
    using n Node.prems(2,3) by auto
  obtain stack' where "push_left s (left_child n) (fst x # stack) = Some stack'" "pending s stack' (inorder l @ x # inorder r @ ys)"
    using Node.IH(1) [OF n(4) st] depth by auto
  then show ?case
    using n Node.prems(3) by (subst push_left.simps) simp
qed

lemma push_right_ok:
  assumes "tree_at s q t" "pending_back s stack ys" "length stack + height t \<le> max_avl_height"
  shows "\<exists>stack'. push_right s q stack = Some stack' \<and> pending_back s stack' (List.rev (inorder t) @ ys)"
  using assms
proof (induction t arbitrary: q stack ys)
  case Leaf
  then show ?case
    by (simp add: push_right.simps)
next
  case (Node l x r)
  then obtain n where n: "q = Some (fst x)" "node_at s (fst x) = Some n" "snd x = (node_key n, node_value n)"
      "tree_at s (left_child n) l" "tree_at s (right_child n) r"
    by auto
  have depth: "length (fst x # stack) + height r \<le> max_avl_height"
    using Node.prems(3) by (simp add: max_def split: if_splits)
  have "x = (fst x, node_key n, node_value n)"
    using n(3) by (simp add: prod_eq_iff)
  then have st: "pending_back s (fst x # stack) (x # List.rev (inorder l) @ ys)"
    using n Node.prems(2,3) by auto
  obtain stack' where "push_right s (right_child n) (fst x # stack) = Some stack'"
      "pending_back s stack' (List.rev (inorder r) @ x # List.rev (inorder l) @ ys)"
    using Node.IH(2) [OF n(5) st] depth by auto
  then show ?case
    using n Node.prems(3) by (subst push_right.simps) simp
qed

text \<open>
  The state of an iterator that still has \<open>zs\<close> to deliver: the front stack may also lead to entries that the
  back end delivered already, and the other way round.
\<close>

definition iter_state :: "('k, 'v) arena \<Rightarrow> Iter \<Rightarrow> ('k, 'v) entry list \<Rightarrow> bool" where
  "iter_state s it zs \<longleftrightarrow> remaining_entries it = length zs \<and>
     (\<exists>post. pending s (front_stack it) (zs @ post)) \<and> (\<exists>pre. pending_back s (back_stack it) (List.rev zs @ pre))"

lemma iter_new_ok:
  assumes "holds m t fl"
  shows "\<exists>it. iter_new m = Some it \<and> iter_state (slots m) it (inorder t)"
proof -
  have h: "length ([] :: nat list) + height t \<le> max_avl_height"
    using holds_height [OF assms] by (simp add: max_avl_height_def)
  obtain f b where "push_left (slots m) (avl_root m) [] = Some f" "pending (slots m) f (inorder t)"
      "push_right (slots m) (avl_root m) [] = Some b" "pending_back (slots m) b (List.rev (inorder t))"
    using push_left_ok [OF holdsD(1) [OF assms] _ h, of "[]"] push_right_ok [OF holdsD(1) [OF assms] _ h, of "[]"] by auto
  then show ?thesis
    using holdsD(8) [OF assms] by (auto simp: iter_new_def iter_state_def intro!: exI [of _ "[]"])
qed

lemma iter_next_ok:
  assumes "iter_state s it zs"
  shows "(zs = [] \<longrightarrow> iter_next s it = Some (None, it)) \<and>
    (\<forall>z zs'. zs = z # zs' \<longrightarrow> (\<exists>it'. iter_next s it = Some (Some (snd z), it') \<and> iter_state s it' zs'))"
proof (intro conjI impI allI)
  assume "zs = []"
  then show "iter_next s it = Some (None, it)"
    using assms by (simp add: iter_state_def iter_next_def)
next
  fix z zs'
  assume z: "zs = z # zs'"
  obtain post pre where p: "pending s (front_stack it) (z # zs' @ post)" "pending_back s (back_stack it) (List.rev zs' @ z # pre)"
    using assms by (auto simp: iter_state_def z)
  obtain i stack where f: "front_stack it = i # stack"
    using p(1) by (cases "front_stack it") auto
  obtain n r ys where n: "node_at s i = Some n" "tree_at s (right_child n) r" "length stack + height r < max_avl_height"
      "pending s stack ys" "z = (i, node_key n, node_value n)" "zs' @ post = inorder r @ ys"
    using p(1) unfolding f by auto
  obtain stack' where s: "push_left s (right_child n) stack = Some stack'" "pending s stack' (inorder r @ ys)"
    using push_left_ok [OF n(2,4)] n(3) by auto
  show "\<exists>it'. iter_next s it = Some (Some (snd z), it') \<and> iter_state s it' zs'"
    using assms f n(1,5) s p(2) n(6) z by (auto simp: iter_next_def iter_state_def intro: exI [of _ post])
qed

lemma iter_next_back_ok:
  assumes "iter_state s it zs"
  shows "(zs = [] \<longrightarrow> iter_next_back s it = Some (None, it)) \<and>
    (\<forall>z zs'. zs = zs' @ [z] \<longrightarrow> (\<exists>it'. iter_next_back s it = Some (Some (snd z), it') \<and> iter_state s it' zs'))"
proof (intro conjI impI allI)
  assume "zs = []"
  then show "iter_next_back s it = Some (None, it)"
    using assms by (simp add: iter_state_def iter_next_back_def)
next
  fix z zs'
  assume z: "zs = zs' @ [z]"
  obtain post pre where p: "pending s (front_stack it) (zs' @ z # post)" "pending_back s (back_stack it) (z # List.rev zs' @ pre)"
    using assms by (auto simp: iter_state_def z)
  obtain i stack where f: "back_stack it = i # stack"
    using p(2) by (cases "back_stack it") auto
  obtain n l ys where n: "node_at s i = Some n" "tree_at s (left_child n) l" "length stack + height l < max_avl_height"
      "pending_back s stack ys" "z = (i, node_key n, node_value n)" "List.rev zs' @ pre = List.rev (inorder l) @ ys"
    using p(2) unfolding f by auto
  obtain stack' where s: "push_right s (left_child n) stack = Some stack'" "pending_back s stack' (List.rev (inorder l) @ ys)"
    using push_right_ok [OF n(2,4)] n(3) by auto
  show "\<exists>it'. iter_next_back s it = Some (Some (snd z), it') \<and> iter_state s it' zs'"
    using assms f n(1,5) s p(1) n(6) z by (auto simp: iter_next_back_def iter_state_def intro: exI [of _ pre])
qed

end
