(* ===== verification/ArenaAvlAudit.thy ===== *)
theory ArenaAvlAudit
  imports ArenaAvlQueries
begin

text \<open>
  The structural audit of \<open>src/src/indexed_avl.rs\<close> (\<open>validate\<close>).  It is proved to accept exactly the maps that
  satisfy the invariant \<open>avl_ok\<close>, and never to panic on a map whose sizes a machine can hold.
\<close>

section \<open>The audit\<close>

fun audit_children :: "('k, 'v) arena \<Rightarrow> nat option list \<Rightarrow> nat \<Rightarrow> string + nat" where
  "audit_children s [] references = Inr references"
| "audit_children s (None # rest) references = audit_children s rest references"
| "audit_children s (Some child # rest) references =
     and_then (ok_or (list_at s child) ''indexed AVL child references an absent slot'') (\<lambda>slot.
     case slot of
       VacantSlot _ \<Rightarrow> Inl ''indexed AVL child references a vacant slot''
     | OccupiedSlot _ \<Rightarrow>
         and_then (ok_or (checked fits_usize (references + 1)) ''indexed AVL child-reference count is exhausted'')
           (audit_children s rest))"

fun audit_slots :: "('k, 'v) arena \<Rightarrow> ('k, 'v) Slot list \<Rightarrow> nat \<times> nat \<times> nat \<Rightarrow> string + nat \<times> nat \<times> nat" where
  "audit_slots s [] counts = Inr counts"
| "audit_slots s (OccupiedSlot n # rest) (occupied, vacant, references) =
     and_then (ok_or (checked fits_usize (occupied + 1)) ''indexed AVL occupied count is exhausted'') (\<lambda>occupied.
     and_then (audit_children s [left_child n, right_child n] references) (\<lambda>references.
       audit_slots s rest (occupied, vacant, references)))"
| "audit_slots s (VacantSlot _ # rest) (occupied, vacant, references) =
     and_then (ok_or (checked fits_usize (vacant + 1)) ''indexed AVL vacant count is exhausted'') (\<lambda>vacant.
       audit_slots s rest (occupied, vacant, references))"

text \<open>\<open>audit_find_index\<close>: the loop makes at most \<open>max_avl_height\<close> rounds.\<close>

fun audit_find :: "('k :: linorder, 'v) arena \<Rightarrow> 'k \<Rightarrow> nat \<Rightarrow> nat option \<Rightarrow> string + nat option" where
  "audit_find s k 0 current = Inl ''indexed AVL search exceeds the addressable height bound or contains a cycle''"
| "audit_find s k (Suc rounds) None = Inr None"
| "audit_find s k (Suc rounds) (Some i) =
     and_then (ok_or (list_at s i) ''indexed AVL child references an absent slot'') (\<lambda>slot.
     case slot of
       VacantSlot _ \<Rightarrow> Inl ''indexed AVL child references a vacant slot''
     | OccupiedSlot n \<Rightarrow>
         if k < node_key n then audit_find s k rounds (left_child n)
         else if node_key n < k then audit_find s k rounds (right_child n)
         else Inr (Some i))"

fun audit_reachable :: "('k :: linorder, 'v) IndexedAvlMap \<Rightarrow> nat \<Rightarrow> ('k, 'v) Slot list \<Rightarrow> string + unit" where
  "audit_reachable m i [] = Inr ()"
| "audit_reachable m i (VacantSlot _ # rest) = audit_reachable m (i + 1) rest"
| "audit_reachable m i (OccupiedSlot n # rest) =
     and_then (audit_find (slots m) (node_key n) max_avl_height (avl_root m)) (\<lambda>found.
     and_then (ensure (found = Some i) ''indexed AVL contains an unreachable occupied slot or duplicate key'') (\<lambda>_.
       audit_reachable m (i + 1) rest))"

text \<open>
  \<open>validate_subtree\<close>; the first argument is what is left of the height bound, \<open>MAX_AVL_HEIGHT - depth\<close>.
\<close>

fun validate_below ::
    "nat \<Rightarrow> ('k :: linorder, 'v) arena \<Rightarrow> nat \<Rightarrow> 'k option \<Rightarrow> 'k option \<Rightarrow> (string + nat \<times> nat) option" where
  "validate_below 0 s i lower upper = Some (Inl ''indexed AVL exceeds the addressable height bound'')"
| "validate_below (Suc rounds) s i lower upper =
     (case list_at s i of
        None \<Rightarrow> Some (Inl ''indexed AVL child references an absent slot'')
      | Some (VacantSlot _) \<Rightarrow> Some (Inl ''indexed AVL child references a vacant slot'')
      | Some (OccupiedSlot n) \<Rightarrow>
          if (case lower of None \<Rightarrow> False | Some b \<Rightarrow> node_key n \<le> b) \<or> (case upper of None \<Rightarrow> False | Some b \<Rightarrow> b \<le> node_key n)
          then Some (Inl ''indexed AVL violates strict key ordering'')
          else
            and_check (case left_child n of None \<Rightarrow> Some (Inr (0, 0)) | Some l \<Rightarrow> validate_below rounds s l lower (Some (node_key n)))
              (\<lambda>(left_count, left_height).
            and_check (case right_child n of None \<Rightarrow> Some (Inr (0, 0)) | Some r \<Rightarrow> validate_below rounds s r (Some (node_key n)) upper)
              (\<lambda>(right_count, right_height).
            if left_height > right_height + 1 \<or> right_height > left_height + 1
            then Some (Inl ''indexed AVL balance factor exceeds one'')
            else do {
              expected \<leftarrow> checked fits_u16 (max left_height right_height + 1);
              if node_height n \<noteq> expected then Some (Inl ''indexed AVL cached height is inconsistent'')
              else Some (and_then
                (ok_or (do { total \<leftarrow> checked fits_usize (left_count + right_count); checked fits_usize (total + 1) })
                   ''indexed AVL reachable count is exhausted'')
                (\<lambda>total. Inr (total, expected)))
            })))"

function audit_free :: "('k, 'v) arena \<Rightarrow> nat \<Rightarrow> nat \<Rightarrow> nat option \<Rightarrow> string + nat" where
  "audit_free s vacant free_count None = Inr free_count"
| "audit_free s vacant free_count (Some i) =
     (if vacant \<le> free_count then Inl ''indexed AVL free list contains a cycle''
      else case list_at s i of
        None \<Rightarrow> Inl ''indexed AVL free list references an absent slot''
      | Some (VacantSlot next_free) \<Rightarrow> audit_free s vacant (free_count + 1) next_free
      | Some (OccupiedSlot _) \<Rightarrow> Inl ''indexed AVL free list references an occupied slot'')"
  by pat_completeness auto
termination
  by (relation "measure (\<lambda>(s, vacant, free_count, current). vacant - free_count)") auto

definition avl_validate :: "('k :: linorder, 'v) IndexedAvlMap \<Rightarrow> (string + unit) option" where
  "avl_validate m =
     (if avl_maximum m < avl_length m then Some (Inl ''indexed AVL cardinality exceeds its finite bound'')
      else if avl_maximum m < length (slots m) \<or> slots_capacity m < avl_maximum m
      then Some (Inl ''indexed AVL arena capacity contradicts its finite bound'')
      else if (avl_root m = None) \<noteq> (avl_length m = 0) then Some (Inl ''indexed AVL root/length state is inconsistent'')
      else and_check (Some (audit_slots (slots m) (slots m) (0, 0, 0))) (\<lambda>(occupied, vacant, references).
        if occupied \<noteq> avl_length m then Some (Inl ''indexed AVL occupied-slot count differs from length'')
        else if references \<noteq> occupied - 1 then Some (Inl ''indexed AVL contains a cycle or duplicate child'')
        else and_check (Some (audit_reachable m 0 (slots m))) (\<lambda>_.
          and_check (case avl_root m of
              None \<Rightarrow> Some (Inr 0)
            | Some r \<Rightarrow> map_option (map_sum id fst) (validate_below max_avl_height (slots m) r None None)) (\<lambda>reachable.
          if reachable \<noteq> avl_length m then Some (Inl ''indexed AVL reachable cardinality differs from length'')
          else Some (and_then (audit_free (slots m) vacant 0 (free_head m)) (\<lambda>free_count.
            if free_count \<noteq> vacant then Inl ''indexed AVL contains an unlinked vacant slot'' else Inr ()))))))"

section \<open>What the audit counts\<close>

fun is_occupied :: "('k, 'v) Slot \<Rightarrow> bool" where
  "is_occupied (OccupiedSlot _) = True"
| "is_occupied (VacantSlot _) = False"

definition degree :: "('k, 'v) AvlNode \<Rightarrow> nat" where
  "degree n = (if left_child n = None then 0 else 1) + (if right_child n = None then 0 else 1)"

fun slot_degree :: "('k, 'v) Slot \<Rightarrow> nat" where
  "slot_degree (OccupiedSlot n) = degree n"
| "slot_degree (VacantSlot _) = 0"

definition links_ok :: "('k, 'v) arena \<Rightarrow> ('k, 'v) Slot \<Rightarrow> bool" where
  "links_ok s slot \<longleftrightarrow> (\<forall>n c. slot = OccupiedSlot n \<longrightarrow> left_child n = Some c \<or> right_child n = Some c \<longrightarrow> node_at s c \<noteq> None)"

lemma audit_slots_counts:
  "audit_slots s rest (occupied, vacant, references) = Inr (o', v', r') \<Longrightarrow>
   o' = occupied + length (filter is_occupied rest) \<and> v' = vacant + length (filter (\<lambda>x. \<not> is_occupied x) rest)"
  by (induction s rest "(occupied, vacant, references)" arbitrary: occupied vacant references rule: audit_slots.induct)
    (fastforce simp: and_then_eq_Inr ok_or_eq_Inr)+

lemma audit_child_ok:
  "node_at s c \<noteq> None \<Longrightarrow> fits_usize (references + 1) \<Longrightarrow>
   audit_children s (Some c # rest) references = audit_children s rest (references + 1)"
  by (auto simp: node_at_def checked_def split: Option.bind_splits Slot.splits)

lemma audit_children_ok:
  assumes "links_ok s (OccupiedSlot n)" "fits_usize (references + degree n)"
  shows "audit_children s [left_child n, right_child n] references = Inr (references + degree n)"
proof -
  have "fits_usize (references + 1)" if "degree n \<noteq> 0"
    using fits_u64_mono [OF assms(2)] that by simp
  moreover have "left_child n = Some c \<Longrightarrow> node_at s c \<noteq> None" "right_child n = Some c \<Longrightarrow> node_at s c \<noteq> None" for c
    using assms(1) by (auto simp: links_ok_def)
  ultimately show ?thesis
    using assms(2)
    by (cases "left_child n"; cases "right_child n") (simp_all add: audit_child_ok degree_def del: audit_children.simps(3))
qed

lemma audit_slots_ok:
  assumes "\<forall>x\<in>set rest. links_ok s x" "fits_usize (occupied + length rest)" "fits_usize (vacant + length rest)"
    "fits_usize (references + sum_list (map slot_degree rest))"
  shows "audit_slots s rest (occupied, vacant, references) =
    Inr (occupied + length (filter is_occupied rest), vacant + length (filter (\<lambda>x. \<not> is_occupied x) rest),
         references + sum_list (map slot_degree rest))"
  using assms
proof (induction rest arbitrary: occupied vacant references)
  case (Cons slot rest)
  have fit: "fits_usize (occupied + 1)" "fits_usize (vacant + 1)"
    using fits_u64_mono [OF Cons.prems(2)] fits_u64_mono [OF Cons.prems(3)] by simp_all
  show ?case
  proof (cases slot)
    case (OccupiedSlot n)
    have "audit_children s [left_child n, right_child n] references = Inr (references + degree n)"
      using Cons.prems(1) fits_u64_mono [OF Cons.prems(4), of "references + degree n"] by (intro audit_children_ok) (auto simp: OccupiedSlot)
    then show ?thesis
      using Cons.IH [of "occupied + 1" vacant "references + degree n"] Cons.prems fit fits_u64_mono [OF Cons.prems(3), of "vacant + length rest"]
      by (simp add: OccupiedSlot checked_def add.assoc)
  next
    case (VacantSlot q)
    then show ?thesis
      using Cons.IH [of occupied "vacant + 1" references] Cons.prems fit fits_u64_mono [OF Cons.prems(2), of "occupied + length rest"]
      by (simp add: checked_def)
  qed
qed simp

section \<open>The search and the subtree check\<close>

lemma occupied_at: "node_at s i = Some n \<Longrightarrow> list_at s i = Some (OccupiedSlot n)"
  by (simp add: node_at_Some list_at_def)

lemma audit_find_ok:
  assumes "tree_at s q t" "ascending t" "x \<in> set_tree t" "height t < rounds"
  shows "audit_find s (key_of x) rounds q = Inr (Some (fst x))"
  using assms
proof (induction t arbitrary: q rounds)
  case (Node l y r)
  obtain n where n: "q = Some (fst y)" "node_at s (fst y) = Some n" "node_key n = key_of y"
      "tree_at s (left_child n) l" "tree_at s (right_child n) r"
    using Node.prems(1) by (auto simp: key_of_def)
  obtain k where k: "rounds = Suc k" "height l < k" "height r < k"
    using Node.prems(4) by (cases rounds) auto
  have asc: "z \<in> set_tree l \<Longrightarrow> key_of z < key_of y" "z \<in> set_tree r \<Longrightarrow> key_of y < key_of z" for z
    using Node.prems(2) by auto
  consider "x \<in> set_tree l" | "x \<in> set_tree r" | "x = y"
    using Node.prems(3) by auto
  then show ?case
  proof cases
    case 1
    then show ?thesis
      using Node.IH(1) [OF n(4) _ 1 k(2)] Node.prems(2) asc(1) [OF 1] n occupied_at [OF n(2)] k(1) by simp
  next
    case 2
    then show ?thesis
      using Node.IH(2) [OF n(5) _ 2 k(3)] Node.prems(2) asc(2) [OF 2] n occupied_at [OF n(2)] k(1) less_not_sym [OF asc(2) [OF 2]] by simp
  next
    case 3
    then show ?thesis
      using n occupied_at [OF n(2)] k(1) by simp
  qed
qed simp

definition within :: "'k :: linorder option \<Rightarrow> 'k option \<Rightarrow> 'k \<Rightarrow> bool" where
  "within lower upper k \<longleftrightarrow> (\<forall>b. lower = Some b \<longrightarrow> b < k) \<and> (\<forall>b. upper = Some b \<longrightarrow> k < b)"

lemma validate_below_complete:
  assumes "tree_at s (Some i) t" "ascending t" "avl t" "\<forall>x\<in>set_tree t. within lower upper (key_of x)" "height t \<le> rounds"
    "height t < 60000" "fits_usize (size t)"
  shows "validate_below rounds s i lower upper = Some (Inr (size t, height t))"
  using assms
proof (induction t arbitrary: i lower upper rounds)
  case (Node l x r)
  obtain n where n: "i = fst x" "node_at s (fst x) = Some n" "node_key n = key_of x" "node_height n = max (height l) (height r) + 1"
      "tree_at s (left_child n) l" "tree_at s (right_child n) r"
    using Node.prems(1) by (auto simp: key_of_def)
  obtain k where k: "rounds = Suc k" "height l \<le> k" "height r \<le> k"
    using Node.prems(5) by (cases rounds) auto
  have asc: "ascending l" "ascending r" "\<And>z. z \<in> set_tree l \<Longrightarrow> key_of z < key_of x" "\<And>z. z \<in> set_tree r \<Longrightarrow> key_of x < key_of z"
    using Node.prems(2) by auto
  have fit: "fits_usize (size l)" "fits_usize (size r)" "fits_usize (size l + size r)" "fits_usize (size l + size r + 1)"
    using fits_u64_mono [OF Node.prems(7)] Node.prems(7) by simp_all
  have h: "height l < 60000" "height r < 60000"
    using Node.prems(6) by auto
  have bounds: "\<forall>z\<in>set_tree l. within lower (Some (key_of x)) (key_of z)" "\<forall>z\<in>set_tree r. within (Some (key_of x)) upper (key_of z)"
      "within lower upper (key_of x)"
    using Node.prems(4) asc(3,4) by (auto simp: within_def)
  have left: "(case left_child n of None \<Rightarrow> Some (Inr (0, 0)) | Some j \<Rightarrow> validate_below k s j lower (Some (node_key n))) = Some (Inr (size l, height l))"
    using n(3,5) Node.IH(1) [OF _ asc(1) _ bounds(1) k(2) h(1) fit(1)] Node.prems(3) by (cases l) auto
  have right: "(case right_child n of None \<Rightarrow> Some (Inr (0, 0)) | Some j \<Rightarrow> validate_below k s j (Some (node_key n)) upper) = Some (Inr (size r, height r))"
    using n(3,6) Node.IH(2) [OF _ asc(2) _ bounds(2) k(3) h(2) fit(2)] Node.prems(3) by (cases r) auto
  have order: "\<not> ((case lower of None \<Rightarrow> False | Some b \<Rightarrow> node_key n \<le> b) \<or> (case upper of None \<Rightarrow> False | Some b \<Rightarrow> b \<le> node_key n))"
    using bounds(3) n(3) by (auto simp: within_def not_le split: option.splits)
  have "checked fits_u16 (max (height l) (height r) + 1) = Some (max (height l) (height r) + 1)"
    using h by (simp add: checked_def fits_u16_def)
  then show ?case
    using n(1,4) occupied_at [OF n(2)] Node.prems(3) fit left right order unfolding k(1)
    by (simp add: and_check_def checked_def del: de_Morgan_disj)
qed simp

lemma validate_below_sound:
  assumes "validate_below rounds s i lower upper = Some (Inr (nodes, h))"
  shows "\<exists>t. tree_at s (Some i) t \<and> avl t \<and> ascending t \<and> h = height t \<and> nodes = size t \<and>
    (\<forall>x\<in>set_tree t. within lower upper (key_of x))"
  using assms
proof (induction rounds arbitrary: i lower upper nodes h)
  case (Suc rounds)
  obtain n where n: "list_at s i = Some (OccupiedSlot n)"
    using Suc.prems by (auto split: option.splits Slot.splits)
  obtain lc lh rc rh where v: "within lower upper (node_key n)"
    and l: "(case left_child n of None \<Rightarrow> Some (Inr (0, 0)) | Some j \<Rightarrow> validate_below rounds s j lower (Some (node_key n))) = Some (Inr (lc, lh))"
    and r: "(case right_child n of None \<Rightarrow> Some (Inr (0, 0)) | Some j \<Rightarrow> validate_below rounds s j (Some (node_key n)) upper) = Some (Inr (rc, rh))"
    and b: "lh \<le> rh + 1" "rh \<le> lh + 1" "node_height n = max lh rh + 1" "h = max lh rh + 1" "nodes = lc + rc + 1"
    using Suc.prems n
    by (auto simp: and_check_Inr within_def and_then_eq_Inr ok_or_eq_Inr not_le split: if_splits option.splits Option.bind_splits)
  have "\<exists>t. tree_at s (left_child n) t \<and> avl t \<and> ascending t \<and> lh = height t \<and> lc = size t \<and>
      (\<forall>x\<in>set_tree t. within lower (Some (node_key n)) (key_of x))"
  proof (cases "left_child n")
    case None
    then show ?thesis
      using l by (intro exI [of _ Leaf]) simp
  next
    case (Some j)
    then show ?thesis
      using l Suc.IH [of j lower "Some (node_key n)" lc lh] by simp
  qed
  then obtain tl where tl: "tree_at s (left_child n) tl" "avl tl" "ascending tl" "lh = height tl" "lc = size tl"
      "\<forall>x\<in>set_tree tl. within lower (Some (node_key n)) (key_of x)"
    by blast
  have "\<exists>t. tree_at s (right_child n) t \<and> avl t \<and> ascending t \<and> rh = height t \<and> rc = size t \<and>
      (\<forall>x\<in>set_tree t. within (Some (node_key n)) upper (key_of x))"
  proof (cases "right_child n")
    case None
    then show ?thesis
      using r by (intro exI [of _ Leaf]) simp
  next
    case (Some j)
    then show ?thesis
      using r Suc.IH [of j "Some (node_key n)" upper rc rh] by simp
  qed
  then obtain tr where tr: "tree_at s (right_child n) tr" "avl tr" "ascending tr" "rh = height tr" "rc = size tr"
      "\<forall>x\<in>set_tree tr. within (Some (node_key n)) upper (key_of x)"
    by blast
  have "node_at s i = Some n"
    using n by (simp add: node_at_def)
  then have "tree_at s (Some i) (Node tl (i, node_key n, node_value n) tr)"
    using tl(1,4) tr(1,4) b(3) by simp
  moreover have "ascending (Node tl (i, node_key n, node_value n) tr)"
    using tl(3,6) tr(3,6) by (simp add: within_def)
  moreover have "\<forall>x\<in>set_tree (Node tl (i, node_key n, node_value n) tr). within lower upper (key_of x)"
    using tl(6) tr(6) v by (auto simp: within_def dest: less_trans)
  ultimately show ?case
    using tl tr b by (intro exI [of _ "Node tl (i, node_key n, node_value n) tr"]) simp
qed simp

section \<open>The free list\<close>

lemma audit_free_ok: "chain s q fl \<Longrightarrow> free_count + length fl \<le> vacant \<Longrightarrow> audit_free s vacant free_count q = Inr (free_count + length fl)"
  by (induction fl arbitrary: q free_count) (auto simp: list_at_def)

lemma audit_free_sound: "audit_free s vacant free_count q = Inr c \<Longrightarrow> \<exists>fl. chain s q fl \<and> c = free_count + length fl"
proof (induction s vacant free_count q rule: audit_free.induct)
  case (1 s vacant free_count)
  then show ?case
    by (intro exI [of _ "[]"]) simp
next
  case (2 s vacant free_count i)
  then obtain next_free where n: "\<not> vacant \<le> free_count" "list_at s i = Some (VacantSlot next_free)"
      "audit_free s vacant (free_count + 1) next_free = Inr c"
    by (auto split: if_splits option.splits Slot.splits)
  then obtain fl where "chain s next_free fl" "c = free_count + 1 + length fl"
    using 2 by blast
  then show ?case
    using n(2) by (intro exI [of _ "i # fl"]) (auto simp: list_at_def split: if_splits)
qed

lemma chain_functional: "chain s q fl \<Longrightarrow> chain s q fl' \<Longrightarrow> fl = fl'"
proof (induction fl arbitrary: q fl')
  case Nil
  then show ?case
    by (cases fl') auto
next
  case (Cons i fl)
  then show ?case
    by (cases fl') auto
qed

lemma chain_suffix: "chain s q (xs @ ys) \<Longrightarrow> \<exists>q'. chain s q' ys"
  by (induction xs arbitrary: q) auto

lemma chain_distinct: "chain s q fl \<Longrightarrow> distinct fl"
proof (induction fl arbitrary: q)
  case (Cons i fl)
  have "i \<notin> set fl"
  proof
    assume "i \<in> set fl"
    then obtain xs ys where fl: "fl = xs @ i # ys"
      by (auto simp: in_set_conv_decomp)
    then obtain q' where "chain s q' (i # ys)"
      using chain_suffix [of s q "i # xs" "i # ys"] Cons.prems by auto
    then have "i # fl = i # ys"
      using chain_functional [OF Cons.prems, of "i # ys"] Cons.prems by simp
    then show False
      using fl by simp
  qed
  then show ?case
    using Cons by auto
qed simp

section \<open>Acceptance\<close>

lemma tree_degrees:
  "tree_at s q t \<Longrightarrow> separate t \<Longrightarrow> (\<Sum>i\<in>slots_of t. slot_degree (s ! i)) + (if t = Leaf then 0 else 1) = size t"
proof (induction t arbitrary: q)
  case (Node l x r)
  then obtain n where n: "node_at s (fst x) = Some n" "tree_at s (left_child n) l" "tree_at s (right_child n) r"
    by auto
  have d: "degree n = (if l = Leaf then 0 else 1) + (if r = Leaf then 0 else 1)"
    using n(2,3) by (cases l; cases r) (auto simp: degree_def)
  have "(\<Sum>i\<in>slots_of (Node l x r). slot_degree (s ! i)) = degree n + (\<Sum>i\<in>slots_of l. slot_degree (s ! i)) + (\<Sum>i\<in>slots_of r. slot_degree (s ! i))"
    using Node.prems(2) n(1) by (simp add: sum.union_disjoint node_at_Some)
  then show ?case
    using Node.IH(1) [OF n(2)] Node.IH(2) [OF n(3)] Node.prems(2) d by simp
qed simp

lemma tree_links: "tree_at s q t \<Longrightarrow> i \<in> slots_of t \<Longrightarrow> links_ok s (s ! i)"
proof (induction t arbitrary: q)
  case (Node l x r)
  then obtain n where n: "node_at s (fst x) = Some n" "tree_at s (left_child n) l" "tree_at s (right_child n) r"
    by auto
  have "links_ok s (OccupiedSlot n)"
    using n(2,3) by (cases l; cases r) (auto simp: links_ok_def)
  then show ?case
    using Node n by (auto simp: node_at_Some)
qed simp

lemma occupied_slots:
  assumes "holds m t fl" "i < length (slots m)"
  shows "is_occupied (slots m ! i) \<longleftrightarrow> i \<in> slots_of t"
proof
  assume "i \<in> slots_of t"
  then show "is_occupied (slots m ! i)"
    using tree_at_slots [OF holdsD(1) [OF assms(1)], of i] by (auto simp: node_at_Some)
next
  assume "is_occupied (slots m ! i)"
  then have "i \<notin> set fl"
    using chain_vacant [OF holdsD(5) [OF assms(1)], of i] by auto
  then show "i \<in> slots_of t"
    using holdsD(7) [OF assms(1)] assms(2) by blast
qed

lemma length_occupied: "holds m t fl \<Longrightarrow> length (filter is_occupied (slots m)) = size t"
proof -
  assume h: "holds m t fl"
  have "{i. i < length (slots m) \<and> is_occupied (slots m ! i)} = slots_of t"
    using occupied_slots [OF h] holdsD(7) [OF h] by blast
  then show ?thesis
    by (simp add: length_filter_conv_card card_slots [OF holdsD(2) [OF h]])
qed

lemma degrees_total:
  assumes h: "holds m t fl"
  shows "sum_list (map slot_degree (slots m)) = size t - 1"
proof -
  have "sum_list (map slot_degree (slots m)) = (\<Sum>i<length (slots m). slot_degree (slots m ! i))"
    by (simp add: sum_list_sum_nth atLeast0LessThan)
  also have "\<dots> = (\<Sum>i\<in>slots_of t \<union> set fl. slot_degree (slots m ! i))"
    using holdsD(7) [OF h] by simp
  also have "\<dots> = (\<Sum>i\<in>slots_of t. slot_degree (slots m ! i))"
    by (rule sum.mono_neutral_right) (use chain_vacant [OF holdsD(5) [OF h]] in fastforce)+
  also have "\<dots> = size t - 1"
    using tree_degrees [OF holdsD(1,2) [OF h]] by (cases t) auto
  finally show ?thesis .
qed

lemma audit_reachable_ok:
  assumes "\<And>j n. j < length rest \<Longrightarrow> rest ! j = OccupiedSlot n \<Longrightarrow>
      audit_find (slots m) (node_key n) max_avl_height (avl_root m) = Inr (Some (i + j))"
  shows "audit_reachable m i rest = Inr ()"
  using assms
proof (induction m i rest rule: audit_reachable.induct)
  case (2 m i q rest)
  have "audit_reachable m (i + 1) rest = Inr ()"
    by (rule 2(1)) (use 2(2) [of "Suc j" for j] in auto)
  then show ?case
    by simp
next
  case (3 m i n rest)
  have "audit_reachable m (i + 1) rest = Inr ()"
    by (rule 3(1)) (use 3(2) [of 0] 3(2) [of "Suc j" for j] in auto)
  then show ?case
    using 3(2) [of 0 n] by simp
qed simp

lemma avl_validate_complete:
  assumes h: "holds m t fl"
  shows "avl_validate m = Some (Inr ())"
proof -
  note len = holds_length [OF h]
  have fit: "fits_usize (0 + length (slots m))" "fits_usize (0 + sum_list (map slot_degree (slots m)))" "fits_usize (size t)"
    using holdsD(9-11) [OF h] len degrees_total [OF h] by (simp_all add: fits_u64_def)
  have "\<forall>x\<in>set (slots m). links_ok (slots m) x"
  proof
    fix x
    assume "x \<in> set (slots m)"
    then obtain i where i: "i < length (slots m)" "slots m ! i = x"
      by (auto simp: in_set_conv_nth)
    then show "links_ok (slots m) x"
      using tree_links [OF holdsD(1) [OF h], of i] occupied_slots [OF h i(1)] by (cases x) (auto simp: links_ok_def)
  qed
  then have counts: "audit_slots (slots m) (slots m) (0, 0, 0) = Inr (size t, length fl, size t - 1)"
    using audit_slots_ok [of "slots m" "slots m" 0 0 0] fit(1,2) length_occupied [OF h] degrees_total [OF h]
      sum_length_filter_compl [of is_occupied "slots m"] len by simp
  have reach: "audit_reachable m 0 (slots m) = Inr ()"
  proof (rule audit_reachable_ok)
    fix j n
    assume j: "j < length (slots m)" "slots m ! j = OccupiedSlot n"
    then have "j \<in> slots_of t"
      using occupied_slots [OF h j(1)] by simp
    then obtain x where x: "x \<in> set_tree t" "fst x = j"
      by (auto simp: slots_of_def)
    then have "key_of x = node_key n"
      using entry_at [OF holdsD(1) [OF h] x(1)] j by (auto simp: node_at_Some key_of_def prod_eq_iff)
    then show "audit_find (slots m) (node_key n) max_avl_height (avl_root m) = Inr (Some (0 + j))"
      using audit_find_ok [OF holdsD(1,3) [OF h] x(1), of max_avl_height] x(2) holds_height [OF h] by (simp add: max_avl_height_def)
  qed
  have tree: "(case avl_root m of None \<Rightarrow> Some (Inr 0)
      | Some r \<Rightarrow> map_option (map_sum id fst) (validate_below max_avl_height (slots m) r None None)) = Some (Inr (size t))"
  proof (cases "avl_root m")
    case None
    then show ?thesis
      using root_None [OF h] by simp
  next
    case (Some r)
    then have "validate_below max_avl_height (slots m) r None None = Some (Inr (size t, height t))"
      using validate_below_complete [of "slots m" r t None None max_avl_height] holdsD(1,3,4) [OF h] holds_height [OF h] fit(3)
      by (simp add: within_def max_avl_height_def)
    then show ?thesis
      using Some by simp
  qed
  have free: "audit_free (slots m) (length fl) 0 (free_head m) = Inr (length fl)"
    using audit_free_ok [OF holdsD(5) [OF h], of 0 "length fl"] by simp
  show ?thesis
    using holdsD(8,9,10) [OF h] len counts reach tree free root_None [OF h]
    by (simp add: avl_validate_def and_check_def)
qed

lemma avl_validate_sound:
  assumes v: "avl_validate m = Some (Inr ())" and cap: "slots_capacity m < 2 ^ 63"
  shows "avl_ok m"
proof -
  obtain vac refs where c: "avl_length m \<le> avl_maximum m" "length (slots m) \<le> avl_maximum m" "avl_maximum m \<le> slots_capacity m"
      "audit_slots (slots m) (slots m) (0, 0, 0) = Inr (avl_length m, vac, refs)"
    and tree: "(case avl_root m of None \<Rightarrow> Some (Inr 0)
      | Some r \<Rightarrow> map_option (map_sum id fst) (validate_below max_avl_height (slots m) r None None)) = Some (Inr (avl_length m))"
    and free: "audit_free (slots m) vac 0 (free_head m) = Inr vac"
    using v unfolding avl_validate_def
    by (auto simp: and_check_Inr and_then_eq_Inr not_less split: if_splits prod.splits)
  have "\<exists>t. tree_at (slots m) (avl_root m) t \<and> avl t \<and> ascending t \<and> size t = avl_length m"
  proof (cases "avl_root m")
    case None
    then show ?thesis
      using tree by (intro exI [of _ Leaf]) simp
  next
    case (Some r)
    then obtain h where "validate_below max_avl_height (slots m) r None None = Some (Inr (avl_length m, h))"
      using tree by (auto simp: map_sum_eq_Inr)
    then show ?thesis
      using validate_below_sound [of max_avl_height "slots m" r None None "avl_length m" h] Some by auto
  qed
  then obtain t where t: "tree_at (slots m) (avl_root m) t" "avl t" "ascending t" "size t = avl_length m"
    by blast
  have sep: "separate t"
  proof -
    have "map key_of (inorder t) = map (\<lambda>i. node_key (the (node_at (slots m) i))) (map fst (inorder t))"
    proof (unfold map_map, rule map_cong)
      fix x
      assume "x \<in> set (inorder t)"
      then show "key_of x = ((\<lambda>i. node_key (the (node_at (slots m) i))) \<circ> fst) x"
        using tree_at_node [OF t(1), of x] by (auto simp: key_of_def)
    qed simp
    moreover have "distinct (map key_of (inorder t))"
      using t(3) by (simp add: ascending_def strict_sorted_iff)
    ultimately show ?thesis
      unfolding separate_iff by (metis distinct_map)
  qed
  obtain fl where fl: "chain (slots m) (free_head m) fl" "vac = length fl"
    using audit_free_sound [OF free] by auto
  note counts = audit_slots_counts [OF c(4)]
  have sub: "slots_of t \<subseteq> {i. i < length (slots m) \<and> is_occupied (slots m ! i)}"
    by (rule subsetI, drule tree_at_slots [OF t(1)]) (auto simp: node_at_Some)
  have "card {i. i < length (slots m) \<and> is_occupied (slots m ! i)} = card (slots_of t)"
    using counts card_slots [OF sep] t(4) by (simp add: length_filter_conv_card)
  then have occ: "slots_of t = {i. i < length (slots m) \<and> is_occupied (slots m ! i)}"
    using sub by (intro card_subset_eq) auto
  have subv: "set fl \<subseteq> {i. i < length (slots m) \<and> \<not> is_occupied (slots m ! i)}"
    by (rule subsetI, drule chain_vacant [OF fl(1)]) auto
  have "card {i. i < length (slots m) \<and> \<not> is_occupied (slots m ! i)} = card (set fl)"
    using counts fl(2) distinct_card [OF chain_distinct [OF fl(1)]] by (simp add: length_filter_conv_card)
  then have vac: "set fl = {i. i < length (slots m) \<and> \<not> is_occupied (slots m ! i)}"
    using subv by (intro card_subset_eq) auto
  have "holds m t fl"
    unfolding holds_def
    using t sep fl(1) chain_distinct [OF fl(1)] c(1-3) cap occ vac by auto
  then show ?thesis
    by (auto simp: avl_ok_def)
qed

end
