(* ===== verification/ArenaAvlProperties.thy ===== *)
theory ArenaAvlProperties
  imports ArenaAvlAudit
begin

text \<open>
  The properties of the arena map, and its use as the ordered index of the order book: the locale
  \<open>ordered_index\<close> is interpreted on it.
\<close>

section \<open>The interface of the ordered index\<close>

text \<open>The operations in the form of the locale; the properties below show that the panics they hide do not occur.\<close>

definition avl_lookup :: "('k :: linorder, 'v) IndexedAvlMap \<Rightarrow> 'k \<Rightarrow> 'v option" where
  "avl_lookup m k = (case avl_get m k of None \<Rightarrow> None | Some found \<Rightarrow> found)"

definition avl_without :: "('k :: linorder, 'v) IndexedAvlMap \<Rightarrow> 'k \<Rightarrow> 'v option \<times> ('k, 'v) IndexedAvlMap" where
  "avl_without m k = (case avl_remove m k of None \<Rightarrow> (None, m) | Some r \<Rightarrow> r)"

definition avl_extremum :: "Side \<Rightarrow> ('k :: linorder, 'v) IndexedAvlMap \<Rightarrow> ('k \<times> 'v) option" where
  "avl_extremum side m = (case (case side of Buy \<Rightarrow> avl_last m | Sell \<Rightarrow> avl_first m) of None \<Rightarrow> None | Some e \<Rightarrow> map_option snd e)"

lemma represents_ok:
  assumes "represents_index m x"
  shows "avl_ok m" "index_ok x"
  using assms unfolding represents_index_def avl_ok_def index_ok_def
  by (auto dest: entries_sorted [OF holdsD(3)] holds_length simp: entries_of_def)
    (metis holdsD(9) holds_length le_add1 le_trans)

lemma ok_represents: "avl_ok m \<Longrightarrow> \<exists>x. represents_index m x"
  unfolding avl_ok_def represents_index_def by (metis Index.select_convs(1,2))

lemma represents_get: "represents_index m x \<Longrightarrow> avl_get m k = Some (index_get x k)"
  by (auto simp: represents_index_def index_get_def avl_get_ok)

lemma represents_len: "represents_index m x \<Longrightarrow> avl_length m = index_len x"
  using holdsD(8) by (auto simp: represents_index_def index_len_def)

lemma represents_insert:
  assumes "represents_index m x"
  shows "case index_insert x k v of
      None \<Rightarrow> avl_insert m k v = None
    | Some (old, x') \<Rightarrow> \<exists>m'. avl_insert m k v = Some (old, m') \<and> represents_index m' x'"
proof -
  obtain t fl where h: "holds m t fl" "index_entries x = entries_of t" "index_maximum x = avl_maximum m"
    using assms by (auto simp: represents_index_def)
  show ?thesis
  proof (cases "map_of (entries_of t) k \<noteq> None \<or> avl_length m < avl_maximum m")
    case True
    then obtain i m' t' fl' where i: "avl_insert_with_handle m k v = Some (i, map_of (entries_of t) k, m')" "holds m' t' fl'"
        "entries_of t' = put_entry k v (entries_of t)" "avl_maximum m' = avl_maximum m"
      using avl_insert_ok [OF h(1), of k v] by blast
    then have "represents_index m' (x\<lparr>index_entries := put_entry k v (index_entries x)\<rparr>)"
      using h by (auto simp: represents_index_def)
    then show ?thesis
      using True i h represents_len [OF assms] by (auto simp: index_insert_def index_get_def avl_insert_def)
  next
    case False
    then show ?thesis
      using avl_insert_ok [OF h(1), of k v] h represents_len [OF assms] by (simp add: index_insert_def index_get_def avl_insert_def)
  qed
qed

lemma represents_remove:
  assumes "represents_index m x"
  shows "\<exists>m'. avl_remove m k = Some (index_get x k, m') \<and> represents_index m' (snd (index_remove x k))"
proof -
  obtain t fl where h: "holds m t fl" "index_entries x = entries_of t" "index_maximum x = avl_maximum m"
    using assms by (auto simp: represents_index_def)
  obtain m' t' fl' where "avl_remove m k = Some (map_of (entries_of t) k, m')" "holds m' t' fl'" "avl_maximum m' = avl_maximum m"
      "entries_of t' = drop_entry k (entries_of t)"
    using avl_remove_ok [OF h(1), of k] by blast
  then show ?thesis
    using h by (auto simp: represents_index_def index_remove_def index_get_def)
qed

lemma represents_ends:
  assumes "represents_index m x"
  shows "map_option (map_option snd) (avl_first m) = Some (index_first x)" "map_option (map_option snd) (avl_last m) = Some (index_last x)"
proof -
  obtain t fl where h: "holds m t fl" "index_entries x = entries_of t"
    using assms by (auto simp: represents_index_def)
  have "index_first x = (if t = Leaf then None else Some (snd (hd (inorder t))))"
    using h(2) by (cases "inorder t") (auto simp: index_first_def entries_of_def)
  moreover have "index_last x = (if t = Leaf then None else Some (snd (List.last (inorder t))))"
    using h(2) by (auto simp: index_last_def entries_of_def last_map)
  ultimately show "map_option (map_option snd) (avl_first m) = Some (index_first x)"
      "map_option (map_option snd) (avl_last m) = Some (index_last x)"
    using avl_first_ok [OF h(1)] avl_last_ok [OF h(1)] by simp_all
qed

lemma represents_neighbours:
  assumes "represents_index m x"
  shows "avl_successor_key m k = Some (index_successor x k)" "avl_predecessor_key m k = Some (index_predecessor x k)"
  using assms successor_key_ok predecessor_key_ok by (auto simp: represents_index_def index_successor_def index_predecessor_def)

lemma represents_clear: "represents_index m x \<Longrightarrow> represents_index (avl_clear m) (index_new (index_maximum x))"
  unfolding represents_index_def using avl_clear_ok by (fastforce simp: index_new_def entries_of_def)

lemma represents_capacity: "represents_index m x \<Longrightarrow> has_insertion_capacity m \<longleftrightarrow> index_len x < index_maximum x"
  using represents_len [of m x] by (auto simp: represents_index_def capacity_iff)

lemma represents_new:
  "try_with_capacity reserve n = Some m \<Longrightarrow> (\<And>c. reserve n = Some c \<Longrightarrow> n \<le> c \<and> c < 2 ^ 63) \<Longrightarrow> represents_index m (index_new n)"
  using try_with_capacity_ok [of reserve n m] by (fastforce simp: represents_index_def index_new_def entries_of_def)

interpretation arena: ordered_index avl_ok avl_lookup avl_insert avl_without avl_extremum
proof
  fix m :: "('k :: linorder, 'v) IndexedAvlMap" and k v old m'
  assume ok: "avl_ok m" and i: "avl_insert m k v = Some (old, m')"
  obtain x where x: "represents_index m x"
    using ok_represents [OF ok] by blast
  obtain x' where x': "index_insert x k v = Some (old, x')" "represents_index m' x'"
    using represents_insert [OF x, of k v] i by (auto split: option.splits prod.splits)
  show "avl_ok m' \<and> old = avl_lookup m k \<and> avl_lookup m' = (avl_lookup m)(k \<mapsto> v)"
    using li.insert_law [OF represents_ok(2) [OF x] x'(1)] represents_ok(1) [OF x'(2)] represents_get [OF x] represents_get [OF x'(2)]
    by (auto simp: avl_lookup_def fun_eq_iff)
next
  fix m :: "('k :: linorder, 'v) IndexedAvlMap" and k old m'
  assume ok: "avl_ok m" and r: "avl_without m k = (old, m')"
  obtain x where x: "represents_index m x"
    using ok_represents [OF ok] by blast
  have x': "old = index_get x k" "represents_index m' (snd (index_remove x k))"
    using represents_remove [OF x, of k] r by (auto simp: avl_without_def)
  show "avl_ok m' \<and> old = avl_lookup m k \<and> avl_lookup m' = (avl_lookup m)(k := None)"
    using li.remove_law [OF represents_ok(2) [OF x], of k "fst (index_remove x k)" "snd (index_remove x k)"] x'(1)
      represents_ok(1) [OF x'(2)] represents_get [OF x] represents_get [OF x'(2)]
    by (auto simp: avl_lookup_def fun_eq_iff index_remove_def)
next
  fix m :: "('k :: linorder, 'v) IndexedAvlMap" and side k v
  assume ok: "avl_ok m"
  obtain x where x: "represents_index m x"
    using ok_represents [OF ok] by blast
  have e: "avl_extremum side m = index_extremum side x"
    using represents_ends [OF x] by (cases side) (auto simp: avl_extremum_def index_extremum_def)
  have g: "avl_lookup m = index_get x"
    using represents_get [OF x] by (simp add: avl_lookup_def fun_eq_iff)
  show "avl_extremum side m = Some (k, v) \<longleftrightarrow> avl_lookup m k = Some v \<and> (\<forall>k'. avl_lookup m k' \<noteq> None \<longrightarrow> \<not> better side k' k)"
    unfolding e g by (rule li.extremum_law [OF represents_ok(2) [OF x]])
next
  fix m :: "('k :: linorder, 'v) IndexedAvlMap" and side k
  assume ok: "avl_ok m" and n: "avl_extremum side m = None"
  obtain x where x: "represents_index m x"
    using ok_represents [OF ok] by blast
  have "index_extremum side x = None"
    using represents_ends [OF x] n by (cases side) (auto simp: avl_extremum_def index_extremum_def)
  then show "avl_lookup m k = None"
    using li.extremum_empty [OF represents_ok(2) [OF x]] represents_get [OF x] by (simp add: avl_lookup_def)
qed

section \<open>Properties\<close>

text \<open>
  C28. On every map that represents an ordered index, lookup, insertion, removal, extrema, neighbours, length,
  capacity and clearing return without a panic what the index says, and leave a map that represents the index
  that results; inserting a new key panics exactly if the index is full.
\<close>

theorem avl_refines_index:
  assumes "represents_index m x"
  shows "avl_get m k = Some (index_get x k) \<and>
    (case index_insert x k v of
        None \<Rightarrow> avl_insert m k v = None
      | Some (old, x') \<Rightarrow> \<exists>m'. avl_insert m k v = Some (old, m') \<and> represents_index m' x') \<and>
    (\<exists>m'. avl_remove m k = Some (index_get x k, m') \<and> represents_index m' (snd (index_remove x k))) \<and>
    map_option (map_option snd) (avl_first m) = Some (index_first x) \<and>
    map_option (map_option snd) (avl_last m) = Some (index_last x) \<and>
    avl_successor_key m k = Some (index_successor x k) \<and> avl_predecessor_key m k = Some (index_predecessor x k) \<and>
    avl_length m = index_len x \<and> (has_insertion_capacity m \<longleftrightarrow> index_len x < index_maximum x) \<and>
    represents_index (avl_clear m) (index_new (index_maximum x))"
  by (intro conjI represents_get represents_insert represents_remove represents_ends represents_neighbours represents_len
      represents_capacity represents_clear assms)

definition sample_avl :: "(nat, nat) IndexedAvlMap" where
  "sample_avl = \<lparr>avl_root = None, slots = [], free_head = None, avl_length = 0, avl_maximum = 3, slots_capacity = 4\<rparr>"

lemma sample_avl_new: "try_with_capacity (\<lambda>n. Some (n + 1)) 3 = Some sample_avl"
  by (simp add: try_with_capacity_def sample_avl_def)

lemma sample_avl_represents: "represents_index sample_avl (index_new 3)"
  by (rule represents_new [OF sample_avl_new]) simp

theorem avl_refines_index_witness:
  "\<exists>m. avl_insert sample_avl 5 50 = Some (None, m) \<and> represents_index m \<lparr>index_entries = [(5, 50)], index_maximum = 3\<rparr> \<and>
     avl_get sample_avl 5 = Some None"
proof -
  note r = avl_refines_index [OF sample_avl_represents, of 5 50]
  show ?thesis
    using r by (simp add: index_insert_def index_new_def index_get_def index_len_def)
qed

text \<open>
  C29. The structural audit accepts a map whose allocation fits the machine if and only if the map satisfies the
  invariant: a balanced search tree with exact cached heights over the occupied slots, every other slot in the
  free list, and the recorded length and bounds.
\<close>

theorem avl_validate_iff:
  assumes "slots_capacity m < 2 ^ 63"
  shows "avl_validate m = Some (Inr ()) \<longleftrightarrow> avl_ok m"
  using avl_validate_sound [OF _ assms] avl_validate_complete unfolding avl_ok_def by blast

theorem avl_validate_iff_witness: "avl_ok sample_avl \<and> avl_validate (sample_avl\<lparr>avl_length := 1\<rparr>) \<noteq> Some (Inr ()) \<and>
    \<not> avl_ok (sample_avl\<lparr>avl_length := 1\<rparr>)"
proof -
  have ok: "avl_validate sample_avl = Some (Inr ())"
    by (simp add: avl_validate_def sample_avl_def and_check_def)
  have bad: "avl_validate (sample_avl\<lparr>avl_length := 1\<rparr>) \<noteq> Some (Inr ())"
    by (simp add: avl_validate_def sample_avl_def)
  show ?thesis
    using ok bad avl_validate_iff [of sample_avl] avl_validate_iff [of "sample_avl\<lparr>avl_length := 1\<rparr>"]
    by (simp add: sample_avl_def)
qed

text \<open>
  C30. A handle stays valid while its key stays in the map, whatever other keys are inserted or removed; removing its
  key through it removes that entry and leaves no valid handle for the key.
\<close>

theorem avl_handles_stable:
  assumes "avl_ok m" "avl_get_by_handle m h k = Some v" "k' \<noteq> k"
  shows "(\<forall>h' old m'. avl_insert_with_handle m k' w = Some (h', old, m') \<longrightarrow>
      avl_get_by_handle m' h k = Some v \<and> avl_get_by_handle m' h' k' = Some w) \<and>
    (\<forall>old m'. avl_remove m k' = Some (old, m') \<longrightarrow> avl_get_by_handle m' h k = Some v) \<and>
    (\<exists>m'. avl_remove_by_handle m h k = Some (Some v, m') \<and> avl_ok m' \<and> (\<forall>h'. avl_get_by_handle m' h' k = None))"
proof -
  obtain t fl where t: "holds m t fl"
    using assms(1) by (auto simp: avl_ok_def)
  have x: "(h, k, v) \<in> set_tree t"
    using assms(2) get_by_handle_iff [OF t] by simp
  have "avl_get_by_handle m' h k = Some v \<and> avl_get_by_handle m' h' k' = Some w"
    if "avl_insert_with_handle m k' w = Some (h', old, m')" for h' old m'
  proof -
    have "map_of (entries_of t) k' \<noteq> None \<or> avl_length m < avl_maximum m"
      using avl_insert_ok [OF t, of k' w] that by (cases "map_of (entries_of t) k'") auto
    then obtain i m2 t' fl' where i: "avl_insert_with_handle m k' w = Some (i, map_of (entries_of t) k', m2)" and
        t': "holds m2 t' fl'" "(i, k', w) \<in> set_tree t'" "\<forall>x. key_of x \<noteq> k' \<longrightarrow> (x \<in> set_tree t' \<longleftrightarrow> x \<in> set_tree t)"
      using avl_insert_ok [OF t, of k' w] by blast
    have "i = h'" "m2 = m'"
      using i that by simp_all
    moreover have "(h, k, v) \<in> set_tree t'"
      using t'(3) x assms(3) by (metis key_of_simps)
    ultimately show ?thesis
      using t'(2) get_by_handle_iff [OF t'(1)] by simp
  qed
  moreover have "avl_get_by_handle m' h k = Some v" if "avl_remove m k' = Some (old, m')" for old m'
  proof -
    obtain m2 t' fl' where t': "avl_remove m k' = Some (map_of (entries_of t) k', m2)" "holds m2 t' fl'"
        "set_tree t' = {x \<in> set_tree t. key_of x \<noteq> k'}"
      using avl_remove_ok [OF t, of k'] by blast
    then have "m2 = m'"
      using that by simp
    then show ?thesis
      using x assms(3) t'(3) get_by_handle_iff [OF t'(2)] by auto
  qed
  moreover have "\<exists>m'. avl_remove_by_handle m h k = Some (Some v, m') \<and> avl_ok m' \<and> (\<forall>h'. avl_get_by_handle m' h' k = None)"
  proof -
    obtain m' fl' where m': "avl_remove_by_handle m h k = Some (Some v, m')" "holds m' (del k t) fl'"
      using remove_by_handle_ok [OF t, of h k v] x by blast
    have "avl_get_by_handle m' h' k = None" for h'
      using get_by_handle_iff [OF m'(2), of h' k] set_tree_del [OF holdsD(3) [OF t], of k] by (cases "avl_get_by_handle m' h' k") auto
    then show ?thesis
      using m' by (auto simp: avl_ok_def)
  qed
  ultimately show ?thesis
    by blast
qed

theorem avl_handles_stable_witness:
  "\<exists>h m. avl_insert_with_handle sample_avl 5 50 = Some (h, None, m) \<and> avl_get_by_handle m h 5 = Some 50 \<and>
     (\<forall>h' old m'. avl_insert_with_handle m 6 60 = Some (h', old, m') \<longrightarrow> avl_get_by_handle m' h 5 = Some 50)"
proof -
  obtain m h where m: "avl_insert sample_avl 5 50 = Some (None, m)" "avl_insert_with_handle sample_avl 5 50 = Some (h, None, m)"
      "represents_index m \<lparr>index_entries = [(5, 50)], index_maximum = 3\<rparr>"
    using represents_insert [OF sample_avl_represents, of 5 50]
    by (auto simp: index_insert_def index_new_def index_get_def index_len_def avl_insert_def)
  have g: "avl_get_by_handle m h 5 = Some 50"
    using m(2) by (auto simp: avl_insert_with_handle_def sample_avl_def has_insertion_capacity_def allocate_slot_def
        find_index.simps insert_index.simps avl_get_by_handle_def node_at_def list_at_def)
  show ?thesis
    using avl_handles_stable [OF represents_ok(1) [OF m(3)] g, of 6 60] m(2) g by auto
qed

text \<open>Calls of an iterator from either end, and the double-ended queue of the entries they answer.\<close>

fun iter_run :: "('k, 'v) arena \<Rightarrow> bool list \<Rightarrow> Iter \<Rightarrow> ('k \<times> 'v) option list option" where
  "iter_run s [] it = Some []"
| "iter_run s (forward # calls) it = do {
     (entry, it) \<leftarrow> if forward then iter_next s it else iter_next_back s it;
     entries \<leftarrow> iter_run s calls it;
     Some (entry # entries)
   }"

fun deque_run :: "bool list \<Rightarrow> 'a list \<Rightarrow> 'a option list" where
  "deque_run [] xs = []"
| "deque_run (forward # calls) xs =
     (if xs = [] then None # deque_run calls []
      else if forward then Some (hd xs) # deque_run calls (tl xs)
      else Some (List.last xs) # deque_run calls (butlast xs))"

lemma iter_run_ok: "iter_state s it zs \<Longrightarrow> iter_run s calls it = Some (deque_run calls (map snd zs))"
proof (induction calls arbitrary: it zs)
  case (Cons forward calls)
  show ?case
  proof (cases "zs = []")
    case True
    then show ?thesis
      using Cons.IH [OF Cons.prems] iter_next_ok [OF Cons.prems] iter_next_back_ok [OF Cons.prems] by simp
  next
    case False
    show ?thesis
    proof (cases forward)
      case True
      obtain it' where "iter_next s it = Some (Some (snd (hd zs)), it')" "iter_state s it' (tl zs)"
        using iter_next_ok [OF Cons.prems] False by (metis list.collapse)
      then show ?thesis
        using Cons.IH [of it' "tl zs"] True False by (simp add: hd_map map_tl)
    next
      case backward: False
      obtain it' where "iter_next_back s it = Some (Some (snd (List.last zs)), it')" "iter_state s it' (butlast zs)"
        using iter_next_back_ok [OF Cons.prems] False by (metis append_butlast_last_id)
      then show ?thesis
        using Cons.IH [of it' "butlast zs"] backward False by (simp add: last_map map_butlast)
    qed
  qed
qed simp

text \<open>
  C31. Any mixture of \<open>next\<close> and \<open>next_back\<close> calls on an iterator answers the entries in key order from the two ends,
  each entry once, and \<^const>\<open>None\<close> when they have met; the iterator stacks never overflow.
\<close>

theorem avl_iterates_both_ends:
  assumes "represents_index m x"
  shows "\<exists>it. iter_new m = Some it \<and> iter_run (slots m) calls it = Some (deque_run calls (index_entries x))"
proof -
  obtain t fl where h: "holds m t fl" "index_entries x = entries_of t"
    using assms by (auto simp: represents_index_def)
  obtain it where it: "iter_new m = Some it" "iter_state (slots m) it (inorder t)"
    using iter_new_ok [OF h(1)] by blast
  then show ?thesis
    using iter_run_ok [OF it(2), of calls] h(2) by (simp add: entries_of_def)
qed

theorem avl_iterates_both_ends_witness:
  "\<exists>m it. avl_insert sample_avl 5 50 = Some (None, m) \<and> iter_new m = Some it \<and>
     iter_run (slots m) [False, True] it = Some [Some (5, 50), None]"
proof -
  obtain m where m: "avl_insert sample_avl 5 50 = Some (None, m)"
      "represents_index m \<lparr>index_entries = [(5, 50)], index_maximum = 3\<rparr>"
    using represents_insert [OF sample_avl_represents, of 5 50]
    by (auto simp: index_insert_def index_new_def index_get_def index_len_def)
  show ?thesis
    using avl_iterates_both_ends [OF m(2), of "[False, True]"] m(1) by simp
qed

end
