(* ===== verification/Slices.thy ===== *)
theory Slices
  imports Prelude
begin

text \<open>
  \<open>slice::partition_point\<close> and \<open>slice::binary_search_by_key\<close> of the standard library.  On the partitioned and
  sorted slices they are used on, their result does not depend on the probing order.
\<close>

definition partition_point :: "('a \<Rightarrow> bool) \<Rightarrow> 'a list \<Rightarrow> nat" where
  "partition_point P xs = length (takeWhile P xs)"

definition binary_search_by_key :: "('a \<Rightarrow> 'k) \<Rightarrow> 'k \<Rightarrow> 'a list \<Rightarrow> nat option" where
  "binary_search_by_key key k xs =
     (let i = partition_point (\<lambda>x. key x \<noteq> k) xs in if i < length xs then Some i else None)"

lemma partition_point_le: "partition_point P xs \<le> length xs"
  by (simp add: partition_point_def length_takeWhile_le)

lemma partition_point_nth:
  assumes "sorted_wrt (\<lambda>x y. P y \<longrightarrow> P x) xs" "i < length xs"
  shows "P (xs ! i) \<longleftrightarrow> i < partition_point P xs"
  using assms
proof (induction xs arbitrary: i)
  case (Cons x xs)
  then show ?case
    by (cases i; cases "P x") (auto simp: partition_point_def dest: nth_mem)
qed simp

lemma partition_point_all: "\<not> partition_point P xs < length xs \<Longrightarrow> \<forall>x\<in>set xs. P x"
  by (induction xs) (auto simp: partition_point_def split: if_splits)

text \<open>On a partitioned slice the elements before the partition point are those with the property.\<close>

lemma partitioned_filter: "sorted_wrt (\<lambda>x y. P y \<longrightarrow> P x) xs \<Longrightarrow> filter P xs = take (partition_point P xs) xs"
  by (induction xs) (auto simp: partition_point_def filter_empty_conv)

lemma binary_search_None: "binary_search_by_key key k xs = None \<longleftrightarrow> k \<notin> key ` set xs"
proof -
  have "length (takeWhile P xs) < length xs \<longleftrightarrow> (\<exists>x\<in>set xs. \<not> P x)" for P
    by (induction xs) auto
  from this [of "\<lambda>x. key x \<noteq> k"] show ?thesis
    by (auto simp: binary_search_by_key_def Let_def partition_point_def)
qed

lemma binary_search_Some:
  assumes "binary_search_by_key key k xs = Some i"
  shows "i < length xs" "key (xs ! i) = k" "List.find (\<lambda>x. key x = k) xs = Some (xs ! i)"
proof -
  have i: "i = length (takeWhile (\<lambda>x. key x \<noteq> k) xs)" "i < length xs"
    using assms by (auto simp: binary_search_by_key_def Let_def partition_point_def split: if_splits)
  then show "i < length xs" "key (xs ! i) = k"
    using nth_length_takeWhile [of "\<lambda>x. key x \<noteq> k" xs] by simp_all
  show "List.find (\<lambda>x. key x = k) xs = Some (xs ! i)"
    unfolding i(1) using i by (induction xs arbitrary: i) (auto split: if_splits)
qed

end
