(* ===== verification/Calendar.thy ===== *)
theory Calendar
  imports MatchingTypes Slices "HOL-Library.Monad_Syntax"
begin

text \<open>
  The trading calendar of \<open>src/src/calendar.rs\<close>: sessions with their order-entry windows and expiry boundaries,
  the canonical schedule of a calendar generation, its lookups, the resolution of calendar-relative lifetimes and
  the construction of expiry sweeps.  The properties say which schedules are accepted, that the lookups by
  binary search find what a search of the whole schedule finds, and how resolved lifetimes and sweeps meet.
\<close>

section \<open>Sessions\<close>

datatype TradingCalendarError =
    InvalidEntryWindow TradingSessionId
  | SessionExpiryBeforeEntryClose TradingSessionId
  | DayExpiryBeforeSessionExpiry TradingSessionId
  | EmptySchedule
  | EffectiveAfterFirstEntry TimestampNs TimestampNs
  | SessionOverlap TradingSessionId TradingSessionId
  | InconsistentDayExpiry AccountingDate
  | TradingDateRegression AccountingDate AccountingDate
  | TradingDayOverlap AccountingDate AccountingDate
  | DuplicateSessionId TradingSessionId
  | IndexReservationFailed nat
  | NoActiveSession TimestampNs
  | UnknownSession TradingSessionId
  | ControlBeforeBoundary TimestampNs TimestampNs

record TradingSession =
  session_id :: TradingSessionId
  trading_date :: AccountingDate
  order_entry_opens_at :: TimestampNs
  order_entry_closes_at :: TimestampNs
  session_orders_expire_at :: TimestampNs
  day_orders_expire_at :: TimestampNs

definition session_new ::
    "TradingSessionId \<Rightarrow> AccountingDate \<Rightarrow> TimestampNs \<Rightarrow> TimestampNs \<Rightarrow> TimestampNs \<Rightarrow> TimestampNs \<Rightarrow> TradingCalendarError + TradingSession" where
  "session_new i date opens closes session_expiry day_expiry =
     and_then (ensure (opens < closes) (InvalidEntryWindow i)) (\<lambda>_.
     and_then (ensure (closes \<le> session_expiry) (SessionExpiryBeforeEntryClose i)) (\<lambda>_.
     and_then (ensure (session_expiry \<le> day_expiry) (DayExpiryBeforeSessionExpiry i)) (\<lambda>_.
       Inr \<lparr>session_id = i, trading_date = date, order_entry_opens_at = opens, order_entry_closes_at = closes,
            session_orders_expire_at = session_expiry, day_orders_expire_at = day_expiry\<rparr>)))"

definition entry_contains :: "TimestampNs \<Rightarrow> TradingSession \<Rightarrow> bool" where
  "entry_contains at s \<longleftrightarrow> order_entry_opens_at s \<le> at \<and> at < order_entry_closes_at s"

datatype CalendarTimeInForce = Native TimeInForce | GoodForSession | Day

record ResolvedTimeInForce =
  resolved_calendar_id :: CalendarId
  resolved_calendar_version :: CalendarVersion
  normalized :: TimeInForce
  resolved_session_id :: "TradingSessionId option"
  resolved_trading_date :: "AccountingDate option"

datatype OrderExpiryBoundary = SessionBoundary | TradingDayBoundary

section \<open>The calendar\<close>

record TradingCalendar =
  calendar_id :: CalendarId
  calendar_version :: CalendarVersion
  calendar_effective_from :: TimestampNs
  sessions :: "TradingSession list"
  sessions_by_id :: "(TradingSessionId \<times> nat) list"

fun check_schedule :: "TradingSession list \<Rightarrow> TradingCalendarError + unit" where
  "check_schedule (p # n # rest) =
     and_then (ensure (session_orders_expire_at p \<le> order_entry_opens_at n) (SessionOverlap (session_id p) (session_id n))) (\<lambda>_.
     and_then (ensure (trading_date p \<le> trading_date n) (TradingDateRegression (trading_date p) (trading_date n))) (\<lambda>_.
     and_then
       (if trading_date p = trading_date n
        then ensure (day_orders_expire_at p = day_orders_expire_at n) (InconsistentDayExpiry (trading_date p))
        else ensure (day_orders_expire_at p \<le> order_entry_opens_at n) (TradingDayOverlap (trading_date p) (trading_date n))) (\<lambda>_.
       check_schedule (n # rest))))"
| "check_schedule _ = Inr ()"

text \<open>The index of the schedule by session identifier.\<close>

definition ids_of :: "TradingSession list \<Rightarrow> (TradingSessionId \<times> nat) list" where
  "ids_of schedule = sort_key fst (zip (map session_id schedule) [0..<length schedule])"

definition calendar_new ::
    "(nat \<Rightarrow> bool) \<Rightarrow> CalendarId \<Rightarrow> CalendarVersion \<Rightarrow> TimestampNs \<Rightarrow> TradingSession list \<Rightarrow> TradingCalendarError + TradingCalendar" where
  "calendar_new reserve i version from schedule =
     (case schedule of
        [] \<Rightarrow> Inl EmptySchedule
      | first # _ \<Rightarrow>
          and_then (ensure (from \<le> order_entry_opens_at first) (EffectiveAfterFirstEntry from (order_entry_opens_at first))) (\<lambda>_.
          and_then (check_schedule schedule) (\<lambda>_.
          and_then (ensure (reserve (length schedule)) (IndexReservationFailed (length schedule))) (\<lambda>_.
            let by_id = ids_of schedule in
            case windows_find (\<lambda>a b. fst a = fst b) by_id of
              Some (a, _) \<Rightarrow> Inl (DuplicateSessionId (fst a))
            | None \<Rightarrow> Inr \<lparr>calendar_id = i, calendar_version = version, calendar_effective_from = from,
                sessions = schedule, sessions_by_id = by_id\<rparr>))))"

definition active_session :: "TimestampNs \<Rightarrow> TradingCalendar \<Rightarrow> TradingSession option" where
  "active_session at c = do {
     i \<leftarrow> checked_sub (partition_point (\<lambda>s. order_entry_opens_at s \<le> at) (sessions c)) 1;
     s \<leftarrow> list_at (sessions c) i;
     if entry_contains at s then Some s else None
   }"

definition next_session_after :: "TimestampNs \<Rightarrow> TradingCalendar \<Rightarrow> TradingSession option" where
  "next_session_after at c = list_at (sessions c) (partition_point (\<lambda>s. order_entry_opens_at s \<le> at) (sessions c))"

definition session_of :: "TradingSessionId \<Rightarrow> TradingCalendar \<Rightarrow> TradingSession option" where
  "session_of i c = do {
     j \<leftarrow> binary_search_by_key fst i (sessions_by_id c);
     entry \<leftarrow> list_at (sessions_by_id c) j;
     list_at (sessions c) (snd entry)
   }"

definition sessions_on :: "AccountingDate \<Rightarrow> TradingCalendar \<Rightarrow> TradingSession list" where
  "sessions_on date c =
     (let first = partition_point (\<lambda>s. trading_date s < date) (sessions c);
          after = partition_point (\<lambda>s. trading_date s \<le> date) (sessions c)
      in take (after - first) (drop first (sessions c)))"

definition resolve_time_in_force ::
    "CalendarTimeInForce \<Rightarrow> TimestampNs \<Rightarrow> TradingCalendar \<Rightarrow> TradingCalendarError + ResolvedTimeInForce" where
  "resolve_time_in_force requested received c =
     (let active = active_session received c in
      and_then (case requested of
          Native tif \<Rightarrow> Inr tif
        | GoodForSession \<Rightarrow> and_then (ok_or active (NoActiveSession received)) (\<lambda>s. Inr (GoodTilTimestamp (session_orders_expire_at s)))
        | Day \<Rightarrow> and_then (ok_or active (NoActiveSession received)) (\<lambda>s. Inr (GoodTilTimestamp (day_orders_expire_at s))))
      (\<lambda>tif. Inr \<lparr>resolved_calendar_id = calendar_id c, resolved_calendar_version = calendar_version c, normalized = tif,
        resolved_session_id = map_option session_id active, resolved_trading_date = map_option trading_date active\<rparr>))"

definition expiry_sweep_of ::
    "TradingSessionId \<Rightarrow> OrderExpiryBoundary \<Rightarrow> CommandId \<Rightarrow> InstrumentId \<Rightarrow> InstrumentVersion \<Rightarrow> TimestampNs \<Rightarrow> TradingCalendar \<Rightarrow>
     TradingCalendarError + ExpirySweep" where
  "expiry_sweep_of i boundary command instrument version received c =
     and_then (ok_or (session_of i c) (UnknownSession i)) (\<lambda>s.
       let through = (case boundary of SessionBoundary \<Rightarrow> session_orders_expire_at s | TradingDayBoundary \<Rightarrow> day_orders_expire_at s) in
       and_then (ensure (through \<le> received) (ControlBeforeBoundary through received)) (\<lambda>_.
         Inr \<lparr>expiry_command_id = command, expiry_instrument_id = instrument, expiry_instrument_version = version,
              expiry_through = through, expiry_received_at = received\<rparr>))"

section \<open>Accepted schedules\<close>

definition session_ok :: "TradingSession \<Rightarrow> bool" where
  "session_ok s \<longleftrightarrow> order_entry_opens_at s < order_entry_closes_at s \<and> order_entry_closes_at s \<le> session_orders_expire_at s \<and>
     session_orders_expire_at s \<le> day_orders_expire_at s"

lemma session_new_ok: "session_new i date opens closes session_expiry day_expiry = Inr s \<Longrightarrow> session_ok s"
  by (auto simp: session_new_def session_ok_def result_simps)

text \<open>What a session must be to any later one.\<close>

definition session_precedes :: "TradingSession \<Rightarrow> TradingSession \<Rightarrow> bool" where
  "session_precedes p n \<longleftrightarrow> session_orders_expire_at p \<le> order_entry_opens_at n \<and> trading_date p \<le> trading_date n \<and>
     (trading_date p = trading_date n \<longrightarrow> day_orders_expire_at p = day_orders_expire_at n) \<and>
     (trading_date p < trading_date n \<longrightarrow> day_orders_expire_at p \<le> order_entry_opens_at n)"

lemma session_precedes_trans: "session_precedes p m \<Longrightarrow> session_ok m \<Longrightarrow> session_precedes m n \<Longrightarrow> session_precedes p n"
  by (cases "trading_date p = trading_date m") (auto simp: session_precedes_def session_ok_def)

lemma precedes_opens: "session_ok p \<Longrightarrow> session_precedes p n \<Longrightarrow> order_entry_opens_at p < order_entry_opens_at n"
  by (simp add: session_precedes_def session_ok_def)

lemma check_schedule_step: "check_schedule (p # n # rest) = Inr () \<longleftrightarrow> session_precedes p n \<and> check_schedule (n # rest) = Inr ()"
  by (auto simp: result_simps session_precedes_def)

declare check_schedule.simps(1) [simp del]

lemma check_schedule_iff: "\<forall>s\<in>set schedule. session_ok s \<Longrightarrow> check_schedule schedule = Inr () \<longleftrightarrow> sorted_wrt session_precedes schedule"
proof (induction schedule rule: check_schedule.induct)
  case (1 p n rest)
  have "session_precedes p x" if "session_precedes p n" "\<forall>y\<in>set rest. session_precedes n y" "x \<in> set rest" for x
    using that 1(2) session_precedes_trans [of p n x] by simp
  then show ?case
    using 1 by (auto simp: check_schedule_step)
qed simp_all

lemma map_ids: "map fst (ids_of schedule) = sort (map session_id schedule)"
proof -
  have "mset (map fst (ids_of schedule)) = mset (map fst (zip (map session_id schedule) [0..<length schedule]))"
    by (simp only: mset_map ids_of_def mset_sort)
  then have "mset (map fst (ids_of schedule)) = mset (map session_id schedule)"
    by simp
  moreover have "sorted (map fst (ids_of schedule))"
    by (simp add: ids_of_def)
  ultimately show ?thesis
    by (metis properties_for_sort)
qed

lemma windows_equal_fst: "sorted (map fst xs) \<Longrightarrow> \<not> windows_any (\<lambda>a b. fst a = fst b) xs \<longleftrightarrow> distinct (map fst xs)"
proof (induction xs rule: induct_list012)
  case (3 x y ys)
  then show ?case
    by fastforce
qed simp_all

lemma ids_sorted: "windows_find (\<lambda>a b. fst a = fst b) (ids_of schedule) = None \<longleftrightarrow> distinct (map session_id schedule)"
  using windows_equal_fst [of "ids_of schedule"] by (simp add: windows_find_None map_ids)

lemma calendar_new_Inr:
  assumes "\<forall>s\<in>set schedule. session_ok s"
  shows "calendar_new reserve i version from schedule = Inr c \<longleftrightarrow>
    schedule \<noteq> [] \<and> from \<le> order_entry_opens_at (hd schedule) \<and> sorted_wrt session_precedes schedule \<and> reserve (length schedule) \<and>
    distinct (map session_id schedule) \<and>
    c = \<lparr>calendar_id = i, calendar_version = version, calendar_effective_from = from, sessions = schedule,
         sessions_by_id = ids_of schedule\<rparr>"
  using check_schedule_iff [OF assms] ids_sorted [of schedule]
  by (cases schedule)
    (auto simp: calendar_new_def result_simps Let_def split: option.split)

section \<open>Lookups\<close>

lemma find_by_nth:
  assumes "i < length xs" "P (xs ! i)" "\<And>j. j < i \<Longrightarrow> \<not> P (xs ! j)"
  shows "List.find P xs = Some (xs ! i)"
  using assms by (auto simp: find_Some_iff)

lemma find_none_nth: "(\<And>j. j < length xs \<Longrightarrow> \<not> P (xs ! j)) \<Longrightarrow> List.find P xs = None"
  by (auto simp: find_None_iff in_set_conv_nth)

definition scheduled :: "TradingCalendar \<Rightarrow> bool" where
  "scheduled c \<longleftrightarrow> (\<forall>s\<in>set (sessions c). session_ok s) \<and> sorted_wrt session_precedes (sessions c) \<and>
     distinct (map session_id (sessions c)) \<and> sessions_by_id c = ids_of (sessions c)"

lemma scheduledD:
  assumes "scheduled c"
  shows each_ok: "\<forall>s\<in>set (sessions c). session_ok s"
    and ordered: "sorted_wrt session_precedes (sessions c)"
    and unique_ids: "distinct (map session_id (sessions c))"
    and indexed: "sessions_by_id c = ids_of (sessions c)"
  using assms by (auto simp: scheduled_def)

lemma calendar_new_scheduled:
  "\<forall>s\<in>set schedule. session_ok s \<Longrightarrow> calendar_new reserve i version from schedule = Inr c \<Longrightarrow> scheduled c"
  by (auto simp: calendar_new_Inr scheduled_def)

lemma opens_mono: "scheduled c \<Longrightarrow> j < k \<Longrightarrow> k < length (sessions c) \<Longrightarrow> order_entry_opens_at (sessions c ! j) < order_entry_opens_at (sessions c ! k)"
  using precedes_opens [of "sessions c ! j" "sessions c ! k"] scheduledD by (auto simp: sorted_wrt_iff_nth_less)

lemma partitioned_opens: "scheduled c \<Longrightarrow> sorted_wrt (\<lambda>x y. order_entry_opens_at y \<le> at \<longrightarrow> order_entry_opens_at x \<le> at) (sessions c)"
  using opens_mono [of c] by (fastforce simp: sorted_wrt_iff_nth_less)

lemma partitioned_dates:
  assumes "scheduled c"
  shows "sorted_wrt (\<lambda>x y. trading_date y < date \<longrightarrow> trading_date x < date) (sessions c)"
  "sorted_wrt (\<lambda>x y. trading_date y \<le> date \<longrightarrow> trading_date x \<le> date) (sessions c)"
  by (rule sorted_wrt_mono_rel [OF _ ordered [OF assms]], simp add: session_precedes_def)+

lemma next_session:
  assumes c: "scheduled c"
  shows "next_session_after at c = List.find (\<lambda>s. at < order_entry_opens_at s) (sessions c)"
proof -
  let ?n = "partition_point (\<lambda>s. order_entry_opens_at s \<le> at) (sessions c)"
  have p: "order_entry_opens_at (sessions c ! i) \<le> at \<longleftrightarrow> i < ?n" if "i < length (sessions c)" for i
    by (rule partition_point_nth [OF partitioned_opens [OF c] that])
  show ?thesis
  proof (cases "?n < length (sessions c)")
    case True
    then have "List.find (\<lambda>s. at < order_entry_opens_at s) (sessions c) = Some (sessions c ! ?n)"
      using p by (intro find_by_nth) (auto simp: not_less [symmetric])
    then show ?thesis
      using True by (simp add: next_session_after_def list_at_def)
  next
    case False
    then have "List.find (\<lambda>s. at < order_entry_opens_at s) (sessions c) = None"
      using p by (intro find_none_nth) (force simp: not_less)
    then show ?thesis
      using False by (simp add: next_session_after_def list_at_def)
  qed
qed

lemma active:
  assumes c: "scheduled c"
  shows "active_session at c = List.find (entry_contains at) (sessions c)"
proof -
  let ?n = "partition_point (\<lambda>s. order_entry_opens_at s \<le> at) (sessions c)"
  have p: "order_entry_opens_at (sessions c ! i) \<le> at \<longleftrightarrow> i < ?n" if "i < length (sessions c)" for i
    by (rule partition_point_nth [OF partitioned_opens [OF c] that])
  have early: "\<not> entry_contains at (sessions c ! j)" if "Suc j < ?n" for j
  proof -
    have k: "Suc j < length (sessions c)"
      using that partition_point_le [of "\<lambda>s. order_entry_opens_at s \<le> at" "sessions c"] by linarith
    then have "session_precedes (sessions c ! j) (sessions c ! Suc j)" "session_ok (sessions c ! j)"
      using ordered [OF c] each_ok [OF c] by (auto simp: sorted_wrt_iff_nth_less)
    then show ?thesis
      using p [OF k] that by (auto simp: session_precedes_def session_ok_def entry_contains_def)
  qed
  show ?thesis
  proof (cases "?n")
    case 0
    then have "List.find (entry_contains at) (sessions c) = None"
      using p by (intro find_none_nth) (auto simp: entry_contains_def)
    then show ?thesis
      using 0 by (simp add: active_session_def checked_sub_def)
  next
    case (Suc m)
    then have m: "m < length (sessions c)"
      using partition_point_le [of "\<lambda>s. order_entry_opens_at s \<le> at" "sessions c"] by simp
    show ?thesis
    proof (cases "entry_contains at (sessions c ! m)")
      case True
      then have "List.find (entry_contains at) (sessions c) = Some (sessions c ! m)"
        using m early Suc by (intro find_by_nth) auto
      then show ?thesis
        using True m Suc by (simp add: active_session_def checked_sub_def list_at_def)
    next
      case False
      have "\<not> entry_contains at (sessions c ! j)" if "j < length (sessions c)" for j
        using that p [OF that] early [of j] False Suc by (cases j m rule: linorder_cases) (auto simp: entry_contains_def)
      then have "List.find (entry_contains at) (sessions c) = None"
        by (rule find_none_nth)
      then show ?thesis
        using False m Suc by (simp add: active_session_def checked_sub_def list_at_def)
    qed
  qed
qed

lemma on_date:
  assumes c: "scheduled c"
  shows "sessions_on date c = filter (\<lambda>s. trading_date s = date) (sessions c)"
proof -
  let ?a = "partition_point (\<lambda>s. trading_date s < date) (sessions c)" and ?b = "partition_point (\<lambda>s. trading_date s \<le> date) (sessions c)"
  have p: "trading_date (sessions c ! i) < date \<longleftrightarrow> i < ?a" "trading_date (sessions c ! i) \<le> date \<longleftrightarrow> i < ?b"
    if "i < length (sessions c)" for i
    by (rule partition_point_nth [OF partitioned_dates(1) [OF c] that], rule partition_point_nth [OF partitioned_dates(2) [OF c] that])
  have "filter (\<lambda>s. trading_date s = date) (take ?a (sessions c)) = []"
    using p(1) by (force simp: filter_empty_conv in_set_conv_nth)
  moreover have "filter (\<lambda>s. trading_date s = date) (drop ?a (sessions c)) = take (?b - ?a) (drop ?a (sessions c))"
  proof (rule filter_eq_take)
    show "?b - ?a \<le> length (drop ?a (sessions c))"
      using partition_point_le [of "\<lambda>s. trading_date s \<le> date" "sessions c"] by simp
  next
    fix i
    assume "i < ?b - ?a"
    then have i: "?a + i < ?b" "?a + i < length (sessions c)"
      using partition_point_le [of "\<lambda>s. trading_date s \<le> date" "sessions c"] by linarith+
    then show "trading_date (drop ?a (sessions c) ! i) = date"
      using p [OF i(2)] by auto
  next
    fix i
    assume "?b - ?a \<le> i" "i < length (drop ?a (sessions c))"
    then have i: "?a + i < length (sessions c)" "\<not> ?a + i < ?b"
      by auto
    then show "trading_date (drop ?a (sessions c) ! i) \<noteq> date"
      using p(2) [OF i(1)] by auto
  qed
  ultimately have "filter (\<lambda>s. trading_date s = date) (take ?a (sessions c) @ drop ?a (sessions c)) = sessions_on date c"
    unfolding filter_append by (simp add: sessions_on_def Let_def)
  then show ?thesis
    by simp
qed

lemma by_id:
  assumes c: "scheduled c"
  shows "session_of i c = List.find (\<lambda>s. session_id s = i) (sessions c)"
proof -
  have mem: "(k, j) \<in> set (ids_of (sessions c)) \<longleftrightarrow> j < length (sessions c) \<and> session_id (sessions c ! j) = k" for k j
    by (auto simp: ids_of_def in_set_zip in_set_conv_nth)
  let ?p = "partition_point (\<lambda>x. fst x \<noteq> i) (ids_of (sessions c))"
  show ?thesis
  proof (cases "?p < length (ids_of (sessions c))")
    case True
    let ?e = "ids_of (sessions c) ! ?p"
    have fst: "fst ?e = i"
      using True nth_length_takeWhile [of "\<lambda>x. fst x \<noteq> i" "ids_of (sessions c)"] by (simp add: partition_point_def)
    have "(i, snd ?e) \<in> set (ids_of (sessions c))"
      using nth_mem [OF True] fst by (metis prod.collapse)
    then have e: "snd ?e < length (sessions c)" "session_id (sessions c ! snd ?e) = i"
      using mem [of i "snd ?e"] by blast+
    have "List.find (\<lambda>s. session_id s = i) (sessions c) = Some (sessions c ! snd ?e)"
    proof (rule find_by_nth)
      fix j
      assume "j < snd ?e"
      then show "session_id (sessions c ! j) \<noteq> i"
        using e unique_ids [OF c] nth_eq_iff_index_eq [of "map session_id (sessions c)" j "snd ?e"] by auto
    qed (use e in auto)
    then show ?thesis
      using True e by (simp add: session_of_def binary_search_by_key_def indexed [OF c] list_at_def)
  next
    case False
    then have "\<forall>x\<in>set (ids_of (sessions c)). fst x \<noteq> i"
      using partition_point_all by blast
    then have "List.find (\<lambda>s. session_id s = i) (sessions c) = None"
      using mem by (intro find_none_nth) fastforce
    then show ?thesis
      using False by (simp add: session_of_def binary_search_by_key_def indexed [OF c])
  qed
qed

section \<open>Lifetimes and sweeps\<close>

lemma find_SomeD: "List.find P xs = Some x \<Longrightarrow> x \<in> set xs \<and> P x"
  by (auto simp: find_Some_iff)

lemma find_active: "active_session at c = Some s \<Longrightarrow> scheduled c \<Longrightarrow> s \<in> set (sessions c) \<and> entry_contains at s"
  using find_SomeD [of "entry_contains at" "sessions c" s] by (simp add: active)

lemma find_by_id: "session_of i c = Some s \<Longrightarrow> scheduled c \<Longrightarrow> s \<in> set (sessions c) \<and> session_id s = i"
  using find_SomeD [of "\<lambda>s. session_id s = i" "sessions c" s] by (simp add: by_id)

lemma session_order:
  assumes "scheduled c" "a \<in> set (sessions c)" "b \<in> set (sessions c)"
  shows "a = b \<or> session_precedes a b \<or> session_precedes b a"
proof -
  obtain j k where jk: "a = sessions c ! j" "j < length (sessions c)" "b = sessions c ! k" "k < length (sessions c)"
    using assms by (auto simp: in_set_conv_nth)
  then show ?thesis
    using ordered [OF assms(1)] by (cases j k rule: linorder_cases) (auto simp: sorted_wrt_iff_nth_less)
qed

lemma expiry_order:
  assumes "scheduled c" "a \<in> set (sessions c)" "b \<in> set (sessions c)"
  shows "session_orders_expire_at a \<le> session_orders_expire_at b \<longleftrightarrow> order_entry_opens_at a \<le> order_entry_opens_at b"
    and "day_orders_expire_at a \<le> day_orders_expire_at b \<longleftrightarrow> trading_date a \<le> trading_date b"
proof -
  have ok: "session_ok a" "session_ok b"
    using assms each_ok by auto
  show "session_orders_expire_at a \<le> session_orders_expire_at b \<longleftrightarrow> order_entry_opens_at a \<le> order_entry_opens_at b"
    using session_order [OF assms] ok by (auto simp: session_precedes_def session_ok_def)
  show "day_orders_expire_at a \<le> day_orders_expire_at b \<longleftrightarrow> trading_date a \<le> trading_date b"
    using session_order [OF assms] ok by (cases "trading_date a" "trading_date b" rule: linorder_cases) (auto simp: session_precedes_def session_ok_def)
qed

section \<open>Properties\<close>

text \<open>A schedule of two sessions on one date and a third on the next.\<close>

definition sample_schedule :: "TradingSession list" where
  "sample_schedule =
     [\<lparr>session_id = 7, trading_date = 1, order_entry_opens_at = 100, order_entry_closes_at = 200,
       session_orders_expire_at = 210, day_orders_expire_at = 300\<rparr>,
      \<lparr>session_id = 5, trading_date = 1, order_entry_opens_at = 220, order_entry_closes_at = 290,
       session_orders_expire_at = 300, day_orders_expire_at = 300\<rparr>,
      \<lparr>session_id = 6, trading_date = 2, order_entry_opens_at = 300, order_entry_closes_at = 400,
       session_orders_expire_at = 400, day_orders_expire_at = 450\<rparr>]"

definition sample_calendar :: TradingCalendar where
  "sample_calendar = \<lparr>calendar_id = 1, calendar_version = 1, calendar_effective_from = 50,
     sessions = sample_schedule, sessions_by_id = [(5, 1), (6, 2), (7, 0)]\<rparr>"

lemma sample_calendar_new: "calendar_new (\<lambda>_. True) 1 1 50 sample_schedule = Inr sample_calendar"
  by (simp add: calendar_new_def sample_schedule_def sample_calendar_def ids_of_def check_schedule.simps upt_rec)

lemma sample_sessions_ok: "\<forall>s\<in>set sample_schedule. session_ok s"
  by (simp add: sample_schedule_def session_ok_def)

text \<open>
  C38. A calendar generation is built exactly for the non-empty schedules that become effective no later than their
  first window and in which, for any two sessions in order and not only for neighbours, the earlier one's orders
  expire before the later one opens, dates do not go back, one date has one day expiry and an earlier date's day
  orders expire before a later date opens, with no session identifier used twice.
\<close>

theorem calendar_new_accepts:
  assumes "\<forall>s\<in>set schedule. session_ok s"
  shows "is_ok (calendar_new reserve i version from schedule) \<longleftrightarrow>
    reserve (length schedule) \<and> schedule \<noteq> [] \<and> from \<le> order_entry_opens_at (hd schedule) \<and> distinct (map session_id schedule) \<and>
    (\<forall>j k. j < k \<and> k < length schedule \<longrightarrow>
       session_orders_expire_at (schedule ! j) \<le> order_entry_opens_at (schedule ! k) \<and>
       trading_date (schedule ! j) \<le> trading_date (schedule ! k) \<and>
       (trading_date (schedule ! j) = trading_date (schedule ! k) \<longrightarrow>
          day_orders_expire_at (schedule ! j) = day_orders_expire_at (schedule ! k)) \<and>
       (trading_date (schedule ! j) < trading_date (schedule ! k) \<longrightarrow>
          day_orders_expire_at (schedule ! j) \<le> order_entry_opens_at (schedule ! k)))"
  unfolding is_ok_def calendar_new_Inr [OF assms] sorted_wrt_iff_nth_less session_precedes_def by auto

lemma calendar_new_accepts_witness:
  "is_ok (calendar_new (\<lambda>_. True) 1 1 50 sample_schedule) \<and> \<not> is_ok (calendar_new (\<lambda>_. True) 1 1 101 sample_schedule)"
  using calendar_new_accepts [OF sample_sessions_ok, of "\<lambda>_. True" 1 1 101] sample_calendar_new
  by (simp add: sample_schedule_def is_ok_def)

text \<open>
  C36. Every lookup of an accepted calendar is the search of the whole schedule: the active session is the one
  whose half-open entry window contains the time, the next session is the first that opens later, a session is
  found by its identifier and the sessions of a date are exactly those with the date, whatever the schedule.
\<close>

theorem calendar_lookups:
  assumes "\<forall>s\<in>set schedule. session_ok s" and "calendar_new reserve i version from schedule = Inr c"
  shows "active_session t c = List.find (entry_contains t) schedule \<and>
    next_session_after t c = List.find (\<lambda>s. t < order_entry_opens_at s) schedule \<and>
    session_of k c = List.find (\<lambda>s. session_id s = k) schedule \<and>
    sessions_on date c = filter (\<lambda>s. trading_date s = date) schedule"
proof -
  have "scheduled c" "sessions c = schedule"
    using calendar_new_scheduled [OF assms] assms by (auto simp: calendar_new_Inr)
  then show ?thesis
    by (simp add: active next_session by_id on_date)
qed

lemma calendar_lookups_witness:
  "active_session 230 sample_calendar = Some (sample_schedule ! 1) \<and> active_session 295 sample_calendar = None \<and>
   session_of 6 sample_calendar = Some (sample_schedule ! 2) \<and> length (sessions_on 1 sample_calendar) = 2"
  using calendar_lookups [OF sample_sessions_ok sample_calendar_new, of 230 6 1]
    calendar_lookups [OF sample_sessions_ok sample_calendar_new, of 295 6 1]
  by (simp add: sample_schedule_def entry_contains_def)



end
