(* ===== verification/InstrumentCatalog.thy ===== *)
theory InstrumentCatalog
  imports Instrument BoundedHash Slices
begin

text \<open>
  The append-only catalogue of \<open>src/src/instrument.rs\<close>: bounded hash indexes of assets, codes and
  instruments over one flat arena that holds the version history of every instrument as a contiguous range.
  Registering a version inside the arena shifts the later ranges.  \<^const>\<open>None\<close> is a panic.
\<close>

section \<open>Limits and state\<close>

text \<open>The \<open>?\<close> operator where a panic is possible.\<close>

definition then_do :: "('e + 'a) option \<Rightarrow> ('a \<Rightarrow> ('e + 'b) option) \<Rightarrow> ('e + 'b) option" where
  "then_do r f = (case r of None \<Rightarrow> None | Some (Inl e) \<Rightarrow> Some (Inl e) | Some (Inr x) \<Rightarrow> f x)"

record InstrumentCatalogLimits =
  max_assets :: nat
  max_instruments :: nat
  max_instrument_versions :: nat

datatype InstrumentCatalogLimitsError = ZeroMaximum InstrumentCatalogResource | InstrumentsExceedVersions nat nat

definition catalog_limits_new :: "InstrumentCatalogLimits \<Rightarrow> InstrumentCatalogLimitsError + InstrumentCatalogLimits" where
  "catalog_limits_new spec =
     (if max_assets spec = 0 then Inl (ZeroMaximum AssetIdentifiers)
      else if max_instruments spec = 0 then Inl (ZeroMaximum Instruments)
      else if max_instrument_versions spec = 0 then Inl (ZeroMaximum InstrumentVersions)
      else if max_instrument_versions spec < max_instruments spec
      then Inl (InstrumentsExceedVersions (max_instruments spec) (max_instrument_versions spec))
      else Inr spec)"

datatype InstrumentCatalogConstructionError =
    InvalidLimits InstrumentCatalogLimitsError
  | ReservationFailed InstrumentCatalogResource nat

record InstrumentSeries =
  series_start :: nat
  series_length :: nat

definition checked_end :: "InstrumentSeries \<Rightarrow> nat option" where
  "checked_end s = checked fits_usize (series_start s + series_length s)"

text \<open>\<open>definition_capacity\<close> is the capacity the allocator granted to the vector of definitions.\<close>

record InstrumentCatalog =
  catalog_limits :: InstrumentCatalogLimits
  assets :: "(AssetId, AssetDefinition) BoundedHashMap"
  asset_codes :: "(AssetCode, AssetId) BoundedHashMap"
  instruments :: "(InstrumentId, InstrumentSeries) BoundedHashMap"
  definitions :: "InstrumentDefinition list"
  definition_capacity :: nat

text \<open>The hash functions are chosen by the process, one per index.\<close>

record CatalogHashers =
  hash_asset :: "AssetId \<Rightarrow> nat"
  hash_code :: "AssetCode \<Rightarrow> nat"
  hash_instrument :: "InstrumentId \<Rightarrow> nat"

definition reserve_catalog_map ::
    "(InstrumentCatalogResource \<Rightarrow> nat \<Rightarrow> bool) \<Rightarrow> nat \<Rightarrow> InstrumentCatalogResource \<Rightarrow> ('k \<Rightarrow> nat) \<Rightarrow>
     InstrumentCatalogConstructionError + ('k, 'v) BoundedHashMap" where
  "reserve_catalog_map reserve upper resource hasher =
     map_sum (\<lambda>_. ReservationFailed resource upper) id (try_with_hasher (reserve resource) upper hasher)"

definition catalog_with_limits ::
    "(InstrumentCatalogResource \<Rightarrow> nat \<Rightarrow> bool) \<Rightarrow> (nat \<Rightarrow> nat option) \<Rightarrow> CatalogHashers \<Rightarrow> InstrumentCatalogLimits \<Rightarrow>
     InstrumentCatalogConstructionError + InstrumentCatalog" where
  "catalog_with_limits reserve grant hashers spec =
     and_then (map_sum InvalidLimits id (catalog_limits_new spec)) (\<lambda>limits.
     and_then (reserve_catalog_map reserve (max_assets spec) AssetIdentifiers (hash_asset hashers)) (\<lambda>by_id.
     and_then (reserve_catalog_map reserve (max_assets spec) AssetCodes (hash_code hashers)) (\<lambda>by_code.
     and_then (reserve_catalog_map reserve (max_instruments spec) Instruments (hash_instrument hashers)) (\<lambda>ranges.
     and_then (ok_or (grant (max_instrument_versions spec))
       (ReservationFailed InstrumentVersions (max_instrument_versions spec))) (\<lambda>capacity.
       Inr \<lparr>catalog_limits = limits, assets = by_id, asset_codes = by_code, instruments = ranges, definitions = [],
            definition_capacity = capacity\<rparr>)))))"

section \<open>Registration\<close>

definition register_asset :: "AssetDefinition \<Rightarrow> InstrumentCatalog \<Rightarrow> (InstrumentError + InstrumentCatalog) option" where
  "register_asset asset c = do {
     known \<leftarrow> contains_key (assets c) (asset_id_of asset);
     known_code \<leftarrow> if known then Some True else contains_key (asset_codes c) (asset_code asset);
     if known_code then Some (Inl DuplicateAsset)
     else let attempted = length (entries (assets c)) + 1 in
       if max_assets (catalog_limits c) < attempted
       then Some (Inl (CapacityExceeded AssetIdentifiers (max_assets (catalog_limits c)) attempted))
       else do {
         (_, by_code) \<leftarrow> insert_unwrap (asset_codes c) (asset_code asset) (asset_id_of asset);
         (_, by_id) \<leftarrow> insert_unwrap (assets c) (asset_id_of asset) asset;
         Some (Inr (c\<lparr>asset_codes := by_code, assets := by_id\<rparr>))
       }
   }"

definition asset_of :: "AssetId \<Rightarrow> InstrumentCatalog \<Rightarrow> (InstrumentError + AssetDefinition) option" where
  "asset_of i c = do { found \<leftarrow> get (assets c) i; Some (ok_or found (UnknownAsset i)) }"

definition asset_by_code :: "AssetCode \<Rightarrow> InstrumentCatalog \<Rightarrow> (InstrumentError + AssetDefinition) option" where
  "asset_by_code code c = do {
     found \<leftarrow> get (asset_codes c) code;
     case found of None \<Rightarrow> Some (Inl (UnknownAssetCode code)) | Some i \<Rightarrow> asset_of i c
   }"

text \<open>\<open>&self.definitions[series.start..series.end()]\<close>.\<close>

definition series_versions :: "InstrumentSeries \<Rightarrow> InstrumentCatalog \<Rightarrow> InstrumentDefinition list option" where
  "series_versions s c = do {
     stop \<leftarrow> checked_end s;
     if stop \<le> length (definitions c) then Some (take (series_length s) (drop (series_start s) (definitions c))) else None
   }"

definition same_instrument_identity :: "InstrumentDefinition \<Rightarrow> InstrumentDefinition \<Rightarrow> bool" where
  "same_instrument_identity a b \<longleftrightarrow> def_symbol a = def_symbol b \<and> def_kind a = def_kind b \<and>
     def_base_asset_id a = def_base_asset_id b \<and> def_quote_asset_id a = def_quote_asset_id b"

text \<open>The checks of a version against the history of its instrument.\<close>

definition check_successor :: "InstrumentDefinition \<Rightarrow> InstrumentDefinition list \<Rightarrow> (InstrumentError + unit) option" where
  "check_successor d versions =
     (if binary_search_by_key def_version (def_version d) versions \<noteq> None then Some (Inl DuplicateInstrumentVersion)
      else if versions = [] then None
      else let previous = last versions in
        if def_version d \<le> def_version previous \<or> effective_from d \<le> effective_from previous then Some (Inl NonMonotonicVersion)
        else if \<not> same_instrument_identity d previous then Some (Inl IdentityChanged)
        else Some (Inr ()))"

text \<open>The range of an instrument after a version was inserted at \<open>at_end\<close>.\<close>

definition shift_after :: "nat \<Rightarrow> InstrumentSeries \<Rightarrow> InstrumentSeries" where
  "shift_after at_end s = (if at_end \<le> series_start s then s\<lparr>series_start := series_start s + 1\<rparr> else s)"

text \<open>Storing the version: at the end of its range, with later ranges shifted, or as a new range.\<close>

definition store_version :: "InstrumentDefinition \<Rightarrow> InstrumentSeries option \<Rightarrow> InstrumentCatalog \<Rightarrow> InstrumentCatalog option" where
  "store_version d existing c =
     (case existing of
        Some series \<Rightarrow> do {
          at_end \<leftarrow> checked_end series;
          stored \<leftarrow> if at_end \<le> length (definitions c) then Some (take at_end (definitions c) @ d # drop at_end (definitions c)) else None;
          let shifted = map_values (shift_after at_end) (instruments c);
          found \<leftarrow> contains_key shifted (def_instrument_id d);
          ranges \<leftarrow> if found then update_value shifted (def_instrument_id d) (\<lambda>s. s\<lparr>series_length := series_length s + 1\<rparr>) else None;
          Some (c\<lparr>definitions := stored, instruments := ranges\<rparr>)
        }
      | None \<Rightarrow> do {
          (_, ranges) \<leftarrow> insert_unwrap (instruments c) (def_instrument_id d) \<lparr>series_start = length (definitions c), series_length = 1\<rparr>;
          Some (c\<lparr>instruments := ranges, definitions := definitions c @ [d]\<rparr>)
        })"

primrec check_assets :: "(AssetId, AssetDefinition) BoundedHashMap \<Rightarrow> AssetId list \<Rightarrow> (InstrumentError + unit) option" where
  "check_assets m [] = Some (Inr ())"
| "check_assets m (i # rest) = do { known \<leftarrow> contains_key m i; if known then check_assets m rest else Some (Inl (UnknownAsset i)) }"

definition register_instrument :: "InstrumentDefinition \<Rightarrow> InstrumentCatalog \<Rightarrow> (InstrumentError + InstrumentCatalog) option" where
  "register_instrument d c =
     then_do (check_assets (assets c) [def_base_asset_id d, def_quote_asset_id d]) (\<lambda>_. do {
       existing \<leftarrow> get (instruments c) (def_instrument_id d);
       then_do (case existing of None \<Rightarrow> Some (Inr ()) | Some series \<Rightarrow> do { versions \<leftarrow> series_versions series c; check_successor d versions })
       (\<lambda>_.
         if existing = None \<and> max_instruments (catalog_limits c) \<le> length (entries (instruments c))
         then Some (Inl (CapacityExceeded Instruments (max_instruments (catalog_limits c)) (length (entries (instruments c)) + 1)))
         else if max_instrument_versions (catalog_limits c) \<le> length (definitions c)
         then Some (Inl (CapacityExceeded InstrumentVersions (max_instrument_versions (catalog_limits c)) (length (definitions c) + 1)))
         else if \<not> length (definitions c) < definition_capacity c then None
         else map_option Inr (store_version d existing c))
     })"

section \<open>Lookups\<close>

definition effective :: "InstrumentId \<Rightarrow> TimestampNs \<Rightarrow> InstrumentCatalog \<Rightarrow> (InstrumentError + InstrumentDefinition) option" where
  "effective i at c = do {
     found \<leftarrow> get (instruments c) i;
     case found of
       None \<Rightarrow> Some (Inl (UnknownInstrument i))
     | Some series \<Rightarrow> do {
         versions \<leftarrow> series_versions series c;
         let index = partition_point (\<lambda>d. effective_from d \<le> at) versions;
         if index = 0 then Some (Inl (NoEffectiveVersion i at)) else map_option Inr (list_at versions (index - 1))
       }
   }"

definition version_of :: "InstrumentId \<Rightarrow> InstrumentVersion \<Rightarrow> InstrumentCatalog \<Rightarrow> (InstrumentError + InstrumentDefinition) option" where
  "version_of i v c = do {
     found \<leftarrow> get (instruments c) i;
     case found of
       None \<Rightarrow> Some (Inl (UnknownInstrument i))
     | Some series \<Rightarrow> do {
         versions \<leftarrow> series_versions series c;
         case binary_search_by_key def_version v versions of
           None \<Rightarrow> Some (Inl (UnknownInstrumentVersion i v))
         | Some index \<Rightarrow> map_option Inr (list_at versions index)
       }
   }"

section \<open>The audit\<close>

definition audit_layout :: "('k, 'v) BoundedHashMap \<Rightarrow> string \<Rightarrow> (string + unit) option" where
  "audit_layout m message = map_option (map_sum (\<lambda>_. message) id) (validate_layout m)"

primrec audit_each :: "('a \<Rightarrow> (string + unit) option) \<Rightarrow> 'a list \<Rightarrow> (string + unit) option" where
  "audit_each check [] = Some (Inr ())"
| "audit_each check (x # xs) = then_do (check x) (\<lambda>_. audit_each check xs)"

definition audit_asset :: "InstrumentCatalog \<Rightarrow> AssetId \<times> AssetDefinition \<Rightarrow> (string + unit) option" where
  "audit_asset c = (\<lambda>(i, asset).
     if asset_id_of asset \<noteq> i then Some (Inl ''asset identifier and code indexes disagree'')
     else do {
       found \<leftarrow> get (asset_codes c) (asset_code asset);
       Some (ensure (found = Some i) ''asset identifier and code indexes disagree'')
     })"

definition audit_code :: "InstrumentCatalog \<Rightarrow> AssetCode \<times> AssetId \<Rightarrow> (string + unit) option" where
  "audit_code c = (\<lambda>(code, i). do {
     found \<leftarrow> get (assets c) i;
     Some (ensure (map_option asset_code found = Some code) ''asset code references inconsistent metadata'')
   })"

text \<open>The inner loop: no other range overlaps this one.\<close>

definition audit_overlap :: "InstrumentId \<Rightarrow> InstrumentSeries \<Rightarrow> nat \<Rightarrow> InstrumentId \<times> InstrumentSeries \<Rightarrow> (string + unit) option" where
  "audit_overlap i s at_end = (\<lambda>(j, t).
     Some (case checked_end t of
       None \<Rightarrow> Inl ''instrument version range overflows its index''
     | Some other_end \<Rightarrow>
         ensure (\<not> (i \<noteq> j \<and> series_start s < other_end \<and> series_start t < at_end)) ''instrument version ranges overlap''))"

definition audit_version :: "InstrumentCatalog \<Rightarrow> InstrumentId \<Rightarrow> InstrumentDefinition \<Rightarrow> InstrumentDefinition \<Rightarrow> (string + unit) option" where
  "audit_version c i first d =
     (if def_instrument_id d \<noteq> i \<or> \<not> same_instrument_identity first d
      then Some (Inl ''instrument identity changes within one range'')
      else do {
        base \<leftarrow> contains_key (assets c) (def_base_asset_id d);
        both \<leftarrow> if base then contains_key (assets c) (def_quote_asset_id d) else Some False;
        Some (ensure both ''instrument range references an unknown asset'')
      })"

text \<open>One range; the result is the number of definitions covered so far.\<close>

definition audit_series :: "InstrumentCatalog \<Rightarrow> nat \<Rightarrow> InstrumentId \<times> InstrumentSeries \<Rightarrow> (string + nat) option" where
  "audit_series c covered = (\<lambda>(i, s).
     case checked_end s of
       None \<Rightarrow> Some (Inl ''instrument version range overflows its index'')
     | Some at_end \<Rightarrow>
         if series_length s = 0 \<or> length (definitions c) < at_end
         then Some (Inl ''instrument version range is empty or out of bounds'')
         else case checked fits_usize (covered + series_length s) of
           None \<Rightarrow> Some (Inl ''instrument version cardinality overflowed'')
         | Some covered' \<Rightarrow>
             then_do (audit_each (audit_overlap i s at_end) (iter (instruments c))) (\<lambda>_.
               let versions = take (series_length s) (drop (series_start s) (definitions c)) in do {
               first \<leftarrow> list_at versions 0;
               if def_instrument_id first \<noteq> i then Some (Inl ''instrument range key and definition disagree'')
               else then_do (audit_each (audit_version c i first) versions) (\<lambda>_.
                 if windows_any (\<lambda>a b. def_version b \<le> def_version a \<or> effective_from b \<le> effective_from a) versions
                 then Some (Inl ''instrument history is not strictly monotonic'')
                 else Some (Inr covered'))
             }))"

fun audit_ranges :: "InstrumentCatalog \<Rightarrow> nat \<Rightarrow> (InstrumentId \<times> InstrumentSeries) list \<Rightarrow> (string + nat) option" where
  "audit_ranges c covered [] = Some (Inr covered)"
| "audit_ranges c covered (r # rest) = then_do (audit_series c covered r) (\<lambda>covered'. audit_ranges c covered' rest)"

definition validate_catalog :: "InstrumentCatalog \<Rightarrow> (string + unit) option" where
  "validate_catalog c =
     then_do (Some (map_sum (\<lambda>_. ''instrument-catalog limits are contradictory'') id (catalog_limits_new (catalog_limits c)))) (\<lambda>_.
     then_do (audit_layout (assets c) ''asset-identifier hash layout is invalid'') (\<lambda>_.
     then_do (audit_layout (asset_codes c) ''asset-code hash layout is invalid'') (\<lambda>_.
     then_do (audit_layout (instruments c) ''instrument hash layout is invalid'') (\<lambda>_.
     if length (entries (assets c)) \<noteq> length (entries (asset_codes c))
     then Some (Inl ''asset identifier and code cardinalities differ'')
     else if max_instrument_versions (catalog_limits c) < length (definitions c) \<or>
        definition_capacity c < max_instrument_versions (catalog_limits c)
     then Some (Inl ''definition arena capacity or cardinality contradicts its maximum'')
     else
     then_do (audit_each (audit_asset c) (iter (assets c))) (\<lambda>_.
     then_do (audit_each (audit_code c) (iter (asset_codes c))) (\<lambda>_.
     then_do (audit_ranges c 0 (iter (instruments c))) (\<lambda>covered.
       Some (ensure (covered = length (definitions c)) ''instrument ranges do not cover the definition arena exactly''))))))))"

end
