(* ===== verification/InstrumentHistory.thy ===== *)
theory InstrumentHistory
  imports InstrumentCatalog
begin

text \<open>
  The catalogue as what it stands for: one version history per instrument.  The arena is the concatenation of
  the histories in the order of first registration and the index holds their ranges.
\<close>

section \<open>Ranges of a concatenation\<close>

definition arena_of :: "('i \<times> 'a list) list \<Rightarrow> 'a list" where
  "arena_of L = concat (map snd L)"

lemma arena_of_simps [simp]: "arena_of [] = []" "arena_of ((i, ds) # L) = ds @ arena_of L" "arena_of (L @ L') = arena_of L @ arena_of L'"
  by (simp_all add: arena_of_def)

fun tiles :: "nat \<Rightarrow> ('i \<times> 'a list) list \<Rightarrow> ('i \<times> InstrumentSeries) list" where
  "tiles n [] = []"
| "tiles n ((i, ds) # L) = (i, \<lparr>series_start = n, series_length = length ds\<rparr>) # tiles (n + length ds) L"

lemma tiles_keys [simp]: "map fst (tiles n L) = map fst L" "fst ` set (tiles n L) = fst ` set L"
proof -
  show "map fst (tiles n L) = map fst L" by (induction n L rule: tiles.induct) auto
  then have "set (map fst (tiles n L)) = set (map fst L)" by simp
  then show "fst ` set (tiles n L) = fst ` set L" by simp
qed

lemma tiles_append [simp]: "tiles n (L @ L') = tiles n L @ tiles (n + length (arena_of L)) L'"
  by (induction n L rule: tiles.induct) (auto simp: add.assoc)

lemma tiles_bounds: "(i, s) \<in> set (tiles n L) \<Longrightarrow> n \<le> series_start s \<and> series_start s + series_length s \<le> n + length (arena_of L)"
  by (induction n L rule: tiles.induct) fastforce+

lemma tiles_slice: "(i, s) \<in> set (tiles n L) \<Longrightarrow> (i, take (series_length s) (drop (series_start s - n) (arena_of L))) \<in> set L"
proof (induction n L rule: tiles.induct)
  case (2 n i' ds L)
  show ?case
  proof (cases "(i, s) \<in> set (tiles (n + length ds) L)")
    case True
    then have "n + length ds \<le> series_start s" using tiles_bounds [OF True] by simp
    then have "drop (series_start s - n) (ds @ arena_of L) = drop (series_start s - (n + length ds)) (arena_of L)"
      by (simp add: diff_diff_eq)
    then show ?thesis using 2(1) [OF True] by simp
  next
    case False
    then show ?thesis using 2(2) by auto
  qed
qed simp

lemma tiles_disjoint:
  assumes "(i, s) \<in> set (tiles n L)" "(j, t) \<in> set (tiles n L)" "i \<noteq> j"
  shows "series_start s + series_length s \<le> series_start t \<or> series_start t + series_length t \<le> series_start s"
  using assms
proof (induction n L rule: tiles.induct)
  case (2 n i' ds L)
  then show ?case using tiles_bounds [of i s "n + length ds" L] tiles_bounds [of j t "n + length ds" L] by auto
qed simp

lemma tiles_total: "sum_list (map (series_length \<circ> snd) (tiles n L)) = length (arena_of L)"
  by (induction n L rule: tiles.induct) auto

text \<open>Inserting one element at the end of a history.\<close>

lemma tiles_shift: "at_end \<le> n \<Longrightarrow> map (apsnd (shift_after at_end)) (tiles n L) = tiles (Suc n) L"
  by (induction n L rule: tiles.induct) (auto simp: shift_after_def)

lemma tiles_before:
  assumes "\<forall>(i, ds) \<in> set L. ds \<noteq> []" "n + length (arena_of L) \<le> at_end"
  shows "map (apsnd (shift_after at_end)) (tiles n L) = tiles n L"
  using assms
proof (induction n L rule: tiles.induct)
  case (2 n i ds L)
  then have "0 < length ds" by simp
  then show ?case using 2 by (simp add: shift_after_def add.assoc del: length_greater_0_conv)
qed simp

lemma map_of_apsnd: "map_of (map (apsnd f) xs) = map_option f \<circ> map_of xs"
  by (induction xs) auto

lemma tiles_extend:
  assumes "distinct (map fst (pre @ (i, ds) # post))" "\<forall>(j, h) \<in> set (pre @ (i, ds) # post). h \<noteq> []"
    and "at_end = length (arena_of pre) + length ds"
  shows "(map_option (shift_after at_end) \<circ> map_of (tiles 0 (pre @ (i, ds) # post)))
      (i \<mapsto> \<lparr>series_start = length (arena_of pre), series_length = length ds + 1\<rparr>) =
    map_of (tiles 0 (pre @ (i, ds @ [d]) # post))"
proof -
  let ?L = "pre @ (i, ds) # post" and ?s = "\<lparr>series_start = length (arena_of pre), series_length = length ds\<rparr>"
  have "map_option (shift_after at_end) \<circ> map_of (tiles 0 ?L) = map_of (map (apsnd (shift_after at_end)) (tiles 0 ?L))"
    by (simp only: map_of_apsnd)
  also have "map (apsnd (shift_after at_end)) (tiles 0 ?L) = tiles 0 pre @ (i, ?s) # tiles (Suc at_end) post"
    using assms by (simp add: tiles_before tiles_shift shift_after_def)
  finally have "map_option (shift_after at_end) \<circ> map_of (tiles 0 ?L) = map_of (tiles 0 pre @ (i, ?s) # tiles (Suc at_end) post)" .
  moreover have "map_of (tiles 0 pre) i = None" "map_of (tiles (Suc at_end) post) i = None"
    using assms(1) by (simp_all add: map_of_eq_None_iff)
  ultimately show ?thesis
    using assms(3) by (auto simp: map_add_def fun_eq_iff split: option.splits)
qed

section \<open>The represented catalogue\<close>

definition versions_ok :: "(AssetId \<rightharpoonup> AssetDefinition) \<Rightarrow> InstrumentId \<Rightarrow> InstrumentDefinition list \<Rightarrow> bool" where
  "versions_ok known i h \<longleftrightarrow> h \<noteq> [] \<and>
     (\<forall>d \<in> set h. def_instrument_id d = i \<and> same_instrument_identity (hd h) d \<and>
        known (def_base_asset_id d) \<noteq> None \<and> known (def_quote_asset_id d) \<noteq> None) \<and>
     sorted_wrt (\<lambda>a b. def_version a < def_version b \<and> effective_from a < effective_from b) h"

definition assets_agree :: "(AssetId \<rightharpoonup> AssetDefinition) \<Rightarrow> (AssetCode \<rightharpoonup> AssetId) \<Rightarrow> bool" where
  "assets_agree known codes \<longleftrightarrow>
     (\<forall>i asset. known i = Some asset \<longrightarrow> asset_id_of asset = i \<and> codes (asset_code asset) = Some i) \<and>
     (\<forall>code i. codes code = Some i \<longrightarrow> map_option asset_code (known i) = Some code)"

definition tables_ok :: "InstrumentCatalog \<Rightarrow> bool" where
  "tables_ok c \<longleftrightarrow> table_ok (assets c) \<and> table_ok (asset_codes c) \<and> table_ok (instruments c) \<and>
     maximum (assets c) = max_assets (catalog_limits c) \<and> maximum (asset_codes c) = max_assets (catalog_limits c) \<and>
     maximum (instruments c) = max_instruments (catalog_limits c) \<and> catalog_limits_new (catalog_limits c) = Inr (catalog_limits c) \<and>
     max_instrument_versions (catalog_limits c) \<le> definition_capacity c \<and> fits_usize (max_instrument_versions (catalog_limits c))"

definition catalog_represents :: "InstrumentCatalog \<Rightarrow> (InstrumentId \<times> InstrumentDefinition list) list \<Rightarrow> bool" where
  "catalog_represents c L \<longleftrightarrow> tables_ok c \<and> assets_agree (contents (assets c)) (contents (asset_codes c)) \<and>
     distinct (map fst L) \<and> (\<forall>(i, h) \<in> set L. versions_ok (contents (assets c)) i h) \<and>
     contents (instruments c) = map_of (tiles 0 L) \<and> definitions c = arena_of L \<and>
     length (definitions c) \<le> max_instrument_versions (catalog_limits c)"

text \<open>What a catalogue says: the registered assets and the version history of every instrument.\<close>

definition known_assets :: "InstrumentCatalog \<Rightarrow> AssetId \<rightharpoonup> AssetDefinition" where
  "known_assets c = contents (assets c)"

definition histories :: "InstrumentCatalog \<Rightarrow> InstrumentId \<rightharpoonup> InstrumentDefinition list" where
  "histories c = map_option (\<lambda>s. take (series_length s) (drop (series_start s) (definitions c))) \<circ> contents (instruments c)"

lemma catalogD:
  assumes "catalog_represents c L"
  shows "tables_ok c" "assets_agree (contents (assets c)) (contents (asset_codes c))" "distinct (map fst L)"
    "contents (instruments c) = map_of (tiles 0 L)" "definitions c = arena_of L"
    "length (arena_of L) \<le> max_instrument_versions (catalog_limits c)"
    "(i, h) \<in> set L \<Longrightarrow> versions_ok (contents (assets c)) i h"
  using assms by (auto simp: catalog_represents_def)

lemma catalog_range:
  assumes "catalog_represents c L" "contents (instruments c) i = Some s"
  shows "(i, s) \<in> set (tiles 0 L)" "checked_end s = Some (series_start s + series_length s)"
    "series_start s + series_length s \<le> length (definitions c)"
    "series_versions s c = Some (take (series_length s) (drop (series_start s) (definitions c)))"
    "(i, take (series_length s) (drop (series_start s) (definitions c))) \<in> set L"
proof -
  note r = catalogD [OF assms(1)]
  show t: "(i, s) \<in> set (tiles 0 L)" using assms(2) r(4) by (simp add: map_of_SomeD)
  from tiles_bounds [OF t] show b: "series_start s + series_length s \<le> length (definitions c)" by (simp add: r(5))
  moreover have "fits_usize (max_instrument_versions (catalog_limits c))" using r(1) by (simp add: tables_ok_def)
  ultimately show e: "checked_end s = Some (series_start s + series_length s)"
    using r(5,6) by (auto simp: checked_end_def checked_def intro: fits_u64_mono)
  show "series_versions s c = Some (take (series_length s) (drop (series_start s) (definitions c)))"
    using e b by (simp add: series_versions_def)
  show "(i, take (series_length s) (drop (series_start s) (definitions c))) \<in> set L"
    using tiles_slice [OF t] by (simp add: r(5))
qed

lemma catalog_histories: "catalog_represents c L \<Longrightarrow> histories c = map_of L"
proof
  fix i
  assume r: "catalog_represents c L"
  note d = catalogD [OF r]
  show "histories c i = map_of L i"
  proof (cases "contents (instruments c) i")
    case None
    then have "i \<notin> fst ` set L" using d(4) by (simp add: map_of_eq_None_iff)
    then show ?thesis using None map_of_eq_None_iff [of L i] by (simp add: histories_def)
  next
    case (Some s)
    then show ?thesis
      using map_of_is_SomeI [OF d(3) catalog_range(5) [OF r Some]] by (simp add: histories_def)
  qed
qed


section \<open>What a registration means\<close>

definition total_versions :: "(InstrumentId \<rightharpoonup> InstrumentDefinition list) \<Rightarrow> nat" where
  "total_versions H = (\<Sum>i\<in>dom H. length (the (H i)))"

definition asset_outcome ::
    "nat \<Rightarrow> (AssetId \<rightharpoonup> AssetDefinition) \<Rightarrow> AssetDefinition \<Rightarrow> InstrumentError + (AssetId \<rightharpoonup> AssetDefinition)" where
  "asset_outcome upper known asset =
     and_then (ensure (known (asset_id_of asset) = None \<and> (\<forall>other \<in> ran known. asset_code other \<noteq> asset_code asset)) DuplicateAsset) (\<lambda>_.
     and_then (ensure (card (dom known) < upper) (CapacityExceeded AssetIdentifiers upper (card (dom known) + 1))) (\<lambda>_.
       Inr (known(asset_id_of asset \<mapsto> asset))))"

definition known_outcome :: "(AssetId \<rightharpoonup> AssetDefinition) \<Rightarrow> InstrumentDefinition \<Rightarrow> InstrumentError + unit" where
  "known_outcome known d =
     and_then (ensure (known (def_base_asset_id d) \<noteq> None) (UnknownAsset (def_base_asset_id d))) (\<lambda>_.
       ensure (known (def_quote_asset_id d) \<noteq> None) (UnknownAsset (def_quote_asset_id d)))"

definition successor_outcome :: "InstrumentDefinition \<Rightarrow> InstrumentDefinition list \<Rightarrow> InstrumentError + unit" where
  "successor_outcome d h =
     and_then (ensure (\<forall>p \<in> set h. def_version p \<noteq> def_version d) DuplicateInstrumentVersion) (\<lambda>_.
     and_then (ensure (\<forall>p \<in> set h. def_version p < def_version d \<and> effective_from p < effective_from d) NonMonotonicVersion) (\<lambda>_.
       ensure (\<forall>p \<in> set h. same_instrument_identity d p) IdentityChanged))"

definition version_outcome ::
    "InstrumentCatalogLimits \<Rightarrow> (AssetId \<rightharpoonup> AssetDefinition) \<Rightarrow> (InstrumentId \<rightharpoonup> InstrumentDefinition list) \<Rightarrow> InstrumentDefinition \<Rightarrow>
     InstrumentError + (InstrumentId \<rightharpoonup> InstrumentDefinition list)" where
  "version_outcome limits known H d =
     (let i = def_instrument_id d; h = (case H i of None \<Rightarrow> [] | Some h \<Rightarrow> h) in
      and_then (known_outcome known d) (\<lambda>_.
      and_then (successor_outcome d h) (\<lambda>_.
      and_then (ensure (H i \<noteq> None \<or> card (dom H) < max_instruments limits)
        (CapacityExceeded Instruments (max_instruments limits) (card (dom H) + 1))) (\<lambda>_.
      and_then (ensure (total_versions H < max_instrument_versions limits)
        (CapacityExceeded InstrumentVersions (max_instrument_versions limits) (total_versions H + 1))) (\<lambda>_.
        Inr (H(i \<mapsto> h @ [d])))))))"

lemma total_versions_arena: "distinct (map fst L) \<Longrightarrow> total_versions (map_of L) = length (arena_of L)"
proof (induction L)
  case (Cons x L)
  obtain i ds where x: "x = (i, ds)" by force
  have i: "i \<notin> dom (map_of L)" using Cons(2) by (simp add: x map_of_eq_None_iff domIff)
  have "total_versions (map_of (x # L)) = length ds + (\<Sum>j\<in>dom (map_of L). length (the (((map_of L)(i \<mapsto> ds)) j)))"
    using i by (simp add: x total_versions_def finite_dom_map_of)
  also have "(\<Sum>j\<in>dom (map_of L). length (the (((map_of L)(i \<mapsto> ds)) j))) = total_versions (map_of L)"
    unfolding total_versions_def using i by (intro sum.cong) auto
  finally show ?case using Cons by (simp add: x)
qed (simp add: total_versions_def)

lemma insert_unwrap_ok:
  assumes "table_ok m" "contents m k = None" "length (entries m) < maximum m"
  shows "\<exists>m'. insert_unwrap m k v = Some (None, m') \<and> table_ok m' \<and> contents m' = (contents m)(k \<mapsto> v) \<and> maximum m' = maximum m"
  using try_insert_ok(2) [OF assms(1,2), of v] assms(3) by (auto simp: insert_unwrap_def table_card [OF assms(1)])

lemma agree_size:
  assumes "table_ok a" "table_ok b" "assets_agree (contents a) (contents b)"
  shows "length (entries a) = length (entries b)"
proof -
  let ?f = "\<lambda>i. asset_code (the (contents a i))"
  have forth: "contents b (?f i) = Some i" if "i \<in> dom (contents a)" for i
    using assms(3) that by (auto simp: assets_agree_def)
  have home: "code \<in> ?f ` dom (contents a)" if "contents b code = Some i" for code i
  proof -
    have "map_option asset_code (contents a i) = Some code" using assms(3) that by (auto simp: assets_agree_def)
    then show ?thesis by (auto intro!: rev_image_eqI [of i])
  qed
  have "inj_on ?f (dom (contents a))" by (rule inj_on_inverseI [where g = "\<lambda>code. the (contents b code)"]) (simp add: forth)
  moreover have "?f ` dom (contents a) = dom (contents b)"
    using forth home by (intro equalityI subsetI) (erule imageE, blast, blast)
  ultimately have "card (dom (contents b)) = card (dom (contents a))" using card_image by metis
  then show ?thesis using table_card [OF assms(1)] table_card [OF assms(2)] by simp
qed

lemma agree_code:
  assumes "assets_agree known codes"
  shows "codes code = None \<longleftrightarrow> (\<forall>other \<in> ran known. asset_code other \<noteq> code)"
proof
  show "\<forall>other \<in> ran known. asset_code other \<noteq> code" if "codes code = None"
    using assms that by (auto simp: assets_agree_def ran_def)
  show "codes code = None" if "\<forall>other \<in> ran known. asset_code other \<noteq> code"
  proof (rule ccontr)
    assume "codes code \<noteq> None"
    then obtain i where "codes code = Some i" by blast
    then have "map_option asset_code (known i) = Some code" using assms by (simp add: assets_agree_def)
    then show False using that by (auto simp: ran_def)
  qed
qed

lemma agree_insert:
  assumes "assets_agree known codes" "known (asset_id_of asset) = None" "codes (asset_code asset) = None"
  shows "assets_agree (known(asset_id_of asset \<mapsto> asset)) (codes(asset_code asset \<mapsto> asset_id_of asset))"
proof -
  have a: "asset_id_of other = i" "codes (asset_code other) = Some i" if "known i = Some other" for i other
    using assms(1) that by (auto simp: assets_agree_def)
  have b: "\<exists>other. known i = Some other \<and> asset_code other = code" if "codes code = Some i" for i code
    using assms(1) that by (auto simp: assets_agree_def)
  have "asset_code other \<noteq> asset_code asset" if "known i = Some other" for i other
    using a(2) [OF that] assms(3) by auto
  moreover have "i \<noteq> asset_id_of asset" if "codes code = Some i" for i code
    using b [OF that] assms(2) by auto
  ultimately show ?thesis using a b by (auto simp: assets_agree_def)
qed

lemma versions_ok_mono: "versions_ok known i h \<Longrightarrow> (\<And>a. known a \<noteq> None \<Longrightarrow> known' a \<noteq> None) \<Longrightarrow> versions_ok known' i h"
  unfolding versions_ok_def by blast

lemma register_asset_ok:
  assumes "catalog_represents c L"
  shows "\<exists>r. register_asset asset c = Some r \<and>
    (case r of Inl e \<Rightarrow> asset_outcome (max_assets (catalog_limits c)) (known_assets c) asset = Inl e
     | Inr c' \<Rightarrow> asset_outcome (max_assets (catalog_limits c)) (known_assets c) asset = Inr (known_assets c') \<and>
         catalog_represents c' L \<and> catalog_limits c' = catalog_limits c)"
proof -
  note r = catalogD [OF assms]
  have t: "table_ok (assets c)" "table_ok (asset_codes c)" "maximum (assets c) = max_assets (catalog_limits c)"
      "maximum (asset_codes c) = max_assets (catalog_limits c)"
    using r(1) by (simp_all add: tables_ok_def)
  note size = agree_size [OF t(1,2) r(2)] and code = agree_code [OF r(2), of "asset_code asset"]
  consider "contents (assets c) (asset_id_of asset) \<noteq> None \<or> contents (asset_codes c) (asset_code asset) \<noteq> None"
    | "contents (assets c) (asset_id_of asset) = None" "contents (asset_codes c) (asset_code asset) = None"
        "max_assets (catalog_limits c) \<le> length (entries (assets c))"
    | "contents (assets c) (asset_id_of asset) = None" "contents (asset_codes c) (asset_code asset) = None"
        "length (entries (assets c)) < max_assets (catalog_limits c)"
    by fastforce
  then show ?thesis
  proof cases
    case 1
    then have "register_asset asset c = Some (Inl DuplicateAsset)"
      by (auto simp: register_asset_def contains_ok [OF t(1)] contains_ok [OF t(2)])
    then show ?thesis using 1 code by (auto simp: asset_outcome_def known_assets_def result_simps)
  next
    case 2
    then show ?thesis
      using code by (simp add: register_asset_def contains_ok [OF t(1)] contains_ok [OF t(2)] asset_outcome_def known_assets_def
          table_card [OF t(1)])
  next
    case 3
    obtain by_code where by_code: "insert_unwrap (asset_codes c) (asset_code asset) (asset_id_of asset) = Some (None, by_code)"
        "table_ok by_code" "contents by_code = (contents (asset_codes c))(asset_code asset \<mapsto> asset_id_of asset)"
        "maximum by_code = maximum (asset_codes c)"
      using insert_unwrap_ok [OF t(2) 3(2), of "asset_id_of asset"] 3(3) size t(4) by auto
    obtain by_id where by_id: "insert_unwrap (assets c) (asset_id_of asset) asset = Some (None, by_id)"
        "table_ok by_id" "contents by_id = (contents (assets c))(asset_id_of asset \<mapsto> asset)" "maximum by_id = maximum (assets c)"
      using insert_unwrap_ok [OF t(1) 3(1), of asset] 3(3) t(3) by auto
    let ?c = "c\<lparr>asset_codes := by_code, assets := by_id\<rparr>"
    have "register_asset asset c = Some (Inr ?c)"
      using 3 by (simp add: register_asset_def contains_ok [OF t(1)] contains_ok [OF t(2)] by_code(1) by_id(1))
    moreover have "asset_outcome (max_assets (catalog_limits c)) (known_assets c) asset = Inr (known_assets ?c)"
      using 3 code by (simp add: asset_outcome_def known_assets_def table_card [OF t(1)] by_id(3))
    moreover have "catalog_represents ?c L"
      unfolding catalog_represents_def
      using r assms by_code(2-4) by_id(2-4) agree_insert [OF r(2) 3(1,2)]
      by (auto simp: tables_ok_def catalog_represents_def intro: versions_ok_mono)
    ultimately show ?thesis by auto
  qed
qed


section \<open>Registering a version\<close>

lemma check_assets_ok:
  "table_ok (assets c) \<Longrightarrow>
   check_assets (assets c) [def_base_asset_id d, def_quote_asset_id d] = Some (known_outcome (known_assets c) d)"
  by (simp add: contains_ok ensure_def known_outcome_def known_assets_def)

lemma same_identity_trans:
  "same_instrument_identity a b \<Longrightarrow> same_instrument_identity a c \<longleftrightarrow> same_instrument_identity b c"
  "same_instrument_identity a b \<longleftrightarrow> same_instrument_identity b a"
  by (auto simp: same_instrument_identity_def)

lemma successor_ok:
  assumes "versions_ok known i h"
  shows "check_successor d h = Some (successor_outcome d h)"
proof -
  have ne: "h \<noteq> []" and same: "\<And>p. p \<in> set h \<Longrightarrow> same_instrument_identity (hd h) p"
    and sorted: "sorted_wrt (\<lambda>a b. def_version a < def_version b \<and> effective_from a < effective_from b) h"
    using assms by (auto simp: versions_ok_def)
  have dup: "binary_search_by_key def_version (def_version d) h = None \<longleftrightarrow> (\<forall>p \<in> set h. def_version p \<noteq> def_version d)"
    by (force simp: binary_search_None image_iff)
  have before: "p = last h \<or> def_version p < def_version (last h) \<and> effective_from p < effective_from (last h)" if "p \<in> set h" for p
  proof -
    have "h = butlast h @ [last h]" using ne by simp
    then have "sorted_wrt (\<lambda>a b. def_version a < def_version b \<and> effective_from a < effective_from b) (butlast h @ [last h])"
      and "p \<in> set (butlast h @ [last h])" using sorted that by simp_all
    then show ?thesis by (auto simp: sorted_wrt_append)
  qed
  have mono: "(\<forall>p \<in> set h. def_version p < def_version d \<and> effective_from p < effective_from d) \<longleftrightarrow>
      \<not> (def_version d \<le> def_version (last h) \<or> effective_from d \<le> effective_from (last h))"
  proof
    assume "\<forall>p \<in> set h. def_version p < def_version d \<and> effective_from p < effective_from d"
    then show "\<not> (def_version d \<le> def_version (last h) \<or> effective_from d \<le> effective_from (last h))"
      using last_in_set [OF ne] by fastforce
  next
    assume n: "\<not> (def_version d \<le> def_version (last h) \<or> effective_from d \<le> effective_from (last h))"
    show "\<forall>p \<in> set h. def_version p < def_version d \<and> effective_from p < effective_from d"
      using before n by fastforce
  qed
  have ident: "(\<forall>p \<in> set h. same_instrument_identity d p) \<longleftrightarrow> same_instrument_identity d (last h)"
    using same last_in_set [OF ne] unfolding same_instrument_identity_def by metis
  show ?thesis
    unfolding check_successor_def successor_outcome_def dup mono ident using ne by (simp add: ensure_def Let_def)
qed

lemma tiles_at:
  assumes "distinct (map fst (pre @ (i, h) # post))"
  shows "map_of (tiles 0 (pre @ (i, h) # post)) i = Some \<lparr>series_start = length (arena_of pre), series_length = length h\<rparr>"
proof -
  have "map_of (tiles 0 pre) i = None" using assms by (simp add: map_of_eq_None_iff)
  then show ?thesis by (simp add: map_add_def)
qed

lemma store_existing:
  assumes "catalog_represents c (pre @ (def_instrument_id d, h) # post)"
    and "length (definitions c) < max_instrument_versions (catalog_limits c)"
    and "versions_ok (contents (assets c)) (def_instrument_id d) (h @ [d])"
  shows "\<exists>c'. store_version d (contents (instruments c) (def_instrument_id d)) c = Some c' \<and>
    catalog_represents c' (pre @ (def_instrument_id d, h @ [d]) # post) \<and> assets c' = assets c \<and> catalog_limits c' = catalog_limits c"
proof -
  let ?i = "def_instrument_id d" and ?L = "pre @ (def_instrument_id d, h) # post" and ?L' = "pre @ (def_instrument_id d, h @ [d]) # post"
  let ?at = "length (arena_of pre) + length h"
  let ?s = "\<lparr>series_start = length (arena_of pre), series_length = length h\<rparr>"
  note r = catalogD [OF assms(1)]
  have t: "table_ok (instruments c)" using r(1) by (simp add: tables_ok_def)
  have s: "contents (instruments c) ?i = Some ?s" using tiles_at [OF r(3)] r(4) by simp
  note range = catalog_range [OF assms(1) s]
  define shifted where "shifted = map_values (shift_after ?at) (instruments c)"
  note sh = map_values_ok [OF t, of "shift_after ?at", folded shifted_def]
  have si: "contents shifted ?i = Some (shift_after ?at ?s)" using s sh(2) by simp
  have hne: "h \<noteq> []" using r(7) [of ?i h] by (simp add: versions_ok_def)
  then have keep: "shift_after ?at ?s = ?s" by (simp add: shift_after_def)
  obtain ranges where ranges: "update_value shifted ?i (\<lambda>s. s\<lparr>series_length := series_length s + 1\<rparr>) = Some ranges"
      "table_ok ranges" "maximum ranges = maximum (instruments c)"
      "contents ranges = (contents shifted)(?i \<mapsto> \<lparr>series_start = length (arena_of pre), series_length = length h + 1\<rparr>)"
    using update_value_ok [OF sh(1), of ?i "\<lambda>s. s\<lparr>series_length := series_length s + 1\<rparr>"] si keep sh(3) by auto
  have "\<forall>(j, h) \<in> set ?L. h \<noteq> []" using r(7) by (auto simp: versions_ok_def)
  then have tiled: "contents ranges = map_of (tiles 0 ?L')"
    using tiles_extend [OF r(3), of ?at] ranges(4) sh(2) r(4) by simp
  let ?c = "c\<lparr>definitions := arena_of ?L', instruments := ranges\<rparr>"
  have "store_version d (contents (instruments c) ?i) c = Some ?c"
    using range(2,3) si ranges(1)
    by (simp add: store_version_def s r(5) shifted_def [symmetric] Let_def contains_ok [OF sh(1)])
  moreover have "catalog_represents ?c ?L'"
    unfolding catalog_represents_def using r(1-3,5-7) assms(2,3) ranges(2,3) tiled
    by (auto simp: tables_ok_def)
  ultimately show ?thesis by auto
qed


lemma store_new:
  assumes "catalog_represents c L" "contents (instruments c) (def_instrument_id d) = None"
    and "length (entries (instruments c)) < max_instruments (catalog_limits c)"
    and "length (definitions c) < max_instrument_versions (catalog_limits c)"
    and "versions_ok (contents (assets c)) (def_instrument_id d) [d]"
  shows "\<exists>c'. store_version d None c = Some c' \<and> catalog_represents c' (L @ [(def_instrument_id d, [d])]) \<and>
    assets c' = assets c \<and> catalog_limits c' = catalog_limits c"
proof -
  let ?i = "def_instrument_id d"
  note r = catalogD [OF assms(1)]
  have t: "table_ok (instruments c)" "maximum (instruments c) = max_instruments (catalog_limits c)"
    using r(1) by (simp_all add: tables_ok_def)
  have fresh: "map_of (tiles 0 L) ?i = None" using assms(2) r(4) by simp
  then have new: "?i \<notin> fst ` set L" by (simp add: map_of_eq_None_iff)
  obtain ranges where ranges: "insert_unwrap (instruments c) ?i \<lparr>series_start = length (definitions c), series_length = 1\<rparr> = Some (None, ranges)"
      "table_ok ranges" "contents ranges = (contents (instruments c))(?i \<mapsto> \<lparr>series_start = length (definitions c), series_length = 1\<rparr>)"
      "maximum ranges = maximum (instruments c)"
    using insert_unwrap_ok [OF t(1) assms(2)] assms(3) t(2) by metis
  have "contents ranges = map_of (tiles 0 (L @ [(?i, [d])]))"
    using fresh ranges(3) r(4,5) by (auto simp: map_add_def fun_eq_iff split: option.splits)
  then have "catalog_represents (c\<lparr>instruments := ranges, definitions := definitions c @ [d]\<rparr>) (L @ [(?i, [d])])"
    unfolding catalog_represents_def using r(1-3,5,7) assms(4,5) ranges(2,4) new by (auto simp: tables_ok_def)
  then show ?thesis using ranges(1) by (auto simp: store_version_def)
qed

lemma map_of_middle: "i \<notin> fst ` set pre \<Longrightarrow> map_of (pre @ (i, x) # post) = (map_of (pre @ (i, y) # post))(i \<mapsto> x)"
  by (induction pre) auto

text \<open>The histories a catalogue catalog_represents, whatever the order in its arena.\<close>

lemma registers:
  assumes "catalog_represents c L" "known_assets c (def_base_asset_id d) \<noteq> None" "known_assets c (def_quote_asset_id d) \<noteq> None"
    and "\<forall>p \<in> set (case map_of L (def_instrument_id d) of None \<Rightarrow> [] | Some h \<Rightarrow> h).
      def_version p < def_version d \<and> effective_from p < effective_from d \<and> same_instrument_identity d p"
    and "map_of L (def_instrument_id d) \<noteq> None \<or> length (entries (instruments c)) < max_instruments (catalog_limits c)"
    and "length (definitions c) < max_instrument_versions (catalog_limits c)"
  shows "\<exists>c' L'. store_version d (contents (instruments c) (def_instrument_id d)) c = Some c' \<and> catalog_represents c' L' \<and>
    map_of L' = (map_of L)(def_instrument_id d \<mapsto> (case map_of L (def_instrument_id d) of None \<Rightarrow> [] | Some h \<Rightarrow> h) @ [d]) \<and>
    assets c' = assets c \<and> catalog_limits c' = catalog_limits c"
proof (cases "map_of L (def_instrument_id d)")
  case None
  note r = catalogD [OF assms(1)]
  have "map_of (tiles 0 L) (def_instrument_id d) = None" using None by (simp add: map_of_eq_None_iff)
  then have c: "contents (instruments c) (def_instrument_id d) = None" using r(4) by simp
  have "versions_ok (contents (assets c)) (def_instrument_id d) [d]"
    using assms(2,3) by (simp add: versions_ok_def known_assets_def same_instrument_identity_def)
  then obtain c' where c': "store_version d None c = Some c'" "catalog_represents c' (L @ [(def_instrument_id d, [d])])"
      "assets c' = assets c" "catalog_limits c' = catalog_limits c"
    using store_new [OF assms(1) c] assms(5,6) None by auto
  moreover have "map_of (L @ [(def_instrument_id d, [d])]) = (map_of L)(def_instrument_id d \<mapsto> [d])"
    using None by (auto simp: map_add_def fun_eq_iff split: option.splits)
  ultimately show ?thesis using c None by auto
next
  case (Some h)
  note r = catalogD [OF assms(1)]
  obtain pre post where L: "L = pre @ (def_instrument_id d, h) # post"
    using map_of_SomeD [OF Some] by (meson split_list)
  have h: "versions_ok (contents (assets c)) (def_instrument_id d) h" using r(7) L by simp
  then have "versions_ok (contents (assets c)) (def_instrument_id d) (h @ [d])"
    using assms(2-4) Some same_identity_trans(2) [of d] by (auto simp: versions_ok_def known_assets_def sorted_wrt_append)
  then obtain c' where c': "store_version d (contents (instruments c) (def_instrument_id d)) c = Some c'"
      "catalog_represents c' (pre @ (def_instrument_id d, h @ [d]) # post)" "assets c' = assets c" "catalog_limits c' = catalog_limits c"
    using store_existing [of c pre d h post] assms(1,6) L by auto
  moreover have "map_of (pre @ (def_instrument_id d, h @ [d]) # post) = (map_of L)(def_instrument_id d \<mapsto> h @ [d])"
    using map_of_middle [of "def_instrument_id d" pre "h @ [d]" post h] r(3) L by auto
  ultimately show ?thesis using Some by auto
qed

lemma register_instrument_ok:
  assumes "catalog_represents c L"
  shows "\<exists>r. register_instrument d c = Some r \<and>
    (case r of Inl e \<Rightarrow> version_outcome (catalog_limits c) (known_assets c) (histories c) d = Inl e
     | Inr c' \<Rightarrow> version_outcome (catalog_limits c) (known_assets c) (histories c) d = Inr (histories c') \<and>
         (\<exists>L'. catalog_represents c' L') \<and> known_assets c' = known_assets c \<and> catalog_limits c' = catalog_limits c)"
proof -
  note r = catalogD [OF assms]
  let ?i = "def_instrument_id d"
  have t: "table_ok (assets c)" "table_ok (instruments c)" "max_instrument_versions (catalog_limits c) \<le> definition_capacity c"
    using r(1) by (simp_all add: tables_ok_def)
  have H: "histories c = map_of L" by (rule catalog_histories [OF assms])
  have range: "contents (instruments c) ?i = None \<longleftrightarrow> map_of L ?i = None"
    using r(4) by (simp add: map_of_eq_None_iff)
  have n: "length (entries (instruments c)) = card (dom (map_of L))"
    using table_card [OF t(2)] r(4) by (simp add: dom_map_of_conv_image_fst)
  have total: "length (definitions c) = total_versions (map_of L)" using total_versions_arena [OF r(3)] r(5) by simp
  define h where "h = (case map_of L ?i of None \<Rightarrow> [] | Some h \<Rightarrow> h)"
  have checked: "(case contents (instruments c) ?i of None \<Rightarrow> Some (Inr ()) | Some series \<Rightarrow> do { versions \<leftarrow> series_versions series c; check_successor d versions }) =
      Some (successor_outcome d h)"
  proof (cases "contents (instruments c) ?i")
    case None
    then show ?thesis using range by (simp add: h_def successor_outcome_def)
  next
    case (Some s)
    note rr = catalog_range [OF assms Some]
    have "map_of L ?i = Some (take (series_length s) (drop (series_start s) (definitions c)))"
      using map_of_is_SomeI [OF r(3) rr(5)] .
    then show ?thesis using Some rr(4) successor_ok [OF r(7) [OF rr(5)]] by (simp add: h_def)
  qed
  let ?new = "\<lambda>_. if contents (instruments c) ?i = None \<and> max_instruments (catalog_limits c) \<le> length (entries (instruments c))
         then Some (Inl (CapacityExceeded Instruments (max_instruments (catalog_limits c)) (length (entries (instruments c)) + 1)))
         else if max_instrument_versions (catalog_limits c) \<le> length (definitions c)
         then Some (Inl (CapacityExceeded InstrumentVersions (max_instrument_versions (catalog_limits c)) (length (definitions c) + 1)))
         else if \<not> length (definitions c) < definition_capacity c then None
         else map_option Inr (store_version d (contents (instruments c) ?i) c)"
  have run: "register_instrument d c = then_do (Some (known_outcome (known_assets c) d)) (\<lambda>_. then_do (Some (successor_outcome d h)) ?new)"
    unfolding register_instrument_def check_assets_ok [OF t(1)] get_ok [OF t(2)] Option.bind.bind_lunit checked ..
  show ?thesis
  proof (cases "is_ok (known_outcome (known_assets c) d) \<and> is_ok (successor_outcome d h) \<and>
      (map_of L ?i \<noteq> None \<or> length (entries (instruments c)) < max_instruments (catalog_limits c)) \<and>
      length (definitions c) < max_instrument_versions (catalog_limits c)")
    case True
    then have k: "known_outcome (known_assets c) d = Inr ()" "successor_outcome d h = Inr ()" by (auto simp: is_ok_def)
    obtain c' L' where c': "store_version d (contents (instruments c) ?i) c = Some c'" "catalog_represents c' L'"
        "map_of L' = (map_of L)(?i \<mapsto> h @ [d])" "assets c' = assets c" "catalog_limits c' = catalog_limits c"
      using registers [OF assms, of d, folded h_def] True k by (auto simp: known_outcome_def successor_outcome_def result_simps)
    have "register_instrument d c = Some (Inr c')"
      unfolding run k using True c'(1) t(3) range by (auto simp: then_do_def)
    moreover have "version_outcome (catalog_limits c) (known_assets c) (histories c) d = Inr (histories c')"
      unfolding version_outcome_def H catalog_histories [OF c'(2)] c'(3) Let_def h_def [symmetric] k using True n total by simp
    ultimately show ?thesis using c' by (auto simp: known_assets_def)
  next
    case False
    then have "\<exists>e. register_instrument d c = Some (Inl e) \<and>
        version_outcome (catalog_limits c) (known_assets c) (histories c) d = Inl e"
      unfolding run version_outcome_def H Let_def h_def [symmetric]
      by (cases "known_outcome (known_assets c) d"; cases "successor_outcome d h")
        (auto simp: then_do_def range n total ensure_def)
    then show ?thesis by auto
  qed
qed


section \<open>Reachable catalogues\<close>

text \<open>\<open>grant\<close> is the capacity the allocator answers a reservation with, at least what was asked for.\<close>

inductive catalog_reachable :: "InstrumentCatalogLimits \<Rightarrow> InstrumentCatalog \<Rightarrow> bool" for limits where
  created: "catalog_with_limits reserve grant hashers limits = Inr c \<Longrightarrow> (\<And>n capacity. grant n = Some capacity \<Longrightarrow> n \<le> capacity) \<Longrightarrow>
    fits_usize (max_instrument_versions limits) \<Longrightarrow> catalog_reachable limits c"
| asset_registered: "catalog_reachable limits c \<Longrightarrow> register_asset asset c = Some (Inr c') \<Longrightarrow> catalog_reachable limits c'"
| version_registered: "catalog_reachable limits c \<Longrightarrow> register_instrument d c = Some (Inr c') \<Longrightarrow> catalog_reachable limits c'"

lemma limits_new_Inr: "catalog_limits_new spec = Inr limits \<Longrightarrow> limits = spec"
  by (simp add: catalog_limits_new_def split: if_splits)

lemma created_represents:
  assumes "catalog_with_limits reserve grant hashers limits = Inr c" "\<And>n capacity. grant n = Some capacity \<Longrightarrow> n \<le> capacity"
    and "fits_usize (max_instrument_versions limits)"
  shows "catalog_represents c []" "catalog_limits c = limits"
proof -
  obtain valid by_id by_code ranges capacity where c: "catalog_limits_new limits = Inr valid"
      "try_with_hasher (reserve AssetIdentifiers) (max_assets limits) (hash_asset hashers) = Inr by_id"
      "try_with_hasher (reserve AssetCodes) (max_assets limits) (hash_code hashers) = Inr by_code"
      "try_with_hasher (reserve Instruments) (max_instruments limits) (hash_instrument hashers) = Inr ranges"
      "grant (max_instrument_versions limits) = Some capacity"
      "c = \<lparr>catalog_limits = valid, assets = by_id, asset_codes = by_code, instruments = ranges, definitions = [],
            definition_capacity = capacity\<rparr>"
    using assms(1) by (auto simp: catalog_with_limits_def reserve_catalog_map_def result_simps map_sum_eq_Inr)
  have valid: "valid = limits" by (rule limits_new_Inr [OF c(1)])
  note a = try_with_hasher_ok [OF c(2)] and b = try_with_hasher_ok [OF c(3)] and r = try_with_hasher_ok [OF c(4)]
  show "catalog_limits c = limits" by (simp add: c(6) valid)
  show "catalog_represents c []"
    using a b r c(1,5) assms(2,3) by (simp add: catalog_represents_def tables_ok_def c(6) valid assets_agree_def)
qed

lemma reachable_represents: "catalog_reachable limits c \<Longrightarrow> catalog_limits c = limits \<and> (\<exists>L. catalog_represents c L)"
proof (induction rule: catalog_reachable.induct)
  case (created reserve grant hashers c)
  then show ?case using created_represents [of reserve grant hashers limits c] by blast
next
  case (asset_registered c asset c')
  then obtain L where "catalog_represents c L" by blast
  from register_asset_ok [OF this, of asset] asset_registered show ?case by auto
next
  case (version_registered c d c')
  then obtain L where "catalog_represents c L" by blast
  from register_instrument_ok [OF this, of d] version_registered show ?case by auto
qed

section \<open>Lookups\<close>

definition effective_in :: "(InstrumentId \<rightharpoonup> InstrumentDefinition list) \<Rightarrow> InstrumentId \<Rightarrow> TimestampNs \<Rightarrow> InstrumentError + InstrumentDefinition" where
  "effective_in H i at =
     (case H i of None \<Rightarrow> Inl (UnknownInstrument i)
      | Some h \<Rightarrow> let past = filter (\<lambda>d. effective_from d \<le> at) h in if past = [] then Inl (NoEffectiveVersion i at) else Inr (last past))"

definition version_in ::
    "(InstrumentId \<rightharpoonup> InstrumentDefinition list) \<Rightarrow> InstrumentId \<Rightarrow> InstrumentVersion \<Rightarrow> InstrumentError + InstrumentDefinition" where
  "version_in H i v =
     (case H i of None \<Rightarrow> Inl (UnknownInstrument i)
      | Some h \<Rightarrow> ok_or (List.find (\<lambda>d. def_version d = v) h) (UnknownInstrumentVersion i v))"

lemma found_versions:
  assumes "catalog_represents c L" "contents (instruments c) i = Some s"
  shows "\<exists>h. series_versions s c = Some h \<and> histories c i = Some h \<and> versions_ok (contents (assets c)) i h"
  using catalog_range(4,5) [OF assms] catalogD(7) [OF assms(1)] assms(2) by (auto simp: histories_def)

lemma effective_ok:
  assumes "catalog_represents c L"
  shows "effective i at c = Some (effective_in (histories c) i at)"
proof (cases "contents (instruments c) i")
  case None
  moreover have "table_ok (instruments c)" using catalogD(1) [OF assms] by (simp add: tables_ok_def)
  ultimately show ?thesis by (simp add: effective_def effective_in_def get_ok histories_def)
next
  case (Some s)
  have t: "table_ok (instruments c)" using catalogD(1) [OF assms] by (simp add: tables_ok_def)
  obtain h where h: "series_versions s c = Some h" "histories c i = Some h" "versions_ok (contents (assets c)) i h"
    using found_versions [OF assms Some] by blast
  let ?n = "partition_point (\<lambda>d. effective_from d \<le> at) h"
  have "sorted_wrt (\<lambda>a b. effective_from b \<le> at \<longrightarrow> effective_from a \<le> at) h"
    using h(3) by (auto simp: versions_ok_def intro: sorted_wrt_mono_rel [rotated])
  note past = partitioned_filter [OF this]
  have le: "?n \<le> length h" by (rule partition_point_le)
  show ?thesis
  proof (cases ?n)
    case 0
    then show ?thesis using past h(1,2) Some by (simp add: effective_def effective_in_def get_ok [OF t])
  next
    case (Suc k)
    then have "last (take ?n h) = h ! k" "take ?n h \<noteq> []" using le by (auto simp: take_Suc_conv_app_nth)
    then show ?thesis using Suc past h(1,2) Some le
      by (simp add: effective_def effective_in_def get_ok [OF t] list_at_def Let_def)
  qed
qed

lemma version_ok:
  assumes "catalog_represents c L"
  shows "version_of i v c = Some (version_in (histories c) i v)"
proof (cases "contents (instruments c) i")
  case None
  moreover have "table_ok (instruments c)" using catalogD(1) [OF assms] by (simp add: tables_ok_def)
  ultimately show ?thesis by (simp add: version_of_def version_in_def get_ok histories_def)
next
  case (Some s)
  have t: "table_ok (instruments c)" using catalogD(1) [OF assms] by (simp add: tables_ok_def)
  obtain h where h: "series_versions s c = Some h" "histories c i = Some h" using found_versions [OF assms Some] by blast
  show ?thesis
  proof (cases "binary_search_by_key def_version v h")
    case None
    then have "List.find (\<lambda>d. def_version d = v) h = None" by (force simp: binary_search_None find_None_iff image_iff)
    then show ?thesis using None h Some by (simp add: version_of_def version_in_def get_ok [OF t])
  next
    case (Some n)
    then show ?thesis using binary_search_Some [OF Some] h \<open>contents (instruments c) i = _\<close>
      by (simp add: version_of_def version_in_def get_ok [OF t] list_at_def)
  qed
qed

lemma asset_ok:
  assumes "catalog_represents c L"
  shows "asset_of i c = Some (ok_or (known_assets c i) (UnknownAsset i))"
    and "(\<exists>asset. asset_by_code code c = Some (Inr asset) \<and> known_assets c (asset_id_of asset) = Some asset \<and> asset_code asset = code) \<or>
      asset_by_code code c = Some (Inl (UnknownAssetCode code)) \<and> (\<forall>other \<in> ran (known_assets c). asset_code other \<noteq> code)"
proof -
  note r = catalogD [OF assms]
  have t: "table_ok (assets c)" "table_ok (asset_codes c)" using r(1) by (simp_all add: tables_ok_def)
  show a: "asset_of i c = Some (ok_or (known_assets c i) (UnknownAsset i))" for i
    by (simp add: asset_of_def get_ok [OF t(1)] known_assets_def)
  show "(\<exists>asset. asset_by_code code c = Some (Inr asset) \<and> known_assets c (asset_id_of asset) = Some asset \<and> asset_code asset = code) \<or>
      asset_by_code code c = Some (Inl (UnknownAssetCode code)) \<and> (\<forall>other \<in> ran (known_assets c). asset_code other \<noteq> code)"
  proof (cases "contents (asset_codes c) code")
    case None
    then show ?thesis using agree_code [OF r(2), of code] by (simp add: asset_by_code_def get_ok [OF t(2)] known_assets_def)
  next
    case (Some i)
    then have "map_option asset_code (contents (assets c) i) = Some code" using r(2) by (simp add: assets_agree_def)
    then obtain asset where asset: "contents (assets c) i = Some asset" "asset_code asset = code" by auto
    then have "asset_id_of asset = i" using r(2) by (auto simp: assets_agree_def)
    then show ?thesis using asset Some by (simp add: asset_by_code_def get_ok [OF t(2)] a known_assets_def)
  qed
qed

end
