(* ===== verification/InstrumentProperties.thy ===== *)
theory InstrumentProperties
  imports InstrumentHistory
begin

text \<open>
  The audit accepts every catalogue that registrations can build, and the properties of the catalogue.
\<close>

section \<open>The audit on represented catalogues\<close>

lemma then_do_simps [simp]: "then_do (Some (Inr x)) f = f x" "then_do (Some (Inl e)) f = Some (Inl e)"
  by (simp_all add: then_do_def)

lemma audit_each_ok: "(\<And>x. x \<in> set xs \<Longrightarrow> check x = Some (Inr ())) \<Longrightarrow> audit_each check xs = Some (Inr ())"
  by (induction xs) auto

lemma iter_contents: "table_ok m \<Longrightarrow> (k, v) \<in> set (iter m) \<Longrightarrow> contents m k = Some v"
  unfolding contents_def by (rule map_of_is_SomeI) (simp_all add: table_ok_def)

lemma iter_ranges:
  assumes "catalog_represents c L"
  shows "set (iter (instruments c)) = set (tiles 0 L)"
    "sum_list (map (series_length \<circ> snd) (iter (instruments c))) = length (definitions c)"
proof -
  note r = catalogD [OF assms]
  have keys: "distinct (map fst (iter (instruments c)))" "distinct (map fst (tiles 0 L))"
    using r(1,3) by (simp_all add: tables_ok_def table_ok_def)
  have "map_of (iter (instruments c)) = map_of (tiles 0 L)" using r(4) by (simp add: contents_def)
  then show s: "set (iter (instruments c)) = set (tiles 0 L)" using map_of_inject_set [OF keys] by simp
  have "sum_list (map (series_length \<circ> snd) xs) = sum (series_length \<circ> snd) (set xs)" if "distinct (map fst xs)"
    for xs :: "(nat \<times> InstrumentSeries) list"
    using that by (intro sum_list_distinct_conv_sum_set) (simp add: distinct_map)
  then show "sum_list (map (series_length \<circ> snd) (iter (instruments c))) = length (definitions c)"
    using keys s tiles_total [of 0 L] r(5) by simp
qed

lemma audit_version_ok:
  assumes "table_ok (assets c)" "versions_ok (contents (assets c)) i h" "d \<in> set h"
  shows "audit_version c i (hd h) d = Some (Inr ())"
  using assms by (auto simp: audit_version_def versions_ok_def contains_ok)

lemma audit_series_ok:
  assumes "catalog_represents c L" "(i, s) \<in> set (tiles 0 L)" "covered + series_length s \<le> length (definitions c)"
  shows "audit_series c covered (i, s) = Some (Inr (covered + series_length s))"
proof -
  note r = catalogD [OF assms(1)]
  have "contents (instruments c) i = Some s"
    unfolding r(4) using r(3) assms(2) by (intro map_of_is_SomeI) simp_all
  note range = catalog_range [OF assms(1) this]
  let ?h = "take (series_length s) (drop (series_start s) (definitions c))"
  have h: "versions_ok (contents (assets c)) i ?h" by (rule r(7) [OF range(5)])
  then have ne: "?h \<noteq> []" by (simp add: versions_ok_def)
  then have pos: "series_length s \<noteq> 0" by auto
  have fits: "checked fits_usize (covered + series_length s) = Some (covered + series_length s)"
    using assms(3) r(1,5,6) by (auto simp: checked_def tables_ok_def intro: fits_u64_mono)
  have "audit_overlap i s (series_start s + series_length s) x = Some (Inr ())" if x: "x \<in> set (iter (instruments c))" for x
  proof -
    obtain j t where jt: "x = (j, t)" by force
    have t: "(j, t) \<in> set (tiles 0 L)" using x iter_ranges(1) [OF assms(1)] jt by simp
    have "contents (instruments c) j = Some t"
      unfolding r(4) using r(3) t by (intro map_of_is_SomeI) simp_all
    then show ?thesis
      using catalog_range(2) [OF assms(1)] tiles_disjoint [OF assms(2) t] by (auto simp: audit_overlap_def jt ensure_def)
  qed
  then have overlap: "audit_each (audit_overlap i s (series_start s + series_length s)) (iter (instruments c)) = Some (Inr ())"
    by (rule audit_each_ok)
  have "table_ok (assets c)" using r(1) by (simp add: tables_ok_def)
  then have versions: "audit_each (audit_version c i (hd ?h)) ?h = Some (Inr ())"
    using audit_version_ok [OF _ h] by (intro audit_each_ok)
  have first: "list_at ?h 0 = Some (hd ?h)" using ne by (simp add: list_at_def hd_conv_nth)
  have "hd ?h \<in> set ?h" using ne by (rule hd_in_set)
  with h have "def_instrument_id (hd ?h) = i" unfolding versions_ok_def by blast
  moreover have "\<not> windows_any (\<lambda>a b. def_version b \<le> def_version a \<or> effective_from b \<le> effective_from a) ?h"
  proof -
    let ?R = "\<lambda>a b. def_version a < def_version b \<and> effective_from a < effective_from b"
    have "sorted_wrt ?R ?h" using h unfolding versions_ok_def by blast
    then have "\<not> windows_any (\<lambda>a b. \<not> ?R a b) ?h" by (subst windows_any_sorted_wrt) (auto simp: transp_def)
    then show ?thesis by (simp add: not_less linorder_not_less)
  qed
  ultimately show ?thesis
    using range(2,3) pos fits overlap versions first by (simp add: audit_series_def Let_def)
qed

lemma audit_ranges_ok:
  assumes "catalog_represents c L" "set xs \<subseteq> set (tiles 0 L)" "covered + sum_list (map (series_length \<circ> snd) xs) \<le> length (definitions c)"
  shows "audit_ranges c covered xs = Some (Inr (covered + sum_list (map (series_length \<circ> snd) xs)))"
  using assms(2,3)
proof (induction xs arbitrary: covered)
  case (Cons x xs)
  obtain i s where x: "x = (i, s)" by force
  then have "audit_series c covered (i, s) = Some (Inr (covered + series_length s))"
    using Cons.prems by (intro audit_series_ok [OF assms(1)]) auto
  then show ?case using Cons x by simp
qed simp

lemma validate_ok:
  assumes "catalog_represents c L"
  shows "validate_catalog c = Some (Inr ())"
proof -
  note r = catalogD [OF assms]
  have t: "table_ok (assets c)" "table_ok (asset_codes c)" "table_ok (instruments c)"
      "catalog_limits_new (catalog_limits c) = Inr (catalog_limits c)"
      "max_instrument_versions (catalog_limits c) \<le> definition_capacity c"
    using r(1) by (simp_all add: tables_ok_def)
  have layouts: "audit_layout (assets c) m = Some (Inr ())" "audit_layout (asset_codes c) m = Some (Inr ())"
      "audit_layout (instruments c) m = Some (Inr ())" for m
    using t by (simp_all add: audit_layout_def validate_layout_ok)
  have "audit_each (audit_asset c) (iter (assets c)) = Some (Inr ())"
    using iter_contents [OF t(1)] r(2) by (intro audit_each_ok) (auto simp: audit_asset_def get_ok [OF t(2)] assets_agree_def)
  moreover have "audit_each (audit_code c) (iter (asset_codes c)) = Some (Inr ())"
    using iter_contents [OF t(2)] r(2) by (intro audit_each_ok) (auto simp: audit_code_def get_ok [OF t(1)] assets_agree_def)
  moreover have "audit_ranges c 0 (iter (instruments c)) = Some (Inr (length (definitions c)))"
    using audit_ranges_ok [OF assms, of "iter (instruments c)" 0] iter_ranges [OF assms] by simp
  ultimately show ?thesis
    using layouts t(4,5) agree_size [OF t(1,2) r(2)] r(5,6) by (simp add: validate_catalog_def)
qed


section \<open>Registrations and histories\<close>

lemma reachable_register_asset:
  assumes "catalog_reachable limits c"
  shows "\<exists>r. register_asset asset c = Some r \<and>
    (case r of Inl e \<Rightarrow> asset_outcome (max_assets limits) (known_assets c) asset = Inl e
     | Inr c' \<Rightarrow> catalog_reachable limits c' \<and> asset_outcome (max_assets limits) (known_assets c) asset = Inr (known_assets c') \<and>
         histories c' = histories c)"
proof -
  obtain L where L: "catalog_represents c L" and limits: "catalog_limits c = limits" using reachable_represents [OF assms] by blast
  obtain r where r: "register_asset asset c = Some r"
      "case r of Inl e \<Rightarrow> asset_outcome (max_assets limits) (known_assets c) asset = Inl e
       | Inr c' \<Rightarrow> asset_outcome (max_assets limits) (known_assets c) asset = Inr (known_assets c') \<and> catalog_represents c' L \<and>
           catalog_limits c' = limits"
    using register_asset_ok [OF L, of asset] limits by auto
  have "histories c' = histories c" if "catalog_represents c' L" for c'
    using catalog_histories [OF L] catalog_histories [OF that] by simp
  then show ?thesis
    using r catalog_reachable.asset_registered [OF assms, of asset] by (cases r) auto
qed

lemma reachable_register_instrument:
  assumes "catalog_reachable limits c"
  shows "\<exists>r. register_instrument d c = Some r \<and>
    (case r of Inl e \<Rightarrow> version_outcome limits (known_assets c) (histories c) d = Inl e
     | Inr c' \<Rightarrow> catalog_reachable limits c' \<and> version_outcome limits (known_assets c) (histories c) d = Inr (histories c') \<and>
         known_assets c' = known_assets c)"
proof -
  obtain L where L: "catalog_represents c L" and limits: "catalog_limits c = limits" using reachable_represents [OF assms] by blast
  obtain r where r: "register_instrument d c = Some r"
      "case r of Inl e \<Rightarrow> version_outcome limits (known_assets c) (histories c) d = Inl e
       | Inr c' \<Rightarrow> version_outcome limits (known_assets c) (histories c) d = Inr (histories c') \<and>
           (\<exists>L'. catalog_represents c' L') \<and> known_assets c' = known_assets c \<and> catalog_limits c' = limits"
    using register_instrument_ok [OF L, of d] limits by auto
  then show ?thesis
    using catalog_reachable.version_registered [OF assms, of d] by (cases r) auto
qed

lemma registers_asset:
  assumes "catalog_reachable limits c" "asset_outcome (max_assets limits) (known_assets c) asset = Inr K"
  shows "\<exists>c'. register_asset asset c = Some (Inr c') \<and> catalog_reachable limits c' \<and> known_assets c' = K \<and> histories c' = histories c"
  using reachable_register_asset [OF assms(1), of asset] assms(2) by (force split: sum.splits)

lemma registers_version:
  assumes "catalog_reachable limits c" "version_outcome limits (known_assets c) (histories c) d = Inr H"
  shows "\<exists>c'. register_instrument d c = Some (Inr c') \<and> catalog_reachable limits c' \<and> known_assets c' = known_assets c \<and> histories c' = H"
  using reachable_register_instrument [OF assms(1), of d] assms(2) by (force split: sum.splits)

lemma reachable_lookups:
  assumes "catalog_reachable limits c"
  shows "effective i at c = Some (effective_in (histories c) i at)" "version_of i v c = Some (version_in (histories c) i v)"
  using reachable_represents [OF assms] effective_ok version_ok by blast+

lemma version_outcome_Inr:
  assumes "version_outcome limits known H d = Inr H'"
  shows "H' = H(def_instrument_id d \<mapsto> (case H (def_instrument_id d) of None \<Rightarrow> [] | Some h \<Rightarrow> h) @ [d])"
    "H (def_instrument_id d) = Some h \<Longrightarrow> p \<in> set h \<Longrightarrow> def_version p < def_version d \<and> effective_from p < effective_from d"
  using assms by (auto simp: version_outcome_def successor_outcome_def result_simps Let_def)

section \<open>A sample catalogue\<close>

definition catalog_sample_limits :: InstrumentCatalogLimits where
  "catalog_sample_limits = \<lparr>max_assets = 2, max_instruments = 1, max_instrument_versions = 2\<rparr>"

definition base_asset :: AssetDefinition where
  "base_asset = \<lparr>asset_id_of = 1, asset_code = ''BTC'', asset_decimal_scale = 8\<rparr>"

definition quote_asset :: AssetDefinition where
  "quote_asset = \<lparr>asset_id_of = 2, asset_code = ''USD'', asset_decimal_scale = 2\<rparr>"

definition listed :: "InstrumentVersion \<Rightarrow> TimestampNs \<Rightarrow> InstrumentDefinition" where
  "listed version from = \<lparr>def_instrument_id = 7, def_version = version, effective_from = from, def_symbol = ''BTC-USD'', def_kind = Spot,
     def_base_asset_id = 1, def_quote_asset_id = 2,
     def_price = \<lparr>decimal_scale = 2, tick_size = 1, minimum = 1, maximum_price = 1000\<rparr>,
     def_quantity = \<lparr>increment = 1, minimum_lots = 1, maximum_lots = 100\<rparr>, def_reserve = reserve_rules_disabled,
     hidden_orders_supported = False, def_base_units_per_lot = 1, def_quote_units_per_price_unit = 1, def_trading_state = Open\<rparr>"

lemma sample_created: "\<exists>c. catalog_reachable catalog_sample_limits c \<and> known_assets c = Map.empty \<and> histories c = Map.empty"
proof -
  let ?hashers = "\<lparr>hash_asset = \<lambda>_. 0, hash_code = length, hash_instrument = \<lambda>i. i\<rparr>"
  have "\<exists>c. catalog_with_limits (\<lambda>_ _. True) Some ?hashers catalog_sample_limits = Inr c"
    by (simp add: catalog_with_limits_def catalog_sample_limits_def catalog_limits_new_def reserve_catalog_map_def try_with_hasher_def
        bucket_count_def double_until.simps checked_def width_defs)
  then obtain c where c: "catalog_with_limits (\<lambda>_ _. True) Some ?hashers catalog_sample_limits = Inr c" by blast
  have fits: "fits_usize (max_instrument_versions catalog_sample_limits)" by (simp add: catalog_sample_limits_def width_defs)
  have "catalog_represents c []" by (rule created_represents(1) [OF c _ fits]) simp
  moreover have "contents (assets c) = Map.empty"
    using c by (auto simp: catalog_with_limits_def reserve_catalog_map_def result_simps map_sum_eq_Inr try_with_hasher_def contents_def iter_def)
  ultimately show ?thesis
    using catalog_reachable.created [OF c _ fits] catalog_histories [of c "[]"] by (auto simp: known_assets_def)
qed

lemma sample_outcomes:
  "asset_outcome (max_assets catalog_sample_limits) Map.empty base_asset = Inr [1 \<mapsto> base_asset]"
  "asset_outcome (max_assets catalog_sample_limits) [1 \<mapsto> base_asset] quote_asset = Inr [1 \<mapsto> base_asset, 2 \<mapsto> quote_asset]"
  "version_outcome catalog_sample_limits [1 \<mapsto> base_asset, 2 \<mapsto> quote_asset] Map.empty (listed 1 100) = Inr [7 \<mapsto> [listed 1 100]]"
  "version_outcome catalog_sample_limits [1 \<mapsto> base_asset, 2 \<mapsto> quote_asset] [7 \<mapsto> [listed 1 100]] (listed 2 200) =
     Inr [7 \<mapsto> [listed 1 100, listed 2 200]]"
  by (simp_all add: asset_outcome_def catalog_sample_limits_def base_asset_def quote_asset_def version_outcome_def known_outcome_def
      successor_outcome_def total_versions_def listed_def same_instrument_identity_def)

lemma sample_listed:
  "\<exists>c. catalog_reachable catalog_sample_limits c \<and> known_assets c = [1 \<mapsto> base_asset, 2 \<mapsto> quote_asset] \<and>
     histories c = [7 \<mapsto> [listed 1 100]]"
proof -
  obtain c0 where c0: "catalog_reachable catalog_sample_limits c0" "known_assets c0 = Map.empty" "histories c0 = Map.empty"
    using sample_created by blast
  obtain c1 where c1: "catalog_reachable catalog_sample_limits c1" "known_assets c1 = [1 \<mapsto> base_asset]" "histories c1 = Map.empty"
    using registers_asset [OF c0(1), of base_asset] sample_outcomes(1) c0(2,3) by auto
  obtain c2 where c2: "catalog_reachable catalog_sample_limits c2" "known_assets c2 = [1 \<mapsto> base_asset, 2 \<mapsto> quote_asset]"
      "histories c2 = Map.empty"
    using registers_asset [OF c1(1), of quote_asset] sample_outcomes(2) c1(2,3) by auto
  show ?thesis
    using registers_version [OF c2(1), of "listed 1 100"] sample_outcomes(3) c2(2,3) by auto
qed


section \<open>Properties\<close>

text \<open>
  C32. The catalogue refines one version history per instrument.  On every catalogue built by registrations, with
  any hash functions, registering an asset or a version returns without a panic; it fails with the error of the
  first rule that is broken, in the order assets, version number, monotonicity, identity and capacities, and
  otherwise adds the asset or appends the version to the history of its instrument and changes no other, although
  the arena shifts the ranges of the others.
\<close>

theorem catalog_refines_histories:
  assumes "catalog_reachable limits c"
  shows "(\<exists>r. register_asset asset c = Some r \<and>
      (case r of Inl e \<Rightarrow> asset_outcome (max_assets limits) (known_assets c) asset = Inl e
       | Inr c' \<Rightarrow> catalog_reachable limits c' \<and> asset_outcome (max_assets limits) (known_assets c) asset = Inr (known_assets c') \<and>
           histories c' = histories c)) \<and>
    (\<exists>r. register_instrument d c = Some r \<and>
      (case r of Inl e \<Rightarrow> version_outcome limits (known_assets c) (histories c) d = Inl e
       | Inr c' \<Rightarrow> catalog_reachable limits c' \<and> version_outcome limits (known_assets c) (histories c) d = Inr (histories c') \<and>
           known_assets c' = known_assets c))"
  using reachable_register_asset [OF assms] reachable_register_instrument [OF assms] by blast

lemma catalog_refines_histories_witness:
  "\<exists>c c'. catalog_reachable catalog_sample_limits c \<and> register_asset base_asset c = Some (Inl DuplicateAsset) \<and>
     register_instrument (listed 2 200) c = Some (Inr c') \<and> histories c' = [7 \<mapsto> [listed 1 100, listed 2 200]]"
proof -
  obtain c where c: "catalog_reachable catalog_sample_limits c" "known_assets c = [1 \<mapsto> base_asset, 2 \<mapsto> quote_asset]"
      "histories c = [7 \<mapsto> [listed 1 100]]"
    using sample_listed by blast
  have "asset_outcome (max_assets catalog_sample_limits) (known_assets c) base_asset = Inl DuplicateAsset"
    using c(2) by (simp add: asset_outcome_def base_asset_def)
  moreover have "version_outcome catalog_sample_limits (known_assets c) (histories c) (listed 2 200) =
      Inr [7 \<mapsto> [listed 1 100, listed 2 200]]"
    using c(2,3) sample_outcomes(4) by simp
  ultimately show ?thesis
    using catalog_refines_histories [OF c(1), of base_asset "listed 2 200"] c(1) by (force split: sum.splits)
qed

text \<open>
  C34. Every lookup reads the histories: the version effective at a time is the last one of the instrument's history
  that has become effective, a version is found by its number, an asset by its identifier and by its code, and each
  lookup fails with its own error exactly when there is none.
\<close>

theorem catalog_lookups_exact:
  assumes "catalog_reachable limits c"
  shows "effective i at c = Some (effective_in (histories c) i at) \<and>
    version_of i v c = Some (version_in (histories c) i v) \<and>
    asset_of a c = Some (ok_or (known_assets c a) (UnknownAsset a)) \<and>
    ((\<exists>asset. asset_by_code code c = Some (Inr asset) \<and> known_assets c (asset_id_of asset) = Some asset \<and> asset_code asset = code) \<or>
     asset_by_code code c = Some (Inl (UnknownAssetCode code)) \<and> (\<forall>other \<in> ran (known_assets c). asset_code other \<noteq> code))"
proof -
  obtain L where "catalog_represents c L" using reachable_represents [OF assms] by blast
  from effective_ok [OF this] version_ok [OF this] asset_ok [OF this] show ?thesis by blast
qed

lemma catalog_lookups_exact_witness:
  "\<exists>c. effective 7 150 c = Some (Inr (listed 1 100)) \<and> effective 7 50 c = Some (Inl (NoEffectiveVersion 7 50)) \<and>
     asset_of 2 c = Some (Inr quote_asset)"
proof -
  obtain c where c: "catalog_reachable catalog_sample_limits c" "known_assets c = [1 \<mapsto> base_asset, 2 \<mapsto> quote_asset]"
      "histories c = [7 \<mapsto> [listed 1 100]]"
    using sample_listed by blast
  show ?thesis
    using catalog_lookups_exact [OF c(1), of 7 150 1 2] catalog_lookups_exact [OF c(1), of 7 50 1 2] c(2,3)
    by (intro exI [of _ c]) (simp add: effective_in_def listed_def)
qed

text \<open>
  C33. Published versions are immutable: registering a version never changes what a lookup found, neither by version
  number nor at a time before the new version takes effect, for its own instrument or any other, and from then on
  the new version is the effective one.
\<close>

theorem catalog_versions_immutable:
  assumes "catalog_reachable limits c" "register_instrument d c = Some (Inr c')"
  shows "(version_of i v c = Some (Inr x) \<longrightarrow> version_of i v c' = Some (Inr x)) \<and>
    (effective i at c = Some (Inr x) \<longrightarrow> i \<noteq> def_instrument_id d \<or> at < effective_from d \<longrightarrow> effective i at c' = Some (Inr x)) \<and>
    (effective_from d \<le> at \<longrightarrow> effective (def_instrument_id d) at c' = Some (Inr d))"
proof -
  have next_state: "catalog_reachable limits c'" "version_outcome limits (known_assets c) (histories c) d = Inr (histories c')"
    using reachable_register_instrument [OF assms(1), of d] assms(2) by auto
  note outcome = version_outcome_Inr [OF next_state(2)]
  note lookups = reachable_lookups [OF assms(1)] reachable_lookups [OF next_state(1)]
  have "List.find P (xs @ ys) = Some x" if "List.find P xs = Some x" for P :: "InstrumentDefinition \<Rightarrow> bool" and xs ys
    using that by (induction xs) (auto split: if_splits)
  then show ?thesis
    unfolding lookups outcome(1)
    by (auto simp: version_in_def effective_in_def Let_def result_simps split: option.splits if_splits)
qed

lemma catalog_versions_immutable_witness:
  "\<exists>c c'. register_instrument (listed 2 200) c = Some (Inr c') \<and> effective 7 150 c = Some (Inr (listed 1 100)) \<and>
     effective 7 150 c' = Some (Inr (listed 1 100)) \<and> effective 7 250 c' = Some (Inr (listed 2 200))"
proof -
  obtain c where c: "catalog_reachable catalog_sample_limits c" "known_assets c = [1 \<mapsto> base_asset, 2 \<mapsto> quote_asset]"
      "histories c = [7 \<mapsto> [listed 1 100]]"
    using sample_listed by blast
  obtain c' where c': "register_instrument (listed 2 200) c = Some (Inr c')"
    using registers_version [OF c(1), of "listed 2 200"] sample_outcomes(4) c(2,3) by auto
  have old: "effective 7 150 c = Some (Inr (listed 1 100))"
    using reachable_lookups(1) [OF c(1)] c(3) by (simp add: effective_in_def listed_def)
  show ?thesis
    using c' old catalog_versions_immutable [OF c(1) c', of 7 1 "listed 1 100" 150] catalog_versions_immutable [OF c(1) c', of 7 1 "listed 1 100" 250]
    by (intro exI [of _ c] exI [of _ c']) (simp add: listed_def)
qed

text \<open>
  C35. The audit accepts every catalogue that registrations can build: the layouts of the three hash tables, the two
  asset indexes, the disjoint ranges that cover the arena and the monotonic histories.
\<close>

theorem catalog_audit_accepts:
  assumes "catalog_reachable limits c"
  shows "validate_catalog c = Some (Inr ())"
  using reachable_represents [OF assms] validate_ok by blast

lemma catalog_audit_accepts_witness:
  "\<exists>c. histories c = [7 \<mapsto> [listed 1 100]] \<and> validate_catalog c = Some (Inr ())"
  using sample_listed catalog_audit_accepts by blast

end
