(* ===== verification/Codec.thy ===== *)
theory Codec
  imports LedgerCheckpoint Instrument Calendar "HOL-Library.Word"
begin

text \<open>
  The binary codec of \<open>src/src/codec.rs\<close>: its errors, the encoder with its fallible growth and first retained
  failure, the bounds-checked decoder, and the interface \<open>wire\<close> between a writing and a reading function, from
  which the round trip of every complete value follows.  The decoder's slice and position are modelled by the
  bytes from the position on.  Bytes are 8-bit words; a field name and an error detail are strings.
\<close>

type_synonym byte = "8 word"

named_theorems writers \<open>functions that only append to the encoder\<close>
named_theorems layouts \<open>what a writing function appends\<close>
named_theorems readings \<open>what a reading function accepts\<close>

section \<open>Errors\<close>

datatype CodecError =
    UnexpectedEnd nat nat
  | TrailingBytes nat
  | InvalidTag string nat
  | InvalidBoolean nat
  | LengthOverflow string nat
  | EncodingLengthOverflow nat nat
  | EncodingCapacityReservationFailed nat
  | InvalidLength string nat
  | CapacityReservationFailed string nat
  | InvalidDomain DomainError
  | InvalidValue string
  | InvalidJournalEntry LedgerError
  | InvalidLedgerCheckpoint LedgerCheckpointError
  | InvalidInstrument InstrumentError
  | InvalidTradingCalendar TradingCalendarError

section \<open>Little-endian integers\<close>

text \<open>\<open>to_le_bytes\<close> and \<open>from_le_bytes\<close>; a signed integer is written as its two's complement.\<close>

primrec le_bytes :: "nat \<Rightarrow> nat \<Rightarrow> byte list" where
  "le_bytes 0 n = []"
| "le_bytes (Suc k) n = word_of_nat (n mod 256) # le_bytes k (n div 256)"

primrec le_value :: "byte list \<Rightarrow> nat" where
  "le_value [] = 0"
| "le_value (b # bs) = unat b + 256 * le_value bs"

definition twos :: "nat \<Rightarrow> int \<Rightarrow> nat" where
  "twos width k = nat (k mod 2 ^ width)"

definition from_twos :: "nat \<Rightarrow> nat \<Rightarrow> int" where
  "from_twos width n = (if n < 2 ^ (width - 1) then int n else int n - 2 ^ width)"

section \<open>Encoder\<close>

text \<open>\<open>growth\<close> is the answer of the growth gate for the bytes already encoded and those requested.\<close>

record Encoder =
  encoded :: "byte list"
  failure :: "CodecError option"
  growth :: "nat \<Rightarrow> nat \<Rightarrow> CodecError option"

definition checked_encoding_length :: "nat \<Rightarrow> nat \<Rightarrow> CodecError + nat" where
  "checked_encoding_length current additional =
     ok_or (checked fits_usize (current + additional)) (EncodingLengthOverflow current additional)"

text \<open>The gate of the code: \<open>room n\<close> says whether the vector has or can be given a capacity of \<open>n\<close> bytes.\<close>

definition growth_gate :: "(nat \<Rightarrow> bool) \<Rightarrow> nat \<Rightarrow> nat \<Rightarrow> CodecError option" where
  "growth_gate room current additional =
     (case checked_encoding_length current additional of
        Inl error \<Rightarrow> Some error
      | Inr minimum_length \<Rightarrow> if room minimum_length then None else Some (EncodingCapacityReservationFailed minimum_length))"

definition encoder_default :: "(nat \<Rightarrow> bool) \<Rightarrow> Encoder" where
  "encoder_default room = \<lparr>encoded = [], failure = None, growth = growth_gate room\<rparr>"

definition encoder_reserve :: "nat \<Rightarrow> Encoder \<Rightarrow> Encoder" where
  "encoder_reserve additional e =
     (if failure e \<noteq> None then e else e\<lparr>failure := growth e (length (encoded e)) additional\<rparr>)"

definition encoder_write :: "byte list \<Rightarrow> Encoder \<Rightarrow> Encoder" where
  "encoder_write bytes e =
     (let e = encoder_reserve (length bytes) e in if failure e = None then e\<lparr>encoded := encoded e @ bytes\<rparr> else e)"

definition write_u8 :: "nat \<Rightarrow> Encoder \<Rightarrow> Encoder" where
  "write_u8 n = encoder_write (le_bytes 1 n)"

definition write_bool :: "bool \<Rightarrow> Encoder \<Rightarrow> Encoder" where
  "write_bool b = write_u8 (of_bool b)"

definition write_u32 :: "nat \<Rightarrow> Encoder \<Rightarrow> Encoder" where
  "write_u32 n = encoder_write (le_bytes 4 n)"

definition write_i32 :: "int \<Rightarrow> Encoder \<Rightarrow> Encoder" where
  "write_i32 k = encoder_write (le_bytes 4 (twos 32 k))"

definition write_u64 :: "nat \<Rightarrow> Encoder \<Rightarrow> Encoder" where
  "write_u64 n = encoder_write (le_bytes 8 n)"

definition write_i64 :: "int \<Rightarrow> Encoder \<Rightarrow> Encoder" where
  "write_i64 k = encoder_write (le_bytes 8 (twos 64 k))"

definition write_i128 :: "int \<Rightarrow> Encoder \<Rightarrow> Encoder" where
  "write_i128 k = encoder_write (le_bytes 16 (twos 128 k))"

definition write_u128 :: "nat \<Rightarrow> Encoder \<Rightarrow> Encoder" where
  "write_u128 n = encoder_write (le_bytes 16 n)"

definition write_bytes :: "byte list \<Rightarrow> Encoder \<Rightarrow> Encoder" where
  "write_bytes bytes = encoder_write bytes"

definition write_length :: "string \<Rightarrow> nat \<Rightarrow> Encoder \<Rightarrow> CodecError + Encoder" where
  "write_length field n e =
     (case failure e of
        Some error \<Rightarrow> Inl error
      | None \<Rightarrow>
          and_then (ok_or (checked fits_u32 n) (LengthOverflow field n)) (\<lambda>wire.
            let e = write_u32 wire e in case failure e of None \<Rightarrow> Inr e | Some error \<Rightarrow> Inl error))"

definition encoder_finish :: "Encoder \<Rightarrow> CodecError + byte list" where
  "encoder_finish e = (case failure e of Some error \<Rightarrow> Inl error | None \<Rightarrow> Inr (encoded e))"

text \<open>The statements of an encoding function, in order.\<close>

definition emit :: "(Encoder \<Rightarrow> Encoder) list \<Rightarrow> Encoder \<Rightarrow> Encoder" where
  "emit steps e = fold (\<lambda>step. step) steps e"

text \<open>The same for statements that may return an error; \<open>always\<close> is a statement that does not.\<close>

definition always :: "(Encoder \<Rightarrow> Encoder) \<Rightarrow> Encoder \<Rightarrow> CodecError + Encoder" where
  "always step e = Inr (step e)"

primrec try_emit :: "(Encoder \<Rightarrow> CodecError + Encoder) list \<Rightarrow> Encoder \<Rightarrow> CodecError + Encoder" where
  "try_emit [] e = Inr e"
| "try_emit (step # steps) e = and_then (step e) (try_emit steps)"

text \<open>A nested value: its bytes, if it encodes, behind their length.\<close>

definition write_sized :: "string \<Rightarrow> CodecError + byte list \<Rightarrow> Encoder \<Rightarrow> CodecError + Encoder" where
  "write_sized field r e =
     and_then r (\<lambda>bytes. and_then (write_length field (length bytes) e) (\<lambda>e. Inr (write_bytes bytes e)))"

definition encode_steps :: "(nat \<Rightarrow> bool) \<Rightarrow> (Encoder \<Rightarrow> CodecError + Encoder) list \<Rightarrow> CodecError + byte list" where
  "encode_steps room steps = and_then (try_emit steps (encoder_default room)) encoder_finish"

section \<open>Decoder\<close>

type_synonym 'a reading = "byte list \<Rightarrow> CodecError + 'a \<times> byte list"

definition then_read :: "'a reading \<Rightarrow> ('a \<Rightarrow> 'b reading) \<Rightarrow> 'b reading" where
  "then_read d k bs = and_then (d bs) (\<lambda>(x, bs). k x bs)"

definition decoded :: "'a \<Rightarrow> 'a reading" where
  "decoded x bs = Inr (x, bs)"

definition decode_error :: "CodecError \<Rightarrow> 'a reading" where
  "decode_error error bs = Inl error"

definition decoded_from :: "CodecError + 'a \<Rightarrow> 'a reading" where
  "decoded_from r bs = and_then r (\<lambda>x. Inr (x, bs))"

definition read_bytes :: "nat \<Rightarrow> byte list reading" where
  "read_bytes n bs = (if length bs < n then Inl (UnexpectedEnd n (length bs)) else Inr (take n bs, drop n bs))"

definition read_u8 :: "nat reading" where
  "read_u8 = then_read (read_bytes 1) (\<lambda>b. decoded (le_value b))"

definition read_bool :: "bool reading" where
  "read_bool = then_read read_u8 (\<lambda>v. if v = 0 then decoded False else if v = 1 then decoded True else decode_error (InvalidBoolean v))"

definition read_u32 :: "nat reading" where
  "read_u32 = then_read (read_bytes 4) (\<lambda>b. decoded (le_value b))"

definition read_i32 :: "int reading" where
  "read_i32 = then_read (read_bytes 4) (\<lambda>b. decoded (from_twos 32 (le_value b)))"

definition read_u64 :: "nat reading" where
  "read_u64 = then_read (read_bytes 8) (\<lambda>b. decoded (le_value b))"

definition read_i64 :: "int reading" where
  "read_i64 = then_read (read_bytes 8) (\<lambda>b. decoded (from_twos 64 (le_value b)))"

definition read_i128 :: "int reading" where
  "read_i128 = then_read (read_bytes 16) (\<lambda>b. decoded (from_twos 128 (le_value b)))"

definition read_u128 :: "nat reading" where
  "read_u128 = then_read (read_bytes 16) (\<lambda>b. decoded (le_value b))"

text \<open>On 64-bit targets a \<open>u32\<close> always converts to \<open>usize\<close>.\<close>

definition read_count :: "string \<Rightarrow> nat \<Rightarrow> nat reading" where
  "read_count field minimum_item_size =
     then_read read_u32 (\<lambda>n bs.
       if minimum_item_size \<noteq> 0 \<and> length bs div minimum_item_size < n then Inl (InvalidLength field n) else Inr (n, bs))"

definition decoder_finish :: "byte list \<Rightarrow> CodecError + unit" where
  "decoder_finish bs = ensure (bs = []) (TrailingBytes (length bs))"

definition reserve_decoded_vec :: "(nat \<Rightarrow> bool) \<Rightarrow> string \<Rightarrow> nat \<Rightarrow> CodecError + unit" where
  "reserve_decoded_vec room field n = ensure (room n) (CapacityReservationFailed field n)"

text \<open>
  A nested value behind its length, and the loops \<open>for _ in 0..count { values.push(decode?) }\<close> and
  \<open>for value in values { encode }\<close>.
\<close>

definition read_sized :: "(byte list \<Rightarrow> CodecError + 'a) \<Rightarrow> 'a reading" where
  "read_sized d = then_read read_u32 (\<lambda>n. then_read (read_bytes n) (\<lambda>b. decoded_from (d b)))"

primrec read_many :: "'a reading \<Rightarrow> nat \<Rightarrow> 'a list reading" where
  "read_many d 0 = decoded []"
| "read_many d (Suc n) = then_read d (\<lambda>x. then_read (read_many d n) (\<lambda>xs. decoded (x # xs)))"

definition write_each :: "('a \<Rightarrow> Encoder \<Rightarrow> Encoder) \<Rightarrow> 'a list \<Rightarrow> Encoder \<Rightarrow> Encoder" where
  "write_each w xs = emit (map w xs)"

text \<open>Identifiers and quantities: a constructor of the domain applied to a \<open>u64\<close>.\<close>

definition read_identifier :: "string \<Rightarrow> nat reading" where
  "read_identifier label = then_read read_u64 (\<lambda>n. decoded_from (map_sum InvalidDomain id (identifier_new label n)))"

definition read_quantity :: "Quantity reading" where
  "read_quantity = then_read read_u64 (\<lambda>n. decoded_from (map_sum InvalidDomain id (quantity_new n)))"

definition read_account :: "AccountId reading" where "read_account = read_identifier ''account identifier''"
definition read_asset :: "AssetId reading" where "read_asset = read_identifier ''asset identifier''"
definition read_command_id :: "CommandId reading" where "read_command_id = read_identifier ''command identifier''"
definition read_instrument :: "InstrumentId reading" where "read_instrument = read_identifier ''instrument identifier''"
definition read_instrument_version :: "InstrumentVersion reading" where "read_instrument_version = read_identifier ''instrument version''"
definition read_order :: "OrderId reading" where "read_order = read_identifier ''order identifier''"
definition read_trade_id :: "TradeId reading" where "read_trade_id = read_identifier ''trade identifier''"
definition read_transaction :: "TransactionId reading" where "read_transaction = read_identifier ''transaction identifier''"

text \<open>A fieldless enumeration: its tag selects a row of a table.\<close>

definition read_tagged :: "string \<Rightarrow> (nat \<times> 'a) list \<Rightarrow> 'a reading" where
  "read_tagged type_name table =
     then_read read_u8 (\<lambda>tag. case map_of table tag of Some x \<Rightarrow> decoded x | None \<Rightarrow> decode_error (InvalidTag type_name tag))"

text \<open>\<open>BinaryCodec::encode\<close> and \<open>BinaryCodec::decode\<close> of a value that one writing and one reading function handle.\<close>

definition encode_value :: "('a \<Rightarrow> Encoder \<Rightarrow> Encoder) \<Rightarrow> (nat \<Rightarrow> bool) \<Rightarrow> 'a \<Rightarrow> CodecError + byte list" where
  "encode_value w room x = encoder_finish (w x (encoder_default room))"

definition decode_value :: "'a reading \<Rightarrow> byte list \<Rightarrow> CodecError + 'a" where
  "decode_value d bs = and_then (d bs) (\<lambda>(x, bs). and_then (decoder_finish bs) (\<lambda>_. Inr x))"

section \<open>Integers on the wire\<close>

lemma length_le_bytes [simp]: "length (le_bytes k n) = k"
  by (induction k arbitrary: n) auto

lemma byte_of_nat [simp]: "unat (word_of_nat (n mod 256) :: byte) = n mod 256"
  by (simp add: unat_of_nat take_bit_eq_mod)

lemma le_value_bytes: "n < 256 ^ k \<Longrightarrow> le_value (le_bytes k n) = n"
proof (induction k arbitrary: n)
  case (Suc k)
  then have "n div 256 < 256 ^ k"
    by (simp add: less_mult_imp_div_less mult.commute)
  then show ?case
    using Suc.IH by simp
qed simp

lemma le_value_less: "le_value bs < 256 ^ length bs"
proof (induction bs)
  case (Cons b bs)
  have "unat b < 256"
    using unsigned_less [of b, where 'a = nat] by simp
  then show ?case
    using Cons by simp
qed simp

lemma le_bytes_value: "le_bytes (length bs) (le_value bs) = bs"
proof (induction bs)
  case (Cons b bs)
  have "unat b < 256"
    using unsigned_less [of b, where 'a = nat] by simp
  then show ?case
    using Cons by simp
qed simp

lemma twos_less: "twos w k < 2 ^ w"
  by (simp add: twos_def nat_less_iff)

lemma from_twos_twos:
  assumes "0 < w" "- (2 ^ (w - 1)) \<le> k" "k < 2 ^ (w - 1)"
  shows "from_twos w (twos w k) = k"
proof -
  have two: "(2 :: int) ^ w = 2 * 2 ^ (w - 1)"
    using assms(1) by (cases w) auto
  show ?thesis
  proof (cases "0 \<le> k")
    case True
    then have "k mod 2 ^ w = k"
      using assms two by simp
    then show ?thesis
      using True assms by (simp add: from_twos_def twos_def nat_less_iff)
  next
    case False
    then have "k mod 2 ^ w = k + 2 ^ w"
      using assms two mod_pos_pos_trivial [of "k + 2 ^ w" "2 ^ w"] by simp
    then show ?thesis
      using False assms two by (simp add: from_twos_def twos_def nat_less_iff)
  qed
qed

lemma twos_from_twos:
  assumes "0 < w" "n < 2 ^ w"
  shows "twos w (from_twos w n) = n" "- (2 ^ (w - 1)) \<le> from_twos w n" "from_twos w n < 2 ^ (w - 1)"
proof -
  have two: "(2 :: int) ^ w = 2 * 2 ^ (w - 1)"
    using assms(1) by (cases w) auto
  have n: "int n < 2 ^ w"
    using assms(2) by (metis of_nat_less_iff of_nat_numeral of_nat_power)
  have lt: "n < 2 ^ (w - 1) \<longleftrightarrow> int n < 2 ^ (w - 1)"
    by (metis of_nat_less_iff of_nat_numeral of_nat_power)
  show "twos w (from_twos w n) = n"
    using n by (auto simp: twos_def from_twos_def)
  show "- (2 ^ (w - 1)) \<le> from_twos w n" "from_twos w n < 2 ^ (w - 1)"
    using n two lt by (auto simp: from_twos_def)
qed

lemma le_bytes_numeral: "le_bytes (numeral k) n = word_of_nat (n mod 256) # le_bytes (pred_numeral k) (n div 256)"
  unfolding numeral_eq_Suc [of k] by (rule le_bytes.simps)

declare le_bytes.simps [simp del]

section \<open>What writing functions append\<close>

text \<open>The bytes a writing function appends when nothing fails.\<close>

definition written :: "(Encoder \<Rightarrow> Encoder) \<Rightarrow> byte list" where
  "written w = encoded (w \<lparr>encoded = [], failure = None, growth = \<lambda>_ _. None\<rparr>)"

text \<open>
  A writer keeps a failure, and otherwise appends the same bytes or fails; it does not fail when the gate admits
  every growth up to the length it reaches.
\<close>

definition writer :: "(Encoder \<Rightarrow> Encoder) \<Rightarrow> bool" where
  "writer w \<longleftrightarrow> (\<forall>e. growth (w e) = growth e \<and> (failure e \<noteq> None \<longrightarrow> w e = e) \<and>
     (failure (w e) = None \<longrightarrow> encoded (w e) = encoded e @ written w) \<and>
     (failure e = None \<longrightarrow> (\<forall>a b. a + b \<le> length (encoded e) + length (written w) \<longrightarrow> growth e a b = None) \<longrightarrow> failure (w e) = None))"

lemma writerD:
  assumes "writer w"
  shows "growth (w e) = growth e" "failure e \<noteq> None \<Longrightarrow> w e = e"
    "failure (w e) = None \<Longrightarrow> encoded (w e) = encoded e @ written w"
    "failure e = None \<Longrightarrow> (\<And>a b. a + b \<le> length (encoded e) + length (written w) \<Longrightarrow> growth e a b = None) \<Longrightarrow> failure (w e) = None"
  using assms unfolding writer_def by blast+

lemma written_write [layouts]: "written (encoder_write bytes) = bytes"
  by (simp add: written_def encoder_write_def encoder_reserve_def)

lemma writer_write [writers]: "writer (encoder_write bytes)"
  unfolding writer_def written_write
proof (intro allI conjI impI)
  fix e :: Encoder
  assume e: "failure e = None" and g: "\<forall>a b. a + b \<le> length (encoded e) + length bytes \<longrightarrow> growth e a b = None"
  have "growth e (length (encoded e)) (length bytes) = None"
    by (rule g [rule_format]) (rule order_refl)
  with e show "failure (encoder_write bytes e) = None"
    by (simp add: encoder_write_def encoder_reserve_def Let_def)
qed (auto simp: encoder_write_def encoder_reserve_def Let_def split: if_splits)

lemma writer_id: "writer (\<lambda>e. e)" "written (\<lambda>e. e) = []"
  by (simp_all add: writer_def written_def)

lemma writer_free: "writer w \<Longrightarrow> failure e = None \<Longrightarrow> growth e = (\<lambda>_ _. None) \<Longrightarrow> failure (w e) = None"
  by (rule writerD(4)) simp_all

lemma written_comp:
  assumes "writer v" "writer w"
  shows "written (\<lambda>e. w (v e)) = written v @ written w"
proof -
  let ?e = "\<lparr>encoded = [], failure = None, growth = \<lambda>_ _. None\<rparr>"
  have v: "failure (v ?e) = None" "growth (v ?e) = (\<lambda>_ _. None)"
    using writer_free [OF assms(1), of ?e] writerD(1) [OF assms(1), of ?e] by simp_all
  have "encoded (w (v ?e)) = encoded (v ?e) @ written w"
    by (rule writerD(3) [OF assms(2) writer_free [OF assms(2) v]])
  moreover have "encoded (v ?e) = encoded ?e @ written v"
    by (rule writerD(3) [OF assms(1) v(1)])
  ultimately show ?thesis
    by (simp only: written_def [of "\<lambda>e. w (v e)"] Encoder.select_convs append_Nil)
qed

lemma writer_comp:
  assumes "writer v" "writer w"
  shows "writer (\<lambda>e. w (v e))"
  unfolding writer_def
proof (intro allI conjI impI)
  fix e
  show "growth (w (v e)) = growth e"
    using writerD(1) assms by metis
  show "w (v e) = e" if "failure e \<noteq> None"
    using that writerD(2) assms by metis
  have none: "failure (v e) = None" if "failure (w (v e)) = None"
    using that writerD(2) [OF assms(2), of "v e"] by (cases "failure (v e)") auto
  show "encoded (w (v e)) = encoded e @ written (\<lambda>e. w (v e))" if "failure (w (v e)) = None"
    using writerD(3) [OF assms(2) that] writerD(3) [OF assms(1) none [OF that]] by (simp add: written_comp [OF assms])
  assume e: "failure e = None" and g: "\<forall>a b. a + b \<le> length (encoded e) + length (written (\<lambda>e. w (v e))) \<longrightarrow> growth e a b = None"
  have f: "failure (v e) = None"
    by (rule writerD(4) [OF assms(1) e], rule g [rule_format]) (simp add: written_comp [OF assms])
  show "failure (w (v e)) = None"
    by (rule writerD(4) [OF assms(2) f], unfold writerD(1) [OF assms(1)], rule g [rule_format])
      (simp add: written_comp [OF assms] writerD(3) [OF assms(1) f])
qed

lemma emit_Nil [simp]: "emit [] = (\<lambda>e. e)"
  by (simp add: emit_def fun_eq_iff)

lemma emit_Cons [simp]: "emit (w # ws) = (\<lambda>e. emit ws (w e))"
  by (simp add: emit_def fun_eq_iff)

lemma writer_emit: "(\<And>w. w \<in> set ws \<Longrightarrow> writer w) \<Longrightarrow> writer (emit ws) \<and> written (emit ws) = concat (map written ws)"
  by (induction ws) (auto simp: writer_id writer_comp written_comp)

lemma writer_emits [writers]: "writer (emit [])" "writer w \<Longrightarrow> writer (emit ws) \<Longrightarrow> writer (emit (w # ws))"
  by (simp_all add: writer_id writer_comp)

lemma written_emits [layouts]:
  "written (emit []) = []" "writer w \<Longrightarrow> writer (emit ws) \<Longrightarrow> written (emit (w # ws)) = written w @ written (emit ws)"
  by (simp_all add: writer_id written_comp)

declare emit_Nil [simp del] emit_Cons [simp del]

lemmas integer_writes = write_u8_def write_u32_def write_i32_def write_u64_def write_i64_def write_u128_def write_i128_def
  write_bytes_def

lemma integer_writers [writers]:
  "writer (write_u8 n)" "writer (write_u32 n)" "writer (write_i32 k)" "writer (write_u64 n)" "writer (write_i64 k)"
  "writer (write_u128 n)" "writer (write_i128 k)" "writer (write_bytes bytes)" "writer (write_bool b)"
  by (simp_all add: integer_writes write_bool_def writer_write)

lemma integer_layouts [layouts]:
  "written (write_u8 n) = le_bytes (Suc 0) n" "written (write_u32 n) = le_bytes 4 n" "written (write_i32 k) = le_bytes 4 (twos 32 k)"
  "written (write_u64 n) = le_bytes 8 n" "written (write_i64 k) = le_bytes 8 (twos 64 k)"
  "written (write_u128 n) = le_bytes 16 n" "written (write_i128 k) = le_bytes 16 (twos 128 k)"
  "written (write_bytes bytes) = bytes" "written (write_bool b) = le_bytes (Suc 0) (of_bool b)"
  by (simp_all add: integer_writes write_bool_def written_write)

section \<open>What reading functions accept\<close>

lemma then_read_Inr [readings]: "then_read d k bs = Inr (y, R) \<longleftrightarrow> (\<exists>x bs'. d bs = Inr (x, bs') \<and> k x bs' = Inr (y, R))"
  by (auto simp: then_read_def result_simps)

lemma then_read_step: "d bs = Inr (x, bs') \<Longrightarrow> then_read d k bs = k x bs'"
  by (simp add: then_read_def)

lemma decoded_Inr [readings]: "decoded x bs = Inr (y, R) \<longleftrightarrow> y = x \<and> R = bs"
  by (auto simp: decoded_def)

lemma decode_error_Inr [readings]: "decode_error error bs \<noteq> Inr r"
  by (simp add: decode_error_def)

lemma decoded_from_Inr [readings]: "decoded_from r bs = Inr (y, R) \<longleftrightarrow> r = Inr y \<and> R = bs"
  by (cases r) (auto simp: decoded_from_def)

lemma read_bytes_Inr: "read_bytes n bs = Inr (b, R) \<longleftrightarrow> length b = n \<and> bs = b @ R"
  by (auto simp: read_bytes_def min_absorb2)

lemma read_unsigned:
  "then_read (read_bytes k) (\<lambda>b. decoded (le_value b)) bs = Inr (n, R) \<longleftrightarrow> n < 256 ^ k \<and> bs = le_bytes k n @ R"
  by (auto simp: then_read_Inr decoded_Inr read_bytes_Inr le_value_bytes le_bytes_value le_value_less)

lemma read_signed:
  assumes "0 < k"
  shows "then_read (read_bytes k) (\<lambda>b. decoded (from_twos (8 * k) (le_value b))) bs = Inr (i, R) \<longleftrightarrow>
    - (2 ^ (8 * k - 1)) \<le> i \<and> i < 2 ^ (8 * k - 1) \<and> bs = le_bytes k (twos (8 * k) i) @ R"
proof -
  have p: "(256 :: nat) ^ k = 2 ^ (8 * k)"
    by (simp add: power_mult)
  have "twos (8 * k) i < 256 ^ k"
    using twos_less p by simp
  moreover have "from_twos (8 * k) (twos (8 * k) i) = i" if "- (2 ^ (8 * k - 1)) \<le> i" "i < 2 ^ (8 * k - 1)"
    using that assms by (intro from_twos_twos) auto
  moreover have "bs = le_bytes k (twos (8 * k) i) @ R \<and> - (2 ^ (8 * k - 1)) \<le> i \<and> i < 2 ^ (8 * k - 1)"
    if "length b = k" "bs = b @ R" "i = from_twos (8 * k) (le_value b)" for b
    using that twos_from_twos [of "8 * k" "le_value b"] le_value_less [of b] le_bytes_value [of b] assms p by auto
  ultimately show ?thesis
    by (auto simp: then_read_Inr decoded_Inr read_bytes_Inr le_value_bytes
        intro!: exI [of _ "le_bytes k (twos (8 * k) i)"])
qed

lemma integer_readings [readings]:
  "read_u8 bs = Inr (n, R) \<longleftrightarrow> n < 256 \<and> bs = le_bytes (Suc 0) n @ R"
  "read_u32 bs = Inr (n, R) \<longleftrightarrow> fits_u32 n \<and> bs = le_bytes 4 n @ R"
  "read_i32 bs = Inr (i, R) \<longleftrightarrow> fits_i32 i \<and> bs = le_bytes 4 (twos 32 i) @ R"
  "read_u64 bs = Inr (n, R) \<longleftrightarrow> fits_u64 n \<and> bs = le_bytes 8 n @ R"
  "read_i64 bs = Inr (i, R) \<longleftrightarrow> fits_i64 i \<and> bs = le_bytes 8 (twos 64 i) @ R"
  "read_u128 bs = Inr (n, R) \<longleftrightarrow> fits_u128 n \<and> bs = le_bytes 16 n @ R"
  "read_i128 bs = Inr (i, R) \<longleftrightarrow> fits_i128 i \<and> bs = le_bytes 16 (twos 128 i) @ R"
  using read_unsigned [of 1 bs n R] read_unsigned [of 4 bs n R] read_unsigned [of 8 bs n R] read_unsigned [of 16 bs n R]
    read_signed [of 4 bs i R] read_signed [of 8 bs i R] read_signed [of 16 bs i R]
  by (simp_all add: read_u8_def read_u32_def read_i32_def read_u64_def read_i64_def read_u128_def read_i128_def width_defs)

lemma read_bool_Inr [readings]: "read_bool bs = Inr (b, R) \<longleftrightarrow> bs = le_bytes (Suc 0) (of_bool b) @ R"
  by (auto simp: read_bool_def readings split: if_splits)

lemma read_identifier_Inr [readings]: "read_identifier label bs = Inr (n, R) \<longleftrightarrow> n \<noteq> 0 \<and> fits_u64 n \<and> bs = le_bytes 8 n @ R"
  by (auto simp: read_identifier_def readings identifier_new_def map_sum_eq_Inr split: if_splits)

lemma read_quantity_Inr [readings]: "read_quantity bs = Inr (n, R) \<longleftrightarrow> n \<noteq> 0 \<and> fits_u64 n \<and> bs = le_bytes 8 n @ R"
  by (auto simp: read_quantity_def readings quantity_new_def map_sum_eq_Inr split: if_splits)

lemmas identifier_readings [readings] =
  read_identifier_Inr [of "''account identifier''", folded read_account_def]
  read_identifier_Inr [of "''asset identifier''", folded read_asset_def]
  read_identifier_Inr [of "''command identifier''", folded read_command_id_def]
  read_identifier_Inr [of "''instrument identifier''", folded read_instrument_def]
  read_identifier_Inr [of "''instrument version''", folded read_instrument_version_def]
  read_identifier_Inr [of "''order identifier''", folded read_order_def]
  read_identifier_Inr [of "''trade identifier''", folded read_trade_id_def]
  read_identifier_Inr [of "''transaction identifier''", folded read_transaction_def]

lemma read_count_Inr [readings]:
  "read_count field k bs = Inr (n, R) \<longleftrightarrow> fits_u32 n \<and> bs = le_bytes 4 n @ R \<and> (k = 0 \<or> n \<le> length R div k)"
  unfolding read_count_def then_read_Inr integer_readings by (auto simp: not_less split: if_splits)

lemma read_many_Inr:
  assumes "\<And>bs x R. d bs = Inr (x, R) \<longleftrightarrow> V x \<and> bs = B x @ R"
  shows "read_many d n bs = Inr (xs, R) \<longleftrightarrow> length xs = n \<and> (\<forall>x\<in>set xs. V x) \<and> bs = concat (map B xs) @ R"
proof (induction n arbitrary: bs xs)
  case (Suc n)
  show ?case
    by (cases xs) (auto simp: readings assms Suc.IH)
qed (auto simp: readings)

lemma read_sized_Inr:
  assumes "\<And>bs x. d bs = Inr x \<longleftrightarrow> V x \<and> bs = B x"
  shows "read_sized d bs = Inr (x, R) \<longleftrightarrow> (V x \<and> fits_u32 (length (B x))) \<and> bs = (le_bytes 4 (length (B x)) @ B x) @ R"
  by (auto simp: read_sized_def readings read_bytes_Inr assms)

text \<open>The same facts as evaluation rules.\<close>

named_theorems evaluations \<open>reading what was written\<close>

lemma then_read_evaluation [evaluations]: "d bs = Inr (x, bs') \<Longrightarrow> then_read d k bs = k x bs'"
  by (rule then_read_step)

lemma integer_evaluations [evaluations]:
  "n < 256 \<Longrightarrow> read_u8 (le_bytes (Suc 0) n @ R) = Inr (n, R)"
  "fits_u32 n \<Longrightarrow> read_u32 (le_bytes 4 n @ R) = Inr (n, R)"
  "fits_i32 i \<Longrightarrow> read_i32 (le_bytes 4 (twos 32 i) @ R) = Inr (i, R)"
  "fits_u64 n \<Longrightarrow> read_u64 (le_bytes 8 n @ R) = Inr (n, R)"
  "fits_i64 i \<Longrightarrow> read_i64 (le_bytes 8 (twos 64 i) @ R) = Inr (i, R)"
  "fits_u128 n \<Longrightarrow> read_u128 (le_bytes 16 n @ R) = Inr (n, R)"
  "fits_i128 i \<Longrightarrow> read_i128 (le_bytes 16 (twos 128 i) @ R) = Inr (i, R)"
  by (simp_all add: readings)

lemma bool_evaluations [evaluations]:
  "then_read read_bool k (le_bytes (Suc 0) (of_bool b) @ R) = k b R"
  "then_read read_bool k (le_bytes (Suc 0) 0 @ R) = k False R" "then_read read_bool k (le_bytes (Suc 0) (Suc 0) @ R) = k True R"
proof -
  have e: "then_read read_bool k (le_bytes (Suc 0) (of_bool b) @ R) = k b R" for b
    using read_bool_Inr [of "le_bytes (Suc 0) (of_bool b) @ R" b R] by (simp only: then_read_def and_then.simps) simp
  show "then_read read_bool k (le_bytes (Suc 0) (of_bool b) @ R) = k b R"
    by (rule e)
  show "then_read read_bool k (le_bytes (Suc 0) 0 @ R) = k False R" "then_read read_bool k (le_bytes (Suc 0) (Suc 0) @ R) = k True R"
    using e [of False] e [of True] by simp_all
qed

text \<open>Numbers that an identifier or a quantity of the domain can be.\<close>

definition valid_id :: "nat \<Rightarrow> bool" where
  "valid_id n \<longleftrightarrow> n \<noteq> 0 \<and> fits_u64 n"

lemma identifier_evaluations [evaluations]:
  assumes "valid_id n"
  shows "read_account (le_bytes 8 n @ R) = Inr (n, R)" "read_asset (le_bytes 8 n @ R) = Inr (n, R)"
    "read_command_id (le_bytes 8 n @ R) = Inr (n, R)" "read_instrument (le_bytes 8 n @ R) = Inr (n, R)"
    "read_instrument_version (le_bytes 8 n @ R) = Inr (n, R)" "read_order (le_bytes 8 n @ R) = Inr (n, R)"
    "read_trade_id (le_bytes 8 n @ R) = Inr (n, R)" "read_transaction (le_bytes 8 n @ R) = Inr (n, R)"
    "read_identifier label (le_bytes 8 n @ R) = Inr (n, R)" "read_quantity (le_bytes 8 n @ R) = Inr (n, R)"
  using assms by (simp_all add: readings valid_id_def)

lemma read_bytes_evaluation [evaluations]: "length b = n \<Longrightarrow> read_bytes n (b @ R) = Inr (b, R)"
  by (simp add: read_bytes_Inr)

lemma read_count_evaluation [evaluations]:
  "fits_u32 n \<Longrightarrow> n * k \<le> length R \<Longrightarrow> read_count field k (le_bytes 4 n @ R) = Inr (n, R)"
  by (cases "k = 0") (simp_all add: readings less_eq_div_iff_mult_less_eq)

lemmas decoded_evaluations [evaluations] = decoded_def decoded_from_def

section \<open>Steps of an encoding\<close>

text \<open>The vector can hold every length up to a bound.\<close>

definition admits :: "(nat \<Rightarrow> bool) \<Rightarrow> nat \<Rightarrow> bool" where
  "admits room limit \<longleftrightarrow> fits_usize limit \<and> (\<forall>n\<le>limit. room n)"

lemma admits_growth: "admits room limit \<Longrightarrow> a + b \<le> limit \<Longrightarrow> growth_gate room a b = None"
  using fits_u64_mono [of limit "a + b"] by (simp add: admits_def growth_gate_def checked_encoding_length_def)

lemma writer_admitted:
  assumes "writer w" "failure e = None" "growth e = growth_gate room" "admits room (length (encoded e) + length (written w))"
  shows "failure (w e) = None" "growth (w e) = growth_gate room" "encoded (w e) = encoded e @ written w"
proof -
  show f: "failure (w e) = None"
    by (rule writerD(4) [OF assms(1,2)]) (simp add: assms(3) admits_growth [OF assms(4)])
  show "growth (w e) = growth_gate room"
    by (simp add: writerD(1) [OF assms(1)] assms(3))
  show "encoded (w e) = encoded e @ written w"
    by (rule writerD(3) [OF assms(1) f])
qed

lemma admits_mono: "admits room m \<Longrightarrow> n \<le> m \<Longrightarrow> admits room n"
  using fits_u64_mono by (auto simp: admits_def)

lemma encoder_default_simps [simp]:
  "encoded (encoder_default room) = []" "failure (encoder_default room) = None" "growth (encoder_default room) = growth_gate room"
  by (simp_all add: encoder_default_def)

lemma write_length_Inr:
  "write_length field n e = Inr e' \<longleftrightarrow> failure e = None \<and> fits_u32 n \<and> failure (write_u32 n e) = None \<and> e' = write_u32 n e"
  by (auto simp: write_length_def Let_def result_simps split: option.splits)

lemma encoder_finish_Inr: "encoder_finish e = Inr bs \<longleftrightarrow> failure e = None \<and> bs = encoded e"
  by (auto simp: encoder_finish_def split: option.splits)

text \<open>A step back: what the encoder held before a writer that did not fail.\<close>

lemma writer_back:
  assumes "writer w" "failure (w e) = None"
  shows "failure e = None" "encoded (w e) = encoded e @ written w"
  using writerD(2,3) [OF assms(1), of e] assms(2) by (cases "failure e"; simp)+

text \<open>
  A statement that may fail: when it succeeds, the encoder had not failed, the condition \<open>Q\<close> on its data holds and
  it appended the bytes \<open>L\<close>; under \<open>Q\<close> it succeeds where the vector has room.
\<close>

definition fallible :: "(nat \<Rightarrow> bool) \<Rightarrow> (Encoder \<Rightarrow> CodecError + Encoder) \<Rightarrow> bool \<Rightarrow> byte list \<Rightarrow> bool" where
  "fallible room f Q L \<longleftrightarrow>
     (\<forall>e e'. f e = Inr e' \<and> failure e' = None \<longrightarrow> Q \<and> failure e = None \<and> encoded e' = encoded e @ L) \<and>
     (\<forall>e. Q \<and> failure e = None \<and> growth e = growth_gate room \<and> admits room (length (encoded e) + length L) \<longrightarrow>
        (\<exists>e'. f e = Inr e' \<and> failure e' = None \<and> growth e' = growth_gate room \<and> encoded e' = encoded e @ L))"

lemma fallibleD:
  assumes "fallible room f Q L"
  shows "f e = Inr e' \<Longrightarrow> failure e' = None \<Longrightarrow> Q \<and> failure e = None \<and> encoded e' = encoded e @ L"
    and "Q \<Longrightarrow> failure e = None \<Longrightarrow> growth e = growth_gate room \<Longrightarrow> admits room (length (encoded e) + length L) \<Longrightarrow>
      \<exists>e'. f e = Inr e' \<and> failure e' = None \<and> growth e' = growth_gate room \<and> encoded e' = encoded e @ L"
  using assms unfolding fallible_def by blast+

lemma fallible_always: "writer w \<Longrightarrow> fallible room (always w) True (written w)"
  unfolding fallible_def always_def
proof (intro conjI allI impI, goal_cases)
  case (2 e e')
  then show ?case
    using writer_back(1) [of w e] by simp
next
  case (3 e e')
  then show ?case
    using writer_back(2) [of w e] by simp
next
  case (4 e)
  then show ?case
    using writer_admitted [of w e room] by simp
qed simp

lemma fallible_length: "fallible room (write_length field n) (fits_u32 n) (le_bytes 4 n)"
  unfolding fallible_def write_length_Inr
proof (intro conjI allI impI)
  fix e :: Encoder
  assume a: "fits_u32 n \<and> failure e = None \<and> growth e = growth_gate room \<and> admits room (length (encoded e) + length (le_bytes 4 n))"
  then have "failure (write_u32 n e) = None" "growth (write_u32 n e) = growth_gate room" "encoded (write_u32 n e) = encoded e @ le_bytes 4 n"
    using writer_admitted [OF integer_writers(2), of e room n] by (simp_all add: integer_layouts)
  then show "\<exists>e'. (failure e = None \<and> fits_u32 n \<and> failure (write_u32 n e) = None \<and> e' = write_u32 n e) \<and>
      failure e' = None \<and> growth e' = growth_gate room \<and> encoded e' = encoded e @ le_bytes 4 n"
    using a by blast
qed (use writer_back [OF integer_writers(2)] in \<open>auto simp: integer_layouts\<close>)

lemma fallible_Nil: "fallible room (try_emit []) True []"
  by (simp add: fallible_def)

lemma fallible_Cons:
  assumes f: "fallible room f Q L" and fs: "fallible room (try_emit fs) P M"
  shows "fallible room (try_emit (f # fs)) (Q \<and> P) (L @ M)"
  unfolding fallible_def
proof (intro conjI allI impI)
  fix e e' :: Encoder
  assume "try_emit (f # fs) e = Inr e' \<and> failure e' = None"
  then obtain e1 where e1: "f e = Inr e1" "try_emit fs e1 = Inr e'" "failure e' = None"
    by (auto simp: result_simps)
  then show "Q" "P" "failure e = None" "encoded e' = encoded e @ L @ M"
    using fallibleD(1) [OF fs e1(2,3)] fallibleD(1) [OF f e1(1)] by auto
next
  fix e :: Encoder
  assume a: "(Q \<and> P) \<and> failure e = None \<and> growth e = growth_gate room \<and> admits room (length (encoded e) + length (L @ M))"
  then have q: "Q" "P" "failure e = None" "growth e = growth_gate room" "admits room (length (encoded e) + length (L @ M))"
    by simp_all
  have "admits room (length (encoded e) + length L)"
    by (rule admits_mono [OF q(5)]) simp
  from fallibleD(2) [OF f q(1,3,4) this]
  obtain e1 where e1: "f e = Inr e1" "failure e1 = None" "growth e1 = growth_gate room" "encoded e1 = encoded e @ L"
    by blast
  have "admits room (length (encoded e1) + length M)"
    using q(5) e1(4) by (simp add: add.assoc)
  from fallibleD(2) [OF fs q(2) e1(2,3) this]
  obtain e2 where "try_emit fs e1 = Inr e2" "failure e2 = None" "growth e2 = growth_gate room" "encoded e2 = encoded e1 @ M"
    by blast
  then show "\<exists>e'. try_emit (f # fs) e = Inr e' \<and> failure e' = None \<and> growth e' = growth_gate room \<and> encoded e' = encoded e @ L @ M"
    using e1 by simp
qed

lemma fallible_map:
  assumes "\<And>x. x \<in> set xs \<Longrightarrow> fallible room (f x) (Q x) (L x)"
  shows "fallible room (try_emit (map f xs)) (\<forall>x\<in>set xs. Q x) (concat (map L xs))"
  using assms
proof (induction xs)
  case (Cons x xs)
  then show ?case
    using fallible_Cons [of room "f x" "Q x" "L x" "map f xs"] by (simp del: try_emit.simps)
qed (simp add: fallible_Nil del: try_emit.simps)

text \<open>A loop of statements, as one statement.\<close>

lemma fallible_loop:
  "(\<And>x. x \<in> set xs \<Longrightarrow> fallible room (f x) (Q x) (L x)) \<Longrightarrow>
   fallible room (try_emit (map f xs)) (\<forall>x\<in>set xs. Q x) (concat (map L xs))"
  by (rule fallible_map)

lemma fallible_sized:
  assumes "\<And>b. r = Inr b \<Longrightarrow> P \<and> b = B" and "P \<Longrightarrow> admits room (length B) \<Longrightarrow> r = Inr B"
  shows "fallible room (write_sized field r) (P \<and> fits_u32 (length B)) (le_bytes 4 (length B) @ B)"
proof -
  have f: "fallible room (try_emit [write_length field (length B), always (write_bytes B)]) (fits_u32 (length B) \<and> True \<and> True)
      (le_bytes 4 (length B) @ written (write_bytes B) @ [])"
    by (intro fallible_Cons fallible_length fallible_always fallible_Nil integer_writers)
  have eq: "write_sized field r e = try_emit [write_length field (length B), always (write_bytes B)] e" if "r = Inr B" for e
    using that by (cases "write_length field (length B) e") (simp_all add: write_sized_def always_def)
  show ?thesis
    unfolding fallible_def
  proof (intro conjI allI impI)
    fix e e' :: Encoder
    assume a: "write_sized field r e = Inr e' \<and> failure e' = None"
    then obtain b where "r = Inr b"
      by (auto simp: write_sized_def result_simps)
    then have r: "r = Inr B" "P"
      using assms(1) by auto
    show "P" "fits_u32 (length B)" "failure e = None" "encoded e' = encoded e @ le_bytes 4 (length B) @ B"
      using fallibleD(1) [OF f, of e e'] a r(2) unfolding eq [OF r(1)] by (auto simp: integer_layouts)
  next
    fix e :: Encoder
    assume a: "(P \<and> fits_u32 (length B)) \<and> failure e = None \<and> growth e = growth_gate room \<and>
      admits room (length (encoded e) + length (le_bytes 4 (length B) @ B))"
    then have l: "admits room (length (encoded e) + length (le_bytes 4 (length B) @ B))"
      by simp
    have "admits room (length B)"
      by (rule admits_mono [OF l]) simp
    then have r: "r = Inr B"
      using assms(2) a by blast
    show "\<exists>e'. write_sized field r e = Inr e' \<and> failure e' = None \<and> growth e' = growth_gate room \<and>
        encoded e' = encoded e @ le_bytes 4 (length B) @ B"
      using fallibleD(2) [OF f, of e] a unfolding eq [OF r] by (simp add: integer_layouts)
  qed
qed

lemma fallible_eq: "fallible room f Q L \<Longrightarrow> Q = Q' \<Longrightarrow> L = L' \<Longrightarrow> fallible room f Q' L'"
  by simp

lemmas fallible_rules = fallible_Cons fallible_always fallible_length fallible_Nil

lemma encode_steps_Inr:
  assumes "fallible room (try_emit steps) Q L"
  shows "encode_steps room steps = Inr bs \<Longrightarrow> Q \<and> bs = L"
    and "Q \<Longrightarrow> admits room (length L) \<Longrightarrow> encode_steps room steps = Inr L"
  using fallibleD(1) [OF assms, of "encoder_default room"] fallibleD(2) [OF assms, of "encoder_default room"]
  by (auto simp: encode_steps_def result_simps encoder_finish_Inr)

section \<open>The interface of a codec\<close>

text \<open>
  A writing and a reading function of one type: the reader accepts exactly the bytes written for a valid value and
  leaves what follows them.
\<close>

locale wire =
  fixes valid :: "'a \<Rightarrow> bool"
    and writes :: "'a \<Rightarrow> Encoder \<Rightarrow> Encoder"
    and reads :: "'a reading"
  assumes writes: "writer (writes x)"
    and reads: "valid x \<Longrightarrow> reads (written (writes x) @ R) = Inr (x, R)"
    and consumes: "reads bs = Inr (x, R) \<Longrightarrow> valid x \<and> bs = written (writes x) @ R"
begin

lemma reads_Inr: "reads bs = Inr (x, R) \<longleftrightarrow> valid x \<and> bs = written (writes x) @ R"
  using reads consumes by auto

lemma write_each: "writer (write_each writes xs) \<and> written (write_each writes xs) = concat (map (\<lambda>x. written (writes x)) xs)"
  using writer_emit [of "map writes xs"] writes by (auto simp: write_each_def comp_def)

lemma reads_many: "read_many reads n bs = Inr (xs, R) \<longleftrightarrow>
    length xs = n \<and> (\<forall>x\<in>set xs. valid x) \<and> bs = concat (map (\<lambda>x. written (writes x)) xs) @ R"
  by (rule read_many_Inr) (rule reads_Inr)

lemma decode_value_iff: "decode_value reads bs = Inr x \<longleftrightarrow> valid x \<and> bs = written (writes x)"
  by (auto simp: decode_value_def result_simps reads_Inr decoder_finish_def)

lemma encode_value_written: "encode_value writes room x = Inr bs \<Longrightarrow> bs = written (writes x)"
  using writerD(3) [OF writes, of x "encoder_default room"]
  by (auto simp: encode_value_def encoder_finish_def encoder_default_def split: option.splits)

lemma encode_value_Inr: "admits room (length (written (writes x))) \<Longrightarrow> encode_value writes room x = Inr (written (writes x))"
  using writer_admitted [OF writes, of "encoder_default room" room x] by (simp add: encode_value_def encoder_finish_Inr)

end

lemma wire_enum:
  assumes "\<And>x. tag x < 256 \<and> map_of table (tag x) = Some x" and "list_all (\<lambda>(t, x). tag x = t) table"
  shows "wire (\<lambda>_. True) (\<lambda>x. write_u8 (tag x)) (read_tagged name table)"
proof
  fix x :: 'a and R bs
  show "writer (write_u8 (tag x))"
    by (rule writers)
  have inv: "tag y = t" if "map_of table t = Some y" for t y
    using assms(2) map_of_SomeD [OF that] by (auto simp: list_all_iff)
  show "read_tagged name table (written (write_u8 (tag x)) @ R) = Inr (x, R)"
    using assms(1) [of x] by (simp add: read_tagged_def layouts evaluations)
  show "True \<and> bs = written (write_u8 (tag x)) @ R" if "read_tagged name table bs = Inr (x, R)"
    using that inv by (auto simp: read_tagged_def readings layouts split: option.splits)
qed

section \<open>Complete values\<close>

text \<open>
  The contract of \<open>BinaryCodec\<close>: the values of the Rust type (\<open>valid\<close>), those within the limits of the format
  (\<open>encodable\<close>), their bytes, and an encoder and a decoder, the latter where every reservation succeeds.
\<close>

locale binary_codec =
  fixes valid :: "'a \<Rightarrow> bool"
    and encodable :: "'a \<Rightarrow> bool"
    and bytes :: "'a \<Rightarrow> byte list"
    and encodes :: "(nat \<Rightarrow> bool) \<Rightarrow> 'a \<Rightarrow> CodecError + byte list"
    and decodes :: "byte list \<Rightarrow> CodecError + 'a"
  assumes encodes_back: "encodes room x = Inr bs \<Longrightarrow> encodable x \<and> bs = bytes x"
    and encodes_forward: "encodable x \<Longrightarrow> admits room (length (bytes x)) \<Longrightarrow> encodes room x = Inr (bytes x)"
    and decodes_Inr: "decodes bs = Inr x \<longleftrightarrow> valid x \<and> encodable x \<and> bs = bytes x"
begin

lemma roundtrip: "valid x \<Longrightarrow> encodes room x = Inr bs \<Longrightarrow> decodes bs = Inr x"
  using encodes_back [of room x bs] decodes_Inr [of bs x] by simp

lemma canonical: "decodes bs = Inr x \<Longrightarrow> admits room (length bs) \<Longrightarrow> valid x \<and> encodes room x = Inr bs"
  using encodes_forward [of x room] decodes_Inr [of bs x] by simp

lemma decodes_iff: "fits_usize (length bs) \<Longrightarrow> decodes bs = Inr x \<longleftrightarrow> valid x \<and> encodes (\<lambda>_. True) x = Inr bs"
  using roundtrip [of x "\<lambda>_. True" bs] canonical [of bs x "\<lambda>_. True"] unfolding admits_def by blast

lemma sized: "fallible room (write_sized field (encodes room x)) (encodable x \<and> fits_u32 (length (bytes x)))
    (le_bytes 4 (length (bytes x)) @ bytes x)"
  by (rule fallible_sized, erule encodes_back, rule encodes_forward)

end

text \<open>A type with a writing and a reading function has such a codec.\<close>

sublocale wire \<subseteq> binary_codec valid "\<lambda>_. True" "\<lambda>x. written (writes x)" "encode_value writes" "decode_value reads"
proof
  show "True \<and> bs = written (writes x)" if "encode_value writes room x = Inr bs" for room x bs
    using encode_value_written [OF that] by simp
  show "encode_value writes room x = Inr (written (writes x))" if "admits room (length (written (writes x)))" for room x
    by (rule encode_value_Inr [OF that])
  show "decode_value reads bs = Inr x \<longleftrightarrow> valid x \<and> True \<and> bs = written (writes x)" for bs x
    by (simp add: decode_value_iff)
qed

end
