(* ===== verification/CodecLedger.thy ===== *)
theory CodecLedger
  imports Codec
begin

text \<open>
  The encoding of ledger records in \<open>src/src/codec.rs\<close>: entries, corrections, batches, records and checkpoints,
  each nested value behind its length, with the canonical form a decoded entry must have.
\<close>

section \<open>Entries\<close>

definition encode_posting :: "Posting \<Rightarrow> Encoder \<Rightarrow> Encoder" where
  "encode_posting p = emit [write_u64 (account_id p), write_u64 (asset_id p), write_i128 (amount p)]"

definition decode_posting :: "Posting reading" where
  "decode_posting =
     then_read read_account (\<lambda>account. then_read read_asset (\<lambda>asset. then_read read_i128 (\<lambda>v.
     decoded \<lparr>account_id = account, asset_id = asset, amount = v\<rparr>)))"

text \<open>The tag, related transaction and period boundary an entry kind is written as.\<close>

fun kind_fields :: "LedgerEntryKind \<Rightarrow> nat \<times> TransactionId \<times> AccountingDate option" where
  "kind_fields Standard = (0, 0, None)"
| "kind_fields (Reversal reversed) = (1, reversed, None)"
| "kind_fields (PeriodClose closed_through) = (2, 0, Some closed_through)"
| "kind_fields (PeriodReopen new_closed_through) = (3, 0, new_closed_through)"

definition days_or_zero :: "AccountingDate option \<Rightarrow> int" where
  "days_or_zero date = (case date of None \<Rightarrow> 0 | Some days \<Rightarrow> days)"

definition encode_entry :: "(nat \<Rightarrow> bool) \<Rightarrow> JournalEntry \<Rightarrow> CodecError + byte list" where
  "encode_entry room x =
     (let (kind_tag, related, boundary) = kind_fields (entry_kind x) in
      encode_steps room
        [always (write_u64 (transaction_id x)), always (write_u64 (entry_reference x)),
         always (write_bool (effective_date x \<noteq> None)), always (write_i32 (days_or_zero (effective_date x))),
         always (write_u64 (recorded_at x)), write_length ''journal entry postings'' (length (postings x)),
         always (write_each encode_posting (postings x)), always (write_u8 kind_tag), always (write_u64 related),
         always (write_bool (boundary \<noteq> None)), always (write_i32 (days_or_zero boundary))])"

definition decode_kind :: "nat \<Rightarrow> nat \<Rightarrow> AccountingDate option \<Rightarrow> CodecError + LedgerEntryKind" where
  "decode_kind tag related boundary =
     (if tag = 0 then
        if related = 0 \<and> boundary = None then Inr Standard
        else Inl (InvalidValue ''standard ledger entry has control metadata'')
      else if tag = 1 then
        (case boundary of
           None \<Rightarrow> and_then (map_sum InvalidDomain id (identifier_new ''transaction identifier'' related)) (\<lambda>reversed. Inr (Reversal reversed))
         | Some _ \<Rightarrow> Inl (InvalidValue ''reversal ledger entry has a period boundary''))
      else if tag = 2 then
        (case boundary of
           Some closed_through \<Rightarrow>
             if related = 0 then Inr (PeriodClose closed_through)
             else Inl (InvalidValue ''period-close ledger entry has invalid metadata'')
         | None \<Rightarrow> Inl (InvalidValue ''period-close ledger entry has invalid metadata''))
      else if tag = 3 then
        if related = 0 then Inr (PeriodReopen boundary)
        else Inl (InvalidValue ''period-reopen ledger entry has a related transaction'')
      else Inl (InvalidTag ''ledger entry kind'' tag))"

text \<open>A flag and a date that is zero where the flag is not set.\<close>

definition read_optional_date :: "string \<Rightarrow> AccountingDate option reading" where
  "read_optional_date detail =
     then_read read_bool (\<lambda>present. then_read read_i32 (\<lambda>days.
       if \<not> present \<and> days \<noteq> 0 then decode_error (InvalidValue detail) else decoded (if present then Some days else None)))"

definition decode_entry :: "(nat \<Rightarrow> bool) \<Rightarrow> byte list \<Rightarrow> CodecError + JournalEntry" where
  "decode_entry room bs =
     and_then (read_transaction bs) (\<lambda>(tid, bs).
     and_then (read_u64 bs) (\<lambda>(ref, bs).
     and_then (read_optional_date ''absent ledger effective date has a non-zero value'' bs) (\<lambda>(date, bs).
     and_then (read_u64 bs) (\<lambda>(recorded, bs).
     and_then (read_count ''journal entry postings'' 32 bs) (\<lambda>(n, bs).
     and_then (reserve_decoded_vec room ''journal entry postings'' n) (\<lambda>_.
     and_then (read_many decode_posting n bs) (\<lambda>(ps, bs).
     and_then (read_u8 bs) (\<lambda>(tag, bs).
     and_then (read_u64 bs) (\<lambda>(related, bs).
     and_then (read_optional_date ''absent ledger period boundary has a non-zero value'' bs) (\<lambda>(boundary, bs).
     and_then (decode_kind tag related boundary) (\<lambda>kind.
     and_then (decoder_finish bs) (\<lambda>_.
     and_then (ensure (\<not> windows_any (\<lambda>p q. posting_order q < posting_order p) ps)
       (InvalidValue ''journal entry postings are not in canonical order'')) (\<lambda>_.
       map_sum InvalidJournalEntry id (with_kind tid ref date recorded ps kind))))))))))))))"

section \<open>Corrections, batches, records and checkpoints\<close>

definition encode_correction :: "(nat \<Rightarrow> bool) \<Rightarrow> LedgerCorrection \<Rightarrow> CodecError + byte list" where
  "encode_correction room c =
     and_then (encode_entry room (correction_reversal c)) (\<lambda>reversal.
     and_then (encode_entry room (correction_replacement c)) (\<lambda>replacement.
       encode_steps room
         [write_length ''ledger correction reversal'' (length reversal), always (write_bytes reversal),
          write_length ''ledger correction replacement'' (length replacement), always (write_bytes replacement)]))"

definition decode_correction :: "(nat \<Rightarrow> bool) \<Rightarrow> byte list \<Rightarrow> CodecError + LedgerCorrection" where
  "decode_correction room bs =
     and_then (read_sized (decode_entry room) bs) (\<lambda>(reversal, bs).
     and_then (read_sized (decode_entry room) bs) (\<lambda>(replacement, bs).
     and_then (decoder_finish bs) (\<lambda>_. map_sum InvalidJournalEntry id (correction_from_parts reversal replacement))))"

definition encode_batch :: "(nat \<Rightarrow> bool) \<Rightarrow> LedgerBatch \<Rightarrow> CodecError + byte list" where
  "encode_batch room b = encode_steps room
     (write_length ''ledger batch entries'' (length (batch_entries b)) #
      map (\<lambda>x. write_sized ''ledger batch entry payload'' (encode_entry room x)) (batch_entries b))"

text \<open>\<open>reserve\<close> is the answer to the reservation of the identity set in \<open>LedgerBatch::new\<close>.\<close>

definition decode_batch :: "reserve \<Rightarrow> (nat \<Rightarrow> bool) \<Rightarrow> byte list \<Rightarrow> CodecError + LedgerBatch" where
  "decode_batch reserve room bs =
     and_then (read_count ''ledger batch entries'' 51 bs) (\<lambda>(n, bs).
     and_then (reserve_decoded_vec room ''ledger batch entries'' n) (\<lambda>_.
     and_then (read_many (read_sized (decode_entry room)) n bs) (\<lambda>(entries, bs).
     and_then (decoder_finish bs) (\<lambda>_. map_sum InvalidJournalEntry id (batch_new reserve entries)))))"

fun encode_record :: "(nat \<Rightarrow> bool) \<Rightarrow> LedgerRecord \<Rightarrow> CodecError + byte list" where
  "encode_record room (RecordEntry x) =
     and_then (encode_entry room x) (\<lambda>bytes. encode_steps room [always (write_u8 0), always (write_bytes bytes)])"
| "encode_record room (RecordCorrection c) =
     and_then (encode_correction room c) (\<lambda>bytes. encode_steps room [always (write_u8 1), always (write_bytes bytes)])"
| "encode_record room (RecordBatch b) =
     and_then (encode_batch room b) (\<lambda>bytes. encode_steps room [always (write_u8 2), always (write_bytes bytes)])"

definition decode_record :: "reserve \<Rightarrow> (nat \<Rightarrow> bool) \<Rightarrow> byte list \<Rightarrow> CodecError + LedgerRecord" where
  "decode_record reserve room bs =
     (case bs of
        [] \<Rightarrow> Inl (UnexpectedEnd 1 0)
      | tag # payload \<Rightarrow>
          if tag = 0 then map_sum id RecordEntry (decode_entry room payload)
          else if tag = 1 then map_sum id RecordCorrection (decode_correction room payload)
          else if tag = 2 then map_sum id RecordBatch (decode_batch reserve room payload)
          else Inl (InvalidTag ''ledger record'' (unat tag)))"

definition encode_balance :: "LedgerBalance \<Rightarrow> Encoder \<Rightarrow> Encoder" where
  "encode_balance b = emit [write_u64 (balance_account b), write_u64 (balance_asset b), write_i128 (balance_amount b)]"

definition decode_balance :: "LedgerBalance reading" where
  "decode_balance =
     then_read read_account (\<lambda>account. then_read read_asset (\<lambda>asset. then_read read_i128 (\<lambda>v.
     decoded \<lparr>balance_account = account, balance_asset = asset, balance_amount = v\<rparr>)))"

definition encode_checkpoint :: "(nat \<Rightarrow> bool) \<Rightarrow> LedgerCheckpoint \<Rightarrow> CodecError + byte list" where
  "encode_checkpoint room c = encode_steps room
     ([always (write_u64 (checkpoint_generation c)),
       write_length ''ledger checkpoint balances'' (length (checkpoint_balances c)),
       always (write_each encode_balance (checkpoint_balances c)),
       write_length ''ledger checkpoint records'' (length (checkpoint_records c))] @
      map (\<lambda>r. write_sized ''ledger checkpoint record payload'' (encode_record room r)) (checkpoint_records c))"

definition decode_checkpoint ::
    "(LedgerResource \<Rightarrow> nat \<Rightarrow> bool) \<Rightarrow> reserve \<Rightarrow> (nat \<Rightarrow> bool) \<Rightarrow> byte list \<Rightarrow> CodecError + LedgerCheckpoint" where
  "decode_checkpoint reserve_layout reserve room bs =
     and_then (read_u64 bs) (\<lambda>(generation, bs).
     and_then (read_count ''ledger checkpoint balances'' 32 bs) (\<lambda>(n, bs).
     and_then (reserve_decoded_vec room ''ledger checkpoint balances'' n) (\<lambda>_.
     and_then (read_many decode_balance n bs) (\<lambda>(balances, bs).
     and_then (read_count ''ledger checkpoint records'' 52 bs) (\<lambda>(m, bs).
     and_then (reserve_decoded_vec room ''ledger checkpoint records'' m) (\<lambda>_.
     and_then (read_many (read_sized (decode_record reserve room)) m bs) (\<lambda>(records, bs).
     and_then (decoder_finish bs) (\<lambda>_.
       map_sum InvalidLedgerCheckpoint id (checkpoint_from_parts reserve_layout reserve generation balances records)))))))))"

section \<open>What entries encode to\<close>

text \<open>The values the Rust types hold.\<close>

definition valid_posting :: "Posting \<Rightarrow> bool" where
  "valid_posting p \<longleftrightarrow> valid_id (account_id p) \<and> valid_id (asset_id p) \<and> fits_i128 (amount p)"

fun valid_kind :: "LedgerEntryKind \<Rightarrow> bool" where
  "valid_kind Standard = True"
| "valid_kind (Reversal reversed) = valid_id reversed"
| "valid_kind (PeriodClose closed_through) = fits_i32 closed_through"
| "valid_kind (PeriodReopen new_closed_through) = (\<forall>days. new_closed_through = Some days \<longrightarrow> fits_i32 days)"

definition valid_entry :: "JournalEntry \<Rightarrow> bool" where
  "valid_entry x \<longleftrightarrow> valid_id (transaction_id x) \<and> fits_u64 (entry_reference x) \<and>
     (\<forall>days. effective_date x = Some days \<longrightarrow> fits_i32 days) \<and> fits_u64 (recorded_at x) \<and>
     (\<forall>p\<in>set (postings x). valid_posting p) \<and> valid_kind (entry_kind x) \<and> entry_wf x"

interpretation posting_wire: wire valid_posting encode_posting decode_posting
proof (unfold_locales, goal_cases)
  case (1 x)
  show ?case
    by (simp add: encode_posting_def writers)
next
  case (2 x R)
  then show ?case
    by (simp add: encode_posting_def decode_posting_def valid_posting_def layouts writers evaluations)
next
  case (3 bs x R)
  then show ?case
    by (auto simp: encode_posting_def decode_posting_def valid_posting_def valid_id_def layouts writers readings)
qed

definition optional_date_bytes :: "AccountingDate option \<Rightarrow> byte list" where
  "optional_date_bytes date = le_bytes (Suc 0) (of_bool (date \<noteq> None)) @ le_bytes 4 (twos 32 (days_or_zero date))"

lemma read_optional_date_Inr:
  "read_optional_date detail bs = Inr (date, R) \<longleftrightarrow> (\<forall>days. date = Some days \<longrightarrow> fits_i32 days) \<and> bs = optional_date_bytes date @ R"
proof -
  have "fits_i32 0"
    by (simp add: fits_i32_def)
  then show ?thesis
    by (cases date) (auto simp: read_optional_date_def readings optional_date_bytes_def days_or_zero_def split: if_splits)
qed

definition entry_bytes :: "JournalEntry \<Rightarrow> byte list" where
  "entry_bytes x = (let (kind_tag, related, boundary) = kind_fields (entry_kind x) in
     le_bytes 8 (transaction_id x) @ le_bytes 8 (entry_reference x) @ optional_date_bytes (effective_date x) @
     le_bytes 8 (recorded_at x) @ le_bytes 4 (length (postings x)) @ concat (map (\<lambda>p. written (encode_posting p)) (postings x)) @
     le_bytes (Suc 0) kind_tag @ le_bytes 8 related @ optional_date_bytes boundary)"

lemma decode_kind_Inr:
  assumes "fits_u64 related" "\<forall>days. boundary = Some days \<longrightarrow> fits_i32 days"
  shows "decode_kind tag related boundary = Inr kind \<longleftrightarrow> kind_fields kind = (tag, related, boundary) \<and> valid_kind kind"
  using assms
  by (cases kind) (auto simp: decode_kind_def result_simps identifier_new_def valid_id_def map_sum_eq_Inr split: option.splits if_splits)

lemma kind_fields_fit: "valid_kind kind \<Longrightarrow> kind_fields kind = (tag, related, boundary) \<Longrightarrow>
    tag < 256 \<and> fits_u64 related \<and> (\<forall>days. boundary = Some days \<longrightarrow> fits_i32 days)"
  by (cases kind) (auto simp: valid_id_def fits_u64_def)

lemma windows_canonical: "\<not> windows_any (\<lambda>p q. posting_order q < posting_order p) ps \<longleftrightarrow> sorted (map posting_order ps)"
  by (induction ps rule: induct_list012) (auto simp: not_less intro: order_trans)

lemma with_kind_sorted:
  assumes "typed_postings ps" "sorted (map posting_order ps)"
  shows "with_kind tid ref date recorded ps kind = Inr x \<longleftrightarrow> entry_wf x \<and> x = \<lparr>transaction_id = tid, entry_reference = ref,
    effective_date = date, recorded_at = recorded, postings = ps, entry_kind = kind\<rparr>"
proof (cases "is_control kind")
  case True
  show ?thesis
    unfolding with_kind_control [OF True] using True by (auto simp: entry_wf_def)
next
  case False
  show ?thesis
    unfolding with_kind_financial [OF assms(1) False] sort_key_id_if_sorted [OF assms(2)]
    using False assms by (auto simp: entry_wf_def postings_wf_def)
qed

lemma postings_size: "length (concat (map (\<lambda>p. written (encode_posting p)) ps)) = length ps * 32"
  by (induction ps) (simp_all add: encode_posting_def layouts writers)

lemma entry_size: "47 \<le> length (entry_bytes x)"
  by (cases "entry_kind x") (simp_all add: entry_bytes_def optional_date_bytes_def)

lemma decode_entry_Inr:
  "decode_entry room bs = Inr x \<longleftrightarrow>
   valid_entry x \<and> fits_u32 (length (postings x)) \<and> room (length (postings x)) \<and> bs = entry_bytes x"
proof
  assume "decode_entry room bs = Inr x"
  then obtain tid bs1 ref bs2 date bs3 recorded bs4 n bs5 ps bs6 tag bs7 related bs8 boundary kind where
    r: "read_transaction bs = Inr (tid, bs1)" "read_u64 bs1 = Inr (ref, bs2)"
      "read_optional_date ''absent ledger effective date has a non-zero value'' bs2 = Inr (date, bs3)"
      "read_u64 bs3 = Inr (recorded, bs4)" "read_count ''journal entry postings'' 32 bs4 = Inr (n, bs5)" "room n"
      "read_many decode_posting n bs5 = Inr (ps, bs6)" "read_u8 bs6 = Inr (tag, bs7)" "read_u64 bs7 = Inr (related, bs8)"
      "read_optional_date ''absent ledger period boundary has a non-zero value'' bs8 = Inr (boundary, [])"
      "decode_kind tag related boundary = Inr kind" "\<not> windows_any (\<lambda>p q. posting_order q < posting_order p) ps"
      "with_kind tid ref date recorded ps kind = Inr x"
    by (auto simp: decode_entry_def result_simps map_sum_eq_Inr reserve_decoded_vec_def decoder_finish_def)
  note f = r(1-5,7-10) [unfolded readings read_optional_date_Inr posting_wire.reads_many]
  have typed: "typed_postings ps"
    using f(6) by (auto simp: typed_postings_def valid_posting_def)
  have x: "entry_wf x" "x = \<lparr>transaction_id = tid, entry_reference = ref, effective_date = date, recorded_at = recorded,
      postings = ps, entry_kind = kind\<rparr>"
    using r(13) with_kind_sorted [OF typed] r(12) by (auto simp: windows_canonical)
  have k: "kind_fields kind = (tag, related, boundary)" "valid_kind kind"
    using r(11) decode_kind_Inr f(8,9) by auto
  show "valid_entry x \<and> fits_u32 (length (postings x)) \<and> room (length (postings x)) \<and> bs = entry_bytes x"
    using f r(6) k x(1) by (simp add: valid_entry_def x(2) valid_id_def entry_bytes_def)
next
  assume a: "valid_entry x \<and> fits_u32 (length (postings x)) \<and> room (length (postings x)) \<and> bs = entry_bytes x"
  obtain tag related boundary where k: "kind_fields (entry_kind x) = (tag, related, boundary)"
    by (metis prod_cases3)
  have v: "valid_kind (entry_kind x)" "entry_wf x"
    using a by (auto simp: valid_entry_def)
  note kf = kind_fields_fit [OF v(1) k]
  have typed: "typed_postings (postings x)"
    using a by (auto simp: typed_postings_def valid_entry_def valid_posting_def)
  have sorted: "sorted (map posting_order (postings x))"
    using v(2) by (auto simp: entry_wf_def postings_wf_def split: if_splits)
  have date: "read_optional_date detail (optional_date_bytes (effective_date x) @ R) = Inr (effective_date x, R)"
    "read_optional_date detail (optional_date_bytes boundary) = Inr (boundary, [])" for detail R
    using a kf by (auto simp: read_optional_date_Inr valid_entry_def)
  have many: "read_many decode_posting (length (postings x)) (concat (map (\<lambda>p. written (encode_posting p)) (postings x)) @ R) =
      Inr (postings x, R)" for R
    using a by (auto simp: posting_wire.reads_many valid_entry_def)
  have "decode_kind tag related boundary = Inr (entry_kind x)"
    using decode_kind_Inr kf k v(1) by auto
  moreover have "with_kind (transaction_id x) (entry_reference x) (effective_date x) (recorded_at x) (postings x) (entry_kind x) = Inr x"
    using with_kind_sorted [OF typed sorted] v(2) by simp
  ultimately show "decode_entry room bs = Inr x"
    using a kf date many sorted
    by (simp add: decode_entry_def entry_bytes_def k valid_entry_def evaluations postings_size reserve_decoded_vec_def
        decoder_finish_def windows_canonical)
qed

interpretation entry_codec: binary_codec valid_entry "\<lambda>x. fits_u32 (length (postings x))" entry_bytes encode_entry "decode_entry (\<lambda>_. True)"
proof -
  have f: "fallible room (try_emit
        [always (write_u64 (transaction_id x)), always (write_u64 (entry_reference x)),
         always (write_bool (effective_date x \<noteq> None)), always (write_i32 (days_or_zero (effective_date x))),
         always (write_u64 (recorded_at x)), write_length ''journal entry postings'' (length (postings x)),
         always (write_each encode_posting (postings x)), always (write_u8 kind_tag), always (write_u64 related),
         always (write_bool (boundary \<noteq> None)), always (write_i32 (days_or_zero boundary))])
      (fits_u32 (length (postings x))) (entry_bytes x)" if "kind_fields (entry_kind x) = (kind_tag, related, boundary)"
    for room x kind_tag related boundary
    by (rule fallible_eq, (rule fallible_rules writers conjunct1 [OF posting_wire.write_each])+)
      (simp_all add: layouts posting_wire.write_each entry_bytes_def optional_date_bytes_def that)
  show "binary_codec valid_entry (\<lambda>x. fits_u32 (length (postings x))) entry_bytes encode_entry (decode_entry (\<lambda>_. True))"
  proof
    fix room bs and x :: JournalEntry
    obtain t r b where k: "kind_fields (entry_kind x) = (t, r, b)"
      by (metis prod_cases3)
    show "fits_u32 (length (postings x)) \<and> bs = entry_bytes x" if "encode_entry room x = Inr bs"
      using encode_steps_Inr(1) [OF f [OF k]] that unfolding encode_entry_def k by auto
    show "encode_entry room x = Inr (entry_bytes x)" if "fits_u32 (length (postings x))" "admits room (length (entry_bytes x))"
      using encode_steps_Inr(2) [OF f [OF k]] that unfolding encode_entry_def k by auto
    show "decode_entry (\<lambda>_. True) bs = Inr x \<longleftrightarrow> valid_entry x \<and> fits_u32 (length (postings x)) \<and> bs = entry_bytes x"
      by (simp add: decode_entry_Inr)
  qed
qed

section \<open>What corrections, batches and records encode to\<close>

text \<open>A nested entry: its size fits the format, and its length.\<close>

definition sized_entry_ok :: "JournalEntry \<Rightarrow> bool" where
  "sized_entry_ok x \<longleftrightarrow> fits_u32 (length (postings x)) \<and> fits_u32 (length (entry_bytes x))"

definition sized_entry :: "JournalEntry \<Rightarrow> byte list" where
  "sized_entry x = le_bytes 4 (length (entry_bytes x)) @ entry_bytes x"

lemma read_sized_entry:
  "read_sized (decode_entry (\<lambda>_. True)) bs = Inr (x, R) \<longleftrightarrow> (valid_entry x \<and> sized_entry_ok x) \<and> bs = sized_entry x @ R"
  using read_sized_Inr [of "decode_entry (\<lambda>_. True)" "\<lambda>x. valid_entry x \<and> fits_u32 (length (postings x))" entry_bytes bs x R]
    entry_codec.decodes_Inr by (auto simp: sized_entry_ok_def sized_entry_def)

lemma sized_entry_fallible: "fallible room (write_sized field (encode_entry room x)) (sized_entry_ok x) (sized_entry x)"
  unfolding sized_entry_ok_def sized_entry_def by (rule entry_codec.sized)

lemma sized_entries: "length xs * 51 \<le> length (concat (map sized_entry xs))"
proof (induction xs)
  case (Cons x xs)
  then show ?case
    using entry_size [of x] by (simp add: sized_entry_def)
qed simp

definition valid_correction :: "LedgerCorrection \<Rightarrow> bool" where
  "valid_correction c \<longleftrightarrow> valid_entry (correction_reversal c) \<and> valid_entry (correction_replacement c) \<and>
     correction_from_parts (correction_reversal c) (correction_replacement c) = Inr c"

definition correction_fits :: "LedgerCorrection \<Rightarrow> bool" where
  "correction_fits c \<longleftrightarrow> sized_entry_ok (correction_reversal c) \<and> sized_entry_ok (correction_replacement c)"

definition correction_bytes :: "LedgerCorrection \<Rightarrow> byte list" where
  "correction_bytes c = sized_entry (correction_reversal c) @ sized_entry (correction_replacement c)"

lemma correction_parts: "correction_from_parts a b = Inr c \<Longrightarrow> correction_reversal c = a \<and> correction_replacement c = b"
  by (auto simp: correction_from_parts_def result_simps split: LedgerEntryKind.splits)

interpretation correction_codec: binary_codec valid_correction correction_fits correction_bytes encode_correction
  "decode_correction (\<lambda>_. True)"
proof
  fix room bs and c :: LedgerCorrection
  let ?a = "correction_reversal c" and ?b = "correction_replacement c"
  have f: "fallible room (try_emit
      [write_length ''ledger correction reversal'' (length (entry_bytes ?a)), always (write_bytes (entry_bytes ?a)),
       write_length ''ledger correction replacement'' (length (entry_bytes ?b)), always (write_bytes (entry_bytes ?b))])
      (fits_u32 (length (entry_bytes ?a)) \<and> fits_u32 (length (entry_bytes ?b))) (correction_bytes c)"
    by (rule fallible_eq, (rule fallible_rules writers)+) (simp_all add: layouts correction_bytes_def sized_entry_def)
  show "correction_fits c \<and> bs = correction_bytes c" if enc: "encode_correction room c = Inr bs"
  proof -
    obtain a b where ab: "encode_entry room ?a = Inr a" "encode_entry room ?b = Inr b"
      using enc by (auto simp: encode_correction_def result_simps)
    note inner = entry_codec.encodes_back [OF ab(1)] entry_codec.encodes_back [OF ab(2)]
    show ?thesis
      using encode_steps_Inr(1) [OF f, of bs] enc ab inner by (simp add: encode_correction_def correction_fits_def sized_entry_ok_def)
  qed
  show "encode_correction room c = Inr (correction_bytes c)" if fits: "correction_fits c" and room: "admits room (length (correction_bytes c))"
  proof -
    have "admits room (length (entry_bytes ?a))" "admits room (length (entry_bytes ?b))"
      by (rule admits_mono [OF room], simp add: correction_bytes_def sized_entry_def)+
    then have "encode_entry room ?a = Inr (entry_bytes ?a)" "encode_entry room ?b = Inr (entry_bytes ?b)"
      using fits entry_codec.encodes_forward by (simp_all add: correction_fits_def sized_entry_ok_def)
    then show ?thesis
      using encode_steps_Inr(2) [OF f _ room] fits by (simp add: encode_correction_def correction_fits_def sized_entry_ok_def)
  qed
  show "decode_correction (\<lambda>_. True) bs = Inr c \<longleftrightarrow> valid_correction c \<and> correction_fits c \<and> bs = correction_bytes c"
    using correction_parts [of _ _ c]
    by (auto simp: decode_correction_def result_simps read_sized_entry map_sum_eq_Inr decoder_finish_def valid_correction_def
        correction_fits_def correction_bytes_def)
qed

definition valid_batch :: "LedgerBatch \<Rightarrow> bool" where
  "valid_batch b \<longleftrightarrow> (\<forall>x\<in>set (batch_entries b). valid_entry x) \<and> batch_new (\<lambda>_ _. True) (batch_entries b) = Inr b"

definition batch_fits :: "LedgerBatch \<Rightarrow> bool" where
  "batch_fits b \<longleftrightarrow> fits_u32 (length (batch_entries b)) \<and> (\<forall>x\<in>set (batch_entries b). sized_entry_ok x)"

definition batch_bytes :: "LedgerBatch \<Rightarrow> byte list" where
  "batch_bytes b = le_bytes 4 (length (batch_entries b)) @ concat (map sized_entry (batch_entries b))"

lemma batch_new_entries: "batch_new reserve es = Inr b \<Longrightarrow> batch_entries b = es"
  by (auto simp: batch_new_def result_simps split: option.splits)

lemma read_count_size:
  "k * n \<le> length R \<Longrightarrow> 0 < k \<Longrightarrow> fits_u32 n \<Longrightarrow> read_count field k (le_bytes 4 n @ R) = Inr (n, R)"
  by (simp add: read_count_evaluation mult.commute)

interpretation batch_codec: binary_codec valid_batch batch_fits batch_bytes encode_batch "decode_batch (\<lambda>_ _. True) (\<lambda>_. True)"
proof
  fix room bs and b :: LedgerBatch
  have f: "fallible room (try_emit (write_length ''ledger batch entries'' (length (batch_entries b)) #
      map (\<lambda>x. write_sized ''ledger batch entry payload'' (encode_entry room x)) (batch_entries b))) (batch_fits b) (batch_bytes b)"
    unfolding batch_fits_def batch_bytes_def by (rule fallible_Cons [OF fallible_length fallible_map]) (rule sized_entry_fallible)
  show "batch_fits b \<and> bs = batch_bytes b" if "encode_batch room b = Inr bs"
    using encode_steps_Inr(1) [OF f] that unfolding encode_batch_def by blast
  show "encode_batch room b = Inr (batch_bytes b)" if "batch_fits b" "admits room (length (batch_bytes b))"
    using encode_steps_Inr(2) [OF f] that unfolding encode_batch_def by blast
  have many: "read_many (read_sized (decode_entry (\<lambda>_. True))) n bs = Inr (xs, R) \<longleftrightarrow> length xs = n \<and>
      (\<forall>x\<in>set xs. valid_entry x \<and> sized_entry_ok x) \<and> bs = concat (map sized_entry xs) @ R" for n bs xs R
    by (rule read_many_Inr) (rule read_sized_entry)
  show "decode_batch (\<lambda>_ _. True) (\<lambda>_. True) bs = Inr b \<longleftrightarrow> valid_batch b \<and> batch_fits b \<and> bs = batch_bytes b"
  proof
    assume "decode_batch (\<lambda>_ _. True) (\<lambda>_. True) bs = Inr b"
    then show "valid_batch b \<and> batch_fits b \<and> bs = batch_bytes b"
      using batch_new_entries [of _ _ b]
      by (auto simp: decode_batch_def result_simps readings many map_sum_eq_Inr decoder_finish_def valid_batch_def
          batch_fits_def batch_bytes_def)
  next
    assume a: "valid_batch b \<and> batch_fits b \<and> bs = batch_bytes b"
    have "read_many (read_sized (decode_entry (\<lambda>_. True))) (length (batch_entries b)) (concat (map sized_entry (batch_entries b))) =
        Inr (batch_entries b, [])"
      using a by (auto simp: many valid_batch_def batch_fits_def)
    then show "decode_batch (\<lambda>_ _. True) (\<lambda>_. True) bs = Inr b"
      using a sized_entries [of "batch_entries b"]
      by (simp add: decode_batch_def batch_bytes_def batch_fits_def valid_batch_def read_count_evaluation reserve_decoded_vec_def
          decoder_finish_def)
  qed
qed

fun valid_record :: "LedgerRecord \<Rightarrow> bool" where
  "valid_record (RecordEntry x) = valid_entry x"
| "valid_record (RecordCorrection c) = valid_correction c"
| "valid_record (RecordBatch b) = valid_batch b"

fun record_fits :: "LedgerRecord \<Rightarrow> bool" where
  "record_fits (RecordEntry x) = fits_u32 (length (postings x))"
| "record_fits (RecordCorrection c) = correction_fits c"
| "record_fits (RecordBatch b) = batch_fits b"

fun record_bytes :: "LedgerRecord \<Rightarrow> byte list" where
  "record_bytes (RecordEntry x) = 0 # entry_bytes x"
| "record_bytes (RecordCorrection c) = 1 # correction_bytes c"
| "record_bytes (RecordBatch b) = 2 # batch_bytes b"

lemma tagged_fallible:
  assumes "tag < 256"
  shows "fallible room (try_emit [always (write_u8 tag), always (write_bytes B)]) True (word_of_nat tag # B)"
proof -
  have tag: "le_bytes (Suc 0) tag = [word_of_nat tag]"
    using assms by (simp add: le_bytes.simps)
  show ?thesis
    by (rule fallible_eq, (rule fallible_rules writers)+) (simp_all add: layouts tag)
qed

lemma tagged_back:
  assumes "and_then enc (\<lambda>bytes. encode_steps room [always (write_u8 tag), always (write_bytes bytes)]) = Inr bs" "tag < 256"
    and "\<And>b. enc = Inr b \<Longrightarrow> P \<and> b = B"
  shows "P \<and> bs = word_of_nat tag # B"
proof -
  obtain b where b: "enc = Inr b" "encode_steps room [always (write_u8 tag), always (write_bytes b)] = Inr bs"
    using assms(1) by (auto simp: result_simps)
  show ?thesis
    using assms(3) [OF b(1)] encode_steps_Inr(1) [OF tagged_fallible [OF assms(2)] b(2)] by simp
qed

lemma tagged_forward:
  assumes "enc = Inr B" "tag < 256" "admits room (Suc (length B))"
  shows "and_then enc (\<lambda>bytes. encode_steps room [always (write_u8 tag), always (write_bytes bytes)]) = Inr (word_of_nat tag # B)"
  using assms encode_steps_Inr(2) [OF tagged_fallible [OF assms(2)] TrueI, of room B] by simp

interpretation record_codec: binary_codec valid_record record_fits record_bytes encode_record "decode_record (\<lambda>_ _. True) (\<lambda>_. True)"
proof
  fix room bs and r :: LedgerRecord
  show "record_fits r \<and> bs = record_bytes r" if e: "encode_record room r = Inr bs"
  proof (cases r)
    case (RecordEntry x)
    show ?thesis
      using tagged_back [OF e [unfolded RecordEntry encode_record.simps] _ entry_codec.encodes_back] RecordEntry by simp
  next
    case (RecordCorrection c)
    show ?thesis
      using tagged_back [OF e [unfolded RecordCorrection encode_record.simps] _ correction_codec.encodes_back] RecordCorrection by simp
  next
    case (RecordBatch b)
    show ?thesis
      using tagged_back [OF e [unfolded RecordBatch encode_record.simps] _ batch_codec.encodes_back] RecordBatch by simp
  qed
  show "encode_record room r = Inr (record_bytes r)" if fits: "record_fits r" and room: "admits room (length (record_bytes r))"
  proof (cases r)
    case (RecordEntry x)
    then have a: "admits room (Suc (length (entry_bytes x)))"
      using room by simp
    show ?thesis
      using tagged_forward [OF entry_codec.encodes_forward [OF _ admits_mono [OF a]] _ a, of 0] fits RecordEntry by simp
  next
    case (RecordCorrection c)
    then have a: "admits room (Suc (length (correction_bytes c)))"
      using room by simp
    show ?thesis
      using tagged_forward [OF correction_codec.encodes_forward [OF _ admits_mono [OF a]] _ a, of 1] fits RecordCorrection by simp
  next
    case (RecordBatch b)
    then have a: "admits room (Suc (length (batch_bytes b)))"
      using room by simp
    show ?thesis
      using tagged_forward [OF batch_codec.encodes_forward [OF _ admits_mono [OF a]] _ a, of 2] fits RecordBatch by simp
  qed
  show "decode_record (\<lambda>_ _. True) (\<lambda>_. True) bs = Inr r \<longleftrightarrow> valid_record r \<and> record_fits r \<and> bs = record_bytes r"
    by (cases r) (auto simp: decode_record_def map_sum_eq_Inr entry_codec.decodes_Inr correction_codec.decodes_Inr
        batch_codec.decodes_Inr split: list.splits if_splits)
qed

section \<open>What checkpoints encode to\<close>

definition valid_balance :: "LedgerBalance \<Rightarrow> bool" where
  "valid_balance b \<longleftrightarrow> valid_id (balance_account b) \<and> valid_id (balance_asset b) \<and> fits_i128 (balance_amount b)"

interpretation balance_wire: wire valid_balance encode_balance decode_balance
proof (unfold_locales, goal_cases)
  case (1 x)
  show ?case
    by (simp add: encode_balance_def writers)
next
  case (2 x R)
  then show ?case
    by (simp add: encode_balance_def decode_balance_def valid_balance_def layouts writers evaluations)
next
  case (3 bs x R)
  then show ?case
    by (auto simp: encode_balance_def decode_balance_def valid_balance_def valid_id_def layouts writers readings)
qed

definition sized_record_ok :: "LedgerRecord \<Rightarrow> bool" where
  "sized_record_ok r \<longleftrightarrow> record_fits r \<and> fits_u32 (length (record_bytes r))"

definition sized_record :: "LedgerRecord \<Rightarrow> byte list" where
  "sized_record r = le_bytes 4 (length (record_bytes r)) @ record_bytes r"

definition valid_checkpoint :: "LedgerCheckpoint \<Rightarrow> bool" where
  "valid_checkpoint c \<longleftrightarrow> fits_u64 (checkpoint_generation c) \<and> (\<forall>b\<in>set (checkpoint_balances c). valid_balance b) \<and>
     (\<forall>r\<in>set (checkpoint_records c). valid_record r) \<and>
     checkpoint_from_parts (\<lambda>_ _. True) (\<lambda>_ _. True) (checkpoint_generation c) (checkpoint_balances c) (checkpoint_records c) = Inr c"

definition checkpoint_fits :: "LedgerCheckpoint \<Rightarrow> bool" where
  "checkpoint_fits c \<longleftrightarrow> fits_u32 (length (checkpoint_balances c)) \<and> fits_u32 (length (checkpoint_records c)) \<and>
     (\<forall>r\<in>set (checkpoint_records c). sized_record_ok r)"

definition checkpoint_bytes :: "LedgerCheckpoint \<Rightarrow> byte list" where
  "checkpoint_bytes c = le_bytes 8 (checkpoint_generation c) @ le_bytes 4 (length (checkpoint_balances c)) @
     concat (map (\<lambda>b. written (encode_balance b)) (checkpoint_balances c)) @ le_bytes 4 (length (checkpoint_records c)) @
     concat (map sized_record (checkpoint_records c))"

lemma balances_size: "length (concat (map (\<lambda>b. written (encode_balance b)) bs)) = length bs * 32"
  by (induction bs) (simp_all add: encode_balance_def layouts writers)

lemma record_size: "valid_record r \<Longrightarrow> 48 \<le> length (record_bytes r)"
proof (cases r)
  case (RecordEntry x)
  then show ?thesis
    using entry_size [of x] by simp
next
  case (RecordCorrection c)
  then show ?thesis
    using entry_size [of "correction_reversal c"] by (simp add: correction_bytes_def sized_entry_def)
next
  case (RecordBatch b)
  assume "valid_record r"
  then have "2 \<le> length (batch_entries b)"
    using RecordBatch by (auto simp: valid_batch_def batch_new_def result_simps)
  then show ?thesis
    using RecordBatch sized_entries [of "batch_entries b"] by (simp add: batch_bytes_def)
qed

lemma sized_records: "\<forall>r\<in>set rs. valid_record r \<Longrightarrow> length rs * 52 \<le> length (concat (map sized_record rs))"
proof (induction rs)
  case (Cons r rs)
  then show ?case
    using record_size [of r] by (simp add: sized_record_def)
qed simp

lemma checkpoint_parts:
  "checkpoint_from_parts reserve_layout reserve generation balances records = Inr c \<Longrightarrow>
   checkpoint_generation c = generation \<and> checkpoint_balances c = balances \<and> checkpoint_records c = records"
  by (auto simp: checkpoint_from_parts_def result_simps)

interpretation checkpoint_codec: binary_codec valid_checkpoint checkpoint_fits checkpoint_bytes encode_checkpoint
  "decode_checkpoint (\<lambda>_ _. True) (\<lambda>_ _. True) (\<lambda>_. True)"
proof
  fix room bs and c :: LedgerCheckpoint
  have records: "fallible room (try_emit (map (\<lambda>r. write_sized ''ledger checkpoint record payload'' (encode_record room r)) (checkpoint_records c)))
      (\<forall>r\<in>set (checkpoint_records c). sized_record_ok r) (concat (map sized_record (checkpoint_records c)))"
    unfolding sized_record_ok_def sized_record_def by (rule fallible_map) (rule record_codec.sized)
  have f: "fallible room (try_emit ([always (write_u64 (checkpoint_generation c)),
       write_length ''ledger checkpoint balances'' (length (checkpoint_balances c)),
       always (write_each encode_balance (checkpoint_balances c)),
       write_length ''ledger checkpoint records'' (length (checkpoint_records c))] @
      map (\<lambda>r. write_sized ''ledger checkpoint record payload'' (encode_record room r)) (checkpoint_records c)))
      (checkpoint_fits c) (checkpoint_bytes c)"
    unfolding append_Cons append_Nil
    by (rule fallible_eq, (rule records fallible_rules writers conjunct1 [OF balance_wire.write_each])+)
      (simp_all add: layouts balance_wire.write_each checkpoint_fits_def checkpoint_bytes_def)
  show "checkpoint_fits c \<and> bs = checkpoint_bytes c" if "encode_checkpoint room c = Inr bs"
    using encode_steps_Inr(1) [OF f] that unfolding encode_checkpoint_def by blast
  show "encode_checkpoint room c = Inr (checkpoint_bytes c)" if "checkpoint_fits c" "admits room (length (checkpoint_bytes c))"
    using encode_steps_Inr(2) [OF f] that unfolding encode_checkpoint_def by blast
  have sized: "read_sized (decode_record (\<lambda>_ _. True) (\<lambda>_. True)) bs = Inr (r, R) \<longleftrightarrow>
      (valid_record r \<and> sized_record_ok r) \<and> bs = sized_record r @ R" for bs r R
    using read_sized_Inr [of "decode_record (\<lambda>_ _. True) (\<lambda>_. True)" "\<lambda>r. valid_record r \<and> record_fits r" record_bytes bs r R]
      record_codec.decodes_Inr by (auto simp: sized_record_ok_def sized_record_def)
  have many: "read_many (read_sized (decode_record (\<lambda>_ _. True) (\<lambda>_. True))) n bs = Inr (rs, R) \<longleftrightarrow> length rs = n \<and>
      (\<forall>r\<in>set rs. valid_record r \<and> sized_record_ok r) \<and> bs = concat (map sized_record rs) @ R" for n bs rs R
    by (rule read_many_Inr) (rule sized)
  show "decode_checkpoint (\<lambda>_ _. True) (\<lambda>_ _. True) (\<lambda>_. True) bs = Inr c \<longleftrightarrow>
      valid_checkpoint c \<and> checkpoint_fits c \<and> bs = checkpoint_bytes c"
  proof
    assume "decode_checkpoint (\<lambda>_ _. True) (\<lambda>_ _. True) (\<lambda>_. True) bs = Inr c"
    then show "valid_checkpoint c \<and> checkpoint_fits c \<and> bs = checkpoint_bytes c"
      using checkpoint_parts [of _ _ _ _ _ c]
      by (auto simp: decode_checkpoint_def result_simps readings many balance_wire.reads_many map_sum_eq_Inr decoder_finish_def
          valid_checkpoint_def checkpoint_fits_def checkpoint_bytes_def)
  next
    assume a: "valid_checkpoint c \<and> checkpoint_fits c \<and> bs = checkpoint_bytes c"
    have bal: "read_many decode_balance (length (checkpoint_balances c))
        (concat (map (\<lambda>b. written (encode_balance b)) (checkpoint_balances c)) @ R) = Inr (checkpoint_balances c, R)" for R
      using a by (auto simp: balance_wire.reads_many valid_checkpoint_def)
    have rec: "read_many (read_sized (decode_record (\<lambda>_ _. True) (\<lambda>_. True))) (length (checkpoint_records c))
        (concat (map sized_record (checkpoint_records c))) = Inr (checkpoint_records c, [])"
      using a by (auto simp: many valid_checkpoint_def checkpoint_fits_def)
    show "decode_checkpoint (\<lambda>_ _. True) (\<lambda>_ _. True) (\<lambda>_. True) bs = Inr c"
      using a bal rec sized_records [of "checkpoint_records c"]
      by (simp add: decode_checkpoint_def checkpoint_bytes_def checkpoint_fits_def valid_checkpoint_def evaluations balances_size
          reserve_decoded_vec_def decoder_finish_def)
  qed
qed

section \<open>Checkpoints of reachable ledgers\<close>

text \<open>What the Rust types of a checkpoint's parts hold, without the accounting rules.\<close>

definition typed_entry :: "JournalEntry \<Rightarrow> bool" where
  "typed_entry x \<longleftrightarrow> valid_id (transaction_id x) \<and> fits_u64 (entry_reference x) \<and>
     (\<forall>days. effective_date x = Some days \<longrightarrow> fits_i32 days) \<and> fits_u64 (recorded_at x) \<and>
     (\<forall>p\<in>set (postings x). valid_posting p) \<and> valid_kind (entry_kind x)"

definition typed_checkpoint :: "LedgerCheckpoint \<Rightarrow> bool" where
  "typed_checkpoint c \<longleftrightarrow> fits_u64 (checkpoint_generation c) \<and> (\<forall>b\<in>set (checkpoint_balances c). valid_balance b) \<and>
     (\<forall>r\<in>set (checkpoint_records c). \<forall>x\<in>set (record_members r). typed_entry x)"

lemma valid_entry_typed: "valid_entry x \<longleftrightarrow> typed_entry x \<and> entry_wf x"
  by (auto simp: valid_entry_def typed_entry_def)

lemma correction_wf_from_parts:
  "correction_wf c \<Longrightarrow> correction_from_parts (correction_reversal c) (correction_replacement c) = Inr c"
  by (auto simp: correction_wf_def correction_from_parts_def)

lemma batch_wf_new:
  assumes "batch_wf b"
  shows "batch_new (\<lambda>_ _. True) (batch_entries b) = Inr b"
proof -
  have "check_batch_ids {} (batch_entries b) = Inr ()" "windows_find (\<lambda>x y. recorded_at y < recorded_at x) (batch_entries b) = None"
    using assms windows_any_regression [of "batch_entries b"] by (simp_all add: batch_wf_def check_batch_ids_iff windows_find_None)
  then show ?thesis
    using assms by (simp add: batch_wf_def batch_new_def)
qed

lemma record_wf_valid:
  assumes "record_wf r" "\<forall>x\<in>set (record_members r). typed_entry x"
  shows "valid_record r"
proof (cases r)
  case (RecordEntry x)
  then show ?thesis
    using assms by (simp add: valid_entry_typed)
next
  case (RecordCorrection c)
  then show ?thesis
    using assms correction_wf_from_parts [of c] by (simp add: valid_correction_def valid_entry_typed correction_wf_def)
next
  case (RecordBatch b)
  then show ?thesis
    using assms batch_wf_new [of b] by (simp add: valid_batch_def valid_entry_typed batch_wf_def)
qed

section \<open>Properties\<close>

text \<open>
  C7. Ledger records and checkpoints have exactly one encoding: a byte string decodes to a record or checkpoint if
  and only if the value obeys the accounting rules of its constructors and the byte string is what it encodes to.
  In particular the decoder demands the canonical order of postings and zero fields for absent values, and its
  minimum sizes for nested entries and records never turn a valid value away.
\<close>

theorem ledger_codec_exact:
  assumes "fits_usize (length bs)"
  shows "(decode_record (\<lambda>_ _. True) (\<lambda>_. True) bs = Inr r \<longleftrightarrow> valid_record r \<and> encode_record (\<lambda>_. True) r = Inr bs) \<and>
    (decode_checkpoint (\<lambda>_ _. True) (\<lambda>_ _. True) (\<lambda>_. True) bs = Inr c \<longleftrightarrow> valid_checkpoint c \<and> encode_checkpoint (\<lambda>_. True) c = Inr bs)"
  using record_codec.decodes_iff [OF assms] checkpoint_codec.decodes_iff [OF assms] by simp

definition sample_close_bytes :: "byte list" where
  "sample_close_bytes = [0, 1, 0, 0, 0, 0, 0, 0, 0, 0, 0, 0, 0, 0, 0, 0, 0, 0, 0, 0, 0, 0, 1, 0, 0, 0, 0, 0, 0, 0, 0, 0, 0, 0,
     2, 0, 0, 0, 0, 0, 0, 0, 0, 1, 10, 0, 0, 0]"

lemma close_bytes: "record_bytes (RecordEntry sample_close) = sample_close_bytes"
  by (simp add: sample_close_def sample_close_bytes_def entry_bytes_def optional_date_bytes_def days_or_zero_def twos_def
      le_bytes_numeral le_bytes.simps)

lemma ledger_codec_exact_witness:
  "decode_record (\<lambda>_ _. True) (\<lambda>_. True) sample_close_bytes = Inr (RecordEntry sample_close)"
proof -
  have fits: "fits_usize (length sample_close_bytes)"
    by (simp add: sample_close_bytes_def width_defs)
  have "encode_record (\<lambda>_. True) (RecordEntry sample_close) = Inr sample_close_bytes"
    unfolding close_bytes [symmetric]
    by (rule record_codec.encodes_forward)
      (use fits close_bytes in \<open>simp_all add: sample_close_def width_defs admits_def\<close>)
  moreover have "valid_record (RecordEntry sample_close)"
    by (simp add: sample_close_def valid_entry_def valid_id_def entry_wf_def width_defs)
  ultimately show ?thesis
    using ledger_codec_exact [OF fits, of "RecordEntry sample_close"] by simp
qed

text \<open>
  C6. A checkpoint survives its bytes: capturing any reachable ledger, encoding the checkpoint, decoding the bytes and
  restoring from the decoded checkpoint gives back the very ledger captured.
\<close>

theorem checkpoint_bytes_restore:
  assumes "ledger_reachable limits ledger" "limits_wf limits" "iteration_of balances ledger" "entries_of entries ledger"
    and "fits_usize (4 * (max_retained_postings limits + max_transactions limits + 1))"
    and "checkpoint ample_memory balances entries ledger = Inr c" "typed_checkpoint c" "encode_checkpoint room c = Inr bytes"
  shows "\<exists>c'. decode_checkpoint (\<lambda>_ _. True) (\<lambda>_ _. True) (\<lambda>_. True) bytes = Inr c' \<and>
    from_checkpoint_with_limits (\<lambda>_ _. True) (\<lambda>_ _. True) c' limits = Inr ledger"
proof -
  have r: "\<forall>r \<in> set (checkpoint_records c). record_wf r"
      "checkpoint_from_parts (\<lambda>_ _. True) (\<lambda>_ _. True) (checkpoint_generation c) (checkpoint_balances c) (checkpoint_records c) = Inr c"
      "from_checkpoint_with_limits (\<lambda>_ _. True) (\<lambda>_ _. True) c limits = Inr ledger"
    using capture_restores [OF assms(1-4), of ample_memory] assms(5,6) by (auto simp: ample_memory_def)
  then have "valid_checkpoint c"
    using assms(7) record_wf_valid by (auto simp: valid_checkpoint_def typed_checkpoint_def)
  then show ?thesis
    using checkpoint_codec.roundtrip [OF _ assms(8)] r(3) by blast
qed

lemma checkpoint_bytes_restore_witness:
  "\<exists>bytes c'. encode_checkpoint (\<lambda>_. True) \<lparr>checkpoint_generation = 1, checkpoint_balances = [], checkpoint_records = [RecordEntry sample_close]\<rparr> =
      Inr bytes \<and>
    decode_checkpoint (\<lambda>_ _. True) (\<lambda>_ _. True) (\<lambda>_. True) bytes = Inr c' \<and>
    from_checkpoint_with_limits (\<lambda>_ _. True) (\<lambda>_ _. True) c' sample_limits = Inr (ledger_of sample_limits [RecordEntry sample_close])"
proof -
  let ?c = "\<lparr>checkpoint_generation = 1, checkpoint_balances = [], checkpoint_records = [RecordEntry sample_close]\<rparr>"
  let ?l = "ledger_of sample_limits [RecordEntry sample_close]"
  have "effect (flat [RecordEntry sample_close]) key = 0" for key
    by (simp add: flat_def sample_close_def posting_sum_def)
  then have it: "iteration_of [] ?l" by (simp add: iteration_of_def balances_of_def fun_eq_iff)
  have es: "entries_of [\<lparr>posted_entry = sample_close, posted_sequence = 1\<rparr>] ?l"
    by (auto simp: entries_of_def ledger_of_def fun_eq_iff find_entry_Cons)
  obtain layout start where start: "try_with_limits layout sample_limits = Inr start"
    using reachable_limits [OF sample_close_reachable] by blast
  have "sound_history sample_limits [RecordEntry sample_close]"
    using sample_close_history valid_history_Nil by (simp add: sound_history_def take_Cons')
  from capture_history [OF this sample_limits_wf start it es, of ample_memory]
  have capture: "checkpoint ample_memory [] [\<lparr>posted_entry = sample_close, posted_sequence = 1\<rparr>] ?l = Inr ?c"
    by (simp add: ample_memory_def canonical_balances_def)
  have size: "length (entry_bytes sample_close) = 47"
    using arg_cong [OF close_bytes, of length] by (simp add: sample_close_bytes_def)
  have bytes: "encode_checkpoint (\<lambda>_. True) ?c = Inr (checkpoint_bytes ?c)"
    by (rule checkpoint_codec.encodes_forward)
      (use size in \<open>simp_all add: checkpoint_fits_def checkpoint_bytes_def sized_record_ok_def sized_record_def admits_def width_defs\<close>,
       simp add: sample_close_def width_defs)
  have typed: "typed_checkpoint ?c"
    by (simp add: typed_checkpoint_def typed_entry_def sample_close_def width_defs valid_id_def)
  have room: "fits_usize (4 * (max_retained_postings sample_limits + max_transactions sample_limits + 1))"
    by (simp add: sample_limits_def fits_u64_def)
  show ?thesis
    using bytes checkpoint_bytes_restore [OF sample_close_reachable sample_limits_wf it es room capture typed bytes] by blast
qed

end
