(* ===== verification/CodecEnums.thy ===== *)
theory CodecEnums
  imports Codec
begin

fun side_tag :: "Side \<Rightarrow> nat" where
  "side_tag Buy = 0"
| "side_tag Sell = 1"

definition encode_side :: "Side \<Rightarrow> Encoder \<Rightarrow> Encoder" where
  "encode_side value = write_u8 (side_tag value)"

definition decode_side :: "Side reading" where
  "decode_side = read_tagged ''Side''
     [(0, Buy), (1, Sell)]"

fun admission_tag :: "AccountAdmissionState \<Rightarrow> nat" where
  "admission_tag Enabled = 0"
| "admission_tag Blocked = 1"

definition encode_account_admission_state :: "AccountAdmissionState \<Rightarrow> Encoder \<Rightarrow> Encoder" where
  "encode_account_admission_state value = write_u8 (admission_tag value)"

definition decode_account_admission_state :: "AccountAdmissionState reading" where
  "decode_account_admission_state = read_tagged ''AccountAdmissionState''
     [(0, Enabled), (1, Blocked)]"

fun control_action_tag :: "AccountControlAction \<Rightarrow> nat" where
  "control_action_tag BlockAndCancel = 0"
| "control_action_tag Enable = 1"

definition encode_account_control_action :: "AccountControlAction \<Rightarrow> Encoder \<Rightarrow> Encoder" where
  "encode_account_control_action value = write_u8 (control_action_tag value)"

definition decode_account_control_action :: "AccountControlAction reading" where
  "decode_account_control_action = read_tagged ''AccountControlAction''
     [(0, BlockAndCancel), (1, Enable)]"

fun state_action_tag :: "TradingStateControlAction \<Rightarrow> nat" where
  "state_action_tag Transition = 0"
| "state_action_tag TransitionAndCancel = 1"

definition encode_trading_state_control_action :: "TradingStateControlAction \<Rightarrow> Encoder \<Rightarrow> Encoder" where
  "encode_trading_state_control_action value = write_u8 (state_action_tag value)"

definition decode_trading_state_control_action :: "TradingStateControlAction reading" where
  "decode_trading_state_control_action = read_tagged ''TradingStateControlAction''
     [(0, Transition), (1, TransitionAndCancel)]"

fun stp_tag :: "SelfTradePrevention \<Rightarrow> nat" where
  "stp_tag CancelAggressor = 0"
| "stp_tag CancelResting = 1"
| "stp_tag CancelBoth = 2"
| "stp_tag DecrementAndCancel = 3"

definition encode_stp :: "SelfTradePrevention \<Rightarrow> Encoder \<Rightarrow> Encoder" where
  "encode_stp value = write_u8 (stp_tag value)"

definition decode_stp :: "SelfTradePrevention reading" where
  "decode_stp = read_tagged ''SelfTradePrevention''
     [(0, CancelAggressor), (1, CancelResting), (2, CancelBoth), (3, DecrementAndCancel)]"

fun trading_state_tag :: "TradingState \<Rightarrow> nat" where
  "trading_state_tag Open = 0"
| "trading_state_tag CancelOnly = 1"
| "trading_state_tag Halted = 2"
| "trading_state_tag Closed = 3"

definition encode_trading_state :: "TradingState \<Rightarrow> Encoder \<Rightarrow> Encoder" where
  "encode_trading_state value = write_u8 (trading_state_tag value)"

definition decode_trading_state :: "TradingState reading" where
  "decode_trading_state = read_tagged ''TradingState''
     [(0, Open), (1, CancelOnly), (2, Halted), (3, Closed)]"

fun cancel_reason_tag :: "CancelReason \<Rightarrow> nat" where
  "cancel_reason_tag UserRequested = 0"
| "cancel_reason_tag UnfilledRemainder = 1"
| "cancel_reason_tag SelfTradeAggressor = 2"
| "cancel_reason_tag SelfTradeResting = 3"
| "cancel_reason_tag MassCancelled = 4"
| "cancel_reason_tag AccountControlled = 5"
| "cancel_reason_tag TradingStateControlled = 6"
| "cancel_reason_tag Expired = 7"
| "cancel_reason_tag TriggeredFokUnfilled = 8"
| "cancel_reason_tag TriggeredPostOnlyWouldCross = 9"
| "cancel_reason_tag TriggeredCapacityUnavailable = 10"
| "cancel_reason_tag MinimumQuantityUnavailable = 11"

definition encode_cancel_reason :: "CancelReason \<Rightarrow> Encoder \<Rightarrow> Encoder" where
  "encode_cancel_reason value = write_u8 (cancel_reason_tag value)"

definition decode_cancel_reason :: "CancelReason reading" where
  "decode_cancel_reason = read_tagged ''CancelReason''
     [(0, UserRequested), (1, UnfilledRemainder), (2, SelfTradeAggressor), (3, SelfTradeResting),
      (4, MassCancelled), (5, AccountControlled), (6, TradingStateControlled), (7, Expired),
      (8, TriggeredFokUnfilled), (9, TriggeredPostOnlyWouldCross), (10, TriggeredCapacityUnavailable),
      (11, MinimumQuantityUnavailable)]"

fun reject_reason_tag :: "RejectReason \<Rightarrow> nat" where
  "reject_reason_tag WrongInstrument = 0"
| "reject_reason_tag DuplicateOrder = 1"
| "reject_reason_tag UnknownOrder = 2"
| "reject_reason_tag NotOrderOwner = 3"
| "reject_reason_tag MarketOrderCannotRest = 4"
| "reject_reason_tag MarketOrderCannotPost = 5"
| "reject_reason_tag UnsupportedFokSelfTradePolicy = 6"
| "reject_reason_tag InsufficientLiquidity = 7"
| "reject_reason_tag PostOnlyWouldCross = 8"
| "reject_reason_tag WrongInstrumentVersion = 9"
| "reject_reason_tag InstrumentNotOpen = 10"
| "reject_reason_tag PriceOffTickGrid = 11"
| "reject_reason_tag PriceOutsideCollar = 12"
| "reject_reason_tag QuantityOffGrid = 13"
| "reject_reason_tag QuantityOutsideLimits = 14"
| "reject_reason_tag RiskProfileMissing = 15"
| "reject_reason_tag RiskAccountBlocked = 16"
| "reject_reason_tag RiskReduceOnly = 17"
| "reject_reason_tag RiskOrderQuantityLimit = 18"
| "reject_reason_tag RiskOrderNotionalLimit = 19"
| "reject_reason_tag RiskOpenOrderCountLimit = 20"
| "reject_reason_tag RiskOpenQuantityLimit = 21"
| "reject_reason_tag RiskOpenNotionalLimit = 22"
| "reject_reason_tag RiskPositionLimit = 23"
| "reject_reason_tag RiskArithmeticOverflow = 24"
| "reject_reason_tag ReserveOrderNotSupported = 25"
| "reject_reason_tag DisplayQuantityOffGrid = 26"
| "reject_reason_tag DisplayQuantityNotLessThanOrder = 27"
| "reject_reason_tag ReserveReplenishmentLimit = 28"
| "reject_reason_tag ReserveOrderCannotBeImmediate = 29"
| "reject_reason_tag OrderDisplayModeChangeNotAllowed = 30"
| "reject_reason_tag AccountAdmissionBlocked = 31"
| "reject_reason_tag AccountControlRevisionMismatch = 32"
| "reject_reason_tag AccountControlRevisionExhausted = 33"
| "reject_reason_tag TradingStateControlRevisionMismatch = 34"
| "reject_reason_tag TradingStateControlRevisionExhausted = 35"
| "reject_reason_tag TradingStateUnchanged = 36"
| "reject_reason_tag TradingStateControlCannotCancelIntoOpen = 37"
| "reject_reason_tag OrderAlreadyExpired = 38"
| "reject_reason_tag ExpiryWatermarkRegression = 39"
| "reject_reason_tag ExpiryHorizonAfterCommandTime = 40"
| "reject_reason_tag StopReferenceUnavailable = 41"
| "reject_reason_tag StopAlreadyTriggered = 42"
| "reject_reason_tag StopTriggerBatchEmpty = 43"
| "reject_reason_tag StopTriggerBatchExceedsActiveOrderCapacity = 44"
| "reject_reason_tag StopTriggerBacklog = 45"
| "reject_reason_tag StopMarketCannotPost = 46"
| "reject_reason_tag StopMarketCannotBeReplaced = 47"
| "reject_reason_tag HiddenOrderNotSupported = 48"
| "reject_reason_tag HiddenOrderCannotBeImmediate = 49"
| "reject_reason_tag InvalidMinimumQuantity = 50"
| "reject_reason_tag UnsupportedMinimumQuantitySelfTradePolicy = 51"
| "reject_reason_tag StopReferenceCursorCollision = 52"
| "reject_reason_tag StopReferenceSourceMismatch = 53"
| "reject_reason_tag StopReferenceVersionDiscontinuity = 54"
| "reject_reason_tag StopReferenceSequenceDiscontinuity = 55"
| "reject_reason_tag MarketToLimitBookEmpty = 56"
| "reject_reason_tag MarketToLimitRequiresRestingLifetime = 57"

definition encode_reject_reason :: "RejectReason \<Rightarrow> Encoder \<Rightarrow> Encoder" where
  "encode_reject_reason value = write_u8 (reject_reason_tag value)"

definition decode_reject_reason :: "RejectReason reading" where
  "decode_reject_reason = read_tagged ''RejectReason''
     [(0, WrongInstrument), (1, DuplicateOrder), (2, UnknownOrder), (3, NotOrderOwner),
      (4, MarketOrderCannotRest), (5, MarketOrderCannotPost), (6, UnsupportedFokSelfTradePolicy),
      (7, InsufficientLiquidity), (8, PostOnlyWouldCross), (9, WrongInstrumentVersion), (10, InstrumentNotOpen),
      (11, PriceOffTickGrid), (12, PriceOutsideCollar), (13, QuantityOffGrid), (14, QuantityOutsideLimits),
      (15, RiskProfileMissing), (16, RiskAccountBlocked), (17, RiskReduceOnly), (18, RiskOrderQuantityLimit),
      (19, RiskOrderNotionalLimit), (20, RiskOpenOrderCountLimit), (21, RiskOpenQuantityLimit),
      (22, RiskOpenNotionalLimit), (23, RiskPositionLimit), (24, RiskArithmeticOverflow),
      (25, ReserveOrderNotSupported), (26, DisplayQuantityOffGrid), (27, DisplayQuantityNotLessThanOrder),
      (28, ReserveReplenishmentLimit), (29, ReserveOrderCannotBeImmediate),
      (30, OrderDisplayModeChangeNotAllowed), (31, AccountAdmissionBlocked),
      (32, AccountControlRevisionMismatch), (33, AccountControlRevisionExhausted),
      (34, TradingStateControlRevisionMismatch), (35, TradingStateControlRevisionExhausted),
      (36, TradingStateUnchanged), (37, TradingStateControlCannotCancelIntoOpen), (38, OrderAlreadyExpired),
      (39, ExpiryWatermarkRegression), (40, ExpiryHorizonAfterCommandTime), (41, StopReferenceUnavailable),
      (42, StopAlreadyTriggered), (43, StopTriggerBatchEmpty), (44, StopTriggerBatchExceedsActiveOrderCapacity),
      (45, StopTriggerBacklog), (46, StopMarketCannotPost), (47, StopMarketCannotBeReplaced),
      (48, HiddenOrderNotSupported), (49, HiddenOrderCannotBeImmediate), (50, InvalidMinimumQuantity),
      (51, UnsupportedMinimumQuantitySelfTradePolicy), (52, StopReferenceCursorCollision),
      (53, StopReferenceSourceMismatch), (54, StopReferenceVersionDiscontinuity),
      (55, StopReferenceSequenceDiscontinuity), (56, MarketToLimitBookEmpty),
      (57, MarketToLimitRequiresRestingLifetime)]"

interpretation side_wire: wire "\<lambda>_. True" encode_side decode_side
  unfolding encode_side_def decode_side_def
proof (rule wire_enum, goal_cases)
  case (1 x)
  show ?case
    by (cases x) simp_all
qed simp

interpretation account_admission_state_wire: wire "\<lambda>_. True" encode_account_admission_state decode_account_admission_state
  unfolding encode_account_admission_state_def decode_account_admission_state_def
proof (rule wire_enum, goal_cases)
  case (1 x)
  show ?case
    by (cases x) simp_all
qed simp

interpretation account_control_action_wire: wire "\<lambda>_. True" encode_account_control_action decode_account_control_action
  unfolding encode_account_control_action_def decode_account_control_action_def
proof (rule wire_enum, goal_cases)
  case (1 x)
  show ?case
    by (cases x) simp_all
qed simp

interpretation trading_state_control_action_wire: wire "\<lambda>_. True" encode_trading_state_control_action decode_trading_state_control_action
  unfolding encode_trading_state_control_action_def decode_trading_state_control_action_def
proof (rule wire_enum, goal_cases)
  case (1 x)
  show ?case
    by (cases x) simp_all
qed simp

interpretation stp_wire: wire "\<lambda>_. True" encode_stp decode_stp
  unfolding encode_stp_def decode_stp_def
proof (rule wire_enum, goal_cases)
  case (1 x)
  show ?case
    by (cases x) simp_all
qed simp

interpretation trading_state_wire: wire "\<lambda>_. True" encode_trading_state decode_trading_state
  unfolding encode_trading_state_def decode_trading_state_def
proof (rule wire_enum, goal_cases)
  case (1 x)
  show ?case
    by (cases x) simp_all
qed simp

interpretation cancel_reason_wire: wire "\<lambda>_. True" encode_cancel_reason decode_cancel_reason
  unfolding encode_cancel_reason_def decode_cancel_reason_def
proof (rule wire_enum, goal_cases)
  case (1 x)
  show ?case
    by (cases x) simp_all
qed simp

interpretation reject_reason_wire: wire "\<lambda>_. True" encode_reject_reason decode_reject_reason
  unfolding encode_reject_reason_def decode_reject_reason_def
proof (rule wire_enum, goal_cases)
  case (1 x)
  show ?case
    by (cases x) simp_all
qed simp

lemmas enum_writers [writers] =
  side_wire.writes account_admission_state_wire.writes account_control_action_wire.writes trading_state_control_action_wire.writes stp_wire.writes trading_state_wire.writes cancel_reason_wire.writes reject_reason_wire.writes
lemmas enum_readings [readings] =
  side_wire.reads_Inr account_admission_state_wire.reads_Inr account_control_action_wire.reads_Inr trading_state_control_action_wire.reads_Inr stp_wire.reads_Inr trading_state_wire.reads_Inr cancel_reason_wire.reads_Inr reject_reason_wire.reads_Inr
lemmas enum_evaluations [evaluations] =
  side_wire.reads [OF TrueI] account_admission_state_wire.reads [OF TrueI] account_control_action_wire.reads [OF TrueI] trading_state_control_action_wire.reads [OF TrueI] stp_wire.reads [OF TrueI] trading_state_wire.reads [OF TrueI] cancel_reason_wire.reads [OF TrueI] reject_reason_wire.reads [OF TrueI]
end
