(* ===== verification/CodecReference.thy ===== *)
theory CodecReference
  imports CodecEnums Calendar
begin

text \<open>
  The encoding of the reference data of \<open>src/src/codec.rs\<close>: trading calendars and instrument definitions.  The
  decoders rebuild every part with its validating constructor.
\<close>

section \<open>Calendars\<close>

definition encode_session :: "TradingSession \<Rightarrow> Encoder \<Rightarrow> Encoder" where
  "encode_session s = emit [write_u64 (session_id s), write_i32 (trading_date s), write_u64 (order_entry_opens_at s),
     write_u64 (order_entry_closes_at s), write_u64 (session_orders_expire_at s), write_u64 (day_orders_expire_at s)]"

definition decode_session :: "TradingSession reading" where
  "decode_session =
     then_read (read_identifier ''trading-session identifier'') (\<lambda>i. then_read read_i32 (\<lambda>date.
     then_read read_u64 (\<lambda>opens. then_read read_u64 (\<lambda>closes.
     then_read read_u64 (\<lambda>session_expiry. then_read read_u64 (\<lambda>day_expiry.
       decoded_from (map_sum InvalidTradingCalendar id (session_new i date opens closes session_expiry day_expiry))))))))"

definition valid_session :: "TradingSession \<Rightarrow> bool" where
  "valid_session s \<longleftrightarrow> valid_id (session_id s) \<and> fits_i32 (trading_date s) \<and> fits_u64 (order_entry_opens_at s) \<and>
     fits_u64 (order_entry_closes_at s) \<and> fits_u64 (session_orders_expire_at s) \<and> fits_u64 (day_orders_expire_at s) \<and> session_ok s"

definition encode_calendar :: "(nat \<Rightarrow> bool) \<Rightarrow> TradingCalendar \<Rightarrow> CodecError + byte list" where
  "encode_calendar room c = encode_steps room
     [always (write_u64 (calendar_id c)), always (write_u64 (calendar_version c)), always (write_u64 (calendar_effective_from c)),
      write_length ''trading calendar sessions'' (length (sessions c)), always (write_each encode_session (sessions c))]"

text \<open>\<open>reserve\<close> answers the reservation of the index in \<open>TradingCalendar::try_new\<close>.\<close>

definition decode_calendar :: "(nat \<Rightarrow> bool) \<Rightarrow> (nat \<Rightarrow> bool) \<Rightarrow> byte list \<Rightarrow> CodecError + TradingCalendar" where
  "decode_calendar reserve room bs =
     and_then (read_identifier ''calendar identifier'' bs) (\<lambda>(i, bs).
     and_then (read_identifier ''calendar version'' bs) (\<lambda>(version, bs).
     and_then (read_u64 bs) (\<lambda>(from, bs).
     and_then (read_count ''trading calendar sessions'' 44 bs) (\<lambda>(n, bs).
     and_then (reserve_decoded_vec room ''trading calendar sessions'' n) (\<lambda>_.
     and_then (read_many decode_session n bs) (\<lambda>(schedule, bs).
     and_then (decoder_finish bs) (\<lambda>_.
       map_sum InvalidTradingCalendar id (calendar_new reserve i version from schedule))))))))"

lemma session_new_Inr:
  "session_new i date opens closes session_expiry day_expiry = Inr s \<longleftrightarrow> session_ok s \<and>
     s = \<lparr>session_id = i, trading_date = date, order_entry_opens_at = opens, order_entry_closes_at = closes,
       session_orders_expire_at = session_expiry, day_orders_expire_at = day_expiry\<rparr>"
  by (auto simp: session_new_def session_ok_def result_simps)

interpretation session_wire: wire valid_session encode_session decode_session
proof (unfold_locales, goal_cases)
  case (1 x)
  show ?case
    by (simp add: encode_session_def writers)
next
  case (2 x R)
  have "session_new (session_id x) (trading_date x) (order_entry_opens_at x) (order_entry_closes_at x) (session_orders_expire_at x)
      (day_orders_expire_at x) = Inr x"
    using 2 by (simp add: session_new_Inr valid_session_def)
  then show ?case
    using 2 by (simp add: encode_session_def decode_session_def valid_session_def layouts writers evaluations)
next
  case (3 bs x R)
  then show ?case
    by (auto simp: encode_session_def decode_session_def valid_session_def valid_id_def layouts writers readings map_sum_eq_Inr session_new_Inr)
qed

definition valid_calendar :: "TradingCalendar \<Rightarrow> bool" where
  "valid_calendar c \<longleftrightarrow> valid_id (calendar_id c) \<and> valid_id (calendar_version c) \<and> fits_u64 (calendar_effective_from c) \<and>
     (\<forall>s\<in>set (sessions c). valid_session s) \<and>
     calendar_new (\<lambda>_. True) (calendar_id c) (calendar_version c) (calendar_effective_from c) (sessions c) = Inr c"

definition calendar_bytes :: "TradingCalendar \<Rightarrow> byte list" where
  "calendar_bytes c = le_bytes 8 (calendar_id c) @ le_bytes 8 (calendar_version c) @ le_bytes 8 (calendar_effective_from c) @
     le_bytes 4 (length (sessions c)) @ concat (map (\<lambda>s. written (encode_session s)) (sessions c))"

lemma sessions_size: "length (concat (map (\<lambda>s. written (encode_session s)) ss)) = length ss * 44"
  by (induction ss) (simp_all add: encode_session_def layouts writers)

lemma calendar_fields: "calendar_new reserve i version from schedule = Inr c \<Longrightarrow>
  calendar_id c = i \<and> calendar_version c = version \<and> calendar_effective_from c = from \<and> sessions c = schedule"
  by (auto simp: calendar_new_def Let_def result_simps split: list.splits option.splits)

interpretation calendar_codec: binary_codec valid_calendar "\<lambda>c. fits_u32 (length (sessions c))" calendar_bytes encode_calendar
  "decode_calendar (\<lambda>_. True) (\<lambda>_. True)"
proof
  fix room bs and c :: TradingCalendar
  have f: "fallible room (try_emit [always (write_u64 (calendar_id c)), always (write_u64 (calendar_version c)),
      always (write_u64 (calendar_effective_from c)), write_length ''trading calendar sessions'' (length (sessions c)),
      always (write_each encode_session (sessions c))]) (fits_u32 (length (sessions c))) (calendar_bytes c)"
    by (rule fallible_eq, (rule fallible_rules writers conjunct1 [OF session_wire.write_each])+)
      (simp_all add: layouts session_wire.write_each calendar_bytes_def)
  show "fits_u32 (length (sessions c)) \<and> bs = calendar_bytes c" if "encode_calendar room c = Inr bs"
    using encode_steps_Inr(1) [OF f] that unfolding encode_calendar_def by blast
  show "encode_calendar room c = Inr (calendar_bytes c)" if "fits_u32 (length (sessions c))" "admits room (length (calendar_bytes c))"
    using encode_steps_Inr(2) [OF f] that unfolding encode_calendar_def by blast
  show "decode_calendar (\<lambda>_. True) (\<lambda>_. True) bs = Inr c \<longleftrightarrow> valid_calendar c \<and> fits_u32 (length (sessions c)) \<and> bs = calendar_bytes c"
  proof
    assume "decode_calendar (\<lambda>_. True) (\<lambda>_. True) bs = Inr c"
    then show "valid_calendar c \<and> fits_u32 (length (sessions c)) \<and> bs = calendar_bytes c"
      using calendar_fields [of _ _ _ _ _ c]
      by (auto simp: decode_calendar_def result_simps readings session_wire.reads_many map_sum_eq_Inr decoder_finish_def
          valid_calendar_def valid_id_def calendar_bytes_def)
  next
    assume a: "valid_calendar c \<and> fits_u32 (length (sessions c)) \<and> bs = calendar_bytes c"
    have "read_many decode_session (length (sessions c)) (concat (map (\<lambda>s. written (encode_session s)) (sessions c))) = Inr (sessions c, [])"
      using a by (auto simp: session_wire.reads_many valid_calendar_def)
    then show "decode_calendar (\<lambda>_. True) (\<lambda>_. True) bs = Inr c"
      using a by (simp add: decode_calendar_def calendar_bytes_def valid_calendar_def evaluations sessions_size reserve_decoded_vec_def
          decoder_finish_def)
  qed
qed

section \<open>Instrument definitions\<close>

fun instrument_kind_tag :: "InstrumentKind \<Rightarrow> nat" where
  "instrument_kind_tag Equity = 0"
| "instrument_kind_tag Spot = 1"
| "instrument_kind_tag Future = 2"
| "instrument_kind_tag Option = 3"
| "instrument_kind_tag Bond = 4"
| "instrument_kind_tag Swap = 5"
| "instrument_kind_tag Index = 6"
| "instrument_kind_tag Synthetic = 7"

definition encode_instrument_kind :: "InstrumentKind \<Rightarrow> Encoder \<Rightarrow> Encoder" where
  "encode_instrument_kind value = write_u8 (instrument_kind_tag value)"

definition decode_instrument_kind :: "InstrumentKind reading" where
  "decode_instrument_kind = read_tagged ''InstrumentKind''
     [(0, Equity), (1, Spot), (2, Future), (3, Option), (4, Bond), (5, Swap), (6, Index), (7, Synthetic)]"

interpretation instrument_kind_wire: wire "\<lambda>_. True" encode_instrument_kind decode_instrument_kind
  unfolding encode_instrument_kind_def decode_instrument_kind_def
proof (rule wire_enum, goal_cases)
  case (1 x)
  show ?case
    by (cases x) simp_all
qed simp

text \<open>
  \<open>str::from_utf8\<close>: the byte sequences of the Unicode scalar values in their shortest form.  A text is the list of
  its bytes.
\<close>

definition utf8_tail :: "byte \<Rightarrow> bool" where
  "utf8_tail b \<longleftrightarrow> 128 \<le> unat b \<and> unat b < 192"

fun is_utf8 :: "byte list \<Rightarrow> bool" where
  "is_utf8 [] = True"
| "is_utf8 (a # bs) =
     (let n = unat a in
      if n < 128 then is_utf8 bs
      else if 194 \<le> n \<and> n < 224 then (case bs of b # rest \<Rightarrow> utf8_tail b \<and> is_utf8 rest | _ \<Rightarrow> False)
      else if 224 \<le> n \<and> n < 240 then
        (case bs of b # c # rest \<Rightarrow> utf8_tail b \<and> (n = 224 \<longrightarrow> 160 \<le> unat b) \<and> (n = 237 \<longrightarrow> unat b < 160) \<and> utf8_tail c \<and> is_utf8 rest
         | _ \<Rightarrow> False)
      else if 240 \<le> n \<and> n < 245 then
        (case bs of b # c # d # rest \<Rightarrow> utf8_tail b \<and> (n = 240 \<longrightarrow> 144 \<le> unat b) \<and> (n = 244 \<longrightarrow> unat b < 144) \<and> utf8_tail c \<and>
           utf8_tail d \<and> is_utf8 rest
         | _ \<Rightarrow> False)
      else False)"

definition text_bytes :: "string \<Rightarrow> byte list" where
  "text_bytes text = map (\<lambda>c. word_of_nat (of_char c)) text"

definition bytes_text :: "byte list \<Rightarrow> string" where
  "bytes_text bs = map (\<lambda>b. char_of (unat b)) bs"

definition read_symbol :: "InstrumentSymbol reading" where
  "read_symbol = then_read read_u8 (\<lambda>n. then_read (read_bytes n) (\<lambda>b.
     decoded_from (and_then (ensure (is_utf8 b) (InvalidValue ''instrument symbol is not UTF-8'')) (\<lambda>_.
       map_sum InvalidInstrument id (instrument_symbol_new (bytes_text b))))))"

text \<open>\<open>u8::try_from\<close> of the length of the symbol.\<close>

definition write_short_length :: "string \<Rightarrow> nat \<Rightarrow> Encoder \<Rightarrow> CodecError + Encoder" where
  "write_short_length field n e = (if n < 256 then Inr (write_u8 n e) else Inl (LengthOverflow field n))"

definition encode_price_rules :: "PriceRules \<Rightarrow> Encoder \<Rightarrow> Encoder" where
  "encode_price_rules p = emit [write_u8 (decimal_scale p), write_u64 (tick_size p), write_i64 (minimum p), write_i64 (maximum_price p)]"

definition decode_price_rules :: "PriceRules reading" where
  "decode_price_rules =
     then_read read_u8 (\<lambda>scale. then_read read_u64 (\<lambda>tick. then_read read_i64 (\<lambda>lower. then_read read_i64 (\<lambda>upper.
       decoded_from (map_sum InvalidInstrument id (price_rules_new scale tick lower upper))))))"

definition encode_quantity_rules :: "QuantityRules \<Rightarrow> Encoder \<Rightarrow> Encoder" where
  "encode_quantity_rules q = emit [write_u64 (increment q), write_u64 (minimum_lots q), write_u64 (maximum_lots q)]"

definition decode_quantity_rules :: "QuantityRules reading" where
  "decode_quantity_rules =
     then_read read_u64 (\<lambda>step. then_read read_u64 (\<lambda>lower. then_read read_u64 (\<lambda>upper.
       decoded_from (map_sum InvalidInstrument id (quantity_rules_new step lower upper)))))"

definition encode_reserve_rules :: "ReserveOrderRules \<Rightarrow> Encoder \<Rightarrow> Encoder" where
  "encode_reserve_rules r = emit [write_u32 (maximum_replenishments r)]"

definition decode_reserve_rules :: "ReserveOrderRules reading" where
  "decode_reserve_rules = then_read read_u32 (\<lambda>n.
     if n = 0 then decoded reserve_rules_disabled else decoded_from (map_sum InvalidInstrument id (reserve_rules_new n)))"

definition encode_definition :: "(nat \<Rightarrow> bool) \<Rightarrow> InstrumentDefinition \<Rightarrow> CodecError + byte list" where
  "encode_definition room d = encode_steps room
     [always (write_u64 (def_instrument_id d)), always (write_u64 (def_version d)), always (write_u64 (effective_from d)),
      write_short_length ''instrument symbol'' (length (def_symbol d)), always (write_bytes (text_bytes (def_symbol d))),
      always (encode_instrument_kind (def_kind d)), always (write_u64 (def_base_asset_id d)), always (write_u64 (def_quote_asset_id d)),
      always (encode_price_rules (def_price d)), always (encode_quantity_rules (def_quantity d)),
      always (encode_reserve_rules (def_reserve d)), always (write_bool (hidden_orders_supported d)),
      always (write_u64 (def_base_units_per_lot d)), always (write_u64 (def_quote_units_per_price_unit d)),
      always (encode_trading_state (def_trading_state d))]"

definition decode_definition :: "byte list \<Rightarrow> CodecError + InstrumentDefinition" where
  "decode_definition bs =
     and_then (read_instrument bs) (\<lambda>(i, bs).
     and_then (read_instrument_version bs) (\<lambda>(version, bs).
     and_then (read_u64 bs) (\<lambda>(from, bs).
     and_then (read_symbol bs) (\<lambda>(symbol, bs).
     and_then (decode_instrument_kind bs) (\<lambda>(kind, bs).
     and_then (read_asset bs) (\<lambda>(base, bs).
     and_then (read_asset bs) (\<lambda>(quote, bs).
     and_then (decode_price_rules bs) (\<lambda>(price, bs).
     and_then (decode_quantity_rules bs) (\<lambda>(quantity_rules, bs).
     and_then (decode_reserve_rules bs) (\<lambda>(reserve, bs).
     and_then (read_bool bs) (\<lambda>(hidden, bs).
     and_then (read_u64 bs) (\<lambda>(base_units, bs).
     and_then (read_u64 bs) (\<lambda>(quote_units, bs).
     and_then (decode_trading_state bs) (\<lambda>(state, bs).
     and_then (decoder_finish bs) (\<lambda>_.
       map_sum InvalidInstrument id (instrument_definition_new
         \<lparr>def_instrument_id = i, def_version = version, effective_from = from, def_symbol = symbol, def_kind = kind,
          def_base_asset_id = base, def_quote_asset_id = quote, def_price = price, def_quantity = quantity_rules,
          def_reserve = reserve, hidden_orders_supported = hidden, def_base_units_per_lot = base_units,
          def_quote_units_per_price_unit = quote_units, def_trading_state = state\<rparr>))))))))))))))))"

section \<open>What definitions encode to\<close>

lemma char_byte: "unat (word_of_nat (of_char c) :: byte) = of_char c"
proof -
  have "(of_char c :: nat) < 256" using nat_of_char_less_256 [of c] by simp
  then show ?thesis by (simp add: unat_of_nat take_bit_nat_eq_self_iff)
qed

lemma byte_char: "word_of_nat (unat b mod 256) = (b :: byte)"
proof -
  have "unat b < 256" using unsigned_less [of b, where 'a = nat] by simp
  then show ?thesis by simp
qed

lemma text_roundtrip [simp]: "bytes_text (text_bytes t) = t"
  by (induction t) (simp_all add: bytes_text_def text_bytes_def char_byte)

lemma bytes_roundtrip [simp]: "text_bytes (bytes_text bs) = bs"
  by (induction bs) (simp_all add: bytes_text_def text_bytes_def byte_char)

lemma text_bytes_length [simp]: "length (text_bytes t) = length t"
  by (simp add: text_bytes_def)

lemma bytes_text_length [simp]: "length (bytes_text bs) = length bs"
  by (simp add: bytes_text_def)

lemma canonical_text_utf8: "\<forall>c\<in>set t. is_text_byte c \<Longrightarrow> is_utf8 (text_bytes t)"
  by (induction t) (auto simp: text_bytes_def Let_def char_byte is_text_byte_def)

lemma symbol_new_Inr: "instrument_symbol_new t = Inr s \<longleftrightarrow> s = t \<and> t \<noteq> [] \<and> length t \<le> 32 \<and> (\<forall>c\<in>set t. is_text_byte c)"
  by (auto simp: instrument_symbol_new_def validate_text_def result_simps find_None_iff find_Some_iff split: option.splits)

definition valid_symbol :: "InstrumentSymbol \<Rightarrow> bool" where
  "valid_symbol s \<longleftrightarrow> instrument_symbol_new s = Inr s"

lemma read_symbol_Inr: "read_symbol bs = Inr (s, R) \<longleftrightarrow> valid_symbol s \<and> bs = le_bytes (Suc 0) (length s) @ text_bytes s @ R"
proof
  assume "read_symbol bs = Inr (s, R)"
  then show "valid_symbol s \<and> bs = le_bytes (Suc 0) (length s) @ text_bytes s @ R"
    by (auto simp: read_symbol_def readings read_bytes_Inr result_simps map_sum_eq_Inr symbol_new_Inr valid_symbol_def)
next
  assume a: "valid_symbol s \<and> bs = le_bytes (Suc 0) (length s) @ text_bytes s @ R"
  then have "is_utf8 (text_bytes s)" "length s < 256" "instrument_symbol_new s = Inr s"
    using canonical_text_utf8 by (auto simp: valid_symbol_def symbol_new_Inr)
  then show "read_symbol bs = Inr (s, R)"
    using a by (simp add: read_symbol_def evaluations)
qed

lemma symbol_evaluation [evaluations]:
  "valid_symbol s \<Longrightarrow> read_symbol (le_bytes (Suc 0) (length s) @ text_bytes s @ R) = Inr (s, R)"
  by (simp add: read_symbol_Inr)

lemmas [readings] = read_symbol_Inr

text \<open>The rules a constructor accepts.\<close>

definition valid_price_rules :: "PriceRules \<Rightarrow> bool" where
  "valid_price_rules p \<longleftrightarrow> fits_u64 (tick_size p) \<and> fits_i64 (minimum p) \<and> fits_i64 (maximum_price p) \<and>
     price_rules_new (decimal_scale p) (tick_size p) (minimum p) (maximum_price p) = Inr p"

definition valid_quantity_rules :: "QuantityRules \<Rightarrow> bool" where
  "valid_quantity_rules q \<longleftrightarrow> fits_u64 (increment q) \<and> fits_u64 (minimum_lots q) \<and> fits_u64 (maximum_lots q) \<and>
     quantity_rules_new (increment q) (minimum_lots q) (maximum_lots q) = Inr q"

definition valid_reserve_rules :: "ReserveOrderRules \<Rightarrow> bool" where
  "valid_reserve_rules r \<longleftrightarrow> fits_u32 (maximum_replenishments r)"

lemma price_rules_scale: "price_rules_new scale tick lower upper = Inr p \<Longrightarrow> scale \<le> 18 \<and> decimal_scale p = scale \<and> tick_size p = tick \<and>
    minimum p = lower \<and> maximum_price p = upper"
  by (auto simp: price_rules_new_def result_simps)

lemma quantity_rules_fields: "quantity_rules_new step lower upper = Inr q \<Longrightarrow> increment q = step \<and> minimum_lots q = lower \<and> maximum_lots q = upper"
  by (auto simp: quantity_rules_new_def result_simps)

interpretation price_rules_wire: wire valid_price_rules encode_price_rules decode_price_rules
proof (unfold_locales, goal_cases)
  case (1 x)
  show ?case
    by (simp add: encode_price_rules_def writers)
next
  case (2 x R)
  then have "decimal_scale x \<le> 18"
    using price_rules_scale unfolding valid_price_rules_def by blast
  then show ?case
    using 2 by (simp add: encode_price_rules_def decode_price_rules_def valid_price_rules_def layouts writers evaluations)
next
  case (3 bs x R)
  then show ?case
    using price_rules_scale [of _ _ _ _ x]
    by (auto simp: encode_price_rules_def decode_price_rules_def valid_price_rules_def layouts writers readings map_sum_eq_Inr)
qed

interpretation quantity_rules_wire: wire valid_quantity_rules encode_quantity_rules decode_quantity_rules
proof (unfold_locales, goal_cases)
  case (1 x)
  show ?case
    by (simp add: encode_quantity_rules_def writers)
next
  case (2 x R)
  then show ?case
    by (simp add: encode_quantity_rules_def decode_quantity_rules_def valid_quantity_rules_def layouts writers evaluations)
next
  case (3 bs x R)
  then show ?case
    using quantity_rules_fields [of _ _ _ x]
    by (auto simp: encode_quantity_rules_def decode_quantity_rules_def valid_quantity_rules_def layouts writers readings map_sum_eq_Inr)
qed

interpretation reserve_rules_wire: wire valid_reserve_rules encode_reserve_rules decode_reserve_rules
proof (unfold_locales, goal_cases)
  case (1 x)
  show ?case
    by (simp add: encode_reserve_rules_def writers)
next
  case (2 x R)
  then show ?case
    by (simp add: encode_reserve_rules_def decode_reserve_rules_def valid_reserve_rules_def layouts writers evaluations
        reserve_rules_new_def reserve_rules_disabled_def)
next
  case (3 bs x R)
  then show ?case
    by (auto simp: encode_reserve_rules_def decode_reserve_rules_def valid_reserve_rules_def layouts writers readings map_sum_eq_Inr
        reserve_rules_new_def reserve_rules_disabled_def split: if_splits)
qed

lemmas [writers] = instrument_kind_wire.writes price_rules_wire.writes quantity_rules_wire.writes reserve_rules_wire.writes
lemmas [readings] = instrument_kind_wire.reads_Inr price_rules_wire.reads_Inr quantity_rules_wire.reads_Inr reserve_rules_wire.reads_Inr
lemmas [evaluations] = instrument_kind_wire.reads price_rules_wire.reads quantity_rules_wire.reads reserve_rules_wire.reads

lemma fallible_short_length: "fallible room (write_short_length field n) (n < 256) (le_bytes (Suc 0) n)"
proof (cases "n < 256")
  case True
  then have "write_short_length field n = always (write_u8 n)"
    by (simp add: write_short_length_def always_def fun_eq_iff)
  then show ?thesis
    using fallible_always [of "write_u8 n" room] True by (simp add: writers layouts)
qed (simp add: fallible_def write_short_length_def)

definition valid_definition :: "InstrumentDefinition \<Rightarrow> bool" where
  "valid_definition d \<longleftrightarrow> valid_id (def_instrument_id d) \<and> valid_id (def_version d) \<and> fits_u64 (effective_from d) \<and>
     valid_symbol (def_symbol d) \<and> valid_id (def_base_asset_id d) \<and> valid_id (def_quote_asset_id d) \<and>
     valid_price_rules (def_price d) \<and> valid_quantity_rules (def_quantity d) \<and> valid_reserve_rules (def_reserve d) \<and>
     fits_u64 (def_base_units_per_lot d) \<and> fits_u64 (def_quote_units_per_price_unit d) \<and> instrument_definition_new d = Inr d"

definition definition_bytes :: "InstrumentDefinition \<Rightarrow> byte list" where
  "definition_bytes d = le_bytes 8 (def_instrument_id d) @ le_bytes 8 (def_version d) @ le_bytes 8 (effective_from d) @
     le_bytes (Suc 0) (length (def_symbol d)) @ text_bytes (def_symbol d) @ written (encode_instrument_kind (def_kind d)) @
     le_bytes 8 (def_base_asset_id d) @ le_bytes 8 (def_quote_asset_id d) @ written (encode_price_rules (def_price d)) @
     written (encode_quantity_rules (def_quantity d)) @ written (encode_reserve_rules (def_reserve d)) @
     le_bytes (Suc 0) (of_bool (hidden_orders_supported d)) @ le_bytes 8 (def_base_units_per_lot d) @
     le_bytes 8 (def_quote_units_per_price_unit d) @ written (encode_trading_state (def_trading_state d))"

lemma definition_new_same: "instrument_definition_new d = Inr d' \<Longrightarrow> d' = d"
  by (auto simp: instrument_definition_new_def result_simps)

lemma definition_eta: "\<lparr>def_instrument_id = def_instrument_id d, def_version = def_version d, effective_from = effective_from d,
     def_symbol = def_symbol d, def_kind = def_kind d, def_base_asset_id = def_base_asset_id d, def_quote_asset_id = def_quote_asset_id d,
     def_price = def_price d, def_quantity = def_quantity d, def_reserve = def_reserve d,
     hidden_orders_supported = hidden_orders_supported d, def_base_units_per_lot = def_base_units_per_lot d,
     def_quote_units_per_price_unit = def_quote_units_per_price_unit d, def_trading_state = def_trading_state d\<rparr> = (d :: InstrumentDefinition)"
  by simp

lemma read_bool_evaluation: "read_bool (le_bytes (Suc 0) (of_bool b) @ R) = Inr (b, R)"
  using read_bool_Inr by blast

interpretation definition_codec: binary_codec valid_definition "\<lambda>d. length (def_symbol d) < 256" definition_bytes encode_definition
  decode_definition
proof
  fix room bs and d :: InstrumentDefinition
  have f: "fallible room (try_emit
     [always (write_u64 (def_instrument_id d)), always (write_u64 (def_version d)), always (write_u64 (effective_from d)),
      write_short_length ''instrument symbol'' (length (def_symbol d)), always (write_bytes (text_bytes (def_symbol d))),
      always (encode_instrument_kind (def_kind d)), always (write_u64 (def_base_asset_id d)), always (write_u64 (def_quote_asset_id d)),
      always (encode_price_rules (def_price d)), always (encode_quantity_rules (def_quantity d)),
      always (encode_reserve_rules (def_reserve d)), always (write_bool (hidden_orders_supported d)),
      always (write_u64 (def_base_units_per_lot d)), always (write_u64 (def_quote_units_per_price_unit d)),
      always (encode_trading_state (def_trading_state d))]) (length (def_symbol d) < 256) (definition_bytes d)"
    by (rule fallible_eq, (rule fallible_short_length fallible_rules writers trading_state_wire.writes)+)
      (simp_all add: layouts definition_bytes_def)
  show "length (def_symbol d) < 256 \<and> bs = definition_bytes d" if "encode_definition room d = Inr bs"
    using encode_steps_Inr(1) [OF f] that unfolding encode_definition_def by blast
  show "encode_definition room d = Inr (definition_bytes d)" if "length (def_symbol d) < 256" "admits room (length (definition_bytes d))"
    using encode_steps_Inr(2) [OF f] that unfolding encode_definition_def by blast
  show "decode_definition bs = Inr d \<longleftrightarrow> valid_definition d \<and> length (def_symbol d) < 256 \<and> bs = definition_bytes d"
  proof
    assume "decode_definition bs = Inr d"
    then show "valid_definition d \<and> length (def_symbol d) < 256 \<and> bs = definition_bytes d"
      unfolding decode_definition_def
      apply (clarsimp simp: result_simps readings trading_state_wire.reads_Inr map_sum_eq_Inr decoder_finish_def)
      apply (frule definition_new_same)
      by (auto simp: valid_definition_def valid_id_def definition_bytes_def valid_symbol_def symbol_new_Inr)
  next
    assume "valid_definition d \<and> length (def_symbol d) < 256 \<and> bs = definition_bytes d"
    then show "decode_definition bs = Inr d"
      using trading_state_wire.reads [of "def_trading_state d" "[]"]
      by (simp add: decode_definition_def definition_bytes_def valid_definition_def evaluations read_bool_evaluation decoder_finish_def
          definition_eta)
  qed
qed

section \<open>Properties\<close>

text \<open>
  C20. Calendars and instrument definitions have exactly one encoding: a byte string decodes to one if and only if
  every validating constructor accepts it and the byte string is what it encodes to; in particular a symbol is
  read back from its bytes exactly if it is canonical, whatever Unicode text the bytes hold.
\<close>

theorem reference_codec_exact:
  assumes "fits_usize (length bs)"
  shows "(decode_calendar (\<lambda>_. True) (\<lambda>_. True) bs = Inr c \<longleftrightarrow> valid_calendar c \<and> encode_calendar (\<lambda>_. True) c = Inr bs) \<and>
    (decode_definition bs = Inr d \<longleftrightarrow> valid_definition d \<and> encode_definition (\<lambda>_. True) d = Inr bs)"
  using calendar_codec.decodes_iff [OF assms] definition_codec.decodes_iff [OF assms] by simp

definition sample_session_bytes :: "byte list" where
  "sample_session_bytes = [1, 0, 0, 0, 0, 0, 0, 0, 2, 0, 0, 0, 0, 0, 0, 0, 5, 0, 0, 0, 0, 0, 0, 0, 1, 0, 0, 0,
     7, 0, 0, 0, 0, 0, 0, 0, 3, 0, 0, 0, 10, 0, 0, 0, 0, 0, 0, 0, 20, 0, 0, 0, 0, 0, 0, 0,
     30, 0, 0, 0, 0, 0, 0, 0, 40, 0, 0, 0, 0, 0, 0, 0]"

definition one_session :: TradingSession where
  "one_session = \<lparr>session_id = 7, trading_date = 3, order_entry_opens_at = 10, order_entry_closes_at = 20,
     session_orders_expire_at = 30, day_orders_expire_at = 40\<rparr>"

definition one_calendar :: TradingCalendar where
  "one_calendar = \<lparr>calendar_id = 1, calendar_version = 2, calendar_effective_from = 5, sessions = [one_session], sessions_by_id = [(7, 0)]\<rparr>"

lemma one_calendar_bytes: "calendar_bytes one_calendar = sample_session_bytes"
  by (simp add: calendar_bytes_def one_calendar_def one_session_def sample_session_bytes_def encode_session_def layouts writers twos_def
      le_bytes_numeral le_bytes.simps)

lemma reference_codec_exact_witness:
  "decode_calendar (\<lambda>_. True) (\<lambda>_. True) sample_session_bytes = Inr one_calendar"
proof -
  have fits: "fits_usize (length sample_session_bytes)"
    by (simp add: sample_session_bytes_def width_defs)
  have "encode_calendar (\<lambda>_. True) one_calendar = Inr sample_session_bytes"
    unfolding one_calendar_bytes [symmetric]
    by (rule calendar_codec.encodes_forward)
      (use fits one_calendar_bytes in \<open>simp_all add: one_calendar_def width_defs admits_def\<close>)
  moreover have "valid_calendar one_calendar"
    by (simp add: valid_calendar_def one_calendar_def one_session_def valid_session_def session_ok_def valid_id_def width_defs
        calendar_new_def ids_of_def)
  ultimately show ?thesis
    using reference_codec_exact [OF fits, of one_calendar] by simp
qed

end
