(* ===== verification/Liquidity.thy ===== *)
theory Liquidity
  imports MatchingSafety
begin

text \<open>
  The read-only scans of the opposite side (\<open>src/src/matching.rs\<close>): what a level can execute immediately under
  a self-trade policy, whether a required quantity can execute, and the makers that are gone before a remainder
  rests.  The loops follow the links of the orders; they are partial functions, \<^const>\<open>None\<close> is a panic or a
  loop that does not end.
\<close>

section \<open>Level liquidity\<close>

datatype LevelLiquidity = Filled | Remaining nat | BlockedBySelfTrade nat

partial_function (option) cancel_resting_liquidity ::
    "OrderBook \<Rightarrow> AccountId \<Rightarrow> OrderId option \<Rightarrow> nat \<Rightarrow> LevelLiquidity option"
where
  "cancel_resting_liquidity b account current remaining =
     (case current of
        None \<Rightarrow> Some (Remaining remaining)
      | Some x \<Rightarrow> do {
          order \<leftarrow> orders b x;
          if order_account_id order = account then cancel_resting_liquidity b account (next_order order) remaining
          else if remaining - leaves order = 0 then Some Filled
          else cancel_resting_liquidity b account (next_order order) (remaining - leaves order)
        })"

partial_function (option) blocking_liquidity_loop ::
    "OrderBook \<Rightarrow> AccountId \<Rightarrow> OrderId option \<Rightarrow> nat \<Rightarrow> nat \<Rightarrow> LevelLiquidity option"
where
  "blocking_liquidity_loop b account current total_path_remaining pre_barrier_remaining =
     (case current of
        None \<Rightarrow> Some (if total_path_remaining = 0 then Filled else Remaining total_path_remaining)
      | Some x \<Rightarrow> do {
          order \<leftarrow> orders b x;
          if order_account_id order = account
          then (if is_hidden (order_display order) \<and> total_path_remaining = 0 then Some Filled
                else Some (BlockedBySelfTrade
                  (if is_hidden (order_display order) then total_path_remaining else pre_barrier_remaining)))
          else if pre_barrier_remaining - displayed order = 0 then Some Filled
          else blocking_liquidity_loop b account (next_order order)
                 (total_path_remaining - leaves order) (pre_barrier_remaining - displayed order)
        })"

definition blocking_liquidity :: "OrderBook \<Rightarrow> AccountId \<Rightarrow> OrderId \<Rightarrow> nat \<Rightarrow> LevelLiquidity option" where
  "blocking_liquidity b account head remaining = blocking_liquidity_loop b account (Some head) remaining remaining"

partial_function (option) total_level_liquidity ::
    "OrderBook \<Rightarrow> OrderId option \<Rightarrow> nat \<Rightarrow> LevelLiquidity option"
where
  "total_level_liquidity b current remaining =
     (case current of
        None \<Rightarrow> Some (Remaining remaining)
      | Some x \<Rightarrow> do {
          order \<leftarrow> orders b x;
          if remaining - leaves order = 0 then Some Filled
          else total_level_liquidity b (next_order order) (remaining - leaves order)
        })"

definition immediate_level_liquidity :: "OrderBook \<Rightarrow> IncomingPreview \<Rightarrow> OrderId \<Rightarrow> nat \<Rightarrow> LevelLiquidity option" where
  "immediate_level_liquidity b incoming head remaining =
     (case preview_self_trade_prevention incoming of
        CancelResting \<Rightarrow> cancel_resting_liquidity b (preview_account_id incoming) (Some head) remaining
      | _ \<Rightarrow> blocking_liquidity b (preview_account_id incoming) head remaining)"

section \<open>Executing a quantity\<close>

definition crosses :: "IncomingPreview \<Rightarrow> Price \<Rightarrow> bool option" where
  "crosses incoming price = crosses_price (preview_side incoming) (preview_order_type incoming) price"

definition next_worse_price :: "Side \<Rightarrow> Price \<Rightarrow> OrderBook \<Rightarrow> Price option" where
  "next_worse_price side current b = next_worse (levels b side) current"

partial_function (option) execute_quantity_loop ::
    "OrderBook \<Rightarrow> IncomingPreview \<Rightarrow> Price option \<Rightarrow> nat \<Rightarrow> bool option"
where
  "execute_quantity_loop b incoming price remaining =
     (case price of
        None \<Rightarrow> Some False
      | Some current_price \<Rightarrow> do {
          crossed \<leftarrow> crosses incoming current_price;
          if \<not> crossed then Some False
          else do {
            level \<leftarrow> levels_get (levels b (opposite (preview_side incoming))) current_price;
            liquidity \<leftarrow> immediate_level_liquidity b incoming (level_head level) remaining;
            case liquidity of
              Filled \<Rightarrow> Some True
            | Remaining following \<Rightarrow>
                execute_quantity_loop b incoming
                  (next_worse_price (opposite (preview_side incoming)) current_price b) following
            | BlockedBySelfTrade _ \<Rightarrow> Some False
          }
        })"

definition can_execute_quantity :: "IncomingPreview \<Rightarrow> nat \<Rightarrow> OrderBook \<Rightarrow> bool option" where
  "can_execute_quantity incoming required b =
     execute_quantity_loop b incoming (best_price (opposite (preview_side incoming)) b) required"

definition can_fill :: "NewOrder \<Rightarrow> OrderBook \<Rightarrow> bool option" where
  "can_fill incoming b = can_execute_quantity (preview_of incoming) (new_quantity incoming) b"

section \<open>Executing a minimum under decrement-and-cancel\<close>

datatype MinimumScanProgress = Continue | Satisfied | IncomingExhausted

record MinimumScanState =
  incoming_remaining :: nat
  external_required :: nat

definition consume_totals :: "nat \<Rightarrow> nat \<Rightarrow> MinimumScanState \<Rightarrow> (MinimumScanProgress \<times> MinimumScanState) option" where
  "consume_totals total_lots external s = do {
     remaining \<leftarrow> checked_sub (incoming_remaining s) total_lots;
     let s = s\<lparr>incoming_remaining := remaining, external_required := external_required s - external\<rparr>;
     Some (if external_required s = 0 then Satisfied
           else if incoming_remaining s = 0 then IncomingExhausted else Continue, s)
   }"

text \<open>
  The scans below are generic in the scan state, as the trait \<open>DecrementAndCancelScanState\<close> is: its two
  operations are arguments.
\<close>

type_synonym 's scan_step = "(MinimumScanProgress \<times> 's) option"

definition consume_slice ::
    "('s \<Rightarrow> nat) \<Rightarrow> (nat \<Rightarrow> nat \<Rightarrow> 's \<Rightarrow> 's scan_step) \<Rightarrow> nat \<Rightarrow> bool \<Rightarrow> 's \<Rightarrow> 's scan_step"
where
  "consume_slice remaining_of consume available external s =
     (let consumed = min (remaining_of s) available
      in consume consumed (if external then consumed else 0) s)"

partial_function (option) reserve_round_totals ::
    "OrderBook \<Rightarrow> OrderId option \<Rightarrow> OrderId \<Rightarrow> nat \<Rightarrow> AccountId \<Rightarrow> nat \<Rightarrow> nat \<Rightarrow> (nat \<times> nat) option"
where
  "reserve_round_totals b current shown_tail rounds account total_lots external =
     (case current of
        None \<Rightarrow> None
      | Some x \<Rightarrow> do {
          order \<leftarrow> orders b x;
          let consumed = (case order_display order of
                            Reserve p \<Rightarrow> min (leaves order - displayed order) (rounds * p) | _ \<Rightarrow> 0);
          let total_lots = total_lots + consumed;
          let external = external + (if order_account_id order \<noteq> account then consumed else 0);
          if x = shown_tail then Some (total_lots, external)
          else reserve_round_totals b (next_order order) shown_tail rounds account total_lots external
        })"

partial_function (option) complete_rounds ::
    "OrderBook \<Rightarrow> OrderId \<Rightarrow> OrderId \<Rightarrow> AccountId \<Rightarrow> nat \<Rightarrow> nat \<Rightarrow> nat \<Rightarrow> nat option"
where
  "complete_rounds b head shown_tail account remaining completed upper =
     (if completed < upper then do {
        half \<leftarrow> div_ceil (upper - completed) 2;
        let candidate = completed + half;
        (total_lots, _) \<leftarrow> reserve_round_totals b (Some head) shown_tail candidate account 0 0;
        if total_lots \<le> remaining then complete_rounds b head shown_tail account remaining candidate upper
        else complete_rounds b head shown_tail account remaining completed (candidate - 1)
      } else Some completed)"

text \<open>The last, partial round; falling off its end is \<open>unreachable!\<close>.\<close>

partial_function (option) partial_round ::
    "('s \<Rightarrow> nat) \<Rightarrow> (nat \<Rightarrow> nat \<Rightarrow> 's \<Rightarrow> 's scan_step) \<Rightarrow> OrderBook \<Rightarrow> OrderId option \<Rightarrow> OrderId \<Rightarrow> nat \<Rightarrow>
     AccountId \<Rightarrow> 's \<Rightarrow> 's scan_step"
where
  "partial_round remaining_of consume b current shown_tail completed account s =
     (case current of
        None \<Rightarrow> None
      | Some x \<Rightarrow> do {
          order \<leftarrow> orders b x;
          (progress, s') \<leftarrow> (case order_display order of
              Reserve p \<Rightarrow>
                (let kept = leaves order - displayed order;
                     rest = kept - min kept (completed * p)
                 in consume_slice remaining_of consume (min rest p) (order_account_id order \<noteq> account) s)
            | _ \<Rightarrow> Some (Continue, s));
          if progress \<noteq> Continue then Some (progress, s')
          else if x = shown_tail then None
          else partial_round remaining_of consume b (next_order order) shown_tail completed account s'
        })"

definition scan_decrement_and_cancel_reserve_rounds ::
    "('s \<Rightarrow> nat) \<Rightarrow> (nat \<Rightarrow> nat \<Rightarrow> 's \<Rightarrow> 's scan_step) \<Rightarrow> OrderBook \<Rightarrow> OrderId \<Rightarrow> OrderId \<Rightarrow> nat \<Rightarrow>
     AccountId \<Rightarrow> 's \<Rightarrow> 's scan_step"
where
  "scan_decrement_and_cancel_reserve_rounds remaining_of consume b head shown_tail maximum_rounds account s = do {
     completed \<leftarrow> complete_rounds b head shown_tail account (remaining_of s) 0 maximum_rounds;
     (total_lots, external) \<leftarrow> reserve_round_totals b (Some head) shown_tail completed account 0 0;
     total_lots \<leftarrow> checked fits_u64 total_lots;
     external \<leftarrow> checked fits_u64 external;
     (progress, s) \<leftarrow> consume total_lots external s;
     if progress \<noteq> Continue \<or> completed = maximum_rounds then Some (progress, s)
     else partial_round remaining_of consume b (Some head) shown_tail completed account s
   }"

text \<open>The displayed slices: the number of reserve rounds and the order after the displayed class.\<close>

partial_function (option) scan_displayed ::
    "('s \<Rightarrow> nat) \<Rightarrow> (nat \<Rightarrow> nat \<Rightarrow> 's \<Rightarrow> 's scan_step) \<Rightarrow> OrderBook \<Rightarrow> OrderId option \<Rightarrow> OrderId \<Rightarrow>
     AccountId \<Rightarrow> nat \<Rightarrow> 's \<Rightarrow> ((MinimumScanProgress + nat \<times> OrderId option) \<times> 's) option"
where
  "scan_displayed remaining_of consume b current shown_tail account rounds s =
     (case current of
        None \<Rightarrow> None
      | Some x \<Rightarrow> do {
          order \<leftarrow> orders b x;
          (progress, s') \<leftarrow> consume_slice remaining_of consume (displayed order) (order_account_id order \<noteq> account) s;
          if progress \<noteq> Continue then Some (Inl progress, s')
          else do {
            rounds' \<leftarrow> (case order_display order of
                Reserve p \<Rightarrow>
                  (if displayed order < leaves order
                   then map_option (max rounds) (div_ceil (leaves order - displayed order) p) else Some rounds)
              | _ \<Rightarrow> Some rounds);
            if x = shown_tail then Some (Inr (rounds', next_order order), s')
            else scan_displayed remaining_of consume b (next_order order) shown_tail account rounds' s'
          }
        })"

partial_function (option) scan_hidden ::
    "('s \<Rightarrow> nat) \<Rightarrow> (nat \<Rightarrow> nat \<Rightarrow> 's \<Rightarrow> 's scan_step) \<Rightarrow> OrderBook \<Rightarrow> OrderId option \<Rightarrow> AccountId \<Rightarrow> 's \<Rightarrow>
     's scan_step"
where
  "scan_hidden remaining_of consume b current account s =
     (case current of
        None \<Rightarrow> Some (Continue, s)
      | Some x \<Rightarrow> do {
          order \<leftarrow> orders b x;
          (progress, s') \<leftarrow> consume_slice remaining_of consume (displayed order) (order_account_id order \<noteq> account) s;
          if progress \<noteq> Continue then Some (progress, s')
          else scan_hidden remaining_of consume b (next_order order) account s'
        })"

definition scan_decrement_and_cancel_level ::
    "('s \<Rightarrow> nat) \<Rightarrow> (nat \<Rightarrow> nat \<Rightarrow> 's \<Rightarrow> 's scan_step) \<Rightarrow> OrderBook \<Rightarrow> PriceLevel \<Rightarrow> AccountId \<Rightarrow> 's \<Rightarrow> 's scan_step"
where
  "scan_decrement_and_cancel_level remaining_of consume b level account s =
     (case displayed_tail level of
        None \<Rightarrow> scan_hidden remaining_of consume b (Some (level_head level)) account s
      | Some shown_tail \<Rightarrow> do {
          (found, s) \<leftarrow> scan_displayed remaining_of consume b (Some (level_head level)) shown_tail account 0 s;
          case found of
            Inl progress \<Rightarrow> Some (progress, s)
          | Inr (rounds, hidden_head) \<Rightarrow> do {
              (progress, s) \<leftarrow> scan_decrement_and_cancel_reserve_rounds remaining_of consume b (level_head level)
                shown_tail rounds account s;
              if progress \<noteq> Continue then Some (progress, s)
              else scan_hidden remaining_of consume b hidden_head account s
            }
        })"

partial_function (option) execute_minimum_loop ::
    "OrderBook \<Rightarrow> IncomingPreview \<Rightarrow> Price option \<Rightarrow> MinimumScanState \<Rightarrow> bool option"
where
  "execute_minimum_loop b incoming price s =
     (case price of
        None \<Rightarrow> Some False
      | Some current_price \<Rightarrow> do {
          crossed \<leftarrow> crosses incoming current_price;
          if \<not> crossed then Some False
          else do {
            level \<leftarrow> levels_get (levels b (opposite (preview_side incoming))) current_price;
            (progress, s') \<leftarrow> scan_decrement_and_cancel_level incoming_remaining consume_totals b level
              (preview_account_id incoming) s;
            case progress of
              Continue \<Rightarrow>
                execute_minimum_loop b incoming
                  (next_worse_price (opposite (preview_side incoming)) current_price b) s'
            | Satisfied \<Rightarrow> Some True
            | IncomingExhausted \<Rightarrow> Some False
          }
        })"

definition can_execute_decrement_and_cancel_minimum :: "IncomingPreview \<Rightarrow> nat \<Rightarrow> OrderBook \<Rightarrow> bool option" where
  "can_execute_decrement_and_cancel_minimum incoming required b =
     execute_minimum_loop b incoming (best_price (opposite (preview_side incoming)) b)
       \<lparr>incoming_remaining = preview_leaves incoming, external_required = required\<rparr>"

definition can_execute_minimum_quantity :: "IncomingPreview \<Rightarrow> nat \<Rightarrow> OrderBook \<Rightarrow> bool option" where
  "can_execute_minimum_quantity incoming required b =
     (if preview_self_trade_prevention incoming = DecrementAndCancel
      then can_execute_decrement_and_cancel_minimum incoming required b
      else can_execute_quantity incoming required b)"

section \<open>The remainder\<close>

definition residual_liquidity :: "OrderBook \<Rightarrow> IncomingPreview \<Rightarrow> OrderId \<Rightarrow> nat \<Rightarrow> LevelLiquidity option" where
  "residual_liquidity b incoming head remaining =
     (case preview_self_trade_prevention incoming of
        CancelResting \<Rightarrow> cancel_resting_liquidity b (preview_account_id incoming) (Some head) remaining
      | DecrementAndCancel \<Rightarrow> total_level_liquidity b (Some head) remaining
      | _ \<Rightarrow> blocking_liquidity b (preview_account_id incoming) head remaining)"

partial_function (option) residual_loop ::
    "OrderBook \<Rightarrow> IncomingPreview \<Rightarrow> Price option \<Rightarrow> nat \<Rightarrow> nat \<Rightarrow> nat option option"
where
  "residual_loop b incoming price remaining removed_orders =
     (case price of
        None \<Rightarrow> Some (Some removed_orders)
      | Some current_price \<Rightarrow> do {
          crossed \<leftarrow> crosses incoming current_price;
          if \<not> crossed then Some (Some removed_orders)
          else do {
            level \<leftarrow> levels_get (levels b (opposite (preview_side incoming))) current_price;
            liquidity \<leftarrow> residual_liquidity b incoming (level_head level) remaining;
            case liquidity of
              Filled \<Rightarrow> Some None
            | BlockedBySelfTrade _ \<Rightarrow> Some None
            | Remaining following \<Rightarrow> do {
                removed_orders \<leftarrow> checked fits_usize (removed_orders + order_count level);
                residual_loop b incoming
                  (next_worse_price (opposite (preview_side incoming)) current_price b) following removed_orders
              }
          }
        })"

definition resting_residual_removed_orders :: "IncomingPreview \<Rightarrow> OrderBook \<Rightarrow> nat option option" where
  "resting_residual_removed_orders incoming b =
     residual_loop b incoming (best_price (opposite (preview_side incoming)) b) (preview_leaves incoming) 0"

text \<open>Whether the orders of an account on one side all lie on the crossed side at crossed prices.\<close>

fun side_orders_crossed :: "OrderBook \<Rightarrow> IncomingPreview \<Rightarrow> nat \<Rightarrow> OrderId option \<Rightarrow> bool option" where
  "side_orders_crossed b incoming 0 current = Some True"
| "side_orders_crossed b incoming (Suc n) current = do {
     x \<leftarrow> current;
     order \<leftarrow> orders b x;
     crossed \<leftarrow> (if order_side order \<noteq> opposite (preview_side incoming) then Some False
                 else crosses incoming (order_price order));
     if crossed then side_orders_crossed b incoming n (account_next order) else Some False
   }"

definition account_orders_are_crossed :: "OrderBook \<Rightarrow> AccountOrderIndex \<Rightarrow> IncomingPreview \<Rightarrow> bool option" where
  "account_orders_are_crossed b index incoming = do {
     buy_crossed \<leftarrow> side_orders_crossed b incoming (account_order_count (buys index)) (account_head (buys index));
     if buy_crossed
     then side_orders_crossed b incoming (account_order_count (sells index)) (account_head (sells index))
     else Some False
   }"

definition resting_residual_released_accounts :: "IncomingPreview \<Rightarrow> OrderBook \<Rightarrow> nat option" where
  "resting_residual_released_accounts incoming b =
     (if \<exists>a \<in> dom (account_orders b). \<not> account_is_empty (the (account_orders b a)) \<and>
           account_orders_are_crossed b (the (account_orders b a)) incoming = None
      then None
      else Some (card {a \<in> dom (account_orders b). \<not> account_is_empty (the (account_orders b a)) \<and>
                   account_orders_are_crossed b (the (account_orders b a)) incoming = Some True}))"

end
