(* ===== verification/Handlers.thy ===== *)
theory Handlers
  imports Liquidity
begin

text \<open>
  The command handlers of the order book (\<open>src/src/matching.rs\<close>): each is an action on the book and the event
  trace of the command, in the order of the source, every assertion included.  Selections of orders are
  returned in the buffer of a lease; the message of an invariant violation is not modelled.
\<close>

section \<open>Reports\<close>

definition accepted :: "CommandId \<Rightarrow> ExecutionReport action" where
  "accepted command s =
     Some (Inr \<lparr>report_command_id = command, report_outcome = Accepted, report_events = trace_events (snd s),
                report_replayed = False\<rparr>, s)"

definition rejected :: "CommandId \<Rightarrow> TimestampNs \<Rightarrow> RejectReason \<Rightarrow> ExecutionReport action" where
  "rejected command time reason =
     and_do (push_event command time (CommandRejected reason)) (\<lambda>_ s.
       Some (Inr \<lparr>report_command_id = command, report_outcome = Rejected reason, report_events = trace_events (snd s),
                  report_replayed = False\<rparr>, s))"

text \<open>A check of the book that may return an error, and an assertion.\<close>

definition attempt :: "(OrderBook \<Rightarrow> MatchingError + 'a) \<Rightarrow> 'a action" where
  "attempt f s = Some (case f (fst s) of Inl e \<Rightarrow> (Inl e, s) | Inr a \<Rightarrow> (Inr a, s))"

definition require :: "(OrderBook \<Rightarrow> bool) \<Rightarrow> unit action" where
  "require p = observe (\<lambda>b. assert_that (p b))"

definition set_book :: "(OrderBook \<Rightarrow> OrderBook) \<Rightarrow> unit action" where
  "set_book f = update_book (\<lambda>b. Some (f b))"

section \<open>New orders\<close>

definition incoming_of :: "NewOrder \<Rightarrow> IncomingOrder" where
  "incoming_of command =
     \<lparr>incoming_order_id = new_order_id command, incoming_account_id = new_account_id command,
      incoming_side = new_side command, incoming_order_type = order_active (new_order_type command),
      incoming_leaves = new_quantity command, incoming_display = new_display command,
      incoming_self_trade_prevention = new_self_trade_prevention command\<rparr>"

definition stop_of :: "NewOrder \<Rightarrow> Price \<Rightarrow> StopActivation \<Rightarrow> nat \<Rightarrow> RestingOrder" where
  "stop_of command trigger_price activation sequence =
     \<lparr>order_id = new_order_id command, order_account_id = new_account_id command, order_side = new_side command,
      order_price = (case risk_price activation of None \<Rightarrow> trigger_price | Some price \<Rightarrow> price),
      leaves = new_quantity command, displayed = working_lots (new_display command) (new_quantity command),
      order_display = new_display command, order_self_trade_prevention = new_self_trade_prevention command,
      order_expires_at = tif_expires_at (new_time_in_force command),
      stop = Some \<lparr>stop_trigger_price = trigger_price, stop_activation = activation,
                   stop_time_in_force = new_time_in_force command, priority_sequence = sequence\<rparr>,
      previous = None, next_order = None, account_previous = None, account_next = None\<rparr>"

definition price_market_to_limit :: "NewOrder \<Rightarrow> NewOrder action" where
  "price_market_to_limit command =
     (if new_order_type command \<noteq> MarketToLimit then give command
      else
        and_do (observe (\<lambda>b. best_price (opposite (new_side command)) b)) (\<lambda>limit_price.
        and_do (push_event (new_command_id command) (new_received_at command)
                  (MarketToLimitPriced (new_order_id command) limit_price)) (\<lambda>_.
          give (command\<lparr>new_order_type := Limit limit_price\<rparr>))))"

definition cancel_unavailable_minimum :: "NewOrder \<Rightarrow> bool action" where
  "cancel_unavailable_minimum command =
     (case minimum_quantity (new_time_in_force command) of
        None \<Rightarrow> give False
      | Some least \<Rightarrow>
          and_do (observe (can_execute_minimum_quantity (preview_of command) least)) (\<lambda>available.
            if available then give False
            else
              and_do (push_cancelled (new_command_id command) (new_received_at command) (new_order_id command)
                        (new_quantity command) MinimumQuantityUnavailable) (\<lambda>_. give True)))"

definition apply_new :: "NewOrder \<Rightarrow> ExecutionReport action" where
  "apply_new command =
     (let c = new_command_id command; t = new_received_at command; x = new_order_id command in
      and_do (require (\<lambda>b. card (seen_order_ids b) < max_accepted_order_ids (limits b))) (\<lambda>_.
      and_do (require (\<lambda>b. x \<notin> seen_order_ids b)) (\<lambda>_.
      and_do (set_book (\<lambda>b. b\<lparr>seen_order_ids := insert x (seen_order_ids b)\<rparr>)) (\<lambda>_.
      and_do (observe (\<lambda>b. Some (next_sequence b))) (\<lambda>sequence.
      and_do (push_event c t (OrderAccepted x (new_quantity command) (new_display command))) (\<lambda>_.
      and_do (price_market_to_limit command) (\<lambda>command.
      case new_order_type command of
        Stop trigger_price activation \<Rightarrow>
          and_do (update_book (append_dormant_stop (stop_of command trigger_price activation sequence))) (\<lambda>_.
          and_do (push_event c t (StopOrderArmed x trigger_price activation sequence)) (\<lambda>_.
            accepted c))
      | _ \<Rightarrow>
          and_do (cancel_unavailable_minimum command) (\<lambda>cancelled.
            if cancelled then accepted c
            else and_do (execute_incoming (incoming_of command) (new_time_in_force command) c t) (\<lambda>_. accepted c)))))))))"

section \<open>Cancellation\<close>

definition apply_cancel :: "CancelOrder \<Rightarrow> ExecutionReport action" where
  "apply_cancel command =
     and_do (update (remove_order (cancel_order_id command))) (\<lambda>removed.
     and_do (observe (\<lambda>_. quantity (leaves removed))) (\<lambda>lots.
     and_do (push_event (cancel_command_id command) (cancel_received_at command)
               (OrderCancelled (cancel_order_id command) lots UserRequested)) (\<lambda>_.
       accepted (cancel_command_id command))))"

text \<open>Selections.\<close>

type_synonym InvariantViolation = unit

record PooledOrderSelection =
  leased :: bool
  selected_values :: "OrderId list"
  selected_capacity :: nat
  required :: nat

definition account_active_order_count :: "AccountId \<Rightarrow> MassCancelScope \<Rightarrow> OrderBook \<Rightarrow> nat" where
  "account_active_order_count account scope b =
     (case account_orders b account of
        None \<Rightarrow> 0
      | Some index \<Rightarrow>
          (case scope of
             ScopeAll \<Rightarrow> min (2 ^ 64 - 1) (account_order_count (buys index) + account_order_count (sells index))
           | ScopeSide side \<Rightarrow> account_order_count (account_side index side)))"

fun account_side_ids ::
    "OrderBook \<Rightarrow> AccountId \<Rightarrow> Side \<Rightarrow> nat \<Rightarrow> OrderId option \<Rightarrow> OrderId list \<Rightarrow> InvariantViolation + OrderId list"
where
  "account_side_ids b account side 0 current selected = (if current = None then Inr selected else Inl ())"
| "account_side_ids b account side (Suc n) current selected =
     (case current of
        None \<Rightarrow> Inl ()
      | Some x \<Rightarrow>
          (case orders b x of
             None \<Rightarrow> Inl ()
           | Some order \<Rightarrow>
               if order_account_id order \<noteq> account \<or> order_side order \<noteq> side then Inl ()
               else account_side_ids b account side n (account_next order) (selected @ [x])))"

definition append_account_side_ids ::
    "OrderBook \<Rightarrow> AccountId \<Rightarrow> AccountOrderIndex \<Rightarrow> Side \<Rightarrow> OrderId list \<Rightarrow> InvariantViolation + OrderId list"
where
  "append_account_side_ids b account index side selected =
     account_side_ids b account side (account_order_count (account_side index side))
       (account_head (account_side index side)) selected"

definition sorted_selection :: "OrderId list \<Rightarrow> nat \<Rightarrow> InvariantViolation + OrderId list" where
  "sorted_selection selected selected_count =
     and_then (ensure (length selected = selected_count) ()) (\<lambda>_.
     let selected = sort selected in
     and_then (ensure (\<not> windows_any (=) selected) ()) (\<lambda>_. Inr selected))"

definition select_account_orders :: "AccountId \<Rightarrow> MassCancelScope \<Rightarrow> nat \<Rightarrow> OrderBook \<Rightarrow> InvariantViolation + OrderId list" where
  "select_account_orders account scope capacity b =
     (case account_orders b account of
        None \<Rightarrow> Inr []
      | Some index \<Rightarrow>
          and_then (case scope of
              ScopeAll \<Rightarrow> ok_or (checked fits_usize (account_order_count (buys index) + account_order_count (sells index))) ()
            | ScopeSide side \<Rightarrow> Inr (account_order_count (account_side index side))) (\<lambda>selected_count.
          and_then (ensure (selected_count \<le> capacity) ()) (\<lambda>_.
          and_then (case scope of
              ScopeAll \<Rightarrow>
                and_then (append_account_side_ids b account index Buy []) (\<lambda>selected.
                  append_account_side_ids b account index Sell selected)
            | ScopeSide side \<Rightarrow> append_account_side_ids b account index side []) (\<lambda>selected.
            sorted_selection selected selected_count))))"

text \<open>The keys of the order table come in the order of its dense storage, which sorting removes.\<close>

definition select_all_orders :: "nat \<Rightarrow> OrderBook \<Rightarrow> InvariantViolation + OrderId list" where
  "select_all_orders capacity b =
     and_then (ensure (card (dom (orders b)) \<le> capacity) ()) (\<lambda>_. Inr (sorted_list_of_set (dom (orders b))))"

definition validate_selected_account_orders ::
    "AccountId \<Rightarrow> MassCancelScope \<Rightarrow> OrderId list \<Rightarrow> OrderBook \<Rightarrow> InvariantViolation + unit"
where
  "validate_selected_account_orders account scope selected b =
     and_then (ensure (length selected = account_active_order_count account scope b) ()) (\<lambda>_.
       ensure (\<not> windows_any (\<lambda>p q. q \<le> p) selected \<and>
               list_all (\<lambda>x. case orders b x of None \<Rightarrow> False
                              | Some order \<Rightarrow> order_account_id order = account \<and> scope_includes scope (order_side order)) selected) ())"

definition validate_selected_all_orders :: "OrderId list \<Rightarrow> OrderBook \<Rightarrow> InvariantViolation + unit" where
  "validate_selected_all_orders selected b =
     and_then (ensure (length selected = card (dom (orders b))) ()) (\<lambda>_.
       ensure (\<not> windows_any (\<lambda>p q. q \<le> p) selected \<and> list_all (\<lambda>x. orders b x \<noteq> None) selected) ())"

text \<open>An empty lease is filled now, a filled one is checked against the book.\<close>

definition resolve_selection ::
    "PooledOrderSelection \<Rightarrow> (nat \<Rightarrow> OrderBook \<Rightarrow> InvariantViolation + OrderId list) \<Rightarrow>
     (OrderId list \<Rightarrow> OrderBook \<Rightarrow> InvariantViolation + unit) \<Rightarrow> OrderId list action"
where
  "resolve_selection selection select validate =
     attempt (\<lambda>b. case (if selected_values selection = [] then select (selected_capacity selection) b
                        else and_then (validate (selected_values selection) b) (\<lambda>_. Inr (selected_values selection))) of
                    Inl _ \<Rightarrow> Inl InternalInvariantViolation
                  | Inr selected \<Rightarrow> Inr selected)"

definition detach_account_order_scope :: "AccountId \<Rightarrow> MassCancelScope \<Rightarrow> nat \<Rightarrow> OrderBook \<Rightarrow> OrderBook option" where
  "detach_account_order_scope account scope selected_count b =
     (if selected_count = 0 then Some b
      else case scope of
        ScopeAll \<Rightarrow> do {
          _ \<leftarrow> account_orders b account;
          Some (b\<lparr>account_orders := (account_orders b)(account := None)\<rparr>)
        }
      | ScopeSide side \<Rightarrow> do {
          index \<leftarrow> account_orders b account;
          let index = set_account_side side side_index_default index;
          Some (b\<lparr>account_orders :=
            (account_orders b)(account := if account_is_empty index then None else Some index)\<rparr>)
        })"

fun cancel_each ::
    "(OrderId \<Rightarrow> OrderBook \<Rightarrow> (RestingOrder \<times> OrderBook) option) \<Rightarrow> CommandId \<Rightarrow> TimestampNs \<Rightarrow> CancelReason \<Rightarrow>
     OrderId list \<Rightarrow> nat \<Rightarrow> nat action"
where
  "cancel_each remove command time reason [] total_lots = give total_lots"
| "cancel_each remove command time reason (x # xs) total_lots =
     and_do (update (remove x)) (\<lambda>removed.
     and_do (observe (\<lambda>_. checked fits_u128 (total_lots + leaves removed))) (\<lambda>total_lots.
     and_do (push_cancelled command time x (leaves removed) reason) (\<lambda>_.
       cancel_each remove command time reason xs total_lots)))"

definition cancel_account_orders ::
    "AccountId \<Rightarrow> MassCancelScope \<Rightarrow> CommandId \<Rightarrow> TimestampNs \<Rightarrow> CancelReason \<Rightarrow> PooledOrderSelection \<Rightarrow> (nat \<times> nat) action"
where
  "cancel_account_orders account scope command time reason selection =
     and_do (observe (\<lambda>b. Some (account_active_order_count account scope b))) (\<lambda>selected_count.
     and_do (attempt (\<lambda>_. ensure (selected_count \<le> selected_capacity selection) InternalInvariantViolation)) (\<lambda>_.
     and_do (attempt (\<lambda>_. ok_or (checked fits_u64 selected_count) SequenceExhausted)) (\<lambda>cancelled_order_count.
     and_do (resolve_selection selection (select_account_orders account scope)
               (validate_selected_account_orders account scope)) (\<lambda>selected.
     and_do (update_book (detach_account_order_scope account scope selected_count)) (\<lambda>_.
     and_do (cancel_each remove_order_preserving_account_index command time reason selected 0) (\<lambda>cancelled_lots.
       give (cancelled_order_count, cancelled_lots)))))))"

definition cancel_all_orders ::
    "CommandId \<Rightarrow> TimestampNs \<Rightarrow> CancelReason \<Rightarrow> PooledOrderSelection \<Rightarrow> (nat \<times> nat) action"
where
  "cancel_all_orders command time reason selection =
     and_do (observe (\<lambda>b. Some (card (dom (orders b))))) (\<lambda>selected_count.
     and_do (attempt (\<lambda>_. ensure (selected_count \<le> selected_capacity selection) InternalInvariantViolation)) (\<lambda>_.
     and_do (attempt (\<lambda>_. ok_or (checked fits_u64 selected_count) SequenceExhausted)) (\<lambda>cancelled_order_count.
     and_do (resolve_selection selection select_all_orders validate_selected_all_orders) (\<lambda>selected.
     and_do (cancel_each remove_order command time reason selected 0) (\<lambda>cancelled_lots.
       give (cancelled_order_count, cancelled_lots))))))"

definition apply_mass_cancel :: "MassCancel \<Rightarrow> PooledOrderSelection \<Rightarrow> ExecutionReport action" where
  "apply_mass_cancel command selection =
     (let c = mass_command_id command; t = mass_received_at command in
      and_do (cancel_account_orders (mass_account_id command) (mass_scope command) c t MassCancelled selection)
        (\<lambda>(cancelled_order_count, cancelled_lots).
      and_do (push_event c t (MassCancelCompleted (mass_account_id command) (mass_scope command)
                cancelled_order_count cancelled_lots)) (\<lambda>_. accepted c)))"

section \<open>Controls\<close>

definition raw_account_control :: "AccountId \<Rightarrow> OrderBook \<Rightarrow> AccountControlSnapshot" where
  "raw_account_control account b =
     (case account_controls b account of
        None \<Rightarrow> \<lparr>admission_state = Enabled, admission_revision = 0\<rparr> | Some snapshot \<Rightarrow> snapshot)"

definition apply_account_control :: "AccountControl \<Rightarrow> PooledOrderSelection option \<Rightarrow> ExecutionReport action" where
  "apply_account_control command selection =
     (let c = account_command_id command; t = account_received_at command; account = account_account_id command in
      and_do (observe (\<lambda>b. Some (raw_account_control account b))) (\<lambda>prior.
      and_do (require (\<lambda>_. admission_revision prior = account_expected_revision command)) (\<lambda>_.
      and_do (observe (\<lambda>_. checked fits_u64 (account_expected_revision command + 1))) (\<lambda>revision.
      and_do (case account_action command of
          BlockAndCancel \<Rightarrow>
            and_do (observe (\<lambda>_. selection)) (\<lambda>selection.
              cancel_account_orders account ScopeAll c t AccountControlled selection)
        | Enable \<Rightarrow> and_do (require (\<lambda>_. selection = None)) (\<lambda>_. give (0, 0))) (\<lambda>(cancelled_order_count, cancelled_lots).
      and_do (require (\<lambda>b. account_controls b account \<noteq> None \<or>
                card (dom (account_controls b)) < max_account_controls (limits b))) (\<lambda>_.
      and_do (require (\<lambda>b. account_controls b account = None \<or> account_controls b account = Some prior)) (\<lambda>_.
      and_do (set_book (\<lambda>b. b\<lparr>account_controls := (account_controls b)(account \<mapsto>
                \<lparr>admission_state = resulting_state (account_action command), admission_revision = revision\<rparr>)\<rparr>)) (\<lambda>_.
      and_do (push_event c t (AccountControlApplied account (admission_state prior)
                (resulting_state (account_action command)) revision cancelled_order_count cancelled_lots)) (\<lambda>_.
        accepted c)))))))))"

definition apply_trading_state_control :: "TradingStateControl \<Rightarrow> PooledOrderSelection option \<Rightarrow> ExecutionReport action" where
  "apply_trading_state_control command selection =
     (let c = state_command_id command; t = state_received_at command in
      and_do (observe (\<lambda>b. Some (trading_state b))) (\<lambda>prior.
      and_do (require (\<lambda>_. trading_revision prior = state_expected_revision command)) (\<lambda>_.
      and_do (observe (\<lambda>_. checked fits_u64 (state_expected_revision command + 1))) (\<lambda>revision.
      and_do (case state_action command of
          Transition \<Rightarrow> and_do (require (\<lambda>_. selection = None)) (\<lambda>_. give (0, 0))
        | TransitionAndCancel \<Rightarrow>
            and_do (observe (\<lambda>_. selection)) (\<lambda>selection.
              cancel_all_orders c t TradingStateControlled selection)) (\<lambda>(cancelled_order_count, cancelled_lots).
      and_do (set_book (\<lambda>b. b\<lparr>trading_state :=
                \<lparr>snapshot_trading_state = target_state command, trading_revision = revision\<rparr>\<rparr>)) (\<lambda>_.
      and_do (push_event c t (TradingStateControlApplied (snapshot_trading_state prior) (target_state command) revision
                cancelled_order_count cancelled_lots)) (\<lambda>_.
        accepted c)))))))"

section \<open>Expiry\<close>

definition expiring_prefix :: "TimestampNs \<Rightarrow> OrderBook \<Rightarrow> (ExpiryKey \<times> OrderId) list" where
  "expiring_prefix through b = takeWhile (\<lambda>(key, _). fst key \<le> through) (index_entries (expiries b))"

definition expiring_order_count :: "TimestampNs \<Rightarrow> OrderBook \<Rightarrow> nat" where
  "expiring_order_count through b = length (expiring_prefix through b)"

definition active_expiry_key :: "OrderId \<Rightarrow> OrderBook \<Rightarrow> InvariantViolation + ExpiryKey" where
  "active_expiry_key x b =
     and_then (ok_or (orders b x) ()) (\<lambda>order.
     and_then (ensure (order_id order = x) ()) (\<lambda>_.
     and_then (ok_or (order_expires_at order) ()) (\<lambda>expires_at.
     and_then (ensure (index_get (expiries b) (expires_at, x) = Some x) ()) (\<lambda>_.
       Inr (expires_at, x)))))"

fun select_expiring :: "OrderBook \<Rightarrow> nat \<Rightarrow> (ExpiryKey \<times> OrderId) list \<Rightarrow> OrderId list \<Rightarrow> InvariantViolation + OrderId list" where
  "select_expiring b capacity [] selected = Inr selected"
| "select_expiring b capacity ((key, x) # rest) selected =
     and_then (ensure (length selected \<noteq> capacity) ()) (\<lambda>_.
     and_then (active_expiry_key x b) (\<lambda>actual_key.
     and_then (ensure (key = actual_key) ()) (\<lambda>_.
       select_expiring b capacity rest (selected @ [x]))))"

definition select_expiring_orders :: "TimestampNs \<Rightarrow> nat \<Rightarrow> OrderBook \<Rightarrow> InvariantViolation + OrderId list" where
  "select_expiring_orders through capacity b = select_expiring b capacity (expiring_prefix through b) []"

fun validate_expiring :: "OrderBook \<Rightarrow> TimestampNs \<Rightarrow> ExpiryKey option \<Rightarrow> OrderId list \<Rightarrow> InvariantViolation + unit" where
  "validate_expiring b through previous_key [] = Inr ()"
| "validate_expiring b through previous_key (x # rest) =
     and_then (active_expiry_key x b) (\<lambda>key.
     and_then (ensure (fst key \<le> through) ()) (\<lambda>_.
     and_then (ensure (case previous_key of None \<Rightarrow> True | Some prior \<Rightarrow> prior < key) ()) (\<lambda>_.
       validate_expiring b through (Some key) rest)))"

definition validate_selected_expiring_orders :: "TimestampNs \<Rightarrow> nat \<Rightarrow> OrderId list \<Rightarrow> OrderBook \<Rightarrow> InvariantViolation + unit" where
  "validate_selected_expiring_orders through expected_count selected b =
     and_then (ensure (length selected = expected_count) ()) (\<lambda>_. validate_expiring b through None selected)"

definition apply_expiry_sweep :: "ExpirySweep \<Rightarrow> PooledOrderSelection \<Rightarrow> ExecutionReport action" where
  "apply_expiry_sweep command selection =
     (let c = expiry_command_id command; t = expiry_received_at command; through = expiry_through command in
      and_do (observe (\<lambda>b. Some (expiry_watermark b))) (\<lambda>previous_watermark.
      and_do (\<lambda>s. Some (ok_or (checked_sub (trace_maximum (snd s)) 1) InternalInvariantViolation, s)) (\<lambda>selected_count.
      and_do (attempt (\<lambda>_. ensure (selected_count \<le> selected_capacity selection) InternalInvariantViolation)) (\<lambda>_.
      and_do (resolve_selection selection
                (\<lambda>capacity b. and_then (select_expiring_orders through capacity b) (\<lambda>selected.
                   and_then (ensure (length selected = selected_count) ()) (\<lambda>_. Inr selected)))
                (validate_selected_expiring_orders through selected_count)) (\<lambda>selected.
      and_do (attempt (\<lambda>_. ok_or (checked fits_u64 selected_count) SequenceExhausted)) (\<lambda>expired_order_count.
      and_do (cancel_each remove_order c t Expired selected 0) (\<lambda>expired_lots.
      and_do (set_book (\<lambda>b. b\<lparr>expiry_watermark := Some through\<rparr>)) (\<lambda>_.
      and_do (push_event c t (ExpirySweepCompleted previous_watermark through expired_order_count expired_lots)) (\<lambda>_.
        accepted c)))))))))"

end
