(* ===== verification/StopHandlers.thy ===== *)
theory StopHandlers
  imports Handlers
begin

text \<open>
  Dormant stops and replacement (\<open>src/src/matching.rs\<close>): the eligible prefix of the trigger indexes, the trigger
  sweep that turns stops into incoming orders, and the replacement of resting orders and of dormant stops.
\<close>

section \<open>Eligible stops\<close>

definition eligible_buys :: "Price \<Rightarrow> OrderBook \<Rightarrow> (BuyStopKey \<times> OrderId) list" where
  "eligible_buys price b = takeWhile (\<lambda>(key, _). fst key \<le> price) (index_entries (buy_stops b))"

definition eligible_sells :: "Price \<Rightarrow> OrderBook \<Rightarrow> (SellStopKey \<times> OrderId) list" where
  "eligible_sells price b = takeWhile (\<lambda>(key, _). price \<le> unreverse (fst key)) (index_entries (sell_stops b))"

definition eligible_stop_count :: "Price \<Rightarrow> OrderBook \<Rightarrow> nat" where
  "eligible_stop_count price b = min (2 ^ 64 - 1) (length (eligible_buys price b) + length (eligible_sells price b))"

text \<open>The orders \<open>for_each_eligible_stop\<close> visits, in its order.\<close>

definition eligible_stops :: "Price \<Rightarrow> nat \<Rightarrow> OrderBook \<Rightarrow> OrderId list" where
  "eligible_stops price limit b =
     (let buy_count = length (eligible_buys price b)
      in if buy_count \<noteq> 0 then map snd (take (min buy_count limit) (index_entries (buy_stops b)))
         else map snd (take limit (eligible_sells price b)))"

record DormantStopSnapshot =
  snapshot_order_id :: OrderId
  snapshot_account_id :: AccountId
  snapshot_side :: Side
  snapshot_leaves :: nat
  snapshot_display :: OrderDisplay
  snapshot_trigger_price :: Price
  snapshot_activation :: StopActivation
  snapshot_time_in_force :: TimeInForce
  snapshot_self_trade_prevention :: SelfTradePrevention
  snapshot_priority_sequence :: nat
  snapshot_expires_at :: "TimestampNs option"

definition stop_snapshot :: "RestingOrder \<Rightarrow> InvariantViolation + DormantStopSnapshot option" where
  "stop_snapshot order =
     (case stop order of
        None \<Rightarrow> Inr None
      | Some s \<Rightarrow>
          and_then (ensure (leaves order \<noteq> 0) ()) (\<lambda>_.
          and_then (ensure (displayed order = working_lots (order_display order) (leaves order)) ()) (\<lambda>_.
          and_then (ensure (order_price order =
              (case risk_price (stop_activation s) of None \<Rightarrow> stop_trigger_price s | Some price \<Rightarrow> price)) ()) (\<lambda>_.
          and_then (ensure (previous order = None \<and> next_order order = None) ()) (\<lambda>_.
          and_then (ensure (priority_sequence s \<noteq> 0) ()) (\<lambda>_.
          and_then (ensure (tif_expires_at (stop_time_in_force s) = order_expires_at order) ()) (\<lambda>_.
            Inr (Some \<lparr>snapshot_order_id = order_id order, snapshot_account_id = order_account_id order,
              snapshot_side = order_side order, snapshot_leaves = leaves order, snapshot_display = order_display order,
              snapshot_trigger_price = stop_trigger_price s, snapshot_activation = stop_activation s,
              snapshot_time_in_force = stop_time_in_force s,
              snapshot_self_trade_prevention = order_self_trade_prevention order,
              snapshot_priority_sequence = priority_sequence s, snapshot_expires_at = order_expires_at order\<rparr>))))))))"

definition indexed_dormant_stop :: "OrderId \<Rightarrow> OrderBook \<Rightarrow> InvariantViolation + DormantStopSnapshot" where
  "indexed_dormant_stop x b =
     and_then (ok_or (orders b x) ()) (\<lambda>order.
     and_then (ensure (order_id order = x) ()) (\<lambda>_.
     and_then (stop_snapshot order) (\<lambda>found.
     and_then (ok_or found ()) (\<lambda>snapshot.
     and_then (ensure ((case snapshot_side snapshot of
         Buy \<Rightarrow> index_get (buy_stops b) (snapshot_trigger_price snapshot, snapshot_priority_sequence snapshot, x)
       | Sell \<Rightarrow> index_get (sell_stops b)
           (Reverse (snapshot_trigger_price snapshot), snapshot_priority_sequence snapshot, x)) = Some x) ()) (\<lambda>_.
       Inr snapshot)))))"

fun all_dormant :: "OrderBook \<Rightarrow> OrderId list \<Rightarrow> InvariantViolation + unit" where
  "all_dormant b [] = Inr ()"
| "all_dormant b (x # xs) = and_then (indexed_dormant_stop x b) (\<lambda>_. all_dormant b xs)"

definition select_triggered_orders :: "Price \<Rightarrow> nat \<Rightarrow> nat \<Rightarrow> OrderBook \<Rightarrow> InvariantViolation + OrderId list" where
  "select_triggered_orders price limit capacity b =
     and_then (ensure (limit \<le> capacity) ()) (\<lambda>_.
     and_then (all_dormant b (eligible_stops price limit b)) (\<lambda>_.
     and_then (ensure (length (eligible_stops price limit b) = limit) ()) (\<lambda>_.
       Inr (eligible_stops price limit b))))"

text \<open>The selection is compared with the canonical prefix, order by order.\<close>

fun validate_triggered :: "OrderBook \<Rightarrow> Price \<Rightarrow> OrderId list \<Rightarrow> OrderId list \<Rightarrow> InvariantViolation + unit" where
  "validate_triggered b price [] selected = Inr ()"
| "validate_triggered b price (expected # rest) [] = Inl ()"
| "validate_triggered b price (expected # rest) (x # selected) =
     and_then (ensure (x = expected) ()) (\<lambda>_.
     and_then (indexed_dormant_stop x b) (\<lambda>snapshot.
     and_then (ensure (case snapshot_side snapshot of
         Buy \<Rightarrow> snapshot_trigger_price snapshot \<le> price
       | Sell \<Rightarrow> price \<le> snapshot_trigger_price snapshot) ()) (\<lambda>_.
       validate_triggered b price rest selected)))"

definition validate_selected_triggered_orders :: "Price \<Rightarrow> nat \<Rightarrow> OrderId list \<Rightarrow> OrderBook \<Rightarrow> InvariantViolation + unit" where
  "validate_selected_triggered_orders price expected_count selected b =
     and_then (ensure (length selected = expected_count) ()) (\<lambda>_.
     and_then (validate_triggered b price (eligible_stops price expected_count b) selected) (\<lambda>_.
       ensure (length (eligible_stops price expected_count b) = expected_count) ()))"

section \<open>The trigger sweep\<close>

definition preview_of_incoming :: "IncomingOrder \<Rightarrow> IncomingPreview" where
  "preview_of_incoming incoming =
     \<lparr>preview_account_id = incoming_account_id incoming, preview_side = incoming_side incoming,
      preview_order_type = incoming_order_type incoming, preview_leaves = incoming_leaves incoming,
      preview_self_trade_prevention = incoming_self_trade_prevention incoming\<rparr>"

definition triggered_incoming :: "OrderId \<Rightarrow> RestingOrder \<Rightarrow> DormantStopState \<Rightarrow> IncomingOrder" where
  "triggered_incoming x removed s =
     \<lparr>incoming_order_id = x, incoming_account_id = order_account_id removed, incoming_side = order_side removed,
      incoming_order_type = activation_order_type (stop_activation s), incoming_leaves = leaves removed,
      incoming_display = order_display removed,
      incoming_self_trade_prevention = order_self_trade_prevention removed\<rparr>"

definition unavailable_reason :: "IncomingOrder \<Rightarrow> TimeInForce \<Rightarrow> OrderBook \<Rightarrow> CancelReason option option" where
  "unavailable_reason incoming time_in_force b =
     (case time_in_force of
        FillOrKill \<Rightarrow>
          map_option (\<lambda>possible. if possible then None else Some TriggeredFokUnfilled)
            (can_execute_quantity (preview_of_incoming incoming) (incoming_leaves incoming) b)
      | ImmediateOrCancelWithMinimum least \<Rightarrow>
          map_option (\<lambda>possible. if possible then None else Some MinimumQuantityUnavailable)
            (can_execute_minimum_quantity (preview_of_incoming incoming) least b)
      | _ \<Rightarrow> Some None)"

definition triggered_residual_has_capacity :: "IncomingOrder \<Rightarrow> TimeInForce \<Rightarrow> OrderBook \<Rightarrow> bool option" where
  "triggered_residual_has_capacity incoming time_in_force b =
     (case incoming_order_type incoming of
        Limit price \<Rightarrow>
          (if \<not> may_rest time_in_force \<or> levels_get (levels b (incoming_side incoming)) price \<noteq> None then Some True
           else if levels_len (levels b (incoming_side incoming)) < max_price_levels_per_side (limits b) then Some True
           else map_option (\<lambda>removed. removed = None)
                  (resting_residual_removed_orders (preview_of_incoming incoming) b))
      | _ \<Rightarrow> Some True)"

definition trigger_order :: "StopTriggerSweep \<Rightarrow> OrderId \<Rightarrow> unit action" where
  "trigger_order command x =
     (let c = trigger_command_id command; t = trigger_received_at command in
      and_do (update (remove_order x)) (\<lambda>removed.
      and_do (observe (\<lambda>_. stop removed)) (\<lambda>s.
      and_do (push_event c t (StopOrderTriggered x (stop_trigger_price s) (trigger_reference command) (priority_sequence s))) (\<lambda>_.
      let incoming = triggered_incoming x removed s in
      and_do (observe (unavailable_reason incoming (stop_time_in_force s))) (\<lambda>unavailable.
      case unavailable of
        Some reason \<Rightarrow> push_cancelled c t x (leaves removed) reason
      | None \<Rightarrow>
          and_do (observe (\<lambda>b. if stop_time_in_force s = PostOnly
                                then would_cross (order_side removed) (incoming_order_type incoming) b else Some False)) (\<lambda>crossing.
          if crossing then push_cancelled c t x (leaves removed) TriggeredPostOnlyWouldCross
          else
            and_do (observe (triggered_residual_has_capacity incoming (stop_time_in_force s))) (\<lambda>fits.
            if \<not> fits then push_cancelled c t x (leaves removed) TriggeredCapacityUnavailable
            else execute_incoming incoming (stop_time_in_force s) c t)))))))"

fun trigger_orders :: "StopTriggerSweep \<Rightarrow> OrderId list \<Rightarrow> unit action" where
  "trigger_orders command [] = give ()"
| "trigger_orders command (x # xs) = and_do (trigger_order command x) (\<lambda>_. trigger_orders command xs)"

definition apply_stop_trigger_sweep :: "StopTriggerSweep \<Rightarrow> PooledOrderSelection \<Rightarrow> ExecutionReport action" where
  "apply_stop_trigger_sweep command selection =
     (let c = trigger_command_id command; t = trigger_received_at command;
          price = reference_price (trigger_reference command); selected_count = required selection in
      and_do (observe (\<lambda>b. Some (stop_reference b))) (\<lambda>previous_reference.
      and_do (attempt (\<lambda>b. ensure (min (eligible_stop_count price b) (maximum_orders command) = selected_count)
                InternalInvariantViolation)) (\<lambda>_.
      and_do (attempt (\<lambda>_. ensure (selected_count \<le> selected_capacity selection) InternalInvariantViolation)) (\<lambda>_.
      and_do (resolve_selection selection (select_triggered_orders price selected_count)
                (validate_selected_triggered_orders price selected_count)) (\<lambda>selected.
      and_do (trigger_orders command selected) (\<lambda>_.
      and_do (set_book (\<lambda>b. b\<lparr>stop_reference := Some (trigger_reference command)\<rparr>)) (\<lambda>_.
      and_do (observe (\<lambda>b. Some (eligible_stop_count price b))) (\<lambda>left.
      and_do (attempt (\<lambda>_. ok_or (checked fits_u64 selected_count) SequenceExhausted)) (\<lambda>triggered_order_count.
      and_do (attempt (\<lambda>_. ok_or (checked fits_u64 left) SequenceExhausted)) (\<lambda>remaining_eligible_order_count.
      and_do (push_event c t (StopTriggerSweepCompleted previous_reference (trigger_reference command)
                triggered_order_count remaining_eligible_order_count)) (\<lambda>_.
        accepted c)))))))))))"

section \<open>Replacement\<close>

definition keeps_priority :: "ReplaceOrder \<Rightarrow> RestingOrder \<Rightarrow> bool" where
  "keeps_priority command old \<longleftrightarrow>
     order_price old = replace_price command \<and> replace_quantity command \<le> leaves old \<and>
     order_display old = replace_display command"

definition push_replaced :: "ReplaceOrder \<Rightarrow> RestingOrder \<Rightarrow> unit action" where
  "push_replaced command old =
     and_do (observe (\<lambda>_. quantity (leaves old))) (\<lambda>old_quantity.
       push_event (replace_command_id command) (replace_received_at command)
         (OrderReplaced (replace_order_id command) (order_price old) (replace_price command) old_quantity
           (replace_quantity command) (order_display old) (replace_display command) (keeps_priority command old)))"

definition level_with_smaller :: "nat \<Rightarrow> nat \<Rightarrow> nat \<Rightarrow> PriceLevel \<Rightarrow> (unit \<times> PriceLevel) option" where
  "level_with_smaller visible_reduction old_units new_units level = do {
     lots \<leftarrow> checked_sub (total_quantity level) visible_reduction;
     units \<leftarrow> checked_sub (level_event_units level) old_units;
     units \<leftarrow> checked fits_u128 (units + new_units);
     Some ((), level\<lparr>total_quantity := lots, level_event_units := units\<rparr>)
   }"

definition replace_in_place :: "ReplaceOrder \<Rightarrow> RestingOrder \<Rightarrow> OrderBook \<Rightarrow> OrderBook option" where
  "replace_in_place command old b = do {
     let new_displayed = min (displayed old) (replace_quantity command);
     let visible_reduction = visible_lots (order_display old) (displayed old - new_displayed);
     let new = old\<lparr>leaves := replace_quantity command, displayed := new_displayed\<rparr>;
     old_units \<leftarrow> remaining_event_units old;
     new_units \<leftarrow> remaining_event_units new;
     (_, b) \<leftarrow> update_level (order_side old) (order_price old)
       (level_with_smaller visible_reduction old_units new_units) b;
     index \<leftarrow> account_orders b (order_account_id old);
     index \<leftarrow> replace_event_units index (order_side old) old_units new_units;
     let b = b\<lparr>account_orders := (account_orders b)(order_account_id old \<mapsto> index)\<rparr>;
     modify_order (replace_order_id command) (\<lambda>_. new) b
   }"

definition replacing_incoming :: "ReplaceOrder \<Rightarrow> RestingOrder \<Rightarrow> IncomingOrder" where
  "replacing_incoming command old =
     \<lparr>incoming_order_id = replace_order_id command, incoming_account_id = order_account_id old,
      incoming_side = order_side old, incoming_order_type = Limit (replace_price command),
      incoming_leaves = replace_quantity command, incoming_display = replace_display command,
      incoming_self_trade_prevention = order_self_trade_prevention old\<rparr>"

definition replaced_stop :: "ReplaceOrder \<Rightarrow> RestingOrder \<Rightarrow> DormantStopState \<Rightarrow> nat \<Rightarrow> RestingOrder" where
  "replaced_stop command old s sequence =
     old\<lparr>order_price := replace_price command, leaves := replace_quantity command,
         displayed := working_lots (replace_display command) (replace_quantity command),
         order_display := replace_display command,
         stop := Some (s\<lparr>stop_activation := StopLimit (replace_price command), priority_sequence := sequence\<rparr>)\<rparr>"

definition reindex_stop :: "RestingOrder \<Rightarrow> DormantStopState \<Rightarrow> nat \<Rightarrow> OrderBook \<Rightarrow> OrderBook option" where
  "reindex_stop old s sequence b = do {
     (_, b) \<leftarrow> remove_stop old s (order_id old) b;
     insert_stop old (s\<lparr>priority_sequence := sequence\<rparr>) b
   }"

definition apply_replace_dormant_stop :: "ReplaceOrder \<Rightarrow> RestingOrder \<Rightarrow> ExecutionReport action" where
  "apply_replace_dormant_stop command old =
     and_do (observe (\<lambda>_. stop old)) (\<lambda>s.
     and_do (observe (\<lambda>b. Some (next_sequence b))) (\<lambda>replacement_sequence.
     and_do (push_replaced command old) (\<lambda>_.
     let sequence = (if keeps_priority command old then priority_sequence s else replacement_sequence) in
     and_do (if keeps_priority command old then give () else update_book (reindex_stop old s sequence)) (\<lambda>_.
     and_do (update_book (modify_order (replace_order_id command) (\<lambda>_. replaced_stop command old s sequence))) (\<lambda>_.
       accepted (replace_command_id command))))))"

definition apply_replace :: "ReplaceOrder \<Rightarrow> ExecutionReport action" where
  "apply_replace command =
     (let c = replace_command_id command; t = replace_received_at command in
      and_do (observe (\<lambda>b. orders b (replace_order_id command))) (\<lambda>old.
      if is_dormant_stop old then apply_replace_dormant_stop command old
      else
        and_do (push_replaced command old) (\<lambda>_.
        and_do (if keeps_priority command old then update_book (replace_in_place command old)
                else
                  and_do (update (remove_order (replace_order_id command))) (\<lambda>_.
                    execute_incoming (replacing_incoming command old)
                      (case order_expires_at old of None \<Rightarrow> GoodTilCancelled | Some t \<Rightarrow> GoodTilTimestamp t) c t)) (\<lambda>_.
          accepted c))))"

end
