(* ===== verification/Engine.thy ===== *)
theory Engine
  imports StopHandlers
begin

text \<open>
  The submission of commands (\<open>src/src/matching.rs\<close>): the business rules, the capacity checks, the bound on a
  report, preparation, commitment and the idempotency cache.
\<close>

section \<open>Business rules: shared checks\<close>

definition reject_if :: "bool \<Rightarrow> 'e \<Rightarrow> ('e + unit) option" where
  "reject_if c reason = Some (if c then Inl reason else Inr ())"

definition admitted :: "AdmissionError + unit \<Rightarrow> (RejectReason + unit) option" where
  "admitted r = Some (map_sum admission_reject id r)"

section \<open>Business rules\<close>

definition expired_for :: "TimestampNs \<Rightarrow> TimestampNs option \<Rightarrow> TimestampNs option \<Rightarrow> bool" where
  "expired_for received watermark expires_at =
     (case expires_at of None \<Rightarrow> False
      | Some e \<Rightarrow> e \<le> received \<or> (case watermark of None \<Rightarrow> False | Some w \<Rightarrow> e \<le> w))"

definition check_minimum :: "NewOrder \<Rightarrow> OrderBook \<Rightarrow> (RejectReason + unit) option" where
  "check_minimum command b =
     (case minimum_quantity (new_time_in_force command) of
        None \<Rightarrow> Some (Inr ())
      | Some least \<Rightarrow>
          (let step = increment (def_quantity (book_definition b))
           in if new_quantity command < least then Some (Inl InvalidMinimumQuantity)
              else if step = 0 then None
              else reject_if (least mod step \<noteq> 0) InvalidMinimumQuantity))"

definition check_stop :: "NewOrder \<Rightarrow> OrderBook \<Rightarrow> (RejectReason + unit) option" where
  "check_stop command b =
     (case order_stop (new_order_type command) of
        None \<Rightarrow> Some (Inr ())
      | Some (trigger_price, activation) \<Rightarrow>
          (case stop_reference b of
             None \<Rightarrow> Some (Inl StopReferenceUnavailable)
           | Some reference \<Rightarrow>
               and_check (reject_if (case new_side command of
                   Buy \<Rightarrow> trigger_price \<le> reference_price reference
                 | Sell \<Rightarrow> reference_price reference \<le> trigger_price) StopAlreadyTriggered) (\<lambda>_.
                 reject_if (activation = StopMarket \<and> new_time_in_force command = PostOnly) StopMarketCannotPost)))"

definition keeps_resting :: "TimeInForce \<Rightarrow> bool" where
  "keeps_resting t = (case t of GoodTilCancelled \<Rightarrow> True | GoodTilTimestamp _ \<Rightarrow> True | _ \<Rightarrow> False)"

definition active_type :: "NewOrder \<Rightarrow> OrderBook \<Rightarrow> (RejectReason + OrderType) option" where
  "active_type command b =
     (case new_order_type command of
        MarketToLimit \<Rightarrow>
          (if \<not> keeps_resting (new_time_in_force command) then Some (Inl MarketToLimitRequiresRestingLifetime)
           else case best_price (opposite (new_side command)) b of
                  None \<Rightarrow> Some (Inl MarketToLimitBookEmpty)
                | Some price \<Rightarrow> Some (Inr (Limit price)))
      | t \<Rightarrow> Some (Inr (order_active t)))"

definition is_limit :: "OrderType \<Rightarrow> bool" where
  "is_limit t = (case t of Limit _ \<Rightarrow> True | _ \<Rightarrow> False)"

definition check_active :: "NewOrder \<Rightarrow> OrderType \<Rightarrow> OrderBook \<Rightarrow> (RejectReason + unit) option" where
  "check_active command active b =
     (let t = new_time_in_force command in
      and_check (reject_if (is_reserve (new_display command) \<and> \<not> (is_limit active \<and> may_rest t))
                  ReserveOrderCannotBeImmediate) (\<lambda>_.
      and_check (reject_if (is_hidden (new_display command) \<and> \<not> (is_limit active \<and> may_rest t))
                  HiddenOrderCannotBeImmediate) (\<lambda>_.
      if order_stop (new_order_type command) \<noteq> None then Some (Inr ())
      else
        and_check (reject_if (active = Market \<and> keeps_resting t) MarketOrderCannotRest) (\<lambda>_.
        and_check (reject_if (active = Market \<and> t = PostOnly) MarketOrderCannotPost) (\<lambda>_.
        and_check (if t = PostOnly
                   then (case would_cross (new_side command) active b of None \<Rightarrow> None
                         | Some crossing \<Rightarrow> reject_if crossing PostOnlyWouldCross)
                   else Some (Inr ())) (\<lambda>_.
          if t = FillOrKill
          then (case can_fill command b of None \<Rightarrow> None
                | Some possible \<Rightarrow> reject_if (\<not> possible) InsufficientLiquidity)
          else Some (Inr ())))))))"

definition check_new :: "NewOrder \<Rightarrow> OrderBook \<Rightarrow> (RejectReason + unit) option" where
  "check_new command b =
     and_check (admitted (admit_in_state (book_definition b) (New command) (snapshot_trading_state (trading_state b)))) (\<lambda>_.
     and_check (reject_if (new_order_id command \<in> seen_order_ids b) DuplicateOrder) (\<lambda>_.
     and_check (reject_if (admission_state (raw_account_control (new_account_id command) b) = Blocked)
                 AccountAdmissionBlocked) (\<lambda>_.
     and_check (check_minimum command b) (\<lambda>_.
     and_check (reject_if (expired_for (new_received_at command) (expiry_watermark b)
                 (tif_expires_at (new_time_in_force command))) OrderAlreadyExpired) (\<lambda>_.
     and_check (check_stop command b) (\<lambda>_.
     and_check (active_type command b) (\<lambda>active.
       check_active command active b)))))))"

definition owned_order :: "OrderId \<Rightarrow> AccountId \<Rightarrow> OrderBook \<Rightarrow> (RejectReason + RestingOrder) option" where
  "owned_order x account b =
     (case orders b x of
        None \<Rightarrow> Some (Inl UnknownOrder)
      | Some order \<Rightarrow> Some (if order_account_id order \<noteq> account then Inl NotOrderOwner else Inr order))"

definition check_replace :: "ReplaceOrder \<Rightarrow> OrderBook \<Rightarrow> (RejectReason + unit) option" where
  "check_replace command b =
     and_check (admitted (admit_in_state (book_definition b) (Replace command) (snapshot_trading_state (trading_state b)))) (\<lambda>_.
     and_check (owned_order (replace_order_id command) (replace_account_id command) b) (\<lambda>order.
     and_check (reject_if (admission_state (raw_account_control (replace_account_id command) b) = Blocked)
                 AccountAdmissionBlocked) (\<lambda>_.
     and_check (reject_if (\<not> same_mode (order_display order) (replace_display command))
                 OrderDisplayModeChangeNotAllowed) (\<lambda>_.
     and_check (reject_if (case stop order of None \<Rightarrow> False | Some s \<Rightarrow> stop_activation s = StopMarket)
                 StopMarketCannotBeReplaced) (\<lambda>_.
       reject_if (case stop order of None \<Rightarrow> False
                  | Some s \<Rightarrow> (case minimum_quantity (stop_time_in_force s) of None \<Rightarrow> False
                              | Some least \<Rightarrow> replace_quantity command < least)) InvalidMinimumQuantity)))))"

definition validate_stop_reference_transition ::
    "StopReference option \<Rightarrow> bool \<Rightarrow> StopReference \<Rightarrow> RejectReason + unit"
where
  "validate_stop_reference_transition present has_backlog following =
     (case present of
        None \<Rightarrow> Inr ()
      | Some now \<Rightarrow>
          (let c = reference_cursor now; n = reference_cursor following in
           if n = c then
             (if reference_price following \<noteq> reference_price now then Inl StopReferenceCursorCollision
              else if has_backlog then Inr () else Inl StopReferenceSequenceDiscontinuity)
           else if has_backlog then Inl StopTriggerBacklog
           else if source_id n \<noteq> source_id c then Inl StopReferenceSourceMismatch
           else if source_version n = source_version c then
             (if checked fits_u64 (source_sequence c + 1) = Some (source_sequence n) then Inr ()
              else Inl StopReferenceSequenceDiscontinuity)
           else if checked fits_u64 (source_version c + 1) \<noteq> Some (source_version n)
             then Inl StopReferenceVersionDiscontinuity
           else if source_sequence n \<noteq> 1 then Inl StopReferenceSequenceDiscontinuity
           else Inr ()))"

definition check_stop_trigger :: "StopTriggerSweep \<Rightarrow> OrderBook \<Rightarrow> (RejectReason + unit) option" where
  "check_stop_trigger command b =
     and_check (admitted (admit (book_definition b) (CommandStopTriggerSweep command))) (\<lambda>_.
     and_check (reject_if (maximum_orders command = 0) StopTriggerBatchEmpty) (\<lambda>_.
     and_check (reject_if (max_active_orders (limits b) < maximum_orders command)
                 StopTriggerBatchExceedsActiveOrderCapacity) (\<lambda>_.
     and_check (Some (validate_stop_reference_transition (stop_reference b)
                 (case stop_reference b of None \<Rightarrow> False
                  | Some r \<Rightarrow> eligible_stop_count (reference_price r) b \<noteq> 0) (trigger_reference command))) (\<lambda>_.
       reject_if (snapshot_trading_state (trading_state b) \<noteq> Open \<and>
                  eligible_stop_count (reference_price (trigger_reference command)) b \<noteq> 0) InstrumentNotOpen))))"

definition check_account_control :: "AccountControl \<Rightarrow> OrderBook \<Rightarrow> (RejectReason + unit) option" where
  "check_account_control command b =
     and_check (admitted (admit (book_definition b) (CommandAccountControl command))) (\<lambda>_.
     and_check (reject_if (admission_revision (raw_account_control (account_account_id command) b) \<noteq>
                 account_expected_revision command) AccountControlRevisionMismatch) (\<lambda>_.
       reject_if (checked fits_u64 (account_expected_revision command + 1) = None) AccountControlRevisionExhausted))"

definition check_trading_state_control :: "TradingStateControl \<Rightarrow> OrderBook \<Rightarrow> (RejectReason + unit) option" where
  "check_trading_state_control command b =
     and_check (admitted (admit (book_definition b) (CommandTradingStateControl command))) (\<lambda>_.
     and_check (reject_if (trading_revision (trading_state b) \<noteq> state_expected_revision command)
                 TradingStateControlRevisionMismatch) (\<lambda>_.
     and_check (reject_if (checked fits_u64 (state_expected_revision command + 1) = None)
                 TradingStateControlRevisionExhausted) (\<lambda>_.
     and_check (reject_if (snapshot_trading_state (trading_state b) = target_state command) TradingStateUnchanged) (\<lambda>_.
       reject_if (state_action command = TransitionAndCancel \<and> target_state command = Open)
         TradingStateControlCannotCancelIntoOpen))))"

definition check_expiry :: "ExpirySweep \<Rightarrow> OrderBook \<Rightarrow> (RejectReason + unit) option" where
  "check_expiry command b =
     and_check (admitted (admit (book_definition b) (CommandExpirySweep command))) (\<lambda>_.
     and_check (reject_if (expiry_received_at command < expiry_through command) ExpiryHorizonAfterCommandTime) (\<lambda>_.
       reject_if (case expiry_watermark b of None \<Rightarrow> False | Some w \<Rightarrow> expiry_through command < w)
         ExpiryWatermarkRegression))"

definition check_cancel :: "CancelOrder \<Rightarrow> OrderBook \<Rightarrow> (RejectReason + unit) option" where
  "check_cancel command b =
     and_check (admitted (admit (book_definition b) (Cancel command))) (\<lambda>_.
     and_check (owned_order (cancel_order_id command) (cancel_account_id command) b) (\<lambda>_. Some (Inr ())))"

fun check_business_rules :: "Command \<Rightarrow> OrderBook \<Rightarrow> (RejectReason + unit) option" where
  "check_business_rules (New command) b = check_new command b"
| "check_business_rules (Cancel command) b = check_cancel command b"
| "check_business_rules (Replace command) b = check_replace command b"
| "check_business_rules (CommandMassCancel command) b = admitted (admit (book_definition b) (CommandMassCancel command))"
| "check_business_rules (CommandAccountControl command) b = check_account_control command b"
| "check_business_rules (CommandTradingStateControl command) b = check_trading_state_control command b"
| "check_business_rules (CommandExpirySweep command) b = check_expiry command b"
| "check_business_rules (CommandStopTriggerSweep command) b = check_stop_trigger command b"

text \<open>\<open>check_business_rules(..).err()\<close>.\<close>

definition core_rejection_of :: "Command \<Rightarrow> OrderBook \<Rightarrow> RejectReason option option" where
  "core_rejection_of command b =
     map_option (\<lambda>r. case r of Inl reason \<Rightarrow> Some reason | Inr _ \<Rightarrow> None) (check_business_rules command b)"

section \<open>Capacity\<close>

fun is_protected_cancellation_command :: "Command \<Rightarrow> bool" where
  "is_protected_cancellation_command (Cancel _) = True"
| "is_protected_cancellation_command (CommandMassCancel _) = True"
| "is_protected_cancellation_command (CommandAccountControl c) = (account_action c = BlockAndCancel)"
| "is_protected_cancellation_command (CommandTradingStateControl c) =
     (state_action c = TransitionAndCancel \<and> target_state c \<in> {CancelOnly, Halted, Closed})"
| "is_protected_cancellation_command (CommandExpirySweep _) = True"
| "is_protected_cancellation_command _ = False"

definition check_history_capacity_and_business :: "Command \<Rightarrow> OrderBook \<Rightarrow> (MatchingError + RejectReason option) option" where
  "check_history_capacity_and_business command b =
     (let retained = card (dom (reports b)) in
      if max_retained_commands (limits b) \<le> retained then Some (Inl (CapacityExhausted CommandHistory))
      else if ordinary_command_capacity (limits b) \<le> retained then
        (if \<not> is_protected_cancellation_command command then Some (Inl (CapacityExhausted AdmissionCommandHistory))
         else case core_rejection_of command b of
                None \<Rightarrow> None
              | Some (Some _) \<Rightarrow> Some (Inl (CapacityExhausted AdmissionCommandHistory))
              | Some None \<Rightarrow> Some (Inr None))
      else map_option Inr (core_rejection_of command b))"

definition check_event_capacity :: "Command \<Rightarrow> RejectReason option \<Rightarrow> nat \<Rightarrow> OrderBook \<Rightarrow> MatchingError + unit" where
  "check_event_capacity command core_rejection maximum_events b =
     and_then (ok_or (checked fits_usize (retained_event_count b + maximum_events)) (CapacityExhausted RetainedEvents)) (\<lambda>final_count.
     and_then (ensure (final_count \<le> max_retained_events (limits b)) (CapacityExhausted RetainedEvents)) (\<lambda>_.
       ensure (\<not> (ordinary_event_capacity (limits b) < final_count \<and>
                  (core_rejection \<noteq> None \<or> \<not> is_protected_cancellation_command command)))
         (CapacityExhausted AdmissionEventHistory)))"

definition price_level_capacity :: "Side \<Rightarrow> MatchingCapacity" where
  "price_level_capacity side = (case side of Buy \<Rightarrow> BidPriceLevels | Sell \<Rightarrow> AskPriceLevels)"

definition account_is_full :: "AccountId \<Rightarrow> OrderBook \<Rightarrow> bool" where
  "account_is_full account b \<longleftrightarrow>
     account_orders b account = None \<and> max_active_accounts (limits b) \<le> card (dom (account_orders b))"

definition check_residual_capacity :: "NewOrder \<Rightarrow> Price \<Rightarrow> OrderBook \<Rightarrow> (MatchingError + unit) option" where
  "check_residual_capacity command price b = do {
     let active_orders_full = (max_active_orders (limits b) \<le> card (dom (orders b)));
     let active_accounts_full = account_is_full (new_account_id command) b;
     let l = levels b (new_side command);
     let price_levels_full = (levels_get l price = None \<and> max_price_levels_per_side (limits b) \<le> levels_len l);
     if \<not> active_orders_full \<and> \<not> active_accounts_full \<and> \<not> price_levels_full then Some (Inr ())
     else do {
       let preview = (preview_of command)\<lparr>preview_order_type := Limit price\<rparr>;
       residual \<leftarrow> resting_residual_removed_orders preview b;
       case residual of
         None \<Rightarrow> Some (Inr ())
       | Some removed_orders \<Rightarrow>
           and_check (if active_orders_full then do {
               kept \<leftarrow> checked_sub (card (dom (orders b))) removed_orders;
               final_active_orders \<leftarrow> checked fits_usize (kept + 1);
               Some (ensure (final_active_orders \<le> max_active_orders (limits b)) (CapacityExhausted ActiveOrders))
             } else Some (Inr ())) (\<lambda>_.
           and_check (if active_accounts_full then do {
               released_accounts \<leftarrow> resting_residual_released_accounts preview b;
               kept \<leftarrow> checked_sub (card (dom (account_orders b))) released_accounts;
               final_active_accounts \<leftarrow> checked fits_usize (kept + 1);
               Some (ensure (final_active_accounts \<le> max_active_accounts (limits b)) (CapacityExhausted ActiveAccounts))
             } else Some (Inr ())) (\<lambda>_.
             Some (ensure (\<not> price_levels_full) (CapacityExhausted (price_level_capacity (new_side command))))))
     }
   }"

definition check_new_capacity :: "NewOrder \<Rightarrow> OrderBook \<Rightarrow> (MatchingError + unit) option" where
  "check_new_capacity command b =
     (let best_opposite = best_price (opposite (new_side command)) b in
      if new_order_type command = MarketToLimit \<and>
         (\<not> keeps_resting (new_time_in_force command) \<or> best_opposite = None) then Some (Inr ())
      else if new_order_id command \<in> seen_order_ids b then Some (Inr ())
      else if max_accepted_order_ids (limits b) \<le> card (seen_order_ids b)
        then Some (Inl (CapacityExhausted AcceptedOrderIds))
      else if order_stop (new_order_type command) \<noteq> None then
        Some (and_then (ensure (card (dom (orders b)) < max_active_orders (limits b)) (CapacityExhausted ActiveOrders)) (\<lambda>_.
          ensure (\<not> account_is_full (new_account_id command) b) (CapacityExhausted ActiveAccounts)))
      else case (case new_order_type command of MarketToLimit \<Rightarrow> map_option Limit best_opposite | t \<Rightarrow> Some t) of
             None \<Rightarrow> None
           | Some (Limit price) \<Rightarrow>
               (if \<not> may_rest (new_time_in_force command) then Some (Inr ())
                else check_residual_capacity command price b)
           | Some _ \<Rightarrow> Some (Inr ()))"

definition check_replace_capacity :: "ReplaceOrder \<Rightarrow> OrderBook \<Rightarrow> (MatchingError + unit) option" where
  "check_replace_capacity command b =
     (case orders b (replace_order_id command) of
        None \<Rightarrow> Some (Inr ())
      | Some order \<Rightarrow>
          if is_dormant_stop order then Some (Inr ())
          else do {
            let l = levels b (order_side order);
            if levels_get l (replace_price command) \<noteq> None then Some (Inr ())
            else do {
              let old_level_is_released = (order_price order \<noteq> replace_price command \<and>
                (case levels_get l (order_price order) of None \<Rightarrow> False | Some level \<Rightarrow> order_count level = 1));
              levels_after_removal \<leftarrow> checked_sub (levels_len l) (if old_level_is_released then 1 else 0);
              if levels_after_removal < max_price_levels_per_side (limits b) then Some (Inr ())
              else do {
                residual \<leftarrow> resting_residual_removed_orders (preview_of_incoming (replacing_incoming command order)) b;
                Some (if residual = None then Inr ()
                      else Inl (CapacityExhausted (price_level_capacity (order_side order))))
              }
            }
          })"

fun check_command_capacity :: "Command \<Rightarrow> RejectReason option \<Rightarrow> OrderBook \<Rightarrow> (MatchingError + unit) option" where
  "check_command_capacity (New command) core_rejection b = check_new_capacity command b"
| "check_command_capacity (Replace command) core_rejection b = check_replace_capacity command b"
| "check_command_capacity (CommandAccountControl command) core_rejection b =
     Some (ensure (core_rejection \<noteq> None \<or> account_controls b (account_account_id command) \<noteq> None \<or>
             card (dom (account_controls b)) < max_account_controls (limits b)) (CapacityExhausted AccountControls))"
| "check_command_capacity _ core_rejection b = Some (Inr ())"

end
