(* ===== verification/Submission.thy ===== *)
theory Submission
  imports Engine
begin

text \<open>
  The bound on the report of a command, preparation, commitment and submission with the idempotency cache
  (\<open>src/src/matching.rs\<close>).  The pool of selection buffers is shared by all preparations of a book; it is passed
  along.
\<close>

section \<open>The bound on a report\<close>

definition stop_work :: "OrderBook \<Rightarrow> OrderId \<Rightarrow> (MatchingError + nat \<times> nat) option" where
  "stop_work b x =
     (case orders b x of
        None \<Rightarrow> Some (Inl InternalInvariantViolation)
      | Some order \<Rightarrow>
          (case stop order of
             None \<Rightarrow> Some (Inl InternalInvariantViolation)
           | Some s \<Rightarrow>
               (if stop_time_in_force s = PostOnly then Some (Inr (2, 0))
                else
                  and_check (maximum_matching_work
                    \<lparr>preview_account_id = order_account_id order, preview_side = order_side order,
                     preview_order_type = activation_order_type (stop_activation s), preview_leaves = leaves order,
                     preview_self_trade_prevention = order_self_trade_prevention order\<rparr>
                    (if stop_time_in_force s \<noteq> FillOrKill then 1 else 0) b) (\<lambda>(events, trades).
                    Some (Inr (if stop_time_in_force s = FillOrKill then max events 2 else events, trades))))))"

fun stops_work :: "OrderBook \<Rightarrow> OrderId list \<Rightarrow> nat \<times> nat \<Rightarrow> (MatchingError + nat \<times> nat) option" where
  "stops_work b [] work = Some (Inr work)"
| "stops_work b (x # xs) work =
     and_check (stop_work b x) (\<lambda>(order_events, order_trades).
     and_check (Some (ok_or (checked fits_u128 (fst work + order_events)) SequenceExhausted)) (\<lambda>events.
     and_check (Some (ok_or (checked fits_u64 (snd work + order_trades)) TradeIdExhausted)) (\<lambda>trades.
       stops_work b xs (events, trades))))"

definition maximum_stop_trigger_work :: "StopTriggerSweep \<Rightarrow> OrderBook \<Rightarrow> (MatchingError + nat \<times> nat) option" where
  "maximum_stop_trigger_work command b =
     (let price = reference_price (trigger_reference command);
          limit = min (eligible_stop_count price b) (maximum_orders command)
      in and_check (stops_work b (eligible_stops price limit b) (1, 0)) (\<lambda>(events, trades).
           Some (and_then (ok_or (checked fits_usize events) SequenceExhausted) (\<lambda>events. Inr (events, trades)))))"

definition one_more :: "nat \<Rightarrow> MatchingError + nat \<times> nat" where
  "one_more selected = and_then (ok_or (checked fits_usize (selected + 1)) SequenceExhausted) (\<lambda>events. Inr (events, 0))"

definition new_work :: "NewOrder \<Rightarrow> OrderBook \<Rightarrow> (MatchingError + nat \<times> nat) option" where
  "new_work order b =
     (if order_stop (new_order_type order) \<noteq> None then Some (Inr (2, 0))
      else if new_time_in_force order = PostOnly then Some (Inr (2, 0))
      else if new_order_type order = MarketToLimit then
        (case best_price (opposite (new_side order)) b of
           None \<Rightarrow> None
         | Some price \<Rightarrow>
             and_check (maximum_matching_work ((preview_of order)\<lparr>preview_order_type := Limit price\<rparr>) 1 b) (\<lambda>(events, trades).
               Some (and_then (ok_or (checked fits_u128 (events + 1)) SequenceExhausted) (\<lambda>events. Inr (events, trades)))))
      else maximum_matching_work (preview_of order) (if new_time_in_force order \<noteq> FillOrKill then 1 else 0) b)"

definition replace_work :: "ReplaceOrder \<Rightarrow> OrderBook \<Rightarrow> (MatchingError + nat \<times> nat) option" where
  "replace_work command b =
     (case orders b (replace_order_id command) of
        None \<Rightarrow> None
      | Some old \<Rightarrow>
          if is_dormant_stop old then Some (Inr (1, 0))
          else if keeps_priority command old then Some (Inr (1, 0))
          else maximum_matching_work (preview_of_incoming (replacing_incoming command old)) 1 b)"

definition usize_events :: "(MatchingError + nat \<times> nat) option \<Rightarrow> (MatchingError + nat \<times> nat) option" where
  "usize_events work =
     and_check work (\<lambda>(events, trades).
       Some (and_then (ok_or (checked fits_usize events) SequenceExhausted) (\<lambda>events. Inr (events, trades))))"

fun command_work :: "Command \<Rightarrow> OrderBook \<Rightarrow> (MatchingError + nat \<times> nat) option" where
  "command_work (New order) b = usize_events (new_work order b)"
| "command_work (Cancel _) b = Some (Inr (1, 0))"
| "command_work (CommandMassCancel c) b = Some (one_more (account_active_order_count (mass_account_id c) (mass_scope c) b))"
| "command_work (CommandAccountControl c) b =
     Some (one_more (case account_action c of
         BlockAndCancel \<Rightarrow> account_active_order_count (account_account_id c) ScopeAll b | Enable \<Rightarrow> 0))"
| "command_work (CommandTradingStateControl c) b =
     Some (one_more (case state_action c of Transition \<Rightarrow> 0 | TransitionAndCancel \<Rightarrow> card (dom (orders b))))"
| "command_work (CommandExpirySweep c) b = Some (one_more (expiring_order_count (expiry_through c) b))"
| "command_work (CommandStopTriggerSweep c) b = maximum_stop_trigger_work c b"
| "command_work (Replace c) b = usize_events (replace_work c b)"

definition maximum_report_work :: "Command \<Rightarrow> RejectReason option \<Rightarrow> OrderBook \<Rightarrow> (MatchingError + nat \<times> nat) option" where
  "maximum_report_work command core_rejection b =
     (if core_rejection \<noteq> None then Some (Inr (1, 0)) else command_work command b)"

section \<open>The pool of selection buffers\<close>

record OrderSelectionPool =
  pool_available :: nat
  pool_capacity :: nat
  pool_order_capacity :: nat

definition pool_new :: "OrderBookLimits \<Rightarrow> OrderSelectionPool" where
  "pool_new limit = \<lparr>pool_available = max_prepared_order_selections limit,
     pool_capacity = max_prepared_order_selections limit, pool_order_capacity = max_active_orders limit\<rparr>"

definition empty_selection :: PooledOrderSelection where
  "empty_selection = \<lparr>leased = False, selected_values = [], selected_capacity = 0, required = 0\<rparr>"

definition pool_acquire :: "nat \<Rightarrow> OrderSelectionPool \<Rightarrow> (PooledOrderSelection \<times> OrderSelectionPool) option" where
  "pool_acquire n pool =
     (if pool_available pool = 0 then None
      else Some (\<lparr>leased = True, selected_values = [], selected_capacity = pool_order_capacity pool, required = n\<rparr>,
                 pool\<lparr>pool_available := pool_available pool - 1\<rparr>))"

text \<open>Dropping a selection gives its buffer back; giving back too often is a panic.\<close>

definition pool_release :: "PooledOrderSelection option \<Rightarrow> OrderSelectionPool \<Rightarrow> OrderSelectionPool option" where
  "pool_release selection pool =
     (case selection of
        None \<Rightarrow> Some pool
      | Some s \<Rightarrow>
          (if \<not> leased s then Some pool
           else if pool_available pool < pool_capacity pool then Some (pool\<lparr>pool_available := pool_available pool + 1\<rparr>)
           else None))"

definition acquire_order_selection ::
    "nat \<Rightarrow> OrderBookLimits \<Rightarrow> OrderSelectionPool \<Rightarrow> ((MatchingError + PooledOrderSelection) \<times> OrderSelectionPool) option"
where
  "acquire_order_selection n limit pool =
     (if n = 0 then Some (Inr empty_selection, pool)
      else case pool_acquire n pool of
             None \<Rightarrow> Some (Inl (PreparationCapacityExhausted (max_prepared_order_selections limit)), pool)
           | Some (selection, pool) \<Rightarrow>
               (if selected_capacity selection < n
                then map_option (Pair (Inl InternalInvariantViolation)) (pool_release (Some selection) pool)
                else Some (Inr selection, pool)))"

section \<open>Preparation\<close>

record PreparedCommand =
  prepared_command :: Command
  book_instance_id :: nat
  expected_retained_commands :: nat
  core_rejection :: "RejectReason option"
  maximum_events :: nat
  selected_order_ids :: "PooledOrderSelection option"

datatype CommandPreparation = Replay ExecutionReport | Ready PreparedCommand

definition replayed_report :: "CachedReport \<Rightarrow> ExecutionReport" where
  "replayed_report cached = (cached_report cached)\<lparr>report_replayed := True\<rparr>"

fun selection_size :: "Command \<Rightarrow> OrderBook \<Rightarrow> nat option" where
  "selection_size (CommandMassCancel c) b = Some (account_active_order_count (mass_account_id c) (mass_scope c) b)"
| "selection_size (CommandAccountControl c) b =
     (case account_action c of
        BlockAndCancel \<Rightarrow> Some (account_active_order_count (account_account_id c) ScopeAll b) | Enable \<Rightarrow> None)"
| "selection_size (CommandTradingStateControl c) b =
     (case state_action c of TransitionAndCancel \<Rightarrow> Some (card (dom (orders b))) | Transition \<Rightarrow> None)"
| "selection_size (CommandExpirySweep c) b = Some (expiring_order_count (expiry_through c) b)"
| "selection_size (CommandStopTriggerSweep c) b =
     Some (min (eligible_stop_count (reference_price (trigger_reference c)) b) (maximum_orders c))"
| "selection_size _ b = None"

definition lease_selection ::
    "Command \<Rightarrow> RejectReason option \<Rightarrow> OrderBook \<Rightarrow> OrderSelectionPool \<Rightarrow>
     ((MatchingError + PooledOrderSelection option) \<times> OrderSelectionPool) option"
where
  "lease_selection command rejection b pool =
     (case (rejection, selection_size command b) of
        (None, Some n) \<Rightarrow>
          map_option (\<lambda>(r, pool). (map_sum id Some r, pool)) (acquire_order_selection n (limits b) pool)
      | _ \<Rightarrow> Some (Inr None, pool))"

text \<open>Everything preparation checks before it leases a buffer: the core rejection and the bound on the report.\<close>

definition preflight :: "Command \<Rightarrow> OrderBook \<Rightarrow> (MatchingError + RejectReason option \<times> nat) option" where
  "preflight command b =
     and_check (check_history_capacity_and_business command b) (\<lambda>rejection.
     and_check (check_command_capacity command rejection b) (\<lambda>_.
     and_check (maximum_report_work command rejection b) (\<lambda>(events, trades).
     and_check (Some (ensure (events \<le> max_report_events (limits b)) (CapacityExhausted ReportEvents))) (\<lambda>_.
     and_check (Some (check_event_capacity command rejection events b)) (\<lambda>_.
     and_check (Some (ok_or (checked fits_u64 events) SequenceExhausted)) (\<lambda>_.
     and_check (Some (ok_or (checked fits_u64 (next_sequence b + events)) SequenceExhausted)) (\<lambda>_.
     and_check (Some (ok_or (checked fits_u64 (next_trade_id b + trades)) TradeIdExhausted)) (\<lambda>_.
       Some (Inr (rejection, events))))))))))"

definition prepare_command ::
    "Command \<Rightarrow> OrderBook \<Rightarrow> OrderSelectionPool \<Rightarrow> ((MatchingError + CommandPreparation) \<times> OrderSelectionPool) option"
where
  "prepare_command command b pool =
     (case reports b (command_id command) of
        Some cached \<Rightarrow>
          Some (if cached_command cached \<noteq> command then Inl (CommandIdCollision (command_id command))
                else Inr (Replay (replayed_report cached)), pool)
      | None \<Rightarrow>
          (case preflight command b of
             None \<Rightarrow> None
           | Some (Inl e) \<Rightarrow> Some (Inl e, pool)
           | Some (Inr (rejection, events)) \<Rightarrow> do {
               (r, pool) \<leftarrow> lease_selection command rejection b pool;
               Some (map_sum id (\<lambda>selection. Ready
                 \<lparr>prepared_command = command, book_instance_id = instance_id b,
                  expected_retained_commands = card (dom (reports b)), core_rejection = rejection,
                  maximum_events = events, selected_order_ids = selection\<rparr>) r, pool)
             }))"

section \<open>Commitment\<close>

fun apply_command :: "Command \<Rightarrow> PooledOrderSelection option \<Rightarrow> ExecutionReport action" where
  "apply_command (New c) selection = apply_new c"
| "apply_command (Cancel c) selection = apply_cancel c"
| "apply_command (Replace c) selection = apply_replace c"
| "apply_command (CommandMassCancel c) selection = and_do (observe (\<lambda>_. selection)) (\<lambda>s. apply_mass_cancel c s)"
| "apply_command (CommandAccountControl c) selection = apply_account_control c selection"
| "apply_command (CommandTradingStateControl c) selection = apply_trading_state_control c selection"
| "apply_command (CommandExpirySweep c) selection = and_do (observe (\<lambda>_. selection)) (\<lambda>s. apply_expiry_sweep c s)"
| "apply_command (CommandStopTriggerSweep c) selection =
     and_do (observe (\<lambda>_. selection)) (\<lambda>s. apply_stop_trigger_sweep c s)"

definition cache_report :: "Command \<Rightarrow> ExecutionReport \<Rightarrow> OrderBook \<Rightarrow> OrderBook option" where
  "cache_report command report b = do {
     assert_that (card (dom (reports b)) < max_retained_commands (limits b));
     retained \<leftarrow> checked fits_usize (retained_event_count b + length (report_events report));
     assert_that (retained \<le> max_retained_events (limits b));
     assert_that (reports b (command_id command) = None);
     Some (b\<lparr>reports := (reports b)(command_id command \<mapsto> \<lparr>cached_command = command, cached_report = report\<rparr>),
             retained_event_count := retained\<rparr>)
   }"

definition commit_with_gate ::
    "PreparedCommand \<Rightarrow> RejectReason option \<Rightarrow> OrderBook \<Rightarrow> ((MatchingError + ExecutionReport) \<times> OrderBook) option"
where
  "commit_with_gate p gate_reason b =
     (let command = prepared_command p in
      if instance_id b \<noteq> book_instance_id p then Some (Inl ForeignPreparation, b)
      else case reports b (command_id command) of
        Some cached \<Rightarrow>
          Some (if cached_command cached \<noteq> command then Inl (CommandIdCollision (command_id command))
                else Inr (replayed_report cached), b)
      | None \<Rightarrow>
          if card (dom (reports b)) \<noteq> expected_retained_commands p then Some (Inl StalePreparation, b)
          else do {
            events \<leftarrow> trace_new (max_retained_events (limits b)) (retained_event_count b) (maximum_events p);
            (r, s) \<leftarrow> (case (if core_rejection p \<noteq> None then core_rejection p else gate_reason) of
                Some reason \<Rightarrow> rejected (command_id command) (received_at command) reason (b, events)
              | None \<Rightarrow> apply_command command (selected_order_ids p) (b, events));
            case r of
              Inl e \<Rightarrow> Some (Inl e, fst s)
            | Inr report \<Rightarrow> map_option (Pair (Inr report)) (cache_report command report (fst s))
          })"

definition commit_prepared ::
    "PreparedCommand \<Rightarrow> OrderBook \<Rightarrow> ((MatchingError + ExecutionReport) \<times> OrderBook) option"
where
  "commit_prepared p b = commit_with_gate p None b"

section \<open>Submission\<close>

definition submit_with_gate ::
    "Command \<Rightarrow> RejectReason option \<Rightarrow> OrderBook \<times> OrderSelectionPool \<Rightarrow>
     ((MatchingError + ExecutionReport) \<times> OrderBook \<times> OrderSelectionPool) option"
where
  "submit_with_gate command gate_reason st = do {
     (r, pool) \<leftarrow> prepare_command command (fst st) (snd st);
     case r of
       Inl e \<Rightarrow> Some (Inl e, fst st, pool)
     | Inr (Replay report) \<Rightarrow> Some (Inr report, fst st, pool)
     | Inr (Ready p) \<Rightarrow> do {
         (r, b) \<leftarrow> commit_with_gate p gate_reason (fst st);
         pool \<leftarrow> pool_release (selected_order_ids p) pool;
         Some (r, b, pool)
       }
   }"

definition submit ::
    "Command \<Rightarrow> OrderBook \<times> OrderSelectionPool \<Rightarrow>
     ((MatchingError + ExecutionReport) \<times> OrderBook \<times> OrderSelectionPool) option"
where
  "submit command st = submit_with_gate command None st"

definition reject_by_gate ::
    "Command \<Rightarrow> RejectReason \<Rightarrow> OrderBook \<times> OrderSelectionPool \<Rightarrow>
     ((MatchingError + ExecutionReport) \<times> OrderBook \<times> OrderSelectionPool) option"
where
  "reject_by_gate command gate_reason st = submit_with_gate command (Some gate_reason) st"

end
