(* ===== verification/SampleSession.thy ===== *)
theory SampleSession
  imports Submission
begin

text \<open>
  A session on a fresh book with room for one active account: a stop reference, a resting sell order, a dormant
  stop of the same account and an aggressive buy order of another account.  Each step is evaluated in the
  kernel.  The last one shows a defect of the source: preparation counts the dormant stop among the orders the
  match removes, so it believes that the seller's account empties, and committing the order it admitted panics
  in \<open>append_order\<close>.
\<close>

section \<open>The instrument, the limits and the commands\<close>

definition sample_limits :: OrderBookLimits where
  "sample_limits = \<lparr>max_active_orders = 4, max_active_accounts = 1, max_price_levels_per_side = 4,
     max_accepted_order_ids = 8, max_account_controls = 4, max_retained_commands = 16, cancellation_reserve = 4,
     max_report_events = 8, max_retained_events = 64, max_prepared_order_selections = 2\<rparr>"

definition sample_definition :: InstrumentDefinition where
  "sample_definition = \<lparr>def_instrument_id = 1, def_version = 1, effective_from = 0, def_symbol = ''ABC'', def_kind = Spot,
     def_base_asset_id = 1, def_quote_asset_id = 2,
     def_price = \<lparr>decimal_scale = 0, tick_size = 1, minimum = 1, maximum_price = 1000\<rparr>,
     def_quantity = \<lparr>increment = 1, minimum_lots = 1, maximum_lots = 1000\<rparr>, def_reserve = reserve_rules_disabled,
     hidden_orders_supported = False, def_base_units_per_lot = 1, def_quote_units_per_price_unit = 1,
     def_trading_state = Open\<rparr>"

lemma sample_limits_accepted: "book_limits_new sample_limits = Inr sample_limits"
  by (simp add: book_limits_new_def sample_limits_def ensure_def ok_or_def checked_def fits_u64_def)

definition reference_command :: Command where
  "reference_command = CommandStopTriggerSweep \<lparr>trigger_command_id = 1, trigger_instrument_id = 1, trigger_instrument_version = 1,
     trigger_reference = \<lparr>reference_cursor = \<lparr>source_id = 1, source_version = 1, source_sequence = 1\<rparr>, reference_price = 95\<rparr>,
     maximum_orders = 1, trigger_received_at = 1\<rparr>"

definition limit_order :: "CommandId \<Rightarrow> OrderId \<Rightarrow> AccountId \<Rightarrow> Side \<Rightarrow> nat \<Rightarrow> OrderType \<Rightarrow> TimeInForce \<Rightarrow> Command" where
  "limit_order c x a side lots t tif = New \<lparr>new_command_id = c, new_order_id = x, new_account_id = a, new_instrument_id = 1,
     new_instrument_version = 1, new_side = side, new_quantity = lots, new_display = FullyDisplayed, new_order_type = t,
     new_time_in_force = tif, new_self_trade_prevention = CancelAggressor, new_received_at = c\<rparr>"

section \<open>Evaluation of a submission\<close>

lemmas run_defs = submit_def submit_with_gate_def prepare_command_def preflight_def check_history_capacity_and_business_def core_rejection_of_def and_check_def
  admitted_def admit_def reject_if_def maximum_report_work_def maximum_stop_trigger_work_def one_more_def usize_events_def
  check_event_capacity_def and_do_def ensure_def ok_or_def checked_def checked_sub_def lease_selection_def acquire_order_selection_def
  validate_identity_def validate_price_def check_stop_trigger_def validate_stop_reference_transition_def eligible_stop_count_def
    eligible_buys_def eligible_sells_def ordinary_command_capacity_def eligible_stops_def fits_u64_def fits_u128_def fits_i64_def ordinary_event_capacity_def
    cancellation_event_reserve_def empty_selection_def commit_with_gate_def trace_new_def assert_that_def apply_stop_trigger_sweep_def Let_def
    observe_def attempt_def resolve_selection_def select_triggered_orders_def give_def set_book_def update_book_def push_event_def trace_push_def accepted_def cache_report_def pool_release_def
    require_def update_def apply_new_def price_market_to_limit_def cancel_unavailable_minimum_def check_new_def check_minimum_def check_stop_def active_type_def check_active_def
    is_limit_def keeps_resting_def expired_for_def raw_account_control_def admit_new_def permits_entry_def validate_quantity_def validate_display_def
    check_new_capacity_def check_residual_capacity_def account_is_full_def new_work_def maximum_matching_work_def preview_of_def
    check_command_capacity.simps is_reserve_def best_price_def levels_get_def levels_len_def index_get_def index_len_def

section \<open>The fresh book\<close>

definition sample_book :: OrderBook where
  "sample_book = book_new 1 sample_definition sample_limits"

definition sample_pool :: OrderSelectionPool where
  "sample_pool = pool_new sample_limits"

lemma sample_book_simps [simp]:
  "instance_id sample_book = 1" "book_definition sample_book = sample_definition" "limits sample_book = sample_limits"
  "trading_state sample_book = \<lparr>snapshot_trading_state = Open, trading_revision = 0\<rparr>"
  "bids sample_book = levels_new Buy 4" "asks sample_book = levels_new Sell 4"
  "orders sample_book = Map.empty" "expiries sample_book = index_new 4" "expiry_watermark sample_book = None"
  "buy_stops sample_book = index_new 4" "sell_stops sample_book = index_new 4" "stop_reference sample_book = None"
  "account_orders sample_book = Map.empty" "seen_order_ids sample_book = {}" "account_controls sample_book = Map.empty"
  "reports sample_book = Map.empty" "retained_event_count sample_book = 0" "next_sequence sample_book = 1" "next_trade_id sample_book = 1"
  by (simp_all add: sample_book_def book_new_def sample_limits_def sample_definition_def)

lemma sample_limits_simps [simp]:
  "max_active_orders sample_limits = 4" "max_active_accounts sample_limits = 1" "max_price_levels_per_side sample_limits = 4"
  "max_accepted_order_ids sample_limits = 8" "max_account_controls sample_limits = 4" "max_retained_commands sample_limits = 16"
  "cancellation_reserve sample_limits = 4" "max_report_events sample_limits = 8" "max_retained_events sample_limits = 64"
  by (simp_all add: sample_limits_def)

lemma sample_definition_simps [simp]:
  "def_instrument_id sample_definition = 1" "def_version sample_definition = 1"
  "def_price sample_definition = \<lparr>decimal_scale = 0, tick_size = 1, minimum = 1, maximum_price = 1000\<rparr>"
  "def_quantity sample_definition = \<lparr>increment = 1, minimum_lots = 1, maximum_lots = 1000\<rparr>"
  by (simp_all add: sample_definition_def)

definition report_of :: "CommandId \<Rightarrow> Event list \<Rightarrow> ExecutionReport" where
  "report_of c es = \<lparr>report_command_id = c, report_outcome = Accepted, report_events = es, report_replayed = False\<rparr>"

definition sample_event :: "nat \<Rightarrow> CommandId \<Rightarrow> EventKind \<Rightarrow> Event" where
  "sample_event n c k = \<lparr>event_sequence = n, event_command_id = c, occurred_at = c, event_kind = k\<rparr>"

definition sample_cached :: "Command \<Rightarrow> Event list \<Rightarrow> CachedReport" where
  "sample_cached c es = \<lparr>cached_command = c, cached_report = report_of (command_id c) es\<rparr>"

definition sample_reference :: StopReference where
  "sample_reference = \<lparr>reference_cursor = \<lparr>source_id = 1, source_version = 1, source_sequence = 1\<rparr>, reference_price = 95\<rparr>"

definition sample_book1 :: OrderBook where
  "sample_book1 = sample_book\<lparr>stop_reference := Some sample_reference, next_sequence := 2,
     reports := [1 \<mapsto> sample_cached reference_command [sample_event 1 1 (StopTriggerSweepCompleted None sample_reference 0 0)]],
     retained_event_count := 1\<rparr>"

lemma index_new_entries [simp]: "index_entries (index_new n) = []"
  by (simp add: index_new_def)

lemma sample_prep1: "prepare_command reference_command sample_book sample_pool = Some (Inr (Ready \<lparr>prepared_command = reference_command,
    book_instance_id = 1, expected_retained_commands = 0, core_rejection = None, maximum_events = 1, selected_order_ids = Some empty_selection\<rparr>), sample_pool)"
  by (simp add: run_defs reference_command_def del: One_nat_def)

lemma sample_step1: "submit reference_command (sample_book, sample_pool) =
    Some (Inr (report_of 1 [sample_event 1 1 (StopTriggerSweepCompleted None sample_reference 0 0)]), sample_book1, sample_pool)"
  apply (simp add: submit_def submit_with_gate_def sample_prep1 del: One_nat_def)
  by (simp add: run_defs reference_command_def sample_reference_def sample_book1_def sample_cached_def report_of_def sample_event_def del: One_nat_def)

section \<open>The resting sell order\<close>

definition sell_command :: Command where
  "sell_command = limit_order 2 7 2 Sell 5 (Limit 100) GoodTilCancelled"

definition sample_seller :: RestingOrder where
  "sample_seller = \<lparr>order_id = 7, order_account_id = 2, order_side = Sell, order_price = 100, leaves = 5, displayed = 5,
     order_display = FullyDisplayed, order_self_trade_prevention = CancelAggressor, order_expires_at = None, stop = None,
     previous = None, next_order = None, account_previous = None, account_next = None\<rparr>"

definition sell_level :: PriceLevel where
  "sell_level = \<lparr>level_head = 7, level_tail = 7, displayed_tail = Some 7, total_quantity = 5, order_count = 1,
     visible_order_count = 1, level_event_units = 1\<rparr>"

definition sell_levels :: PriceLevels where
  "sell_levels = \<lparr>levels_side = Sell, by_price = \<lparr>index_entries = [(100, sell_level)], index_maximum = 4\<rparr>,
       visible_by_price = \<lparr>index_entries = [(100, ())], index_maximum = 4\<rparr>, best = Some (100, sell_level),
       best_handle = Some 100, best_visible = Some (100, sell_level), side_event_units = 1\<rparr>"

definition sell_events :: "Event list" where
  "sell_events = [sample_event 2 2 (OrderAccepted 7 5 FullyDisplayed), sample_event 3 2 (OrderRested 7 100 5 5)]"

definition sample_book2 :: OrderBook where
  "sample_book2 = sample_book1\<lparr>asks := sell_levels, orders := [7 \<mapsto> sample_seller],
     account_orders := [2 \<mapsto> \<lparr>buys = side_index_default, sells = \<lparr>account_head = Some 7, account_tail = Some 7,
       account_order_count = 1, account_event_units = 1\<rparr>\<rparr>],
     seen_order_ids := {7}, next_sequence := 4, reports := (reports sample_book1)(2 \<mapsto> sample_cached sell_command sell_events),
     retained_event_count := 3\<rparr>"

lemma sample_prep2: "prepare_command sell_command sample_book1 sample_pool = Some (Inr (Ready \<lparr>prepared_command = sell_command,
    book_instance_id = 1, expected_retained_commands = 1, core_rejection = None, maximum_events = 2, selected_order_ids = None\<rparr>), sample_pool)"
  by (simp add: run_defs sample_book1_def sell_command_def limit_order_def levels_new_def index_new_def del: One_nat_def)

lemma sample_step2: "submit sell_command (sample_book1, sample_pool) = Some (Inr (report_of 2 sell_events), sample_book2, sample_pool)"
  apply (simp add: submit_def submit_with_gate_def sample_prep2 del: One_nat_def)
  by (simp add: run_defs sell_command_def sample_book1_def limit_order_def incoming_of_def report_of_def sample_event_def levels_new_def index_new_def sample_cached_def
   execute_incoming_def match_loop.simps match_turn_def best_opposite_order_def best_level_with_handle_def rest_or_cancel_def quantity_def quantity_new_def
   append_order_def append_account_membership_def account_append_def remaining_event_units_def resting_of_def
    account_index_default_def side_index_default_def
    append_order_preserving_account_index_def levels_insert_def level_for_order_def index_insert_def insert_expiry_def
    sync_visible_level_def sync_visible_index_def is_visible_def PriceLevels.is_better_def
    sample_book2_def sell_levels_def sell_level_def sample_seller_def sell_events_def sell_command_def One_nat_def [symmetric] del: One_nat_def)

lemmas run_more_defs = execute_incoming_def match_loop.simps match_turn_def best_opposite_order_def best_level_with_handle_def rest_or_cancel_def quantity_def quantity_new_def
   append_order_def append_account_membership_def account_append_def remaining_event_units_def resting_of_def
    account_index_default_def side_index_default_def
    append_order_preserving_account_index_def levels_insert_def level_for_order_def index_insert_def insert_expiry_def
    sync_visible_level_def sync_visible_index_def is_visible_def PriceLevels.is_better_def

section \<open>The dormant stop\<close>

definition stop_command :: Command where
  "stop_command = limit_order 3 9 2 Sell 1 (Stop 90 StopMarket) ImmediateOrCancel"

definition sample_dormant :: RestingOrder where
  "sample_dormant = \<lparr>order_id = 9, order_account_id = 2, order_side = Sell, order_price = 90, leaves = 1, displayed = 1,
     order_display = FullyDisplayed, order_self_trade_prevention = CancelAggressor, order_expires_at = None,
     stop = Some \<lparr>stop_trigger_price = 90, stop_activation = StopMarket, stop_time_in_force = ImmediateOrCancel, priority_sequence = 4\<rparr>,
     previous = None, next_order = None, account_previous = Some 7, account_next = None\<rparr>"

definition stop_events :: "Event list" where
  "stop_events = [sample_event 4 3 (OrderAccepted 9 1 FullyDisplayed), sample_event 5 3 (StopOrderArmed 9 90 StopMarket 4)]"

definition sample_book3 :: OrderBook where
  "sample_book3 = sample_book2\<lparr>orders := [7 \<mapsto> sample_seller\<lparr>account_next := Some 9\<rparr>, 9 \<mapsto> sample_dormant],
     sell_stops := \<lparr>index_entries = [((Reverse 90, 4, 9), 9)], index_maximum = 4\<rparr>,
     account_orders := [2 \<mapsto> \<lparr>buys = side_index_default, sells = \<lparr>account_head = Some 7, account_tail = Some 9,
       account_order_count = 2, account_event_units = 1\<rparr>\<rparr>],
     seen_order_ids := {9, 7}, next_sequence := 6, reports := (reports sample_book2)(3 \<mapsto> sample_cached stop_command stop_events),
     retained_event_count := 5\<rparr>"

lemma sample_prep3: "prepare_command stop_command sample_book2 sample_pool = Some (Inr (Ready \<lparr>prepared_command = stop_command,
    book_instance_id = 1, expected_retained_commands = 2, core_rejection = None, maximum_events = 2, selected_order_ids = None\<rparr>), sample_pool)"
  by (simp add: run_defs sample_book1_def sample_book2_def sell_levels_def sample_reference_def stop_command_def limit_order_def levels_new_def index_new_def One_nat_def [symmetric] del: One_nat_def)

lemma sample_step3: "submit stop_command (sample_book2, sample_pool) = Some (Inr (report_of 3 stop_events), sample_book3, sample_pool)"
  apply (simp add: submit_def submit_with_gate_def sample_prep3 del: One_nat_def)
  by (simp add: run_defs run_more_defs stop_command_def sample_book1_def sample_book2_def limit_order_def incoming_of_def report_of_def sample_event_def levels_new_def index_new_def sample_cached_def
    append_dormant_stop_def insert_stop_def stop_of_def modify_order_def modify_optional_def
    sample_book3_def sample_dormant_def sell_levels_def sell_level_def sample_seller_def stop_events_def One_nat_def [symmetric] del: One_nat_def)

section \<open>The aggressive buy order\<close>

definition buy_command :: Command where
  "buy_command = limit_order 4 8 3 Buy 8 (Limit 101) GoodTilCancelled"

lemma sample_residual: "resting_residual_removed_orders \<lparr>preview_account_id = 3, preview_side = Buy, preview_order_type = Limit 101,
   preview_leaves = 8, preview_self_trade_prevention = CancelAggressor\<rparr> sample_book3 = Some (Some 1)"
  by (simp add: resting_residual_removed_orders_def residual_loop.simps sample_book3_def sample_book2_def best_price_def sell_levels_def
    crosses_def levels_get_def index_get_def residual_liquidity_def blocking_liquidity_def blocking_liquidity_loop.simps sell_level_def sample_seller_def
    next_worse_price_def next_worse_def index_successor_def checked_def fits_u64_def One_nat_def [symmetric] del: One_nat_def)

lemma sample_released: "resting_residual_released_accounts \<lparr>preview_account_id = 3, preview_side = Buy, preview_order_type = Limit 101,
   preview_leaves = 8, preview_self_trade_prevention = CancelAggressor\<rparr> sample_book3 = Some 1"
  by (simp add: resting_residual_released_accounts_def sample_book3_def sample_book2_def account_is_empty_def account_orders_are_crossed_def
    side_index_default_def numeral_2_eq_2 crosses_def sample_seller_def sample_dormant_def)

definition aggressive_preparation :: PreparedCommand where
  "aggressive_preparation = \<lparr>prepared_command = buy_command, book_instance_id = 1, expected_retained_commands = 3,
     core_rejection = None, maximum_events = 3, selected_order_ids = None\<rparr>"

lemma sample_prep4: "prepare_command buy_command sample_book3 sample_pool = Some (Inr (Ready aggressive_preparation), sample_pool)"
  using sample_residual sample_released
  by (simp add: run_defs aggressive_preparation_def sample_book1_def sample_book2_def sample_book3_def sell_levels_def sample_reference_def buy_command_def limit_order_def levels_new_def index_new_def One_nat_def [symmetric] del: One_nat_def)

lemma sample_commit4: "commit_prepared aggressive_preparation sample_book3 = None"
  by (simp add: commit_prepared_def run_defs aggressive_preparation_def run_more_defs buy_command_def sample_book1_def sample_book2_def sample_book3_def limit_order_def incoming_of_def levels_new_def index_new_def
    side_index_default_def sell_levels_def sell_level_def sample_seller_def sample_dormant_def 
    execute_against_def make_trade_def identifier_new_def fill_resting_def decrement_resting_def remove_order_at_level_def remove_order_preserving_account_index_at_def
    remove_expiry_def modify_optional_def modify_order_def update_level_def update_by_handle_def level_without_order_def index_set_def index_remove_def drop_entry_def
    remove_by_handle_def remove_account_membership_def account_remove_def account_is_empty_def map_extremum_def visible_best_of_def visible_extremum_def index_first_def 
    One_nat_def [symmetric] del: One_nat_def)

section \<open>A rejected command\<close>

definition cancel_command :: Command where
  "cancel_command = Cancel \<lparr>cancel_command_id = 5, cancel_order_id = 9, cancel_account_id = 3, cancel_instrument_id = 1,
     cancel_instrument_version = 1, cancel_received_at = 5\<rparr>"

definition rejected_preparation :: PreparedCommand where
  "rejected_preparation = \<lparr>prepared_command = cancel_command, book_instance_id = 1, expected_retained_commands = 1,
     core_rejection = Some UnknownOrder, maximum_events = 1, selected_order_ids = None\<rparr>"

lemma sample_prep5: "prepare_command cancel_command sample_book1 sample_pool = Some (Inr (Ready rejected_preparation), sample_pool)"
  by (simp add: run_defs rejected_preparation_def sample_book1_def cancel_command_def check_cancel_def owned_order_def
      is_protected_cancellation_command.simps One_nat_def [symmetric] del: One_nat_def)

lemma sample_step5: "\<exists>r b. commit_with_gate rejected_preparation None sample_book1 = Some (r, b)"
  by (simp add: run_defs rejected_preparation_def sample_book1_def cancel_command_def rejected_def
      One_nat_def [symmetric] del: One_nat_def)

end
