(* ===== verification/SubmissionProperties.thy ===== *)
theory SubmissionProperties
  imports SampleSession
begin

text \<open>
  What submission promises for every command: retries, identifier collisions, rejections and gates.
\<close>

section \<open>Outcomes of a submission\<close>

lemma replayed_twice [simp]:
  "report_replayed (replayed_report cached) = True"
  "replayed_report (cached\<lparr>cached_report := replayed_report cached\<rparr>) = replayed_report cached"
  by (simp_all add: replayed_report_def)

lemma prepare_replay:
  "reports b (command_id command) = Some cached \<Longrightarrow>
   prepare_command command b pool =
     Some (if cached_command cached \<noteq> command then Inl (CommandIdCollision (command_id command))
           else Inr (Replay (replayed_report cached)), pool)"
  by (simp add: prepare_command_def)

text \<open>What a preparation holds.\<close>

lemma prepare_submission_ready:
  assumes "prepare_command command b pool = Some (Inr (Ready p), pool')"
  obtains rejection events trades selection where "reports b (command_id command) = None"
    "preflight command b = Some (Inr (rejection, events))"
    "lease_selection command rejection b pool = Some (Inr selection, pool')"
    "p = \<lparr>prepared_command = command, book_instance_id = instance_id b, expected_retained_commands = card (dom (reports b)),
          core_rejection = rejection, maximum_events = events, selected_order_ids = selection\<rparr>"
proof -
  have none: "reports b (command_id command) = None"
    using assms by (auto simp: prepare_command_def split: option.splits if_splits)
  then obtain rejection events where f: "preflight command b = Some (Inr (rejection, events))"
    using assms by (auto simp: prepare_command_def split: option.splits sum.splits)
  obtain r where l: "lease_selection command rejection b pool = Some (r, pool')"
      "map_sum id (\<lambda>selection. Ready \<lparr>prepared_command = command, book_instance_id = instance_id b,
        expected_retained_commands = card (dom (reports b)), core_rejection = rejection, maximum_events = events,
        selected_order_ids = selection\<rparr>) r = (Inr (Ready p) :: MatchingError + CommandPreparation)"
    using assms none f by (auto simp: prepare_command_def split: Option.bind_splits)
  then show thesis
    using that none f by (cases r) auto
qed

text \<open>A first submission that succeeds caches its report under the command.\<close>

lemma commit_caches:
  assumes "commit_with_gate p gate b = Some (Inr report, b')" "reports b (command_id (prepared_command p)) = None"
  shows "reports b' (command_id (prepared_command p)) = Some \<lparr>cached_command = prepared_command p, cached_report = report\<rparr>"
  using assms by (auto simp: commit_with_gate_def Let_def cache_report_def split: Option.bind_splits sum.splits prod.splits if_splits)

lemma submit_cases:
  assumes "submit_with_gate command gate (b, pool) = Some (Inr report, b', pool')"
  obtains (replayed) cached where "reports b (command_id command) = Some cached" "cached_command cached = command"
      "report = replayed_report cached" "b' = b" "pool' = pool"
    | (committed) p pool1 where "reports b (command_id command) = None" "prepare_command command b pool = Some (Inr (Ready p), pool1)"
      "prepared_command p = command" "commit_with_gate p gate b = Some (Inr report, b')"
      "reports b' (command_id command) = Some \<lparr>cached_command = command, cached_report = report\<rparr>"
proof (cases "reports b (command_id command)")
  case (Some cached)
  then have "cached_command cached = command" "report = replayed_report cached" "b' = b" "pool' = pool"
    using assms by (auto simp: submit_with_gate_def prepare_replay split: if_splits)
  then show ?thesis
    using replayed Some by blast
next
  case None
  have noreplay: "prepare_command command b pool \<noteq> Some (Inr (Replay x), pool1)" for x pool1
    using None by (auto simp: prepare_command_def map_sum_eq_Inr split: option.splits sum.splits Option.bind_splits prod.splits)
  obtain p pool1 where p: "prepare_command command b pool = Some (Inr (Ready p), pool1)" "commit_with_gate p gate b = Some (Inr report, b')"
    using assms noreplay
    by (fastforce simp: submit_with_gate_def split: Option.bind_splits sum.splits CommandPreparation.splits prod.splits)
  have "prepared_command p = command"
    by (rule prepare_submission_ready [OF p(1)]) simp
  then show ?thesis
    using committed None p commit_caches [OF p(2)] by simp
qed

text \<open>
  C22. Submitting a command again after it succeeded returns its first report marked as a replay, whatever a gate
  says, and changes neither the book nor the pool.
\<close>

theorem submit_retry:
  assumes "submit command (b, pool) = Some (Inr report, b', pool')"
  shows "submit command (b', pool'') = Some (Inr (report\<lparr>report_replayed := True\<rparr>), b', pool'') \<and>
    reject_by_gate command reason (b', pool'') = Some (Inr (report\<lparr>report_replayed := True\<rparr>), b', pool'')"
proof -
  from assms have "\<exists>cached. reports b' (command_id command) = Some cached \<and> cached_command cached = command \<and>
      replayed_report cached = report\<lparr>report_replayed := True\<rparr>"
    unfolding submit_def by (cases rule: submit_cases) (auto simp: replayed_report_def)
  then show ?thesis
    by (auto simp: submit_def reject_by_gate_def submit_with_gate_def prepare_replay)
qed

theorem submit_retry_witness:
  "submit sell_command (sample_book2, sample_pool)
     = Some (Inr ((report_of 2 sell_events)\<lparr>report_replayed := True\<rparr>), sample_book2, sample_pool)"
  by (rule submit_retry [OF sample_step2, THEN conjunct1])

text \<open>
  C25. An identifier that was used for another command is refused, and nothing changes.
\<close>

theorem submit_collision:
  assumes "submit command (b, pool) = Some (Inr report, b', pool')" "command_id other = command_id command" "other \<noteq> command"
  shows "submit other (b', pool'') = Some (Inl (CommandIdCollision (command_id command)), b', pool'')"
proof -
  from assms(1) have "\<exists>cached. reports b' (command_id command) = Some cached \<and> cached_command cached = command"
    unfolding submit_def by (cases rule: submit_cases) auto
  then show ?thesis
    using assms(2,3) by (auto simp: submit_def submit_with_gate_def prepare_replay)
qed

theorem submit_collision_witness:
  "submit (limit_order 2 7 2 Sell 6 (Limit 100) GoodTilCancelled) (sample_book2, sample_pool)
     = Some (Inl (CommandIdCollision 2), sample_book2, sample_pool)"
  using submit_collision [OF sample_step2, of "limit_order 2 7 2 Sell 6 (Limit 100) GoodTilCancelled"]
  by (simp add: sell_command_def limit_order_def)

definition history_free :: "OrderBook \<Rightarrow> OrderBook" where
  "history_free b = b\<lparr>reports := Map.empty, retained_event_count := 0, next_sequence := 0\<rparr>"

lemma matching_work_pos: "maximum_matching_work p n b = Some (Inr (events, trades)) \<Longrightarrow> 0 < events"
  by (auto simp: maximum_matching_work_def Let_def ok_or_def and_then_eq_Inr checked_def split: Option.bind_splits option.splits if_splits)

lemma stops_work_ge: "stops_work b xs work = Some (Inr (events, trades)) \<Longrightarrow> fst work \<le> events"
  by (induction xs arbitrary: work)
    (fastforce simp: and_check_Inr ok_or_def checked_def split: option.splits if_splits)+

lemma report_work_pos: "maximum_report_work command rejection b = Some (Inr (events, trades)) \<Longrightarrow> 0 < events"
proof (cases "rejection = None")
  case True
  assume w: "maximum_report_work command rejection b = Some (Inr (events, trades))"
  show ?thesis
  proof (cases command)
    case (New c)
    then show ?thesis
      using w True
      by (auto simp: maximum_report_work_def usize_events_def and_check_Inr new_work_def and_then_eq_Inr ok_or_def checked_def
          dest: matching_work_pos split: if_splits option.splits)
  next
    case (Replace c)
    then show ?thesis
      using w True
      by (auto simp: maximum_report_work_def usize_events_def and_check_Inr replace_work_def and_then_eq_Inr ok_or_def checked_def
          dest: matching_work_pos split: if_splits option.splits)
  next
    case (CommandStopTriggerSweep c)
    then show ?thesis
      using w True
      by (auto simp: maximum_report_work_def maximum_stop_trigger_work_def Let_def and_check_Inr and_then_eq_Inr ok_or_def checked_def
          dest!: stops_work_ge split: if_splits option.splits)
  qed (use w True in \<open>auto simp: maximum_report_work_def one_more_def and_then_eq_Inr ok_or_def checked_def split: if_splits option.splits\<close>)
qed (simp add: maximum_report_work_def)

text \<open>What preparation has checked: room for the events of the report.\<close>

lemma preflight_facts:
  assumes "preflight command b = Some (Inr (rejection, events))"
  obtains trades where "maximum_report_work command rejection b = Some (Inr (events, trades))" "0 < events"
    "core_rejection_of command b = Some rejection" "check_command_capacity command rejection b = Some (Inr ())"
    "events \<le> max_report_events (limits b)" "retained_event_count b + events \<le> max_retained_events (limits b)"
    "fits_u64 (next_sequence b + events)" "fits_u64 (next_trade_id b + trades)" "fits_usize (retained_event_count b + events)"
    "card (dom (reports b)) < max_retained_commands (limits b)"
proof -
  obtain trades where p: "check_history_capacity_and_business command b = Some (Inr rejection)"
    "check_command_capacity command rejection b = Some (Inr ())"
    "maximum_report_work command rejection b = Some (Inr (events, trades))" "events \<le> max_report_events (limits b)"
    "check_event_capacity command rejection events b = Inr ()" "fits_u64 (next_sequence b + events)"
    "fits_u64 (next_trade_id b + trades)"
    using assms
    by (auto simp: preflight_def and_check_Inr ensure_def ok_or_def checked_def split: option.splits if_splits)
  have "core_rejection_of command b = Some rejection" "card (dom (reports b)) < max_retained_commands (limits b)"
    using p(1) by (auto simp: check_history_capacity_and_business_def Let_def split: if_splits option.splits)
  moreover have "fits_usize (retained_event_count b + events)" "retained_event_count b + events \<le> max_retained_events (limits b)"
    using p(5) by (auto simp: check_event_capacity_def and_then_eq_Inr ok_or_def checked_def ensure_def split: if_splits option.splits)
  ultimately show thesis
    using that p report_work_pos [OF p(3)] by blast
qed

lemma rejected_outcome:
  assumes "rejected c t reason (b, tr) = Some (r, s')"
  shows "r = Inl SequenceExhausted \<and> \<not> fits_u64 (next_sequence b + 1) \<or>
    r = Inr \<lparr>report_command_id = c, report_outcome = Rejected reason,
             report_events = trace_events tr @ [\<lparr>event_sequence = next_sequence b, event_command_id = c,
               occurred_at = t, event_kind = CommandRejected reason\<rparr>], report_replayed = False\<rparr> \<and>
    fst s' = b\<lparr>next_sequence := next_sequence b + 1\<rparr>"
  using assms
  by (auto simp: rejected_def and_do_def push_event_def trace_push_def checked_def Let_def
      split: option.splits sum.splits Option.bind_splits prod.splits if_splits)

text \<open>
  C23. A command the business rules or a gate reject is reported as rejected with one event, and the book changes in
  its history only: orders, levels, accounts, controls and references stay.
\<close>

theorem rejection_keeps_book:
  assumes "prepare_command command b pool = Some (Inr (Ready p), pool')"
    "(if core_rejection p \<noteq> None then core_rejection p else gate) = Some reason"
    "commit_with_gate p gate b = Some (r, b')"
  shows "r = Inr \<lparr>report_command_id = command_id command, report_outcome = Rejected reason,
             report_events = [\<lparr>event_sequence = next_sequence b, event_command_id = command_id command,
               occurred_at = received_at command, event_kind = CommandRejected reason\<rparr>], report_replayed = False\<rparr> \<and>
    history_free b' = history_free b \<and>
    next_sequence b' = next_sequence b + 1 \<and> retained_event_count b' = retained_event_count b + 1"
proof -
  obtain rejection events selection where q: "reports b (command_id command) = None"
    "preflight command b = Some (Inr (rejection, events))"
    "p = \<lparr>prepared_command = command, book_instance_id = instance_id b, expected_retained_commands = card (dom (reports b)),
          core_rejection = rejection, maximum_events = events, selected_order_ids = selection\<rparr>"
    by (rule prepare_submission_ready [OF assms(1)]) (rule that)
  obtain tr where tr: "trace_new (max_retained_events (limits b)) (retained_event_count b) events = Some tr" "trace_events tr = []"
    using assms(3) q by (auto simp: commit_with_gate_def trace_new_def split: Option.bind_splits)
  obtain r' s' where rej: "rejected (command_id command) (received_at command) reason (b, tr) = Some (r', s')"
    "(case r' of Inl e \<Rightarrow> Some (Inl e, fst s') | Inr report \<Rightarrow> map_option (Pair (Inr report)) (cache_report command report (fst s')))
       = Some (r, b')"
    using assms(2,3) q tr(1) by (auto simp: commit_with_gate_def split: Option.bind_splits)
  obtain trades where f: "0 < events" "fits_u64 (next_sequence b + events)"
    by (rule preflight_facts [OF q(2)]) (rule that)
  have "fits_u64 (next_sequence b + 1)"
    using f by (intro fits_u64_mono [OF f(2)]) simp
  then show ?thesis
    using rejected_outcome [OF rej(1)] rej(2) tr(2)
    by (auto simp: cache_report_def history_free_def checked_def split: Option.bind_splits if_splits)
qed

theorem rejection_keeps_book_witness:
  "\<exists>r b. commit_with_gate rejected_preparation None sample_book1 = Some (r, b) \<and>
     history_free b = history_free sample_book1 \<and> next_sequence b = 3"
proof -
  obtain r b where c: "commit_with_gate rejected_preparation None sample_book1 = Some (r, b)"
    using sample_step5 by blast
  have "history_free b = history_free sample_book1 \<and> next_sequence b = next_sequence sample_book1 + 1"
    using rejection_keeps_book [OF sample_prep5 _ c, of UnknownOrder] by (simp add: rejected_preparation_def)
  then show ?thesis
    using c by (auto simp: sample_book1_def)
qed

text \<open>
  C21. A defect: with room for one active account, a resting sell order and a dormant stop of the same seller, an
  aggressive buy order of another account whose residual would rest passes preparation without a rejection, and
  committing it panics.  The scan that decides which accounts the match releases counts the dormant stop as
  an order that the match removes.
\<close>

theorem dormant_stop_overruns_accounts:
  "book_limits_new sample_limits = Inr sample_limits \<and>
   (\<exists>r1 r2 r3 b1 b2 b3.
      submit reference_command (book_new 1 sample_definition sample_limits, pool_new sample_limits) = Some (Inr r1, b1) \<and>
      submit sell_command b1 = Some (Inr r2, b2) \<and> submit stop_command b2 = Some (Inr r3, b3) \<and>
      (\<exists>p pool. prepare_command buy_command (fst b3) (snd b3) = Some (Inr (Ready p), pool) \<and> core_rejection p = None \<and>
         commit_prepared p (fst b3) = None))"
proof -
  have "\<exists>p pool. prepare_command buy_command (fst (sample_book3, sample_pool)) (snd (sample_book3, sample_pool)) = Some (Inr (Ready p), pool) \<and>
      core_rejection p = None \<and> commit_prepared p (fst (sample_book3, sample_pool)) = None"
    using sample_prep4 sample_commit4 by (auto simp: aggressive_preparation_def)
  then show ?thesis
    using sample_limits_accepted sample_step1 sample_step2 sample_step3 unfolding sample_book_def sample_pool_def by blast
qed

end
