(* ===== verification/SubmissionLog.thy ===== *)
theory SubmissionLog
  imports SubmissionProperties
begin

text \<open>
  The log a book writes: whatever a command does, its report holds events with consecutive sequence numbers,
  its trades have consecutive identifiers, and what the history relies on is left alone.  These facts need no
  invariant of the book; they hold for every action built from the operations of the source.
\<close>

section \<open>Operations that leave the counters alone\<close>

definition stamps :: "OrderBook \<Rightarrow> nat \<times> InstrumentDefinition \<times> OrderBookLimits \<times> (CommandId \<rightharpoonup> CachedReport) \<times> nat \<times> nat \<times> nat" where
  "stamps b = (instance_id b, book_definition b, limits b, reports b, retained_event_count b, next_sequence b, next_trade_id b)"

named_theorems keeps \<open>operations on the book that leave its counters and history alone\<close>

lemma stamps_set_levels [simp]: "stamps (set_levels side l b) = stamps b"
  by (cases side) (simp_all add: stamps_def)

lemma stamps_fields [simp]:
  "stamps (b\<lparr>orders := a\<rparr>) = stamps b" "stamps (b\<lparr>expiries := e\<rparr>) = stamps b" "stamps (b\<lparr>buy_stops := bs\<rparr>) = stamps b"
  "stamps (b\<lparr>sell_stops := ss\<rparr>) = stamps b" "stamps (b\<lparr>account_orders := ao\<rparr>) = stamps b"
  "stamps (b\<lparr>seen_order_ids := ids\<rparr>) = stamps b" "stamps (b\<lparr>account_controls := ac\<rparr>) = stamps b"
  "stamps (b\<lparr>trading_state := ts\<rparr>) = stamps b" "stamps (b\<lparr>expiry_watermark := w\<rparr>) = stamps b"
  "stamps (b\<lparr>stop_reference := r\<rparr>) = stamps b"
  by (simp_all add: stamps_def)

lemma modify_keeps [keeps]:
  "modify_order x f b = Some b' \<Longrightarrow> stamps b' = stamps b"
  "modify_optional o' f b = Some b' \<Longrightarrow> stamps b' = stamps b"
  by (auto simp: modify_order_def modify_optional_def split: option.splits)

lemma level_keeps [keeps]: "update_level side handle g b = Some (r, b') \<Longrightarrow> stamps b' = stamps b"
  by (auto simp: update_level_def split: Option.bind_splits option.splits prod.splits)

lemma expiry_keeps [keeps]:
  "insert_expiry order b = Some b' \<Longrightarrow> stamps b' = stamps b" "remove_expiry order b = Some b' \<Longrightarrow> stamps b' = stamps b"
  by (auto simp: insert_expiry_def remove_expiry_def split: Option.bind_splits option.splits prod.splits if_splits)

lemma stop_keeps [keeps]:
  "insert_stop order s b = Some b' \<Longrightarrow> stamps b' = stamps b"
  "remove_stop order s x b = Some (r, b') \<Longrightarrow> stamps b' = stamps b"
  by (auto simp: insert_stop_def remove_stop_def split: Side.splits Option.bind_splits option.splits prod.splits if_splits)

lemma membership_keeps [keeps]:
  "append_account_membership order b = Some (o', b') \<Longrightarrow> stamps b' = stamps b"
  "remove_account_membership order b = Some b' \<Longrightarrow> stamps b' = stamps b"
  by (auto simp: append_account_membership_def remove_account_membership_def Let_def
      dest!: keeps split: Option.bind_splits option.splits prod.splits)

lemma link_keeps [keeps]:
  "link_into_level order level b = Some (o', b') \<Longrightarrow> stamps b' = stamps b"
  "relink_to_displayed_tail order level b = Some (p, n, b') \<Longrightarrow> stamps b' = stamps b"
  by (auto simp: link_into_level_def relink_to_displayed_tail_def
      dest!: keeps split: Option.bind_splits option.splits prod.splits if_splits)

lemma append_keeps [keeps]:
  "append_order_preserving_account_index order b = Some b' \<Longrightarrow> stamps b' = stamps b"
  by (auto simp: append_order_preserving_account_index_def Let_def
      dest!: keeps split: Option.bind_splits option.splits prod.splits)

lemma append_order_keeps [keeps]:
  "append_order order b = Some b' \<Longrightarrow> stamps b' = stamps b"
  "append_dormant_stop order b = Some b' \<Longrightarrow> stamps b' = stamps b"
  by (auto simp: append_order_def append_dormant_stop_def Let_def
      dest!: keeps split: Option.bind_splits option.splits prod.splits)

lemma remove_keeps [keeps]:
  "remove_order_preserving_account_index_at x handle b = Some (r, b') \<Longrightarrow> stamps b' = stamps b"
  "remove_dormant_stop_preserving_account_index x b = Some (r, b') \<Longrightarrow> stamps b' = stamps b"
  by (auto simp: remove_order_preserving_account_index_at_def remove_dormant_stop_preserving_account_index_def Let_def
      dest!: keeps split: Option.bind_splits option.splits prod.splits if_splits)

lemma remove_order_keeps [keeps]:
  "remove_order_preserving_account_index x b = Some (r, b') \<Longrightarrow> stamps b' = stamps b"
  "remove_order_at_level x handle b = Some (r, b') \<Longrightarrow> stamps b' = stamps b"
  by (auto simp: remove_order_preserving_account_index_def remove_order_at_level_def
      dest!: keeps split: Option.bind_splits option.splits prod.splits if_splits)

lemma remove_any_keeps [keeps]: "remove_order x b = Some (r, b') \<Longrightarrow> stamps b' = stamps b"
  by (auto simp: remove_order_def dest!: keeps split: Option.bind_splits option.splits prod.splits if_splits)

lemma refresh_keeps [keeps]: "refresh_resting order q handle b = Some (r, b') \<Longrightarrow> stamps b' = stamps b"
  by (auto simp: refresh_resting_def Let_def dest!: keeps split: Option.bind_splits option.splits prod.splits if_splits)

lemma decrement_keeps [keeps]: "decrement_resting x q handle b = Some (r, b') \<Longrightarrow> stamps b' = stamps b"
  by (auto simp: decrement_resting_def dest!: keeps split: Option.bind_splits option.splits prod.splits if_splits)

lemma detach_keeps [keeps]: "detach_account_order_scope a scope n b = Some b' \<Longrightarrow> stamps b' = stamps b"
  by (auto simp: detach_account_order_scope_def Let_def split: Option.bind_splits MassCancelScope.splits if_splits)

lemma replace_keeps [keeps]:
  "replace_in_place command old b = Some b' \<Longrightarrow> stamps b' = stamps b"
  "reindex_stop old s n b = Some b' \<Longrightarrow> stamps b' = stamps b"
  by (auto simp: replace_in_place_def reindex_stop_def Let_def dest!: keeps split: Option.bind_splits option.splits prod.splits)


section \<open>Actions that write the log\<close>

text \<open>What an action leaves alone: the place of the trace and what the history of the book rests on.\<close>

definition anchors :: "Exec \<Rightarrow> nat \<times> nat \<times> nat \<times> InstrumentDefinition \<times> OrderBookLimits \<times> (CommandId \<rightharpoonup> CachedReport) \<times> nat" where
  "anchors s = (trace_start (snd s), trace_maximum (snd s), instance_id (fst s), book_definition (fst s), limits (fst s),
     reports (fst s), retained_event_count (fst s))"

text \<open>The refusals in a trace.\<close>

fun is_refusal :: "EventKind \<Rightarrow> bool" where
  "is_refusal (CommandRejected _) = True"
| "is_refusal _ = False"

definition logged :: "CommandId \<Rightarrow> TimestampNs \<Rightarrow> Exec \<Rightarrow> Exec \<Rightarrow> bool" where
  "logged c t s s' \<longleftrightarrow>
     (\<exists>ks. trace_events (snd s') = trace_events (snd s) @ numbered c t (next_sequence (fst s)) ks \<and>
        next_sequence (fst s') = next_sequence (fst s) + length ks \<and>
        next_trade_id (fst s) \<le> next_trade_id (fst s') \<and>
        map trade_id (trades_of ks) = [next_trade_id (fst s)..<next_trade_id (fst s')] \<and>
        (\<forall>k\<in>set ks. \<not> is_refusal k) \<and> (ks \<noteq> [] \<longrightarrow> fits_u64 (next_sequence (fst s'))) \<and>
        anchors s' = anchors s)"

lemma logged_stamps: "stamps (fst s') = stamps (fst s) \<Longrightarrow> snd s' = snd s \<Longrightarrow> logged c t s s'"
  by (simp add: logged_def stamps_def anchors_def exI [of _ "[]"])

lemma logged_trans:
  assumes "logged c t s s1" "logged c t s1 s2"
  shows "logged c t s s2"
proof -
  obtain ks ks' where k: "trace_events (snd s1) = trace_events (snd s) @ numbered c t (next_sequence (fst s)) ks"
      "next_sequence (fst s1) = next_sequence (fst s) + length ks"
      "map trade_id (trades_of ks) = [next_trade_id (fst s)..<next_trade_id (fst s1)]"
      "trace_events (snd s2) = trace_events (snd s1) @ numbered c t (next_sequence (fst s1)) ks'"
      "next_sequence (fst s2) = next_sequence (fst s1) + length ks'"
      "map trade_id (trades_of ks') = [next_trade_id (fst s1)..<next_trade_id (fst s2)]"
      "next_trade_id (fst s) \<le> next_trade_id (fst s1)" "next_trade_id (fst s1) \<le> next_trade_id (fst s2)"
      "anchors s1 = anchors s" "anchors s2 = anchors s1"
      "\<forall>k\<in>set (ks @ ks'). \<not> is_refusal k"
      "ks \<noteq> [] \<longrightarrow> fits_u64 (next_sequence (fst s1))" "ks' \<noteq> [] \<longrightarrow> fits_u64 (next_sequence (fst s2))"
    using assms unfolding logged_def set_append by blast
  have "map trade_id (trades_of (ks @ ks')) = [next_trade_id (fst s)..<next_trade_id (fst s2)]"
    using k(3,6,7,8) upt_add_eq_append [of "next_trade_id (fst s)" "next_trade_id (fst s1)" "next_trade_id (fst s2) - next_trade_id (fst s1)"]
    by simp
  moreover have "ks @ ks' \<noteq> [] \<longrightarrow> fits_u64 (next_sequence (fst s2))"
    using k(12,13) k(5) by (cases "ks' = []") auto
  ultimately show ?thesis
    using k(1,2,4,5,7,8,9,10,11) unfolding logged_def
    by (intro exI [of _ "ks @ ks'"]) (simp add: numbered_append)
qed

definition logs :: "CommandId \<Rightarrow> TimestampNs \<Rightarrow> 'a action \<Rightarrow> bool" where
  "logs c t m \<longleftrightarrow> (\<forall>s r s'. m s = Some (Inr r, s') \<longrightarrow> logged c t s s')"

named_theorems logs_rules \<open>actions that write the log\<close>

lemma logs_and_do [logs_rules]: "logs c t m \<Longrightarrow> (\<And>a. logs c t (f a)) \<Longrightarrow> logs c t (and_do m f)"
  unfolding logs_def and_do_def by (fastforce intro: logged_trans split: option.splits sum.splits prod.splits)

lemma logs_read [logs_rules]:
  "logs c t (give a)" "logs c t (fail e)" "logs c t (observe f)" "logs c t (attempt g)" "logs c t (require p)"
  "logs c t (accepted x)" "logs c t (resolve_selection sel f' g')"
  by (auto simp: logs_def give_def fail_def observe_def attempt_def require_def accepted_def resolve_selection_def
      split: sum.splits intro!: logged_stamps)

lemma logs_update [logs_rules]: "(\<And>b r b'. f b = Some (r, b') \<Longrightarrow> stamps b' = stamps b) \<Longrightarrow> logs c t (update f)"
  by (auto simp: logs_def update_def intro!: logged_stamps)

lemma logs_update_book [logs_rules]: "(\<And>b b'. f b = Some b' \<Longrightarrow> stamps b' = stamps b) \<Longrightarrow> logs c t (update_book f)"
  by (auto simp: logs_def update_book_def intro!: logged_stamps)

lemma logs_set_book [logs_rules]: "(\<And>b. stamps (f b) = stamps b) \<Longrightarrow> logs c t (set_book f)"
  unfolding set_book_def by (rule logs_update_book) auto

lemma logs_operations [logs_rules]:
  "logs c t (update_book (append_order order))" "logs c t (update_book (append_dormant_stop order))"
  "logs c t (update (remove_order x))" "logs c t (update (remove_order_preserving_account_index x))"
  "logs c t (update_book (detach_account_order_scope a scope n))"
  "logs c t (update_book (replace_in_place replacement old))" "logs c t (update_book (reindex_stop old sequence k))"
  "logs c t (update_book (modify_order x g))"
  by (rule logs_update logs_update_book, erule keeps)+

lemma logs_push [logs_rules]: "\<not> is_trade k \<Longrightarrow> \<not> is_refusal k \<Longrightarrow> logs c t (push_event c t k)"
  by (auto simp: logs_def logged_def anchors_def push_event_def trace_push_def checked_def Let_def exI [of _ "[k]"]
      split: option.splits Option.bind_splits if_splits)

lemma logs_push_more [logs_rules]:
  "logs c t (push_cancelled c t x n r)" "logs c t (push_refresh c t refresh)"
  unfolding push_cancelled_def push_refresh_def by (intro logs_rules is_trade.simps; simp)+

lemma logs_case [logs_rules]:
  "(P \<Longrightarrow> logs c t m) \<Longrightarrow> (\<not> P \<Longrightarrow> logs c t m') \<Longrightarrow> logs c t (if P then m else m')"
  "logs c t n \<Longrightarrow> (\<And>a. logs c t (f a)) \<Longrightarrow> logs c t (case o' of None \<Rightarrow> n | Some a \<Rightarrow> f a)"
  "(\<And>a b. logs c t (g a b)) \<Longrightarrow> logs c t (case p of (a, b) \<Rightarrow> g a b)"
  by (auto split: option.split prod.split)

lemma logs_fill [logs_rules]:
  "logs c t (fill_resting x n handle c t)" "logs c t (cancel_resting x handle c t)" "logs c t (cancel_incoming incoming reason c t)"
  unfolding fill_resting_def cancel_resting_def cancel_incoming_def by (intro logs_rules; erule keeps)+

lemma logs_prevent [logs_rules]: "logs c t (prevent_self_trade incoming resting handle c t)"
  unfolding prevent_self_trade_def Let_def
  by (intro logs_rules) (auto split: SelfTradePrevention.split intro!: logs_rules)

text \<open>The identifier drawn for a trade is used up by its event.\<close>

lemma logs_trade:
  assumes "\<And>a. logs c t (f a)"
  shows "logs c t (and_do (make_trade incoming resting n) (\<lambda>trade. and_do (push_event c t (TradeOccurred trade)) f))"
proof -
  have one: "logged c t s s2"
    if m: "make_trade incoming resting n s = Some (Inr trade, s1)" and p: "push_event c t (TradeOccurred trade) s1 = Some (Inr (), s2)"
    for s s1 s2 trade
  proof -
    have "trade_id trade = next_trade_id (fst s)" "fst s1 = (fst s)\<lparr>next_trade_id := next_trade_id (fst s) + 1\<rparr>" "snd s1 = snd s"
      using m by (auto simp: make_trade_def Let_def identifier_new_def checked_def split: sum.splits option.splits Option.bind_splits if_splits)
    moreover have "trace_events (snd s2) = trace_events (snd s1) @ numbered c t (next_sequence (fst s1)) [TradeOccurred trade]"
        "fst s2 = (fst s1)\<lparr>next_sequence := next_sequence (fst s1) + 1\<rparr>" "trace_start (snd s2) = trace_start (snd s1)"
        "trace_maximum (snd s2) = trace_maximum (snd s1)" "fits_u64 (next_sequence (fst s2))"
      using p by (auto simp: push_event_def trace_push_def checked_def Let_def split: option.splits Option.bind_splits if_splits)
    ultimately show ?thesis
      unfolding logged_def anchors_def by (intro exI [of _ "[TradeOccurred trade]"]) simp
  qed
  show ?thesis
    using assms one unfolding logs_def and_do_def by (fastforce intro: logged_trans split: option.splits sum.splits prod.splits)
qed

lemma logs_execute_against [logs_rules]: "logs c t (execute_against incoming resting handle c t)"
  unfolding execute_against_def Let_def by (intro logs_trade logs_rules)

lemma logs_match_turn: "logs c t (match_turn c t incoming)"
  unfolding match_turn_def by (intro logs_rules)

lemma match_loop_logged:
  assumes "match_loop c t incoming s = Some res"
  shows "\<forall>r s'. res = (Inr r, s') \<longrightarrow> logged c t s s'"
proof (rule match_loop.raw_induct [OF _ assms, where P = "\<lambda>c t incoming s res. \<forall>r s'. res = (Inr r, s') \<longrightarrow> logged c t s s'"], goal_cases)
  case (1 loop c t incoming s res)
  show ?case
  proof (cases "incoming_leaves incoming = 0")
    case True
    then have "res = (Inr incoming, s)"
      using 1(2) by simp
    then show ?thesis
      using logged_stamps [of s s c t] by simp
  next
    case False
    then consider e s1 where "res = (Inl e, s1)"
      | s1 where "match_turn c t incoming s = Some (Inr None, s1)" "res = (Inr incoming, s1)"
      | incoming1 s1 where "match_turn c t incoming s = Some (Inr (Some incoming1), s1)" "loop c t incoming1 s1 = Some res"
      using 1(2) by (auto split: option.splits prod.splits sum.splits)
    then show ?thesis
    proof cases
      case 2
      then show ?thesis
        using logs_match_turn [of c t incoming] by (auto simp: logs_def)
    next
      case 3
      then have "logged c t s s1"
        using logs_match_turn [of c t incoming] unfolding logs_def by blast
      then show ?thesis
        using 1(1) [OF 3(2)] logged_trans by blast
    qed simp
  qed
qed

lemma logs_match_loop [logs_rules]: "logs c t (match_loop c t incoming)"
  unfolding logs_def using match_loop_logged by blast

lemma logs_execute [logs_rules]: "logs c t (execute_incoming incoming tif c t)"
  unfolding execute_incoming_def rest_or_cancel_def Let_def
  by (intro logs_rules) (auto split: OrderType.split intro!: logs_rules)

section \<open>Every handler writes the log\<close>

lemma price_then:
  "and_do (price_market_to_limit command) f =
     (if new_order_type command \<noteq> MarketToLimit then f command
      else and_do (observe (\<lambda>b. best_price (opposite (new_side command)) b)) (\<lambda>price.
           and_do (push_event (new_command_id command) (new_received_at command)
                     (MarketToLimitPriced (new_order_id command) price)) (\<lambda>_. f (command\<lparr>new_order_type := Limit price\<rparr>))))"
  by (auto simp: price_market_to_limit_def and_do_def give_def fun_eq_iff split: option.splits sum.splits prod.splits)

lemma logs_minimum [logs_rules]:
  "logs (new_command_id command) (new_received_at command) (cancel_unavailable_minimum command)"
  unfolding cancel_unavailable_minimum_def by (intro logs_rules)

lemma logs_new [logs_rules]: "logs (new_command_id command) (new_received_at command) (apply_new command)"
proof -
  have m: "logs (new_command_id command) (new_received_at command) (cancel_unavailable_minimum (command\<lparr>new_order_type := t\<rparr>))" for t
    using logs_minimum [of "command\<lparr>new_order_type := t\<rparr>"] by simp
  show ?thesis
    unfolding apply_new_def price_then Let_def
    by (intro logs_rules) (auto split: OrderType.split intro!: logs_rules m)
qed

lemma logs_cancel [logs_rules]: "logs (cancel_command_id command) (cancel_received_at command) (apply_cancel command)"
  unfolding apply_cancel_def by (intro logs_rules) auto

lemma logs_cancel_each: "(\<And>x. logs c t (update (f x))) \<Longrightarrow> logs c t (cancel_each f c t reason xs n)"
proof (induction xs arbitrary: n)
  case (Cons x xs)
  then show ?case
    by (auto intro!: logs_and_do logs_read logs_push_more)
qed (simp add: logs_rules)

lemma logs_cancel_all [logs_rules]:
  "logs c t (cancel_account_orders a scope c t reason sel)" "logs c t (cancel_all_orders c t reason sel)"
  unfolding cancel_account_orders_def cancel_all_orders_def by (intro logs_rules logs_cancel_each)+

lemma logs_controls [logs_rules]:
  "logs (mass_command_id m) (mass_received_at m) (apply_mass_cancel m sel)"
  "logs (account_command_id a) (account_received_at a) (apply_account_control a osel)"
  "logs (state_command_id t) (state_received_at t) (apply_trading_state_control t osel)"
  unfolding apply_mass_cancel_def apply_account_control_def apply_trading_state_control_def Let_def
  by (intro logs_rules; auto split: AccountControlAction.split TradingStateControlAction.split intro!: logs_rules)+

lemma logs_any: "(\<And>s. logs c t (\<lambda>s'. Some (f s', s')))"
  by (auto simp: logs_def intro: logged_stamps)

lemma logs_expiry [logs_rules]: "logs (expiry_command_id e) (expiry_received_at e) (apply_expiry_sweep e sel)"
  unfolding apply_expiry_sweep_def Let_def by (intro logs_rules logs_any logs_cancel_each) auto

lemma logs_trigger: "logs (trigger_command_id command) (trigger_received_at command) (trigger_order command x)"
  unfolding trigger_order_def Let_def by (intro logs_rules) (auto intro!: logs_rules)

lemma logs_triggers [logs_rules]: "logs (trigger_command_id command) (trigger_received_at command) (trigger_orders command xs)"
proof (induction xs)
  case Nil
  show ?case
    by (simp only: trigger_orders.simps logs_read)
qed (auto intro!: logs_and_do logs_trigger)

lemma logs_sweep [logs_rules]: "logs (trigger_command_id command) (trigger_received_at command) (apply_stop_trigger_sweep command sel)"
  unfolding apply_stop_trigger_sweep_def Let_def by (intro logs_rules) auto

lemma logs_replace [logs_rules]: "logs (replace_command_id command) (replace_received_at command) (apply_replace command)"
  unfolding apply_replace_def apply_replace_dormant_stop_def push_replaced_def Let_def
  by (intro logs_rules) auto

lemma logs_apply: "logs (command_id command) (received_at command) (apply_command command sel)"
  by (cases command) (auto intro!: logs_rules)

section \<open>The report holds the trace\<close>

definition yields :: "CommandId \<Rightarrow> ExecutionReport action \<Rightarrow> bool" where
  "yields c m \<longleftrightarrow> (\<forall>s r s'. m s = Some (Inr r, s') \<longrightarrow>
     report_events r = trace_events (snd s') \<and> report_command_id r = c \<and> report_outcome r = Accepted \<and>
     \<not> report_replayed r)"

named_theorems yields_rules \<open>actions that report their trace\<close>

lemma yields_and_do [yields_rules]: "(\<And>a. yields c (f a)) \<Longrightarrow> yields c (and_do m f)"
  unfolding yields_def and_do_def by (fastforce split: option.splits sum.splits prod.splits)

lemma yields_accepted [yields_rules]: "yields c (accepted c)"
  by (simp add: yields_def accepted_def)

lemma yields_case [yields_rules]:
  "yields c m \<Longrightarrow> yields c m' \<Longrightarrow> yields c (if P then m else m')"
  "(\<And>a b. yields c (g a b)) \<Longrightarrow> yields c (case p of (a, b) \<Rightarrow> g a b)"
  by (auto split: prod.split)

lemma yields_apply: "yields (command_id command) (apply_command command sel)"
proof (cases command)
  case (New n)
  show ?thesis
    unfolding New apply_command.simps apply_new_def Let_def
    by (auto intro!: yields_rules split: OrderType.split)
next
  case (Replace r)
  show ?thesis
    unfolding Replace apply_command.simps apply_replace_def apply_replace_dormant_stop_def Let_def
    by (auto intro!: yields_rules)
qed (auto simp: apply_cancel_def apply_mass_cancel_def apply_account_control_def apply_trading_state_control_def apply_expiry_sweep_def
      apply_stop_trigger_sweep_def Let_def intro!: yields_rules)

section \<open>Every report has an event\<close>

text \<open>The length of the trace after an action that succeeds is larger.\<close>

definition lengthens :: "'a action \<Rightarrow> bool" where
  "lengthens m \<longleftrightarrow> (\<forall>s r s'. m s = Some (Inr r, s') \<longrightarrow> length (trace_events (snd s)) < length (trace_events (snd s')))"

definition extends :: "'a action \<Rightarrow> bool" where
  "extends m \<longleftrightarrow> (\<forall>s r s'. m s = Some (Inr r, s') \<longrightarrow> length (trace_events (snd s)) \<le> length (trace_events (snd s')))"

lemma logs_extends: "logs c t m \<Longrightarrow> extends m"
  unfolding logs_def extends_def logged_def by fastforce

lemma lengthens_first: "lengthens m \<Longrightarrow> (\<And>a. extends (f a)) \<Longrightarrow> lengthens (and_do m f)"
  unfolding lengthens_def extends_def and_do_def by (fastforce split: option.splits sum.splits prod.splits)

lemma lengthens_second: "extends m \<Longrightarrow> (\<And>a. lengthens (f a)) \<Longrightarrow> lengthens (and_do m f)"
  unfolding lengthens_def extends_def and_do_def by (fastforce split: option.splits sum.splits prod.splits)

lemma lengthens_push: "lengthens (push_event c t k)"
  by (auto simp: lengthens_def push_event_def trace_push_def checked_def Let_def split: option.splits Option.bind_splits if_splits)

lemma lengthens_push_first: "(\<And>a. logs c t (f a)) \<Longrightarrow> lengthens (and_do (push_event c t k) f)"
  by (rule lengthens_first [OF lengthens_push logs_extends])

lemma lengthens_then: "logs c t m \<Longrightarrow> (\<And>a. lengthens (f a)) \<Longrightarrow> lengthens (and_do m f)"
  by (rule lengthens_second [OF logs_extends])

lemma lengthens_case:
  "lengthens m \<Longrightarrow> lengthens m' \<Longrightarrow> lengthens (if P then m else m')" "(\<And>a b. lengthens (g a b)) \<Longrightarrow> lengthens (case p of (a, b) \<Rightarrow> g a b)"
  by (auto split: prod.split)

lemma lengthens_replaced: "lengthens (push_replaced command old)"
  unfolding push_replaced_def by (rule lengthens_then [OF logs_read(3)]) (rule lengthens_push)

lemmas lengthens_rules = lengthens_push_first lengthens_case lengthens_then

lemma lengthens_apply: "lengthens (apply_command command sel)"
proof (cases command)
  case (New n)
  have m: "logs (new_command_id n) (new_received_at n) (cancel_unavailable_minimum (n\<lparr>new_order_type := t\<rparr>))" for t
    using logs_minimum [of "n\<lparr>new_order_type := t\<rparr>"] by simp
  show ?thesis
    unfolding New apply_command.simps apply_new_def price_then Let_def
    by (intro lengthens_push_first [where c = "new_command_id n" and t = "new_received_at n"] lengthens_case
        lengthens_then [where c = "new_command_id n" and t = "new_received_at n"] logs_rules) (auto split: OrderType.split intro!: logs_rules m)
next
  case (Cancel r)
  show ?thesis
    unfolding Cancel apply_command.simps apply_cancel_def
    by (intro lengthens_push_first [where c = "cancel_command_id r" and t = "cancel_received_at r"] lengthens_case
        lengthens_then [where c = "cancel_command_id r" and t = "cancel_received_at r"] logs_rules; (erule keeps)?)
next
  case (CommandMassCancel r)
  show ?thesis
    unfolding CommandMassCancel apply_command.simps apply_mass_cancel_def Let_def
    by (intro lengthens_push_first [where c = "mass_command_id r" and t = "mass_received_at r"] lengthens_case
        lengthens_then [where c = "mass_command_id r" and t = "mass_received_at r"] logs_rules)
next
  case (CommandAccountControl r)
  show ?thesis
    unfolding CommandAccountControl apply_command.simps apply_account_control_def Let_def
    by (intro lengthens_push_first [where c = "account_command_id r" and t = "account_received_at r"] lengthens_case
        lengthens_then [where c = "account_command_id r" and t = "account_received_at r"] logs_rules) (auto split: AccountControlAction.split intro!: logs_rules)
next
  case (CommandTradingStateControl r)
  show ?thesis
    unfolding CommandTradingStateControl apply_command.simps apply_trading_state_control_def Let_def
    by (intro lengthens_push_first [where c = "state_command_id r" and t = "state_received_at r"] lengthens_case
        lengthens_then [where c = "state_command_id r" and t = "state_received_at r"] logs_rules) (auto split: TradingStateControlAction.split intro!: logs_rules)
next
  case (CommandExpirySweep r)
  show ?thesis
    unfolding CommandExpirySweep apply_command.simps apply_expiry_sweep_def Let_def
    by (intro lengthens_push_first [where c = "expiry_command_id r" and t = "expiry_received_at r"] lengthens_case
        lengthens_then [where c = "expiry_command_id r" and t = "expiry_received_at r"] logs_rules logs_any logs_cancel_each) auto
next
  case (CommandStopTriggerSweep r)
  show ?thesis
    unfolding CommandStopTriggerSweep apply_command.simps apply_stop_trigger_sweep_def Let_def
    by (intro lengthens_push_first [where c = "trigger_command_id r" and t = "trigger_received_at r"] lengthens_case
        lengthens_then [where c = "trigger_command_id r" and t = "trigger_received_at r"] logs_rules) auto
next
  case (Replace r)
  show ?thesis
    unfolding Replace apply_command.simps apply_replace_def apply_replace_dormant_stop_def Let_def
    by (intro lengthens_first [OF lengthens_replaced] lengthens_case
        lengthens_then [where c = "replace_command_id r" and t = "replace_received_at r"] logs_extends [where c = "replace_command_id r" and t = "replace_received_at r"] logs_rules) (auto dest: keeps)
qed

section \<open>Commitment and sessions\<close>

definition trade_ids :: "Event list \<Rightarrow> TradeId list" where
  "trade_ids es = map trade_id (trades_of (map event_kind es))"

lemma numbered_kinds [simp]: "map event_kind (numbered c t n ks) = ks"
  by (induction ks arbitrary: n) auto

lemma numbered_sequences [simp]: "map event_sequence (numbered c t n ks) = [n..<n + length ks]"
  by (induction ks arbitrary: n) (auto simp: upt_rec)

lemma numbered_command: "\<forall>e\<in>set (numbered c t n ks). event_command_id e = c"
  by (induction ks arbitrary: n) auto

lemma rejected_representable:
  "rejected c t reason (b, tr) = Some (Inr report, s') \<Longrightarrow> fits_u64 (next_sequence b + 1)"
  by (auto simp: rejected_def and_do_def push_event_def trace_push_def checked_def Let_def
      split: option.splits sum.splits Option.bind_splits prod.splits if_splits)

lemma commit_logged:
  assumes commit: "commit_with_gate p gate b = Some (Inr report, b')" and new: "reports b (command_id (prepared_command p)) = None"
  shows "map event_sequence (report_events report) = [next_sequence b..<next_sequence b']"
    "next_sequence b' = next_sequence b + length (report_events report)"
    "next_trade_id b \<le> next_trade_id b'" "trade_ids (report_events report) = [next_trade_id b..<next_trade_id b']"
    "retained_event_count b' = retained_event_count b + length (report_events report)"
    "retained_event_count b' \<le> max_retained_events (limits b')" "limits b' = limits b"
    "\<not> report_replayed report" "report_command_id report = command_id (prepared_command p)"
    "report_events report \<noteq> []" "\<forall>e\<in>set (report_events report). event_command_id e = command_id (prepared_command p)"
    "fits_u64 (next_sequence b')"
    "reports b' = (reports b)(command_id (prepared_command p) \<mapsto> \<lparr>cached_command = prepared_command p, cached_report = report\<rparr>)"
    "case report_outcome report of
       Accepted \<Rightarrow> \<forall>e\<in>set (report_events report). \<not> is_refusal (event_kind e)
     | Rejected reason \<Rightarrow> map event_kind (report_events report) = [CommandRejected reason]"
proof -
  let ?c = "prepared_command p"
  let ?m = "case (if core_rejection p \<noteq> None then core_rejection p else gate) of
      Some reason \<Rightarrow> rejected (command_id ?c) (received_at ?c) reason | None \<Rightarrow> apply_command ?c (selected_order_ids p)"
  obtain tr s' where tr: "trace_new (max_retained_events (limits b)) (retained_event_count b) (maximum_events p) = Some tr"
    and m: "?m (b, tr) = Some (Inr report, s')" and cache: "cache_report ?c report (fst s') = Some b'"
    using commit new
    by (auto simp: commit_with_gate_def Let_def split: Option.bind_splits sum.splits prod.splits if_splits option.splits)
  have t: "trace_events tr = []"
    using tr by (auto simp: trace_new_def split: Option.bind_splits)
  obtain ks where ks: "report_events report = numbered (command_id ?c) (received_at ?c) (next_sequence b) ks"
      "next_sequence (fst s') = next_sequence b + length ks" "next_trade_id b \<le> next_trade_id (fst s')"
      "map trade_id (trades_of ks) = [next_trade_id b..<next_trade_id (fst s')]"
      "retained_event_count (fst s') = retained_event_count b" "limits (fst s') = limits b"
      "fits_u64 (next_sequence (fst s'))" "reports (fst s') = reports b" "ks \<noteq> []" "report_command_id report = command_id ?c" "\<not> report_replayed report"
    and outcome: "case report_outcome report of Accepted \<Rightarrow> \<forall>k\<in>set ks. \<not> is_refusal k | Rejected reason \<Rightarrow> ks = [CommandRejected reason]"
  proof (cases "if core_rejection p \<noteq> None then core_rejection p else gate")
    case (Some reason)
    then have "rejected (command_id ?c) (received_at ?c) reason (b, tr) = Some (Inr report, s')"
      using m by simp
    then show thesis
      using rejected_outcome [of "command_id ?c" "received_at ?c" reason b tr "Inr report" s'] t
        rejected_representable [of "command_id ?c" "received_at ?c" reason b tr report s']
      by (intro that [of "[CommandRejected reason]"]) auto
  next
    case None
    then have a: "apply_command ?c (selected_order_ids p) (b, tr) = Some (Inr report, s')"
      using m by simp
    have l: "logged (command_id ?c) (received_at ?c) (b, tr) s'" and n: "length (trace_events tr) < length (trace_events (snd s'))"
      using a logs_apply [of ?c "selected_order_ids p"] lengthens_apply [of ?c "selected_order_ids p"]
      unfolding logs_def lengthens_def by force+
    have y: "report_events report = trace_events (snd s')" "report_command_id report = command_id ?c" "\<not> report_replayed report"
        "report_outcome report = Accepted"
      using a yields_apply [of ?c "selected_order_ids p"] unfolding yields_def by auto
    show thesis
      using l n y t by (auto simp: logged_def anchors_def intro!: that)
  qed
  have b': "next_sequence b' = next_sequence (fst s')" "next_trade_id b' = next_trade_id (fst s')" "limits b' = limits (fst s')"
      "retained_event_count b' = retained_event_count (fst s') + length (report_events report)"
      "retained_event_count b' \<le> max_retained_events (limits b')"
      "reports b' = (reports (fst s'))(command_id ?c \<mapsto> \<lparr>cached_command = ?c, cached_report = report\<rparr>)"
    using cache by (auto simp: cache_report_def checked_def assert_that_def split: Option.bind_splits if_splits)
  show "map event_sequence (report_events report) = [next_sequence b..<next_sequence b']"
    "next_sequence b' = next_sequence b + length (report_events report)"
    "next_trade_id b \<le> next_trade_id b'" "trade_ids (report_events report) = [next_trade_id b..<next_trade_id b']"
    "retained_event_count b' = retained_event_count b + length (report_events report)"
    "retained_event_count b' \<le> max_retained_events (limits b')" "limits b' = limits b"
    "\<not> report_replayed report" "report_command_id report = command_id (prepared_command p)"
    "fits_u64 (next_sequence b')"
    "reports b' = (reports b)(command_id ?c \<mapsto> \<lparr>cached_command = ?c, cached_report = report\<rparr>)"
    using ks b' by (simp_all add: trade_ids_def)
  show "report_events report \<noteq> []"
    using ks(1,9) by (metis length_0_conv length_numbered)
  have kinds: "map event_kind (report_events report) = ks"
    by (simp add: ks(1))
  show "\<forall>e\<in>set (report_events report). event_command_id e = command_id ?c"
    unfolding ks(1) by (rule numbered_command)
  show "case report_outcome report of
       Accepted \<Rightarrow> \<forall>e\<in>set (report_events report). \<not> is_refusal (event_kind e)
     | Rejected reason \<Rightarrow> map event_kind (report_events report) = [CommandRejected reason]"
    using outcome kinds by (auto split: CommandOutcome.splits)
qed

text \<open>
  A session submits commands, through a gate or not; a command that preparation refuses changes nothing.  The
  journal of a session is the events of its reports, replays left out.
\<close>

inductive session :: "OrderBook \<Rightarrow> Event list \<Rightarrow> OrderBook \<Rightarrow> bool" for b0 where
  opened: "session b0 [] b0"
| submitted: "session b0 es b \<Longrightarrow> submit_with_gate command gate (b, pool) = Some (Inr report, b', pool') \<Longrightarrow>
    session b0 (es @ (if report_replayed report then [] else report_events report)) b'"
| refused: "session b0 es b \<Longrightarrow> prepare_command command b pool = Some (Inl e, pool') \<Longrightarrow>
    submit_with_gate command gate (b, pool) = Some (Inl e, b', pool'') \<Longrightarrow> session b0 es b'"


lemma session_counts:
  assumes "session b0 es b" "next_sequence b0 = 1" "next_trade_id b0 = 1" "retained_event_count b0 = 0"
  shows "map event_sequence es = [1..<next_sequence b] \<and> 1 \<le> next_sequence b \<and> length es = retained_event_count b \<and>
    trade_ids es = [1..<next_trade_id b] \<and> 1 \<le> next_trade_id b \<and> limits b = limits b0 \<and>
    length es \<le> max_retained_events (limits b0)"
  using assms
proof (induction rule: session.induct)
  case (submitted es b command gate pool report b' pool')
  from submitted.hyps(2) show ?case
  proof (cases rule: submit_cases)
    case replayed
    then show ?thesis
      using submitted by (simp add: replayed_report_def)
  next
    case (committed p)
    have new: "reports b (command_id (prepared_command p)) = None"
      using committed(1,3) by simp
    note c = commit_logged [OF committed(4) new]
    have join: "[1..<m] @ [m..<n] = [1..<n]" if "1 \<le> m" "m \<le> n" for m n :: nat
      using upt_add_eq_append [of 1 m "n - m"] that by simp
    have "map event_sequence (es @ report_events report) = [1..<next_sequence b']"
      using c(1,2) submitted join [of "next_sequence b" "next_sequence b'"] by simp
    moreover have "trade_ids (es @ report_events report) = [1..<next_trade_id b']"
      using c(3,4) submitted join [of "next_trade_id b" "next_trade_id b'"] by (simp add: trade_ids_def)
    ultimately show ?thesis
      using c submitted by simp
  qed
next
  case (refused es b command pool e pool' gate b' pool'')
  then have "b' = b"
    by (auto simp: submit_with_gate_def)
  then show ?case
    using refused by simp
qed (simp add: trade_ids_def)

text \<open>
  C17. The events that a session on a new book reports, replays left out, are numbered from one without gaps, their
  trades carry the identifiers from one without gaps, and the book's counters and history count say exactly how
  many there were, within the limit.
\<close>

theorem session_log:
  assumes "session (book_new i def lim) es b"
  shows "map event_sequence es = [1..<next_sequence b] \<and> trade_ids es = [1..<next_trade_id b] \<and>
    length es = retained_event_count b \<and> length es \<le> max_retained_events lim"
  using session_counts [OF assms] by (simp add: book_new_def)

theorem session_log_witness:
  "\<exists>es. session (book_new 1 sample_definition sample_limits) es sample_book2 \<and> map event_sequence es = [1, 2, 3] \<and> trade_ids es = []"
proof -
  note first = submitted [OF opened sample_step1 [unfolded submit_def], folded sample_book_def]
  have s: "session (book_new 1 sample_definition sample_limits)
      ([sample_event 1 1 (StopTriggerSweepCompleted None sample_reference 0 0)] @ sell_events) sample_book2"
    using submitted [OF first sample_step2 [unfolded submit_def]] by (simp add: report_of_def sample_book_def)
  show ?thesis
    using session_log [OF s]
    by (intro exI [of _ "[sample_event 1 1 (StopTriggerSweepCompleted None sample_reference 0 0)] @ sell_events"] conjI s)
      (simp_all add: sample_book2_def sample_book1_def upt_rec)
qed

end
