(* ===== verification/CodecMatching.thy ===== *)
theory CodecMatching
  imports CodecEnums
begin

text \<open>
  The encoding of commands, events and execution reports of \<open>src/src/codec.rs\<close>.  Each type has its writing
  function, its reading function, the values its Rust type can hold, and an interpretation of the interface
  \<open>wire\<close>; one arm of \<open>encode_command\<close> and \<open>decode_command\<close> is a function of its own here.
\<close>

section \<open>Order terms\<close>

fun encode_stop_activation :: "StopActivation \<Rightarrow> Encoder \<Rightarrow> Encoder" where
  "encode_stop_activation StopMarket = emit [write_u8 0]"
| "encode_stop_activation (StopLimit price) = emit [write_u8 1, write_i64 price]"

definition decode_stop_activation :: "StopActivation reading" where
  "decode_stop_activation = then_read read_u8 (\<lambda>tag.
     if tag = 0 then decoded StopMarket
     else if tag = 1 then then_read read_i64 (\<lambda>price. decoded (StopLimit price))
     else decode_error (InvalidTag ''StopActivation'' tag))"

fun valid_activation :: "StopActivation \<Rightarrow> bool" where
  "valid_activation StopMarket = True"
| "valid_activation (StopLimit price) = fits_i64 price"

fun encode_order_type :: "OrderType \<Rightarrow> Encoder \<Rightarrow> Encoder" where
  "encode_order_type Market = emit [write_u8 0]"
| "encode_order_type (Limit price) = emit [write_u8 1, write_i64 price]"
| "encode_order_type (Stop trigger activation) = emit [write_u8 2, write_i64 trigger, encode_stop_activation activation]"
| "encode_order_type MarketToLimit = emit [write_u8 3]"

definition decode_order_type :: "OrderType reading" where
  "decode_order_type = then_read read_u8 (\<lambda>tag.
     if tag = 0 then decoded Market
     else if tag = 1 then then_read read_i64 (\<lambda>price. decoded (Limit price))
     else if tag = 2 then
       then_read read_i64 (\<lambda>trigger. then_read decode_stop_activation (\<lambda>activation. decoded (Stop trigger activation)))
     else if tag = 3 then decoded MarketToLimit
     else decode_error (InvalidTag ''OrderType'' tag))"

fun valid_order_type :: "OrderType \<Rightarrow> bool" where
  "valid_order_type (Limit price) = fits_i64 price"
| "valid_order_type (Stop trigger activation) \<longleftrightarrow> fits_i64 trigger \<and> valid_activation activation"
| "valid_order_type _ = True"

fun encode_order_display :: "OrderDisplay \<Rightarrow> Encoder \<Rightarrow> Encoder" where
  "encode_order_display FullyDisplayed = emit [write_u8 0]"
| "encode_order_display (Reserve lots) = emit [write_u8 1, write_u64 lots]"
| "encode_order_display Hidden = emit [write_u8 2]"

definition decode_order_display :: "OrderDisplay reading" where
  "decode_order_display = then_read read_u8 (\<lambda>tag.
     if tag = 0 then decoded FullyDisplayed
     else if tag = 1 then then_read read_quantity (\<lambda>lots. decoded (Reserve lots))
     else if tag = 2 then decoded Hidden
     else decode_error (InvalidTag ''OrderDisplay'' tag))"

fun valid_display :: "OrderDisplay \<Rightarrow> bool" where
  "valid_display (Reserve lots) = valid_id lots"
| "valid_display _ = True"

fun encode_mass_cancel_scope :: "MassCancelScope \<Rightarrow> Encoder \<Rightarrow> Encoder" where
  "encode_mass_cancel_scope ScopeAll = emit [write_u8 0]"
| "encode_mass_cancel_scope (ScopeSide side) = emit [write_u8 1, encode_side side]"

definition decode_mass_cancel_scope :: "MassCancelScope reading" where
  "decode_mass_cancel_scope = then_read read_u8 (\<lambda>tag.
     if tag = 0 then decoded ScopeAll
     else if tag = 1 then then_read decode_side (\<lambda>side. decoded (ScopeSide side))
     else decode_error (InvalidTag ''MassCancelScope'' tag))"

fun encode_time_in_force :: "TimeInForce \<Rightarrow> Encoder \<Rightarrow> Encoder" where
  "encode_time_in_force GoodTilCancelled = emit [write_u8 0]"
| "encode_time_in_force ImmediateOrCancel = emit [write_u8 1]"
| "encode_time_in_force FillOrKill = emit [write_u8 2]"
| "encode_time_in_force PostOnly = emit [write_u8 3]"
| "encode_time_in_force (GoodTilTimestamp expires) = emit [write_u8 4, write_u64 expires]"
| "encode_time_in_force (ImmediateOrCancelWithMinimum lots) = emit [write_u8 5, write_u64 lots]"

definition decode_time_in_force :: "TimeInForce reading" where
  "decode_time_in_force = then_read read_u8 (\<lambda>tag.
     if tag = 0 then decoded GoodTilCancelled
     else if tag = 1 then decoded ImmediateOrCancel
     else if tag = 2 then decoded FillOrKill
     else if tag = 3 then decoded PostOnly
     else if tag = 4 then then_read read_u64 (\<lambda>expires. decoded (GoodTilTimestamp expires))
     else if tag = 5 then then_read read_quantity (\<lambda>lots. decoded (ImmediateOrCancelWithMinimum lots))
     else decode_error (InvalidTag ''TimeInForce'' tag))"

fun valid_time_in_force :: "TimeInForce \<Rightarrow> bool" where
  "valid_time_in_force (GoodTilTimestamp expires) = fits_u64 expires"
| "valid_time_in_force (ImmediateOrCancelWithMinimum lots) = valid_id lots"
| "valid_time_in_force _ = True"

definition encode_stop_reference :: "StopReference \<Rightarrow> Encoder \<Rightarrow> Encoder" where
  "encode_stop_reference v = emit
     [write_u64 (source_id (reference_cursor v)), write_u64 (source_version (reference_cursor v)),
      write_u64 (source_sequence (reference_cursor v)), write_i64 (reference_price v)]"

definition decode_stop_reference :: "StopReference reading" where
  "decode_stop_reference =
     then_read (read_identifier ''stop-reference source identifier'') (\<lambda>source.
     then_read (read_identifier ''stop-reference source version'') (\<lambda>version.
     then_read (read_identifier ''stop-reference sequence'') (\<lambda>sequence. then_read read_i64 (\<lambda>price.
     decoded \<lparr>reference_cursor = \<lparr>source_id = source, source_version = version, source_sequence = sequence\<rparr>,
       reference_price = price\<rparr>))))"

definition valid_stop_reference :: "StopReference \<Rightarrow> bool" where
  "valid_stop_reference v \<longleftrightarrow> valid_id (source_id (reference_cursor v)) \<and> valid_id (source_version (reference_cursor v)) \<and>
     valid_id (source_sequence (reference_cursor v)) \<and> fits_i64 (reference_price v)"

fun encode_optional_stop_reference :: "StopReference option \<Rightarrow> Encoder \<Rightarrow> Encoder" where
  "encode_optional_stop_reference (Some v) = emit [write_bool True, encode_stop_reference v]"
| "encode_optional_stop_reference None = emit [write_bool False, write_u64 0, write_u64 0, write_u64 0, write_i64 0]"

definition decode_optional_stop_reference :: "StopReference option reading" where
  "decode_optional_stop_reference =
     then_read read_bool (\<lambda>present. then_read read_u64 (\<lambda>source. then_read read_u64 (\<lambda>version.
     then_read read_u64 (\<lambda>sequence. then_read read_i64 (\<lambda>price.
     if \<not> present then
       if source \<noteq> 0 \<or> version \<noteq> 0 \<or> sequence \<noteq> 0 \<or> price \<noteq> 0
       then decode_error (InvalidValue ''absent stop reference must have zero-valued fields'')
       else decoded None
     else
       then_read (decoded_from (map_sum InvalidDomain id (identifier_new ''stop-reference source identifier'' source))) (\<lambda>source.
       then_read (decoded_from (map_sum InvalidDomain id (identifier_new ''stop-reference source version'' version))) (\<lambda>version.
       then_read (decoded_from (map_sum InvalidDomain id (identifier_new ''stop-reference sequence'' sequence))) (\<lambda>sequence.
       decoded (Some \<lparr>reference_cursor = \<lparr>source_id = source, source_version = version, source_sequence = sequence\<rparr>,
         reference_price = price\<rparr>)))))))))"

fun valid_optional_stop_reference :: "StopReference option \<Rightarrow> bool" where
  "valid_optional_stop_reference (Some v) = valid_stop_reference v"
| "valid_optional_stop_reference None = True"

definition encode_optional_timestamp :: "TimestampNs option \<Rightarrow> Encoder \<Rightarrow> Encoder" where
  "encode_optional_timestamp v = emit [write_bool (v \<noteq> None), write_u64 (case v of None \<Rightarrow> 0 | Some t \<Rightarrow> t)]"

definition decode_optional_timestamp :: "string \<Rightarrow> TimestampNs option reading" where
  "decode_optional_timestamp field =
     then_read read_bool (\<lambda>present. then_read read_u64 (\<lambda>t.
     if \<not> present \<and> t \<noteq> 0 then decode_error (InvalidValue field)
     else decoded (if present then Some t else None)))"

fun valid_optional_timestamp :: "TimestampNs option \<Rightarrow> bool" where
  "valid_optional_timestamp (Some t) = fits_u64 t"
| "valid_optional_timestamp None = True"

lemma fits_zero [simp]: "fits_u64 0" "fits_i64 0"
  by (simp_all add: width_defs)

interpretation stop_activation_wire: wire valid_activation encode_stop_activation decode_stop_activation
proof (unfold_locales, goal_cases)
  case (1 x)
  show ?case
    by (cases x) (simp_all add: writers)
next
  case (2 x R)
  then show ?case
    by (cases x) (simp_all add: decode_stop_activation_def layouts writers evaluations)
next
  case (3 bs x R)
  then show ?case
    by (auto simp: decode_stop_activation_def layouts writers readings split: if_splits)
qed

lemmas [writers] = stop_activation_wire.writes
lemmas [readings] = stop_activation_wire.reads_Inr
lemmas [evaluations] = stop_activation_wire.reads

interpretation order_type_wire: wire valid_order_type encode_order_type decode_order_type
proof (unfold_locales, goal_cases)
  case (1 x)
  show ?case
    by (cases x) (simp_all add: writers)
next
  case (2 x R)
  then show ?case
    by (cases x) (simp_all add: decode_order_type_def layouts writers evaluations)
next
  case (3 bs x R)
  then show ?case
    by (auto simp: decode_order_type_def layouts writers readings split: if_splits)
qed

interpretation order_display_wire: wire valid_display encode_order_display decode_order_display
proof (unfold_locales, goal_cases)
  case (1 x)
  show ?case
    by (cases x) (simp_all add: writers)
next
  case (2 x R)
  then show ?case
    by (cases x) (simp_all add: decode_order_display_def layouts writers evaluations)
next
  case (3 bs x R)
  then show ?case
    by (auto simp: valid_id_def decode_order_display_def layouts writers readings valid_id_def map_sum_eq_Inr identifier_new_def split: if_splits)
qed

interpretation mass_cancel_scope_wire: wire "\<lambda>_. True" encode_mass_cancel_scope decode_mass_cancel_scope
proof (unfold_locales, goal_cases)
  case (1 x)
  show ?case
    by (cases x) (simp_all add: writers)
next
  case (2 x R)
  then show ?case
    by (cases x) (simp_all add: decode_mass_cancel_scope_def layouts writers evaluations)
next
  case (3 bs x R)
  then show ?case
    by (auto simp: decode_mass_cancel_scope_def layouts writers readings split: if_splits)
qed

interpretation time_in_force_wire: wire valid_time_in_force encode_time_in_force decode_time_in_force
proof (unfold_locales, goal_cases)
  case (1 x)
  show ?case
    by (cases x) (simp_all add: writers)
next
  case (2 x R)
  then show ?case
    by (cases x) (simp_all add: decode_time_in_force_def layouts writers evaluations)
next
  case (3 bs x R)
  then show ?case
    by (auto simp: valid_id_def decode_time_in_force_def layouts writers readings valid_id_def map_sum_eq_Inr identifier_new_def split: if_splits)
qed

interpretation stop_reference_wire: wire valid_stop_reference encode_stop_reference decode_stop_reference
proof (unfold_locales, goal_cases)
  case (1 x)
  show ?case
    by (simp add: encode_stop_reference_def writers)
next
  case (2 x R)
  then show ?case
    by (cases x) (simp_all add: encode_stop_reference_def valid_stop_reference_def decode_stop_reference_def layouts writers evaluations)
next
  case (3 bs x R)
  then show ?case
    by (auto simp: encode_stop_reference_def valid_stop_reference_def decode_stop_reference_def layouts writers readings valid_id_def map_sum_eq_Inr identifier_new_def split: if_splits)
qed

lemmas [writers] = stop_reference_wire.writes
lemmas [readings] = stop_reference_wire.reads_Inr
lemmas [evaluations] = stop_reference_wire.reads

interpretation optional_stop_reference_wire: wire valid_optional_stop_reference encode_optional_stop_reference decode_optional_stop_reference
proof (unfold_locales, goal_cases)
  case (1 x)
  show ?case
    by (cases x) (simp_all add: writers)
next
  case (2 x R)
  then show ?case
    by (cases x) (simp_all add: valid_id_def identifier_new_def valid_stop_reference_def encode_stop_reference_def decode_optional_stop_reference_def layouts writers evaluations)
next
  case (3 bs x R)
  then show ?case
    by (auto simp: valid_stop_reference_def encode_stop_reference_def decode_optional_stop_reference_def layouts writers readings valid_id_def map_sum_eq_Inr identifier_new_def split: if_splits)
qed

interpretation optional_timestamp_wire: wire valid_optional_timestamp encode_optional_timestamp "decode_optional_timestamp field" for field
proof (unfold_locales, goal_cases)
  case (1 x)
  show ?case
    by (simp add: encode_optional_timestamp_def writers)
next
  case (2 x R)
  then show ?case
    by (cases x) (simp_all add: encode_optional_timestamp_def decode_optional_timestamp_def layouts writers evaluations)
next
  case (3 bs x R)
  then show ?case
    by (auto simp: encode_optional_timestamp_def decode_optional_timestamp_def layouts writers readings split: if_splits)
qed

lemmas term_writers [writers] = order_type_wire.writes order_display_wire.writes
  mass_cancel_scope_wire.writes time_in_force_wire.writes optional_stop_reference_wire.writes
  optional_timestamp_wire.writes
lemmas term_readings [readings] = order_type_wire.reads_Inr order_display_wire.reads_Inr
  mass_cancel_scope_wire.reads_Inr time_in_force_wire.reads_Inr
  optional_stop_reference_wire.reads_Inr optional_timestamp_wire.reads_Inr
lemmas term_evaluations [evaluations] = order_type_wire.reads order_display_wire.reads
  mass_cancel_scope_wire.reads [OF TrueI] time_in_force_wire.reads
  optional_stop_reference_wire.reads optional_timestamp_wire.reads

section \<open>Commands\<close>

definition encode_new_order :: "NewOrder \<Rightarrow> Encoder \<Rightarrow> Encoder" where
  "encode_new_order v = emit
     [write_u64 (new_command_id v), write_u64 (new_order_id v), write_u64 (new_account_id v),
      write_u64 (new_instrument_id v), write_u64 (new_instrument_version v), encode_side (new_side v),
      write_u64 (new_quantity v), encode_order_display (new_display v), encode_order_type (new_order_type v),
      encode_time_in_force (new_time_in_force v), encode_stp (new_self_trade_prevention v),
      write_u64 (new_received_at v)]"

definition decode_new_order :: "NewOrder reading" where
  "decode_new_order =
     then_read read_command_id (\<lambda>command_id. then_read read_order (\<lambda>order_id.
     then_read read_account (\<lambda>account_id. then_read read_instrument (\<lambda>instrument_id.
     then_read read_instrument_version (\<lambda>instrument_version. then_read decode_side (\<lambda>side.
     then_read read_quantity (\<lambda>quantity. then_read decode_order_display (\<lambda>display.
     then_read decode_order_type (\<lambda>order_type. then_read decode_time_in_force (\<lambda>time_in_force.
     then_read decode_stp (\<lambda>self_trade_prevention. then_read read_u64 (\<lambda>received_at.
     decoded \<lparr>new_command_id = command_id, new_order_id = order_id, new_account_id = account_id,
       new_instrument_id = instrument_id, new_instrument_version = instrument_version, new_side = side,
       new_quantity = quantity, new_display = display, new_order_type = order_type,
       new_time_in_force = time_in_force, new_self_trade_prevention = self_trade_prevention,
       new_received_at = received_at\<rparr>))))))))))))"

definition valid_new_order :: "NewOrder \<Rightarrow> bool" where
  "valid_new_order v \<longleftrightarrow>
     valid_id (new_command_id v) \<and> valid_id (new_order_id v) \<and> valid_id (new_account_id v) \<and>
     valid_id (new_instrument_id v) \<and> valid_id (new_instrument_version v) \<and>
     valid_id (new_quantity v) \<and> valid_display (new_display v) \<and>
     valid_order_type (new_order_type v) \<and> valid_time_in_force (new_time_in_force v) \<and>
     fits_u64 (new_received_at v)"

definition encode_cancel_order :: "CancelOrder \<Rightarrow> Encoder \<Rightarrow> Encoder" where
  "encode_cancel_order v = emit
     [write_u64 (cancel_command_id v), write_u64 (cancel_order_id v), write_u64 (cancel_account_id v),
      write_u64 (cancel_instrument_id v), write_u64 (cancel_instrument_version v), write_u64 (cancel_received_at v)]"

definition decode_cancel_order :: "CancelOrder reading" where
  "decode_cancel_order =
     then_read read_command_id (\<lambda>command_id. then_read read_order (\<lambda>order_id.
     then_read read_account (\<lambda>account_id. then_read read_instrument (\<lambda>instrument_id.
     then_read read_instrument_version (\<lambda>instrument_version. then_read read_u64 (\<lambda>received_at.
     decoded \<lparr>cancel_command_id = command_id, cancel_order_id = order_id, cancel_account_id = account_id,
       cancel_instrument_id = instrument_id, cancel_instrument_version = instrument_version,
       cancel_received_at = received_at\<rparr>))))))"

definition valid_cancel_order :: "CancelOrder \<Rightarrow> bool" where
  "valid_cancel_order v \<longleftrightarrow>
     valid_id (cancel_command_id v) \<and> valid_id (cancel_order_id v) \<and>
     valid_id (cancel_account_id v) \<and> valid_id (cancel_instrument_id v) \<and>
     valid_id (cancel_instrument_version v) \<and> fits_u64 (cancel_received_at v)"

definition encode_replace_order :: "ReplaceOrder \<Rightarrow> Encoder \<Rightarrow> Encoder" where
  "encode_replace_order v = emit
     [write_u64 (replace_command_id v), write_u64 (replace_order_id v), write_u64 (replace_account_id v),
      write_u64 (replace_instrument_id v), write_u64 (replace_instrument_version v),
      write_u64 (replace_quantity v), write_i64 (replace_price v), encode_order_display (replace_display v),
      write_u64 (replace_received_at v)]"

definition decode_replace_order :: "ReplaceOrder reading" where
  "decode_replace_order =
     then_read read_command_id (\<lambda>command_id. then_read read_order (\<lambda>order_id.
     then_read read_account (\<lambda>account_id. then_read read_instrument (\<lambda>instrument_id.
     then_read read_instrument_version (\<lambda>instrument_version. then_read read_quantity (\<lambda>quantity.
     then_read read_i64 (\<lambda>price. then_read decode_order_display (\<lambda>display.
     then_read read_u64 (\<lambda>received_at.
     decoded \<lparr>replace_command_id = command_id, replace_order_id = order_id, replace_account_id = account_id,
       replace_instrument_id = instrument_id, replace_instrument_version = instrument_version,
       replace_quantity = quantity, replace_price = price, replace_display = display,
       replace_received_at = received_at\<rparr>)))))))))"

definition valid_replace_order :: "ReplaceOrder \<Rightarrow> bool" where
  "valid_replace_order v \<longleftrightarrow>
     valid_id (replace_command_id v) \<and> valid_id (replace_order_id v) \<and>
     valid_id (replace_account_id v) \<and> valid_id (replace_instrument_id v) \<and>
     valid_id (replace_instrument_version v) \<and> valid_id (replace_quantity v) \<and>
     fits_i64 (replace_price v) \<and> valid_display (replace_display v) \<and> fits_u64 (replace_received_at v)"

definition encode_mass_cancel :: "MassCancel \<Rightarrow> Encoder \<Rightarrow> Encoder" where
  "encode_mass_cancel v = emit
     [write_u64 (mass_command_id v), write_u64 (mass_account_id v), write_u64 (mass_instrument_id v),
      write_u64 (mass_instrument_version v), encode_mass_cancel_scope (mass_scope v),
      write_u64 (mass_received_at v)]"

definition decode_mass_cancel :: "MassCancel reading" where
  "decode_mass_cancel =
     then_read read_command_id (\<lambda>command_id. then_read read_account (\<lambda>account_id.
     then_read read_instrument (\<lambda>instrument_id.
     then_read read_instrument_version (\<lambda>instrument_version.
     then_read decode_mass_cancel_scope (\<lambda>scope. then_read read_u64 (\<lambda>received_at.
     decoded \<lparr>mass_command_id = command_id, mass_account_id = account_id,
       mass_instrument_id = instrument_id, mass_instrument_version = instrument_version, mass_scope = scope,
       mass_received_at = received_at\<rparr>))))))"

definition valid_mass_cancel :: "MassCancel \<Rightarrow> bool" where
  "valid_mass_cancel v \<longleftrightarrow>
     valid_id (mass_command_id v) \<and> valid_id (mass_account_id v) \<and> valid_id (mass_instrument_id v) \<and>
     valid_id (mass_instrument_version v) \<and> fits_u64 (mass_received_at v)"

definition encode_account_control :: "AccountControl \<Rightarrow> Encoder \<Rightarrow> Encoder" where
  "encode_account_control v = emit
     [write_u64 (account_command_id v), write_u64 (account_account_id v), write_u64 (account_instrument_id v),
      write_u64 (account_instrument_version v), write_u64 (account_expected_revision v),
      encode_account_control_action (account_action v), write_u64 (account_received_at v)]"

definition decode_account_control :: "AccountControl reading" where
  "decode_account_control =
     then_read read_command_id (\<lambda>command_id. then_read read_account (\<lambda>account_id.
     then_read read_instrument (\<lambda>instrument_id.
     then_read read_instrument_version (\<lambda>instrument_version.
     then_read read_u64 (\<lambda>expected_revision. then_read decode_account_control_action (\<lambda>action.
     then_read read_u64 (\<lambda>received_at.
     decoded \<lparr>account_command_id = command_id, account_account_id = account_id,
       account_instrument_id = instrument_id, account_instrument_version = instrument_version,
       account_expected_revision = expected_revision, account_action = action,
       account_received_at = received_at\<rparr>)))))))"

definition valid_account_control :: "AccountControl \<Rightarrow> bool" where
  "valid_account_control v \<longleftrightarrow>
     valid_id (account_command_id v) \<and> valid_id (account_account_id v) \<and>
     valid_id (account_instrument_id v) \<and> valid_id (account_instrument_version v) \<and>
     fits_u64 (account_expected_revision v) \<and> fits_u64 (account_received_at v)"

definition encode_trading_state_control :: "TradingStateControl \<Rightarrow> Encoder \<Rightarrow> Encoder" where
  "encode_trading_state_control v = emit
     [write_u64 (state_command_id v), write_u64 (state_instrument_id v), write_u64 (state_instrument_version v),
      write_u64 (state_expected_revision v), encode_trading_state (target_state v),
      encode_trading_state_control_action (state_action v), write_u64 (state_received_at v)]"

definition decode_trading_state_control :: "TradingStateControl reading" where
  "decode_trading_state_control =
     then_read read_command_id (\<lambda>command_id. then_read read_instrument (\<lambda>instrument_id.
     then_read read_instrument_version (\<lambda>instrument_version.
     then_read read_u64 (\<lambda>expected_revision. then_read decode_trading_state (\<lambda>target_state.
     then_read decode_trading_state_control_action (\<lambda>action. then_read read_u64 (\<lambda>received_at.
     decoded \<lparr>state_command_id = command_id, state_instrument_id = instrument_id,
       state_instrument_version = instrument_version, state_expected_revision = expected_revision,
       target_state = target_state, state_action = action, state_received_at = received_at\<rparr>)))))))"

definition valid_trading_state_control :: "TradingStateControl \<Rightarrow> bool" where
  "valid_trading_state_control v \<longleftrightarrow>
     valid_id (state_command_id v) \<and> valid_id (state_instrument_id v) \<and>
     valid_id (state_instrument_version v) \<and> fits_u64 (state_expected_revision v) \<and>
     fits_u64 (state_received_at v)"

definition encode_expiry_sweep :: "ExpirySweep \<Rightarrow> Encoder \<Rightarrow> Encoder" where
  "encode_expiry_sweep v = emit
     [write_u64 (expiry_command_id v), write_u64 (expiry_instrument_id v), write_u64 (expiry_instrument_version v),
      write_u64 (expiry_through v), write_u64 (expiry_received_at v)]"

definition decode_expiry_sweep :: "ExpirySweep reading" where
  "decode_expiry_sweep =
     then_read read_command_id (\<lambda>command_id. then_read read_instrument (\<lambda>instrument_id.
     then_read read_instrument_version (\<lambda>instrument_version. then_read read_u64 (\<lambda>through.
     then_read read_u64 (\<lambda>received_at.
     decoded \<lparr>expiry_command_id = command_id, expiry_instrument_id = instrument_id,
       expiry_instrument_version = instrument_version, expiry_through = through,
       expiry_received_at = received_at\<rparr>)))))"

definition valid_expiry_sweep :: "ExpirySweep \<Rightarrow> bool" where
  "valid_expiry_sweep v \<longleftrightarrow>
     valid_id (expiry_command_id v) \<and> valid_id (expiry_instrument_id v) \<and>
     valid_id (expiry_instrument_version v) \<and> fits_u64 (expiry_through v) \<and>
     fits_u64 (expiry_received_at v)"

definition encode_stop_trigger_sweep :: "StopTriggerSweep \<Rightarrow> Encoder \<Rightarrow> Encoder" where
  "encode_stop_trigger_sweep v = emit
     [write_u64 (trigger_command_id v), write_u64 (trigger_instrument_id v),
      write_u64 (trigger_instrument_version v), encode_stop_reference (trigger_reference v),
      write_u32 (maximum_orders v), write_u64 (trigger_received_at v)]"

definition decode_stop_trigger_sweep :: "StopTriggerSweep reading" where
  "decode_stop_trigger_sweep =
     then_read read_command_id (\<lambda>command_id. then_read read_instrument (\<lambda>instrument_id.
     then_read read_instrument_version (\<lambda>instrument_version.
     then_read decode_stop_reference (\<lambda>reference. then_read read_u32 (\<lambda>maximum_orders.
     then_read read_u64 (\<lambda>received_at.
     decoded \<lparr>trigger_command_id = command_id, trigger_instrument_id = instrument_id,
       trigger_instrument_version = instrument_version, trigger_reference = reference,
       maximum_orders = maximum_orders, trigger_received_at = received_at\<rparr>))))))"

definition valid_stop_trigger_sweep :: "StopTriggerSweep \<Rightarrow> bool" where
  "valid_stop_trigger_sweep v \<longleftrightarrow>
     valid_id (trigger_command_id v) \<and> valid_id (trigger_instrument_id v) \<and>
     valid_id (trigger_instrument_version v) \<and> valid_stop_reference (trigger_reference v) \<and>
     fits_u32 (maximum_orders v) \<and> fits_u64 (trigger_received_at v)"

fun encode_command :: "Command \<Rightarrow> Encoder \<Rightarrow> Encoder" where
  "encode_command (New v) = emit [write_u8 0, encode_new_order v]"
| "encode_command (Cancel v) = emit [write_u8 1, encode_cancel_order v]"
| "encode_command (Replace v) = emit [write_u8 2, encode_replace_order v]"
| "encode_command (CommandMassCancel v) = emit [write_u8 3, encode_mass_cancel v]"
| "encode_command (CommandAccountControl v) = emit [write_u8 4, encode_account_control v]"
| "encode_command (CommandTradingStateControl v) = emit [write_u8 5, encode_trading_state_control v]"
| "encode_command (CommandExpirySweep v) = emit [write_u8 6, encode_expiry_sweep v]"
| "encode_command (CommandStopTriggerSweep v) = emit [write_u8 7, encode_stop_trigger_sweep v]"

definition decode_command :: "Command reading" where
  "decode_command = then_read read_u8 (\<lambda>tag.
     if tag = 0 then then_read decode_new_order (\<lambda>v. decoded (New v))
     else if tag = 1 then then_read decode_cancel_order (\<lambda>v. decoded (Cancel v))
     else if tag = 2 then then_read decode_replace_order (\<lambda>v. decoded (Replace v))
     else if tag = 3 then then_read decode_mass_cancel (\<lambda>v. decoded (CommandMassCancel v))
     else if tag = 4 then then_read decode_account_control (\<lambda>v. decoded (CommandAccountControl v))
     else if tag = 5 then then_read decode_trading_state_control (\<lambda>v. decoded (CommandTradingStateControl v))
     else if tag = 6 then then_read decode_expiry_sweep (\<lambda>v. decoded (CommandExpirySweep v))
     else if tag = 7 then then_read decode_stop_trigger_sweep (\<lambda>v. decoded (CommandStopTriggerSweep v))
     else decode_error (InvalidTag ''Command'' tag))"

fun valid_command :: "Command \<Rightarrow> bool" where
  "valid_command (New v) = valid_new_order v"
| "valid_command (Cancel v) = valid_cancel_order v"
| "valid_command (Replace v) = valid_replace_order v"
| "valid_command (CommandMassCancel v) = valid_mass_cancel v"
| "valid_command (CommandAccountControl v) = valid_account_control v"
| "valid_command (CommandTradingStateControl v) = valid_trading_state_control v"
| "valid_command (CommandExpirySweep v) = valid_expiry_sweep v"
| "valid_command (CommandStopTriggerSweep v) = valid_stop_trigger_sweep v"

interpretation new_order_wire: wire valid_new_order encode_new_order decode_new_order
proof (unfold_locales, goal_cases)
  case (1 x)
  show ?case
    by (simp add: encode_new_order_def writers)
next
  case (2 x R)
  then show ?case
    by (simp add: encode_new_order_def decode_new_order_def valid_new_order_def layouts writers evaluations)
next
  case (3 bs x R)
  then show ?case
    by (auto simp: encode_new_order_def decode_new_order_def valid_new_order_def valid_id_def layouts writers readings)
qed

interpretation cancel_order_wire: wire valid_cancel_order encode_cancel_order decode_cancel_order
proof (unfold_locales, goal_cases)
  case (1 x)
  show ?case
    by (simp add: encode_cancel_order_def writers)
next
  case (2 x R)
  then show ?case
    by (simp add: encode_cancel_order_def decode_cancel_order_def valid_cancel_order_def layouts writers evaluations)
next
  case (3 bs x R)
  then show ?case
    by (auto simp: encode_cancel_order_def decode_cancel_order_def valid_cancel_order_def valid_id_def layouts writers readings)
qed

interpretation replace_order_wire: wire valid_replace_order encode_replace_order decode_replace_order
proof (unfold_locales, goal_cases)
  case (1 x)
  show ?case
    by (simp add: encode_replace_order_def writers)
next
  case (2 x R)
  then show ?case
    by (simp add: encode_replace_order_def decode_replace_order_def valid_replace_order_def layouts writers evaluations)
next
  case (3 bs x R)
  then show ?case
    by (auto simp: encode_replace_order_def decode_replace_order_def valid_replace_order_def valid_id_def layouts writers readings)
qed

interpretation mass_cancel_wire: wire valid_mass_cancel encode_mass_cancel decode_mass_cancel
proof (unfold_locales, goal_cases)
  case (1 x)
  show ?case
    by (simp add: encode_mass_cancel_def writers)
next
  case (2 x R)
  then show ?case
    by (simp add: encode_mass_cancel_def decode_mass_cancel_def valid_mass_cancel_def layouts writers evaluations)
next
  case (3 bs x R)
  then show ?case
    by (auto simp: encode_mass_cancel_def decode_mass_cancel_def valid_mass_cancel_def valid_id_def layouts writers readings)
qed

interpretation account_control_wire: wire valid_account_control encode_account_control decode_account_control
proof (unfold_locales, goal_cases)
  case (1 x)
  show ?case
    by (simp add: encode_account_control_def writers)
next
  case (2 x R)
  then show ?case
    by (simp add: encode_account_control_def decode_account_control_def valid_account_control_def layouts writers evaluations)
next
  case (3 bs x R)
  then show ?case
    by (auto simp: encode_account_control_def decode_account_control_def valid_account_control_def valid_id_def layouts writers readings)
qed

interpretation trading_state_control_wire: wire valid_trading_state_control encode_trading_state_control decode_trading_state_control
proof (unfold_locales, goal_cases)
  case (1 x)
  show ?case
    by (simp add: encode_trading_state_control_def writers)
next
  case (2 x R)
  then show ?case
    by (simp add: encode_trading_state_control_def decode_trading_state_control_def valid_trading_state_control_def layouts writers evaluations)
next
  case (3 bs x R)
  then show ?case
    by (auto simp: encode_trading_state_control_def decode_trading_state_control_def valid_trading_state_control_def valid_id_def layouts writers readings)
qed

interpretation expiry_sweep_wire: wire valid_expiry_sweep encode_expiry_sweep decode_expiry_sweep
proof (unfold_locales, goal_cases)
  case (1 x)
  show ?case
    by (simp add: encode_expiry_sweep_def writers)
next
  case (2 x R)
  then show ?case
    by (simp add: encode_expiry_sweep_def decode_expiry_sweep_def valid_expiry_sweep_def layouts writers evaluations)
next
  case (3 bs x R)
  then show ?case
    by (auto simp: encode_expiry_sweep_def decode_expiry_sweep_def valid_expiry_sweep_def valid_id_def layouts writers readings)
qed

interpretation stop_trigger_sweep_wire: wire valid_stop_trigger_sweep encode_stop_trigger_sweep decode_stop_trigger_sweep
proof (unfold_locales, goal_cases)
  case (1 x)
  show ?case
    by (simp add: encode_stop_trigger_sweep_def writers)
next
  case (2 x R)
  then show ?case
    by (simp add: encode_stop_trigger_sweep_def decode_stop_trigger_sweep_def valid_stop_trigger_sweep_def layouts writers evaluations)
next
  case (3 bs x R)
  then show ?case
    by (auto simp: encode_stop_trigger_sweep_def decode_stop_trigger_sweep_def valid_stop_trigger_sweep_def valid_id_def layouts writers readings)
qed

lemmas command_writers [writers] = new_order_wire.writes cancel_order_wire.writes replace_order_wire.writes
  mass_cancel_wire.writes account_control_wire.writes trading_state_control_wire.writes expiry_sweep_wire.writes
  stop_trigger_sweep_wire.writes
lemmas command_readings [readings] = new_order_wire.reads_Inr cancel_order_wire.reads_Inr replace_order_wire.reads_Inr
  mass_cancel_wire.reads_Inr account_control_wire.reads_Inr trading_state_control_wire.reads_Inr expiry_sweep_wire.reads_Inr
  stop_trigger_sweep_wire.reads_Inr
lemmas command_evaluations [evaluations] = new_order_wire.reads cancel_order_wire.reads replace_order_wire.reads
  mass_cancel_wire.reads account_control_wire.reads trading_state_control_wire.reads expiry_sweep_wire.reads
  stop_trigger_sweep_wire.reads

interpretation command_wire: wire valid_command encode_command decode_command
proof (unfold_locales, goal_cases)
  case (1 x)
  show ?case
    by (cases x) (simp_all add: writers)
next
  case (2 x R)
  then show ?case
    by (cases x) (simp_all add: decode_command_def layouts writers evaluations)
next
  case (3 bs x R)
  then show ?case
    by (auto simp: decode_command_def layouts writers readings split: if_splits)
qed

section \<open>Events\<close>

definition encode_trade :: "Trade \<Rightarrow> Encoder \<Rightarrow> Encoder" where
  "encode_trade v = emit
     [write_u64 (trade_id v), write_u64 (trade_instrument_id v), write_u64 (trade_instrument_version v),
      write_i64 (trade_price v), write_u64 (trade_quantity v), write_u64 (trade_buy_order_id v),
      write_u64 (trade_sell_order_id v), write_u64 (buyer_account_id v), write_u64 (seller_account_id v),
      write_u64 (maker_order_id v), write_u64 (taker_order_id v)]"

definition decode_trade :: "Trade reading" where
  "decode_trade =
     then_read read_trade_id (\<lambda>trade. then_read read_instrument (\<lambda>instrument.
     then_read read_instrument_version (\<lambda>version. then_read read_i64 (\<lambda>price.
     then_read read_quantity (\<lambda>lots. then_read read_order (\<lambda>buy_order.
     then_read read_order (\<lambda>sell_order. then_read read_account (\<lambda>buyer.
     then_read read_account (\<lambda>seller. then_read read_order (\<lambda>maker.
     then_read read_order (\<lambda>taker.
     decoded \<lparr>trade_id = trade, trade_instrument_id = instrument, trade_instrument_version = version,
       trade_price = price, trade_quantity = lots, trade_buy_order_id = buy_order,
       trade_sell_order_id = sell_order, buyer_account_id = buyer, seller_account_id = seller,
       maker_order_id = maker, taker_order_id = taker\<rparr>)))))))))))"

definition valid_trade :: "Trade \<Rightarrow> bool" where
  "valid_trade v \<longleftrightarrow>
     valid_id (trade_id v) \<and> valid_id (trade_instrument_id v) \<and>
     valid_id (trade_instrument_version v) \<and> fits_i64 (trade_price v) \<and>
     valid_id (trade_quantity v) \<and> valid_id (trade_buy_order_id v) \<and>
     valid_id (trade_sell_order_id v) \<and> valid_id (buyer_account_id v) \<and>
     valid_id (seller_account_id v) \<and> valid_id (maker_order_id v) \<and> valid_id (taker_order_id v)"

interpretation trade_wire: wire valid_trade encode_trade decode_trade
proof (unfold_locales, goal_cases)
  case (1 x)
  show ?case
    by (simp add: encode_trade_def writers)
next
  case (2 x R)
  then show ?case
    by (simp add: encode_trade_def decode_trade_def valid_trade_def layouts writers evaluations)
next
  case (3 bs x R)
  then show ?case
    by (auto simp: encode_trade_def decode_trade_def valid_trade_def valid_id_def layouts writers readings)
qed

lemmas [writers] = trade_wire.writes
lemmas [readings] = trade_wire.reads_Inr
lemmas [evaluations] = trade_wire.reads

fun encode_event_kind :: "EventKind \<Rightarrow> Encoder \<Rightarrow> Encoder" where
  "encode_event_kind (OrderAccepted order lots display) =
     emit [write_u8 0, write_u64 order, write_u64 lots, encode_order_display display]"
| "encode_event_kind (OrderRested order price leaves working) =
     emit [write_u8 1, write_u64 order, write_i64 price, write_u64 leaves, write_u64 working]"
| "encode_event_kind (TradeOccurred trade) =
     emit [write_u8 2, encode_trade trade]"
| "encode_event_kind (OrderCancelled order lots reason) =
     emit [write_u8 3, write_u64 order, write_u64 lots, encode_cancel_reason reason]"
| "encode_event_kind (OrderReplaced order old_price new_price old_lots new_lots display_before display_after priority_kept) =
     emit [write_u8 4, write_u64 order, write_i64 old_price, write_i64 new_price, write_u64 old_lots, write_u64 new_lots, encode_order_display display_before, encode_order_display display_after, write_bool priority_kept]"
| "encode_event_kind (SelfTradePrevented aggressor resting lots policy) =
     emit [write_u8 5, write_u64 aggressor, write_u64 resting, write_u64 lots, encode_stp policy]"
| "encode_event_kind (CommandRejected reason) =
     emit [write_u8 6, encode_reject_reason reason]"
| "encode_event_kind (OrderRefreshed order price displayed leaves) =
     emit [write_u8 7, write_u64 order, write_i64 price, write_u64 displayed, write_u64 leaves]"
| "encode_event_kind (MassCancelCompleted account scope orders lots) =
     emit [write_u8 8, write_u64 account, encode_mass_cancel_scope scope, write_u64 orders, write_u128 lots]"
| "encode_event_kind (AccountControlApplied account old_state new_state revision orders lots) =
     emit [write_u8 9, write_u64 account, encode_account_admission_state old_state, encode_account_admission_state new_state, write_u64 revision, write_u64 orders, write_u128 lots]"
| "encode_event_kind (TradingStateControlApplied old_state new_state revision orders lots) =
     emit [write_u8 10, encode_trading_state old_state, encode_trading_state new_state, write_u64 revision, write_u64 orders, write_u128 lots]"
| "encode_event_kind (ExpirySweepCompleted old_watermark new_watermark orders lots) =
     emit [write_u8 11, encode_optional_timestamp old_watermark, write_u64 new_watermark, write_u64 orders, write_u128 lots]"
| "encode_event_kind (StopOrderArmed order trigger activation priority) =
     emit [write_u8 12, write_u64 order, write_i64 trigger, encode_stop_activation activation, write_u64 priority]"
| "encode_event_kind (StopOrderTriggered order trigger reference priority) =
     emit [write_u8 13, write_u64 order, write_i64 trigger, encode_stop_reference reference, write_u64 priority]"
| "encode_event_kind (StopTriggerSweepCompleted old_reference new_reference triggered remaining) =
     emit [write_u8 14, encode_optional_stop_reference old_reference, encode_stop_reference new_reference, write_u64 triggered, write_u64 remaining]"
| "encode_event_kind (MarketToLimitPriced order price) =
     emit [write_u8 15, write_u64 order, write_i64 price]"

definition decode_event_kind :: "EventKind reading" where
  "decode_event_kind = then_read read_u8 (\<lambda>tag.
     if tag = 0 then
       then_read read_order (\<lambda>order. then_read read_quantity (\<lambda>lots.
       then_read decode_order_display (\<lambda>display. decoded (OrderAccepted order lots display))))
     else if tag = 1 then
       then_read read_order (\<lambda>order. then_read read_i64 (\<lambda>price.
       then_read read_quantity (\<lambda>leaves. then_read read_quantity (\<lambda>working.
       decoded (OrderRested order price leaves working)))))
     else if tag = 2 then
       then_read decode_trade (\<lambda>trade. decoded (TradeOccurred trade))
     else if tag = 3 then
       then_read read_order (\<lambda>order. then_read read_quantity (\<lambda>lots.
       then_read decode_cancel_reason (\<lambda>reason. decoded (OrderCancelled order lots reason))))
     else if tag = 4 then
       then_read read_order (\<lambda>order. then_read read_i64 (\<lambda>old_price.
       then_read read_i64 (\<lambda>new_price. then_read read_quantity (\<lambda>old_lots.
       then_read read_quantity (\<lambda>new_lots. then_read decode_order_display (\<lambda>display_before.
       then_read decode_order_display (\<lambda>display_after. then_read read_bool (\<lambda>priority_kept.
       decoded (OrderReplaced order old_price new_price old_lots new_lots display_before display_after priority_kept)))))))))
     else if tag = 5 then
       then_read read_order (\<lambda>aggressor. then_read read_order (\<lambda>resting.
       then_read read_quantity (\<lambda>lots. then_read decode_stp (\<lambda>policy.
       decoded (SelfTradePrevented aggressor resting lots policy)))))
     else if tag = 6 then
       then_read decode_reject_reason (\<lambda>reason. decoded (CommandRejected reason))
     else if tag = 7 then
       then_read read_order (\<lambda>order. then_read read_i64 (\<lambda>price.
       then_read read_quantity (\<lambda>displayed. then_read read_quantity (\<lambda>leaves.
       decoded (OrderRefreshed order price displayed leaves)))))
     else if tag = 8 then
       then_read read_account (\<lambda>account. then_read decode_mass_cancel_scope (\<lambda>scope.
       then_read read_u64 (\<lambda>orders. then_read read_u128 (\<lambda>lots.
       decoded (MassCancelCompleted account scope orders lots)))))
     else if tag = 9 then
       then_read read_account (\<lambda>account. then_read decode_account_admission_state (\<lambda>old_state.
       then_read decode_account_admission_state (\<lambda>new_state. then_read read_u64 (\<lambda>revision.
       then_read read_u64 (\<lambda>orders. then_read read_u128 (\<lambda>lots.
       decoded (AccountControlApplied account old_state new_state revision orders lots)))))))
     else if tag = 10 then
       then_read decode_trading_state (\<lambda>old_state. then_read decode_trading_state (\<lambda>new_state.
       then_read read_u64 (\<lambda>revision. then_read read_u64 (\<lambda>orders.
       then_read read_u128 (\<lambda>lots.
       decoded (TradingStateControlApplied old_state new_state revision orders lots))))))
     else if tag = 11 then
       then_read (decode_optional_timestamp ''absent expiry watermark must have a zero value'') (\<lambda>old_watermark.
       then_read read_u64 (\<lambda>new_watermark. then_read read_u64 (\<lambda>orders.
       then_read read_u128 (\<lambda>lots.
       decoded (ExpirySweepCompleted old_watermark new_watermark orders lots)))))
     else if tag = 12 then
       then_read read_order (\<lambda>order. then_read read_i64 (\<lambda>trigger.
       then_read decode_stop_activation (\<lambda>activation. then_read read_u64 (\<lambda>priority.
       decoded (StopOrderArmed order trigger activation priority)))))
     else if tag = 13 then
       then_read read_order (\<lambda>order. then_read read_i64 (\<lambda>trigger.
       then_read decode_stop_reference (\<lambda>reference. then_read read_u64 (\<lambda>priority.
       decoded (StopOrderTriggered order trigger reference priority)))))
     else if tag = 14 then
       then_read decode_optional_stop_reference (\<lambda>old_reference.
       then_read decode_stop_reference (\<lambda>new_reference. then_read read_u64 (\<lambda>triggered.
       then_read read_u64 (\<lambda>remaining.
       decoded (StopTriggerSweepCompleted old_reference new_reference triggered remaining)))))
     else if tag = 15 then
       then_read read_order (\<lambda>order. then_read read_i64 (\<lambda>price.
       decoded (MarketToLimitPriced order price)))
     else decode_error (InvalidTag ''EventKind'' tag))"

fun valid_event_kind :: "EventKind \<Rightarrow> bool" where
  "valid_event_kind (OrderAccepted order lots display) \<longleftrightarrow> valid_id order \<and> valid_id lots \<and> valid_display display"
| "valid_event_kind (OrderRested order price leaves working) \<longleftrightarrow> valid_id order \<and> fits_i64 price \<and> valid_id leaves \<and> valid_id working"
| "valid_event_kind (TradeOccurred trade) \<longleftrightarrow> valid_trade trade"
| "valid_event_kind (OrderCancelled order lots reason) \<longleftrightarrow> valid_id order \<and> valid_id lots"
| "valid_event_kind (OrderReplaced order old_price new_price old_lots new_lots display_before display_after priority_kept) \<longleftrightarrow> valid_id order \<and> fits_i64 old_price \<and> fits_i64 new_price \<and> valid_id old_lots \<and> valid_id new_lots \<and> valid_display display_before \<and> valid_display display_after"
| "valid_event_kind (SelfTradePrevented aggressor resting lots policy) \<longleftrightarrow> valid_id aggressor \<and> valid_id resting \<and> valid_id lots"
| "valid_event_kind (CommandRejected reason) \<longleftrightarrow> True"
| "valid_event_kind (OrderRefreshed order price displayed leaves) \<longleftrightarrow> valid_id order \<and> fits_i64 price \<and> valid_id displayed \<and> valid_id leaves"
| "valid_event_kind (MassCancelCompleted account scope orders lots) \<longleftrightarrow> valid_id account \<and> fits_u64 orders \<and> fits_u128 lots"
| "valid_event_kind (AccountControlApplied account old_state new_state revision orders lots) \<longleftrightarrow> valid_id account \<and> fits_u64 revision \<and> fits_u64 orders \<and> fits_u128 lots"
| "valid_event_kind (TradingStateControlApplied old_state new_state revision orders lots) \<longleftrightarrow> fits_u64 revision \<and> fits_u64 orders \<and> fits_u128 lots"
| "valid_event_kind (ExpirySweepCompleted old_watermark new_watermark orders lots) \<longleftrightarrow> valid_optional_timestamp old_watermark \<and> fits_u64 new_watermark \<and> fits_u64 orders \<and> fits_u128 lots"
| "valid_event_kind (StopOrderArmed order trigger activation priority) \<longleftrightarrow> valid_id order \<and> fits_i64 trigger \<and> valid_activation activation \<and> fits_u64 priority"
| "valid_event_kind (StopOrderTriggered order trigger reference priority) \<longleftrightarrow> valid_id order \<and> fits_i64 trigger \<and> valid_stop_reference reference \<and> fits_u64 priority"
| "valid_event_kind (StopTriggerSweepCompleted old_reference new_reference triggered remaining) \<longleftrightarrow> valid_optional_stop_reference old_reference \<and> valid_stop_reference new_reference \<and> fits_u64 triggered \<and> fits_u64 remaining"
| "valid_event_kind (MarketToLimitPriced order price) \<longleftrightarrow> valid_id order \<and> fits_i64 price"

interpretation event_kind_wire: wire valid_event_kind encode_event_kind decode_event_kind
proof (unfold_locales, goal_cases)
  case (1 x)
  show ?case
    by (cases x) (simp_all add: writers)
next
  case (2 x R)
  then show ?case
    by (cases x) (simp_all add: decode_event_kind_def layouts writers evaluations)
next
  case (3 bs x R)
  then show ?case
    by (auto simp: decode_event_kind_def valid_id_def layouts writers readings split: if_splits)
qed

lemmas [writers] = event_kind_wire.writes
lemmas [readings] = event_kind_wire.reads_Inr
lemmas [evaluations] = event_kind_wire.reads

definition encode_event :: "Event \<Rightarrow> Encoder \<Rightarrow> Encoder" where
  "encode_event v = emit
     [write_u64 (event_sequence v), write_u64 (event_command_id v), write_u64 (occurred_at v),
      encode_event_kind (event_kind v)]"

definition decode_event :: "Event reading" where
  "decode_event =
     then_read read_u64 (\<lambda>sequence. then_read read_command_id (\<lambda>command.
     then_read read_u64 (\<lambda>occurred. then_read decode_event_kind (\<lambda>kind.
     decoded \<lparr>event_sequence = sequence, event_command_id = command, occurred_at = occurred,
       event_kind = kind\<rparr>))))"

definition valid_event :: "Event \<Rightarrow> bool" where
  "valid_event v \<longleftrightarrow>
     fits_u64 (event_sequence v) \<and> valid_id (event_command_id v) \<and> fits_u64 (occurred_at v) \<and>
     valid_event_kind (event_kind v)"

interpretation event_wire: wire valid_event encode_event decode_event
proof (unfold_locales, goal_cases)
  case (1 x)
  show ?case
    by (simp add: encode_event_def writers)
next
  case (2 x R)
  then show ?case
    by (simp add: encode_event_def decode_event_def valid_event_def layouts writers evaluations)
next
  case (3 bs x R)
  then show ?case
    by (auto simp: encode_event_def decode_event_def valid_event_def valid_id_def layouts writers readings)
qed

lemmas [writers] = event_wire.writes
lemmas [readings] = event_wire.reads_Inr
lemmas [evaluations] = event_wire.reads

end
