(* ===== verification/CodecReports.thy ===== *)
theory CodecReports
  imports CodecMatching
begin

text \<open>
  Complete encoded values: commands and execution reports, with the validation a decoded report has to pass.
\<close>

section \<open>Execution reports\<close>

fun encode_outcome :: "CommandOutcome \<Rightarrow> Encoder \<Rightarrow> Encoder" where
  "encode_outcome Accepted = emit [write_u8 0]"
| "encode_outcome (Rejected reason) = emit [write_u8 1, encode_reject_reason reason]"

definition decode_outcome :: "CommandOutcome reading" where
  "decode_outcome = then_read read_u8 (\<lambda>tag.
     if tag = 0 then decoded Accepted
     else if tag = 1 then then_read decode_reject_reason (\<lambda>reason. decoded (Rejected reason))
     else decode_error (InvalidTag ''CommandOutcome'' tag))"

definition encode_report :: "(nat \<Rightarrow> bool) \<Rightarrow> ExecutionReport \<Rightarrow> CodecError + byte list" where
  "encode_report room r = encode_steps room
     [always (write_u64 (report_command_id r)), always (encode_outcome (report_outcome r)), always (write_bool (report_replayed r)),
      write_length ''execution report events'' (length (report_events r)), always (write_each encode_event (report_events r))]"

definition validate_report :: "CommandId \<Rightarrow> CommandOutcome \<Rightarrow> Event list \<Rightarrow> CodecError + unit" where
  "validate_report command outcome events =
     and_then (ensure (\<not> list_ex (\<lambda>e. event_command_id e \<noteq> command) events)
       (InvalidValue ''execution report contains an event for another command'')) (\<lambda>_.
     and_then (ensure (\<not> windows_any (\<lambda>a b. case checked fits_u64 (event_sequence a + 1) of
           None \<Rightarrow> True | Some expected \<Rightarrow> event_sequence b \<noteq> expected) events)
       (InvalidValue ''execution report event sequences are not contiguous'')) (\<lambda>_.
     case outcome of
       Accepted \<Rightarrow>
         ensure (\<not> list_ex (\<lambda>e. case event_kind e of CommandRejected _ \<Rightarrow> True | _ \<Rightarrow> False) events)
           (InvalidValue ''accepted execution report contains a rejection event'')
     | Rejected reason \<Rightarrow>
         ensure (\<not> (length events \<noteq> 1 \<or> \<not> (case event_kind (events ! 0) of CommandRejected v \<Rightarrow> v = reason | _ \<Rightarrow> False)))
           (InvalidValue ''rejected execution report does not match its rejection event'')))"

definition decode_report :: "(nat \<Rightarrow> bool) \<Rightarrow> byte list \<Rightarrow> CodecError + ExecutionReport" where
  "decode_report room bs =
     and_then (read_command_id bs) (\<lambda>(command, bs).
     and_then (decode_outcome bs) (\<lambda>(outcome, bs).
     and_then (read_bool bs) (\<lambda>(replayed, bs).
     and_then (read_count ''execution report events'' 25 bs) (\<lambda>(n, bs).
     and_then (ensure (n \<noteq> 0) (InvalidValue ''execution report must contain at least one event'')) (\<lambda>_.
     and_then (reserve_decoded_vec room ''execution report events'' n) (\<lambda>_.
     and_then (read_many decode_event n bs) (\<lambda>(events, bs).
     and_then (decoder_finish bs) (\<lambda>_.
     and_then (validate_report command outcome events) (\<lambda>_.
       Inr \<lparr>report_command_id = command, report_outcome = outcome, report_events = events, report_replayed = replayed\<rparr>)))))))))"

section \<open>What reports encode to\<close>

interpretation outcome_wire: wire "\<lambda>_. True" encode_outcome decode_outcome
proof (unfold_locales, goal_cases)
  case (1 x)
  show ?case
    by (cases x) (simp_all add: writers)
next
  case (2 x R)
  then show ?case
    by (cases x) (simp_all add: decode_outcome_def layouts writers evaluations)
next
  case (3 bs x R)
  then show ?case
    by (auto simp: decode_outcome_def layouts writers readings split: if_splits)
qed

lemmas [writers] = outcome_wire.writes
lemmas [readings] = outcome_wire.reads_Inr

definition report_bytes :: "ExecutionReport \<Rightarrow> byte list" where
  "report_bytes r = le_bytes 8 (report_command_id r) @ written (encode_outcome (report_outcome r)) @
     le_bytes (Suc 0) (of_bool (report_replayed r)) @ le_bytes 4 (length (report_events r)) @
     concat (map (\<lambda>e. written (encode_event e)) (report_events r))"

lemma event_size: "25 \<le> length (written (encode_event e))"
proof -
  have "1 \<le> length (written (encode_event_kind k))" for k
    by (cases k) (simp_all add: layouts writers)
  then show ?thesis
    using le_add2 by (simp add: encode_event_def layouts writers)
qed

lemma events_size: "length es * 25 \<le> length (concat (map (\<lambda>e. written (encode_event e)) es))"
proof (induction es)
  case (Cons e es)
  then show ?case
    using event_size [of e] by simp
qed simp

definition valid_report :: "ExecutionReport \<Rightarrow> bool" where
  "valid_report r \<longleftrightarrow> valid_id (report_command_id r) \<and> report_events r \<noteq> [] \<and> fits_u32 (length (report_events r)) \<and>
     (\<forall>e\<in>set (report_events r). valid_event e) \<and>
     validate_report (report_command_id r) (report_outcome r) (report_events r) = Inr ()"

lemma decode_report_Inr:
  "decode_report room bs = Inr r \<longleftrightarrow> valid_report r \<and> room (length (report_events r)) \<and> bs = report_bytes r"
proof
  assume "decode_report room bs = Inr r"
  then show "valid_report r \<and> room (length (report_events r)) \<and> bs = report_bytes r"
    by (auto simp: decode_report_def result_simps readings event_wire.reads_many decoder_finish_def reserve_decoded_vec_def
        valid_report_def report_bytes_def valid_id_def)
next
  assume r: "valid_report r \<and> room (length (report_events r)) \<and> bs = report_bytes r"
  have "read_many decode_event (length (report_events r)) (concat (map (\<lambda>e. written (encode_event e)) (report_events r))) =
      Inr (report_events r, [])"
    using event_wire.reads_many [of "length (report_events r)" _ "report_events r" "[]"] r by (simp add: valid_report_def)
  moreover have "read_bool (le_bytes (Suc 0) (of_bool (report_replayed r)) @ S) = Inr (report_replayed r, S)" for S
    by (simp add: read_bool_Inr)
  moreover have "decode_outcome (written (encode_outcome (report_outcome r)) @ S) = Inr (report_outcome r, S)" for S
    by (rule outcome_wire.reads) simp
  ultimately show "decode_report room bs = Inr r"
    using r events_size [of "report_events r"]
    by (simp add: decode_report_def report_bytes_def valid_report_def evaluations reserve_decoded_vec_def decoder_finish_def)
qed

interpretation report_codec: binary_codec valid_report "\<lambda>r. fits_u32 (length (report_events r))" report_bytes encode_report
  "decode_report (\<lambda>_. True)"
proof -
  have f: "fallible room (try_emit
       [always (write_u64 (report_command_id r)), always (encode_outcome (report_outcome r)), always (write_bool (report_replayed r)),
        write_length ''execution report events'' (length (report_events r)), always (write_each encode_event (report_events r))])
      (fits_u32 (length (report_events r))) (report_bytes r)" for room r
    by (rule fallible_eq, (rule fallible_rules writers conjunct1 [OF event_wire.write_each])+)
      (simp_all add: layouts event_wire.write_each report_bytes_def)
  show "binary_codec valid_report (\<lambda>r. fits_u32 (length (report_events r))) report_bytes encode_report (decode_report (\<lambda>_. True))"
  proof
    show "fits_u32 (length (report_events r)) \<and> bs = report_bytes r" if "encode_report room r = Inr bs" for room r bs
      using encode_steps_Inr(1) [OF f] that unfolding encode_report_def by blast
    show "encode_report room r = Inr (report_bytes r)" if "fits_u32 (length (report_events r))" "admits room (length (report_bytes r))" for room r
      using encode_steps_Inr(2) [OF f] that unfolding encode_report_def by blast
    show "decode_report (\<lambda>_. True) bs = Inr r \<longleftrightarrow> valid_report r \<and> fits_u32 (length (report_events r)) \<and> bs = report_bytes r" for bs r
      by (auto simp: decode_report_Inr valid_report_def)
  qed
qed

section \<open>Properties\<close>

text \<open>
  C19. Commands and execution reports have exactly one encoding: a byte string decodes to a command or report if and
  only if the value is one its Rust type can hold (for a report also one that passes the report validation) and the
  byte string is what it encodes to.  So decoding inverts encoding, no byte string but an encoder's output is
  accepted, and no valid value is turned away by the checks on declared lengths.
\<close>

theorem matching_codec_exact:
  assumes "fits_usize (length bs)"
  shows "(decode_value decode_command bs = Inr c \<longleftrightarrow> valid_command c \<and> encode_value encode_command (\<lambda>_. True) c = Inr bs) \<and>
    (decode_report (\<lambda>_. True) bs = Inr r \<longleftrightarrow> valid_report r \<and> encode_report (\<lambda>_. True) r = Inr bs)"
  using command_wire.decodes_iff [OF assms] report_codec.decodes_iff [OF assms] by simp

definition sample_cancel :: CancelOrder where
  "sample_cancel = \<lparr>cancel_command_id = 258, cancel_order_id = 7, cancel_account_id = 2, cancel_instrument_id = 1,
     cancel_instrument_version = 1, cancel_received_at = 0\<rparr>"

definition sample_cancel_bytes :: "byte list" where
  "sample_cancel_bytes = [1, 2, 1, 0, 0, 0, 0, 0, 0, 7, 0, 0, 0, 0, 0, 0, 0, 2, 0, 0, 0, 0, 0, 0, 0,
     1, 0, 0, 0, 0, 0, 0, 0, 1, 0, 0, 0, 0, 0, 0, 0, 0, 0, 0, 0, 0, 0, 0, 0]"

lemma matching_codec_exact_witness:
  "decode_value decode_command sample_cancel_bytes = Inr (Cancel sample_cancel) \<and>
   encode_value encode_command (\<lambda>_. True) (Cancel sample_cancel) = Inr sample_cancel_bytes"
proof -
  have "written (encode_command (Cancel sample_cancel)) = sample_cancel_bytes"
    by (simp add: encode_cancel_order_def sample_cancel_def sample_cancel_bytes_def layouts writers le_bytes_numeral le_bytes.simps)
  then have "encode_value encode_command (\<lambda>_. True) (Cancel sample_cancel) = Inr sample_cancel_bytes"
    using command_wire.encode_value_Inr [of "\<lambda>_. True" "Cancel sample_cancel"] by (simp add: admits_def width_defs sample_cancel_bytes_def)
  moreover have "valid_command (Cancel sample_cancel)"
    by (simp add: valid_cancel_order_def sample_cancel_def valid_id_def width_defs)
  moreover have "fits_usize (length sample_cancel_bytes)"
    by (simp add: sample_cancel_bytes_def width_defs)
  ultimately show ?thesis
    using matching_codec_exact [of sample_cancel_bytes "Cancel sample_cancel"] by simp
qed

end
