(* ===== verification/SessionReports.thy ===== *)
theory SessionReports
  imports SubmissionLog CodecReports
begin

text \<open>
  The reports of the matching engine on the wire: what \<open>submit\<close> returns passes the validation of the decoder, so
  that a report survives its encoding.
\<close>

section \<open>Commitments report coherently\<close>

text \<open>What the decoder demands of a report apart from its size.\<close>

definition coherent :: "ExecutionReport \<Rightarrow> bool" where
  "coherent r \<longleftrightarrow> report_events r \<noteq> [] \<and> validate_report (report_command_id r) (report_outcome r) (report_events r) = Inr ()"

lemma sequences_contiguous:
  "map event_sequence es = [n..<m] \<Longrightarrow> fits_u64 m \<Longrightarrow>
   \<not> windows_any (\<lambda>a b. case checked fits_u64 (event_sequence a + 1) of None \<Rightarrow> True | Some expected \<Rightarrow> event_sequence b \<noteq> expected) es"
proof (induction es arbitrary: n rule: induct_list012)
  case (3 x y zs)
  have s: "event_sequence x = n" "event_sequence y = Suc n" "map event_sequence (y # zs) = [Suc n..<m]" "Suc n < m"
    using upt_eq_Cons_conv [of n m "event_sequence x" "map event_sequence (y # zs)"]
      upt_eq_Cons_conv [of "Suc n" m "event_sequence y" "map event_sequence zs"] 3(3) by auto
  have "fits_u64 (Suc n)"
    using fits_u64_mono [OF 3(4), of "Suc n"] s(4) by simp
  then show ?case
    using s 3(2) [OF s(3) 3(4)] by simp
qed simp_all

lemma refusal_iff: "is_refusal k \<longleftrightarrow> (case k of CommandRejected _ \<Rightarrow> True | _ \<Rightarrow> False)"
  by (cases k) auto

lemma commit_coherent:
  assumes "commit_with_gate p gate b = Some (Inr report, b')" "reports b (command_id (prepared_command p)) = None"
  shows "coherent report"
proof -
  note l = commit_logged [OF assms]
  have "list_ex (\<lambda>e. event_command_id e \<noteq> report_command_id report) (report_events report) = False"
    using l(9,11) by (auto simp: list_ex_iff)
  moreover have "case report_outcome report of
       Accepted \<Rightarrow> \<not> list_ex (\<lambda>e. case event_kind e of CommandRejected _ \<Rightarrow> True | _ \<Rightarrow> False) (report_events report)
     | Rejected reason \<Rightarrow> length (report_events report) = 1 \<and> event_kind (report_events report ! 0) = CommandRejected reason"
    using l(14) by (cases "report_outcome report") (auto simp: list_ex_iff refusal_iff [symmetric])
  ultimately show ?thesis
    using l(10) sequences_contiguous [OF l(1,12)]
    by (cases "report_outcome report") (simp_all add: coherent_def validate_report_def)
qed

lemma cached_coherent:
  assumes "session b0 es b" "reports b0 = Map.empty"
  shows "\<forall>x cached. reports b x = Some cached \<longrightarrow> coherent (cached_report cached)"
  using assms
proof (induction rule: session.induct)
  case (submitted es b command gate pool report b' pool')
  note IH = submitted.IH [OF submitted.prems]
  from submitted.hyps(2) show ?case
  proof (cases rule: submit_cases)
    case replayed
    then show ?thesis
      using IH by simp
  next
    case (committed p)
    have new: "reports b (command_id (prepared_command p)) = None"
      using committed by simp
    show ?thesis
      using commit_coherent [OF committed(4) new] commit_logged(13) [OF committed(4) new] IH by auto
  qed
next
  case (refused es b command pool e pool' gate b' pool'')
  then have "b' = b"
    by (auto simp: submit_with_gate_def)
  then show ?case
    using refused by simp
qed simp

lemma session_coherent:
  assumes "session b0 es b" "reports b0 = Map.empty" "submit_with_gate command gate (b, pool) = Some (Inr report, b', pool')"
  shows "coherent report"
  using assms(3)
proof (cases rule: submit_cases)
  case (replayed cached)
  then show ?thesis
    using cached_coherent [OF assms(1,2)] by (simp add: coherent_def replayed_report_def)
next
  case (committed p)
  then show ?thesis
    using commit_coherent by simp
qed

section \<open>Properties\<close>

text \<open>
  C18. Whatever a session of a new book has submitted, an accepted, rejected or replayed report of its next
  submission passes the decoder's validation: its bytes decode to the report itself.
\<close>

theorem session_reports_decode:
  assumes "session (book_new i def lim) es b" "submit_with_gate command gate (b, pool) = Some (Inr report, b', pool')"
    and "valid_id (report_command_id report)" "\<forall>e\<in>set (report_events report). valid_event e"
    and "encode_report capacity report = Inr bytes"
  shows "decode_report (\<lambda>_. True) bytes = Inr report"
proof -
  have "coherent report"
    by (rule session_coherent [OF assms(1) _ assms(2)]) (simp add: book_new_def)
  then show ?thesis
    using assms(3,4) report_codec.encodes_back [OF assms(5)] by (simp add: decode_report_Inr valid_report_def coherent_def)
qed

lemma session_reports_decode_witness:
  "\<exists>bytes. encode_report (\<lambda>_. True) (report_of 2 sell_events) = Inr bytes \<and> decode_report (\<lambda>_. True) bytes = Inr (report_of 2 sell_events)"
proof -
  note first = submitted [OF opened sample_step1 [unfolded submit_def], folded sample_book_def]
  let ?r = "report_of 2 sell_events"
  have len: "length (report_bytes ?r) < 200"
    by (simp add: report_of_def sell_events_def sample_event_def report_bytes_def encode_event_def layouts writers)
  have enc: "encode_report (\<lambda>_. True) ?r = Inr (report_bytes ?r)"
    by (rule report_codec.encodes_forward) (use len in \<open>simp_all add: report_of_def sell_events_def width_defs admits_def\<close>)
  have "decode_report (\<lambda>_. True) (report_bytes ?r) = Inr ?r"
    by (rule session_reports_decode [OF first [unfolded sample_book_def] sample_step2 [unfolded submit_def] _ _ enc])
      (simp_all add: report_of_def sell_events_def sample_event_def valid_id_def valid_event_def width_defs)
  then show ?thesis
    using enc by blast
qed

end
