(* ===== verification/Spec2Isabelle.thy ===== *)
theory Spec2Isabelle
  imports BoundedHash AuctionPricing AuctionAllocation LedgerCheckpoint MatchingProperties ArenaAvlProperties
    Calendar InstrumentProperties CodecLedger CodecReference SessionReports
begin

text \<open>
  A verification library for the Rust crate Quotick (sources under \<open>src/src/\<close>), an exchange kernel made
  of deterministic, allocation-bounded components: call-auction pricing and allocation, a double-entry
  ledger, fixed-capacity indexes, a continuous matching engine and the services around them.

  \<^bold>\<open>Conventions.\<close>  Structs are records, enums are datatypes with the constructors of the source (suffixed
  where a name clashes), \<open>Result\<close> is a sum whose left side is the error, \<open>and_then\<close> is the question-mark
  operator.  Machine integers are natural numbers or integers and every \<open>checked_\<close> operation of the
  source is \<open>checked fits_\<dots>\<close> of theory \<^theory_text>\<open>Prelude\<close>, which is \<^const>\<open>None\<close> exactly when the result leaves
  the width; an operation that the source leaves unchecked is proved in range where it matters.  Where a
  definition lives in the option monad, \<^const>\<open>None\<close> is a panic (an index out of range, an \<open>expect\<close>) or a
  loop that does not return, and the theorems show that it does not happen.  Memory reservation
  (\<open>try_reserve_exact\<close>) is the parameter \<open>reserve\<close> of the operations that use it: it may refuse any
  request, and no theorem assumes that it succeeds unless it says so.

  \<^bold>\<open>Theories, in the order of the imports.\<close>

  \<^item> \<^theory_text>\<open>Prelude\<close>: the result monad, checked arithmetic and the generic list and map lemmas.
  \<^item> \<^theory_text>\<open>Domain\<close>: the scalars of \<open>domain.rs\<close>.
  \<^item> \<^theory_text>\<open>AuctionPricing\<close>: the price-discovery half of \<open>auction.rs\<close>.  The specification is the set of
    grid prices with the demand and supply at each; \<open>discover_bounded_clearing_price\<close> is proved to return
    the optimum of all admissible grid prices under the order of \<open>is_better_than\<close>, although the code only
    visits the prices where a curve changes and one interval candidate between them.
  \<^item> \<^theory_text>\<open>AuctionAllocation\<close>: the allocation half of \<open>auction.rs\<close>.  The two policies are proved equal to
    closed formulas for the share of each order (\<open>price_time_share\<close>, \<open>pro_rata_share\<close>); conservation,
    priority and proportionality follow from the formulas.  The 128-bit multiply-divide loop is exact.
  \<^item> \<^theory_text>\<open>LedgerMagnitude\<close>: the 256-bit accumulator of \<open>ledger_magnitude.rs\<close>.
  \<^item> \<^theory_text>\<open>LedgerEntry\<close>, \<^theory_text>\<open>Ledger\<close>: the records of \<open>ledger.rs\<close> and the prepare/commit protocol of single
    entries, corrections and batches.  \<^theory_text>\<open>LedgerBalances\<close> proves the balance images that the preparations
    compute (including the interleaved folds that keep intermediate sums in range) to be the exact sums.
  \<^item> \<^theory_text>\<open>LedgerHistory\<close>, \<^theory_text>\<open>LedgerEvents\<close>: the abstract ledger is the list of committed records; the function
    \<open>ledger_of\<close> rebuilds every index of the state from it.  Each operation refines appending a record to
    that list, a retry is recognised, a failed operation changes nothing, and the reachable states are
    exactly histories, from which conservation per asset and single reversal follow.
  \<^item> \<^theory_text>\<open>LedgerQueries\<close>: record resolution, balances as of a generation and the trial balance.
  \<^item> \<^theory_text>\<open>LedgerCheckpoint\<close>: the invariant audit, the capture of a checkpoint, the validation of decoded
    parts and restoration; capture and restoration are inverse on reachable ledgers.
  \<^item> \<^theory_text>\<open>BoundedHash\<close>: the open-addressing table of \<open>bounded_hash.rs\<close> with dense entries, linear probing and
    backward-shift deletion.  The locale \<open>bounded_map\<close> states what a client may rely on and is interpreted
    on the table; the hash function is an arbitrary parameter, so collisions are covered.
  \<^item> \<^theory_text>\<open>Instrument\<close>, \<^theory_text>\<open>MatchingTypes\<close>: the reference data of an instrument version (\<open>instrument.rs\<close>) with its
    admission checks, and the orders, commands, reject reasons, events and reports of \<open>matching.rs\<close>.
  \<^item> \<^theory_text>\<open>OrderedIndex\<close>: the contract of the arena map of \<open>indexed_avl.rs\<close> (a sorted association list with a
    maximum); the locale \<open>ordered_index\<close> states its laws and is interpreted on the list.
  \<^item> \<^theory_text>\<open>ArenaAvl\<close>: the arena tree of \<open>indexed_avl.rs\<close> itself, with its free list, handles and double-ended
    iterator.  \<^theory_text>\<open>AvlTree\<close> holds the functional algorithms with their order and balance facts,
    \<^theory_text>\<open>ArenaAvlCorrect\<close> proves that the arena code computes them, \<^theory_text>\<open>ArenaAvlMap\<close> and
    \<^theory_text>\<open>ArenaAvlQueries\<close> lift this to the map, \<^theory_text>\<open>ArenaAvlAudit\<close> models \<open>validate\<close>, and
    \<^theory_text>\<open>ArenaAvlProperties\<close> states the results and interprets \<open>ordered_index\<close> on the arena tree.  The height of a
    tree that fits an allocation is below the 128 the iterator stacks hold.
  \<^item> \<^theory_text>\<open>PriceLevels\<close>, \<^theory_text>\<open>LinkedOrders\<close>, \<^theory_text>\<open>OrderBookState\<close>: the price levels of a side with their cached
    extrema, the doubly linked queues threaded through the order table, and the state of the book
    (\<open>OrderBook\<close>) with every operation on resting orders and dormant stops.
  \<^item> \<^theory_text>\<open>BookSpec\<close>, \<^theory_text>\<open>BookUpdates\<close>, \<^theory_text>\<open>BookFills\<close>: the abstract book (queues of orders per price, lists of
    orders per account, sets of stops and expiries), the representation relation between it and the linked
    state, and the proofs that appending, removing, filling, replenishing and requeuing an order refine the
    abstract operations.
  \<^item> \<^theory_text>\<open>Matching\<close>: \<open>execute_incoming\<close> with its loop, self-trade prevention, remainder, trade ids and event
    trace.  \<^theory_text>\<open>MatchingSpec\<close> is the inductive specification of a run over the abstract book;
    \<^theory_text>\<open>MatchingCorrect\<close>, \<^theory_text>\<open>MatchingRuns\<close>, \<^theory_text>\<open>MatchingWork\<close> and \<^theory_text>\<open>MatchingSafety\<close> prove that the loop
    refines it, returns, stays within the announced work (\<open>maximum_matching_work\<close>) and keeps the book
    uncrossed; \<^theory_text>\<open>MatchingProperties\<close> states the results for the code.
  \<^item> \<^theory_text>\<open>Liquidity\<close>: the read-only scans behind fill-or-kill, minimum quantities and residual capacity.
  \<^item> \<^theory_text>\<open>Handlers\<close>, \<^theory_text>\<open>StopHandlers\<close>: one definition per command handler (new order, cancel, mass cancel,
    account control, trading-state control, expiry sweep, stop-trigger sweep, replacement).
  \<^item> \<^theory_text>\<open>Engine\<close>, \<^theory_text>\<open>Submission\<close>: the business rules, the capacity checks, and the prepare/commit protocol with
    leased selection buffers, report cache and gates.
  \<^item> \<^theory_text>\<open>SampleSession\<close>, \<^theory_text>\<open>SubmissionProperties\<close>, \<^theory_text>\<open>SubmissionLog\<close>: a session evaluated in the kernel (it
    supplies the witnesses, and it exhibits a defect of the residual account count), the laws of retries,
    collisions and rejections, and the numbering of events and trades over any session.
  \<^item> \<^theory_text>\<open>Calendar\<close>: the trading sessions of \<open>calendar.rs\<close>.  The pairwise form of an accepted schedule is proved
    to be what the checks of neighbours amount to, every lookup equals a search of the whole schedule, and
    the deadlines of resolved lifetimes fit the sweeps built later.
  \<^item> \<^theory_text>\<open>InstrumentCatalog\<close>: the version catalogue of \<open>instrument.rs\<close>, over the hash tables of \<^theory_text>\<open>BoundedHash\<close>.
    \<^theory_text>\<open>InstrumentHistory\<close> relates its flat arena and shifting ranges to one version history per instrument;
    \<^theory_text>\<open>InstrumentProperties\<close> proves the audit and states the results.  \<^theory_text>\<open>Slices\<close> holds the standard library's
    searches in slices that the calendar and the catalogue use.
  \<^item> \<^theory_text>\<open>Codec\<close>: the byte writer and reader of \<open>codec.rs\<close>.  A decoder is a function from the unread bytes to a value
    and the bytes left.  The locale \<open>wire\<close> states that a writer and a reader fit together, \<open>binary_codec\<close> that a
    type has exactly one encoding; \<^theory_text>\<open>CodecEnums\<close>, \<^theory_text>\<open>CodecMatching\<close> and \<^theory_text>\<open>CodecReports\<close> interpret them on
    the matching messages, \<^theory_text>\<open>CodecLedger\<close> on the ledger records and checkpoints, \<^theory_text>\<open>CodecReference\<close> on calendars
    and instrument definitions.  \<^theory_text>\<open>SessionReports\<close> joins the
    codec to the engine: what a session reports passes the checks of the decoder.

  \<^bold>\<open>Hypotheses.\<close>  The theorems assume the type invariants of the sources: quantities and counters fit their
  machine type, limits come from their validating constructor, and the hash map iteration order, where
  the code's result could depend on it, is an argument that may be any enumeration of the map.

  \<^bold>\<open>Not modelled.\<close>  Display and Debug formatting, file and journal input and output, and the components
  that the manifest lists as not modelled.
\<close>

end
